(* ===== verification/Prelude.thy ===== *)
theory Prelude
  imports Main "HOL-Library.Word"
begin

text \<open>
  Shared vocabulary of the development: the machine types the code uses, the little-endian
  byte layout of unsigned integers on x86-64 (used both by the vector registers of the hash and
  by the binary workload files), the outcome type of operations that may wait or crash, and the
  collections of rewrite rules the component theories extend.
\<close>

unbundle bit_operations_syntax

type_synonym u8 = "8 word"
type_synonym u16 = "16 word"
type_synonym u32 = "32 word"
type_synonym u64 = "64 word"

named_theorems tree_simps \<open>unfolding rules for the functional trees\<close>
named_theorems heap_simps \<open>reading and writing the node heap\<close>
named_theorems sched_simps \<open>field-wise rules for the scheduler state\<close>

section \<open>Outcomes\<close>

text \<open>
  An operation of a concurrent program either goes through, has to wait for another thread
  (it then leaves the state alone and is retried), or dereferences an invalid pointer.
\<close>

datatype 'a outcome = Done 'a | Wait | Crash

fun bind_outcome :: "'a outcome \<Rightarrow> ('a \<Rightarrow> 'b outcome) \<Rightarrow> 'b outcome" where
  "bind_outcome (Done x) f = f x"
| "bind_outcome Wait f = Wait"
| "bind_outcome Crash f = Crash"

lemma bind_outcome_eq_Done [simp]:
  "bind_outcome m f = Done y \<longleftrightarrow> (\<exists>x. m = Done x \<and> f x = Done y)"
  by (cases m) auto

lemma bind_outcome_eq_Crash:
  "bind_outcome m f = Crash \<longleftrightarrow> m = Crash \<or> (\<exists>x. m = Done x \<and> f x = Crash)"
  by (cases m) auto

fun of_option :: "'a option \<Rightarrow> 'a outcome" where
  "of_option None = Crash"
| "of_option (Some x) = Done x"

lemma of_option_eq_Done [simp]: "of_option m = Done x \<longleftrightarrow> m = Some x"
  by (cases m) auto

section \<open>Little-endian bytes\<close>

definition le_bytes :: "nat \<Rightarrow> 'a::len word \<Rightarrow> u8 list" where
  "le_bytes n x = map (\<lambda>i. ucast (drop_bit (8 * i) x)) [0..<n]"

fun of_le_bytes :: "u8 list \<Rightarrow> 'a::len word" where
  "of_le_bytes [] = 0"
| "of_le_bytes (b # bs) = ucast b OR push_bit 8 (of_le_bytes bs)"

lemma length_le_bytes [simp]: "length (le_bytes n x) = n"
  by (simp add: le_bytes_def)

lemma bit_le_bytes:
  "i < n \<Longrightarrow> bit (le_bytes n x ! i) j \<longleftrightarrow> j < 8 \<and> bit x (8 * i + j)"
  by (auto simp: le_bytes_def bit_simps)

lemma bit_of_le_bytes:
  "bit (of_le_bytes bs :: 'a::len word) n \<longleftrightarrow>
     n < LENGTH('a) \<and> n div 8 < length bs \<and> bit (bs ! (n div 8)) (n mod 8)"
proof (induction bs arbitrary: n)
  case Nil
  then show ?case by simp
next
  case (Cons b bs)
  show ?case
  proof (cases "n < 8")
    case True
    then show ?thesis by (auto simp: bit_simps dest: bit_imp_le_length)
  next
    case False
    then obtain m where n: "n = 8 + m" by (metis le_iff_add not_less)
    have "\<not> bit b n" using False by (auto dest: bit_imp_le_length)
    moreover have "n div 8 = Suc (m div 8)" "n mod 8 = m mod 8" by (simp_all add: n)
    ultimately show ?thesis using Cons.IH [of m] by (auto simp: n bit_simps dest: bit_imp_le_length)
  qed
qed

lemma le_bytes_of_le_bytes:
  assumes "8 * length bs \<le> LENGTH('a::len)"
  shows "le_bytes (length bs) (of_le_bytes bs :: 'a word) = bs"
proof (rule nth_equalityI)
  fix i assume "i < length (le_bytes (length bs) (of_le_bytes bs :: 'a word))"
  then have i: "i < length bs" by simp
  show "le_bytes (length bs) (of_le_bytes bs :: 'a word) ! i = bs ! i"
  proof (rule bit_word_eqI)
    fix j assume "j < LENGTH(8)"
    then have "j < 8" by simp
    with i assms show "bit (le_bytes (length bs) (of_le_bytes bs :: 'a word) ! i) j \<longleftrightarrow> bit (bs ! i) j"
      by (simp add: bit_le_bytes bit_of_le_bytes)
  qed
qed simp

lemma of_le_bytes_le_bytes:
  assumes "LENGTH('a::len) \<le> 8 * n"
  shows "of_le_bytes (le_bytes n (x :: 'a word)) = x"
proof (rule bit_word_eqI)
  fix m assume m: "m < LENGTH('a)"
  then have "m div 8 < n" using assms by (simp add: div_less_iff_less_mult mult.commute)
  then show "bit (of_le_bytes (le_bytes n x) :: 'a word) m \<longleftrightarrow> bit x m"
    using m by (simp add: bit_le_bytes bit_of_le_bytes)
qed

lemma le_bytes_inject:
  "LENGTH('a::len) \<le> 8 * n \<Longrightarrow> le_bytes n (x :: 'a word) = le_bytes n y \<longleftrightarrow> x = y"
  by (metis of_le_bytes_le_bytes)

lemma of_le_bytes_inject:
  assumes "length bs = length cs" and "8 * length bs \<le> LENGTH('a::len)"
  shows "(of_le_bytes bs :: 'a word) = of_le_bytes cs \<longleftrightarrow> bs = cs"
  using assms by (metis le_bytes_of_le_bytes)

end
