(* ===== verification/MC_Queue.thy ===== *)
theory MC_Queue
  imports Prelude "HOL-Library.Signed_Division"
begin

unbundle bit_operations_syntax

text \<open>
  The queue of the query processor (\<^verbatim>\<open>lib/moodycamel/concurrentqueue.h\<close>): the queue of one explicit producer, to which one
  thread enqueues while any number of threads dequeue. Elements lie in blocks of 32; the producer's blocks form a ring, and an
  index from the numbers of the elements to the blocks, itself a ring, grows by copying. A step of a thread reaches up to and including its next
  access to memory that another thread may access at that time; the flags of an empty block, which no other thread looks at, are reset in
  one step. Where a new block comes from (the pool of 32 blocks that the constructor makes, or the heap) does not matter: it is an address not used before, or none when
  memory is out. Elements are moved and constructed without exceptions, as the queries are. A read of a slot that holds no element, a
  construction over an element, a read outside an array and a failed assertion crash.
\<close>

section \<open>State\<close>

definition circular_less_than :: "u64 \<Rightarrow> u64 \<Rightarrow> bool" where
  "circular_less_than a b \<longleftrightarrow> a - b > push_bit 63 1"

record 'a mc_block =
  b_elems :: "'a option list"
  b_next :: nat
  b_flags :: "bool list"

record mc_index =
  x_size :: u64
  x_front :: u64
  x_entries :: "(u64 \<times> nat) list"

datatype 'a enqueue_pc =
    E_idle
  | E_start 'a
  | E_check 'a nat
  | E_head 'a
  | E_grow 'a
  | E_block 'a
  | E_base 'a
  | E_entry 'a
  | E_front 'a
  | E_store 'a
  | E_tail 'a

datatype 'a dequeue_pc =
    D_idle
  | D_tail
  | D_over u64
  | D_count u64 u64
  | D_claim u64
  | D_check u64 u64
  | D_undo u64
  | D_head u64
  | D_index u64
  | D_front u64 nat
  | D_base u64 nat u64
  | D_block u64 nat u64 u64
  | D_elem u64 nat
  | D_flag u64 nat 'a

record 'a mc_queue =
  tailIndex :: u64
  headIndex :: u64
  optimistic :: u64
  overcommit :: u64
  tailBlock :: "nat option"
  mc_blocks :: "nat \<Rightarrow> 'a mc_block option"
  next_block :: nat
  indices :: "nat \<Rightarrow> mc_index option"
  next_index :: nat
  blockIndex :: "nat option"
  slots_used :: u64
  index_size :: u64
  index_front :: u64
  producer :: "'a enqueue_pc"
  consumers :: "nat \<Rightarrow> 'a dequeue_pc"

datatype 'a mc_ret = Enqueued 'a | Refused 'a | Taken u64 | Dequeued u64 'a | Empty

type_synonym 'a mc_step = "('a mc_queue \<times> 'a mc_ret option) outcome"

section \<open>Blocks\<close>

definition new_block :: "nat \<Rightarrow> 'a mc_block" where
  "new_block next = \<lparr>b_elems = replicate 32 None, b_next = next, b_flags = replicate 32 False\<rparr>"

definition slot_of :: "u64 \<Rightarrow> nat" where
  "slot_of i = unat (i AND 31)"

definition flag_of :: "u64 \<Rightarrow> nat" where
  "flag_of i = 32 - 1 - unat (i AND 31)"

definition set_block :: "nat \<Rightarrow> 'a mc_block \<Rightarrow> 'a mc_queue \<Rightarrow> 'a mc_queue" where
  "set_block b B s = s\<lparr>mc_blocks := (mc_blocks s)(b \<mapsto> B)\<rparr>"

definition on_block :: "'a mc_queue \<Rightarrow> nat \<Rightarrow> ('a mc_block \<Rightarrow> 'b outcome) \<Rightarrow> 'b outcome" where
  "on_block s b f = (case mc_blocks s b of None \<Rightarrow> Crash | Some B \<Rightarrow> f B)"

definition on_index :: "'a mc_queue \<Rightarrow> nat \<Rightarrow> (mc_index \<Rightarrow> 'b outcome) \<Rightarrow> 'b outcome" where
  "on_index s p f = (case indices s p of None \<Rightarrow> Crash | Some X \<Rightarrow> f X)"

definition entry_at :: "mc_index \<Rightarrow> u64 \<Rightarrow> (u64 \<times> nat \<Rightarrow> 'b outcome) \<Rightarrow> 'b outcome" where
  "entry_at X i f = (if unat i < length (x_entries X) then f (x_entries X ! unat i) else Crash)"

section \<open>The block index\<close>

text \<open>The copying loop visits each slot at most once, so the size of the old index is enough fuel.\<close>

fun copy_entries :: "nat \<Rightarrow> (u64 \<times> nat) list \<Rightarrow> u64 \<Rightarrow> u64 \<Rightarrow> u64 \<Rightarrow> (u64 \<times> nat) list" where
  "copy_entries 0 es msk front i = []"
| "copy_entries (Suc fuel) es msk front i =
     es ! unat i # (let i = (i + 1) AND msk in if i \<noteq> front then copy_entries fuel es msk front i else [])"

definition new_block_index :: "bool \<Rightarrow> u64 \<Rightarrow> 'a mc_queue \<Rightarrow> 'a mc_queue option" where
  "new_block_index ok filled s =
     (if \<not> ok then None
      else let msk = index_size s - 1; size = push_bit 1 (index_size s);
               old = (case blockIndex s of None \<Rightarrow> [] | Some p \<Rightarrow> (case indices s p of None \<Rightarrow> [] | Some X \<Rightarrow> x_entries X));
               copied = (if slots_used s \<noteq> 0
                 then copy_entries (unat (index_size s)) old msk (index_front s) ((index_front s - slots_used s) AND msk) else []);
               X = \<lparr>x_size = size, x_front = filled - 1, x_entries = copied @ replicate (unat size - length copied) (0, 0)\<rparr>;
               q = next_index s
           in Some (s\<lparr>index_size := size, index_front := of_nat (length copied),
                indices := (indices s)(q \<mapsto> X), next_index := q + 1, blockIndex := Some q\<rparr>))"

definition make_mc_queue :: "bool \<Rightarrow> 'a mc_queue" where
  "make_mc_queue ok =
     (let s = \<lparr>tailIndex = 0, headIndex = 0, optimistic = 0, overcommit = 0, tailBlock = None, mc_blocks = Map.empty, next_block = 0,
                indices = Map.empty, next_index = 0, blockIndex = None, slots_used = 0, index_size = 16, index_front = 0,
                producer = E_idle, consumers = (\<lambda>_. D_idle)\<rparr>
      in case new_block_index ok 0 s of None \<Rightarrow> s | Some s \<Rightarrow> s)"

section \<open>Enqueue\<close>

definition E_go :: "'a enqueue_pc \<Rightarrow> 'a mc_queue \<Rightarrow> 'a mc_step" where
  "E_go pc s = Done (s\<lparr>producer := pc\<rparr>, None)"

definition E_return :: "'a mc_ret \<Rightarrow> 'a mc_queue \<Rightarrow> 'a mc_step" where
  "E_return r s = Done (s\<lparr>producer := E_idle\<rparr>, Some r)"

text \<open>\<open>ok\<close> tells whether an allocation succeeds.\<close>

fun enqueue_step :: "bool \<Rightarrow> 'a enqueue_pc \<Rightarrow> 'a mc_queue \<Rightarrow> 'a mc_step" where
  "enqueue_step ok (E_start x) s =
     (if tailIndex s AND 31 = 0 then (if tailBlock s \<noteq> None then E_go (E_check x 0) s else E_go (E_head x) s) else E_go (E_store x) s)"
| "enqueue_step ok (E_check x j) s =
     (case tailBlock s of None \<Rightarrow> Crash
      | Some t \<Rightarrow> on_block s t (\<lambda>T. on_block s (b_next T) (\<lambda>B.
          if \<not> b_flags B ! j then E_go (E_head x) s
          else if j + 1 < 32 then E_go (E_check x (j + 1)) s
          else E_go (E_base x) (set_block (b_next T) (B\<lparr>b_flags := replicate 32 False\<rparr>) s\<lparr>tailBlock := Some (b_next T)\<rparr>))))"
| "enqueue_step ok (E_head x) s =
     (let head = headIndex s
      in if circular_less_than (tailIndex s) head then Crash
         else if \<not> circular_less_than head (tailIndex s + 32) then E_return (Refused x) s
         else if blockIndex s = None \<or> slots_used s = index_size s then E_go (E_grow x) s
         else E_go (E_block x) s)"
| "enqueue_step ok (E_grow x) s =
     (case new_block_index ok (slots_used s) s of None \<Rightarrow> E_return (Refused x) s | Some s \<Rightarrow> E_go (E_block x) s)"
| "enqueue_step ok (E_block x) s =
     (if \<not> ok then E_return (Refused x) s
      else let b = next_block s; s = s\<lparr>next_block := b + 1\<rparr>
           in case tailBlock s of
                None \<Rightarrow> E_go (E_base x) (set_block b (new_block b) s\<lparr>tailBlock := Some b, slots_used := slots_used s + 1\<rparr>)
              | Some t \<Rightarrow> on_block s t (\<lambda>T.
                  E_go (E_base x) (set_block t (T\<lparr>b_next := b\<rparr>) (set_block b (new_block (b_next T)) s)
                    \<lparr>tailBlock := Some b, slots_used := slots_used s + 1\<rparr>)))"
| "enqueue_step ok (E_base x) s =
     (case blockIndex s of None \<Rightarrow> Crash
      | Some p \<Rightarrow> on_index s p (\<lambda>X. entry_at X (index_front s) (\<lambda>(base, b).
          E_go (E_entry x) (s\<lparr>indices := (indices s)(p \<mapsto> X\<lparr>x_entries := (x_entries X)[unat (index_front s) := (tailIndex s, b)]\<rparr>)\<rparr>))))"
| "enqueue_step ok (E_entry x) s =
     (case (blockIndex s, tailBlock s) of (Some p, Some t) \<Rightarrow>
        on_index s p (\<lambda>X. entry_at X (index_front s) (\<lambda>(base, b).
          E_go (E_front x) (s\<lparr>indices := (indices s)(p \<mapsto> X\<lparr>x_entries := (x_entries X)[unat (index_front s) := (base, t)]\<rparr>)\<rparr>)))
      | _ \<Rightarrow> Crash)"
| "enqueue_step ok (E_front x) s =
     (case blockIndex s of None \<Rightarrow> Crash
      | Some p \<Rightarrow> on_index s p (\<lambda>X.
          E_go (E_store x) (s\<lparr>indices := (indices s)(p \<mapsto> X\<lparr>x_front := index_front s\<rparr>),
            index_front := (index_front s + 1) AND (index_size s - 1)\<rparr>)))"
| "enqueue_step ok (E_store x) s =
     (case tailBlock s of None \<Rightarrow> Crash
      | Some t \<Rightarrow> on_block s t (\<lambda>T. let k = slot_of (tailIndex s)
          in if b_elems T ! k = None then E_go (E_tail x) (set_block t (T\<lparr>b_elems := (b_elems T)[k := Some x]\<rparr>) s) else Crash))"
| "enqueue_step ok (E_tail x) s = E_return (Enqueued x) (s\<lparr>tailIndex := tailIndex s + 1\<rparr>)"
| "enqueue_step ok E_idle s = Wait"

section \<open>Dequeue\<close>

definition D_go :: "nat \<Rightarrow> 'a dequeue_pc \<Rightarrow> 'a mc_queue \<Rightarrow> 'a mc_step" where
  "D_go c pc s = Done (s\<lparr>consumers := (consumers s)(c := pc)\<rparr>, None)"

definition D_return :: "nat \<Rightarrow> 'a mc_ret \<Rightarrow> 'a mc_queue \<Rightarrow> 'a mc_step" where
  "D_return c r s = Done (s\<lparr>consumers := (consumers s)(c := D_idle)\<rparr>, Some r)"

text \<open>The slot of the block index, from the base found at the front; offsets are negative.\<close>

definition block_slot :: "u64 \<Rightarrow> mc_index \<Rightarrow> u64 \<Rightarrow> u64 \<Rightarrow> u64" where
  "block_slot i X front headBase =
     (let blockBaseIndex = i AND NOT 31; offset = word_of_int (sint (blockBaseIndex - headBase) sdiv 32)
      in (front + offset) AND (x_size X - 1))"

fun dequeue_step :: "nat \<Rightarrow> 'a dequeue_pc \<Rightarrow> 'a mc_queue \<Rightarrow> 'a mc_step" where
  "dequeue_step c D_tail s = D_go c (D_over (tailIndex s)) s"
| "dequeue_step c (D_over tail) s = D_go c (D_count tail (overcommit s)) s"
| "dequeue_step c (D_count tail over) s =
     (if circular_less_than (optimistic s - over) tail then D_go c (D_claim over) s else D_return c Empty s)"
| "dequeue_step c (D_claim over) s = D_go c (D_check over (optimistic s)) (s\<lparr>optimistic := optimistic s + 1\<rparr>)"
| "dequeue_step c (D_check over my) s =
     (if circular_less_than (my - over) (tailIndex s) then D_go c (D_head my) s else D_go c (D_undo my) s)"
| "dequeue_step c (D_undo my) s = D_return c Empty (s\<lparr>overcommit := overcommit s + 1\<rparr>)"
| "dequeue_step c (D_head my) s =
     Done (s\<lparr>headIndex := headIndex s + 1, consumers := (consumers s)(c := D_index (headIndex s))\<rparr>, Some (Taken (headIndex s)))"
| "dequeue_step c (D_index i) s = (case blockIndex s of None \<Rightarrow> Crash | Some p \<Rightarrow> D_go c (D_front i p) s)"
| "dequeue_step c (D_front i p) s = on_index s p (\<lambda>X. D_go c (D_base i p (x_front X)) s)"
| "dequeue_step c (D_base i p front) s =
     on_index s p (\<lambda>X. entry_at X front (\<lambda>(base, b). D_go c (D_block i p front base) s))"
| "dequeue_step c (D_block i p front base) s =
     on_index s p (\<lambda>X. entry_at X (block_slot i X front base) (\<lambda>(base, b). D_go c (D_elem i b) s))"
| "dequeue_step c (D_elem i b) s =
     on_block s b (\<lambda>B. case b_elems B ! slot_of i of None \<Rightarrow> Crash
       | Some x \<Rightarrow> D_go c (D_flag i b x) (set_block b (B\<lparr>b_elems := (b_elems B)[slot_of i := None]\<rparr>) s))"
| "dequeue_step c (D_flag i b x) s =
     on_block s b (\<lambda>B. if b_flags B ! flag_of i then Crash
       else D_return c (Dequeued i x) (set_block b (B\<lparr>b_flags := (b_flags B)[flag_of i := True]\<rparr>) s))"
| "dequeue_step c D_idle s = Wait"

section \<open>Runs\<close>

datatype 'a mc_event = Start_enqueue 'a | Producer bool | Start_dequeue nat | Consumer nat

fun mc_step :: "'a mc_event \<Rightarrow> 'a mc_queue \<Rightarrow> 'a mc_step" where
  "mc_step (Start_enqueue x) s = (if producer s = E_idle then E_go (E_start x) s else Wait)"
| "mc_step (Producer ok) s = enqueue_step ok (producer s) s"
| "mc_step (Start_dequeue c) s = (if consumers s c = D_idle then D_go c D_tail s else Wait)"
| "mc_step (Consumer c) s = dequeue_step c (consumers s c) s"

fun run_mc :: "'a mc_event list \<Rightarrow> 'a mc_queue \<Rightarrow> ('a mc_queue \<times> 'a mc_ret list) outcome" where
  "run_mc [] s = Done (s, [])"
| "run_mc (e # es) s =
     bind_outcome (mc_step e s) (\<lambda>(s, r). bind_outcome (run_mc es s) (\<lambda>(s, rs).
       Done (s, (case r of None \<Rightarrow> rs | Some x \<Rightarrow> x # rs))))"

text \<open>Two elements go in, one comes out.\<close>

definition sample_events :: "nat mc_event list" where
  "sample_events = Start_enqueue 7 # replicate 8 (Producer True) @ Start_enqueue 8 # replicate 3 (Producer True) @
     Start_dequeue 1 # replicate 12 (Consumer 1)"

lemma sample_events_run:
  "case run_mc sample_events (make_mc_queue True) of Done (s, rs) \<Rightarrow> rs = [Enqueued 7, Enqueued 8, Taken 0, Dequeued 0 7] | _ \<Rightarrow> False"
  by code_simp

end
