(* ===== verification/MC_Queue_Inv.thy ===== *)
theory MC_Queue_Inv
  imports MC_Queue
begin

text \<open>
  The invariant of the queue of \<open>MC_Queue\<close>, and the arithmetic of its indices. The invariant speaks of what happened so far:
  which attempts to dequeue failed and which took an index, which elements are gone, which block holds which 32 indices, and
  which blocks are recorded in which block index. The counters: the attempts that go through are never more than the elements
  published. The store: the ring holds the last blocks in order; a slot is full from the construction of its element to its
  removal, and a flag is set when the element is gone. The indices: block \<open>n\<close> is at position \<open>n\<close> plus a constant, modulo the size.
\<close>

section \<open>Word arithmetic\<close>

lemma unat_plus_one: "unat w < 2 ^ 62 \<Longrightarrow> unat (w + 1 :: u64) = unat w + 1"
  by (subst unat_add_lem [THEN iffD1]) (simp_all)

lemma clt_iff: "unat a < 2 ^ 63 \<Longrightarrow> unat b < 2 ^ 63 \<Longrightarrow> circular_less_than a b \<longleftrightarrow> unat a < unat b"
  by (auto simp: circular_less_than_def word_less_nat_alt unat_sub_if_size word_le_nat_alt word_size)

lemma unat_minus: "unat v \<le> unat m \<Longrightarrow> unat (m - v :: u64) = unat m - unat v"
  by (simp add: unat_sub word_le_nat_alt)

lemma unat_and_mask: "unat (w AND mask e :: u64) = unat w mod 2 ^ e"
  by (simp only: take_bit_eq_mask [symmetric] unsigned_take_bit_eq) (simp add: take_bit_eq_mod)

lemma and_size: "sz = 2 ^ e \<Longrightarrow> unat (w AND (sz - 1) :: u64) = unat w mod 2 ^ e"
  by (simp add: unat_and_mask flip: mask_eq_exp_minus_1)

lemma unat_and31: "unat (i AND 31 :: u64) = unat i mod 32"
  using and_size [of 32 5 i] by simp

lemma mask31: "(31 :: u64) = mask 5"
  by (simp add: mask_eq_exp_minus_1)

lemma and31_zero: "i AND 31 = 0 \<longleftrightarrow> unat (i :: u64) mod 32 = 0"
  by (metis unat_and31 unat_0 word_unat_eq_iff)

lemma and_not31: "i AND NOT 31 = of_nat (32 * (unat (i :: u64) div 32))"
proof -
  have "i AND NOT 31 = push_bit 5 (drop_bit 5 i)" by (rule bit_eqI) (auto simp: bit_simps bit_push_bit_iff mask31)
  moreover have "drop_bit 5 i = of_nat (unat i div 32)"
    using unsigned_less [of i, where ?'a = nat] by (simp add: word_unat_eq_iff unat_of_nat drop_bit_eq_div unat_div take_bit_eq_mod)
  ultimately show ?thesis by (simp add: push_bit_eq_mult)
qed

lemma slot_of_eq: "slot_of i = unat i mod 32" and flag_of_eq: "flag_of i = 31 - unat i mod 32"
  by (simp_all add: slot_of_def flag_of_def unat_and31)

lemma sint_back: "d < 2 ^ 62 \<Longrightarrow> sint (- of_nat d :: u64) = - int d"
proof -
  assume "d < 2 ^ 62"
  have "sint (word_of_int (- int d) :: u64) = - int d" using \<open>d < 2 ^ 62\<close>
    by (subst signed_of_int) (simp add: signed_take_bit_int_eq_self del: of_int_minus of_int_of_nat_eq)
  moreover have "(- of_nat d :: u64) = word_of_int (- int d)" by simp
  ultimately show ?thesis by (simp only:)
qed

lemma unat_add_mod: "unat (a + b :: u64) mod 2 ^ e = (unat a + unat b) mod 2 ^ e" if "e < 64"
proof -
  have "(2::nat) ^ e dvd 2 ^ 64" using that by (intro le_imp_power_dvd) simp
  then show ?thesis by (simp add: unat_word_ariths mod_mod_cancel)
qed

lemma block_slot_eq:
  assumes "x_size X = 2 ^ e" "e < 63" "unat i div 32 = n" "n < M" "M < 2 ^ 56" "unat base = 32 * (M - 1)" "unat f = (M - 1 + z) mod 2 ^ e"
  shows "unat (block_slot i X f base) = (n + z) mod 2 ^ e"
proof -
  let ?d = "M - 1 - n"
  have c: "base = of_nat (32 * (M - 1))" using assms(6) by (metis of_nat_unat ucast_id)
  have m: "32 * (M - 1) = 32 * n + 32 * ?d" using assms(4) by simp
  have "(i AND NOT 31) - base = - of_nat (32 * ?d)" unfolding c and_not31 assms(3) m by simp
  moreover have "32 * ?d < 2 ^ 62" using assms(5) by simp
  ultimately have "sint ((i AND NOT 31) - base) sdiv 32 = - int ?d"
    using sint_back [of "32 * ?d"] by (simp only:) (simp add: signed_divide_int_def sgn_if)
  then have s: "block_slot i X f base = (f - of_nat ?d) AND (2 ^ e - 1)"
    by (simp add: block_slot_def Let_def assms(1))
  have "unat (f - of_nat ?d) mod 2 ^ e = (n + z) mod 2 ^ e"
  proof -
    have "(unat (f - of_nat ?d) + ?d) mod 2 ^ e = unat f mod 2 ^ e"
      using unat_add_mod [of e "f - of_nat ?d" "of_nat ?d"] assms(2,5) by (simp add: unat_of_nat)
    also have "\<dots> = (n + z + ?d) mod 2 ^ e" using assms(4,7) by (simp add: add.commute)
    finally show ?thesis by (simp add: nat_mod_eq_iff add.assoc)
  qed
  then show ?thesis using s by (simp add: and_size)
qed


section \<open>Numbers that are shared out\<close>

text \<open>The numbers below \<open>N\<close> are settled or belong to one thread each.\<close>

definition shared_out :: "nat \<Rightarrow> nat set \<Rightarrow> ('p \<Rightarrow> nat option) \<Rightarrow> (nat \<Rightarrow> 'p) \<Rightarrow> bool" where
  "shared_out N D own cs \<longleftrightarrow> {..<N} = D \<union> {m. \<exists>c. own (cs c) = Some m} \<and> (\<forall>c m. own (cs c) = Some m \<longrightarrow> m \<notin> D) \<and>
     (\<forall>c c' m. own (cs c) = Some m \<longrightarrow> own (cs c') = Some m \<longrightarrow> c = c')"

lemma shared_out_same: "shared_out N D own cs \<Longrightarrow> own pc = own (cs c) \<Longrightarrow> shared_out N D own (cs(c := pc))"
proof -
  assume a: "shared_out N D own cs" "own pc = own (cs c)"
  then have "own ((cs(c := pc)) d) = own (cs d)" for d by simp
  with a show ?thesis unfolding shared_out_def by simp
qed

lemma shared_out_below: "shared_out N D own cs \<Longrightarrow> own (cs c) = Some m \<Longrightarrow> m < N \<and> m \<notin> D"
  unfolding shared_out_def by blast

lemma shared_out_sub: "shared_out N D own cs \<Longrightarrow> D \<subseteq> {..<N}"
  unfolding shared_out_def by blast

lemma shared_out_unique: "shared_out N D own cs \<Longrightarrow> own (cs c) = Some m \<Longrightarrow> own (cs c') = Some m \<Longrightarrow> c = c'"
  unfolding shared_out_def by blast

lemma shared_out_take:
  assumes "shared_out N D own cs" "own (cs c) = None" "own pc = Some N"
  shows "shared_out (Suc N) D own (cs(c := pc))"
proof -
  have o: "own ((cs(c := pc)) d) = (if d = c then Some N else own (cs d))" for d using assms(3) by simp
  have e: "{m. \<exists>d. own ((cs(c := pc)) d) = Some m} = insert N {m. \<exists>d. own (cs d) = Some m}" unfolding o using assms(2) by (auto split: if_splits) (metis option.distinct(1))
  have b: "own (cs d) = Some m \<Longrightarrow> m < N" for d m using shared_out_below [OF assms(1)] by blast
  show ?thesis using assms(1) shared_out_sub [OF assms(1)] b unfolding shared_out_def e unfolding o
    by (auto simp: lessThan_Suc split: if_splits)
qed

lemma shared_out_give:
  assumes "shared_out N D own cs" "own (cs c) = Some m" "own pc = None"
  shows "shared_out N (insert m D) own (cs(c := pc))"
proof -
  have o: "own ((cs(c := pc)) d) = (if d = c then None else own (cs d))" for d using assms(3) by simp
  have e: "insert m {m. \<exists>d. own ((cs(c := pc)) d) = Some m} = {m. \<exists>d. own (cs d) = Some m}" unfolding o using assms(2) by (auto split: if_splits) (metis option.inject)
  have u: "own (cs d) = Some m \<Longrightarrow> d = c" for d using shared_out_unique [OF assms(1) _ assms(2)] by blast
  show ?thesis using assms(1) e u unfolding shared_out_def o by (auto split: if_splits)
qed

section \<open>Invariant\<close>

text \<open>
  What the invariant remembers: the elements constructed, the number of them published, the numbers given to attempts to dequeue,
  those of failed attempts that were counted and of attempts that took an index, the indices whose elements are gone and
  whose flags are set, the block of every 32 indices, and for every block index the number of blocks recorded in it, its offset and the
  logarithm of its size.
\<close>

record 'a mc_ghost =
  g_log :: "'a list"
  g_tail :: nat
  g_count :: nat
  g_failed :: "nat set"
  g_got :: "nat set"
  g_removed :: "nat set"
  g_done :: "nat set"
  g_hist :: "nat list"
  g_rec :: "nat \<Rightarrow> nat"
  g_off :: "nat \<Rightarrow> nat"
  g_exp :: "nat \<Rightarrow> nat"

definition fails :: "'a mc_ghost \<Rightarrow> nat \<Rightarrow> nat" where
  "fails G m = card (g_failed G \<inter> {..<m})"

fun ticket :: "'a dequeue_pc \<Rightarrow> nat option" where
  "ticket (D_check v m) = Some (unat m)"
| "ticket (D_undo m) = Some (unat m)"
| "ticket (D_head m) = Some (unat m)"
| "ticket _ = None"

fun held :: "'a dequeue_pc \<Rightarrow> nat option" where
  "held (D_index i) = Some (unat i)"
| "held (D_front i p) = Some (unat i)"
| "held (D_base i p f) = Some (unat i)"
| "held (D_block i p f b) = Some (unat i)"
| "held (D_elem i b) = Some (unat i)"
| "held (D_flag i b x) = Some (unat i)"
| "held _ = None"

fun flagging :: "'a dequeue_pc \<Rightarrow> bool" where
  "flagging (D_flag i b x) = True"
| "flagging _ = False"

fun consumer_ok :: "'a mc_ghost \<Rightarrow> 'a dequeue_pc \<Rightarrow> bool" where
  "consumer_ok G (D_count t v) \<longleftrightarrow> unat v \<le> card (g_failed G)"
| "consumer_ok G (D_claim v) \<longleftrightarrow> unat v \<le> card (g_failed G)"
| "consumer_ok G (D_check v m) \<longleftrightarrow> unat v \<le> fails G (unat m)"
| "consumer_ok G (D_head m) \<longleftrightarrow> unat m < g_tail G + fails G (unat m)"
| "consumer_ok G (D_front i p) \<longleftrightarrow> unat i div 32 < g_rec G p"
| "consumer_ok G (D_base i p f) \<longleftrightarrow> (\<exists>M. unat i div 32 < M \<and> M \<le> g_rec G p \<and> unat f = (M - 1 + g_off G p) mod 2 ^ g_exp G p)"
| "consumer_ok G (D_block i p f b) \<longleftrightarrow>
     (\<exists>M. unat i div 32 < M \<and> M \<le> g_rec G p \<and> unat f = (M - 1 + g_off G p) mod 2 ^ g_exp G p \<and> unat b = 32 * (M - 1))"
| "consumer_ok G (D_elem i b) \<longleftrightarrow> unat i div 32 < length (g_hist G) \<and> b = g_hist G ! (unat i div 32)"
| "consumer_ok G (D_flag i b x) \<longleftrightarrow> unat i div 32 < length (g_hist G) \<and> b = g_hist G ! (unat i div 32) \<and>
     unat i < g_tail G \<and> unat i < length (g_log G) \<and> x = g_log G ! unat i"
| "consumer_ok G _ \<longleftrightarrow> True"

definition numbers_ok :: "'a mc_ghost \<Rightarrow> 'a mc_queue \<Rightarrow> bool" where
  "numbers_ok G s \<longleftrightarrow> unat (tailIndex s) = g_tail G \<and> unat (optimistic s) = g_count G \<and> unat (overcommit s) = card (g_failed G) \<and>
     unat (headIndex s) = card (g_got G) \<and> g_failed G \<inter> g_got G = {} \<and> (\<forall>m \<in> g_got G. m < g_tail G + fails G m) \<and>
     shared_out (g_count G) (g_failed G \<union> g_got G) ticket (consumers s) \<and>
     shared_out (card (g_got G)) (g_done G) held (consumers s) \<and>
     g_removed G = g_done G \<union> {i. \<exists>c. held (consumers s c) = Some i \<and> flagging (consumers s c)} \<and>
     (\<forall>c. consumer_ok G (consumers s c))"

definition content :: "'a mc_ghost \<Rightarrow> nat \<Rightarrow> 'a option" where
  "content G j = (if j \<in> g_removed G \<or> length (g_log G) \<le> j then None else Some (g_log G ! j))"

definition block_ok :: "'a mc_ghost \<Rightarrow> nat \<Rightarrow> 'a mc_block \<Rightarrow> bool" where
  "block_ok G n B \<longleftrightarrow> length (b_elems B) = 32 \<and> length (b_flags B) = 32 \<and>
     (\<forall>j < 32. b_elems B ! j = content G (32 * n + j) \<and> (b_flags B ! (31 - j) \<longleftrightarrow> 32 * n + j \<in> g_done G))"

definition oldest :: "'a mc_ghost \<Rightarrow> 'a mc_queue \<Rightarrow> nat" where
  "oldest G s = length (g_hist G) - unat (slots_used s)"

definition store_ok :: "'a mc_ghost \<Rightarrow> 'a mc_queue \<Rightarrow> bool" where
  "store_ok G s \<longleftrightarrow> unat (slots_used s) \<le> length (g_hist G) \<and> (g_hist G \<noteq> [] \<longrightarrow> 0 < unat (slots_used s)) \<and>
     tailBlock s = (if g_hist G = [] then None else Some (last (g_hist G))) \<and> (\<forall>b \<in> set (g_hist G). b < next_block s) \<and>
     inj_on (nth (g_hist G)) {oldest G s..<length (g_hist G)} \<and> {..<32 * oldest G s} \<subseteq> g_done G \<and>
     (\<forall>n \<in> {oldest G s..<length (g_hist G)}. \<exists>B. mc_blocks s (g_hist G ! n) = Some B \<and> block_ok G n B \<and>
        b_next B = g_hist G ! (if Suc n = length (g_hist G) then oldest G s else Suc n))"

definition entry_ok :: "'a mc_ghost \<Rightarrow> nat \<Rightarrow> nat \<Rightarrow> mc_index \<Rightarrow> bool" where
  "entry_ok G p n X \<longleftrightarrow> x_entries X ! ((n + g_off G p) mod 2 ^ g_exp G p) = (of_nat (32 * n), g_hist G ! n)"

definition one_index_ok :: "'a mc_ghost \<Rightarrow> nat \<Rightarrow> nat \<Rightarrow> mc_index \<Rightarrow> bool" where
  "one_index_ok G old p X \<longleftrightarrow> g_exp G p < 63 \<and> x_size X = 2 ^ g_exp G p \<and> length (x_entries X) = 2 ^ g_exp G p \<and>
     (0 < g_rec G p \<longrightarrow> unat (x_front X) = (g_rec G p - 1 + g_off G p) mod 2 ^ g_exp G p) \<and>
     (\<forall>n \<in> {old..<g_rec G p}. entry_ok G p n X) \<and> g_rec G p \<le> length (g_hist G)"

definition index_ok :: "'a mc_ghost \<Rightarrow> 'a mc_queue \<Rightarrow> bool" where
  "index_ok G s \<longleftrightarrow>
     (case blockIndex s of None \<Rightarrow> g_hist G = [] \<and> index_size s = 16
      | Some p \<Rightarrow> indices s p \<noteq> None \<and> 5 \<le> g_exp G p \<and> index_size s = 2 ^ g_exp G p \<and> unat (slots_used s) \<le> 2 ^ g_exp G p \<and>
          (g_exp G p = 5 \<or> 2 ^ g_exp G p \<le> 2 * unat (slots_used s)) \<and>
          unat (index_front s) = (g_rec G p + g_off G p) mod 2 ^ g_exp G p) \<and>
     (\<forall>p. indices s p = None \<longrightarrow> g_rec G p = 0) \<and>
     (\<forall>p X. indices s p = Some X \<longrightarrow> p < next_index s \<and> one_index_ok G (oldest G s) p X)"

fun recording :: "'a enqueue_pc \<Rightarrow> bool" where
  "recording (E_base x) = True"
| "recording (E_entry x) = True"
| "recording (E_front x) = True"
| "recording _ = False"

fun producer_ok :: "'a mc_ghost \<Rightarrow> 'a mc_queue \<Rightarrow> 'a enqueue_pc \<Rightarrow> bool" where
  "producer_ok G s E_idle \<longleftrightarrow> length (g_hist G) = (g_tail G + 31) div 32"
| "producer_ok G s (E_start x) \<longleftrightarrow> length (g_hist G) = (g_tail G + 31) div 32"
| "producer_ok G s (E_check x j) \<longleftrightarrow> g_tail G = 32 * length (g_hist G) \<and> g_hist G \<noteq> [] \<and> j < 32 \<and>
     (\<forall>i < j. 32 * oldest G s + (31 - i) \<in> g_done G)"
| "producer_ok G s (E_head x) \<longleftrightarrow> g_tail G = 32 * length (g_hist G)"
| "producer_ok G s (E_grow x) \<longleftrightarrow> g_tail G = 32 * length (g_hist G) \<and> (blockIndex s = None \<or> slots_used s = index_size s)"
| "producer_ok G s (E_block x) \<longleftrightarrow> g_tail G = 32 * length (g_hist G) \<and> blockIndex s \<noteq> None \<and> unat (slots_used s) < unat (index_size s)"
| "producer_ok G s (E_base x) \<longleftrightarrow> g_hist G \<noteq> [] \<and> g_tail G = 32 * (length (g_hist G) - 1)"
| "producer_ok G s (E_entry x) \<longleftrightarrow> g_hist G \<noteq> [] \<and> g_tail G = 32 * (length (g_hist G) - 1) \<and>
     (\<forall>p X. blockIndex s = Some p \<longrightarrow> indices s p = Some X \<longrightarrow>
        fst (x_entries X ! ((length (g_hist G) - 1 + g_off G p) mod 2 ^ g_exp G p)) = of_nat (32 * (length (g_hist G) - 1)))"
| "producer_ok G s (E_front x) \<longleftrightarrow> g_hist G \<noteq> [] \<and> g_tail G = 32 * (length (g_hist G) - 1) \<and>
     (\<forall>p X. blockIndex s = Some p \<longrightarrow> indices s p = Some X \<longrightarrow> entry_ok G p (length (g_hist G) - 1) X)"
| "producer_ok G s (E_store x) \<longleftrightarrow> Suc (g_tail G div 32) = length (g_hist G)"
| "producer_ok G s (E_tail x) \<longleftrightarrow> Suc (g_tail G div 32) = length (g_hist G)"

definition log_ok :: "'a mc_ghost \<Rightarrow> 'a mc_queue \<Rightarrow> bool" where
  "log_ok G s \<longleftrightarrow> (case producer s of E_tail x \<Rightarrow> length (g_log G) = Suc (g_tail G) \<and> g_log G ! g_tail G = x | _ \<Rightarrow> length (g_log G) = g_tail G) \<and>
     (\<forall>p. blockIndex s = Some p \<longrightarrow> g_rec G p = (if recording (producer s) then length (g_hist G) - 1 else length (g_hist G)))"

definition mc_inv :: "'a mc_ghost \<Rightarrow> 'a mc_queue \<Rightarrow> bool" where
  "mc_inv G s \<longleftrightarrow> numbers_ok G s \<and> store_ok G s \<and> index_ok G s \<and> log_ok G s \<and> producer_ok G s (producer s)"


section \<open>Frames\<close>

lemma oldest_frame [simp]:
  "oldest G (s\<lparr>consumers := cs\<rparr>) = oldest G s"
  "oldest G (s\<lparr>optimistic := w\<rparr>) = oldest G s"
  "oldest G (s\<lparr>overcommit := w\<rparr>) = oldest G s"
  "oldest G (s\<lparr>headIndex := w\<rparr>) = oldest G s"
  by (simp_all add: oldest_def)

lemma consumers_frame [simp]:
  "store_ok G (s\<lparr>consumers := cs\<rparr>) = store_ok G s"
  "store_ok G (s\<lparr>optimistic := w\<rparr>) = store_ok G s"
  "store_ok G (s\<lparr>overcommit := w\<rparr>) = store_ok G s"
  "store_ok G (s\<lparr>headIndex := w\<rparr>) = store_ok G s"
  "index_ok G (s\<lparr>consumers := cs\<rparr>) = index_ok G s"
  "index_ok G (s\<lparr>optimistic := w\<rparr>) = index_ok G s"
  "index_ok G (s\<lparr>overcommit := w\<rparr>) = index_ok G s"
  "index_ok G (s\<lparr>headIndex := w\<rparr>) = index_ok G s"
  "log_ok G (s\<lparr>consumers := cs\<rparr>) = log_ok G s"
  "log_ok G (s\<lparr>optimistic := w\<rparr>) = log_ok G s"
  "log_ok G (s\<lparr>overcommit := w\<rparr>) = log_ok G s"
  "log_ok G (s\<lparr>headIndex := w\<rparr>) = log_ok G s"
  by (simp_all add: store_ok_def index_ok_def log_ok_def cong: option.case_cong)

lemma steps_frame [simp]:
  "producer_ok G (s\<lparr>consumers := cs\<rparr>) pc = producer_ok G s pc"
  "producer_ok G (s\<lparr>optimistic := w\<rparr>) pc = producer_ok G s pc"
  "producer_ok G (s\<lparr>overcommit := w\<rparr>) pc = producer_ok G s pc"
  "producer_ok G (s\<lparr>headIndex := w\<rparr>) pc = producer_ok G s pc"
  by (cases pc; simp)+

lemma content_frame [simp]:
  "content (G\<lparr>g_count := n\<rparr>) j = content G j" "content (G\<lparr>g_failed := A\<rparr>) j = content G j" "content (G\<lparr>g_got := A\<rparr>) j = content G j"
  by (simp_all add: content_def)

lemma block_frame [simp]:
  "block_ok (G\<lparr>g_count := n\<rparr>) i B = block_ok G i B" "block_ok (G\<lparr>g_failed := A\<rparr>) i B = block_ok G i B" "block_ok (G\<lparr>g_got := A\<rparr>) i B = block_ok G i B"
  by (simp_all add: block_ok_def)

lemma index_frame [simp]:
  "one_index_ok (G\<lparr>g_count := n\<rparr>) i p X = one_index_ok G i p X" "one_index_ok (G\<lparr>g_failed := A\<rparr>) i p X = one_index_ok G i p X"
  "one_index_ok (G\<lparr>g_got := A\<rparr>) i p X = one_index_ok G i p X" "one_index_ok (G\<lparr>g_removed := A\<rparr>) i p X = one_index_ok G i p X"
  "one_index_ok (G\<lparr>g_done := A\<rparr>) i p X = one_index_ok G i p X"
  by (simp_all add: one_index_ok_def entry_ok_def)

lemma ghost_frame [simp]:
  "oldest (G\<lparr>g_count := n\<rparr>) s = oldest G s" "oldest (G\<lparr>g_failed := A\<rparr>) s = oldest G s" "oldest (G\<lparr>g_got := A\<rparr>) s = oldest G s"
  "oldest (G\<lparr>g_removed := A\<rparr>) s = oldest G s" "oldest (G\<lparr>g_done := A\<rparr>) s = oldest G s"
  "store_ok (G\<lparr>g_count := n\<rparr>) s = store_ok G s" "store_ok (G\<lparr>g_failed := A\<rparr>) s = store_ok G s" "store_ok (G\<lparr>g_got := A\<rparr>) s = store_ok G s"
  "log_ok (G\<lparr>g_count := n\<rparr>) s = log_ok G s" "log_ok (G\<lparr>g_failed := A\<rparr>) s = log_ok G s" "log_ok (G\<lparr>g_got := A\<rparr>) s = log_ok G s"
  "log_ok (G\<lparr>g_removed := A\<rparr>) s = log_ok G s" "log_ok (G\<lparr>g_done := A\<rparr>) s = log_ok G s"
  "index_ok (G\<lparr>g_count := n\<rparr>) s = index_ok G s" "index_ok (G\<lparr>g_failed := A\<rparr>) s = index_ok G s" "index_ok (G\<lparr>g_got := A\<rparr>) s = index_ok G s"
  "index_ok (G\<lparr>g_removed := A\<rparr>) s = index_ok G s" "index_ok (G\<lparr>g_done := A\<rparr>) s = index_ok G s"
  by (simp_all add: oldest_def store_ok_def log_ok_def index_ok_def cong: option.case_cong enqueue_pc.case_cong)

lemma producer_frame [simp]:
  "producer_ok (G\<lparr>g_count := n\<rparr>) s pc = producer_ok G s pc" "producer_ok (G\<lparr>g_failed := A\<rparr>) s pc = producer_ok G s pc"
  "producer_ok (G\<lparr>g_got := A\<rparr>) s pc = producer_ok G s pc" "producer_ok (G\<lparr>g_removed := A\<rparr>) s pc = producer_ok G s pc"
  by (cases pc; simp add: entry_ok_def)+

definition grown :: "'a mc_ghost \<Rightarrow> 'a mc_ghost \<Rightarrow> bool" where
  "grown G G' \<longleftrightarrow> g_failed G \<subseteq> g_failed G' \<and> finite (g_failed G') \<and> g_tail G \<le> g_tail G' \<and>
     length (g_hist G) \<le> length (g_hist G') \<and> (\<forall>n < length (g_hist G). g_hist G' ! n = g_hist G ! n) \<and>
     length (g_log G) \<le> length (g_log G') \<and> (\<forall>n < length (g_log G). g_log G' ! n = g_log G ! n) \<and>
     (\<forall>p. 0 < g_rec G p \<longrightarrow> g_rec G p \<le> g_rec G' p \<and> g_off G' p = g_off G p \<and> g_exp G' p = g_exp G p)"

lemma fails_mono: "g_failed G \<subseteq> g_failed G' \<Longrightarrow> fails G m \<le> fails G' m"
  unfolding fails_def by (rule card_mono) auto

lemma consumer_ok_grown: "consumer_ok G pc \<Longrightarrow> grown G G' \<Longrightarrow> consumer_ok G' pc"
proof (cases pc)
  case (D_count t v) then show "consumer_ok G pc \<Longrightarrow> grown G G' \<Longrightarrow> ?thesis" by (auto simp: grown_def dest: card_mono)
next
  case (D_claim v) then show "consumer_ok G pc \<Longrightarrow> grown G G' \<Longrightarrow> ?thesis" by (auto simp: grown_def dest: card_mono)
next
  case (D_check v m) then show "consumer_ok G pc \<Longrightarrow> grown G G' \<Longrightarrow> ?thesis" using fails_mono [of G G' "unat m"] by (simp add: grown_def)
next
  case (D_head m) then show "consumer_ok G pc \<Longrightarrow> grown G G' \<Longrightarrow> ?thesis" using fails_mono [of G G' "unat m"] by (simp add: grown_def)
next
  case (D_front i p) then show "consumer_ok G pc \<Longrightarrow> grown G G' \<Longrightarrow> ?thesis" by (simp add: grown_def) (metis less_le_trans not_less0 neq0_conv)
next
  case (D_base i p f)
  assume a: "consumer_ok G pc" "grown G G'"
  from a(1) D_base obtain M where m: "unat i div 32 < M" "M \<le> g_rec G p" "unat f = (M - 1 + g_off G p) mod 2 ^ g_exp G p" by auto
  then have "0 < g_rec G p" by simp
  with a(2) m have "M \<le> g_rec G' p" "unat f = (M - 1 + g_off G' p) mod 2 ^ g_exp G' p" by (auto simp: grown_def intro: le_trans)
  with m D_base show ?thesis by auto
next
  case (D_block i p f b)
  assume a: "consumer_ok G pc" "grown G G'"
  from a(1) D_block obtain M where m: "unat i div 32 < M" "M \<le> g_rec G p" "unat f = (M - 1 + g_off G p) mod 2 ^ g_exp G p" "unat b = 32 * (M - 1)" by auto
  then have "0 < g_rec G p" by simp
  with a(2) m have "M \<le> g_rec G' p" "unat f = (M - 1 + g_off G' p) mod 2 ^ g_exp G' p" by (auto simp: grown_def intro: le_trans)
  with m D_block show ?thesis by auto
qed (auto simp: grown_def)

end
