(* ===== verification/MC_Queue_Take.thy ===== *)
theory MC_Queue_Take
  imports MC_Queue_Inv
begin

text \<open>
  The invariant implies that a step of a dequeue never crashes and keeps the invariant, and that the step is one of the
  abstract queue: it takes the next number, or hands out the element of a number that was taken, or changes nothing.
\<close>

lemma mc_inv_parts:
  assumes "mc_inv G s"
  shows "unat (tailIndex s) = g_tail G" "unat (optimistic s) = g_count G" "unat (overcommit s) = card (g_failed G)"
    "unat (headIndex s) = card (g_got G)" "g_failed G \<inter> g_got G = {}" "\<And>m. m \<in> g_got G \<Longrightarrow> m < g_tail G + fails G m"
    "shared_out (g_count G) (g_failed G \<union> g_got G) ticket (consumers s)"
    "shared_out (card (g_got G)) (g_done G) held (consumers s)"
    "g_removed G = g_done G \<union> {i. \<exists>c. held (consumers s c) = Some i \<and> flagging (consumers s c)}"
    "consumer_ok G (consumers s c)"
    "store_ok G s" "index_ok G s" "log_ok G s" "producer_ok G s (producer s)" "numbers_ok G s"
  using assms unfolding mc_inv_def numbers_ok_def by blast+

lemma finite_numbers:
  assumes "mc_inv G s" shows "finite (g_failed G)" "finite (g_got G)"
proof -
  have "finite (g_failed G \<union> g_got G)"
    by (rule finite_subset [OF shared_out_sub [OF mc_inv_parts(7) [OF assms]]]) simp
  then show "finite (g_failed G)" "finite (g_got G)" by simp_all
qed

lemma grown_refl: "mc_inv G s \<Longrightarrow> grown G G"
  by (simp add: grown_def finite_numbers)

text \<open>The part of the invariant about threads and numbers, after a step of one consumer.\<close>

lemma numbers_step:
  assumes "mc_inv G s" "grown G G'" "consumer_ok G' pc" "g_failed G' \<inter> g_got G' = {}" "\<forall>m \<in> g_got G'. m < g_tail G' + fails G' m"
    and "shared_out (g_count G') (g_failed G' \<union> g_got G') ticket ((consumers s)(c := pc))"
    and "shared_out (card (g_got G')) (g_done G') held ((consumers s)(c := pc))"
    and "g_removed G' = g_done G' \<union> {i. \<exists>d. held (((consumers s)(c := pc)) d) = Some i \<and> flagging (((consumers s)(c := pc)) d)}"
    and "unat (tailIndex s') = g_tail G'" "unat (optimistic s') = g_count G'" "unat (overcommit s') = card (g_failed G')"
    and "unat (headIndex s') = card (g_got G')" "consumers s' = (consumers s)(c := pc)"
  shows "numbers_ok G' s'"
proof -
  have "consumer_ok G' (consumers s d)" for d by (rule consumer_ok_grown [OF mc_inv_parts(10) [OF assms(1)] assms(2)])
  then show ?thesis using assms(3-) unfolding numbers_ok_def by simp
qed

lemma holders_same:
  "held pc = held (cs c) \<Longrightarrow> flagging pc = flagging (cs c) \<Longrightarrow>
     {i. \<exists>d. held ((cs(c := pc)) d) = Some i \<and> flagging ((cs(c := pc)) d)} = {i. \<exists>d. held (cs d) = Some i \<and> flagging (cs d)}"
  by auto

lemma holders_quiet:
  "\<not> flagging pc \<Longrightarrow> \<not> flagging (cs c) \<Longrightarrow>
     {i. \<exists>d. held ((cs(c := pc)) d) = Some i \<and> flagging ((cs(c := pc)) d)} = {i. \<exists>d. held (cs d) = Some i \<and> flagging (cs d)}"
  by auto

lemma some_updated: "(\<exists>d. P ((cs(c := pc)) d)) \<longleftrightarrow> P pc \<or> (\<exists>d. d \<noteq> c \<and> P (cs d))"
  by auto

lemma holders_more:
  assumes "held pc = Some i" "flagging pc" "\<not> flagging (cs c)"
  shows "{k. \<exists>d. held ((cs(c := pc)) d) = Some k \<and> flagging ((cs(c := pc)) d)} =
    insert i {k. \<exists>d. held (cs d) = Some k \<and> flagging (cs d)}"
  unfolding some_updated [of "\<lambda>x. held x = Some _ \<and> flagging x"] using assms by auto

lemma holders_less:
  assumes "held (cs c) = Some i" "flagging (cs c)" "\<not> flagging pc"
  shows "{k. \<exists>d. held (cs d) = Some k \<and> flagging (cs d)} =
    insert i {k. \<exists>d. held ((cs(c := pc)) d) = Some k \<and> flagging ((cs(c := pc)) d)}"
  unfolding some_updated [of "\<lambda>x. held x = Some _ \<and> flagging x"] using assms by auto (metis option.inject)

lemma consumer_move:
  assumes "mc_inv G s" "consumer_ok G pc"
    and "held pc = held (consumers s c)" "ticket pc = ticket (consumers s c)" "flagging pc = flagging (consumers s c)"
  shows "mc_inv G (s\<lparr>consumers := (consumers s)(c := pc)\<rparr>)"
proof -
  note p = mc_inv_parts [OF assms(1)]
  have "numbers_ok G (s\<lparr>consumers := (consumers s)(c := pc)\<rparr>)"
    by (rule numbers_step [OF assms(1) grown_refl [OF assms(1)] assms(2)])
      (use p assms in \<open>simp_all add: holders_same shared_out_same del: fun_upd_apply\<close>)
  then show ?thesis using p unfolding mc_inv_def by simp
qed

text \<open>The attempts that took an index are at most the elements published.\<close>

lemma got_bound:
  assumes "finite Q" "Q \<inter> F = {}" "\<forall>m \<in> Q. m < T + card (F \<inter> {..<m})"
  shows "card Q \<le> T"
proof (cases "Q = {}")
  case False
  let ?m = "Max Q"
  have m: "?m \<in> Q" using assms(1) False by simp
  have "Q \<subseteq> {..?m} - F \<inter> {..<?m}" using assms(1,2) by auto
  then have "card Q \<le> card ({..?m} - F \<inter> {..<?m})" by (simp add: card_mono)
  also have "\<dots> = Suc ?m - card (F \<inter> {..<?m})" by (subst card_Diff_subset) auto
  finally show ?thesis using assms(3) m by fastforce
qed simp

lemma head_le_tail: "mc_inv G s \<Longrightarrow> card (g_got G) \<le> g_tail G"
  using got_bound [of "g_got G" "g_failed G" "g_tail G"] mc_inv_parts(5,6) [of G s] finite_numbers [of G s]
  by (auto simp: fails_def)

lemma held_below:
  assumes "mc_inv G s" "held (consumers s c) = Some i"
  shows "i < card (g_got G)" "i < g_tail G" "i \<notin> g_done G" "i \<in> g_removed G \<longleftrightarrow> flagging (consumers s c)"
proof -
  note p = mc_inv_parts [OF assms(1)]
  show 1: "i < card (g_got G)" "i \<notin> g_done G" using shared_out_below [of _ _ held, OF p(8) assms(2)] by simp_all
  show "i < g_tail G" using 1 head_le_tail [OF assms(1)] by simp
  have "held (consumers s d) = Some i \<Longrightarrow> d = c" for d using shared_out_unique [of _ _ held, OF p(8) _ assms(2)] by blast
  then show "i \<in> g_removed G \<longleftrightarrow> flagging (consumers s c)" using 1 assms(2) unfolding p(9) by blast
qed

lemma log_length: "mc_inv G s \<Longrightarrow> g_tail G \<le> length (g_log G)"
  using mc_inv_parts(13) [of G s] by (auto simp: log_ok_def split: enqueue_pc.splits)

lemma hist_length:
  assumes "mc_inv G s" shows "g_tail G \<le> 32 * length (g_hist G) \<and> length (g_hist G) \<le> Suc (g_tail G)"
  using mc_inv_parts(14) [OF assms] by (cases "producer s"; cases "g_hist G") auto

text \<open>The block of an index that a consumer holds is in the ring.\<close>

lemma held_block:
  assumes "mc_inv G s" "held (consumers s c) = Some i"
  shows "i div 32 < length (g_hist G)" "oldest G s \<le> i div 32"
    "\<exists>B. mc_blocks s (g_hist G ! (i div 32)) = Some B \<and> block_ok G (i div 32) B"
proof -
  note h = held_below [OF assms] and st = mc_inv_parts(11) [OF assms(1), unfolded store_ok_def]
  show 1: "i div 32 < length (g_hist G)" using h hist_length [OF assms(1)] by auto
  have "\<not> i < 32 * oldest G s" using h st by blast
  then show 2: "oldest G s \<le> i div 32" by auto
  show "\<exists>B. mc_blocks s (g_hist G ! (i div 32)) = Some B \<and> block_ok G (i div 32) B" using st 1 2 by fastforce
qed

text \<open>The abstract queue: the elements published, the number of them taken, and the indices of those handed out.\<close>

type_synonym 'a mc_view = "'a list \<times> nat \<times> nat set"

definition view :: "'a mc_ghost \<Rightarrow> 'a mc_view" where
  "view G = (take (g_tail G) (g_log G), card (g_got G), g_done G)"

fun queue_does :: "'a mc_view \<Rightarrow> 'a mc_ret option \<Rightarrow> 'a mc_view \<Rightarrow> bool" where
  "queue_does (xs, h, D) (Some (Enqueued x)) v \<longleftrightarrow> v = (xs @ [x], h, D)"
| "queue_does (xs, h, D) (Some (Taken i)) v \<longleftrightarrow> unat i = h \<and> h < length xs \<and> v = (xs, Suc h, D)"
| "queue_does (xs, h, D) (Some (Dequeued i x)) v \<longleftrightarrow>
     unat i < h \<and> unat i \<notin> D \<and> x = xs ! unat i \<and> v = (xs, h, insert (unat i) D)"
| "queue_does (xs, h, D) _ v \<longleftrightarrow> v = (xs, h, D)"

definition steps_to :: "'a mc_ghost \<Rightarrow> 'a mc_step \<Rightarrow> bool" where
  "steps_to G out \<longleftrightarrow> (\<exists>s' r G'. out = Done (s', r) \<and> mc_inv G' s' \<and> queue_does (view G) r (view G') \<and>
     g_tail G' + g_count G' \<le> Suc (g_tail G + g_count G))"

lemma steps_toI:
  "mc_inv G' s' \<Longrightarrow> queue_does (view G) r (view G') \<Longrightarrow> g_tail G' + g_count G' \<le> Suc (g_tail G + g_count G) \<Longrightarrow> steps_to G (Done (s', r))"
  unfolding steps_to_def by blast

lemma quiet [simp]: "queue_does v None v'  \<longleftrightarrow> v' = v" "queue_does v (Some Empty) v' \<longleftrightarrow> v' = v" "queue_does v (Some (Refused x)) v' \<longleftrightarrow> v' = v"
  by (cases v; auto)+

lemma D_go_ok:
  assumes "mc_inv G s" "consumer_ok G pc"
    and "held pc = held (consumers s c)" "ticket pc = ticket (consumers s c)" "flagging pc = flagging (consumers s c)"
  shows "steps_to G (D_go c pc s)"
  unfolding D_go_def using consumer_move [OF assms] by (auto intro!: steps_toI)

lemma claim_ok:
  assumes "mc_inv G s" "consumers s c = D_claim v" "g_count G < 2 ^ 56"
  shows "steps_to G (dequeue_step c (D_claim v) s)"
proof -
  note p = mc_inv_parts [OF assms(1)]
  let ?G = "G\<lparr>g_count := Suc (g_count G)\<rparr>" and ?pc = "D_check v (optimistic s)"
  let ?s = "s\<lparr>optimistic := optimistic s + 1, consumers := (consumers s)(c := ?pc)\<rparr>"
  have gr: "grown G ?G" using finite_numbers [OF assms(1)] by (simp add: grown_def)
  have "g_failed G \<inter> {..<g_count G} = g_failed G" using shared_out_sub [OF p(7)] by blast
  then have ok: "consumer_ok ?G ?pc" using p(10) [of c] p(2) assms(2) by (simp add: fails_def)
  have t: "shared_out (Suc (g_count G)) (g_failed G \<union> g_got G) ticket ((consumers s)(c := ?pc))"
    by (rule shared_out_take [OF p(7)]) (simp_all add: assms(2) p(2))
  have h: "shared_out (card (g_got G)) (g_done G) held ((consumers s)(c := ?pc))"
    by (rule shared_out_same [where own = held, OF p(8)]) (simp add: assms(2))
  have "unat (optimistic s + 1) = Suc (g_count G)" using unat_plus_one [of "optimistic s"] p(2) assms(3) by simp
  then have "numbers_ok ?G ?s"
    using p(5,6) t h assms(2) p(1,3,4,9) by (intro numbers_step [OF assms(1) gr ok]) (simp_all add: holders_same fails_def del: fun_upd_apply)
  moreover have "store_ok ?G ?s" "index_ok ?G ?s" "log_ok ?G ?s" "producer_ok ?G ?s (producer ?s)" using p by simp_all
  ultimately have "mc_inv ?G ?s" unfolding mc_inv_def by blast
  then show ?thesis by (auto simp: D_go_def view_def intro!: steps_toI)
qed


lemma undo_ok:
  assumes "mc_inv G s" "consumers s c = D_undo m" "g_count G < 2 ^ 56"
  shows "steps_to G (dequeue_step c (D_undo m) s)"
proof -
  note p = mc_inv_parts [OF assms(1)] and fin = finite_numbers [OF assms(1)]
  let ?G = "G\<lparr>g_failed := insert (unat m) (g_failed G)\<rparr>" and ?pc = "D_idle"
  let ?s = "s\<lparr>overcommit := overcommit s + 1, consumers := (consumers s)(c := ?pc)\<rparr>"
  have own: "ticket (consumers s c) = Some (unat m)" by (simp add: assms(2))
  note b = shared_out_below [of _ _ ticket, OF p(7) own]
  have gr: "grown G ?G" using fin by (auto simp: grown_def)
  have t: "shared_out (g_count G) (insert (unat m) (g_failed G) \<union> g_got G) ticket ((consumers s)(c := ?pc))"
    using shared_out_give [of _ _ ticket, OF p(7) own, of ?pc] by simp
  have h: "shared_out (card (g_got G)) (g_done G) held ((consumers s)(c := ?pc))"
    by (rule shared_out_same [where own = held, OF p(8)]) (simp add: assms(2))
  have "card (g_failed G) \<le> g_count G" using shared_out_sub [OF p(7)] card_mono [of "{..<g_count G}" "g_failed G"] by simp
  then have "unat (overcommit s + 1) = Suc (card (g_failed G))" using unat_plus_one [of "overcommit s"] p(3) assms(3) by simp
  moreover have "\<forall>j \<in> g_got G. j < g_tail G + fails ?G j" using p(6) less_le_trans [OF _ add_left_mono [OF fails_mono [of G ?G]]] by (simp add: subset_insertI)
  ultimately have "numbers_ok ?G ?s"
    using p(5) t h b assms(2) fin p(1,2,4,9) by (intro numbers_step [OF assms(1) gr, of ?pc]) (simp_all add: holders_same del: fun_upd_apply)
  moreover have "store_ok ?G ?s" "index_ok ?G ?s" "log_ok ?G ?s" "producer_ok ?G ?s (producer ?s)" using p by simp_all
  ultimately have "mc_inv ?G ?s" unfolding mc_inv_def by blast
  then show ?thesis by (auto simp: D_return_def view_def intro!: steps_toI)
qed

lemma head_ok:
  assumes "mc_inv G s" "consumers s c = D_head m" "g_tail G < 2 ^ 56"
  shows "steps_to G (dequeue_step c (D_head m) s)"
proof -
  note p = mc_inv_parts [OF assms(1)] and fin = finite_numbers [OF assms(1)]
  let ?G = "G\<lparr>g_got := insert (unat m) (g_got G)\<rparr>" and ?pc = "D_index (headIndex s)"
  let ?s = "s\<lparr>headIndex := headIndex s + 1, consumers := (consumers s)(c := ?pc)\<rparr>"
  have own: "ticket (consumers s c) = Some (unat m)" by (simp add: assms(2))
  note b = shared_out_below [of _ _ ticket, OF p(7) own]
  have gr: "grown G ?G" using fin by (auto simp: grown_def)
  have t: "shared_out (g_count G) (g_failed G \<union> insert (unat m) (g_got G)) ticket ((consumers s)(c := ?pc))"
    using shared_out_give [of _ _ ticket, OF p(7) own, of ?pc] by simp
  have h: "shared_out (Suc (card (g_got G))) (g_done G) held ((consumers s)(c := ?pc))"
    by (rule shared_out_take [of _ _ held, OF p(8)]) (simp_all add: assms(2) p(4))
  have "unat (headIndex s + 1) = Suc (card (g_got G))" using unat_plus_one [of "headIndex s"] p(4) head_le_tail [OF assms(1)] assms(3) by simp
  moreover have new: "\<forall>j \<in> insert (unat m) (g_got G). j < g_tail G + fails ?G j" using p(6) p(10) [of c] assms(2) by (auto simp: fails_def)
  moreover have "{i. \<exists>d. held (((consumers s)(c := ?pc)) d) = Some i \<and> flagging (((consumers s)(c := ?pc)) d)} =
      {i. \<exists>d. held (consumers s d) = Some i \<and> flagging (consumers s d)}" by (rule holders_quiet) (simp_all add: assms(2))
  ultimately have "numbers_ok ?G ?s"
    using p(5) t h b fin p(1-3,9) by (intro numbers_step [OF assms(1) gr, of ?pc]) (simp_all del: fun_upd_apply)
  moreover have "store_ok ?G ?s" "index_ok ?G ?s" "log_ok ?G ?s" "producer_ok ?G ?s (producer ?s)" using p by simp_all
  ultimately have inv: "mc_inv ?G ?s" unfolding mc_inv_def by blast
  have "card (g_got G) < g_tail G" using head_le_tail [OF inv] fin b by simp
  then show ?thesis using inv fin b p(4) log_length [OF assms(1)] by (auto simp: view_def intro!: steps_toI)
qed

section \<open>Reading the block index\<close>

lemma known_index:
  assumes "mc_inv G s" "0 < g_rec G p"
  obtains X where "indices s p = Some X" "one_index_ok G (oldest G s) p X"
proof -
  note ih = mc_inv_parts(12) [OF assms(1), unfolded index_ok_def]
  with assms(2) obtain X where x: "indices s p = Some X" by (cases "indices s p") auto
  with ih that show thesis by blast
qed

lemma current_index:
  assumes "mc_inv G s" "i < g_tail G"
  obtains p where "blockIndex s = Some p" "i div 32 < g_rec G p"
proof -
  note ih = mc_inv_parts(12) [OF assms(1), unfolded index_ok_def] and lg = mc_inv_parts(13) [OF assms(1), unfolded log_ok_def]
  have "length (g_hist G) \<noteq> 0" using hist_length [OF assms(1)] assms(2) by auto
  with ih obtain p where q: "blockIndex s = Some p" by (auto split: option.splits)
  with lg have r: "g_rec G p = (if recording (producer s) then length (g_hist G) - 1 else length (g_hist G))" by blast
  have "i div 32 < g_rec G p"
  proof (cases "recording (producer s)")
    case True
    then have "g_tail G = 32 * (length (g_hist G) - 1)" using mc_inv_parts(14) [OF assms(1)] by (cases "producer s") auto
    then show ?thesis using True r assms(2) by auto
  next
    case False
    then show ?thesis using r assms(2) hist_length [OF assms(1)] by auto
  qed
  with q that show thesis by blast
qed

lemma front_ok:
  assumes "mc_inv G s" "consumers s c = D_front i p"
  shows "steps_to G (dequeue_step c (D_front i p) s)"
proof -
  have r: "unat i div 32 < g_rec G p" using mc_inv_parts(10) [OF assms(1), of c] assms(2) by simp
  then obtain X where x: "indices s p = Some X" "one_index_ok G (oldest G s) p X" using known_index [OF assms(1)] by (metis neq0_conv not_less0)
  have "consumer_ok G (D_base i p (x_front X))" using r x(2) by (auto simp: one_index_ok_def)
  then show ?thesis using D_go_ok [OF assms(1), of "D_base i p (x_front X)" c] assms(2) x(1) by (simp add: on_index_def)
qed

lemma base_ok:
  assumes "mc_inv G s" "consumers s c = D_base i p f" "g_tail G < 2 ^ 56"
  shows "steps_to G (dequeue_step c (D_base i p f) s)"
proof -
  have "consumer_ok G (D_base i p f)" using mc_inv_parts(10) [OF assms(1), of c] assms(2) by simp
  then obtain M where m: "unat i div 32 < M" "M \<le> g_rec G p" "unat f = (M - 1 + g_off G p) mod 2 ^ g_exp G p" by auto
  then obtain X where x: "indices s p = Some X" "one_index_ok G (oldest G s) p X" using known_index [OF assms(1), of p] by (metis neq0_conv not_less0 order.strict_trans2)
  note o = x(2) [unfolded one_index_ok_def] and hb = held_block [OF assms(1), of c "unat i"]
  have "oldest G s \<le> M - 1" using hb(2) assms(2) m(1) by simp
  then have "entry_ok G p (M - 1) X" using o m by auto
  then have e: "x_entries X ! unat f = (of_nat (32 * (M - 1)), g_hist G ! (M - 1))" using m(3) by (simp add: entry_ok_def)
  have "M \<le> Suc (g_tail G)" using o m(2) hist_length [OF assms(1)] by simp
  then have u: "unat (of_nat (32 * (M - 1)) :: u64) = 32 * (M - 1)" using assms(3) by (simp only: unat_of_nat) simp
  have "unat f < length (x_entries X)" using o m(3) by simp
  moreover have "consumer_ok G (D_block i p f (of_nat (32 * (M - 1))))" using m u by auto
  ultimately show ?thesis using D_go_ok [OF assms(1), of "D_block i p f (of_nat (32 * (M - 1)))" c] assms(2) x(1) e
    by (simp add: on_index_def entry_at_def)
qed

lemma block_step_ok:
  assumes "mc_inv G s" "consumers s c = D_block i p f b" "g_tail G < 2 ^ 55"
  shows "steps_to G (dequeue_step c (D_block i p f b) s)"
proof -
  let ?n = "unat i div 32"
  have "consumer_ok G (D_block i p f b)" using mc_inv_parts(10) [OF assms(1), of c] assms(2) by simp
  then obtain M where m: "?n < M" "M \<le> g_rec G p" "unat f = (M - 1 + g_off G p) mod 2 ^ g_exp G p" "unat b = 32 * (M - 1)" by auto
  then obtain X where x: "indices s p = Some X" "one_index_ok G (oldest G s) p X" using known_index [OF assms(1), of p] by (metis neq0_conv not_less0 order.strict_trans2)
  note o = x(2) [unfolded one_index_ok_def] and hb = held_block [OF assms(1), of c "unat i"]
  have "M < 2 ^ 56" using o m(2) hist_length [OF assms(1)] assms(3) by simp
  then have u: "unat (block_slot i X f b) = (?n + g_off G p) mod 2 ^ g_exp G p"
    using o m by (intro block_slot_eq [where M = M]) simp_all
  have "entry_ok G p ?n X" using o m hb(2) assms(2) by simp
  then have e: "x_entries X ! unat (block_slot i X f b) = (of_nat (32 * ?n), g_hist G ! ?n)" using u by (simp add: entry_ok_def)
  have "unat (block_slot i X f b) < length (x_entries X)" using o u by simp
  moreover have "consumer_ok G (D_elem i (g_hist G ! ?n))" using hb(1) assms(2) by simp
  ultimately show ?thesis using D_go_ok [OF assms(1), of "D_elem i (g_hist G ! ?n)" c] assms(2) x(1) e
    by (simp add: on_index_def entry_at_def)
qed


section \<open>Taking an element\<close>

lemma store_update:
  assumes "store_ok G s" "n \<in> {oldest G s..<length (g_hist G)}" "mc_blocks s (g_hist G ! n) = Some B"
    and "block_ok G' n B'" "b_next B' = b_next B" "g_hist G' = g_hist G" "g_done G \<subseteq> g_done G'"
    and "\<And>m X. m \<noteq> n \<Longrightarrow> block_ok G m X \<Longrightarrow> block_ok G' m X"
  shows "store_ok G' (set_block (g_hist G ! n) B' s)"
proof -
  let ?s = "set_block (g_hist G ! n) B' s"
  note st = assms(1) [unfolded store_ok_def]
  have old: "oldest G' ?s = oldest G s" by (simp add: oldest_def set_block_def assms(6))
  have "\<exists>C. mc_blocks ?s (g_hist G ! m) = Some C \<and> block_ok G' m C \<and>
      b_next C = g_hist G ! (if Suc m = length (g_hist G) then oldest G s else Suc m)"
    if m: "m \<in> {oldest G s..<length (g_hist G)}" for m
  proof (cases "m = n")
    case True
    from st m obtain C where "mc_blocks s (g_hist G ! m) = Some C"
      "b_next C = g_hist G ! (if Suc m = length (g_hist G) then oldest G s else Suc m)" by blast
    then show ?thesis using True assms(3-5) by (simp add: set_block_def)
  next
    case False
    then have "g_hist G ! m \<noteq> g_hist G ! n" using st m assms(2) by (meson inj_onD)
    then have "mc_blocks ?s (g_hist G ! m) = mc_blocks s (g_hist G ! m)" by (simp add: set_block_def)
    moreover from st m obtain C where "mc_blocks s (g_hist G ! m) = Some C" "block_ok G m C"
      "b_next C = g_hist G ! (if Suc m = length (g_hist G) then oldest G s else Suc m)" by blast
    ultimately show ?thesis using assms(8) [OF False] by auto
  qed
  then have blocks: "\<forall>m \<in> {oldest G s..<length (g_hist G)}. \<exists>C. mc_blocks ?s (g_hist G ! m) = Some C \<and> block_ok G' m C \<and>
      b_next C = g_hist G ! (if Suc m = length (g_hist G) then oldest G s else Suc m)" by blast
  have same: "slots_used ?s = slots_used s" "tailBlock ?s = tailBlock s" "next_block ?s = next_block s" by (simp_all add: set_block_def)
  have sub: "{..<32 * oldest G s} \<subseteq> g_done G'" using st assms(7) by blast
  show ?thesis unfolding store_ok_def old assms(6) same using st sub blocks by blast
qed

lemma set_block_frame [simp]:
  "index_ok G (set_block b B s) = index_ok G s" "log_ok G (set_block b B s) = log_ok G s" "oldest G (set_block b B s) = oldest G s"
  by (simp_all add: set_block_def index_ok_def log_ok_def oldest_def cong: option.case_cong enqueue_pc.case_cong)

lemma set_block_sel [simp]:
  "producer (set_block b B s) = producer s" "consumers (set_block b B s) = consumers s" "tailIndex (set_block b B s) = tailIndex s"
  "headIndex (set_block b B s) = headIndex s" "optimistic (set_block b B s) = optimistic s" "overcommit (set_block b B s) = overcommit s"
  "tailBlock (set_block b B s) = tailBlock s" "mc_blocks (set_block b B s) = (mc_blocks s)(b \<mapsto> B)" "next_block (set_block b B s) = next_block s"
  "indices (set_block b B s) = indices s" "next_index (set_block b B s) = next_index s" "blockIndex (set_block b B s) = blockIndex s"
  "slots_used (set_block b B s) = slots_used s" "index_size (set_block b B s) = index_size s" "index_front (set_block b B s) = index_front s"
  by (simp_all add: set_block_def)

lemma set_block_producer [simp]: "producer_ok G (set_block b B s) pc = producer_ok G s pc"
  by (cases pc; simp)

lemma elem_ok:
  assumes "mc_inv G s" "consumers s c = D_elem i b"
  shows "steps_to G (dequeue_step c (D_elem i b) s)"
proof -
  note p = mc_inv_parts [OF assms(1)]
  let ?i = "unat i" and ?n = "unat i div 32" and ?G = "G\<lparr>g_removed := insert (unat i) (g_removed G)\<rparr>"
  have own: "held (consumers s c) = Some ?i" by (simp add: assms(2))
  note b = held_below [OF assms(1) own] and hb = held_block [OF assms(1) own]
  have bn: "b = g_hist G ! ?n" using p(10) [of c] assms(2) by simp
  obtain B where B: "mc_blocks s b = Some B" "block_ok G ?n B" using hb(3) bn by auto
  let ?x = "g_log G ! ?i" and ?B = "B\<lparr>b_elems := (b_elems B)[slot_of i := None]\<rparr>"
  have i: "?i = 32 * ?n + ?i mod 32" by simp
  have len: "?i < length (g_log G)" using b log_length [OF assms(1)] by simp
  have "content G ?i = Some ?x" using b len assms(2) by (simp add: content_def)
  then have x: "b_elems B ! slot_of i = Some ?x" using B(2) i unfolding block_ok_def slot_of_eq by (metis mod_less_divisor zero_less_numeral)
  let ?pc = "D_flag i b ?x" and ?t = "set_block b ?B s"
  let ?s = "?t\<lparr>consumers := (consumers s)(c := ?pc)\<rparr>"
  have other: "content ?G j = content G j" if "j \<noteq> ?i" for j using that by (simp add: content_def)
  have "block_ok ?G ?n ?B"
  proof -
    have "32 * ?n + j = ?i \<longleftrightarrow> j = ?i mod 32" for j using i by linarith
    then have "content ?G (32 * ?n + j) = (if j = ?i mod 32 then None else content G (32 * ?n + j))" for j
      using other [of "32 * ?n + j"] by (auto simp: content_def)
    then show ?thesis using B(2) unfolding block_ok_def slot_of_eq by (simp add: nth_list_update)
  qed
  moreover have "block_ok G m X \<Longrightarrow> block_ok ?G m X" if "m \<noteq> ?n" for m X
  proof -
    have "32 * m + j \<noteq> ?i" if "j < 32" for j using that \<open>m \<noteq> ?n\<close> by auto
    then show "block_ok G m X \<Longrightarrow> block_ok ?G m X" using other by (simp add: block_ok_def)
  qed
  ultimately have st: "store_ok ?G ?t" using store_update [OF p(11), of ?n B ?G ?B] hb B(1) bn by simp
  have hold: "{k. \<exists>d. held (((consumers s)(c := ?pc)) d) = Some k \<and> flagging (((consumers s)(c := ?pc)) d)} =
      insert ?i {k. \<exists>d. held (consumers s d) = Some k \<and> flagging (consumers s d)}"
    by (rule holders_more) (simp_all add: assms(2))
  have "numbers_ok ?G ?s"
  proof (rule numbers_step [OF assms(1)])
    show "grown G ?G" using finite_numbers [OF assms(1)] by (simp add: grown_def)
    show "g_removed ?G = g_done ?G \<union> {k. \<exists>d. held (((consumers s)(c := ?pc)) d) = Some k \<and> flagging (((consumers s)(c := ?pc)) d)}"
      using p(9) unfolding hold by simp
  qed (use p assms(2) hb bn b len in \<open>simp_all add: shared_out_same fails_def del: fun_upd_apply\<close>)
  moreover have "store_ok ?G ?s" "index_ok ?G ?s" "log_ok ?G ?s" "producer_ok ?G ?s (producer ?s)" using p(11-14) st by simp_all
  ultimately have "mc_inv ?G ?s" unfolding mc_inv_def by blast
  then show ?thesis using B(1) x by (auto simp: D_go_def on_block_def view_def intro!: steps_toI)
qed


lemma producer_ok_done: "producer_ok G s pc \<Longrightarrow> g_done G \<subseteq> A \<Longrightarrow> producer_ok (G\<lparr>g_done := A\<rparr>) s pc"
  by (cases pc) (auto simp: entry_ok_def)

lemma flag_ok:
  assumes "mc_inv G s" "consumers s c = D_flag i b x"
  shows "steps_to G (dequeue_step c (D_flag i b x) s)"
proof -
  note p = mc_inv_parts [OF assms(1)]
  let ?i = "unat i" and ?n = "unat i div 32" and ?G = "G\<lparr>g_done := insert (unat i) (g_done G)\<rparr>" and ?pc = "D_idle"
  have own: "held (consumers s c) = Some ?i" by (simp add: assms(2))
  note b = held_below [OF assms(1) own] and hb = held_block [OF assms(1) own]
  have bn: "b = g_hist G ! ?n" "x = g_log G ! ?i" using p(10) [of c] assms(2) by simp_all
  obtain B where B: "mc_blocks s b = Some B" "block_ok G ?n B" using hb(3) bn by auto
  let ?B = "B\<lparr>b_flags := (b_flags B)[flag_of i := True]\<rparr>"
  have i: "?i = 32 * ?n + ?i mod 32" by simp
  have f: "\<not> b_flags B ! flag_of i" using B(2) b(3) i unfolding block_ok_def flag_of_eq by (metis mod_less_divisor zero_less_numeral)
  let ?t = "set_block b ?B s"
  let ?s = "?t\<lparr>consumers := (consumers s)(c := ?pc)\<rparr>"
  have c: "content ?G j = content G j" for j by (simp add: content_def)
  have "block_ok ?G ?n ?B"
  proof -
    have "32 * ?n + j = ?i \<longleftrightarrow> j = ?i mod 32" for j using i by linarith
    moreover have "j < 32 \<Longrightarrow> 31 - ?i mod 32 = 31 - j \<longleftrightarrow> j = ?i mod 32" for j using mod_less_divisor [of 32 ?i] by linarith
    ultimately show ?thesis using B(2) unfolding block_ok_def flag_of_eq c by (auto simp: nth_list_update)
  qed
  moreover have "block_ok G m X \<Longrightarrow> block_ok ?G m X" if "m \<noteq> ?n" for m X
  proof -
    have "32 * m + j \<noteq> ?i" if "j < 32" for j using that \<open>m \<noteq> ?n\<close> by auto
    then show "block_ok G m X \<Longrightarrow> block_ok ?G m X" by (simp add: block_ok_def c)
  qed
  ultimately have st: "store_ok ?G ?t" using store_update [OF p(11), of ?n B ?G ?B] hb B(1) bn by (simp add: subset_insertI)
  have "{k. \<exists>d. held (consumers s d) = Some k \<and> flagging (consumers s d)} =
      insert ?i {k. \<exists>d. held (((consumers s)(c := ?pc)) d) = Some k \<and> flagging (((consumers s)(c := ?pc)) d)}" (is "_ = insert ?i ?R")
    by (rule holders_less) (simp_all add: assms(2))
  then have hold: "g_removed G = insert ?i (g_done G) \<union> ?R" unfolding p(9) by simp
  have sh: "shared_out (card (g_got G)) (insert ?i (g_done G)) held ((consumers s)(c := ?pc))"
    by (rule shared_out_give [of _ _ held, OF p(8) own]) simp
  have "numbers_ok ?G ?s"
  proof (rule numbers_step [OF assms(1)])
    show "grown G ?G" using finite_numbers [OF assms(1)] by (simp add: grown_def)
  qed (use p assms(2) hold sh in \<open>simp_all add: shared_out_same fails_def del: fun_upd_apply\<close>)
  moreover have "store_ok ?G ?s" "index_ok ?G ?s" "log_ok ?G ?s" "producer_ok ?G ?s (producer ?s)"
    using p(11-14) st producer_ok_done [OF p(14), of "insert ?i (g_done G)"] by (simp_all add: subset_insertI)
  ultimately have "mc_inv ?G ?s" unfolding mc_inv_def by blast
  then show ?thesis using B(1) f b bn by (auto simp: D_return_def on_block_def view_def intro!: steps_toI)
qed

lemma dequeue_step_ok:
  assumes "mc_inv G s" "g_tail G + g_count G < 2 ^ 55" "consumers s c \<noteq> D_idle"
  shows "steps_to G (dequeue_step c (consumers s c) s)"
proof -
  note p = mc_inv_parts [OF assms(1)] and pc = mc_inv_parts(10) [OF assms(1), of c] and ok = mc_inv_parts(7) [OF assms(1)]
  have bounds: "g_count G < 2 ^ 56" "g_tail G < 2 ^ 56" "g_tail G < 2 ^ 55" using assms(2) by auto
  show ?thesis
  proof (cases "consumers s c")
    case (D_tail) then show ?thesis using D_go_ok [OF assms(1), of "D_over (tailIndex s)" c] by simp
  next
    case (D_over t) then show ?thesis using D_go_ok [OF assms(1), of "D_count t (overcommit s)" c] p(3) by simp
  next
    case (D_count t v)
    have "mc_inv G (s\<lparr>consumers := (consumers s)(c := D_idle)\<rparr>)" by (rule consumer_move [OF assms(1)]) (simp_all add: D_count)
    then have "steps_to G (D_return c Empty s)" by (auto simp: D_return_def intro!: steps_toI)
    then show ?thesis using D_count D_go_ok [OF assms(1), of "D_claim v" c] pc by simp
  next
    case (D_check v m)
    have "unat m < g_count G" using shared_out_below [of _ _ ticket, OF ok, of c "unat m"] D_check by simp
    moreover have "fails G (unat m) \<le> unat m" using card_mono [of "{..<unat m}" "g_failed G \<inter> {..<unat m}"] by (simp add: fails_def)
    moreover have v: "unat v \<le> fails G (unat m)" using pc D_check by simp
    ultimately have "circular_less_than (m - v) (tailIndex s) \<longleftrightarrow> unat m - unat v < g_tail G"
      using clt_iff [of "m - v" "tailIndex s"] bounds p(1) by (simp add: unat_minus)
    then show ?thesis using D_check v D_go_ok [OF assms(1), of "D_head m" c] D_go_ok [OF assms(1), of "D_undo m" c] by auto
  next
    case (D_index i)
    then obtain q where "blockIndex s = Some q" "unat i div 32 < g_rec G q"
      using current_index [OF assms(1)] held_below(2) [OF assms(1), of c "unat i"] by auto
    then show ?thesis using D_index D_go_ok [OF assms(1), of "D_front i q" c] by simp
  qed (use assms bounds in \<open>simp_all only: claim_ok undo_ok head_ok front_ok base_ok block_step_ok elem_ok flag_ok\<close>)
qed

end
