(* ===== verification/MC_Queue_Put.thy ===== *)
theory MC_Queue_Put
  imports MC_Queue_Take
begin

text \<open>
  The same for the steps of an enqueue: the reuse of the oldest block of the ring, a new block behind the newest, the record of a block
  in the index, the copy of the index into one of twice the size, the construction of the element and its publication.
\<close>

section \<open>Frames\<close>

lemma numbers_put:
  assumes "numbers_ok G s" "grown G G'" "g_count G' = g_count G" "g_failed G' = g_failed G" "g_got G' = g_got G" "g_removed G' = g_removed G" "g_done G' = g_done G"
    and "unat (tailIndex s') = g_tail G'" "optimistic s' = optimistic s" "overcommit s' = overcommit s" "headIndex s' = headIndex s" "consumers s' = consumers s"
  shows "numbers_ok G' s'"
proof -
  have "fails G' m = fails G m" for m using assms(4) by (simp add: fails_def)
  moreover have "g_tail G \<le> g_tail G'" using assms(2) by (simp add: grown_def)
  moreover have "consumer_ok G' (consumers s c)" for c using assms(1,2) consumer_ok_grown [of G "consumers s c" G'] by (simp add: numbers_ok_def)
  ultimately show ?thesis using assms(1,3-) unfolding numbers_ok_def by (auto intro: less_le_trans)
qed

lemma producer_sel_frame [simp]:
  "oldest G (s\<lparr>producer := pc\<rparr>) = oldest G s" "store_ok G (s\<lparr>producer := pc\<rparr>) = store_ok G s" "index_ok G (s\<lparr>producer := pc\<rparr>) = index_ok G s"
  by (simp_all add: oldest_def store_ok_def index_ok_def cong: option.case_cong)

lemma producer_self_frame [simp]: "producer_ok G (s\<lparr>producer := pc'\<rparr>) pc = producer_ok G s pc"
  by (cases pc; simp)

lemma producer_move:
  assumes "mc_inv G s" "producer_ok G s pc" "recording pc = recording (producer s)" "\<And>x. pc \<noteq> E_tail x" "\<And>x. producer s \<noteq> E_tail x"
  shows "mc_inv G (s\<lparr>producer := pc\<rparr>)"
proof -
  note p = mc_inv_parts [OF assms(1)]
  have "numbers_ok G (s\<lparr>producer := pc\<rparr>)" by (rule numbers_put [OF p(15) grown_refl [OF assms(1)]]) (simp_all add: p(1))
  moreover have "log_ok G (s\<lparr>producer := pc\<rparr>)" using p(13) assms(3-5) by (auto simp: log_ok_def split: enqueue_pc.splits)
  ultimately show ?thesis using p assms(2) by (simp add: mc_inv_def)
qed

lemma E_go_ok:
  assumes "mc_inv G s" "producer_ok G s pc" "recording pc = recording (producer s)" "\<And>x. pc \<noteq> E_tail x" "\<And>x. producer s \<noteq> E_tail x"
  shows "steps_to G (E_go pc s)"
  unfolding E_go_def using producer_move [OF assms] by (auto intro!: steps_toI)

lemma refuse_ok:
  assumes "mc_inv G s" "g_tail G = 32 * length (g_hist G)" "\<not> recording (producer s)" "\<And>x. producer s \<noteq> E_tail x"
  shows "steps_to G (E_return (Refused x) s)"
  unfolding E_return_def using producer_move [OF assms(1), of E_idle] assms by (auto intro!: steps_toI)

lemma tail_block:
  assumes "mc_inv G s" "g_hist G \<noteq> []"
  shows "0 < unat (slots_used s)" "oldest G s < length (g_hist G)" "tailBlock s = Some (g_hist G ! (length (g_hist G) - 1))"
proof -
  note st = mc_inv_parts(11) [OF assms(1), unfolded store_ok_def]
  show "0 < unat (slots_used s)" using st assms(2) by blast
  then show "oldest G s < length (g_hist G)" using assms(2) by (simp add: oldest_def)
  show "tailBlock s = Some (g_hist G ! (length (g_hist G) - 1))" using st assms(2) by (simp add: last_conv_nth)
qed

lemma ring_block:
  assumes "mc_inv G s" "n \<in> {oldest G s..<length (g_hist G)}"
  obtains B where "mc_blocks s (g_hist G ! n) = Some B" "block_ok G n B"
    "b_next B = g_hist G ! (if Suc n = length (g_hist G) then oldest G s else Suc n)"
  using mc_inv_parts(11) [OF assms(1), unfolded store_ok_def] assms(2) by blast

lemma start_ok:
  assumes "mc_inv G s" "producer s = E_start x"
  shows "steps_to G (enqueue_step ok (E_start x) s)"
proof -
  note p = mc_inv_parts [OF assms(1)]
  have h: "length (g_hist G) = (g_tail G + 31) div 32" using p(14) assms(2) by simp
  show ?thesis
  proof (cases "g_tail G mod 32 = 0")
    case True
    then have t: "g_tail G = 32 * length (g_hist G)" using h by presburger
    have z: "tailIndex s AND 31 = 0" unfolding and31_zero p(1) by (rule True)
    show ?thesis
    proof (cases "g_hist G = []")
      case True
      then have "tailBlock s = None" using p(11) by (simp add: store_ok_def)
      then show ?thesis using z t E_go_ok [OF assms(1), of "E_head x"] assms(2) by simp
    next
      case False
      then show ?thesis using z t tail_block(3) [OF assms(1)] E_go_ok [OF assms(1), of "E_check x 0"] assms(2) by simp
    qed
  next
    case False
    then have "g_tail G + 31 = (g_tail G mod 32 - 1) + Suc (g_tail G div 32) * 32" by simp
    then have "(g_tail G + 31) div 32 = (g_tail G mod 32 - 1) div 32 + Suc (g_tail G div 32)" by (simp only: div_mult_self1)
    moreover have "(g_tail G mod 32 - 1) div 32 = 0" by simp
    ultimately have "Suc (g_tail G div 32) = length (g_hist G)" using h by simp
    then have "steps_to G (E_go (E_store x) s)" using E_go_ok [OF assms(1), of "E_store x"] assms(2) by simp
    moreover have "tailIndex s AND 31 \<noteq> 0" unfolding and31_zero p(1) by (rule False)
    ultimately show ?thesis by simp
  qed
qed

lemma unat_pow2: "e < 64 \<Longrightarrow> unat (2 ^ e :: u64) = 2 ^ e"
proof -
  assume "e < 64"
  then have "(2::nat) ^ e < 2 ^ 64" by (intro power_strict_increasing) simp_all
  then have "unat (of_nat (2 ^ e) :: u64) = 2 ^ e" by (simp only: unat_of_nat) simp
  then show ?thesis by simp
qed

lemma index_size_eq:
  assumes "mc_inv G s" "blockIndex s = Some p"
  obtains X where "indices s p = Some X" "one_index_ok G (oldest G s) p X" "5 \<le> g_exp G p" "g_exp G p < 63"
    "index_size s = 2 ^ g_exp G p" "unat (index_size s) = 2 ^ g_exp G p"
    "unat (slots_used s) \<le> 2 ^ g_exp G p" "g_exp G p = 5 \<or> 2 ^ g_exp G p \<le> 2 * unat (slots_used s)"
    "unat (index_front s) = (g_rec G p + g_off G p) mod 2 ^ g_exp G p"
proof -
  note ih = mc_inv_parts(12) [OF assms(1), unfolded index_ok_def]
  from ih assms(2) obtain X where x: "indices s p = Some X" by auto
  then have o: "one_index_ok G (oldest G s) p X" using ih by blast
  have e: "g_exp G p < 63" using o by (simp add: one_index_ok_def)
  then have "unat ((2 :: u64) ^ g_exp G p) = 2 ^ g_exp G p" by (intro unat_pow2) simp
  with x o e ih assms(2) that show thesis by simp
qed

text \<open>The head is never found beyond the tail, and there is always room for one more block of numbers.\<close>

lemma head_checks:
  assumes "mc_inv G s" "g_tail G < 2 ^ 55"
  shows "\<not> circular_less_than (tailIndex s) (headIndex s)" "circular_less_than (headIndex s) (tailIndex s + 32)"
proof -
  note p = mc_inv_parts [OF assms(1)] and le = head_le_tail [OF assms(1)]
  have "unat (tailIndex s + 32) = g_tail G + 32" using p(1) assms(2) by (subst unat_add_lem [THEN iffD1]) simp_all
  then show "\<not> circular_less_than (tailIndex s) (headIndex s)" "circular_less_than (headIndex s) (tailIndex s + 32)"
    using clt_iff [of "tailIndex s" "headIndex s"] clt_iff [of "headIndex s" "tailIndex s + 32"] p(1,4) le assms(2) by simp_all
qed

lemma E_head_ok:
  assumes "mc_inv G s" "producer s = E_head x" "g_tail G < 2 ^ 55"
  shows "steps_to G (enqueue_step ok (E_head x) s)"
proof -
  note p = mc_inv_parts [OF assms(1)] and c = head_checks [OF assms(1,3)]
  have t: "g_tail G = 32 * length (g_hist G)" using p(14) assms(2) by simp
  show ?thesis
  proof (cases "blockIndex s = None \<or> slots_used s = index_size s")
    case True
    then show ?thesis using c t E_go_ok [OF assms(1), of "E_grow x"] assms(2) by (simp add: Let_def)
  next
    case False
    then obtain q where q: "blockIndex s = Some q" by auto
    obtain X where "unat (slots_used s) \<le> unat (index_size s)" using index_size_eq [OF assms(1) q] by metis
    then have "unat (slots_used s) < unat (index_size s)" using False by (simp add: word_unat_eq_iff)
    then show ?thesis using False q c t E_go_ok [OF assms(1), of "E_block x"] assms(2) by (simp add: Let_def)
  qed
qed


section \<open>The next block of the ring\<close>

lemma block_ok_append [simp]: "block_ok (G\<lparr>g_hist := h\<rparr>) n B = block_ok G n B"
  by (simp add: block_ok_def content_def)

lemma one_index_append:
  "one_index_ok G old p X \<Longrightarrow> old \<le> old' \<Longrightarrow> one_index_ok (G\<lparr>g_hist := g_hist G @ h\<rparr>) old' p X"
  by (auto simp: one_index_ok_def entry_ok_def nth_append)

lemma grown_append: "mc_inv G s \<Longrightarrow> grown G (G\<lparr>g_hist := g_hist G @ h\<rparr>)"
  by (simp add: grown_def finite_numbers nth_append)

text \<open>The invariant after a block was added to the history, whether it was taken from the ring or made.\<close>

lemma add_block:
  assumes "mc_inv G s" "g_tail G = 32 * length (g_hist G)" "\<not> recording (producer s)" "\<And>x. producer s \<noteq> E_tail x"
    and "blockIndex s \<noteq> None" "G' = G\<lparr>g_hist := g_hist G @ [b]\<rparr>" "oldest G s \<le> oldest G' s'" "store_ok G' s'"
    and "\<And>p. blockIndex s = Some p \<Longrightarrow> unat (slots_used s') \<le> 2 ^ g_exp G p" "unat (slots_used s) \<le> unat (slots_used s')"
    and "tailIndex s' = tailIndex s" "optimistic s' = optimistic s" "overcommit s' = overcommit s" "headIndex s' = headIndex s"
    "consumers s' = consumers s" "blockIndex s' = blockIndex s" "indices s' = indices s" "next_index s' = next_index s"
    "index_size s' = index_size s" "index_front s' = index_front s" "producer s' = E_base x"
  shows "steps_to G (Done (s', None))"
proof -
  note p = mc_inv_parts [OF assms(1)]
  have "grown G G'" unfolding assms(6) by (rule grown_append [OF assms(1)])
  then have "numbers_ok G' s'" by (rule numbers_put [OF p(15)]) (simp_all add: assms p(1))
  moreover have "index_ok G' s'"
  proof -
    have one: "one_index_ok G (oldest G s) q X \<Longrightarrow> one_index_ok G' (oldest G' s') q X" for q X
      unfolding assms(6) by (rule one_index_append [OF _ assms(7) [unfolded assms(6)]])
    obtain q where q: "blockIndex s = Some q" using assms(5) by auto
    obtain X where x: "indices s q = Some X" "5 \<le> g_exp G q" "index_size s = 2 ^ g_exp G q"
      "g_exp G q = 5 \<or> 2 ^ g_exp G q \<le> 2 * unat (slots_used s)"
      "unat (index_front s) = (g_rec G q + g_off G q) mod 2 ^ g_exp G q" by (rule index_size_eq [OF assms(1) q])
    have "\<forall>p X. indices s p = Some X \<longrightarrow> p < next_index s \<and> one_index_ok G' (oldest G' s') p X" "\<forall>p. indices s p = None \<longrightarrow> g_rec G' p = 0"
      using p(12) [unfolded index_ok_def] one by (blast, simp add: assms(6))
    then show ?thesis using x q assms(9) [OF q] assms(10,16-20) unfolding index_ok_def by (auto simp: assms(6))
  qed
  moreover have "log_ok G' s'" using p(13) assms(3,4,6,16,21) by (auto simp: log_ok_def split: enqueue_pc.splits)
  moreover have "producer_ok G' s' (producer s')" using assms(2,6,21) by simp
  ultimately have "mc_inv G' s'" using assms(8) by (simp add: mc_inv_def)
  then show ?thesis by (auto simp: view_def assms(6) intro!: steps_toI)
qed

lemma empty_content:
  assumes "mc_inv G s" "length (g_log G) \<le> i" shows "content G i = None" "i \<notin> g_done G"
  using shared_out_sub [OF mc_inv_parts(8) [OF assms(1)]] head_le_tail [OF assms(1)] log_length [OF assms(1)] assms(2) by (auto simp: content_def)

lemma log_exact: "mc_inv G s \<Longrightarrow> (\<And>x. producer s \<noteq> E_tail x) \<Longrightarrow> length (g_log G) = g_tail G"
  using mc_inv_parts(13) [of G s] by (auto simp: log_ok_def split: enqueue_pc.splits)

lemma inj_ring_append:
  assumes "inj_on (nth h) {k..<length h}" "k \<le> length h" "\<And>n. n \<in> {k..<length h} \<Longrightarrow> h ! n \<noteq> b"
  shows "inj_on (nth (h @ [b])) {k..<Suc (length h)}"
proof -
  have "inj_on (nth (h @ [b])) {k..<length h}" using assms(1) by (auto simp: inj_on_def nth_append)
  moreover have "(h @ [b]) ! length h \<notin> nth (h @ [b]) ` ({k..<length h} - {length h})"
  proof
    assume "(h @ [b]) ! length h \<in> nth (h @ [b]) ` ({k..<length h} - {length h})"
    then obtain n where "n \<in> {k..<length h}" "(h @ [b]) ! n = b" by auto
    then show False using assms(3) by (simp add: nth_append)
  qed
  moreover have "{k..<Suc (length h)} = insert (length h) {k..<length h}" using assms(2) by auto
  ultimately show ?thesis by (simp only: inj_on_insert) simp
qed

text \<open>The oldest block becomes the newest.\<close>

lemma store_reuse:
  assumes "mc_inv G s" "g_tail G = 32 * length (g_hist G)" "\<And>x. producer s \<noteq> E_tail x" "g_hist G \<noteq> []"
    and "mc_blocks s (g_hist G ! oldest G s) = Some B" "block_ok G (oldest G s) B"
    and "b_next B = g_hist G ! (if Suc (oldest G s) = length (g_hist G) then oldest G s else Suc (oldest G s))"
    and gone: "\<And>i. i < 32 \<Longrightarrow> 32 * oldest G s + i \<in> g_done G"
    and "b = g_hist G ! oldest G s" "G' = G\<lparr>g_hist := g_hist G @ [b]\<rparr>"
    and "s' = set_block b (B\<lparr>b_flags := replicate 32 False\<rparr>) s\<lparr>tailBlock := Some b, producer := E_base x\<rparr>"
  shows "oldest G' s' = Suc (oldest G s)" "store_ok G' s'"
proof -
  note p = mc_inv_parts [OF assms(1)] and st = mc_inv_parts(11) [OF assms(1), unfolded store_ok_def]
  let ?o = "oldest G s" and ?N = "length (g_hist G)" and ?h = "g_hist G @ [b]"
  have ol: "?o < ?N" by (rule tail_block(2) [OF assms(1,4)])
  show old: "oldest G' s' = Suc ?o" using st by (simp add: oldest_def assms(10,11) Suc_diff_le)
  have "inj_on (nth (g_hist G)) {?o..<?N}" using st by blast
  then have o: "inj_on (nth (g_hist G)) {Suc ?o..<?N}" and ne: "g_hist G ! n \<noteq> b" if "n \<in> {Suc ?o..<?N}" for n
    using that ol inj_onD [of "nth (g_hist G)" "{?o..<?N}" n ?o] unfolding assms(9) by (auto intro: inj_on_subset)
  have inj: "inj_on (nth ?h) {Suc ?o..<Suc ?N}"
  proof (cases "Suc ?o = ?N")
    case False
    then have "Suc ?o \<in> {Suc ?o..<?N}" using ol by simp
    from inj_ring_append [OF o [OF this] _ ne] ol show ?thesis by simp
  qed simp
  have sub: "{..<32 * Suc ?o} \<subseteq> g_done G"
  proof
    fix i assume "i \<in> {..<32 * Suc ?o}"
    then show "i \<in> g_done G" using st gone [of "i - 32 * ?o"] by (cases "i < 32 * ?o") auto
  qed
  have blk: "\<exists>C. mc_blocks s' (?h ! n) = Some C \<and> block_ok G n C \<and> b_next C = ?h ! (if Suc n = Suc ?N then Suc ?o else Suc n)"
    if n: "n \<in> {Suc ?o..<Suc ?N}" for n
  proof (cases "n = ?N")
    case True
    have e: "32 * ?N + j \<notin> g_done G" "content G (32 * ?N + j) = None" for j
      using empty_content [OF assms(1), of "32 * ?N + j"] log_exact [OF assms(1,3)] assms(2) by simp_all
    have "32 * ?o + j \<in> g_removed G" if "j < 32" for j using gone [OF that] p(9) by blast
    then have "block_ok G ?N (B\<lparr>b_flags := replicate 32 False\<rparr>)" using assms(6) e by (simp add: block_ok_def content_def)
    then show ?thesis using True assms(7) ol by (simp add: assms(9,11) nth_append)
  next
    case False
    then have m: "n \<in> {?o..<?N}" using n by auto
    have "g_hist G ! n \<noteq> b" using ne [of n] n False by auto
    moreover from st m obtain C where "mc_blocks s (g_hist G ! n) = Some C" "block_ok G n C" "b_next C = g_hist G ! (if Suc n = ?N then ?o else Suc n)" by blast
    ultimately show ?thesis using m by (auto simp: assms(9,11) nth_append)
  qed
  have "b \<in> set (g_hist G)" unfolding assms(9) using ol by simp
  then have "\<forall>c \<in> set ?h. c < next_block s" using st by simp
  moreover have "unat (slots_used s) \<le> Suc ?N" "0 < unat (slots_used s)" using st assms(4) by auto
  ultimately show "store_ok G' s'" unfolding store_ok_def old using inj sub blk by (simp add: assms(10,11))
qed

lemma reuse_ok:
  assumes "mc_inv G s" "producer s = E_check x j" "g_tail G = 32 * length (g_hist G)" "g_hist G \<noteq> []"
    and "mc_blocks s (g_hist G ! oldest G s) = Some B" "block_ok G (oldest G s) B"
    and "b_next B = g_hist G ! (if Suc (oldest G s) = length (g_hist G) then oldest G s else Suc (oldest G s))"
    and "\<And>i. i < 32 \<Longrightarrow> 32 * oldest G s + i \<in> g_done G" "b = g_hist G ! oldest G s"
  shows "steps_to G (E_go (E_base x) (set_block b (B\<lparr>b_flags := replicate 32 False\<rparr>) s\<lparr>tailBlock := Some b\<rparr>))"
proof -
  let ?G = "G\<lparr>g_hist := g_hist G @ [b]\<rparr>"
  let ?s = "set_block b (B\<lparr>b_flags := replicate 32 False\<rparr>) s\<lparr>tailBlock := Some b, producer := E_base x\<rparr>"
  have ok: "oldest ?G ?s = Suc (oldest G s)" "store_ok ?G ?s"
    by (rule store_reuse [OF assms(1,3) _ assms(4-9) refl refl]; simp add: assms(2))+
  obtain q where q: "blockIndex s = Some q" using mc_inv_parts(12) [OF assms(1)] assms(4) by (auto simp: index_ok_def split: option.splits)
  have le: "oldest G s \<le> oldest ?G ?s" unfolding ok(1) by simp
  have "steps_to G (Done (?s, None))"
  proof (rule add_block [OF assms(1,3) _ _ _ refl le ok(2)])
    show "blockIndex s = Some p \<Longrightarrow> unat (slots_used ?s) \<le> 2 ^ g_exp G p" for p
      by (erule index_size_eq [OF assms(1)]) simp
  qed (simp_all add: assms(2) q)
  then show ?thesis by (simp add: E_go_def)
qed

lemma check_ok:
  assumes "mc_inv G s" "producer s = E_check x j"
  shows "steps_to G (enqueue_step ok (E_check x j) s)"
proof -
  let ?o = "oldest G s" and ?N = "length (g_hist G)"
  have pr: "g_tail G = 32 * ?N" "g_hist G \<noteq> []" "j < 32" "\<forall>i < j. 32 * ?o + (31 - i) \<in> g_done G"
    using mc_inv_parts(14) [OF assms(1)] unfolding assms(2) producer_ok.simps by blast+
  note tb = tail_block [OF assms(1) pr(2)]
  have last: "?N - 1 \<in> {?o..<?N}" and first: "?o \<in> {?o..<?N}" and n: "Suc (?N - 1) = ?N" using tb(2) by auto
  obtain T where T: "mc_blocks s (g_hist G ! (?N - 1)) = Some T" "b_next T = g_hist G ! ?o"
    by (rule ring_block [OF assms(1) last, unfolded n]) (use that in simp)
  obtain B where B: "mc_blocks s (g_hist G ! ?o) = Some B" "block_ok G ?o B" "b_next B = g_hist G ! (if Suc ?o = ?N then ?o else Suc ?o)"
    by (rule ring_block [OF assms(1) first])
  have "31 - (31 - j) = j" "31 - j < 32" using pr(3) by simp_all
  with B(2) have f: "b_flags B ! j \<longleftrightarrow> 32 * ?o + (31 - j) \<in> g_done G" unfolding block_ok_def by metis
  have gone: "32 * ?o + (31 - i) \<in> g_done G" if "b_flags B ! j" "i < j + 1" for i using that f pr(4) by (cases "i = j") auto
  have "steps_to G (E_go (E_check x (j + 1)) s)" if "b_flags B ! j" "j + 1 < 32"
    by (rule E_go_ok [OF assms(1)]) (use gone that pr(1,2) in \<open>simp_all add: assms(2) del: diff_diff_left\<close>)
  moreover have "steps_to G (E_go (E_head x) s)" using pr(1) E_go_ok [OF assms(1), of "E_head x"] assms(2) by simp
  moreover have "steps_to G (E_go (E_base x) (set_block (b_next T) (B\<lparr>b_flags := replicate 32 False\<rparr>) s\<lparr>tailBlock := Some (b_next T)\<rparr>))"
    if a: "b_flags B ! j" "\<not> j + 1 < 32"
  proof (rule reuse_ok [OF assms pr(1,2) B])
    fix i :: nat assume "i < 32"
    then have "31 - i < j + 1" "31 - (31 - i) = i" using a(2) by auto
    with gone [OF a(1)] show "32 * ?o + i \<in> g_done G" by metis
  qed (rule T(2))
  ultimately show ?thesis using tb(3) T B(1) by (simp add: on_block_def)
qed

text \<open>A new block is put behind the newest.\<close>

lemma fresh_block:
  assumes "mc_inv G s" "g_tail G = 32 * length (g_hist G)" "\<And>x. producer s \<noteq> E_tail x"
  shows "block_ok G (length (g_hist G)) (new_block n)"
  using empty_content [OF assms(1)] log_exact [OF assms(1,3)] assms(2) by (simp add: block_ok_def new_block_def)

lemma block_ok_next [simp]: "block_ok G n (B\<lparr>b_next := m\<rparr>) = block_ok G n B"
  by (simp add: block_ok_def)

lemma store_fresh:
  assumes "mc_inv G s" "g_tail G = 32 * length (g_hist G)" "\<And>x. producer s \<noteq> E_tail x" "g_tail G < 2 ^ 55"
    and "b = next_block s" "G' = G\<lparr>g_hist := g_hist G @ [b]\<rparr>"
    and "g_hist G \<noteq> [] \<Longrightarrow> mc_blocks s (g_hist G ! (length (g_hist G) - 1)) = Some T"
    and "g_hist G \<noteq> [] \<Longrightarrow> block_ok G (length (g_hist G) - 1) T"
    and "mc_blocks s' = (if g_hist G = [] then (mc_blocks s)(b \<mapsto> new_block b)
      else (mc_blocks s)(b \<mapsto> new_block (g_hist G ! oldest G s), g_hist G ! (length (g_hist G) - 1) \<mapsto> T\<lparr>b_next := b\<rparr>))"
    and "slots_used s' = slots_used s + 1" "tailBlock s' = Some b" "next_block s' = b + 1"
  shows "oldest G' s' = oldest G s" "unat (slots_used s') = Suc (unat (slots_used s))" "store_ok G' s'"
proof -
  note p = mc_inv_parts [OF assms(1)] and st = mc_inv_parts(11) [OF assms(1), unfolded store_ok_def]
  let ?o = "oldest G s" and ?N = "length (g_hist G)" and ?h = "g_hist G @ [b]"
  have k: "unat (slots_used s) \<le> ?N" using st by blast
  show used: "unat (slots_used s') = Suc (unat (slots_used s))"
    using unat_plus_one [of "slots_used s"] k assms(2,4,10) by simp
  show old: "oldest G' s' = ?o" using used k by (simp add: oldest_def assms(6))
  have below: "c \<in> set (g_hist G) \<Longrightarrow> c < b" for c using st assms(5) by blast
  have ol: "?o \<le> ?N" by (simp add: oldest_def)
  have new: "g_hist G ! n \<noteq> b" if "n \<in> {?o..<?N}" for n using below nth_mem [of n "g_hist G"] that by fastforce
  have inj: "inj_on (nth ?h) {?o..<Suc ?N}" using st new ol by (intro inj_ring_append) blast+
  have blk: "\<exists>C. mc_blocks s' (?h ! n) = Some C \<and> block_ok G n C \<and> b_next C = ?h ! (if Suc n = Suc ?N then ?o else Suc n)"
    if n: "n \<in> {?o..<Suc ?N}" for n
  proof (cases "n = ?N")
    case True
    have "g_hist G \<noteq> [] \<Longrightarrow> g_hist G ! (?N - 1) \<in> set (g_hist G)" by simp
    then have ne: "g_hist G \<noteq> [] \<Longrightarrow> b \<noteq> g_hist G ! (?N - 1)" using below by blast
    have "g_hist G \<noteq> [] \<Longrightarrow> ?o < ?N" using tail_block(2) [OF assms(1)] by blast
    then show ?thesis using True fresh_block [OF assms(1-3)] ne by (auto simp: assms(9) nth_append new_block_def oldest_def)
  next
    case False
    then have m: "n \<in> {?o..<?N}" using n by auto
    then have ne: "g_hist G \<noteq> []" by auto
    note nb = new [OF m]
    from st m obtain C where C: "mc_blocks s (g_hist G ! n) = Some C" "block_ok G n C" "b_next C = g_hist G ! (if Suc n = ?N then ?o else Suc n)" by blast
    show ?thesis
    proof (cases "Suc n = ?N")
      case True
      then have "n = ?N - 1" by simp
      then show ?thesis using assms(7,8) ne nb m by (simp add: assms(9) nth_append)
    next
      case False
      then have "n \<noteq> ?N - 1" "?N - 1 \<in> {?o..<?N}" using m by auto
      then have "g_hist G ! n \<noteq> g_hist G ! (?N - 1)" using st m inj_onD [of "nth (g_hist G)" "{?o..<?N}" n "?N - 1"] by blast
      then show ?thesis using C False ne nb m by (simp add: assms(9) nth_append)
    qed
  qed
  show "store_ok G' s'" unfolding store_ok_def old used using inj blk st below k by (simp add: assms(6,11,12)) (meson below less_Suc_eq)
qed

lemma E_block_ok:
  assumes "mc_inv G s" "producer s = E_block x" "g_tail G < 2 ^ 55"
  shows "steps_to G (enqueue_step ok (E_block x) s)"
proof -
  note p = mc_inv_parts [OF assms(1)] and st = mc_inv_parts(11) [OF assms(1), unfolded store_ok_def]
  have pr: "g_tail G = 32 * length (g_hist G)" "blockIndex s \<noteq> None" "unat (slots_used s) < unat (index_size s)"
    using p(14) unfolding assms(2) producer_ok.simps by blast+
  let ?b = "next_block s" and ?N = "length (g_hist G)"
  let ?G = "G\<lparr>g_hist := g_hist G @ [?b]\<rparr>"
  have room: "Suc (unat (slots_used s)) \<le> 2 ^ g_exp G q" if "blockIndex s = Some q" for q
    using index_size_eq [OF assms(1) that] pr(3) by (metis Suc_leI)
  show ?thesis
  proof (cases ok)
    case False
    then show ?thesis using refuse_ok [OF assms(1) pr(1)] assms(2) by simp
  next
    case True
    show ?thesis
    proof (cases "g_hist G = []")
      case nil: True
      let ?s = "set_block ?b (new_block ?b) (s\<lparr>next_block := ?b + 1\<rparr>)\<lparr>tailBlock := Some ?b, slots_used := slots_used s + 1, producer := E_base x\<rparr>"
      have ok: "oldest ?G ?s = oldest G s" "unat (slots_used ?s) = Suc (unat (slots_used s))" "store_ok ?G ?s"
        by (rule store_fresh [OF assms(1) pr(1) _ assms(3) refl refl]; simp add: assms(2) nil)+
      have "steps_to G (Done (?s, None))"
        by (rule add_block [OF assms(1) pr(1) _ _ _ refl _ ok(3)]) (use pr(2) ok room in \<open>simp_all add: assms(2)\<close>)
      then show ?thesis using True st nil by (simp add: E_go_def Let_def)
    next
      case False
      note tb = tail_block [OF assms(1) False]
      have "?N - 1 \<in> {oldest G s..<?N}" and n: "Suc (?N - 1) = ?N" using tb(2) by auto
      then obtain T where T: "mc_blocks s (g_hist G ! (?N - 1)) = Some T" "block_ok G (?N - 1) T" "b_next T = g_hist G ! oldest G s"
        by (metis ring_block [OF assms(1)])
      have ne: "g_hist G ! (?N - 1) \<noteq> ?b" using st False by (metis diff_less length_greater_0_conv less_irrefl nth_mem zero_less_one)
      let ?t = "g_hist G ! (?N - 1)"
      let ?s = "set_block ?t (T\<lparr>b_next := ?b\<rparr>) (set_block ?b (new_block (b_next T)) (s\<lparr>next_block := ?b + 1\<rparr>))
        \<lparr>tailBlock := Some ?b, slots_used := slots_used s + 1, producer := E_base x\<rparr>"
      have ok: "oldest ?G ?s = oldest G s" "unat (slots_used ?s) = Suc (unat (slots_used s))" "store_ok ?G ?s"
        by (rule store_fresh [OF assms(1) pr(1) _ assms(3) refl refl T(1,2)]; simp add: assms(2) False T(3))+
      have "steps_to G (Done (?s, None))"
        by (rule add_block [OF assms(1) pr(1) _ _ _ refl _ ok(3)]) (use pr(2) ok room in \<open>simp_all add: assms(2)\<close>)
      then show ?thesis using True tb(3) T(1) by (simp add: E_go_def Let_def on_block_def)
    qed
  qed
qed


section \<open>Recording a block\<close>

lemma pos_neq: "n < m \<Longrightarrow> m - n < 2 ^ e \<Longrightarrow> (n + z) mod 2 ^ e \<noteq> (m + z) mod (2 ^ e :: nat)"
proof
  assume a: "n < m" "m - n < 2 ^ e" "(n + z) mod 2 ^ e = (m + z) mod (2 ^ e :: nat)"
  then have "(2 ^ e :: nat) dvd m + z - (n + z)" using mod_eq_dvd_iff_nat [of "n + z" "m + z" "2 ^ e"] by simp
  then show False using a(1,2) dvd_imp_le [of "2 ^ e" "m - n"] by simp
qed

lemma index_put:
  assumes "index_ok G s" "blockIndex s = Some p" "indices s p = Some X" "one_index_ok G' (oldest G s) p X'"
    and "g_hist G' = g_hist G" "g_off G' = g_off G" "g_exp G' = g_exp G" "\<And>q. q \<noteq> p \<Longrightarrow> g_rec G' q = g_rec G q"
    and "indices s' = (indices s)(p \<mapsto> X')" "blockIndex s' = Some p" "slots_used s' = slots_used s" "index_size s' = index_size s"
    and "next_index s' = next_index s" "unat (index_front s') = (g_rec G' p + g_off G p) mod 2 ^ g_exp G p"
  shows "index_ok G' s'"
proof -
  note ih = assms(1) [unfolded index_ok_def]
  have old: "oldest G' s' = oldest G s" by (simp add: oldest_def assms)
  have "one_index_ok G (oldest G s) q Y \<Longrightarrow> q \<noteq> p \<Longrightarrow> one_index_ok G' (oldest G s) q Y" for q Y
    by (simp add: one_index_ok_def entry_ok_def assms(5-8))
  then have "\<forall>q Y. indices s' q = Some Y \<longrightarrow> q < next_index s' \<and> one_index_ok G' (oldest G' s') q Y"
    using ih assms(3,4) by (simp add: old assms(9,13)) 
  moreover have "\<forall>q. indices s' q = None \<longrightarrow> g_rec G' q = 0" using ih assms(8) by (simp add: assms(9))
  ultimately show ?thesis using ih assms(2,3,14) unfolding index_ok_def by (simp add: assms(6,7,9-12))
qed

lemma log_same: "log_ok G s \<Longrightarrow> blockIndex s' = blockIndex s \<Longrightarrow> recording (producer s') = recording (producer s) \<Longrightarrow>
    (\<And>x. producer s \<noteq> E_tail x) \<Longrightarrow> (\<And>x. producer s' \<noteq> E_tail x) \<Longrightarrow> log_ok G s'"
  by (auto simp: log_ok_def split: enqueue_pc.splits)

lemma store_same:
  "store_ok G s \<Longrightarrow> slots_used s' = slots_used s \<Longrightarrow> tailBlock s' = tailBlock s \<Longrightarrow> next_block s' = next_block s \<Longrightarrow> mc_blocks s' = mc_blocks s \<Longrightarrow> store_ok G s'"
proof -
  assume a: "store_ok G s" "slots_used s' = slots_used s" "tailBlock s' = tailBlock s" "next_block s' = next_block s" "mc_blocks s' = mc_blocks s"
  then have o: "oldest G s' = oldest G s" by (simp add: oldest_def)
  show ?thesis unfolding store_ok_def a(2-5) o by (rule a(1) [unfolded store_ok_def])
qed

text \<open>The entry that is written is none of those of the ring.\<close>

lemma write_entry:
  assumes "one_index_ok G (oldest G s) p X" "g_rec G p = length (g_hist G) - 1" "g_hist G \<noteq> []" "unat (slots_used s) \<le> 2 ^ g_exp G p"
  shows "one_index_ok G (oldest G s) p (X\<lparr>x_entries := (x_entries X)[(length (g_hist G) - 1 + g_off G p) mod 2 ^ g_exp G p := v]\<rparr>)"
proof -
  have "(length (g_hist G) - 1 + g_off G p) mod 2 ^ g_exp G p \<noteq> (n + g_off G p) mod 2 ^ g_exp G p"
    if "n \<in> {oldest G s..<g_rec G p}" for n
  proof -
    have "n < g_rec G p" "g_rec G p - n < 2 ^ g_exp G p" using that assms(2-4) by (auto simp: oldest_def)
    from pos_neq [OF this, of "g_off G p"] show ?thesis unfolding assms(2) by metis
  qed
  then show ?thesis using assms(1) by (simp add: one_index_ok_def entry_ok_def)
qed

lemma recording_facts:
  assumes "mc_inv G s" "recording (producer s)"
  obtains p X where "blockIndex s = Some p" "indices s p = Some X" "one_index_ok G (oldest G s) p X"
    "g_rec G p = length (g_hist G) - 1" "g_hist G \<noteq> []" "g_tail G = 32 * (length (g_hist G) - 1)" "unat (slots_used s) \<le> 2 ^ g_exp G p"
    "unat (index_front s) = (length (g_hist G) - 1 + g_off G p) mod 2 ^ g_exp G p" "unat (index_front s) < length (x_entries X)"
    "index_size s = 2 ^ g_exp G p" "g_exp G p < 63"
proof -
  note p = mc_inv_parts [OF assms(1)]
  have h: "g_hist G \<noteq> []" "g_tail G = 32 * (length (g_hist G) - 1)" using p(14) assms(2) by (cases "producer s"; simp)+
  then obtain q where q: "blockIndex s = Some q" using p(12) by (auto simp: index_ok_def split: option.splits)
  obtain X where x: "indices s q = Some X" "one_index_ok G (oldest G s) q X" "unat (slots_used s) \<le> 2 ^ g_exp G q" "index_size s = 2 ^ g_exp G q" "g_exp G q < 63"
    "unat (index_front s) = (g_rec G q + g_off G q) mod 2 ^ g_exp G q" by (rule index_size_eq [OF assms(1) q])
  have r: "g_rec G q = length (g_hist G) - 1" using p(13) q assms(2) by (simp add: log_ok_def)
  show thesis using that [OF q x(1,2) r h x(3)] x r by (simp add: one_index_ok_def)
qed

lemma same_numbers:
  assumes "mc_inv G s" "tailIndex s' = tailIndex s" "optimistic s' = optimistic s" "overcommit s' = overcommit s" "headIndex s' = headIndex s" "consumers s' = consumers s"
  shows "numbers_ok G s'"
  by (rule numbers_put [OF mc_inv_parts(15) [OF assms(1)] grown_refl [OF assms(1)]]) (simp_all add: assms mc_inv_parts(1) [OF assms(1)])

lemma E_base_ok:
  assumes "mc_inv G s" "producer s = E_base x"
  shows "steps_to G (enqueue_step ok (E_base x) s)"
proof -
  note p = mc_inv_parts [OF assms(1)]
  have "recording (producer s)" by (simp add: assms(2))
  from recording_facts [OF assms(1) this] obtain q X where r: "blockIndex s = Some q" "indices s q = Some X" "one_index_ok G (oldest G s) q X"
    "g_rec G q = length (g_hist G) - 1" "g_hist G \<noteq> []" "g_tail G = 32 * (length (g_hist G) - 1)" "unat (slots_used s) \<le> 2 ^ g_exp G q"
    "unat (index_front s) = (length (g_hist G) - 1 + g_off G q) mod 2 ^ g_exp G q" "unat (index_front s) < length (x_entries X)" by metis
  obtain c b where e: "x_entries X ! unat (index_front s) = (c, b)" by fastforce
  let ?X = "X\<lparr>x_entries := (x_entries X)[unat (index_front s) := (tailIndex s, b)]\<rparr>"
  let ?s = "s\<lparr>indices := (indices s)(q \<mapsto> ?X), producer := E_entry x\<rparr>"
  have "one_index_ok G (oldest G s) q ?X" unfolding r(8) by (rule write_entry [OF r(3-5,7)])
  then have "index_ok G ?s" by (rule index_put [OF p(12) r(1,2)]) (simp_all add: r(1,4,8))
  moreover have "tailIndex s = of_nat (32 * (length (g_hist G) - 1))" using p(1) r(6) by (metis of_nat_unat ucast_id)
  then have "producer_ok G ?s (producer ?s)" using r(1,5,6,8,9) by simp
  moreover have "numbers_ok G ?s" by (rule same_numbers [OF assms(1)]) simp_all
  moreover have "log_ok G ?s" by (rule log_same [OF p(13)]) (simp_all add: assms(2))
  moreover have "store_ok G ?s" by (rule store_same [OF p(11)]) simp_all
  ultimately have "mc_inv G ?s" by (simp add: mc_inv_def)
  then show ?thesis using r(1,2,9) e by (auto simp: on_index_def entry_at_def E_go_def intro!: steps_toI)
qed


lemma E_entry_ok:
  assumes "mc_inv G s" "producer s = E_entry x"
  shows "steps_to G (enqueue_step ok (E_entry x) s)"
proof -
  note p = mc_inv_parts [OF assms(1)]
  have "recording (producer s)" by (simp add: assms(2))
  from recording_facts [OF assms(1) this] obtain q X where r: "blockIndex s = Some q" "indices s q = Some X" "one_index_ok G (oldest G s) q X"
    "g_rec G q = length (g_hist G) - 1" "g_hist G \<noteq> []" "g_tail G = 32 * (length (g_hist G) - 1)" "unat (slots_used s) \<le> 2 ^ g_exp G q"
    "unat (index_front s) = (length (g_hist G) - 1 + g_off G q) mod 2 ^ g_exp G q" "unat (index_front s) < length (x_entries X)" by metis
  let ?t = "g_hist G ! (length (g_hist G) - 1)"
  have "fst (x_entries X ! unat (index_front s)) = of_nat (32 * (length (g_hist G) - 1))" using p(14) r(1,2,8) by (simp add: assms(2))
  then obtain b where e: "x_entries X ! unat (index_front s) = (of_nat (32 * (length (g_hist G) - 1)), b)" by (metis prod.collapse)
  let ?X = "X\<lparr>x_entries := (x_entries X)[unat (index_front s) := (of_nat (32 * (length (g_hist G) - 1)), ?t)]\<rparr>"
  let ?s = "s\<lparr>indices := (indices s)(q \<mapsto> ?X), producer := E_front x\<rparr>"
  have "one_index_ok G (oldest G s) q ?X" unfolding r(8) by (rule write_entry [OF r(3-5,7)])
  then have "index_ok G ?s" by (rule index_put [OF p(12) r(1,2)]) (simp_all add: r(1,4,8))
  moreover have "entry_ok G q (length (g_hist G) - 1) ?X" using r(8,9) by (simp add: entry_ok_def)
  then have "producer_ok G ?s (producer ?s)" using r(1,5,6) by simp
  moreover have "numbers_ok G ?s" by (rule same_numbers [OF assms(1)]) simp_all
  moreover have "log_ok G ?s" by (rule log_same [OF p(13)]) (simp_all add: assms(2))
  moreover have "store_ok G ?s" by (rule store_same [OF p(11)]) simp_all
  ultimately have "mc_inv G ?s" by (simp add: mc_inv_def)
  then show ?thesis using r(1,2,9) e tail_block(3) [OF assms(1) r(5)] by (auto simp: on_index_def entry_at_def E_go_def intro!: steps_toI)
qed

lemma rec_frame [simp]: "content (G\<lparr>g_rec := f\<rparr>) j = content G j" "block_ok (G\<lparr>g_rec := f\<rparr>) n B = block_ok G n B"
  "oldest (G\<lparr>g_rec := f\<rparr>) s = oldest G s" "store_ok (G\<lparr>g_rec := f\<rparr>) s = store_ok G s"
  by (simp_all add: content_def block_ok_def oldest_def store_ok_def)

lemma E_front_ok:
  assumes "mc_inv G s" "producer s = E_front x"
  shows "steps_to G (enqueue_step ok (E_front x) s)"
proof -
  note p = mc_inv_parts [OF assms(1)]
  have "recording (producer s)" by (simp add: assms(2))
  from recording_facts [OF assms(1) this] obtain q X where r: "blockIndex s = Some q" "indices s q = Some X" "one_index_ok G (oldest G s) q X"
    "g_rec G q = length (g_hist G) - 1" "g_hist G \<noteq> []" "g_tail G = 32 * (length (g_hist G) - 1)" "unat (slots_used s) \<le> 2 ^ g_exp G q"
    "unat (index_front s) = (length (g_hist G) - 1 + g_off G q) mod 2 ^ g_exp G q" "index_size s = 2 ^ g_exp G q" "g_exp G q < 63" by metis
  let ?N = "length (g_hist G)"
  let ?X = "X\<lparr>x_front := index_front s\<rparr>" and ?G = "G\<lparr>g_rec := (g_rec G)(q := ?N)\<rparr>"
  let ?s = "s\<lparr>indices := (indices s)(q \<mapsto> ?X), index_front := (index_front s + 1) AND (index_size s - 1), producer := E_store x\<rparr>"
  have new: "entry_ok G q (?N - 1) X" using p(14) r(1,2) by (simp add: assms(2))
  have "n \<in> {oldest G s..<?N} \<Longrightarrow> entry_ok G q n X" for n
    using new r(3,4) by (cases "n = ?N - 1") (auto simp: one_index_ok_def)
  then have one: "one_index_ok ?G (oldest G s) q ?X" using r(3,5,8) by (simp add: one_index_ok_def entry_ok_def)
  have "unat ((index_front s + 1) AND (index_size s - 1)) = unat (index_front s + 1) mod 2 ^ g_exp G q" by (rule and_size [OF r(9)])
  also have "\<dots> = (unat (index_front s) + 1) mod 2 ^ g_exp G q" using unat_add_mod [of "g_exp G q" "index_front s" 1] r(10) by simp
  also have "\<dots> = (?N + g_off G q) mod 2 ^ g_exp G q" using r(5,8) by (cases "g_hist G") (simp_all add: mod_Suc_eq)
  finally have "index_ok ?G ?s" using one by (intro index_put [OF p(12) r(1,2)]) (simp_all add: r(1))
  moreover have "grown G ?G" using r(4) finite_numbers [OF assms(1)] by (simp add: grown_def)
  then have "numbers_ok ?G ?s" by (rule numbers_put [OF p(15)]) (simp_all add: p(1))
  moreover have "log_ok ?G ?s" using p(13) r(1) by (simp add: log_ok_def assms(2))
  moreover have "store_ok ?G ?s" using store_same [OF p(11), of ?s] by simp
  moreover have "producer_ok ?G ?s (producer ?s)" using r(5,6) by simp
  ultimately have "mc_inv ?G ?s" by (simp add: mc_inv_def)
  then show ?thesis using r(1,2) by (auto simp: on_index_def E_go_def view_def intro!: steps_toI)
qed

lemma removed_below: "mc_inv G s \<Longrightarrow> g_removed G \<subseteq> {..<g_tail G}"
proof
  fix i assume inv: "mc_inv G s" and "i \<in> g_removed G"
  then consider "i \<in> g_done G" | c where "held (consumers s c) = Some i" using mc_inv_parts(9) [OF inv] by blast
  then show "i \<in> {..<g_tail G}"
  proof cases
    case 1 then show ?thesis using shared_out_sub [OF mc_inv_parts(8) [OF inv]] head_le_tail [OF inv] by auto
  next
    case 2 then show ?thesis using held_below(2) [OF inv] by blast
  qed
qed

lemma log_frame [simp]:
  "oldest (G\<lparr>g_log := xs\<rparr>) s = oldest G s" "one_index_ok (G\<lparr>g_log := xs\<rparr>) o' p X = one_index_ok G o' p X"
  "oldest (G\<lparr>g_tail := n\<rparr>) s = oldest G s" "one_index_ok (G\<lparr>g_tail := n\<rparr>) o' p X = one_index_ok G o' p X"
  "content (G\<lparr>g_tail := n\<rparr>) j = content G j" "block_ok (G\<lparr>g_tail := n\<rparr>) j B = block_ok G j B"
  by (simp_all add: oldest_def one_index_ok_def entry_ok_def content_def block_ok_def)

lemma tail_frame [simp]: "store_ok (G\<lparr>g_tail := n\<rparr>) s = store_ok G s"
  by (simp add: store_ok_def)

lemma E_store_ok:
  assumes "mc_inv G s" "producer s = E_store x"
  shows "steps_to G (enqueue_step ok (E_store x) s)"
proof -
  note p = mc_inv_parts [OF assms(1)]
  let ?n = "g_tail G div 32" and ?G = "G\<lparr>g_log := g_log G @ [x]\<rparr>" and ?k = "slot_of (tailIndex s)"
  have n: "Suc ?n = length (g_hist G)" using p(14) by (simp add: assms(2))
  then have ne: "g_hist G \<noteq> []" by auto
  note tb = tail_block [OF assms(1) ne]
  have nn: "length (g_hist G) - 1 = ?n" using n by simp
  have ring: "?n \<in> {oldest G s..<length (g_hist G)}" using tb(2) n by simp
  obtain T where T: "mc_blocks s (g_hist G ! ?n) = Some T" "block_ok G ?n T" by (rule ring_block [OF assms(1) ring])
  have len: "length (g_log G) = g_tail G" using log_exact [OF assms(1)] assms(2) by simp
  have t: "g_tail G = 32 * ?n + g_tail G mod 32" and k: "?k = g_tail G mod 32" by (simp_all add: slot_of_eq p(1))
  have "content G (g_tail G) = None" by (rule empty_content(1) [OF assms(1)]) (simp add: len)
  then have free: "b_elems T ! ?k = None" using T(2) t unfolding block_ok_def k by (metis mod_less_divisor zero_less_numeral)
  let ?T = "T\<lparr>b_elems := (b_elems T)[?k := Some x]\<rparr>"
  let ?s = "set_block (g_hist G ! ?n) ?T s\<lparr>producer := E_tail x\<rparr>"
  have "g_tail G \<notin> g_done G" by (rule empty_content(2) [OF assms(1)]) (simp add: len)
  have "g_removed G \<subseteq> {..<g_tail G}" by (rule removed_below [OF assms(1)])
  then have c: "content ?G j = (if j = g_tail G then Some x else content G j)" for j
    using len by (auto simp: content_def nth_append)
  have "block_ok ?G ?n ?T"
  proof -
    have "32 * ?n + j = g_tail G \<longleftrightarrow> j = g_tail G mod 32" for j using t by linarith
    then show ?thesis using T(2) unfolding block_ok_def c k by (simp add: nth_list_update)
  qed
  moreover have "block_ok G m Y \<Longrightarrow> block_ok ?G m Y" if "m \<noteq> ?n" for m Y
  proof -
    have "32 * m + j \<noteq> g_tail G" if "j < 32" for j using that \<open>m \<noteq> ?n\<close> by auto
    then show "block_ok G m Y \<Longrightarrow> block_ok ?G m Y" by (simp add: block_ok_def c)
  qed
  ultimately have st: "store_ok ?G ?s" using store_update [OF p(11) ring T(1), of ?G ?T] by simp
  have "grown G ?G" using finite_numbers [OF assms(1)] by (simp add: grown_def nth_append)
  then have "numbers_ok ?G ?s" by (rule numbers_put [OF p(15)]) (simp_all add: p(1))
  moreover have "index_ok ?G ?s" using p(12) by (simp add: index_ok_def cong: option.case_cong)
  moreover have "log_ok ?G ?s" using p(13) len by (simp add: log_ok_def assms(2) nth_append)
  moreover have "producer_ok ?G ?s (producer ?s)" using n by simp
  ultimately have "mc_inv ?G ?s" using st by (simp add: mc_inv_def)
  then show ?thesis using T(1) tb(3) free nn len by (auto simp: on_block_def E_go_def view_def Let_def intro!: steps_toI)
qed


lemma E_tail_ok:
  assumes "mc_inv G s" "producer s = E_tail x" "g_tail G < 2 ^ 55"
  shows "steps_to G (enqueue_step ok (E_tail x) s)"
proof -
  note p = mc_inv_parts [OF assms(1)]
  let ?G = "G\<lparr>g_tail := Suc (g_tail G)\<rparr>" and ?s = "s\<lparr>tailIndex := tailIndex s + 1, producer := E_idle\<rparr>"
  have len: "length (g_log G) = Suc (g_tail G)" "g_log G ! g_tail G = x" using p(13) by (simp_all add: log_ok_def assms(2))
  have "unat (tailIndex s + 1) = Suc (g_tail G)" using unat_plus_one [of "tailIndex s"] p(1) assms(3) by simp
  moreover have "grown G ?G" using finite_numbers [OF assms(1)] by (simp add: grown_def)
  ultimately have "numbers_ok ?G ?s" by (intro numbers_put [OF p(15)]) simp_all
  moreover have "store_ok ?G ?s" using store_same [OF p(11), of ?s] by simp
  moreover have "index_ok ?G ?s" using p(12) by (simp add: index_ok_def oldest_def cong: option.case_cong)
  moreover have "log_ok ?G ?s" using p(13) len by (simp add: log_ok_def assms(2))
  moreover have "Suc (g_tail G div 32) = length (g_hist G)" using p(14) by (simp add: assms(2))
  then have "length (g_hist G) = (Suc (g_tail G) + 31) div 32" by simp
  then have "producer_ok ?G ?s (producer ?s)" by simp
  ultimately have "mc_inv ?G ?s" by (simp add: mc_inv_def)
  moreover have t: "take (Suc (g_tail G)) (g_log G) = take (g_tail G) (g_log G) @ [x]"
    using take_Suc_conv_app_nth [of "g_tail G" "g_log G"] len by (simp only: lessI)
  have sel: "g_log ?G = g_log G" "g_tail ?G = Suc (g_tail G)" "g_got ?G = g_got G" "g_done ?G = g_done G" by simp_all
  have "queue_does (view G) (Some (Enqueued x)) (view ?G)" unfolding view_def queue_does.simps sel t ..
  ultimately show ?thesis unfolding enqueue_step.simps E_return_def by (intro steps_toI) (assumption, assumption, simp)
qed

section \<open>Growing the index\<close>

lemma copy_entries_eq:
  assumes "unat front = (unat i + m) mod 2 ^ e" "1 \<le> m" "m \<le> 2 ^ e" "m \<le> fuel" "e < 63" "unat i < 2 ^ e"
  shows "copy_entries fuel es (2 ^ e - 1) front i = map (\<lambda>j. es ! ((unat i + j) mod 2 ^ e)) [0..<m]"
  using assms
proof (induction fuel arbitrary: i m)
  case (Suc fuel)
  let ?i = "(i + 1) AND (2 ^ e - 1)"
  have "unat ?i = unat (i + 1) mod 2 ^ e" by (rule and_size) simp
  then have i: "unat ?i = (unat i + 1) mod 2 ^ e" using unat_add_mod [of e i 1] Suc.prems(5) by simp
  obtain n where m: "m = Suc n" using Suc.prems(2) by (cases m) auto
  have h: "map (\<lambda>j. es ! ((unat i + j) mod 2 ^ e)) [0..<m] = es ! unat i # map (\<lambda>j. es ! ((unat ?i + j) mod 2 ^ e)) [0..<n]"
    using Suc.prems(6) by (simp add: m upt_conv_Cons map_Suc_upt [symmetric] o_def i mod_simps del: upt_Suc)
  show ?case
  proof (cases "n = 0")
    case True
    then have "?i = front" using Suc.prems(1) i m by (simp add: word_unat_eq_iff)
    then show ?thesis using h True by (simp add: Let_def)
  next
    case False
    have "(unat i + 1) mod 2 ^ e \<noteq> (unat i + m) mod 2 ^ e"
      using pos_neq [of 1 m e "unat i"] m False Suc.prems(3) by (simp add: add.commute)
    then have "?i \<noteq> front" using Suc.prems(1) i by metis
    moreover have "copy_entries fuel es (2 ^ e - 1) front ?i = map (\<lambda>j. es ! ((unat ?i + j) mod 2 ^ e)) [0..<n]"
      using Suc.prems m False i by (intro Suc.IH) (simp_all add: mod_simps)
    ultimately show ?thesis using h by (simp add: Let_def)
  qed
qed simp


text \<open>The new index holds the blocks of the ring from its first slot on.\<close>

definition grow_ghost :: "'a mc_ghost \<Rightarrow> 'a mc_queue \<Rightarrow> nat \<Rightarrow> 'a mc_ghost" where
  "grow_ghost G s e = G\<lparr>g_rec := (g_rec G)(next_index s := length (g_hist G)), g_exp := (g_exp G)(next_index s := e),
     g_off := (g_off G)(next_index s := (2 ^ e - 1) * oldest G s)\<rparr>"

lemma grow_pos: "old \<le> n \<Longrightarrow> n - old < 2 ^ e \<Longrightarrow> (n + (2 ^ e - 1) * old) mod 2 ^ e = n - (old :: nat)"
proof -
  assume a: "old \<le> n" "n - old < 2 ^ e"
  have "old \<le> 2 ^ e * old" by simp
  then have "n + (2 ^ e - 1) * old = (n - old) + 2 ^ e * old" using a(1) by (simp add: diff_mult_distrib)
  then show ?thesis using a(2) by simp
qed

lemma grown_index:
  assumes "mc_inv G s" "e < 63" "5 \<le> e" "unat (slots_used s) < 2 ^ e" "e = 5 \<or> 2 ^ e \<le> 2 * unat (slots_used s)"
    and "x_size X = 2 ^ e" "length (x_entries X) = 2 ^ e" "g_hist G \<noteq> [] \<Longrightarrow> x_front X = slots_used s - 1"
    and "\<And>n. n \<in> {oldest G s..<length (g_hist G)} \<Longrightarrow> x_entries X ! (n - oldest G s) = (of_nat (32 * n), g_hist G ! n)"
    and s': "s' = s\<lparr>index_size := 2 ^ e, index_front := slots_used s, indices := (indices s)(next_index s \<mapsto> X),
      next_index := next_index s + 1, blockIndex := Some (next_index s)\<rparr>"
  shows "index_ok (grow_ghost G s e) s'" "grown G (grow_ghost G s e)"
proof -
  let ?q = "next_index s" and ?G = "grow_ghost G s e" and ?N = "length (g_hist G)" and ?o = "oldest G s"
  note ih = mc_inv_parts(12) [OF assms(1), unfolded index_ok_def] and st = mc_inv_parts(11) [OF assms(1), unfolded store_ok_def]
  have "indices s ?q = None" using ih by (cases "indices s ?q") auto
  then have z: "g_rec G ?q = 0" using ih by blast
  then show "grown G ?G" using finite_numbers [OF assms(1)] by (auto simp: grown_def grow_ghost_def)
  have old: "oldest ?G s' = ?o" by (simp add: oldest_def grow_ghost_def s')
  have k: "unat (slots_used s) = ?N - ?o" "?o \<le> ?N" using st by (simp_all add: oldest_def)
  have pos: "n \<in> {?o..<?N} \<Longrightarrow> (n + (2 ^ e - 1) * ?o) mod 2 ^ e = n - ?o" for n using grow_pos [of ?o n e] assms(4) k by auto
  have fr: "unat (x_front X) = (?N - 1 + (2 ^ e - 1) * ?o) mod 2 ^ e" if "0 < ?N"
  proof -
    have "?o < ?N" using tail_block(2) [OF assms(1)] that by simp
    then have "unat (slots_used s - 1) = ?N - 1 - ?o" using k by (subst unat_minus) simp_all
    then show ?thesis using assms(8) that pos [of "?N - 1"] \<open>?o < ?N\<close> by simp
  qed
  have "one_index_ok ?G ?o ?q X" unfolding one_index_ok_def entry_ok_def
    using assms(2,6,7,9) pos fr by (simp add: grow_ghost_def)
  moreover have "one_index_ok G ?o p Y \<Longrightarrow> p \<noteq> ?q \<Longrightarrow> one_index_ok ?G ?o p Y" for p Y
    by (simp add: one_index_ok_def entry_ok_def grow_ghost_def)
  ultimately have "\<forall>p Y. indices s' p = Some Y \<longrightarrow> p < next_index s' \<and> one_index_ok ?G (oldest ?G s') p Y"
    using ih unfolding old by (auto simp: s' less_Suc_eq)
  moreover have "\<forall>p. indices s' p = None \<longrightarrow> g_rec ?G p = 0" using ih by (auto simp: s' grow_ghost_def)
  moreover have "unat (slots_used s) = (?N + (2 ^ e - 1) * ?o) mod 2 ^ e" using grow_pos [of ?o ?N e] k assms(4) by simp
  ultimately show "index_ok ?G s'" unfolding index_ok_def using assms(3-5) by (simp add: s' grow_ghost_def)
qed


lemma off_frame [simp]: "content (G\<lparr>g_off := f\<rparr>) j = content G j" "block_ok (G\<lparr>g_off := f\<rparr>) n B = block_ok G n B"
  "oldest (G\<lparr>g_off := f\<rparr>) s = oldest G s" "store_ok (G\<lparr>g_off := f\<rparr>) s = store_ok G s"
  "content (G\<lparr>g_exp := f\<rparr>) j = content G j" "block_ok (G\<lparr>g_exp := f\<rparr>) n B = block_ok G n B"
  "oldest (G\<lparr>g_exp := f\<rparr>) s = oldest G s" "store_ok (G\<lparr>g_exp := f\<rparr>) s = store_ok G s"
  by (simp_all add: content_def block_ok_def oldest_def store_ok_def)

lemma grow_step:
  assumes "mc_inv G s" "g_tail G = 32 * length (g_hist G)" "\<not> recording (producer s)" "\<And>x. producer s \<noteq> E_tail x"
    and "index_ok (grow_ghost G s e) s'" "grown G (grow_ghost G s e)" "unat (slots_used s) < 2 ^ e" "e < 63"
    and s': "s' = s\<lparr>index_size := 2 ^ e, index_front := slots_used s, indices := (indices s)(next_index s \<mapsto> X),
      next_index := next_index s + 1, blockIndex := Some (next_index s)\<rparr>"
  shows "steps_to G (E_go (E_block x) s')"
proof -
  note p = mc_inv_parts [OF assms(1)]
  let ?G = "grow_ghost G s e" and ?s = "s'\<lparr>producer := E_block x\<rparr>"
  have "numbers_ok ?G ?s" by (rule numbers_put [OF p(15) assms(6)]) (simp_all add: grow_ghost_def s' p(1))
  moreover have "store_ok G ?s" by (rule store_same [OF p(11)]) (simp_all add: s')
  then have "store_ok ?G ?s" by (simp add: grow_ghost_def)
  moreover have "log_ok ?G ?s" using log_exact [OF assms(1,4)] by (simp add: log_ok_def grow_ghost_def s')
  moreover have "producer_ok ?G ?s (producer ?s)" using assms(2,7,8) unat_pow2 [of e] by (simp add: grow_ghost_def s')
  moreover have "index_ok ?G ?s" using assms(5) by simp
  ultimately have "mc_inv ?G ?s" by (simp add: mc_inv_def)
  then show ?thesis unfolding E_go_def by (intro steps_toI) (assumption, simp_all add: view_def grow_ghost_def)
qed

lemma grow_copy:
  assumes "mc_inv G s" "blockIndex s = Some p" "indices s p = Some X" "slots_used s = index_size s" "\<not> recording (producer s)"
    and "n \<in> {oldest G s..<length (g_hist G)}"
  defines "e \<equiv> g_exp G p"
  defines "es \<equiv> copy_entries (unat (index_size s)) (x_entries X) (index_size s - 1) (index_front s) ((index_front s - slots_used s) AND (index_size s - 1))"
  shows "length es = 2 ^ e" "es ! (n - oldest G s) = (of_nat (32 * n), g_hist G ! n)"
proof -
  obtain Y where y: "indices s p = Some Y" "one_index_ok G (oldest G s) p Y" "e < 63" "index_size s = 2 ^ e" "unat (index_size s) = 2 ^ e"
    "unat (index_front s) = (g_rec G p + g_off G p) mod 2 ^ e" unfolding e_def by (rule index_size_eq [OF assms(1,2)])
  have rec: "g_rec G p = length (g_hist G)" using mc_inv_parts(13) [OF assms(1)] assms(2,5) by (simp add: log_ok_def)
  have k: "2 ^ e \<le> length (g_hist G)" "oldest G s = length (g_hist G) - 2 ^ e"
    using mc_inv_parts(11) [OF assms(1)] assms(4) y(5) by (simp_all add: store_ok_def oldest_def)
  let ?i = "(index_front s - slots_used s) AND (index_size s - 1)"
  have "unat ?i = unat (index_front s - slots_used s) mod 2 ^ e" by (rule and_size [OF y(4)])
  also have "\<dots> = unat (index_front s) mod 2 ^ e"
    using unat_add_mod [of e "index_front s - slots_used s" "slots_used s"] y(3,5) assms(4) by simp
  finally have i: "unat ?i = (length (g_hist G) + g_off G p) mod 2 ^ e" using y(6) rec by simp
  have b: "unat ?i < 2 ^ e" unfolding i by simp
  have "unat (index_front s) = (unat ?i + 2 ^ e) mod 2 ^ e" unfolding i y(6) rec by simp
  then have es: "es = map (\<lambda>j. x_entries X ! ((unat ?i + j) mod 2 ^ e)) [0..<2 ^ e]"
    using copy_entries_eq [OF _ _ _ _ y(3) b, of "index_front s" "2 ^ e" "2 ^ e" "x_entries X"] unfolding es_def y(5) y(4) by (simp add: y(5) [unfolded y(4)])
  then show "length es = 2 ^ e" by simp
  have n: "length (g_hist G) - 2 ^ e \<le> n" "n < length (g_hist G)" using assms(6) unfolding k(2) by simp_all
  have lt: "n - oldest G s < 2 ^ e" using n k by simp
  have "es ! (n - oldest G s) = x_entries X ! ((unat ?i + (n - oldest G s)) mod 2 ^ e)" using lt unfolding es by simp
  also have "(unat ?i + (n - oldest G s)) mod 2 ^ e = (n + g_off G p + 2 ^ e) mod 2 ^ e"
  proof -
    have "length (g_hist G) + g_off G p + (n - oldest G s) = n + g_off G p + 2 ^ e" using n k by simp
    then show ?thesis unfolding i by (metis mod_add_left_eq)
  qed
  also have "\<dots> = (n + g_off G p) mod 2 ^ e" by simp
  finally show "es ! (n - oldest G s) = (of_nat (32 * n), g_hist G ! n)"
    using y(1,2) assms(3,6) rec by (simp add: one_index_ok_def entry_ok_def e_def)
qed

lemma first_index:
  assumes "mc_inv G s" "blockIndex s = None"
  shows "new_block_index True (slots_used s) s = Some (s\<lparr>index_size := 2 ^ 5, index_front := slots_used s,
      indices := (indices s)(next_index s \<mapsto> \<lparr>x_size = 2 ^ 5, x_front = - 1, x_entries = replicate 32 (0, 0)\<rparr>),
      next_index := next_index s + 1, blockIndex := Some (next_index s)\<rparr>)" "unat (slots_used s) = 0"
proof -
  have "g_hist G = []" "index_size s = 16" using mc_inv_parts(12) [OF assms(1)] assms(2) by (simp_all add: index_ok_def)
  moreover from this show "unat (slots_used s) = 0" using mc_inv_parts(11) [OF assms(1)] by (simp add: store_ok_def)
  ultimately show "new_block_index True (slots_used s) s = Some (s\<lparr>index_size := 2 ^ 5, index_front := slots_used s,
      indices := (indices s)(next_index s \<mapsto> \<lparr>x_size = 2 ^ 5, x_front = - 1, x_entries = replicate 32 (0, 0)\<rparr>),
      next_index := next_index s + 1, blockIndex := Some (next_index s)\<rparr>)"
    by (simp add: new_block_index_def Let_def unat_eq_0)
qed

lemma doubled_index_ok:
  assumes "mc_inv G s" "producer s = E_grow x" "g_tail G < 2 ^ 55" "blockIndex s = Some q" "slots_used s = index_size s"
    and tail: "g_tail G = 32 * length (g_hist G)"
  shows "\<exists>s'. new_block_index True (slots_used s) s = Some s' \<and> steps_to G (E_go (E_block x) s')"
proof -
  let ?e = "g_exp G q"
  obtain Y where y: "indices s q = Some Y" "5 \<le> ?e" "index_size s = 2 ^ ?e" "unat (index_size s) = 2 ^ ?e"
    by (rule index_size_eq [OF assms(1,4)])
  have st: "unat (slots_used s) \<le> length (g_hist G)" using mc_inv_parts(11) [OF assms(1)] by (simp add: store_ok_def)
  have used: "unat (slots_used s) = 2 ^ ?e" using assms(5) y(4) by simp
  have "(2 :: nat) ^ ?e < 2 ^ 56" using st used tail assms(3) by simp
  then have e: "?e < 56" by (rule power_less_imp_less_exp [rotated]) simp
  let ?es = "copy_entries (unat (index_size s)) (x_entries Y) (index_size s - 1) (index_front s) ((index_front s - slots_used s) AND (index_size s - 1))"
  let ?X = "\<lparr>x_size = 2 ^ Suc ?e, x_front = slots_used s - 1, x_entries = ?es @ replicate (2 ^ Suc ?e - length ?es) (0, 0)\<rparr>"
  let ?s = "s\<lparr>index_size := 2 ^ Suc ?e, index_front := slots_used s, indices := (indices s)(next_index s \<mapsto> ?X),
      next_index := next_index s + 1, blockIndex := Some (next_index s)\<rparr>"
  have "0 < unat (slots_used s)" using used by simp
  then have ne: "oldest G s < length (g_hist G)" using st unfolding oldest_def by linarith
  have len: "length ?es = 2 ^ ?e" by (rule grow_copy(1) [OF assms(1,4) y(1) assms(5), of "oldest G s"]) (simp_all add: assms(2) ne)
  have "push_bit 1 (index_size s) = 2 ^ Suc ?e" "unat (2 ^ Suc ?e :: u64) = 2 ^ Suc ?e" "of_nat (2 ^ ?e) = slots_used s" "slots_used s \<noteq> 0"
    using y(3,4) e assms(5) unat_pow2 [of "Suc ?e"] by (simp_all add: push_bit_eq_mult unat_eq_0 [symmetric] del: power_Suc) (simp_all)
  then have new: "new_block_index True (slots_used s) s = Some ?s"
    using assms(4) y(1) len by (simp add: new_block_index_def Let_def del: power_Suc)
  have entries: "x_entries ?X ! (n - oldest G s) = (of_nat (32 * n), g_hist G ! n)" if n: "n \<in> {oldest G s..<length (g_hist G)}" for n
  proof -
    have "n - oldest G s < 2 ^ ?e" using n st used unfolding oldest_def atLeastLessThan_iff by linarith
    then show ?thesis using grow_copy(2) [OF assms(1,4) y(1) assms(5) _ n] len by (simp add: assms(2) nth_append)
  qed
  have "Suc ?e < 63" "5 \<le> Suc ?e" "unat (slots_used s) < 2 ^ Suc ?e" "Suc ?e = 5 \<or> 2 ^ Suc ?e \<le> 2 * unat (slots_used s)"
    using e y(2) unfolding used by simp_all
  moreover have "x_size ?X = 2 ^ Suc ?e" "length (x_entries ?X) = 2 ^ Suc ?e" "x_front ?X = slots_used s - 1" using len by simp_all
  ultimately have g: "index_ok (grow_ghost G s (Suc ?e)) ?s" "grown G (grow_ghost G s (Suc ?e))"
    using grown_index [OF assms(1), of "Suc ?e" ?X, OF _ _ _ _ _ _ _ entries refl] by blast+
  have "steps_to G (E_go (E_block x) ?s)"
    by (rule grow_step [OF assms(1) tail _ _ g _ _ refl]) (use e used in \<open>simp_all add: assms(2)\<close>)
  with new show ?thesis by blast
qed

lemma E_grow_ok:
  assumes "mc_inv G s" "producer s = E_grow x" "g_tail G < 2 ^ 55"
  shows "steps_to G (enqueue_step ok (E_grow x) s)"
proof -
  have pr: "g_tail G = 32 * length (g_hist G)" "blockIndex s = None \<or> slots_used s = index_size s"
    using mc_inv_parts(14) [OF assms(1)] unfolding assms(2) producer_ok.simps by blast+
  consider "\<not> ok" | q where "ok" "blockIndex s = Some q" | "ok" "blockIndex s = None" by fastforce
  then show ?thesis
  proof cases
    case 1
    then show ?thesis using refuse_ok [OF assms(1) pr(1)] assms(2) by (simp add: new_block_index_def)
  next
    case 2
    then show ?thesis using doubled_index_ok [OF assms 2(2) _ pr(1)] pr(2) by auto
  next
    case 3
    let ?X = "\<lparr>x_size = 2 ^ 5, x_front = - 1, x_entries = replicate 32 (0, 0)\<rparr> :: mc_index"
    have nil: "g_hist G = []" using mc_inv_parts(12) [OF assms(1)] 3(2) by (simp add: index_ok_def)
    note f = first_index [OF assms(1) 3(2)]
    have "index_ok (grow_ghost G s 5) (s\<lparr>index_size := 2 ^ 5, index_front := slots_used s, indices := (indices s)(next_index s \<mapsto> ?X),
        next_index := next_index s + 1, blockIndex := Some (next_index s)\<rparr>)" "grown G (grow_ghost G s 5)"
      by (rule grown_index [where X = ?X, OF assms(1) _ _ _ _ _ _ _ _ refl]; simp add: f(2) nil)+
    from grow_step [OF assms(1) pr(1) _ _ this _ _ refl] show ?thesis using 3(1) f by (simp add: assms(2))
  qed
qed

lemma enqueue_step_ok:
  assumes "mc_inv G s" "g_tail G + g_count G < 2 ^ 55" "producer s \<noteq> E_idle"
  shows "steps_to G (enqueue_step ok (producer s) s)"
proof -
  have "g_tail G < 2 ^ 55" using assms(2) by simp
  then show ?thesis using assms(1,3)
    by (cases "producer s") (simp_all only: start_ok check_ok E_head_ok E_grow_ok E_block_ok E_base_ok E_entry_ok E_front_ok E_store_ok E_tail_ok simp_thms)
qed

end
