(* ===== verification/MC_Queue_Runs.thy ===== *)
theory MC_Queue_Runs
  imports MC_Queue_Put "HOL-Library.Multiset"
begin

text \<open>
  Whole runs of the queue, by any number of dequeuing threads and one enqueuing thread in any interleaving: no run crashes; the
  values returned are those of a list from which elements are taken in the order in which they were put in; every operation
  ends within a fixed number of its own steps; a dequeue that runs alone finds an element when there is one.
\<close>

section \<open>The queue starts well\<close>

definition first_ghost :: "'a mc_ghost" where
  "first_ghost = \<lparr>g_log = [], g_tail = 0, g_count = 0, g_failed = {}, g_got = {}, g_removed = {}, g_done = {}, g_hist = [],
     g_rec = (\<lambda>_. 0), g_off = (\<lambda>_. 0), g_exp = (\<lambda>_. 5)\<rparr>"

lemma first_view [simp]: "g_tail first_ghost = 0" "g_count first_ghost = 0" "view first_ghost = ([], 0, {})"
  by (simp_all add: first_ghost_def view_def)

lemma make_mc_queue_ok: "mc_inv first_ghost (make_mc_queue ok)"
  by (auto simp: mc_inv_def numbers_ok_def store_ok_def index_ok_def log_ok_def shared_out_def one_index_ok_def first_ghost_def
    make_mc_queue_def new_block_index_def Let_def oldest_def split: if_splits)

section \<open>Runs\<close>

fun queue_runs :: "'a mc_view \<Rightarrow> 'a mc_ret list \<Rightarrow> 'a mc_view \<Rightarrow> bool" where
  "queue_runs v [] w \<longleftrightarrow> w = v"
| "queue_runs v (r # rs) w \<longleftrightarrow> (\<exists>u. queue_does v (Some r) u \<and> queue_runs u rs w)"

lemma mc_step_ok:
  assumes "mc_inv G s" "g_tail G + g_count G < 2 ^ 55"
  shows "mc_step e s = Wait \<or> steps_to G (mc_step e s)"
proof (cases e)
  case (Start_enqueue x)
  have "steps_to G (E_go (E_start x) s)" if "producer s = E_idle"
    using that mc_inv_parts(14) [OF assms(1)] by (intro E_go_ok [OF assms(1)]) simp_all
  then show ?thesis by (simp add: Start_enqueue)
next
  case (Producer ok) then show ?thesis using enqueue_step_ok [OF assms] by (cases "producer s = E_idle") simp_all
next
  case (Start_dequeue c)
  have "steps_to G (D_go c D_tail s)" if "consumers s c = D_idle" by (rule D_go_ok [OF assms(1)]) (simp_all add: that)
  then show ?thesis by (simp add: Start_dequeue)
next
  case (Consumer c) then show ?thesis using dequeue_step_ok [OF assms, of c] by (cases "consumers s c = D_idle") simp_all
qed

lemma run_mc_ok:
  assumes "mc_inv G s" "g_tail G + g_count G + length es < 2 ^ 55"
  shows "case run_mc es s of Crash \<Rightarrow> False | Wait \<Rightarrow> True
    | Done (s', rs) \<Rightarrow> \<exists>G'. mc_inv G' s' \<and> queue_runs (view G) rs (view G') \<and> g_tail G' + g_count G' \<le> g_tail G + g_count G + length es"
  using assms
proof (induction es arbitrary: G s)
  case (Cons e es)
  have "g_tail G + g_count G < 2 ^ 55" using Cons.prems by simp
  from mc_step_ok [OF Cons.prems(1) this, of e] consider "mc_step e s = Wait"
    | s' r H where "mc_step e s = Done (s', r)" "mc_inv H s'" "queue_does (view G) r (view H)" "g_tail H + g_count H \<le> Suc (g_tail G + g_count G)"
    unfolding steps_to_def by blast
  then show ?case
  proof cases
    case 2
    have "g_tail H + g_count H + length es < 2 ^ 55" using 2(4) Cons.prems(2) by simp
    note ih = Cons.IH [OF 2(2) this]
    show ?thesis
    proof (cases "run_mc es s'")
      case (Done p)
      obtain t rs where p: "p = (t, rs)" by fastforce
      with ih Done obtain G' where g: "mc_inv G' t" "queue_runs (view H) rs (view G')" "g_tail G' + g_count G' \<le> g_tail H + g_count H + length es" by auto
      have "queue_runs (view G) (case r of None \<Rightarrow> rs | Some x \<Rightarrow> x # rs) (view G')"
        using 2(3) g(2) by (cases r) (simp, simp only: queue_runs.simps option.case, blast)
      then show ?thesis using 2(1,4) Done p g(1,3) by simp (rule exI [of _ G'], simp)
    next
      case Wait then show ?thesis using 2(1) by simp
    next
      case Crash then show ?thesis using ih by simp
    qed
  qed simp
next
  case Nil then show ?case by auto
qed

lemma run_mc_append:
  "run_mc (es @ fs) s = bind_outcome (run_mc es s) (\<lambda>(s, rs). bind_outcome (run_mc fs s) (\<lambda>(s, rs'). Done (s, rs @ rs')))"
proof (induction es arbitrary: s)
  case Nil show ?case by (cases "run_mc fs s") auto
next
  case (Cons e es)
  show ?case
  proof (cases "mc_step e s")
    case (Done p)
    obtain t r where p: "p = (t, r)" by fastforce
    show ?thesis
    proof (cases "run_mc es t")
      case d: (Done q)
      obtain u rs where q: "q = (u, rs)" by fastforce
      show ?thesis using Done p d q Cons.IH [of t] by (cases "run_mc fs u") (auto split: option.splits)
    qed (use Done p Cons.IH [of t] in simp_all)
  qed simp_all
qed

fun enqueued :: "'a mc_ret list \<Rightarrow> 'a list" where
  "enqueued [] = []"
| "enqueued (Enqueued x # rs) = x # enqueued rs"
| "enqueued (r # rs) = enqueued rs"

fun taken :: "'a mc_ret list \<Rightarrow> nat list" where
  "taken [] = []"
| "taken (Taken i # rs) = unat i # taken rs"
| "taken (r # rs) = taken rs"

fun dequeued :: "'a mc_ret list \<Rightarrow> (nat \<times> 'a) list" where
  "dequeued [] = []"
| "dequeued (Dequeued i x # rs) = (unat i, x) # dequeued rs"
| "dequeued (r # rs) = dequeued rs"

lemma enqueued_append: "enqueued (xs @ ys) = enqueued xs @ enqueued ys"
  by (induction xs rule: enqueued.induct) simp_all

lemma dequeued_append: "dequeued (xs @ ys) = dequeued xs @ dequeued ys"
  by (induction xs rule: dequeued.induct) simp_all

lemma queue_runs_facts:
  assumes "queue_runs (xs, h, D) rs (ys, k, E)" "h \<le> length xs"
  shows "ys = xs @ enqueued rs \<and> taken rs = [h..<k] \<and> h \<le> k \<and> k \<le> length ys \<and> E = D \<union> fst ` set (dequeued rs) \<and>
    D \<inter> fst ` set (dequeued rs) = {} \<and> distinct (map fst (dequeued rs)) \<and> (\<forall>(i, x) \<in> set (dequeued rs). i < k \<and> x = ys ! i)"
  using assms
proof (induction rs arbitrary: xs h D)
  case (Cons r rs)
  show ?case
  proof (cases r)
    case (Enqueued x)
    then show ?thesis using Cons.prems Cons.IH [of "xs @ [x]" h D] by auto
  next
    case (Taken i)
    then show ?thesis using Cons.prems Cons.IH [of xs "Suc h" D] by (auto simp: upt_conv_Cons)
  next
    case (Dequeued i x)
    then have d: "unat i < h" "unat i \<notin> D" "x = xs ! unat i" "queue_runs (xs, h, insert (unat i) D) rs (ys, k, E)" using Cons.prems by auto
    note ih = Cons.IH [OF d(4) Cons.prems(2)]
    then have "ys ! unat i = xs ! unat i" using d(1) Cons.prems(2) by (simp add: nth_append)
    with ih d(1-3) show ?thesis unfolding Dequeued by auto
  qed (use Cons in auto)
qed auto


text \<open>What the invariant of a run that starts with an empty queue says about the values returned.\<close>

lemma run_from_start:
  assumes "length es < 2 ^ 55" "run_mc es (make_mc_queue ok) = Done (s, rs)"
  obtains G where "mc_inv G s" "take (g_tail G) (g_log G) = enqueued rs" "g_tail G = length (enqueued rs)" "taken rs = [0..<card (g_got G)]"
    "card (g_got G) \<le> length (enqueued rs)" "g_done G = fst ` set (dequeued rs)" "distinct (map fst (dequeued rs))"
    "\<And>i x. (i, x) \<in> set (dequeued rs) \<Longrightarrow> i < card (g_got G) \<and> x = enqueued rs ! i" "g_tail G + g_count G \<le> length es"
proof -
  from run_mc_ok [OF make_mc_queue_ok, of es ok] assms obtain G where
    G: "mc_inv G s" "queue_runs ([], 0, {}) rs (view G)" "g_tail G + g_count G \<le> length es" by auto
  obtain ys where y: "ys = take (g_tail G) (g_log G)" by simp
  note m = queue_runs_facts [OF G(2) [unfolded view_def, folded y]]
  have e: "ys = enqueued rs" using m by simp
  have f: "taken rs = [0..<card (g_got G)]"
      "card (g_got G) \<le> length (enqueued rs)" "g_done G = fst ` set (dequeued rs)" "distinct (map fst (dequeued rs))"
      "\<forall>(i, x) \<in> set (dequeued rs). i < card (g_got G) \<and> x = enqueued rs ! i" using m unfolding e by simp_all
  have l: "take (g_tail G) (g_log G) = enqueued rs" using y e by simp
  have "length (take (g_tail G) (g_log G)) = g_tail G" using log_length [OF G(1)] by simp
  then have "g_tail G = length (enqueued rs)" using l by simp
  moreover have "\<And>i x. (i, x) \<in> set (dequeued rs) \<Longrightarrow> i < card (g_got G) \<and> x = enqueued rs ! i" using f(5) by blast
  ultimately show thesis using that [OF G(1) l _ f(1-4) _ G(3)] by blast
qed

lemma idle_done:
  assumes "mc_inv G s" "\<And>c. consumers s c = D_idle"
  shows "g_done G = {..<card (g_got G)}" "g_count G = card (g_failed G) + card (g_got G)"
proof -
  note p = mc_inv_parts [OF assms(1)]
  show "g_done G = {..<card (g_got G)}" using p(8) by (simp add: shared_out_def assms(2))
  have "{..<g_count G} = g_failed G \<union> g_got G" using p(7) by (simp add: shared_out_def assms(2))
  then have "g_count G = card (g_failed G \<union> g_got G)" by (metis card_lessThan)
  then show "g_count G = card (g_failed G) + card (g_got G)" using card_Un_disjoint [OF finite_numbers [OF assms(1)] p(5)] by simp
qed

section \<open>The queue is a list\<close>

text \<open>
  What the client sees: the elements that wait, in order, and those that a thread has taken and not yet returned, by their
  numbers. Only a thread that returns an element it took gets an element, and what is taken is the oldest.
\<close>

type_synonym 'a list_queue = "'a list \<times> (nat \<rightharpoonup> 'a)"

fun list_does :: "'a list_queue \<Rightarrow> 'a mc_ret \<Rightarrow> 'a list_queue option" where
  "list_does (q, h) (Enqueued x) = Some (q @ [x], h)"
| "list_does (q, h) (Taken i) = (case q of [] \<Rightarrow> None | x # q \<Rightarrow> Some (q, h(unat i \<mapsto> x)))"
| "list_does (q, h) (Dequeued i x) = (if h (unat i) = Some x then Some (q, h(unat i := None)) else None)"
| "list_does (q, h) _ = Some (q, h)"

fun list_runs :: "'a list_queue \<Rightarrow> 'a mc_ret list \<Rightarrow> 'a list_queue option" where
  "list_runs l [] = Some l"
| "list_runs l (r # rs) = (case list_does l r of None \<Rightarrow> None | Some l \<Rightarrow> list_runs l rs)"

definition list_view :: "'a mc_view \<Rightarrow> 'a list_queue" where
  "list_view v = (case v of (xs, n, D) \<Rightarrow> (drop n xs, \<lambda>i. if i < n \<and> i \<notin> D then Some (xs ! i) else None))"

definition view_ok :: "'a mc_view \<Rightarrow> bool" where
  "view_ok v \<longleftrightarrow> (case v of (xs, n, D) \<Rightarrow> n \<le> length xs \<and> D \<subseteq> {..<n})"

lemma list_does_view: "view_ok v \<Longrightarrow> queue_does v (Some r) w \<Longrightarrow> view_ok w \<and> list_does (list_view v) r = Some (list_view w)"
proof (induction v "Some r" w rule: queue_does.induct)
  case (1 xs h D x v)
  then show ?case by (auto simp: view_ok_def list_view_def nth_append fun_eq_iff)
next
  case (2 xs h D i v)
  then show ?case by (auto simp: view_ok_def list_view_def Cons_nth_drop_Suc [symmetric] fun_eq_iff less_Suc_eq)
next
  case (3 xs h D i x v)
  then show ?case by (auto simp: view_ok_def list_view_def fun_eq_iff)
qed (auto simp: view_ok_def list_view_def)

lemma list_runs_view: "view_ok v \<Longrightarrow> queue_runs v rs w \<Longrightarrow> list_runs (list_view v) rs = Some (list_view w)"
proof (induction rs arbitrary: v)
  case (Cons r rs)
  then obtain u where "queue_does v (Some r) u" "queue_runs u rs w" by auto
  then show ?case using list_does_view [OF Cons.prems(1)] Cons.IH by simp
qed simp

lemma list_view_first [simp]: "list_view ([], 0, {}) = ([], Map.empty)" "view_ok ([], 0, {})"
  by (simp_all add: list_view_def view_ok_def)

text \<open>C30. The queue refines a list, under every interleaving of one enqueuing and any number of dequeuing threads and whatever
  allocations fail: no step crashes, the values returned are those of a list whose oldest element is taken first and of threads that return the
  element they took, what waits in the list are the published elements beyond the head, and what is in hand belongs to the threads in the middle of a dequeue.\<close>

theorem queue_refines_list:
  assumes "length es < 2 ^ 55"
  shows "case run_mc es (make_mc_queue ok) of Crash \<Rightarrow> False | Wait \<Rightarrow> True
    | Done (s, rs) \<Rightarrow> \<exists>q h. list_runs ([], Map.empty) rs = Some (q, h) \<and>
        length q = unat (tailIndex s) - unat (headIndex s) \<and> dom h = {i. \<exists>c. held (consumers s c) = Some i}"
proof -
  have "case run_mc es (make_mc_queue ok) of Crash \<Rightarrow> False | Wait \<Rightarrow> True | Done (s, rs) \<Rightarrow>
      \<exists>G. mc_inv G s \<and> queue_runs ([], 0, {}) rs (view G) \<and> g_tail G + g_count G \<le> length es"
    using run_mc_ok [OF make_mc_queue_ok, of es ok, unfolded first_view add_0] assms by blast
  moreover have "\<exists>q h. list_runs ([], Map.empty) rs = Some (q, h) \<and> length q = unat (tailIndex s) - unat (headIndex s) \<and>
      dom h = {i. \<exists>c. held (consumers s c) = Some i}"
    if "mc_inv G s" "queue_runs ([], 0, {}) rs (view G)" for G s rs
  proof -
    note p = mc_inv_parts [OF that(1)]
    have r: "list_runs ([], Map.empty) rs = Some (list_view (view G))" using list_runs_view [OF _ that(2)] by simp
    have l: "length (fst (list_view (view G))) = unat (tailIndex s) - unat (headIndex s)"
      using p(1,4) log_length [OF that(1)] by (simp add: list_view_def view_def)
    have "{i. i < card (g_got G) \<and> i \<notin> g_done G} = {i. \<exists>c. held (consumers s c) = Some i}" using p(8) unfolding shared_out_def by blast
    then have "dom (snd (list_view (view G))) = {i. \<exists>c. held (consumers s c) = Some i}" by (simp add: list_view_def view_def dom_def)
    with r l show ?thesis by (cases "list_view (view G)") auto
  qed
  ultimately show ?thesis by (auto split: outcome.splits) blast
qed

lemma sample_run_state:
  obtains s where "run_mc sample_events (make_mc_queue True) = Done (s, [Enqueued 7, Enqueued 8, Taken 0, Dequeued 0 7])"
  using sample_events_run by (auto split: outcome.splits)

lemma sample_length: "length sample_events < 2 ^ 54" "length sample_events < 2 ^ 55"
  by (simp_all add: sample_events_def)

theorem queue_refines_list_witness:
  "\<exists>s. run_mc sample_events (make_mc_queue True) = Done (s, [Enqueued 7, Enqueued 8, Taken 0, Dequeued 0 7]) \<and>
     unat (tailIndex s) - unat (headIndex s) = 1"
proof -
  obtain s where s: "run_mc sample_events (make_mc_queue True) = Done (s, [Enqueued 7, Enqueued 8, Taken 0, Dequeued 0 7])"
    by (rule sample_run_state)
  from queue_refines_list [OF sample_length(2), of True] have "unat (tailIndex s) - unat (headIndex s) = 1" unfolding s by auto
  with s show ?thesis by blast
qed

section \<open>Exactly once\<close>

text \<open>The same, as a statement about the values returned.\<close>

theorem queue_exactly_once:
  assumes "length es < 2 ^ 55"
  shows "run_mc es (make_mc_queue ok) \<noteq> Crash \<and>
    (\<forall>s rs. run_mc es (make_mc_queue ok) = Done (s, rs) \<longrightarrow>
       taken rs = [0..<length (taken rs)] \<and> length (taken rs) \<le> length (enqueued rs) \<and>
       distinct (map fst (dequeued rs)) \<and> (\<forall>(i, x) \<in> set (dequeued rs). i < length (taken rs) \<and> x = enqueued rs ! i) \<and>
       ((\<forall>c. consumers s c = D_idle) \<longrightarrow> mset (map snd (dequeued rs)) = mset (take (length (taken rs)) (enqueued rs))))"
proof (intro conjI allI impI)
  show "run_mc es (make_mc_queue ok) \<noteq> Crash"
    using run_mc_ok [OF make_mc_queue_ok, of es ok] assms by auto
next
  fix s rs assume "run_mc es (make_mc_queue ok) = Done (s, rs)"
  then obtain G where f: "mc_inv G s" "take (g_tail G) (g_log G) = enqueued rs" "g_tail G = length (enqueued rs)" "taken rs = [0..<card (g_got G)]"
    "card (g_got G) \<le> length (enqueued rs)" "g_done G = fst ` set (dequeued rs)" "distinct (map fst (dequeued rs))"
    "\<And>i x. (i, x) \<in> set (dequeued rs) \<Longrightarrow> i < card (g_got G) \<and> x = enqueued rs ! i"
    using run_from_start [OF assms] by metis
  show "taken rs = [0..<length (taken rs)]" "length (taken rs) \<le> length (enqueued rs)" "distinct (map fst (dequeued rs))"
    "\<forall>(i, x) \<in> set (dequeued rs). i < length (taken rs) \<and> x = enqueued rs ! i" using f by auto
  assume "\<forall>c. consumers s c = D_idle"
  then have "fst ` set (dequeued rs) = {..<length (taken rs)}" using idle_done(1) [OF f(1)] f(4,6) by simp
  moreover have snd: "map snd (dequeued rs) = map (nth (enqueued rs)) (map fst (dequeued rs))" using f(8) by auto
  ultimately have "mset (map fst (dequeued rs)) = mset [0..<length (taken rs)]"
    using f(7) by (subst set_eq_iff_mset_eq_distinct [symmetric]) auto
  then have "mset (map snd (dequeued rs)) = mset (map (nth (enqueued rs)) [0..<length (taken rs)])" unfolding snd by (metis mset_map)
  also have "map (nth (enqueued rs)) [0..<length (taken rs)] = take (length (taken rs)) (enqueued rs)"
    using f(4,5) by (intro nth_equalityI) simp_all
  finally show "mset (map snd (dequeued rs)) = mset (take (length (taken rs)) (enqueued rs))" .
qed


section \<open>Every operation ends\<close>

text \<open>The steps that an operation can still take; the loop over the flags of a block takes at most 32.\<close>

fun dequeue_rank :: "'a dequeue_pc \<Rightarrow> nat" where
  "dequeue_rank D_idle = 0"
| "dequeue_rank D_tail = 12"
| "dequeue_rank (D_over t) = 11"
| "dequeue_rank (D_count t v) = 10"
| "dequeue_rank (D_claim v) = 9"
| "dequeue_rank (D_check v m) = 8"
| "dequeue_rank (D_undo m) = 7"
| "dequeue_rank (D_head m) = 7"
| "dequeue_rank (D_index i) = 6"
| "dequeue_rank (D_front i p) = 5"
| "dequeue_rank (D_base i p f) = 4"
| "dequeue_rank (D_block i p f b) = 3"
| "dequeue_rank (D_elem i b) = 2"
| "dequeue_rank (D_flag i b x) = 1"

fun enqueue_rank :: "'a enqueue_pc \<Rightarrow> nat" where
  "enqueue_rank E_idle = 0"
| "enqueue_rank (E_start x) = 42"
| "enqueue_rank (E_check x j) = 9 + (32 - j)"
| "enqueue_rank (E_head x) = 8"
| "enqueue_rank (E_grow x) = 7"
| "enqueue_rank (E_block x) = 6"
| "enqueue_rank (E_base x) = 5"
| "enqueue_rank (E_entry x) = 4"
| "enqueue_rank (E_front x) = 3"
| "enqueue_rank (E_store x) = 2"
| "enqueue_rank (E_tail x) = 1"

lemma step_Done_simps:
  "on_block s b f = Done y \<longleftrightarrow> (\<exists>B. mc_blocks s b = Some B \<and> f B = Done y)"
  "on_index s p g = Done y \<longleftrightarrow> (\<exists>X. indices s p = Some X \<and> g X = Done y)"
  "entry_at X i h = Done y \<longleftrightarrow> unat i < length (x_entries X) \<and> h (x_entries X ! unat i) = Done y"
  "D_go c pc s = Done (s', r) \<longleftrightarrow> s' = s\<lparr>consumers := (consumers s)(c := pc)\<rparr> \<and> r = None"
  "D_return c x s = Done (s', r) \<longleftrightarrow> s' = s\<lparr>consumers := (consumers s)(c := D_idle)\<rparr> \<and> r = Some x"
  "E_go e s = Done (s', r) \<longleftrightarrow> s' = s\<lparr>producer := e\<rparr> \<and> r = None"
  "E_return x s = Done (s', r) \<longleftrightarrow> s' = s\<lparr>producer := E_idle\<rparr> \<and> r = Some x"
  by (auto simp: on_block_def on_index_def entry_at_def D_go_def D_return_def E_go_def E_return_def split: option.splits)

lemma dequeue_step_rank:
  assumes "dequeue_step c pc s = Done (s', r)"
  shows "dequeue_rank (consumers s' c) < dequeue_rank pc \<and> (\<forall>d. d \<noteq> c \<longrightarrow> consumers s' d = consumers s d) \<and> producer s' = producer s"
  using assms by (cases pc; auto simp: step_Done_simps case_prod_beta split: if_splits option.splits)

lemma new_block_index_threads: "new_block_index ok n s = Some s' \<Longrightarrow> producer s' = producer s \<and> consumers s' = consumers s"
  by (auto simp: new_block_index_def Let_def split: if_splits)

lemma enqueue_step_rank:
  assumes "enqueue_step ok pc s = Done (s', r)"
  shows "enqueue_rank (producer s') < enqueue_rank pc \<and> consumers s' = consumers s"
proof (cases pc)
  case (E_grow x)
  show ?thesis
  proof (cases "new_block_index ok (slots_used s) s")
    case None then show ?thesis using assms E_grow by (auto simp: step_Done_simps)
  next
    case (Some t) then show ?thesis using assms E_grow new_block_index_threads [OF Some] by (auto simp: step_Done_simps)
  qed
next
  case (E_check x j)
  then obtain T B t where "tailBlock s = Some t" "mc_blocks s t = Some T" "mc_blocks s (b_next T) = Some B"
    using assms by (auto simp: step_Done_simps split: option.splits)
  then show ?thesis using assms E_check by (auto simp: step_Done_simps on_block_def split: if_splits)
next
  case (E_block x)
  show ?thesis
  proof (cases "tailBlock s")
    case None then show ?thesis using assms E_block by (auto simp: step_Done_simps Let_def split: if_splits)
  next
    case (Some t) then show ?thesis using assms E_block by (auto simp: step_Done_simps Let_def split: if_splits)
  qed
next
  case (E_head x) then show ?thesis using assms by (auto simp: step_Done_simps Let_def split: if_splits)
next
  case (E_entry x) then show ?thesis using assms by (auto simp: step_Done_simps case_prod_beta split: option.splits)
next
  case (E_store x) then show ?thesis using assms by (auto simp: step_Done_simps Let_def split: option.splits if_splits)
next
  case (E_base x) then show ?thesis using assms by (auto simp: step_Done_simps case_prod_beta split: option.splits)
next
  case (E_front x) then show ?thesis using assms by (auto simp: step_Done_simps split: option.splits)
qed (use assms in \<open>auto simp: step_Done_simps split: if_splits\<close>)

definition is_producer :: "'a mc_event \<Rightarrow> bool" where
  "is_producer e \<longleftrightarrow> (case e of Producer ok \<Rightarrow> True | _ \<Rightarrow> False)"

definition is_enqueue :: "'a mc_event \<Rightarrow> bool" where
  "is_enqueue e \<longleftrightarrow> (case e of Start_enqueue x \<Rightarrow> True | _ \<Rightarrow> False)"

lemma step_counts:
  assumes "mc_step e s = Done (s', r)"
  shows "(if e = Consumer c then 1 else 0) + dequeue_rank (consumers s' c) \<le> dequeue_rank (consumers s c) + (if e = Start_dequeue c then 12 else 0)"
    "(if is_producer e then 1 else 0) + enqueue_rank (producer s') \<le> enqueue_rank (producer s) + (if is_enqueue e then 42 else 0)"
proof -
  show "(if e = Consumer c then 1 else 0) + dequeue_rank (consumers s' c) \<le> dequeue_rank (consumers s c) + (if e = Start_dequeue c then 12 else 0)"
  proof (cases e)
    case (Consumer d)
    then show ?thesis using assms dequeue_step_rank [of d "consumers s d" s s' r] by (cases "d = c") auto
  qed (use assms enqueue_step_rank [of _ "producer s" s s' r] in \<open>auto simp: E_go_def D_go_def split: if_splits\<close>)
  show "(if is_producer e then 1 else 0) + enqueue_rank (producer s') \<le> enqueue_rank (producer s) + (if is_enqueue e then 42 else 0)"
  proof (cases e)
    case (Producer ok)
    then show ?thesis using assms enqueue_step_rank [of ok "producer s" s s' r] by (simp add: is_producer_def is_enqueue_def)
  qed (use assms dequeue_step_rank [of _ _ s s' r] in \<open>auto simp: E_go_def D_go_def is_producer_def is_enqueue_def split: if_splits\<close>)
qed

lemma run_counts:
  assumes "run_mc es s = Done (s', rs)"
  shows "count_list es (Consumer c) + dequeue_rank (consumers s' c) \<le> dequeue_rank (consumers s c) + 12 * count_list es (Start_dequeue c)"
    "length (filter is_producer es) + enqueue_rank (producer s') \<le> enqueue_rank (producer s) + 42 * length (filter is_enqueue es)"
  using assms
proof (induction es arbitrary: s rs)
  case (Cons e es)
  { case 1
    then obtain t r us where "mc_step e s = Done (t, r)" "run_mc es t = Done (s', us)" by auto
    then show ?case using step_counts(1) [of e s t r c] Cons.IH(1) [of t us] by (auto split: if_splits) }
  { case 2
    then obtain t r us where "mc_step e s = Done (t, r)" "run_mc es t = Done (s', us)" by auto
    then show ?case using step_counts(2) [of e s t r] Cons.IH(2) [of t us] by (auto split: if_splits) }
qed auto


text \<open>Only a failed allocation makes an enqueue fail.\<close>

lemma refused_step:
  assumes "mc_inv G s" "g_tail G < 2 ^ 55" "mc_step e s = Done (s', Some (Refused x))"
  shows "e = Producer False"
proof (cases e)
  case (Producer ok)
  have "\<not> ok"
  proof
    assume ok
    with Producer assms(3) have d: "enqueue_step True (producer s) s = Done (s', Some (Refused x))" by simp
    show False
    proof (cases "producer s")
      case (E_head y) then show ?thesis using d head_checks [OF assms(1,2)] by (simp add: step_Done_simps Let_def split: if_splits)
    next
      case (E_check y j) then show ?thesis using d by (auto simp: step_Done_simps on_block_def split: option.splits if_splits)
    qed (use d in \<open>auto simp: step_Done_simps new_block_index_def Let_def case_prod_beta split: option.splits if_splits\<close>)
  qed
  then show ?thesis using Producer by simp
next
  case (Consumer c)
  then show ?thesis using assms(3)
    by (cases "consumers s c") (auto simp: step_Done_simps case_prod_beta split: option.splits if_splits)
qed (use assms(3) in \<open>auto simp: step_Done_simps split: if_splits\<close>)

lemma run_refused:
  assumes "mc_inv G s" "g_tail G + g_count G + length es < 2 ^ 55" "run_mc es s = Done (s', rs)" "Refused x \<in> set rs"
  shows "Producer False \<in> set es"
  using assms
proof (induction es arbitrary: G s rs)
  case (Cons e es)
  from Cons.prems(3) obtain t r us where t: "mc_step e s = Done (t, r)" "run_mc es t = Done (s', us)" "rs = (case r of None \<Rightarrow> us | Some y \<Rightarrow> y # us)" by auto
  have b: "g_tail G + g_count G < 2 ^ 55" "g_tail G < 2 ^ 55" using Cons.prems(2) by simp_all
  from mc_step_ok [OF Cons.prems(1) b(1), of e] t(1) obtain H where h: "mc_inv H t" "g_tail H + g_count H \<le> Suc (g_tail G + g_count G)"
    by (auto simp: steps_to_def)
  show ?case
  proof (cases "r = Some (Refused x)")
    case True then show ?thesis using refused_step [OF Cons.prems(1) b(2)] t(1) by auto
  next
    case False
    then have "Refused x \<in> set us" using Cons.prems(4) t(3) by (auto split: option.splits)
    moreover have "g_tail H + g_count H + length es < 2 ^ 55" using h(2) Cons.prems(2) by simp
    ultimately show ?thesis using Cons.IH [OF h(1) _ t(2)] by simp
  qed
qed simp

section \<open>A dequeue that runs alone\<close>

text \<open>The steps left once an index is taken.\<close>

fun late :: "'a dequeue_pc \<Rightarrow> (nat \<times> u64) option" where
  "late (D_index i) = Some (5, i)"
| "late (D_front i p) = Some (4, i)"
| "late (D_base i p f) = Some (3, i)"
| "late (D_block i p f b) = Some (2, i)"
| "late (D_elem i b) = Some (1, i)"
| "late (D_flag i b x) = Some (0, i)"
| "late _ = None"

lemma late_step:
  assumes "dequeue_step c pc s = Done (s', r)" "late pc = Some (k, i)"
  shows "case k of 0 \<Rightarrow> \<exists>x. r = Some (Dequeued i x) | Suc l \<Rightarrow> r = None \<and> late (consumers s' c) = Some (l, i)"
  using assms by (cases pc) (auto simp: step_Done_simps case_prod_beta split: option.splits if_splits)

lemma late_run:
  assumes "mc_inv G s" "g_tail G + g_count G + k < 2 ^ 55" "late (consumers s c) = Some (k, i)"
  shows "\<exists>s' x. run_mc (replicate (Suc k) (Consumer c)) s = Done (s', [Dequeued i x])"
  using assms
proof (induction k arbitrary: G s)
  case 0
  then have "consumers s c \<noteq> D_idle" by auto
  with dequeue_step_ok [OF 0(1) _ this] 0(2) obtain s' r where "dequeue_step c (consumers s c) s = Done (s', r)" by (auto simp: steps_to_def)
  with late_step [OF this 0(3)] show ?case by auto
next
  case (Suc k)
  then have "consumers s c \<noteq> D_idle" by auto
  with dequeue_step_ok [OF Suc.prems(1) _ this] Suc.prems(2) obtain s' r H where
    d: "dequeue_step c (consumers s c) s = Done (s', r)" "mc_inv H s'" "g_tail H + g_count H \<le> Suc (g_tail G + g_count G)" by (auto simp: steps_to_def)
  note l = late_step [OF d(1) Suc.prems(3), simplified]
  have "g_tail H + g_count H + k < 2 ^ 55" using d(3) Suc.prems(2) by simp
  from Suc.IH [OF d(2) this conjunct2 [OF l]] show ?case using d(1) l by auto
qed


lemma lone_checks:
  assumes "mc_inv G s" "g_tail G + g_count G < 2 ^ 55" "\<And>c. consumers s c = D_idle"
  shows "circular_less_than (optimistic s - overcommit s) (tailIndex s) \<longleftrightarrow> card (g_got G) < g_tail G"
proof -
  note p = mc_inv_parts [OF assms(1)] and n = idle_done(2) [OF assms(1,3)]
  have "unat (optimistic s - overcommit s) = card (g_got G)" using n p(2,3) by (subst unat_minus) simp_all
  then show ?thesis using clt_iff [of "optimistic s - overcommit s" "tailIndex s"] p(1) n assms(2) by simp
qed

lemma lone_start:
  assumes "circular_less_than (optimistic s - overcommit s) (tailIndex s)" "consumers s c = D_idle"
  shows "\<exists>s'. run_mc (Start_dequeue c # replicate 6 (Consumer c)) s = Done (s', [Taken (headIndex s)]) \<and> consumers s' c = D_index (headIndex s)"
  using assms by (simp add: numeral_eq_Suc D_go_def)

lemma lone_empty:
  assumes "\<not> circular_less_than (optimistic s - overcommit s) (tailIndex s)" "consumers s c = D_idle"
  shows "\<exists>s'. run_mc (Start_dequeue c # replicate 3 (Consumer c)) s = Done (s', [Empty])"
  using assms by (simp add: numeral_eq_Suc D_go_def D_return_def)

lemma lone_run:
  assumes "mc_inv G s" "g_tail G + g_count G < 2 ^ 54" "\<And>c. consumers s c = D_idle" "card (g_got G) < g_tail G"
  shows "\<exists>s' x. run_mc (Start_dequeue c # replicate 12 (Consumer c)) s = Done (s', [Taken (headIndex s), Dequeued (headIndex s) x])"
proof -
  let ?es = "Start_dequeue c # replicate 6 (Consumer c)"
  have l: "circular_less_than (optimistic s - overcommit s) (tailIndex s)" using lone_checks [OF assms(1) _ assms(3)] assms(2,4) by simp
  obtain t where t: "run_mc ?es s = Done (t, [Taken (headIndex s)])" "consumers t c = D_index (headIndex s)" using lone_start [OF l assms(3)] by blast
  obtain H where H: "mc_inv H t" "g_tail H + g_count H \<le> g_tail G + g_count G + 7"
    using run_mc_ok [OF assms(1), of ?es] assms(2) unfolding t(1) by auto
  have "g_tail H + g_count H + 5 < 2 ^ 55" "late (consumers t c) = Some (5, headIndex s)" using H(2) assms(2) t(2) by simp_all
  from late_run [OF H(1) this] obtain u x where u: "run_mc (replicate 6 (Consumer c)) t = Done (u, [Dequeued (headIndex s) x])" by auto
  have e: "Start_dequeue c # replicate 12 (Consumer c) = ?es @ replicate 6 (Consumer c)" by (simp add: replicate_add [symmetric])
  have "run_mc (?es @ replicate 6 (Consumer c)) s = Done (u, [Taken (headIndex s)] @ [Dequeued (headIndex s) x])"
    by (simp only: run_mc_append t(1) u bind_outcome.simps prod.case)
  then show ?thesis unfolding e append.simps by blast
qed

text \<open>A dequeue that runs while no other is under way, in any state that a run can reach, returns the oldest element that
  nobody took, and comes back empty only when there is none; the producer may be anywhere.\<close>

theorem lone_dequeue:
  assumes "length es < 2 ^ 54" "run_mc es (make_mc_queue ok) = Done (s, rs)" "\<And>d. consumers s d = D_idle"
  shows "if length (taken rs) < length (enqueued rs)
    then \<exists>s' i. run_mc (Start_dequeue c # replicate 12 (Consumer c)) s = Done (s', [Taken i, Dequeued i (enqueued rs ! length (taken rs))]) \<and>
      unat i = length (taken rs)
    else \<exists>s'. run_mc (Start_dequeue c # replicate 3 (Consumer c)) s = Done (s', [Empty])"
proof -
  have "length es < 2 ^ 55" using assms(1) by simp
  then obtain G where f: "mc_inv G s" "g_tail G = length (enqueued rs)" "taken rs = [0..<card (g_got G)]" "g_tail G + g_count G \<le> length es"
    using run_from_start [OF _ assms(2)] by metis
  have h: "card (g_got G) = length (taken rs)" "unat (headIndex s) = length (taken rs)" using f(3) mc_inv_parts(4) [OF f(1)] by simp_all
  have small: "g_tail G + g_count G < 2 ^ 55" "g_tail G + g_count G < 2 ^ 54" using f(4) assms(1) by simp_all
  show ?thesis
  proof (cases "length (taken rs) < length (enqueued rs)")
    case True
    let ?fs = "Start_dequeue c # replicate 12 (Consumer c)"
    have "card (g_got G) < g_tail G" using True h(1) f(2) by simp
    from lone_run [OF f(1) small(2) assms(3) this] obtain s' x where
      r: "run_mc ?fs s = Done (s', [Taken (headIndex s), Dequeued (headIndex s) x])" by blast
    then have "run_mc (es @ ?fs) (make_mc_queue ok) = Done (s', rs @ [Taken (headIndex s), Dequeued (headIndex s) x])"
      using assms(2) by (simp add: run_mc_append del: run_mc.simps replicate.simps)
    moreover have "length (es @ ?fs) < 2 ^ 55" using assms(1) by simp
    ultimately obtain G' where "\<And>i y. (i, y) \<in> set (dequeued (rs @ [Taken (headIndex s), Dequeued (headIndex s) x])) \<Longrightarrow>
        y = enqueued (rs @ [Taken (headIndex s), Dequeued (headIndex s) x]) ! i" using run_from_start by metis
    then have "x = enqueued rs ! length (taken rs)" by (auto simp: dequeued_append enqueued_append h(2))
    with r h(2) have "\<exists>s' i. run_mc ?fs s = Done (s', [Taken i, Dequeued i (enqueued rs ! length (taken rs))]) \<and> unat i = length (taken rs)"
      by metis
    then show ?thesis by (simp only: True if_True)
  next
    case False
    then have "\<not> circular_less_than (optimistic s - overcommit s) (tailIndex s)" using lone_checks [OF f(1) small(1) assms(3)] f(2) h(1) by simp
    from lone_empty [OF this assms(3)] show ?thesis using False by simp
  qed
qed


lemma start_ranks [simp]: "dequeue_rank (consumers (make_mc_queue ok) c) = 0" "enqueue_rank (producer (make_mc_queue ok)) = 0"
  by (simp_all add: make_mc_queue_def new_block_index_def Let_def)

lemma rank_bounds: "dequeue_rank pc \<le> 12" "enqueue_rank qc \<le> 42"
  by (cases pc; simp) (cases qc; simp)

text \<open>C26. Every operation ends within a fixed number of its own steps, whatever the other threads do. Take any stretch \<open>fs\<close> of any run. If
  thread \<open>c\<close> starts no dequeue in it, so that all its steps there belong to one dequeue, it takes at most 12 steps; if no enqueue starts in
  it, the producer takes at most 42. A thread in the middle of an operation is never blocked: its next step goes through at the end
  of the stretch, whether an allocation succeeds or not. An enqueue fails only when an allocation failed.\<close>

theorem queue_wait_free:
  assumes "length es + length fs < 2 ^ 55" "run_mc es (make_mc_queue ok) = Done (s, rs)" "run_mc fs s = Done (t, ts)"
  shows "(Start_dequeue c \<notin> set fs \<longrightarrow> count_list fs (Consumer c) \<le> 12) \<and>
    ((\<forall>x. Start_enqueue x \<notin> set fs) \<longrightarrow> length (filter is_producer fs) \<le> 42) \<and>
    (consumers t c \<noteq> D_idle \<longrightarrow> (\<exists>u r. mc_step (Consumer c) t = Done (u, r))) \<and>
    (producer t \<noteq> E_idle \<longrightarrow> (\<exists>u r. mc_step (Producer a) t = Done (u, r))) \<and>
    (Producer False \<notin> set (es @ fs) \<longrightarrow> (\<forall>x. Refused x \<notin> set (rs @ ts)))"
proof -
  have run: "run_mc (es @ fs) (make_mc_queue ok) = Done (t, rs @ ts)" using assms(2,3) by (simp add: run_mc_append)
  have len: "length (es @ fs) < 2 ^ 55" using assms(1) by simp
  have c: "count_list fs (Consumer c) \<le> 12" if "Start_dequeue c \<notin> set fs"
    using run_counts(1) [OF assms(3), of c] rank_bounds(1) [of "consumers s c"] that by (simp add: count_list_0_iff [THEN iffD2])
  have p: "length (filter is_producer fs) \<le> 42" if "\<forall>x. Start_enqueue x \<notin> set fs"
  proof -
    have "filter is_enqueue fs = []" using that by (auto simp: filter_empty_conv is_enqueue_def split: mc_event.splits)
    then show ?thesis using run_counts(2) [OF assms(3)] rank_bounds(2) [of "producer s"] by simp
  qed
  from run_from_start [OF len run] obtain G where "mc_inv G t" "g_tail G + g_count G \<le> length (es @ fs)" by metis
  then have g: "mc_inv G t" "g_tail G + g_count G < 2 ^ 55" using len by simp_all
  have "\<exists>u r. mc_step (Consumer c) t = Done (u, r)" if "consumers t c \<noteq> D_idle"
    using dequeue_step_ok [OF g that] by (auto simp: steps_to_def)
  moreover have "\<exists>u r. mc_step (Producer a) t = Done (u, r)" if "producer t \<noteq> E_idle"
    using enqueue_step_ok [OF g that, of a] by (simp add: steps_to_def) blast
  moreover have "Producer False \<in> set (es @ fs)" if "Refused x \<in> set (rs @ ts)" for x
    using run_refused [OF make_mc_queue_ok _ run] len that by simp
  ultimately show ?thesis using c p by blast
qed

theorem queue_wait_free_witness:
  "\<exists>s rs t ts. run_mc (take 14 sample_events) (make_mc_queue True) = Done (s, rs) \<and> run_mc (drop 14 sample_events) s = Done (t, ts) \<and>
     count_list (drop 14 sample_events) (Consumer 1) \<le> 12 \<and> Refused 7 \<notin> set (rs @ ts)"
proof -
  obtain u where u: "run_mc (take 14 sample_events @ drop 14 sample_events) (make_mc_queue True) = Done (u, [Enqueued 7, Enqueued 8, Taken 0, Dequeued 0 7])"
    using sample_run_state by (metis append_take_drop_id)
  then obtain s rs t ts where r: "run_mc (take 14 sample_events) (make_mc_queue True) = Done (s, rs)" "run_mc (drop 14 sample_events) s = Done (t, ts)"
    unfolding run_mc_append bind_outcome_eq_Done by auto
  have l: "length (take 14 sample_events) + length (drop 14 sample_events) < 2 ^ 55" by (simp add: sample_events_def)
  have "Start_dequeue 1 \<notin> set (drop 14 sample_events)" "Producer False \<notin> set (take 14 sample_events @ drop 14 sample_events)"
    unfolding append_take_drop_id by (simp_all add: sample_events_def numeral_eq_Suc)
  with queue_wait_free [OF l r, of 1] r show ?thesis by blast
qed

lemma sample_idle:
  assumes "run_mc sample_events (make_mc_queue True) = Done (s, rs)"
  shows "consumers s c = D_idle"
proof -
  have "12 * count_list sample_events (Start_dequeue c) \<le> count_list sample_events (Consumer c)"
    by (simp add: sample_events_def numeral_eq_Suc)
  then have "dequeue_rank (consumers s c) = 0" using run_counts(1) [OF assms, of c] by simp
  then show ?thesis by (cases "consumers s c") simp_all
qed

theorem lone_dequeue_witness:
  "\<exists>s s' i. run_mc sample_events (make_mc_queue True) = Done (s, [Enqueued 7, Enqueued 8, Taken 0, Dequeued 0 7]) \<and>
     run_mc (Start_dequeue 2 # replicate 12 (Consumer 2)) s = Done (s', [Taken i, Dequeued i 8])"
proof -
  obtain s where s: "run_mc sample_events (make_mc_queue True) = Done (s, [Enqueued 7, Enqueued 8, Taken 0, Dequeued 0 7])"
    by (rule sample_run_state)
  have c: "length (taken [Enqueued (7::nat), Enqueued 8, Taken 0, Dequeued 0 7]) < length (enqueued [Enqueued (7::nat), Enqueued 8, Taken 0, Dequeued 0 7])"
    and e: "enqueued [Enqueued (7::nat), Enqueued 8, Taken 0, Dequeued 0 7] ! length (taken [Enqueued (7::nat), Enqueued 8, Taken 0, Dequeued 0 7]) = 8" by simp_all
  from lone_dequeue [OF sample_length(1) s sample_idle [OF s], of 2] s show ?thesis unfolding if_P [OF c] e by blast
qed

end
