(* ===== verification/Parlay_Elastic.thy ===== *)
theory Parlay_Elastic
  imports Prelude
begin

text \<open>
  How the threads of the fork-join scheduler sleep, are woken and end (\<^verbatim>\<open>lib/parlay/scheduler.h\<close>): \<^verbatim>\<open>worker\<close>,
  \<^verbatim>\<open>wait_for_work\<close>, \<^verbatim>\<open>wake_up_a_worker\<close>, \<^verbatim>\<open>wake_up_all_workers\<close> and \<^verbatim>\<open>shutdown\<close>, one access to an atomic variable per step. What the
  jobs do, and what a theft finds, are inputs (\<open>Parlay_Fork_Join\<close> has the jobs). A wait on an atomic variable compares and falls asleep in one step, as the standard demands; a thread that
  is woken compares again; it may be woken for no reason. Thread 0 is the main thread.
\<close>

datatype el_worker =
    L_wait
  | L_load
  | L_test u64
  | L_blocked u64
  | L_add
  | L_check
  | L_first
  | L_own
  | L_get
  | L_steal
  | L_again
  | L_null
  | L_run
  | L_wake_load bool
  | L_wake_inc bool
  | L_wake_notify bool
  | L_finish
  | L_ended

datatype el_main =
    M_run
  | M_wake_load
  | M_wake_inc
  | M_wake_notify
  | M_stop
  | M_test
  | M_all_load
  | M_all_inc
  | M_all_notify
  | M_join nat
  | M_done

record elastic =
  el_threads :: nat
  el_awake :: u64
  el_counter :: u64
  el_finished :: u64
  el_flag :: bool
  el_worker :: "nat \<Rightarrow> el_worker"
  el_main :: el_main

definition make_elastic :: "nat \<Rightarrow> elastic" where
  "make_elastic n = \<lparr>el_threads = n, el_awake = of_nat n, el_counter = 0, el_finished = 0, el_flag = False,
     el_worker = (\<lambda>_. L_wait), el_main = M_run\<rparr>"

text \<open>The inputs: whether the deque of the worker has a job; what a theft finds (a job, and whether the deque is left empty); that the time to
  steal is over or not; that the job that runs spawns onto an empty deque or steals from one that it does not leave empty while it joins, or that
  it ends; the threads that a notification wakes.\<close>

datatype el_input = Own bool | Steal bool bool | Time_out | Try_again | Wake_first | End_job | Wakes "nat list" | Proceed

definition set_el :: "nat \<Rightarrow> el_worker \<Rightarrow> elastic \<Rightarrow> elastic" where
  "set_el i pc s = s\<lparr>el_worker := (el_worker s)(i := pc)\<rparr>"

fun is_blocked :: "el_worker \<Rightarrow> bool" where
  "is_blocked (L_blocked k) = True"
| "is_blocked _ = False"

fun retest :: "el_worker \<Rightarrow> el_worker" where
  "retest (L_blocked k) = L_test k"
| "retest pc = pc"

definition blocked_workers :: "elastic \<Rightarrow> nat list" where
  "blocked_workers s = filter (\<lambda>i. is_blocked (el_worker s i)) [1..<el_threads s]"

text \<open>At least one thread wakes up if any waits.\<close>

definition notify_one :: "nat list \<Rightarrow> elastic \<Rightarrow> elastic outcome" where
  "notify_one js s =
     (if blocked_workers s \<noteq> [] \<and> list_all (\<lambda>i. i \<notin> set js) (blocked_workers s) then Wait
      else Done (s\<lparr>el_worker := (\<lambda>i. if i \<in> set js then retest (el_worker s i) else el_worker s i)\<rparr>))"

definition notify_all :: "elastic \<Rightarrow> elastic" where
  "notify_all s = s\<lparr>el_worker := (\<lambda>i. retest (el_worker s i))\<rparr>"

definition after_wake :: "bool \<Rightarrow> el_worker" where
  "after_wake running = (if running then L_run else L_again)"

text \<open>A worker: \<^verbatim>\<open>wait_for_work\<close>, then the loop of \<^verbatim>\<open>worker\<close> with \<^verbatim>\<open>get_job\<close>.\<close>

fun worker_step :: "nat \<Rightarrow> el_input \<Rightarrow> el_worker \<Rightarrow> elastic \<Rightarrow> elastic outcome" where
  "worker_step i x L_wait s = Done (set_el i L_load (s\<lparr>el_awake := el_awake s - 1\<rparr>))"
| "worker_step i x L_load s = Done (set_el i (L_test (el_counter s)) s)"
| "worker_step i x (L_test k) s = Done (set_el i (if el_counter s = k then L_blocked k else L_add) s)"
| "worker_step i x (L_blocked k) s = Wait"
| "worker_step i x L_add s = Done (set_el i L_check (s\<lparr>el_awake := el_awake s + 1\<rparr>))"
| "worker_step i x L_check s = Done (set_el i (if el_flag s then L_finish else L_first) s)"
| "worker_step i x L_first s = Done (set_el i (if el_flag s then L_null else L_own) s)"
| "worker_step i x L_own s = (case x of Own job \<Rightarrow> Done (set_el i (if job then L_run else L_get) s) | _ \<Rightarrow> Wait)"
| "worker_step i x L_get s = Done (set_el i (if el_flag s then L_null else L_steal) s)"
| "worker_step i x L_steal s =
     (case x of
        Steal job emptied \<Rightarrow> Done (set_el i (if \<not> emptied then L_wake_load job else if job then L_run else L_again) s)
      | _ \<Rightarrow> Wait)"
| "worker_step i x L_again s =
     (case x of Time_out \<Rightarrow> Done (set_el i L_null s) | Try_again \<Rightarrow> Done (set_el i L_get s) | _ \<Rightarrow> Wait)"
| "worker_step i x L_null s = Done (set_el i (if el_flag s then L_check else L_wait) s)"
| "worker_step i x L_run s =
     (case x of Wake_first \<Rightarrow> Done (set_el i (L_wake_load True) s) | End_job \<Rightarrow> Done (set_el i L_check s) | _ \<Rightarrow> Wait)"
| "worker_step i x (L_wake_load r) s =
     Done (set_el i (if el_awake s < of_nat (el_threads s) then L_wake_inc r else after_wake r) s)"
| "worker_step i x (L_wake_inc r) s = Done (set_el i (L_wake_notify r) (s\<lparr>el_counter := el_counter s + 1\<rparr>))"
| "worker_step i x (L_wake_notify r) s =
     (case x of Wakes js \<Rightarrow> bind_outcome (notify_one js s) (\<lambda>s. Done (set_el i (after_wake r) s)) | _ \<Rightarrow> Wait)"
| "worker_step i x L_finish s =
     (if el_flag s then Done (set_el i L_ended (s\<lparr>el_finished := el_finished s + 1\<rparr>)) else Crash)"
| "worker_step i x L_ended s = Wait"

text \<open>The main thread: it runs jobs of its own until it is told to proceed to \<^verbatim>\<open>shutdown\<close>.\<close>

fun main_step :: "el_input \<Rightarrow> el_main \<Rightarrow> elastic \<Rightarrow> elastic outcome" where
  "main_step x M_run s =
     (case x of Wake_first \<Rightarrow> Done (s\<lparr>el_main := M_wake_load\<rparr>) | Proceed \<Rightarrow> Done (s\<lparr>el_main := M_stop\<rparr>) | _ \<Rightarrow> Wait)"
| "main_step x M_wake_load s = Done (s\<lparr>el_main := (if el_awake s < of_nat (el_threads s) then M_wake_inc else M_run)\<rparr>)"
| "main_step x M_wake_inc s = Done (s\<lparr>el_counter := el_counter s + 1, el_main := M_wake_notify\<rparr>)"
| "main_step x M_wake_notify s =
     (case x of Wakes js \<Rightarrow> bind_outcome (notify_one js s) (\<lambda>s. Done (s\<lparr>el_main := M_run\<rparr>)) | _ \<Rightarrow> Wait)"
| "main_step x M_stop s = Done (s\<lparr>el_flag := True, el_main := M_test\<rparr>)"
| "main_step x M_test s = Done (s\<lparr>el_main := (if el_finished s < ucast (of_nat (el_threads s) - 1 :: u32) then M_all_load else M_join 1)\<rparr>)"
| "main_step x M_all_load s = Done (s\<lparr>el_main := (if el_awake s < of_nat (el_threads s) then M_all_inc else M_test)\<rparr>)"
| "main_step x M_all_inc s = Done (s\<lparr>el_counter := el_counter s + 1, el_main := M_all_notify\<rparr>)"
| "main_step x M_all_notify s = Done (notify_all s\<lparr>el_main := M_test\<rparr>)"
| "main_step x (M_join i) s =
     (if i < el_threads s then (if el_worker s i = L_ended then Done (s\<lparr>el_main := M_join (i + 1)\<rparr>) else Wait)
      else Done (s\<lparr>el_main := M_done\<rparr>))"
| "main_step x M_done s = Wait"

datatype el_event = Main_thread el_input | Worker_thread nat el_input | Spurious nat

fun el_step :: "el_event \<Rightarrow> elastic \<Rightarrow> elastic outcome" where
  "el_step (Main_thread x) s = main_step x (el_main s) s"
| "el_step (Worker_thread i x) s = (if 1 \<le> i \<and> i < el_threads s then worker_step i x (el_worker s i) s else Wait)"
| "el_step (Spurious i) s = Done (set_el i (retest (el_worker s i)) s)"

fun el_run :: "el_event list \<Rightarrow> elastic \<Rightarrow> elastic outcome" where
  "el_run [] s = Done s"
| "el_run (e # es) s = bind_outcome (el_step e s) (el_run es)"

lemma el_run_append: "el_run (es @ fs) s = bind_outcome (el_run es s) (el_run fs)"
  by (induction es arbitrary: s) (auto, metis bind_outcome.simps outcome.exhaust)

section \<open>Counting\<close>

fun asleep :: "el_worker \<Rightarrow> bool" where
  "asleep L_load = True"
| "asleep (L_test k) = True"
| "asleep (L_blocked k) = True"
| "asleep L_add = True"
| "asleep _ = False"

fun seen :: "el_worker \<Rightarrow> nat" where
  "seen (L_test k) = unat k"
| "seen (L_blocked k) = unat k"
| "seen _ = 0"

definition workers :: "elastic \<Rightarrow> nat set" where
  "workers s = {1..<el_threads s}"

fun stopping :: "el_main \<Rightarrow> bool" where
  "stopping M_test = True"
| "stopping M_all_load = True"
| "stopping M_all_inc = True"
| "stopping M_all_notify = True"
| "stopping (M_join i) = True"
| "stopping M_done = True"
| "stopping _ = False"

fun joining :: "el_main \<Rightarrow> bool" where
  "joining (M_join i) = True"
| "joining M_done = True"
| "joining _ = False"

definition el_inv :: "elastic \<Rightarrow> bool" where
  "el_inv s \<longleftrightarrow> 1 \<le> el_threads s \<and> el_threads s < 2 ^ 32 \<and>
     unat (el_awake s) + card {i \<in> workers s. asleep (el_worker s i)} = el_threads s \<and>
     unat (el_finished s) = card {i \<in> workers s. el_worker s i = L_ended} \<and>
     el_flag s = stopping (el_main s) \<and> (\<forall>i \<in> workers s. el_worker s i \<in> {L_finish, L_ended} \<longrightarrow> el_flag s) \<and>
     (\<forall>i \<in> workers s. seen (el_worker s i) \<le> unat (el_counter s)) \<and>
     (joining (el_main s) \<longrightarrow> (\<forall>i \<in> workers s. el_worker s i = L_ended)) \<and> (\<forall>i. el_main s = M_join i \<longrightarrow> 1 \<le> i \<and> i \<le> el_threads s)"


lemma card_update:
  assumes "finite W" "i \<in> W"
  shows "card {j \<in> W. P ((f(i := pc)) j)} + of_bool (P (f i)) = card {j \<in> W. P (f j)} + of_bool (P pc)"
proof -
  have "card {j \<in> W. P (g j)} = card {j \<in> W - {i}. P (g j)} + of_bool (P (g i))" for g :: "'a \<Rightarrow> 'b"
  proof (cases "P (g i)")
    case True
    then have "{j \<in> W. P (g j)} = insert i {j \<in> W - {i}. P (g j)}" using assms(2) by auto
    then show ?thesis using True assms(1) by simp
  next
    case False
    then have "{j \<in> W. P (g j)} = {j \<in> W - {i}. P (g j)}" by auto
    then show ?thesis using False by simp
  qed
  from this [of f] this [of "f(i := pc)"] have
    "card {j \<in> W. P (f j)} = card {j \<in> W - {i}. P (f j)} + of_bool (P (f i))"
    "card {j \<in> W. P ((f(i := pc)) j)} = card {j \<in> W - {i}. P ((f(i := pc)) j)} + of_bool (P pc)" by simp_all
  moreover have "{j \<in> W - {i}. P ((f(i := pc)) j)} = {j \<in> W - {i}. P (f j)}" by auto
  ultimately show ?thesis by simp
qed

lemma finite_workers [simp]: "finite (workers s)"
  by (simp add: workers_def)

lemma retest_simps [simp]: "asleep (retest pc) = asleep pc" "retest pc = L_ended \<longleftrightarrow> pc = L_ended" "retest pc = L_finish \<longleftrightarrow> pc = L_finish" "seen (retest pc) = seen pc"
  by (cases pc; simp)+

lemma retest_inv:
  assumes "el_inv s" "\<And>i. w i = el_worker s i \<or> w i = retest (el_worker s i)"
  shows "el_inv (s\<lparr>el_worker := w\<rparr>)"
proof -
  have "asleep (w i) = asleep (el_worker s i)" "w i = L_ended \<longleftrightarrow> el_worker s i = L_ended" "w i = L_finish \<longleftrightarrow> el_worker s i = L_finish"
    "seen (w i) = seen (el_worker s i)" for i using assms(2) [of i] by (metis retest_simps)+
  then show ?thesis using assms(1) by (auto simp: el_inv_def workers_def)
qed

lemma worker_inv:
  assumes "el_inv s" "i \<in> workers s" "el_worker s i \<noteq> L_ended"
    and "el_threads t = el_threads s" "el_flag t = el_flag s" "el_main t = el_main s" "el_worker t = (el_worker s)(i := pc)"
    and "unat (el_awake t) + of_bool (asleep pc) = unat (el_awake s) + of_bool (asleep (el_worker s i))"
    and "unat (el_finished t) = unat (el_finished s) + of_bool (pc = L_ended)"
    and "el_counter s \<le> el_counter t" "seen pc \<le> unat (el_counter t)" "pc \<in> {L_finish, L_ended} \<Longrightarrow> el_flag s"
  shows "el_inv t"
proof -
  have W: "workers t = workers s" by (simp add: workers_def assms(4))
  note inv = assms(1) [unfolded el_inv_def]
  have "card {j \<in> workers s. asleep (((el_worker s)(i := pc)) j)} + of_bool (asleep (el_worker s i)) =
      card {j \<in> workers s. asleep (el_worker s j)} + of_bool (asleep pc)" by (rule card_update [OF _ assms(2)]) simp
  then have a: "unat (el_awake t) + card {j \<in> workers s. asleep (((el_worker s)(i := pc)) j)} = el_threads s" using inv assms(8) by simp
  have "card {j \<in> workers s. ((el_worker s)(i := pc)) j = L_ended} + of_bool (el_worker s i = L_ended) =
      card {j \<in> workers s. el_worker s j = L_ended} + of_bool (pc = L_ended)" by (rule card_update [OF _ assms(2)]) simp
  then have e: "unat (el_finished t) = card {j \<in> workers s. ((el_worker s)(i := pc)) j = L_ended}" using inv assms(3,9) by simp
  have j: "\<not> joining (el_main s)" using inv assms(2,3) by auto
  have c: "seen (el_worker s k) \<le> unat (el_counter t)" if "k \<in> workers s" for k
    using inv that assms(10) unfolding word_le_nat_alt by (meson le_trans)
  show ?thesis unfolding el_inv_def W assms(4-7) using a e c j inv assms(11,12) by auto
qed

lemma notify_one_Done: "notify_one js s = Done t \<Longrightarrow> t = s\<lparr>el_worker := (\<lambda>i. if i \<in> set js then retest (el_worker s i) else el_worker s i)\<rparr>"
  by (simp add: notify_one_def split: if_splits)

lemma notify_one_inv: "notify_one js s = Done t \<Longrightarrow> el_inv s \<Longrightarrow> el_inv t"
proof -
  assume d: "notify_one js s = Done t" and s: "el_inv s"
  show "el_inv t" unfolding notify_one_Done [OF d] by (rule retest_inv [OF s]) simp
qed

lemma awake_pos:
  assumes "el_inv s" "i \<in> workers s" "\<not> asleep (el_worker s i)" shows "0 < unat (el_awake s)"
proof -
  have "card {j \<in> workers s. asleep (el_worker s j)} \<le> card (workers s)" by (rule card_mono) auto
  moreover have "card (workers s) = el_threads s - 1" by (simp add: workers_def)
  moreover have "1 \<le> el_threads s" "unat (el_awake s) + card {j \<in> workers s. asleep (el_worker s j)} = el_threads s"
    using assms(1) by (simp_all add: el_inv_def)
  ultimately show ?thesis by linarith
qed

definition keeps :: "elastic \<Rightarrow> elastic outcome \<Rightarrow> bool" where
  "keeps s out \<longleftrightarrow> out = Wait \<or> (\<exists>t. out = Done t \<and> el_inv t \<and> unat (el_counter t) \<le> Suc (unat (el_counter s)))"

lemma keepsI [intro]: "el_inv t \<Longrightarrow> unat (el_counter t) \<le> Suc (unat (el_counter s)) \<Longrightarrow> keeps s (Done t)"
  by (simp add: keeps_def)

lemma move_inv:
  assumes "el_inv s" "i \<in> workers s" "el_worker s i \<noteq> L_ended" "asleep pc = asleep (el_worker s i)" "pc \<noteq> L_ended"
    and "seen pc \<le> unat (el_counter s)" "pc = L_finish \<Longrightarrow> el_flag s"
  shows "keeps s (Done (set_el i pc s))"
proof (rule keepsI)
  show "el_inv (set_el i pc s)" by (rule worker_inv [OF assms(1-3)]) (use assms(4-7) in \<open>auto simp: set_el_def\<close>)
qed (simp add: set_el_def)

lemma counter_Suc: "unat (c :: u64) < 2 ^ 62 \<Longrightarrow> unat (c + 1) = Suc (unat c)" "unat (c :: u64) < 2 ^ 62 \<Longrightarrow> c \<le> c + 1"
proof -
  assume "unat c < 2 ^ 62"
  then show e: "unat (c + 1) = Suc (unat c)" by (subst unat_add_lem [THEN iffD1]) simp_all
  then show "c \<le> c + 1" by (simp add: word_le_nat_alt)
qed

lemma bounds_inv: "el_inv s \<Longrightarrow> unat (el_awake s) < 2 ^ 62 \<and> unat (el_finished s) < 2 ^ 62"
proof -
  assume inv: "el_inv s"
  have "card {j \<in> workers s. el_worker s j = L_ended} \<le> card (workers s)" by (rule card_mono) auto
  moreover have "card (workers s) = el_threads s - 1" by (simp add: workers_def)
  moreover have "el_threads s < 2 ^ 32" "unat (el_awake s) \<le> el_threads s" "unat (el_finished s) = card {i \<in> workers s. el_worker s i = L_ended}"
    using inv by (auto simp: el_inv_def)
  ultimately show ?thesis by simp
qed

lemma worker_step_inv:
  assumes "el_inv s" "i \<in> workers s" "unat (el_counter s) < 2 ^ 62"
  shows "keeps s (worker_step i x (el_worker s i) s)"
proof (cases "el_worker s i")
  case L_wait
  have "unat (el_awake s - 1) + 1 = unat (el_awake s)"
    using awake_pos [OF assms(1,2)] L_wait by (subst unat_sub) (simp_all add: word_le_nat_alt)
  then have "el_inv (set_el i L_load (s\<lparr>el_awake := el_awake s - 1\<rparr>))"
    by (intro worker_inv [where pc = L_load, OF assms(1,2)]) (simp_all add: L_wait set_el_def)
  then show ?thesis by (auto simp: L_wait set_el_def)
next
  case L_load then show ?thesis using move_inv [OF assms(1,2), of "L_test (el_counter s)"] by simp
next
  case (L_test k)
  have "unat k \<le> unat (el_counter s)" using assms(1,2) L_test by (auto simp: el_inv_def dest!: bspec [of _ _ i])
  then show ?thesis using L_test move_inv [OF assms(1,2), of "L_blocked k"] move_inv [OF assms(1,2), of L_add] by simp
next
  case L_add
  have "unat (el_awake s + 1) = unat (el_awake s) + 1" using counter_Suc(1) [of "el_awake s"] bounds_inv [OF assms(1)] by simp
  then have "el_inv (set_el i L_check (s\<lparr>el_awake := el_awake s + 1\<rparr>))"
    by (intro worker_inv [where pc = L_check, OF assms(1,2)]) (simp_all add: L_add set_el_def)
  then show ?thesis by (auto simp: L_add set_el_def)
next
  case L_check then show ?thesis using move_inv [OF assms(1,2), of L_finish] move_inv [OF assms(1,2), of L_first] by simp
next
  case L_first then show ?thesis using move_inv [OF assms(1,2), of L_null] move_inv [OF assms(1,2), of L_own] by simp
next
  case L_own
  then show ?thesis using move_inv [OF assms(1,2), of L_run] move_inv [OF assms(1,2), of L_get] by (simp add: keeps_def split: el_input.split)
next
  case L_get then show ?thesis using move_inv [OF assms(1,2), of L_null] move_inv [OF assms(1,2), of L_steal] by simp
next
  case L_steal
  then have "keeps s (Done (set_el i pc s))" if "pc \<in> {L_run, L_again} \<union> range L_wake_load" for pc
    using that by (intro move_inv [OF assms(1,2)]) auto
  then show ?thesis using L_steal by (simp add: keeps_def split: el_input.split)
next
  case L_again
  then show ?thesis using move_inv [OF assms(1,2), of L_null] move_inv [OF assms(1,2), of L_get] by (simp add: keeps_def split: el_input.split)
next
  case L_null then show ?thesis using move_inv [OF assms(1,2), of L_check] move_inv [OF assms(1,2), of L_wait] by simp
next
  case L_run
  then show ?thesis using move_inv [OF assms(1,2), of "L_wake_load True"] move_inv [OF assms(1,2), of L_check]
    by (simp add: keeps_def split: el_input.split)
next
  case (L_wake_load r)
  then show ?thesis using move_inv [OF assms(1,2), of "L_wake_inc r"] move_inv [OF assms(1,2), of "after_wake r"] by (cases r) (simp_all add: after_wake_def)
next
  case (L_wake_inc r)
  have "el_inv (set_el i (L_wake_notify r) (s\<lparr>el_counter := el_counter s + 1\<rparr>))"
    by (intro worker_inv [where pc = "L_wake_notify r", OF assms(1,2)]) (simp_all add: L_wake_inc set_el_def counter_Suc(2) [OF assms(3)])
  then show ?thesis using counter_Suc(1) [OF assms(3)] by (auto simp: L_wake_inc set_el_def)
next
  case (L_wake_notify r)
  have "keeps s (bind_outcome (notify_one js s) (\<lambda>s. Done (set_el i (after_wake r) s)))" for js
  proof (cases "notify_one js s")
    case (Done t)
    have t: "el_inv t" "el_worker t i = L_wake_notify r" "i \<in> workers t" "el_counter t = el_counter s"
      using notify_one_inv [OF Done assms(1)] notify_one_Done [OF Done] L_wake_notify assms(2) by (auto simp: workers_def)
    show ?thesis using move_inv [OF t(1,3), of "after_wake r"] t(2,4) Done by (cases r) (simp_all add: after_wake_def keeps_def)
  qed (auto simp: keeps_def notify_one_def split: if_splits)
  then show ?thesis using L_wake_notify by (simp add: keeps_def split: el_input.split)
next
  case L_finish
  then have f: "el_flag s" using assms(1,2) by (auto simp: el_inv_def)
  have "unat (el_finished s + 1) = unat (el_finished s) + 1" using counter_Suc(1) [of "el_finished s"] bounds_inv [OF assms(1)] by simp
  then have "el_inv (set_el i L_ended (s\<lparr>el_finished := el_finished s + 1\<rparr>))"
    using f by (intro worker_inv [where pc = L_ended, OF assms(1,2)]) (simp_all add: L_finish set_el_def)
  then show ?thesis using f by (auto simp: L_finish set_el_def)
qed (simp_all add: keeps_def)

lemma threads_word: "el_inv s \<Longrightarrow> unat (of_nat (el_threads s) :: u64) = el_threads s \<and> unat (ucast (of_nat (el_threads s) - 1 :: u32) :: u64) = el_threads s - 1"
proof
  assume "el_inv s"
  then have n: "1 \<le> el_threads s" "el_threads s < 2 ^ 32" by (simp_all add: el_inv_def)
  show "unat (of_nat (el_threads s) :: u64) = el_threads s" using n(2) by (simp add: unat_of_nat)
  have "unat (of_nat (el_threads s) :: u32) = el_threads s" using n(2) by (simp add: unat_of_nat)
  then have "unat (of_nat (el_threads s) - 1 :: u32) = el_threads s - 1" using n(1) by (subst unat_sub) (simp_all add: word_le_nat_alt)
  moreover have "unat (ucast (w :: u32) :: u64) = unat w" for w using unsigned_less [where ?'a = nat, of w] by (simp add: unsigned_ucast_eq take_bit_nat_eq_self)
  ultimately show "unat (ucast (of_nat (el_threads s) - 1 :: u32) :: u64) = el_threads s - 1" by simp
qed

lemma all_ended:
  assumes "el_inv s" "\<not> el_finished s < ucast (of_nat (el_threads s) - 1 :: u32)"
  shows "\<forall>i \<in> workers s. el_worker s i = L_ended"
proof -
  from threads_word [OF assms(1)]
  have "unat (ucast (of_nat (el_threads s) - 1 :: u32) :: u64) = el_threads s - 1" by simp
  then have "el_threads s - 1 \<le> card {i \<in> workers s. el_worker s i = L_ended}"
    using assms by (simp add: el_inv_def word_less_nat_alt)
  then have "card (workers s) \<le> card {i \<in> workers s. el_worker s i = L_ended}" by (simp add: workers_def)
  then have "{i \<in> workers s. el_worker s i = L_ended} = workers s" by (intro card_seteq) auto
  then show ?thesis by blast
qed

lemma main_inv:
  assumes "el_inv s" "el_flag t = stopping (el_main t)" "el_flag s \<longrightarrow> el_flag t" "joining (el_main t) \<Longrightarrow> \<forall>i \<in> workers s. el_worker s i = L_ended"
    and "\<And>i. el_main t = M_join i \<Longrightarrow> 1 \<le> i \<and> i \<le> el_threads s" "el_threads t = el_threads s" "el_awake t = el_awake s" "el_finished t = el_finished s" "el_worker t = el_worker s" "el_counter s \<le> el_counter t"
  shows "el_inv t"
proof -
  have "seen (el_worker s k) \<le> unat (el_counter t)" if "k \<in> workers s" for k
    using assms(1) that assms(10) unfolding el_inv_def word_le_nat_alt by (meson le_trans)
  moreover have "workers t = workers s" by (simp add: workers_def assms(6))
  ultimately show ?thesis using assms(1-5) unfolding el_inv_def assms(6-9) by auto
qed

lemma main_step_inv:
  assumes "el_inv s" "unat (el_counter s) < 2 ^ 62"
  shows "keeps s (main_step x (el_main s) s)"
proof -
  have flag: "el_flag s = stopping (el_main s)" using assms(1) by (simp add: el_inv_def)
  have move: "keeps s (Done (s\<lparr>el_main := m\<rparr>))" if "stopping m = stopping (el_main s)" "joining m \<Longrightarrow> \<forall>i \<in> workers s. el_worker s i = L_ended" "\<And>i. m = M_join i \<Longrightarrow> 1 \<le> i \<and> i \<le> el_threads s" for m
    using that flag by (intro keepsI main_inv [OF assms(1)]) simp_all
  have inc: "keeps s (Done (s\<lparr>el_counter := el_counter s + 1, el_main := m\<rparr>))" if "stopping m = stopping (el_main s)" "\<not> joining m" "\<And>i. m = M_join i \<Longrightarrow> 1 \<le> i \<and> i \<le> el_threads s" for m
    using that flag counter_Suc [OF assms(2)] by (intro keepsI main_inv [OF assms(1)]) simp_all
  show ?thesis
  proof (cases "el_main s")
    case M_run then show ?thesis using move [of M_run] move [of M_wake_load] move [of M_stop] by (simp add: keeps_def split: el_input.split)
  next
    case M_wake_load then show ?thesis using move [of M_wake_inc] move [of M_run] by simp
  next
    case M_wake_inc then show ?thesis using inc [of M_wake_notify] by simp
  next
    case M_wake_notify
    have "keeps s (bind_outcome (notify_one js s) (\<lambda>s. Done (s\<lparr>el_main := M_run\<rparr>)))" for js
    proof (cases "notify_one js s")
      case (Done t)
      note t = notify_one_inv [OF Done assms(1)] notify_one_Done [OF Done]
      have "el_inv (t\<lparr>el_main := M_run\<rparr>)" using t(2) flag M_wake_notify by (intro main_inv [OF t(1)]) simp_all
      then show ?thesis using Done t(2) by (auto simp: keeps_def)
    qed (auto simp: keeps_def notify_one_def split: if_splits)
    then show ?thesis using M_wake_notify by (simp add: keeps_def split: el_input.split)
  next
    case M_stop
    have "el_inv (s\<lparr>el_flag := True, el_main := M_test\<rparr>)" by (rule main_inv [OF assms(1)]) simp_all
    then show ?thesis using M_stop by (simp add: keeps_def)
  next
    case M_test then show ?thesis using move [of M_all_load] move [of "M_join 1"] all_ended [OF assms(1)] assms(1)
      by (cases "el_finished s < ucast (of_nat (el_threads s) - 1 :: u32)") (simp_all add: el_inv_def)
  next
    case M_all_load then show ?thesis using move [of M_all_inc] move [of M_test] by simp
  next
    case M_all_inc then show ?thesis using inc [of M_all_notify] by simp
  next
    case M_all_notify
    have "el_inv (notify_all s)" unfolding notify_all_def by (rule retest_inv [OF assms(1)]) simp
    then have "el_inv (notify_all s\<lparr>el_main := M_test\<rparr>)" by (rule main_inv) (use flag M_all_notify in \<open>simp_all add: notify_all_def\<close>)
    then show ?thesis using M_all_notify by (simp add: keeps_def notify_all_def)
  next
    case (M_join i)
    then have "\<forall>i \<in> workers s. el_worker s i = L_ended" using assms(1) by (simp add: el_inv_def)
    then show ?thesis using M_join move [of "M_join (Suc i)"] move [of M_done] by (simp add: keeps_def)
  qed (simp add: keeps_def)
qed

lemma el_step_inv:
  assumes "el_inv s" "unat (el_counter s) < 2 ^ 62"
  shows "keeps s (el_step e s)"
proof (cases e)
  case (Main_thread x) then show ?thesis using main_step_inv [OF assms] by simp
next
  case (Worker_thread i x)
  then show ?thesis using worker_step_inv [OF assms(1) _ assms(2), of i x] by (simp add: workers_def keeps_def)
next
  case (Spurious i)
  have "el_inv (set_el i (retest (el_worker s i)) s)" unfolding set_el_def by (rule retest_inv [OF assms(1)]) simp
  then show ?thesis using Spurious by (simp add: keeps_def set_el_def)
qed

lemma el_run_inv:
  assumes "el_inv s" "unat (el_counter s) + length es < 2 ^ 62"
  shows "el_run es s \<noteq> Crash \<and> (\<forall>t. el_run es s = Done t \<longrightarrow> el_inv t \<and> unat (el_counter t) \<le> unat (el_counter s) + length es)"
  using assms
proof (induction es arbitrary: s)
  case (Cons e es)
  then have "keeps s (el_step e s)" by (intro el_step_inv) simp_all
  then consider "el_step e s = Wait" | t where "el_step e s = Done t" "el_inv t" "unat (el_counter t) \<le> Suc (unat (el_counter s))"
    unfolding keeps_def by blast
  then show ?case
  proof cases
    case 2
    then have "unat (el_counter t) + length es < 2 ^ 62" using Cons.prems(2) by simp
    from Cons.IH [OF 2(2) this] show ?thesis using 2 by auto
  qed simp
qed simp

lemma make_elastic_inv: "1 \<le> n \<Longrightarrow> n < 2 ^ 32 \<Longrightarrow> el_inv (make_elastic n)"
  by (simp add: el_inv_def make_elastic_def unat_of_nat)

section \<open>Shutting down\<close>

lemma el_reach:
  assumes step: "\<And>s. P s \<Longrightarrow> \<not> G s \<Longrightarrow> \<exists>e t. el_step e s = Done t \<and> P t \<and> \<mu> t < (\<mu> s :: nat)" and "P s"
  shows "\<exists>es t. el_run es s = Done t \<and> length es \<le> \<mu> s \<and> P t \<and> G t"
  using assms(2)
proof (induction "\<mu> s" arbitrary: s rule: less_induct)
  case less
  show ?case
  proof (cases "G s")
    case True
    then have "el_run [] s = Done s \<and> length [] \<le> \<mu> s \<and> P s \<and> G s" using less.prems by simp
    then show ?thesis by blast
  next
    case False
    from step [OF less.prems this] obtain e t where e: "el_step e s = Done t" "P t" "\<mu> t < \<mu> s" by blast
    from less.hyps [OF e(3,2)] obtain es u where "el_run es t = Done u" "length es \<le> \<mu> t" "P u" "G u" by blast
    then have "el_run (e # es) s = Done u \<and> length (e # es) \<le> \<mu> s \<and> P u \<and> G u" using e by simp
    then show ?thesis by blast
  qed
qed

lemma el_run_trans: "el_run es s = Done t \<Longrightarrow> el_run fs t = Done u \<Longrightarrow> el_run (es @ fs) s = Done u"
  by (simp add: el_run_append)

fun rank :: "el_worker \<Rightarrow> nat" where
  "rank L_ended = 0"
| "rank L_finish = 1"
| "rank L_check = 2"
| "rank L_add = 3"
| "rank (L_blocked k) = 4"
| "rank (L_test k) = 5"
| "rank L_load = 6"
| "rank L_wait = 7"
| "rank L_null = 3"
| "rank L_first = 4"
| "rank L_get = 4"
| "rank L_again = 4"
| "rank L_steal = 5"
| "rank L_own = 5"
| "rank L_run = 3"
| "rank (L_wake_notify r) = 6"
| "rank (L_wake_inc r) = 7"
| "rank (L_wake_load r) = 8"

definition energy :: "elastic \<Rightarrow> nat" where
  "energy s = (\<Sum>i \<in> workers s. rank (el_worker s i))"

lemma energy_update:
  assumes "i \<in> workers s" "workers t = workers s" "el_worker t = (el_worker s)(i := pc)"
  shows "energy t + rank (el_worker s i) = energy s + rank pc"
proof -
  have "energy t = rank pc + (\<Sum>j \<in> workers s - {i}. rank (el_worker s j))"
    unfolding energy_def assms(2,3) by (subst sum.remove [OF _ assms(1)]) simp_all
  moreover have "energy s = rank (el_worker s i) + (\<Sum>j \<in> workers s - {i}. rank (el_worker s j))"
    unfolding energy_def by (subst sum.remove [OF _ assms(1)]) simp_all
  ultimately show ?thesis by simp
qed

lemma energy_less:
  assumes "i \<in> workers s"
  shows "energy (s\<lparr>el_worker := (el_worker s)(i := pc)\<rparr>) < energy s \<longleftrightarrow> rank pc < rank (el_worker s i)"
    "energy (s\<lparr>el_awake := a, el_worker := (el_worker s)(i := pc)\<rparr>) < energy s \<longleftrightarrow> rank pc < rank (el_worker s i)"
    "energy (s\<lparr>el_finished := a, el_worker := (el_worker s)(i := pc)\<rparr>) < energy s \<longleftrightarrow> rank pc < rank (el_worker s i)"
    "energy (s\<lparr>el_counter := a, el_worker := (el_worker s)(i := pc)\<rparr>) < energy s \<longleftrightarrow> rank pc < rank (el_worker s i)"
proof -
  have e: "energy t < energy s \<longleftrightarrow> rank pc < rank (el_worker s i)" if "workers t = workers s" "el_worker t = (el_worker s)(i := pc)" for t
    using energy_update [OF assms that] by linarith
  show "energy (s\<lparr>el_worker := (el_worker s)(i := pc)\<rparr>) < energy s \<longleftrightarrow> rank pc < rank (el_worker s i)" by (rule e) (simp_all add: workers_def)
  show "energy (s\<lparr>el_awake := a, el_worker := (el_worker s)(i := pc)\<rparr>) < energy s \<longleftrightarrow> rank pc < rank (el_worker s i)" by (rule e) (simp_all add: workers_def)
  show "energy (s\<lparr>el_finished := a, el_worker := (el_worker s)(i := pc)\<rparr>) < energy s \<longleftrightarrow> rank pc < rank (el_worker s i)" by (rule e) (simp_all add: workers_def)
  show "energy (s\<lparr>el_counter := a, el_worker := (el_worker s)(i := pc)\<rparr>) < energy s \<longleftrightarrow> rank pc < rank (el_worker s i)" by (rule e) (simp_all add: workers_def)
qed

lemma energy_le: "el_inv s \<Longrightarrow> (\<And>i. i \<in> workers s \<Longrightarrow> rank (el_worker s i) \<le> m) \<Longrightarrow> energy s \<le> m * (el_threads s - 1)"
  unfolding energy_def using sum_bounded_above [of "workers s" "\<lambda>i. rank (el_worker s i)" m] by (simp add: workers_def mult.commute)

lemma rank_le: "rank pc \<le> 8"
  by (cases pc) simp_all

text \<open>What a drained worker does: a job that runs ends, no job is found, the time is over; a pending wake-up wakes one thread.\<close>

fun drain_input :: "el_worker \<Rightarrow> elastic \<Rightarrow> el_input" where
  "drain_input L_own s = Own False"
| "drain_input L_steal s = Steal False True"
| "drain_input L_again s = Time_out"
| "drain_input L_run s = End_job"
| "drain_input (L_wake_notify r) s = Wakes (case blocked_workers s of [] \<Rightarrow> [] | b # bs \<Rightarrow> [b])"
| "drain_input _ s = Proceed"

definition stays :: "elastic \<Rightarrow> elastic \<Rightarrow> bool" where
  "stays s t \<longleftrightarrow> el_threads t = el_threads s \<and> el_flag t = el_flag s \<and> el_main t = el_main s"

lemma drain_notify:
  obtains u where "notify_one (case blocked_workers s of [] \<Rightarrow> [] | b # bs \<Rightarrow> [b]) s = Done u" "stays s u" "energy u \<le> energy s + 1"
    "\<And>i. \<not> is_blocked (el_worker s i) \<Longrightarrow> el_worker u i = el_worker s i"
proof (cases "blocked_workers s")
  case Nil
  then show ?thesis using that [of "s\<lparr>el_worker := el_worker s\<rparr>"] by (simp add: notify_one_def stays_def)
next
  case (Cons b bs)
  then have "b \<in> set (blocked_workers s)" by simp
  then have b: "b \<in> workers s" "is_blocked (el_worker s b)" by (auto simp: blocked_workers_def workers_def)
  then obtain k where k: "el_worker s b = L_blocked k" by (cases "el_worker s b") auto
  let ?u = "s\<lparr>el_worker := (el_worker s)(b := L_test k)\<rparr>"
  have "(\<lambda>i. if i = b then retest (el_worker s i) else el_worker s i) = (el_worker s)(b := L_test k)" using k by auto
  then have "notify_one [b] s = Done ?u" by (simp add: notify_one_def Cons)
  moreover have "energy ?u + 4 = energy s + 5" using energy_update [OF b(1), of ?u "L_test k"] k by (simp add: workers_def)
  ultimately show ?thesis by (intro that [of ?u]) (use Cons k in \<open>auto simp: stays_def\<close>)
qed

lemma drain_step:
  assumes "el_inv s" "el_flag s" "i \<in> workers s" "\<not> is_blocked (el_worker s i)" "el_worker s i \<noteq> L_ended"
  shows "\<exists>t. el_step (Worker_thread i (drain_input (el_worker s i) s)) s = Done t \<and> stays s t \<and> energy t < energy s"
proof -
  have i: "1 \<le> i" "i < el_threads s" using assms(3) by (simp_all add: workers_def)
  show ?thesis
  proof (cases "el_worker s i")
    case (L_wake_notify r)
    obtain u where u: "notify_one (case blocked_workers s of [] \<Rightarrow> [] | b # bs \<Rightarrow> [b]) s = Done u" "stays s u" "energy u \<le> energy s + 1"
      "el_worker u i = L_wake_notify r" using drain_notify [of s] L_wake_notify assms(4) by metis
    let ?t = "set_el i (after_wake r) u"
    have "energy ?t + 6 = energy u + rank (after_wake r)"
      using energy_update [of i u ?t "after_wake r"] assms(3) u(2,4) by (simp add: set_el_def stays_def workers_def)
    then have "energy ?t < energy s" using u(3) by (cases r) (simp_all add: after_wake_def)
    then show ?thesis using u i L_wake_notify by (simp add: stays_def set_el_def)
  qed (use assms i in \<open>simp_all add: set_el_def stays_def after_wake_def energy_less\<close>)
qed

text \<open>Every run that follows adds at most one to the counter per step: \<open>room\<close> is the number of steps before it could wrap.\<close>

definition steady :: "nat \<Rightarrow> nat \<Rightarrow> elastic \<Rightarrow> bool" where
  "steady n left s \<longleftrightarrow> el_inv s \<and> el_threads s = n \<and> unat (el_counter s) + left < 2 ^ 62"

lemma steady_step: "steady n left s \<Longrightarrow> el_step e s = Done t \<Longrightarrow> m < left \<Longrightarrow> el_threads t = el_threads s \<Longrightarrow> steady n m t"
  using el_step_inv [of s e] by (simp add: steady_def keeps_def)

text \<open>With the flag set, the workers alone reach a state in which each has ended or is asleep.\<close>

lemma drain:
  assumes "steady n (energy s + m) s" "el_flag s" "el_main s = pc"
  shows "\<exists>es t. el_run es s = Done t \<and> length es \<le> energy s \<and> (steady n (energy t + m) t \<and> el_flag t \<and> el_main t = pc) \<and>
    (\<forall>i \<in> workers t. is_blocked (el_worker t i) \<or> el_worker t i = L_ended)"
proof (rule el_reach [where P = "\<lambda>s. steady n (energy s + m) s \<and> el_flag s \<and> el_main s = pc"])
  fix s
  assume s: "steady n (energy s + m) s \<and> el_flag s \<and> el_main s = pc"
    and "\<not> (\<forall>i \<in> workers s. is_blocked (el_worker s i) \<or> el_worker s i = L_ended)"
  then obtain i where "i \<in> workers s" "\<not> is_blocked (el_worker s i)" "el_worker s i \<noteq> L_ended" by blast
  from drain_step [OF _ _ this] s obtain t where t: "el_step (Worker_thread i (drain_input (el_worker s i) s)) s = Done t" "stays s t" "energy t < energy s"
    by (auto simp: steady_def)
  moreover have "steady n (energy t + m) t" using t(2,3) s by (intro steady_step [OF conjunct1 [OF s] t(1)]) (simp_all add: stays_def)
  ultimately show "\<exists>e t. el_step e s = Done t \<and> (steady n (energy t + m) t \<and> el_flag t \<and> el_main t = pc) \<and> energy t < energy s"
    using s by (intro exI [of _ "Worker_thread i (drain_input (el_worker s i) s)"] exI [of _ t]) (simp add: stays_def del: el_step.simps)
qed (use assms in simp)

text \<open>Once their recorded counters are stale, the workers end without waiting again.\<close>

fun leaving :: "u64 \<Rightarrow> el_worker \<Rightarrow> bool" where
  "leaving c (L_test k) = (k \<noteq> c)"
| "leaving c pc = (pc \<in> {L_add, L_check, L_finish, L_ended})"

lemma leave_step:
  assumes "el_inv s" "el_flag s" "\<forall>i \<in> workers s. leaving (el_counter s) (el_worker s i)" "i \<in> workers s" "el_worker s i \<noteq> L_ended"
  shows "\<exists>t. el_step (Worker_thread i Proceed) s = Done t \<and> stays s t \<and> energy t < energy s \<and>
    (\<forall>i \<in> workers t. leaving (el_counter t) (el_worker t i))"
proof -
  have i: "1 \<le> i" "i < el_threads s" "leaving (el_counter s) (el_worker s i)" using assms(3,4) by (auto simp: workers_def)
  show ?thesis
    by (cases "el_worker s i") (use assms i in \<open>simp_all add: set_el_def stays_def energy_less workers_def\<close>)
qed

lemma leave:
  assumes "steady n (energy s + m) s" "el_flag s" "el_main s = pc" "\<forall>i \<in> workers s. leaving (el_counter s) (el_worker s i)"
  shows "\<exists>es t. el_run es s = Done t \<and> length es \<le> energy s \<and>
    (steady n (energy t + m) t \<and> el_flag t \<and> el_main t = pc \<and> (\<forall>i \<in> workers t. leaving (el_counter t) (el_worker t i))) \<and>
    (\<forall>i \<in> workers t. el_worker t i = L_ended)"
proof (rule el_reach [where P = "\<lambda>s. steady n (energy s + m) s \<and> el_flag s \<and> el_main s = pc \<and>
    (\<forall>i \<in> workers s. leaving (el_counter s) (el_worker s i))"])
  fix s
  assume s: "steady n (energy s + m) s \<and> el_flag s \<and> el_main s = pc \<and> (\<forall>i \<in> workers s. leaving (el_counter s) (el_worker s i))"
    and "\<not> (\<forall>i \<in> workers s. el_worker s i = L_ended)"
  then obtain i where "i \<in> workers s" "el_worker s i \<noteq> L_ended" by blast
  from leave_step [OF _ _ _ this] s obtain t where t: "el_step (Worker_thread i Proceed) s = Done t" "stays s t" "energy t < energy s"
    "\<forall>i \<in> workers t. leaving (el_counter t) (el_worker t i)" by (auto simp: steady_def)
  moreover have "steady n (energy t + m) t" using t(2,3) s by (intro steady_step [OF conjunct1 [OF s] t(1)]) (simp_all add: stays_def)
  ultimately show "\<exists>e t. el_step e s = Done t \<and> (steady n (energy t + m) t \<and> el_flag t \<and> el_main t = pc \<and>
    (\<forall>i \<in> workers t. leaving (el_counter t) (el_worker t i))) \<and> energy t < energy s"
    using s by (intro exI [of _ "Worker_thread i Proceed"] exI [of _ t]) (simp add: stays_def del: el_step.simps)
qed (use assms in simp)

text \<open>The main thread comes to the loop of \<^verbatim>\<open>shutdown\<close>, or is past it already.\<close>

fun before_test :: "el_main \<Rightarrow> nat" where
  "before_test M_wake_load = 5"
| "before_test M_wake_inc = 4"
| "before_test M_wake_notify = 3"
| "before_test M_run = 2"
| "before_test M_stop = 1"
| "before_test M_all_load = 3"
| "before_test M_all_inc = 2"
| "before_test M_all_notify = 1"
| "before_test _ = 0"

lemma reach_test:
  assumes "steady n (before_test (el_main s) + m) s"
  shows "\<exists>es t. el_run es s = Done t \<and> length es \<le> before_test (el_main s) \<and> steady n (before_test (el_main t) + m) t \<and>
    before_test (el_main t) = 0"
proof (rule el_reach [where P = "\<lambda>s. steady n (before_test (el_main s) + m) s" and \<mu> = "\<lambda>s. before_test (el_main s)"])
  fix s
  assume s: "steady n (before_test (el_main s) + m) s" and "before_test (el_main s) \<noteq> 0"
  have "\<exists>x t. el_step (Main_thread x) s = Done t \<and> el_threads t = el_threads s \<and> before_test (el_main t) < before_test (el_main s)"
  proof (cases "el_main s")
    case M_run then show ?thesis by (intro exI [of _ Proceed]) simp
  next
    case M_wake_notify
    obtain u where "notify_one (case blocked_workers s of [] \<Rightarrow> [] | b # bs \<Rightarrow> [b]) s = Done u" "stays s u" using drain_notify [of s] by metis
    then show ?thesis using M_wake_notify
      by (intro exI [of _ "Wakes (case blocked_workers s of [] \<Rightarrow> [] | b # bs \<Rightarrow> [b])"]) (simp add: stays_def)
  qed (use \<open>before_test (el_main s) \<noteq> 0\<close> in \<open>simp_all add: notify_all_def\<close>)
  then obtain x t where t: "el_step (Main_thread x) s = Done t" "el_threads t = el_threads s" "before_test (el_main t) < before_test (el_main s)" by blast
  moreover have "steady n (before_test (el_main t) + m) t" using t by (intro steady_step [OF s t(1)]) simp_all
  ultimately show "\<exists>e t. el_step e s = Done t \<and> steady n (before_test (el_main t) + m) t \<and> before_test (el_main t) < before_test (el_main s)" by blast
qed (use assms in simp)

lemma one_left:
  assumes "el_inv s" "i \<in> workers s" "el_worker s i \<noteq> L_ended"
  shows "el_finished s < ucast (of_nat (el_threads s) - 1 :: u32)"
proof (rule ccontr)
  assume "\<not> ?thesis"
  from all_ended [OF assms(1) this] show False using assms(2,3) by blast
qed

lemma one_asleep:
  assumes "el_inv s" "i \<in> workers s" "asleep (el_worker s i)"
  shows "el_awake s < of_nat (el_threads s)"
proof -
  have "0 < card {i \<in> workers s. asleep (el_worker s i)}" using assms(2,3) by (auto simp: card_gt_0_iff)
  then have "unat (el_awake s) < el_threads s" using assms(1) by (simp add: el_inv_def)
  then show ?thesis using threads_word [OF assms(1)] by (simp add: word_less_nat_alt)
qed

lemma none_left:
  assumes "el_inv s" "\<forall>i \<in> workers s. el_worker s i = L_ended"
  shows "\<not> el_finished s < ucast (of_nat (el_threads s) - 1 :: u32)"
proof -
  have "{i \<in> workers s. el_worker s i = L_ended} = workers s" using assms(2) by blast
  then have "unat (el_finished s) = el_threads s - 1" using assms(1) by (simp add: el_inv_def workers_def)
  then show ?thesis using threads_word [OF assms(1)] by (simp add: word_less_nat_alt)
qed

text \<open>One round of the loop makes every recorded counter stale.\<close>

lemma wake_all_round:
  assumes "steady n (4 + m) s" "el_main s = M_test" "\<forall>i \<in> workers s. is_blocked (el_worker s i) \<or> el_worker s i = L_ended"
    and "i \<in> workers s" "el_worker s i \<noteq> L_ended"
  shows "\<exists>t. el_run (replicate 4 (Main_thread Proceed)) s = Done t \<and> steady n m t \<and> el_main t = M_test \<and> el_flag t \<and>
    (\<forall>i \<in> workers t. leaving (el_counter t) (el_worker t i)) \<and> energy t \<le> 5 * (n - 1)"
proof -
  have inv: "el_inv s" and n: "el_threads s = n" and c: "unat (el_counter s) < 2 ^ 62" using assms(1) by (simp_all add: steady_def)
  define t where "t = notify_all (s\<lparr>el_counter := el_counter s + 1, el_main := M_all_notify\<rparr>)\<lparr>el_main := M_test\<rparr>"
  have "asleep (el_worker s i)" using assms(3-5) by (cases "el_worker s i") auto
  then have run: "el_run (replicate 4 (Main_thread Proceed)) s = Done t"
    using one_left [OF inv assms(4,5)] one_asleep [OF inv assms(4)] assms(2) by (simp add: eval_nat_numeral t_def)
  have "el_inv t \<and> unat (el_counter t) \<le> unat (el_counter s) + 4"
    using el_run_inv [OF inv, of "replicate 4 (Main_thread Proceed)"] run assms(1) by (auto simp: steady_def)
  then have st: "steady n m t" using assms(1) by (simp add: steady_def t_def notify_all_def)
  have l: "leaving (el_counter t) (el_worker t j) \<and> rank (el_worker t j) \<le> 5" if "j \<in> workers t" for j
  proof -
    have j: "j \<in> workers s" using that by (simp add: t_def workers_def notify_all_def)
    then have "seen (el_worker s j) \<le> unat (el_counter s)" using inv by (simp add: el_inv_def)
    moreover have "unat (el_counter t) = Suc (unat (el_counter s))" using counter_Suc(1) [OF c] by (simp add: t_def notify_all_def)
    ultimately show ?thesis using assms(3) j by (cases "el_worker s j") (auto simp: t_def notify_all_def)
  qed
  moreover have "energy t \<le> 5 * (n - 1)" using energy_le [of t 5] l st by (auto simp: steady_def)
  moreover have "el_flag t" using st by (simp add: steady_def el_inv_def t_def)
  ultimately show ?thesis using run st by (intro exI [of _ t]) (simp add: t_def)
qed

fun to_join :: "nat \<Rightarrow> el_main \<Rightarrow> nat" where
  "to_join n M_test = n + 1"
| "to_join n (M_join i) = n + 1 - i"
| "to_join n _ = 0"

lemma join_all:
  assumes "steady n (to_join n (el_main s) + m) s" "before_test (el_main s) = 0" "\<forall>i \<in> workers s. el_worker s i = L_ended"
  shows "\<exists>es t. el_run es s = Done t \<and> length es \<le> to_join n (el_main s) \<and> (steady n (to_join n (el_main t) + m) t \<and> before_test (el_main t) = 0 \<and>
    (\<forall>i \<in> workers t. el_worker t i = L_ended)) \<and> el_main t = M_done"
proof (rule el_reach [where P = "\<lambda>s. steady n (to_join n (el_main s) + m) s \<and> before_test (el_main s) = 0 \<and> (\<forall>i \<in> workers s. el_worker s i = L_ended)"
      and \<mu> = "\<lambda>s. to_join n (el_main s)"])
  fix s
  assume s: "steady n (to_join n (el_main s) + m) s \<and> before_test (el_main s) = 0 \<and> (\<forall>i \<in> workers s. el_worker s i = L_ended)"
    and m: "el_main s \<noteq> M_done"
  then have inv: "el_inv s" and n: "el_threads s = n" by (simp_all add: steady_def)
  have "\<exists>pc. el_step (Main_thread Proceed) s = Done (s\<lparr>el_main := pc\<rparr>) \<and> to_join n pc < to_join n (el_main s) \<and> before_test pc = 0"
  proof (cases "el_main s")
    case M_test
    then show ?thesis using none_left [OF inv] s n by (intro exI [of _ "M_join 1"]) (use inv in \<open>simp add: el_inv_def\<close>)
  next
    case (M_join i)
    then have "1 \<le> i" "i \<le> n" using inv n by (auto simp: el_inv_def)
    then show ?thesis using M_join s n by (cases "i < n") (auto simp: workers_def)
  qed (use s m in simp_all)
  then obtain pc where t: "el_step (Main_thread Proceed) s = Done (s\<lparr>el_main := pc\<rparr>)" "to_join n pc < to_join n (el_main s)" "before_test pc = 0"
    by blast
  moreover have "steady n (to_join n pc + m) (s\<lparr>el_main := pc\<rparr>)" using t(2) by (intro steady_step [OF conjunct1 [OF s] t(1)]) simp_all
  ultimately show "\<exists>e t. el_step e s = Done t \<and> (steady n (to_join n (el_main t) + m) t \<and> before_test (el_main t) = 0 \<and>
    (\<forall>i \<in> workers t. el_worker t i = L_ended)) \<and> to_join n (el_main t) < to_join n (el_main s)"
    using s by (intro exI [of _ "Main_thread Proceed"] exI [of _ "s\<lparr>el_main := pc\<rparr>"]) (simp add: workers_def del: el_step.simps)
qed (use assms in simp)

lemma steady_mono: "steady n a s \<Longrightarrow> b \<le> a \<Longrightarrow> steady n b s"
  by (simp add: steady_def)

lemma end_all:
  assumes "steady n (energy s + 5 * n + (n + 5)) s" "el_main s = M_test" "1 \<le> n"
  shows "\<exists>es t. el_run es s = Done t \<and> length es \<le> energy s + 5 * n \<and> el_threads t = n \<and> steady n (n + 1) t \<and> el_main t = M_test \<and>
    (\<forall>i \<in> workers t. el_worker t i = L_ended)"
proof -
  have st: "steady n (energy s + (5 * n + (n + 5))) s" and f: "el_flag s" using assms by (simp_all add: steady_def el_inv_def add_ac)
  from drain [OF st f assms(2)] obtain es t where t: "el_run es s = Done t" "length es \<le> energy s" "steady n (energy t + (5 * n + (n + 5))) t" "el_main t = M_test"
    "\<forall>i \<in> workers t. is_blocked (el_worker t i) \<or> el_worker t i = L_ended" by blast
  show ?thesis
  proof (cases "\<forall>i \<in> workers t. el_worker t i = L_ended")
    case True
    have "steady n (n + 1) t" using steady_mono [OF t(3), of "n + 1"] by simp
    then show ?thesis using t True by (intro exI [of _ es] exI [of _ t]) (simp add: steady_def)
  next
    case False
    then obtain i where i: "i \<in> workers t" "el_worker t i \<noteq> L_ended" by blast
    have "steady n (4 + (5 * n + (n + 1))) t" using steady_mono [OF t(3), of "4 + (5 * n + (n + 1))"] by simp
    from wake_all_round [OF this t(4,5) i] obtain u where u: "el_run (replicate 4 (Main_thread Proceed)) t = Done u" "steady n (5 * n + (n + 1)) u"
      "el_main u = M_test" "el_flag u" "\<forall>i \<in> workers u. leaving (el_counter u) (el_worker u i)" "energy u \<le> 5 * (n - 1)" by blast
    have "steady n (energy u + (n + 1)) u" using steady_mono [OF u(2), of "energy u + (n + 1)"] u(6) by simp
    from leave [OF this u(4,3,5)] obtain fs v where v: "el_run fs u = Done v" "length fs \<le> energy u" "steady n (energy v + (n + 1)) v" "el_main v = M_test"
      "\<forall>i \<in> workers v. el_worker v i = L_ended" by blast
    have "el_run (es @ replicate 4 (Main_thread Proceed) @ fs) s = Done v" using t(1) u(1) v(1) by (intro el_run_trans)
    moreover have "length (es @ replicate 4 (Main_thread Proceed) @ fs) \<le> energy s + 5 * n" using t(2) u(6) v(2) assms(3) by simp
    moreover have "steady n (n + 1) v" using steady_mono [OF v(3), of "n + 1"] by simp
    ultimately show ?thesis using v(4,5) by (intro exI [of _ "es @ replicate 4 (Main_thread Proceed) @ fs"] exI [of _ v]) (simp add: steady_def)
  qed
qed

lemma finish_join:
  assumes "steady n (n + 1) s" "before_test (el_main s) = 0" "\<forall>i \<in> workers s. el_worker s i = L_ended"
  shows "\<exists>es t. el_run es s = Done t \<and> length es \<le> n + 1 \<and> el_threads t = n \<and> el_main t = M_done \<and> (\<forall>i \<in> workers t. el_worker t i = L_ended)"
proof -
  have le: "to_join n (el_main s) \<le> n + 1" by (cases "el_main s") auto
  have "steady n (to_join n (el_main s) + 0) s" using steady_mono [OF assms(1) le] by simp
  from join_all [OF this assms(2,3)] obtain es t where t: "el_run es s = Done t" "length es \<le> to_join n (el_main s)" "steady n (to_join n (el_main t) + 0) t"
    "\<forall>i \<in> workers t. el_worker t i = L_ended" "el_main t = M_done" by blast
  then show ?thesis using le by (intro exI [of _ es] exI [of _ t]) (simp add: steady_def)
qed

lemma shutdown_from:
  assumes "steady n (16 * n) s"
  shows "\<exists>es t. el_run es s = Done t \<and> length es \<le> 14 * n \<and> el_threads t = n \<and> el_main t = M_done \<and> (\<forall>i \<in> workers t. el_worker t i = L_ended)"
proof -
  have n: "1 \<le> n" using assms by (auto simp: steady_def el_inv_def)
  have b: "before_test (el_main s) \<le> 5" by (cases "el_main s") simp_all
  have "steady n (before_test (el_main s) + (16 * n - 5)) s" using steady_mono [OF assms, of "before_test (el_main s) + (16 * n - 5)"] b n by simp
  from reach_test [OF this] obtain es t where t: "el_run es s = Done t" "length es \<le> before_test (el_main s)"
    "steady n (before_test (el_main t) + (16 * n - 5)) t" "before_test (el_main t) = 0" by blast
  have k: "steady n (16 * n - 5) t" using steady_mono [OF t(3), of "16 * n - 5"] by simp
  show ?thesis
  proof (cases "\<forall>i \<in> workers t. el_worker t i = L_ended")
    case True
    have "steady n (n + 1) t" using steady_mono [OF k, of "n + 1"] n by simp
    from finish_join [OF this t(4) True] obtain fs u where u: "el_run fs t = Done u" "length fs \<le> n + 1" "el_threads u = n" "el_main u = M_done"
      "\<forall>i \<in> workers u. el_worker u i = L_ended" by blast
    have "length (es @ fs) \<le> 14 * n" using t(2) u(2) b n by simp
    then show ?thesis using el_run_trans [OF t(1) u(1)] u(3-5) by blast
  next
    case False
    then have m: "el_main t = M_test" using k t(4) by (cases "el_main t") (auto simp: steady_def el_inv_def)
    have e: "energy t \<le> 8 * (n - 1)" using energy_le [of t 8] k rank_le by (simp add: steady_def)
    have "steady n (energy t + 5 * n + (n + 5)) t" using steady_mono [OF k, of "energy t + 5 * n + (n + 5)"] e n by simp
    from end_all [OF this m n] obtain fs u where u: "el_run fs t = Done u" "length fs \<le> energy t + 5 * n" "steady n (n + 1) u" "el_main u = M_test"
      "\<forall>i \<in> workers u. el_worker u i = L_ended" by blast
    have "before_test (el_main u) = 0" using u(4) by simp
    from finish_join [OF u(3) this u(5)] obtain gs v where v: "el_run gs u = Done v" "length gs \<le> n + 1" "el_threads v = n" "el_main v = M_done"
      "\<forall>i \<in> workers v. el_worker v i = L_ended" by blast
    have "length (es @ fs @ gs) \<le> 14 * n" using t(2) u(2) v(2) b e n by simp
    moreover have "el_run (es @ fs @ gs) s = Done v" using t(1) u(1) v(1) by (intro el_run_trans)
    ultimately show ?thesis using v(3-5) by blast
  qed
qed

lemma notify_one_threads: "notify_one js s = Done t \<Longrightarrow> el_threads t = el_threads s"
  by (drule notify_one_Done) simp

lemma worker_threads: "worker_step i x pc s = Done t \<Longrightarrow> el_threads t = el_threads s"
  by (cases pc) (auto simp: set_el_def notify_one_threads split: el_input.splits if_splits)

lemma main_threads: "main_step x pc s = Done t \<Longrightarrow> el_threads t = el_threads s"
  by (cases pc) (auto simp: notify_all_def notify_one_threads split: el_input.splits if_splits)

lemma el_threads_run: "el_run es s = Done t \<Longrightarrow> el_threads t = el_threads s"
proof (induction es arbitrary: s)
  case (Cons e es)
  then obtain u where u: "el_step e s = Done u" "el_run es u = Done t" by (auto simp:)
  have "el_threads u = el_threads s" using u(1) worker_threads main_threads by (cases e) (auto simp: set_el_def split: if_splits)
  then show ?case using Cons.IH [OF u(2)] by simp
qed simp

text \<open>C40. From every state that a run of the fork-join scheduler can reach, with the workers asleep, about to sleep, stealing or at work in any
  combination, the scheduler can be shut down within \<open>14 n\<close> steps of its threads, if the jobs that run end and no more are found: every worker ends and
  the main thread has joined them all. No lost wake-up keeps a worker asleep.\<close>

theorem shutdown_completes:
  assumes "1 \<le> n" "n < 2 ^ 32" "el_run es (make_elastic n) = Done s" "length es + 16 * n < 2 ^ 62"
  shows "\<exists>fs t. el_run fs s = Done t \<and> length fs \<le> 14 * n \<and> el_main t = M_done \<and> (\<forall>i. 1 \<le> i \<and> i < n \<longrightarrow> el_worker t i = L_ended)"
proof -
  have "el_inv s \<and> unat (el_counter s) \<le> length es" "el_threads s = n"
    using el_run_inv [OF make_elastic_inv [OF assms(1,2)], of es] assms(3,4) el_threads_run [OF assms(3)] by (simp_all add: make_elastic_def)
  then have "steady n (16 * n) s" using assms(4) by (simp add: steady_def)
  from shutdown_from [OF this] obtain fs t where "el_run fs s = Done t" "length fs \<le> 14 * n" "el_threads t = n" "el_main t = M_done"
    "\<forall>i \<in> workers t. el_worker t i = L_ended" by blast
  then show ?thesis by (intro exI [of _ fs] exI [of _ t]) (simp add: workers_def)
qed

theorem elastic_run_sound:
  assumes "1 \<le> n" "n < 2 ^ 32" "length es < 2 ^ 62"
  shows "el_run es (make_elastic n) \<noteq> Crash"
    "el_run es (make_elastic n) = Done s \<Longrightarrow> unat (el_awake s) + card {i \<in> {1..<n}. asleep (el_worker s i)} = n"
    "el_run es (make_elastic n) = Done s \<Longrightarrow> el_main s = M_done \<Longrightarrow> 1 \<le> i \<Longrightarrow> i < n \<Longrightarrow> el_worker s i = L_ended"
    "el_run es (make_elastic n) = Done s \<Longrightarrow> el_worker s i = L_ended \<Longrightarrow> 1 \<le> i \<Longrightarrow> i < n \<Longrightarrow> el_flag s"
proof -
  note inv = el_run_inv [OF make_elastic_inv [OF assms(1,2)], of es]
  show "el_run es (make_elastic n) \<noteq> Crash" using inv assms(3) by (simp add: make_elastic_def)
  assume d: "el_run es (make_elastic n) = Done s"
  have s: "el_inv s" "el_threads s = n" using inv d assms(3) el_threads_run [OF d] by (simp_all add: make_elastic_def)
  show "unat (el_awake s) + card {i \<in> {1..<n}. asleep (el_worker s i)} = n" using s by (simp add: el_inv_def workers_def)
  show "el_worker s i = L_ended" if "el_main s = M_done" "1 \<le> i" "i < n" using that s by (simp add: el_inv_def workers_def)
  show "el_flag s" if "el_worker s i = L_ended" "1 \<le> i" "i < n" using that s unfolding el_inv_def workers_def by auto
qed

text \<open>A wake-up that is skipped had nobody to wake: no worker is between its two updates of the count of those awake.\<close>

theorem skipped_wake_up:
  assumes "1 \<le> n" "n < 2 ^ 32" "length es < 2 ^ 62" "el_run es (make_elastic n) = Done s" "\<not> el_awake s < of_nat n" "1 \<le> i" "i < n"
  shows "\<not> asleep (el_worker s i)"
proof -
  have s: "el_inv s" "el_threads s = n"
    using el_run_inv [OF make_elastic_inv [OF assms(1,2)], of es] el_threads_run [OF assms(4)] assms(3,4) by (simp_all add: make_elastic_def)
  show ?thesis using one_asleep [OF s(1), of i] s(2) assms(5-7) by (auto simp: workers_def)
qed

text \<open>But a worker that has given up stealing and is about to sleep is still counted: a job spawned then wakes nobody, and both wait: the worker for
  the next wake-up, the job for the thread that spawned it.\<close>

definition late_wake_up :: "el_event list" where
  "late_wake_up = [Main_thread Wake_first, Main_thread Proceed, Worker_thread 1 Proceed, Worker_thread 1 Proceed, Worker_thread 1 Proceed]"

theorem late_wake_up_lost:
  "\<exists>s. el_run late_wake_up (make_elastic 2) = Done s \<and> el_main s = M_run \<and> el_worker s 1 = L_blocked 0 \<and> el_counter s = 0"
  by (simp add: late_wake_up_def make_elastic_def set_el_def notify_one_def blocked_workers_def upt_rec)

theorem shutdown_completes_witness:
  "\<exists>s. el_run late_wake_up (make_elastic 2) = Done s \<and> el_worker s 1 = L_blocked 0 \<and>
    (\<exists>fs t. el_run fs s = Done t \<and> length fs \<le> 28 \<and> el_main t = M_done \<and> (\<forall>i. 1 \<le> i \<and> i < 2 \<longrightarrow> el_worker t i = L_ended))"
proof -
  obtain s where s: "el_run late_wake_up (make_elastic 2) = Done s" "el_worker s 1 = L_blocked 0" using late_wake_up_lost by blast
  have "length late_wake_up + 16 * 2 < (2 :: nat) ^ 62" by (simp add: late_wake_up_def)
  from shutdown_completes [OF _ _ s(1) this] have "\<exists>fs t. el_run fs s = Done t \<and> length fs \<le> 28 \<and> el_main t = M_done \<and>
    (\<forall>i. 1 \<le> i \<and> i < 2 \<longrightarrow> el_worker t i = L_ended)" by simp
  then show ?thesis using s by blast
qed

end
