(* ===== verification/Parlay_Deque.thy ===== *)
theory Parlay_Deque
  imports Prelude "HOL-Library.Multiset"
begin

text \<open>
  The deque of the work-stealing scheduler (\<^verbatim>\<open>lib/parlay/internal/work_stealing_deque.h\<close>), after Arora, Blumofe
  and Plaxton. The owner pushes and pops at the bottom, thieves pop at the top. A step of the owner
  or of a thief is one access to the shared variables with the local computation after it, and the
  accesses are sequentially consistent. The indices stay below 1024; the tag is 32 bits wide and
  wraps. A slot that was never written holds no job.
\<close>

definition q_size :: nat where "q_size = 1024"

datatype 'j owner_pc =
    O_idle
  | Push_load 'j
  | Push_store 'j nat
  | Push_bot 'j nat
  | Pop_load
  | Pop_dec nat
  | Pop_job nat
  | Pop_age nat "'j option"
  | Pop_reset nat "'j option" u32 nat
  | Pop_cas "'j option" u32 nat
  | Pop_store u32

datatype 'j thief_pc =
    T_idle
  | T_age
  | T_bot u32 nat
  | T_job u32 nat nat
  | T_cas u32 nat nat "'j option"

record 'j deque =
  dq_bot :: nat
  dq_tag :: u32
  dq_top :: nat
  dq_jobs :: "nat \<Rightarrow> 'j option"
  dq_owner :: "'j owner_pc"
  dq_thieves :: "nat \<Rightarrow> 'j thief_pc"

definition make_deque :: "'j deque" where
  "make_deque = \<lparr>dq_bot = 0, dq_tag = 0, dq_top = 0, dq_jobs = Map.empty, dq_owner = O_idle, dq_thieves = (\<lambda>_. T_idle)\<rparr>"

text \<open>What an operation returns when it ends.\<close>

datatype 'j ret = Pushed 'j bool | Popped "'j option" | Stolen "'j option" bool

type_synonym 'j deque_step = "('j deque \<times> 'j ret option) outcome"

definition owner_go :: "'j owner_pc \<Rightarrow> 'j deque \<Rightarrow> 'j deque_step" where
  "owner_go pc s = Done (s\<lparr>dq_owner := pc\<rparr>, None)"

definition owner_return :: "'j ret \<Rightarrow> 'j deque \<Rightarrow> 'j deque_step" where
  "owner_return r s = Done (s\<lparr>dq_owner := O_idle\<rparr>, Some r)"

text \<open>\<open>push_bottom\<close>; a full array aborts the program.\<close>

fun push_step :: "'j owner_pc \<Rightarrow> 'j deque \<Rightarrow> 'j deque_step" where
  "push_step (Push_load j) s = (if dq_bot s = q_size then Crash else owner_go (Push_store j (dq_bot s)) s)"
| "push_step (Push_store j b) s = owner_go (Push_bot j b) (s\<lparr>dq_jobs := (dq_jobs s)(b \<mapsto> j)\<rparr>)"
| "push_step (Push_bot j b) s = owner_return (Pushed j (b + 1 = 1)) (s\<lparr>dq_bot := b + 1\<rparr>)"
| "push_step _ s = Wait"

fun pop_bottom_step :: "'j owner_pc \<Rightarrow> 'j deque \<Rightarrow> 'j deque_step" where
  "pop_bottom_step Pop_load s = (if dq_bot s \<noteq> 0 then owner_go (Pop_dec (dq_bot s - 1)) s else owner_return (Popped None) s)"
| "pop_bottom_step (Pop_dec b) s = owner_go (Pop_job b) (s\<lparr>dq_bot := b\<rparr>)"
| "pop_bottom_step (Pop_job b) s = owner_go (Pop_age b (dq_jobs s b)) s"
| "pop_bottom_step (Pop_age b j) s =
     (if b > dq_top s then owner_return (Popped j) s else owner_go (Pop_reset b j (dq_tag s) (dq_top s)) s)"
| "pop_bottom_step (Pop_reset b j t p) s = owner_go (if b = p then Pop_cas j t p else Pop_store t) (s\<lparr>dq_bot := 0\<rparr>)"
| "pop_bottom_step (Pop_cas j t p) s =
     (if dq_tag s = t \<and> dq_top s = p then owner_return (Popped j) (s\<lparr>dq_tag := t + 1, dq_top := 0\<rparr>) else owner_go (Pop_store t) s)"
| "pop_bottom_step (Pop_store t) s = owner_return (Popped None) (s\<lparr>dq_tag := t + 1, dq_top := 0\<rparr>)"
| "pop_bottom_step _ s = Wait"

definition thief_go :: "nat \<Rightarrow> 'j thief_pc \<Rightarrow> 'j deque \<Rightarrow> 'j deque_step" where
  "thief_go i pc s = Done (s\<lparr>dq_thieves := (dq_thieves s)(i := pc)\<rparr>, None)"

definition thief_return :: "nat \<Rightarrow> 'j ret \<Rightarrow> 'j deque \<Rightarrow> 'j deque_step" where
  "thief_return i r s = Done (s\<lparr>dq_thieves := (dq_thieves s)(i := T_idle)\<rparr>, Some r)"

fun pop_top_step :: "nat \<Rightarrow> 'j thief_pc \<Rightarrow> 'j deque \<Rightarrow> 'j deque_step" where
  "pop_top_step i T_idle s = Wait"
| "pop_top_step i T_age s = thief_go i (T_bot (dq_tag s) (dq_top s)) s"
| "pop_top_step i (T_bot t p) s = (if dq_bot s > p then thief_go i (T_job t p (dq_bot s)) s else thief_return i (Stolen None True) s)"
| "pop_top_step i (T_job t p b) s = thief_go i (T_cas t p b (dq_jobs s p)) s"
| "pop_top_step i (T_cas t p b j) s =
     (if dq_tag s = t \<and> dq_top s = p then thief_return i (Stolen j (b = p + 1)) (s\<lparr>dq_top := p + 1\<rparr>)
      else thief_return i (Stolen None (b = p + 1)) s)"

text \<open>The owner starts an operation when it is idle, and so does a thief.\<close>

datatype 'j deque_event = Start_push 'j | Start_pop | Owner | Start_steal nat | Thief nat

fun is_push :: "'j owner_pc \<Rightarrow> bool" where
  "is_push (Push_load j) = True"
| "is_push (Push_store j b) = True"
| "is_push (Push_bot j b) = True"
| "is_push _ = False"

fun deque_step :: "'j deque_event \<Rightarrow> 'j deque \<Rightarrow> 'j deque_step" where
  "deque_step (Start_push j) s = (if dq_owner s = O_idle then owner_go (Push_load j) s else Wait)"
| "deque_step Start_pop s = (if dq_owner s = O_idle then owner_go Pop_load s else Wait)"
| "deque_step Owner s = (if is_push (dq_owner s) then push_step (dq_owner s) s else pop_bottom_step (dq_owner s) s)"
| "deque_step (Start_steal i) s = (if dq_thieves s i = T_idle then thief_go i T_age s else Wait)"
| "deque_step (Thief i) s = pop_top_step i (dq_thieves s i) s"

fun run_deque :: "'j deque_event list \<Rightarrow> 'j deque \<Rightarrow> ('j deque \<times> 'j ret list) outcome" where
  "run_deque [] s = Done (s, [])"
| "run_deque (e # es) s =
     bind_outcome (deque_step e s) (\<lambda>(s, r). bind_outcome (run_deque es s) (\<lambda>(s, rs).
       Done (s, (case r of None \<Rightarrow> rs | Some x \<Rightarrow> x # rs))))"

section \<open>The abstract deque\<close>

text \<open>
  The jobs the deque holds, from top to bottom. The job at the bottom stays in the deque until the owner's pop is
  decided: by reading the age, or by the exchange of the age when it is the last one.
\<close>

fun bottom :: "'j owner_pc \<Rightarrow> 'j deque \<Rightarrow> nat" where
  "bottom (Pop_job b) s = b + 1"
| "bottom (Pop_age b j) s = b + 1"
| "bottom (Pop_reset b j t p) s = b + 1"
| "bottom (Pop_cas j t p) s = p + 1"
| "bottom (Pop_store t) s = dq_top s"
| "bottom _ s = dq_bot s"

definition contents :: "'j deque \<Rightarrow> 'j list" where
  "contents s = map (\<lambda>k. the (dq_jobs s k)) [dq_top s..<bottom (dq_owner s) s]"

fun owner_ok :: "'j owner_pc \<Rightarrow> 'j deque \<Rightarrow> bool" where
  "owner_ok (Push_store j b) s \<longleftrightarrow> b = dq_bot s \<and> b < q_size"
| "owner_ok (Push_bot j b) s \<longleftrightarrow> b = dq_bot s \<and> b < q_size \<and> dq_jobs s b = Some j"
| "owner_ok (Pop_dec b) s \<longleftrightarrow> dq_bot s = b + 1"
| "owner_ok (Pop_job b) s \<longleftrightarrow> dq_bot s = b"
| "owner_ok (Pop_age b j) s \<longleftrightarrow> dq_bot s = b \<and> dq_jobs s b = j"
| "owner_ok (Pop_reset b j t p) s \<longleftrightarrow> dq_bot s = b \<and> dq_jobs s b = j \<and> t = dq_tag s \<and> b \<le> p \<and> p \<le> dq_top s"
| "owner_ok (Pop_cas j t p) s \<longleftrightarrow> dq_bot s = 0 \<and> dq_jobs s p = j \<and> t = dq_tag s \<and> p \<le> dq_top s"
| "owner_ok (Pop_store t) s \<longleftrightarrow> dq_bot s = 0 \<and> t = dq_tag s"
| "owner_ok _ s \<longleftrightarrow> True"

text \<open>What a thief knows when no reset of the deque has happened since it read the age.\<close>

fun thief_ok :: "'j thief_pc \<Rightarrow> 'j deque \<Rightarrow> bool" where
  "thief_ok (T_bot t p) s \<longleftrightarrow> p \<le> dq_top s"
| "thief_ok (T_job t p b) s \<longleftrightarrow> p \<le> dq_top s \<and> (p = dq_top s \<longrightarrow> p < bottom (dq_owner s) s)"
| "thief_ok (T_cas t p b j) s \<longleftrightarrow> p \<le> dq_top s \<and> (p = dq_top s \<longrightarrow> p < bottom (dq_owner s) s \<and> dq_jobs s p = j)"
| "thief_ok _ s \<longleftrightarrow> True"

fun tag_of :: "'j thief_pc \<Rightarrow> u32 option" where
  "tag_of (T_bot t p) = Some t"
| "tag_of (T_job t p b) = Some t"
| "tag_of (T_cas t p b j) = Some t"
| "tag_of _ = None"

definition thieves_ok :: "nat \<Rightarrow> 'j deque \<Rightarrow> bool" where
  "thieves_ok n s \<longleftrightarrow>
     (\<forall>i t. tag_of (dq_thieves s i) = Some t \<longrightarrow> (\<exists>m \<le> n. t = of_nat m \<and> (m = n \<longrightarrow> thief_ok (dq_thieves s i) s)))"

text \<open>The invariant after \<open>n\<close> resets.\<close>

definition deque_inv :: "nat \<Rightarrow> 'j deque \<Rightarrow> bool" where
  "deque_inv n s \<longleftrightarrow> dq_tag s = of_nat n \<and> dq_top s \<le> bottom (dq_owner s) s \<and> bottom (dq_owner s) s \<le> q_size \<and>
     dq_bot s \<le> bottom (dq_owner s) s \<and> (\<forall>k. dq_top s \<le> k \<longrightarrow> k < bottom (dq_owner s) s \<longrightarrow> dq_jobs s k \<noteq> None) \<and>
     owner_ok (dq_owner s) s \<and> thieves_ok n s"

text \<open>What an operation that returns does to the abstract deque.\<close>

fun effect :: "'j ret option \<Rightarrow> 'j list \<Rightarrow> 'j list \<Rightarrow> bool" where
  "effect (Some (Pushed j first)) xs ys \<longleftrightarrow> ys = xs @ [j]"
| "effect (Some (Popped (Some j))) xs ys \<longleftrightarrow> xs = ys @ [j]"
| "effect (Some (Popped None)) xs ys \<longleftrightarrow> xs = [] \<and> ys = []"
| "effect (Some (Stolen (Some j) l)) xs ys \<longleftrightarrow> xs = j # ys"
| "effect (Some (Stolen None l)) xs ys \<longleftrightarrow> ys = xs"
| "effect None xs ys \<longleftrightarrow> ys = xs"

lemma deque_inv_init: "deque_inv 0 make_deque"
  by (simp add: deque_inv_def make_deque_def thieves_ok_def)

lemma thieves_ok_owner:
  assumes "thieves_ok n s" "dq_thieves s' = dq_thieves s" "dq_top s' = dq_top s"
    and "dq_top s < bottom (dq_owner s) s \<Longrightarrow> dq_top s < bottom (dq_owner s') s' \<and> dq_jobs s' (dq_top s) = dq_jobs s (dq_top s)"
  shows "thieves_ok n s'"
proof -
  have "thief_ok pc s \<Longrightarrow> thief_ok pc s'" for pc using assms(3,4) by (cases pc) auto
  with assms(1,2) show ?thesis unfolding thieves_ok_def by metis
qed

lemma thieves_ok_reset:
  assumes "thieves_ok n s" "dq_thieves s' = dq_thieves s"
  shows "thieves_ok (Suc n) s'"
  using assms unfolding thieves_ok_def by (metis le_SucI Suc_n_not_le_n)

lemma thieves_ok_upd:
  assumes "thieves_ok n s" "dq_thieves s' = (dq_thieves s)(i := pc)"
    and "\<And>pc. thief_ok pc s \<Longrightarrow> thief_ok pc s'"
    and "tag_of pc = None \<or> (\<exists>m \<le> n. tag_of pc = Some (of_nat m) \<and> (m = n \<longrightarrow> thief_ok pc s'))"
  shows "thieves_ok n s'"
  using assms unfolding thieves_ok_def by (metis fun_upd_apply option.distinct(1) option.inject)

lemma contents_empty: "dq_top s = bottom (dq_owner s) s \<Longrightarrow> contents s = []"
  by (simp add: contents_def)

lemma contents_cong:
  "dq_top s' = dq_top s \<Longrightarrow> bottom (dq_owner s') s' = bottom (dq_owner s) s \<Longrightarrow>
   (\<And>k. dq_top s \<le> k \<Longrightarrow> k < bottom (dq_owner s) s \<Longrightarrow> dq_jobs s' k = dq_jobs s k) \<Longrightarrow> contents s' = contents s"
  by (simp add: contents_def)

lemma push_step_ok:
  assumes "deque_inv n s" "is_push (dq_owner s)" "push_step (dq_owner s) s = Done (s', r)"
  shows "deque_inv n s' \<and> effect r (contents s) (contents s')"
proof (cases "dq_owner s")
  case (Push_load j)
  with assms have s': "s' = s\<lparr>dq_owner := Push_store j (dq_bot s)\<rparr>" "r = None" "dq_bot s \<noteq> q_size" by (auto simp: owner_go_def split: if_splits)
  have "thieves_ok n s'" by (rule thieves_ok_owner [of n s]) (use assms(1) Push_load in \<open>auto simp: s' deque_inv_def\<close>)
  moreover have "contents s' = contents s" by (rule contents_cong) (auto simp: s' Push_load)
  moreover have "dq_bot s < q_size" using assms(1) s'(3) by (simp add: deque_inv_def Push_load)
  ultimately show ?thesis using assms(1) by (auto simp: deque_inv_def Push_load s')
next
  case (Push_store j b)
  with assms have s': "s' = s\<lparr>dq_jobs := (dq_jobs s)(b \<mapsto> j), dq_owner := Push_bot j b\<rparr>" "r = None" by (auto simp: owner_go_def)
  have b: "b = dq_bot s" "b < q_size" using assms(1) Push_store by (auto simp: deque_inv_def)
  have "thieves_ok n s'" by (rule thieves_ok_owner [of n s]) (use assms(1) Push_store b in \<open>auto simp: s' deque_inv_def\<close>)
  moreover have "contents s' = contents s" by (rule contents_cong) (auto simp: s' Push_store b)
  ultimately show ?thesis using assms(1) by (auto simp: deque_inv_def Push_store s')
next
  case (Push_bot j b)
  with assms have s': "s' = s\<lparr>dq_bot := b + 1, dq_owner := O_idle\<rparr>" "r = Some (Pushed j (b = 0))" by (auto simp: owner_return_def)
  have b: "b = dq_bot s" "b < q_size" "dq_jobs s b = Some j" using assms(1) Push_bot by (auto simp: deque_inv_def)
  have "thieves_ok n s'" by (rule thieves_ok_owner [of n s]) (use assms(1) Push_bot b in \<open>auto simp: s' deque_inv_def\<close>)
  moreover have "contents s' = contents s @ [j]" using assms(1) b by (simp add: contents_def s' Push_bot deque_inv_def)
  ultimately show ?thesis using assms(1) b by (auto simp: deque_inv_def Push_bot s' less_Suc_eq)
qed (use assms in auto)

lemma pop_bottom_step_ok:
  assumes "deque_inv n s" "pop_bottom_step (dq_owner s) s = Done (s', r)"
  shows "(deque_inv n s' \<or> deque_inv (Suc n) s' \<and> (\<exists>j. r = Some (Popped j))) \<and> effect r (contents s) (contents s')"
proof (cases "dq_owner s")
  case Pop_load
  show ?thesis
  proof (cases "dq_bot s = 0")
    case True
    with assms Pop_load have s': "s' = s\<lparr>dq_owner := O_idle\<rparr>" "r = Some (Popped None)" by (auto simp: owner_return_def)
    have "thieves_ok n s'" by (rule thieves_ok_owner [of n s]) (use assms(1) Pop_load in \<open>auto simp: s' deque_inv_def\<close>)
    then show ?thesis using assms(1) True by (auto simp: deque_inv_def Pop_load s' contents_def)
  next
    case False
    with assms Pop_load have s': "s' = s\<lparr>dq_owner := Pop_dec (dq_bot s - 1)\<rparr>" "r = None" by (auto simp: owner_go_def)
    have "thieves_ok n s'" by (rule thieves_ok_owner [of n s]) (use assms(1) Pop_load in \<open>auto simp: s' deque_inv_def\<close>)
    moreover have "contents s' = contents s" by (rule contents_cong) (auto simp: s' Pop_load)
    ultimately show ?thesis using assms(1) False by (auto simp: deque_inv_def Pop_load s')
  qed
next
  case (Pop_dec b)
  with assms have s': "s' = s\<lparr>dq_bot := b, dq_owner := Pop_job b\<rparr>" "r = None" by (auto simp: owner_go_def)
  have b: "dq_bot s = b + 1" using assms(1) Pop_dec by (auto simp: deque_inv_def)
  have "thieves_ok n s'" by (rule thieves_ok_owner [of n s]) (use assms(1) Pop_dec b in \<open>auto simp: s' deque_inv_def\<close>)
  moreover have "contents s' = contents s" by (rule contents_cong) (auto simp: s' Pop_dec b)
  ultimately show ?thesis using assms(1) b by (auto simp: deque_inv_def Pop_dec s')
next
  case (Pop_job b)
  with assms have s': "s' = s\<lparr>dq_owner := Pop_age b (dq_jobs s b)\<rparr>" "r = None" by (auto simp: owner_go_def)
  have "thieves_ok n s'" by (rule thieves_ok_owner [of n s]) (use assms(1) Pop_job in \<open>auto simp: s' deque_inv_def\<close>)
  moreover have "contents s' = contents s" by (rule contents_cong) (auto simp: s' Pop_job)
  ultimately show ?thesis using assms(1) by (auto simp: deque_inv_def Pop_job s')
next
  case (Pop_age b j)
  show ?thesis
  proof (cases "b > dq_top s")
    case True
    with assms Pop_age have s': "s' = s\<lparr>dq_owner := O_idle\<rparr>" "r = Some (Popped j)" by (auto simp: owner_return_def)
    have "thieves_ok n s'" by (rule thieves_ok_owner [of n s]) (use assms(1) Pop_age True in \<open>auto simp: s' deque_inv_def\<close>)
    moreover obtain x where "j = Some x" using assms(1) True by (fastforce simp: deque_inv_def Pop_age)
    ultimately show ?thesis using assms(1) True by (auto simp: deque_inv_def Pop_age s' contents_def)
  next
    case False
    with assms Pop_age have s': "s' = s\<lparr>dq_owner := Pop_reset b j (dq_tag s) (dq_top s)\<rparr>" "r = None" by (auto simp: owner_go_def)
    have "thieves_ok n s'" by (rule thieves_ok_owner [of n s]) (use assms(1) Pop_age in \<open>auto simp: s' deque_inv_def\<close>)
    moreover have "contents s' = contents s" by (rule contents_cong) (auto simp: s' Pop_age)
    ultimately show ?thesis using assms(1) False by (auto simp: deque_inv_def Pop_age s')
  qed
next
  case (Pop_reset b j t p)
  have o: "dq_bot s = b" "b \<le> p" "p \<le> dq_top s" "dq_top s \<le> b + 1" "t = dq_tag s" "dq_jobs s b = j"
    using assms(1) Pop_reset by (auto simp: deque_inv_def)
  show ?thesis
  proof (cases "b = p")
    case True
    with assms Pop_reset have s': "s' = s\<lparr>dq_bot := 0, dq_owner := Pop_cas j t p\<rparr>" "r = None" by (auto simp: owner_go_def)
    have "thieves_ok n s'" by (rule thieves_ok_owner [of n s]) (use assms(1) Pop_reset o True in \<open>auto simp: s' deque_inv_def\<close>)
    moreover have "contents s' = contents s" by (rule contents_cong) (auto simp: s' Pop_reset True)
    ultimately show ?thesis using assms(1) o True by (auto simp: deque_inv_def Pop_reset s')
  next
    case False
    with assms Pop_reset have s': "s' = s\<lparr>dq_bot := 0, dq_owner := Pop_store t\<rparr>" "r = None" by (auto simp: owner_go_def)
    have top: "dq_top s = b + 1" using o False by simp
    have "thieves_ok n s'" by (rule thieves_ok_owner [of n s]) (use assms(1) Pop_reset top in \<open>auto simp: s' deque_inv_def\<close>)
    moreover have "contents s' = contents s" by (rule contents_cong) (auto simp: s' Pop_reset top)
    ultimately show ?thesis using assms(1) o top by (auto simp: deque_inv_def Pop_reset s')
  qed
next
  case (Pop_cas j t p)
  have o: "dq_bot s = 0" "p \<le> dq_top s" "dq_top s \<le> p + 1" "t = dq_tag s" "dq_jobs s p = j"
    using assms(1) Pop_cas by (auto simp: deque_inv_def)
  show ?thesis
  proof (cases "dq_top s = p")
    case True
    with assms Pop_cas o have s': "s' = s\<lparr>dq_tag := t + 1, dq_top := 0, dq_owner := O_idle\<rparr>" "r = Some (Popped j)" by (auto simp: owner_return_def)
    have "thieves_ok (Suc n) s'" by (rule thieves_ok_reset [of n s]) (use assms(1) in \<open>auto simp: s' deque_inv_def\<close>)
    moreover obtain x where "j = Some x" using assms(1) o True by (fastforce simp: deque_inv_def Pop_cas)
    ultimately show ?thesis using assms(1) o True by (auto simp: deque_inv_def Pop_cas s' contents_def)
  next
    case False
    with assms Pop_cas o have s': "s' = s\<lparr>dq_owner := Pop_store t\<rparr>" "r = None" by (auto simp: owner_go_def)
    have top: "dq_top s = p + 1" using o False by simp
    have "thieves_ok n s'" by (rule thieves_ok_owner [of n s]) (use assms(1) Pop_cas top in \<open>auto simp: s' deque_inv_def\<close>)
    moreover have "contents s' = contents s" by (rule contents_cong) (auto simp: s' Pop_cas top)
    ultimately show ?thesis using assms(1) o top by (auto simp: deque_inv_def Pop_cas s')
  qed
next
  case (Pop_store t)
  with assms have s': "s' = s\<lparr>dq_tag := t + 1, dq_top := 0, dq_owner := O_idle\<rparr>" "r = Some (Popped None)" by (auto simp: owner_return_def)
  have "thieves_ok (Suc n) s'" by (rule thieves_ok_reset [of n s]) (use assms(1) in \<open>auto simp: s' deque_inv_def\<close>)
  then show ?thesis using assms(1) by (auto simp: deque_inv_def Pop_store s' contents_def)
qed (use assms in auto)

text \<open>The step of a thief, as long as the tag has not come round.\<close>

lemma same_tag: "n < 2 ^ 32 \<Longrightarrow> m \<le> n \<Longrightarrow> (of_nat m :: u32) = of_nat n \<longleftrightarrow> m = n"
  by (simp add: word_of_nat_eq_iff take_bit_nat_eq_self)

lemma thief_frame [simp]:
  "bottom pc (s\<lparr>dq_thieves := f\<rparr>) = bottom pc s" "owner_ok pc (s\<lparr>dq_thieves := f\<rparr>) = owner_ok pc s"
  "thief_ok q (s\<lparr>dq_thieves := f\<rparr>) = thief_ok q s"
  proof -
  show b: "bottom pc (s\<lparr>dq_thieves := f\<rparr>) = bottom pc s" for pc by (cases pc) simp_all
  show "owner_ok pc (s\<lparr>dq_thieves := f\<rparr>) = owner_ok pc s" by (cases pc) simp_all
  show "thief_ok q (s\<lparr>dq_thieves := f\<rparr>) = thief_ok q s" by (cases q) (simp_all add: b)
qed

lemma deque_inv_thief:
  assumes "deque_inv n s"
    and "tag_of pc = None \<or> (\<exists>m \<le> n. tag_of pc = Some (of_nat m) \<and> (m = n \<longrightarrow> thief_ok pc s))"
  shows "deque_inv n (s\<lparr>dq_thieves := (dq_thieves s)(i := pc)\<rparr>)"
proof -
  have "thieves_ok n (s\<lparr>dq_thieves := (dq_thieves s)(i := pc)\<rparr>)"
    by (rule thieves_ok_upd [of n s _ i pc]) (use assms in \<open>auto simp: deque_inv_def\<close>)
  then show ?thesis using assms(1) by (simp add: deque_inv_def)
qed

lemma pop_top_step_ok:
  assumes "deque_inv n s" "n < 2 ^ 32" "pop_top_step i (dq_thieves s i) s = Done (s', r)"
  shows "deque_inv n s' \<and> effect r (contents s) (contents s')"
proof -
  have known: "\<exists>m \<le> n. t = of_nat m \<and> (m = n \<longrightarrow> thief_ok (dq_thieves s i) s)" if "tag_of (dq_thieves s i) = Some t" for t
    using assms(1) that by (auto simp: deque_inv_def thieves_ok_def)
  have c: "contents (s\<lparr>dq_thieves := f\<rparr>) = contents s" for f by (rule contents_cong) simp_all
  show ?thesis
  proof (cases "dq_thieves s i")
    case T_idle
    with assms show ?thesis by simp
  next
    case T_age
    with assms(3) have s': "s' = s\<lparr>dq_thieves := (dq_thieves s)(i := T_bot (dq_tag s) (dq_top s))\<rparr>" "r = None" by (auto simp: thief_go_def)
    have "dq_tag s = of_nat n" using assms(1) by (simp add: deque_inv_def)
    with deque_inv_thief [OF assms(1), of "T_bot (dq_tag s) (dq_top s)" i] show ?thesis by (auto simp: s' c)
  next
    case (T_bot t p)
    from known [of t] obtain m where m: "m \<le> n" "t = of_nat m" "m = n \<longrightarrow> p \<le> dq_top s" by (auto simp: T_bot)
    have b: "dq_bot s \<le> bottom (dq_owner s) s" using assms(1) by (simp add: deque_inv_def)
    show ?thesis
    proof (cases "dq_bot s > p")
      case True
      with assms(3) T_bot have s': "s' = s\<lparr>dq_thieves := (dq_thieves s)(i := T_job t p (dq_bot s))\<rparr>" "r = None" by (auto simp: thief_go_def)
      have "\<exists>m \<le> n. tag_of (T_job t p (dq_bot s)) = Some (of_nat m) \<and> (m = n \<longrightarrow> thief_ok (T_job t p (dq_bot s)) s)"
        using m b True by (intro exI [of _ m]) auto
      with deque_inv_thief [OF assms(1), of "T_job t p (dq_bot s)" i] show ?thesis by (simp add: s' c)
    next
      case False
      with assms(3) T_bot have s': "s' = s\<lparr>dq_thieves := (dq_thieves s)(i := T_idle)\<rparr>" "r = Some (Stolen None True)" by (auto simp: thief_return_def)
      with deque_inv_thief [OF assms(1), of T_idle i] show ?thesis by (simp add: s' c)
    qed
  next
    case (T_job t p b)
    with assms(3) have s': "s' = s\<lparr>dq_thieves := (dq_thieves s)(i := T_cas t p b (dq_jobs s p))\<rparr>" "r = None" by (auto simp: thief_go_def)
    from known [of t] obtain m where m: "m \<le> n" "t = of_nat m" "m = n \<longrightarrow> thief_ok (T_job t p b) s" by (auto simp: T_job)
    then have "\<exists>m \<le> n. tag_of (T_cas t p b (dq_jobs s p)) = Some (of_nat m) \<and> (m = n \<longrightarrow> thief_ok (T_cas t p b (dq_jobs s p)) s)"
      by (intro exI [of _ m]) auto
    with deque_inv_thief [OF assms(1), of "T_cas t p b (dq_jobs s p)" i] show ?thesis by (simp add: s' c)
  next
    case (T_cas t p b j)
    show ?thesis
    proof (cases "dq_tag s = t \<and> dq_top s = p")
      case False
      with assms(3) T_cas have s': "s' = s\<lparr>dq_thieves := (dq_thieves s)(i := T_idle)\<rparr>" "r = Some (Stolen None (b = p + 1))" by (auto simp: thief_return_def)
      with deque_inv_thief [OF assms(1), of T_idle i] show ?thesis by (simp add: s' c)
    next
      case True
      with assms(3) T_cas have s': "s' = s\<lparr>dq_top := p + 1, dq_thieves := (dq_thieves s)(i := T_idle)\<rparr>" "r = Some (Stolen j (b = p + 1))"
        by (auto simp: thief_return_def)
      from known [of t] obtain m where m: "m \<le> n" "t = of_nat m" "m = n \<longrightarrow> thief_ok (T_cas t p b j) s" by (auto simp: T_cas)
      have "dq_tag s = of_nat n" using assms(1) by (simp add: deque_inv_def)
      with True m(2) have "(of_nat m :: u32) = of_nat n" by metis
      then have "m = n" using same_tag [OF assms(2) m(1)] by blast
      with m(3) True have p: "p < bottom (dq_owner s) s" "dq_jobs s p = j" "dq_top s = p" by auto
      have bt: "bottom (dq_owner s) s' = bottom (dq_owner s) s" using p by (cases "dq_owner s") (auto simp: s')
      have th: "thief_ok pc s \<Longrightarrow> thief_ok pc s'" for pc using bt p by (cases pc) (auto simp: s')
      have "thieves_ok n s'" by (rule thieves_ok_upd [of n s _ i T_idle]) (use assms(1) th in \<open>auto simp: s' deque_inv_def\<close>)
      moreover have "owner_ok (dq_owner s) s'" using assms(1) p by (cases "dq_owner s") (auto simp: s' deque_inv_def)
      ultimately have "deque_inv n s'" using assms(1) p bt by (auto simp: deque_inv_def s')
      moreover obtain x where "j = Some x" using assms(1) p by (fastforce simp: deque_inv_def)
      then have "contents s = x # contents s'" using p bt by (simp add: contents_def upt_conv_Cons) (simp add: s')
      ultimately show ?thesis using \<open>j = Some x\<close> by (simp add: s')
    qed
  qed
qed

text \<open>Every step keeps the invariant and acts on the abstract deque as its result says.\<close>

lemma deque_step_ok:
  assumes "deque_inv n s" "n < 2 ^ 32" "deque_step e s = Done (s', r)"
  shows "(deque_inv n s' \<or> deque_inv (Suc n) s' \<and> (\<exists>j. r = Some (Popped j))) \<and> effect r (contents s) (contents s')"
proof (cases e)
  case (Start_push j)
  with assms(3) have s': "dq_owner s = O_idle" "s' = s\<lparr>dq_owner := Push_load j\<rparr>" "r = None" by (auto simp: owner_go_def split: if_splits)
  have "thieves_ok n s'" by (rule thieves_ok_owner [of n s]) (use assms(1) s' in \<open>auto simp: deque_inv_def\<close>)
  moreover have "contents s' = contents s" by (rule contents_cong) (simp_all add: s')
  ultimately show ?thesis using assms(1) s' by (simp add: deque_inv_def)
next
  case Start_pop
  with assms(3) have s': "dq_owner s = O_idle" "s' = s\<lparr>dq_owner := Pop_load\<rparr>" "r = None" by (auto simp: owner_go_def split: if_splits)
  have "thieves_ok n s'" by (rule thieves_ok_owner [of n s]) (use assms(1) s' in \<open>auto simp: deque_inv_def\<close>)
  moreover have "contents s' = contents s" by (rule contents_cong) (simp_all add: s')
  ultimately show ?thesis using assms(1) s' by (simp add: deque_inv_def)
next
  case Owner
  with assms push_step_ok [OF assms(1), of s' r] pop_bottom_step_ok [OF assms(1), of s' r] show ?thesis by (auto split: if_splits)
next
  case (Start_steal i)
  with assms(3) have s': "s' = s\<lparr>dq_thieves := (dq_thieves s)(i := T_age)\<rparr>" "r = None" by (auto simp: thief_go_def split: if_splits)
  have "contents s' = contents s" by (rule contents_cong) (simp_all add: s')
  with deque_inv_thief [OF assms(1), of T_age i] show ?thesis by (simp add: s')
next
  case (Thief i)
  with assms pop_top_step_ok [OF assms(1,2), of i s' r] show ?thesis by auto
qed

text \<open>The jobs that operations of a run took in and handed out, and the number of pops of the owner.\<close>

fun taken_in :: "'j ret \<Rightarrow> 'j list" where
  "taken_in (Pushed j first) = [j]"
| "taken_in _ = []"

fun handed_out :: "'j ret \<Rightarrow> 'j list" where
  "handed_out (Popped (Some j)) = [j]"
| "handed_out (Stolen (Some j) l) = [j]"
| "handed_out _ = []"

fun is_pop :: "'j ret \<Rightarrow> bool" where
  "is_pop (Popped j) = True"
| "is_pop _ = False"

lemma effect_mset:
  "effect r xs ys \<Longrightarrow> mset xs + mset (case r of None \<Rightarrow> [] | Some x \<Rightarrow> taken_in x) =
     mset ys + mset (case r of None \<Rightarrow> [] | Some x \<Rightarrow> handed_out x)"
  by (induction r xs ys rule: effect.induct) simp_all

lemma mset_chain: "A + a = B + h \<Longrightarrow> B + T = C + H \<Longrightarrow> A + (a + T) = C + (h + H)" for A :: "'a multiset"
  by (metis add.assoc add.commute)

lemma run_deque_ok:
  "run_deque es s = Done (s', rs) \<Longrightarrow> deque_inv n s \<Longrightarrow> n + length (filter is_pop rs) < 2 ^ 32 \<Longrightarrow>
   (\<exists>n'. n \<le> n' \<and> n' \<le> n + length (filter is_pop rs) \<and> deque_inv n' s') \<and>
   mset (contents s) + mset (concat (map taken_in rs)) = mset (contents s') + mset (concat (map handed_out rs))"
proof (induction es arbitrary: s n rs)
  case Nil
  then show ?case by (auto intro: exI [of _ n])
next
  case (Cons e es)
  from Cons.prems(1) obtain s1 r rs1 where e: "deque_step e s = Done (s1, r)" "run_deque es s1 = Done (s', rs1)"
    "rs = (case r of None \<Rightarrow> rs1 | Some x \<Rightarrow> x # rs1)" by auto
  have n: "n < 2 ^ 32" using Cons.prems(3) by simp
  note ok = deque_step_ok [OF Cons.prems(2) n e(1)]
  have "\<exists>k. (k = n \<or> k = Suc n \<and> (\<exists>j. r = Some (Popped j))) \<and> deque_inv k s1" using ok by blast
  then obtain k where k: "k = n \<or> k = Suc n \<and> (\<exists>j. r = Some (Popped j))" "deque_inv k s1" by blast
  have len: "k + length (filter is_pop rs1) \<le> n + length (filter is_pop rs)" using k(1) e(3) by (auto split: option.splits)
  with Cons.prems(3) have "k + length (filter is_pop rs1) < 2 ^ 32" by simp
  from Cons.IH [OF e(2) k(2) this] obtain n' where n': "k \<le> n'" "n' \<le> k + length (filter is_pop rs1)" "deque_inv n' s'"
    and m: "mset (contents s1) + mset (concat (map taken_in rs1)) = mset (contents s') + mset (concat (map handed_out rs1))" by blast
  have "n \<le> n'" "n' \<le> n + length (filter is_pop rs)" using n' len k(1) by auto
  moreover have "mset (contents s) + mset (concat (map taken_in rs)) = mset (contents s') + mset (concat (map handed_out rs))"
    using effect_mset [of r "contents s" "contents s1"] ok m e(3) by (cases r) (auto intro: mset_chain)
  ultimately show ?case using n'(3) by blast
qed

section \<open>Properties\<close>

text \<open>C29. The work-stealing deque hands out every job exactly once: under every interleaving of the owner and any number
  of thieves, the jobs whose pushes ended are, each as often as it was pushed, the jobs returned by pops and thefts and
  the jobs still in the deque. This holds as long as the owner pops less than \<open>2 ^ 32\<close> times, so that
  the tag does not come round.\<close>

theorem deque_exactly_once:
  assumes "run_deque es make_deque = Done (s, rs)" "length (filter is_pop rs) < 2 ^ 32"
  shows "mset (concat (map taken_in rs)) = mset (contents s) + mset (concat (map handed_out rs))"
  using run_deque_ok [OF assms(1) deque_inv_init] assms(2) by (simp add: contents_def make_deque_def)

text \<open>Two jobs, one stolen while the owner pops the other.\<close>

definition sample_steals :: "nat deque_event list" where
  "sample_steals = [Start_push 7, Owner, Owner, Owner, Start_push 8, Owner, Owner, Owner, Start_steal 1, Thief 1, Thief 1,
     Start_pop, Owner, Owner, Thief 1, Owner, Thief 1, Owner]"

lemma sample_steals_run:
  "\<exists>s. run_deque sample_steals make_deque = Done (s, [Pushed 7 True, Pushed 8 False, Stolen (Some 7) False])"
  by (simp add: sample_steals_def make_deque_def owner_go_def owner_return_def thief_go_def thief_return_def q_size_def)

theorem deque_exactly_once_witness:
  "\<exists>s. mset [7, 8] = mset (contents s) + mset [7 :: nat]"
proof -
  from sample_steals_run obtain s where r: "run_deque sample_steals make_deque = Done (s, [Pushed 7 True, Pushed 8 False, Stolen (Some 7) False])" by blast
  from deque_exactly_once [OF r] show ?thesis by auto
qed

text \<open>The work-stealing deque refines a list: each step of the owner or a thief leaves the list of jobs alone, or is the
  last step of a push, a pop or a theft, and then adds the job at the bottom, takes the job returned from the bottom, or takes the
  job returned from the top. A pop that returns nothing found the list empty.\<close>

theorem deque_refines:
  assumes "run_deque es make_deque = Done (s, rs)" "length (filter is_pop rs) < 2 ^ 32" "deque_step e s = Done (s', r)"
  shows "effect r (contents s) (contents s')"
proof -
  from run_deque_ok [OF assms(1) deque_inv_init] assms(2) obtain n where "n \<le> length (filter is_pop rs)" "deque_inv n s" by auto
  with deque_step_ok [OF _ _ assms(3)] assms(2) show ?thesis by (metis le_less_trans)
qed

theorem deque_refines_witness:
  "effect (Some (Popped None)) ([] :: nat list) []"
proof -
  have "\<exists>s s'. run_deque [Start_pop] make_deque = Done (s, []) \<and> deque_step Owner s = Done (s', Some (Popped (None :: nat option))) \<and>
      contents s = [] \<and> contents s' = []" by (simp add: make_deque_def owner_go_def owner_return_def contents_def)
  then show ?thesis using deque_refines [of "[Start_pop]" _ "[]" Owner] by fastforce
qed

text \<open>C31. The state of the deque stays well formed: under every interleaving with less than \<open>2 ^ 32\<close> pops, both indices are
  inside the array of 1024 slots (the top may be one past its end), and every slot between top and bottom holds a
  job.\<close>

theorem deque_well_formed:
  assumes "run_deque es make_deque = Done (s, rs)" "length (filter is_pop rs) < 2 ^ 32"
  shows "dq_bot s \<le> q_size \<and> dq_top s \<le> q_size \<and> None \<notin> set (map (dq_jobs s) [dq_top s..<dq_bot s])"
proof -
  from run_deque_ok [OF assms(1) deque_inv_init] assms(2) obtain n where i: "deque_inv n s" by auto
  then have "dq_jobs s k \<noteq> None" if "dq_top s \<le> k" "k < dq_bot s" for k
    using that order.strict_trans2 [OF that(2), of "bottom (dq_owner s) s"] by (simp add: deque_inv_def)
  then have "None \<notin> set (map (dq_jobs s) [dq_top s..<dq_bot s])" by (force simp: image_iff)
  with i show ?thesis by (auto simp: deque_inv_def)
qed

theorem deque_well_formed_witness:
  "\<exists>s. run_deque sample_steals make_deque = Done (s, [Pushed 7 True, Pushed 8 False, Stolen (Some 7) False]) \<and> dq_bot s \<le> 1024 \<and> dq_top s \<le> 1024"
proof -
  from sample_steals_run obtain s where r: "run_deque sample_steals make_deque = Done (s, [Pushed 7 True, Pushed 8 False, Stolen (Some 7) False])" by blast
  from deque_well_formed [OF r] r show ?thesis by (auto simp: q_size_def)
qed

text \<open>A push and a pop with no thief in between, and \<open>n\<close> of them.\<close>

definition push_pop :: "'j \<Rightarrow> 'j deque_event list" where
  "push_pop j = [Start_push j, Owner, Owner, Owner, Start_pop, Owner, Owner, Owner, Owner, Owner, Owner]"

lemma run_deque_append:
  "run_deque (es @ fs) s = bind_outcome (run_deque es s) (\<lambda>(s, rs). bind_outcome (run_deque fs s) (\<lambda>(s, qs). Done (s, rs @ qs)))"
proof (induction es arbitrary: s)
  case Nil
  then show ?case by (cases "run_deque fs s") auto
next
  case (Cons e es)
  show ?case
  proof (cases "deque_step e s")
    case (Done y)
    obtain s1 r where y: "y = (s1, r)" by fastforce
    show ?thesis
    proof (cases "run_deque es s1")
      case (Done z)
      with \<open>deque_step e s = Done y\<close> Cons.IH [of s1] show ?thesis
        by (cases z; cases "run_deque fs (fst z)") (auto simp: y split: option.splits)
    qed (use Done Cons.IH [of s1] in \<open>simp_all add: y\<close>)
  qed simp_all
qed

lemma run_cycle:
  "dq_owner s = O_idle \<Longrightarrow> dq_bot s = 0 \<Longrightarrow> dq_top s = 0 \<Longrightarrow>
   run_deque (push_pop j) s = Done (s\<lparr>dq_tag := dq_tag s + 1, dq_jobs := (dq_jobs s)(0 \<mapsto> j)\<rparr>, [Pushed j True, Popped (Some j)])"
  by (simp add: push_pop_def owner_go_def owner_return_def q_size_def)

lemma run_cycles:
  "dq_owner s = O_idle \<Longrightarrow> dq_bot s = 0 \<Longrightarrow> dq_top s = 0 \<Longrightarrow>
   run_deque (concat (replicate n (push_pop j))) s =
     Done (s\<lparr>dq_tag := dq_tag s + of_nat n, dq_jobs := (if n = 0 then dq_jobs s else (dq_jobs s)(0 \<mapsto> j))\<rparr>,
       concat (replicate n [Pushed j True, Popped (Some j)]))"
proof (induction n arbitrary: s)
  case (Suc n)
  let ?s = "s\<lparr>dq_tag := dq_tag s + 1, dq_jobs := (dq_jobs s)(0 \<mapsto> j)\<rparr>"
  have "run_deque (concat (replicate n (push_pop j))) ?s =
     Done (?s\<lparr>dq_tag := dq_tag ?s + of_nat n, dq_jobs := (if n = 0 then dq_jobs ?s else (dq_jobs ?s)(0 \<mapsto> j))\<rparr>,
       concat (replicate n [Pushed j True, Popped (Some j)]))" by (rule Suc.IH) (use Suc.prems in simp_all)
  with run_cycle [OF Suc.prems, of j] show ?case by (cases "n = 0") (simp_all add: run_deque_append algebra_simps fun_upd_def cong: if_cong)
qed simp

text \<open>C32. A limit of the deque: the tag is 32 bits wide, so after \<open>2 ^ 32\<close> pops a thief that was delayed all the time can
  succeed with the job it read at first. There is a run in which the job \<open>0\<close>, pushed once, is handed out twice, and the job \<open>2\<close> is lost.\<close>

theorem deque_tag_wraps:
  "\<exists>es s rs. run_deque es make_deque = Done (s, rs) \<and> contents s = [] \<and>
     count (mset (concat (map taken_in rs))) (0 :: nat) = 1 \<and> count (mset (concat (map handed_out rs))) 0 = 2 \<and>
     count (mset (concat (map taken_in rs))) 2 = 1 \<and> count (mset (concat (map handed_out rs))) 2 = 0"
proof -
  define n :: nat where "n = 2 ^ 32 - 1"
  let ?a = "[Start_push 0, Owner, Owner, Owner, Start_steal 1, Thief 1, Thief 1, Thief 1, Start_pop, Owner, Owner, Owner, Owner, Owner, Owner] :: nat deque_event list"
  let ?z = "[Start_push 2, Owner, Owner, Owner, Thief 1] :: nat deque_event list"
  have n: "of_nat n = (- 1 :: u32)" "n \<noteq> 0" by (simp_all add: n_def)
  define s :: "nat deque" where "s = make_deque\<lparr>dq_tag := 1, dq_jobs := [0 \<mapsto> 0], dq_thieves := (\<lambda>_. T_idle)(1 := T_cas 0 0 1 (Some 0))\<rparr>"
  have a: "run_deque ?a make_deque = Done (s, [Pushed 0 True, Popped (Some 0)])"
    by (simp add: s_def make_deque_def owner_go_def owner_return_def thief_go_def q_size_def)
  have b: "run_deque (concat (replicate n (push_pop 1))) s = Done (s\<lparr>dq_tag := 0, dq_jobs := [0 \<mapsto> 1]\<rparr>,
      concat (replicate n [Pushed 1 True, Popped (Some 1)]))"
    using run_cycles [of s n 1] n by (simp add: s_def make_deque_def)
  have z: "\<exists>s'. run_deque ?z (s\<lparr>dq_tag := 0, dq_jobs := [0 \<mapsto> 1]\<rparr>) = Done (s', [Pushed 2 True, Stolen (Some 0) True]) \<and> contents s' = []"
    by (simp add: s_def make_deque_def owner_go_def owner_return_def thief_return_def q_size_def contents_def)
  then obtain s' where s': "run_deque ?z (s\<lparr>dq_tag := 0, dq_jobs := [0 \<mapsto> 1]\<rparr>) = Done (s', [Pushed 2 True, Stolen (Some 0) True])"
    "contents s' = []" by blast
  have "run_deque (?a @ concat (replicate n (push_pop 1)) @ ?z) make_deque =
      Done (s', [Pushed 0 True, Popped (Some 0)] @ concat (replicate n [Pushed 1 True, Popped (Some 1)]) @ [Pushed 2 True, Stolen (Some 0) True])"
    unfolding run_deque_append a b s'(1) bind_outcome.simps prod.case by simp
  moreover have "count (mset (concat (map taken_in (concat (replicate n [Pushed 1 True, Popped (Some 1)]))))) x = (if x = 1 then n else 0)"
    "count (mset (concat (map handed_out (concat (replicate n [Pushed 1 True, Popped (Some 1)]))))) x = (if x = 1 then n else 0)" for x :: nat
    by (induction n) auto
  ultimately show ?thesis using s'(2)
    by (intro exI [of _ "?a @ concat (replicate n (push_pop 1)) @ ?z"] exI [of _ s'] exI conjI) (assumption | simp)+
qed

end
