(* ===== verification/Parlay_Fork_Join.thy ===== *)
theory Parlay_Fork_Join
  imports Parlay_Deque
begin

text \<open>
  The fork-join scheduler (\<^verbatim>\<open>lib/parlay/scheduler.h\<close>, \<^verbatim>\<open>internal/work_stealing_job.h\<close>). A computation is the sequence
  of its actions and of its calls of \<^verbatim>\<open>pardo\<close>. A worker is its current computation, the stack of the
  calls it is in, and its deque, here the list of jobs that the deque refines together with its bottom index, from which
  an overflow of its array follows; a worker without a current computation looks
  for a job. A job is named by a number, standing for its address. Sleeping and waking up, which only delay
  a worker, are left out. A failing assertion is a crash, and so is the abort of \<^verbatim>\<open>push_bottom\<close> on a full array.
\<close>

datatype 'a comp = Ret | Do 'a "'a comp" | Fork "'a comp" "'a comp" "'a comp"

text \<open>
  The frames: the left branch of a \<^verbatim>\<open>pardo\<close> runs, the right branch runs in its own worker, the right branch
  was stolen and is waited for, a job taken from a deque runs.
\<close>

datatype 'a frame = Left_of nat "'a comp" | Right_of "'a comp" | Waiting nat "'a comp" | Job nat

record 'a worker =
  w_cur :: "'a comp option"
  w_frames :: "'a frame list"
  w_deque :: "nat list"
  w_bot :: nat

record 'a fork_join =
  fj_workers :: "nat \<Rightarrow> 'a worker"
  fj_body :: "nat \<Rightarrow> 'a comp"
  fj_next :: nat
  fj_done :: "nat set"
  fj_log :: "'a list"

definition make_fork_join :: "'a comp \<Rightarrow> 'a fork_join" where
  "make_fork_join c =
     \<lparr>fj_workers = (\<lambda>w. \<lparr>w_cur = (if w = 0 then Some c else None), w_frames = [], w_deque = [], w_bot = 0\<rparr>),
      fj_body = (\<lambda>_. Ret), fj_next = 0, fj_done = {}, fj_log = []\<rparr>"

definition set_worker :: "nat \<Rightarrow> 'a worker \<Rightarrow> 'a fork_join \<Rightarrow> 'a fork_join" where
  "set_worker w x s = s\<lparr>fj_workers := (fj_workers s)(w := x)\<rparr>"

text \<open>\<open>pardo\<close> up to the call of the left branch, and \<open>spawn\<close>: the bottom index may have reached the end of the array although jobs were
  stolen from the top.\<close>

definition pardo :: "nat \<Rightarrow> 'a comp \<Rightarrow> 'a comp \<Rightarrow> 'a comp \<Rightarrow> 'a fork_join \<Rightarrow> 'a fork_join outcome" where
  "pardo w left right k s =
     (let x = fj_workers s w; j = fj_next s
      in if w_bot x = q_size then Crash
         else Done (set_worker w (x\<lparr>w_cur := Some left, w_frames := Left_of j k # w_frames x, w_deque := w_deque x @ [j], w_bot := w_bot x + 1\<rparr>)
           (s\<lparr>fj_body := (fj_body s)(j := right), fj_next := j + 1\<rparr>)))"

text \<open>\<open>pop_bottom\<close>: when the last job is taken, or there is none, the bottom index returns to the start of the array.\<close>

definition pop_own :: "'a worker \<Rightarrow> 'a worker" where
  "pop_own x = x\<lparr>w_deque := butlast (w_deque x), w_bot := (if length (w_deque x) \<le> 1 then 0 else w_bot x - 1)\<rparr>"

text \<open>\<open>pardo\<close> after the left branch: the worker pops its deque and runs the right branch, or waits for the thief.\<close>

definition join_own :: "nat \<Rightarrow> nat \<Rightarrow> 'a comp \<Rightarrow> 'a frame list \<Rightarrow> 'a fork_join \<Rightarrow> 'a fork_join outcome" where
  "join_own w j k fs s =
     (let x = fj_workers s w
      in if w_deque x = [] then Done (set_worker w ((pop_own x)\<lparr>w_cur := None, w_frames := Waiting j k # fs\<rparr>) s)
         else if last (w_deque x) = j then
           Done (set_worker w ((pop_own x)\<lparr>w_cur := Some (fj_body s j), w_frames := Right_of k # fs\<rparr>) s)
         else Crash)"

text \<open>A job from a deque starts to run.\<close>

definition start_job :: "nat \<Rightarrow> nat \<Rightarrow> 'a fork_join \<Rightarrow> 'a fork_join" where
  "start_job w i s =
     (let x = fj_workers s w in set_worker w (x\<lparr>w_cur := Some (fj_body s i), w_frames := Job i # w_frames x\<rparr>) s)"

text \<open>\<open>get_job\<close>: first the worker's own deque, then a theft.\<close>

definition get_own_job :: "nat \<Rightarrow> 'a fork_join \<Rightarrow> 'a fork_join outcome" where
  "get_own_job w s =
     (let x = fj_workers s w
      in if w_deque x = [] then Wait
         else Done (start_job w (last (w_deque x)) (set_worker w (pop_own x) s)))"

definition run_step :: "nat \<Rightarrow> 'a fork_join \<Rightarrow> 'a fork_join outcome" where
  "run_step w s =
     (let x = fj_workers s w
      in case w_cur x of
           Some (Do a c) \<Rightarrow> Done (set_worker w (x\<lparr>w_cur := Some c\<rparr>) (s\<lparr>fj_log := fj_log s @ [a]\<rparr>))
         | Some (Fork l r k) \<Rightarrow> pardo w l r k s
         | Some Ret \<Rightarrow>
             (case w_frames x of
                Left_of j k # fs \<Rightarrow> join_own w j k fs s
              | Right_of k # fs \<Rightarrow> Done (set_worker w (x\<lparr>w_cur := Some k, w_frames := fs\<rparr>) s)
              | Job j # fs \<Rightarrow> Done (set_worker w (x\<lparr>w_cur := None, w_frames := fs\<rparr>) (s\<lparr>fj_done := insert j (fj_done s)\<rparr>))
              | _ \<Rightarrow> Wait)
         | None \<Rightarrow>
             (case w_frames x of
                Waiting j k # fs \<Rightarrow>
                  if j \<in> fj_done s then Done (set_worker w (x\<lparr>w_cur := Some k, w_frames := fs\<rparr>) s) else get_own_job w s
              | [] \<Rightarrow> get_own_job w s
              | _ \<Rightarrow> Wait))"

text \<open>\<open>try_steal\<close> from worker \<open>v\<close>; \<open>done\<close> is checked before.\<close>

definition try_steal :: "nat \<Rightarrow> nat \<Rightarrow> 'a fork_join \<Rightarrow> 'a fork_join outcome" where
  "try_steal w v s =
     (let x = fj_workers s w; y = fj_workers s v
      in if w_cur x = None \<and> w_deque x = [] \<and> v \<noteq> w \<and> w_deque y \<noteq> [] \<and>
            (case w_frames x of [] \<Rightarrow> True | Waiting j k # fs \<Rightarrow> j \<notin> fj_done s | _ \<Rightarrow> False)
         then Done (start_job w (hd (w_deque y)) (set_worker v (y\<lparr>w_deque := tl (w_deque y)\<rparr>) s))
         else Wait)"

datatype fj_event = Run nat | Steal nat nat

fun fj_step :: "nat \<Rightarrow> fj_event \<Rightarrow> 'a fork_join \<Rightarrow> 'a fork_join outcome" where
  "fj_step P (Run w) s = (if w < P then run_step w s else Wait)"
| "fj_step P (Steal w v) s = (if w < P \<and> v < P then try_steal w v s else Wait)"

fun fj_run :: "nat \<Rightarrow> fj_event list \<Rightarrow> 'a fork_join \<Rightarrow> 'a fork_join outcome" where
  "fj_run P [] s = Done s"
| "fj_run P (e # es) s = bind_outcome (fj_step P e s) (fj_run P es)"

text \<open>The actions of a computation.\<close>

fun acts :: "'a comp \<Rightarrow> 'a multiset" where
  "acts Ret = {#}"
| "acts (Do a c) = add_mset a (acts c)"
| "acts (Fork l r k) = acts l + acts r + acts k"

definition finished :: "'a fork_join \<Rightarrow> bool" where
  "finished s \<longleftrightarrow> w_cur (fj_workers s 0) = Some Ret \<and> w_frames (fj_workers s 0) = []"

section \<open>The invariant\<close>

fun frame_acts :: "'a frame \<Rightarrow> 'a multiset" where
  "frame_acts (Left_of j k) = acts k"
| "frame_acts (Right_of k) = acts k"
| "frame_acts (Waiting j k) = acts k"
| "frame_acts (Job j) = {#}"

definition worker_acts :: "(nat \<Rightarrow> 'a comp) \<Rightarrow> 'a worker \<Rightarrow> 'a multiset" where
  "worker_acts body x = (case w_cur x of None \<Rightarrow> {#} | Some c \<Rightarrow> acts c) + sum_list (map frame_acts (w_frames x)) +
     sum_list (map (acts \<circ> body) (w_deque x))"

text \<open>The jobs whose frames run, the jobs waited for, and those that the left branches above the last wait spawned, oldest first.\<close>

fun jobs :: "'a frame list \<Rightarrow> nat list" where
  "jobs [] = []"
| "jobs (Job j # fs) = j # jobs fs"
| "jobs (_ # fs) = jobs fs"

fun awaited :: "'a frame list \<Rightarrow> nat list" where
  "awaited [] = []"
| "awaited (Left_of j k # fs) = j # awaited fs"
| "awaited (Waiting j k # fs) = j # awaited fs"
| "awaited (_ # fs) = awaited fs"

fun pending :: "'a frame list \<Rightarrow> nat list" where
  "pending (Left_of j k # fs) = pending fs @ [j]"
| "pending (Right_of k # fs) = pending fs"
| "pending _ = []"

text \<open>The shape of a stack whose current computation runs; \<open>m\<close> tells whether it is the main worker's.\<close>

fun shape_ok :: "bool \<Rightarrow> 'a frame list \<Rightarrow> bool" where
  "shape_ok m [] = m"
| "shape_ok m (Left_of j k # fs) = shape_ok m fs"
| "shape_ok m (Right_of k # fs) = shape_ok m fs"
| "shape_ok m (Job j # Waiting i k # fs) = shape_ok m fs"
| "shape_ok m (Job j # fs) = (fs = [] \<and> \<not> m)"
| "shape_ok m (Waiting j k # fs) = False"

text \<open>An awaited job is younger than the job in which it is awaited.\<close>

fun ages_ok :: "'a frame list \<Rightarrow> bool" where
  "ages_ok [] = True"
| "ages_ok (Left_of j k # fs) = ((\<forall>e \<in> set (take 1 (jobs fs)). e < j) \<and> ages_ok fs)"
| "ages_ok (Waiting j k # fs) = ((\<forall>e \<in> set (take 1 (jobs fs)). e < j) \<and> ages_ok fs)"
| "ages_ok (_ # fs) = ages_ok fs"

definition worker_ok :: "bool \<Rightarrow> 'a worker \<Rightarrow> bool" where
  "worker_ok m x \<longleftrightarrow> ages_ok (w_frames x) \<and> (\<exists>n. w_deque x = drop n (pending (w_frames x))) \<and>
     (case w_cur x of Some c \<Rightarrow> shape_ok m (w_frames x)
      | None \<Rightarrow> (case w_frames x of [] \<Rightarrow> \<not> m | Waiting j k # fs \<Rightarrow> shape_ok m fs | _ \<Rightarrow> False))"

definition all_workers :: "('a worker \<Rightarrow> 'b multiset) \<Rightarrow> nat \<Rightarrow> 'a fork_join \<Rightarrow> 'b multiset" where
  "all_workers f P s = (\<Sum>w<P. f (fj_workers s w))"

text \<open>A live job is in a deque or runs under a frame of its own.\<close>

definition live :: "nat \<Rightarrow> 'a fork_join \<Rightarrow> nat multiset" where
  "live = all_workers (\<lambda>x. mset (w_deque x) + mset (jobs (w_frames x)))"

definition waits :: "nat \<Rightarrow> 'a fork_join \<Rightarrow> nat multiset" where
  "waits = all_workers (\<lambda>x. mset (awaited (w_frames x)))"

definition total_acts :: "nat \<Rightarrow> 'a fork_join \<Rightarrow> 'a multiset" where
  "total_acts P s = mset (fj_log s) + all_workers (worker_acts (fj_body s)) P s"

definition fj_inv :: "nat \<Rightarrow> 'a comp \<Rightarrow> 'a fork_join \<Rightarrow> bool" where
  "fj_inv P c s \<longleftrightarrow> (\<forall>w<P. worker_ok (w = 0) (fj_workers s w)) \<and> total_acts P s = acts c \<and>
     (\<forall>j. count (live P s) j \<le> 1) \<and> (\<forall>j. count (waits P s) j \<le> 1) \<and>
     set_mset (live P s) \<inter> fj_done s = {} \<and> set_mset (live P s) \<subseteq> set_mset (waits P s) \<and>
     set_mset (waits P s) \<subseteq> set_mset (live P s) \<union> fj_done s \<and>
     (\<forall>j \<in> set_mset (live P s) \<union> fj_done s. j < fj_next s)"

lemma all_workers_set:
  assumes "w < P"
  shows "all_workers f P (set_worker w x s) + f (fj_workers s w) = all_workers f P s + f x"
proof -
  have "(\<Sum>v \<in> {..<P} - {w}. f (((fj_workers s)(w := x)) v)) = (\<Sum>v \<in> {..<P} - {w}. f (fj_workers s v))" by (rule sum.cong) auto
  with assms show ?thesis unfolding all_workers_def set_worker_def
    by (subst (1 2) sum.remove [of "{..<P}" w]) (simp_all add: ac_simps)
qed

lemma all_workers_other [simp]:
  "all_workers f P (s\<lparr>fj_log := a\<rparr>) = all_workers f P s" "all_workers f P (s\<lparr>fj_body := b\<rparr>) = all_workers f P s"
  "all_workers f P (s\<lparr>fj_next := n\<rparr>) = all_workers f P s" "all_workers f P (s\<lparr>fj_done := d\<rparr>) = all_workers f P s"
  by (simp_all add: all_workers_def)

lemma set_worker_fields [simp]:
  "fj_body (set_worker w x s) = fj_body s" "fj_next (set_worker w x s) = fj_next s" "fj_done (set_worker w x s) = fj_done s"
  "fj_log (set_worker w x s) = fj_log s" "fj_workers (set_worker w x s) = (fj_workers s)(w := x)"
  by (simp_all add: set_worker_def)

lemma all_workers_elem: "w < P \<Longrightarrow> x \<in># f (fj_workers s w) \<Longrightarrow> x \<in># all_workers f P s"
  unfolding all_workers_def by (subst sum.remove [of _ w]) auto

lemma all_workers_elemD: "x \<in># all_workers f P s \<Longrightarrow> \<exists>w<P. x \<in># f (fj_workers s w)"
  unfolding all_workers_def by (induction P) (auto simp: less_Suc_eq)

lemma all_workers_set_eq:
  "w < P \<Longrightarrow> f x = f (fj_workers s w) \<Longrightarrow> all_workers f P (set_worker w x s) = all_workers f P s"
  using all_workers_set [of w P f x s] by simp

lemma all_workers_set_more:
  "w < P \<Longrightarrow> f x = f (fj_workers s w) + d \<Longrightarrow> all_workers f P (set_worker w x s) = all_workers f P s + d"
  using all_workers_set [of w P f x s] by (simp add: ac_simps)

lemma all_workers_set_less:
  "w < P \<Longrightarrow> f (fj_workers s w) = f x + d \<Longrightarrow> all_workers f P s = all_workers f P (set_worker w x s) + d"
  using all_workers_set [of w P f x s] by (simp add: ac_simps)

lemma fj_inv_worker: "fj_inv P c s \<Longrightarrow> w < P \<Longrightarrow> worker_ok (w = 0) (fj_workers s w)"
  by (simp add: fj_inv_def)

lemma idle_deque: "worker_ok m x \<Longrightarrow> w_cur x = None \<Longrightarrow> w_deque x = []"
  by (auto simp: worker_ok_def split: list.splits frame.splits)

text \<open>The kinds of steps: a local one, a spawn, the return to a branch that was not stolen, the end of a job, the end of a wait.\<close>

lemma fj_inv_local:
  assumes "fj_inv P c s" "w < P" "worker_ok (w = 0) x"
    and "mset (w_deque x) + mset (jobs (w_frames x)) = mset (w_deque (fj_workers s w)) + mset (jobs (w_frames (fj_workers s w)))"
    and "mset (awaited (w_frames x)) = mset (awaited (w_frames (fj_workers s w)))"
    and "mset a + worker_acts (fj_body s) x = worker_acts (fj_body s) (fj_workers s w)"
  shows "fj_inv P c (set_worker w x (s\<lparr>fj_log := fj_log s @ a\<rparr>))"
proof -
  let ?s = "set_worker w x (s\<lparr>fj_log := fj_log s @ a\<rparr>)"
  have l: "live P ?s = live P s" "waits P ?s = waits P s"
    unfolding live_def waits_def by (subst all_workers_set_eq [OF assms(2)]; use assms(4,5) in simp)+
  have "all_workers (worker_acts (fj_body s)) P s = all_workers (worker_acts (fj_body s)) P ?s + mset a"
    using all_workers_set_less [of w P "worker_acts (fj_body s)" "s\<lparr>fj_log := fj_log s @ a\<rparr>" x "mset a"] assms(2,6) by (simp add: add.commute)
  then have "total_acts P ?s = total_acts P s" by (simp add: total_acts_def ac_simps)
  with assms(1,3) l show ?thesis by (simp add: fj_inv_def)
qed

lemma drop_snoc_ex: "\<exists>m. drop n xs @ [j] = drop m (xs @ [j])"
  by (rule exI [of _ "min n (length xs)"]) (cases "n \<le> length xs"; simp)

lemma live_next: "fj_inv P c s \<Longrightarrow> j \<in># live P s \<Longrightarrow> j < fj_next s"
  by (auto simp: fj_inv_def)

lemma deque_live: "w < P \<Longrightarrow> j \<in> set (w_deque (fj_workers s w)) \<Longrightarrow> j \<in># live P s"
  unfolding live_def by (rule all_workers_elem [of w]) simp_all

lemma jobs_live: "w < P \<Longrightarrow> j \<in> set (jobs (w_frames (fj_workers s w))) \<Longrightarrow> j \<in># live P s"
  unfolding live_def by (rule all_workers_elem [of w]) simp_all

lemma awaited_waits: "w < P \<Longrightarrow> j \<in> set (awaited (w_frames (fj_workers s w))) \<Longrightarrow> j \<in># waits P s"
  unfolding waits_def by (rule all_workers_elem [of w]) simp_all

lemma count_add_new: "\<forall>j. count M j \<le> (1::nat) \<Longrightarrow> x \<notin># M \<Longrightarrow> \<forall>j. count (M + {#x#}) j \<le> 1"
  by (auto simp: not_in_iff)

lemma fj_inv_pardo:
  assumes inv: "fj_inv P c s" and w: "w < P" and cur: "w_cur (fj_workers s w) = Some (Fork l r k)"
    and p: "pardo w l r k s = Done s'"
  shows "fj_inv P c s'"
proof -
  let ?x = "fj_workers s w" and ?j = "fj_next s"
  let ?y = "?x\<lparr>w_cur := Some l, w_frames := Left_of ?j k # w_frames ?x, w_deque := w_deque ?x @ [?j], w_bot := w_bot ?x + 1\<rparr>"
  let ?b = "(fj_body s)(?j := r)" and ?s = "s\<lparr>fj_body := (fj_body s)(?j := r), fj_next := ?j + 1\<rparr>"
  have p: "s' = set_worker w ?y ?s" using p by (simp add: pardo_def Let_def split: if_splits)
  have new: "?j \<notin># live P s" "?j \<notin># waits P s" using inv by (auto simp: fj_inv_def)
  have live: "live P (set_worker w ?y ?s) = live P s + {#?j#}"
    using all_workers_set_more [OF w, of "\<lambda>x. mset (w_deque x) + mset (jobs (w_frames x))" ?y ?s "{#?j#}"] by (simp add: live_def ac_simps)
  have waits: "waits P (set_worker w ?y ?s) = waits P s + {#?j#}"
    using all_workers_set_more [OF w, of "\<lambda>x. mset (awaited (w_frames x))" ?y ?s "{#?j#}"] by (simp add: waits_def ac_simps)
  have body: "worker_acts ?b (fj_workers s v) = worker_acts (fj_body s) (fj_workers s v)" if "v < P" for v
  proof -
    have "?j \<notin> set (w_deque (fj_workers s v))" using deque_live [OF that] new(1) by blast
    then have m: "map (acts \<circ> ?b) (w_deque (fj_workers s v)) = map (acts \<circ> fj_body s) (w_deque (fj_workers s v))" by (auto intro!: map_cong)
    show ?thesis by (simp only: worker_acts_def m)
  qed
  have "all_workers (worker_acts ?b) P (set_worker w ?y ?s) = all_workers (worker_acts ?b) P ?s"
  proof (rule all_workers_set_eq [OF w])
    have "?j \<notin> set (w_deque ?x)" using deque_live [OF w] new(1) by blast
    then have m: "map (acts \<circ> ?b) (w_deque ?x) = map (acts \<circ> fj_body s) (w_deque ?x)" by (auto intro!: map_cong)
    show "worker_acts ?b ?y = worker_acts ?b (fj_workers ?s w)" by (simp add: worker_acts_def cur m ac_simps)
  qed
  also have "\<dots> = all_workers (worker_acts (fj_body s)) P s" using body by (simp add: all_workers_def)
  finally have total_acts: "total_acts P (set_worker w ?y ?s) = total_acts P s" by (simp add: total_acts_def)
  have ok: "worker_ok (w = 0) ?x" by (rule fj_inv_worker [OF inv w])
  have "\<forall>e \<in> set (jobs (w_frames ?x)). e < ?j" using jobs_live [OF w] live_next [OF inv] by blast
  then have "\<forall>e \<in> set (take 1 (jobs (w_frames ?x))). e < ?j" by (meson in_set_takeD)
  with ok drop_snoc_ex have "worker_ok (w = 0) ?y" by (auto simp: worker_ok_def cur)
  with inv have "\<forall>v<P. worker_ok (v = 0) (fj_workers (set_worker w ?y ?s) v)" by (auto simp: fj_inv_def)
  moreover have "\<forall>j. count (live P (set_worker w ?y ?s)) j \<le> 1" "\<forall>j. count (waits P (set_worker w ?y ?s)) j \<le> 1"
    unfolding live waits using inv new by (auto simp: fj_inv_def intro!: count_add_new)
  moreover have "?j \<notin> fj_done s" using inv by (auto simp: fj_inv_def)
  moreover have "fj_next (set_worker w ?y ?s) = fj_next s + 1" "fj_done (set_worker w ?y ?s) = fj_done s" by simp_all
  moreover define z where "z = set_worker w ?y ?s"
  ultimately have "fj_inv P c z" using inv live waits total_acts unfolding fj_inv_def z_def [symmetric] by (simp only:) (auto simp: less_Suc_eq)
  then show ?thesis by (simp only: p z_def)
qed

lemma pending_drop_last: "drop n (pending fs @ [j]) \<noteq> [] \<Longrightarrow> last (drop n (pending fs @ [j])) = j \<and> (\<exists>m. butlast (drop n (pending fs @ [j])) = drop m (pending fs))"
  by (cases "n \<le> length (pending fs)") auto

lemma count_less: "\<forall>j. count M j \<le> (1::nat) \<Longrightarrow> M = N + {#x#} \<Longrightarrow> (\<forall>j. count N j \<le> 1) \<and> x \<notin># N"
proof -
  assume a: "\<forall>j. count M j \<le> 1" and M: "M = N + {#x#}"
  have "count N j \<le> 1" for j using spec [OF a, of j] by (simp add: M split: if_splits)
  moreover have "count N x = 0" using spec [OF a, of x] by (simp add: M)
  ultimately show ?thesis by (simp add: not_in_iff)
qed

lemma fj_inv_join:
  assumes inv: "fj_inv P c s" and w: "w < P" and cur: "w_cur (fj_workers s w) = Some Ret" "w_frames (fj_workers s w) = Left_of j k # fs"
  shows "\<exists>s'. join_own w j k fs s = Done s' \<and> fj_inv P c s'"
proof (cases "w_deque (fj_workers s w) = []")
  case True
  let ?y = "(pop_own (fj_workers s w))\<lparr>w_cur := None, w_frames := Waiting j k # fs\<rparr>"
  have "worker_ok (w = 0) ?y" using fj_inv_worker [OF inv w] by (auto simp: worker_ok_def cur True pop_own_def)
  then have "fj_inv P c (set_worker w ?y (s\<lparr>fj_log := fj_log s @ []\<rparr>))"
    by (intro fj_inv_local [OF inv w]) (simp_all add: worker_acts_def cur True pop_own_def)
  then show ?thesis by (simp add: join_own_def Let_def True)
next
  case False
  let ?x = "fj_workers s w"
  let ?y = "(pop_own ?x)\<lparr>w_cur := Some (fj_body s j), w_frames := Right_of k # fs\<rparr>"
  have ok: "worker_ok (w = 0) ?x" by (rule fj_inv_worker [OF inv w])
  then obtain n where n: "w_deque ?x = drop n (pending fs @ [j])" by (auto simp: worker_ok_def cur)
  with pending_drop_last False have d: "last (w_deque ?x) = j" "\<exists>m. butlast (w_deque ?x) = drop m (pending fs)" by metis+
  then have e: "w_deque ?x = butlast (w_deque ?x) @ [j]" using False by (metis append_butlast_last_id)
  have live: "live P s = live P (set_worker w ?y s) + {#j#}" unfolding live_def
    by (rule all_workers_set_less [OF w]) (subst e, simp add: cur pop_own_def)
  have waits: "waits P s = waits P (set_worker w ?y s) + {#j#}" unfolding waits_def
    by (rule all_workers_set_less [OF w]) (simp add: cur pop_own_def)
  have m: "sum_list (map (acts \<circ> fj_body s) (w_deque ?x)) = sum_list (map (acts \<circ> fj_body s) (butlast (w_deque ?x))) + acts (fj_body s j)"
    by (subst e) simp
  have total_acts: "total_acts P (set_worker w ?y s) = total_acts P s"
    using all_workers_set_eq [OF w, of "worker_acts (fj_body s)" ?y s] by (simp add: total_acts_def worker_acts_def cur m pop_own_def ac_simps)
  have "worker_ok (w = 0) ?y" using ok d(2) by (auto simp: worker_ok_def cur pop_own_def)
  with inv have "\<forall>v<P. worker_ok (v = 0) (fj_workers (set_worker w ?y s) v)" by (auto simp: fj_inv_def)
  moreover have "(\<forall>i. count (live P (set_worker w ?y s)) i \<le> 1) \<and> j \<notin># live P (set_worker w ?y s)"
    by (rule count_less [OF _ live]) (use inv in \<open>simp add: fj_inv_def\<close>)
  moreover have "(\<forall>i. count (waits P (set_worker w ?y s)) i \<le> 1) \<and> j \<notin># waits P (set_worker w ?y s)"
    by (rule count_less [OF _ waits]) (use inv in \<open>simp add: fj_inv_def\<close>)
  ultimately have "fj_inv P c (set_worker w ?y s)"
    using inv unfolding fj_inv_def live waits total_acts by auto
  then show ?thesis using False d(1) by (simp add: join_own_def Let_def)
qed

lemma shape_Job: "shape_ok m (Job j # fs) \<longleftrightarrow> (fs = [] \<and> \<not> m) \<or> (\<exists>i k gs. fs = Waiting i k # gs \<and> shape_ok m gs)"
  by (cases fs rule: list.exhaust [case_product]; cases "hd fs") auto

lemma fj_inv_job_end:
  assumes inv: "fj_inv P c s" and w: "w < P" and cur: "w_cur (fj_workers s w) = Some Ret" "w_frames (fj_workers s w) = Job j # fs"
  shows "fj_inv P c (set_worker w ((fj_workers s w)\<lparr>w_cur := None, w_frames := fs\<rparr>) (s\<lparr>fj_done := insert j (fj_done s)\<rparr>))"
proof -
  let ?x = "fj_workers s w" and ?s = "s\<lparr>fj_done := insert j (fj_done s)\<rparr>"
  let ?y = "?x\<lparr>w_cur := None, w_frames := fs\<rparr>"
  define z where "z = set_worker w ?y ?s"
  have ok: "worker_ok (w = 0) ?x" by (rule fj_inv_worker [OF inv w])
  have live: "live P s = live P z + {#j#}"
    using all_workers_set_less [OF w, of "\<lambda>x. mset (w_deque x) + mset (jobs (w_frames x))" ?s ?y "{#j#}"] by (simp add: live_def cur z_def)
  have waits: "waits P z = waits P s"
    using all_workers_set_eq [OF w, of "\<lambda>x. mset (awaited (w_frames x))" ?y ?s] by (simp add: waits_def cur z_def)
  have total: "total_acts P z = total_acts P s"
    using all_workers_set_eq [OF w, of "worker_acts (fj_body s)" ?y ?s] by (simp add: total_acts_def worker_acts_def cur z_def)
  have "worker_ok (w = 0) ?y" using ok by (auto simp: worker_ok_def cur shape_Job)
  with inv have "\<forall>v<P. worker_ok (v = 0) (fj_workers z v)" by (auto simp: fj_inv_def z_def)
  moreover have "(\<forall>i. count (live P z) i \<le> 1) \<and> j \<notin># live P z"
    by (rule count_less [OF _ live]) (use inv in \<open>simp add: fj_inv_def\<close>)
  moreover have "fj_done z = insert j (fj_done s)" "fj_next z = fj_next s" by (simp_all add: z_def)
  ultimately have "fj_inv P c z" using inv unfolding fj_inv_def live waits total by auto
  then show ?thesis by (simp add: z_def)
qed

lemma fj_inv_wait_end:
  assumes inv: "fj_inv P c s" and w: "w < P" and cur: "w_cur (fj_workers s w) = None" "w_frames (fj_workers s w) = Waiting j k # fs"
    and j: "j \<in> fj_done s"
  shows "fj_inv P c (set_worker w ((fj_workers s w)\<lparr>w_cur := Some k, w_frames := fs\<rparr>) s)"
proof -
  let ?x = "fj_workers s w"
  let ?y = "?x\<lparr>w_cur := Some k, w_frames := fs\<rparr>"
  define z where "z = set_worker w ?y s"
  have ok: "worker_ok (w = 0) ?x" by (rule fj_inv_worker [OF inv w])
  have live: "live P z = live P s"
    using all_workers_set_eq [OF w, of "\<lambda>x. mset (w_deque x) + mset (jobs (w_frames x))" ?y s] by (simp add: live_def cur z_def)
  have waits: "waits P s = waits P z + {#j#}"
    using all_workers_set_less [OF w, of "\<lambda>x. mset (awaited (w_frames x))" s ?y "{#j#}"] by (simp add: waits_def cur z_def)
  have total: "total_acts P z = total_acts P s"
    using all_workers_set_eq [OF w, of "worker_acts (fj_body s)" ?y s] by (simp add: total_acts_def worker_acts_def cur z_def)
  have "worker_ok (w = 0) ?y" using ok by (auto simp: worker_ok_def cur)
  with inv have "\<forall>v<P. worker_ok (v = 0) (fj_workers z v)" by (auto simp: fj_inv_def z_def)
  moreover have "(\<forall>i. count (waits P z) i \<le> 1) \<and> j \<notin># waits P z"
    by (rule count_less [OF _ waits]) (use inv in \<open>simp add: fj_inv_def\<close>)
  moreover have "fj_done z = fj_done s" "fj_next z = fj_next s" by (simp_all add: z_def)
  moreover have "j \<notin># live P s" using inv j by (auto simp: fj_inv_def)
  ultimately have "fj_inv P c z" using inv unfolding fj_inv_def live waits total by auto
  then show ?thesis by (simp add: z_def)
qed

lemma worker_ok_deque: "worker_ok m x \<Longrightarrow> d = drop n (pending (w_frames x)) \<Longrightarrow> worker_ok m (x\<lparr>w_deque := d\<rparr>)"
  unfolding worker_ok_def by (simp cong: option.case_cong list.case_cong) blast

lemma fj_inv_steal:
  assumes inv: "fj_inv P c s" and w: "w < P" "v < P" and st: "try_steal w v s = Done s'"
  shows "fj_inv P c s'"
proof -
  let ?x = "fj_workers s w" and ?y = "fj_workers s v"
  from st have g: "w_cur ?x = None" "w_deque ?x = []" "v \<noteq> w" "w_deque ?y \<noteq> []"
    and s': "s' = start_job w (hd (w_deque ?y)) (set_worker v (?y\<lparr>w_deque := tl (w_deque ?y)\<rparr>) s)"
    by (auto simp: try_steal_def Let_def split: if_splits)
  obtain i ys where d: "w_deque ?y = i # ys" using g(4) by (cases "w_deque ?y") auto
  let ?y' = "?y\<lparr>w_deque := ys\<rparr>" and ?x' = "?x\<lparr>w_cur := Some (fj_body s i), w_frames := Job i # w_frames ?x\<rparr>"
  let ?s1 = "set_worker v ?y' s"
  have s2: "s' = set_worker w ?x' ?s1" using g(3) by (simp add: s' d start_job_def Let_def)
  have okx: "worker_ok (w = 0) ?x" and oky: "worker_ok (v = 0) ?y" using fj_inv_worker [OF inv] w by auto
  have live: "live P s' = live P s"
    using all_workers_set_less [OF w(2), of "\<lambda>x. mset (w_deque x) + mset (jobs (w_frames x))" s ?y' "{#i#}"]
      all_workers_set_more [OF w(1), of "\<lambda>x. mset (w_deque x) + mset (jobs (w_frames x))" ?x' ?s1 "{#i#}"] g(2,3)
    by (simp add: live_def d s2)
  have waits: "waits P s' = waits P s"
    using all_workers_set_eq [OF w(2), of "\<lambda>x. mset (awaited (w_frames x))" ?y' s]
      all_workers_set_eq [OF w(1), of "\<lambda>x. mset (awaited (w_frames x))" ?x' ?s1] g(3) by (simp add: waits_def s2)
  have total: "total_acts P s' = total_acts P s"
    using all_workers_set_less [OF w(2), of "worker_acts (fj_body s)" s ?y' "acts (fj_body s i)"]
      all_workers_set_more [OF w(1), of "worker_acts (fj_body s)" ?x' ?s1 "acts (fj_body s i)"] g
    by (simp add: total_acts_def worker_acts_def d s2 ac_simps)
  obtain n where n: "i # ys = drop n (pending (w_frames ?y))" using oky by (auto simp: worker_ok_def d)
  then have "ys = drop (Suc n) (pending (w_frames ?y))" by (metis drop_Suc list.sel(3) tl_drop)
  then have "worker_ok (v = 0) ?y'" by (rule worker_ok_deque [OF oky])
  moreover have "worker_ok (w = 0) ?x'" using okx g by (auto simp: worker_ok_def shape_Job split: list.splits frame.splits)
  ultimately have "\<forall>u<P. worker_ok (u = 0) (fj_workers s' u)" using inv by (auto simp: fj_inv_def s2)
  moreover have "fj_done s' = fj_done s" "fj_next s' = fj_next s" by (simp_all add: s2)
  ultimately show ?thesis using inv unfolding fj_inv_def live waits total by auto
qed

lemma own_job_none: "fj_inv P c s \<Longrightarrow> w < P \<Longrightarrow> w_cur (fj_workers s w) = None \<Longrightarrow> get_own_job w s = Wait"
  using idle_deque [OF fj_inv_worker] by (simp add: get_own_job_def Let_def)

lemma run_step_ok:
  assumes inv: "fj_inv P c s" and w: "w < P"
  shows "(run_step w s = Crash \<longrightarrow> w_bot (fj_workers s w) = q_size \<and> (\<exists>l r k. w_cur (fj_workers s w) = Some (Fork l r k))) \<and>
    (\<forall>s'. run_step w s = Done s' \<longrightarrow> fj_inv P c s')"
proof -
  let ?x = "fj_workers s w"
  have ok: "worker_ok (w = 0) ?x" by (rule fj_inv_worker [OF inv w])
  show ?thesis
  proof (cases "w_cur ?x")
    case None
    show ?thesis
    proof (cases "w_frames ?x")
      case Nil
      with None own_job_none [OF inv w None] show ?thesis by (simp add: run_step_def Let_def)
    next
      case (Cons f fs)
      with ok None obtain j k where f: "f = Waiting j k" by (auto simp: worker_ok_def split: frame.splits)
      with None Cons own_job_none [OF inv w None] fj_inv_wait_end [OF inv w None, of j k fs] show ?thesis
        by (simp add: run_step_def Let_def)
    qed
  next
    case (Some d)
    show ?thesis
    proof (cases d)
      case (Do a d')
      have "fj_inv P c (set_worker w (?x\<lparr>w_cur := Some d'\<rparr>) (s\<lparr>fj_log := fj_log s @ [a]\<rparr>))"
        by (rule fj_inv_local [OF inv w]) (use ok Some Do in \<open>simp_all add: worker_ok_def worker_acts_def\<close>)
      then show ?thesis by (simp add: run_step_def Let_def Some Do)
    next
      case (Fork l r k)
      with fj_inv_pardo [OF inv w Some [unfolded Fork]] show ?thesis by (auto simp: run_step_def Let_def Some pardo_def)
    next
      case Ret
      note cur = Some [unfolded Ret]
      show ?thesis
      proof (cases "w_frames ?x")
        case Nil
        then show ?thesis by (simp add: run_step_def Let_def cur)
      next
        case (Cons f fs)
        show ?thesis
        proof (cases f)
          case (Left_of j k)
          with fj_inv_join [OF inv w cur, of j k fs] show ?thesis using Cons by (auto simp: run_step_def Let_def cur)
        next
          case (Right_of k)
          have "fj_inv P c (set_worker w (?x\<lparr>w_cur := Some k, w_frames := fs\<rparr>) (s\<lparr>fj_log := fj_log s @ []\<rparr>))"
            by (rule fj_inv_local [OF inv w]) (use ok Cons Right_of in \<open>simp_all add: worker_ok_def worker_acts_def cur\<close>)
          then show ?thesis by (simp add: run_step_def Let_def cur Cons Right_of)
        next
          case (Job j)
          with fj_inv_job_end [OF inv w cur, of j fs] show ?thesis by (simp add: run_step_def Let_def cur Cons)
        next
          case (Waiting j k)
          then show ?thesis by (simp add: run_step_def Let_def cur Cons)
        qed
      qed
    qed
  qed
qed

lemma fj_step_ok:
  assumes "fj_inv P c s"
  shows "(fj_step P e s = Crash \<longrightarrow> (\<exists>w<P. w_bot (fj_workers s w) = q_size \<and> (\<exists>l r k. w_cur (fj_workers s w) = Some (Fork l r k)))) \<and>
    (\<forall>s'. fj_step P e s = Done s' \<longrightarrow> fj_inv P c s')"
proof (cases e)
  case (Run w)
  with run_step_ok [OF assms, of w] show ?thesis by auto
next
  case (Steal w v)
  have "try_steal w v s \<noteq> Crash" by (simp add: try_steal_def Let_def)
  with Steal fj_inv_steal [OF assms, of w v] show ?thesis by simp
qed

lemma fj_run_ok: "fj_inv P c s \<Longrightarrow> \<forall>s'. fj_run P es s = Done s' \<longrightarrow> fj_inv P c s'"
proof (induction es arbitrary: s)
  case (Cons e es)
  then show ?case using fj_step_ok [OF Cons.prems, of e] by (cases "fj_step P e s") auto
qed simp

lemma fj_inv_init: "0 < P \<Longrightarrow> fj_inv P c (make_fork_join c)"
proof -
  assume P: "0 < P"
  have "(\<Sum>w<P. worker_acts (\<lambda>_. Ret) \<lparr>w_cur = (if w = 0 then Some c else None), w_frames = [], w_deque = [], w_bot = 0\<rparr>) = (\<Sum>w<P. if w = 0 then acts c else {#})"
    by (rule sum.cong) (simp_all add: worker_acts_def)
  also have "\<dots> = acts c" using P by (subst sum.delta) auto
  finally have "total_acts P (make_fork_join c) = acts c" by (simp add: total_acts_def all_workers_def make_fork_join_def)
  moreover have "live P (make_fork_join c) = {#}" "waits P (make_fork_join c) = {#}"
    by (simp_all add: live_def waits_def all_workers_def make_fork_join_def)
  ultimately show ?thesis by (auto simp: fj_inv_def worker_ok_def make_fork_join_def)
qed

section \<open>The end of the computation\<close>

lemma shape_jobs: "shape_ok False fs \<Longrightarrow> jobs fs \<noteq> []"
  by (induction "False" fs rule: shape_ok.induct) auto

lemma awaited_older:
  "shape_ok False fs \<Longrightarrow> ages_ok fs \<Longrightarrow> j \<in> set (awaited fs) \<Longrightarrow> \<exists>e \<in> set (jobs fs). e < j"
proof (induction "False" fs rule: shape_ok.induct)
  case (2 i k fs)
  from shape_jobs [of fs] 2 obtain e es where "jobs fs = e # es" by (cases "jobs fs") auto
  with 2 show ?case by auto
next
  case (4 i l k fs)
  from shape_jobs [of fs] 4 obtain e es where "jobs fs = e # es" by (cases "jobs fs") auto
  with 4 show ?case by auto
qed auto

lemma worker_awaited_older:
  assumes "worker_ok False x" "j \<in> set (awaited (w_frames x))"
  shows "\<exists>e \<in> set (jobs (w_frames x)). e < j"
proof (cases "w_cur x")
  case (Some d)
  with assms awaited_older [of "w_frames x" j] show ?thesis by (auto simp: worker_ok_def)
next
  case None
  with assms obtain i k fs where f: "w_frames x = Waiting i k # fs" "shape_ok False fs" "ages_ok (w_frames x)"
    by (auto simp: worker_ok_def split: list.splits frame.splits)
  from shape_jobs [OF f(2)] obtain e es where "jobs fs = e # es" by (cases "jobs fs") auto
  with f awaited_older [OF f(2), of j] assms(2) show ?thesis by auto
qed

lemma finished_no_jobs:
  assumes inv: "fj_inv P c s" and P: "0 < P" and fin: "finished s"
  shows "live P s = {#}"
proof (rule ccontr)
  assume "live P s \<noteq> {#}"
  then have ne: "set_mset (live P s) \<noteq> {}" by simp
  define j where "j = Min (set_mset (live P s))"
  have j: "j \<in># live P s" using Min_in [OF finite_set_mset ne] by (simp add: j_def)
  then have "j \<in># waits P s" using inv by (auto simp: fj_inv_def)
  then obtain w where w: "w < P" "j \<in> set (awaited (w_frames (fj_workers s w)))" by (auto simp: waits_def dest!: all_workers_elemD)
  have "w \<noteq> 0" using fin w(2) by (cases "w = 0") (auto simp: finished_def)
  with fj_inv_worker [OF inv w(1)] worker_awaited_older [OF _ w(2)] obtain e where
    "e \<in> set (jobs (w_frames (fj_workers s w)))" "e < j" by auto
  with jobs_live [OF w(1)] have "e \<in># live P s" by blast
  then have "j \<le> e" by (simp add: j_def)
  with \<open>e < j\<close> show False by simp
qed

lemma finished_log:
  assumes inv: "fj_inv P c s" and P: "0 < P" and fin: "finished s"
  shows "mset (fj_log s) = acts c"
proof -
  have l: "w_deque (fj_workers s w) = []" "jobs (w_frames (fj_workers s w)) = []" if "w < P" for w
  proof -
    have n: "x \<notin> set (w_deque (fj_workers s w)) \<and> x \<notin> set (jobs (w_frames (fj_workers s w)))" for x
      using deque_live [OF that, of x s] jobs_live [OF that, of x s] finished_no_jobs [OF assms] by auto
    show "w_deque (fj_workers s w) = []" using n [of "hd (w_deque (fj_workers s w))"] by (cases "w_deque (fj_workers s w)") auto
    show "jobs (w_frames (fj_workers s w)) = []"
      using n [of "hd (jobs (w_frames (fj_workers s w)))"] by (cases "jobs (w_frames (fj_workers s w))") auto
  qed
  have "worker_acts (fj_body s) (fj_workers s w) = {#}" if "w < P" for w
  proof (cases "w = 0")
    case True
    then show ?thesis using fin l(1) [OF that] by (simp add: worker_acts_def finished_def)
  next
    case False
    then have ok: "worker_ok False (fj_workers s w)" using fj_inv_worker [OF inv that] by simp
    have "\<not> shape_ok False (w_frames (fj_workers s w))" using shape_jobs l(2) [OF that] by blast
    moreover have "\<not> shape_ok False fs" if "w_frames (fj_workers s w) = Waiting j k # fs" for j k fs
      using shape_jobs [of fs] l(2) [OF \<open>w < P\<close>] that by auto
    ultimately have "w_cur (fj_workers s w) = None" "w_frames (fj_workers s w) = []"
      using ok by (auto simp: worker_ok_def split: option.splits list.splits frame.splits)
    then show ?thesis using l(1) [OF that] by (simp add: worker_acts_def)
  qed
  then have "all_workers (worker_acts (fj_body s)) P s = {#}" by (simp add: all_workers_def)
  then show ?thesis using inv by (simp add: fj_inv_def total_acts_def)
qed

section \<open>Progress\<close>

text \<open>
  The times at which the running jobs were started: along a stack they grow, and a running job that is awaited in a
  stack was started after the jobs below the frame that awaits it.
\<close>

fun starts_ok :: "(nat \<Rightarrow> nat) \<Rightarrow> nat set \<Rightarrow> 'a frame list \<Rightarrow> bool" where
  "starts_ok st R [] = True"
| "starts_ok st R (Left_of j k # fs) = ((j \<in> R \<longrightarrow> (\<forall>e \<in> set (jobs fs). st e < st j)) \<and> starts_ok st R fs)"
| "starts_ok st R (Waiting j k # fs) = ((j \<in> R \<longrightarrow> (\<forall>e \<in> set (jobs fs). st e < st j)) \<and> starts_ok st R fs)"
| "starts_ok st R (Job j # fs) = ((\<forall>e \<in> set (jobs fs). st e < st j) \<and> starts_ok st R fs)"
| "starts_ok st R (Right_of k # fs) = starts_ok st R fs"

definition running :: "nat \<Rightarrow> 'a fork_join \<Rightarrow> nat set" where
  "running P s = (\<Union>w<P. set (jobs (w_frames (fj_workers s w))))"

definition times_inv :: "nat \<Rightarrow> 'a fork_join \<Rightarrow> bool" where
  "times_inv P s \<longleftrightarrow> (\<exists>st n. (\<forall>w<P. starts_ok st (running P s) (w_frames (fj_workers s w))) \<and> (\<forall>j \<in> running P s. st j < (n::nat)))"

lemma starts_ok_mono: "starts_ok st R fs \<Longrightarrow> R' \<subseteq> R \<Longrightarrow> starts_ok st R' fs"
  by (induction st R fs rule: starts_ok.induct) auto

lemma starts_ok_start:
  "starts_ok st R fs \<Longrightarrow> i \<notin> set (jobs fs) \<Longrightarrow> i \<notin> R \<Longrightarrow> \<forall>e \<in> set (jobs fs). st e < n \<Longrightarrow> starts_ok (st(i := n)) (insert i R) fs"
  by (induction st R fs rule: starts_ok.induct) auto

lemma running_live: "running P s \<subseteq> set_mset (live P s)"
  using jobs_live by (fastforce simp: running_def)

text \<open>A step that changes one stack to one whose frames and jobs were there before, or are new and not running.\<close>

lemma times_inv_local:
  assumes "times_inv P s" "w < P" "fj_workers s' = (fj_workers s)(w := x)"
    and "\<And>st R. starts_ok st R (w_frames (fj_workers s w)) \<Longrightarrow> R \<subseteq> running P s \<Longrightarrow> starts_ok st R (w_frames x)"
    and "set (jobs (w_frames x)) \<subseteq> set (jobs (w_frames (fj_workers s w)))"
  shows "times_inv P s'"
proof -
  from assms(1) obtain st n where st: "\<forall>v<P. starts_ok st (running P s) (w_frames (fj_workers s v))" "\<forall>j \<in> running P s. st j < (n::nat)"
    by (auto simp: times_inv_def)
  have sub: "running P s' \<subseteq> running P s" using assms(2,3,5) by (fastforce simp: running_def split: if_splits)
  have "starts_ok st (running P s') (w_frames (fj_workers s' v))" if "v < P" for v
  proof (cases "v = w")
    case True
    have "starts_ok st (running P s') (w_frames (fj_workers s w))" using st(1) assms(2) starts_ok_mono [OF _ sub] by blast
    then show ?thesis using assms(4) [OF _ sub] True assms(3) by simp
  next
    case False
    have "starts_ok st (running P s) (w_frames (fj_workers s v))" using st(1) that by blast
    from starts_ok_mono [OF this sub] show ?thesis using False assms(3) by simp
  qed
  then show ?thesis using st(2) sub unfolding times_inv_def by blast
qed

lemma times_inv_run:
  assumes inv: "fj_inv P c s" and t: "times_inv P s" and w: "w < P" and st: "run_step w s = Done s'"
  shows "times_inv P s'"
proof -
  note own = own_job_none [OF inv w]
  have "fj_next s \<notin> running P s" using running_live live_next [OF inv] by blast
  then have new: "R \<subseteq> running P s \<Longrightarrow> fj_next s \<notin> R" for R by blast
  from st show ?thesis unfolding run_step_def Let_def pardo_def join_own_def
    by (auto split: option.splits comp.splits list.splits frame.splits if_splits simp: own pop_own_def
        intro!: times_inv_local [OF t w] dest: new)
qed

lemma times_inv_steal:
  assumes inv: "fj_inv P c s" and t: "times_inv P s" and w: "w < P" "v < P" and st: "try_steal w v s = Done s'"
  shows "times_inv P s'"
proof -
  let ?x = "fj_workers s w" and ?y = "fj_workers s v"
  from st have g: "v \<noteq> w" "w_deque ?y \<noteq> []"
    and s': "s' = start_job w (hd (w_deque ?y)) (set_worker v (?y\<lparr>w_deque := tl (w_deque ?y)\<rparr>) s)"
    by (auto simp: try_steal_def Let_def split: if_splits)
  obtain i ys where d: "w_deque ?y = i # ys" using g(2) by (cases "w_deque ?y") auto
  have fr: "w_frames (fj_workers s' u) = (if u = w then Job i # w_frames ?x else w_frames (fj_workers s u))" for u
    using g(1) by (simp add: s' d start_job_def Let_def)
  have c: "count (live P s) i \<le> 1" using inv by (simp add: fj_inv_def)
  have i: "i \<notin> set (jobs (w_frames (fj_workers s u)))" if "u < P" for u
  proof
    assume iu: "i \<in> set (jobs (w_frames (fj_workers s u)))"
    let ?f = "\<lambda>w. count (mset (w_deque (fj_workers s w)) + mset (jobs (w_frames (fj_workers s w)))) i"
    have fu: "1 \<le> ?f u" using iu by (simp add: Suc_le_eq)
    have fv: "1 \<le> ?f v" by (simp add: d)
    have "2 \<le> (\<Sum>w<P. ?f w)"
    proof (cases "u = v")
      case True
      have "2 \<le> ?f v" using iu True by (simp add: d Suc_le_eq)
      also have "\<dots> \<le> (\<Sum>w<P. ?f w)" by (rule member_le_sum) (use w(2) in simp_all)
      finally show ?thesis .
    next
      case False
      then have "(\<Sum>w \<in> {u, v}. ?f w) = ?f u + ?f v" by simp
      moreover have "(\<Sum>w \<in> {u, v}. ?f w) \<le> (\<Sum>w<P. ?f w)" by (rule sum_mono2) (use that w(2) in auto)
      ultimately show ?thesis using fu fv by linarith
    qed
    then show False using c by (simp add: live_def all_workers_def count_sum)
  qed
  then have iR: "i \<notin> running P s" by (auto simp: running_def)
  have R: "running P s' = insert i (running P s)" using w(1) by (auto simp: running_def fr split: if_splits)
  from t obtain st n where st: "\<forall>u<P. starts_ok st (running P s) (w_frames (fj_workers s u))" "\<forall>j \<in> running P s. st j < (n::nat)"
    by (auto simp: times_inv_def)
  have lt: "\<forall>e \<in> set (jobs (w_frames (fj_workers s u))). st e < n" if "u < P" for u using st(2) that by (auto simp: running_def)
  have "starts_ok (st(i := n)) (running P s') (w_frames (fj_workers s' u))" if "u < P" for u
    using starts_ok_start [OF _ i [OF that] iR lt [OF that]] st(1) that lt [OF that] i [OF that] by (auto simp: R fr)
  moreover have "\<forall>j \<in> running P s'. (st(i := n)) j < n + 1" using st(2) by (auto simp: R less_Suc_eq)
  ultimately show ?thesis unfolding times_inv_def by blast
qed

lemma times_inv_step: "fj_inv P c s \<Longrightarrow> times_inv P s \<Longrightarrow> fj_step P e s = Done s' \<Longrightarrow> times_inv P s'"
  by (cases e) (auto split: if_splits intro: times_inv_run times_inv_steal)

lemma times_inv_init: "times_inv P (make_fork_join c)"
  by (simp add: times_inv_def running_def make_fork_join_def)

lemma times_inv_fj_run: "fj_inv P c s \<Longrightarrow> times_inv P s \<Longrightarrow> fj_run P es s = Done s' \<Longrightarrow> times_inv P s'"
proof (induction es arbitrary: s)
  case (Cons e es)
  then obtain s1 where "fj_step P e s = Done s1" "fj_run P es s1 = Done s'" by auto
  with Cons.IH [of s1] times_inv_step [OF Cons.prems(1,2)] fj_step_ok [OF Cons.prems(1), of e] show ?case by auto
qed simp

text \<open>A worker whose computation has not ended can take a step.\<close>

lemma busy_steps:
  assumes inv: "fj_inv P c s" and w: "w < P" and cur: "w_cur (fj_workers s w) = Some d" and nf: "\<not> finished s"
  shows "run_step w s \<noteq> Wait"
proof (cases d)
  case Ret
  have ok: "shape_ok (w = 0) (w_frames (fj_workers s w))" using fj_inv_worker [OF inv w] by (simp add: worker_ok_def cur)
  show ?thesis
  proof (cases "w_frames (fj_workers s w)")
    case Nil
    then show ?thesis using ok nf cur Ret by (simp add: finished_def)
  next
    case (Cons f fs)
    then show ?thesis using ok fj_inv_join [OF inv w cur [unfolded Ret]]
      by (cases f) (force simp: run_step_def Let_def cur Ret)+
  qed
qed (simp_all add: run_step_def Let_def cur pardo_def)

lemma stuck_finished:
  assumes inv: "fj_inv P c s" and t: "times_inv P s" and P: "0 < P" and stuck: "\<And>e. fj_step P e s = Wait"
  shows "finished s"
proof (rule ccontr)
  assume nf: "\<not> finished s"
  have run: "run_step w s = Wait" if "w < P" for w using stuck [of "Run w"] that by simp
  have idle: "w_cur (fj_workers s w) = None" if "w < P" for w
    using busy_steps [OF inv that _ nf] run [OF that] by (cases "w_cur (fj_workers s w)") auto
  then have dq: "w_deque (fj_workers s w) = []" if "w < P" for w using idle_deque fj_inv_worker [OF inv that] that by blast
  have wt: "w_frames (fj_workers s w) = [] \<and> w \<noteq> 0 \<or> (\<exists>j k fs. w_frames (fj_workers s w) = Waiting j k # fs \<and> j \<in> running P s)" if w: "w < P" for w
  proof (cases "w_frames (fj_workers s w)")
    case Nil
    then show ?thesis using fj_inv_worker [OF inv w] by (simp add: worker_ok_def idle [OF w])
  next
    case (Cons f fs)
    with fj_inv_worker [OF inv w] obtain j k where f: "f = Waiting j k" by (auto simp: worker_ok_def idle [OF w] split: frame.splits)
    have "j \<notin> fj_done s" using run [OF w] by (auto simp: run_step_def Let_def idle [OF w] Cons f split: if_splits)
    moreover have "j \<in># waits P s" by (rule awaited_waits [OF w]) (simp add: Cons f)
    ultimately have "j \<in># live P s" using inv by (auto simp: fj_inv_def)
    then obtain v where v: "v < P" "j \<in> set (jobs (w_frames (fj_workers s v)))" by (auto simp: live_def dq dest!: all_workers_elemD)
    then show ?thesis using Cons f by (auto simp: running_def)
  qed
  from t obtain st where st: "\<And>w. w < P \<Longrightarrow> starts_ok st (running P s) (w_frames (fj_workers s w))" by (auto simp: times_inv_def)
  define rank where "rank w = Max (insert 0 (Suc ` st ` set (jobs (w_frames (fj_workers s w)))))" for w
  define W where "W = {w. w < P \<and> w_frames (fj_workers s w) \<noteq> []}"
  have "0 \<in> W" "finite W" using wt [OF P] P by (auto simp: W_def)
  then obtain w where w: "w \<in> W" "\<And>v. v \<in> W \<Longrightarrow> rank v \<le> rank w"
    using Max_in [of "rank ` W"] Max_ge [of "rank ` W"] by (metis (no_types, lifting) empty_iff finite_imageI image_iff image_is_empty)
  then have "w < P" by (simp add: W_def)
  with wt [OF this] w(1) obtain j k fs where f: "w_frames (fj_workers s w) = Waiting j k # fs" "j \<in> running P s" by (auto simp: W_def)
  with st [OF \<open>w < P\<close>] have lt: "\<forall>e \<in> set (jobs fs). st e < st j" by auto
  then have rw: "rank w \<le> st j" by (auto simp: rank_def f(1) Suc_le_eq)
  from f(2) obtain v where v: "v < P" "j \<in> set (jobs (w_frames (fj_workers s v)))" by (auto simp: running_def)
  then have "v \<in> W" by (auto simp: W_def)
  moreover have "Suc (st j) \<le> rank v" unfolding rank_def by (rule Max_ge) (use v(2) in auto)
  ultimately show False using w(2) [of v] rw by simp
qed

section \<open>The deques do not overflow\<close>

text \<open>How deep the calls of \<open>pardo\<close> are nested: the right branch runs after the job was popped, or on a deque that is empty.\<close>

fun nesting :: "'a comp \<Rightarrow> nat" where
  "nesting Ret = 0"
| "nesting (Do a c) = nesting c"
| "nesting (Fork l r k) = max (max (Suc (nesting l)) (nesting r)) (nesting k)"

fun nested :: "nat \<Rightarrow> (nat \<Rightarrow> 'a comp) \<Rightarrow> 'a frame list \<Rightarrow> bool" where
  "nested D body [] = True"
| "nested D body (Left_of j k # fs) =
     (nesting (body j) + length (pending fs) \<le> D \<and> nesting k + length (pending fs) \<le> D \<and> nested D body fs)"
| "nested D body (Right_of k # fs) = (nesting k + length (pending fs) \<le> D \<and> nested D body fs)"
| "nested D body (Waiting j k # fs) = (nesting k + length (pending fs) \<le> D \<and> nested D body fs)"
| "nested D body (Job j # fs) = nested D body fs"

definition depth_ok :: "nat \<Rightarrow> (nat \<Rightarrow> 'a comp) \<Rightarrow> 'a worker \<Rightarrow> bool" where
  "depth_ok D body x \<longleftrightarrow> nested D body (w_frames x) \<and>
     (case w_cur x of None \<Rightarrow> w_bot x = 0
      | Some c \<Rightarrow> w_bot x \<le> length (pending (w_frames x)) \<and> nesting c + length (pending (w_frames x)) \<le> D)"

definition depth_inv :: "nat \<Rightarrow> nat \<Rightarrow> 'a fork_join \<Rightarrow> bool" where
  "depth_inv D P s \<longleftrightarrow> (\<forall>w<P. depth_ok D (fj_body s) (fj_workers s w)) \<and> (\<forall>j. nesting (fj_body s j) \<le> D)"

lemma depth_inv_init: "nesting c \<le> D \<Longrightarrow> depth_inv D P (make_fork_join c)"
  by (simp add: depth_inv_def depth_ok_def make_fork_join_def)

lemma nested_body: "j \<notin> set (awaited fs) \<Longrightarrow> nested D (b(j := r)) fs = nested D b fs"
  by (induction D b fs rule: nested.induct) auto

lemma depth_set:
  assumes "depth_inv D P s" "fj_body t = fj_body s" "fj_workers t = (fj_workers s)(w := x)" "depth_ok D (fj_body s) x"
  shows "depth_inv D P t"
  using assms by (simp add: depth_inv_def)

lemma depth_run_step:
  assumes inv: "fj_inv P c s" and d: "depth_inv D P s" and w: "w < P" and st: "run_step w s = Done s'"
  shows "depth_inv D P s'"
proof -
  let ?x = "fj_workers s w"
  have ok: "depth_ok D (fj_body s) ?x" using d w by (simp add: depth_inv_def)
  note own = own_job_none [OF inv w] and set = depth_set [OF d, where w = w]
  show ?thesis
  proof (cases "\<exists>l r k. w_cur ?x = Some (Fork l r k)")
    case True
    then obtain l r k where cur: "w_cur ?x = Some (Fork l r k)" by blast
    let ?j = "fj_next s"
    let ?b = "(fj_body s)(?j := r)"
    let ?y = "?x\<lparr>w_cur := Some l, w_frames := Left_of ?j k # w_frames ?x, w_deque := w_deque ?x @ [?j], w_bot := w_bot ?x + 1\<rparr>"
    from st cur have s': "s' = set_worker w ?y (s\<lparr>fj_body := ?b, fj_next := ?j + 1\<rparr>)"
      by (auto simp: run_step_def pardo_def Let_def split: if_splits)
    have "?j \<notin># waits P s" using inv by (auto simp: fj_inv_def)
    then have new: "?j \<notin> set (awaited (w_frames (fj_workers s v)))" if "v < P" for v using awaited_waits [OF that, of ?j s] by blast
    have "depth_ok D ?b (fj_workers s v)" if "v < P" for v
      using d that nested_body [OF new [OF that]] by (simp add: depth_inv_def depth_ok_def)
    moreover have "depth_ok D ?b ?y" using ok cur nested_body [OF new [OF w]] by (auto simp: depth_ok_def)
    moreover have "nesting r \<le> D" using ok cur by (auto simp: depth_ok_def)
    ultimately show ?thesis using d by (simp add: s' depth_inv_def)
  next
    case False
    then show ?thesis using st ok d unfolding run_step_def Let_def join_own_def
      by (auto split: option.splits comp.splits list.splits frame.splits if_splits simp: own pop_own_def depth_ok_def depth_inv_def
          intro!: set)
  qed
qed

lemma depth_step:
  assumes inv: "fj_inv P c s" and d: "depth_inv D P s" and st: "fj_step P e s = Done s'"
  shows "depth_inv D P s'"
proof (cases e)
  case (Run w)
  then show ?thesis using depth_run_step [OF inv d, of w] st by (simp split: if_splits)
next
  case (Steal w v)
  then have vw: "w < P" "v < P" "try_steal w v s = Done s'" using st by (auto split: if_splits)
  let ?x = "fj_workers s w" and ?y = "fj_workers s v"
  obtain x where x: "fj_workers s' = (fj_workers s)(v := ?y\<lparr>w_deque := tl (w_deque ?y)\<rparr>, w := x)" "fj_body s' = fj_body s" "w_cur ?x = None"
    "x = ?x\<lparr>w_cur := Some (fj_body s (hd (w_deque ?y))), w_frames := Job (hd (w_deque ?y)) # w_frames ?x\<rparr>"
    using vw(3) by (auto simp: try_steal_def start_job_def Let_def split: if_splits)
  have ok: "depth_ok D (fj_body s) ?x" "depth_ok D (fj_body s) ?y" "\<forall>j. nesting (fj_body s j) \<le> D" using d vw by (simp_all add: depth_inv_def)
  have "depth_ok D (fj_body s) x" using ok(1,3) x(3,4) by (simp add: depth_ok_def)
  moreover have "depth_ok D (fj_body s) (?y\<lparr>w_deque := tl (w_deque ?y)\<rparr>)" using ok(2) by (cases "w_cur ?y") (simp_all add: depth_ok_def)
  ultimately show ?thesis using d x(1,2) by (simp add: depth_inv_def)
qed

lemma depth_no_crash:
  assumes inv: "fj_inv P c s" and d: "depth_inv q_size P s"
  shows "fj_step P e s \<noteq> Crash"
proof
  assume "fj_step P e s = Crash"
  then obtain w l r k where w: "w < P" "w_bot (fj_workers s w) = q_size" "w_cur (fj_workers s w) = Some (Fork l r k)"
    using fj_step_ok [OF inv, of e] by blast
  then have "depth_ok q_size (fj_body s) (fj_workers s w)" using d by (simp add: depth_inv_def)
  then show False using w(2,3) by (auto simp: depth_ok_def)
qed

lemma depth_run:
  "fj_inv P c s \<Longrightarrow> depth_inv q_size P s \<Longrightarrow> fj_run P es s \<noteq> Crash \<and> (\<forall>s'. fj_run P es s = Done s' \<longrightarrow> depth_inv q_size P s')"
proof (induction es arbitrary: s)
  case (Cons e es)
  show ?case
  proof (cases "fj_step P e s")
    case (Done t)
    then have "fj_inv P c t" "depth_inv q_size P t" using fj_step_ok [OF Cons.prems(1), of e] depth_step [OF Cons.prems Done] by auto
    with Cons.IH Done show ?thesis by simp
  next
    case Crash
    then show ?thesis using depth_no_crash [OF Cons.prems, of e] by simp
  qed simp
qed simp

text \<open>The bound is sharp: left branches nested 1025 deep abort the program, on a single worker and without any theft.\<close>

fun left_nest :: "nat \<Rightarrow> 'a comp" where
  "left_nest 0 = Ret"
| "left_nest (Suc n) = Fork (left_nest n) Ret Ret"

lemma nesting_left_nest: "nesting (left_nest n) = n"
  by (induction n) simp_all

lemma left_nest_run:
  "w_cur (fj_workers s 0) = Some (left_nest (Suc n)) \<Longrightarrow> w_bot (fj_workers s 0) + n = q_size \<Longrightarrow> 0 < P \<Longrightarrow>
    fj_run P (replicate (Suc n) (Run 0)) s = Crash"
proof (induction n arbitrary: s)
  case 0
  then show ?case by (simp add: run_step_def pardo_def)
next
  case (Suc n)
  obtain t where t: "fj_step P (Run 0) s = Done t" "w_cur (fj_workers t 0) = Some (left_nest (Suc n))"
    "w_bot (fj_workers t 0) = Suc (w_bot (fj_workers s 0))"
    using Suc.prems by (simp add: run_step_def pardo_def Let_def)
  then have "fj_run P (replicate (Suc n) (Run 0)) t = Crash" using Suc.IH [of t] Suc.prems by simp
  then show ?case using t(1) by simp
qed

theorem deep_nesting_aborts: "fj_run 1 (replicate 1025 (Run 0)) (make_fork_join (left_nest 1025)) = Crash"
  using left_nest_run [of "make_fork_join (left_nest 1025)" 1024 1] by (simp add: make_fork_join_def q_size_def)

section \<open>Properties\<close>

text \<open>C27. Fork-join runs everything exactly once: whatever the workers steal from each other and in whatever order they step, when the
  computation of the main worker has ended, every action of both branches of every \<open>pardo\<close> has happened exactly once.\<close>

theorem fork_join_complete:
  assumes "0 < P" "fj_run P es (make_fork_join c) = Done s" "finished s"
  shows "mset (fj_log s) = acts c"
  using finished_log [OF _ assms(1,3)] fj_run_ok [OF fj_inv_init [OF assms(1)]] assms(2) by blast

definition sample_comp :: "nat comp" where
  "sample_comp = Fork (Do 1 Ret) (Do 2 Ret) (Do 3 Ret)"

theorem fork_join_complete_witness:
  "\<exists>s. fj_run 2 [Run 0, Steal 1 0, Run 1, Run 0, Run 0, Run 1, Run 0, Run 0] (make_fork_join sample_comp) = Done s \<and>
     fj_log s = [2, 1, 3] \<and> mset (fj_log s) = acts sample_comp"
proof -
  have "\<exists>s. fj_run 2 [Run 0, Steal 1 0, Run 1, Run 0, Run 0, Run 1, Run 0, Run 0] (make_fork_join sample_comp) = Done s \<and>
      finished s \<and> fj_log s = [2, 1, 3]"
    by (simp add: sample_comp_def make_fork_join_def run_step_def pardo_def join_own_def pop_own_def try_steal_def start_job_def set_worker_def finished_def q_size_def Let_def)
  then obtain s where s: "fj_run 2 [Run 0, Steal 1 0, Run 1, Run 0, Run 0, Run 1, Run 0, Run 0] (make_fork_join sample_comp) = Done s"
    "finished s" "fj_log s = [2, 1, 3]" by blast
  with fork_join_complete [OF _ s(1,2)] show ?thesis by auto
qed

text \<open>C28. A computation whose calls of \<open>pardo\<close> are nested at most 1024 deep neither fails nor deadlocks, whatever the workers steal from
  each other: no step of a run crashes, in particular no deque overflows its array of 1024 jobs and no worker pops another job than the one it
  pushed; and a state that can be reached, in which no worker can step and none can steal, is the end of the main worker's computation.\<close>

theorem fork_join_progress:
  assumes "0 < P" "nesting c \<le> 1024"
  shows "fj_run P es (make_fork_join c) \<noteq> Crash \<and>
    (\<forall>s. fj_run P es (make_fork_join c) = Done s \<longrightarrow> (\<exists>e s'. fj_step P e s = Done s') \<or> finished s)"
proof (intro conjI allI impI)
  have d: "nesting c \<le> q_size" using assms(2) by (simp add: q_size_def)
  note init = fj_inv_init [OF assms(1), of c] and deep = depth_inv_init [OF d, of P]
  show "fj_run P es (make_fork_join c) \<noteq> Crash" using depth_run [OF init deep] by blast
  fix s assume r: "fj_run P es (make_fork_join c) = Done s"
  have inv: "fj_inv P c s" using fj_run_ok [OF init] r by blast
  have t: "times_inv P s" by (rule times_inv_fj_run [OF init times_inv_init r])
  have "depth_inv q_size P s" using depth_run [OF init deep] r by blast
  note nc = depth_no_crash [OF inv this]
  show "(\<exists>e s'. fj_step P e s = Done s') \<or> finished s"
  proof (cases "\<exists>e s'. fj_step P e s = Done s'")
    case False
    then have "fj_step P e s = Wait" for e using nc [of e] by (cases "fj_step P e s") auto
    with stuck_finished [OF inv t assms(1)] show ?thesis by blast
  qed simp
qed

theorem fork_join_progress_witness:
  "\<exists>e s'. fj_step 2 e (make_fork_join sample_comp) = Done s'"
proof -
  have "\<not> finished (make_fork_join sample_comp)" by (simp add: finished_def make_fork_join_def sample_comp_def)
  moreover have "nesting sample_comp \<le> 1024" by (simp add: sample_comp_def)
  ultimately show ?thesis using fork_join_progress [of 2 sample_comp "[]"] by simp
qed

end
