(* ===== verification/Parlay_Parallel.thy ===== *)
theory Parlay_Parallel
  imports Parlay_Fork_Join
begin

text \<open>
  The parallel loops (\<^verbatim>\<open>lib/parlay/parallel.h\<close> and \<^verbatim>\<open>parfor\<close> of \<^verbatim>\<open>scheduler.h\<close>) as computations of the fork-join
  scheduler, and the choice of a victim. Indices are natural numbers: \<^verbatim>\<open>size_t\<close> does not wrap for fewer than \<open>2 ^ 60\<close> iterations.
  A loop body is a computation of its own. A loop that may not end has no result.
\<close>

fun then_comp :: "'a comp \<Rightarrow> 'a comp \<Rightarrow> 'a comp" where
  "then_comp Ret k = k"
| "then_comp (Do a c) k = Do a (then_comp c k)"
| "then_comp (Fork l r c) k = Fork l r (then_comp c k)"

lemma acts_then [simp]: "acts (then_comp c k) = acts c + acts k"
  by (induction c) (simp_all add: ac_simps)

definition for_loop :: "(nat \<Rightarrow> 'a comp) \<Rightarrow> nat \<Rightarrow> nat \<Rightarrow> 'a comp" where
  "for_loop f s e = foldr (\<lambda>i. then_comp (f i)) [s..<e] Ret"

text \<open>The actions of the iterations from \<open>s\<close> to \<open>e\<close>.\<close>

definition range_acts :: "(nat \<Rightarrow> 'a comp) \<Rightarrow> nat \<Rightarrow> nat \<Rightarrow> 'a multiset" where
  "range_acts f s e = (\<Sum>i \<in> {s..<e}. acts (f i))"

lemma acts_for_loop [simp]: "acts (for_loop f s e) = range_acts f s e"
proof -
  have "acts (foldr (\<lambda>i. then_comp (f i)) xs Ret) = sum_list (map (acts \<circ> f) xs)" for xs by (induction xs) simp_all
  then show ?thesis by (simp add: for_loop_def range_acts_def interv_sum_list_conv_sum_set_nat comp_def)
qed

lemma range_acts_split: "s \<le> m \<Longrightarrow> m \<le> e \<Longrightarrow> range_acts f s m + range_acts f m e = range_acts f s e"
  unfolding range_acts_def by (rule sum.atLeastLessThan_concat)

lemma range_acts_empty [simp]: "e \<le> s \<Longrightarrow> range_acts f s e = {#}"
  by (simp add: range_acts_def)

section \<open>The loops\<close>

partial_function (option) parfor_rec :: "(nat \<Rightarrow> 'a comp) \<Rightarrow> nat \<Rightarrow> nat \<Rightarrow> nat \<Rightarrow> 'a comp option" where
  "parfor_rec f s e granularity =
     (if e - s \<le> granularity then Some (for_loop f s e)
      else let n = e - s; mid = s + 9 * (n + 1) div 16
           in Option.bind (parfor_rec f s mid granularity) (\<lambda>l.
              Option.bind (parfor_rec f mid e granularity) (\<lambda>r. Some (Fork l r Ret))))"

text \<open>
  The batches that measure the work of an iteration: \<open>ticks k\<close> is the time the \<open>k\<close>-th batch took. The result is the number of
  iterations done, and the computation that does them.
\<close>

partial_function (option) granularity_loop ::
  "(nat \<Rightarrow> nat) \<Rightarrow> (nat \<Rightarrow> 'a comp) \<Rightarrow> nat \<Rightarrow> nat \<Rightarrow> nat \<Rightarrow> nat \<Rightarrow> nat \<Rightarrow> (nat \<times> 'a comp) option" where
  "granularity_loop ticks f s e k done sz =
     (let sz = min sz (e - (s + done)); c = for_loop f (s + done) (s + done + sz); done = done + sz
      in if ticks k < 1000 \<and> done < e - s
         then Option.bind (granularity_loop ticks f s e (k + 1) done (sz * 2)) (\<lambda>y. Some (fst y, then_comp c (snd y)))
         else Some (done, c))"

definition get_granularity :: "(nat \<Rightarrow> nat) \<Rightarrow> (nat \<Rightarrow> 'a comp) \<Rightarrow> nat \<Rightarrow> nat \<Rightarrow> (nat \<times> 'a comp) option" where
  "get_granularity ticks f s e = granularity_loop ticks f s e 0 0 1"

definition parfor :: "(nat \<Rightarrow> nat) \<Rightarrow> nat \<Rightarrow> nat \<Rightarrow> nat \<Rightarrow> (nat \<Rightarrow> 'a comp) \<Rightarrow> nat \<Rightarrow> 'a comp option" where
  "parfor ticks num_threads s e f granularity =
     (if e \<le> s then Some Ret
      else if granularity = 0 then
        Option.bind (get_granularity ticks f s e) (\<lambda>(d, c).
          map_option (then_comp c) (parfor_rec f (s + d) e (max d ((e - s) div (128 * num_threads)))))
      else parfor_rec f s e granularity)"

definition parallel_for :: "(nat \<Rightarrow> nat) \<Rightarrow> nat \<Rightarrow> nat \<Rightarrow> nat \<Rightarrow> (nat \<Rightarrow> 'a comp) \<Rightarrow> nat \<Rightarrow> 'a comp option" where
  "parallel_for ticks num_threads s e f granularity =
     (if s + 1 = e then Some (f s)
      else if e - s \<le> granularity then Some (for_loop f s e)
      else if e > s then parfor ticks num_threads s e f granularity
      else Some Ret)"

definition blocked_for ::
  "(nat \<Rightarrow> nat) \<Rightarrow> nat \<Rightarrow> nat \<Rightarrow> nat \<Rightarrow> nat \<Rightarrow> (nat \<Rightarrow> nat \<Rightarrow> nat \<Rightarrow> 'a comp) \<Rightarrow> 'a comp option" where
  "blocked_for ticks num_threads s e block_size f =
     (if s < e then
        let n_blocks = (e - s + block_size - 1) div block_size
        in parallel_for ticks num_threads 0 n_blocks
             (\<lambda>i. let a = s + i * block_size; b = min (a + block_size) e in f i a b) 0
      else Some Ret)"

section \<open>Branches\<close>

definition par_do :: "'a comp \<Rightarrow> 'a comp \<Rightarrow> 'a comp" where
  "par_do left right = Fork left right Ret"

definition par_do_if :: "bool \<Rightarrow> 'a comp \<Rightarrow> 'a comp \<Rightarrow> 'a comp" where
  "par_do_if do_parallel left right = (if do_parallel then par_do left right else then_comp left right)"

definition par_do3 :: "'a comp \<Rightarrow> 'a comp \<Rightarrow> 'a comp \<Rightarrow> 'a comp" where
  "par_do3 left mid right = par_do (par_do left mid) right"

definition par_do3_if :: "bool \<Rightarrow> 'a comp \<Rightarrow> 'a comp \<Rightarrow> 'a comp \<Rightarrow> 'a comp" where
  "par_do3_if do_parallel left mid right =
     (if do_parallel then par_do3 left mid right else then_comp left (then_comp mid right))"

section \<open>The choice of a victim\<close>

definition sched_hash :: "u64 \<Rightarrow> u64" where
  "sched_hash x =
     (let x = (x XOR drop_bit 30 x) * 0xbf58476d1ce4e5b9; x = (x XOR drop_bit 27 x) * 0x94d049bb133111eb
      in x XOR drop_bit 31 x)"

text \<open>The loop ends when the hashed seed names another worker; the seed is kept.\<close>

partial_function (option) steal_target :: "nat \<Rightarrow> nat \<Rightarrow> u64 \<Rightarrow> (nat \<times> u64) option" where
  "steal_target num_deques wid seed =
     (let seed = sched_hash seed; target = unat seed mod num_deques
      in if target = wid then steal_target num_deques wid seed else Some (target, seed))"

section \<open>What the loops do\<close>

lemma parfor_rec_split:
  "\<not> e - s \<le> g \<Longrightarrow> m = s + 9 * (e - s + 1) div 16 \<Longrightarrow>
   parfor_rec f s e g = Option.bind (parfor_rec f s m g) (\<lambda>l. Option.bind (parfor_rec f m e g) (\<lambda>r. Some (Fork l r Ret)))"
  by (subst parfor_rec.simps) (simp add: Let_def)

lemma parfor_rec_acts:
  "0 < g \<Longrightarrow> s \<le> e \<Longrightarrow> \<exists>c. parfor_rec f s e g = Some c \<and> acts c = range_acts f s e"
proof (induction "e - s" arbitrary: s e rule: less_induct)
  case less
  show ?case
  proof (cases "e - s \<le> g")
    case True
    then show ?thesis by (subst parfor_rec.simps) simp
  next
    case False
    define m where "m = s + 9 * (e - s + 1) div 16"
    have m: "s < m" "m < e" using False less.prems by (auto simp: m_def)
    then have "m - s < e - s" "e - m < e - s" "s \<le> m" "m \<le> e" by auto
    with less.hyps [of m s] less.hyps [of e m] less.prems(1) obtain l r where
      "parfor_rec f s m g = Some l" "acts l = range_acts f s m" "parfor_rec f m e g = Some r" "acts r = range_acts f m e" by blast
    then show ?thesis using m range_acts_split [of s m e f] by (simp add: parfor_rec_split [OF False m_def])
  qed
qed

lemma granularity_loop_acts:
  "0 < sz \<Longrightarrow> s + d < e \<Longrightarrow>
   \<exists>d' c. granularity_loop ticks f s e k d sz = Some (d', c) \<and> d < d' \<and> s + d' \<le> e \<and> acts c = range_acts f (s + d) (s + d')"
proof (induction "e - (s + d)" arbitrary: d k sz rule: less_induct)
  case less
  define z where "z = min sz (e - (s + d))"
  have z: "0 < z" "s + d + z \<le> e" using less.prems by (auto simp: z_def)
  show ?case
  proof (cases "ticks k < 1000 \<and> d + z < e - s")
    case True
    then have "\<exists>d' c. granularity_loop ticks f s e (k + 1) (d + z) (z * 2) = Some (d', c) \<and> d + z < d' \<and> s + d' \<le> e \<and>
        acts c = range_acts f (s + (d + z)) (s + d')"
      using z less.prems by (intro less.hyps) auto
    then obtain d' c where r: "granularity_loop ticks f s e (k + 1) (d + z) (z * 2) = Some (d', c)" "d + z < d'" "s + d' \<le> e"
      "acts c = range_acts f (s + (d + z)) (s + d')" by blast
    then show ?thesis using True range_acts_split [of "s + d" "s + (d + z)" "s + d'" f]
      by (subst granularity_loop.simps) (simp add: Let_def z_def [symmetric] add.assoc)
  next
    case False
    then show ?thesis using z by (subst granularity_loop.simps) (auto simp: Let_def z_def [symmetric] add.assoc)
  qed
qed

lemma parfor_acts: "\<exists>c. parfor ticks P s e f g = Some c \<and> acts c = range_acts f s e"
proof (cases "s < e \<and> g = 0")
  case True
  from granularity_loop_acts [of 1 s 0 e ticks f 0] True obtain d c where
    d: "get_granularity ticks f s e = Some (d, c)" "0 < d" "s + d \<le> e" "acts c = range_acts f s (s + d)"
    by (auto simp: get_granularity_def)
  have "0 < max d ((e - s) div (128 * P))" using d(2) by (simp add: less_max_iff_disj)
  from parfor_rec_acts [OF this d(3), of f] obtain c' where
    "parfor_rec f (s + d) e (max d ((e - s) div (128 * P))) = Some c'" "acts c' = range_acts f (s + d) e" by auto
  with d True range_acts_split [of s "s + d" e f] show ?thesis by (simp add: parfor_def)
next
  case False
  then show ?thesis using parfor_rec_acts [of g s e f] by (auto simp: parfor_def)
qed

lemma range_acts_one: "range_acts f s (Suc s) = acts (f s)"
  by (simp add: range_acts_def)

lemma parallel_for_acts: "\<exists>c. parallel_for ticks P s e f g = Some c \<and> acts c = range_acts f s e"
  using parfor_acts [of ticks P s e f g] by (auto simp: parallel_for_def range_acts_one)

section \<open>Properties\<close>

text \<open>C33. A parallel loop runs each iteration exactly once: for any granularity and any timing, \<open>parallel_for\<close> is a computation, and when
  the scheduler has finished it, the actions that happened are those of the iterations from the start, included, to the end,
  excluded, in some order.\<close>

theorem parallel_for_once:
  assumes "0 < P"
  shows "\<exists>c. parallel_for ticks P s e f g = Some c \<and>
    (\<forall>es t. fj_run P es (make_fork_join c) = Done t \<and> finished t \<longrightarrow> mset (fj_log t) = range_acts f s e)"
proof -
  from parallel_for_acts obtain c where c: "parallel_for ticks P s e f g = Some c" "acts c = range_acts f s e" by blast
  have "mset (fj_log t) = acts c" if "fj_run P es (make_fork_join c) = Done t" "finished t" for es t
    using finished_log [OF _ assms that(2)] fj_run_ok [OF fj_inv_init [OF assms]] that(1) by blast
  with c show ?thesis by auto
qed

theorem parallel_for_once_witness:
  "\<exists>c. parallel_for (\<lambda>_. 0) 2 3 9 (\<lambda>i. Do i Ret) 2 = Some c"
  using parallel_for_once [of 2 "\<lambda>_. 0" 3 9 "\<lambda>i. Do i Ret" 2] by auto

end
