(* ===== verification/Parlay_Sequence.thy ===== *)
theory Parlay_Sequence
  imports Prelude "HOL-Library.Multiset"
begin

text \<open>
  Reductions, scans, packs and stable splits (\<^verbatim>\<open>lib/parlay/internal/sequence_ops.h\<close>) over the monoids of
  \<^verbatim>\<open>lib/parlay/monoid.h\<close>. A range is a list. An uninitialised buffer is a list of empty slots, a write outside it has no
  result, and a buffer becomes a sequence only when every slot is filled. The body of a parallel loop is the list of the writes it
  makes; the loop is all of them, in block order, and \<open>apply_writes_perm\<close> shows that the order does not matter. \<^verbatim>\<open>size_t\<close> values that
  count elements are natural numbers.
\<close>

section \<open>Buffers\<close>

fun apply_writes :: "(nat \<times> 'a) list \<Rightarrow> 'a option list \<Rightarrow> 'a option list option" where
  "apply_writes [] buf = Some buf"
| "apply_writes ((i, x) # ws) buf = (if i < length buf then apply_writes ws (buf[i := Some x]) else None)"

definition uninitialized :: "nat \<Rightarrow> 'a option list" where
  "uninitialized n = replicate n None"

definition build_seq :: "nat \<Rightarrow> (nat \<times> 'a) list \<Rightarrow> 'a list option" where
  "build_seq n ws = Option.bind (apply_writes ws (uninitialized n)) those"

definition cut :: "nat \<Rightarrow> nat \<Rightarrow> 'a list \<Rightarrow> 'a list" where
  "cut s e xs = take (e - s) (drop s xs)"

lemma length_cut [simp]: "length (cut s e xs) = min (e - s) (length xs - s)"
  by (simp add: cut_def min.commute)

lemma cut_all [simp]: "length xs \<le> n \<Longrightarrow> cut 0 n xs = xs"
  by (simp add: cut_def)

lemma cut_map [simp]: "cut s e (map f xs) = map f (cut s e xs)"
  by (simp add: cut_def take_map drop_map)

lemma cut_zip [simp]: "cut s e (zip xs ys) = zip (cut s e xs) (cut s e ys)"
  by (simp add: cut_def take_zip drop_zip)

lemma apply_writes_append: "apply_writes (ws @ ws') buf = Option.bind (apply_writes ws buf) (apply_writes ws')"
  by (induction ws buf rule: apply_writes.induct) simp_all

lemma apply_writes_some:
  "fst ` set ws \<subseteq> {..<length buf} \<Longrightarrow> distinct (map fst ws) \<Longrightarrow>
    \<exists>buf'. apply_writes ws buf = Some buf' \<and> length buf' = length buf \<and>
      (\<forall>i x. (i, x) \<in> set ws \<longrightarrow> buf' ! i = Some x) \<and> (\<forall>i. i \<notin> fst ` set ws \<longrightarrow> buf' ! i = buf ! i)"
proof (induction ws arbitrary: buf)
  case (Cons w ws)
  obtain i x where w: "w = (i, x)" by force
  have "fst ` set ws \<subseteq> {..<length (buf[i := Some x])}" using Cons.prems by auto
  then obtain buf' where b: "apply_writes ws (buf[i := Some x]) = Some buf'" "length buf' = length buf"
      "\<forall>i x. (i, x) \<in> set ws \<longrightarrow> buf' ! i = Some x" "\<forall>j. j \<notin> fst ` set ws \<longrightarrow> buf' ! j = buf[i := Some x] ! j"
    using Cons.IH [of "buf[i := Some x]"] Cons.prems(2) by auto
  have "i \<notin> fst ` set ws" using Cons.prems(2) w by (auto simp: image_iff)
  moreover have "i < length buf" using Cons.prems(1) w by simp
  ultimately show ?case using b w by (auto simp: nth_list_update)
qed simp

lemma those_map_Some [simp]: "those (map Some xs) = Some xs"
  by (induction xs) simp_all

lemma those_eq_Some: "those ys = Some xs \<longleftrightarrow> ys = map Some xs"
proof (induction ys arbitrary: xs)
  case (Cons y ys)
  then show ?case by (cases xs) (auto split: option.splits)
qed auto

text \<open>Writes that fill each slot once, in whatever order they happen.\<close>

lemma build_seq_perm:
  assumes "mset ws = mset (zip [0..<length xs] xs)"
  shows "build_seq (length xs) ws = Some xs"
proof -
  have "mset (map fst ws) = mset (map fst (zip [0..<length xs] xs))" using assms by (simp only: mset_map)
  then have "mset (map fst ws) = mset [0..<length xs]" by simp
  then have d: "distinct (map fst ws)" by (metis distinct_upt mset_eq_imp_distinct_iff)
  have s: "set ws = set (zip [0..<length xs] xs)" using assms by (rule mset_eq_setD)
  have dom: "fst ` set ws = {..<length xs}" unfolding s by (simp flip: set_map add: map_fst_zip atLeast0LessThan)
  obtain buf where b: "apply_writes ws (uninitialized (length xs)) = Some buf" "length buf = length xs"
      "\<forall>i x. (i, x) \<in> set ws \<longrightarrow> buf ! i = Some x"
    using apply_writes_some [of ws "uninitialized (length xs)"] d dom by (auto simp: uninitialized_def)
  have "(i, xs ! i) \<in> set ws" if "i < length xs" for i using that by (auto simp: s set_zip intro!: exI [of _ i])
  then have "buf = map Some xs" using b(2,3) by (intro nth_equalityI) simp_all
  with b(1) show ?thesis by (simp add: build_seq_def)
qed

lemma build_seq_zip [simp]: "n = length xs \<Longrightarrow> build_seq n (zip [0..<n] xs) = Some xs"
  by (simp add: build_seq_perm)

lemma apply_writes_perm:
  assumes "mset ws = mset ws'" "distinct (map fst ws)"
  shows "apply_writes ws buf = apply_writes ws' buf"
proof (cases "fst ` set ws \<subseteq> {..<length buf}")
  case True
  have s: "set ws' = set ws" using mset_eq_setD [OF assms(1)] by simp
  have d: "distinct (map fst ws')" using assms by (metis mset_eq_imp_distinct_iff mset_map)
  obtain b where b: "apply_writes ws buf = Some b" "length b = length buf"
      "\<forall>i x. (i, x) \<in> set ws \<longrightarrow> b ! i = Some x" "\<forall>i. i \<notin> fst ` set ws \<longrightarrow> b ! i = buf ! i"
    using apply_writes_some [OF True assms(2)] by auto
  obtain c where c: "apply_writes ws' buf = Some c" "length c = length buf"
      "\<forall>i x. (i, x) \<in> set ws \<longrightarrow> c ! i = Some x" "\<forall>i. i \<notin> fst ` set ws \<longrightarrow> c ! i = buf ! i"
    using apply_writes_some [of ws' buf] True d unfolding s by auto
  have "b = c"
  proof (rule nth_equalityI)
    fix i assume "i < length b"
    show "b ! i = c ! i" using b(3,4) c(3,4) by (cases "i \<in> fst ` set ws") force+
  qed (simp add: b(2) c(2))
  with b c show ?thesis by simp
next
  case False
  have "apply_writes vs buf = None" if "\<not> fst ` set vs \<subseteq> {..<length buf}" for vs :: "(nat \<times> 'a) list"
    using that by (induction vs buf rule: apply_writes.induct) auto
  with False mset_eq_setD [OF assms(1)] show ?thesis by metis
qed

section \<open>Blocks\<close>

definition num_blocks :: "nat \<Rightarrow> nat \<Rightarrow> nat" where
  "num_blocks n block_size = (if n = 0 then 0 else 1 + (n - 1) div block_size)"

definition block_size :: nat where "block_size = 1024"

definition sliced_for :: "nat \<Rightarrow> nat \<Rightarrow> (nat \<Rightarrow> nat \<Rightarrow> nat \<Rightarrow> 'b) \<Rightarrow> 'b list" where
  "sliced_for n b f = map (\<lambda>i. let s = i * b; e = min (s + b) n in f i s e) [0..<num_blocks n b]"

lemma length_sliced_for [simp]: "length (sliced_for n b f) = num_blocks n b"
  by (simp add: sliced_for_def)

lemma nth_sliced_for: "i < num_blocks n b \<Longrightarrow> sliced_for n b f ! i = f i (i * b) (min (i * b + b) n)"
  by (simp add: sliced_for_def Let_def)

lemma map_sliced_for: "map g (sliced_for n b f) = sliced_for n b (\<lambda>i s e. g (f i s e))"
  by (simp add: sliced_for_def Let_def)

lemma num_blocks_bounds: "i < num_blocks n b \<Longrightarrow> i * b < n"
proof (cases n)
  case (Suc k)
  assume "i < num_blocks n b"
  then have "i \<le> k div b" by (simp add: num_blocks_def Suc)
  then have "i * b \<le> k" by (meson div_times_less_eq_dividend le_trans mult_le_mono1)
  then show ?thesis by (simp add: Suc)
qed (simp add: num_blocks_def)

lemma num_blocks_cover: "0 < b \<Longrightarrow> n \<le> num_blocks n b * b"
proof (cases n)
  case (Suc k)
  assume "0 < b"
  then have "k < (k div b + 1) * b" using dividend_less_div_times [of b k] by (simp add: add.commute)
  then show ?thesis by (simp add: num_blocks_def Suc)
qed simp

lemma take_cut: "s \<le> e \<Longrightarrow> take s xs @ cut s e xs = take e xs"
  unfolding cut_def by (metis le_add_diff_inverse take_add)

lemma concat_blocks_prefix:
  assumes "0 < b" "n = length xs" "k \<le> num_blocks n b"
  shows "concat (map (\<lambda>i. cut (i * b) (min (i * b + b) n) xs) [0..<k]) = take (k * b) xs"
  using assms(3)
proof (induction k)
  case (Suc k)
  have "cut (k * b) (min (k * b + b) n) xs = cut (k * b) (k * b + b) xs" by (auto simp: cut_def assms(2) min_def)
  then show ?case using Suc by (simp add: take_cut add.commute)
qed simp

lemma concat_blocks:
  assumes "0 < b" "n = length xs"
  shows "concat (sliced_for n b (\<lambda>i s e. cut s e xs)) = xs"
  using concat_blocks_prefix [OF assms order.refl] num_blocks_cover [of b n] assms by (simp add: sliced_for_def Let_def)

lemma take_blocks:
  assumes "0 < b" "n = length xs"
  shows "concat (take i (sliced_for n b (\<lambda>i s e. cut s e xs))) = take (i * b) xs"
proof (cases "i \<le> num_blocks n b")
  case True
  then show ?thesis using concat_blocks_prefix [OF assms True] by (simp add: sliced_for_def Let_def take_map)
next
  case False
  then have "n \<le> i * b" using num_blocks_cover [OF assms(1), of n] by (meson le_trans mult_le_mono1 nle_le)
  then show ?thesis using concat_blocks [OF assms] assms False by simp
qed

lemma sliced_for_map_cut: "0 < b \<Longrightarrow> n = length xs \<Longrightarrow> concat (sliced_for n b (\<lambda>i s e. map f (cut s e xs))) = map f xs"
  using concat_blocks [of b n "map f xs"] by simp

section \<open>Monoids\<close>

record 'a monoid =
  m_identity :: 'a
  m_op :: "'a \<Rightarrow> 'a \<Rightarrow> 'a"

definition plus_m :: "'a::{zero, plus} monoid" where
  "plus_m = \<lparr>m_identity = 0, m_op = (+)\<rparr>"

definition multiplies_m :: "'a::{one, times} monoid" where
  "multiplies_m = \<lparr>m_identity = 1, m_op = (*)\<rparr>"

definition logical_and_m :: "bool monoid" where
  "logical_and_m = \<lparr>m_identity = True, m_op = (\<and>)\<rparr>"

definition logical_or_m :: "bool monoid" where
  "logical_or_m = \<lparr>m_identity = False, m_op = (\<or>)\<rparr>"

definition bit_or_m :: "'a::len word monoid" where
  "bit_or_m = \<lparr>m_identity = 0, m_op = (OR)\<rparr>"

definition bit_xor_m :: "'a::len word monoid" where
  "bit_xor_m = \<lparr>m_identity = 0, m_op = (XOR)\<rparr>"

definition bit_and_m :: "'a::len word monoid" where
  "bit_and_m = \<lparr>m_identity = NOT 0, m_op = (AND)\<rparr>"

text \<open>The extrema, for unsigned types: the lowest value is 0, the greatest is all ones.\<close>

definition maximum_m :: "'a::len word monoid" where
  "maximum_m = \<lparr>m_identity = 0, m_op = max\<rparr>"

definition minimum_m :: "'a::len word monoid" where
  "minimum_m = \<lparr>m_identity = - 1, m_op = min\<rparr>"

definition binary_op :: "('a \<Rightarrow> 'a \<Rightarrow> 'a) \<Rightarrow> 'a \<Rightarrow> 'a monoid" where
  "binary_op f e = \<lparr>m_identity = e, m_op = f\<rparr>"

definition pair_monoid :: "'a monoid \<Rightarrow> 'b monoid \<Rightarrow> ('a \<times> 'b) monoid" where
  "pair_monoid m1 m2 =
     binary_op (\<lambda>a b. (m_op m1 (fst a) (fst b), m_op m2 (snd a) (snd b))) (m_identity m1, m_identity m2)"

text \<open>An array of \<open>n\<close> elements is a list of that length.\<close>

definition array_monoid :: "nat \<Rightarrow> 'a monoid \<Rightarrow> 'a list monoid" where
  "array_monoid n m =
     binary_op (\<lambda>a b. map (\<lambda>i. m_op m (a ! i) (b ! i)) [0..<n]) (map (\<lambda>i. m_identity m) [0..<n])"

definition minmaxm :: "('a::len word \<times> 'a word) monoid" where
  "minmaxm = binary_op (\<lambda>a b. (min (fst a) (fst b), max (snd a) (snd b))) (- 1, 0)"

text \<open>What the algorithms rely on, for the values of a set closed under the operation.\<close>

locale monoid_on =
  fixes m :: "'a monoid" and A :: "'a set"
  assumes identity_in: "m_identity m \<in> A"
    and closed: "x \<in> A \<Longrightarrow> y \<in> A \<Longrightarrow> m_op m x y \<in> A"
    and assoc: "x \<in> A \<Longrightarrow> y \<in> A \<Longrightarrow> z \<in> A \<Longrightarrow> m_op m (m_op m x y) z = m_op m x (m_op m y z)"
    and left_identity: "x \<in> A \<Longrightarrow> m_op m (m_identity m) x = x"
    and right_identity: "x \<in> A \<Longrightarrow> m_op m x (m_identity m) = x"

definition total :: "'a monoid \<Rightarrow> 'a list \<Rightarrow> 'a" where
  "total m xs = foldl (m_op m) (m_identity m) xs"

section \<open>Reduce and scan\<close>

definition reduce_serial :: "'a monoid \<Rightarrow> 'a list \<Rightarrow> 'a" where
  "reduce_serial m A = (case A of [] \<Rightarrow> m_identity m | a # as \<Rightarrow> foldl (m_op m) a as)"

text \<open>\<open>csqrt n\<close> stands for the rounded-up floating-point square root of \<open>n\<close>, which only picks the block size.\<close>

function reduce :: "(nat \<Rightarrow> nat) \<Rightarrow> bool \<Rightarrow> 'a monoid \<Rightarrow> 'a list \<Rightarrow> 'a" where
  "reduce csqrt fl_sequential m A =
     (let n = length A; b = max block_size (4 * csqrt n); l = num_blocks n b
      in if l = 0 then m_identity m
         else if l = 1 \<or> fl_sequential then reduce_serial m A
         else reduce csqrt False m (sliced_for n b (\<lambda>i s e. reduce_serial m (cut s e A))))"
  by pat_completeness auto

lemma num_blocks_less: "2 \<le> b \<Longrightarrow> 2 \<le> num_blocks n b \<Longrightarrow> num_blocks n b < n"
proof (cases n)
  case (Suc k)
  assume b: "2 \<le> b" and n: "2 \<le> num_blocks n b"
  then have "1 \<le> k div b" by (simp add: num_blocks_def Suc)
  then have "0 < k" by (metis bot_nat_0.not_eq_extremum div_0 not_one_le_zero)
  then have "k div b < k" using b by (intro div_less_dividend) simp_all
  then show ?thesis by (simp add: num_blocks_def Suc)
qed (simp add: num_blocks_def)

termination reduce
  by (relation "measure (\<lambda>(c, f, m, A). length A)") (auto simp: block_size_def intro!: num_blocks_less)

declare reduce.simps [simp del]

fun scan_serial_inclusive :: "'a monoid \<Rightarrow> 'a \<Rightarrow> 'a list \<Rightarrow> 'a list \<times> 'a" where
  "scan_serial_inclusive m r [] = ([], r)"
| "scan_serial_inclusive m r (x # xs) =
     (let r = m_op m r x; (out, t) = scan_serial_inclusive m r xs in (r # out, t))"

fun scan_serial_exclusive :: "'a monoid \<Rightarrow> 'a \<Rightarrow> 'a list \<Rightarrow> 'a list \<times> 'a" where
  "scan_serial_exclusive m r [] = ([], r)"
| "scan_serial_exclusive m r (x # xs) =
     (let (out, t) = scan_serial_exclusive m (m_op m r x) xs in (r # out, t))"

definition scan_serial :: "'a monoid \<Rightarrow> 'a \<Rightarrow> bool \<Rightarrow> 'a list \<Rightarrow> 'a list \<times> 'a" where
  "scan_serial m offset inclusive xs =
     (if inclusive then scan_serial_inclusive m offset xs else scan_serial_exclusive m offset xs)"

text \<open>The output, which may be the input itself, and the total.\<close>

definition scan_into :: "'a monoid \<Rightarrow> bool \<Rightarrow> bool \<Rightarrow> 'a list \<Rightarrow> 'a list \<times> 'a" where
  "scan_into m inclusive fl_sequential xs =
     (let n = length xs; l = num_blocks n block_size
      in if l \<le> 2 \<or> fl_sequential then scan_serial m (m_identity m) inclusive xs
         else let sums = sliced_for n block_size (\<lambda>i s e. reduce_serial m (cut s e xs));
                  (sums, total) = scan_serial m (m_identity m) False sums
              in (concat (sliced_for n block_size (\<lambda>i s e. fst (scan_serial m (sums ! i) inclusive (cut s e xs)))), total))"

definition scan_inplace :: "'a monoid \<Rightarrow> 'a list \<Rightarrow> 'a list \<times> 'a" where
  "scan_inplace m xs = scan_into m False False xs"

text \<open>The prefix totals.\<close>

definition scan_spec :: "'a monoid \<Rightarrow> bool \<Rightarrow> 'a list \<Rightarrow> 'a list \<times> 'a" where
  "scan_spec m inclusive xs =
     (map (\<lambda>i. total m (take (if inclusive then i + 1 else i) xs)) [0..<length xs], total m xs)"

lemma scan_serial_inclusive_eq:
  "scan_serial_inclusive m r xs =
    (map (\<lambda>i. foldl (m_op m) r (take (i + 1) xs)) [0..<length xs], foldl (m_op m) r xs)"
  by (induction m r xs rule: scan_serial_inclusive.induct) (simp_all add: Let_def map_upt_Suc del: upt_Suc)

lemma scan_serial_exclusive_eq:
  "scan_serial_exclusive m r xs =
    (map (\<lambda>i. foldl (m_op m) r (take i xs)) [0..<length xs], foldl (m_op m) r xs)"
  by (induction m r xs rule: scan_serial_exclusive.induct) (simp_all add: map_upt_Suc del: upt_Suc)

lemma scan_serial_eq:
  "scan_serial m r inclusive xs =
    (map (\<lambda>i. foldl (m_op m) r (take (if inclusive then i + 1 else i) xs)) [0..<length xs], foldl (m_op m) r xs)"
  by (simp add: scan_serial_def scan_serial_inclusive_eq scan_serial_exclusive_eq)

lemma scan_serial_spec: "scan_serial m (m_identity m) inclusive xs = scan_spec m inclusive xs"
  by (simp add: scan_serial_eq scan_spec_def total_def)

context monoid_on
begin

lemma foldl_in: "r \<in> A \<Longrightarrow> set xs \<subseteq> A \<Longrightarrow> foldl (m_op m) r xs \<in> A"
  by (induction xs arbitrary: r) (simp_all add: closed)

lemma total_in: "set xs \<subseteq> A \<Longrightarrow> total m xs \<in> A"
  by (simp add: total_def foldl_in identity_in)

lemma foldl_op: "r \<in> A \<Longrightarrow> x \<in> A \<Longrightarrow> set xs \<subseteq> A \<Longrightarrow> foldl (m_op m) (m_op m r x) xs = m_op m r (foldl (m_op m) x xs)"
  by (induction xs arbitrary: x) (simp_all add: assoc closed)

lemma foldl_total: "r \<in> A \<Longrightarrow> set xs \<subseteq> A \<Longrightarrow> foldl (m_op m) r xs = m_op m r (total m xs)"
  using foldl_op [of r "m_identity m" xs] by (simp add: total_def identity_in right_identity)

lemma total_append: "set xs \<subseteq> A \<Longrightarrow> set ys \<subseteq> A \<Longrightarrow> total m (xs @ ys) = m_op m (total m xs) (total m ys)"
  by (metis foldl_append foldl_total total_def total_in)

lemma total_Nil [simp]: "total m [] = m_identity m"
  by (simp add: total_def)

lemma total_single: "x \<in> A \<Longrightarrow> total m [x] = x"
  by (simp add: total_def left_identity)

lemma reduce_serial_total: "set xs \<subseteq> A \<Longrightarrow> reduce_serial m xs = total m xs"
  by (cases xs) (simp_all add: reduce_serial_def total_def left_identity)

lemma total_concat: "\<forall>xs \<in> set xss. set xs \<subseteq> A \<Longrightarrow> total m (map (total m) xss) = total m (concat xss)"
proof (induction xss rule: rev_induct)
  case (snoc xs xss)
  then have "set (map (total m) xss) \<subseteq> A" "set (concat xss) \<subseteq> A" by (auto intro!: total_in)
  with snoc show ?case by (simp add: total_append total_in total_single)
qed simp

lemma blocks_in: "set xs \<subseteq> A \<Longrightarrow> x \<in> set (sliced_for n b (\<lambda>i s e. cut s e xs)) \<Longrightarrow> set x \<subseteq> A"
  by (auto simp: sliced_for_def cut_def Let_def dest!: in_set_takeD in_set_dropD)

lemma set_cut: "set (cut s e xs) \<subseteq> set xs"
  by (auto simp: cut_def dest: in_set_takeD in_set_dropD)

lemma block_sums:
  assumes "set xs \<subseteq> A"
  shows "sliced_for n b (\<lambda>i s e. reduce_serial m (cut s e xs)) = map (total m) (sliced_for n b (\<lambda>i s e. cut s e xs))"
proof -
  have "reduce_serial m (cut s e xs) = total m (cut s e xs)" for s e
    using set_cut [of s e xs] assms by (intro reduce_serial_total) blast
  then show ?thesis by (simp add: map_sliced_for)
qed

lemma reduce_total: "set xs \<subseteq> A \<Longrightarrow> reduce csqrt fl m xs = total m xs"
proof (induction "length xs" arbitrary: xs fl rule: less_induct)
  case less
  let ?n = "length xs" and ?b = "max block_size (4 * csqrt (length xs))"
  let ?l = "num_blocks ?n ?b" and ?ys = "sliced_for ?n ?b (\<lambda>i s e. cut s e xs)"
  have b: "2 \<le> ?b" by (simp add: block_size_def)
  consider "?l = 0" | "?l \<noteq> 0" "?l = 1 \<or> fl" | "2 \<le> ?l" "\<not> fl" by linarith
  then show ?case
  proof cases
    case 1
    then have "xs = []" by (simp add: num_blocks_def split: if_splits)
    then show ?thesis by (simp add: reduce.simps num_blocks_def)
  next
    case 2
    then have "reduce csqrt fl m xs = reduce_serial m xs" by (subst reduce.simps) (simp add: Let_def)
    then show ?thesis using less.prems by (simp add: reduce_serial_total)
  next
    case 3
    have "set (map (total m) ?ys) \<subseteq> A" using blocks_in [OF less.prems] by (auto intro!: total_in)
    moreover have "length (map (total m) ?ys) < ?n" using num_blocks_less [OF b 3(1)] by simp
    ultimately have "reduce csqrt False m (map (total m) ?ys) = total m (map (total m) ?ys)" using less.hyps by blast
    also have "\<dots> = total m (concat ?ys)" using blocks_in [OF less.prems] by (intro total_concat) blast
    also have "concat ?ys = xs" using b by (intro concat_blocks) simp_all
    finally show ?thesis using 3 by (subst reduce.simps) (simp add: Let_def block_sums [OF less.prems])
  qed
qed

lemma scan_blocks:
  assumes "set xs \<subseteq> A" "0 < b" "n = length xs"
  defines "ys \<equiv> sliced_for n b (\<lambda>i s e. cut s e xs)"
  shows "concat (sliced_for n b (\<lambda>i s e. fst (scan_serial m (total m (concat (take i ys))) inclusive (cut s e xs)))) =
         fst (scan_spec m inclusive xs)"
proof -
  let ?p = "\<lambda>i. total m (take (if inclusive then i + 1 else i) xs)"
  have "fst (scan_serial m (total m (concat (take i ys))) inclusive (cut (i * b) (min (i * b + b) n) xs)) =
        map ?p (cut (i * b) (min (i * b + b) n) [0..<length xs])" if "i < num_blocks n b" for i
  proof -
    let ?e = "min (i * b + b) n"
    have i: "i * b < n" using num_blocks_bounds [OF that] .
    have "foldl (m_op m) (total m (take (i * b) xs)) (take j (cut (i * b) ?e xs)) = total m (take (i * b + j) xs)"
      if "j \<le> ?e - i * b" for j
    proof -
      have "take j (cut (i * b) ?e xs) = take j (drop (i * b) xs)" using that by (simp add: cut_def)
      moreover have "take (i * b + j) xs = take (i * b) xs @ take j (drop (i * b) xs)" by (rule take_add)
      ultimately show ?thesis by (simp add: total_def)
    qed
    moreover have "cut (i * b) ?e [0..<length xs] = [i * b..<?e]" using i assms(3) by (simp add: cut_def)
    moreover have "[i * b..<?e] = map (\<lambda>j. i * b + j) [0..<?e - i * b]" using i
      by (simp add: map_add_upt add.commute [of "i * b"])
    ultimately show ?thesis using assms(2,3) i
      by (auto simp: scan_serial_eq ys_def take_blocks add.assoc)
  qed
  then have "sliced_for n b (\<lambda>i s e. fst (scan_serial m (total m (concat (take i ys))) inclusive (cut s e xs))) =
      sliced_for n b (\<lambda>i s e. map ?p (cut s e [0..<length xs]))"
    by (intro nth_equalityI) (simp_all add: nth_sliced_for)
  then show ?thesis using assms(2,3) by (simp add: sliced_for_map_cut scan_spec_def)
qed

lemma scan_eq_spec:
  assumes "set xs \<subseteq> A"
  shows "scan_into m inclusive fl xs = scan_spec m inclusive xs"
proof (cases "num_blocks (length xs) block_size \<le> 2 \<or> fl")
  case True
  then show ?thesis by (simp add: scan_into_def scan_serial_spec)
next
  case False
  let ?n = "length xs" and ?ys = "sliced_for (length xs) block_size (\<lambda>i s e. cut s e xs)"
  have b: "0 < block_size" by (simp add: block_size_def)
  have "concat ?ys = xs" using b by (intro concat_blocks) simp_all
  then have t: "total m (map (total m) ?ys) = total m xs" using blocks_in [OF assms] total_concat [of ?ys] by metis
  have "total m (take i (map (total m) ?ys)) = total m (concat (take i ?ys))" for i
    using blocks_in [OF assms] by (auto simp: take_map intro!: total_concat dest: in_set_takeD)
  then have "scan_serial m (m_identity m) False (map (total m) ?ys) =
      (map (\<lambda>i. total m (concat (take i ?ys))) [0..<num_blocks ?n block_size], total m xs)"
    using t by (simp add: scan_serial_spec scan_spec_def)
  moreover have "sliced_for ?n block_size (\<lambda>i s e. fst (scan_serial m
        (map (\<lambda>i. total m (concat (take i ?ys))) [0..<num_blocks ?n block_size] ! i) inclusive (cut s e xs))) =
      sliced_for ?n block_size (\<lambda>i s e. fst (scan_serial m (total m (concat (take i ?ys))) inclusive (cut s e xs)))"
    by (intro nth_equalityI) (simp_all add: nth_sliced_for)
  ultimately show ?thesis using False scan_blocks [OF assms b refl, of inclusive]
    by (simp add: scan_into_def Let_def block_sums [OF assms] scan_spec_def)
qed

end

text \<open>The built-in monoids obey the laws.\<close>

interpretation plus_nat: monoid_on plus_m "UNIV :: nat set"
  by unfold_locales (simp_all add: plus_m_def)

interpretation plus_word: monoid_on plus_m "UNIV :: 'a::len word set"
  by unfold_locales (simp_all add: plus_m_def)

interpretation multiplies_word: monoid_on multiplies_m "UNIV :: 'a::len word set"
  by unfold_locales (simp_all add: multiplies_m_def ac_simps)

interpretation logical_and: monoid_on logical_and_m UNIV
  by unfold_locales (simp_all add: logical_and_m_def)

interpretation logical_or: monoid_on logical_or_m UNIV
  by unfold_locales (simp_all add: logical_or_m_def)

interpretation bit_or: monoid_on bit_or_m "UNIV :: 'a::len word set"
  by unfold_locales (simp_all add: bit_or_m_def or.assoc)

interpretation bit_xor: monoid_on bit_xor_m "UNIV :: 'a::len word set"
  by unfold_locales (simp_all add: bit_xor_m_def xor.assoc)

interpretation bit_and: monoid_on bit_and_m "UNIV :: 'a::len word set"
  by unfold_locales (simp_all add: bit_and_m_def and.assoc)

interpretation maximum: monoid_on maximum_m "UNIV :: 'a::len word set"
  by unfold_locales (simp_all add: maximum_m_def max.assoc max_absorb1 max_absorb2)

interpretation minimum: monoid_on minimum_m "UNIV :: 'a::len word set"
  by unfold_locales (simp_all add: minimum_m_def min.assoc min_absorb1 min_absorb2)

interpretation minmax: monoid_on minmaxm "UNIV :: ('a::len word \<times> 'a word) set"
  by unfold_locales (auto simp: minmaxm_def binary_op_def min.assoc max.assoc min_absorb1 min_absorb2 max_absorb1 max_absorb2)

lemma monoid_on_pair: "monoid_on m1 A \<Longrightarrow> monoid_on m2 B \<Longrightarrow> monoid_on (pair_monoid m1 m2) (A \<times> B)"
  by unfold_locales (auto simp: pair_monoid_def binary_op_def monoid_on_def)

lemma monoid_on_array:
  assumes "monoid_on m A"
  shows "monoid_on (array_monoid n m) {xs. length xs = n \<and> set xs \<subseteq> A}"
  using assms by unfold_locales (auto simp: array_monoid_def binary_op_def monoid_on_def subset_iff
      all_set_conv_all_nth intro!: nth_equalityI)

section \<open>Pack and filter\<close>

definition sum_bools_serial :: "bool list \<Rightarrow> nat" where
  "sum_bools_serial I = foldl (\<lambda>r b. r + of_bool b) 0 I"

text \<open>The writes, starting at slot \<open>k\<close>; reading a flag that is not there has no result.\<close>

fun pack_serial_at :: "nat \<Rightarrow> 'a list \<Rightarrow> bool list \<Rightarrow> (nat \<times> 'a) list option" where
  "pack_serial_at k [] Fl = Some []"
| "pack_serial_at k (x # In) [] = None"
| "pack_serial_at k (x # In) (b # Fl) =
     (if b then map_option ((#) (k, x)) (pack_serial_at (k + 1) In Fl) else pack_serial_at k In Fl)"

definition pack_serial :: "'a list \<Rightarrow> bool list \<Rightarrow> 'a list option" where
  "pack_serial In Fl = (let m = sum_bools_serial Fl in Option.bind (pack_serial_at 0 In Fl) (build_seq m))"

definition block_packs :: "nat list \<Rightarrow> 'a list \<Rightarrow> bool list \<Rightarrow> (nat \<times> 'a) list option" where
  "block_packs sums In Fl =
     map_option concat (those (sliced_for (length In) block_size
       (\<lambda>i s e. pack_serial_at (sums ! i) (cut s e In) (cut s e Fl))))"

definition pack :: "bool \<Rightarrow> 'a list \<Rightarrow> bool list \<Rightarrow> 'a list option" where
  "pack fl_sequential In Fl =
     (let n = length In; l = num_blocks n block_size
      in if l = 1 \<or> fl_sequential then pack_serial In Fl
         else let sums = sliced_for n block_size (\<lambda>i s e. sum_bools_serial (cut s e Fl));
                  (sums, m) = scan_inplace plus_m sums
              in Option.bind (block_packs sums In Fl) (build_seq m))"

definition pack_out :: "bool \<Rightarrow> 'a list \<Rightarrow> bool list \<Rightarrow> 'a option list \<Rightarrow> ('a option list \<times> nat) option" where
  "pack_out fl_sequential In Fl Out =
     (let n = length In; l = num_blocks n block_size
      in if l \<le> 1 \<or> fl_sequential then
           Option.bind (pack_serial_at 0 In (cut 0 n Fl)) (\<lambda>ws.
             map_option (\<lambda>Out. (Out, length ws)) (apply_writes ws Out))
         else let sums = sliced_for n block_size (\<lambda>i s e. sum_bools_serial (cut s e Fl));
                  (sums, m) = scan_inplace plus_m sums
              in Option.bind (block_packs sums In Fl) (\<lambda>ws.
                 map_option (\<lambda>Out. (Out, m)) (apply_writes ws Out)))"

text \<open>The first pass of the filters: the flags and the offset of each block, and the number of elements kept.\<close>

definition filter_flags :: "('a \<Rightarrow> bool) \<Rightarrow> 'a list \<Rightarrow> bool list \<times> nat list \<times> nat" where
  "filter_flags f In =
     (let n = length In;
          first = sliced_for n block_size (\<lambda>i s e. let Fl = map f (cut s e In) in (Fl, sum_bools_serial Fl));
          (sums, m) = scan_inplace plus_m (map snd first)
      in (concat (map fst first), sums, m))"

definition filter_map :: "('a \<Rightarrow> bool) \<Rightarrow> ('a \<Rightarrow> 'b) \<Rightarrow> 'a list \<Rightarrow> 'b list option" where
  "filter_map f g In =
     (let (Fl, sums, m) = filter_flags f In in Option.bind (block_packs sums (map g In) Fl) (build_seq m))"

definition filter_seq :: "('a \<Rightarrow> bool) \<Rightarrow> 'a list \<Rightarrow> 'a list option" where
  "filter_seq f In = filter_map f (\<lambda>x. x) In"

definition filter_out :: "('a \<Rightarrow> bool) \<Rightarrow> 'a list \<Rightarrow> 'a option list \<Rightarrow> ('a option list \<times> nat) option" where
  "filter_out f In Out =
     (let (Fl, sums, m) = filter_flags f In
      in Option.bind (block_packs sums In Fl) (\<lambda>ws. map_option (\<lambda>Out. (Out, m)) (apply_writes ws Out)))"

definition pack_index :: "bool \<Rightarrow> bool list \<Rightarrow> nat list option" where
  "pack_index fl_sequential Fl = pack fl_sequential [0..<length Fl] Fl"

section \<open>Stable splits\<close>

text \<open>The writes of a block: flag 0 to slot \<open>c0\<close>, flag 1 to slot \<open>c1\<close>, any other to slot \<open>c2\<close>.\<close>

fun split_writes :: "nat \<Rightarrow> nat \<Rightarrow> nat \<Rightarrow> ('a \<times> nat) list \<Rightarrow> (nat \<times> 'a) list" where
  "split_writes c0 c1 c2 [] = []"
| "split_writes c0 c1 c2 ((x, f) # xs) =
     (if f = 0 then (c0, x) # split_writes (c0 + 1) c1 c2 xs
      else if f = 1 then (c1, x) # split_writes c0 (c1 + 1) c2 xs
      else (c2, x) # split_writes c0 c1 (c2 + 1) xs)"

text \<open>The flags belong to the elements they stand with.\<close>

definition split_three :: "('a \<times> nat) list \<Rightarrow> 'a option list \<Rightarrow> ('a option list \<times> nat \<times> nat) option" where
  "split_three In Out =
     (let n = length In;
          sums0 = sliced_for n block_size (\<lambda>i s e. length (filter (\<lambda>(x, f). f = 0) (cut s e In)));
          sums1 = sliced_for n block_size (\<lambda>i s e. length (filter (\<lambda>(x, f). f = 1) (cut s e In)));
          (sums0, m0) = scan_inplace plus_m sums0;
          (sums1, m1) = scan_inplace plus_m sums1;
          ws = concat (sliced_for n block_size (\<lambda>i s e.
                 let c0 = sums0 ! i; c1 = m0 + sums1 ! i; c2 = m0 + m1 + (s - sums0 ! i - sums1 ! i)
                 in split_writes c0 c1 c2 (cut s e In)))
      in map_option (\<lambda>Out. (Out, m0, m1)) (apply_writes ws Out))"

fun split_two_writes :: "nat \<Rightarrow> nat \<Rightarrow> ('a \<times> bool) list \<Rightarrow> (nat \<times> 'a) list" where
  "split_two_writes c0 c1 [] = []"
| "split_two_writes c0 c1 ((x, f) # xs) =
     (if f = False then (c0, x) # split_two_writes (c0 + 1) c1 xs else (c1, x) # split_two_writes c0 (c1 + 1) xs)"

definition split_two :: "('a \<times> bool) list \<Rightarrow> ('a list \<times> nat) option" where
  "split_two In =
     (let n = length In;
          sums = sliced_for n block_size (\<lambda>i s e. foldl (\<lambda>c (x, f). c + of_bool (f = False)) 0 (cut s e In));
          (sums, m) = scan_inplace plus_m sums;
          ws = concat (sliced_for n block_size (\<lambda>i s e.
                 let c0 = sums ! i; c1 = s + (m - c0) in split_two_writes c0 c1 (cut s e In)))
      in map_option (\<lambda>Out. (Out, m)) (build_seq n ws))"

section \<open>What they compute\<close>

lemma foldl_count: "foldl (\<lambda>r x. r + of_bool (P x)) k xs = k + length (filter P xs)"
  by (induction xs arbitrary: k) simp_all

lemma sum_bools_serial_eq [simp]: "sum_bools_serial I = length (filter (\<lambda>b. b) I)"
  unfolding sum_bools_serial_def using foldl_count [of "\<lambda>b. b" 0 I] by simp

lemma total_plus [simp]: "total plus_m xs = sum_list (xs :: nat list)"
proof -
  have "foldl (+) k xs = k + sum_list xs" for k :: nat by (induction xs arbitrary: k) simp_all
  then show ?thesis by (simp add: total_def plus_m_def)
qed

lemma cut_block: "n = length xs \<Longrightarrow> cut (k * b) (min (k * b + b) n) xs = cut (k * b) (k * b + b) xs"
  by (auto simp: cut_def min_def)

lemma take_next_block: "take (k * b + b) xs = take (k * b) xs @ cut (k * b) (k * b + b) xs"
  by (simp add: take_cut)

text \<open>A function that turns blocks into lists and respects concatenation.\<close>

lemma concat_additive:
  assumes "\<And>xs ys. h (xs @ ys) = h xs @ h ys" "h [] = []" "n = length xs" "k \<le> num_blocks n b"
  shows "concat (take k (sliced_for n b (\<lambda>i s e. h (cut s e xs)))) = h (take (k * b) xs)"
  using assms(4)
proof (induction k)
  case (Suc k)
  have t: "h (take (Suc k * b) xs) = h (take (k * b) xs) @ h (cut (k * b) (k * b + b) xs)"
    using take_next_block [of k b xs] assms(1) by (simp add: add.commute)
  show ?case unfolding t using Suc by (simp add: sliced_for_def Let_def take_map cut_block [OF assms(3)])
qed (simp add: assms(2))

lemma block_offsets:
  assumes "n = length xs" "0 < b"
  shows "scan_inplace plus_m (sliced_for n b (\<lambda>i s e. length (filter P (cut s e xs)))) =
    (map (\<lambda>i. length (filter P (take (i * b) xs))) [0..<num_blocks n b], length (filter P xs))"
proof -
  let ?c = "sliced_for n b (\<lambda>i s e. length (filter P (cut s e xs)))"
  have "sum_list (take k ?c) = length (concat (take k (sliced_for n b (\<lambda>i s e. filter P (cut s e xs)))))" for k
    by (simp add: length_concat map_sliced_for flip: take_map)
  then have s: "sum_list (take k ?c) = length (filter P (take (k * b) xs))" if "k \<le> num_blocks n b" for k
    using that assms(1) by (simp add: concat_additive)
  have "sum_list ?c = length (filter P xs)"
    using s [OF order.refl] num_blocks_cover [OF assms(2), of n] assms(1) by simp
  then show ?thesis using s by (simp add: scan_inplace_def plus_nat.scan_eq_spec scan_spec_def)
qed

lemma zip_upt_append: "zip [a..<a + length xs] xs @ zip [a + length xs..<a + (length xs + length ys)] ys =
    zip [a..<a + length (xs @ ys)] (xs @ ys)"
  using upt_add_eq_append [of a "a + length xs" "length ys"] by (simp add: add.assoc)

text \<open>The writes of all blocks that go to one stream, each block at its offset.\<close>

lemma concat_streams:
  assumes "\<And>xs ys. h (xs @ ys) = h xs @ h ys" "h [] = []" "n = length xs" "0 < b"
  shows "concat (sliced_for n b (\<lambda>i s e. let a = c + length (h (take s xs)); ys = h (cut s e xs) in zip [a..<a + length ys] ys)) =
         zip [c..<c + length (h xs)] (h xs)"
proof -
  have "concat (map (\<lambda>i. let a = c + length (h (take (i * b) xs)); ys = h (cut (i * b) (min (i * b + b) n) xs)
      in zip [a..<a + length ys] ys) [0..<k]) = zip [c..<c + length (h (take (k * b) xs))] (h (take (k * b) xs))" for k
  proof (induction k)
    case (Suc k)
    have t: "h (take (Suc k * b) xs) = h (take (k * b) xs) @ h (cut (k * b) (k * b + b) xs)"
      using take_next_block [of k b xs] assms(1) by (simp add: add.commute)
    show ?case unfolding t zip_upt_append [symmetric] using Suc by (simp add: cut_block [OF assms(3)] Let_def add.assoc)
  qed (simp add: assms(2))
  from this [of "num_blocks n b"] show ?thesis
    using num_blocks_cover [OF assms(4), of n] assms(3) by (simp add: sliced_for_def Let_def)
qed

definition packed :: "'a list \<Rightarrow> bool list \<Rightarrow> 'a list" where
  "packed xs bs = map fst (filter snd (zip xs bs))"

lemma pack_serial_at_eq:
  "length In = length Fl \<Longrightarrow>
    pack_serial_at k In Fl = Some (zip [k..<k + length (packed In Fl)] (packed In Fl))"
proof (induction k In Fl rule: pack_serial_at.induct)
  case (3 k x In b Fl)
  then show ?case by (cases b) (simp_all add: packed_def upt_conv_Cons del: upt_Suc)
qed (simp_all add: packed_def)

lemma length_packed: "length In = length Fl \<Longrightarrow> length (packed In Fl) = length (filter (\<lambda>b. b) Fl)"
  by (induction In Fl rule: list_induct2) (simp_all add: packed_def)

lemma block_packs_eq:
  assumes "length In = length Fl" "sums = map (\<lambda>i. length (filter (\<lambda>b. b) (take (i * block_size) Fl))) [0..<num_blocks (length In) block_size]"
  shows "block_packs sums In Fl = Some (zip [0..<length (packed In Fl)] (packed In Fl))"
proof -
  let ?n = "length In" and ?b = block_size and ?zs = "zip In Fl" and ?h = "\<lambda>zs. map fst (filter snd zs)"
  have b: "0 < ?b" by (simp add: block_size_def)
  have "pack_serial_at (sums ! i) (cut s e In) (cut s e Fl) =
      Some (let a = 0 + length (?h (take s ?zs)); ys = ?h (cut s e ?zs) in zip [a..<a + length ys] ys)"
    if "i < num_blocks ?n ?b" "s = i * ?b" for i s e
  proof -
    have "sums ! i = length (packed (take s In) (take s Fl))" using that assms by (simp add: length_packed)
    then show ?thesis using assms(1) pack_serial_at_eq [of "cut s e In" "cut s e Fl"]
      by (simp add: packed_def take_zip Let_def)
  qed
  then have "sliced_for ?n ?b (\<lambda>i s e. pack_serial_at (sums ! i) (cut s e In) (cut s e Fl)) =
      map Some (sliced_for ?n ?b (\<lambda>i s e. let a = 0 + length (?h (take s ?zs)); ys = ?h (cut s e ?zs) in zip [a..<a + length ys] ys))"
    by (intro nth_equalityI) (simp_all add: nth_sliced_for map_sliced_for)
  then show ?thesis using concat_streams [of ?h ?n ?zs ?b 0] b assms(1) by (simp add: block_packs_def packed_def)
qed

lemma pack_eq:
  assumes "length In = length Fl"
  shows "pack fl In Fl = Some (packed In Fl)"
proof -
  have b: "0 < block_size" by (simp add: block_size_def)
  have "pack_serial In Fl = Some (packed In Fl)"
    using assms by (simp add: pack_serial_def pack_serial_at_eq length_packed)
  moreover have "scan_inplace plus_m (sliced_for (length In) block_size (\<lambda>i s e. length (filter (\<lambda>b. b) (cut s e Fl)))) =
    (map (\<lambda>i. length (filter (\<lambda>b. b) (take (i * block_size) Fl))) [0..<num_blocks (length In) block_size], length (packed In Fl))"
    using block_offsets [OF assms b] length_packed [OF assms] by simp
  ultimately show ?thesis using block_packs_eq [OF assms refl] by (simp add: pack_def Let_def)
qed

lemma packed_map: "packed (map g xs) (map f xs) = map g (filter f xs)"
  by (induction xs) (simp_all add: packed_def)

lemma filter_flags_eq:
  "filter_flags f In = (map f In,
     map (\<lambda>i. length (filter (\<lambda>b. b) (take (i * block_size) (map f In)))) [0..<num_blocks (length In) block_size],
     length (filter f In))"
proof -
  have b: "0 < block_size" by (simp add: block_size_def)
  have e: "length (filter (\<lambda>b. b) (map f ys)) = length (filter f ys)" for ys by (induction ys) simp_all
  show ?thesis using block_offsets [of "length In" In block_size f] b
    by (simp add: filter_flags_def Let_def map_sliced_for sliced_for_map_cut e take_map comp_def)
qed

lemma filter_map_eq: "filter_map f g In = Some (map g (filter f In))"
  using block_packs_eq [of "map g In" "map f In" _] packed_map [of g In f]
  by (simp add: filter_map_def filter_flags_eq)

lemma filter_seq_eq: "filter_seq f In = Some (filter f In)"
  by (simp add: filter_seq_def filter_map_eq)


lemma apply_writes_zip:
  assumes "length xs \<le> length buf"
  shows "apply_writes (zip [0..<length xs] xs) buf = Some (map Some xs @ drop (length xs) buf)"
proof -
  have "apply_writes (zip [k..<k + length xs] xs) buf = Some (take k buf @ map Some xs @ drop (k + length xs) buf)"
    if "k + length xs \<le> length buf" for k and xs :: "'a list" and buf
    using that
  proof (induction xs arbitrary: k buf)
    case (Cons x xs)
    have "zip [k..<k + length (x # xs)] (x # xs) = (k, x) # zip [Suc k..<Suc k + length xs] xs"
      by (simp add: upt_conv_Cons del: upt_Suc)
    moreover have "apply_writes (zip [Suc k..<Suc k + length xs] xs) (buf[k := Some x]) =
        Some (take (Suc k) (buf[k := Some x]) @ map Some xs @ drop (Suc k + length xs) (buf[k := Some x]))"
      using Cons.prems by (intro Cons.IH) simp
    ultimately show ?case using Cons.prems by (simp add: take_Suc_conv_app_nth)
  qed simp
  from this [of 0 xs] assms show ?thesis by simp
qed

lemma filter_out_eq:
  "length (filter f In) \<le> length Out \<Longrightarrow>
    filter_out f In Out = Some (map Some (filter f In) @ drop (length (filter f In)) Out, length (filter f In))"
  using block_packs_eq [of In "map f In"] packed_map [of "\<lambda>x. x" In f]
  by (simp add: filter_out_def filter_flags_eq apply_writes_zip)

lemma pack_out_eq:
  assumes "length In = length Fl" "length (packed In Fl) \<le> length Out"
  shows "pack_out fl In Fl Out = Some (map Some (packed In Fl) @ drop (length (packed In Fl)) Out, length (packed In Fl))"
proof -
  have b: "0 < block_size" by (simp add: block_size_def)
  have "scan_inplace plus_m (sliced_for (length In) block_size (\<lambda>i s e. length (filter (\<lambda>b. b) (cut s e Fl)))) =
    (map (\<lambda>i. length (filter (\<lambda>b. b) (take (i * block_size) Fl))) [0..<num_blocks (length In) block_size], length (packed In Fl))"
    using block_offsets [OF assms(1) b] length_packed [OF assms(1)] by simp
  then show ?thesis using block_packs_eq [OF assms(1) refl] assms
    by (simp add: pack_out_def Let_def pack_serial_at_eq apply_writes_zip)
qed

text \<open>The splits send each class to a stream of its own.\<close>

abbreviation flagged :: "('f \<Rightarrow> bool) \<Rightarrow> ('a \<times> 'f) list \<Rightarrow> 'a list" where
  "flagged P xs \<equiv> map fst (filter (\<lambda>(x, f). P f) xs)"

definition stream :: "nat \<Rightarrow> 'a list \<Rightarrow> (nat \<times> 'a) list" where
  "stream c xs = zip [c..<c + length xs] xs"

lemma stream_simps [simp]: "stream c [] = []" "stream c (x # xs) = (c, x) # stream (Suc c) xs"
  by (simp_all add: stream_def upt_conv_Cons del: upt_Suc)

lemma stream_append: "stream c (xs @ ys) = stream c xs @ stream (c + length xs) ys"
  by (induction xs arbitrary: c) simp_all

lemma split_writes_streams:
  "mset (split_writes c0 c1 c2 xs) =
    mset (stream c0 (flagged (\<lambda>f. f = 0) xs)) + mset (stream c1 (flagged (\<lambda>f. f = 1) xs)) +
    mset (stream c2 (flagged (\<lambda>f. f \<noteq> 0 \<and> f \<noteq> 1) xs))"
  by (induction c0 c1 c2 xs rule: split_writes.induct) simp_all

lemma split_two_writes_streams:
  "mset (split_two_writes c0 c1 xs) = mset (stream c0 (flagged (\<lambda>f. \<not> f) xs)) + mset (stream c1 (flagged (\<lambda>f. f) xs))"
  by (induction c0 c1 xs rule: split_two_writes.induct) simp_all

text \<open>The streams of all blocks together, when block \<open>i\<close> starts each class at its offset.\<close>

lemma mset_concat_sliced:
  assumes "\<And>i. i < num_blocks n b \<Longrightarrow> mset (f i (i * b) (min (i * b + b) n)) = mset (g i (i * b) (min (i * b + b) n))"
  shows "mset (concat (sliced_for n b f)) = mset (concat (sliced_for n b g))"
proof -
  have "map mset (sliced_for n b f) = map mset (sliced_for n b g)"
    by (rule nth_equalityI) (simp_all add: nth_sliced_for assms)
  then show ?thesis by (metis mset_concat)
qed

lemma mset_concat_sliced_add:
  "mset (concat (sliced_for n b (\<lambda>i s e. f i s e @ g i s e))) =
    mset (concat (sliced_for n b f)) + mset (concat (sliced_for n b g))"
proof -
  have "mset (concat (map (\<lambda>i. u i @ v i) is)) = mset (concat (map u is)) + mset (concat (map v is))"
    for u v :: "nat \<Rightarrow> 'a list" and "is" by (induction "is") simp_all
  then show ?thesis by (simp add: sliced_for_def Let_def)
qed

lemma concat_flagged:
  assumes "n = length xs" "0 < b"
  shows "concat (sliced_for n b (\<lambda>i s e. stream (c + length (flagged P (take s xs))) (flagged P (cut s e xs)))) =
    stream c (flagged P xs)"
  using concat_streams [of "flagged P" n xs b c] assms by (simp add: stream_def Let_def)

lemma length_flagged_take:
  "s \<le> n \<Longrightarrow> n = length xs \<Longrightarrow> length (flagged P (take s xs)) + length (flagged (\<lambda>f. \<not> P f) (take s xs)) = s"
  using sum_length_filter_compl [of "\<lambda>(x, f). P f" "take s xs"] by (simp add: case_prod_unfold)

lemma split_two_eq:
  "split_two In = Some (flagged (\<lambda>f. \<not> f) In @ flagged (\<lambda>f. f) In, length (flagged (\<lambda>f. \<not> f) In))"
proof -
  let ?n = "length In" and ?b = block_size
  let ?lo = "flagged (\<lambda>f. \<not> f)" and ?hi = "flagged (\<lambda>f. f)"
  have b: "0 < ?b" by (simp add: block_size_def)
  have c: "foldl (\<lambda>c (x, f). c + of_bool (\<not> f)) 0 ys = length (filter (\<lambda>(x, f). \<not> f) ys)" for ys :: "('a \<times> bool) list"
    using foldl_count [of "\<lambda>(x, f). \<not> f" 0 ys] by (simp add: case_prod_unfold)
  let ?sums = "map (\<lambda>i. length (filter (\<lambda>(x, f). \<not> f) (take (i * ?b) In))) [0..<num_blocks ?n ?b]"
  let ?m = "length (filter (\<lambda>(x, f). \<not> f) In)"
  let ?ws = "concat (sliced_for ?n ?b (\<lambda>i s e. split_two_writes (?sums ! i) (s + (?m - ?sums ! i)) (cut s e In)))"
  have "mset ?ws = mset (concat (sliced_for ?n ?b (\<lambda>i s e.
      stream (0 + length (?lo (take s In))) (?lo (cut s e In)) @ stream (?m + length (?hi (take s In))) (?hi (cut s e In)))))"
  proof (rule mset_concat_sliced)
    fix i assume i: "i < num_blocks ?n ?b"
    let ?s = "i * ?b"
    have s: "?s \<le> ?n" using num_blocks_bounds [OF i] by simp
    have "length (?lo (take ?s In)) \<le> ?m" using s by (metis (no_types, lifting) append_take_drop_id filter_append length_append length_map le_add1)
    then have "?s + (?m - ?sums ! i) = ?m + length (?hi (take ?s In))"
      using i length_flagged_take [OF s refl, of "\<lambda>f. \<not> f"] by simp
    then show "mset (split_two_writes (?sums ! i) (?s + (?m - ?sums ! i)) (cut ?s (min (?s + ?b) ?n) In)) =
      mset (stream (0 + length (?lo (take ?s In))) (?lo (cut ?s (min (?s + ?b) ?n) In)) @
            stream (?m + length (?hi (take ?s In))) (?hi (cut ?s (min (?s + ?b) ?n) In)))"
      using i by (simp add: split_two_writes_streams)
  qed
  also have "\<dots> = mset (stream 0 (?lo In) @ stream ?m (?hi In))"
    unfolding mset_concat_sliced_add concat_flagged [OF refl b] by simp
  also have "stream 0 (?lo In) @ stream ?m (?hi In) = stream 0 (?lo In @ ?hi In)"
    by (simp add: stream_append)
  finally have "build_seq (length (?lo In @ ?hi In)) ?ws = Some (?lo In @ ?hi In)"
    by (intro build_seq_perm) (simp add: stream_def)
  moreover have "length (?lo In @ ?hi In) = ?n" using length_flagged_take [of ?n ?n In "\<lambda>f. \<not> f"] by simp
  ultimately show ?thesis using block_offsets [OF refl b, of In "\<lambda>(x, f). \<not> f"]
    by (simp add: split_two_def c Let_def)
qed

lemma filter_shrinks:
  "length (filter P (take k xs)) \<le> length (filter P xs)"
  by (metis append_take_drop_id filter_append length_append le_add1)

lemma split_three_eq:
  assumes "length Out = length In"
  shows "split_three In Out =
    Some (map Some (flagged (\<lambda>f. f = 0) In @ flagged (\<lambda>f. f = 1) In @ flagged (\<lambda>f. f \<noteq> 0 \<and> f \<noteq> 1) In),
      length (flagged (\<lambda>f. f = 0) In), length (flagged (\<lambda>f. f = 1) In))"
proof -
  let ?n = "length In" and ?b = block_size
  let ?f0 = "flagged (\<lambda>f. f = (0::nat))" and ?f1 = "flagged (\<lambda>f. f = (1::nat))" and ?f2 = "flagged (\<lambda>f. f \<noteq> (0::nat) \<and> f \<noteq> 1)"
  let ?xs = "?f0 In @ ?f1 In @ ?f2 In"
  have b: "0 < ?b" by (simp add: block_size_def)
  let ?sums0 = "map (\<lambda>i. length (filter (\<lambda>(x, f). f = 0) (take (i * ?b) In))) [0..<num_blocks ?n ?b]"
  let ?sums1 = "map (\<lambda>i. length (filter (\<lambda>(x, f). f = 1) (take (i * ?b) In))) [0..<num_blocks ?n ?b]"
  let ?m0 = "length (filter (\<lambda>(x, f). f = 0) In)" and ?m1 = "length (filter (\<lambda>(x, f). f = 1) In)"
  have part: "length (?f0 ys) + length (?f1 ys) + length (?f2 ys) = length ys" for ys :: "('a \<times> nat) list"
    by (induction ys) auto
  let ?ws = "concat (sliced_for ?n ?b (\<lambda>i s e.
    split_writes (?sums0 ! i) (?m0 + ?sums1 ! i) (?m0 + ?m1 + (s - ?sums0 ! i - ?sums1 ! i)) (cut s e In)))"
  have "mset ?ws = mset (concat (sliced_for ?n ?b (\<lambda>i s e.
      (stream (0 + length (?f0 (take s In))) (?f0 (cut s e In)) @
       stream (?m0 + length (?f1 (take s In))) (?f1 (cut s e In))) @
       stream (?m0 + ?m1 + length (?f2 (take s In))) (?f2 (cut s e In)))))"
  proof (rule mset_concat_sliced)
    fix i assume i: "i < num_blocks ?n ?b"
    let ?s = "i * ?b"
    have "?s \<le> ?n" using num_blocks_bounds [OF i] by simp
    then have "?s - length (?f0 (take ?s In)) - length (?f1 (take ?s In)) = length (?f2 (take ?s In))"
      using part [of "take ?s In"] by simp
    then show "mset (split_writes (?sums0 ! i) (?m0 + ?sums1 ! i) (?m0 + ?m1 + (?s - ?sums0 ! i - ?sums1 ! i)) (cut ?s (min (?s + ?b) ?n) In)) =
      mset ((stream (0 + length (?f0 (take ?s In))) (?f0 (cut ?s (min (?s + ?b) ?n) In)) @
       stream (?m0 + length (?f1 (take ?s In))) (?f1 (cut ?s (min (?s + ?b) ?n) In))) @
       stream (?m0 + ?m1 + length (?f2 (take ?s In))) (?f2 (cut ?s (min (?s + ?b) ?n) In)))"
      using i by (simp add: split_writes_streams)
  qed
  also have "\<dots> = mset (stream 0 (?f0 In) @ stream ?m0 (?f1 In) @ stream (?m0 + ?m1) (?f2 In))"
    unfolding mset_concat_sliced_add concat_flagged [OF refl b] by (simp add: add.assoc)
  also have "stream 0 (?f0 In) @ stream ?m0 (?f1 In) @ stream (?m0 + ?m1) (?f2 In) = stream 0 ?xs"
    by (simp add: stream_append)
  finally have m: "mset ?ws = mset (stream 0 ?xs)" .
  have len: "length ?xs = length Out" using part [of In] assms by (simp add: add.assoc)
  have "mset (map fst ?ws) = mset (map fst (stream 0 ?xs))" using m by (simp only: mset_map)
  also have "map fst (stream 0 ?xs) = [0..<length ?xs]" by (simp add: stream_def)
  finally have e: "mset (map fst ?ws) = mset [0..<length ?xs]" .
  have d: "distinct (map fst ?ws)" unfolding mset_eq_imp_distinct_iff [OF e] by (rule distinct_upt)
  have "apply_writes ?ws Out = apply_writes (stream 0 ?xs) Out" by (rule apply_writes_perm [OF m d])
  also have "\<dots> = Some (map Some ?xs)" using apply_writes_zip [of ?xs Out] len by (simp add: stream_def)
  finally have w: "apply_writes ?ws Out = Some (map Some ?xs)" .
  show ?thesis unfolding split_three_def Let_def block_offsets [OF refl b] prod.case w by simp
qed

section \<open>Properties\<close>

text \<open>C39. With a lawful monoid the blocked reduction is the fold of the range, whatever block size the square root gives, and
  the three-pass scan gives exactly the prefix folds and the total, inclusive or exclusive.\<close>

theorem scan_reduce_correct:
  assumes "monoid_on m A" and "set xs \<subseteq> A"
  shows "reduce csqrt fl m xs = foldl (m_op m) (m_identity m) xs \<and>
    scan_into m inclusive fl' xs =
      (map (\<lambda>i. foldl (m_op m) (m_identity m) (take (if inclusive then i + 1 else i) xs)) [0..<length xs],
       foldl (m_op m) (m_identity m) xs)"
  using monoid_on.reduce_total [OF assms] monoid_on.scan_eq_spec [OF assms] by (simp add: scan_spec_def total_def)

theorem scan_reduce_correct_witness:
  "reduce (\<lambda>n. n) False plus_m (replicate 3000 (2 :: nat)) = 6000 \<and>
   scan_into (maximum_m :: u64 monoid) False False [3, 1, 4, 1] = ([0, 3, 3, 4], 4)"
proof
  have "foldl (+) k (replicate n 2) = k + 2 * n" for k n :: nat by (induction n arbitrary: k) simp_all
  from this [of 0 3000] have "foldl (m_op plus_m) (m_identity plus_m) (replicate 3000 (2 :: nat)) = 6000"
    by (simp add: plus_m_def)
  then show "reduce (\<lambda>n. n) False plus_m (replicate 3000 (2 :: nat)) = 6000"
    using scan_reduce_correct [OF plus_nat.monoid_on_axioms subset_UNIV, THEN conjunct1] by metis
  show "scan_into (maximum_m :: u64 monoid) False False [3, 1, 4, 1] = ([0, 3, 3, 4], 4)"
    using scan_reduce_correct [OF maximum.monoid_on_axioms subset_UNIV, THEN conjunct2, of False False "[3, 1, 4, 1] :: u64 list"]
    by (simp add: maximum_m_def max_def upt_rec word_le_nat_alt)
qed

text \<open>Every element whose flag is set is packed, in order, into a sequence of exactly the right size, with no write
  outside it and no slot left empty; filtering with a function applied to the results does the same.\<close>

theorem pack_filter_exact:
  assumes "length In = length Fl"
  shows "pack fl In Fl = Some (map fst (filter snd (zip In Fl))) \<and> filter_map f g In = Some (map g (filter f In))"
  using pack_eq [OF assms] filter_map_eq by (simp add: packed_def)

theorem pack_filter_exact_witness:
  "pack False ''abcd'' [True, False, True, True] = Some ''acd'' \<and> filter_map even Suc [2, 3, 4 :: nat] = Some [3, 5]"
  using pack_filter_exact [of "''abcd''" "[True, False, True, True]" False, THEN conjunct1]
    pack_filter_exact [of "[2, 3, 4 :: nat]" "[True, True, True]" False even Suc] by simp

text \<open>The three-way split is a stable partition that fills the whole output: the elements of flag 0, then those of
  flag 1, then the rest, each in their order, and it returns the two sizes; the two-way split likewise.\<close>

theorem split_stable:
  assumes "length Out = length In"
  shows "split_three In Out =
      Some (map (\<lambda>(x, f). Some x) (filter (\<lambda>(x, f). f = 0) In @ filter (\<lambda>(x, f). f = 1) In @ filter (\<lambda>(x, f). f \<noteq> 0 \<and> f \<noteq> 1) In),
        length (filter (\<lambda>(x, f). f = 0) In), length (filter (\<lambda>(x, f). f = 1) In)) \<and>
    split_two Bs = Some (map fst (filter (\<lambda>(x, f). \<not> f) Bs @ filter (\<lambda>(x, f). f) Bs), length (filter (\<lambda>(x, f). \<not> f) Bs))"
  using split_three_eq [OF assms] split_two_eq [of Bs] by (simp add: case_prod_unfold comp_def)

theorem split_stable_witness:
  "split_three [(''p'', 1), (''q'', 0), (''r'', 2), (''s'', 0)] [None, None, None, None] =
     Some ([Some ''q'', Some ''s'', Some ''p'', Some ''r''], 2, 1)"
  using split_stable [of "[None, None, None, None]" "[(''p'', 1), (''q'', 0), (''r'', 2), (''s'', 0)]", THEN conjunct1] by (simp add: numeral_2_eq_2)

end
