(* ===== verification/Parlay_Utilities.thy ===== *)
theory Parlay_Utilities
  imports Prelude "HOL-Library.Multiset"
begin

text \<open>
  Integer hashes, rounded-up logarithms, the random numbers built on the hashes and the sequential shuffle
  (\<^verbatim>\<open>lib/parlay/utilities.h\<close>, \<^verbatim>\<open>lib/parlay/random.h\<close>). Hashes and random numbers are machine words; sizes are natural numbers.
\<close>

section \<open>Hashes\<close>

definition hash32 :: "u32 \<Rightarrow> u32" where
  "hash32 a =
     (let a = (a + 0x7ed55d16) + push_bit 12 a;
          a = (a XOR 0xc761c23c) XOR drop_bit 19 a;
          a = (a + 0x165667b1) + push_bit 5 a;
          a = (a + 0xd3a2646c) XOR push_bit 9 a;
          a = (a + 0xfd7046c5) + push_bit 3 a;
          a = (a XOR 0xb55a4f09) XOR drop_bit 16 a
      in a)"

text \<open>The 64-bit intermediate values are cut to 32 bits, which their low halves do not notice.\<close>

definition hash32_2 :: "u32 \<Rightarrow> u32" where
  "hash32_2 a =
     (let z = a + 0x6D2B79F5;
          z = (z XOR drop_bit 15 z) * (z OR 1);
          z = z XOR (z + (z XOR drop_bit 7 z) * (z OR 61))
      in z XOR drop_bit 14 z)"

definition hash32_3 :: "u32 \<Rightarrow> u32" where
  "hash32_3 a =
     (let z = a + 0x9e3779b9;
          z = z XOR drop_bit 15 z;
          z = z * 0x85ebca6b;
          z = z XOR drop_bit 13 z;
          z = z * 0xc2b2ae3d
      in z XOR drop_bit 16 z)"

definition hash64 :: "u64 \<Rightarrow> u64" where
  "hash64 u =
     (let v = u * 3935559000370003845 + 2691343689449507681;
          v = v XOR drop_bit 21 v;
          v = v XOR push_bit 37 v;
          v = v XOR drop_bit 4 v;
          v = v * 4768777513237032717;
          v = v XOR push_bit 20 v;
          v = v XOR drop_bit 41 v;
          v = v XOR push_bit 5 v
      in v)"

definition hash64_2 :: "u64 \<Rightarrow> u64" where
  "hash64_2 x =
     (let x = (x XOR drop_bit 30 x) * 0xbf58476d1ce4e5b9;
          x = (x XOR drop_bit 27 x) * 0x94d049bb133111eb;
          x = x XOR drop_bit 31 x
      in x)"

definition hash_combine :: "u64 \<Rightarrow> u64 \<Rightarrow> u64" where
  "hash_combine seed v = seed XOR (v + 0x9e3779b9 + push_bit 6 seed + drop_bit 2 seed)"

definition hash_integral :: "u64 \<Rightarrow> u64" where
  "hash_integral p = p * 0xbf58476d1ce4e5b9"

definition hash_pair :: "u64 \<times> u64 \<Rightarrow> u64" where
  "hash_pair p = hash_combine (hash_integral (fst p)) (hash_integral (snd p))"

definition hash_array :: "u64 list \<Rightarrow> u64" where
  "hash_array a = foldl (\<lambda>h x. hash_combine h (hash_integral x)) 1 a"

text \<open>A shift by at least one bit and an exclusive or can be undone, and so can a multiplication by an odd number.\<close>

lemma xor_drop_inj:
  fixes x y :: "'a::len word"
  assumes "0 < k" and eq: "x XOR drop_bit k x = y XOR drop_bit k y"
  shows "x = y"
proof (rule bit_word_eqI)
  fix n assume "n < LENGTH('a)"
  then show "bit x n \<longleftrightarrow> bit y n"
  proof (induction "LENGTH('a) - n" arbitrary: n rule: less_induct)
    case less
    have "bit (x XOR drop_bit k x) n \<longleftrightarrow> bit (y XOR drop_bit k y) n" by (simp add: eq)
    moreover have "bit x (k + n) \<longleftrightarrow> bit y (k + n)"
    proof (cases "k + n < LENGTH('a)")
      case True
      with less assms(1) show ?thesis by simp
    next
      case False
      then show ?thesis using bit_imp_le_length by blast
    qed
    ultimately show ?case by (auto simp: bit_simps)
  qed
qed

lemma xor_push_inj:
  fixes x y :: "'a::len word"
  assumes "0 < k" and eq: "x XOR push_bit k x = y XOR push_bit k y"
  shows "x = y"
proof (rule bit_word_eqI)
  fix n assume "n < LENGTH('a)"
  then show "bit x n \<longleftrightarrow> bit y n"
  proof (induction n rule: less_induct)
    case (less n)
    have "bit (x XOR push_bit k x) n \<longleftrightarrow> bit (y XOR push_bit k y) n" by (simp add: eq)
    moreover have "k \<le> n \<Longrightarrow> bit x (n - k) \<longleftrightarrow> bit y (n - k)" using less assms(1) by simp
    ultimately show ?case using less.prems by (auto simp: bit_simps)
  qed
qed

lemma mult_inverse_inj: "c * d = (1 :: 'a::len word) \<Longrightarrow> x * c = y * c \<Longrightarrow> x = y"
  by (metis mult.assoc mult.right_neutral)

lemma inj_xor_drop: "0 < k \<Longrightarrow> inj (\<lambda>x :: 'a::len word. x XOR drop_bit k x)"
  by (rule injI) (rule xor_drop_inj)

lemma inj_xor_push: "0 < k \<Longrightarrow> inj (\<lambda>x :: 'a::len word. x XOR push_bit k x)"
  by (rule injI) (rule xor_push_inj)

lemma inj_affine: "c * d = (1 :: 'a::len word) \<Longrightarrow> inj (\<lambda>x. x * c + e)"
  by (rule injI, rule mult_inverse_inj, assumption, rule add_right_imp_eq)

lemma hash64_inj: "inj hash64"
proof -
  have i: "inj (\<lambda>x :: u64. x * 4768777513237032717 + 0)" "inj (\<lambda>x :: u64. x * 3935559000370003845 + 2691343689449507681)"
    by (rule inj_affine [where d = 1615231051170002885], simp) (rule inj_affine [where d = 13700500150304694605], simp)
  have h: "hash64 = (\<lambda>v. v XOR push_bit 5 v) \<circ> ((\<lambda>v. v XOR drop_bit 41 v) \<circ> ((\<lambda>v. v XOR push_bit 20 v) \<circ>
      ((\<lambda>v. v * 4768777513237032717 + 0) \<circ> ((\<lambda>v. v XOR drop_bit 4 v) \<circ> ((\<lambda>v. v XOR push_bit 37 v) \<circ>
      ((\<lambda>v. v XOR drop_bit 21 v) \<circ> (\<lambda>u. u * 3935559000370003845 + 2691343689449507681)))))))"
    by (rule ext) (simp only: hash64_def Let_def comp_apply add_0_right)
  show ?thesis unfolding h by (intro inj_compose inj_xor_drop inj_xor_push i) simp_all
qed

section \<open>Logarithms\<close>

function bit_length :: "nat \<Rightarrow> nat" where
  "bit_length b = (if b > 0 then bit_length (b div 2) + 1 else 0)"
  by pat_completeness auto

termination bit_length by (relation "measure id") auto

declare bit_length.simps [simp del]

definition log2_up :: "nat \<Rightarrow> nat" where
  "log2_up i = bit_length (i - 1)"

lemma bit_length_bounds: "b < 2 ^ bit_length b \<and> (0 < b \<longrightarrow> 2 ^ (bit_length b - 1) \<le> b)"
proof (induction b rule: bit_length.induct)
  case (1 b)
  show ?case
  proof (cases "b = 0")
    case False
    then have ih: "b div 2 < 2 ^ bit_length (b div 2)" "0 < b div 2 \<Longrightarrow> 2 ^ (bit_length (b div 2) - 1) \<le> b div 2"
      using 1 by auto
    have e: "bit_length b = Suc (bit_length (b div 2))" using False by (simp add: bit_length.simps [of b])
    have "2 ^ bit_length (b div 2) \<le> b"
    proof (cases "b div 2 = 0")
      case True
      then show ?thesis using False by (simp add: bit_length.simps)
    next
      case F: False
      then have "bit_length (b div 2) = Suc (bit_length (b div 2) - 1)" by (simp add: bit_length.simps [of "b div 2"])
      then have "(2::nat) ^ bit_length (b div 2) = 2 * 2 ^ (bit_length (b div 2) - 1)" by (metis power_Suc)
      then show ?thesis using ih(2) F by linarith
    qed
    then show ?thesis using ih(1) e by simp
  qed (simp add: bit_length.simps)
qed

lemma log2_up_bounds: "0 < i \<Longrightarrow> i \<le> 2 ^ log2_up i" "1 < i \<Longrightarrow> 2 ^ (log2_up i - 1) < i"
  using bit_length_bounds [of "i - 1"] by (auto simp: log2_up_def bit_length.simps [of 0])

lemma log2_up_power: "log2_up (2 ^ k) = k"
proof (cases k)
  case (Suc j)
  then have "1 < (2::nat) ^ k" by (metis one_less_numeral_iff one_less_power semiring_norm(76) zero_less_Suc)
  then have "(2::nat) ^ k \<le> 2 ^ log2_up (2 ^ k)" "(2::nat) ^ (log2_up (2 ^ k) - 1) < 2 ^ k"
    using log2_up_bounds [of "2 ^ k"] by simp_all
  then have "k \<le> log2_up (2 ^ k)" "log2_up (2 ^ k) - 1 < k" by (metis one_less_numeral_iff power_increasing_iff semiring_norm(76))
      (metis \<open>2 ^ (log2_up (2 ^ k) - 1) < 2 ^ k\<close> one_less_numeral_iff power_strict_increasing_iff semiring_norm(76))
  then show ?thesis by simp
qed (simp add: log2_up_def bit_length.simps)

section \<open>Random numbers\<close>

definition rg_next :: "u64 \<Rightarrow> u64 \<times> u64" where
  "rg_next state = (let state = hash64 state in (state, state))"

definition rg_at :: "u64 \<Rightarrow> u64 \<Rightarrow> u64" where
  "rg_at state i = hash64 ((i + 1) * 0x7fffffff + state)"

definition random_fork :: "u64 \<Rightarrow> u64 \<Rightarrow> u64" where
  "random_fork state i = hash64 (hash64 (i + state))"

definition random_next :: "u64 \<Rightarrow> u64" where
  "random_next state = random_fork state 0"

definition ith_rand :: "u64 \<Rightarrow> u64 \<Rightarrow> u64" where
  "ith_rand state i = hash64 (i + state)"

section \<open>Swaps and the sequential shuffle\<close>

definition swap :: "nat \<Rightarrow> nat \<Rightarrow> 'a list \<Rightarrow> 'a list" where
  "swap i j xs = xs[i := xs ! j, j := xs ! i]"

lemma length_swap [simp]: "length (swap i j xs) = length xs"
  by (simp add: swap_def)

lemma mset_swap_at [simp]: "i < length xs \<Longrightarrow> j < length xs \<Longrightarrow> mset (swap i j xs) = mset xs"
  by (simp add: swap_def mset_swap)

lemma nth_swap: "i < length xs \<Longrightarrow> j < length xs \<Longrightarrow> k < length xs \<Longrightarrow>
    swap i j xs ! k = (if k = i then xs ! j else if k = j then xs ! i else xs ! k)"
  by (auto simp: swap_def nth_list_update)

text \<open>From the last element down to the second, each is exchanged with one at or before it.\<close>

fun shuffle_down :: "u64 \<Rightarrow> nat \<Rightarrow> 'a list \<Rightarrow> 'a list" where
  "shuffle_down r 0 A = A"
| "shuffle_down r (Suc i) A =
     shuffle_down r i (swap (Suc i) (unat (ith_rand r (of_nat (Suc i)) mod (of_nat (Suc i) + 1))) A)"

definition seq_random_shuffle :: "u64 \<Rightarrow> 'a list \<Rightarrow> 'a list" where
  "seq_random_shuffle r A = (let n = length A in if n < 2 then A else shuffle_down r (n - 1) A)"

lemma rand_below: "unat (x mod (of_nat (Suc i) + 1 :: u64)) \<le> Suc i" if "Suc i < 2 ^ 64 - 1"
proof -
  have "unat (of_nat (Suc i) + 1 :: u64) = i + 2" using that by (simp add: unat_of_nat unat_word_ariths take_bit_eq_mod)
  then have "unat (x mod (of_nat (Suc i) + 1 :: u64)) = unat x mod (i + 2)" by (simp add: unat_mod)
  then show ?thesis using mod_less_divisor [of "i + 2" "unat x"] by linarith
qed

lemma shuffle_down_perm: "i < length A \<Longrightarrow> i < 2 ^ 64 - 1 \<Longrightarrow> mset (shuffle_down r i A) = mset A"
proof (induction r i A rule: shuffle_down.induct)
  case (2 r i A)
  then show ?case using rand_below [of i "ith_rand r (of_nat (Suc i))"] by (simp del: of_nat_Suc)
qed simp

lemma seq_random_shuffle_perm: "length A < 2 ^ 64 \<Longrightarrow> mset (seq_random_shuffle r A) = mset A"
  by (auto simp: seq_random_shuffle_def Let_def intro: shuffle_down_perm)

end
