(* ===== verification/Parlay_Merge.thy ===== *)
theory Parlay_Merge
  imports Parlay_Sequence Parlay_Utilities
begin

text \<open>
  Binary search, insertion sort, parallel merge and merge sort (\<^verbatim>\<open>lib/parlay/internal/binary_search.h\<close>, \<^verbatim>\<open>merge.h\<close>, \<^verbatim>\<open>merge_sort.h\<close>
  and \<^verbatim>\<open>insertion_sort\<close> of \<^verbatim>\<open>quicksort.h\<close>) for a comparison that is a strict weak order. The two branches of a fork work on disjoint
  parts, so their results are put side by side. A buffer is a list of slots; relocating an element empties its slot, and reading an
  empty slot has no result.
\<close>

section \<open>Comparisons\<close>

locale weak_order =
  fixes lt :: "'a \<Rightarrow> 'a \<Rightarrow> bool"
  assumes asym: "lt x y \<Longrightarrow> \<not> lt y x"
    and cotrans: "lt x z \<Longrightarrow> lt x y \<or> lt y z"

definition same_rank :: "('a \<Rightarrow> 'a \<Rightarrow> bool) \<Rightarrow> 'a \<Rightarrow> 'a \<Rightarrow> bool" where
  "same_rank lt x y \<longleftrightarrow> \<not> lt x y \<and> \<not> lt y x"

definition ordered :: "('a \<Rightarrow> 'a \<Rightarrow> bool) \<Rightarrow> 'a list \<Rightarrow> bool" where
  "ordered lt xs \<longleftrightarrow> sorted_wrt (\<lambda>x y. \<not> lt y x) xs"

text \<open>\<open>ys\<close> is sorted, and equivalent elements stand in the order they have in \<open>xs\<close>.\<close>

definition stable_sort_of :: "('a \<Rightarrow> 'a \<Rightarrow> bool) \<Rightarrow> 'a list \<Rightarrow> 'a list \<Rightarrow> bool" where
  "stable_sort_of lt xs ys \<longleftrightarrow> ordered lt ys \<and> (\<forall>x. filter (same_rank lt x) ys = filter (same_rank lt x) xs)"

lemma ordered_simps [simp]:
  "ordered lt []"
  "ordered lt (x # xs) \<longleftrightarrow> (\<forall>y \<in> set xs. \<not> lt y x) \<and> ordered lt xs"
  "ordered lt (xs @ ys) \<longleftrightarrow> ordered lt xs \<and> ordered lt ys \<and> (\<forall>x \<in> set xs. \<forall>y \<in> set ys. \<not> lt y x)"
  by (auto simp: ordered_def sorted_wrt_append)

lemma ordered_takeI: "ordered lt xs \<Longrightarrow> ordered lt (take n xs)"
  and ordered_dropI: "ordered lt xs \<Longrightarrow> ordered lt (drop n xs)"
  by (simp_all add: ordered_def sorted_wrt_take sorted_wrt_drop)

context weak_order
begin

lemma irrefl [simp]: "\<not> lt x x"
  using asym by blast

lemma trans: "lt x y \<Longrightarrow> lt y z \<Longrightarrow> lt x z"
  using asym cotrans by blast

lemma same_rank_refl [simp]: "same_rank lt x x"
  by (simp add: same_rank_def)

lemma same_rank_less: "same_rank lt x y \<Longrightarrow> lt x z \<longleftrightarrow> lt y z" "same_rank lt x y \<Longrightarrow> lt z x \<longleftrightarrow> lt z y"
  using cotrans unfolding same_rank_def by blast+

lemma filters_mem:
  assumes "filter (same_rank lt x) ys = filter (same_rank lt x) xs" "x \<in> set ys"
  shows "x \<in> set xs"
proof -
  have "x \<in> set (filter (same_rank lt x) ys)" using assms(2) by simp
  then have "x \<in> set (filter (same_rank lt x) xs)" unfolding assms(1) .
  then show ?thesis by simp
qed

lemma stable_sort_set: "stable_sort_of lt xs ys \<Longrightarrow> set ys = set xs"
  by (auto simp: stable_sort_of_def intro: filters_mem)

lemma stable_sort_mset: assumes "stable_sort_of lt xs ys" shows "mset ys = mset xs"
proof (rule multiset_eqI)
  fix x
  have "count (filter_mset (same_rank lt x) (mset ys)) x = count (filter_mset (same_rank lt x) (mset xs)) x"
    using assms unfolding stable_sort_of_def by (metis mset_filter)
  then show "count (mset ys) x = count (mset xs) x" by simp
qed

lemma stable_sort_length: "stable_sort_of lt xs ys \<Longrightarrow> length ys = length xs"
  by (metis stable_sort_mset size_mset)

lemma ordered_unique:
  assumes "ordered lt xs" "ordered lt ys" "\<And>x. filter (same_rank lt x) xs = filter (same_rank lt x) ys"
  shows "xs = ys"
  using assms
proof (induction xs arbitrary: ys)
  case Nil
  then have "y \<notin> set ys" for y using filters_mem [OF Nil(3) [symmetric]] by auto
  then show ?case by (cases ys) auto
next
  case (Cons x xs)
  have "x \<in> set ys" by (rule filters_mem [OF Cons.prems(3)]) simp
  then obtain y zs where ys: "ys = y # zs" by (cases ys) auto
  have "y \<in> set (x # xs)" by (rule filters_mem [OF Cons.prems(3) [symmetric]]) (simp add: ys)
  then have "same_rank lt x y" using Cons.prems(1,2) \<open>x \<in> set ys\<close> ys by (auto simp: same_rank_def)
  with Cons.prems(3) [of x] ys have xy: "x = y" by simp
  have "filter (same_rank lt z) xs = filter (same_rank lt z) zs" for z
    using Cons.prems(3) [of z] ys xy by (simp split: if_splits)
  with Cons ys xy show ?case by simp
qed

lemma stable_sort_unique: "stable_sort_of lt xs ys \<Longrightarrow> stable_sort_of lt xs zs \<Longrightarrow> ys = zs"
  by (simp add: stable_sort_of_def ordered_unique)

end

section \<open>Insertion sort\<close>

text \<open>The element at \<open>j\<close> sinks while it is smaller than the one before it.\<close>

fun sink :: "('a \<Rightarrow> 'a \<Rightarrow> bool) \<Rightarrow> nat \<Rightarrow> 'a list \<Rightarrow> 'a list" where
  "sink f 0 A = A"
| "sink f (Suc j) A = (if f (A ! (j + 1)) (A ! j) then sink f j (swap (j + 1) j A) else A)"

definition insertion_sort :: "('a \<Rightarrow> 'a \<Rightarrow> bool) \<Rightarrow> nat \<Rightarrow> 'a list \<Rightarrow> 'a list" where
  "insertion_sort f n A = fold (sink f) [1..<n] A"

lemma length_sink [simp]: "length (sink f j A) = length A"
  by (induction f j A rule: sink.induct) simp_all

lemma swap_adjacent: "swap (Suc (length us)) (length us) (us @ u # x # vs) = us @ x # u # vs"
  by (simp add: swap_def list_update_append nth_append)

context weak_order
begin

lemma sink_sorts:
  "ordered lt us \<Longrightarrow> \<exists>zs. sink lt (length us) (us @ x # vs) = zs @ vs \<and> stable_sort_of lt (us @ [x]) zs"
proof (induction us arbitrary: vs rule: rev_induct)
  case Nil
  then show ?case by (intro exI [of _ "[x]"]) (simp add: stable_sort_of_def)
next
  case (snoc u us)
  show ?case
  proof (cases "lt x u")
    case True
    obtain zs where z: "sink lt (length us) (us @ x # u # vs) = zs @ u # vs" "stable_sort_of lt (us @ [x]) zs"
      using snoc by auto
    have "\<forall>y \<in> set (us @ [x]). \<not> lt u y" using snoc.prems True asym by auto
    then have "ordered lt (zs @ [u])" using z(2) stable_sort_set [OF z(2)] by (simp add: stable_sort_of_def)
    moreover have "filter (same_rank lt y) (zs @ [u]) = filter (same_rank lt y) ((us @ [u]) @ [x])" for y
    proof -
      have "\<not> (same_rank lt y u \<and> same_rank lt y x)" using True same_rank_less(2) irrefl by blast
      then show ?thesis using z(2) by (auto simp: stable_sort_of_def)
    qed
    moreover have "sink lt (length (us @ [u])) ((us @ [u]) @ x # vs) = (zs @ [u]) @ vs"
      using z(1) True swap_adjacent [of us u x vs] by (simp add: nth_append)
    ultimately show ?thesis unfolding stable_sort_of_def by blast
  next
    case False
    have "\<not> lt x y" if "y \<in> set us" for y using that snoc.prems False cotrans by fastforce
    then have "stable_sort_of lt (us @ [u, x]) (us @ [u, x])" using snoc.prems False by (auto simp: stable_sort_of_def)
    moreover have "sink lt (length (us @ [u])) ((us @ [u]) @ x # vs) = (us @ [u, x]) @ vs"
      using False by (simp add: nth_append)
    ultimately show ?thesis by (intro exI [of _ "us @ [u, x]"]) simp
  qed
qed

lemma insertion_sort_prefix:
  "n \<le> length xs \<Longrightarrow> \<exists>zs. insertion_sort lt n xs = zs @ drop n xs \<and> stable_sort_of lt (take n xs) zs"
proof (induction n)
  case 0
  then show ?case by (intro exI [of _ "[]"]) (simp add: insertion_sort_def stable_sort_of_def)
next
  case (Suc n)
  obtain zs where z: "insertion_sort lt n xs = zs @ drop n xs" "stable_sort_of lt (take n xs) zs" using Suc by auto
  have l: "length zs = n" using stable_sort_length [OF z(2)] Suc.prems by simp
  have d: "drop n xs = xs ! n # drop (Suc n) xs" using Suc.prems by (simp add: Cons_nth_drop_Suc)
  obtain ys where y: "sink lt n (zs @ xs ! n # drop (Suc n) xs) = ys @ drop (Suc n) xs" "stable_sort_of lt (zs @ [xs ! n]) ys"
    using sink_sorts [of zs "xs ! n" "drop (Suc n) xs"] z(2) l by (auto simp: stable_sort_of_def)
  have "insertion_sort lt (Suc n) xs = ys @ drop (Suc n) xs"
    using y(1) z(1) l d by (cases n) (auto simp: insertion_sort_def)
  moreover have "stable_sort_of lt (take (Suc n) xs) ys"
    using y(2) z(2) Suc.prems by (simp add: stable_sort_of_def take_Suc_conv_app_nth)
  ultimately show ?case by blast
qed

lemma insertion_sort_stable: "stable_sort_of lt xs (insertion_sort lt (length xs) xs)"
  using insertion_sort_prefix [of "length xs" xs] by auto

end

section \<open>Searching\<close>

fun linear_search :: "('a \<Rightarrow> bool) \<Rightarrow> 'a list \<Rightarrow> nat" where
  "linear_search lt [] = 0"
| "linear_search lt (x # I) = (if \<not> lt x then 0 else Suc (linear_search lt I))"

function binary_search_loop :: "('a \<Rightarrow> bool) \<Rightarrow> 'a list \<Rightarrow> nat \<Rightarrow> nat \<Rightarrow> nat \<times> nat" where
  "binary_search_loop lt I start end =
     (if end - start > 16 then
        let mid = (end + start) div 2
        in if \<not> lt (I ! mid) then binary_search_loop lt I start mid else binary_search_loop lt I (mid + 1) end
      else (start, end))"
  by pat_completeness auto

termination binary_search_loop
  by (relation "measure (\<lambda>(l, I, s, e). e - s)") auto

declare binary_search_loop.simps [simp del]

definition binary_search :: "('a \<Rightarrow> bool) \<Rightarrow> 'a list \<Rightarrow> nat" where
  "binary_search lt I =
     (let (start, end) = binary_search_loop lt I 0 (length I) in start + linear_search lt (cut start end I))"

text \<open>The forms that compare with a value.\<close>

definition linear_search_value :: "('a \<Rightarrow> 'a \<Rightarrow> bool) \<Rightarrow> 'a list \<Rightarrow> 'a \<Rightarrow> nat" where
  "linear_search_value lt I v = linear_search (\<lambda>x. lt x v) I"

definition binary_search_value :: "('a \<Rightarrow> 'a \<Rightarrow> bool) \<Rightarrow> 'a list \<Rightarrow> 'a \<Rightarrow> nat" where
  "binary_search_value lt I v =
     (let (start, end) = binary_search_loop (\<lambda>x. lt x v) I 0 (length I)
      in start + linear_search_value lt (cut start end I) v)"

lemma linear_search_eq: "linear_search p I = length (takeWhile p I)"
  by (induction p I rule: linear_search.induct) simp_all

lemma binary_search_loop_bounds:
  "s \<le> e \<Longrightarrow> binary_search_loop p I s e = (s', e') \<Longrightarrow> s \<le> s' \<and> s' \<le> e' \<and> e' \<le> e \<and> e' - s' \<le> 16"
proof (induction p I s e rule: binary_search_loop.induct)
  case (1 p I s e)
  show ?case
  proof (cases "e - s > 16")
    case True
    let ?m = "(e + s) div 2"
    have m: "s \<le> ?m" "?m < e" using True by auto
    show ?thesis
    proof (cases "p (I ! ?m)")
      case F: True
      then have "binary_search_loop p I (?m + 1) e = (s', e')" using 1(4) True by (simp add: binary_search_loop.simps [of p I s e])
      with 1(2) [OF True refl] F m show ?thesis by auto
    next
      case F: False
      then have "binary_search_loop p I s ?m = (s', e')" using 1(4) True by (simp add: binary_search_loop.simps [of p I s e])
      with 1(1) [OF True refl] F m show ?thesis by auto
    qed
  qed (use 1 in \<open>simp add: binary_search_loop.simps [of p I s e]\<close>)
qed

lemma binary_search_le: "binary_search p I \<le> length I"
proof -
  obtain s e where l: "binary_search_loop p I 0 (length I) = (s, e)" by force
  with binary_search_loop_bounds [of 0 "length I" p I s e] have b: "s \<le> e" "e \<le> length I" by auto
  have "linear_search p (cut s e I) \<le> length (cut s e I)" unfolding linear_search_eq by (rule length_takeWhile_le)
  then show ?thesis using l b by (simp add: binary_search_def)
qed

lemma binary_search_value_eq: "binary_search_value lt I v = binary_search (\<lambda>x. lt x v) I"
  by (simp add: binary_search_value_def binary_search_def linear_search_value_def)

text \<open>When the predicate changes once, from true to false, the search finds the change.\<close>

definition split_point :: "('a \<Rightarrow> bool) \<Rightarrow> 'a list \<Rightarrow> nat \<Rightarrow> bool" where
  "split_point p I k \<longleftrightarrow> k \<le> length I \<and> (\<forall>i<k. p (I ! i)) \<and> (\<forall>i. k \<le> i \<and> i < length I \<longrightarrow> \<not> p (I ! i))"

lemma split_point_loop:
  assumes "split_point p I k"
  shows "s \<le> k \<Longrightarrow> k \<le> e \<Longrightarrow> e \<le> length I \<Longrightarrow> binary_search_loop p I s e = (s', e') \<Longrightarrow> s' \<le> k \<and> k \<le> e' \<and> e' \<le> length I"
  using assms
proof (induction p I s e rule: binary_search_loop.induct)
  case (1 p I s e)
  show ?case
  proof (cases "e - s > 16")
    case True
    let ?m = "(e + s) div 2"
    have m: "s \<le> ?m" "?m < e" using True by auto
    show ?thesis
    proof (cases "p (I ! ?m)")
      case F: True
      then have "?m < k" using 1(5,7) m unfolding split_point_def by (metis not_less order_less_le_trans)
      moreover have "binary_search_loop p I (?m + 1) e = (s', e')" using 1(6) F True by (simp add: binary_search_loop.simps [of p I s e])
      ultimately show ?thesis using 1(2) [OF True refl] F 1(4,5,7) by auto
    next
      case F: False
      then have "k \<le> ?m" using 1(7) unfolding split_point_def by (metis not_less)
      moreover have "binary_search_loop p I s ?m = (s', e')" using 1(6) F True by (simp add: binary_search_loop.simps [of p I s e])
      ultimately show ?thesis using 1(1) [OF True refl] F 1(3,5,7) m by auto
    qed
  qed (use 1 in \<open>simp add: binary_search_loop.simps [of p I s e]\<close>)
qed

lemma takeWhile_split_point:
  assumes "split_point p I k" "s \<le> k" "k \<le> e" "e \<le> length I"
  shows "length (takeWhile p (cut s e I)) = k - s"
proof -
  let ?c = "cut s e I"
  have n: "?c ! i = I ! (s + i)" if "i < length ?c" for i using that assms by (simp add: cut_def)
  have "takeWhile p ?c = take (k - s) ?c"
  proof (rule takeWhile_eq_take_P_nth)
    fix i assume "i < k - s" "i < length ?c"
    then show "p (?c ! i)" using assms by (simp add: n split_point_def)
  next
    assume "k - s < length ?c"
    then show "\<not> p (?c ! (k - s))" using assms by (simp add: n split_point_def)
  qed
  then show ?thesis using assms by simp
qed

lemma binary_search_split_point:
  assumes "split_point p I k"
  shows "binary_search p I = k"
proof -
  obtain s e where l: "binary_search_loop p I 0 (length I) = (s, e)" by force
  have "s \<le> k" "k \<le> e" "e \<le> length I"
    using split_point_loop [OF assms _ _ _ l] assms by (auto simp: split_point_def)
  then show ?thesis using l takeWhile_split_point [OF assms] by (simp add: binary_search_def linear_search_eq)
qed

lemma ordered_split_point:
  assumes "weak_order lt" "ordered lt I"
  shows "split_point (\<lambda>x. lt x v) I (length (takeWhile (\<lambda>x. lt x v) I))"
proof -
  have "\<not> lt (I ! i) v" if i: "length (takeWhile (\<lambda>x. lt x v) I) \<le> i" "i < length I" for i
  proof -
    let ?k = "length (takeWhile (\<lambda>x. lt x v) I)"
    have k: "\<not> lt (I ! ?k) v" using i nth_length_takeWhile [of "\<lambda>x. lt x v" I] by linarith
    have "\<not> lt (I ! i) (I ! ?k)" using i assms(2) weak_order.asym [OF assms(1), of "I ! i" "I ! i"]
      by (cases "i = ?k") (auto simp: ordered_def sorted_wrt_iff_nth_less)
    with k weak_order.cotrans [OF assms(1), of "I ! i" v "I ! ?k"] show ?thesis by blast
  qed
  moreover have "lt (I ! i) v" if "i < length (takeWhile (\<lambda>x. lt x v) I)" for i
    using that takeWhile_nth [OF that] nth_mem [OF that] set_takeWhileD by metis
  ultimately show ?thesis by (simp add: split_point_def length_takeWhile_le)
qed

section \<open>Merging\<close>

fun seq_merge :: "('a \<Rightarrow> 'a \<Rightarrow> bool) \<Rightarrow> 'a list \<Rightarrow> 'a list \<Rightarrow> 'a list" where
  "seq_merge f [] B = B"
| "seq_merge f (a # A) [] = a # A"
| "seq_merge f (a # A) (b # B) = (if f b a then b # seq_merge f (a # A) B else a # seq_merge f A (b # B))"

definition merge_base :: nat where "merge_base = 2000"

function merge_into :: "('a \<Rightarrow> 'a \<Rightarrow> bool) \<Rightarrow> 'a list \<Rightarrow> 'a list \<Rightarrow> 'a list" where
  "merge_into f A B =
     (let nA = length A; nB = length B; nR = nA + nB
      in if nR < merge_base then seq_merge f A B
         else if nA = 0 then B
         else if nB = 0 then A
         else let mA = nA div 2;
                  mB = binary_search_value f B (A ! mA);
                  mA = (if mB = 0 then mA + 1 else mA)
              in merge_into f (cut 0 mA A) (cut 0 mB B) @ merge_into f (cut mA nA A) (cut mB nB B))"
  by pat_completeness auto

lemma merge_split_bounds:
  assumes "A \<noteq> []" "B \<noteq> []" "mB = binary_search_value f B (A ! (length A div 2))"
    "mA = (if mB = 0 then length A div 2 + 1 else length A div 2)"
  shows "mA \<le> length A" "mB \<le> length B" "0 < mA + mB" "mA + mB < length A + length B"
proof -
  have p: "0 < length A" "0 < length B" using assms(1,2) by simp_all
  have m: "mB \<le> length B" unfolding assms(3) binary_search_value_eq by (rule binary_search_le)
  consider "mB = 0" "mA = length A div 2 + 1" | "0 < mB" "mA = length A div 2" using assms(4) by (cases "mB = 0") simp_all
  then have "mA \<le> length A \<and> mB \<le> length B \<and> 0 < mA + mB \<and> mA + mB < length A + length B"
    by cases (use p m in linarith)+
  then show "mA \<le> length A" "mB \<le> length B" "0 < mA + mB" "mA + mB < length A + length B" by simp_all
qed

termination merge_into
proof (relation "measure (\<lambda>(f, A, B). length A + length B)", goal_cases)
  case (2 f A B nA nB nR mA mB mA')
  then show ?case using merge_split_bounds [of A B mB f mA'] by auto
next
  case (3 f A B nA nB nR mA mB mA')
  then show ?case using merge_split_bounds [of A B mB f mA'] by auto
qed simp

declare merge_into.simps [simp del]

definition merge :: "('a \<Rightarrow> 'a \<Rightarrow> bool) \<Rightarrow> 'a list \<Rightarrow> 'a list \<Rightarrow> 'a list" where
  "merge f A B = merge_into f A B"

section \<open>Merge sort\<close>

definition merge_sort_base :: nat where "merge_sort_base = 48"

text \<open>Both buffers afterwards; with \<open>inplace\<close> the result is in the first.\<close>

function merge_sort_rec ::
  "('a \<Rightarrow> 'a \<Rightarrow> bool) \<Rightarrow> bool \<Rightarrow> 'a option list \<Rightarrow> 'a option list \<Rightarrow> ('a option list \<times> 'a option list) option" where
  "merge_sort_rec f inplace In Out =
     (let n = length In
      in if n < merge_sort_base then
           Option.bind (those In) (\<lambda>xs. let ys = map Some (insertion_sort f n xs)
             in Some (if inplace then (ys, Out) else (uninitialized n, ys)))
         else let m = n div 2
              in Option.bind (merge_sort_rec f (\<not> inplace) (cut 0 m In) (cut 0 m Out)) (\<lambda>(In1, Out1).
                 Option.bind (merge_sort_rec f (\<not> inplace) (cut m n In) (cut m n Out)) (\<lambda>(In2, Out2).
                 let (src1, src2) = (if inplace then (Out1, Out2) else (In1, In2))
                 in Option.bind (those src1) (\<lambda>A. Option.bind (those src2) (\<lambda>B.
                    let R = map Some (merge_into f A B)
                    in Some (if inplace then (R, uninitialized n) else (uninitialized n, R)))))))"
  by pat_completeness auto

termination merge_sort_rec
  by (relation "measure (\<lambda>(f, i, In, Out). length In)") (auto simp: merge_sort_base_def)

declare merge_sort_rec.simps [simp del]

definition merge_sort_inplace :: "('a \<Rightarrow> 'a \<Rightarrow> bool) \<Rightarrow> 'a list \<Rightarrow> 'a list option" where
  "merge_sort_inplace f In =
     (let n = length In
      in if n \<le> merge_sort_base then Some (insertion_sort f n In)
         else Option.bind (merge_sort_rec f True (map Some In) (uninitialized n)) (\<lambda>(In, B). those In))"

definition merge_sort :: "('a \<Rightarrow> 'a \<Rightarrow> bool) \<Rightarrow> 'a list \<Rightarrow> 'a list option" where
  "merge_sort f In = (let A = In in merge_sort_inplace f A)"

context weak_order
begin

lemma merge_induct:
  "(\<And>B. P [] B) \<Longrightarrow> (\<And>a A. P (a # A) []) \<Longrightarrow>
    (\<And>a A b B. P (a # A) B \<Longrightarrow> P A (b # B) \<Longrightarrow> P (a # A) (b # B)) \<Longrightarrow> P A B"
  by induction_schema (pat_completeness, lexicographic_order)

lemma set_seq_merge: "set (seq_merge lt A B) = set A \<union> set B"
  by (induction A B rule: merge_induct) auto

lemma seq_merge_ordered:
  "ordered lt A \<Longrightarrow> ordered lt B \<Longrightarrow> ordered lt (seq_merge lt A B)"
proof (induction A B rule: merge_induct)
  case (3 a A b B)
  show ?case
  proof (cases "lt b a")
    case True
    have "\<not> lt y b" if "y \<in> set A" for y using 3 that True cotrans asym by (metis ordered_simps(2))
    with True 3 show ?thesis using asym by (auto simp: set_seq_merge)
  next
    case False
    have "\<not> lt y a" if "y \<in> set B" for y using 3 that False cotrans by (metis ordered_simps(2))
    with False 3 show ?thesis by (auto simp: set_seq_merge)
  qed
qed simp_all

lemma seq_merge_stable:
  "ordered lt A \<Longrightarrow> ordered lt B \<Longrightarrow> filter (same_rank lt x) (seq_merge lt A B) = filter (same_rank lt x) (A @ B)"
proof (induction A B rule: merge_induct)
  case (3 a A b B)
  show ?case
  proof (cases "lt b a")
    case True
    have "filter (same_rank lt x) (a # A) = []" if "same_rank lt x b"
    proof -
      have "\<not> same_rank lt x y" if "y \<in> set (a # A)" for y
      proof -
        have "\<not> lt y a" using 3(3) that by auto
        then have "lt b y" using True cotrans by blast
        then have "lt x y" using same_rank_less(1) [OF \<open>same_rank lt x b\<close>] by simp
        then show ?thesis by (simp add: same_rank_def)
      qed
      then show ?thesis by (simp add: filter_empty_conv)
    qed
    with True 3 show ?thesis by (auto split: if_splits)
  next
    case False
    with 3 show ?thesis by simp
  qed
qed simp_all

lemma seq_merge_stable_sort: "ordered lt A \<Longrightarrow> ordered lt B \<Longrightarrow> stable_sort_of lt (A @ B) (seq_merge lt A B)"
  by (simp add: stable_sort_of_def seq_merge_ordered seq_merge_stable)

lemma merge_halves:
  assumes "ordered lt (A1 @ A2)" "ordered lt (B1 @ B2)"
    and "\<And>a b. b \<in> set B1 \<Longrightarrow> a \<in> set A2 \<Longrightarrow> lt b a" and "\<And>a b. a \<in> set A1 \<Longrightarrow> b \<in> set B2 \<Longrightarrow> \<not> lt b a"
    and M1: "stable_sort_of lt (A1 @ B1) M1" and M2: "stable_sort_of lt (A2 @ B2) M2"
  shows "stable_sort_of lt ((A1 @ A2) @ (B1 @ B2)) (M1 @ M2)"
proof -
  have "ordered lt (M1 @ M2)"
    using assms asym stable_sort_set [OF M1] stable_sort_set [OF M2] by (auto simp: stable_sort_of_def)
  moreover have "filter (same_rank lt x) (M1 @ M2) = filter (same_rank lt x) ((A1 @ A2) @ (B1 @ B2))" for x
  proof -
    have "filter (same_rank lt x) B1 = [] \<or> filter (same_rank lt x) A2 = []"
    proof (rule ccontr)
      assume "\<not> ?thesis"
      then obtain a b where "b \<in> set B1" "same_rank lt x b" "a \<in> set A2" "same_rank lt x a" by (auto simp: filter_empty_conv)
      then show False using assms(3) same_rank_less(1) by (metis same_rank_def)
    qed
    then show ?thesis using M1 M2 by (auto simp: stable_sort_of_def)
  qed
  ultimately show ?thesis by (simp add: stable_sort_of_def)
qed

lemma ordered_nth: "ordered lt xs \<Longrightarrow> i \<le> j \<Longrightarrow> j < length xs \<Longrightarrow> \<not> lt (xs ! j) (xs ! i)"
  by (cases "i = j") (auto simp: ordered_def sorted_wrt_iff_nth_less)

lemma merge_into_stable:
  "ordered lt A \<Longrightarrow> ordered lt B \<Longrightarrow> stable_sort_of lt (A @ B) (merge_into lt A B)"
proof (induction "length A + length B" arbitrary: A B rule: less_induct)
  case less
  consider "length A + length B < merge_base" | "\<not> length A + length B < merge_base" "A = [] \<or> B = []"
    | "\<not> length A + length B < merge_base" "A \<noteq> []" "B \<noteq> []" by blast
  then show ?case
  proof cases
    case 1
    then show ?thesis using less.prems by (simp add: merge_into.simps [of lt A B] seq_merge_stable_sort)
  next
    case 2
    then show ?thesis using less.prems by (auto simp: merge_into.simps [of lt A B] Let_def stable_sort_of_def)
  next
    case 3
    define m where "m = length A div 2"
    define mB where "mB = binary_search_value lt B (A ! m)"
    define mA where "mA = (if mB = 0 then m + 1 else m)"
    have b: "mA \<le> length A" "mB \<le> length B" "0 < mA + mB" "mA + mB < length A + length B"
      using merge_split_bounds [OF 3(2,3) mB_def [unfolded m_def] mA_def [unfolded m_def]] by simp_all
    have m: "m < length A" using 3(2) by (simp add: m_def)
    have sp: "split_point (\<lambda>x. lt x (A ! m)) B mB"
      using ordered_split_point [OF weak_order_axioms less.prems(2)] binary_search_split_point
      by (metis mB_def binary_search_value_eq)
    have e: "merge_into lt A B = merge_into lt (take mA A) (take mB B) @ merge_into lt (drop mA A) (drop mB B)"
      using 3 by (simp add: merge_into.simps [of lt A B] Let_def m_def mB_def mA_def cut_def)
    have "stable_sort_of lt ((take mA A @ drop mA A) @ (take mB B @ drop mB B))
        (merge_into lt (take mA A) (take mB B) @ merge_into lt (drop mA A) (drop mB B))"
    proof (rule merge_halves)
      fix x y assume y: "y \<in> set (take mB B)" and x: "x \<in> set (drop mA A)"
      then have "mA = m" unfolding mA_def by (cases "mB = 0") simp_all
      then have "\<not> lt x (A ! m)" using x ordered_nth [OF less.prems(1), of m] by (auto simp: in_set_conv_nth)
      moreover have "lt y (A ! m)" using y sp by (auto simp: in_set_conv_nth split_point_def)
      ultimately show "lt y x" using cotrans by blast
    next
      fix x y assume x: "x \<in> set (take mA A)" and y: "y \<in> set (drop mB B)"
      have "\<not> lt (A ! m) x"
      proof -
        obtain i where "i < mA" "i < length A" "x = A ! i" using x by (auto simp: in_set_conv_nth)
        then show ?thesis using ordered_nth [OF less.prems(1), of i m] m by (simp add: mA_def split: if_splits)
      qed
      moreover have "\<not> lt y (A ! m)" using y sp by (auto simp: in_set_conv_nth split_point_def)
      ultimately show "\<not> lt y x" using cotrans by blast
    qed (use less b in \<open>auto intro!: less.hyps ordered_takeI ordered_dropI\<close>)
    then show ?thesis unfolding e by simp
  qed
qed

lemma merge_into_eq: "ordered lt A \<Longrightarrow> ordered lt B \<Longrightarrow> merge_into lt A B = seq_merge lt A B"
  using merge_into_stable seq_merge_stable_sort stable_sort_unique by blast

lemma stable_sort_append:
  "stable_sort_of lt xs ys \<Longrightarrow> stable_sort_of lt xs' ys' \<Longrightarrow> stable_sort_of lt (xs @ xs') (merge_into lt ys ys')"
  using merge_into_stable [of ys ys'] by (simp add: stable_sort_of_def)

lemma merge_sort_rec_stable:
  "length Out = length xs \<Longrightarrow> \<exists>R X. stable_sort_of lt xs R \<and>
    merge_sort_rec lt inplace (map Some xs) Out =
      Some (if inplace then (map Some R, X) else (X, map Some R))"
proof (induction "length xs" arbitrary: xs Out inplace rule: less_induct)
  case less
  let ?n = "length xs" and ?m = "length xs div 2"
  show ?case
  proof (cases "?n < merge_sort_base")
    case True
    then show ?thesis using insertion_sort_stable [of xs]
      by (intro exI [of _ "insertion_sort lt ?n xs"] exI [of _ "if inplace then Out else uninitialized ?n"])
        (simp add: merge_sort_rec.simps [of lt inplace] Let_def)
  next
    case False
    then have "0 < ?m" "?m < ?n" by (simp_all add: merge_sort_base_def)
    then have m: "0 < ?m" "?m < ?n" "?n - ?m < ?n" by linarith+
    obtain R1 X1 where 1: "stable_sort_of lt (take ?m xs) R1" "merge_sort_rec lt (\<not> inplace) (map Some (take ?m xs)) (cut 0 ?m Out) =
        Some (if \<not> inplace then (map Some R1, X1) else (X1, map Some R1))"
      using less.hyps [of "take ?m xs" "cut 0 ?m Out" "\<not> inplace"] m less.prems by auto
    obtain R2 X2 where 2: "stable_sort_of lt (drop ?m xs) R2" "merge_sort_rec lt (\<not> inplace) (map Some (drop ?m xs)) (cut ?m ?n Out) =
        Some (if \<not> inplace then (map Some R2, X2) else (X2, map Some R2))"
      using less.hyps [of "drop ?m xs" "cut ?m ?n Out" "\<not> inplace"] m less.prems by auto
    have c: "cut 0 ?m xs = take ?m xs" "cut ?m ?n xs = drop ?m xs" by (simp_all add: cut_def)
    have "stable_sort_of lt xs (merge_into lt R1 R2)" using stable_sort_append [OF 1(1) 2(1)] by simp
    moreover have "merge_sort_rec lt inplace (map Some xs) Out = Some (if inplace then (map Some (merge_into lt R1 R2), uninitialized ?n)
        else (uninitialized ?n, map Some (merge_into lt R1 R2)))"
      by (subst merge_sort_rec.simps) (use False 1(2) 2(2) in \<open>simp add: Let_def c\<close>)
    ultimately show ?thesis by (intro exI [of _ "merge_into lt R1 R2"] exI [of _ "uninitialized ?n"]) simp
  qed
qed

lemma merge_sort_stable: "\<exists>ys. merge_sort lt xs = Some ys \<and> stable_sort_of lt xs ys"
proof (cases "length xs \<le> merge_sort_base")
  case False
  obtain R X where "stable_sort_of lt xs R" "merge_sort_rec lt True (map Some xs) (uninitialized (length xs)) = Some (map Some R, X)"
    using merge_sort_rec_stable [of "uninitialized (length xs)" xs True] by (auto simp: uninitialized_def)
  then show ?thesis using False by (simp add: merge_sort_def merge_sort_inplace_def Let_def)
qed (use insertion_sort_stable [of xs] in \<open>simp add: merge_sort_def merge_sort_inplace_def Let_def\<close>)

end

section \<open>Properties\<close>

text \<open>\<^verbatim>\<open>std::less\<close> on a key of the elements.\<close>

definition less_key :: "('a \<Rightarrow> u64) \<Rightarrow> 'a \<Rightarrow> 'a \<Rightarrow> bool" where
  "less_key g x y \<longleftrightarrow> g x < g y"

interpretation less_key: weak_order "less_key g" for g :: "'a \<Rightarrow> u64"
  by unfold_locales (auto simp: less_key_def)

text \<open>On a sorted range the binary search returns the number of elements less than the value, which is the index of the
  first that is not.\<close>

theorem binary_search_lower_bound:
  assumes "weak_order lt" and "ordered lt I"
  shows "binary_search_value lt I v = length (filter (\<lambda>x. lt x v) I) \<and>
    (\<forall>i < length I. lt (I ! i) v \<longleftrightarrow> i < binary_search_value lt I v)"
proof -
  let ?k = "length (takeWhile (\<lambda>x. lt x v) I)"
  have sp: "split_point (\<lambda>x. lt x v) I ?k" by (rule ordered_split_point [OF assms])
  have "binary_search_value lt I v = ?k" unfolding binary_search_value_eq by (rule binary_search_split_point [OF sp])
  moreover have "\<forall>i < length I. lt (I ! i) v \<longleftrightarrow> i < ?k" using sp by (auto simp: split_point_def not_less [symmetric])
  moreover from this have "{i. i < length I \<and> lt (I ! i) v} = {..<?k}" using length_takeWhile_le [of "\<lambda>x. lt x v" I] by auto
  ultimately show ?thesis by (simp add: length_filter_conv_card)
qed

theorem binary_search_lower_bound_witness:
  "binary_search_value (less_key (\<lambda>x. x)) [2, 5, 5, 9] 5 = 1"
  using binary_search_lower_bound [OF less_key.weak_order_axioms, of "\<lambda>x. x" "[2, 5, 5, 9]" 5]
  by (simp add: less_key_def word_less_nat_alt)

text \<open>C35. Merge sort returns for every input and every strict weak order, never reading a slot whose element was moved away;
  its result is a sorted permutation of the input in which equivalent elements keep their order.\<close>

theorem merge_sort_correct:
  assumes "weak_order lt"
  shows "\<exists>ys. merge_sort lt xs = Some ys \<and> mset ys = mset xs \<and> sorted_wrt (\<lambda>x y. \<not> lt y x) ys \<and>
    (\<forall>x. filter (\<lambda>y. \<not> lt x y \<and> \<not> lt y x) ys = filter (\<lambda>y. \<not> lt x y \<and> \<not> lt y x) xs)"
proof -
  obtain ys where ys: "merge_sort lt xs = Some ys" "stable_sort_of lt xs ys" using weak_order.merge_sort_stable [OF assms] by blast
  have "same_rank lt x = (\<lambda>y. \<not> lt x y \<and> \<not> lt y x)" for x by (auto simp: same_rank_def)
  with ys weak_order.stable_sort_mset [OF assms ys(2)] show ?thesis by (auto simp: stable_sort_of_def ordered_def)
qed

theorem merge_sort_correct_witness:
  "\<exists>ys. merge_sort (less_key fst) [(3, ''a''), (1, ''b''), (3, ''c'')] = Some ys \<and>
    filter (\<lambda>y. fst y = 3) ys = [(3, ''a''), (3, ''c'')]"
proof -
  have e: "(\<lambda>y. \<not> less_key fst (3, []) y \<and> \<not> less_key fst y (3, [])) = (\<lambda>y :: u64 \<times> string. fst y = 3)"
    by (auto simp: less_key_def not_less)
  obtain ys where ys: "merge_sort (less_key fst) [(3, ''a''), (1, ''b''), (3, ''c'')] = Some ys"
      "\<forall>x. filter (\<lambda>y. \<not> less_key fst x y \<and> \<not> less_key fst y x) ys =
        filter (\<lambda>y. \<not> less_key fst x y \<and> \<not> less_key fst y x) [(3, ''a''), (1, ''b''), (3, ''c'')]"
    using merge_sort_correct [OF less_key.weak_order_axioms] by blast
  have "filter (\<lambda>y. fst y = 3) ys = filter (\<lambda>y. fst y = 3) [(3, ''a''), (1, ''b''), (3, ''c'')]"
    using ys(2) [rule_format, of "(3, [])"] unfolding e .
  with ys(1) show ?thesis by simp
qed

end
