(* ===== verification/Parlay_Quicksort.thy ===== *)
theory Parlay_Quicksort
  imports Parlay_Merge
begin

text \<open>
  Dual-pivot quicksort (\<^verbatim>\<open>lib/parlay/internal/quicksort.h\<close>). The scans of the partition run over the array without a bound of their
  own; a scan that leaves the array has no result. A call sorts its own part of the array, so the sorted parts are put side by side.
\<close>

section \<open>Partition\<close>

definition base_case :: "bool \<Rightarrow> nat \<Rightarrow> bool" where
  "base_case large n = (if large then n < 16 else n < 24)"

definition sort5 :: "('a \<Rightarrow> 'a \<Rightarrow> bool) \<Rightarrow> 'a list \<Rightarrow> 'a list" where
  "sort5 f A =
     (let n = length A; size = 5;
          A = fold (\<lambda>i A. let j = i + unat (hash64 (of_nat i) mod of_nat (n - i)) in swap i j A) [0..<size] A
      in insertion_sort f size A)"

function skip_up :: "('a \<Rightarrow> bool) \<Rightarrow> 'a list \<Rightarrow> nat \<Rightarrow> nat option" where
  "skip_up p A i = (if i < length A then if p (A ! i) then skip_up p A (i + 1) else Some i else None)"
  by pat_completeness auto

termination skip_up by (relation "measure (\<lambda>(p, A, i). length A - i)") auto

declare skip_up.simps [simp del]

fun skip_down :: "('a \<Rightarrow> bool) \<Rightarrow> 'a list \<Rightarrow> nat \<Rightarrow> nat option" where
  "skip_down p A 0 = (if 0 < length A \<and> \<not> p (A ! 0) then Some 0 else None)"
| "skip_down p A (Suc i) = (if Suc i < length A then if p (A ! Suc i) then skip_down p A i else Some (Suc i) else None)"

partial_function (option) partition_loop ::
  "('a \<Rightarrow> 'a \<Rightarrow> bool) \<Rightarrow> 'a \<Rightarrow> 'a \<Rightarrow> 'a list \<Rightarrow> nat \<Rightarrow> nat \<Rightarrow> nat \<Rightarrow> ('a list \<times> nat \<times> nat \<times> nat) option" where
  "partition_loop f p1 p2 A L M R =
     (if M \<le> R then
        if f (A ! M) p1 then partition_loop f p1 p2 (swap M L A) (L + 1) (M + 1) R
        else if f p2 (A ! M) then
          let A = swap M R A;
              (A, L) = (if f (A ! M) p1 then (swap L M A, L + 1) else (A, L))
          in Option.bind (skip_down (f p2) A (R - 1)) (\<lambda>R. partition_loop f p1 p2 A L (M + 1) R)
        else partition_loop f p1 p2 A L (M + 1) R
      else Some (A, L, M, R))"

text \<open>The partitioned array, where the second and third part start, and whether the pivots are equal.\<close>

definition split3 :: "('a \<Rightarrow> 'a \<Rightarrow> bool) \<Rightarrow> 'a list \<Rightarrow> ('a list \<times> nat \<times> nat \<times> bool) option" where
  "split3 f A =
     (let n = length A
      in if n < 5 then None
         else let A = sort5 f A; A = swap 0 1 A; A = swap 1 3 A; p1 = A ! 0; p2 = A ! 1; pivots_equal = (\<not> f p1 p2)
              in Option.bind (skip_up (\<lambda>x. f x p1) A 2) (\<lambda>L.
                 Option.bind (skip_down (f p2) A (n - 1)) (\<lambda>R.
                 Option.bind (partition_loop f p1 p2 A L L R) (\<lambda>(A, L, M, R).
                   let L = L - 2; A = swap 1 (L + 1) A; A = swap 0 L A; A = swap (L + 1) R A
                   in Some (A, L, M, pivots_equal)))))"

section \<open>Sorting\<close>

partial_function (option) quicksort_serial :: "bool \<Rightarrow> ('a \<Rightarrow> 'a \<Rightarrow> bool) \<Rightarrow> 'a list \<Rightarrow> 'a list option" where
  "quicksort_serial large f A =
     (if base_case large (length A) then Some (insertion_sort f (length A) A)
      else Option.bind (split3 f A) (\<lambda>(A, L, M, mid_eq).
             Option.bind (if mid_eq then Some (cut (L + 1) M A) else quicksort_serial large f (cut (L + 1) M A)) (\<lambda>mid.
             Option.bind (quicksort_serial large f (drop M A)) (\<lambda>right.
             Option.bind (quicksort_serial large f (take L A)) (\<lambda>left.
               Some (left @ A ! L # mid @ right))))))"

partial_function (option) quicksort :: "bool \<Rightarrow> ('a \<Rightarrow> 'a \<Rightarrow> bool) \<Rightarrow> 'a list \<Rightarrow> 'a list option" where
  "quicksort large f A =
     (if length A < 2 ^ 8 then quicksort_serial large f A
      else Option.bind (split3 f A) (\<lambda>(A, L, M, mid_eq).
             Option.bind (quicksort large f (take L A)) (\<lambda>left.
             Option.bind (if mid_eq then Some (cut (L + 1) M A) else quicksort large f (cut (L + 1) M A)) (\<lambda>mid.
             Option.bind (quicksort large f (drop M A)) (\<lambda>right.
               Some (left @ A ! L # mid @ right))))))"

section \<open>The partition works\<close>

lemma length_insertion_sort [simp]: "length (insertion_sort f n A) = length A"
proof -
  have "length (fold (sink f) is A) = length A" for "is" by (induction "is" arbitrary: A) simp_all
  then show ?thesis by (simp add: insertion_sort_def)
qed

lemma sample_index: "i < n \<Longrightarrow> n < 2 ^ 64 \<Longrightarrow> i + unat ((h :: u64) mod of_nat (n - i)) < n"
proof -
  assume a: "i < n" "n < 2 ^ 64"
  then have "unat (of_nat (n - i) :: u64) = n - i" by (simp add: unat_of_nat take_bit_eq_mod del: of_nat_diff)
  then have "unat (h mod of_nat (n - i)) = unat h mod (n - i)" by (simp add: unat_mod)
  then show ?thesis using a mod_less_divisor [of "n - i" "unat h"] by linarith
qed

lemma skip_down_found:
  "i < length A \<Longrightarrow> j \<le> i \<Longrightarrow> \<not> p (A ! j) \<Longrightarrow>
    \<exists>k. skip_down p A i = Some k \<and> j \<le> k \<and> k \<le> i \<and> \<not> p (A ! k) \<and> (\<forall>m. k < m \<and> m \<le> i \<longrightarrow> p (A ! m))"
proof (induction i)
  case (Suc i)
  show ?case
  proof (cases "p (A ! Suc i)")
    case True
    then have "j \<le> i" using Suc.prems by (metis le_SucE)
    then obtain k where "skip_down p A i = Some k" "j \<le> k" "k \<le> i" "\<not> p (A ! k)" "\<forall>m. k < m \<and> m \<le> i \<longrightarrow> p (A ! m)"
      using Suc by auto
    then show ?thesis using True Suc.prems by (auto simp: le_Suc_eq)
  next
    case False
    then show ?thesis using Suc.prems by auto
  qed
qed auto

definition part_inv :: "('a \<Rightarrow> 'a \<Rightarrow> bool) \<Rightarrow> 'a \<Rightarrow> 'a \<Rightarrow> 'a list \<Rightarrow> nat \<Rightarrow> nat \<Rightarrow> nat \<Rightarrow> bool" where
  "part_inv f p1 p2 A L M R \<longleftrightarrow>
     2 \<le> L \<and> L \<le> M \<and> M \<le> R + 1 \<and> R < length A \<and> A ! 0 = p1 \<and> A ! 1 = p2 \<and> \<not> f p2 (A ! R) \<and>
     (\<forall>i. 2 \<le> i \<and> i < L \<longrightarrow> f (A ! i) p1) \<and> (\<forall>i. L \<le> i \<and> i < M \<longrightarrow> \<not> f (A ! i) p1 \<and> \<not> f p2 (A ! i)) \<and>
     (\<forall>i. R < i \<and> i < length A \<longrightarrow> f p2 (A ! i))"

context weak_order
begin

lemma below_pivots: "\<not> lt p2 p1 \<Longrightarrow> lt x p1 \<Longrightarrow> \<not> lt p2 x"
  using trans by blast

lemma part_inv_low:
  assumes "part_inv lt p1 p2 A L M R" "\<not> lt p2 p1" "M \<le> R" "lt (A ! M) p1"
  shows "part_inv lt p1 p2 (swap M L A) (L + 1) (M + 1) R"
proof -
  have b: "2 \<le> L" "L \<le> M" "R < length A" using assms by (auto simp: part_inv_def)
  have s: "swap M L A ! i = (if i = M then A ! L else if i = L then A ! M else A ! i)" if "i < length A" for i
    using that b assms(3) by (simp add: nth_swap)
  have M: "\<not> lt p2 (A ! M)" using below_pivots assms(2,4) by blast
  have inv: "\<And>i. 2 \<le> i \<Longrightarrow> i < L \<Longrightarrow> lt (A ! i) p1" "\<And>i. L \<le> i \<Longrightarrow> i < M \<Longrightarrow> \<not> lt (A ! i) p1 \<and> \<not> lt p2 (A ! i)"
      "\<And>i. R < i \<Longrightarrow> i < length A \<Longrightarrow> lt p2 (A ! i)" "\<not> lt p2 (A ! R)" "A ! 0 = p1" "A ! 1 = p2"
    using assms(1) by (auto simp: part_inv_def)
  let ?A = "swap M L A"
  have "lt (?A ! i) p1" if "2 \<le> i" "i < L + 1" for i using that inv(1) [of i] b assms(3,4) by (auto simp: s less_Suc_eq)
  moreover have "\<not> lt (?A ! i) p1 \<and> \<not> lt p2 (?A ! i)" if "L + 1 \<le> i" "i < M + 1" for i
    using that inv(2) [of i] inv(2) [of L] b assms(3) by (auto simp: s less_Suc_eq)
  moreover have "lt p2 (?A ! i)" if "R < i" "i < length A" for i using that inv(3) [of i] b assms(3) by (auto simp: s)
  moreover have "\<not> lt p2 (?A ! R)"
  proof -
    have "\<not> lt p2 (A ! L)" using inv(2) [of L] M b by (cases "L = M") auto
    then show ?thesis using inv(4) M b by (simp add: s)
  qed
  moreover have "0 < length A" "1 < length A" using b assms(3) by linarith+
  then have "?A ! 0 = p1" "?A ! 1 = p2" using inv(5,6) b assms(3) s [of 0] s [of 1] by simp_all
  ultimately show ?thesis using b assms(3) unfolding part_inv_def by simp
qed

lemma part_inv_high:
  assumes inv: "part_inv lt p1 p2 A L M R" "\<not> lt p2 p1" "M \<le> R" "\<not> lt (A ! M) p1" "lt p2 (A ! M)"
    and AL: "(A2, L2) = (let A = swap M R A in if lt (A ! M) p1 then (swap L M A, L + 1) else (A, L))"
  shows "\<exists>R2. skip_down (lt p2) A2 (R - 1) = Some R2 \<and> part_inv lt p1 p2 A2 L2 (M + 1) R2 \<and> R2 \<le> R \<and> mset A2 = mset A"
proof -
  have b: "2 \<le> L" "L \<le> M" "R < length A" "\<not> lt p2 (A ! R)" "A ! 0 = p1" "A ! 1 = p2" using inv by (auto simp: part_inv_def)
  then have MR: "M < R" using inv(3,5) by (cases "M = R") auto
  have s: "swap M R A ! i = (if i = M then A ! R else if i = R then A ! M else A ! i)" if "i < length A" for i
    using that b MR by (simp add: nth_swap)
  have s2: "swap L M (swap M R A) ! i = (if i = L then A ! R else if i = M then A ! L else if i = R then A ! M else A ! i)"
    if "i < length A" for i using that b MR by (auto simp: nth_swap)
  have len: "length A2 = length A" and ms: "mset A2 = mset A" using AL b MR by (auto simp: Let_def split: if_splits)
  have m: "\<not> lt p2 (A2 ! M)"
    using AL b MR inv unfolding part_inv_def by (auto simp: s s2 Let_def split: if_splits)
  obtain R2 where R2: "skip_down (lt p2) A2 (R - 1) = Some R2" "M \<le> R2" "R2 \<le> R - 1" "\<not> lt p2 (A2 ! R2)"
      "\<forall>i. R2 < i \<and> i \<le> R - 1 \<longrightarrow> lt p2 (A2 ! i)"
  proof -
    have "R - 1 < length A2" "M \<le> R - 1" using MR b(3) len by simp_all
    then show ?thesis using skip_down_found [of "R - 1" A2 M "lt p2"] m that by blast
  qed
  have hi: "lt p2 (A2 ! i)" if "R2 < i" "i < length A2" for i
  proof (cases "i \<le> R - 1")
    case True
    with R2(5) that show ?thesis by blast
  next
    case False
    then show ?thesis using AL that b MR inv len unfolding part_inv_def by (auto simp: s s2 Let_def split: if_splits)
  qed
  have lo: "lt (A2 ! i) p1" if "2 \<le> i" "i < L2" for i
    using AL that b MR inv unfolding part_inv_def by (auto simp: s s2 Let_def less_Suc_eq split: if_splits)
  have mid: "\<not> lt (A2 ! i) p1 \<and> \<not> lt p2 (A2 ! i)" if "L2 \<le> i" "i < M + 1" for i
    using AL that b MR inv unfolding part_inv_def by (auto simp: s s2 Let_def less_Suc_eq split: if_splits)
  have "0 < length A" "1 < length A" using b MR by linarith+
  then have "A2 ! 0 = p1" "A2 ! 1 = p2" "2 \<le> L2" "L2 \<le> M + 1"
    using AL b MR by (auto simp: s s2 Let_def split: if_splits)
  then have "part_inv lt p1 p2 A2 L2 (M + 1) R2"
    using hi lo mid R2 MR b len unfolding part_inv_def by auto
  then show ?thesis using R2 ms by auto
qed

lemma partition_loop_ok:
  "part_inv lt p1 p2 A L M R \<Longrightarrow> \<not> lt p2 p1 \<Longrightarrow>
    \<exists>A' L' M' R'. partition_loop lt p1 p2 A L M R = Some (A', L', M', R') \<and> part_inv lt p1 p2 A' L' M' R' \<and> M' = R' + 1 \<and> mset A' = mset A"
proof (induction "R + 1 - M" arbitrary: A L M R rule: less_induct)
  case less
  have b: "L \<le> M" "R < length A" "M \<le> R + 1" using less.prems by (auto simp: part_inv_def)
  consider "\<not> M \<le> R" | "M \<le> R" "lt (A ! M) p1" | "M \<le> R" "\<not> lt (A ! M) p1" "lt p2 (A ! M)"
    | "M \<le> R" "\<not> lt (A ! M) p1" "\<not> lt p2 (A ! M)" by blast
  then show ?case
  proof cases
    case 1
    then show ?thesis using less.prems b by (auto simp: partition_loop.simps)
  next
    case 2
    have i: "part_inv lt p1 p2 (swap M L A) (L + 1) (M + 1) R" using part_inv_low [OF less.prems 2] .
    have "mset (swap M L A) = mset A" using b 2 by simp
    then show ?thesis using less.hyps [OF _ i less.prems(2)] 2 by (auto simp: partition_loop.simps [of _ _ _ A])
  next
    case 3
    obtain A2 L2 where AL: "(A2, L2) = (let A = swap M R A in if lt (A ! M) p1 then (swap L M A, L + 1) else (A, L))"
      by (metis surj_pair)
    obtain R2 where R2: "skip_down (lt p2) A2 (R - 1) = Some R2" "part_inv lt p1 p2 A2 L2 (M + 1) R2" "R2 \<le> R" "mset A2 = mset A"
      using part_inv_high [OF less.prems 3 AL] by blast
    have "partition_loop lt p1 p2 A L M R = partition_loop lt p1 p2 A2 L2 (M + 1) R2"
      using 3 AL R2(1) by (subst partition_loop.simps) (auto simp: Let_def split: if_splits)
    then show ?thesis using less.hyps [OF _ R2(2) less.prems(2)] R2(3,4) 3 by auto
  next
    case 4
    have i: "part_inv lt p1 p2 A L (M + 1) R" using less.prems(1) 4 unfolding part_inv_def by (auto simp: less_Suc_eq)
    then show ?thesis using less.hyps [OF _ i less.prems(2)] 4 by (auto simp: partition_loop.simps [of _ _ _ A])
  qed
qed

lemma sample_swaps:
  "\<forall>i \<in> set is. i < n \<Longrightarrow> length A = n \<Longrightarrow> n < 2 ^ 64 \<Longrightarrow>
    mset (fold (\<lambda>i A. let j = i + unat (hash64 (of_nat i) mod of_nat (n - i)) in swap i j A) is A) = mset A"
proof (induction "is" arbitrary: A)
  case (Cons i "is")
  have j: "i + unat (hash64 (of_nat i) mod of_nat (n - i)) < n" using Cons.prems by (intro sample_index) simp_all
  show ?case using Cons.IH [of "swap i (i + unat (hash64 (of_nat i) mod of_nat (n - i))) A"] Cons.prems j
    by (simp add: Let_def del: of_nat_diff)
qed simp

lemma sort5_ok:
  assumes "5 \<le> length A" "length A < 2 ^ 64"
  shows "mset (sort5 lt A) = mset A" "i \<le> j \<Longrightarrow> j < 5 \<Longrightarrow> \<not> lt (sort5 lt A ! j) (sort5 lt A ! i)"
proof -
  define B where "B = fold (\<lambda>i A'. let j = i + unat (hash64 (of_nat i) mod of_nat (length A - i)) in swap i j A') [0..<5] A"
  have B: "mset B = mset A" unfolding B_def by (rule sample_swaps) (use assms in auto)
  then have l: "5 \<le> length B" using assms(1) mset_eq_length by metis
  have e: "sort5 lt A = insertion_sort lt 5 B" by (simp add: sort5_def B_def Let_def del: of_nat_diff)
  obtain zs where z: "insertion_sort lt 5 B = zs @ drop 5 B" "stable_sort_of lt (take 5 B) zs"
    using insertion_sort_prefix [OF l] by blast
  have "mset (sort5 lt A) = mset (take 5 B) + mset (drop 5 B)" using z(1) stable_sort_mset [OF z(2)] e by simp
  then show "mset (sort5 lt A) = mset A" using B by (simp flip: mset_append)
  have "length zs = 5" using stable_sort_length [OF z(2)] l by simp
  then show "\<not> lt (sort5 lt A ! j) (sort5 lt A ! i)" if "i \<le> j" "j < 5"
    using that z ordered_nth [of zs i j] by (simp add: e nth_append stable_sort_of_def)
qed

definition parts :: "'a list \<Rightarrow> nat \<Rightarrow> nat \<Rightarrow> bool \<Rightarrow> bool" where
  "parts A L M eq \<longleftrightarrow> L < M \<and> M \<le> length A \<and>
     (\<exists>p2. \<not> lt p2 (A ! L) \<and> eq = (\<not> lt (A ! L) p2) \<and> (\<forall>x \<in> set (take L A). lt x (A ! L)) \<and>
       (\<forall>x \<in> set (cut (L + 1) M A). \<not> lt x (A ! L) \<and> \<not> lt p2 x) \<and> (\<forall>x \<in> set (drop M A). lt p2 x))"

lemma pivots_in_place:
  assumes inv: "part_inv lt p1 p2 A L M R" and M: "M = R + 1" and p: "\<not> lt p2 p1"
  defines "B \<equiv> swap (L - 2 + 1) R (swap 0 (L - 2) (swap 1 (L - 2 + 1) A))"
  shows "parts B (L - 2) M (\<not> lt p1 p2) \<and> mset B = mset A"
proof -
  obtain k where L: "L = k + 2" using inv by (auto simp: part_inv_def dest: le_Suc_ex)
  have b: "k + 1 \<le> R" "R < length A" "A ! 0 = p1" "A ! 1 = p2" using inv M L by (auto simp: part_inv_def)
  have lo: "\<And>i. 2 \<le> i \<Longrightarrow> i < k + 2 \<Longrightarrow> lt (A ! i) p1" and mid: "\<And>i. k + 2 \<le> i \<Longrightarrow> i \<le> R \<Longrightarrow> \<not> lt (A ! i) p1 \<and> \<not> lt p2 (A ! i)"
    and hi: "\<And>i. R < i \<Longrightarrow> i < length A \<Longrightarrow> lt p2 (A ! i)" using inv M L by (auto simp: part_inv_def)
  have len: "length B = length A" by (simp add: B_def)
  define A1 where "A1 = swap 1 (k + 1) A"
  define A2 where "A2 = swap 0 k A1"
  have z: "0 < length A" "1 < length A" "k < length A" using b by linarith+
  have n1: "A1 ! i = (if i = 1 then A ! (k + 1) else if i = k + 1 then p2 else A ! i)" if "i < length A" for i
    using that b by (simp add: A1_def nth_swap)
  have n2: "A2 ! i = (if i = 0 then A1 ! k else if i = k then A1 ! 0 else A1 ! i)" if "i < length A" for i
    using that b z by (simp add: A2_def A1_def nth_swap)
  have n3: "B ! i = (if i = k + 1 then A2 ! R else if i = R then A2 ! (k + 1) else A2 ! i)" if "i < length A" for i
    using that b by (simp add: B_def L A2_def A1_def nth_swap)
  have a2k: "A2 ! k = p1" "A2 ! (k + 1) = p2" "A2 ! R = (if R = k + 1 then p2 else A ! R)"
    using b z n1 [of 0] n1 [of k] n1 [of "k + 1"] n1 [of R] n2 [of k] n2 [of "k + 1"] n2 [of R] by auto
  have k: "B ! k = p1" using n3 [of k] b a2k by simp
  have "lt (B ! i) p1" if "i < k" for i
    using that b n3 [of i] n2 [of i] n1 [of i] n1 [of k] lo [of i] lo [of k] lo [of "k + 1"] by (auto split: if_splits)
  moreover have "\<not> lt (B ! i) p1 \<and> \<not> lt p2 (B ! i)" if i: "k < i" "i \<le> R" for i
  proof -
    consider "i = k + 1" | "k + 2 \<le> i" "i = R" | "k + 2 \<le> i" "i < R" using i b(1) by linarith
    then show ?thesis
    proof cases
      case 1
      then show ?thesis using b n3 [of i] a2k mid [of R] p by (cases "R = k + 1") auto
    next
      case 2
      then show ?thesis using b n3 [of i] a2k p by simp
    next
      case 3
      then have "B ! i = A ! i" using b n3 [of i] n2 [of i] n1 [of i] by simp
      then show ?thesis using mid [of i] 3 by simp
    qed
  qed
  moreover have "lt p2 (B ! i)" if "R < i" "i < length A" for i
    using that b n3 [of i] n2 [of i] n1 [of i] hi [of i] by (auto split: if_splits)
  ultimately have "parts B k M (\<not> lt p1 p2)"
    unfolding parts_def using b M len p k by (intro conjI exI [of _ p2]) (auto simp: in_set_conv_nth cut_def)
  moreover have "mset B = mset A" using b z by (simp add: B_def L)
  ultimately show ?thesis by (simp add: L)
qed

lemma split3_ok:
  assumes "5 \<le> length A" "length A < 2 ^ 64"
  shows "\<exists>B L M eq. split3 lt A = Some (B, L, M, eq) \<and> parts B L M eq \<and> mset B = mset A"
proof -
  let ?S = "sort5 lt A"
  define B where "B = swap 1 3 (swap 0 1 ?S)"
  have S: "mset ?S = mset A" "length ?S = length A" using sort5_ok(1) [OF assms] mset_eq_length by blast+
  have l: "0 < length ?S" "1 < length ?S" "3 < length ?S" using S assms by linarith+
  have B: "mset B = mset A" "length B = length A" using S l by (simp_all add: B_def)
  have n: "B ! 0 = ?S ! 1" "B ! 1 = ?S ! 3" "B ! 2 = ?S ! 2" using l by (simp_all add: B_def nth_swap)
  have p: "\<not> lt (B ! 1) (B ! 0)" "\<not> lt (B ! 2) (B ! 0)" "\<not> lt (B ! 1) (B ! 2)"
    unfolding n using sort5_ok(2) [OF assms, of 1 3] sort5_ok(2) [OF assms, of 1 2] sort5_ok(2) [OF assms, of 2 3] by simp_all
  have u: "skip_up (\<lambda>x. lt x (B ! 0)) B 2 = Some 2" using p(2) assms B by (subst skip_up.simps) simp
  have "length A - 1 < length B" "2 \<le> length A - 1" using assms B by simp_all
  from skip_down_found [OF this, of "lt (B ! 1)"] p(3)
  obtain R where R: "skip_down (lt (B ! 1)) B (length A - 1) = Some R" "2 \<le> R" "R \<le> length A - 1" "\<not> lt (B ! 1) (B ! R)"
      "\<forall>m. R < m \<and> m \<le> length A - 1 \<longrightarrow> lt (B ! 1) (B ! m)" by blast
  have "part_inv lt (B ! 0) (B ! 1) B 2 2 R"
    using R assms B unfolding part_inv_def by auto
  from partition_loop_ok [OF this p(1)] obtain C L M R' where
    C: "partition_loop lt (B ! 0) (B ! 1) B 2 2 R = Some (C, L, M, R')" "part_inv lt (B ! 0) (B ! 1) C L M R'" "M = R' + 1" "mset C = mset B"
    by blast
  have Bd: "swap 1 3 (swap 0 1 ?S) = B" by (simp add: B_def)
  have "split3 lt A = Some (swap (L - 2 + 1) R' (swap 0 (L - 2) (swap 1 (L - 2 + 1) C)), L - 2, M, \<not> lt (B ! 0) (B ! 1))"
    unfolding split3_def Let_def Bd using C(1) u R(1) assms(1) by simp
  then show ?thesis using pivots_in_place [OF C(2,3) p(1)] C(4) B(1) by metis
qed

lemma parts_sorted:
  assumes parts: "parts A L M eq" and l: "ordered lt l" "mset l = mset (take L A)"
    and m: "if eq then mid = cut (L + 1) M A else ordered lt mid \<and> mset mid = mset (cut (L + 1) M A)"
    and r: "ordered lt r" "mset r = mset (drop M A)"
  shows "ordered lt (l @ A ! L # mid @ r) \<and> mset (l @ A ! L # mid @ r) = mset A"
proof -
  obtain p2 where b: "L < M" "M \<le> length A" and p: "\<not> lt p2 (A ! L)" "eq = (\<not> lt (A ! L) p2)" "\<forall>x \<in> set (take L A). lt x (A ! L)"
      "\<forall>x \<in> set (cut (L + 1) M A). \<not> lt x (A ! L) \<and> \<not> lt p2 x" "\<forall>x \<in> set (drop M A). lt p2 x"
    using parts by (auto simp: parts_def)
  have s: "set l = set (take L A)" "set mid = set (cut (L + 1) M A)" "set r = set (drop M A)"
    using l(2) r(2) m by (auto split: if_splits dest: mset_eq_setD)
  have pl: "lt x (A ! L)" if "x \<in> set l" for x using that p(3) s(1) by simp
  have pm: "\<not> lt x (A ! L)" "\<not> lt p2 x" if "x \<in> set mid" for x using that p(4) s(2) by simp_all
  have pr: "lt p2 x" if "x \<in> set r" for x using that p(5) s(3) by simp
  have "ordered lt mid"
  proof (cases eq)
    case True
    have "\<not> lt y x" if "x \<in> set mid" "y \<in> set mid" for x y
      using pm [OF that(1)] pm [OF that(2)] p(2) True cotrans by blast
    then show ?thesis by (simp add: ordered_def sorted_wrt_iff_nth_less)
  qed (use m in simp)
  moreover have "\<not> lt y x" if "x \<in> set l" "y \<in> set mid" for x y using pl [OF that(1)] pm(1) [OF that(2)] trans by blast
  moreover have "\<not> lt (A ! L) x" if "x \<in> set l" for x using pl [OF that] asym by blast
  moreover have "\<not> lt y x" if "\<not> lt p2 x" "y \<in> set r" for x y using pr [OF that(2)] that(1) trans by blast
  moreover have "\<not> lt p2 x" if "x \<in> set l" for x using below_pivots [OF p(1) pl [OF that]] .
  ultimately have "ordered lt (l @ A ! L # mid @ r)" using l(1) r(1) pm p(1) by (simp add: ball_Un)
  moreover have "mset A = mset (take L A) + {#A ! L#} + mset (cut (L + 1) M A) + mset (drop M A)"
  proof -
    have "drop (Suc L) A = cut (L + 1) M A @ drop M A"
      using b append_take_drop_id [of "M - (L + 1)" "drop (L + 1) A"] by (simp add: cut_def)
    moreover have "mset A = mset (take L A) + add_mset (A ! L) (mset (drop (Suc L) A))"
      using b arg_cong [OF id_take_nth_drop [of L A], of mset] by simp
    ultimately show ?thesis by simp
  qed
  moreover have "mset mid = mset (cut (L + 1) M A)" using m by (simp split: if_splits)
  ultimately show ?thesis using l(2) r(2) by simp
qed

lemma parts_lengths:
  assumes "parts A L M eq"
  shows "length (take L A) < length A" "length (cut (L + 1) M A) < length A" "length (drop M A) < length A"
  using assms by (auto simp: parts_def)

lemma quicksort_serial_sorts:
  "length A < 2 ^ 64 \<Longrightarrow> \<exists>ys. quicksort_serial large lt A = Some ys \<and> ordered lt ys \<and> mset ys = mset A"
proof (induction "length A" arbitrary: A rule: less_induct)
  case less
  show ?case
  proof (cases "base_case large (length A)")
    case True
    then show ?thesis using insertion_sort_stable [of A] stable_sort_mset
      by (subst quicksort_serial.simps) (auto simp: stable_sort_of_def)
  next
    case False
    then have "5 \<le> length A" by (auto simp: base_case_def split: if_splits)
    then obtain B L M eq where B: "split3 lt A = Some (B, L, M, eq)" "parts B L M eq" "mset B = mset A"
      using split3_ok less.prems by blast
    have len: "length B = length A" using B(3) mset_eq_length by blast
    note lens = parts_lengths [OF B(2), unfolded len]
    have sub: "\<exists>ys. quicksort_serial large lt C = Some ys \<and> ordered lt ys \<and> mset ys = mset C" if "length C < length A" for C
      using less that by simp
    obtain l where l: "quicksort_serial large lt (take L B) = Some l" "ordered lt l" "mset l = mset (take L B)" using sub [OF lens(1)] by blast
    obtain r where r: "quicksort_serial large lt (drop M B) = Some r" "ordered lt r" "mset r = mset (drop M B)" using sub [OF lens(3)] by blast
    obtain m where m: "(if eq then Some (cut (L + 1) M B) else quicksort_serial large lt (cut (L + 1) M B)) = Some m"
        "if eq then m = cut (L + 1) M B else ordered lt m \<and> mset m = mset (cut (L + 1) M B)"
      using sub [OF lens(2)] by (cases eq) auto
    have "quicksort_serial large lt A = Some (l @ B ! L # m @ r)"
      by (subst quicksort_serial.simps) (simp add: False B(1) l(1) r(1) m(1))
    then show ?thesis using parts_sorted [OF B(2) l(2,3) m(2) r(2,3)] B(3) by simp
  qed
qed

lemma quicksort_sorts:
  "length A < 2 ^ 64 \<Longrightarrow> \<exists>ys. quicksort large lt A = Some ys \<and> ordered lt ys \<and> mset ys = mset A"
proof (induction "length A" arbitrary: A rule: less_induct)
  case less
  show ?case
  proof (cases "length A < 2 ^ 8")
    case True
    then show ?thesis using quicksort_serial_sorts [of A large] less.prems by (subst quicksort.simps) simp
  next
    case False
    then have "5 \<le> length A" by simp
    then obtain B L M eq where B: "split3 lt A = Some (B, L, M, eq)" "parts B L M eq" "mset B = mset A"
      using split3_ok less.prems by blast
    have len: "length B = length A" using B(3) mset_eq_length by blast
    note lens = parts_lengths [OF B(2), unfolded len]
    have sub: "\<exists>ys. quicksort large lt C = Some ys \<and> ordered lt ys \<and> mset ys = mset C" if "length C < length A" for C
      using less that by simp
    obtain l where l: "quicksort large lt (take L B) = Some l" "ordered lt l" "mset l = mset (take L B)" using sub [OF lens(1)] by blast
    obtain r where r: "quicksort large lt (drop M B) = Some r" "ordered lt r" "mset r = mset (drop M B)" using sub [OF lens(3)] by blast
    obtain m where m: "(if eq then Some (cut (L + 1) M B) else quicksort large lt (cut (L + 1) M B)) = Some m"
        "if eq then m = cut (L + 1) M B else ordered lt m \<and> mset m = mset (cut (L + 1) M B)"
      using sub [OF lens(2)] by (cases eq) auto
    have "quicksort large lt A = Some (l @ B ! L # m @ r)"
      by (subst quicksort.simps) (use False B(1) l(1) r(1) m(1) in simp)
    then show ?thesis using parts_sorted [OF B(2) l(2,3) m(2) r(2,3)] B(3) by simp
  qed
qed

end

section \<open>Properties\<close>

text \<open>C34. Quicksort returns for every strict weak order and every array an index can address, whether or not the elements are
  large, and its result is a sorted permutation of the input: the partition loops stay inside the array, every recursive call is
  on fewer elements, and the range of equal elements left out of the recursion is in place.\<close>

theorem quicksort_correct:
  assumes "weak_order lt" and "length A < 2 ^ 64"
  shows "\<exists>ys. quicksort large lt A = Some ys \<and> sorted_wrt (\<lambda>x y. \<not> lt y x) ys \<and> mset ys = mset A"
  using weak_order.quicksort_sorts [OF assms] by (simp add: ordered_def)

theorem quicksort_correct_witness:
  "\<exists>ys. quicksort False (less_key (\<lambda>x. x)) [3, 1, 2] = Some ys \<and> mset ys = {#1, 2, 3#}"
  using quicksort_correct [OF less_key.weak_order_axioms, of "[3, 1, 2]" False "\<lambda>x. x"] by (auto simp: add_mset_commute)

end
