(* ===== verification/Parlay_Counting.thy ===== *)
theory Parlay_Counting
  imports Parlay_Sequence
begin

text \<open>
  Counting sorts (\<^verbatim>\<open>lib/parlay/internal/counting_sort.h\<close>). An input is a list of elements with their keys, which the code keeps in
  two ranges of the same length. A key that is no bucket has no result. Counters are natural numbers; the code uses 32 bits for them
  only when the input has fewer than \<open>2 ^ 32 - 1\<close> elements. As before a parallel loop is the list of the writes of its iterations.
\<close>

section \<open>Counting and writing\<close>

fun count_into :: "nat list \<Rightarrow> nat list \<Rightarrow> nat list option" where
  "count_into [] counts = Some counts"
| "count_into (k # Keys) counts = (if k < length counts then count_into Keys (counts[k := counts ! k + 1]) else None)"

definition seq_count :: "nat list \<Rightarrow> nat \<Rightarrow> nat list option" where
  "seq_count Keys num_buckets = count_into Keys (replicate num_buckets 0)"

fun seq_write :: "('a \<times> nat) list \<Rightarrow> nat list \<Rightarrow> (nat \<times> 'a) list option" where
  "seq_write [] offsets = Some []"
| "seq_write ((x, k) # In) offsets =
     (if k < length offsets then map_option ((#) (offsets ! k, x)) (seq_write In (offsets[k := offsets ! k + 1])) else None)"

text \<open>From the last element to the first: the argument is the reversed input. The offsets are returned as they end up.\<close>

fun write_down :: "('a \<times> nat) list \<Rightarrow> nat list \<Rightarrow> ((nat \<times> 'a) list \<times> nat list) option" where
  "write_down [] offsets = Some ([], offsets)"
| "write_down ((x, k) # In) offsets =
     (if k < length offsets \<and> 0 < offsets ! k then
        let pos = offsets ! k - 1
        in map_option (\<lambda>(ws, offs). ((pos, x) # ws, offs)) (write_down In (offsets[k := pos]))
      else None)"

definition seq_write_down :: "('a \<times> nat) list \<Rightarrow> nat list \<Rightarrow> ((nat \<times> 'a) list \<times> nat list) option" where
  "seq_write_down In offsets = write_down (rev In) offsets"

fun running_sums :: "nat \<Rightarrow> nat list \<Rightarrow> nat list" where
  "running_sums s [] = []"
| "running_sums s (c # counts) = (let s = s + c in s # running_sums s counts)"

definition seq_count_sort_into :: "('a \<times> nat) list \<Rightarrow> nat \<Rightarrow> ((nat \<times> 'a) list \<times> nat list) option" where
  "seq_count_sort_into In num_buckets =
     Option.bind (seq_count (map snd In) num_buckets) (\<lambda>counts. seq_write_down In (running_sums 0 counts))"

definition seq_count_sort :: "('a \<times> nat) list \<Rightarrow> nat \<Rightarrow> ((nat \<times> 'a) list \<times> nat list) option" where
  "seq_count_sort In num_buckets =
     map_option (\<lambda>(ws, counts). (ws, counts @ [length In])) (seq_count_sort_into In num_buckets)"

section \<open>The parallel sort\<close>

definition block_counts :: "('a \<times> nat) list \<Rightarrow> nat \<Rightarrow> nat \<Rightarrow> nat \<Rightarrow> nat list option" where
  "block_counts In nblocks bsize num_buckets =
     map_option concat (those (map (\<lambda>i. let n = length In; s = min (i * bsize) n; e = min (s + bsize) n
       in seq_count (map snd (cut s e In)) num_buckets) [0..<nblocks]))"

definition block_writes :: "('a \<times> nat) list \<Rightarrow> nat \<Rightarrow> nat \<Rightarrow> nat \<Rightarrow> nat list \<Rightarrow> (nat \<times> 'a) list option" where
  "block_writes In nblocks bsize num_buckets dests =
     map_option concat (those (map (\<lambda>i. let n = length In; s = min (i * bsize) n; e = min (s + bsize) n
       in seq_write (cut s e In) (cut (i * num_buckets) ((i + 1) * num_buckets) dests)) [0..<nblocks]))"

text \<open>The counts of a bucket in all blocks, and the destination of each block and bucket (block-major).\<close>

definition bucket_totals :: "nat list \<Rightarrow> nat \<Rightarrow> nat \<Rightarrow> nat list" where
  "bucket_totals counts nblocks num_buckets =
     map (\<lambda>i. sum_list (map (\<lambda>j. counts ! (j * num_buckets + i)) [0..<nblocks])) [0..<num_buckets]"

definition dest_offsets :: "nat list \<Rightarrow> nat list \<Rightarrow> nat \<Rightarrow> nat \<Rightarrow> nat list" where
  "dest_offsets starts counts nblocks num_buckets =
     concat (map (\<lambda>j. map (\<lambda>i. starts ! i + sum_list (map (\<lambda>j'. counts ! (j' * num_buckets + i)) [0..<j]))
       [0..<num_buckets]) [0..<nblocks])"

definition sort_blocks :: "nat \<Rightarrow> nat \<Rightarrow> nat \<Rightarrow> nat" where
  "sort_blocks sizeof n num_buckets = 1 + n * sizeof div max (num_buckets * 500) 5000"

text \<open>The writes, the bucket offsets and whether everything was in one bucket and nothing was moved.\<close>

definition count_sort ::
  "nat \<Rightarrow> nat \<Rightarrow> ('a \<times> nat) list \<Rightarrow> nat \<Rightarrow> bool \<Rightarrow> ((nat \<times> 'a) list \<times> nat list \<times> bool) option" where
  "count_sort sizeof num_threads In num_buckets skip_if_in_one =
     (let n = length In; nblocks = sort_blocks sizeof n num_buckets
      in if n < 8192 \<or> nblocks = 1 \<or> num_threads = 1 then
           map_option (\<lambda>(ws, offs). (ws, offs, False)) (seq_count_sort In num_buckets)
         else let bsize = (n - 1) div nblocks + 1
              in Option.bind (block_counts In nblocks bsize num_buckets) (\<lambda>counts.
                   let totals = bucket_totals counts nblocks num_buckets @ [0];
                       num_non_zero = length (filter (\<lambda>t. t > 0) (take num_buckets totals));
                       bucket_offsets = fst (scan_inplace plus_m totals)
                   in if skip_if_in_one \<and> num_non_zero = 1 then Some ([], bucket_offsets, True)
                      else map_option (\<lambda>ws. (ws, bucket_offsets, False))
                             (block_writes In nblocks bsize num_buckets
                               (dest_offsets bucket_offsets counts nblocks num_buckets))))"

text \<open>The version that returns a new sequence, and the one that moves the result back over the input.\<close>

definition count_sort_seq :: "nat \<Rightarrow> nat \<Rightarrow> ('a \<times> nat) list \<Rightarrow> nat \<Rightarrow> ('a list \<times> nat list) option" where
  "count_sort_seq sizeof num_threads In num_buckets =
     Option.bind (count_sort sizeof num_threads In num_buckets False) (\<lambda>(ws, offs, one).
       map_option (\<lambda>Out. (Out, offs)) (build_seq (length In) ws))"

definition count_sort_inplace :: "nat \<Rightarrow> nat \<Rightarrow> ('a \<times> nat) list \<Rightarrow> nat \<Rightarrow> ('a list \<times> nat list) option" where
  "count_sort_inplace sizeof num_threads In num_buckets =
     Option.bind (count_sort sizeof num_threads In num_buckets False) (\<lambda>(ws, offs, one).
       Option.bind (apply_writes ws (uninitialized (length In))) (\<lambda>Tmp. map_option (\<lambda>In. (In, offs)) (those Tmp)))"

text \<open>One sequence for each key. With two buckets the elements of key 0 go to the first, all others to the second.\<close>

definition group_by_small_int :: "nat \<Rightarrow> ('a \<times> nat) list \<Rightarrow> nat \<Rightarrow> 'a list list option" where
  "group_by_small_int sizeof In num_buckets =
     (let n = length In; nblocks = sort_blocks sizeof n num_buckets; bsize = (n - 1) div nblocks + 1
      in if num_buckets = 2 then
           let sums = sliced_for n bsize (\<lambda>i s e. length (filter (\<lambda>(x, k). k = 0) (cut s e In)));
               (sums, m) = scan_inplace plus_m sums;
               ws = sliced_for n bsize (\<lambda>i s e. let c0 = sums ! i; c1 = s - c0
                      in split_two_writes c0 c1 (map (\<lambda>(x, k). (x, k \<noteq> 0)) (cut s e In)));
               keys = sliced_for n bsize (\<lambda>i s e. map (\<lambda>(x, k). k \<noteq> 0) (cut s e In));
               tagged = zip (concat ws) (concat keys)
           in Option.bind (build_seq m (map fst (filter (\<lambda>(w, b). \<not> b) tagged))) (\<lambda>r0.
              Option.bind (build_seq (n - m) (map fst (filter (\<lambda>(w, b). b) tagged))) (\<lambda>r1. Some [r0, r1]))
         else
           Option.bind (block_counts In nblocks bsize num_buckets) (\<lambda>counts.
             let totals = bucket_totals counts nblocks num_buckets;
                 dests = dest_offsets (replicate num_buckets 0) counts nblocks num_buckets
             in Option.bind (those (map (\<lambda>i. let s = min (i * bsize) n; e = min (s + bsize) n in
                    map_option (\<lambda>ws. zip ws (map snd (cut s e In)))
                      (seq_write (cut s e In) (cut (i * num_buckets) ((i + 1) * num_buckets) dests))) [0..<nblocks])) (\<lambda>ws.
                those (map (\<lambda>b. build_seq (totals ! b) (map fst (filter (\<lambda>(w, k). k = b) (concat ws)))) [0..<num_buckets]))))"

section \<open>Correctness\<close>

definition bucket :: "nat \<Rightarrow> ('a \<times> nat) list \<Rightarrow> 'a list" where
  "bucket b In = map fst (filter (\<lambda>(x, k). k = b) In)"

definition bucketed :: "nat \<Rightarrow> ('a \<times> nat) list \<Rightarrow> 'a list" where
  "bucketed m In = concat (map (\<lambda>b. bucket b In) [0..<m])"

definition start :: "('a \<times> nat) list \<Rightarrow> nat \<Rightarrow> nat" where
  "start In b = length (bucketed b In)"

lemma bucket_simps [simp]:
  "bucket b [] = []" "bucket b ((x, k) # In) = (if k = b then x # bucket b In else bucket b In)"
  "bucket b (xs @ ys) = bucket b xs @ bucket b ys"
  by (simp_all add: bucket_def)

lemma bucketed_Suc: "bucketed (Suc m) In = bucketed m In @ bucket m In"
  by (simp add: bucketed_def)

lemma start_Suc: "start In (Suc b) = start In b + length (bucket b In)"
  by (simp add: start_def bucketed_Suc)

lemma start_0 [simp]: "start In 0 = 0"
  by (simp add: start_def bucketed_def)

lemma count_into_eq:
  "\<forall>k \<in> set Keys. k < length counts \<Longrightarrow>
    count_into Keys counts = Some (map (\<lambda>b. counts ! b + length (filter (\<lambda>k. k = b) Keys)) [0..<length counts])"
proof (induction Keys counts rule: count_into.induct)
  case (1 counts)
  then show ?case by (simp add: map_nth)
next
  case (2 k Keys counts)
  then show ?case by (auto simp: nth_list_update)
qed

lemma length_bucket: "length (bucket b In) = length (filter (\<lambda>k. k = b) (map snd In))"
  by (induction In) (auto simp: bucket_def)

lemma seq_count_eq:
  "\<forall>(x, k) \<in> set In. k < m \<Longrightarrow> seq_count (map snd In) m = Some (map (\<lambda>b. length (bucket b In)) [0..<m])"
proof -
  assume "\<forall>(x, k) \<in> set In. k < m"
  then have "\<forall>k \<in> set (map snd In). k < length (replicate m 0)" by auto
  then show ?thesis unfolding seq_count_def length_bucket by (subst count_into_eq) simp_all
qed

text \<open>The writes of a pass, bucket by bucket.\<close>

lemma sum_buckets_upd:
  assumes "k < (m :: nat)" "\<And>b. b \<noteq> k \<Longrightarrow> f b = g b" "f k = g k + {#w#}"
  shows "(\<Sum>b<m. f b) = add_mset w (\<Sum>b<m. g b)"
proof -
  have "(\<Sum>b<m. f b) = (\<Sum>b<m. g b + (if b = k then {#w#} else {#}))" using assms(2,3) by (intro sum.cong) auto
  also have "\<dots> = (\<Sum>b<m. g b) + {#w#}"
    using assms(1) sum.delta [of "{..<m}" k "\<lambda>_. {#w#}"] by (simp add: sum.distrib)
  finally show ?thesis by simp
qed

lemma seq_write_streams:
  "\<forall>(x, k) \<in> set In. k < length offs \<Longrightarrow>
    \<exists>ws. seq_write In offs = Some ws \<and> mset ws = (\<Sum>b<length offs. mset (stream (offs ! b) (bucket b In)))"
proof (induction In offs rule: seq_write.induct)
  case (2 x k In offs)
  then obtain ws where ws: "seq_write In (offs[k := offs ! k + 1]) = Some ws"
      "mset ws = (\<Sum>b<length offs. mset (stream (offs[k := offs ! k + 1] ! b) (bucket b In)))" by auto
  have "(\<Sum>b<length offs. mset (stream (offs ! b) (bucket b ((x, k) # In)))) =
      add_mset (offs ! k, x) (\<Sum>b<length offs. mset (stream (offs[k := offs ! k + 1] ! b) (bucket b In)))"
    using 2 by (intro sum_buckets_upd [of k]) auto
  with ws 2 show ?case by auto
qed simp

lemma write_down_streams:
  "\<forall>(x, k) \<in> set In. k < length offs \<Longrightarrow> \<forall>b < length offs. length (bucket b In) \<le> offs ! b \<Longrightarrow>
    \<exists>ws. seq_write_down In offs = Some (ws, map (\<lambda>b. offs ! b - length (bucket b In)) [0..<length offs]) \<and>
      mset ws = (\<Sum>b<length offs. mset (stream (offs ! b - length (bucket b In)) (bucket b In)))"
proof (induction In arbitrary: offs rule: rev_induct)
  case Nil
  then show ?case by (simp add: seq_write_down_def map_nth)
next
  case (snoc p In)
  obtain x k where p: "p = (x, k)" by force
  let ?o = "offs[k := offs ! k - 1]"
  have k: "k < length offs" "0 < offs ! k" using snoc.prems p by (auto dest: spec [of _ k])
  have "\<forall>b < length ?o. length (bucket b In) \<le> ?o ! b"
  proof (intro allI impI)
    fix b assume "b < length ?o"
    then show "length (bucket b In) \<le> ?o ! b" using snoc.prems(2) [rule_format, of b] p k by (auto simp: nth_list_update split: if_splits)
  qed
  then obtain ws where ws: "seq_write_down In ?o = Some (ws, map (\<lambda>b. ?o ! b - length (bucket b In)) [0..<length offs])"
      "mset ws = (\<Sum>b<length offs. mset (stream (?o ! b - length (bucket b In)) (bucket b In)))"
    using snoc.IH [of ?o] snoc.prems(1) by auto
  have o: "?o ! b - length (bucket b In) = offs ! b - length (bucket b (In @ [p]))" if "b < length offs" for b
    using that p k by (simp add: nth_list_update)
  have len: "length (bucket k In) < offs ! k" using snoc.prems(2) k(1) p by (auto dest!: spec [of _ k])
  have "(\<Sum>b<length offs. mset (stream (offs ! b - length (bucket b (In @ [p]))) (bucket b (In @ [p])))) =
      add_mset (offs ! k - 1, x) (\<Sum>b<length offs. mset (stream (?o ! b - length (bucket b In)) (bucket b In)))"
    using k p len by (intro sum_buckets_upd [of k]) (auto simp: stream_append)
  then show ?case using ws k p o by (auto simp: seq_write_down_def Let_def)
qed

text \<open>All streams together are the writes of the bucketed list.\<close>

lemma streams_bucketed: "(\<Sum>b<m. mset (stream (start In b) (bucket b In))) = mset (stream 0 (bucketed m In))"
proof (induction m)
  case (Suc m)
  have "stream 0 (bucketed (Suc m) In) = stream 0 (bucketed m In) @ stream (start In m) (bucket m In)"
    by (simp add: bucketed_Suc stream_append start_def)
  then show ?case using Suc by simp
qed (simp add: bucketed_def)

lemma start_length: "\<forall>(x, k) \<in> set In. k < m \<Longrightarrow> start In m = length In"
proof (induction In)
  case (Cons p In)
  obtain x k where p: "p = (x, k)" by force
  have "start (p # In) b = start In b + of_bool (k < b)" for b
    by (induction b) (auto simp: start_Suc p)
  then show ?case using Cons p by auto
qed (simp add: start_def bucketed_def)

lemma length_bucketed: "\<forall>(x, k) \<in> set In. k < m \<Longrightarrow> length (bucketed m In) = length In"
  using start_length by (auto simp: start_def)

lemma running_sums_eq: "running_sums s cs = map (\<lambda>i. s + sum_list (take (i + 1) cs)) [0..<length cs]"
  by (induction s cs rule: running_sums.induct) (simp_all add: Let_def map_upt_Suc add.assoc del: upt_Suc)

lemma sum_bucket_lengths: "sum_list (map (\<lambda>b. length (bucket b In)) [0..<b]) = start In b"
  by (induction b) (simp_all add: start_Suc)

lemma seq_count_sort_ok:
  assumes "\<forall>(x, k) \<in> set In. k < m"
  shows "\<exists>ws. seq_count_sort_into In m = Some (ws, map (start In) [0..<m]) \<and> mset ws = mset (stream 0 (bucketed m In))"
proof -
  define offs where "offs = map (\<lambda>b. start In (b + 1)) [0..<m]"
  have n: "offs ! b - length (bucket b In) = start In b" if "b < m" for b
    using that by (simp_all add: offs_def start_Suc)
  have l: "length offs = m" by (simp add: offs_def)
  have r: "running_sums 0 (map (\<lambda>b. length (bucket b In)) [0..<m]) = offs"
    unfolding offs_def by (auto simp: running_sums_eq take_map sum_bucket_lengths min_def simp del: upt_Suc)
  have "\<forall>b < length offs. length (bucket b In) \<le> offs ! b" by (simp add: offs_def start_Suc)
  with assms l obtain ws where w: "seq_write_down In offs = Some (ws, map (\<lambda>b. offs ! b - length (bucket b In)) [0..<m])"
      "mset ws = (\<Sum>b<m. mset (stream (offs ! b - length (bucket b In)) (bucket b In)))"
    using write_down_streams [of In offs] by auto
  have "map (\<lambda>b. offs ! b - length (bucket b In)) [0..<m] = map (start In) [0..<m]" by (simp add: n)
  moreover have "mset ws = mset (stream 0 (bucketed m In))"
    unfolding w(2) streams_bucketed [symmetric] by (intro sum.cong) (simp_all add: n)
  ultimately show ?thesis using w(1) by (simp add: seq_count_sort_into_def seq_count_eq [OF assms] r)
qed

text \<open>The blocks of the parallel sort.\<close>

definition block_of :: "nat \<Rightarrow> ('a \<times> nat) list \<Rightarrow> nat \<Rightarrow> ('a \<times> nat) list" where
  "block_of bs In i = (let n = length In; s = min (i * bs) n; e = min (s + bs) n in cut s e In)"

lemma block_of_eq: "block_of bs In i = take bs (drop (i * bs) In)"
  by (auto simp: block_of_def cut_def Let_def min_def)

lemma take_blocks_of: "concat (map (block_of bs In) [0..<k]) = take (k * bs) In"
proof (induction k)
  case (Suc k)
  have "take (bs + k * bs) In = take (k * bs) In @ take bs (drop (k * bs) In)" by (metis add.commute take_add)
  then show ?case using Suc by (simp add: block_of_eq)
qed simp

lemma block_of_set: "set (block_of bs In i) \<subseteq> set In"
  unfolding block_of_eq by (meson order_trans set_drop_subset set_take_subset)

lemma bucket_concat: "bucket b (concat xss) = concat (map (bucket b) xss)"
  by (induction xss) simp_all

lemma before_block: "sum_list (map (\<lambda>j. length (bucket b (block_of bs In j))) [0..<k]) = length (bucket b (take (k * bs) In))"
  by (simp add: bucket_concat length_concat comp_def flip: take_blocks_of)

lemma block_counts_eq:
  assumes "\<forall>(x, k) \<in> set In. k < m"
  shows "block_counts In nb bs m = Some (concat (map (\<lambda>i. map (\<lambda>b. length (bucket b (block_of bs In i))) [0..<m]) [0..<nb]))"
proof -
  have "seq_count (map snd (block_of bs In i)) m = Some (map (\<lambda>b. length (bucket b (block_of bs In i))) [0..<m])" for i
    using assms block_of_set [of bs In i] by (intro seq_count_eq) auto
  then have e: "map (\<lambda>i. seq_count (map snd (block_of bs In i)) m) [0..<nb] =
      map Some (map (\<lambda>i. map (\<lambda>b. length (bucket b (block_of bs In i))) [0..<m]) [0..<nb])" by simp
  show ?thesis unfolding block_counts_def Let_def block_of_def [unfolded Let_def, symmetric] e those_map_Some by simp
qed

lemma nth_concat_blocks:
  assumes "i < nb" "b < m"
  shows "concat (map (\<lambda>i. map (f i) [0..<m]) [0..<nb]) ! (i * m + b) = f i b"
  using assms
proof (induction nb)
  case (Suc nb)
  let ?c = "concat (map (\<lambda>i. map (f i) [0..<m]) [0..<nb])"
  have l: "length ?c = nb * m" by (simp add: length_concat comp_def sum_list_triv)
  show ?case
  proof (cases "i < nb")
    case True
    have "i * m + b < nb * m" using True Suc.prems(2) by (metis add_less_cancel_left less_le_trans mult_Suc mult_le_mono1 Suc_leI add.commute)
    then show ?thesis using Suc True l by (simp add: nth_append)
  next
    case False
    then have "i = nb" using Suc.prems by simp
    then show ?thesis using Suc.prems l by (simp add: nth_append)
  qed
qed simp

lemma cut_concat_blocks:
  assumes "i < nb"
  shows "cut (i * m) ((i + 1) * m) (concat (map (\<lambda>i. map (f i) [0..<m]) [0..<nb])) = map (f i) [0..<m]"
proof (rule nth_equalityI)
  have l: "length (concat (map (\<lambda>i. map (f i) [0..<m]) [0..<nb])) = nb * m"
    by (simp add: length_concat comp_def sum_list_triv)
  have "(i + 1) * m \<le> nb * m" using assms by (intro mult_le_mono1) simp
  then show len: "length (cut (i * m) ((i + 1) * m) (concat (map (\<lambda>i. map (f i) [0..<m]) [0..<nb]))) = length (map (f i) [0..<m])"
    using l by simp
  fix b assume "b < length (cut (i * m) ((i + 1) * m) (concat (map (\<lambda>i. map (f i) [0..<m]) [0..<nb])))"
  then have b: "b < m" using len by simp
  then show "cut (i * m) ((i + 1) * m) (concat (map (\<lambda>i. map (f i) [0..<m]) [0..<nb])) ! b = map (f i) [0..<m] ! b"
    using nth_concat_blocks [OF assms b, of f] l mult_le_mono1 [OF less_imp_le [OF assms], of m] by (simp add: cut_def)
qed

lemma those_map_the: "\<forall>x \<in> set xs. f x \<noteq> None \<Longrightarrow> those (map f xs) = Some (map (\<lambda>x. the (f x)) xs)"
  by (induction xs) auto

lemma mset_concat_upt: "mset (concat (map f [0..<n])) = (\<Sum>i<n. mset (f i))"
  by (induction n) simp_all

lemma stream_blocks:
  "(\<Sum>j<k. mset (stream (c + length (bucket b (take (j * bs) In))) (bucket b (block_of bs In j)))) =
    mset (stream c (bucket b (take (k * bs) In)))"
proof (induction k)
  case (Suc k)
  have t: "take (Suc k * bs) In = take (k * bs) In @ block_of bs In k"
    by (metis block_of_eq add.commute mult_Suc take_add)
  show ?case unfolding t using Suc by (simp add: stream_append)
qed simp

lemma block_writes_ok:
  assumes keys: "\<forall>(x, k) \<in> set In. k < m" and cover: "length In \<le> nb * bs"
    and starts: "\<And>b. b < m \<Longrightarrow> starts ! b = st b"
    and counts: "counts = concat (map (\<lambda>i. map (\<lambda>b. length (bucket b (block_of bs In i))) [0..<m]) [0..<nb])"
  shows "\<exists>ws. block_writes In nb bs m (dest_offsets starts counts nb m) = Some ws \<and>
    mset ws = (\<Sum>b<m. mset (stream (st b) (bucket b In)))"
proof -
  define d where "d j = map (\<lambda>b. st b + length (bucket b (take (j * bs) In))) [0..<m]" for j
  have c: "counts ! (j * m + b) = length (bucket b (block_of bs In j))" if "j < nb" "b < m" for j b
    unfolding counts using nth_concat_blocks [OF that, of "\<lambda>i b. length (bucket b (block_of bs In i))"] by simp
  have "starts ! b + sum_list (map (\<lambda>j'. counts ! (j' * m + b)) [0..<j]) = d j ! b" if "j < nb" "b < m" for j b
  proof -
    have e: "map (\<lambda>j'. counts ! (j' * m + b)) [0..<j] = map (\<lambda>j'. length (bucket b (block_of bs In j'))) [0..<j]"
      using that c by simp
    show ?thesis unfolding e before_block using that by (simp add: d_def starts)
  qed
  then have "map (\<lambda>i. starts ! i + sum_list (map (\<lambda>j'. counts ! (j' * m + i)) [0..<j])) [0..<m] =
      map (\<lambda>b. d j ! b) [0..<m]" if "j < nb" for j using that by simp
  then have "dest_offsets starts counts nb m = concat (map (\<lambda>j. map (\<lambda>b. d j ! b) [0..<m]) [0..<nb])"
    unfolding dest_offsets_def by (intro arg_cong [of _ _ concat]) simp
  then have dj: "cut (j * m) ((j + 1) * m) (dest_offsets starts counts nb m) = d j" if "j < nb" for j
  proof -
    have "map (\<lambda>b. d j ! b) [0..<m] = d j" by (auto simp: d_def)
    then show ?thesis using cut_concat_blocks [OF that, of m "\<lambda>j b. d j ! b"] \<open>dest_offsets starts counts nb m = _\<close> by simp
  qed
  let ?w = "\<lambda>j. seq_write (block_of bs In j) (d j)"
  have w: "\<exists>ws. ?w j = Some ws \<and> mset ws = (\<Sum>b<m. mset (stream (st b + length (bucket b (take (j * bs) In))) (bucket b (block_of bs In j))))" for j
  proof -
    have "\<forall>(x, k) \<in> set (block_of bs In j). k < length (d j)" using keys block_of_set [of bs In j] by (auto simp: d_def)
    from seq_write_streams [OF this] show ?thesis by (simp add: d_def)
  qed
  have "block_writes In nb bs m (dest_offsets starts counts nb m) = map_option concat (those (map ?w [0..<nb]))"
    unfolding block_writes_def Let_def block_of_def [unfolded Let_def, symmetric]
    by (intro arg_cong [of _ _ "\<lambda>x. map_option concat (those x)"]) (auto simp: dj [unfolded Suc_eq_plus1 [symmetric]] simp del: mult_Suc add_Suc)
  also have "\<dots> = Some (concat (map (\<lambda>j. the (?w j)) [0..<nb]))"
    using those_map_the [of "[0..<nb]" ?w] w by (metis (no_types, lifting) option.distinct(1) option.map(2))
  finally have e: "block_writes In nb bs m (dest_offsets starts counts nb m) = Some (concat (map (\<lambda>j. the (?w j)) [0..<nb]))" .
  have "mset (the (?w j)) = (\<Sum>b<m. mset (stream (st b + length (bucket b (take (j * bs) In))) (bucket b (block_of bs In j))))" for j
    using w [of j] by auto
  then have "mset (concat (map (\<lambda>j. the (?w j)) [0..<nb])) =
      (\<Sum>j<nb. \<Sum>b<m. mset (stream (st b + length (bucket b (take (j * bs) In))) (bucket b (block_of bs In j))))"
    by (simp add: mset_concat_upt)
  also have "\<dots> = (\<Sum>b<m. \<Sum>j<nb. mset (stream (st b + length (bucket b (take (j * bs) In))) (bucket b (block_of bs In j))))"
    by (rule sum.swap)
  also have "\<dots> = (\<Sum>b<m. mset (stream (st b) (bucket b In)))" using cover by (simp add: stream_blocks)
  finally show ?thesis using e by blast
qed

lemma bucket_totals_eq:
  assumes "length In \<le> nb * bs"
    and "counts = concat (map (\<lambda>i. map (\<lambda>b. length (bucket b (block_of bs In i))) [0..<m]) [0..<nb])"
  shows "bucket_totals counts nb m = map (\<lambda>b. length (bucket b In)) [0..<m]"
proof -
  have "sum_list (map (\<lambda>j. counts ! (j * m + b)) [0..<nb]) = length (bucket b In)" if "b < m" for b
  proof -
    have e: "map (\<lambda>j. counts ! (j * m + b)) [0..<nb] = map (\<lambda>j. length (bucket b (block_of bs In j))) [0..<nb]"
      using that nth_concat_blocks [of _ nb b m "\<lambda>i b. length (bucket b (block_of bs In i))"] by (simp add: assms(2))
    show ?thesis unfolding e before_block using assms(1) by simp
  qed
  then show ?thesis by (simp add: bucket_totals_def)
qed

lemma blocks_cover: "0 < nb \<Longrightarrow> n \<le> nb * ((n - 1) div nb + 1)" for n nb :: nat
proof -
  assume "0 < nb"
  then have "n - 1 < nb * ((n - 1) div nb + 1)" using dividend_less_times_div [of nb "n - 1"] by (simp add: add.commute)
  then show ?thesis by linarith
qed

lemma one_bucket:
  assumes "\<forall>(x, k) \<in> set In. k < m" "length (filter (\<lambda>t. t > 0) (map (\<lambda>b. length (bucket b In)) [0..<m])) = 1"
  shows "\<exists>b < m. \<forall>(x, k) \<in> set In. k = b"
proof -
  let ?P = "\<lambda>b. bucket b In \<noteq> []"
  have "length (filter ?P [0..<m]) = 1" using assms(2) by (simp add: filter_map comp_def)
  then obtain b where f: "filter ?P [0..<m] = [b]" by (auto simp: length_Suc_conv)
  have "k = b" if "(x, k) \<in> set In" for x k
  proof -
    have "k < m" "bucket k In \<noteq> []" using that assms(1) by (auto simp: bucket_def filter_empty_conv)
    then have "k \<in> set (filter ?P [0..<m])" by simp
    then show ?thesis by (simp add: f)
  qed
  moreover have "b \<in> set (filter ?P [0..<m])" by (simp only: f list.set_intros)
  ultimately show ?thesis by auto
qed

text \<open>The outcome of the counting sort: either the writes of the bucketed list, or everything is in one bucket.\<close>

lemma count_sort_ok:
  assumes keys: "\<forall>(x, k) \<in> set In. k < m"
  shows "\<exists>ws one. count_sort sizeof threads In m skip = Some (ws, map (start In) [0..<m + 1], one) \<and>
    (if one then skip \<and> ws = [] \<and> (\<exists>b < m. \<forall>(x, k) \<in> set In. k = b) else mset ws = mset (stream 0 (bucketed m In)))"
proof (cases "length In < 8192 \<or> sort_blocks sizeof (length In) m = 1 \<or> threads = 1")
  case True
  obtain ws where "seq_count_sort_into In m = Some (ws, map (start In) [0..<m])" "mset ws = mset (stream 0 (bucketed m In))"
    using seq_count_sort_ok [OF keys] by blast
  then show ?thesis using True start_length [OF keys] by (auto simp: count_sort_def Let_def seq_count_sort_def)
next
  case False
  define nb where "nb = sort_blocks sizeof (length In) m"
  define bs where "bs = (length In - 1) div nb + 1"
  define counts where "counts = concat (map (\<lambda>i. map (\<lambda>b. length (bucket b (block_of bs In i))) [0..<m]) [0..<nb])"
  have cover: "length In \<le> nb * bs" unfolding bs_def by (rule blocks_cover) (simp add: nb_def sort_blocks_def)
  let ?t = "map (\<lambda>b. length (bucket b In)) [0..<m] @ [0]"
  have t: "bucket_totals counts nb m @ [0] = ?t" using bucket_totals_eq [OF cover counts_def] by simp
  have o0: "fst (scan_inplace plus_m ?t) = map (start In) [0..<m + 1]"
    by (auto simp: scan_inplace_def plus_nat.scan_eq_spec scan_spec_def take_map sum_bucket_lengths min_def simp del: upt_Suc)
  obtain ws where ws: "block_writes In nb bs m (dest_offsets (map (start In) [0..<m + 1]) counts nb m) = Some ws"
      "mset ws = mset (stream 0 (bucketed m In))"
    using block_writes_ok [OF keys cover _ counts_def, of "map (start In) [0..<m + 1]" "start In"]
    by (auto simp: streams_bucketed simp del: upt_Suc)
  have "count_sort sizeof threads In m skip =
    (if skip \<and> length (filter (\<lambda>t. t > 0) (take m ?t)) = 1 then Some ([], map (start In) [0..<m + 1], True)
     else Some (ws, map (start In) [0..<m + 1], False))"
    unfolding count_sort_def Let_def nb_def [symmetric] bs_def [symmetric] block_counts_eq [OF keys] counts_def [symmetric] t o0
      Option.bind.bind_lunit ws(1) using False [folded nb_def] by (simp del: upt_Suc)
  then show ?thesis using one_bucket [OF keys] ws(2) by (auto simp del: upt_Suc)
qed

lemma count_sort_seq_ok:
  assumes "\<forall>(x, k) \<in> set In. k < m"
  shows "count_sort_seq sizeof threads In m = Some (bucketed m In, map (start In) [0..<m + 1]) \<and>
    count_sort_inplace sizeof threads In m = Some (bucketed m In, map (start In) [0..<m + 1])"
proof -
  obtain ws one where ws: "count_sort sizeof threads In m False = Some (ws, map (start In) [0..<m + 1], one)"
      "mset ws = mset (stream 0 (bucketed m In))"
    using count_sort_ok [OF assms, of sizeof threads False] by (auto split: if_splits)
  have "build_seq (length (bucketed m In)) ws = Some (bucketed m In)" using ws(2) by (intro build_seq_perm) (simp add: stream_def)
  then have b: "build_seq (length In) ws = Some (bucketed m In)" by (simp add: length_bucketed [OF assms])
  then obtain Tmp where "apply_writes ws (uninitialized (length In)) = Some Tmp" "those Tmp = Some (bucketed m In)"
    by (auto simp: build_seq_def bind_eq_Some_conv)
  with ws(1) b show ?thesis by (simp add: count_sort_seq_def count_sort_inplace_def del: upt_Suc)
qed

text \<open>Grouping: the writes with one key, in the order they are made.\<close>

lemma seq_write_tagged:
  "\<forall>(x, k) \<in> set In. k < length offs \<Longrightarrow>
    \<exists>ws. seq_write In offs = Some ws \<and> length ws = length In \<and>
      (\<forall>b < length offs. flagged (\<lambda>k. k = b) (zip ws (map snd In)) = stream (offs ! b) (bucket b In))"
proof (induction In offs rule: seq_write.induct)
  case (2 x k In offs)
  then obtain ws where ws: "seq_write In (offs[k := offs ! k + 1]) = Some ws" "length ws = length In"
      "\<forall>b < length offs. flagged (\<lambda>k. k = b) (zip ws (map snd In)) = stream (offs[k := offs ! k + 1] ! b) (bucket b In)" by auto
  with 2 show ?case by (auto simp: nth_list_update)
qed simp

lemma split_two_tagged:
  "length (split_two_writes c0 c1 xs) = length xs \<and>
   flagged (\<lambda>b. \<not> b) (zip (split_two_writes c0 c1 xs) (map snd xs)) = stream c0 (flagged (\<lambda>f. \<not> f) xs) \<and>
   flagged (\<lambda>b. b) (zip (split_two_writes c0 c1 xs) (map snd xs)) = stream c1 (flagged (\<lambda>f. f) xs)"
  by (induction c0 c1 xs rule: split_two_writes.induct) simp_all

lemma stream_blocks_list:
  "concat (map (\<lambda>j. stream (c + length (bucket b (take (j * bs) In))) (bucket b (block_of bs In j))) [0..<k]) =
    stream c (bucket b (take (k * bs) In))"
proof (induction k)
  case (Suc k)
  have t: "take (Suc k * bs) In = take (k * bs) In @ block_of bs In k"
    by (metis block_of_eq add.commute mult_Suc take_add)
  show ?case unfolding t using Suc by (simp add: stream_append)
qed simp

lemma build_stream [simp]: "n = length xs \<Longrightarrow> build_seq n (stream 0 xs) = Some xs"
  by (simp add: stream_def)

lemma tagged_concat: "flagged P (concat wss) = concat (map (flagged P) wss)"
  by (induction wss) simp_all

lemma dest_blocks:
  assumes cover: "length In \<le> nb * bs" and j: "j < nb"
    and counts: "counts = concat (map (\<lambda>i. map (\<lambda>b. length (bucket b (block_of bs In i))) [0..<m]) [0..<nb])"
    and starts: "length starts = m"
  shows "cut (j * m) ((j + 1) * m) (dest_offsets starts counts nb m) =
    map (\<lambda>b. starts ! b + length (bucket b (take (j * bs) In))) [0..<m]"
proof -
  have "starts ! b + sum_list (map (\<lambda>j'. counts ! (j' * m + b)) [0..<j]) = starts ! b + length (bucket b (take (j * bs) In))"
    if "b < m" for b
  proof -
    have e: "map (\<lambda>j'. counts ! (j' * m + b)) [0..<j] = map (\<lambda>j'. length (bucket b (block_of bs In j'))) [0..<j]"
      using that j nth_concat_blocks [of _ nb b m "\<lambda>i b. length (bucket b (block_of bs In i))"] by (simp add: counts)
    show ?thesis unfolding e before_block ..
  qed
  then show ?thesis unfolding dest_offsets_def
    using cut_concat_blocks [OF j, of m "\<lambda>j i. starts ! i + sum_list (map (\<lambda>j'. counts ! (j' * m + i)) [0..<j])"] by simp
qed

lemma group_by_many:
  assumes keys: "\<forall>(x, k) \<in> set In. k < m" and m: "m \<noteq> 2"
  shows "group_by_small_int sizeof In m = Some (map (\<lambda>b. bucket b In) [0..<m])"
proof -
  define nb where "nb = sort_blocks sizeof (length In) m"
  define bs where "bs = (length In - 1) div nb + 1"
  define counts where "counts = concat (map (\<lambda>i. map (\<lambda>b. length (bucket b (block_of bs In i))) [0..<m]) [0..<nb])"
  have cover: "length In \<le> nb * bs" unfolding bs_def by (rule blocks_cover) (simp add: nb_def sort_blocks_def)
  let ?d = "\<lambda>j. map (\<lambda>b. length (bucket b (take (j * bs) In))) [0..<m]"
  have d: "cut (j * m) ((j + 1) * m) (dest_offsets (replicate m 0) counts nb m) = ?d j" if "j < nb" for j
    using dest_blocks [OF cover that counts_def, of "replicate m 0"] by simp
  let ?f = "\<lambda>j. map_option (\<lambda>ws. zip ws (map snd (block_of bs In j))) (seq_write (block_of bs In j) (?d j))"
  have f: "\<exists>ws. ?f j = Some ws \<and> (\<forall>b<m. flagged (\<lambda>k. k = b) ws = stream (0 + length (bucket b (take (j * bs) In))) (bucket b (block_of bs In j)))" for j
  proof -
    have "\<forall>(x, k) \<in> set (block_of bs In j). k < length (?d j)" using keys block_of_set [of bs In j] by auto
    from seq_write_tagged [OF this] show ?thesis by auto
  qed
  let ?W = "map (\<lambda>j. the (?f j)) [0..<nb]"
  have W: "those (map ?f [0..<nb]) = Some ?W" using f by (intro those_map_the ballI) (metis option.distinct(1))
  have "flagged (\<lambda>k. k = b) (the (?f j)) = stream (0 + length (bucket b (take (j * bs) In))) (bucket b (block_of bs In j))"
    if "b < m" for b j using f [of j] that by auto
  then have t: "flagged (\<lambda>k. k = b) (concat ?W) = stream 0 (bucket b In)" if "b < m" for b
    unfolding tagged_concat using stream_blocks_list [of 0 b bs In nb] cover that by (simp add: comp_def del: add_0)
  have T: "bucket_totals counts nb m = map (\<lambda>b. length (bucket b In)) [0..<m]" by (rule bucket_totals_eq [OF cover counts_def])
  have g: "those (map (\<lambda>b. build_seq (bucket_totals counts nb m ! b) (flagged (\<lambda>k. k = b) (concat ?W))) [0..<m]) =
      Some (map (\<lambda>b. bucket b In) [0..<m])"
  proof -
    have "map (\<lambda>b. build_seq (bucket_totals counts nb m ! b) (flagged (\<lambda>k. k = b) (concat ?W))) [0..<m] =
        map Some (map (\<lambda>b. bucket b In) [0..<m])" by (simp add: T t del: map_concat)
    then show ?thesis by (simp only: those_map_Some)
  qed
  have e: "map (\<lambda>i. map_option (\<lambda>ws. zip ws (map snd (block_of bs In i)))
      (seq_write (block_of bs In i) (cut (i * m) ((i + 1) * m) (dest_offsets (replicate m 0) counts nb m)))) [0..<nb] = map ?f [0..<nb]"
    by (rule map_cong) (simp_all only: set_upt atLeastLessThan_iff d refl)
  show ?thesis
    unfolding group_by_small_int_def Let_def nb_def [symmetric] bs_def [symmetric] block_counts_eq [OF keys] counts_def [symmetric]
      block_of_def [unfolded Let_def, symmetric] Option.bind.bind_lunit e W g using m by simp
qed

lemma zip_concat_sliced:
  assumes "\<And>i. i < num_blocks n b \<Longrightarrow> length (f i (i * b) (min (i * b + b) n)) = length (g i (i * b) (min (i * b + b) n))"
  shows "zip (concat (sliced_for n b f)) (concat (sliced_for n b g)) = concat (sliced_for n b (\<lambda>i s e. zip (f i s e) (g i s e)))"
proof -
  have "zip (concat (map u [0..<k])) (concat (map v [0..<k])) = concat (map (\<lambda>i. zip (u i) (v i)) [0..<k])"
    if "\<And>i. i < k \<Longrightarrow> length (u i) = length (v i)" for u :: "nat \<Rightarrow> 'a list" and v :: "nat \<Rightarrow> 'b list" and k
    using that
  proof (induction k)
    case (Suc k)
    have "map (\<lambda>i. length (u i)) [0..<k] = map (\<lambda>i. length (v i)) [0..<k]" using Suc.prems by simp
    then have "length (concat (map u [0..<k])) = length (concat (map v [0..<k]))" by (simp only: length_concat map_map comp_def)
    then show ?case using Suc by simp
  qed simp
  then show ?thesis using assms by (simp add: sliced_for_def Let_def)
qed

lemma bucket_flags: "bucket 0 In = flagged (\<lambda>f. \<not> f) (map (\<lambda>(x, k). (x, k \<noteq> 0)) In)"
    "\<forall>(x, k) \<in> set In. k < 2 \<Longrightarrow> bucket 1 In = flagged (\<lambda>f. f) (map (\<lambda>(x, k). (x, k \<noteq> 0)) In)"
  by (auto simp: bucket_def filter_map comp_def case_prod_unfold intro!: arg_cong [of _ _ "map fst"] filter_cong)

lemma group_by_two:
  assumes keys: "\<forall>(x, k) \<in> set In. k < 2"
  shows "group_by_small_int sizeof In 2 = Some [bucket 0 In, bucket 1 In]"
proof -
  define n where "n = length In"
  define bs where "bs = (n - 1) div sort_blocks sizeof n 2 + 1"
  define Fs where "Fs = map (\<lambda>(x, k). (x, k \<noteq> (0::nat))) In"
  have bs: "0 < bs" by (simp add: bs_def)
  have nF: "n = length Fs" by (simp add: n_def Fs_def)
  let ?sums = "map (\<lambda>i. length (filter (\<lambda>(x, k). k = 0) (take (i * bs) In))) [0..<num_blocks n bs]"
  let ?m = "length (filter (\<lambda>(x, k). k = 0) In)"
  have sums: "scan_inplace plus_m (sliced_for n bs (\<lambda>i s e. length (filter (\<lambda>(x, k). k = 0) (cut s e In)))) = (?sums, ?m)"
    by (rule block_offsets [OF n_def bs])
  define W where "W = sliced_for n bs (\<lambda>i s e. split_two_writes (?sums ! i) (s - ?sums ! i) (map (\<lambda>(x, k). (x, k \<noteq> 0)) (cut s e In)))"
  define K where "K = sliced_for n bs (\<lambda>i s e. map (\<lambda>(x, k). k \<noteq> (0::nat)) (cut s e In))"
  have F: "map (\<lambda>(x, k). (x, k \<noteq> 0)) (cut s e In) = cut s e Fs" "map (\<lambda>(x, k). k \<noteq> 0) (cut s e In) = map snd (cut s e Fs)" for s e
    by (simp_all add: Fs_def comp_def case_prod_unfold)
  have lo: "length (filter (\<lambda>(x, k). k = 0) (take j In)) = length (flagged (\<lambda>f. \<not> f) (take j Fs))" for j
    by (simp add: Fs_def take_map filter_map comp_def case_prod_unfold)
  have hi: "i * bs - length (filter (\<lambda>(x, k). k = 0) (take (i * bs) In)) = length (flagged (\<lambda>f. f) (take (i * bs) Fs))"
    if "i < num_blocks n bs" for i
  proof -
    have "i * bs \<le> n" using num_blocks_bounds [OF that] by simp
    then show ?thesis using length_flagged_take [OF _ nF, of "i * bs" "\<lambda>f. \<not> f"] lo [of "i * bs"] by simp
  qed
  have Z: "zip (concat W) (concat K) = concat (sliced_for n bs (\<lambda>i s e.
      zip (split_two_writes (?sums ! i) (s - ?sums ! i) (cut s e Fs)) (map snd (cut s e Fs))))"
    unfolding W_def K_def F by (rule zip_concat_sliced) (simp add: split_two_tagged)
  have "flagged (\<lambda>b. \<not> b) (zip (concat W) (concat K)) =
      concat (sliced_for n bs (\<lambda>i s e. stream (0 + length (flagged (\<lambda>f. \<not> f) (take s Fs))) (flagged (\<lambda>f. \<not> f) (cut s e Fs))))"
    unfolding Z tagged_concat map_sliced_for by (intro arg_cong [of _ _ concat] nth_equalityI)
      (simp_all add: nth_sliced_for split_two_tagged lo)
  then have t0: "flagged (\<lambda>b. \<not> b) (zip (concat W) (concat K)) = stream 0 (bucket 0 In)"
    using concat_flagged [OF nF bs, of 0 "\<lambda>f. \<not> f"] by (simp add: bucket_flags(1) Fs_def)
  have "flagged (\<lambda>b. b) (zip (concat W) (concat K)) =
      concat (sliced_for n bs (\<lambda>i s e. stream (0 + length (flagged (\<lambda>f. f) (take s Fs))) (flagged (\<lambda>f. f) (cut s e Fs))))"
    unfolding Z tagged_concat map_sliced_for by (intro arg_cong [of _ _ concat] nth_equalityI)
      (simp_all add: nth_sliced_for split_two_tagged hi)
  then have t1: "flagged (\<lambda>b. b) (zip (concat W) (concat K)) = stream 0 (bucket 1 In)"
    using concat_flagged [OF nF bs, of 0 "\<lambda>f. f"] bucket_flags(2) [OF keys] by (simp add: Fs_def)
  have m: "?m = length (bucket 0 In)" "n - length (bucket 0 In) = length (bucket 1 In)"
    using start_length [OF keys] by (simp_all add: bucket_def n_def start_def bucketed_def numeral_2_eq_2)
  have "group_by_small_int sizeof In 2 =
    Option.bind (build_seq ?m (flagged (\<lambda>b. \<not> b) (zip (concat W) (concat K)))) (\<lambda>r0.
      Option.bind (build_seq (n - ?m) (flagged (\<lambda>b. b) (zip (concat W) (concat K)))) (\<lambda>r1. Some [r0, r1]))"
    unfolding group_by_small_int_def Let_def n_def [symmetric] bs_def [symmetric] sums W_def K_def by simp
  then show ?thesis unfolding t0 t1 m by simp
qed

section \<open>Properties\<close>

text \<open>C38. For every size of an element, number of workers and input whose keys are buckets, the counting sort returns the
  elements in the order of their keys, stably, with the start of every bucket and the length at the end; every slot of the
  output is written exactly once.\<close>

theorem count_sort_stable:
  assumes "\<forall>(x, k) \<in> set In. k < m"
  shows "count_sort_seq sizeof threads In m =
    Some (concat (map (\<lambda>b. map fst (filter (\<lambda>(x, k). k = b) In)) [0..<m]),
      map (\<lambda>b. length (filter (\<lambda>(x, k). k < b) In)) [0..<m + 1])"
proof -
  have "start In b = length (filter (\<lambda>(x, k). k < b) In)" for b
  proof (induction b)
    case (Suc b)
    have "length (filter (\<lambda>(x, k). k < Suc b) In) = length (filter (\<lambda>(x, k). k < b) In) + length (bucket b In)"
      by (induction In) auto
    then show ?case using Suc by (simp add: start_Suc)
  qed simp
  then show ?thesis using count_sort_seq_ok [OF assms, of sizeof threads] by (simp add: bucketed_def bucket_def del: upt_Suc)
qed

theorem count_sort_stable_witness:
  "count_sort_seq 8 4 [(''a'', 1), (''b'', 0), (''c'', 1)] 2 = Some ([''b'', ''a'', ''c''], [0, 1, 3])"
  using count_sort_stable [of "[(''a'', 1), (''b'', 0), (''c'', 1)]" 2 8 4] by (simp add: upt_rec)

text \<open>Grouping by small keys gives, for every key, exactly the elements with that key in their order.\<close>

theorem group_by_small_int_exact:
  assumes "\<forall>(x, k) \<in> set In. k < m"
  shows "group_by_small_int sizeof In m = Some (map (\<lambda>b. map fst (filter (\<lambda>(x, k). k = b) In)) [0..<m])"
  using group_by_many [OF assms, of sizeof] group_by_two [of In sizeof] assms
  by (cases "m = 2") (simp_all add: bucket_def upt_rec)

theorem group_by_small_int_exact_witness:
  "group_by_small_int 8 [(''a'', 1), (''b'', 0), (''c'', 1)] 2 = Some [[''b''], [''a'', ''c'']]"
  using group_by_small_int_exact [of "[(''a'', 1), (''b'', 0), (''c'', 1)]" 2 8] by (simp add: upt_rec)

end
