(* ===== verification/Parlay_Radix.thy ===== *)
theory Parlay_Radix
  imports Parlay_Counting Parlay_Utilities
begin

text \<open>
  Radix sorts of elements with 64-bit keys (\<^verbatim>\<open>lib/parlay/internal/integer_sort.h\<close>). A buffer is a list of slots; relocating a buffer
  empties it. \<open>Tmp\<close> is \<open>None\<close> when it is the same memory as \<open>In\<close>, as in all recursive calls. The floating-point degree of
  parallelism only chooses between equivalent algorithms; its operations are parameters.
\<close>

section \<open>Bottom-up\<close>

text \<open>A digit of a key. A shift of a 64-bit key by 64 or more is undefined: the sorts have no result when they come to one.\<close>

definition digit :: "nat \<Rightarrow> nat \<Rightarrow> u64 \<Rightarrow> nat" where
  "digit bit_offset bits k = unat (drop_bit bit_offset k AND (2 ^ bits - 1))"

definition digit_sort :: "('a \<Rightarrow> u64) \<Rightarrow> nat \<Rightarrow> nat \<Rightarrow> 'a list \<Rightarrow> 'a list option" where
  "digit_sort g bit_offset round_bits xs =
     (if bit_offset < 64 then
        let num_buckets = 2 ^ round_bits; keyed = map (\<lambda>x. (x, digit bit_offset round_bits (g x))) xs
        in Option.bind (seq_count_sort_into keyed num_buckets) (\<lambda>(ws, counts). build_seq (length xs) ws)
      else None)"

text \<open>The rounds: every round moves the elements to the other buffer.\<close>

function radix_rounds ::
  "('a \<Rightarrow> u64) \<Rightarrow> nat \<Rightarrow> nat \<Rightarrow> bool \<Rightarrow> 'a option list \<Rightarrow> 'a option list \<Rightarrow> (bool \<times> 'a option list \<times> 'a option list) option" where
  "radix_rounds g bits bit_offset swapped In Out =
     (if bits > 0 then
        let round_bits = min 8 bits
        in if swapped then
             Option.bind (those Out) (\<lambda>xs. Option.bind (digit_sort g bit_offset round_bits xs) (\<lambda>ys.
               radix_rounds g (bits - round_bits) (bit_offset + round_bits) False (map Some ys) (uninitialized (length xs))))
           else
             Option.bind (those In) (\<lambda>xs. Option.bind (digit_sort g bit_offset round_bits xs) (\<lambda>ys.
               radix_rounds g (bits - round_bits) (bit_offset + round_bits) True (uninitialized (length xs)) (map Some ys)))
      else Some (swapped, In, Out))"
  by pat_completeness auto

termination radix_rounds
  by (relation "measure (\<lambda>(g, bits, off, sw, In, Out). bits)") auto

declare radix_rounds.simps [simp del]

definition seq_radix_sort_into ::
  "('a \<Rightarrow> u64) \<Rightarrow> nat \<Rightarrow> bool \<Rightarrow> 'a option list \<Rightarrow> 'a option list \<Rightarrow> ('a option list \<times> 'a option list) option" where
  "seq_radix_sort_into g bits inplace In Out =
     (let n = length In
      in if n = 0 then Some (In, Out)
         else map_option (\<lambda>(swapped, In, Out).
                if swapped \<and> inplace then (Out, uninitialized n)
                else if \<not> swapped \<and> \<not> inplace then (uninitialized n, In)
                else (In, Out)) (radix_rounds g bits 0 False In Out))"

text \<open>
  The wrapper. When \<open>Tmp\<close> is \<open>In\<close>, relocating one to the other relocates every element onto itself: a trivially relocatable
  element is copied over itself, any other is moved onto itself and destroyed.
\<close>

definition seq_radix_sort ::
  "bool \<Rightarrow> bool \<Rightarrow> bool \<Rightarrow> 'a option list \<Rightarrow> 'a option list \<Rightarrow> 'a option list option \<Rightarrow> ('a \<Rightarrow> u64) \<Rightarrow> nat
    \<Rightarrow> ('a option list \<times> 'a option list \<times> 'a option list option) option" where
  "seq_radix_sort trivial inplace relocate In Out Tmp g key_bits =
     (let n = length In
      in if inplace then map_option (\<lambda>(In, Out). (In, Out, Tmp)) (seq_radix_sort_into g key_bits True In Out)
         else if odd ((key_bits - 1) div 8) then
           (case Tmp of
              None \<Rightarrow>
                if relocate then
                  let In = (if trivial then In else uninitialized n)
                  in map_option (\<lambda>(In, Out). (In, Out, None)) (seq_radix_sort_into g key_bits False In Out)
                else None
            | Some T \<Rightarrow>
                let In' = (if relocate then uninitialized n else In)
                in map_option (\<lambda>(T, Out). (In', Out, Some T)) (seq_radix_sort_into g key_bits False In Out))
         else
           let In' = (if relocate then uninitialized n else In)
           in (case Tmp of
                 None \<Rightarrow> map_option (\<lambda>(Out, In). (In, Out, None)) (seq_radix_sort_into g key_bits True In In')
               | Some T \<Rightarrow> map_option (\<lambda>(Out, T). (In', Out, Some T)) (seq_radix_sort_into g key_bits True In T)))"

section \<open>Top-down\<close>

record 'p sort_env =
  elem_size :: nat
  workers :: nat
  trivial :: bool
  scale :: "'p \<Rightarrow> nat \<Rightarrow> nat \<Rightarrow> 'p"
  tiny :: "'p \<Rightarrow> bool"

definition base_bits :: "nat \<Rightarrow> nat \<Rightarrow> nat" where
  "base_bits sizeof n =
     (let sz = 2 * sizeof * n div 1000000; b = (if sz > 0 then log2_up sz else 0) in max 8 (min 13 b))"

text \<open>The start of each of \<open>num_buckets\<close> buckets, from the starts the recursive calls return.\<close>

definition merge_offsets :: "nat \<Rightarrow> nat \<Rightarrow> nat \<Rightarrow> nat list \<Rightarrow> nat list list \<Rightarrow> nat list" where
  "merge_offsets n num_buckets num_inner offsets rs =
     (if num_buckets > 0 then
        fold (\<lambda>i inner.
            let bstart = min (i * num_inner) num_buckets; bend = min ((i + 1) * num_inner) num_buckets
            in fold (\<lambda>j inner. inner[bstart + j := offsets ! i + rs ! i ! j]) [0..<bend - bstart] inner)
          [0..<length rs] ((replicate (num_buckets + 1) 0)[num_buckets := n])
      else [])"

function integer_sort_rec ::
  "'p sort_env \<Rightarrow> bool \<Rightarrow> bool \<Rightarrow> 'a option list \<Rightarrow> 'a option list \<Rightarrow> 'a option list option \<Rightarrow> ('a \<Rightarrow> u64) \<Rightarrow> nat \<Rightarrow> nat \<Rightarrow> 'p
    \<Rightarrow> ('a option list \<times> 'a option list \<times> 'a option list option \<times> nat list) option" where
  "integer_sort_rec E inplace relocate In Out Tmp g key_bits num_buckets par =
     (let n = length In; return_offsets = (num_buckets > 0); In' = (if relocate then uninitialized n else In)
      in if key_bits = 0 then Some (if inplace then (In, Out, Tmp, []) else (In', In, Tmp, []))
         else if (n < 2 ^ 17 \<or> tiny E par) \<and> \<not> return_offsets then
           map_option (\<lambda>(In, Out, Tmp). (In, Out, Tmp, [])) (seq_radix_sort (trivial E) inplace relocate In Out Tmp g key_bits)
         else if key_bits \<le> base_bits (elem_size E) n then
           let num_bkts = (if num_buckets = 0 then 2 ^ key_bits else num_buckets)
           in Option.bind (those In) (\<lambda>xs.
              Option.bind (count_sort (elem_size E) (workers E) (map (\<lambda>x. (x, digit 0 key_bits (g x))) xs) num_bkts inplace)
                (\<lambda>(ws, offsets, one_bucket).
                   let offs = (if return_offsets then offsets else [])
                   in if one_bucket then Some (In, Out, Tmp, offs)
                      else map_option (\<lambda>ys. if inplace then (map Some ys, uninitialized n, Tmp, offs) else (In', map Some ys, Tmp, offs))
                             (build_seq n ws)))
         else
           let shift_bits = key_bits - 8; num_inner = (if return_offsets then 2 ^ shift_bits else 0)
           in if shift_bits \<ge> 64 \<and> n > 0 then None
              else Option.bind (those In) (\<lambda>xs.
              Option.bind (count_sort (elem_size E) (workers E) (map (\<lambda>x. (x, digit shift_bits 8 (g x))) xs) 256 (\<not> return_offsets))
                (\<lambda>(ws, offsets, one_bucket).
                   if one_bucket then integer_sort_rec E inplace relocate In Out Tmp g shift_bits 0 par
                   else Option.bind (build_seq n ws) (\<lambda>ys.
                     let T = (case Tmp of None \<Rightarrow> In' | Some T \<Rightarrow> T)
                     in map_option (\<lambda>rs.
                          let A = concat (map (\<lambda>(a, b, t, r). a) rs); B = concat (map (\<lambda>(a, b, t, r). b) rs);
                              inner = merge_offsets n num_buckets num_inner offsets (map (\<lambda>(a, b, t, r). r) rs)
                          in (case Tmp of None \<Rightarrow> (B, A, None, inner) | Some _ \<Rightarrow> (In', A, Some B, inner)))
                        (those (map (\<lambda>i.
                           let s = offsets ! i; e = offsets ! (i + 1)
                           in integer_sort_rec E (\<not> inplace) True (cut s e (map Some ys)) (cut s e T) None g shift_bits num_inner
                                (scale E par (e - s) (n + 1))) [0..<256]))))))"
  by pat_completeness auto

termination integer_sort_rec
  by (relation "measure (\<lambda>(E, i, r, In, Out, Tmp, g, key_bits, nb, par). key_bits)") (auto simp: base_bits_def Let_def)

declare integer_sort_rec.simps [simp del]

text \<open>
  With \<open>bits = 0\<close> the number of bits is that of the greatest key. The code adds one to it before \<open>log2_up\<close> takes one away,
  which wraps for the greatest key of all but gives 64 all the same.
\<close>

definition key_bits_of :: "(nat \<Rightarrow> nat) \<Rightarrow> ('a \<Rightarrow> u64) \<Rightarrow> nat \<Rightarrow> 'a list \<Rightarrow> nat" where
  "key_bits_of csqrt g bits In =
     (if bits = 0 then log2_up (unat (reduce csqrt False maximum_m (map g In)) + 1) else bits)"

definition integer_sort_inplace :: "'p sort_env \<Rightarrow> 'p \<Rightarrow> (nat \<Rightarrow> nat) \<Rightarrow> ('a \<Rightarrow> u64) \<Rightarrow> nat \<Rightarrow> 'a list \<Rightarrow> 'a list option" where
  "integer_sort_inplace E par csqrt g bits In =
     Option.bind (integer_sort_rec E True True (map Some In) (uninitialized (length In)) None g (key_bits_of csqrt g bits In) 0 par)
       (\<lambda>(In, Out, Tmp, offsets). those In)"

definition integer_sort :: "'p sort_env \<Rightarrow> 'p \<Rightarrow> (nat \<Rightarrow> nat) \<Rightarrow> ('a \<Rightarrow> u64) \<Rightarrow> nat \<Rightarrow> 'a list \<Rightarrow> 'a list option" where
  "integer_sort E par csqrt g bits In =
     Option.bind (integer_sort_rec E False False (map Some In) (uninitialized (length In)) (Some (uninitialized (length In))) g
         (key_bits_of csqrt g bits In) 0 par)
       (\<lambda>(In, Out, Tmp, offsets). those Out)"

text \<open>The number of elements with each key, from a sorted range: a write outside the tables has no result.\<close>

definition get_counts :: "('a \<Rightarrow> u64) \<Rightarrow> nat \<Rightarrow> 'a list \<Rightarrow> nat list option" where
  "get_counts g num_buckets In =
     (let n = length In; key = (\<lambda>i. unat (g (In ! i)))
      in if n = 0 then Some []
         else let changes = filter (\<lambda>i. key i \<noteq> key (i + 1)) [0..<n - 1];
                  tables = Option.bind (apply_writes (map (\<lambda>i. (key (i + 1), i + 1)) changes) (replicate num_buckets (Some 0))) (\<lambda>starts.
                    map_option (\<lambda>ends. (starts, ends))
                      (apply_writes (map (\<lambda>i. (key i, i + 1)) changes @ [(key (n - 1), n)]) (replicate num_buckets (Some 0))))
              in Option.bind tables (\<lambda>(starts, ends). Option.bind (those starts) (\<lambda>s. Option.bind (those ends) (\<lambda>e.
                   Some (map (\<lambda>i. e ! i - s ! i) [0..<num_buckets])))))"

definition integer_sort_with_counts ::
  "'p sort_env \<Rightarrow> 'p \<Rightarrow> (nat \<Rightarrow> nat) \<Rightarrow> ('a \<Rightarrow> u64) \<Rightarrow> nat \<Rightarrow> 'a list \<Rightarrow> ('a list \<times> nat list) option" where
  "integer_sort_with_counts E par csqrt g num_buckets In =
     (if length In = 0 then Some ([], replicate num_buckets 0)
      else if num_buckets = 0 then None
      else Option.bind (integer_sort E par csqrt g (log2_up num_buckets) In) (\<lambda>R.
             map_option (\<lambda>c. (R, c)) (get_counts g num_buckets R)))"

section \<open>Digits\<close>

lemma length_uninitialized [simp]: "length (uninitialized n) = n"
  by (simp add: uninitialized_def)

definition low :: "nat \<Rightarrow> u64 \<Rightarrow> nat" where
  "low bits k = unat k mod 2 ^ bits"

lemma digit_eq: "digit off bits k = unat k div 2 ^ off mod 2 ^ bits"
proof -
  have e: "drop_bit off k AND (2 ^ bits - 1) = take_bit bits (drop_bit off k)"
    by (metis mask_eq_exp_minus_1 take_bit_eq_mask)
  have "unat k < 2 ^ LENGTH(64)" by (rule unsigned_less)
  then have "take_bit 64 (unat k) = unat k" by (simp add: take_bit_nat_eq_self)
  then have "unat (drop_bit off k) = drop_bit off (unat k)" by (simp add: unsigned_drop_bit_eq)
  then show ?thesis unfolding digit_def e unsigned_take_bit_eq by (simp only: take_bit_eq_mod drop_bit_eq_div)
qed

lemma digit_less: "digit off bits k < 2 ^ bits"
  by (simp add: digit_eq)

lemma low_digit: "low (off + bits) k = digit off bits k * 2 ^ off + low off k"
  by (simp add: low_def digit_eq power_add mod_mult2_eq)

lemma digit_0: "digit 0 bits k = low bits k"
  by (simp add: low_def digit_eq)

lemma low_0 [simp]: "low 0 k = 0"
  by (simp add: low_def)

lemma low_less: "low off k < 2 ^ off"
  by (simp add: low_def)

lemma low_digit_cmp:
  "low (off + bits) k = low (off + bits) k' \<longleftrightarrow> digit off bits k = digit off bits k' \<and> low off k = low off k'"
  "digit off bits k < digit off bits k' \<or> digit off bits k = digit off bits k' \<and> low off k \<le> low off k' \<Longrightarrow>
    low (off + bits) k \<le> low (off + bits) k'"
proof -
  let ?K = "2 ^ off :: nat"
  have l: "low off k < ?K" "low off k' < ?K" by (rule low_less)+
  have d: "digit off bits k = low (off + bits) k div ?K" "low off k = low (off + bits) k mod ?K"
    "digit off bits k' = low (off + bits) k' div ?K" "low off k' = low (off + bits) k' mod ?K"
    using l by (simp_all add: low_digit)
  show "low (off + bits) k = low (off + bits) k' \<longleftrightarrow> digit off bits k = digit off bits k' \<and> low off k = low off k'"
    using d by (metis low_digit)
  assume "digit off bits k < digit off bits k' \<or> digit off bits k = digit off bits k' \<and> low off k \<le> low off k'"
  then show "low (off + bits) k \<le> low (off + bits) k'"
  proof
    assume "digit off bits k < digit off bits k'"
    then show ?thesis unfolding d by (metis div_le_mono leD le_cases)
  qed (simp add: low_digit)
qed

text \<open>A stable sort by buckets.\<close>

definition bsort :: "nat \<Rightarrow> ('a \<Rightarrow> nat) \<Rightarrow> 'a list \<Rightarrow> 'a list" where
  "bsort m d xs = concat (map (\<lambda>b. filter (\<lambda>x. d x = b) xs) [0..<m])"

lemma bucket_map: "bucket b (map (\<lambda>x. (x, d x)) xs) = filter (\<lambda>x. d x = b) xs"
  by (simp add: bucket_def filter_map comp_def)

lemma bucketed_map: "bucketed m (map (\<lambda>x. (x, d x)) xs) = bsort m d xs"
  by (simp add: bucketed_def bsort_def bucket_map)

text \<open>Sorting the buckets of \<open>d\<close> by \<open>l\<close> sorts by the combined key \<open>f\<close>.\<close>

lemma sorted_wrt_buckets:
  assumes "\<And>b. sorted_wrt R (h b)" "\<And>b c x y. b < c \<Longrightarrow> x \<in> set (h b) \<Longrightarrow> y \<in> set (h c) \<Longrightarrow> R x y"
  shows "sorted_wrt R (concat (map h [0..<m]))"
proof (induction m)
  case (Suc m)
  have "R x y" if "x \<in> set (concat (map h [0..<m]))" "y \<in> set (h m)" for x y using that assms(2) by auto
  then show ?case using Suc assms(1) by (simp add: sorted_wrt_append)
qed simp

lemma mset_buckets:
  assumes "\<forall>x \<in> set xs. d x < m"
  shows "mset (concat (map (\<lambda>b. filter (\<lambda>x. d x = b) xs) [0..<m])) = mset xs"
proof -
  have "mset (concat (map (\<lambda>b. filter (\<lambda>x. d x = b) xs) [0..<m])) = mset (filter (\<lambda>x. d x < m) xs)"
  proof (induction m)
    case (Suc m)
    have "mset (filter (\<lambda>x. d x < Suc m) xs) = mset (filter (\<lambda>x. d x < m) xs) + mset (filter (\<lambda>x. d x = m) xs)"
      by (induction xs) auto
    then show ?case using Suc by simp
  qed simp
  also have "filter (\<lambda>x. d x < m) xs = xs" using assms by (simp add: filter_id_conv)
  finally show ?thesis .
qed

lemma filter_buckets:
  "filter P (concat (map (\<lambda>b. h (filter (\<lambda>x. d x = b) xs)) [0..<m])) = concat (map (\<lambda>b. filter P (h (filter (\<lambda>x. d x = b) xs))) [0..<m])"
  by (simp add: filter_concat comp_def)

lemma concat_single: "b < m \<Longrightarrow> (\<And>c. c \<noteq> b \<Longrightarrow> h c = []) \<Longrightarrow> concat (map h [0..<m]) = h b"
proof (induction m)
  case (Suc m)
  then show ?case
  proof (cases "b = m")
    case True
    then have "concat (map h [0..<m]) = []" using Suc.prems(2) by simp
    then show ?thesis using True by simp
  qed (use Suc in simp)
qed simp

lemma msd_sort:
  fixes d l f :: "'a \<Rightarrow> nat"
  assumes "\<forall>x \<in> set xs. d x < m"
    and eq: "\<And>x y. f x = f y \<longleftrightarrow> d x = d y \<and> l x = l y"
    and le: "\<And>x y. d x < d y \<or> d x = d y \<and> l x \<le> l y \<Longrightarrow> f x \<le> f y"
  shows "concat (map (\<lambda>b. sort_key l (filter (\<lambda>x. d x = b) xs)) [0..<m]) = sort_key f xs"
proof (rule sym, rule properties_for_sort_key)
  let ?h = "\<lambda>b. sort_key l (filter (\<lambda>x. d x = b) xs)"
  have h: "mset (concat (map ?h [0..<m])) = mset (concat (map (\<lambda>b. filter (\<lambda>x. d x = b) xs) [0..<m]))"
    by (simp add: mset_concat comp_def)
  show "mset (concat (map ?h [0..<m])) = mset xs" using mset_buckets [OF assms(1)] h by simp
  fix k assume "k \<in> set (concat (map ?h [0..<m]))"
  then have k: "d k < m" by auto
  have e: "filter (\<lambda>x. f k = f x) (?h b) = (if b = d k then filter (\<lambda>x. f k = f x) xs else [])" for b
  proof (cases "b = d k")
    case True
    have "filter (\<lambda>x. f k = f x) (?h b) = filter (\<lambda>x. d k = d x) (filter (\<lambda>x. l x = l k) (?h b))"
      by (auto simp: eq intro!: filter_cong)
    also have "\<dots> = filter (\<lambda>x. d k = d x) (filter (\<lambda>x. l x = l k) (filter (\<lambda>x. d x = b) xs))"
      by (simp only: sort_key_stable)
    also have "\<dots> = filter (\<lambda>x. f k = f x) xs"
      unfolding filter_filter eq True by (rule filter_cong [OF refl]) metis
    finally show ?thesis using True by simp
  qed (auto simp: filter_empty_conv eq)
  have "filter (\<lambda>x. f k = f x) (concat (map ?h [0..<m])) = concat (map (\<lambda>b. filter (\<lambda>x. f k = f x) (?h b)) [0..<m])"
    by (simp only: filter_concat map_map comp_def)
  also have "\<dots> = filter (\<lambda>x. f k = f x) xs"
    unfolding e by (rule trans [OF concat_single [OF k]]) simp_all
  finally show "filter (\<lambda>x. f k = f x) (concat (map ?h [0..<m])) = filter (\<lambda>x. f k = f x) xs" .
next
  let ?h = "\<lambda>b. sort_key l (filter (\<lambda>x. d x = b) xs)"
  have "sorted_wrt (\<lambda>x y. f x \<le> f y) (?h b)" for b
  proof -
    have "sorted_wrt (\<lambda>x y. l x \<le> l y) (?h b)" using sorted_sort_key [of l] by (metis sorted_map)
    then show ?thesis by (rule sorted_wrt_mono_rel [rotated]) (auto intro!: le)
  qed
  then have "sorted_wrt (\<lambda>x y. f x \<le> f y) (concat (map ?h [0..<m]))" by (rule sorted_wrt_buckets) (auto intro!: le)
  then show "sorted (map f (concat (map ?h [0..<m])))" by (simp add: sorted_map)
qed

lemma lsd_sort:
  fixes d l f :: "'a \<Rightarrow> nat"
  assumes "\<forall>x \<in> set xs. d x < m"
    and "\<And>x y. f x = f y \<longleftrightarrow> d x = d y \<and> l x = l y"
    and "\<And>x y. d x < d y \<or> d x = d y \<and> l x \<le> l y \<Longrightarrow> f x \<le> f y"
  shows "bsort m d (sort_key l xs) = sort_key f xs"
proof -
  have "filter P (sort_key l xs) = sort_key l (filter P xs)" for P by (rule filter_sort)
  then show ?thesis using msd_sort [OF assms] by (simp add: bsort_def)
qed

section \<open>The sorts are stable sorts\<close>

lemma bsort_sort_key: "\<forall>x \<in> set xs. d x < m \<Longrightarrow> bsort m d xs = sort_key d xs"
proof -
  assume "\<forall>x \<in> set xs. d x < m"
  then have "bsort m d (sort_key (\<lambda>x. 0 :: nat) xs) = sort_key d xs" by (rule lsd_sort) auto
  then show ?thesis by (simp add: sort_key_const)
qed

lemma build_bucketed:
  "\<forall>(x, k) \<in> set In. k < m \<Longrightarrow> mset ws = mset (stream 0 (bucketed m In)) \<Longrightarrow> build_seq (length In) ws = Some (bucketed m In)"
  using build_seq_perm [of ws "bucketed m In"] by (simp add: stream_def length_bucketed)

lemma digit_sort_eq: "off < 64 \<Longrightarrow> digit_sort g off bits xs = Some (bsort (2 ^ bits) (\<lambda>x. digit off bits (g x)) xs)"
proof -
  let ?In = "map (\<lambda>x. (x, digit off bits (g x))) xs"
  have k: "\<forall>(x, k) \<in> set ?In. k < 2 ^ bits" by (auto simp: digit_less)
  obtain ws where ws: "seq_count_sort_into ?In (2 ^ bits) = Some (ws, map (start ?In) [0..<2 ^ bits])"
      "mset ws = mset (stream 0 (bucketed (2 ^ bits) ?In))"
    using seq_count_sort_ok [OF k] by blast
  assume "off < 64"
  then show ?thesis using ws(1) build_bucketed [OF k ws(2)] by (simp add: digit_sort_def Let_def bucketed_map)
qed

lemma round_sorts: "bsort (2 ^ bits) (\<lambda>x. digit off bits (g x)) (sort_key (\<lambda>x. low off (g x)) zs) = sort_key (\<lambda>x. low (off + bits) (g x)) zs"
  by (rule lsd_sort) (auto simp: digit_less low_digit_cmp)

lemma radix_rounds_ok:
  "off + bits \<le> 64 \<Longrightarrow> if swapped then Out = map Some (sort_key (\<lambda>x. low off (g x)) zs) \<and> length In = length zs
   else In = map Some (sort_key (\<lambda>x. low off (g x)) zs) \<and> length Out = length zs \<Longrightarrow>
   \<exists>sw X. length X = length zs \<and> radix_rounds g bits off swapped In Out =
     Some (let ys = map Some (sort_key (\<lambda>x. low (off + bits) (g x)) zs) in if sw then (True, X, ys) else (False, ys, X))"
proof (induction bits arbitrary: off swapped In Out rule: less_induct)
  case (less bits)
  show ?case
  proof (cases "bits = 0")
    case True
    then show ?thesis using less.prems by (cases swapped) (auto simp: radix_rounds.simps [of g 0] intro: exI [of _ True] exI [of _ False])
  next
    case False
    let ?r = "min 8 bits"
    have r: "bits - ?r < bits" "off + ?r + (bits - ?r) = off + bits" "off + ?r + (bits - ?r) \<le> 64" "off < 64" using False less.prems(1) by auto
    let ?ys = "map Some (sort_key (\<lambda>x. low (off + ?r) (g x)) zs)"
    have "radix_rounds g bits off swapped In Out =
      (if swapped then radix_rounds g (bits - ?r) (off + ?r) False ?ys (uninitialized (length zs))
       else radix_rounds g (bits - ?r) (off + ?r) True (uninitialized (length zs)) ?ys)"
      using less.prems False by (subst radix_rounds.simps) (simp add: digit_sort_eq [OF r(4)] round_sorts Let_def)
    then show ?thesis
      using less.IH [OF r(1,3), where swapped = False and In = ?ys and Out = "uninitialized (length zs)"]
        less.IH [OF r(1,3), where swapped = True and In = "uninitialized (length zs)" and Out = ?ys]
      by (cases swapped) (simp_all add: uninitialized_def r(2))
  qed
qed

abbreviation sorted_low :: "nat \<Rightarrow> ('a \<Rightarrow> u64) \<Rightarrow> 'a list \<Rightarrow> 'a list" where
  "sorted_low bits g xs \<equiv> sort_key (\<lambda>x. low bits (g x)) xs"

lemma seq_radix_sort_into_ok:
  assumes "length Out = length xs" and bits: "bits \<le> 64"
  shows "\<exists>X. length X = length xs \<and> seq_radix_sort_into g bits inplace (map Some xs) Out =
    Some (let ys = map Some (sorted_low bits g xs) in if inplace then (ys, X) else (X, ys))"
proof (cases "xs = []")
  case True
  then show ?thesis using assms(1) by (simp add: seq_radix_sort_into_def Let_def)
next
  case False
  obtain sw X where "length X = length xs" "radix_rounds g bits 0 False (map Some xs) Out =
      Some (let ys = map Some (sorted_low bits g xs) in if sw then (True, X, ys) else (False, ys, X))"
    using radix_rounds_ok [where swapped = False and In = "map Some xs" and off = 0 and g = g and zs = xs and Out = Out and bits = bits] assms
    by (auto simp: sort_key_const)
  then show ?thesis using False
    by (intro exI [of _ "if sw = inplace then (if inplace then uninitialized (length xs) else uninitialized (length xs)) else X"])
      (auto simp: seq_radix_sort_into_def Let_def uninitialized_def)
qed

text \<open>How the three buffers may be related, by whether the sort is in place and whether it moves its input.\<close>

definition buffers_ok :: "bool \<Rightarrow> bool \<Rightarrow> 'a list \<Rightarrow> 'a option list \<Rightarrow> 'a option list option \<Rightarrow> bool" where
  "buffers_ok inplace relocate xs Out Tmp \<longleftrightarrow>
     length Out = length xs \<and> (inplace \<longrightarrow> relocate) \<and> (if relocate then Tmp = None else \<exists>T. Tmp = Some T \<and> length T = length xs)"

definition sorted_in :: "bool \<Rightarrow> 'a list \<Rightarrow> 'a option list \<Rightarrow> 'a option list \<Rightarrow> bool" where
  "sorted_in inplace ys In Out \<longleftrightarrow> (if inplace then In = map Some ys else Out = map Some ys) \<and> length In = length ys \<and> length Out = length ys"

lemma seq_radix_sort_ok:
  assumes "buffers_ok inplace relocate xs Out Tmp" and bits: "bits \<le> 64"
  shows "\<exists>I Z T. seq_radix_sort True inplace relocate (map Some xs) Out Tmp g bits = Some (I, Z, T) \<and>
    sorted_in inplace (sorted_low bits g xs) I Z"
proof -
  have into: "length Z = length xs \<Longrightarrow> \<exists>X. length X = length xs \<and> seq_radix_sort_into g bits i (map Some xs) Z =
      Some (let ys = map Some (sorted_low bits g xs) in if i then (ys, X) else (X, ys))" for Z i
    by (rule seq_radix_sort_into_ok [OF _ bits])
  show ?thesis using assms(1) into [of Out True] into [of Out False] into [of "uninitialized (length xs)" True] into [of "the Tmp" True]
    unfolding buffers_ok_def sorted_in_def seq_radix_sort_def
    by (cases inplace; cases relocate) (auto simp: Let_def uninitialized_def)
qed

lemma sort_one_digit:
  assumes "\<forall>x \<in> set xs. digit off bits (g x) = b"
  shows "sorted_low (off + bits) g xs = sorted_low off g xs"
proof -
  have f: "filter (\<lambda>x. digit off bits (g x) = c) xs = (if c = b then xs else [])" for c
    using assms by (auto simp: filter_id_conv filter_empty_conv)
  show ?thesis
  proof (cases "xs = []")
    case False
    then have "b < 2 ^ bits" using assms digit_less [of off bits] by (metis last_in_set)
    then have "concat (map (\<lambda>c. sorted_low off g (filter (\<lambda>x. digit off bits (g x) = c) xs)) [0..<2 ^ bits]) = sorted_low off g xs"
      unfolding f by (rule trans [OF concat_single]) simp_all
    moreover have "concat (map (\<lambda>c. sorted_low off g (filter (\<lambda>x. digit off bits (g x) = c) xs)) [0..<2 ^ bits]) = sorted_low (off + bits) g xs"
      by (rule msd_sort) (auto simp: digit_less low_digit_cmp)
    ultimately show ?thesis by simp
  qed simp
qed

lemma bucketed_split: "i < m \<Longrightarrow> \<exists>rest. bucketed m In = bucketed i In @ bucket i In @ rest"
proof (induction m)
  case (Suc m)
  then show ?case by (cases "i = m") (auto simp: bucketed_Suc)
qed simp

lemma cut_bucket: "i < m \<Longrightarrow> cut (start In i) (start In (i + 1)) (bucketed m In) = bucket i In"
  using bucketed_split [of i m In] by (auto simp: cut_def start_def bucketed_Suc)

lemma start_le: "i < m \<Longrightarrow> start In (i + 1) \<le> length (bucketed m In)"
  using bucketed_split [of i m In] by (auto simp: start_def bucketed_Suc)

lemma sorted_length [simp]: "length (sorted_low bits g xs) = length xs"
  by simp

lemma shift_small: "bits \<le> 64 \<Longrightarrow> \<not> 64 \<le> bits - (8 :: nat)"
  by simp

lemma integer_sort_rec_split:
  assumes "bits \<noteq> 0 \<and> bits \<le> 64" "\<not> (length In < 2 ^ 17 \<or> tiny E par)" "\<not> bits \<le> base_bits (elem_size E) (length In)"
    and "those In = Some xs"
    and "count_sort (elem_size E) (workers E) (map (\<lambda>x. (x, digit (bits - 8) 8 (g x))) xs) 256 True = Some (ws, offs, False)"
    and "build_seq (length In) ws = Some ys"
    and "T = (case Tmp of None \<Rightarrow> if relocate then uninitialized (length In) else In | Some T \<Rightarrow> T)"
    and rs: "those (map (\<lambda>i. integer_sort_rec E (\<not> inplace) True (cut (offs ! i) (offs ! (i + 1)) (map Some ys))
      (cut (offs ! i) (offs ! (i + 1)) T) None g (bits - 8) 0 (scale E par (offs ! (i + 1) - offs ! i) (length In + 1))) [0..<256]) = Some rs"
  shows "integer_sort_rec E inplace relocate In Out Tmp g bits 0 par =
    (let A = concat (map (\<lambda>(a, b, t, r). a) rs); B = concat (map (\<lambda>(a, b, t, r). b) rs)
     in Some (case Tmp of None \<Rightarrow> (B, A, None, []) | Some _ \<Rightarrow> (if relocate then uninitialized (length In) else In, A, Some B, [])))"
  using assms(1-6) rs [unfolded assms(7)] shift_small [OF conjunct2 [OF assms(1)]]
  by (subst integer_sort_rec.simps) (simp add: Let_def merge_offsets_def split: option.splits)

lemma integer_sort_rec_ok:
  assumes triv: "trivial E"
  shows "bits \<le> 64 \<Longrightarrow> buffers_ok inplace relocate xs Out Tmp \<Longrightarrow>
    \<exists>I Z T. integer_sort_rec E inplace relocate (map Some xs) Out Tmp g bits 0 par = Some (I, Z, T, []) \<and>
      sorted_in inplace (sorted_low bits g xs) I Z"
proof (induction bits arbitrary: inplace relocate xs Out Tmp par rule: less_induct)
  case (less bits)
  let ?n = "length xs" and ?rec = "integer_sort_rec E inplace relocate (map Some xs) Out Tmp g bits 0 par"
  have buf: "length Out = ?n" "inplace \<Longrightarrow> relocate" "relocate \<Longrightarrow> Tmp = None" "\<not> relocate \<Longrightarrow> \<exists>T. Tmp = Some T \<and> length T = ?n"
    using less.prems(2) by (auto simp: buffers_ok_def split: if_splits)
  consider "bits = 0" | "bits \<noteq> 0" "?n < 2 ^ 17 \<or> tiny E par"
    | "bits \<noteq> 0" "\<not> (?n < 2 ^ 17 \<or> tiny E par)" "bits \<le> base_bits (elem_size E) ?n"
    | "bits \<noteq> 0" "\<not> (?n < 2 ^ 17 \<or> tiny E par)" "\<not> bits \<le> base_bits (elem_size E) ?n" by blast
  then show ?case
  proof cases
    case 1
    then show ?thesis using buf by (auto simp: integer_sort_rec.simps [of E inplace] Let_def sort_key_const sorted_in_def uninitialized_def)
  next
    case 2
    then show ?thesis using seq_radix_sort_ok [OF less.prems(2,1), of g] triv
      by (subst integer_sort_rec.simps) auto
  next
    case 3
    let ?In = "map (\<lambda>x. (x, digit 0 bits (g x))) xs"
    have k: "\<forall>(x, k) \<in> set ?In. k < 2 ^ bits" by (auto simp: digit_less)
    obtain ws one where ws: "count_sort (elem_size E) (workers E) ?In (2 ^ bits) inplace = Some (ws, map (start ?In) [0..<2 ^ bits + 1], one)"
        "if one then inplace \<and> ws = [] \<and> (\<exists>b < 2 ^ bits. \<forall>(x, k) \<in> set ?In. k = b) else mset ws = mset (stream 0 (bucketed (2 ^ bits) ?In))"
      using count_sort_ok [OF k] by blast
    have b: "bucketed (2 ^ bits) ?In = sorted_low bits g xs"
      unfolding bucketed_map by (subst bsort_sort_key) (simp_all add: digit_0 low_less)
    show ?thesis
    proof (cases one)
      case True
      then have "sorted_low bits g xs = xs" using ws(2) sort_one_digit [of xs 0 bits g] by (auto simp: sort_key_const)
      moreover have "?rec = Some (map Some xs, Out, Tmp, [])"
        using 3 ws(1) True by (subst integer_sort_rec.simps) (simp add: Let_def del: upt_Suc)
      ultimately show ?thesis using ws(2) True buf by (simp add: sorted_in_def)
    next
      case False
      have "build_seq (length ?In) ws = Some (bucketed (2 ^ bits) ?In)" using False ws(2) by (intro build_bucketed [OF k]) simp
      then have "?rec = (let ys = map Some (sorted_low bits g xs) in
          Some (if inplace then (ys, uninitialized ?n, Tmp, []) else (if relocate then uninitialized ?n else map Some xs, ys, Tmp, [])))"
        using 3 ws(1) False b by (subst integer_sort_rec.simps) (simp add: Let_def del: upt_Suc)
      then show ?thesis using buf by (auto simp: sorted_in_def Let_def uninitialized_def)
    qed
  next
    case 4
    define sh where "sh = bits - 8"
    have sh: "sh < bits" "bits = sh + 8" "sh \<le> 64" "bits - 8 < 64" using 4(1,3) less.prems(1) by (auto simp: sh_def base_bits_def Let_def)
    define In where "In = map (\<lambda>x. (x, digit sh 8 (g x))) xs"
    have k: "\<forall>(x, k) \<in> set In. k < 2 ^ 8" by (auto simp: In_def digit_less simp del: power_numeral)
    have k256: "\<forall>(x, k) \<in> set In. k < 256" using k by simp
    let ?offs = "map (start In) [0..<256 + 1]"
    obtain ws one where ws: "count_sort (elem_size E) (workers E) In 256 True = Some (ws, ?offs, one)"
        "if one then True \<and> ws = [] \<and> (\<exists>b < 256. \<forall>(x, k) \<in> set In. k = b) else mset ws = mset (stream 0 (bucketed 256 In))"
      using count_sort_ok [OF k256, of "elem_size E" "workers E" True] by blast
    show ?thesis
    proof (cases one)
      case True
      then have s: "sorted_low bits g xs = sorted_low sh g xs" using ws(2) sort_one_digit [of xs sh 8 g] sh(2) by (auto simp: In_def)
      have "?rec = integer_sort_rec E inplace relocate (map Some xs) Out Tmp g sh 0 par"
        using 4 ws(1) True sh(4) by (subst integer_sort_rec.simps) (simp add: Let_def In_def sh_def del: upt_Suc)
      then show ?thesis using less.IH [OF sh(1,3) less.prems(2), of par] s by simp
    next
      case False
      let ?In' = "if relocate then uninitialized ?n else map Some xs"
      define T where "T = (case Tmp of None \<Rightarrow> ?In' | Some T \<Rightarrow> T)"
      have T: "length T = ?n" using buf by (cases relocate) (auto simp: T_def uninitialized_def)
      have len: "length (bucketed 256 In) = ?n" using length_bucketed [OF k256] by (simp add: In_def)
      have b: "build_seq ?n ws = Some (bucketed 256 In)" using build_bucketed [OF k256, of ws] False ws(2) by (simp add: In_def)
      define f where "f i = integer_sort_rec E (\<not> inplace) True (map Some (bucket i In)) (cut (start In i) (start In (i + 1)) T) None g sh 0
          (scale E par (start In (i + 1) - start In i) (?n + 1))" for i
      have f: "\<exists>a b t. f i = Some (a, b, t, []) \<and> sorted_in (\<not> inplace) (sorted_low sh g (bucket i In)) a b" if "i < 256" for i
      proof -
        have "length (cut (start In i) (start In (i + 1)) T) = length (bucket i In)"
          using start_le [OF that, of In] T len by (simp add: start_Suc)
        then show ?thesis unfolding f_def by (intro less.IH [OF sh(1,3)]) (simp add: buffers_ok_def)
      qed
      let ?rs = "map (\<lambda>i. the (f i)) [0..<256]"
      have rs: "those (map f [0..<256]) = Some ?rs"
        using f by (intro those_map_the ballI) (metis atLeastLessThan_iff option.distinct(1) set_upt)
      define A where "A = concat (map (\<lambda>(a, b, t, r). a) ?rs)"
      define B where "B = concat (map (\<lambda>(a, b, t, r). b) ?rs)"
      have AB: "A = concat (map (\<lambda>i. fst (the (f i))) [0..<256])" "B = concat (map (\<lambda>i. fst (snd (the (f i)))) [0..<256])"
        by (simp_all add: A_def B_def comp_def case_prod_unfold)
      let ?s = "\<lambda>i. sorted_low sh g (bucket i In)"
      have fi: "sorted_in (\<not> inplace) (?s i) (fst (the (f i))) (fst (snd (the (f i))))" if "i < 256" for i
        using f [OF that] by auto
      have "concat (map ?s [0..<256]) = sorted_low bits g xs"
        unfolding In_def bucket_map sh(2) by (rule msd_sort) (use digit_less [of sh 8] in \<open>auto simp: low_digit_cmp\<close>)
      then have srt: "concat (map (\<lambda>i. map Some (?s i)) [0..<256]) = map Some (sorted_low bits g xs)"
        by (simp only: map_concat [of Some] map_map comp_def flip: \<open>concat (map ?s [0..<256]) = _\<close>)
      have part: "(if inplace then B else A) = map Some (sorted_low bits g xs)"
      proof -
        have "(if inplace then B else A) = concat (map (\<lambda>i. map Some (?s i)) [0..<256])"
          unfolding AB using fi by (auto simp: sorted_in_def intro!: arg_cong [of _ _ concat])
        then show ?thesis by (simp only: srt)
      qed
      have lens: "length A = ?n" "length B = ?n"
      proof -
        have l: "length (fst (the (f i))) = length (bucket i In)" "length (fst (snd (the (f i)))) = length (bucket i In)" if "i < 256" for i
          using fi [OF that] by (auto simp: sorted_in_def split: if_splits)
        have "map (\<lambda>i. length (fst (the (f i)))) [0..<256] = map (\<lambda>b. length (bucket b In)) [0..<256]"
            "map (\<lambda>i. length (fst (snd (the (f i))))) [0..<256] = map (\<lambda>b. length (bucket b In)) [0..<256]"
          using l by simp_all
        then show "length A = ?n" "length B = ?n"
          using sum_bucket_lengths [of In 256] start_length [OF k256]
          by (simp_all only: AB length_concat map_map comp_def) (simp_all add: In_def)
      qed
      have ff: "integer_sort_rec E (\<not> inplace) True (map Some (cut (start In i) (start In (Suc i)) (bucketed 256 In)))
          (cut (start In i) (start In (Suc i)) T) None g sh 0 (scale E par (start In (Suc i) - start In i) (Suc ?n)) = f i"
        if "i < 256" for i using cut_bucket [OF that, of In] by (simp add: f_def)
      have "map (\<lambda>i. let s = ?offs ! i; e = ?offs ! (i + 1)
          in integer_sort_rec E (\<not> inplace) True (cut s e (map Some (bucketed 256 In))) (cut s e T) None g sh 0 (scale E par (e - s) (?n + 1))) [0..<256] =
        map f [0..<256]"
        by (rule map_cong) (simp_all add: Let_def ff del: upt_Suc)
      then have e: "those (map (\<lambda>i. let s = ?offs ! i; e = ?offs ! (i + 1)
          in integer_sort_rec E (\<not> inplace) True (cut s e (map Some (bucketed 256 In))) (cut s e T) None g sh 0 (scale E par (e - s) (?n + 1))) [0..<256]) =
        Some ?rs" using rs by (simp only:)
      have "?rec = Some (case Tmp of None \<Rightarrow> (B, A, None, []) | Some _ \<Rightarrow> (?In', A, Some B, []))"
      proof -
        have "those (map (\<lambda>i. integer_sort_rec E (\<not> inplace) True (cut (?offs ! i) (?offs ! (i + 1)) (map Some (bucketed 256 In)))
          (cut (?offs ! i) (?offs ! (i + 1)) T) None g (bits - 8) 0 (scale E par (?offs ! (i + 1) - ?offs ! i) (length (map Some xs) + 1))) [0..<256])
          = Some ?rs"
          using e by (simp only: Let_def sh_def length_map)
        from integer_sort_rec_split [OF _ _ _ _ _ _ _ this, where xs = xs and ws = ws and Tmp = Tmp and relocate = relocate and Out = Out] show ?thesis
          using 4 less.prems(1) ws(1) False b by (simp add: In_def sh_def T_def A_def B_def Let_def split: option.splits del: upt_Suc map_map)
      qed
      then show ?thesis using buf part lens by (cases relocate) (auto simp: sorted_in_def uninitialized_def split: if_splits)
    qed
  qed
qed

section \<open>The whole sort\<close>

lemma total_maximum: "set ks \<subseteq> {k :: u64. k \<le> total maximum_m ks}"
proof -
  have "\<forall>k \<in> insert r (set ks). k \<le> foldl max r ks" for r :: u64
  proof (induction ks arbitrary: r)
    case (Cons k ks)
    have "\<forall>k' \<in> insert (max r k) (set ks). k' \<le> foldl max (max r k) ks" by (rule Cons)
    then show ?case by (auto intro: order_trans [of _ "max r k"])
  qed simp
  then show ?thesis by (auto simp: total_def maximum_m_def)
qed

lemma key_bits_enough:
  assumes "bits = 0 \<or> (\<forall>x \<in> set xs. unat (g x) < 2 ^ bits)" "x \<in> set xs"
  shows "unat (g x) < 2 ^ key_bits_of csqrt g bits xs"
proof (cases "bits = 0")
  case True
  let ?m = "total maximum_m (map g xs)"
  have "g x \<le> ?m" using total_maximum [of "map g xs"] assms(2) by auto
  then have "unat (g x) < unat ?m + 1" by (simp add: word_le_nat_alt)
  also have "\<dots> \<le> 2 ^ log2_up (unat ?m + 1)" by (rule log2_up_bounds) simp
  finally show ?thesis using True maximum.reduce_total [of "map g xs" csqrt False] by (simp add: key_bits_of_def)
qed (use assms in \<open>simp add: key_bits_of_def\<close>)

lemma sorted_low_enough: "\<forall>x \<in> set xs. unat (g x) < 2 ^ k \<Longrightarrow> sorted_low k g xs = sort_key (\<lambda>x. unat (g x)) xs"
proof (rule properties_for_sort_key)
  assume a: "\<forall>x \<in> set xs. unat (g x) < 2 ^ k"
  let ?h = "\<lambda>x. unat (g x)"
  have e: "low k (g x) = ?h x" if "x \<in> set xs" for x using a that by (simp add: low_def)
  show "mset (sort_key ?h xs) = mset xs" by simp
  have "map (\<lambda>x. low k (g x)) (sort_key ?h xs) = map ?h (sort_key ?h xs)" by (simp add: e)
  then show "sorted (map (\<lambda>x. low k (g x)) (sort_key ?h xs))" by (simp only: sorted_sort_key)
  fix y assume "y \<in> set (sort_key ?h xs)"
  then have y: "y \<in> set xs" by simp
  have "filter (\<lambda>x. low k (g y) = low k (g x)) zs = filter (\<lambda>x. ?h x = ?h y) zs" if "set zs \<subseteq> set xs" for zs
    using that e y by (intro filter_cong) auto
  then show "filter (\<lambda>x. low k (g y) = low k (g x)) (sort_key ?h xs) = filter (\<lambda>x. low k (g y) = low k (g x)) xs"
    by (simp add: sort_key_stable)
qed

lemma key_bits_word: "bits \<le> 64 \<Longrightarrow> key_bits_of csqrt g bits xs \<le> 64"
proof -
  have "unat (reduce csqrt False maximum_m (map g xs)) + 1 \<le> 2 ^ 64" using unsigned_less [where ?'a = nat, of "reduce csqrt False maximum_m (map g xs)"] by simp
  moreover have "log2_up i \<le> 64" if "i \<le> 2 ^ 64" for i
  proof (cases "1 < i")
    case True
    have "(2 :: nat) ^ (log2_up i - 1) < 2 ^ 64" using log2_up_bounds(2) [OF True] that by (rule order.strict_trans2)
    then have "log2_up i - 1 < 64" by (rule power_less_imp_less_exp [rotated]) simp
    then show ?thesis by simp
  next
    case False
    then show ?thesis by (simp add: log2_up_def bit_length.simps)
  qed
  ultimately have "log2_up (unat (reduce csqrt False maximum_m (map g xs)) + 1) \<le> 64" by blast
  then show "bits \<le> 64 \<Longrightarrow> key_bits_of csqrt g bits xs \<le> 64" by (simp add: key_bits_of_def)
qed

lemma integer_sorts_ok:
  assumes "trivial E" and "bits \<le> 64" and "bits = 0 \<or> (\<forall>x \<in> set xs. unat (g x) < 2 ^ bits)"
  shows "integer_sort E par csqrt g bits xs = Some (sort_key (\<lambda>x. unat (g x)) xs)"
    and "integer_sort_inplace E par csqrt g bits xs = Some (sort_key (\<lambda>x. unat (g x)) xs)"
proof -
  let ?k = "key_bits_of csqrt g bits xs"
  have k: "?k \<le> 64" by (rule key_bits_word [OF assms(2)])
  have s: "sorted_low ?k g xs = sort_key (\<lambda>x. unat (g x)) xs"
    using key_bits_enough [OF assms(3)] by (intro sorted_low_enough) blast
  show "integer_sort E par csqrt g bits xs = Some (sort_key (\<lambda>x. unat (g x)) xs)"
    using integer_sort_rec_ok [OF assms(1) k, where inplace = False and relocate = False and xs = xs and Out = "uninitialized (length xs)" and
        Tmp = "Some (uninitialized (length xs))" and g = g and par = par] s
    by (auto simp: integer_sort_def buffers_ok_def sorted_in_def)
  show "integer_sort_inplace E par csqrt g bits xs = Some (sort_key (\<lambda>x. unat (g x)) xs)"
    using integer_sort_rec_ok [OF assms(1) k, where inplace = True and relocate = True and xs = xs and Out = "uninitialized (length xs)" and
        Tmp = None and g = g and par = par] s
    by (auto simp: integer_sort_inplace_def buffers_ok_def sorted_in_def)
qed

lemma those_None: "None \<in> set ys \<Longrightarrow> those ys = None"
  by (induction ys) (auto split: option.splits)

lemma integer_sort_rec_lost:
  assumes "bits \<noteq> 0 \<and> bits \<le> 64" "\<not> (length In < 2 ^ 17 \<or> tiny E par)" "\<not> bits \<le> base_bits (elem_size E) (length In)"
    and "those In = Some xs"
    and "count_sort (elem_size E) (workers E) (map (\<lambda>x. (x, digit (bits - 8) 8 (g x))) xs) 256 True = Some (ws, offs, False)"
    and "build_seq (length In) ws = Some ys"
    and "T = (case Tmp of None \<Rightarrow> if relocate then uninitialized (length In) else In | Some T \<Rightarrow> T)"
    and "i < 256" and rs: "integer_sort_rec E (\<not> inplace) True (cut (offs ! i) (offs ! (i + 1)) (map Some ys))
      (cut (offs ! i) (offs ! (i + 1)) T) None g (bits - 8) 0 (scale E par (offs ! (i + 1) - offs ! i) (length In + 1)) = None"
  shows "integer_sort_rec E inplace relocate In Out Tmp g bits 0 par = None"
proof -
  have "those (map (\<lambda>i. integer_sort_rec E (\<not> inplace) True (cut (offs ! i) (offs ! (i + 1)) (map Some ys))
      (cut (offs ! i) (offs ! (i + 1)) T) None g (bits - 8) 0 (scale E par (offs ! (i + 1) - offs ! i) (length In + 1))) [0..<256]) = None"
    by (rule those_None) (use assms(8) rs in \<open>force simp: image_iff\<close>)
  then show ?thesis using assms(1-6) unfolding assms(7)
    by (subst integer_sort_rec.simps) (simp add: Let_def)
qed

lemma seq_radix_sort_lost:
  "xs \<noteq> [] \<Longrightarrow> 0 < bits \<Longrightarrow> odd ((bits - 1) div 8) \<Longrightarrow> seq_radix_sort False False True (map Some xs) Out None g bits = None"
proof -
  assume a: "xs \<noteq> []" "0 < bits" "odd ((bits - 1) div 8)"
  then have "those (uninitialized (length xs) :: 'a option list) = None" by (intro those_None) (simp add: uninitialized_def)
  then show ?thesis using a by (simp add: seq_radix_sort_def seq_radix_sort_into_def radix_rounds.simps [of g bits] Let_def uninitialized_def)
qed

lemma integer_sort_rec_small_lost:
  assumes "xs \<noteq> []" "length xs < 2 ^ 17" "\<not> trivial E"
  shows "integer_sort_rec E False True (map Some xs) Out None g 16 0 par = None"
proof -
  have "seq_radix_sort False False True (map Some xs) Out None g 16 = None"
    by (rule seq_radix_sort_lost [OF assms(1)]) simp_all
  then show ?thesis using assms(2,3) by (simp add: integer_sort_rec.simps [of E False True _ _ _ _ 16] Let_def)
qed

lemma integer_sort_inplace_lost:
  assumes "\<not> trivial E" "\<not> tiny E par" "length xs = 2 ^ 17" "x \<in> set xs" "y \<in> set xs" "digit 16 8 (g x) \<noteq> digit 16 8 (g y)"
  shows "integer_sort_inplace E par csqrt g 24 xs = None"
proof -
  let ?n = "length xs"
  define In where "In = map (\<lambda>x. (x, digit 16 8 (g x))) xs"
  have k: "\<forall>(x, k) \<in> set In. k < 256" using digit_less [of 16 8] by (auto simp: In_def)
  obtain ws one where ws: "count_sort (elem_size E) (workers E) In 256 True = Some (ws, map (start In) [0..<256 + 1], one)"
      "if one then True \<and> ws = [] \<and> (\<exists>b < 256. \<forall>(x, k) \<in> set In. k = b) else mset ws = mset (stream 0 (bucketed 256 In))"
    using count_sort_ok [OF k, of "elem_size E" "workers E" True] by blast
  have "\<not> one" using ws(2) assms(4-6) by (auto simp: In_def split: if_splits)
  then have b: "build_seq ?n ws = Some (bucketed 256 In)" using build_bucketed [OF k, of ws] ws(2) by (simp add: In_def)
  let ?i = "digit 16 8 (g x)"
  have i: "?i < 256" using digit_less [of 16 8 "g x"] by simp
  have bk: "bucket ?i In = filter (\<lambda>z. digit 16 8 (g z) = ?i) xs" by (simp add: In_def bucket_map)
  then have ne: "bucket ?i In \<noteq> []" using assms(4) by (auto simp: filter_empty_conv)
  have lt: "length (bucket ?i In) < 2 ^ 17"
    unfolding bk assms(3) [symmetric] using assms(5,6) by (intro length_filter_less [of y]) auto
  let ?o = "map (start In) [0..<256 + 1]"
  have o0: "?o ! ?i = start In ?i" "?o ! (?i + 1) = start In (?i + 1)" using i by (simp_all del: upt_Suc)
  have "integer_sort_rec E (\<not> True) True (cut (?o ! ?i) (?o ! (?i + 1)) (map Some (bucketed 256 In)))
      (cut (?o ! ?i) (?o ! (?i + 1)) (uninitialized ?n)) None g (24 - 8) 0 (scale E par (?o ! (?i + 1) - ?o ! ?i) (?n + 1)) = None"
    unfolding o0 cut_map cut_bucket [OF i] using integer_sort_rec_small_lost [OF ne lt assms(1)] by simp
  then have rec: "integer_sort_rec E (\<not> True) True (cut (?o ! ?i) (?o ! (?i + 1)) (map Some (bucketed 256 In)))
      (cut (?o ! ?i) (?o ! (?i + 1)) (uninitialized (length (map Some xs)))) None g (24 - 8) 0
      (scale E par (?o ! (?i + 1) - ?o ! ?i) (length (map Some xs) + 1)) = None"
    by (simp only: length_map)
  have large: "\<not> (length (map Some xs) < 2 ^ 17 \<or> tiny E par)" using assms(2,3) by simp
  have bits: "\<not> 24 \<le> base_bits (elem_size E) (length (map Some xs))" by (simp add: base_bits_def Let_def)
  have cs: "count_sort (elem_size E) (workers E) (map (\<lambda>x. (x, digit (24 - 8) 8 (g x))) xs) 256 True = Some (ws, ?o, False)"
    using ws(1) \<open>\<not> one\<close> by (simp add: In_def del: upt_Suc)
  have bs: "build_seq (length (map Some xs)) ws = Some (bucketed 256 In)" using b by simp
  have "integer_sort_rec E True True (map Some xs) (uninitialized ?n) None g 24 0 par = None"
    by (rule integer_sort_rec_lost [OF _ large bits those_map_Some cs bs _ i rec]) simp_all
  then show ?thesis by (simp add: integer_sort_inplace_def key_bits_of_def)
qed

section \<open>Properties\<close>

text \<open>C36. For elements that may be moved by copying their bytes (integers, plain structs), both integer sorts return, and the
  result is the stable sort by key, whatever the number of workers, the size of the elements and the degree of parallelism: the
  bottom-up rounds, the top-down recursion, the exchange of the buffers and the reuse of one buffer as scratch space never lose,
  duplicate or misplace an element. \<open>bits\<close> is at most 64, and it is 0 or every key is below \<open>2 ^ bits\<close>; with more than
  64 bits the code can come to shift a key by 64 or more, which is undefined.\<close>

theorem integer_sort_correct:
  assumes "trivial E" and "bits \<le> 64" and "bits = 0 \<or> (\<forall>x \<in> set xs. unat (g x) < 2 ^ bits)"
  shows "integer_sort E par csqrt g bits xs = Some (sort_key (\<lambda>x. unat (g x)) xs) \<and>
    integer_sort_inplace E par csqrt g bits xs = Some (sort_key (\<lambda>x. unat (g x)) xs)"
  using integer_sorts_ok [OF assms] by blast

definition plain_env :: "unit sort_env" where
  "plain_env = \<lparr>elem_size = 8, workers = 4, trivial = True, scale = (\<lambda>p _ _. p), tiny = (\<lambda>_. False)\<rparr>"

text \<open>Such a shift is reached: with 72 bits, the ninth round of the bottom-up sort.\<close>

lemma integer_sort_wide: "integer_sort plain_env () csqrt g 72 [x] = None"
  by (simp add: integer_sort_def integer_sort_rec.simps [of _ _ _ _ _ _ _ 72] seq_radix_sort_def seq_radix_sort_into_def key_bits_of_def
      plain_env_def uninitialized_def radix_rounds.simps digit_sort_def Let_def)

theorem integer_sort_correct_witness:
  "integer_sort plain_env () (\<lambda>n. n) fst 0 [(300, ''a''), (1, ''b''), (300, ''c'')] = Some [(1, ''b''), (300, ''a''), (300, ''c'')]"
  using integer_sort_correct [of plain_env 0 "[(300, ''a''), (1, ''b''), (300, ''c'')]" fst "()" "\<lambda>n. n"] by (simp add: plain_env_def)

text \<open>C37. The in-place sort loses elements that cannot be moved by copying their bytes: \<open>2 ^ 17\<close> elements with 24-bit keys that
  differ in the top digit are split over 256 buckets, which are sorted by two rounds each with the scratch buffer of the input
  itself, and the wrapper of the bottom-up sort then relocates the bucket onto itself. The result has no value: the code reads
  elements it has destroyed.\<close>

theorem integer_sort_inplace_loses:
  assumes "\<not> trivial E" and "\<not> tiny E par" and "length xs = 2 ^ 17"
    and "x \<in> set xs" and "y \<in> set xs" and "digit 16 8 (g x) \<noteq> digit 16 8 (g y)"
  shows "integer_sort_inplace E par csqrt g 24 xs = None"
  using integer_sort_inplace_lost [OF assms] .

theorem integer_sort_inplace_loses_witness:
  "integer_sort_inplace (plain_env\<lparr>trivial := False\<rparr>) () (\<lambda>n. n) fst 24 ((65536, ''a'') # replicate (2 ^ 17 - 1) (0, ''b'')) = None"
  by (rule integer_sort_inplace_loses [where x = "(65536, ''a'')" and y = "(0, ''b'')"])
    (simp_all add: plain_env_def digit_def in_set_replicate, (simp add: unat_eq_zero)?)

end
