(* ===== verification/Treap.thy ===== *)
theory Treap
  imports Prelude
begin

text \<open>
  The persistent treap of \<^verbatim>\<open>lib/treap\<close>: nodes (\<^verbatim>\<open>node.hpp\<close>), insertion by path copying
  (\<^verbatim>\<open>search_insert.hpp\<close>) and deletion (\<^verbatim>\<open>search_delete.hpp\<close>), as functions on trees. A published
  node is never written again (its cached sum apart, see theory Treap_Query), so a pointer to it is
  the tree below it. The parameter \<open>h\<close> of the invariant is the priority hash.
\<close>

section \<open>Nodes\<close>

text \<open>The fields are the version, priority, key, counter, cached sum and the two children.\<close>

datatype tree = Null | Node nat u64 u64 u64 u64 tree tree

definition aug_uninitialized :: u64 where
  "aug_uninitialized = 0"

definition make_node :: "nat \<Rightarrow> u64 \<Rightarrow> u64 \<Rightarrow> tree" where
  "make_node ver pry key = Node ver pry key 1 aug_uninitialized Null Null"

definition make_node_hash :: "(u64 \<Rightarrow> u64) \<Rightarrow> nat \<Rightarrow> u64 \<Rightarrow> tree" where
  "make_node_hash h ver key = make_node ver (h key) key"

text \<open>A weak copy keeps priority, key and counter; sum and children start out unset.\<close>

fun make_weak_copy :: "tree \<Rightarrow> nat \<Rightarrow> tree" where
  "make_weak_copy Null ver = Null"
| "make_weak_copy (Node v p k x a l r) ver = Node ver p k x aug_uninitialized Null Null"

fun set_children :: "tree \<Rightarrow> tree \<Rightarrow> tree \<Rightarrow> tree" where
  "set_children Null l' r' = Null"
| "set_children (Node v p k x a l r) l' r' = Node v p k x a l' r'"

fun set_val :: "tree \<Rightarrow> u64 \<Rightarrow> tree" where
  "set_val Null x' = Null"
| "set_val (Node v p k x a l r) x' = Node v p k x' a l r"

lemmas node_defs [simp] = aug_uninitialized_def make_node_def make_node_hash_def

section \<open>Insertion\<close>

fun split_copy :: "nat \<Rightarrow> tree \<Rightarrow> u64 \<Rightarrow> tree \<times> tree" where
  "split_copy ver Null key = (Null, Null)"
| "split_copy ver (Node v p k x a l r) key =
     (let t = Node v p k x a l r in
      if key < k then
        (let (t_l, sub) = split_copy ver l key in (t_l, set_children (make_weak_copy t ver) sub r))
      else
        (let (sub, t_r) = split_copy ver r key in (set_children (make_weak_copy t ver) l sub, t_r)))"

definition process_deploy :: "nat \<Rightarrow> tree \<Rightarrow> u64 \<Rightarrow> u64 \<Rightarrow> tree" where
  "process_deploy ver t_past pry key =
     (let t_new = make_node ver pry key; (l, r) = split_copy ver t_past key
      in set_children t_new l r)"

fun search_insert :: "nat \<Rightarrow> tree \<Rightarrow> u64 \<Rightarrow> u64 \<Rightarrow> tree" where
  "search_insert ver Null pry key = make_node ver pry key"
| "search_insert ver (Node v p k x a l r) pry key =
     (let t_past = Node v p k x a l r in
      if p > pry then
        (let t_new = make_weak_copy t_past ver in
         if key < k then set_children t_new (search_insert ver l pry key) r
         else set_children t_new l (search_insert ver r pry key))
      else if k = key then
        (let t_new = make_weak_copy t_past ver in set_children (set_val t_new (x + 1)) l r)
      else process_deploy ver t_past pry key)"

section \<open>Deletion\<close>

fun process_concat :: "nat \<Rightarrow> tree \<Rightarrow> tree \<Rightarrow> tree" where
  "process_concat ver Null t_r = t_r"
| "process_concat ver t_l Null = t_l"
| "process_concat ver (Node v p k x a l r) (Node v' p' k' x' a' l' r') =
     (let t_l = Node v p k x a l r; t_r = Node v' p' k' x' a' l' r' in
      if p > p' then set_children (make_weak_copy t_l ver) l (process_concat ver r t_r)
      else set_children (make_weak_copy t_r ver) (process_concat ver t_l l') r')"

fun search_delete :: "nat \<Rightarrow> tree \<Rightarrow> u64 \<Rightarrow> u64 \<Rightarrow> tree" where
  "search_delete ver Null pry key = Null"
| "search_delete ver (Node v p k x a l r) pry key =
     (let t_past = Node v p k x a l r in
      if p > pry then
        (let t_new = make_weak_copy t_past ver in
         if key < k then set_children t_new (search_delete ver l pry key) r
         else set_children t_new l (search_delete ver r pry key))
      else if k = key then
        (if x = 1 then process_concat ver l r
         else (let t_new = make_weak_copy t_past ver in set_children (set_val t_new (x - 1)) l r))
      else t_past)"

section \<open>Unfolding equations\<close>

text \<open>The same equations with the copies and field updates written out as nodes.\<close>

lemma split_copy_Node [tree_simps]:
  "split_copy ver (Node v p k x a l r) key =
     (if key < k then (let (t_l, sub) = split_copy ver l key in (t_l, Node ver p k x 0 sub r))
      else (let (sub, t_r) = split_copy ver r key in (Node ver p k x 0 l sub, t_r)))"
  by simp

lemma search_insert_Node [tree_simps]:
  "search_insert ver (Node v p k x a l r) pry key =
     (if p > pry then
        if key < k then Node ver p k x 0 (search_insert ver l pry key) r
        else Node ver p k x 0 l (search_insert ver r pry key)
      else if k = key then Node ver p k (x + 1) 0 l r
      else process_deploy ver (Node v p k x a l r) pry key)"
  by (simp add: Let_def)

lemma process_concat_Node [tree_simps]:
  "process_concat ver (Node v p k x a l r) (Node v' p' k' x' a' l' r') =
     (if p > p' then Node ver p k x 0 l (process_concat ver r (Node v' p' k' x' a' l' r'))
      else Node ver p' k' x' 0 (process_concat ver (Node v p k x a l r) l') r')"
  by (simp add: Let_def)

lemma search_delete_Node [tree_simps]:
  "search_delete ver (Node v p k x a l r) pry key =
     (if p > pry then
        if key < k then Node ver p k x 0 (search_delete ver l pry key) r
        else Node ver p k x 0 l (search_delete ver r pry key)
      else if k = key then
        if x = 1 then process_concat ver l r else Node ver p k (x - 1) 0 l r
      else Node v p k x a l r)"
  by (simp add: Let_def)

declare split_copy.simps(2) [simp del] search_insert.simps(2) [simp del]
  process_concat.simps(3) [simp del] search_delete.simps(2) [simp del]

section \<open>Contents and invariant\<close>

primrec keys :: "tree \<Rightarrow> u64 set" where
  "keys Null = {}"
| "keys (Node v p k x a l r) = insert k (keys l \<union> keys r)"

fun counts :: "tree \<Rightarrow> u64 \<rightharpoonup> u64" where
  "counts Null = Map.empty"
| "counts (Node v p k x a l r) = (counts l ++ counts r)(k \<mapsto> x)"

primrec vers :: "tree \<Rightarrow> nat set" where
  "vers Null = {}"
| "vers (Node v p k x a l r) = insert v (vers l \<union> vers r)"

primrec nodes :: "tree \<Rightarrow> nat" where
  "nodes Null = 0"
| "nodes (Node v p k x a l r) = Suc (nodes l + nodes r)"

text \<open>
  The invariant: a search tree in the keys, a heap in the priorities, and every priority is the
  hash of its key.
\<close>

primrec treap :: "(u64 \<Rightarrow> u64) \<Rightarrow> tree \<Rightarrow> bool" where
  "treap h Null = True"
| "treap h (Node v p k x a l r) =
     (p = h k \<and> (\<forall>y \<in> keys l. y < k \<and> h y < p) \<and> (\<forall>y \<in> keys r. k < y \<and> h y < p) \<and>
      treap h l \<and> treap h r)"

text \<open>What a counter map promises: insertion counts up, deletion counts down and removes at one.\<close>

definition bump :: "u64 \<Rightarrow> (u64 \<rightharpoonup> u64) \<Rightarrow> u64 \<rightharpoonup> u64" where
  "bump k m = m(k \<mapsto> (case m k of None \<Rightarrow> 1 | Some n \<Rightarrow> n + 1))"

definition drop_one :: "u64 \<Rightarrow> (u64 \<rightharpoonup> u64) \<Rightarrow> u64 \<rightharpoonup> u64" where
  "drop_one k m = (case m k of None \<Rightarrow> m | Some n \<Rightarrow> if n = 1 then m(k := None) else m(k \<mapsto> n - 1))"

lemma finite_keys [simp]: "finite (keys t)"
  by (induction t) auto

lemma dom_counts [simp]: "dom (counts t) = keys t"
proof (induction t)
  case (Node v p k x a l r)
  have "dom (counts (Node v p k x a l r)) = insert k (dom (counts r) \<union> dom (counts l))"
    by (simp only: counts.simps dom_fun_upd dom_map_add option.distinct if_False)
  with Node show ?case by (simp only: keys.simps Un_commute)
qed simp

lemma counts_eq_None [simp]: "counts t y = None \<longleftrightarrow> y \<notin> keys t"
  by (metis dom_counts domIff)

lemma counts_Node:
  assumes "treap h (Node v p k x a l r)"
  shows "counts (Node v p k x a l r) y =
    (if y < k then counts l y else if k < y then counts r y else Some x)"
  using assms by (auto simp: map_add_def split: option.split)
     (metis counts_eq_None less_asym option.discI)+

lemma treap_key_notin:
  "treap h (Node v p k x a l r) \<Longrightarrow> k \<notin> keys l \<and> k \<notin> keys r"
  by auto

text \<open>Under an injective hash a key whose priority is at least the root's is the root or absent.\<close>

lemma treap_absent:
  assumes "treap h (Node v p k x a l r)" and "inj h" and "\<not> p > h key" and "k \<noteq> key"
  shows "key \<notin> keys (Node v p k x a l r)" and "p < h key"
proof -
  have "h k \<noteq> h key" using assms(2,4) by (simp add: inj_eq)
  then show less: "p < h key" using assms(1,3) by simp
  show "key \<notin> keys (Node v p k x a l r)" using less assms(1,4) by auto
qed

lemma treap_heap:
  "treap h (Node v p k x a l r) \<Longrightarrow> y \<in> keys (Node v p k x a l r) \<Longrightarrow> h y \<le> p"
  by (auto intro: less_imp_le)

section \<open>Splitting\<close>

lemma keys_split_copy:
  assumes "treap h t" and "split_copy ver t key = (a, b)"
  shows "keys a = {y \<in> keys t. y \<le> key} \<and> keys b = {y \<in> keys t. key < y}"
  using assms
proof (induction ver t key arbitrary: a b rule: split_copy.induct)
  case (2 ver v p k x s l r key)
  show ?case
  proof (cases "key < k")
    case True
    with 2 show ?thesis by (fastforce simp: tree_simps split: prod.splits)
  next
    case False
    with 2 show ?thesis by (fastforce simp: tree_simps split: prod.splits)
  qed
qed simp

lemma treap_split_copy:
  "treap h t \<Longrightarrow> split_copy ver t key = (a, b) \<Longrightarrow> treap h a \<and> treap h b"
proof (induction ver t key arbitrary: a b rule: split_copy.induct)
  case (2 ver v p k x s l r key)
  have out: "split_copy ver (Node v p k x s l r) key = (a, b)" by fact
  have sub: "treap h l" "treap h r" using "2.prems"(1) by simp_all
  show ?case
  proof (cases "key < k")
    case True
    then obtain c where s: "split_copy ver l key = (a, c)"
      and b: "b = Node ver p k x 0 c r" using out by (auto simp: tree_simps split: prod.splits)
    have "treap h a" "treap h c" using "2.IH"(1) [OF _ True _ s] sub by auto
    with "2.prems"(1) keys_split_copy [OF sub(1) s] show ?thesis by (auto simp: b)
  next
    case False
    then obtain c where s: "split_copy ver r key = (c, b)"
      and a: "a = Node ver p k x 0 l c" using out by (auto simp: tree_simps split: prod.splits)
    have "treap h b" "treap h c" using "2.IH"(2) [OF _ False _ s] sub by auto
    with "2.prems"(1) keys_split_copy [OF sub(2) s] show ?thesis by (auto simp: a)
  qed
qed simp

lemma counts_split_copy:
  assumes "treap h t" and "split_copy ver t key = (a, b)"
  shows "counts a y = (if y \<le> key then counts t y else None) \<and>
         counts b y = (if key < y then counts t y else None)"
  using assms
proof (induction ver t key arbitrary: a b rule: split_copy.induct)
  case (2 ver v p k x s l r key)
  have node: "counts (Node v p k x s l r) y =
      (if y < k then counts l y else if k < y then counts r y else Some x)"
    by (rule counts_Node [OF "2.prems"(1)])
  have out: "split_copy ver (Node v p k x s l r) key = (a, b)" by fact
  have tr: "treap h a" "treap h b" using treap_split_copy "2.prems" by blast+
  show ?case
  proof (cases "key < k")
    case True
    then obtain sub where s: "split_copy ver l key = (a, sub)"
      and b: "b = Node ver p k x 0 sub r" using out by (auto simp: tree_simps split: prod.splits)
    from "2.IH"(1) [OF _ True _ s] "2.prems"(1)
    have "counts a y = (if y \<le> key then counts l y else None)"
      "counts sub y = (if key < y then counts l y else None)" by auto
    with True tr show ?thesis unfolding b node counts_Node [OF tr(2) [unfolded b]] by auto
  next
    case False
    then obtain sub where s: "split_copy ver r key = (sub, b)"
      and a: "a = Node ver p k x 0 l sub" using out by (auto simp: tree_simps split: prod.splits)
    from "2.IH"(2) [OF _ False _ s] "2.prems"(1)
    have "counts b y = (if key < y then counts r y else None)"
      "counts sub y = (if y \<le> key then counts r y else None)" by auto
    with False tr show ?thesis unfolding a node counts_Node [OF tr(1) [unfolded a]] by auto
  qed
qed simp

section \<open>Correctness of insertion\<close>

lemma process_deploy_Node:
  "split_copy ver t key = (a, b) \<Longrightarrow> process_deploy ver t pry key = Node ver pry key 1 0 a b"
  by (simp add: process_deploy_def)

lemma treap_process_deploy:
  assumes "treap h t" and "\<forall>y \<in> keys t. h y < h key" and "key \<notin> keys t"
  shows "treap h (process_deploy ver t (h key) key)"
    and "keys (process_deploy ver t (h key) key) = insert key (keys t)"
    and "counts (process_deploy ver t (h key) key) = (counts t)(key \<mapsto> 1)"
proof -
  obtain a b where s: "split_copy ver t key = (a, b)" by fastforce
  note d = process_deploy_Node [OF s, of "h key"]
  note ks = keys_split_copy [OF assms(1) s] and ts = treap_split_copy [OF assms(1) s]
  show t: "treap h (process_deploy ver t (h key) key)"
    unfolding d using assms ks ts by (auto simp: le_less)
  show "keys (process_deploy ver t (h key) key) = insert key (keys t)"
    unfolding d using ks by auto
  show "counts (process_deploy ver t (h key) key) = (counts t)(key \<mapsto> 1)"
  proof
    fix y
    show "counts (process_deploy ver t (h key) key) y = ((counts t)(key \<mapsto> 1)) y"
      using counts_Node [OF t [unfolded d], of y] counts_split_copy [OF assms(1) s, of y]
      unfolding d by auto
  qed
qed

lemma process_deploy_absent:
  assumes "treap h (Node v p k x a l r)" "inj h" and "\<not> p > h key" "k \<noteq> key"
  shows "treap h (process_deploy ver (Node v p k x a l r) (h key) key)"
    and "keys (process_deploy ver (Node v p k x a l r) (h key) key) = insert key (keys (Node v p k x a l r))"
    and "counts (process_deploy ver (Node v p k x a l r) (h key) key) = bump key (counts (Node v p k x a l r))"
proof -
  note absent = treap_absent [OF assms]
  have low: "\<forall>y \<in> keys (Node v p k x a l r). h y < h key"
    using treap_heap [OF assms(1)] absent(2) by (meson le_less_trans)
  note d = treap_process_deploy [OF assms(1) low absent(1)]
  show "treap h (process_deploy ver (Node v p k x a l r) (h key) key)" by (rule d(1))
  show "keys (process_deploy ver (Node v p k x a l r) (h key) key) = insert key (keys (Node v p k x a l r))"
    by (rule d(2))
  have "counts (Node v p k x a l r) key = None" using absent(1) by (simp only: counts_eq_None not_False_eq_True)
  then show "counts (process_deploy ver (Node v p k x a l r) (h key) key) = bump key (counts (Node v p k x a l r))"
    unfolding d(3) by (simp only: bump_def option.case)
qed

lemma keys_search_insert:
  "treap h t \<Longrightarrow> inj h \<Longrightarrow> keys (search_insert ver t (h key) key) = insert key (keys t)"
proof (induction t)
  case (Node v p k x a l r)
  then show ?case
    using process_deploy_absent(2) [OF Node.prems, of key ver] by (auto simp: search_insert_Node)
qed simp

lemma treap_search_insert:
  "treap h t \<Longrightarrow> inj h \<Longrightarrow> treap h (search_insert ver t (h key) key)"
proof (induction t)
  case (Node v p k x a l r)
  then show ?case
    using process_deploy_absent(1) [OF Node.prems, of key ver]
      keys_search_insert [of h l ver key] keys_search_insert [of h r ver key]
    by (auto simp: search_insert_Node not_less_iff_gr_or_eq)
qed simp

text \<open>One level of a point update: only the side of the key changes.\<close>

definition point_update :: "('v option \<Rightarrow> 'v option) \<Rightarrow> 'k \<Rightarrow> ('k \<rightharpoonup> 'v) \<Rightarrow> 'k \<rightharpoonup> 'v" where
  "point_update f k m = m(k := f (m k))"

lemma bump_point_update: "bump = point_update (\<lambda>n. case n of None \<Rightarrow> Some 1 | Some n \<Rightarrow> Some (n + 1))"
  by (intro ext) (simp add: bump_def point_update_def split: option.split)

lemma drop_one_point_update:
  "drop_one = point_update (\<lambda>n. case n of None \<Rightarrow> None | Some n \<Rightarrow> if n = 1 then None else Some (n - 1))"
  by (intro ext) (simp add: drop_one_def point_update_def split: option.split)

lemma point_update_left:
  assumes "treap h (Node v p k x a l r)" "treap h (Node v' p k x a' l' r)" "key < k"
    and "counts l' = point_update f key (counts l)"
  shows "counts (Node v' p k x a' l' r) = point_update f key (counts (Node v p k x a l r))"
  using assms counts_Node [OF assms(1)] counts_Node [OF assms(2)]
  unfolding point_update_def by (auto simp del: counts.simps)

lemma point_update_right:
  assumes "treap h (Node v p k x a l r)" "treap h (Node v' p k x a' l r')" "k < key"
    and "counts r' = point_update f key (counts r)"
  shows "counts (Node v' p k x a' l r') = point_update f key (counts (Node v p k x a l r))"
  using assms counts_Node [OF assms(1)] counts_Node [OF assms(2)]
  unfolding point_update_def by (auto simp del: counts.simps)

lemma counts_search_insert:
  "treap h t \<Longrightarrow> inj h \<Longrightarrow> counts (search_insert ver t (h key) key) = bump key (counts t)"
proof (induction t)
  case Null
  then show ?case by (simp add: bump_def)
next
  case (Node v p k x a l r)
  note t = treap_search_insert [OF Node.prems, of ver key]
  consider "p > h key" "key < k" | "p > h key" "k < key" | "\<not> p > h key" "k = key" | "\<not> p > h key" "k \<noteq> key"
    using Node.prems(1) by fastforce
  then show ?case
  proof cases
    case 1
    then have e: "search_insert ver (Node v p k x a l r) (h key) key =
        Node ver p k x 0 (search_insert ver l (h key) key) r" by (simp add: search_insert_Node)
    show ?thesis unfolding e bump_point_update
      by (rule point_update_left [OF Node.prems(1) t [unfolded e] 1(2)])
        (use Node in \<open>simp flip: bump_point_update\<close>)
  next
    case 2
    then have e: "search_insert ver (Node v p k x a l r) (h key) key =
        Node ver p k x 0 l (search_insert ver r (h key) key)" by (auto simp: search_insert_Node)
    show ?thesis unfolding e bump_point_update
      by (rule point_update_right [OF Node.prems(1) t [unfolded e] 2(2)])
        (use Node in \<open>simp flip: bump_point_update\<close>)
  next
    case 3
    then show ?thesis by (intro ext) (simp add: search_insert_Node bump_def)
  next
    case 4
    then show ?thesis using process_deploy_absent(3) [OF Node.prems 4] by (simp only: search_insert_Node if_False)
  qed
qed

section \<open>Correctness of deletion\<close>

text \<open>Two treaps are concatenated when every key of the first is below every key of the second.\<close>

definition below :: "tree \<Rightarrow> tree \<Rightarrow> bool" where
  "below t_l t_r \<longleftrightarrow> (\<forall>y \<in> keys t_l. \<forall>z \<in> keys t_r. y < z)"

lemma below_Node:
  "below (Node v p k x a l r) t \<Longrightarrow> below r t \<and> (\<forall>z \<in> keys t. k < z)"
  "below t (Node v p k x a l r) \<Longrightarrow> below t l \<and> (\<forall>z \<in> keys t. z < k)"
  by (auto simp: below_def)

lemma keys_process_concat [simp]: "keys (process_concat ver t_l t_r) = keys t_l \<union> keys t_r"
  by (induction ver t_l t_r rule: process_concat.induct) (auto simp: process_concat_Node)

lemma treap_process_concat:
  "treap h t_l \<Longrightarrow> treap h t_r \<Longrightarrow> below t_l t_r \<Longrightarrow> inj h \<Longrightarrow> treap h (process_concat ver t_l t_r)"
proof (induction ver t_l t_r rule: process_concat.induct)
  case (3 ver v p k x a l r v' p' k' x' a' l' r')
  have "k < k'" using "3.prems"(3) by (simp add: below_def)
  then have ne: "p \<noteq> p'" using "3.prems"(1,2,4) by (auto simp: inj_eq)
  note b = below_Node(1) [OF "3.prems"(3)] below_Node(2) [OF "3.prems"(3)]
  have "\<forall>y \<in> keys (Node v p k x a l r). h y \<le> p" "\<forall>y \<in> keys (Node v' p' k' x' a' l' r'). h y \<le> p'"
    using treap_heap "3.prems"(1,2) by blast+
  with 3 b ne show ?case by (cases "p > p'") (auto simp: process_concat_Node)
qed simp_all

lemma counts_process_concat:
  "treap h t_l \<Longrightarrow> treap h t_r \<Longrightarrow> below t_l t_r \<Longrightarrow> inj h \<Longrightarrow>
   counts (process_concat ver t_l t_r) = counts t_l ++ counts t_r"
proof (induction ver t_l t_r rule: process_concat.induct)
  case (3 ver v p k x a l r v' p' k' x' a' l' r')
  note b = below_Node(1) [OF "3.prems"(3)] below_Node(2) [OF "3.prems"(3)]
  have sub: "counts (process_concat ver r (Node v' p' k' x' a' l' r')) = counts r ++ counts (Node v' p' k' x' a' l' r')" if "p > p'"
    using 3 b that by (auto simp del: counts.simps)
  have sub': "counts (process_concat ver (Node v p k x a l r) l') = counts (Node v p k x a l r) ++ counts l'" if "\<not> p > p'"
    using 3 b that by (auto simp del: counts.simps)
  show ?case
  proof (cases "p > p'")
    case True
    have "k \<notin> keys (Node v' p' k' x' a' l' r')" using b by blast
    then have k: "k \<notin> dom (counts (Node v' p' k' x' a' l' r'))" by (simp only: dom_counts not_False_eq_True)
    show ?thesis
      using True sub by (simp only: process_concat_Node if_True counts.simps(2) [of _ _ _ _ _ l]
          map_add_upd_left [OF k] map_add_assoc simp_thms)
  next
    case False
    with sub' show ?thesis
      by (simp only: process_concat_Node if_False counts.simps(2) [of _ _ _ _ _ _ r'] map_add_upd map_add_assoc simp_thms)
  qed
qed simp_all

lemma keys_search_delete_subset: "keys (search_delete ver t pry key) \<subseteq> keys t"
proof (induction t)
  case (Node v p k x a l r)
  then show ?case by (auto simp: search_delete_Node)
qed simp

lemma treap_below: "treap h (Node v p k x a l r) \<Longrightarrow> below l r"
  by (fastforce simp: below_def)

lemma treap_search_delete:
  "treap h t \<Longrightarrow> inj h \<Longrightarrow> treap h (search_delete ver t (h key) key)"
proof (induction t)
  case (Node v p k x a l r)
  then show ?case
    using keys_search_delete_subset [of ver l "h key" key] keys_search_delete_subset [of ver r "h key" key]
      treap_below [OF Node.prems(1)] treap_process_concat [of h l r ver]
    by (auto simp: search_delete_Node)
qed simp

lemma counts_concat_children:
  assumes "treap h (Node v p k x a l r)" "inj h"
  shows "counts (process_concat ver l r) = (counts (Node v p k x a l r))(k := None)"
proof
  fix y
  have sub: "treap h l" "treap h r" using assms(1) by simp_all
  have none: "counts l k = None" "counts r k = None"
    using assms(1) by (auto simp only: counts_eq_None treap.simps)
  show "counts (process_concat ver l r) y = ((counts (Node v p k x a l r))(k := None)) y"
    using counts_process_concat [OF sub treap_below [OF assms(1)] assms(2), of ver]
    by (cases "y = k") (simp_all add: map_add_def none del: counts_eq_None)
qed

lemma counts_search_delete:
  "treap h t \<Longrightarrow> inj h \<Longrightarrow> counts (search_delete ver t (h key) key) = drop_one key (counts t)"
proof (induction t)
  case Null
  then show ?case by (simp add: drop_one_def)
next
  case (Node v p k x a l r)
  note t = treap_search_delete [OF Node.prems, of ver key]
  consider "p > h key" "key < k" | "p > h key" "k < key" | "\<not> p > h key" "k = key" | "\<not> p > h key" "k \<noteq> key"
    using Node.prems(1) by fastforce
  then show ?case
  proof cases
    case 1
    then have e: "search_delete ver (Node v p k x a l r) (h key) key =
        Node ver p k x 0 (search_delete ver l (h key) key) r" by (simp add: search_delete_Node)
    show ?thesis unfolding e drop_one_point_update
      by (rule point_update_left [OF Node.prems(1) t [unfolded e] 1(2)])
        (use Node in \<open>simp flip: drop_one_point_update\<close>)
  next
    case 2
    then have e: "search_delete ver (Node v p k x a l r) (h key) key =
        Node ver p k x 0 l (search_delete ver r (h key) key)" by (auto simp: search_delete_Node)
    show ?thesis unfolding e drop_one_point_update
      by (rule point_update_right [OF Node.prems(1) t [unfolded e] 2(2)])
        (use Node in \<open>simp flip: drop_one_point_update\<close>)
  next
    case 3
    then show ?thesis using counts_concat_children [OF Node.prems]
      by (auto simp: search_delete_Node drop_one_def)
  next
    case 4
    then have "counts (Node v p k x a l r) key = None"
      using treap_absent(1) [OF Node.prems] by (simp only: counts_eq_None)
    with 4 show ?thesis by (simp only: search_delete_Node if_False drop_one_def option.case)
  qed
qed

section \<open>Versions\<close>

lemma vers_split_copy:
  "split_copy ver t key = (a, b) \<Longrightarrow> vers a \<union> vers b \<subseteq> insert ver (vers t)"
  by (induction ver t key arbitrary: a b rule: split_copy.induct)
    (fastforce simp: tree_simps split: prod.splits if_splits)+

lemma vers_process_deploy: "vers (process_deploy ver t pry key) \<subseteq> insert ver (vers t)"
  using vers_split_copy [of ver t key] by (fastforce simp: process_deploy_def split: prod.splits)

lemma vers_search_insert: "vers (search_insert ver t pry key) \<subseteq> insert ver (vers t)"
proof (induction t)
  case (Node v p k x a l r)
  then show ?case using vers_process_deploy [of ver "Node v p k x a l r" pry key]
    by (auto simp: search_insert_Node)
qed simp

lemma vers_process_concat: "vers (process_concat ver t_l t_r) \<subseteq> insert ver (vers t_l \<union> vers t_r)"
proof (induction ver t_l t_r rule: process_concat.induct)
  case (3 ver v p k x a l r v' p' k' x' a' l' r')
  then show ?case unfolding process_concat_Node by (cases "p > p'") auto
qed auto

lemma vers_search_delete: "vers (search_delete ver t pry key) \<subseteq> insert ver (vers t)"
proof (induction t)
  case (Node v p k x a l r)
  then show ?case using vers_process_concat [of ver l r] by (auto simp: search_delete_Node)
qed simp

end
