(* ===== verification/Treap_Query.thy ===== *)
theory Treap_Query
  imports Treap
begin

text \<open>
  Cached sums (\<^verbatim>\<open>lib/treap/augment.hpp\<close>) and queries (\<^verbatim>\<open>lib/treap/query.hpp\<close>), and the fact that the
  shape of a treap is determined by its contents. Sums are 64-bit and wrap around, in the code and
  in the specification alike.
\<close>

section \<open>Lookup\<close>

fun find :: "tree \<Rightarrow> u64 \<Rightarrow> tree" where
  "find Null key = Null"
| "find (Node v p k x a l r) key =
     (if key = k then Node v p k x a l r else if key < k then find l key else find r key)"

fun val_of :: "tree \<Rightarrow> u64 option" where
  "val_of Null = None"
| "val_of (Node v p k x a l r) = Some x"

lemma find_counts: "treap h t \<Longrightarrow> val_of (find t key) = counts t key"
proof (induction t)
  case (Node v p k x a l r)
  then show ?case unfolding counts_Node [OF Node.prems] by (auto simp: not_less_iff_gr_or_eq)
qed simp

section \<open>Cached sums\<close>

text \<open>
  \<^verbatim>\<open>par_do\<close> forks two closures and joins them; here they write disjoint variables and disjoint
  subtrees, so the pair of their results is their joint effect.
\<close>

definition par_do :: "'a \<Rightarrow> 'b \<Rightarrow> 'a \<times> 'b" where
  "par_do f g = (f, g)"

fun augment :: "tree \<Rightarrow> tree \<times> u64" where
  "augment Null = (Null, 0)"
| "augment (Node v p k x a l r) =
     (if a \<noteq> aug_uninitialized then (Node v p k x a l r, a)
      else (let (l', aug_l) = augment l; (r', aug_r) = augment r; a' = aug_l + x + aug_r
            in (Node v p k x a' l' r', a')))"

fun augment_parallel :: "tree \<Rightarrow> tree \<times> u64" where
  "augment_parallel Null = (Null, 0)"
| "augment_parallel (Node v p k x a l r) =
     (if a \<noteq> aug_uninitialized then (Node v p k x a l r, a)
      else (let ((l', aug_l), (r', aug_r)) = par_do (augment_parallel l) (augment_parallel r);
                a' = aug_l + x + aug_r
            in (Node v p k x a' l' r', a')))"

lemma augment_parallel_eq: "augment_parallel t = augment t"
  by (induction t) (simp_all add: par_do_def Let_def split: prod.split)

fun tree_sum :: "tree \<Rightarrow> u64" where
  "tree_sum Null = 0"
| "tree_sum (Node v p k x a l r) = tree_sum l + x + tree_sum r"

fun aug_of :: "tree \<Rightarrow> u64" where
  "aug_of Null = 0"
| "aug_of (Node v p k x a l r) = a"

text \<open>All sums present, and the state between updates: every sum is present below a present one.\<close>

primrec summed :: "tree \<Rightarrow> bool" where
  "summed Null = True"
| "summed (Node v p k x a l r) = (a = tree_sum l + x + tree_sum r \<and> summed l \<and> summed r)"

primrec sums_ok :: "tree \<Rightarrow> bool" where
  "sums_ok Null = True"
| "sums_ok (Node v p k x a l r) =
     ((a = 0 \<and> sums_ok l \<and> sums_ok r) \<or> (a = tree_sum l + x + tree_sum r \<and> summed l \<and> summed r))"

text \<open>Everything but the cached sums.\<close>

primrec erase_aug :: "tree \<Rightarrow> tree" where
  "erase_aug Null = Null"
| "erase_aug (Node v p k x a l r) = Node v p k x 0 (erase_aug l) (erase_aug r)"

lemma summed_sums_ok [simp]: "summed t \<Longrightarrow> sums_ok t"
  by (cases t) auto

lemma summed_aug_of: "summed t \<Longrightarrow> aug_of t = tree_sum t"
  by (cases t) auto

lemma augment_erase [simp]: "erase_aug (fst (augment t)) = erase_aug t"
  by (induction t) (auto simp: Let_def split: prod.splits)

lemma erase_aug_contents:
  "erase_aug s = erase_aug t \<Longrightarrow>
   keys s = keys t \<and> counts s = counts t \<and> tree_sum s = tree_sum t \<and> vers s = vers t \<and>
   nodes s = nodes t \<and> treap h s = treap h t"
proof (induction s arbitrary: t)
  case Null
  then show ?case by (cases t) auto
next
  case (Node v p k x a l r)
  then obtain a' l' r' where t: "t = Node v p k x a' l' r'"
    and "erase_aug l = erase_aug l'" "erase_aug r = erase_aug r'" by (cases t) auto
  with Node.IH(1) [of l'] Node.IH(2) [of r'] show ?case by simp
qed

lemma augment_sum: "sums_ok t \<Longrightarrow> summed (fst (augment t)) \<and> snd (augment t) = tree_sum t"
proof (induction t)
  case (Node v p k x a l r)
  have sum: "tree_sum (fst (augment s)) = tree_sum s" for s
    by (rule erase_aug_contents [THEN conjunct2, THEN conjunct2, THEN conjunct1]) simp
  show ?case
  proof (cases "a = 0")
    case False
    then show ?thesis using Node.prems by simp
  next
    case True
    then have "sums_ok l" "sums_ok r" using Node.prems by auto
    then show ?thesis using Node.IH True sum [of l] sum [of r] by (auto simp: Let_def split: prod.splits)
  qed
qed simp

section \<open>Updates keep the cached sums usable\<close>

lemma sums_ok_split_copy:
  "sums_ok t \<Longrightarrow> split_copy ver t key = (a, b) \<Longrightarrow> sums_ok a \<and> sums_ok b"
proof (induction ver t key arbitrary: a b rule: split_copy.induct)
  case (2 ver v p k x s l r key)
  have "sums_ok l" "sums_ok r" using "2.prems"(1) by auto
  with 2 show ?case by (cases "key < k") (auto simp: split_copy_Node split: prod.splits)
qed simp

lemma sums_ok_process_deploy:
  assumes "sums_ok t"
  shows "sums_ok (process_deploy ver t pry key)"
proof -
  obtain a b where s: "split_copy ver t key = (a, b)" by fastforce
  show ?thesis using sums_ok_split_copy [OF assms s] by (simp add: process_deploy_Node [OF s])
qed

lemma sums_ok_children: "sums_ok (Node v p k x a l r) \<Longrightarrow> sums_ok l \<and> sums_ok r"
  by auto

lemma sums_ok_search_insert: "sums_ok t \<Longrightarrow> sums_ok (search_insert ver t pry key)"
proof (induction t)
  case (Node v p k x a l r)
  note sub = sums_ok_children [OF Node.prems] and d = sums_ok_process_deploy [OF Node.prems]
  show ?case using Node.IH sub d by (simp add: search_insert_Node)
qed simp

lemma sums_ok_process_concat: "sums_ok t_l \<Longrightarrow> sums_ok t_r \<Longrightarrow> sums_ok (process_concat ver t_l t_r)"
proof (induction ver t_l t_r rule: process_concat.induct)
  case (3 ver v p k x a l r v' p' k' x' a' l' r')
  note sub = sums_ok_children [OF "3.prems"(1)] sums_ok_children [OF "3.prems"(2)]
  show ?case using 3 sub by (cases "p > p'") (simp_all add: process_concat_Node)
qed simp_all

lemma sums_ok_search_delete: "sums_ok t \<Longrightarrow> sums_ok (search_delete ver t pry key)"
proof (induction t)
  case (Node v p k x a l r)
  note sub = sums_ok_children [OF Node.prems]
  show ?case using Node.IH Node.prems sub sums_ok_process_concat [of l r ver]
    by (simp add: search_delete_Node)
qed simp

section \<open>Range queries\<close>

text \<open>
  An open end still has to be compared, a closed end is known to be covered by the subtree's
  position in the tree.
\<close>

datatype range_cover = OPEN_OPEN | OPEN_CLOSE | CLOSE_OPEN | CLOSE_CLOSE

fun range_estimate_cover :: "tree \<Rightarrow> u64 \<Rightarrow> u64 \<Rightarrow> range_cover \<Rightarrow> u64" where
  "range_estimate_cover Null lo hi d = 0"
| "range_estimate_cover (Node v p k x a l r) lo hi d =
     (case d of
        OPEN_OPEN \<Rightarrow>
          if hi < k then range_estimate_cover l lo hi d
          else if lo > k then range_estimate_cover r lo hi d
          else range_estimate_cover l lo hi OPEN_CLOSE + x + range_estimate_cover r lo hi CLOSE_OPEN
      | OPEN_CLOSE \<Rightarrow>
          if lo > k then range_estimate_cover r lo hi d
          else range_estimate_cover l lo hi d + x + range_estimate_cover r lo hi CLOSE_CLOSE
      | CLOSE_OPEN \<Rightarrow>
          if hi < k then range_estimate_cover l lo hi d
          else range_estimate_cover l lo hi CLOSE_CLOSE + x + range_estimate_cover r lo hi d
      | CLOSE_CLOSE \<Rightarrow> a)"

definition range_estimate :: "tree \<Rightarrow> u64 \<Rightarrow> u64 \<Rightarrow> u64" where
  "range_estimate t l r = range_estimate_cover t l r OPEN_OPEN"

fun in_range :: "range_cover \<Rightarrow> u64 \<Rightarrow> u64 \<Rightarrow> u64 \<Rightarrow> bool" where
  "in_range OPEN_OPEN lo hi k = (lo \<le> k \<and> k \<le> hi)"
| "in_range OPEN_CLOSE lo hi k = (lo \<le> k)"
| "in_range CLOSE_OPEN lo hi k = (k \<le> hi)"
| "in_range CLOSE_CLOSE lo hi k = True"

fun sum_where :: "(u64 \<Rightarrow> bool) \<Rightarrow> tree \<Rightarrow> u64" where
  "sum_where P Null = 0"
| "sum_where P (Node v p k x a l r) = sum_where P l + (if P k then x else 0) + sum_where P r"

lemma sum_where_cong:
  "(\<And>y. y \<in> keys t \<Longrightarrow> P y = Q y) \<Longrightarrow> sum_where P t = sum_where Q t"
  by (induction t) auto

lemma sum_where_all: "(\<And>y. y \<in> keys t \<Longrightarrow> P y) \<Longrightarrow> sum_where P t = tree_sum t"
  by (induction t) auto

lemma sum_where_none: "(\<And>y. y \<in> keys t \<Longrightarrow> \<not> P y) \<Longrightarrow> sum_where P t = 0"
  by (induction t) auto

text \<open>The abstract sum over a counter map.\<close>

definition sum_counts :: "(u64 \<rightharpoonup> u64) \<Rightarrow> (u64 \<Rightarrow> bool) \<Rightarrow> u64" where
  "sum_counts m P = (\<Sum>k \<in> {k \<in> dom m. P k}. the (m k))"

lemma treap_disjoint: "treap h (Node v p k x a l r) \<Longrightarrow> keys l \<inter> keys r = {}"
  by (fastforce dest: less_asym)

lemma counts_left: "treap h (Node v p k x a l r) \<Longrightarrow> y \<in> keys l \<Longrightarrow> counts (Node v p k x a l r) y = counts l y"
  and counts_right: "treap h (Node v p k x a l r) \<Longrightarrow> y \<in> keys r \<Longrightarrow> counts (Node v p k x a l r) y = counts r y"
  by (simp_all only: counts_Node) (auto dest: less_asym)

lemma sum_where_counts: "treap h t \<Longrightarrow> sum_where P t = sum_counts (counts t) P"
proof (induction t)
  case Null
  then show ?case by (simp add: sum_counts_def)
next
  case (Node v p k x a l r)
  let ?t = "Node v p k x a l r" and ?f = "\<lambda>s y. the (counts s y)"
  have parts: "{y \<in> keys ?t. P y} = {y \<in> keys l. P y} \<union> {y \<in> {k}. P y} \<union> {y \<in> keys r. P y}" by auto
  have "sum_counts (counts ?t) P = sum (?f ?t) {y \<in> keys ?t. P y}"
    by (simp only: sum_counts_def dom_counts)
  also have "\<dots> = sum (?f ?t) {y \<in> keys l. P y} + sum (?f ?t) {y \<in> {k}. P y} + sum (?f ?t) {y \<in> keys r. P y}"
    unfolding parts using Node.prems treap_disjoint [OF Node.prems]
    by (subst sum.union_disjoint; (subst sum.union_disjoint)?) (auto simp del: counts.simps)
  also have "sum (?f ?t) {y \<in> keys l. P y} = sum (?f l) {y \<in> keys l. P y}"
    by (intro sum.cong refl arg_cong [where f = the] counts_left [OF Node.prems]) simp
  also have "sum (?f ?t) {y \<in> keys r. P y} = sum (?f r) {y \<in> keys r. P y}"
    by (intro sum.cong refl arg_cong [where f = the] counts_right [OF Node.prems]) simp
  also have "sum (?f ?t) {y \<in> {k}. P y} = (if P k then x else 0)"
  proof -
    have "{y \<in> {k}. P y} = (if P k then {k} else {})" by auto
    then show ?thesis by simp
  qed
  finally show ?case using Node by (simp add: sum_counts_def)
qed

lemma range_estimate_cover_sum:
  "treap h t \<Longrightarrow> summed t \<Longrightarrow> range_estimate_cover t lo hi d = sum_where (in_range d lo hi) t"
proof (induction t arbitrary: d)
  case (Node v p k x a l r)
  have sub: "treap h l" "treap h r" "summed l" "summed r" and a: "a = tree_sum l + x + tree_sum r"
    and lt: "\<And>y. y \<in> keys l \<Longrightarrow> y < k" and gt: "\<And>y. y \<in> keys r \<Longrightarrow> k < y"
    using Node.prems by auto
  note IH = Node.IH(1) [OF sub(1,3)] Node.IH(2) [OF sub(2,4)]
  have all: "sum_where (in_range CLOSE_CLOSE lo hi) s = tree_sum s" for s
    by (rule sum_where_all) simp
  have lo: "sum_where (in_range OPEN_OPEN lo hi) l = sum_where (in_range OPEN_CLOSE lo hi) l" if "k \<le> hi"
    using that lt by (intro sum_where_cong) (auto intro: less_imp_le less_le_trans)
  have hi: "sum_where (in_range OPEN_OPEN lo hi) r = sum_where (in_range CLOSE_OPEN lo hi) r" if "lo \<le> k"
    using that gt by (intro sum_where_cong) (auto intro: less_imp_le le_less_trans)
  have zl: "sum_where (in_range OPEN_OPEN lo hi) l = 0" "sum_where (in_range OPEN_CLOSE lo hi) l = 0" if "k < lo"
    using that lt by (intro sum_where_none; fastforce)+
  have zr: "sum_where (in_range OPEN_OPEN lo hi) r = 0" "sum_where (in_range CLOSE_OPEN lo hi) r = 0" if "hi < k"
    using that gt by (intro sum_where_none; fastforce)+
  have cl: "sum_where (in_range CLOSE_OPEN lo hi) l = tree_sum l" if "k \<le> hi"
    using that lt by (intro sum_where_all) (auto intro: less_imp_le less_le_trans)
  have cr: "sum_where (in_range OPEN_CLOSE lo hi) r = tree_sum r" if "lo \<le> k"
    using that gt by (intro sum_where_all) (auto intro: less_imp_le le_less_trans)
  show ?case
    by (cases d) (auto simp: IH a all lo hi zl zr cl cr not_less not_le in_range.simps [of lo hi k] simp del: in_range.simps)
qed simp

lemma range_estimate_correct:
  assumes "treap h t" and "summed t"
  shows "range_estimate t l r = sum_counts (counts t) (\<lambda>k. l \<le> k \<and> k \<le> r)"
  using range_estimate_cover_sum [OF assms, of l r OPEN_OPEN]
    sum_where_counts [OF assms(1), of "\<lambda>k. l \<le> k \<and> k \<le> r"]
  by (simp add: range_estimate_def cong: sum_where_cong)

section \<open>The contents determine the shape\<close>

primrec shape :: "tree \<Rightarrow> tree" where
  "shape Null = Null"
| "shape (Node v p k x a l r) = Node 0 p k x 0 (shape l) (shape r)"

lemma counts_children:
  assumes "treap h (Node v p k x a l r)"
  shows "counts l = (\<lambda>y. if y < k then counts (Node v p k x a l r) y else None)"
    and "counts r = (\<lambda>y. if k < y then counts (Node v p k x a l r) y else None)"
  using assms counts_Node [OF assms] by (auto simp: fun_eq_iff simp del: counts.simps)

lemma treap_unique:
  "treap h s \<Longrightarrow> treap h t \<Longrightarrow> inj h \<Longrightarrow> counts s = counts t \<Longrightarrow> shape s = shape t"
proof (induction s arbitrary: t)
  case Null
  then have "keys t = {}" by (metis dom_counts keys.simps(1))
  then show ?case by (cases t) auto
next
  case (Node v p k x a l r)
  let ?s = "Node v p k x a l r"
  have keys: "keys ?s = keys t" using Node.prems(4) by (metis dom_counts)
  then obtain v' p' k' x' a' l' r' where t: "t = Node v' p' k' x' a' l' r'" by (cases t) auto
  have "k \<in> keys t" unfolding keys [symmetric] by simp
  then have "h k \<le> p'" using treap_heap [OF Node.prems(2) [unfolded t]] unfolding t by blast
  moreover have "k' \<in> keys ?s" unfolding keys t by simp
  then have "h k' \<le> p" using treap_heap [OF Node.prems(1)] by blast
  moreover have "p = h k" "p' = h k'" using Node.prems(1,2) by (simp_all add: t)
  ultimately have k: "k' = k" using Node.prems(3) by (simp add: inj_eq)
  have "counts l = counts l'"
    using counts_children(1) [OF Node.prems(1), unfolded Node.prems(4)]
      counts_children(1) [OF Node.prems(2) [unfolded t]] unfolding t k by (rule box_equals [OF refl sym sym])
  moreover have "counts r = counts r'"
    using counts_children(2) [OF Node.prems(1), unfolded Node.prems(4)]
      counts_children(2) [OF Node.prems(2) [unfolded t]] unfolding t k by (rule box_equals [OF refl sym sym])
  ultimately have "shape l = shape l'" "shape r = shape r'" using Node.IH Node.prems by (auto simp: t)
  moreover have "x = x'"
    using counts_Node [OF Node.prems(1), of k, unfolded Node.prems(4)]
      counts_Node [OF Node.prems(2) [unfolded t], of k] unfolding t k by (simp del: counts.simps)
  ultimately show ?case using Node.prems by (simp add: t k)
qed

end
