(* ===== verification/Treap_Build.thy ===== *)
theory Treap_Build
  imports Treap_Query
begin

text \<open>
  Building a treap from an array by divide and conquer (\<^verbatim>\<open>lib/treap/build.hpp\<close>): destructive
  split and merge of trees nobody else holds, modelled as functions that consume their arguments.
\<close>

fun split :: "tree \<Rightarrow> u64 \<Rightarrow> tree \<times> tree" where
  "split Null key = (Null, Null)"
| "split (Node v p k x a l r) key =
     (if key < k then (let (t_l, sub) = split l key in (t_l, Node v p k x a sub r))
      else (let (sub, t_r) = split r key in (Node v p k x a l sub, t_r)))"

lemma nodes_split: "split t key = (a, b) \<Longrightarrow> nodes a + nodes b = nodes t"
  by (induction t key arbitrary: a b rule: split.induct) (fastforce split: prod.splits if_splits)+

lemma nodes_split_fst: "nodes (fst (split t key)) \<le> nodes t"
  and nodes_split_snd: "nodes (snd (split t key)) \<le> nodes t"
  by (metis nodes_split le_add1 le_add2 prod.collapse)+

text \<open>The root with the higher priority stays on top and splits the other tree.\<close>

function merge :: "tree \<Rightarrow> tree \<Rightarrow> tree" where
  "merge Null t_1 = t_1"
| "merge (Node v p k x a l r) Null = Node v p k x a l r"
| "merge (Node v p k x a l r) (Node v' p' k' x' a' l' r') =
     (if k = k' then
        (let (lch, rch) = par_do (merge l l') (merge r r') in Node v' p' k' (x' + x) a' lch rch)
      else if p > p' then
        (let t_l = fst (split (Node v' p' k' x' a' l' r') k); t_r = snd (split (Node v' p' k' x' a' l' r') k);
             (lch, rch) = par_do (merge l t_l) (merge r t_r)
         in Node v p k x a lch rch)
      else
        (let t_l = fst (split (Node v p k x a l r) k'); t_r = snd (split (Node v p k x a l r) k');
             (lch, rch) = par_do (merge t_l l') (merge t_r r')
         in Node v' p' k' x' a' lch rch))"
  by pat_completeness auto
termination
proof (relation "measure (\<lambda>(s, t). nodes s + nodes t)", goal_cases)
  case (4 v p k x a l r v' p' k' x' a' l' r' t_l t_r)
  then show ?case using nodes_split_fst [of "Node v' p' k' x' a' l' r'" k] by simp
next
  case (5 v p k x a l r v' p' k' x' a' l' r' t_l t_r)
  then show ?case using nodes_split_snd [of "Node v' p' k' x' a' l' r'" k] by simp
next
  case (6 v p k x a l r v' p' k' x' a' l' r' t_l t_r)
  then show ?case using nodes_split_fst [of "Node v p k x a l r" k'] by simp
next
  case (7 v p k x a l r v' p' k' x' a' l' r' t_l t_r)
  then show ?case using nodes_split_snd [of "Node v p k x a l r" k'] by simp
qed simp_all

lemma merge_Node:
  "merge (Node v p k x a l r) (Node v' p' k' x' a' l' r') =
     (if k = k' then Node v' p' k' (x' + x) a' (merge l l') (merge r r')
      else if p > p' then
        (let (t_l, t_r) = split (Node v' p' k' x' a' l' r') k in Node v p k x a (merge l t_l) (merge r t_r))
      else (let (t_l, t_r) = split (Node v p k x a l r) k' in Node v' p' k' x' a' (merge t_l l') (merge t_r r')))"
  by (simp add: par_do_def Let_def split_beta del: split.simps)

declare merge.simps(3) [simp del]

text \<open>\<open>elems\<close> is the memory the array pointer points at, \<open>n\<close> the number of elements to read.\<close>

function build :: "(u64 \<Rightarrow> u64) \<Rightarrow> nat \<Rightarrow> u64 list \<Rightarrow> tree" where
  "build h n elems =
     (if n = 0 then Null
      else if n = 1 then make_node_hash h 0 (elems ! 0)
      else (let (t_0, t_1) = par_do (build h (n div 2) elems) (build h (n - n div 2) (drop (n div 2) elems))
            in merge t_0 t_1))"
  by pat_completeness auto
termination
  by (relation "measure (\<lambda>(h, n, elems). n)") auto

declare build.simps [simp del]

lemma build_small [simp]:
  "build h 0 elems = Null" "build h (Suc 0) elems = make_node_hash h 0 (elems ! 0)"
  by (simp_all add: build.simps)

definition build_parallel :: "(u64 \<Rightarrow> u64) \<Rightarrow> nat \<Rightarrow> u64 list \<Rightarrow> tree" where
  "build_parallel h n elems = fst (augment_parallel (build h n elems))"

section \<open>Splitting in place is splitting by copying, up to versions and sums\<close>

lemma shape_contents:
  "shape s = shape t \<Longrightarrow>
   keys s = keys t \<and> counts s = counts t \<and> tree_sum s = tree_sum t \<and> nodes s = nodes t \<and> treap h s = treap h t"
proof (induction s arbitrary: t)
  case Null
  then show ?case by (cases t) auto
next
  case (Node v p k x a l r)
  then obtain v' a' l' r' where t: "t = Node v' p k x a' l' r'"
    and "shape l = shape l'" "shape r = shape r'" by (cases t) auto
  with Node.IH(1) [of l'] Node.IH(2) [of r'] show ?case by simp
qed

lemma shape_split:
  "shape (fst (split t key)) = shape (fst (split_copy ver t key)) \<and>
   shape (snd (split t key)) = shape (snd (split_copy ver t key))"
  by (induction t) (auto simp: split_copy_Node Let_def split_beta)

lemma split_contents:
  assumes "treap h t" and "split t key = (a, b)"
  shows "treap h a" and "treap h b"
    and "keys a = {y \<in> keys t. y \<le> key}" and "keys b = {y \<in> keys t. key < y}"
    and "counts a y = (if y \<le> key then counts t y else None)"
    and "counts b y = (if key < y then counts t y else None)"
proof -
  obtain c d where s: "split_copy 0 t key = (c, d)" by fastforce
  have "shape a = shape c" "shape b = shape d" using shape_split [of t key 0] by (simp_all add: assms s)
  then have "keys a = keys c \<and> counts a = counts c \<and> treap h a = treap h c"
    "keys b = keys d \<and> counts b = counts d \<and> treap h b = treap h d" using shape_contents by blast+
  then show "treap h a" "treap h b" "keys a = {y \<in> keys t. y \<le> key}" "keys b = {y \<in> keys t. key < y}"
    "counts a y = (if y \<le> key then counts t y else None)"
    "counts b y = (if key < y then counts t y else None)"
    using treap_split_copy [OF assms(1) s] keys_split_copy [OF assms(1) s] counts_split_copy [OF assms(1) s, of y]
    by simp_all
qed

section \<open>Merging adds counters\<close>

definition add_counts :: "(u64 \<rightharpoonup> u64) \<Rightarrow> (u64 \<rightharpoonup> u64) \<Rightarrow> u64 \<rightharpoonup> u64" where
  "add_counts m n k = (case m k of None \<Rightarrow> n k | Some x \<Rightarrow> (case n k of None \<Rightarrow> Some x | Some y \<Rightarrow> Some (x + y)))"

lemma add_counts_None [simp]: "m k = None \<Longrightarrow> add_counts m n k = n k" "n k = None \<Longrightarrow> add_counts m n k = m k"
  by (auto simp: add_counts_def split: option.split)

lemma heap_absent:
  assumes "treap h (Node v p k x a l r)" "inj h" "h key \<ge> p" "key \<noteq> k"
  shows "key \<notin> keys (Node v p k x a l r)" and "\<forall>y \<in> keys (Node v p k x a l r). h y < h key"
proof -
  have "h key \<noteq> p" using assms by (auto simp: inj_eq)
  then have less: "p < h key" using assms(3) by simp
  then show "\<forall>y \<in> keys (Node v p k x a l r). h y < h key" using treap_heap [OF assms(1)] by (meson le_less_trans)
  then show "key \<notin> keys (Node v p k x a l r)" by blast
qed

lemma treap_merge_keys:
  "treap h s \<Longrightarrow> treap h t \<Longrightarrow> inj h \<Longrightarrow> treap h (merge s t) \<and> keys (merge s t) = keys s \<union> keys t"
proof (induction s t rule: merge.induct)
  case (3 v p k x a l r v' p' k' x' a' l' r')
  let ?s = "Node v p k x a l r" and ?t = "Node v' p' k' x' a' l' r'"
  have sub: "treap h l" "treap h r" "treap h l'" "treap h r'" and p: "p = h k" "p' = h k'"
    using "3.prems" by simp_all
  consider "k = k'" | "k \<noteq> k'" "p > p'" | "k \<noteq> k'" "\<not> p > p'" by blast
  then show ?case
  proof cases
    case 1
    with "3.IH"(1,2) [OF 1] sub "3.prems" show ?thesis by (auto simp: merge_Node)
  next
    case 2
    obtain c d where s: "split ?t k = (c, d)" by fastforce
    note sc = split_contents [OF "3.prems"(2) s]
    have absent: "k \<notin> keys ?t" "\<forall>y \<in> keys ?t. h y < p"
      using heap_absent [OF "3.prems"(2,3), of k] 2 p by (simp_all del: keys.simps)
    have "treap h (merge l c) \<and> keys (merge l c) = keys l \<union> keys c"
      "treap h (merge r d) \<and> keys (merge r d) = keys r \<union> keys d"
      using "3.IH"(3,4) [OF 2 refl refl] sub sc(1,2) "3.prems"(3) by (simp_all only: s fst_conv snd_conv)
    moreover have "merge ?s ?t = Node v p k x a (merge l c) (merge r d)"
      using 2 by (simp only: merge_Node s if_False if_True case_prod_conv Let_def)
    moreover have "\<forall>y \<in> keys c. y < k \<and> h y < p" "\<forall>y \<in> keys d. k < y \<and> h y < p"
      "keys c \<union> keys d = keys ?t"
      using absent unfolding sc(3,4) by (auto simp: le_less not_less simp del: keys.simps)
    ultimately show ?thesis using "3.prems"(1) by (auto simp: ball_Un)
  next
    case 3
    obtain c d where s: "split ?s k' = (c, d)" by fastforce
    note sc = split_contents [OF "3.prems"(1) s]
    have absent: "k' \<notin> keys ?s" "\<forall>y \<in> keys ?s. h y < p'"
      using heap_absent [OF "3.prems"(1,3), of k'] 3 p by (simp_all add: not_less del: keys.simps)
    have "treap h (merge c l') \<and> keys (merge c l') = keys c \<union> keys l'"
      "treap h (merge d r') \<and> keys (merge d r') = keys d \<union> keys r'"
      using "3.IH"(5,6) [OF 3 refl refl] sub sc(1,2) "3.prems"(3) by (simp_all only: s fst_conv snd_conv)
    moreover have "merge ?s ?t = Node v' p' k' x' a' (merge c l') (merge d r')"
      using 3 by (simp only: merge_Node s if_False if_True case_prod_conv Let_def)
    moreover have "\<forall>y \<in> keys c. y < k' \<and> h y < p'" "\<forall>y \<in> keys d. k' < y \<and> h y < p'"
      "keys c \<union> keys d = keys ?s"
      using absent unfolding sc(3,4) by (auto simp: le_less not_less simp del: keys.simps)
    ultimately show ?thesis using "3.prems"(2) by (auto simp: ball_Un)
  qed
qed simp_all

lemma add_counts_commute: "add_counts m n k = add_counts n m k"
  by (simp add: add_counts_def add.commute split: option.split)

text \<open>One level of a merge: the other tree, split at the root's key, is added to the two sides.\<close>

lemma add_counts_Node:
  assumes old: "treap h (Node v p k x a l r)" and new: "treap h (Node v p k x a l2 r2)" and "m k = None"
    and l2: "counts l2 y = add_counts (counts l) (\<lambda>y. if y \<le> k then m y else None) y"
    and r2: "counts r2 y = add_counts (counts r) (\<lambda>y. if k < y then m y else None) y"
  shows "counts (Node v p k x a l2 r2) y = add_counts (counts (Node v p k x a l r)) m y"
  using assms(3) l2 r2 unfolding counts_Node [OF new] add_counts_def counts_Node [OF old]
  by (cases y k rule: linorder_cases) (simp_all add: less_imp_le less_not_sym)

lemma counts_merge:
  "treap h s \<Longrightarrow> treap h t \<Longrightarrow> inj h \<Longrightarrow> counts (merge s t) y = add_counts (counts s) (counts t) y"
proof (induction s t arbitrary: y rule: merge.induct)
  case (3 v p k x a l r v' p' k' x' a' l' r')
  let ?s = "Node v p k x a l r" and ?t = "Node v' p' k' x' a' l' r'"
  have sub: "treap h l" "treap h r" "treap h l'" "treap h r'" and p: "p = h k" "p' = h k'"
    using "3.prems" by simp_all
  have t: "treap h (merge ?s ?t)" using treap_merge_keys [OF "3.prems"] by blast
  note nodes = counts_Node [OF "3.prems"(1)] counts_Node [OF "3.prems"(2)]
  consider "k = k'" | "k \<noteq> k'" "p > p'" | "k \<noteq> k'" "\<not> p > p'" by blast
  then show ?case
  proof cases
    case 1
    have m: "merge ?s ?t = Node v' p' k' (x' + x) a' (merge l l') (merge r r')"
      using 1 by (simp add: merge_Node)
    show ?thesis
      using "3.IH"(1,2) [OF 1] sub "3.prems"(3) 1
      unfolding m counts_Node [OF t [unfolded m]] add_counts_def nodes by (simp add: add.commute)
  next
    case 2
    obtain c d where s: "split ?t k = (c, d)" by fastforce
    note sc = split_contents [OF "3.prems"(2) s]
    have m: "merge ?s ?t = Node v p k x a (merge l c) (merge r d)"
      using 2 by (simp only: merge_Node s if_False if_True case_prod_conv Let_def)
    have absent: "counts ?t k = None"
      using heap_absent(1) [OF "3.prems"(2,3), of k] 2 p by (simp del: counts.simps keys.simps)
    have "counts (merge l c) y = add_counts (counts l) (counts c) y" "counts (merge r d) y = add_counts (counts r) (counts d) y"
      using "3.IH"(3,4) [OF 2 refl refl] sub sc(1,2) "3.prems"(3) by (simp_all only: s fst_conv snd_conv)
    then show ?thesis
      unfolding m using absent t [unfolded m] "3.prems"(1)
      by (intro add_counts_Node) (simp_all only: add_counts_def sc(5,6))
  next
    case 3
    obtain c d where s: "split ?s k' = (c, d)" by fastforce
    note sc = split_contents [OF "3.prems"(1) s]
    have m: "merge ?s ?t = Node v' p' k' x' a' (merge c l') (merge d r')"
      using 3 by (simp only: merge_Node s if_False if_True case_prod_conv Let_def)
    have absent: "counts ?s k' = None"
      using heap_absent(1) [OF "3.prems"(1,3), of k'] 3 p by (simp add: not_less del: counts.simps keys.simps)
    have "counts (merge c l') y = add_counts (counts c) (counts l') y" "counts (merge d r') y = add_counts (counts d) (counts r') y"
      using "3.IH"(5,6) [OF 3 refl refl] sub sc(1,2) "3.prems"(3) by (simp_all only: s fst_conv snd_conv)
    then show ?thesis
      unfolding m add_counts_commute [of "counts ?s"] add_counts_commute [of "counts c"] add_counts_commute [of "counts d"]
      using absent t [unfolded m] "3.prems"(2)
      by (intro add_counts_Node) (simp_all only: add_counts_def sc(5,6))
  qed
qed (simp_all add: add_counts_def split: option.split)

section \<open>The built treap counts the occurrences in the array\<close>

definition occurrences :: "u64 list \<Rightarrow> u64 \<rightharpoonup> u64" where
  "occurrences xs k = (if k \<in> set xs then Some (of_nat (count_list xs k)) else None)"

lemma occurrences_append: "occurrences (xs @ ys) k = add_counts (occurrences xs) (occurrences ys) k"
  by (auto simp: occurrences_def add_counts_def count_list_0_iff)

lemma build_correct:
  "inj h \<Longrightarrow> n \<le> length elems \<Longrightarrow> treap h (build h n elems) \<and> counts (build h n elems) = occurrences (take n elems)"
proof (induction h n elems rule: build.induct)
  case (1 h n elems)
  consider "n = 0" | "n = 1" | "n > 1" by linarith
  then show ?case
  proof cases
    case 1
    then show ?thesis by (simp add: occurrences_def)
  next
    case 2
    then obtain e es where "elems = e # es" using "1.prems"(2) by (cases elems) auto
    then show ?thesis using 2 by (simp add: occurrences_def fun_eq_iff)
  next
    case 3
    then have "n \<noteq> 0" "n \<noteq> 1" by simp_all
    let ?t0 = "build h (n div 2) elems" and ?t1 = "build h (n - n div 2) (drop (n div 2) elems)"
    have b: "build h n elems = merge ?t0 ?t1" using 3 by (simp add: build.simps [of h n] par_do_def)
    have t: "treap h ?t0 \<and> counts ?t0 = occurrences (take (n div 2) elems)"
      "treap h ?t1 \<and> counts ?t1 = occurrences (take (n - n div 2) (drop (n div 2) elems))"
      using "1.IH"(1,2) 3 "1.prems" by simp_all
    have "take n elems = take (n div 2) elems @ take (n - n div 2) (drop (n div 2) elems)"
      using take_add [of "n div 2" "n - n div 2" elems] by simp
    then have "counts (merge ?t0 ?t1) = occurrences (take n elems)"
      using counts_merge [of h ?t0 ?t1] t "1.prems"(1) by (simp add: fun_eq_iff occurrences_append)
    then show ?thesis unfolding b using treap_merge_keys [of h ?t0 ?t1] t "1.prems"(1) by simp
  qed
qed

section \<open>Built nodes have version 0, and the final pass fills in the sums\<close>

primrec unsummed :: "tree \<Rightarrow> bool" where
  "unsummed Null = True"
| "unsummed (Node v p k x a l r) = (v = 0 \<and> a = 0 \<and> unsummed l \<and> unsummed r)"

lemma unsummed_ok: "unsummed t \<Longrightarrow> sums_ok t \<and> vers t \<subseteq> {0}"
  by (induction t) auto

lemma unsummed_split: "unsummed t \<Longrightarrow> unsummed (fst (split t key)) \<and> unsummed (snd (split t key))"
  by (induction t) (auto split: prod.split)

lemma unsummed_merge: "unsummed s \<Longrightarrow> unsummed t \<Longrightarrow> unsummed (merge s t)"
proof (induction s t rule: merge.induct)
  case (3 v p k x a l r v' p' k' x' a' l' r')
  then show ?case
    using unsummed_split [of "Node v' p' k' x' a' l' r'" k] unsummed_split [of "Node v p k x a l r" k']
    by (simp add: merge_Node Let_def split_beta del: split.simps)
qed simp_all

lemma unsummed_build: "unsummed (build h n elems)"
proof (induction h n elems rule: build.induct)
  case (1 h n elems)
  then show ?case
    by (subst build.simps) (auto simp: par_do_def intro!: unsummed_merge)
qed

lemma build_parallel_augments:
  "summed (build_parallel h n elems) \<and> counts (build_parallel h n elems) = counts (build h n elems) \<and>
   treap h (build_parallel h n elems) = treap h (build h n elems) \<and> vers (build_parallel h n elems) \<subseteq> {0}"
  using unsummed_ok [OF unsummed_build, of h n elems] augment_sum [of "build h n elems"]
    erase_aug_contents [OF augment_erase, of "build h n elems"]
  by (simp add: build_parallel_def augment_parallel_eq)

end
