(* ===== verification/Treap_Heap.thy ===== *)
theory Treap_Heap
  imports Treap_Query "HOL-Library.Monad_Syntax"
begin

text \<open>
  The treap at the level of pointers. A heap maps addresses to node records and hands out fresh
  addresses in order; a node pointer is an optional address. The operations of theory Treap are
  restated here with their allocations and field writes in the order of the source, because the
  scheduler interleaves these writes. \<open>None\<close> as a result means that a null or dangling pointer was
  dereferenced, or that the recursion does not end. The lemmas show that on a heap that represents a
  tree the pointer operations return, represent the result of the functional operations, and write
  no address that was allocated before: old versions stay as they were.
\<close>

section \<open>The node heap\<close>

type_synonym ptr = "nat option"

record node_t =
  n_ver :: nat
  n_pry :: u64
  n_key :: u64
  n_val :: u64
  n_aug :: u64
  n_lch :: ptr
  n_rch :: ptr

record heap =
  cells :: "nat \<Rightarrow> node_t option"
  brk :: nat

definition alloc :: "heap \<Rightarrow> node_t \<Rightarrow> heap \<times> nat" where
  "alloc H c = (H\<lparr>cells := (cells H)(brk H \<mapsto> c), brk := Suc (brk H)\<rparr>, brk H)"

definition set_lch :: "heap \<Rightarrow> nat \<Rightarrow> ptr \<Rightarrow> heap" where
  "set_lch H b q = H\<lparr>cells := (cells H)(b := map_option (\<lambda>c. c\<lparr>n_lch := q\<rparr>) (cells H b))\<rparr>"

definition set_rch :: "heap \<Rightarrow> nat \<Rightarrow> ptr \<Rightarrow> heap" where
  "set_rch H b q = H\<lparr>cells := (cells H)(b := map_option (\<lambda>c. c\<lparr>n_rch := q\<rparr>) (cells H b))\<rparr>"

definition set_val_at :: "heap \<Rightarrow> nat \<Rightarrow> u64 \<Rightarrow> heap" where
  "set_val_at H b x = H\<lparr>cells := (cells H)(b := map_option (\<lambda>c. c\<lparr>n_val := x\<rparr>) (cells H b))\<rparr>"

definition set_aug_at :: "heap \<Rightarrow> nat \<Rightarrow> u64 \<Rightarrow> heap" where
  "set_aug_at H b x = H\<lparr>cells := (cells H)(b := map_option (\<lambda>c. c\<lparr>n_aug := x\<rparr>) (cells H b))\<rparr>"

text \<open>Reading through a pointer: null and dangling pointers fail.\<close>

definition deref :: "heap \<Rightarrow> ptr \<Rightarrow> node_t option" where
  "deref H p = (case p of None \<Rightarrow> None | Some b \<Rightarrow> cells H b)"

definition new_node :: "heap \<Rightarrow> nat \<Rightarrow> u64 \<Rightarrow> u64 \<Rightarrow> heap \<times> nat" where
  "new_node H ver pry key =
     alloc H \<lparr>n_ver = ver, n_pry = pry, n_key = key, n_val = 1, n_aug = aug_uninitialized,
              n_lch = None, n_rch = None\<rparr>"

definition weak_copy :: "heap \<Rightarrow> node_t \<Rightarrow> nat \<Rightarrow> heap \<times> nat" where
  "weak_copy H c ver =
     alloc H \<lparr>n_ver = ver, n_pry = n_pry c, n_key = n_key c, n_val = n_val c,
              n_aug = aug_uninitialized, n_lch = None, n_rch = None\<rparr>"

section \<open>Pointer operations\<close>

partial_function (option) split_copy_at :: "nat \<Rightarrow> heap \<Rightarrow> ptr \<Rightarrow> u64 \<Rightarrow> (heap \<times> ptr \<times> ptr) option" where
  "split_copy_at ver H t key =
     (if t = None then Some (H, None, None)
      else do {
        c \<leftarrow> deref H t;
        if key < n_key c then do {
          (H, t_r) \<leftarrow> Some (weak_copy H c ver);
          H \<leftarrow> Some (set_rch H t_r (n_rch c));
          (H, t_l, sub) \<leftarrow> split_copy_at ver H (n_lch c) key;
          Some (set_lch H t_r sub, t_l, Some t_r) }
        else do {
          (H, t_l) \<leftarrow> Some (weak_copy H c ver);
          H \<leftarrow> Some (set_lch H t_l (n_lch c));
          (H, sub, t_r) \<leftarrow> split_copy_at ver H (n_rch c) key;
          Some (set_rch H t_l sub, Some t_l, t_r) } })"

definition process_deploy_at :: "nat \<Rightarrow> heap \<Rightarrow> ptr \<Rightarrow> u64 \<Rightarrow> u64 \<Rightarrow> (heap \<times> ptr) option" where
  "process_deploy_at ver H t_past pry key =
     do {
       (H, t_new) \<leftarrow> Some (new_node H ver pry key);
       (H, l, r) \<leftarrow> split_copy_at ver H t_past key;
       Some (set_rch (set_lch H t_new l) t_new r, Some t_new) }"

partial_function (option) search_insert_at :: "nat \<Rightarrow> heap \<Rightarrow> ptr \<Rightarrow> u64 \<Rightarrow> u64 \<Rightarrow> (heap \<times> ptr) option" where
  "search_insert_at ver H t_past pry key =
     (if t_past = None then do {
        (H, t_new) \<leftarrow> Some (new_node H ver pry key);
        Some (H, Some t_new) }
      else do {
        c \<leftarrow> deref H t_past;
        if n_pry c > pry then do {
          (H, t_new) \<leftarrow> Some (weak_copy H c ver);
          if key < n_key c then do {
            H \<leftarrow> Some (set_rch H t_new (n_rch c));
            (H, sub) \<leftarrow> search_insert_at ver H (n_lch c) pry key;
            Some (set_lch H t_new sub, Some t_new) }
          else do {
            H \<leftarrow> Some (set_lch H t_new (n_lch c));
            (H, sub) \<leftarrow> search_insert_at ver H (n_rch c) pry key;
            Some (set_rch H t_new sub, Some t_new) } }
        else if n_key c = key then do {
          (H, t_new) \<leftarrow> Some (weak_copy H c ver);
          H \<leftarrow> Some (set_val_at H t_new (n_val c + 1));
          Some (set_rch (set_lch H t_new (n_lch c)) t_new (n_rch c), Some t_new) }
        else process_deploy_at ver H t_past pry key })"

partial_function (option) process_concat_at :: "nat \<Rightarrow> heap \<Rightarrow> ptr \<Rightarrow> ptr \<Rightarrow> (heap \<times> ptr) option" where
  "process_concat_at ver H t_l t_r =
     (if t_l = None then Some (H, t_r)
      else if t_r = None then Some (H, t_l)
      else do {
        c_l \<leftarrow> deref H t_l;
        c_r \<leftarrow> deref H t_r;
        if n_pry c_l > n_pry c_r then do {
          (H, t_new) \<leftarrow> Some (weak_copy H c_l ver);
          H \<leftarrow> Some (set_lch H t_new (n_lch c_l));
          (H, sub) \<leftarrow> process_concat_at ver H (n_rch c_l) t_r;
          Some (set_rch H t_new sub, Some t_new) }
        else do {
          (H, t_new) \<leftarrow> Some (weak_copy H c_r ver);
          H \<leftarrow> Some (set_rch H t_new (n_rch c_r));
          (H, sub) \<leftarrow> process_concat_at ver H t_l (n_lch c_r);
          Some (set_lch H t_new sub, Some t_new) } })"

partial_function (option) search_delete_at :: "nat \<Rightarrow> heap \<Rightarrow> ptr \<Rightarrow> u64 \<Rightarrow> u64 \<Rightarrow> (heap \<times> ptr) option" where
  "search_delete_at ver H t_past pry key =
     (if t_past = None then Some (H, None)
      else do {
        c \<leftarrow> deref H t_past;
        if n_pry c > pry then do {
          (H, t_new) \<leftarrow> Some (weak_copy H c ver);
          if key < n_key c then do {
            H \<leftarrow> Some (set_rch H t_new (n_rch c));
            (H, sub) \<leftarrow> search_delete_at ver H (n_lch c) pry key;
            Some (set_lch H t_new sub, Some t_new) }
          else do {
            H \<leftarrow> Some (set_lch H t_new (n_lch c));
            (H, sub) \<leftarrow> search_delete_at ver H (n_rch c) pry key;
            Some (set_rch H t_new sub, Some t_new) } }
        else if n_key c = key then
          if n_val c = 1 then process_concat_at ver H (n_lch c) (n_rch c)
          else do {
            (H, t_new) \<leftarrow> Some (weak_copy H c ver);
            H \<leftarrow> Some (set_val_at H t_new (n_val c - 1));
            Some (set_rch (set_lch H t_new (n_lch c)) t_new (n_rch c), Some t_new) }
        else Some (H, t_past) })"

partial_function (option) augment_at :: "heap \<Rightarrow> ptr \<Rightarrow> (heap \<times> u64) option" where
  "augment_at H t =
     (if t = None then Some (H, 0)
      else do {
        b \<leftarrow> t;
        c \<leftarrow> deref H t;
        if n_aug c \<noteq> aug_uninitialized then Some (H, n_aug c)
        else do {
          (H, aug_l) \<leftarrow> augment_at H (n_lch c);
          (H, aug_r) \<leftarrow> augment_at H (n_rch c);
          Some (set_aug_at H b (aug_l + n_val c + aug_r), aug_l + n_val c + aug_r) } })"

section \<open>Labelled heaps\<close>

text \<open>
  A labelling \<open>S\<close> names the tree below each finished address. It is coherent (\<open>frozen\<close>) when every
  labelled address holds the root record of its label and points at the labels of its children. The
  cached sum is not part of the label's meaning: \<open>augment\<close> may fill it in at any time.
\<close>

definition points :: "(nat \<rightharpoonup> tree) \<Rightarrow> ptr \<Rightarrow> tree \<Rightarrow> bool" where
  "points S p T \<longleftrightarrow> (case p of None \<Rightarrow> T = Null | Some b \<Rightarrow> S b = Some T)"

definition holds :: "node_t \<Rightarrow> (ptr \<Rightarrow> tree \<Rightarrow> bool) \<Rightarrow> tree \<Rightarrow> bool" where
  "holds c lk T \<longleftrightarrow> (case T of Null \<Rightarrow> False | Node v p k x a l r \<Rightarrow>
     n_ver c = v \<and> n_pry c = p \<and> n_key c = k \<and> n_val c = x \<and> lk (n_lch c) l \<and> lk (n_rch c) r)"

definition frozen :: "heap \<Rightarrow> (nat \<rightharpoonup> tree) \<Rightarrow> bool" where
  "frozen H S \<longleftrightarrow> (\<forall>b T. S b = Some T \<longrightarrow>
     b < brk H \<and> (\<exists>c. cells H b = Some c \<and> holds c (points S) T))"

definition represents :: "heap \<Rightarrow> ptr \<Rightarrow> tree \<Rightarrow> bool" where
  "represents H p T \<longleftrightarrow> (\<exists>S. frozen H S \<and> points S p T)"

text \<open>Growing a labelled heap: fresh addresses only, all of them labelled at the end.\<close>

definition grows :: "heap \<Rightarrow> (nat \<rightharpoonup> tree) \<Rightarrow> heap \<Rightarrow> (nat \<rightharpoonup> tree) \<Rightarrow> bool" where
  "grows H S H' S' \<longleftrightarrow> S \<subseteq>\<^sub>m S' \<and> dom S' = dom S \<union> {brk H..<brk H'} \<and> brk H \<le> brk H' \<and>
     (\<forall>b < brk H. cells H' b = cells H b)"

definition put :: "heap \<Rightarrow> nat \<Rightarrow> node_t \<Rightarrow> heap" where
  "put H b c = H\<lparr>cells := (cells H)(b \<mapsto> c)\<rparr>"

lemma put_simps [simp]:
  "cells (put H b c) = (cells H)(b \<mapsto> c)" "brk (put H b c) = brk H"
  "put (put H b c) b c' = put H b c'"
  by (simp_all add: put_def)

lemma set_field_put [heap_simps]:
  "cells H b = Some c \<Longrightarrow> set_lch H b q = put H b (c\<lparr>n_lch := q\<rparr>)"
  "cells H b = Some c \<Longrightarrow> set_rch H b q = put H b (c\<lparr>n_rch := q\<rparr>)"
  "cells H b = Some c \<Longrightarrow> set_val_at H b x = put H b (c\<lparr>n_val := x\<rparr>)"
  "cells H b = Some c \<Longrightarrow> set_aug_at H b x = put H b (c\<lparr>n_aug := x\<rparr>)"
  by (simp_all add: set_lch_def set_rch_def set_val_at_def set_aug_at_def put_def)

lemma points_simps [simp]:
  "points S None T \<longleftrightarrow> T = Null" "points S (Some b) T \<longleftrightarrow> S b = Some T"
  by (simp_all add: points_def)

lemma holds_simps [simp]:
  "holds c lk (Node v p k x a l r) \<longleftrightarrow>
     n_ver c = v \<and> n_pry c = p \<and> n_key c = k \<and> n_val c = x \<and> lk (n_lch c) l \<and> lk (n_rch c) r"
  "\<not> holds c lk Null"
  by (simp_all add: holds_def)

lemma holds_E:
  assumes "holds c lk T"
  obtains a l r where "T = Node (n_ver c) (n_pry c) (n_key c) (n_val c) a l r"
    and "lk (n_lch c) l" and "lk (n_rch c) r"
  using assms by (cases T) auto

lemma holds_mono: "holds c lk T \<Longrightarrow> (\<And>p T. lk p T \<Longrightarrow> lk' p T) \<Longrightarrow> holds c lk' T"
  by (cases T) auto

lemma points_mono: "points S p T \<Longrightarrow> S \<subseteq>\<^sub>m S' \<Longrightarrow> points S' p T"
  by (cases p) (auto simp: map_le_def dom_def)

lemma frozenD:
  assumes "frozen H S" "S b = Some T"
  obtains c where "b < brk H" "cells H b = Some c" "holds c (points S) T"
  using assms by (auto simp: frozen_def)

lemma frozen_Null: "frozen H S \<Longrightarrow> S b = Some T \<Longrightarrow> T \<noteq> Null"
  by (erule frozenD) auto

lemma frozen_points_Node:
  assumes "frozen H S" "points S p (Node v pr k x a l r)"
  obtains b c where "p = Some b" "b < brk H" "cells H b = Some c" "n_ver c = v" "n_pry c = pr" "n_key c = k"
    "n_val c = x" "points S (n_lch c) l" "points S (n_rch c) r" "S b = Some (Node v pr k x a l r)"
proof (cases p)
  case (Some b)
  then have "S b = Some (Node v pr k x a l r)" using assms(2) by simp
  moreover from this obtain c where "b < brk H" "cells H b = Some c" "holds c (points S) (Node v pr k x a l r)"
    by (rule frozenD [OF assms(1)])
  ultimately show thesis using Some by (intro that [of b c]) simp_all
qed (use assms in simp)

lemma frozen_points_Null: "frozen H S \<Longrightarrow> points S p Null \<Longrightarrow> p = None"
  by (cases p) (auto dest: frozen_Null)

text \<open>Writes outside the labelled addresses, and labelling a finished address.\<close>

lemma frozen_cong:
  "frozen H S \<Longrightarrow> brk H \<le> brk H' \<Longrightarrow> (\<And>b. b \<in> dom S \<Longrightarrow> cells H' b = cells H b) \<Longrightarrow> frozen H' S"
  by (fastforce simp: frozen_def)

lemma frozen_dom: "frozen H S \<Longrightarrow> b \<in> dom S \<Longrightarrow> b < brk H"
  by (auto simp: frozen_def)

lemma frozen_label:
  assumes "frozen H S" "S b = None" "b < brk H" "holds c (points S) T"
  shows "frozen (put H b c) (S(b \<mapsto> T))"
proof -
  have le: "S \<subseteq>\<^sub>m S(b \<mapsto> T)" using assms(2) by (auto simp: map_le_def)
  show ?thesis unfolding frozen_def
  proof (intro allI impI)
    fix d U assume d: "(S(b \<mapsto> T)) d = Some U"
    show "d < brk (put H b c) \<and> (\<exists>ca. cells (put H b c) d = Some ca \<and> holds ca (points (S(b \<mapsto> T))) U)"
    proof (cases "d = b")
      case True
      with d assms(3,4) le show ?thesis by (auto intro: holds_mono points_mono)
    next
      case False
      with d have "S d = Some U" by simp
      then obtain ca where "d < brk H" "cells H d = Some ca" "holds ca (points S) U"
        by (rule frozenD [OF assms(1)])
      then show ?thesis using False le by (auto intro: holds_mono points_mono)
    qed
  qed
qed

text \<open>
  The pattern all operations share: a fresh node at \<open>brk H\<close>, work below it, and the last field
  write, after which the fresh node is finished.
\<close>

lemma frozen_fresh:
  "frozen H S \<Longrightarrow> brk H2 = Suc (brk H) \<Longrightarrow> (\<And>a. a < brk H \<Longrightarrow> cells H2 a = cells H a) \<Longrightarrow> frozen H2 S"
  by (rule frozen_cong [of H S]) (auto dest: frozen_dom)

lemma frozen_new: "frozen H S \<Longrightarrow> S (brk H) = None"
  by (metis domIff frozen_dom less_irrefl)

lemma grows_refl: "grows H S H S"
  by (simp add: grows_def)

lemma grows_points: "grows H S H' S' \<Longrightarrow> points S p T \<Longrightarrow> points S' p T"
  by (auto simp: grows_def intro: points_mono)

lemma grows_keeps: "grows H S H' S' \<Longrightarrow> b < brk H \<Longrightarrow> cells H' b = cells H b"
  by (simp add: grows_def)

lemma grows_trans: "grows H S H1 S1 \<Longrightarrow> grows H1 S1 H2 S2 \<Longrightarrow> grows H S H2 S2"
  unfolding grows_def by (auto intro: map_le_trans simp: ivl_disj_un)

lemma grows_node:
  assumes "frozen H S" and H2: "brk H2 = Suc (brk H)" "\<And>a. a < brk H \<Longrightarrow> cells H2 a = cells H a"
    and sub: "frozen H3 S3" "grows H2 S H3 S3"
    and c: "holds c (points S3) T" and H4: "H4 = put H3 (brk H) c"
  shows "frozen H4 (S3(brk H \<mapsto> T)) \<and> grows H S H4 (S3(brk H \<mapsto> T))"
proof -
  let ?b = "brk H"
  have dom: "dom S3 = dom S \<union> {Suc ?b..<brk H3}" and le: "S \<subseteq>\<^sub>m S3" and br: "Suc ?b \<le> brk H3"
    and keep: "\<forall>a < Suc ?b. cells H3 a = cells H2 a"
    using sub(2) H2(1) by (simp_all add: grows_def)
  have new: "S3 ?b = None" using frozen_new [OF assms(1)] dom by (metis Un_iff atLeastLessThan_iff domIff not_less_eq_eq order_refl)
  have "frozen H4 (S3(?b \<mapsto> T))" unfolding H4 using sub(1) new br c by (intro frozen_label) auto
  moreover have "S \<subseteq>\<^sub>m S3(?b \<mapsto> T)" using le new frozen_new [OF assms(1)]
    by (metis map_le_imp_upd_le map_le_trans map_le_upd fun_upd_triv upd_None_map_le)
  moreover have "dom (S3(?b \<mapsto> T)) = dom S \<union> {?b..<brk H3}" using dom br by auto
  ultimately show ?thesis using keep H2(2) br by (auto simp: grows_def H4)
qed

definition fresh :: "heap \<Rightarrow> node_t \<Rightarrow> heap" where
  "fresh H c = H\<lparr>cells := (cells H)(brk H \<mapsto> c), brk := Suc (brk H)\<rparr>"

lemma fresh_simps [simp]:
  "cells (fresh H c) = (cells H)(brk H \<mapsto> c)" "brk (fresh H c) = Suc (brk H)"
  by (simp_all add: fresh_def)

lemma alloc_fresh: "alloc H c = (fresh H c, brk H)"
  by (simp add: alloc_def fresh_def)

lemma set_field_fresh [heap_simps]:
  "set_lch (fresh H c) (brk H) q = fresh H (c\<lparr>n_lch := q\<rparr>)"
  "set_rch (fresh H c) (brk H) q = fresh H (c\<lparr>n_rch := q\<rparr>)"
  "set_val_at (fresh H c) (brk H) x = fresh H (c\<lparr>n_val := x\<rparr>)"
  by (simp_all add: set_lch_def set_rch_def set_val_at_def fresh_def)

lemmas alloc_simps [heap_simps] = new_node_def weak_copy_def alloc_fresh deref_def

text \<open>A node finished at once, and a node finished after work on a heap that already holds it.\<close>

lemma grows_fresh:
  assumes "frozen H S" "holds c (points S) T"
  shows "frozen (fresh H c) (S(brk H \<mapsto> T)) \<and> grows H S (fresh H c) (S(brk H \<mapsto> T)) \<and>
    points (S(brk H \<mapsto> T)) (Some (brk H)) T"
  using assms grows_node [of H S "fresh H c" "fresh H c" S c T "fresh H c"] frozen_fresh [of H S "fresh H c"]
  by (auto simp: put_def fresh_def grows_refl)

lemma grows_finish:
  assumes "frozen H S" and sub: "frozen H3 S3" "grows (fresh H c) S H3 S3"
    and c: "holds c' (points S3) T"
  shows "frozen (put H3 (brk H) c') (S3(brk H \<mapsto> T)) \<and> grows H S (put H3 (brk H) c') (S3(brk H \<mapsto> T)) \<and>
    points (S3(brk H \<mapsto> T)) (Some (brk H)) T \<and> S3 (brk H) = None"
proof -
  have "dom S3 = dom S \<union> {Suc (brk H)..<brk H3}" using sub(2) by (simp add: grows_def)
  then have "S3 (brk H) = None" using frozen_new [OF assms(1)]
    by (metis Un_iff atLeastLessThan_iff domIff not_less_eq_eq order_refl)
  then show ?thesis using grows_node [OF assms(1) _ _ sub c refl] by simp
qed

lemma points_label: "S b = None \<Longrightarrow> points S p T \<Longrightarrow> points (S(b \<mapsto> U)) p T"
  by (cases p) auto

lemma grows_fresh_cell: "grows (fresh H c) S H3 S3 \<Longrightarrow> cells H3 (brk H) = Some c"
  by (simp add: grows_def)

section \<open>The pointer operations refine the functional ones\<close>

lemma split_copy_at_correct:
  "frozen H S \<Longrightarrow> points S p T \<Longrightarrow> split_copy ver T key = (A, B) \<Longrightarrow>
   \<exists>H' S' pl pr. split_copy_at ver H p key = Some (H', pl, pr) \<and> frozen H' S' \<and> grows H S H' S' \<and>
     points S' pl A \<and> points S' pr B"
proof (induction T arbitrary: H S p A B)
  case Null
  then have "p = None" by (auto dest: frozen_points_Null)
  with Null show ?case by (auto simp: split_copy_at.simps grows_refl)
next
  case (Node v pr k x a l r)
  obtain b c where p: "p = Some b" "cells H b = Some c" "n_pry c = pr" "n_key c = k" "n_val c = x"
    and lr: "points S (n_lch c) l" "points S (n_rch c) r"
    using frozen_points_Node [OF Node.prems(1,2)] by metis
  let ?c = "\<lparr>n_ver = ver, n_pry = pr, n_key = k, n_val = x, n_aug = 0, n_lch = None, n_rch = None\<rparr>"
  show ?case
  proof (cases "key < k")
    case True
    let ?c2 = "?c\<lparr>n_rch := n_rch c\<rparr>"
    obtain M where s: "split_copy ver l key = (A, M)" and B: "B = Node ver pr k x 0 M r"
      using Node.prems(3) True by (auto simp: split_copy_Node split: prod.splits)
    have "frozen (fresh H ?c2) S" using Node.prems(1) by (rule frozen_fresh) simp_all
    from Node.IH(1) [OF this lr(1) s] obtain H3 S3 pl sub where
      rec: "split_copy_at ver (fresh H ?c2) (n_lch c) key = Some (H3, pl, sub)"
      and H3: "frozen H3 S3" "grows (fresh H ?c2) S H3 S3" and pts: "points S3 pl A" "points S3 sub M" by blast
    note cell = grows_fresh_cell [OF H3(2)]
    have op: "split_copy_at ver H p key = Some (put H3 (brk H) (?c2\<lparr>n_lch := sub\<rparr>), pl, Some (brk H))"
      using True p rec by (subst split_copy_at.simps) (simp add: heap_simps cell)
    have "holds (?c2\<lparr>n_lch := sub\<rparr>) (points S3) B"
      using pts lr grows_points [OF H3(2)] by (simp add: B)
    from grows_finish [OF Node.prems(1) H3 this] op pts show ?thesis by (blast intro: points_label)
  next
    case False
    let ?c2 = "?c\<lparr>n_lch := n_lch c\<rparr>"
    obtain M where s: "split_copy ver r key = (M, B)" and A: "A = Node ver pr k x 0 l M"
      using Node.prems(3) False by (auto simp: split_copy_Node split: prod.splits)
    have "frozen (fresh H ?c2) S" using Node.prems(1) by (rule frozen_fresh) simp_all
    from Node.IH(2) [OF this lr(2) s] obtain H3 S3 sub pr' where
      rec: "split_copy_at ver (fresh H ?c2) (n_rch c) key = Some (H3, sub, pr')"
      and H3: "frozen H3 S3" "grows (fresh H ?c2) S H3 S3" and pts: "points S3 pr' B" "points S3 sub M" by blast
    note cell = grows_fresh_cell [OF H3(2)]
    have op: "split_copy_at ver H p key = Some (put H3 (brk H) (?c2\<lparr>n_rch := sub\<rparr>), Some (brk H), pr')"
      using False p rec by (subst split_copy_at.simps) (simp add: heap_simps cell)
    have "holds (?c2\<lparr>n_rch := sub\<rparr>) (points S3) A"
      using pts lr grows_points [OF H3(2)] by (simp add: A)
    from grows_finish [OF Node.prems(1) H3 this] op pts show ?thesis by (blast intro: points_label)
  qed
qed

lemma process_deploy_at_correct:
  assumes "frozen H S" "points S p T"
  shows "\<exists>H' S' q. process_deploy_at ver H p pry key = Some (H', q) \<and> frozen H' S' \<and> grows H S H' S' \<and>
    points S' q (process_deploy ver T pry key)"
proof -
  let ?c = "\<lparr>n_ver = ver, n_pry = pry, n_key = key, n_val = 1, n_aug = 0, n_lch = None, n_rch = None\<rparr>"
  obtain A B where s: "split_copy ver T key = (A, B)" by fastforce
  have "frozen (fresh H ?c) S" using assms(1) by (rule frozen_fresh) simp_all
  from split_copy_at_correct [OF this assms(2) s] obtain H3 S3 pl pr where
    rec: "split_copy_at ver (fresh H ?c) p key = Some (H3, pl, pr)"
    and H3: "frozen H3 S3" "grows (fresh H ?c) S H3 S3" and pts: "points S3 pl A" "points S3 pr B" by blast
  have op: "process_deploy_at ver H p pry key =
      Some (put H3 (brk H) (?c\<lparr>n_lch := pl, n_rch := pr\<rparr>), Some (brk H))"
    using rec by (simp add: process_deploy_at_def heap_simps grows_fresh_cell [OF H3(2)])
  have "holds (?c\<lparr>n_lch := pl, n_rch := pr\<rparr>) (points S3) (process_deploy ver T pry key)"
    using pts s by (simp add: process_deploy_def make_node_def)
  from grows_finish [OF assms(1) H3 this] op show ?thesis by blast
qed

text \<open>The last write of a recursive step: the child that the recursion returned.\<close>

lemma finish_lch:
  assumes "frozen H S" and H3: "frozen H3 S3" "grows (fresh H c) S H3 S3"
    and "points S (n_rch c) r" "points S3 q l"
  shows "\<exists>S4. frozen (set_lch H3 (brk H) q) S4 \<and> grows H S (set_lch H3 (brk H) q) S4 \<and>
    points S4 (Some (brk H)) (Node (n_ver c) (n_pry c) (n_key c) (n_val c) a l r)"
proof -
  have "holds (c\<lparr>n_lch := q\<rparr>) (points S3) (Node (n_ver c) (n_pry c) (n_key c) (n_val c) a l r)"
    using assms(4,5) grows_points [OF H3(2)] by simp
  from grows_finish [OF assms(1) H3 this] set_field_put(1) [OF grows_fresh_cell [OF H3(2)], of q]
  show ?thesis by metis
qed

lemma finish_rch:
  assumes "frozen H S" and H3: "frozen H3 S3" "grows (fresh H c) S H3 S3"
    and "points S (n_lch c) l" "points S3 q r"
  shows "\<exists>S4. frozen (set_rch H3 (brk H) q) S4 \<and> grows H S (set_rch H3 (brk H) q) S4 \<and>
    points S4 (Some (brk H)) (Node (n_ver c) (n_pry c) (n_key c) (n_val c) a l r)"
proof -
  have "holds (c\<lparr>n_rch := q\<rparr>) (points S3) (Node (n_ver c) (n_pry c) (n_key c) (n_val c) a l r)"
    using assms(4,5) grows_points [OF H3(2)] by simp
  from grows_finish [OF assms(1) H3 this] set_field_put(2) [OF grows_fresh_cell [OF H3(2)], of q]
  show ?thesis by metis
qed

text \<open>What every operation guarantees: it returns, and its result represents the functional result.\<close>

definition returns :: "heap \<Rightarrow> (nat \<rightharpoonup> tree) \<Rightarrow> (heap \<times> ptr) option \<Rightarrow> tree \<Rightarrow> bool" where
  "returns H S res T \<longleftrightarrow> (\<exists>H' S' q. res = Some (H', q) \<and> frozen H' S' \<and> grows H S H' S' \<and> points S' q T)"

lemma returns_E:
  assumes "returns H S res T"
  obtains H' S' q where "res = Some (H', q)" "frozen H' S'" "grows H S H' S'" "points S' q T"
  using assms by (auto simp: returns_def)

lemma returns_same: "frozen H S \<Longrightarrow> points S p T \<Longrightarrow> returns H S (Some (H, p)) T"
  by (auto simp: returns_def intro: grows_refl)

lemma returns_fresh:
  assumes "frozen H S" "holds c (points S) T"
  shows "returns H S (Some (fresh H c, Some (brk H))) T"
  using grows_fresh [OF assms] by (auto simp: returns_def)

lemma returns_lch:
  assumes "frozen H S" "points S (n_rch c) r"
    and "frozen (fresh H c) S \<Longrightarrow> returns (fresh H c) S res l"
  shows "returns H S (do { (H3, q) \<leftarrow> res; Some (set_lch H3 (brk H) q, Some (brk H)) })
    (Node (n_ver c) (n_pry c) (n_key c) (n_val c) a l r)"
proof -
  have "frozen (fresh H c) S" using assms(1) by (rule frozen_fresh) simp_all
  from assms(3) [OF this] obtain H3 S3 q where res: "res = Some (H3, q)"
    and H3: "frozen H3 S3" "grows (fresh H c) S H3 S3" "points S3 q l" by (rule returns_E)
  from finish_lch [OF assms(1) H3(1,2) assms(2) H3(3)] show ?thesis
    unfolding returns_def res by (simp del: points_simps)
qed

lemma returns_rch:
  assumes "frozen H S" "points S (n_lch c) l"
    and "frozen (fresh H c) S \<Longrightarrow> returns (fresh H c) S res r"
  shows "returns H S (do { (H3, q) \<leftarrow> res; Some (set_rch H3 (brk H) q, Some (brk H)) })
    (Node (n_ver c) (n_pry c) (n_key c) (n_val c) a l r)"
proof -
  have "frozen (fresh H c) S" using assms(1) by (rule frozen_fresh) simp_all
  from assms(3) [OF this] obtain H3 S3 q where res: "res = Some (H3, q)"
    and H3: "frozen H3 S3" "grows (fresh H c) S H3 S3" "points S3 q r" by (rule returns_E)
  from finish_rch [OF assms(1) H3(1,2) assms(2) H3(3)] show ?thesis
    unfolding returns_def res by (simp del: points_simps)
qed

lemma process_deploy_returns:
  "frozen H S \<Longrightarrow> points S p T \<Longrightarrow> returns H S (process_deploy_at ver H p pry key) (process_deploy ver T pry key)"
  unfolding returns_def by (rule process_deploy_at_correct)

lemma search_insert_at_correct:
  "frozen H S \<Longrightarrow> points S p T \<Longrightarrow> returns H S (search_insert_at ver H p pry key) (search_insert ver T pry key)"
proof (induction T arbitrary: H S p)
  case Null
  then have "p = None" by (auto dest: frozen_points_Null)
  moreover have "returns H S (Some (fresh H \<lparr>n_ver = ver, n_pry = pry, n_key = key, n_val = 1,
      n_aug = 0, n_lch = None, n_rch = None\<rparr>, Some (brk H))) (make_node ver pry key)"
    using Null(1) by (intro returns_fresh) simp_all
  ultimately show ?case by (simp add: search_insert_at.simps heap_simps)
next
  case (Node v pr k x a l r)
  obtain b c where p: "p = Some b" "cells H b = Some c" "n_pry c = pr" "n_key c = k" "n_val c = x"
    and lr: "points S (n_lch c) l" "points S (n_rch c) r"
    using frozen_points_Node [OF Node.prems] by metis
  let ?c = "\<lparr>n_ver = ver, n_pry = pr, n_key = k, n_val = x, n_aug = 0, n_lch = None, n_rch = None\<rparr>"
  have 1: "returns H S (search_insert_at ver H p pry key) (search_insert ver (Node v pr k x a l r) pry key)"
    if "pr > pry" "key < k"
    using returns_lch [of H S "?c\<lparr>n_rch := n_rch c\<rparr>", OF Node.prems(1) _ Node.IH(1) [OF _ lr(1)]] lr(2) that p
    by (subst search_insert_at.simps) (simp add: heap_simps search_insert_Node)
  have 2: "returns H S (search_insert_at ver H p pry key) (search_insert ver (Node v pr k x a l r) pry key)"
    if "pr > pry" "\<not> key < k"
    using returns_rch [of H S "?c\<lparr>n_lch := n_lch c\<rparr>", OF Node.prems(1) _ Node.IH(2) [OF _ lr(2)]] lr(1) that p
    by (subst search_insert_at.simps) (simp add: heap_simps search_insert_Node)
  have 3: "returns H S (search_insert_at ver H p pry key) (search_insert ver (Node v pr k x a l r) pry key)"
    if "\<not> pr > pry" "k = key"
    using returns_fresh [of H S "?c\<lparr>n_val := x + 1, n_lch := n_lch c, n_rch := n_rch c\<rparr>"] Node.prems(1) lr that p
    by (subst search_insert_at.simps) (simp add: heap_simps search_insert_Node)
  have 4: "returns H S (search_insert_at ver H p pry key) (search_insert ver (Node v pr k x a l r) pry key)"
    if "\<not> pr > pry" "k \<noteq> key"
    using process_deploy_returns [OF Node.prems, of ver pry key] that p
    by (subst search_insert_at.simps) (simp add: heap_simps search_insert_Node)
  from 1 2 3 4 show ?case by blast
qed

lemma process_concat_at_correct:
  "frozen H S \<Longrightarrow> points S p T \<Longrightarrow> points S q U \<Longrightarrow>
   returns H S (process_concat_at ver H p q) (process_concat ver T U)"
proof (induction ver T U arbitrary: H S p q rule: process_concat.induct)
  case (1 ver U)
  then have "p = None" by (auto dest: frozen_points_Null)
  with 1 show ?case by (simp add: process_concat_at.simps returns_same)
next
  case (2 ver v pr k x a l r)
  then have "q = None" by (auto dest: frozen_points_Null)
  moreover obtain b where "p = Some b" using 2 by (cases p) simp_all
  ultimately show ?case using 2 by (simp add: process_concat_at.simps returns_same)
next
  case (3 ver v pr k x a l r v' pr' k' x' a' l' r')
  obtain b c where p: "p = Some b" "cells H b = Some c" "n_pry c = pr" "n_key c = k" "n_val c = x"
    and lr: "points S (n_lch c) l" "points S (n_rch c) r"
    using frozen_points_Node [OF 3(3,4)] by metis
  obtain b' c' where q: "q = Some b'" "cells H b' = Some c'" "n_pry c' = pr'" "n_key c' = k'" "n_val c' = x'"
    and lr': "points S (n_lch c') l'" "points S (n_rch c') r'"
    using frozen_points_Node [OF 3(3,5)] by metis
  let ?c = "\<lparr>n_ver = ver, n_pry = pr, n_key = k, n_val = x, n_aug = 0, n_lch = n_lch c, n_rch = None\<rparr>"
  let ?c' = "\<lparr>n_ver = ver, n_pry = pr', n_key = k', n_val = x', n_aug = 0, n_lch = None, n_rch = n_rch c'\<rparr>"
  show ?case
  proof (cases "pr > pr'")
    case True
    show ?thesis
      using returns_rch [of H S ?c, OF 3(3) _ 3(1) [OF refl refl True _ lr(2) 3(5)]] lr(1) True p q
      by (subst process_concat_at.simps) (simp add: heap_simps process_concat_Node)
  next
    case False
    show ?thesis
      using returns_lch [of H S ?c', OF 3(3) _ 3(2) [OF refl refl False _ 3(4) lr'(1)]] lr'(2) False p q
      by (subst process_concat_at.simps) (simp add: heap_simps process_concat_Node)
  qed
qed

lemma search_delete_at_correct:
  "frozen H S \<Longrightarrow> points S p T \<Longrightarrow> returns H S (search_delete_at ver H p pry key) (search_delete ver T pry key)"
proof (induction T arbitrary: H S p)
  case Null
  then have "p = None" by (auto dest: frozen_points_Null)
  with Null show ?case by (simp add: search_delete_at.simps returns_same)
next
  case (Node v pr k x a l r)
  obtain b c where p: "p = Some b" "cells H b = Some c" "n_pry c = pr" "n_key c = k" "n_val c = x"
    and lr: "points S (n_lch c) l" "points S (n_rch c) r"
    using frozen_points_Node [OF Node.prems] by metis
  let ?c = "\<lparr>n_ver = ver, n_pry = pr, n_key = k, n_val = x, n_aug = 0, n_lch = None, n_rch = None\<rparr>"
  have 1: "returns H S (search_delete_at ver H p pry key) (search_delete ver (Node v pr k x a l r) pry key)"
    if "pr > pry" "key < k"
    using returns_lch [of H S "?c\<lparr>n_rch := n_rch c\<rparr>", OF Node.prems(1) _ Node.IH(1) [OF _ lr(1)]] lr(2) that p
    by (subst search_delete_at.simps) (simp add: heap_simps search_delete_Node)
  have 2: "returns H S (search_delete_at ver H p pry key) (search_delete ver (Node v pr k x a l r) pry key)"
    if "pr > pry" "\<not> key < k"
    using returns_rch [of H S "?c\<lparr>n_lch := n_lch c\<rparr>", OF Node.prems(1) _ Node.IH(2) [OF _ lr(2)]] lr(1) that p
    by (subst search_delete_at.simps) (simp add: heap_simps search_delete_Node)
  have 3: "returns H S (search_delete_at ver H p pry key) (search_delete ver (Node v pr k x a l r) pry key)"
    if "\<not> pr > pry" "k = key" "x \<noteq> 1"
    using returns_fresh [of H S "?c\<lparr>n_val := x - 1, n_lch := n_lch c, n_rch := n_rch c\<rparr>"] Node.prems(1) lr that p
    by (subst search_delete_at.simps) (simp add: heap_simps search_delete_Node)
  have 4: "returns H S (search_delete_at ver H p pry key) (search_delete ver (Node v pr k x a l r) pry key)"
    if "\<not> pr > pry" "k = key" "x = 1"
    using process_concat_at_correct [OF Node.prems(1) lr, of ver] that p
    by (subst search_delete_at.simps) (simp add: heap_simps search_delete_Node)
  have 5: "returns H S (search_delete_at ver H p pry key) (search_delete ver (Node v pr k x a l r) pry key)"
    if "\<not> pr > pry" "k \<noteq> key"
    using returns_same [OF Node.prems] that p
    by (subst search_delete_at.simps) (simp add: heap_simps search_delete_Node)
  from 1 2 3 4 5 show ?case by blast
qed

section \<open>Filling in the cached sums\<close>

text \<open>
  \<open>augment\<close> writes cached sums only. On a heap where each cached sum of a labelled node is absent or
  right, it returns the sum of the tree and leaves every other field of every node alone.
\<close>

definition augs_ok :: "heap \<Rightarrow> (nat \<rightharpoonup> tree) \<Rightarrow> bool" where
  "augs_ok H S \<longleftrightarrow> (\<forall>b T c. S b = Some T \<longrightarrow> cells H b = Some c \<longrightarrow> n_aug c = 0 \<or> n_aug c = tree_sum T)"

definition modulo_aug :: "heap \<Rightarrow> heap \<Rightarrow> bool" where
  "modulo_aug H H' \<longleftrightarrow> brk H' = brk H \<and>
     (\<forall>b. map_option (n_aug_update (\<lambda>_. 0)) (cells H' b) = map_option (n_aug_update (\<lambda>_. 0)) (cells H b))"

lemma modulo_aug_refl: "modulo_aug H H"
  by (simp add: modulo_aug_def)

lemma modulo_aug_trans: "modulo_aug H H1 \<Longrightarrow> modulo_aug H1 H2 \<Longrightarrow> modulo_aug H H2"
  by (simp add: modulo_aug_def)

lemma no_aug_eq:
  "n_aug_update (\<lambda>_. 0) c = n_aug_update (\<lambda>_. 0) (c'::node_t) \<longleftrightarrow>
   n_ver c = n_ver c' \<and> n_pry c = n_pry c' \<and> n_key c = n_key c' \<and> n_val c = n_val c' \<and>
   n_lch c = n_lch c' \<and> n_rch c = n_rch c'"
  by (cases c, cases c') simp

lemma modulo_aug_cell:
  assumes "modulo_aug H H'" "cells H b = Some c"
  obtains c' where "cells H' b = Some c'" "n_ver c' = n_ver c" "n_pry c' = n_pry c" "n_key c' = n_key c"
    "n_val c' = n_val c" "n_lch c' = n_lch c" "n_rch c' = n_rch c"
proof -
  have "map_option (n_aug_update (\<lambda>_. 0)) (cells H' b) = Some (n_aug_update (\<lambda>_. 0) c)"
    using assms by (simp add: modulo_aug_def)
  then obtain c' where "cells H' b = Some c'" "n_aug_update (\<lambda>_. 0) c' = n_aug_update (\<lambda>_. 0) c" by auto
  then show thesis by (intro that [of c']) (simp_all add: no_aug_eq)
qed

lemma frozen_modulo_aug:
  assumes "frozen H S" "modulo_aug H H'"
  shows "frozen H' S"
  unfolding frozen_def
proof (intro allI impI)
  fix b T assume "S b = Some T"
  then obtain c where c: "b < brk H" "cells H b = Some c" "holds c (points S) T" by (rule frozenD [OF assms(1)])
  from modulo_aug_cell [OF assms(2) c(2)] obtain c' where c': "cells H' b = Some c'" "n_ver c' = n_ver c"
    "n_pry c' = n_pry c" "n_key c' = n_key c" "n_val c' = n_val c" "n_lch c' = n_lch c" "n_rch c' = n_rch c" .
  have "holds c' (points S) T" using c(3) c' by (cases T) simp_all
  with c c' assms(2) show "b < brk H' \<and> (\<exists>c. cells H' b = Some c \<and> holds c (points S) T)"
    by (simp add: modulo_aug_def)
qed

lemma put_aug:
  assumes "cells H b = Some c" "S b = Some T" "augs_ok H S" "s = tree_sum T"
  shows "modulo_aug H (set_aug_at H b s) \<and> augs_ok (set_aug_at H b s) S"
  using assms by (auto simp: set_field_put(4) modulo_aug_def augs_ok_def)

lemma augment_at_correct:
  "frozen H S \<Longrightarrow> augs_ok H S \<Longrightarrow> points S p T \<Longrightarrow>
   \<exists>H'. augment_at H p = Some (H', tree_sum T) \<and> modulo_aug H H' \<and> augs_ok H' S \<and>
     (\<forall>b c. p = Some b \<longrightarrow> cells H' b = Some c \<longrightarrow> n_aug c = tree_sum T)"
proof (induction T arbitrary: H p)
  case Null
  then have "p = None" by (auto dest: frozen_points_Null)
  with Null show ?case by (simp add: augment_at.simps modulo_aug_refl)
next
  case (Node v pr k x a l r)
  let ?T = "Node v pr k x a l r"
  obtain b c where p: "p = Some b" "cells H b = Some c" "n_val c = x" "S b = Some ?T"
    and lr: "points S (n_lch c) l" "points S (n_rch c) r"
    using frozen_points_Node [OF Node.prems(1,3)] by metis
  show ?case
  proof (cases "n_aug c = 0")
    case False
    then have "n_aug c = tree_sum ?T" using p(2,4) Node.prems(2) unfolding augs_ok_def by blast
    with False p Node.prems(2) show ?thesis
      by (auto simp: augment_at.simps deref_def modulo_aug_refl simp del: tree_sum.simps)
  next
    case True
    from Node.IH(1) [OF Node.prems(1,2) lr(1)] obtain H1 where
      H1: "augment_at H (n_lch c) = Some (H1, tree_sum l)" "modulo_aug H H1" "augs_ok H1 S" by blast
    from Node.IH(2) [OF frozen_modulo_aug [OF Node.prems(1) H1(2)] H1(3) lr(2)] obtain H2 where
      H2: "augment_at H1 (n_rch c) = Some (H2, tree_sum r)" "modulo_aug H1 H2" "augs_ok H2 S" by blast
    from modulo_aug_trans [OF H1(2) H2(2)] p(2) obtain c2 where c2: "cells H2 b = Some c2"
      by (rule modulo_aug_cell)
    let ?H = "set_aug_at H2 b (tree_sum ?T)"
    have "augment_at H p = Some (?H, tree_sum ?T)"
      using True p H1(1) H2(1) by (subst augment_at.simps) (simp add: deref_def)
    moreover have "modulo_aug H2 ?H \<and> augs_ok ?H S" by (rule put_aug [OF c2 p(4) H2(3) refl])
    moreover have "modulo_aug H H2" by (rule modulo_aug_trans [OF H1(2) H2(2)])
    moreover have "cells ?H b = Some (c2\<lparr>n_aug := tree_sum ?T\<rparr>)" using c2 by (simp add: set_field_put(4))
    ultimately show ?thesis using p(1) by (auto intro: modulo_aug_trans)
  qed
qed

end
