(* ===== verification/Treap_Build_Heap.thy ===== *)
theory Treap_Build_Heap
  imports Treap_Build Treap_Heap
begin

text \<open>
  The bulk build on the node heap (\<^verbatim>\<open>lib/treap/build.hpp\<close>): trees that nobody else holds are split and merged by overwriting
  their links, and a node whose key is also in the other tree is released. The two branches of a fork-join call run in either
  order; a function of the heap, given as a parameter, chooses which goes first. Reading or releasing an address that holds no node
  has no result. A tree owns its addresses: the lemmas show that the operations touch no other address, and that an address given
  to them is in the result or has been released.
\<close>

section \<open>Operations\<close>

definition lch_at :: "heap \<Rightarrow> nat \<Rightarrow> ptr option" where
  "lch_at H b = map_option n_lch (cells H b)"

definition rch_at :: "heap \<Rightarrow> nat \<Rightarrow> ptr option" where
  "rch_at H b = map_option n_rch (cells H b)"

definition release_node :: "heap \<Rightarrow> nat \<Rightarrow> heap option" where
  "release_node H b = (if cells H b = None then None else Some (H\<lparr>cells := (cells H)(b := None)\<rparr>))"

partial_function (option) release_tree :: "heap \<Rightarrow> ptr \<Rightarrow> heap option" where
  "release_tree H t =
     (case t of None \<Rightarrow> Some H
      | Some b \<Rightarrow> do {
          p \<leftarrow> lch_at H b;
          H \<leftarrow> release_tree H p;
          q \<leftarrow> rch_at H b;
          H \<leftarrow> release_tree H q;
          release_node H b })"

text \<open>Both branches of a fork-join call, the first or the second first.\<close>

definition par_heap ::
  "bool \<Rightarrow> (heap \<Rightarrow> (heap \<times> 'a) option) \<Rightarrow> (heap \<Rightarrow> (heap \<times> 'b) option) \<Rightarrow> heap \<Rightarrow> (heap \<times> 'a \<times> 'b) option" where
  "par_heap first f g H =
     (if first then do { (H, x) \<leftarrow> f H; (H, y) \<leftarrow> g H; Some (H, x, y) }
      else do { (H, y) \<leftarrow> g H; (H, x) \<leftarrow> f H; Some (H, x, y) })"

lemma par_heap_mono [partial_function_mono]:
  assumes "\<And>H. mono_option (\<lambda>M. f M H)" and "\<And>H. mono_option (\<lambda>M. g M H)"
  shows "mono_option (\<lambda>M. par_heap first (f M) (g M) H)"
  unfolding par_heap_def split_beta by (cases first) (simp_all, (intro assms partial_function_mono)+)

partial_function (option) split_at :: "heap \<Rightarrow> ptr \<Rightarrow> u64 \<Rightarrow> (heap \<times> ptr \<times> ptr) option" where
  "split_at H t key =
     (case t of None \<Rightarrow> Some (H, None, None)
      | Some b \<Rightarrow> do {
          c \<leftarrow> deref H t;
          if key < n_key c then do {
            (H, t_l, sub) \<leftarrow> split_at H (n_lch c) key;
            Some (set_lch H b sub, t_l, t) }
          else do {
            (H, sub, t_r) \<leftarrow> split_at H (n_rch c) key;
            Some (set_rch H b sub, t, t_r) } })"

partial_function (option) merge_at :: "(heap \<Rightarrow> bool) \<Rightarrow> heap \<Rightarrow> ptr \<Rightarrow> ptr \<Rightarrow> (heap \<times> ptr) option" where
  "merge_at order H t_0 t_1 =
     (case t_0 of None \<Rightarrow> Some (H, t_1)
      | Some b_0 \<Rightarrow> (case t_1 of None \<Rightarrow> Some (H, t_0)
      | Some b_1 \<Rightarrow> do {
          c_0 \<leftarrow> deref H t_0;
          c_1 \<leftarrow> deref H t_1;
          if n_key c_0 = n_key c_1 then do {
            H \<leftarrow> Some (set_val_at H b_1 (n_val c_1 + n_val c_0));
            (H, _, _) \<leftarrow> par_heap (order H)
              (\<lambda>H. do { p \<leftarrow> lch_at H b_0; q \<leftarrow> lch_at H b_1; (H, s) \<leftarrow> merge_at order H p q; Some (set_lch H b_1 s, ()) })
              (\<lambda>H. do { p \<leftarrow> rch_at H b_0; q \<leftarrow> rch_at H b_1; (H, s) \<leftarrow> merge_at order H p q; Some (set_rch H b_1 s, ()) }) H;
            H \<leftarrow> release_node H b_0;
            Some (H, t_1) }
          else if n_pry c_0 > n_pry c_1 then do {
            (H, t_l, t_r) \<leftarrow> split_at H t_1 (n_key c_0);
            (H, _, _) \<leftarrow> par_heap (order H)
              (\<lambda>H. do { p \<leftarrow> lch_at H b_0; (H, s) \<leftarrow> merge_at order H p t_l; Some (set_lch H b_0 s, ()) })
              (\<lambda>H. do { p \<leftarrow> rch_at H b_0; (H, s) \<leftarrow> merge_at order H p t_r; Some (set_rch H b_0 s, ()) }) H;
            Some (H, t_0) }
          else do {
            (H, t_l, t_r) \<leftarrow> split_at H t_0 (n_key c_1);
            (H, _, _) \<leftarrow> par_heap (order H)
              (\<lambda>H. do { q \<leftarrow> lch_at H b_1; (H, s) \<leftarrow> merge_at order H t_l q; Some (set_lch H b_1 s, ()) })
              (\<lambda>H. do { q \<leftarrow> rch_at H b_1; (H, s) \<leftarrow> merge_at order H t_r q; Some (set_rch H b_1 s, ()) }) H;
            Some (H, t_1) } }))"

partial_function (option) build_at :: "(heap \<Rightarrow> bool) \<Rightarrow> (u64 \<Rightarrow> u64) \<Rightarrow> heap \<Rightarrow> nat \<Rightarrow> u64 list \<Rightarrow> (heap \<times> ptr) option" where
  "build_at order h H n elems =
     (if n = 0 then Some (H, None)
      else if n = 1 then do { (H, t) \<leftarrow> Some (new_node H 0 (h (elems ! 0)) (elems ! 0)); Some (H, Some t) }
      else do {
        (H, t_0, t_1) \<leftarrow> par_heap (order H)
          (\<lambda>H. build_at order h H (n div 2) elems) (\<lambda>H. build_at order h H (n - n div 2) (drop (n div 2) elems)) H;
        merge_at order H t_0 t_1 })"

partial_function (option) augment_parallel_at :: "(heap \<Rightarrow> bool) \<Rightarrow> heap \<Rightarrow> ptr \<Rightarrow> (heap \<times> u64) option" where
  "augment_parallel_at order H t =
     (case t of None \<Rightarrow> Some (H, 0)
      | Some b \<Rightarrow> do {
          c \<leftarrow> deref H t;
          if n_aug c \<noteq> aug_uninitialized then Some (H, n_aug c)
          else do {
            (H, aug_l, aug_r) \<leftarrow> par_heap (order H)
              (\<lambda>H. do { p \<leftarrow> lch_at H b; augment_parallel_at order H p })
              (\<lambda>H. do { p \<leftarrow> rch_at H b; augment_parallel_at order H p }) H;
            c \<leftarrow> deref H t;
            Some (set_aug_at H b (aug_l + n_val c + aug_r), aug_l + n_val c + aug_r) } })"

definition build_parallel_at :: "(heap \<Rightarrow> bool) \<Rightarrow> (u64 \<Rightarrow> u64) \<Rightarrow> heap \<Rightarrow> nat \<Rightarrow> u64 list \<Rightarrow> (heap \<times> ptr) option" where
  "build_parallel_at order h H n elems =
     do { (H, t) \<leftarrow> build_at order h H n elems; (H, _) \<leftarrow> augment_parallel_at order H t; Some (H, t) }"

section \<open>Ownership\<close>

primrec owns :: "heap \<Rightarrow> ptr \<Rightarrow> tree \<Rightarrow> nat set \<Rightarrow> bool" where
  "owns H p Null A \<longleftrightarrow> p = None \<and> A = {}"
| "owns H p (Node v pr k x a l r) A \<longleftrightarrow> (\<exists>b pl pl' A1 A2. p = Some b \<and>
     cells H b = Some \<lparr>n_ver = v, n_pry = pr, n_key = k, n_val = x, n_aug = a, n_lch = pl, n_rch = pl'\<rparr> \<and>
     owns H pl l A1 \<and> owns H pl' r A2 \<and> b \<notin> A1 \<union> A2 \<and> A1 \<inter> A2 = {} \<and> A = insert b (A1 \<union> A2))"

text \<open>Only the given addresses may differ.\<close>

definition within :: "nat set \<Rightarrow> heap \<Rightarrow> heap \<Rightarrow> bool" where
  "within A H H' \<longleftrightarrow> brk H' = brk H \<and> (\<forall>b. b \<notin> A \<longrightarrow> cells H' b = cells H b)"

lemma within_refl [simp]: "within A H H"
  by (simp add: within_def)

lemma within_trans: "within A H H1 \<Longrightarrow> within B H1 H2 \<Longrightarrow> A \<union> B \<subseteq> C \<Longrightarrow> within C H H2"
  unfolding within_def by (metis Un_iff subsetD)

lemma owns_cong: "owns H p T A \<Longrightarrow> (\<And>b. b \<in> A \<Longrightarrow> cells H' b = cells H b) \<Longrightarrow> owns H' p T A"
proof (induction T arbitrary: p A)
  case (Node v pr k x a l r)
  from Node.prems(1) obtain b pl pl' A1 A2 where o: "p = Some b"
    "cells H b = Some \<lparr>n_ver = v, n_pry = pr, n_key = k, n_val = x, n_aug = a, n_lch = pl, n_rch = pl'\<rparr>"
    "owns H pl l A1" "owns H pl' r A2" "b \<notin> A1 \<union> A2" "A1 \<inter> A2 = {}" "A = insert b (A1 \<union> A2)" by auto
  moreover have "owns H' pl l A1" by (rule Node.IH(1) [OF o(3)]) (use Node.prems(2) o(7) in simp)
  moreover have "owns H' pl' r A2" by (rule Node.IH(2) [OF o(4)]) (use Node.prems(2) o(7) in simp)
  ultimately show ?case using Node.prems(2) [of b] by auto
qed simp

lemma owns_within: "owns H p T A \<Longrightarrow> within B H H' \<Longrightarrow> A \<inter> B = {} \<Longrightarrow> owns H' p T A"
  by (erule owns_cong) (auto simp: within_def)

lemma split_at_ok:
  "owns H p T A \<Longrightarrow> \<exists>H' q q' L R. split_at H p key = Some (H', q, q') \<and> within A H H' \<and>
     owns H' q (fst (split T key)) L \<and> owns H' q' (snd (split T key)) R \<and> L \<inter> R = {} \<and> L \<union> R = A"
proof (induction T arbitrary: H p A)
  case Null
  then show ?case by (simp add: split_at.simps)
next
  case (Node v pr k x a l r)
  from Node.prems obtain b pl pl' A1 A2 where o: "p = Some b"
    "cells H b = Some \<lparr>n_ver = v, n_pry = pr, n_key = k, n_val = x, n_aug = a, n_lch = pl, n_rch = pl'\<rparr>"
    "owns H pl l A1" "owns H pl' r A2" "b \<notin> A1 \<union> A2" "A1 \<inter> A2 = {}" "A = insert b (A1 \<union> A2)" by auto
  show ?case
  proof (cases "key < k")
    case True
    from Node.IH(1) [OF o(3)] obtain H' q q' L R where s: "split_at H pl key = Some (H', q, q')" "within A1 H H'"
      "owns H' q (fst (split l key)) L" "owns H' q' (snd (split l key)) R" "L \<inter> R = {}" "L \<union> R = A1" by blast
    let ?H = "set_lch H' b q'"
    have b: "cells H' b = cells H b" "b \<notin> L" "b \<notin> R" "R \<inter> A2 = {}" "L \<inter> A2 = {}" using s(2,5,6) o(5,6) by (auto simp: within_def)
    have keep: "within {b} H' ?H" by (simp add: within_def set_lch_def)
    have "owns H' pl' r A2" by (rule owns_within [OF o(4) s(2)]) (use o(6) in auto)
    then have "owns ?H pl' r A2" "owns ?H q' (snd (split l key)) R" "owns ?H q (fst (split l key)) L"
      using owns_within [OF _ keep] s(3,4) b o(5) by auto
    moreover have "split_at H p key = Some (?H, q, p)"
      using True o(1,2) s(1) by (subst split_at.simps) (simp add: deref_def)
    moreover have "within A H ?H" by (rule within_trans [OF s(2) keep]) (use o(7) in auto)
    moreover have "cells ?H b = Some \<lparr>n_ver = v, n_pry = pr, n_key = k, n_val = x, n_aug = a, n_lch = q', n_rch = pl'\<rparr>"
      using b(1) o(2) by (simp add: set_lch_def)
    ultimately show ?thesis using True o(1,5,6,7) b s(5,6)
      by (intro exI [of _ ?H] exI [of _ q] exI [of _ p] exI [of _ L] exI [of _ "insert b (R \<union> A2)"])
        (auto simp: Let_def split_beta)
  next
    case False
    from Node.IH(2) [OF o(4)] obtain H' q q' L R where s: "split_at H pl' key = Some (H', q, q')" "within A2 H H'"
      "owns H' q (fst (split r key)) L" "owns H' q' (snd (split r key)) R" "L \<inter> R = {}" "L \<union> R = A2" by blast
    let ?H = "set_rch H' b q"
    have b: "cells H' b = cells H b" "b \<notin> L" "b \<notin> R" "R \<inter> A1 = {}" "L \<inter> A1 = {}" using s(2,5,6) o(5,6) by (auto simp: within_def)
    have keep: "within {b} H' ?H" by (simp add: within_def set_rch_def)
    have "owns H' pl l A1" by (rule owns_within [OF o(3) s(2)]) (use o(6) in auto)
    then have "owns ?H pl l A1" "owns ?H q' (snd (split r key)) R" "owns ?H q (fst (split r key)) L"
      using owns_within [OF _ keep] s(3,4) b o(5) by auto
    moreover have "split_at H p key = Some (?H, p, q')"
      using False o(1,2) s(1) by (subst split_at.simps) (simp add: deref_def)
    moreover have "within A H ?H" by (rule within_trans [OF s(2) keep]) (use o(7) in auto)
    moreover have "cells ?H b = Some \<lparr>n_ver = v, n_pry = pr, n_key = k, n_val = x, n_aug = a, n_lch = pl, n_rch = q\<rparr>"
      using b(1) o(2) by (simp add: set_rch_def)
    ultimately show ?thesis using False o(1,5,6,7) b s(5,6)
      by (intro exI [of _ ?H] exI [of _ p] exI [of _ q'] exI [of _ "insert b (A1 \<union> L)"] exI [of _ R])
        (auto simp: Let_def split_beta)
  qed
qed

section \<open>Merging in place\<close>

text \<open>What a branch below node \<open>b\<close> promises: it puts a tree that owns part of \<open>A\<close> below \<open>b\<close> and releases the rest.\<close>

definition given_back :: "heap \<Rightarrow> ptr \<Rightarrow> tree \<Rightarrow> nat set \<Rightarrow> nat set \<Rightarrow> bool" where
  "given_back H p T A B \<longleftrightarrow> owns H p T B \<and> B \<subseteq> A \<and> (\<forall>d \<in> A - B. cells H d = None)"

lemma given_back_within: "given_back H p T A B \<Longrightarrow> within C H H' \<Longrightarrow> A \<inter> C = {} \<Longrightarrow> given_back H' p T A B"
  unfolding given_back_def using owns_within [of H p T B C H'] by (auto simp: within_def)

lemma par_children:
  assumes c: "cells H b = Some c" and disj: "L \<inter> R = {}" "b \<notin> L \<union> R"
    and left: "\<And>H1 q. within (insert b R) H H1 \<Longrightarrow> cells H1 b = Some (c\<lparr>n_rch := q\<rparr>) \<Longrightarrow>
      \<exists>H2 p A. f H1 = Some (H2, ()) \<and> within (insert b L) H1 H2 \<and> cells H2 b = Some (c\<lparr>n_lch := p, n_rch := q\<rparr>) \<and> given_back H2 p l L A"
    and right: "\<And>H1 p. within (insert b L) H H1 \<Longrightarrow> cells H1 b = Some (c\<lparr>n_lch := p\<rparr>) \<Longrightarrow>
      \<exists>H2 q B. g H1 = Some (H2, ()) \<and> within (insert b R) H1 H2 \<and> cells H2 b = Some (c\<lparr>n_lch := p, n_rch := q\<rparr>) \<and> given_back H2 q r R B"
  shows "\<exists>H2 p q A B. par_heap first f g H = Some (H2, (), ()) \<and> within (insert b (L \<union> R)) H H2 \<and>
    cells H2 b = Some (c\<lparr>n_lch := p, n_rch := q\<rparr>) \<and> given_back H2 p l L A \<and> given_back H2 q r R B"
proof (cases first)
  case True
  from left [of H "n_rch c"] c obtain H1 p A where 1: "f H = Some (H1, ())" "within (insert b L) H H1"
    "cells H1 b = Some (c\<lparr>n_lch := p\<rparr>)" "given_back H1 p l L A" by auto
  from right [OF 1(2,3)] obtain H2 q B where 2: "g H1 = Some (H2, ())" "within (insert b R) H1 H2"
    "cells H2 b = Some (c\<lparr>n_lch := p, n_rch := q\<rparr>)" "given_back H2 q r R B" by blast
  have "given_back H2 p l L A" by (rule given_back_within [OF 1(4) 2(2)]) (use disj in auto)
  moreover have "within (insert b (L \<union> R)) H H2" by (rule within_trans [OF 1(2) 2(2)]) auto
  ultimately show ?thesis using True 1(1) 2 by (auto simp: par_heap_def)
next
  case False
  from right [of H "n_lch c"] c obtain H1 q B where 1: "g H = Some (H1, ())" "within (insert b R) H H1"
    "cells H1 b = Some (c\<lparr>n_rch := q\<rparr>)" "given_back H1 q r R B" by auto
  from left [OF 1(2,3)] obtain H2 p A where 2: "f H1 = Some (H2, ())" "within (insert b L) H1 H2"
    "cells H2 b = Some (c\<lparr>n_lch := p, n_rch := q\<rparr>)" "given_back H2 p l L A" by blast
  have "given_back H2 q r R B" by (rule given_back_within [OF 1(4) 2(2)]) (use disj in auto)
  moreover have "within (insert b (L \<union> R)) H H2" by (rule within_trans [OF 1(2) 2(2)]) auto
  ultimately show ?thesis using False 1(1) 2 by (auto simp: par_heap_def)
qed

text \<open>A branch: merge two trees and store the result as a child of \<open>b\<close>.\<close>

definition merges :: "(heap \<Rightarrow> bool) \<Rightarrow> tree \<Rightarrow> tree \<Rightarrow> bool" where
  "merges order T0 T1 \<longleftrightarrow> (\<forall>H p q A B. owns H p T0 A \<longrightarrow> owns H q T1 B \<longrightarrow> A \<inter> B = {} \<longrightarrow>
     (\<exists>H' s D. merge_at order H p q = Some (H', s) \<and> within (A \<union> B) H H' \<and> given_back H' s (merge T0 T1) (A \<union> B) D))"

lemma mergesD:
  assumes "merges order T0 T1" "owns H p T0 A" "owns H q T1 B" "A \<inter> B = {}"
  obtains H' s D where "merge_at order H p q = Some (H', s)" "within (A \<union> B) H H'" "given_back H' s (merge T0 T1) (A \<union> B) D"
  using assms unfolding merges_def by blast

lemma store_left:
  assumes "merges order T0 T1" "owns H p T0 A" "owns H q T1 B" "A \<inter> B = {}" "b \<notin> A \<union> B" "cells H b = Some c"
  obtains H' s D where "merge_at order H p q = Some (H', s)" "within (insert b (A \<union> B)) H (set_lch H' b s)"
    "cells (set_lch H' b s) b = Some (c\<lparr>n_lch := s\<rparr>)" "given_back (set_lch H' b s) s (merge T0 T1) (A \<union> B) D"
proof -
  from mergesD [OF assms(1-4)] obtain H' s D where m: "merge_at order H p q = Some (H', s)" "within (A \<union> B) H H'"
    "given_back H' s (merge T0 T1) (A \<union> B) D" .
  have k: "within {b} H' (set_lch H' b s)" by (simp add: within_def set_lch_def)
  show thesis
  proof (rule that [OF m(1)])
    show "within (insert b (A \<union> B)) H (set_lch H' b s)" by (rule within_trans [OF m(2) k]) auto
    show "given_back (set_lch H' b s) s (merge T0 T1) (A \<union> B) D" by (rule given_back_within [OF m(3) k]) (use assms(5) in auto)
    show "cells (set_lch H' b s) b = Some (c\<lparr>n_lch := s\<rparr>)" using m(2) assms(5,6) by (simp add: set_lch_def within_def)
  qed
qed

lemma store_right:
  assumes "merges order T0 T1" "owns H p T0 A" "owns H q T1 B" "A \<inter> B = {}" "b \<notin> A \<union> B" "cells H b = Some c"
  obtains H' s D where "merge_at order H p q = Some (H', s)" "within (insert b (A \<union> B)) H (set_rch H' b s)"
    "cells (set_rch H' b s) b = Some (c\<lparr>n_rch := s\<rparr>)" "given_back (set_rch H' b s) s (merge T0 T1) (A \<union> B) D"
proof -
  from mergesD [OF assms(1-4)] obtain H' s D where m: "merge_at order H p q = Some (H', s)" "within (A \<union> B) H H'"
    "given_back H' s (merge T0 T1) (A \<union> B) D" .
  have k: "within {b} H' (set_rch H' b s)" by (simp add: within_def set_rch_def)
  show thesis
  proof (rule that [OF m(1)])
    show "within (insert b (A \<union> B)) H (set_rch H' b s)" by (rule within_trans [OF m(2) k]) auto
    show "given_back (set_rch H' b s) s (merge T0 T1) (A \<union> B) D" by (rule given_back_within [OF m(3) k]) (use assms(5) in auto)
    show "cells (set_rch H' b s) b = Some (c\<lparr>n_rch := s\<rparr>)" using m(2) assms(5,6) by (simp add: set_rch_def within_def)
  qed
qed

lemma given_back_mono:
  "given_back H p T A D \<Longrightarrow> A \<subseteq> A' \<Longrightarrow> (\<And>d. d \<in> A' - A \<Longrightarrow> cells H d = None) \<Longrightarrow> given_back H p T A' D"
  unfolding given_back_def by blast

text \<open>The node that stays on top, \<open>b\<close>, gets the merged subtrees below it.\<close>

lemma given_back_Node:
  assumes "given_back H p l L A" "given_back H q r R B" "b \<notin> L \<union> R" "L \<inter> R = {}"
    and "cells H b = Some \<lparr>n_ver = v, n_pry = pr, n_key = k, n_val = x, n_aug = a, n_lch = p, n_rch = q\<rparr>"
  shows "given_back H (Some b) (Node v pr k x a l r) (insert b (L \<union> R)) (insert b (A \<union> B))"
proof -
  have "owns H p l A" "owns H q r B" "b \<notin> A \<union> B" "A \<inter> B = {}" using assms(1-4) unfolding given_back_def by auto
  then have "owns H (Some b) (Node v pr k x a l r) (insert b (A \<union> B))" using assms(5) by auto
  then show ?thesis using assms(1,2) unfolding given_back_def by auto
qed

lemma merge_below:
  assumes ml: "merges order l0 l1" and mr: "merges order r0 r1"
    and own: "owns H pl0 l0 L0" "owns H pl1 l1 L1" "owns H pr0 r0 R0" "owns H pr1 r1 R1"
    and disj: "L0 \<inter> L1 = {}" "R0 \<inter> R1 = {}" "(L0 \<union> L1) \<inter> (R0 \<union> R1) = {}" "b \<notin> (L0 \<union> L1) \<union> (R0 \<union> R1)"
    and c: "cells H b = Some c"
    and f: "\<And>H1 q. within (insert b (R0 \<union> R1)) H H1 \<Longrightarrow> cells H1 b = Some (c\<lparr>n_rch := q\<rparr>) \<Longrightarrow>
      f H1 = do { (H, s) \<leftarrow> merge_at order H1 pl0 pl1; Some (set_lch H b s, ()) }"
    and g: "\<And>H1 p. within (insert b (L0 \<union> L1)) H H1 \<Longrightarrow> cells H1 b = Some (c\<lparr>n_lch := p\<rparr>) \<Longrightarrow>
      g H1 = do { (H, s) \<leftarrow> merge_at order H1 pr0 pr1; Some (set_rch H b s, ()) }"
  shows "\<exists>H2 P Q D E. par_heap first f g H = Some (H2, (), ()) \<and> within (insert b ((L0 \<union> L1) \<union> (R0 \<union> R1))) H H2 \<and>
    cells H2 b = Some (c\<lparr>n_lch := P, n_rch := Q\<rparr>) \<and> given_back H2 P (merge l0 l1) (L0 \<union> L1) D \<and> given_back H2 Q (merge r0 r1) (R0 \<union> R1) E"
proof (rule par_children [OF c disj(3,4)])
  fix H1 q assume w: "within (insert b (R0 \<union> R1)) H H1" and cb: "cells H1 b = Some (c\<lparr>n_rch := q\<rparr>)"
  have "L0 \<inter> insert b (R0 \<union> R1) = {}" "L1 \<inter> insert b (R0 \<union> R1) = {}" using disj by auto
  then have "owns H1 pl0 l0 L0" "owns H1 pl1 l1 L1" using owns_within [OF _ w] own by blast+
  from store_left [OF ml this disj(1) _ cb] disj(4) obtain H' s D where s: "merge_at order H1 pl0 pl1 = Some (H', s)"
    "within (insert b (L0 \<union> L1)) H1 (set_lch H' b s)" "cells (set_lch H' b s) b = Some (c\<lparr>n_rch := q, n_lch := s\<rparr>)"
    "given_back (set_lch H' b s) s (merge l0 l1) (L0 \<union> L1) D" by blast
  with f [OF w cb] show "\<exists>H2 p A. f H1 = Some (H2, ()) \<and> within (insert b (L0 \<union> L1)) H1 H2 \<and> cells H2 b = Some (c\<lparr>n_lch := p, n_rch := q\<rparr>) \<and>
    given_back H2 p (merge l0 l1) (L0 \<union> L1) A" by (intro exI [of _ "set_lch H' b s"] exI [of _ s] exI [of _ D]) simp
next
  fix H1 p assume w: "within (insert b (L0 \<union> L1)) H H1" and cb: "cells H1 b = Some (c\<lparr>n_lch := p\<rparr>)"
  have "R0 \<inter> insert b (L0 \<union> L1) = {}" "R1 \<inter> insert b (L0 \<union> L1) = {}" using disj by auto
  then have "owns H1 pr0 r0 R0" "owns H1 pr1 r1 R1" using owns_within [OF _ w] own by blast+
  from store_right [OF mr this disj(2) _ cb] disj(4) obtain H' s D where s: "merge_at order H1 pr0 pr1 = Some (H', s)"
    "within (insert b (R0 \<union> R1)) H1 (set_rch H' b s)" "cells (set_rch H' b s) b = Some (c\<lparr>n_lch := p, n_rch := s\<rparr>)"
    "given_back (set_rch H' b s) s (merge r0 r1) (R0 \<union> R1) D" by auto
  with g [OF w cb] show "\<exists>H2 q B. g H1 = Some (H2, ()) \<and> within (insert b (R0 \<union> R1)) H1 H2 \<and> cells H2 b = Some (c\<lparr>n_lch := p, n_rch := q\<rparr>) \<and>
    given_back H2 q (merge r0 r1) (R0 \<union> R1) B" by (intro exI [of _ "set_rch H' b s"] exI [of _ s] exI [of _ D]) simp
qed

abbreviation cell :: "nat \<Rightarrow> u64 \<Rightarrow> u64 \<Rightarrow> u64 \<Rightarrow> u64 \<Rightarrow> ptr \<Rightarrow> ptr \<Rightarrow> node_t" where
  "cell v p k x a pl pr \<equiv> \<lparr>n_ver = v, n_pry = p, n_key = k, n_val = x, n_aug = a, n_lch = pl, n_rch = pr\<rparr>"

lemma owns_NodeE:
  assumes "owns H p (Node v pr k x a l r) A"
  obtains b pl pl' L R where "p = Some b" "cells H b = Some (cell v pr k x a pl pl')" "owns H pl l L" "owns H pl' r R"
    "b \<notin> L \<union> R" "L \<inter> R = {}" "A = insert b (L \<union> R)"
  using assms by auto

lemma merge_same_key:
  assumes ml: "merges order l l'" and mr: "merges order r r'"
    and o0: "owns H q0 (Node v p k x a l r) A" and o1: "owns H q1 (Node v' p' k x' a' l' r') B" and AB: "A \<inter> B = {}"
  shows "\<exists>H' s D. merge_at order H q0 q1 = Some (H', s) \<and> within (A \<union> B) H H' \<and>
    given_back H' s (Node v' p' k (x' + x) a' (merge l l') (merge r r')) (A \<union> B) D"
proof -
  from o0 obtain b0 pl pr L0 R0 where 0: "q0 = Some b0" "cells H b0 = Some (cell v p k x a pl pr)"
    "owns H pl l L0" "owns H pr r R0" "b0 \<notin> L0 \<union> R0" "L0 \<inter> R0 = {}" "A = insert b0 (L0 \<union> R0)" by (rule owns_NodeE)
  from o1 obtain b1 ql qr L1 R1 where 1: "q1 = Some b1" "cells H b1 = Some (cell v' p' k x' a' ql qr)"
    "owns H ql l' L1" "owns H qr r' R1" "b1 \<notin> L1 \<union> R1" "L1 \<inter> R1 = {}" "B = insert b1 (L1 \<union> R1)" by (rule owns_NodeE)
  let ?c = "cell v' p' k (x' + x) a' ql qr" and ?H = "set_val_at H b1 (x' + x)"
  have ne: "b0 \<noteq> b1" "b0 \<notin> L1 \<union> R1" "b1 \<notin> L0 \<union> R0" "L0 \<inter> L1 = {}" "R0 \<inter> R1 = {}" "L0 \<inter> R1 = {}" "R0 \<inter> L1 = {}"
    using AB 0(7) 1(7) by auto
  have keep: "within {b1} H ?H" by (simp add: within_def set_val_at_def)
  have own: "owns ?H pl l L0" "owns ?H ql l' L1" "owns ?H pr r R0" "owns ?H qr r' R1"
    using owns_within [OF _ keep] 0(3,4) 1(3,4,5) ne by auto
  have c: "cells ?H b1 = Some ?c" "cells ?H b0 = cells H b0" using 1(2) ne(1) by (simp_all add: set_val_at_def)
  have dj: "(L0 \<union> L1) \<inter> (R0 \<union> R1) = {}" "b1 \<notin> (L0 \<union> L1) \<union> (R0 \<union> R1)" using 0(6) 1(5,6) ne by auto
  have b0: "cells H1 b0 = cells H b0" if "within (insert b1 X) ?H H1" "X \<subseteq> L0 \<union> L1 \<union> (R0 \<union> R1)" for H1 X
    using that c(2) ne(1,2) 0(5) by (auto simp: within_def)
  let ?f = "\<lambda>H. do { p \<leftarrow> lch_at H b0; q \<leftarrow> lch_at H b1; (H, s) \<leftarrow> merge_at order H p q; Some (set_lch H b1 s, ()) }"
  let ?g = "\<lambda>H. do { p \<leftarrow> rch_at H b0; q \<leftarrow> rch_at H b1; (H, s) \<leftarrow> merge_at order H p q; Some (set_rch H b1 s, ()) }"
  have "\<exists>H2 P Q D E. par_heap (order ?H) ?f ?g ?H = Some (H2, (), ()) \<and> within (insert b1 ((L0 \<union> L1) \<union> (R0 \<union> R1))) ?H H2 \<and>
    cells H2 b1 = Some (?c\<lparr>n_lch := P, n_rch := Q\<rparr>) \<and> given_back H2 P (merge l l') (L0 \<union> L1) D \<and> given_back H2 Q (merge r r') (R0 \<union> R1) E"
  proof (rule merge_below [OF ml mr own ne(4,5) dj c(1)])
    fix H1 q assume w: "within (insert b1 (R0 \<union> R1)) ?H H1" and cb: "cells H1 b1 = Some (?c\<lparr>n_rch := q\<rparr>)"
    show "?f H1 = do { (H, s) \<leftarrow> merge_at order H1 pl ql; Some (set_lch H b1 s, ()) }"
      using b0 [OF w] cb 0(2) by (simp add: lch_at_def)
  next
    fix H1 q assume w: "within (insert b1 (L0 \<union> L1)) ?H H1" and cb: "cells H1 b1 = Some (?c\<lparr>n_lch := q\<rparr>)"
    show "?g H1 = do { (H, s) \<leftarrow> merge_at order H1 pr qr; Some (set_rch H b1 s, ()) }"
      using b0 [OF w] cb 0(2) by (simp add: rch_at_def)
  qed
  then obtain H2 P Q D E where h: "par_heap (order ?H) ?f ?g ?H = Some (H2, (), ())" "within (insert b1 ((L0 \<union> L1) \<union> (R0 \<union> R1))) ?H H2"
    "cells H2 b1 = Some (?c\<lparr>n_lch := P, n_rch := Q\<rparr>)" "given_back H2 P (merge l l') (L0 \<union> L1) D" "given_back H2 Q (merge r r') (R0 \<union> R1) E" by blast
  let ?H3 = "H2\<lparr>cells := (cells H2)(b0 := None)\<rparr>"
  have r: "release_node H2 b0 = Some ?H3" "within {b0} H2 ?H3" using b0 [OF h(2)] 0(2) by (simp_all add: release_node_def within_def)
  have "given_back ?H3 (Some b1) (Node v' p' k (x' + x) a' (merge l l') (merge r r'))
      (insert b1 ((L0 \<union> L1) \<union> (R0 \<union> R1))) (insert b1 (D \<union> E))"
    by (rule given_back_Node [OF given_back_within [OF h(4) r(2)] given_back_within [OF h(5) r(2)] dj(2,1)])
      (use h(3) ne 0(5) in auto)
  then have "given_back ?H3 (Some b1) (Node v' p' k (x' + x) a' (merge l l') (merge r r')) (A \<union> B) (insert b1 (D \<union> E))"
    by (rule given_back_mono) (auto simp: 0(7) 1(7))
  moreover have "within (A \<union> B) H ?H3"
    by (rule within_trans [OF within_trans [OF keep h(2) order_refl] r(2)]) (use 0(7) 1(7) in auto)
  moreover have "merge_at order H q0 q1 = Some (?H3, Some b1)"
    using 0(1,2) 1(1,2) h(1) r(1) by (subst merge_at.simps) (simp add: deref_def)
  ultimately show ?thesis by blast
qed

text \<open>The node with the higher priority stays on top, and the other tree is split by its key.\<close>

lemma merge_first_top:
  assumes ml: "merges order l (fst (split (Node v' p' k' x' a' l' r') k))"
    and mr: "merges order r (snd (split (Node v' p' k' x' a' l' r') k))"
    and o0: "owns H q0 (Node v p k x a l r) A" and o1: "owns H q1 (Node v' p' k' x' a' l' r') B" and AB: "A \<inter> B = {}"
    and cmp: "k \<noteq> k'" "p > p'"
  shows "\<exists>H' s D. merge_at order H q0 q1 = Some (H', s) \<and> within (A \<union> B) H H' \<and>
    given_back H' s (merge (Node v p k x a l r) (Node v' p' k' x' a' l' r')) (A \<union> B) D"
proof -
  let ?T = "Node v' p' k' x' a' l' r'"
  from o0 obtain b0 pl pr L0 R0 where 0: "q0 = Some b0" "cells H b0 = Some (cell v p k x a pl pr)"
    "owns H pl l L0" "owns H pr r R0" "b0 \<notin> L0 \<union> R0" "L0 \<inter> R0 = {}" "A = insert b0 (L0 \<union> R0)" by (rule owns_NodeE)
  from o1 obtain b1 ql qr where 1: "q1 = Some b1" "cells H b1 = Some (cell v' p' k' x' a' ql qr)" by (rule owns_NodeE)
  from split_at_ok [OF o1, of k] obtain H1 tl tr L1 R1 where s: "split_at H q1 k = Some (H1, tl, tr)" "within B H H1"
    "owns H1 tl (fst (split ?T k)) L1" "owns H1 tr (snd (split ?T k)) R1" "L1 \<inter> R1 = {}" "L1 \<union> R1 = B" by blast
  have ne: "b0 \<notin> L1 \<union> R1" "L0 \<inter> L1 = {}" "R0 \<inter> R1 = {}" "L0 \<inter> R1 = {}" "R0 \<inter> L1 = {}" using AB 0(7) s(6) by auto
  have "L0 \<inter> B = {}" "R0 \<inter> B = {}" using AB 0(7) by auto
  then have own: "owns H1 pl l L0" "owns H1 pr r R0" using owns_within [OF _ s(2)] 0(3,4) by blast+
  have c: "cells H1 b0 = Some (cell v p k x a pl pr)" using 0(2) s(2,6) ne(1) by (auto simp: within_def)
  have dj: "(L0 \<union> L1) \<inter> (R0 \<union> R1) = {}" "b0 \<notin> (L0 \<union> L1) \<union> (R0 \<union> R1)" using 0(5,6) s(5) ne by auto
  let ?f = "\<lambda>H. do { p \<leftarrow> lch_at H b0; (H, s) \<leftarrow> merge_at order H p tl; Some (set_lch H b0 s, ()) }"
  let ?g = "\<lambda>H. do { p \<leftarrow> rch_at H b0; (H, s) \<leftarrow> merge_at order H p tr; Some (set_rch H b0 s, ()) }"
  have "\<exists>H2 P Q D E. par_heap (order H1) ?f ?g H1 = Some (H2, (), ()) \<and> within (insert b0 ((L0 \<union> L1) \<union> (R0 \<union> R1))) H1 H2 \<and>
    cells H2 b0 = Some (cell v p k x a pl pr\<lparr>n_lch := P, n_rch := Q\<rparr>) \<and> given_back H2 P (merge l (fst (split ?T k))) (L0 \<union> L1) D \<and>
    given_back H2 Q (merge r (snd (split ?T k))) (R0 \<union> R1) E"
    by (rule merge_below [OF ml mr own(1) s(3) own(2) s(4) ne(2,3) dj c]) (simp_all add: lch_at_def rch_at_def)
  then obtain H2 P Q D E where h: "par_heap (order H1) ?f ?g H1 = Some (H2, (), ())" "within (insert b0 ((L0 \<union> L1) \<union> (R0 \<union> R1))) H1 H2"
    "cells H2 b0 = Some (cell v p k x a P Q)" "given_back H2 P (merge l (fst (split ?T k))) (L0 \<union> L1) D"
    "given_back H2 Q (merge r (snd (split ?T k))) (R0 \<union> R1) E" by auto
  have m: "merge (Node v p k x a l r) ?T = Node v p k x a (merge l (fst (split ?T k))) (merge r (snd (split ?T k)))"
    using cmp by (simp add: merge_Node split_beta Let_def del: split.simps)
  have "A \<union> B = insert b0 ((L0 \<union> L1) \<union> (R0 \<union> R1))" using 0(7) s(6) by auto
  then have "given_back H2 (Some b0) (merge (Node v p k x a l r) ?T) (A \<union> B) (insert b0 (D \<union> E))"
    unfolding m using given_back_Node [OF h(4,5) dj(2,1) h(3)] by simp
  moreover have "within (A \<union> B) H H2" by (rule within_trans [OF s(2) h(2)]) (use 0(7) s(6) in auto)
  moreover have "merge_at order H q0 q1 = Some (H2, Some b0)"
    using 0(1,2) 1(1,2) s(1) h(1) cmp by (subst merge_at.simps) (simp add: deref_def)
  ultimately show ?thesis by blast
qed

lemma merge_second_top:
  assumes ml: "merges order (fst (split (Node v p k x a l r) k')) l'"
    and mr: "merges order (snd (split (Node v p k x a l r) k')) r'"
    and o0: "owns H q0 (Node v p k x a l r) A" and o1: "owns H q1 (Node v' p' k' x' a' l' r') B" and AB: "A \<inter> B = {}"
    and cmp: "k \<noteq> k'" "\<not> p > p'"
  shows "\<exists>H' s D. merge_at order H q0 q1 = Some (H', s) \<and> within (A \<union> B) H H' \<and>
    given_back H' s (merge (Node v p k x a l r) (Node v' p' k' x' a' l' r')) (A \<union> B) D"
proof -
  let ?T = "Node v p k x a l r"
  from o1 obtain b1 pl pr L1 R1 where 1: "q1 = Some b1" "cells H b1 = Some (cell v' p' k' x' a' pl pr)"
    "owns H pl l' L1" "owns H pr r' R1" "b1 \<notin> L1 \<union> R1" "L1 \<inter> R1 = {}" "B = insert b1 (L1 \<union> R1)" by (rule owns_NodeE)
  from o0 obtain b0 ql qr where 0: "q0 = Some b0" "cells H b0 = Some (cell v p k x a ql qr)" by (rule owns_NodeE)
  from split_at_ok [OF o0, of k'] obtain H1 tl tr L0 R0 where s: "split_at H q0 k' = Some (H1, tl, tr)" "within A H H1"
    "owns H1 tl (fst (split ?T k')) L0" "owns H1 tr (snd (split ?T k')) R0" "L0 \<inter> R0 = {}" "L0 \<union> R0 = A" by blast
  have ne: "b1 \<notin> L0 \<union> R0" "L0 \<inter> L1 = {}" "R0 \<inter> R1 = {}" "L0 \<inter> R1 = {}" "R0 \<inter> L1 = {}" using AB 1(7) s(6) by auto
  have "L1 \<inter> A = {}" "R1 \<inter> A = {}" using AB 1(7) by auto
  then have own: "owns H1 pl l' L1" "owns H1 pr r' R1" using owns_within [OF _ s(2)] 1(3,4) by blast+
  have c: "cells H1 b1 = Some (cell v' p' k' x' a' pl pr)" using 1(2) s(2,6) ne(1) by (auto simp: within_def)
  have dj: "(L0 \<union> L1) \<inter> (R0 \<union> R1) = {}" "b1 \<notin> (L0 \<union> L1) \<union> (R0 \<union> R1)" using 1(5,6) s(5) ne by auto
  let ?f = "\<lambda>H. do { q \<leftarrow> lch_at H b1; (H, s) \<leftarrow> merge_at order H tl q; Some (set_lch H b1 s, ()) }"
  let ?g = "\<lambda>H. do { q \<leftarrow> rch_at H b1; (H, s) \<leftarrow> merge_at order H tr q; Some (set_rch H b1 s, ()) }"
  have "\<exists>H2 P Q D E. par_heap (order H1) ?f ?g H1 = Some (H2, (), ()) \<and> within (insert b1 ((L0 \<union> L1) \<union> (R0 \<union> R1))) H1 H2 \<and>
    cells H2 b1 = Some (cell v' p' k' x' a' pl pr\<lparr>n_lch := P, n_rch := Q\<rparr>) \<and> given_back H2 P (merge (fst (split ?T k')) l') (L0 \<union> L1) D \<and>
    given_back H2 Q (merge (snd (split ?T k')) r') (R0 \<union> R1) E"
    by (rule merge_below [OF ml mr s(3) own(1) s(4) own(2) ne(2,3) dj c]) (simp_all add: lch_at_def rch_at_def)
  then obtain H2 P Q D E where h: "par_heap (order H1) ?f ?g H1 = Some (H2, (), ())" "within (insert b1 ((L0 \<union> L1) \<union> (R0 \<union> R1))) H1 H2"
    "cells H2 b1 = Some (cell v' p' k' x' a' P Q)" "given_back H2 P (merge (fst (split ?T k')) l') (L0 \<union> L1) D"
    "given_back H2 Q (merge (snd (split ?T k')) r') (R0 \<union> R1) E" by auto
  have m: "merge ?T (Node v' p' k' x' a' l' r') = Node v' p' k' x' a' (merge (fst (split ?T k')) l') (merge (snd (split ?T k')) r')"
    using cmp by (simp add: merge_Node split_beta Let_def del: split.simps)
  have "A \<union> B = insert b1 ((L0 \<union> L1) \<union> (R0 \<union> R1))" using 1(7) s(6) by auto
  then have "given_back H2 (Some b1) (merge ?T (Node v' p' k' x' a' l' r')) (A \<union> B) (insert b1 (D \<union> E))"
    unfolding m using given_back_Node [OF h(4,5) dj(2,1) h(3)] by simp
  moreover have "within (A \<union> B) H H2" by (rule within_trans [OF s(2) h(2)]) (use 1(7) s(6) in auto)
  moreover have "merge_at order H q0 q1 = Some (H2, Some b1)"
    using 0(1,2) 1(1,2) s(1) h(1) cmp by (subst merge_at.simps) (simp add: deref_def)
  ultimately show ?thesis by blast
qed

lemma merge_at_ok: "merges order T0 T1"
proof (induction "nodes T0 + nodes T1" arbitrary: T0 T1 rule: less_induct)
  case less
  show ?case
  proof (cases T0)
    case Null
    then show ?thesis by (auto simp: merges_def merge_at.simps given_back_def)
  next
    case T0: (Node v p k x a l r)
    show ?thesis
    proof (cases T1)
      case Null
      have "merge_at order H p None = Some (H, p)" for H p by (cases p) (simp_all add: merge_at.simps)
      then show ?thesis using T0 Null by (auto simp: merges_def given_back_def simp del: owns.simps(2) intro!: exI)
    next
      case T1: (Node v' p' k' x' a' l' r')
      note sz = nodes_split_fst [of T1 k] nodes_split_snd [of T1 k] nodes_split_fst [of T0 k'] nodes_split_snd [of T0 k']
      consider "k = k'" | "k \<noteq> k'" "p > p'" | "k \<noteq> k'" "\<not> p > p'" by blast
      then show ?thesis
      proof cases
        case 1
        have "merges order l l'" "merges order r r'" by (rule less; simp add: T0 T1)+
        from merge_same_key [OF this] 1 show ?thesis unfolding merges_def T0 T1 by (simp add: merge_Node del: owns.simps)
      next
        case 2
        have "merges order l (fst (split T1 k))" "merges order r (snd (split T1 k))"
          by (rule less; use sz in \<open>simp add: T0 T1 del: split.simps\<close>)+
        from merge_first_top [OF this [unfolded T1] _ _ _ 2] show ?thesis unfolding merges_def T0 T1 by blast
      next
        case 3
        have "merges order (fst (split T0 k')) l'" "merges order (snd (split T0 k')) r'"
          by (rule less; use sz in \<open>simp add: T0 T1 del: split.simps\<close>)+
        from merge_second_top [OF this [unfolded T0] _ _ _ 3] show ?thesis unfolding merges_def T0 T1 by blast
      qed
    qed
  qed
qed

section \<open>Building\<close>

text \<open>A branch that allocates leaves old addresses alone; of the addresses it allocated, those of its tree hold nodes.\<close>

definition allocates :: "heap \<Rightarrow> heap \<Rightarrow> ptr \<Rightarrow> tree \<Rightarrow> bool" where
  "allocates H H' p T \<longleftrightarrow> brk H \<le> brk H' \<and> (\<forall>b < brk H. cells H' b = cells H b) \<and>
     (\<exists>A \<subseteq> {brk H..<brk H'}. owns H' p T A \<and> (\<forall>b \<ge> brk H. b \<notin> A \<longrightarrow> cells H' b = None))"

lemma par_allocates:
  assumes fresh: "\<forall>b \<ge> brk H. cells H b = None"
    and f: "\<And>H1. \<forall>b \<ge> brk H1. cells H1 b = None \<Longrightarrow> \<exists>H2 p. f H1 = Some (H2, p) \<and> allocates H1 H2 p S"
    and g: "\<And>H1. \<forall>b \<ge> brk H1. cells H1 b = None \<Longrightarrow> \<exists>H2 p. g H1 = Some (H2, p) \<and> allocates H1 H2 p T"
  shows "\<exists>H' p q A B. par_heap first f g H = Some (H', p, q) \<and> owns H' p S A \<and> owns H' q T B \<and> A \<inter> B = {} \<and>
    A \<union> B \<subseteq> {brk H..<brk H'} \<and> brk H \<le> brk H' \<and> (\<forall>b < brk H. cells H' b = cells H b) \<and> (\<forall>b \<ge> brk H. b \<notin> A \<union> B \<longrightarrow> cells H' b = None)"
proof -
  have two: "\<exists>H1 H2 p q A B. f H = Some (H1, p) \<and> g H1 = Some (H2, q) \<and> owns H2 p S A \<and> owns H2 q T B \<and> A \<inter> B = {} \<and>
    A \<union> B \<subseteq> {brk H..<brk H2} \<and> brk H \<le> brk H2 \<and> (\<forall>b < brk H. cells H2 b = cells H b) \<and> (\<forall>b \<ge> brk H. b \<notin> A \<union> B \<longrightarrow> cells H2 b = None)"
    if f: "\<And>H1. \<forall>b \<ge> brk H1. cells H1 b = None \<Longrightarrow> \<exists>H2 p. f H1 = Some (H2, p) \<and> allocates H1 H2 p S"
      and g: "\<And>H1. \<forall>b \<ge> brk H1. cells H1 b = None \<Longrightarrow> \<exists>H2 p. g H1 = Some (H2, p) \<and> allocates H1 H2 p T"
    for f g :: "heap \<Rightarrow> (heap \<times> ptr) option" and S T
  proof -
    from f [OF fresh] obtain H1 p A where 1: "f H = Some (H1, p)" "brk H \<le> brk H1" "\<forall>b < brk H. cells H1 b = cells H b"
      "A \<subseteq> {brk H..<brk H1}" "owns H1 p S A" "\<forall>b \<ge> brk H. b \<notin> A \<longrightarrow> cells H1 b = None" unfolding allocates_def by blast
    have "\<forall>b \<ge> brk H1. cells H1 b = None"
    proof (intro allI impI)
      fix b assume "brk H1 \<le> b"
      then have "brk H \<le> b" "b \<notin> A" using 1(2,4) by auto
      then show "cells H1 b = None" using 1(6) by blast
    qed
    from g [OF this] obtain H2 q B where 2: "g H1 = Some (H2, q)" "brk H1 \<le> brk H2" "\<forall>b < brk H1. cells H2 b = cells H1 b"
      "B \<subseteq> {brk H1..<brk H2}" "owns H2 q T B" "\<forall>b \<ge> brk H1. b \<notin> B \<longrightarrow> cells H2 b = None" unfolding allocates_def by blast
    have "owns H2 p S A" by (rule owns_cong [OF 1(5)]) (use 1(4) 2(3) in auto)
    moreover have "\<forall>b \<ge> brk H. b \<notin> A \<union> B \<longrightarrow> cells H2 b = None" using 1(6) 2(3,6) by (metis UnI1 UnI2 leI)
    moreover have "\<forall>b < brk H. cells H2 b = cells H b" using 1(2,3) 2(3) by (metis less_le_trans)
    moreover have "{brk H..<brk H1} \<inter> {brk H1..<brk H2} = {}" by auto
    then have "A \<inter> B = {}" using 1(4) 2(4) by blast
    moreover have "A \<union> B \<subseteq> {brk H..<brk H2}" "brk H \<le> brk H2"
      using subset_trans [OF 1(4), of "{brk H..<brk H2}"] subset_trans [OF 2(4), of "{brk H..<brk H2}"] 1(2) 2(2) by simp_all
    ultimately show ?thesis using 1(1) 2(1,5) by blast
  qed
  show ?thesis
  proof (cases first)
    case True
    from two [OF f g] obtain H1 H2 p q A B where "f H = Some (H1, p)" "g H1 = Some (H2, q)" "owns H2 p S A" "owns H2 q T B"
      "A \<inter> B = {}" "A \<union> B \<subseteq> {brk H..<brk H2}" "brk H \<le> brk H2" "\<forall>b < brk H. cells H2 b = cells H b"
      "\<forall>b \<ge> brk H. b \<notin> A \<union> B \<longrightarrow> cells H2 b = None" by blast
    then show ?thesis using True
      by (intro exI [of _ H2] exI [of _ p] exI [of _ q] exI [of _ A] exI [of _ B]) (simp add: par_heap_def)
  next
    case False
    from two [OF g f] obtain H1 H2 p q A B where "g H = Some (H1, p)" "f H1 = Some (H2, q)" "owns H2 p T A" "owns H2 q S B"
      "A \<inter> B = {}" "A \<union> B \<subseteq> {brk H..<brk H2}" "brk H \<le> brk H2" "\<forall>b < brk H. cells H2 b = cells H b"
      "\<forall>b \<ge> brk H. b \<notin> A \<union> B \<longrightarrow> cells H2 b = None" by blast
    then show ?thesis using False
      by (intro exI [of _ H2] exI [of _ q] exI [of _ p] exI [of _ B] exI [of _ A]) (simp add: par_heap_def Un_commute Int_commute)
  qed
qed

lemma build_at_ok:
  "\<forall>b \<ge> brk H. cells H b = None \<Longrightarrow> \<exists>H' p. build_at order h H n elems = Some (H', p) \<and> allocates H H' p (build h n elems)"
proof (induction n arbitrary: H elems rule: less_induct)
  case (less n)
  consider "n = 0" | "n = 1" | "n \<ge> 2" by linarith
  then show ?case
  proof cases
    case 1
    then show ?thesis using less.prems by (auto simp: build_at.simps allocates_def intro!: exI [of _ "{}"])
  next
    case 2
    then show ?thesis using less.prems
      by (auto simp: build_at.simps allocates_def new_node_def alloc_def make_node_hash_def make_node_def intro!: exI [of _ "{brk H}"])
  next
    case 3
    let ?f = "\<lambda>H. build_at order h H (n div 2) elems" and ?g = "\<lambda>H. build_at order h H (n - n div 2) (drop (n div 2) elems)"
    let ?S = "build h (n div 2) elems" and ?T = "build h (n - n div 2) (drop (n div 2) elems)"
    have f: "\<And>H1. \<forall>b \<ge> brk H1. cells H1 b = None \<Longrightarrow> \<exists>H2 p. ?f H1 = Some (H2, p) \<and> allocates H1 H2 p ?S"
      by (rule less.IH) (use 3 in auto)
    have g: "\<And>H1. \<forall>b \<ge> brk H1. cells H1 b = None \<Longrightarrow> \<exists>H2 p. ?g H1 = Some (H2, p) \<and> allocates H1 H2 p ?T"
      by (rule less.IH) (use 3 in auto)
    from par_allocates [OF less.prems f g] obtain H1 p q A B where h: "par_heap (order H) ?f ?g H = Some (H1, p, q)"
      "owns H1 p ?S A" "owns H1 q ?T B" "A \<inter> B = {}" "A \<union> B \<subseteq> {brk H..<brk H1}" "brk H \<le> brk H1"
      "\<forall>b < brk H. cells H1 b = cells H b" "\<forall>b \<ge> brk H. b \<notin> A \<union> B \<longrightarrow> cells H1 b = None" by blast
    from mergesD [OF merge_at_ok h(2-4), of order] obtain H' s D where m: "merge_at order H1 p q = Some (H', s)"
      "within (A \<union> B) H1 H'" "given_back H' s (merge ?S ?T) (A \<union> B) D" by blast
    have "build_at order h H n elems = Some (H', s)" using 3 h(1) m(1) by (subst build_at.simps) simp
    moreover have "build h n elems = merge ?S ?T" using 3 by (subst build.simps) (simp add: par_do_def)
    moreover have "allocates H H' s (merge ?S ?T)"
      unfolding allocates_def
    proof (intro conjI exI [of _ D] allI impI)
      show "D \<subseteq> {brk H..<brk H'}" "owns H' s (merge ?S ?T) D" "brk H \<le> brk H'" using m(2,3) h(5,6) by (auto simp: within_def given_back_def)
      show "cells H' b = cells H b" if "b < brk H" for b
      proof -
        have "b \<notin> A \<union> B" using that h(5) by auto
        then show ?thesis using m(2) h(7) that by (simp add: within_def)
      qed
      show "cells H' b = None" if "brk H \<le> b" "b \<notin> D" for b
        using m(2,3) h(8) that by (cases "b \<in> A \<union> B") (auto simp: within_def given_back_def)
    qed
    ultimately show ?thesis by auto
  qed
qed

section \<open>Summing\<close>

lemma augment_parallel_at_ok:
  "owns H p T A \<Longrightarrow> \<exists>H'. augment_parallel_at order H p = Some (H', snd (augment_parallel T)) \<and> within A H H' \<and>
     owns H' p (fst (augment_parallel T)) A"
proof (induction T arbitrary: H p A)
  case Null
  then show ?case by (simp add: augment_parallel_at.simps)
next
  case (Node v pr k x a l r)
  from Node.prems obtain b pl pl' L R where o: "p = Some b" "cells H b = Some (cell v pr k x a pl pl')" "owns H pl l L" "owns H pl' r R"
    "b \<notin> L \<union> R" "L \<inter> R = {}" "A = insert b (L \<union> R)" by (rule owns_NodeE)
  show ?case
  proof (cases "a = aug_uninitialized")
    case False
    then show ?thesis using Node.prems o(1,2) by (subst augment_parallel_at.simps) (auto simp: deref_def)
  next
    case True
    let ?l = "augment_parallel l" and ?r = "augment_parallel r"
    let ?f = "\<lambda>H. do { p \<leftarrow> lch_at H b; augment_parallel_at order H p }"
    let ?g = "\<lambda>H. do { p \<leftarrow> rch_at H b; augment_parallel_at order H p }"
    have f: "\<exists>H2. ?f H1 = Some (H2, snd ?l) \<and> within L H1 H2 \<and> owns H2 pl (fst ?l) L"
      if "owns H1 pl l L" "cells H1 b = cells H b" for H1
      using Node.IH(1) [OF that(1)] that(2) o(2) by (simp add: lch_at_def)
    have g: "\<exists>H2. ?g H1 = Some (H2, snd ?r) \<and> within R H1 H2 \<and> owns H2 pl' (fst ?r) R"
      if "owns H1 pl' r R" "cells H1 b = cells H b" for H1
      using Node.IH(2) [OF that(1)] that(2) o(2) by (simp add: rch_at_def)
    have "\<exists>H2. par_heap (order H) ?f ?g H = Some (H2, snd ?l, snd ?r) \<and> within (L \<union> R) H H2 \<and> owns H2 pl (fst ?l) L \<and> owns H2 pl' (fst ?r) R"
    proof (cases "order H")
      case True
      from f [OF o(3)] obtain H1 where 1: "?f H = Some (H1, snd ?l)" "within L H H1" "owns H1 pl (fst ?l) L" by blast
      have "cells H1 b = cells H b" using 1(2) o(5) by (simp add: within_def)
      from g [OF owns_within [OF o(4) 1(2)] this] o(6) obtain H2 where 2: "?g H1 = Some (H2, snd ?r)" "within R H1 H2" "owns H2 pl' (fst ?r) R" by blast
      have "owns H2 pl (fst ?l) L" by (rule owns_within [OF 1(3) 2(2) o(6)])
      moreover have "within (L \<union> R) H H2" by (rule within_trans [OF 1(2) 2(2)]) simp
      moreover have "par_heap (order H) ?f ?g H = Some (H2, snd ?l, snd ?r)" unfolding par_heap_def using True 1(1) 2(1) by (simp del: bind_assoc)
      ultimately show ?thesis using 2(3) by blast
    next
      case False
      from g [OF o(4)] obtain H1 where 1: "?g H = Some (H1, snd ?r)" "within R H H1" "owns H1 pl' (fst ?r) R" by blast
      have "cells H1 b = cells H b" using 1(2) o(5) by (simp add: within_def)
      from f [OF owns_within [OF o(3) 1(2)] this] o(6) obtain H2 where 2: "?f H1 = Some (H2, snd ?l)" "within L H1 H2" "owns H2 pl (fst ?l) L" by blast
      have "owns H2 pl' (fst ?r) R" by (rule owns_within [OF 1(3) 2(2)]) (use o(6) in auto)
      moreover have "within (L \<union> R) H H2" by (rule within_trans [OF 1(2) 2(2)]) auto
      moreover have "par_heap (order H) ?f ?g H = Some (H2, snd ?l, snd ?r)" unfolding par_heap_def using False 1(1) 2(1) by (simp del: bind_assoc)
      ultimately show ?thesis using 2(3) by blast
    qed
    then obtain H2 where h: "par_heap (order H) ?f ?g H = Some (H2, snd ?l, snd ?r)" "within (L \<union> R) H H2"
      "owns H2 pl (fst ?l) L" "owns H2 pl' (fst ?r) R" by blast
    have c: "cells H2 b = Some (cell v pr k x a pl pl')" using h(2) o(2,5) by (simp add: within_def)
    let ?s = "snd ?l + x + snd ?r"
    let ?H = "set_aug_at H2 b ?s"
    have k: "within {b} H2 ?H" by (simp add: within_def set_aug_at_def)
    have "owns ?H pl (fst ?l) L" "owns ?H pl' (fst ?r) R" using owns_within [OF _ k] h(3,4) o(5) by blast+
    moreover have "cells ?H b = Some (cell v pr k x ?s pl pl')" using c by (simp add: set_aug_at_def)
    ultimately have "owns ?H p (Node v pr k x ?s (fst ?l) (fst ?r)) A" using o(1,5,6,7) by auto
    moreover have "within A H ?H" by (rule within_trans [OF h(2) k]) (use o(7) in auto)
    moreover have "augment_parallel_at order H p = Some (?H, ?s)"
      using True o(1,2) h(1) c by (subst augment_parallel_at.simps) (simp add: deref_def)
    ultimately show ?thesis using True by (simp add: par_do_def Let_def split_beta)
  qed
qed

lemma build_parallel_at_ok:
  assumes "\<forall>b \<ge> brk H. cells H b = None"
  shows "\<exists>H' p. build_parallel_at order h H n elems = Some (H', p) \<and> allocates H H' p (build_parallel h n elems)"
proof -
  from build_at_ok [OF assms, of order h n elems] obtain H1 p A where 1: "build_at order h H n elems = Some (H1, p)"
    "brk H \<le> brk H1" "\<forall>b < brk H. cells H1 b = cells H b" "A \<subseteq> {brk H..<brk H1}" "owns H1 p (build h n elems) A"
    "\<forall>b \<ge> brk H. b \<notin> A \<longrightarrow> cells H1 b = None" unfolding allocates_def by blast
  from augment_parallel_at_ok [OF 1(5), of order] obtain H' where 2: "augment_parallel_at order H1 p = Some (H', snd (augment_parallel (build h n elems)))"
    "within A H1 H'" "owns H' p (build_parallel h n elems) A" unfolding build_parallel_def by blast
  have "cells H' b = cells H b" if "b < brk H" for b
  proof -
    have "b \<notin> A" using that 1(4) by auto
    then show ?thesis using that 1(3) 2(2) by (simp add: within_def)
  qed
  then have "allocates H H' p (build_parallel h n elems)"
    unfolding allocates_def using 1(2,4,6) 2(2,3) by (intro conjI exI [of _ A]) (simp_all add: within_def)
  then show ?thesis using 1(1) 2(1) by (simp add: build_parallel_at_def)
qed

section \<open>Releasing\<close>

lemma release_tree_ok:
  "owns H p T A \<Longrightarrow> release_tree H p = Some (H\<lparr>cells := (\<lambda>b. if b \<in> A then None else cells H b)\<rparr>)"
proof (induction T arbitrary: H p A)
  case Null
  then show ?case by (simp add: release_tree.simps)
next
  case (Node v pr k x a l r)
  from Node.prems obtain b pl pl' L R where o: "p = Some b" "cells H b = Some (cell v pr k x a pl pl')" "owns H pl l L" "owns H pl' r R"
    "b \<notin> L \<union> R" "L \<inter> R = {}" "A = insert b (L \<union> R)" by (rule owns_NodeE)
  let ?H1 = "H\<lparr>cells := (\<lambda>b. if b \<in> L then None else cells H b)\<rparr>"
  have "owns ?H1 pl' r R" by (rule owns_cong [OF o(4)]) (use o(6) in auto)
  from Node.IH(2) [OF this] have 2: "release_tree ?H1 pl' = Some (?H1\<lparr>cells := (\<lambda>b. if b \<in> R then None else cells ?H1 b)\<rparr>)" .
  show ?case
    using o(1,2,5,7) Node.IH(1) [OF o(3)] 2 by (subst release_tree.simps) (auto simp: lch_at_def rch_at_def release_node_def fun_eq_iff)
qed

text \<open>Releasing twice, as two versions that share a node would: the second call reads a node that is gone.\<close>

lemma release_tree_twice:
  assumes "owns H (Some b) T A"
  shows "Option.bind (release_tree H (Some b)) (\<lambda>H. release_tree H (Some b)) = None"
proof -
  have "b \<in> A" using assms by (cases T) auto
  then show ?thesis using release_tree_ok [OF assms] by (simp add: release_tree.simps lch_at_def)
qed

section \<open>What is owned is represented\<close>

lemma owns_labels:
  "owns H p T A \<Longrightarrow> A \<subseteq> {..<brk H} \<Longrightarrow> \<exists>S. frozen H S \<and> points S p T \<and> dom S = A"
proof (induction T arbitrary: p A)
  case Null
  then show ?case by (auto simp: frozen_def intro: exI [of _ Map.empty])
next
  case (Node v pr k x a l r)
  from Node.prems(1) obtain b pl pl' L R where o: "p = Some b" "cells H b = Some (cell v pr k x a pl pl')" "owns H pl l L" "owns H pl' r R"
    "b \<notin> L \<union> R" "L \<inter> R = {}" "A = insert b (L \<union> R)" by (rule owns_NodeE)
  from Node.IH(1) [OF o(3)] Node.prems(2) o(7) obtain S1 where 1: "frozen H S1" "points S1 pl l" "dom S1 = L" by auto
  from Node.IH(2) [OF o(4)] Node.prems(2) o(7) obtain S2 where 2: "frozen H S2" "points S2 pl' r" "dom S2 = R" by auto
  let ?S = "S1 ++ S2"
  have le: "S1 \<subseteq>\<^sub>m ?S" "S2 \<subseteq>\<^sub>m ?S" using 1(3) 2(3) o(6) map_add_comm [of S1 S2] by (simp_all add: map_le_map_add map_le_iff_map_add_commute)
  have fr: "frozen H ?S" unfolding frozen_def
  proof (intro allI impI)
    fix d U assume "?S d = Some U"
    then consider "S1 d = Some U" | "S2 d = Some U" by (auto simp: map_add_Some_iff)
    then show "d < brk H \<and> (\<exists>c. cells H d = Some c \<and> holds c (points ?S) U)"
    proof cases
      case 1
      from frozenD [OF \<open>frozen H S1\<close> this] le(1) show ?thesis by (metis holds_mono points_mono)
    next
      case 2
      from frozenD [OF \<open>frozen H S2\<close> this] le(2) show ?thesis by (metis holds_mono points_mono)
    qed
  qed
  have "?S b = None" using o(5) 1(3) 2(3) by auto
  moreover have "b < brk H" using Node.prems(2) o(7) by auto
  moreover have "holds (cell v pr k x a pl pl') (points ?S) (Node v pr k x a l r)" using points_mono [OF 1(2) le(1)] points_mono [OF 2(2) le(2)] by simp
  ultimately have "frozen (put H b (cell v pr k x a pl pl')) (?S(b \<mapsto> Node v pr k x a l r))" using frozen_label [OF fr] by blast
  moreover have "put H b (cell v pr k x a pl pl') = H" using o(2) by (cases H) (auto simp: put_def fun_upd_idem)
  moreover have "points (?S(b \<mapsto> Node v pr k x a l r)) p (Node v pr k x a l r)" "dom (?S(b \<mapsto> Node v pr k x a l r)) = A"
    using o(1,7) 1(3) 2(3) by (simp_all add: Un_commute)
  ultimately show ?case by metis
qed

lemma allocates_represents: "allocates H H' p T \<Longrightarrow> represents H' p T"
  unfolding allocates_def represents_def using owns_labels by fastforce

end
