(* ===== verification/AES_Hash.thy ===== *)
theory AES_Hash
  imports Prelude
begin

text \<open>
  The priority hash, \<^verbatim>\<open>lib/aes_hash.hpp\<close>. A vector register is its list of sixteen bytes, byte 0
  first (little-endian, as the cast back to an integer reads it). The intrinsic
  \<^verbatim>\<open>_mm_aesenc_si128\<close> is one AES encryption round as the processor manual defines it: ShiftRows,
  SubBytes, MixColumns, then the round key. The source calls the result a perfect hash; the lemmas
  below show that each of the four widths is injective for every choice of the random keys, which
  is what makes two keys of the treap never share a priority.
\<close>

section \<open>One AES round on a vector register\<close>

type_synonym m128i = "u8 list"

definition sbox_table :: "nat list" where
  "sbox_table =
  [0x63, 0x7c, 0x77, 0x7b, 0xf2, 0x6b, 0x6f, 0xc5, 0x30, 0x01, 0x67, 0x2b, 0xfe, 0xd7, 0xab, 0x76,
   0xca, 0x82, 0xc9, 0x7d, 0xfa, 0x59, 0x47, 0xf0, 0xad, 0xd4, 0xa2, 0xaf, 0x9c, 0xa4, 0x72, 0xc0,
   0xb7, 0xfd, 0x93, 0x26, 0x36, 0x3f, 0xf7, 0xcc, 0x34, 0xa5, 0xe5, 0xf1, 0x71, 0xd8, 0x31, 0x15,
   0x04, 0xc7, 0x23, 0xc3, 0x18, 0x96, 0x05, 0x9a, 0x07, 0x12, 0x80, 0xe2, 0xeb, 0x27, 0xb2, 0x75,
   0x09, 0x83, 0x2c, 0x1a, 0x1b, 0x6e, 0x5a, 0xa0, 0x52, 0x3b, 0xd6, 0xb3, 0x29, 0xe3, 0x2f, 0x84,
   0x53, 0xd1, 0x00, 0xed, 0x20, 0xfc, 0xb1, 0x5b, 0x6a, 0xcb, 0xbe, 0x39, 0x4a, 0x4c, 0x58, 0xcf,
   0xd0, 0xef, 0xaa, 0xfb, 0x43, 0x4d, 0x33, 0x85, 0x45, 0xf9, 0x02, 0x7f, 0x50, 0x3c, 0x9f, 0xa8,
   0x51, 0xa3, 0x40, 0x8f, 0x92, 0x9d, 0x38, 0xf5, 0xbc, 0xb6, 0xda, 0x21, 0x10, 0xff, 0xf3, 0xd2,
   0xcd, 0x0c, 0x13, 0xec, 0x5f, 0x97, 0x44, 0x17, 0xc4, 0xa7, 0x7e, 0x3d, 0x64, 0x5d, 0x19, 0x73,
   0x60, 0x81, 0x4f, 0xdc, 0x22, 0x2a, 0x90, 0x88, 0x46, 0xee, 0xb8, 0x14, 0xde, 0x5e, 0x0b, 0xdb,
   0xe0, 0x32, 0x3a, 0x0a, 0x49, 0x06, 0x24, 0x5c, 0xc2, 0xd3, 0xac, 0x62, 0x91, 0x95, 0xe4, 0x79,
   0xe7, 0xc8, 0x37, 0x6d, 0x8d, 0xd5, 0x4e, 0xa9, 0x6c, 0x56, 0xf4, 0xea, 0x65, 0x7a, 0xae, 0x08,
   0xba, 0x78, 0x25, 0x2e, 0x1c, 0xa6, 0xb4, 0xc6, 0xe8, 0xdd, 0x74, 0x1f, 0x4b, 0xbd, 0x8b, 0x8a,
   0x70, 0x3e, 0xb5, 0x66, 0x48, 0x03, 0xf6, 0x0e, 0x61, 0x35, 0x57, 0xb9, 0x86, 0xc1, 0x1d, 0x9e,
   0xe1, 0xf8, 0x98, 0x11, 0x69, 0xd9, 0x8e, 0x94, 0x9b, 0x1e, 0x87, 0xe9, 0xce, 0x55, 0x28, 0xdf,
   0x8c, 0xa1, 0x89, 0x0d, 0xbf, 0xe6, 0x42, 0x68, 0x41, 0x99, 0x2d, 0x0f, 0xb0, 0x54, 0xbb, 0x16]"

definition sbox :: "u8 \<Rightarrow> u8" where
  "sbox b = of_nat (sbox_table ! unat b)"

definition shift_rows :: "m128i \<Rightarrow> m128i" where
  "shift_rows s = map (\<lambda>i. s ! ((i + 4 * (i mod 4)) mod 16)) [0..<16]"

definition xtime :: "u8 \<Rightarrow> u8" where
  "xtime b = push_bit 1 b XOR (if bit b 7 then 0x1b else 0)"

fun mix_columns :: "m128i \<Rightarrow> m128i" where
  "mix_columns (a # b # c # d # s) =
     (xtime a XOR (xtime b XOR b) XOR c XOR d) #
     (a XOR xtime b XOR (xtime c XOR c) XOR d) #
     (a XOR b XOR xtime c XOR (xtime d XOR d)) #
     ((xtime a XOR a) XOR b XOR c XOR xtime d) # mix_columns s"
| "mix_columns _ = []"

definition mm_aesenc_si128 :: "m128i \<Rightarrow> m128i \<Rightarrow> m128i" where
  "mm_aesenc_si128 a k = map2 (XOR) (mix_columns (map sbox (shift_rows a))) k"

definition mm_set_epi32 :: "u32 \<Rightarrow> u32 \<Rightarrow> u32 \<Rightarrow> u32 \<Rightarrow> m128i" where
  "mm_set_epi32 e3 e2 e1 e0 = le_bytes 4 e0 @ le_bytes 4 e1 @ le_bytes 4 e2 @ le_bytes 4 e3"

definition mm_set1_epi64x :: "u64 \<Rightarrow> m128i" where
  "mm_set1_epi64x x = concat (replicate 2 (le_bytes 8 x))"

definition mm_set1_epi32 :: "u32 \<Rightarrow> m128i" where
  "mm_set1_epi32 x = concat (replicate 4 (le_bytes 4 x))"

definition mm_set1_epi16 :: "u16 \<Rightarrow> m128i" where
  "mm_set1_epi16 x = concat (replicate 8 (le_bytes 2 x))"

definition mm_set1_epi8 :: "u8 \<Rightarrow> m128i" where
  "mm_set1_epi8 x = replicate 16 x"

section \<open>The hash functions\<close>

text \<open>
  \<^verbatim>\<open>aes_keygen\<close> packs four draws of a seeded Mersenne twister; the draws are inputs here. A key is
  built once per process (a function-local static) and then passed to every call.
\<close>

definition aes_keygen :: "u32 \<times> u32 \<times> u32 \<times> u32 \<Rightarrow> m128i" where
  "aes_keygen r = (case r of (r3, r2, r1, r0) \<Rightarrow> mm_set_epi32 r3 r2 r1 r0)"

definition hash64 :: "u32 \<times> u32 \<times> u32 \<times> u32 \<Rightarrow> u32 \<times> u32 \<times> u32 \<times> u32 \<Rightarrow> u64 \<Rightarrow> u64" where
  "hash64 seed seed64 x =
     (let key = aes_keygen seed; key64 = aes_keygen seed64;
          r = mm_set1_epi64x x;
          r = mm_aesenc_si128 r key;
          r = mm_aesenc_si128 r key64
      in of_le_bytes (take 8 r))"

definition hash32 :: "u32 \<times> u32 \<times> u32 \<times> u32 \<Rightarrow> u32 \<Rightarrow> u32" where
  "hash32 seed x =
     (let r = mm_aesenc_si128 (mm_set1_epi32 x) (aes_keygen seed) in of_le_bytes (take 4 r))"

definition hash16 :: "u32 \<times> u32 \<times> u32 \<times> u32 \<Rightarrow> u16 \<Rightarrow> u16" where
  "hash16 seed x =
     (let r = mm_aesenc_si128 (mm_set1_epi16 x) (aes_keygen seed) in of_le_bytes (take 2 r))"

definition hash8 :: "u32 \<times> u32 \<times> u32 \<times> u32 \<Rightarrow> u8 \<Rightarrow> u8" where
  "hash8 seed x =
     (let r = mm_aesenc_si128 (mm_set1_epi8 x) (aes_keygen seed) in of_le_bytes (take 1 r))"

section \<open>The S-box is a permutation\<close>

lemma length_sbox_table: "length sbox_table = 256"
  by (simp add: sbox_table_def)

lemma distinct_sbox_table: "distinct sbox_table"
  by (simp add: sbox_table_def)

lemma sbox_table_bound: "\<forall>v \<in> set sbox_table. v < 256"
  by (simp add: sbox_table_def)

lemma sbox_inject [simp]: "sbox a = sbox b \<longleftrightarrow> a = b"
proof
  assume "sbox a = sbox b"
  moreover have idx: "unat x < length sbox_table" for x :: u8
    using unsigned_less [of x, where ?'a = nat] by (simp add: length_sbox_table)
  moreover have "sbox_table ! unat x < 256" for x :: u8
    using sbox_table_bound idx nth_mem by blast
  ultimately have "sbox_table ! unat a = sbox_table ! unat b"
    by (simp add: sbox_def word_of_nat_eq_iff take_bit_eq_mod)
  then have "unat a = unat b"
    using distinct_sbox_table idx by (simp add: nth_eq_iff_index_eq)
  then show "a = b" by (simp add: word_unat_eq_iff)
qed simp

section \<open>MixColumns is injective\<close>

lemma xtime_xor: "xtime (a XOR b) = xtime a XOR xtime b"
  by (rule bit_word_eqI) (auto simp: xtime_def bit_simps)

text \<open>
  Four applications of MixColumns to a column are the identity; the proof needs only that
  \<^verbatim>\<open>xtime\<close> distributes over exclusive or.
\<close>

lemma xor_cancel: "a XOR (a XOR b) = (b :: u8)" "a XOR a = (0 :: u8)"
  by (simp_all add: xor.assoc [symmetric])

lemma mix_columns_4: "mix_columns (mix_columns (mix_columns (mix_columns [a, b, c, d]))) = [a, b, c, d]"
  by (simp add: xtime_xor xor.assoc xor.left_commute xor.commute xor_cancel)

lemma mix_column_inject:
  "mix_columns [a, b, c, d] = mix_columns [a', b', c', d'] \<longleftrightarrow> a = a' \<and> b = b' \<and> c = c' \<and> d = d'"
proof
  assume "mix_columns [a, b, c, d] = mix_columns [a', b', c', d']"
  then have "[a, b, c, d] = [a', b', c', d']" by (metis mix_columns_4)
  then show "a = a' \<and> b = b' \<and> c = c' \<and> d = d'" by simp
qed simp

lemma mix_columns_Cons4:
  "mix_columns (a # b # c # d # s) = mix_columns [a, b, c, d] @ mix_columns s"
  by simp

lemma length2_E:
  assumes "length xs = 2"
  obtains a b where "xs = [a, b]"
  using assms by (auto simp: eval_nat_numeral length_Suc_conv)

lemma length4_E:
  assumes "length xs = 4"
  obtains a b c d where "xs = [a, b, c, d]"
  using assms by (auto simp: eval_nat_numeral length_Suc_conv)

lemma mix_column_E:
  obtains p q r s where "mix_columns [a, b, c, d] = [p, q, r, s]"
  by simp

lemma xor_right_inject [simp]: "a XOR k = b XOR k \<longleftrightarrow> a = (b :: u8)"
  by (metis xor.assoc xor_self_eq xor.right_neutral)

lemma xor_left_inject [simp]: "k XOR a = k XOR b \<longleftrightarrow> a = (b :: u8)"
  by (simp add: xor.commute [of k])

lemma xor_common: "(p XOR a) XOR (p XOR b) = a XOR (b :: u8)"
  by (simp add: xor.assoc xor.left_commute xor_cancel)

section \<open>One round on sixteen named bytes\<close>

lemma shift_rows_16:
  "shift_rows [s0, s1, s2, s3, s4, s5, s6, s7, s8, s9, s10, s11, s12, s13, s14, s15] =
     [s0, s5, s10, s15, s4, s9, s14, s3, s8, s13, s2, s7, s12, s1, s6, s11]"
  by (simp add: shift_rows_def upt_rec)

lemma aesenc_round:
  assumes "mix_columns [sbox s0, sbox s5, sbox s10, sbox s15] = [p0, p1, p2, p3]"
    and "mix_columns [sbox s4, sbox s9, sbox s14, sbox s3] = [p4, p5, p6, p7]"
    and "mix_columns [sbox s8, sbox s13, sbox s2, sbox s7] = [p8, p9, p10, p11]"
    and "mix_columns [sbox s12, sbox s1, sbox s6, sbox s11] = [p12, p13, p14, p15]"
  shows "mm_aesenc_si128 [s0, s1, s2, s3, s4, s5, s6, s7, s8, s9, s10, s11, s12, s13, s14, s15]
           [k0, k1, k2, k3, k4, k5, k6, k7, k8, k9, k10, k11, k12, k13, k14, k15] =
         [p0 XOR k0, p1 XOR k1, p2 XOR k2, p3 XOR k3, p4 XOR k4, p5 XOR k5, p6 XOR k6, p7 XOR k7,
          p8 XOR k8, p9 XOR k9, p10 XOR k10, p11 XOR k11, p12 XOR k12, p13 XOR k13, p14 XOR k14,
          p15 XOR k15]"
  by (simp add: mm_aesenc_si128_def shift_rows_16 mix_columns_Cons4 [of _ _ _ _ "_ # _"] assms del: mix_columns.simps(1))

lemma length_mix_columns: "length (mix_columns s) = 4 * (length s div 4)"
proof (induction s rule: mix_columns.induct)
  case (1 a b c d s)
  have "(4 + length s) div 4 = Suc (length s div 4)" by simp
  with 1 show ?case by (simp del: div_add_self1)
qed simp_all

lemma length_aesenc [simp]:
  "length a = 16 \<Longrightarrow> length k = 16 \<Longrightarrow> length (mm_aesenc_si128 a k) = 16"
  by (simp add: mm_aesenc_si128_def length_mix_columns shift_rows_def)

lemma length_aes_keygen [simp]: "length (aes_keygen r) = 16"
  by (cases r) (simp add: aes_keygen_def mm_set_epi32_def)

lemma length8_E:
  assumes "length xs = 8"
  obtains a b c d e f g h where "xs = [a, b, c, d, e, f, g, h]"
proof -
  obtain a b c d where l: "take 4 xs = [a, b, c, d]"
    by (rule length4_E [of "take 4 xs"]) (simp add: assms)
  obtain e f g h where r: "drop 4 xs = [e, f, g, h]"
    by (rule length4_E [of "drop 4 xs"]) (simp add: assms)
  have "xs = [a, b, c, d] @ [e, f, g, h]"
    unfolding l [symmetric] r [symmetric] by simp
  then show thesis by (intro that) simp
qed

lemma length16_E:
  assumes "length xs = 16"
  obtains k0 k1 k2 k3 k4 k5 k6 k7 k8 k9 k10 k11 k12 k13 k14 k15
  where "xs = [k0, k1, k2, k3, k4, k5, k6, k7, k8, k9, k10, k11, k12, k13, k14, k15]"
proof -
  obtain k0 k1 k2 k3 k4 k5 k6 k7 where l: "take 8 xs = [k0, k1, k2, k3, k4, k5, k6, k7]"
    by (rule length8_E [of "take 8 xs"]) (simp add: assms)
  obtain k8 k9 k10 k11 k12 k13 k14 k15 where r: "drop 8 xs = [k8, k9, k10, k11, k12, k13, k14, k15]"
    by (rule length8_E [of "drop 8 xs"]) (simp add: assms)
  have "xs = [k0, k1, k2, k3, k4, k5, k6, k7] @ [k8, k9, k10, k11, k12, k13, k14, k15]"
    unfolding l [symmetric] r [symmetric] by simp
  then show thesis by (intro that) simp
qed

text \<open>The low half of a round determines the eight bytes of the register it depends on.\<close>

lemma aesenc_take8_inject:
  assumes "length k = 16"
  shows "take 8 (mm_aesenc_si128 [s0, s1, s2, s3, s4, s5, s6, s7, s8, s9, s10, s11, s12, s13, s14, s15] k) =
         take 8 (mm_aesenc_si128 [t0, t1, t2, t3, t4, t5, t6, t7, t8, t9, t10, t11, t12, t13, t14, t15] k) \<longleftrightarrow>
         [s0, s5, s10, s15, s4, s9, s14, s3] = [t0, t5, t10, t15, t4, t9, t14, t3]"
proof -
  obtain k0 k1 k2 k3 k4 k5 k6 k7 k8 k9 k10 k11 k12 k13 k14 k15 where
    k: "k = [k0, k1, k2, k3, k4, k5, k6, k7, k8, k9, k10, k11, k12, k13, k14, k15]"
    using assms by (rule length16_E)
  have round: "take 8 (mm_aesenc_si128 [u0, u1, u2, u3, u4, u5, u6, u7, u8, u9, u10, u11, u12, u13, u14, u15] k) =
      map2 (XOR) (mix_columns [sbox u0, sbox u5, sbox u10, sbox u15]) (take 4 k) @
      map2 (XOR) (mix_columns [sbox u4, sbox u9, sbox u14, sbox u3]) (take 4 (drop 4 k))"
    for u0 u1 u2 u3 u4 u5 u6 u7 u8 u9 u10 u11 u12 u13 u14 u15
    by (simp add: k mm_aesenc_si128_def shift_rows_16)
  obtain p0 p1 p2 p3 where p: "mix_columns [sbox s0, sbox s5, sbox s10, sbox s15] = [p0, p1, p2, p3]"
    by (rule mix_column_E)
  obtain p4 p5 p6 p7 where p': "mix_columns [sbox s4, sbox s9, sbox s14, sbox s3] = [p4, p5, p6, p7]"
    by (rule mix_column_E)
  obtain q0 q1 q2 q3 where q: "mix_columns [sbox t0, sbox t5, sbox t10, sbox t15] = [q0, q1, q2, q3]"
    by (rule mix_column_E)
  obtain q4 q5 q6 q7 where q': "mix_columns [sbox t4, sbox t9, sbox t14, sbox t3] = [q4, q5, q6, q7]"
    by (rule mix_column_E)
  have "[p0, p1, p2, p3] = [q0, q1, q2, q3] \<longleftrightarrow> [s0, s5, s10, s15] = [t0, t5, t10, t15]"
    unfolding p [symmetric] q [symmetric] by (simp only: mix_column_inject sbox_inject list.inject simp_thms)
  moreover have "[p4, p5, p6, p7] = [q4, q5, q6, q7] \<longleftrightarrow> [s4, s9, s14, s3] = [t4, t9, t14, t3]"
    unfolding p' [symmetric] q' [symmetric] by (simp only: mix_column_inject sbox_inject list.inject simp_thms)
  ultimately show ?thesis
    unfolding round p p' q q' by (simp add: k del: mix_columns.simps) blast
qed

section \<open>The hashes are injective\<close>

lemma hash64_inject: "hash64 seed seed64 x = hash64 seed seed64 y \<longleftrightarrow> x = y"
proof
  assume eq: "hash64 seed seed64 x = hash64 seed seed64 y"
  obtain k0 k1 k2 k3 k4 k5 k6 k7 k8 k9 k10 k11 k12 k13 k14 k15 where k:
    "aes_keygen seed = [k0, k1, k2, k3, k4, k5, k6, k7, k8, k9, k10, k11, k12, k13, k14, k15]"
    by (rule length16_E [OF length_aes_keygen])
  obtain x0 x1 x2 x3 x4 x5 x6 x7 where x: "le_bytes 8 x = [x0, x1, x2, x3, x4, x5, x6, x7]"
    by (rule length8_E [OF length_le_bytes])
  obtain y0 y1 y2 y3 y4 y5 y6 y7 where y: "le_bytes 8 y = [y0, y1, y2, y3, y4, y5, y6, y7]"
    by (rule length8_E [OF length_le_bytes])
  obtain p0 p1 p2 p3 where p: "mix_columns [sbox x0, sbox x5, sbox x2, sbox x7] = [p0, p1, p2, p3]"
    by (rule mix_column_E)
  obtain p4 p5 p6 p7 where p': "mix_columns [sbox x4, sbox x1, sbox x6, sbox x3] = [p4, p5, p6, p7]"
    by (rule mix_column_E)
  obtain q0 q1 q2 q3 where q: "mix_columns [sbox y0, sbox y5, sbox y2, sbox y7] = [q0, q1, q2, q3]"
    by (rule mix_column_E)
  obtain q4 q5 q6 q7 where q': "mix_columns [sbox y4, sbox y1, sbox y6, sbox y3] = [q4, q5, q6, q7]"
    by (rule mix_column_E)
  from eq have "[p0, p1, p2, p3, p4, p5, p6, p7] = [q0, q1, q2, q3, q4, q5, q6, q7]"
    by (simp add: hash64_def Let_def of_le_bytes_inject mm_set1_epi64x_def numeral_2_eq_2 x y k
        aesenc_round [OF p p' p p'] aesenc_round [OF q q' q q'] aesenc_take8_inject)
  then have "mix_columns [sbox x0, sbox x5, sbox x2, sbox x7] = mix_columns [sbox y0, sbox y5, sbox y2, sbox y7]"
    and "mix_columns [sbox x4, sbox x1, sbox x6, sbox x3] = mix_columns [sbox y4, sbox y1, sbox y6, sbox y3]"
    by (simp_all add: p p' q q' del: mix_columns.simps)
  then have "le_bytes 8 x = le_bytes 8 y" by (simp only: mix_column_inject sbox_inject x y)
  then show "x = y" by (simp add: le_bytes_inject)
qed simp

text \<open>The narrower hashes are one round on a register of four equal columns.\<close>

lemma aesenc_columns:
  assumes "length k = 16"
  shows "take 4 (mm_aesenc_si128 [a, b, c, d, a, b, c, d, a, b, c, d, a, b, c, d] k) =
    map2 (XOR) (mix_columns [sbox a, sbox b, sbox c, sbox d]) (take 4 k)"
proof -
  obtain k0 k1 k2 k3 k4 k5 k6 k7 k8 k9 k10 k11 k12 k13 k14 k15 where
    k: "k = [k0, k1, k2, k3, k4, k5, k6, k7, k8, k9, k10, k11, k12, k13, k14, k15]"
    using assms by (rule length16_E)
  show ?thesis by (simp add: k mm_aesenc_si128_def shift_rows_16)
qed

lemma set1_columns:
  "le_bytes 4 y = [a, b, c, d] \<Longrightarrow> mm_set1_epi32 y = [a, b, c, d, a, b, c, d, a, b, c, d, a, b, c, d]"
  "le_bytes 2 z = [a, b] \<Longrightarrow> mm_set1_epi16 z = [a, b, a, b, a, b, a, b, a, b, a, b, a, b, a, b]"
  "mm_set1_epi8 a = [a, a, a, a, a, a, a, a, a, a, a, a, a, a, a, a]"
  by (simp_all add: mm_set1_epi32_def mm_set1_epi16_def mm_set1_epi8_def eval_nat_numeral)

lemma keygen4_E:
  obtains k0 k1 k2 k3 where "take 4 (aes_keygen seed) = [k0, k1, k2, k3]"
  by (rule length4_E [of "take 4 (aes_keygen seed)"]) simp_all

lemma hash32_inject: "hash32 seed x = hash32 seed y \<longleftrightarrow> x = y"
proof
  assume eq: "hash32 seed x = hash32 seed y"
  obtain x0 x1 x2 x3 where x: "le_bytes 4 x = [x0, x1, x2, x3]"
    by (rule length4_E [OF length_le_bytes])
  obtain y0 y1 y2 y3 where y: "le_bytes 4 y = [y0, y1, y2, y3]"
    by (rule length4_E [OF length_le_bytes])
  obtain k0 k1 k2 k3 where k: "take 4 (aes_keygen seed) = [k0, k1, k2, k3]" by (rule keygen4_E)
  obtain p0 p1 p2 p3 where p: "mix_columns [sbox x0, sbox x1, sbox x2, sbox x3] = [p0, p1, p2, p3]"
    by (rule mix_column_E)
  obtain q0 q1 q2 q3 where q: "mix_columns [sbox y0, sbox y1, sbox y2, sbox y3] = [q0, q1, q2, q3]"
    by (rule mix_column_E)
  from eq have "[p0, p1, p2, p3] = [q0, q1, q2, q3]"
    by (simp add: hash32_def Let_def of_le_bytes_inject set1_columns(1) [OF x] set1_columns(1) [OF y]
        aesenc_columns p q k del: of_le_bytes.simps mix_columns.simps)
  then have "le_bytes 4 x = le_bytes 4 y"
    unfolding p [symmetric] q [symmetric] by (simp only: mix_column_inject sbox_inject x y)
  then show "x = y" by (simp add: le_bytes_inject)
qed simp

lemma take_2_of_4:
  "take 2 (xs :: 'a list) = take 2 (take 4 xs)" "take (Suc 0) xs = take (Suc 0) (take 4 xs)"
  by simp_all

lemma hash16_inject: "hash16 seed x = hash16 seed y \<longleftrightarrow> x = y"
proof
  assume eq: "hash16 seed x = hash16 seed y"
  obtain x0 x1 where x: "le_bytes 2 x = [x0, x1]"
    by (rule length2_E [OF length_le_bytes])
  obtain y0 y1 where y: "le_bytes 2 y = [y0, y1]"
    by (rule length2_E [OF length_le_bytes])
  obtain k0 k1 k2 k3 where k: "take 4 (aes_keygen seed) = [k0, k1, k2, k3]" by (rule keygen4_E)
  let ?p = "xtime (sbox x0) XOR xtime (sbox x1)" and ?q = "xtime (sbox y0) XOR xtime (sbox y1)"
  from eq have "[?p XOR sbox x0, ?p XOR sbox x1] = [?q XOR sbox y0, ?q XOR sbox y1]"
    by (simp add: hash16_def Let_def of_le_bytes_inject set1_columns(2) [OF x] set1_columns(2) [OF y]
        take_2_of_4(1) [of "mm_aesenc_si128 _ _"] aesenc_columns k xor_cancel
        xor.assoc xor.left_commute xor.commute del: of_le_bytes.simps take_take)
  then have e: "?p XOR sbox x0 = ?q XOR sbox y0" "?p XOR sbox x1 = ?q XOR sbox y1" by simp_all
  have "sbox x0 XOR sbox x1 = sbox y0 XOR sbox y1"
    using xor_common [of ?p "sbox x0" "sbox x1"] xor_common [of ?q "sbox y0" "sbox y1"] unfolding e by simp
  then have "?p = ?q" by (simp flip: xtime_xor)
  with e have "x0 = y0" "x1 = y1" by simp_all
  then show "x = y" using x y by (simp flip: le_bytes_inject [of 2])
qed simp

lemma hash8_inject: "hash8 seed x = hash8 seed y \<longleftrightarrow> x = y"
proof
  assume eq: "hash8 seed x = hash8 seed y"
  obtain k0 k1 k2 k3 where k: "take 4 (aes_keygen seed) = [k0, k1, k2, k3]" by (rule keygen4_E)
  from eq have "[sbox x] = [sbox y]"
    by (simp add: hash8_def Let_def of_le_bytes_inject set1_columns(3)
        take_2_of_4(2) [of "mm_aesenc_si128 _ _"] aesenc_columns k xor_cancel
        xor.assoc xor.left_commute xor.commute del: of_le_bytes.simps take_take)
  then show "x = y" by simp
qed simp

end
