(* ===== verification/Versions.thy ===== *)
theory Versions
  imports AES_Hash Treap_Build
begin

text \<open>
  The contract every backend keeps: version \<open>i\<close> of the store is the initial counter map after the
  first \<open>i\<close> requests, in the order the client issued them. The locale states what a single versioned
  update has to promise and derives the contract for all versions; the treap with the AES priority
  hash is an instance. The request kinds are the scheduler's \<^verbatim>\<open>operation\<close> enumeration
  (\<^verbatim>\<open>lib/treap/scheduler.hpp\<close>).
\<close>

datatype operation = OP_NONE | OP_INSERT | OP_DELETE

type_synonym request = "operation \<times> u64"

lemma request_cases:
  obtains (none) key where "r = (OP_NONE, key)" | (ins) key where "r = (OP_INSERT, key)"
    | (del) key where "r = (OP_DELETE, key)"
  by (metis operation.exhaust prod.collapse)

fun spec_step :: "request \<Rightarrow> (u64 \<rightharpoonup> u64) \<Rightarrow> u64 \<rightharpoonup> u64" where
  "spec_step (OP_NONE, key) m = m"
| "spec_step (OP_INSERT, key) m = bump key m"
| "spec_step (OP_DELETE, key) m = drop_one key m"

definition spec_version :: "(u64 \<rightharpoonup> u64) \<Rightarrow> request list \<Rightarrow> nat \<Rightarrow> u64 \<rightharpoonup> u64" where
  "spec_version m reqs i = fold spec_step (take i reqs) m"

text \<open>Version \<open>i + 1\<close> is made from version \<open>i\<close> by request \<open>i\<close> (counting from zero).\<close>

fun version :: "(nat \<Rightarrow> request \<Rightarrow> 's \<Rightarrow> 's) \<Rightarrow> 's \<Rightarrow> request list \<Rightarrow> nat \<Rightarrow> 's" where
  "version step s reqs 0 = s"
| "version step s reqs (Suc i) = step (Suc i) (reqs ! i) (version step s reqs i)"

locale counter_store =
  fixes step :: "nat \<Rightarrow> request \<Rightarrow> 's \<Rightarrow> 's"
    and view :: "'s \<Rightarrow> u64 \<rightharpoonup> u64"
    and inv :: "'s \<Rightarrow> bool"
  assumes step_inv: "inv s \<Longrightarrow> inv (step ver r s)"
    and step_view: "inv s \<Longrightarrow> view (step ver r s) = spec_step r (view s)"
begin

lemma version_inv: "inv s \<Longrightarrow> inv (version step s reqs i)"
  by (induction i) (auto intro: step_inv)

lemma version_view:
  "inv s \<Longrightarrow> i \<le> length reqs \<Longrightarrow> view (version step s reqs i) = spec_version (view s) reqs i"
proof (induction i)
  case (Suc i)
  then show ?case
    by (simp add: step_view version_inv spec_version_def take_Suc_conv_app_nth)
qed (simp add: spec_version_def)

end

section \<open>The treap as a counter store\<close>

fun tree_step :: "(u64 \<Rightarrow> u64) \<Rightarrow> nat \<Rightarrow> request \<Rightarrow> tree \<Rightarrow> tree" where
  "tree_step h ver (OP_NONE, key) t = t"
| "tree_step h ver (OP_INSERT, key) t = search_insert ver t (h key) key"
| "tree_step h ver (OP_DELETE, key) t = search_delete ver t (h key) key"

lemma inj_hash64: "inj (hash64 seed seed64)"
  by (simp add: inj_def hash64_inject)

interpretation treap_store: counter_store
  "tree_step (hash64 seed seed64)" counts "\<lambda>t. treap (hash64 seed seed64) t \<and> sums_ok t"
  for seed seed64
proof (unfold_locales, goal_cases)
  case (1 s ver r)
  then show ?case
    by (cases r rule: request_cases)
      (auto intro: treap_search_insert treap_search_delete inj_hash64 sums_ok_search_insert sums_ok_search_delete)
next
  case (2 s ver r)
  then show ?case
    by (cases r rule: request_cases)
      (auto simp: counts_search_insert counts_search_delete inj_hash64)
qed

end
