(* ===== verification/Scheduler.thy ===== *)
theory Scheduler
  imports Treap_Heap Versions "HOL-Library.Log_Nat"
begin

text \<open>
  The pipelined scheduler (\<^verbatim>\<open>lib/treap/scheduler.hpp\<close>): its task contexts, the operations on one
  context, and the threads as a step function per thread. A step of a thread runs up to and
  including its next access to an atomic variable; \<open>Wait\<close> is a wait loop whose condition does not
  hold yet (the step is retried, and has no effect until then), \<open>Crash\<close> a null or out-of-bounds access. Task \<open>i\<close>
  has the context \<open>ctxs i\<close>; context 0 holds the initial tree.
\<close>

section \<open>Contexts\<close>

datatype status = ST_RUNNING | ST_DONE
datatype functor_kind = FN_SEARCH | FN_SETREF | FN_CONCAT
datatype direction = DIR_NONE | DIR_LEFT | DIR_RIGHT

definition STAGE_DONE :: nat where
  "STAGE_DONE = 2 ^ 64 - 1"

record ctx =
  c_st :: status
  c_op :: operation
  c_fn :: functor_kind
  c_dir :: direction
  t_cur :: ptr
  t_past :: ptr
  c_ver :: nat
  c_pry :: u64
  c_key :: u64
  t_l :: ptr
  t_r :: ptr
  c_stage :: nat
  c_root :: ptr

definition init_ctx :: ctx where
  "init_ctx = \<lparr>c_st = ST_RUNNING, c_op = OP_NONE, c_fn = FN_SEARCH, c_dir = DIR_NONE, t_cur = None,
     t_past = None, c_ver = 0, c_pry = 0, c_key = 0, t_l = None, t_r = None, c_stage = 0, c_root = None\<rparr>"

definition ctx_done :: "ctx \<Rightarrow> ctx" where
  "ctx_done c = c\<lparr>c_st := ST_DONE, c_stage := STAGE_DONE\<rparr>"

definition is_done :: "ctx \<Rightarrow> bool" where
  "is_done c \<longleftrightarrow> c_stage c = STAGE_DONE"

text \<open>The \<^verbatim>\<open>node_ptr*\<close> argument of \<open>concat_step\<close> and \<open>update_step\<close>: the root of the context or a link.\<close>

datatype target = At_root | At_lch nat | At_rch nat

fun store :: "target \<Rightarrow> ptr \<Rightarrow> heap \<times> ctx \<Rightarrow> heap \<times> ctx" where
  "store At_root p (H, c) = (H, c\<lparr>c_root := p\<rparr>)"
| "store (At_lch b) p (H, c) = (set_lch H b p, c)"
| "store (At_rch b) p (H, c) = (set_rch H b p, c)"

definition complete :: "heap \<times> ctx \<Rightarrow> (heap \<times> ctx) outcome" where
  "complete s = Done (fst s, ctx_done (snd s))"

definition concat_step :: "target \<Rightarrow> heap \<Rightarrow> ctx \<Rightarrow> (heap \<times> ctx) outcome" where
  "concat_step tp H c =
     (if t_l c = None then complete (store tp (t_r c) (H, c))
      else if t_r c = None then complete (store tp (t_l c) (H, c))
      else case (deref H (t_l c), deref H (t_r c)) of
        (Some l, Some r) \<Rightarrow>
          if n_pry l > n_pry r then
            (let (H, t_new) = weak_copy H l (c_ver c); (H, c) = store tp (Some t_new) (H, c)
             in Done (H, c\<lparr>c_dir := DIR_RIGHT\<rparr>))
          else
            (let (H, t_new) = weak_copy H r (c_ver c); (H, c) = store tp (Some t_new) (H, c)
             in Done (H, c\<lparr>c_dir := DIR_LEFT\<rparr>))
      | _ \<Rightarrow> Crash)"

definition update_step :: "nat \<Rightarrow> target \<Rightarrow> heap \<Rightarrow> ctx \<Rightarrow> (heap \<times> ctx) outcome" where
  "update_step num_committed tp H c =
     (if t_past c = None then
        if c_op c = OP_INSERT then
          (let (H, t_new) = new_node H (c_ver c) (c_pry c) (c_key c)
           in complete (store tp (Some t_new) (H, c)))
        else complete (store tp None (H, c))
      else case deref H (t_past c) of None \<Rightarrow> Crash | Some q \<Rightarrow>
        if n_pry q > c_pry c then
          (let (H, t_new) = weak_copy H q (c_ver c); (H, c) = store tp (Some t_new) (H, c)
           in Done (H, c\<lparr>c_dir := (if c_key c < n_key q then DIR_LEFT else DIR_RIGHT)\<rparr>))
        else if n_key q = c_key c then
          if c_op c = OP_INSERT then
            (let (H, t_new) = weak_copy H q (c_ver c); (H, c) = store tp (Some t_new) (H, c)
             in Done (set_val_at H t_new (n_val q + 1), c\<lparr>c_fn := FN_SETREF\<rparr>))
          else if n_val q = 1 then
            if num_committed < n_ver q then Wait
            else concat_step tp H (c\<lparr>t_l := n_lch q, t_r := n_rch q, c_fn := FN_CONCAT\<rparr>)
          else
            (let (H, t_new) = weak_copy H q (c_ver c); (H, c) = store tp (Some t_new) (H, c)
             in Done (set_val_at H t_new (n_val q - 1), c\<lparr>c_fn := FN_SETREF\<rparr>))
        else
          if c_op c = OP_INSERT then
            if num_committed < n_ver q then Wait
            else case process_deploy_at (c_ver c) H (t_past c) (c_pry c) (c_key c) of
                None \<Rightarrow> Crash
              | Some (H, p) \<Rightarrow> complete (store tp p (H, c))
          else complete (store tp (t_past c) (H, c)))"

text \<open>\<open>ctx->t_cur = ctx->t_cur->lch\<close> and its mirror image, at the end of a step.\<close>

definition follow_lch :: "nat \<Rightarrow> heap \<times> ctx \<Rightarrow> (heap \<times> ctx) outcome" where
  "follow_lch b s = (case cells (fst s) b of None \<Rightarrow> Crash
     | Some q \<Rightarrow> Done (fst s, (snd s)\<lparr>t_cur := n_lch q\<rparr>))"

definition follow_rch :: "nat \<Rightarrow> heap \<times> ctx \<Rightarrow> (heap \<times> ctx) outcome" where
  "follow_rch b s = (case cells (fst s) b of None \<Rightarrow> Crash
     | Some q \<Rightarrow> Done (fst s, (snd s)\<lparr>t_cur := n_rch q\<rparr>))"

definition execute_one_step :: "nat \<Rightarrow> heap \<Rightarrow> ctx \<Rightarrow> (heap \<times> ctx) outcome" where
  "execute_one_step num_committed H c =
     (case t_cur c of None \<Rightarrow> Crash | Some b \<Rightarrow>
      case c_fn c of
        FN_SEARCH \<Rightarrow>
          (case deref H (t_past c) of None \<Rightarrow> Crash | Some q \<Rightarrow>
           if c_dir c = DIR_LEFT then
             bind_outcome
               (update_step num_committed (At_lch b) (set_rch H b (n_rch q)) (c\<lparr>t_past := n_lch q\<rparr>))
               (follow_lch b)
           else
             bind_outcome
               (update_step num_committed (At_rch b) (set_lch H b (n_lch q)) (c\<lparr>t_past := n_rch q\<rparr>))
               (follow_rch b))
      | FN_SETREF \<Rightarrow>
          (case deref H (t_past c) of None \<Rightarrow> Crash | Some q \<Rightarrow>
           complete (set_rch (set_lch H b (n_lch q)) b (n_rch q), c))
      | FN_CONCAT \<Rightarrow>
          if c_dir c = DIR_LEFT then
            (case deref H (t_r c) of None \<Rightarrow> Crash | Some q \<Rightarrow>
             bind_outcome (concat_step (At_lch b) (set_rch H b (n_rch q)) (c\<lparr>t_r := n_lch q\<rparr>)) (follow_lch b))
          else
            (case deref H (t_l c) of None \<Rightarrow> Crash | Some q \<Rightarrow>
             bind_outcome (concat_step (At_rch b) (set_lch H b (n_lch q)) (c\<lparr>t_l := n_rch q\<rparr>)) (follow_rch b)))"

text \<open>The recursive operation a worker falls back to, and the link its result goes to.\<close>

definition search_at :: "ctx \<Rightarrow> heap \<Rightarrow> ptr \<Rightarrow> (heap \<times> ptr) option" where
  "search_at c H t =
     (if c_op c = OP_INSERT then search_insert_at (c_ver c) H t (c_pry c) (c_key c)
      else search_delete_at (c_ver c) H t (c_pry c) (c_key c))"

definition finish_with :: "target \<Rightarrow> ctx \<Rightarrow> (heap \<times> ptr) option \<Rightarrow> (heap \<times> ctx) outcome" where
  "finish_with tp c res = (case res of None \<Rightarrow> Crash | Some (H, p) \<Rightarrow> complete (store tp p (H, c)))"

definition execute_to_complete :: "heap \<Rightarrow> ctx \<Rightarrow> (heap \<times> ctx) outcome" where
  "execute_to_complete H c =
     (case t_cur c of None \<Rightarrow> Crash | Some b \<Rightarrow>
      case c_fn c of
        FN_SEARCH \<Rightarrow>
          (case deref H (t_past c) of None \<Rightarrow> Crash | Some q \<Rightarrow>
           if c_dir c = DIR_LEFT then
             (let H = set_rch H b (n_rch q); c = c\<lparr>t_past := n_lch q\<rparr>
              in finish_with (At_lch b) c (search_at c H (t_past c)))
           else
             (let H = set_lch H b (n_lch q); c = c\<lparr>t_past := n_rch q\<rparr>
              in finish_with (At_rch b) c (search_at c H (t_past c))))
      | FN_SETREF \<Rightarrow>
          (case deref H (t_past c) of None \<Rightarrow> Crash | Some q \<Rightarrow>
           complete (set_rch (set_lch H b (n_lch q)) b (n_rch q), c))
      | FN_CONCAT \<Rightarrow>
          if c_dir c = DIR_LEFT then
            (case deref H (t_r c) of None \<Rightarrow> Crash | Some q \<Rightarrow>
             (let H = set_rch H b (n_rch q); c = c\<lparr>t_r := n_lch q\<rparr>
              in finish_with (At_lch b) c (process_concat_at (c_ver c) H (t_l c) (t_r c))))
          else
            (case deref H (t_l c) of None \<Rightarrow> Crash | Some q \<Rightarrow>
             (let H = set_lch H b (n_lch q); c = c\<lparr>t_l := n_rch q\<rparr>
              in finish_with (At_rch b) c (process_concat_at (c_ver c) H (t_l c) (t_r c)))))"

lemmas task_defs = update_step_def concat_step_def complete_def ctx_done_def deref_def new_node_def
  weak_copy_def alloc_def execute_one_step_def execute_to_complete_def finish_with_def search_at_def
  follow_lch_def follow_rch_def set_lch_def set_rch_def set_val_at_def set_aug_at_def init_ctx_def

section \<open>The scheduler and its threads\<close>

record config =
  num_pipes :: nat
  num_workers :: nat
  block_size :: nat
  num_tasks :: nat
  hash_of :: "u64 \<Rightarrow> u64"

definition decide_num_pipes :: "nat \<Rightarrow> nat" where
  "decide_num_pipes num_threads =
     (if num_threads < 16 then num_threads div 2 else ceillog2 (num_threads * num_threads))"

definition decide_num_workers :: "nat \<Rightarrow> nat" where
  "decide_num_workers num_threads =
     (let p = num_threads - decide_num_pipes num_threads in if p > 0 then p else 1)"

datatype master_pc = M_issue | M_push
datatype pipe_pc = P_take | P_wait | P_exec | P_put
datatype boarder_pc = B_take | B_publish
datatype worker_pc = W_fetch | W_submit | W_loop nat | W_depend nat | W_spin nat nat | W_check
  | W_estimate nat | W_publish

record pipe_local =
  p_pos :: nat
  p_pc :: pipe_pc

record boarder_local =
  b_submitted :: nat
  b_pc :: boarder_pc

record worker_local =
  w_task :: nat
  w_cached :: nat
  w_count :: nat
  w_start :: nat
  w_end :: nat
  w_pc :: worker_pc

record collector_local =
  k_committed :: nat
  k_next :: nat

record state =
  heap_of :: heap
  ctxs :: "nat \<Rightarrow> ctx"
  num_issued :: nat
  num_submitted :: nat
  num_fetched :: nat
  num_committed :: nat
  tokens :: "nat \<Rightarrow> u64"
  num_estimated :: "nat \<Rightarrow> nat"
  todo :: "request list"
  master :: master_pc
  pipes :: "nat \<Rightarrow> pipe_local"
  boarder :: boarder_local
  workers :: "nat \<Rightarrow> worker_local"
  collector :: collector_local

text \<open>The constructor: all threads at the start of their functions, the client's calls still to come.\<close>

definition init_worker :: "config \<Rightarrow> nat \<Rightarrow> worker_local" where
  "init_worker C i =
     (let block_start = (i - 1) * block_size C + 1
      in \<lparr>w_task = 0, w_cached = 0, w_count = 0, w_start = block_start,
          w_end = min (block_start + block_size C - 1) (num_tasks C), w_pc = W_fetch\<rparr>)"

definition init_state :: "config \<Rightarrow> heap \<Rightarrow> ptr \<Rightarrow> request list \<Rightarrow> state" where
  "init_state C H t0 reqs =
     \<lparr>heap_of = H, ctxs = (\<lambda>_. init_ctx)(0 := ctx_done (init_ctx\<lparr>c_root := t0\<rparr>)),
      num_issued = 0, num_submitted = 0, num_fetched = 0, num_committed = 0,
      tokens = (\<lambda>_. 0), num_estimated = (\<lambda>_. 0), todo = reqs, master = M_issue,
      pipes = (\<lambda>_. \<lparr>p_pos = 1, p_pc = P_take\<rparr>), boarder = \<lparr>b_submitted = 0, b_pc = B_take\<rparr>,
      workers = init_worker C, collector = \<lparr>k_committed = 0, k_next = 0\<rparr>\<rparr>"

text \<open>An array access \<^verbatim>\<open>ctxs_[i]\<close>: there are \<open>num_tasks + 1\<close> contexts.\<close>

definition at_ctx :: "config \<Rightarrow> state \<Rightarrow> nat \<Rightarrow> (ctx \<Rightarrow> 'a outcome) \<Rightarrow> 'a outcome" where
  "at_ctx C \<sigma> i f = (if i \<le> num_tasks C then f (ctxs \<sigma> i) else Crash)"

definition set_ctx :: "state \<Rightarrow> nat \<Rightarrow> heap \<times> ctx \<Rightarrow> state" where
  "set_ctx \<sigma> i s = \<sigma>\<lparr>heap_of := fst s, ctxs := (ctxs \<sigma>)(i := snd s)\<rparr>"

fun init_context :: "config \<Rightarrow> request \<Rightarrow> state \<Rightarrow> state outcome" where
  "init_context C (opn, elem) \<sigma> =
     (let i = Suc (num_issued \<sigma>); \<sigma>1 = \<sigma>\<lparr>num_issued := i\<rparr> in
      at_ctx C \<sigma>1 (num_issued \<sigma>) (\<lambda>prev. at_ctx C \<sigma>1 i (\<lambda>c.
        let c = c\<lparr>c_op := opn, c_ver := i\<rparr> in
        if opn \<noteq> OP_NONE then
          bind_outcome
            (update_step (num_committed \<sigma>) At_root (heap_of \<sigma>)
               (c\<lparr>c_pry := hash_of C elem, c_key := elem, t_past := c_root prev\<rparr>))
            (\<lambda>(H, c). Done (set_ctx \<sigma>1 i (H, c\<lparr>t_cur := c_root c\<rparr>)))
        else Done (set_ctx \<sigma>1 i (heap_of \<sigma>, ctx_done (c\<lparr>c_root := c_root prev\<rparr>))))))"

definition put_token :: "nat \<Rightarrow> state \<Rightarrow> state" where
  "put_token j \<sigma> = \<sigma>\<lparr>tokens := (tokens \<sigma>)(j := tokens \<sigma> j + 1)\<rparr>"

definition master_step :: "config \<Rightarrow> state \<Rightarrow> state outcome" where
  "master_step C \<sigma> =
     (case master \<sigma> of
        M_issue \<Rightarrow> (case todo \<sigma> of [] \<Rightarrow> Wait
          | r # rs \<Rightarrow> bind_outcome (init_context C r \<sigma>) (\<lambda>\<sigma>. Done (\<sigma>\<lparr>todo := rs, master := M_push\<rparr>)))
      | M_push \<Rightarrow> Done ((put_token 0 \<sigma>)\<lparr>master := M_issue\<rparr>))"

definition set_pipe :: "nat \<Rightarrow> pipe_local \<Rightarrow> state \<Rightarrow> state" where
  "set_pipe j l \<sigma> = \<sigma>\<lparr>pipes := (pipes \<sigma>)(j := l)\<rparr>"

definition pipe_step :: "config \<Rightarrow> nat \<Rightarrow> state \<Rightarrow> state outcome" where
  "pipe_step C j \<sigma> =
     (let l = pipes \<sigma> j in
      case p_pc l of
        P_take \<Rightarrow>
          if p_pos l \<le> num_tasks C then
            (let my_token = tokens \<sigma> (j - 1);
                 \<sigma>1 = \<sigma>\<lparr>tokens := (tokens \<sigma>)(j - 1 := my_token - 1)\<rparr>
             in Done (set_pipe j (l\<lparr>p_pc := (if my_token = 0 then P_wait else P_exec)\<rparr>) \<sigma>1))
          else Wait
      | P_wait \<Rightarrow> if tokens \<sigma> (j - 1) = - 1 then Wait else Done (set_pipe j (l\<lparr>p_pc := P_exec\<rparr>) \<sigma>)
      | P_exec \<Rightarrow>
          at_ctx C \<sigma> (p_pos l) (\<lambda>c.
            if c_st c \<noteq> ST_DONE then
              bind_outcome (execute_one_step (num_committed \<sigma>) (heap_of \<sigma>) c)
                (\<lambda>s. Done (set_pipe j (l\<lparr>p_pc := P_put\<rparr>) (set_ctx \<sigma> (p_pos l) s)))
            else Done (set_pipe j (l\<lparr>p_pc := P_put\<rparr>) \<sigma>))
      | P_put \<Rightarrow> Done (set_pipe j \<lparr>p_pos = Suc (p_pos l), p_pc = P_take\<rparr> (put_token j \<sigma>)))"

definition boarder_step :: "config \<Rightarrow> state \<Rightarrow> state outcome" where
  "boarder_step C \<sigma> =
     (let l = boarder \<sigma> in
      case b_pc l of
        B_take \<Rightarrow>
          if b_submitted l < num_tasks C then
            (let n = tokens \<sigma> (num_pipes C); \<sigma>1 = \<sigma>\<lparr>tokens := (tokens \<sigma>)(num_pipes C := 0)\<rparr>
             in if n > 0
                then Done (\<sigma>1\<lparr>boarder := \<lparr>b_submitted = b_submitted l + unat n, b_pc = B_publish\<rparr>\<rparr>)
                else Wait)
          else Wait
      | B_publish \<Rightarrow> Done (\<sigma>\<lparr>num_submitted := b_submitted l, boarder := l\<lparr>b_pc := B_take\<rparr>\<rparr>))"

definition set_worker :: "nat \<Rightarrow> worker_local \<Rightarrow> state \<Rightarrow> state" where
  "set_worker w l \<sigma> = \<sigma>\<lparr>workers := (workers \<sigma>)(w := l)\<rparr>"

text \<open>\<open>work_update_\<close>: fetching a task, waiting for its submission, and the stages of the task.\<close>

definition work_update_step :: "config \<Rightarrow> nat \<Rightarrow> state \<Rightarrow> state outcome" where
  "work_update_step C w \<sigma> =
     (let l = workers \<sigma> w in
      case w_pc l of
        W_fetch \<Rightarrow>
          (let task = 1 + num_fetched \<sigma>; \<sigma>1 = \<sigma>\<lparr>num_fetched := task\<rparr>
           in Done (set_worker w (l\<lparr>w_task := task, w_pc := (if task > num_tasks C then W_check else W_submit)\<rparr>) \<sigma>1))
      | W_submit \<Rightarrow>
          if w_task l \<le> w_cached l then Done (set_worker w (l\<lparr>w_pc := W_loop 1\<rparr>) \<sigma>)
          else if w_task l \<le> num_submitted \<sigma>
          then Done (set_worker w (l\<lparr>w_cached := num_submitted \<sigma>, w_pc := W_loop 1\<rparr>) \<sigma>)
          else Wait
      | W_loop s \<Rightarrow>
          at_ctx C \<sigma> (w_task l) (\<lambda>c.
            if c_st c = ST_DONE then Done (set_worker w (l\<lparr>w_pc := W_check\<rparr>) \<sigma>)
            else Done (set_worker w (l\<lparr>w_pc := W_depend s\<rparr>)
              (\<sigma>\<lparr>ctxs := (ctxs \<sigma>)(w_task l := c\<lparr>c_stage := s\<rparr>)\<rparr>)))
      | W_depend s \<Rightarrow>
          at_ctx C \<sigma> (w_task l) (\<lambda>c.
            case deref (heap_of \<sigma>) (t_past c) of None \<Rightarrow> Crash | Some q \<Rightarrow>
            if num_committed \<sigma> \<ge> n_ver q then
              bind_outcome (execute_to_complete (heap_of \<sigma>) c)
                (\<lambda>r. Done (set_worker w (l\<lparr>w_pc := W_loop (Suc s)\<rparr>) (set_ctx \<sigma> (w_task l) r)))
            else Done (set_worker w (l\<lparr>w_pc := W_spin s (n_ver q)\<rparr>) \<sigma>))
      | W_spin s vdep \<Rightarrow>
          at_ctx C \<sigma> vdep (\<lambda>d. if c_stage d \<le> s then Wait
            else at_ctx C \<sigma> (w_task l) (\<lambda>c.
              bind_outcome (execute_one_step (num_committed \<sigma>) (heap_of \<sigma>) c)
                (\<lambda>r. Done (set_worker w (l\<lparr>w_pc := W_loop (Suc s)\<rparr>) (set_ctx \<sigma> (w_task l) r)))))
      | _ \<Rightarrow> Wait)"

text \<open>\<open>work_estimate_\<close>, one call of \<open>augment\<close> per step, and the publication of the block.\<close>

definition work_estimate_step :: "config \<Rightarrow> nat \<Rightarrow> state \<Rightarrow> state outcome" where
  "work_estimate_step C w \<sigma> =
     (let l = workers \<sigma> w in
      case w_pc l of
        W_estimate k \<Rightarrow>
          at_ctx C \<sigma> k (\<lambda>c. case augment_at (heap_of \<sigma>) (c_root c) of None \<Rightarrow> Crash
            | Some (H, _) \<Rightarrow> Done (set_worker w (l\<lparr>w_pc := (if w_start l < k then W_estimate (k - 1) else W_publish)\<rparr>)
                (\<sigma>\<lparr>heap_of := H\<rparr>)))
      | W_publish \<Rightarrow>
          (let count = w_count l + 1; block_start = w_start l + num_workers C * block_size C
           in Done (set_worker w (l\<lparr>w_count := count, w_start := block_start,
                w_end := min (block_start + block_size C - 1) (num_tasks C), w_pc := W_fetch\<rparr>)
                (\<sigma>\<lparr>num_estimated := (num_estimated \<sigma>)(w - 1 := count)\<rparr>)))
      | _ \<Rightarrow> Wait)"

definition worker_step :: "config \<Rightarrow> nat \<Rightarrow> state \<Rightarrow> state outcome" where
  "worker_step C w \<sigma> =
     (let l = workers \<sigma> w in
      case w_pc l of
        W_fetch \<Rightarrow> if w_task l \<le> num_tasks C then work_update_step C w \<sigma> else Wait
      | W_check \<Rightarrow>
          Done (set_worker w (l\<lparr>w_pc := (if w_task l \<ge> w_end l
            then if w_start l > w_end l then W_publish else W_estimate (w_end l) else W_fetch)\<rparr>) \<sigma>)
      | W_estimate _ \<Rightarrow> work_estimate_step C w \<sigma>
      | W_publish \<Rightarrow> work_estimate_step C w \<sigma>
      | _ \<Rightarrow> work_update_step C w \<sigma>)"

definition collector_step :: "config \<Rightarrow> state \<Rightarrow> state outcome" where
  "collector_step C \<sigma> =
     (let l = collector \<sigma> in
      if k_committed l < num_tasks C then
        if k_next l < num_tasks C \<and> is_done (ctxs \<sigma> (k_next l + 1))
        then Done (\<sigma>\<lparr>collector := l\<lparr>k_next := k_next l + 1\<rparr>\<rparr>)
        else if k_next l > k_committed l
        then Done (\<sigma>\<lparr>num_committed := k_next l, collector := l\<lparr>k_committed := k_next l\<rparr>\<rparr>)
        else Wait
      else Wait)"

datatype thread = Master | Pipe nat | Boarder | Worker nat | Collector

definition threads :: "config \<Rightarrow> thread set" where
  "threads C = {Master, Boarder, Collector} \<union> Pipe ` {1..num_pipes C} \<union> Worker ` {1..num_workers C}"

fun step :: "config \<Rightarrow> thread \<Rightarrow> state \<Rightarrow> state outcome" where
  "step C Master = master_step C"
| "step C (Pipe j) = pipe_step C j"
| "step C Boarder = boarder_step C"
| "step C (Worker w) = worker_step C w"
| "step C Collector = collector_step C"

inductive reachable :: "config \<Rightarrow> heap \<Rightarrow> ptr \<Rightarrow> request list \<Rightarrow> state \<Rightarrow> bool"
  for C H0 t0 reqs where
  reachable_init: "reachable C H0 t0 reqs (init_state C H0 t0 reqs)"
| reachable_step: "reachable C H0 t0 reqs \<sigma> \<Longrightarrow> tid \<in> threads C \<Longrightarrow> step C tid \<sigma> = Done \<sigma>' \<Longrightarrow>
    reachable C H0 t0 reqs \<sigma>'"

text \<open>A schedule: the threads that take the next steps, each of which must go through.\<close>

fun run :: "config \<Rightarrow> thread list \<Rightarrow> state \<Rightarrow> state outcome" where
  "run C [] \<sigma> = Done \<sigma>"
| "run C (tid # tids) \<sigma> = bind_outcome (step C tid \<sigma>) (run C tids)"

lemma reachable_run:
  "reachable C H0 t0 reqs \<sigma> \<Longrightarrow> set tids \<subseteq> threads C \<Longrightarrow> run C tids \<sigma> = Done \<sigma>' \<Longrightarrow> reachable C H0 t0 reqs \<sigma>'"
  by (induction tids arbitrary: \<sigma>) (auto intro: reachable_step)

text \<open>\<open>get_snapshot\<close>, called by the client's query threads; \<^verbatim>\<open>nullptr\<close> for a version not yet issued.\<close>

definition get_snapshot :: "config \<Rightarrow> nat \<Rightarrow> state \<Rightarrow> ptr outcome" where
  "get_snapshot C ver \<sigma> =
     (if ver > num_issued \<sigma> then Done None
      else if block_size C = 0 \<or> num_workers C = 0 then Crash
      else let block_id = ver div block_size C; block_worker = block_id mod num_workers C;
               block_pos = block_id div num_workers C
           in if num_estimated \<sigma> block_worker \<le> block_pos then Wait
              else at_ctx C \<sigma> ver (\<lambda>c. Done (c_root c)))"

definition last_version :: "state \<Rightarrow> nat" where
  "last_version \<sigma> = num_issued \<sigma>"

text \<open>\<open>process\<close> returns when every thread it joins has left its loop.\<close>

definition joinable :: "config \<Rightarrow> state \<Rightarrow> bool" where
  "joinable C \<sigma> \<longleftrightarrow>
     (\<forall>j \<in> {1..num_pipes C}. p_pc (pipes \<sigma> j) = P_take \<and> p_pos (pipes \<sigma> j) > num_tasks C) \<and>
     b_pc (boarder \<sigma>) = B_take \<and> b_submitted (boarder \<sigma>) \<ge> num_tasks C \<and>
     (\<forall>w \<in> {1..num_workers C}. w_pc (workers \<sigma> w) = W_fetch \<and> w_task (workers \<sigma> w) > num_tasks C) \<and>
     k_committed (collector \<sigma>) \<ge> num_tasks C"

text \<open>What it takes to execute a schedule step by step.\<close>

lemmas step_defs = init_state_def init_worker_def master_step_def pipe_step_def boarder_step_def
  worker_step_def collector_step_def work_update_step_def work_estimate_step_def at_ctx_def
  set_ctx_def set_pipe_def set_worker_def put_token_def is_done_def STAGE_DONE_def Let_def

end
