(* ===== verification/Scheduler_World.thy ===== *)
theory Scheduler_World
  imports Scheduler
begin

text \<open>
  The heap while tasks are in flight. Every address has a label, the tree that will hang below it
  once all tasks are done, and a depth, the length of the path from the root of the version that
  created it. A pending address is the current node of an unfinished task: its links are not written yet.
  An address is settled when nothing below it is pending. The links of a node that is not pending
  lead to the labelled subtrees, and each of them is settled or exactly one level deeper. The
  lemmas follow one step of a task through such a heap.
\<close>

section \<open>Version order inside a tree\<close>

definition top_ver :: "tree \<Rightarrow> nat" where
  "top_ver T = (case T of Null \<Rightarrow> 0 | Node v p k x a l r \<Rightarrow> v)"

primrec mono_ver :: "tree \<Rightarrow> bool" where
  "mono_ver Null = True"
| "mono_ver (Node v p k x a l r) =
     ((\<forall>u \<in> vers l \<union> vers r. u \<le> v) \<and> mono_ver l \<and> mono_ver r)"

lemma top_ver_simps [simp]: "top_ver Null = 0" "top_ver (Node v p k x a l r) = v"
  by (simp_all add: top_ver_def)

lemma mono_ver_top: "mono_ver T \<Longrightarrow> u \<in> vers T \<Longrightarrow> u \<le> top_ver T"
  by (cases T) auto

definition older :: "nat \<Rightarrow> tree \<Rightarrow> bool" where
  "older i T \<longleftrightarrow> mono_ver T \<and> (\<forall>u \<in> vers T. u < i)"

lemma older_Null [simp]: "older i Null"
  by (simp add: older_def)

lemma older_Node: "older i (Node v p k x a l r) \<Longrightarrow> v < i \<and> older i l \<and> older i r"
  by (simp add: older_def)

lemma mono_ver_split_copy:
  "mono_ver t \<Longrightarrow> \<forall>u \<in> vers t. u \<le> ver \<Longrightarrow> split_copy ver t key = (a, b) \<Longrightarrow>
   mono_ver a \<and> mono_ver b"
proof (induction t arbitrary: a b)
  case (Node v p k x u l r)
  show ?case
  proof (cases "key < k")
    case True
    then obtain M where s: "split_copy ver l key = (a, M)" and b: "b = Node ver p k x 0 M r"
      using Node.prems(3) by (auto simp: split_copy_Node split: prod.splits)
    with Node.IH(1) [OF _ _ s] Node.prems vers_split_copy [OF s] show ?thesis by (auto simp: b)
  next
    case False
    then obtain M where s: "split_copy ver r key = (M, b)" and a: "a = Node ver p k x 0 l M"
      using Node.prems(3) by (auto simp: split_copy_Node split: prod.splits)
    with Node.IH(2) [OF _ _ s] Node.prems vers_split_copy [OF s] show ?thesis by (auto simp: a)
  qed
qed auto

lemma mono_ver_process_deploy:
  assumes "mono_ver t" "\<forall>u \<in> vers t. u \<le> ver"
  shows "mono_ver (process_deploy ver t pry key)"
proof -
  obtain a b where s: "split_copy ver t key = (a, b)" by fastforce
  show ?thesis using mono_ver_split_copy [OF assms s] vers_split_copy [OF s] assms(2)
    by (auto simp: process_deploy_Node [OF s])
qed

lemma mono_ver_search_insert:
  "mono_ver t \<Longrightarrow> \<forall>u \<in> vers t. u \<le> ver \<Longrightarrow> mono_ver (search_insert ver t pry key)"
proof (induction t)
  case (Node v p k x a l r)
  then show ?case
    using vers_search_insert [of ver l pry key] vers_search_insert [of ver r pry key]
      mono_ver_process_deploy [OF Node.prems, of pry key]
    by (auto simp: search_insert_Node)
qed simp

lemma mono_ver_process_concat:
  "mono_ver s \<Longrightarrow> mono_ver t \<Longrightarrow> \<forall>u \<in> vers s \<union> vers t. u \<le> ver \<Longrightarrow> mono_ver (process_concat ver s t)"
proof (induction ver s t rule: process_concat.induct)
  case (3 ver v p k x a l r v' p' k' x' a' l' r')
  have "mono_ver (process_concat ver r (Node v' p' k' x' a' l' r'))" if "p > p'"
    using 3(1) [OF refl refl that] 3(3-5) by auto
  moreover have "mono_ver (process_concat ver (Node v p k x a l r) l')" if "\<not> p > p'"
    using 3(2) [OF refl refl that] 3(3-5) by auto
  ultimately show ?case
    using 3(3-5) vers_process_concat [of ver r "Node v' p' k' x' a' l' r'"]
      vers_process_concat [of ver "Node v p k x a l r" l']
    by (fastforce simp: process_concat_Node)
qed auto

lemma mono_ver_search_delete:
  "mono_ver t \<Longrightarrow> \<forall>u \<in> vers t. u \<le> ver \<Longrightarrow> mono_ver (search_delete ver t pry key)"
proof (induction t)
  case (Node v p k x a l r)
  then show ?case
    using vers_search_delete [of ver l pry key] vers_search_delete [of ver r pry key]
      mono_ver_process_concat [of l r ver]
    by (auto simp: search_delete_Node)
qed simp

lemma older_tree_step: "older i t \<Longrightarrow> older (Suc i) (tree_step h i req t)"
  unfolding older_def
  using vers_search_insert [of i t "h (snd req)" "snd req"] vers_search_delete [of i t "h (snd req)" "snd req"]
    mono_ver_search_insert [of t i "h (snd req)" "snd req"] mono_ver_search_delete [of t i "h (snd req)" "snd req"]
  by (cases req rule: request_cases) (fastforce simp: less_Suc_eq)+

section \<open>Settled addresses and coherent heaps\<close>

inductive settled :: "heap \<Rightarrow> nat set \<Rightarrow> ptr \<Rightarrow> bool" for H pend where
  settled_None [intro]: "settled H pend None"
| settled_Some: "b \<notin> pend \<Longrightarrow> cells H b = Some c \<Longrightarrow> settled H pend (n_lch c) \<Longrightarrow>
    settled H pend (n_rch c) \<Longrightarrow> settled H pend (Some b)"

inductive_cases settled_SomeE: "settled H pend (Some b)"

definition near :: "heap \<Rightarrow> nat set \<Rightarrow> (nat \<Rightarrow> nat) \<Rightarrow> nat \<Rightarrow> ptr \<Rightarrow> bool" where
  "near H pend D d p \<longleftrightarrow> settled H pend p \<or> (\<exists>b. p = Some b \<and> D b = d)"

definition link :: "heap \<Rightarrow> nat set \<Rightarrow> (nat \<rightharpoonup> tree) \<Rightarrow> (nat \<Rightarrow> nat) \<Rightarrow> nat \<Rightarrow> ptr \<Rightarrow> tree \<Rightarrow> bool" where
  "link H pend G D d p T \<longleftrightarrow> points G p T \<and> near H pend D d p"

definition world :: "heap \<Rightarrow> nat set \<Rightarrow> (nat \<rightharpoonup> tree) \<Rightarrow> (nat \<Rightarrow> nat) \<Rightarrow> bool" where
  "world H pend G D \<longleftrightarrow> pend \<subseteq> dom G \<and> (\<forall>b T. G b = Some T \<longrightarrow> b < brk H \<and>
     (\<exists>c. cells H b = Some c \<and> holds c (\<lambda>p U. b \<in> pend \<or> link H pend G D (Suc (D b)) p U) T))"

definition evolves :: "heap \<Rightarrow> nat set \<Rightarrow> (nat \<rightharpoonup> tree) \<Rightarrow> (nat \<Rightarrow> nat) \<Rightarrow>
    heap \<Rightarrow> nat set \<Rightarrow> (nat \<rightharpoonup> tree) \<Rightarrow> (nat \<Rightarrow> nat) \<Rightarrow> bool" where
  "evolves H pend G D H' pend' G' D' \<longleftrightarrow> brk H \<le> brk H' \<and> G \<subseteq>\<^sub>m G' \<and> (\<forall>b \<in> dom G. D' b = D b) \<and>
     (\<forall>b \<in> dom G - pend. b \<notin> pend' \<and>
        map_option (n_aug_update (\<lambda>_. 0)) (cells H' b) = map_option (n_aug_update (\<lambda>_. 0)) (cells H b))"

lemma worldD:
  assumes "world H pend G D" "G b = Some T"
  obtains c where "b < brk H" "cells H b = Some c"
    "holds c (\<lambda>p U. b \<in> pend \<or> link H pend G D (Suc (D b)) p U) T"
  using assms unfolding world_def by blast

lemma world_pend: "world H pend G D \<Longrightarrow> b \<in> pend \<Longrightarrow> \<exists>T. G b = Some T"
  by (auto simp: world_def)

lemma world_not_Null: "world H pend G D \<Longrightarrow> G b = Some T \<Longrightarrow> T \<noteq> Null"
  by (erule worldD) auto

lemma world_new: "world H pend G D \<Longrightarrow> brk H \<le> b \<Longrightarrow> G b = None"
  by (metis not_le option.exhaust worldD)

lemma world_points_Null: "world H pend G D \<Longrightarrow> points G p Null \<Longrightarrow> p = None"
  by (cases p) (auto dest: world_not_Null)

lemma world_points_Node:
  assumes "world H pend G D" "points G p (Node v pr k x a l r)"
  obtains b c where "p = Some b" "b < brk H" "cells H b = Some c" "n_ver c = v" "n_pry c = pr" "n_key c = k"
    "n_val c = x" "G b = Some (Node v pr k x a l r)"
    "b \<notin> pend \<longrightarrow> link H pend G D (Suc (D b)) (n_lch c) l \<and> link H pend G D (Suc (D b)) (n_rch c) r"
proof (cases p)
  case (Some b)
  then have b: "G b = Some (Node v pr k x a l r)" using assms(2) by simp
  then show thesis by (rule worldD [OF assms(1)]) (auto intro!: that simp: Some b)
qed (use assms in simp)

text \<open>A node that is not pending leads its children one level down.\<close>

lemma link_children:
  assumes "world H pend G D" "link H pend G D d (Some a) (Node v pr k x u l r)" "a \<notin> pend" "cells H a = Some q"
  shows "link H pend G D (Suc d) (n_lch q) l" "link H pend G D (Suc d) (n_rch q) r"
proof -
  have pts: "points G (Some a) (Node v pr k x u l r)" using assms(2) by (simp add: link_def)
  have ch: "link H pend G D (Suc (D a)) (n_lch q) l \<and> link H pend G D (Suc (D a)) (n_rch q) r"
    using assms(3,4) by (rule_tac world_points_Node [OF assms(1) pts]) auto
  have "link H pend G D (Suc d) (n_lch q) l \<and> link H pend G D (Suc d) (n_rch q) r"
  proof (cases "settled H pend (Some a)")
    case True
    then have "settled H pend (n_lch q) \<and> settled H pend (n_rch q)"
      using assms(4) by (auto elim: settled_SomeE)
    with ch show ?thesis by (simp add: link_def near_def)
  next
    case False
    then have "D a = d" using assms(2) by (simp add: link_def near_def)
    with ch show ?thesis by simp
  qed
  then show "link H pend G D (Suc d) (n_lch q) l" "link H pend G D (Suc d) (n_rch q) r" by auto
qed

lemma settled_children:
  assumes "world H pend G D" "settled H pend (Some a)" "points G (Some a) (Node v pr k x u l r)" "cells H a = Some q"
  shows "settled H pend (n_lch q) \<and> settled H pend (n_rch q) \<and> points G (n_lch q) l \<and> points G (n_rch q) r"
proof -
  have "a \<notin> pend" using assms(2) by (auto elim: settled_SomeE)
  moreover have "link H pend G D (D a) (Some a) (Node v pr k x u l r)" using assms(3) by (simp add: link_def near_def)
  ultimately show ?thesis
    using link_children [OF assms(1) _ _ assms(4)] assms(2,4) by (auto simp: link_def elim: settled_SomeE)
qed

section \<open>Evolution keeps what was settled\<close>

lemma evolves_refl: "evolves H pend G D H pend G D"
  by (simp add: evolves_def)

lemma evolves_trans:
  assumes "evolves H pend G D H1 pend1 G1 D1" "evolves H1 pend1 G1 D1 H2 pend2 G2 D2"
  shows "evolves H pend G D H2 pend2 G2 D2"
proof -
  have sub: "dom G \<subseteq> dom G1" using assms(1) by (auto simp: evolves_def map_le_implies_dom_le)
  have le: "G \<subseteq>\<^sub>m G2" using assms by (auto simp: evolves_def intro: map_le_trans)
  have "b \<in> dom G1 - pend1" if "b \<in> dom G - pend" for b using that assms(1) sub by (auto simp: evolves_def)
  with assms le sub show ?thesis unfolding evolves_def by (metis (no_types, lifting) order_trans subsetD)
qed

lemma evolves_points: "evolves H pend G D H' pend' G' D' \<Longrightarrow> points G p T \<Longrightarrow> points G' p T"
  by (auto simp: evolves_def intro: points_mono)

lemma no_aug_Some:
  assumes "map_option (n_aug_update (\<lambda>_. 0)) m = map_option (n_aug_update (\<lambda>_. 0)) (Some (c::node_t))"
  obtains c' where "m = Some c'" "n_ver c' = n_ver c" "n_pry c' = n_pry c" "n_key c' = n_key c"
    "n_val c' = n_val c" "n_lch c' = n_lch c" "n_rch c' = n_rch c"
  using assms by (auto simp: no_aug_eq)

lemma settled_evolves:
  "settled H pend p \<Longrightarrow> points G p T \<Longrightarrow> world H pend G D \<Longrightarrow> evolves H pend G D H' pend' G' D' \<Longrightarrow>
   settled H' pend' p"
proof (induction arbitrary: T rule: settled.induct)
  case (settled_Some b c)
  have G: "G b = Some T" using settled_Some.prems by simp
  from worldD [OF settled_Some.prems(2) G] settled_Some.hyps(1,2) obtain
    h: "holds c (\<lambda>p U. link H pend G D (Suc (D b)) p U) T" by auto
  then obtain l r where lr: "points G (n_lch c) l" "points G (n_rch c) r"
    by (cases T) (auto simp: link_def)
  have ev: "b \<notin> pend'" "map_option (n_aug_update (\<lambda>_. 0)) (cells H' b) = map_option (n_aug_update (\<lambda>_. 0)) (Some c)"
    using settled_Some.prems(3) G settled_Some.hyps(1,2) unfolding evolves_def by (metis DiffI domI)+
  from no_aug_Some [OF ev(2)] obtain c' where "cells H' b = Some c'" "n_lch c' = n_lch c" "n_rch c' = n_rch c" .
  with settled_Some.IH(1) [OF lr(1) settled_Some.prems(2,3)] settled_Some.IH(2) [OF lr(2) settled_Some.prems(2,3)] ev(1)
  show ?case by (auto intro: settled.settled_Some)
qed auto

lemma link_evolves:
  assumes "link H pend G D d p T" "world H pend G D" "evolves H pend G D H' pend' G' D'"
  shows "link H' pend' G' D' d p T"
proof -
  have "points G p T" using assms(1) by (simp add: link_def)
  moreover have "near H' pend' D' d p"
  proof (cases "settled H pend p")
    case True
    then show ?thesis using settled_evolves [OF True \<open>points G p T\<close> assms(2,3)] by (simp add: near_def)
  next
    case False
    then obtain b where "p = Some b" "D b = d" using assms(1) by (auto simp: link_def near_def)
    moreover have "D' b = D b" using \<open>p = Some b\<close> \<open>points G p T\<close> assms(3) by (auto simp: evolves_def)
    ultimately show ?thesis by (simp add: near_def)
  qed
  ultimately show ?thesis using evolves_points [OF assms(3)] by (simp add: link_def)
qed

text \<open>Whatever is no newer than all pending addresses is settled.\<close>

lemma settled_old:
  "world H pend G D \<Longrightarrow> points G p T \<Longrightarrow> (\<And>u. u \<in> vers T \<Longrightarrow> u \<le> nc) \<Longrightarrow>
   (\<And>b U. b \<in> pend \<Longrightarrow> G b = Some U \<Longrightarrow> nc < top_ver U) \<Longrightarrow> settled H pend p"
proof (induction T arbitrary: p)
  case Null
  then have "p = None" by (auto dest: world_points_Null)
  then show ?case by auto
next
  case (Node v pr k x a l r)
  from Node.prems(2) obtain b c where b: "p = Some b" "cells H b = Some c" "G b = Some (Node v pr k x a l r)"
    and ch: "b \<notin> pend \<longrightarrow> link H pend G D (Suc (D b)) (n_lch c) l \<and> link H pend G D (Suc (D b)) (n_rch c) r"
    by (rule world_points_Node [OF Node.prems(1)])
  have "b \<notin> pend" using Node.prems(3) [of v] Node.prems(4) [OF _ b(3)] by fastforce
  with ch Node.IH [OF Node.prems(1)] Node.prems(3,4) b show ?case
    by (auto simp: link_def intro!: settled.settled_Some)
qed

end
