(* ===== verification/Scheduler_Task.thy ===== *)
theory Scheduler_Task
  imports Scheduler_World
begin

text \<open>
  One step of one task. The lemmas show that a step taken when the past node is not pending goes
  through (or waits for a commit), keeps the heap coherent, and moves the task one level down or
  completes it.
\<close>

section \<open>Elementary changes of a coherent heap\<close>

lemma write_pending:
  assumes "world H pend G D" "b \<in> pend" "cells H b = Some c"
    and H': "cells H' = (cells H)(b \<mapsto> c\<lparr>n_lch := ql, n_rch := qr\<rparr>)" "brk H' = brk H"
  shows "world H' pend G D \<and> evolves H pend G D H' pend G D"
proof
  show ev: "evolves H pend G D H' pend G D" using assms(2) by (auto simp: evolves_def H')
  show "world H' pend G D" unfolding world_def
  proof (intro conjI allI impI)
    show "pend \<subseteq> dom G" using assms(1) by (simp add: world_def)
    fix d T assume d: "G d = Some T"
    from worldD [OF assms(1) d] obtain e where e: "d < brk H" "cells H d = Some e"
      "holds e (\<lambda>p U. d \<in> pend \<or> link H pend G D (Suc (D d)) p U) T" .
    then show "d < brk H'" by (simp add: H')
    have "holds e (\<lambda>p U. d \<in> pend \<or> link H' pend G D (Suc (D d)) p U) T"
      using e(3) link_evolves [OF _ assms(1) ev] by (auto elim: holds_mono)
    then show "\<exists>c. cells H' d = Some c \<and> holds c (\<lambda>p U. d \<in> pend \<or> link H' pend G D (Suc (D d)) p U) T"
      using e assms(2,3) by (cases "d = b"; cases T) (auto simp: H')
  qed
qed

lemma finish_pending:
  assumes "world H pend G D" "b \<in> pend" "cells H b = Some c" "G b = Some (Node v p k x a l r)"
    and links: "link H pend G D (Suc (D b)) ql l" "link H pend G D (Suc (D b)) qr r"
    and H': "cells H' = (cells H)(b \<mapsto> c\<lparr>n_lch := ql, n_rch := qr\<rparr>)" "brk H' = brk H"
  shows "world H' (pend - {b}) G D \<and> evolves H pend G D H' (pend - {b}) G D"
proof
  show ev: "evolves H pend G D H' (pend - {b}) G D" using assms(2) by (auto simp: evolves_def H')
  show "world H' (pend - {b}) G D" unfolding world_def
  proof (intro conjI allI impI)
    show "pend - {b} \<subseteq> dom G" using assms(1) by (auto simp: world_def)
    fix d T assume d: "G d = Some T"
    from worldD [OF assms(1) d] obtain e where e: "d < brk H" "cells H d = Some e"
      "holds e (\<lambda>p U. d \<in> pend \<or> link H pend G D (Suc (D d)) p U) T" .
    then show "d < brk H'" by (simp add: H')
    have "holds e (\<lambda>p U. d \<in> pend \<or> link H' (pend - {b}) G D (Suc (D d)) p U) T"
      using e(3) link_evolves [OF _ assms(1) ev] by (auto elim: holds_mono)
    moreover have "link H' (pend - {b}) G D (Suc (D b)) ql l" "link H' (pend - {b}) G D (Suc (D b)) qr r"
      using links by (auto intro: link_evolves [OF _ assms(1) ev])
    ultimately show "\<exists>c. cells H' d = Some c \<and>
        holds c (\<lambda>p U. d \<in> pend - {b} \<or> link H' (pend - {b}) G D (Suc (D d)) p U) T"
      using e assms(2-4) d by (cases "d = b"; cases T) (auto simp: H')
  qed
qed

lemma new_pending:
  assumes "world H pend G D" "holds c (\<lambda>p U. True) T"
  shows "world (fresh H c) (insert (brk H) pend) (G(brk H \<mapsto> T)) (D(brk H := d)) \<and>
    evolves H pend G D (fresh H c) (insert (brk H) pend) (G(brk H \<mapsto> T)) (D(brk H := d))"
proof
  have new: "G (brk H) = None" by (rule world_new [OF assms(1)]) simp
  then have le: "G \<subseteq>\<^sub>m G(brk H \<mapsto> T)" by (auto simp: map_le_def)
  have lt: "b < brk H" if "G b = Some U" for b U using that by (rule worldD [OF assms(1)])
  show ev: "evolves H pend G D (fresh H c) (insert (brk H) pend) (G(brk H \<mapsto> T)) (D(brk H := d))"
    using le by (auto simp: evolves_def dest: lt)
  show "world (fresh H c) (insert (brk H) pend) (G(brk H \<mapsto> T)) (D(brk H := d))" unfolding world_def
  proof (intro conjI allI impI)
    show "insert (brk H) pend \<subseteq> dom (G(brk H \<mapsto> T))" using assms(1) by (auto simp: world_def)
    fix b U assume b: "(G(brk H \<mapsto> T)) b = Some U"
    show "b < brk (fresh H c)" using b lt by (cases "b = brk H") (auto simp: less_Suc_eq)
    show "\<exists>ca. cells (fresh H c) b = Some ca \<and> holds ca (\<lambda>p Ua. b \<in> insert (brk H) pend \<or>
        link (fresh H c) (insert (brk H) pend) (G(brk H \<mapsto> T)) (D(brk H := d)) (Suc ((D(brk H := d)) b)) p Ua) U"
    proof (cases "b = brk H")
      case True
      then show ?thesis using b assms(2) by (auto elim: holds_mono)
    next
      case False
      then have b': "G b = Some U" using b by simp
      from worldD [OF assms(1) b'] obtain e where e: "cells H b = Some e"
        "holds e (\<lambda>p U. b \<in> pend \<or> link H pend G D (Suc (D b)) p U) U" .
      from e(2) False have "holds e (\<lambda>p Ua. b \<in> insert (brk H) pend \<or>
        link (fresh H c) (insert (brk H) pend) (G(brk H \<mapsto> T)) (D(brk H := d)) (Suc ((D(brk H := d)) b)) p Ua) U"
        using link_evolves [OF _ assms(1) ev] by (auto elim!: holds_mono)
      with e(1) False show ?thesis by auto
    qed
  qed
qed

section \<open>The settled part is a labelled heap\<close>

definition settled_lab :: "heap \<Rightarrow> nat set \<Rightarrow> (nat \<rightharpoonup> tree) \<Rightarrow> nat \<rightharpoonup> tree" where
  "settled_lab H pend G b = (if settled H pend (Some b) then G b else None)"

lemma points_settled: "points (settled_lab H pend G) p T \<longleftrightarrow> points G p T \<and> settled H pend p"
  by (cases p) (auto simp: settled_lab_def)

lemma frozen_settled:
  assumes "world H pend G D"
  shows "frozen H (settled_lab H pend G)"
  unfolding frozen_def
proof (intro allI impI)
  fix b T assume "settled_lab H pend G b = Some T"
  then have s: "settled H pend (Some b)" and G: "G b = Some T" by (auto simp: settled_lab_def split: if_splits)
  from worldD [OF assms G] obtain c where c: "b < brk H" "cells H b = Some c"
    "holds c (\<lambda>p U. b \<in> pend \<or> link H pend G D (Suc (D b)) p U) T" .
  then have "holds c (points (settled_lab H pend G)) T"
    using s by (cases T) (auto simp: points_settled link_def elim: settled_SomeE)
  with c show "b < brk H \<and> (\<exists>c. cells H b = Some c \<and> holds c (points (settled_lab H pend G)) T)" by auto
qed

lemma settled_frozen:
  "frozen H S \<Longrightarrow> points S p T \<Longrightarrow> dom S \<inter> pend = {} \<Longrightarrow> settled H pend p"
proof (induction T arbitrary: p)
  case Null
  then show ?case by (auto dest: frozen_points_Null)
next
  case (Node v pr k x a l r)
  from frozen_points_Node [OF Node.prems(1,2)] obtain b c where
    "p = Some b" "cells H b = Some c" "points S (n_lch c) l" "points S (n_rch c) r"
    "S b = Some (Node v pr k x a l r)" by metis
  with Node.IH [OF Node.prems(1) _ Node.prems(3)] Node.prems(3) show ?case
    by (auto intro!: settled.settled_Some)
qed

text \<open>Operations on settled subtrees extend the world by settled nodes.\<close>

lemma world_grow:
  assumes w: "world H pend G D" and S': "frozen H' S'" "grows H (settled_lab H pend G) H' S'"
  shows "world H' pend (G ++ S') D \<and> evolves H pend G D H' pend (G ++ S') D"
    and "points S' p T \<Longrightarrow> link H' pend (G ++ S') D d p T \<and> settled H' pend p"
    and "\<And>a. a < brk H \<Longrightarrow> cells H' a = cells H a"
proof -
  let ?S = "settled_lab H pend G" and ?G = "G ++ S'"
  have dom: "dom S' = dom ?S \<union> {brk H..<brk H'}" and br: "brk H \<le> brk H'"
    and keep: "\<forall>a < brk H. cells H' a = cells H a" and sub: "?S \<subseteq>\<^sub>m S'" using S'(2) by (simp_all add: grows_def)
  show "\<And>a. a < brk H \<Longrightarrow> cells H' a = cells H a" using keep by simp
  have lt: "b < brk H" if "G b = Some U" for b U using that by (rule worldD [OF w])
  have agree: "S' b = None \<or> S' b = G b" if "b < brk H" for b
  proof (cases "b \<in> dom ?S")
    case True
    then have "S' b = ?S b" using sub by (simp add: map_le_def)
    moreover have "?S b = G b" using True by (auto simp: settled_lab_def split: if_splits)
    ultimately show ?thesis by simp
  next
    case False
    then show ?thesis using that dom by auto
  qed
  have G': "?G b = G b" if "b < brk H" for b
    using agree [OF that] by (auto simp: map_add_def split: option.splits)
  have pend_lt: "b < brk H" if "b \<in> pend" for b using world_pend [OF w that] lt by blast
  have disj: "dom S' \<inter> pend = {}"
    using dom pend_lt by (fastforce simp: settled_lab_def elim: settled_SomeE split: if_splits)
  have le: "G \<subseteq>\<^sub>m ?G" using G' lt by (force simp: map_le_def)
  have leS: "S' \<subseteq>\<^sub>m ?G" by (simp add: map_le_map_add)
  have ev: "evolves H pend G D H' pend ?G D"
    using br le keep lt by (auto simp: evolves_def)
  have pts: "points S' p T \<Longrightarrow> link H' pend ?G D d p T \<and> settled H' pend p" for p T d
    using settled_frozen [OF S'(1) _ disj] points_mono [OF _ leS] by (auto simp: link_def near_def)
  then show "points S' p T \<Longrightarrow> link H' pend ?G D d p T \<and> settled H' pend p" .
  have "world H' pend ?G D" unfolding world_def
  proof (intro conjI allI impI)
    show "pend \<subseteq> dom ?G" using w by (auto simp: world_def)
    fix b T assume b: "?G b = Some T"
    show "b < brk H'" using b lt br frozen_dom [OF S'(1)] by (fastforce simp: map_add_Some_iff)
    show "\<exists>c. cells H' b = Some c \<and> holds c (\<lambda>p U. b \<in> pend \<or> link H' pend ?G D (Suc (D b)) p U) T"
    proof (cases "b < brk H")
      case True
      then have "G b = Some T" using b G' by simp
      from worldD [OF w this] obtain c where c: "cells H b = Some c"
        "holds c (\<lambda>p U. b \<in> pend \<or> link H pend G D (Suc (D b)) p U) T" .
      from c(2) have "holds c (\<lambda>p U. b \<in> pend \<or> link H' pend ?G D (Suc (D b)) p U) T"
        by (rule holds_mono) (use link_evolves [OF _ w ev] in blast)
      with c(1) keep True show ?thesis by auto
    next
      case False
      then have "G b = None" using world_new [OF w] by simp
      with b have "S' b = Some T" by (simp add: map_add_Some_iff)
      from frozenD [OF S'(1) this] obtain c where c: "cells H' b = Some c" "holds c (points S') T" .
      from c(2) have "holds c (\<lambda>p U. b \<in> pend \<or> link H' pend ?G D (Suc (D b)) p U) T"
        by (rule holds_mono) (use pts in blast)
      with c(1) show ?thesis by auto
    qed
  qed
  with ev show "world H' pend ?G D \<and> evolves H pend G D H' pend ?G D" by simp
qed

section \<open>What a task is doing\<close>

text \<open>
  The recursive operation of a task, and the relation between its context and the label of its
  current node: the subtree that is still missing is the result of the operation on the past subtree.
\<close>

definition search_op :: "ctx \<Rightarrow> tree \<Rightarrow> tree" where
  "search_op c T =
     (if c_op c = OP_INSERT then search_insert (c_ver c) T (c_pry c) (c_key c)
      else search_delete (c_ver c) T (c_pry c) (c_key c))"

definition past_ok :: "heap \<Rightarrow> nat set \<Rightarrow> (nat \<rightharpoonup> tree) \<Rightarrow> (nat \<Rightarrow> nat) \<Rightarrow> ctx \<Rightarrow> nat \<Rightarrow> tree \<Rightarrow> bool" where
  "past_ok H pend G D c d T \<longleftrightarrow> T \<noteq> Null \<and> link H pend G D d (t_past c) T \<and> older (c_ver c) T"

definition search_job :: "ctx \<Rightarrow> tree \<Rightarrow> tree \<Rightarrow> bool" where
  "search_job c T R \<longleftrightarrow> (case T of Null \<Rightarrow> False | Node v p k x a l r \<Rightarrow>
     (c_dir c = DIR_LEFT \<and> R = Node (c_ver c) p k x 0 (search_op c l) r) \<or>
     (c_dir c = DIR_RIGHT \<and> R = Node (c_ver c) p k x 0 l (search_op c r)))"

definition setref_job :: "ctx \<Rightarrow> tree \<Rightarrow> tree \<Rightarrow> bool" where
  "setref_job c T R \<longleftrightarrow> (case T of Null \<Rightarrow> False | Node v p k x a l r \<Rightarrow>
     (\<exists>x'. R = Node (c_ver c) p k x' 0 l r))"

definition concat_job :: "ctx \<Rightarrow> tree \<Rightarrow> tree \<Rightarrow> tree \<Rightarrow> bool" where
  "concat_job c Tl Tr R \<longleftrightarrow> (case (Tl, Tr) of
     (Node v p k x a l r, Node v' p' k' x' a' l' r') \<Rightarrow>
       (c_dir c = DIR_RIGHT \<and> R = Node (c_ver c) p k x 0 l (process_concat (c_ver c) r Tr)) \<or>
       (c_dir c = DIR_LEFT \<and> R = Node (c_ver c) p' k' x' 0 (process_concat (c_ver c) Tl l') r')
   | _ \<Rightarrow> False)"

definition job :: "heap \<Rightarrow> nat set \<Rightarrow> (nat \<rightharpoonup> tree) \<Rightarrow> (nat \<Rightarrow> nat) \<Rightarrow> ctx \<Rightarrow> nat \<Rightarrow> bool" where
  "job H pend G D c b \<longleftrightarrow> b \<in> pend \<and> c_op c \<noteq> OP_NONE \<and>
     (\<exists>R T. G b = Some R \<and> past_ok H pend G D c (D b) T \<and>
       (case c_fn c of
          FN_SEARCH \<Rightarrow> search_job c T R
        | FN_SETREF \<Rightarrow> setref_job c T R
        | FN_CONCAT \<Rightarrow> settled H pend (t_past c) \<and>
            (\<exists>Tl Tr. points G (t_l c) Tl \<and> settled H pend (t_l c) \<and> points G (t_r c) Tr \<and>
              settled H pend (t_r c) \<and> concat_job c Tl Tr R)))"

lemma job_simps [simp]:
  "search_job c (Node v p k x a l r) R \<longleftrightarrow>
     (c_dir c = DIR_LEFT \<and> R = Node (c_ver c) p k x 0 (search_op c l) r) \<or>
     (c_dir c = DIR_RIGHT \<and> R = Node (c_ver c) p k x 0 l (search_op c r))"
  "setref_job c (Node v p k x a l r) R \<longleftrightarrow> (\<exists>x'. R = Node (c_ver c) p k x' 0 l r)"
  "concat_job c (Node v p k x a l r) (Node v' p' k' x' a' l' r') R \<longleftrightarrow>
     (c_dir c = DIR_RIGHT \<and> R = Node (c_ver c) p k x 0 l (process_concat (c_ver c) r (Node v' p' k' x' a' l' r'))) \<or>
     (c_dir c = DIR_LEFT \<and> R = Node (c_ver c) p' k' x' 0 (process_concat (c_ver c) (Node v p k x a l r) l') r')"
  "\<not> search_job c Null R" "\<not> setref_job c Null R" "\<not> concat_job c Null T R" "\<not> concat_job c T Null R"
  by (auto simp: search_job_def setref_job_def concat_job_def split: tree.splits)

lemma search_op_past [simp]: "search_op (c\<lparr>t_past := p\<rparr>) = search_op c"
  by (simp add: search_op_def fun_eq_iff)

text \<open>Fields a job does not depend on.\<close>

definition same_work :: "ctx \<Rightarrow> ctx \<Rightarrow> bool" where
  "same_work c c' \<longleftrightarrow> c_op c' = c_op c \<and> c_ver c' = c_ver c \<and> c_pry c' = c_pry c \<and> c_key c' = c_key c \<and>
     c_fn c' = c_fn c \<and> c_dir c' = c_dir c \<and> t_past c' = t_past c \<and> t_l c' = t_l c \<and> t_r c' = t_r c"

lemma same_work_kinds:
  assumes "same_work c c'"
  shows "search_op c' = search_op c" "search_job c' = search_job c" "setref_job c' = setref_job c"
    "concat_job c' = concat_job c"
proof -
  have f: "c_op c' = c_op c" "c_ver c' = c_ver c" "c_pry c' = c_pry c" "c_key c' = c_key c" "c_dir c' = c_dir c"
    using assms by (simp_all add: same_work_def)
  show s: "search_op c' = search_op c" by (simp add: search_op_def fun_eq_iff f)
  show "search_job c' = search_job c" unfolding search_job_def fun_eq_iff f s by simp
  show "setref_job c' = setref_job c" unfolding setref_job_def fun_eq_iff f by simp
  show "concat_job c' = concat_job c" unfolding concat_job_def fun_eq_iff f by simp
qed

lemma job_same_work:
  assumes "same_work c c'"
  shows "job H pend G D c' b = job H pend G D c b"
proof -
  have f: "c_op c' = c_op c" "c_fn c' = c_fn c" "c_ver c' = c_ver c" "t_past c' = t_past c" "t_l c' = t_l c" "t_r c' = t_r c"
    using assms by (simp_all add: same_work_def)
  show ?thesis unfolding job_def past_ok_def same_work_kinds [OF assms] f by (rule refl)
qed

lemma job_fields [simp]:
  "job H pend G D (c\<lparr>c_root := p\<rparr>) b = job H pend G D c b"
  "job H pend G D (c\<lparr>t_cur := p\<rparr>) b = job H pend G D c b"
  "job H pend G D (c\<lparr>c_stage := s\<rparr>) b = job H pend G D c b"
  by (rule job_same_work, simp add: same_work_def)+

lemma job_kinds_top:
  "search_job c T R \<Longrightarrow> top_ver R = c_ver c" "setref_job c T R \<Longrightarrow> top_ver R = c_ver c"
  "concat_job c T U R \<Longrightarrow> top_ver R = c_ver c"
  by (cases T; cases U; auto)+

lemma job_top: "job H pend G D c b \<Longrightarrow> \<exists>R. G b = Some R \<and> top_ver R = c_ver c"
  unfolding job_def by (cases "c_fn c") (auto dest: job_kinds_top)

lemma job_past:
  assumes "job H pend G D c b"
  obtains T where "past_ok H pend G D c (D b) T"
  using assms by (auto simp: job_def)

lemma past_ok_evolves:
  "past_ok H pend G D c d T \<Longrightarrow> world H pend G D \<Longrightarrow> evolves H pend G D H' pend' G' D' \<Longrightarrow>
   past_ok H' pend' G' D' c d T"
  by (auto simp: past_ok_def intro: link_evolves)

lemma job_evolves:
  assumes "job H pend G D c b" "world H pend G D" "evolves H pend G D H' pend' G' D'" "b \<in> pend'"
  shows "job H' pend' G' D' c b"
proof -
  obtain R T where R: "G b = Some R" and T: "past_ok H pend G D c (D b) T" and op: "c_op c \<noteq> OP_NONE"
    and k: "case c_fn c of FN_SEARCH \<Rightarrow> search_job c T R | FN_SETREF \<Rightarrow> setref_job c T R
      | FN_CONCAT \<Rightarrow> settled H pend (t_past c) \<and>
          (\<exists>Tl Tr. points G (t_l c) Tl \<and> settled H pend (t_l c) \<and> points G (t_r c) Tr \<and>
            settled H pend (t_r c) \<and> concat_job c Tl Tr R)"
    using assms(1) unfolding job_def by blast
  have R': "G' b = Some R" "D' b = D b" using R assms(3) by (auto simp: evolves_def map_le_def dom_def)
  have T': "past_ok H' pend' G' D' c (D' b) T" using past_ok_evolves [OF T assms(2,3)] R' by simp
  have s: "settled H' pend' p \<and> points G' p U" if "settled H pend p" "points G p U" for p U
    using that settled_evolves [OF _ _ assms(2,3)] evolves_points [OF assms(3)] by blast
  have pt: "points G (t_past c) T" using T by (simp add: past_ok_def link_def)
  have "case c_fn c of FN_SEARCH \<Rightarrow> search_job c T R | FN_SETREF \<Rightarrow> setref_job c T R
      | FN_CONCAT \<Rightarrow> settled H' pend' (t_past c) \<and>
          (\<exists>Tl Tr. points G' (t_l c) Tl \<and> settled H' pend' (t_l c) \<and> points G' (t_r c) Tr \<and>
            settled H' pend' (t_r c) \<and> concat_job c Tl Tr R)"
  proof (cases "c_fn c")
    case FN_CONCAT
    with k obtain Tl Tr where c: "settled H pend (t_past c)" "points G (t_l c) Tl" "settled H pend (t_l c)"
      "points G (t_r c) Tr" "settled H pend (t_r c)" "concat_job c Tl Tr R" by auto
    with FN_CONCAT s [OF c(1) pt] s [OF c(3,2)] s [OF c(5,4)] show ?thesis by auto
  qed (use k in simp_all)
  with assms(4) op R' T' show ?thesis unfolding job_def by blast
qed

section \<open>One call of \<open>concat\<close> and \<open>update\<close>\<close>

definition same_task :: "ctx \<Rightarrow> ctx \<Rightarrow> bool" where
  "same_task c c' \<longleftrightarrow> c_op c' = c_op c \<and> c_ver c' = c_ver c \<and> c_pry c' = c_pry c \<and> c_key c' = c_key c"

definition blank :: "heap \<Rightarrow> nat \<Rightarrow> bool" where
  "blank H b \<longleftrightarrow> (\<exists>c. cells H b = Some c \<and> n_lch c = None \<and> n_rch c = None)"

definition is_finished :: "ctx \<Rightarrow> bool" where
  "is_finished c \<longleftrightarrow> c_st c = ST_DONE \<and> c_stage c = STAGE_DONE"

definition call_done :: "heap \<Rightarrow> nat set \<Rightarrow> (nat \<rightharpoonup> tree) \<Rightarrow> (nat \<Rightarrow> nat) \<Rightarrow> nat \<Rightarrow> tree \<Rightarrow> heap \<Rightarrow> ctx \<Rightarrow> bool" where
  "call_done H pend G D d R H1 c1 \<longleftrightarrow> is_finished c1 \<and>
     (\<exists>G1. world H1 pend G1 D \<and> evolves H pend G D H1 pend G1 D \<and> link H1 pend G1 D d (c_root c1) R)"

definition call_deeper :: "heap \<Rightarrow> nat set \<Rightarrow> (nat \<rightharpoonup> tree) \<Rightarrow> (nat \<Rightarrow> nat) \<Rightarrow> ctx \<Rightarrow> nat \<Rightarrow> tree \<Rightarrow> heap \<Rightarrow> ctx \<Rightarrow> bool" where
  "call_deeper H pend G D c d R H1 c1 \<longleftrightarrow> c_st c1 = c_st c \<and> c_stage c1 = c_stage c \<and> c_root c1 = Some (brk H) \<and>
     blank H1 (brk H) \<and>
     world H1 (insert (brk H) pend) (G(brk H \<mapsto> R)) (D(brk H := d)) \<and>
     evolves H pend G D H1 (insert (brk H) pend) (G(brk H \<mapsto> R)) (D(brk H := d)) \<and>
     job H1 (insert (brk H) pend) (G(brk H \<mapsto> R)) (D(brk H := d)) c1 (brk H)"

definition call_ok :: "heap \<Rightarrow> nat set \<Rightarrow> (nat \<rightharpoonup> tree) \<Rightarrow> (nat \<Rightarrow> nat) \<Rightarrow> ctx \<Rightarrow> nat \<Rightarrow> tree \<Rightarrow>
    (heap \<times> ctx) outcome \<Rightarrow> bool" where
  "call_ok H pend G D c d R res \<longleftrightarrow> (\<exists>H1 c1. res = Done (H1, c1) \<and> same_task c c1 \<and>
     (\<forall>a < brk H. cells H1 a = cells H a) \<and>
     (call_done H pend G D d R H1 c1 \<or> call_deeper H pend G D c d R H1 c1))"

lemma finished_ctx_done [simp]: "is_finished (ctx_done c)"
  by (simp add: is_finished_def ctx_done_def)

lemma ctx_done_simps [simp]:
  "c_op (ctx_done c) = c_op c" "c_ver (ctx_done c) = c_ver c" "c_pry (ctx_done c) = c_pry c"
  "c_key (ctx_done c) = c_key c" "c_root (ctx_done c) = c_root c" "t_cur (ctx_done c) = t_cur c"
  "t_past (ctx_done c) = t_past c" "c_st (ctx_done c) = ST_DONE" "c_stage (ctx_done c) = STAGE_DONE"
  by (simp_all add: ctx_done_def)

lemma call_ok_same:
  assumes "world H pend G D" "link H pend G D d q R" "is_finished c1" "c_root c1 = q" "same_task c c1"
  shows "call_ok H pend G D c d R (Done (H, c1))"
  using assms by (auto simp: call_ok_def call_done_def intro: evolves_refl)

text \<open>An operation on a settled subtree, whose result becomes the link.\<close>

lemma returns_call_done:
  assumes "world H pend G D" "returns H (settled_lab H pend G) res R"
  obtains H1 q where "res = Some (H1, q)" "\<And>a. a < brk H \<Longrightarrow> cells H1 a = cells H a"
    "\<And>c1. is_finished c1 \<Longrightarrow> c_root c1 = q \<Longrightarrow> call_done H pend G D d R H1 c1"
proof -
  from assms(2) obtain H1 S1 q where r: "res = Some (H1, q)" "frozen H1 S1"
    "grows H (settled_lab H pend G) H1 S1" "points S1 q R" by (rule returns_E)
  note g = world_grow [OF assms(1) r(2,3)]
  show thesis by (rule that [OF r(1) g(3)]) (use g(1) g(2) [OF r(4)] in \<open>auto simp: call_done_def\<close>)
qed

lemma call_ok_returns:
  assumes "world H pend G D" "returns H (settled_lab H pend G) res R" "same_task c c1"
  shows "\<exists>H1 q. res = Some (H1, q) \<and> call_ok H pend G D c d R (Done (H1, ctx_done (c1\<lparr>c_root := q\<rparr>)))"
proof -
  obtain H1 q where r: "res = Some (H1, q)" "\<And>a. a < brk H \<Longrightarrow> cells H1 a = cells H a"
    "\<And>c1. is_finished c1 \<Longrightarrow> c_root c1 = q \<Longrightarrow> call_done H pend G D d R H1 c1"
    using returns_call_done [OF assms(1,2)] by metis
  then show ?thesis using assms(3) by (auto simp: call_ok_def same_task_def)
qed

text \<open>A fresh current node.\<close>

lemma call_ok_deeper:
  assumes w: "world H pend G D" and c1: "same_task c c1" "c_st c1 = c_st c" "c_stage c1 = c_stage c"
      "c_root c1 = Some (brk H)"
    and n: "holds n (\<lambda>p U. True) R" "n_lch n = None" "n_rch n = None"
    and j: "\<And>H1 G1 D1 pend1. world H1 pend1 G1 D1 \<Longrightarrow> evolves H pend G D H1 pend1 G1 D1 \<Longrightarrow>
      brk H \<in> pend1 \<Longrightarrow> G1 (brk H) = Some R \<Longrightarrow> D1 (brk H) = d \<Longrightarrow> job H1 pend1 G1 D1 c1 (brk H)"
  shows "call_ok H pend G D c d R (Done (fresh H n, c1))"
proof -
  note np = new_pending [OF w n(1), of d]
  have "call_deeper H pend G D c d R (fresh H n) c1"
    unfolding call_deeper_def using np j [of "fresh H n" "insert (brk H) pend"] c1 n(2,3) by (auto simp: blank_def)
  with c1(1) show ?thesis by (auto simp: call_ok_def)
qed

lemma concat_step_ok:
  assumes w: "world H pend G D" and c: "c_fn c = FN_CONCAT" "c_op c \<noteq> OP_NONE"
    and p: "past_ok H pend G D c d0 Tp" "settled H pend (t_past c)"
    and l: "points G (t_l c) Tl" "settled H pend (t_l c)" and r: "points G (t_r c) Tr" "settled H pend (t_r c)"
  shows "call_ok H pend G D c d (process_concat (c_ver c) Tl Tr) (concat_step At_root H c)"
proof (cases "Tl = Null \<or> Tr = Null")
  case True
  then consider "Tl = Null" | "Tl \<noteq> Null" "Tr = Null" by blast
  then show ?thesis
  proof cases
    case 1
    then have "t_l c = None" using l(1) world_points_Null [OF w] by simp
    moreover have "link H pend G D d (t_r c) Tr" using r by (simp add: link_def near_def)
    ultimately show ?thesis using 1
      by (auto simp: concat_step_def complete_def same_task_def intro!: call_ok_same [OF w])
  next
    case 2
    then have "t_r c = None" using r(1) world_points_Null [OF w] by simp
    moreover have "t_l c \<noteq> None" using 2 l(1) by (cases "t_l c") auto
    moreover have "link H pend G D d (t_l c) Tl" using l by (simp add: link_def near_def)
    moreover have "process_concat (c_ver c) Tl Tr = Tl" using 2 by (cases Tl) simp_all
    ultimately show ?thesis
      by (auto simp: concat_step_def complete_def same_task_def intro!: call_ok_same [OF w])
  qed
next
  case False
  then obtain v pr k x a tl tr v' pr' k' x' a' tl' tr' where T: "Tl = Node v pr k x a tl tr" "Tr = Node v' pr' k' x' a' tl' tr'"
    by (cases Tl; cases Tr) auto
  from world_points_Node [OF w l(1) [unfolded T(1)]] obtain e q where
    e: "t_l c = Some e" "cells H e = Some q" "n_pry q = pr" "n_key q = k" "n_val q = x" by metis
  from world_points_Node [OF w r(1) [unfolded T(2)]] obtain e' q' where
    e': "t_r c = Some e'" "cells H e' = Some q'" "n_pry q' = pr'" "n_key q' = k'" "n_val q' = x'" by metis
  have keep: "settled H1 pend1 (t_l c) \<and> points G1 (t_l c) Tl \<and> settled H1 pend1 (t_r c) \<and> points G1 (t_r c) Tr \<and>
      settled H1 pend1 (t_past c) \<and> past_ok H1 pend1 G1 D1 c d Tp"
    if ev: "evolves H pend G D H1 pend1 G1 D1" for H1 pend1 G1 D1
    using settled_evolves [OF l(2,1) w ev] settled_evolves [OF r(2,1) w ev] evolves_points [OF ev]
      settled_evolves [OF p(2) _ w ev, of Tp] l r p by (auto simp: past_ok_def link_def near_def)
  have job: "job H1 pend1 G1 D1 c1 (brk H)"
    if "evolves H pend G D H1 pend1 G1 D1" "brk H \<in> pend1" "G1 (brk H) = Some R" "D1 (brk H) = d"
      "concat_job c1 Tl Tr R" "c1 = c\<lparr>c_root := rt, c_dir := dr\<rparr>" for H1 pend1 G1 D1 c1 R rt dr
    using keep [OF that(1)] that c unfolding job_def past_ok_def by auto
  show ?thesis
  proof (cases "pr > pr'")
    case True
    show ?thesis
      using e e' True by (auto simp: concat_step_def heap_simps T process_concat_Node same_task_def
          intro!: call_ok_deeper [OF w] job)
  next
    case False
    show ?thesis
      using e e' False by (auto simp: concat_step_def heap_simps T process_concat_Node same_task_def
          intro!: call_ok_deeper [OF w] job)
  qed
qed


text \<open>The steps of \<open>update\<close> that wait do so for a version that is not yet committed.\<close>

lemma update_step_ok:
  assumes w: "world H pend G D" and c: "c_fn c = FN_SEARCH" "c_op c \<noteq> OP_NONE"
    and past: "link H pend G D d (t_past c) T" "older (c_ver c) T"
    and nc: "\<And>b U. b \<in> pend \<Longrightarrow> G b = Some U \<Longrightarrow> nc < top_ver U"
  shows "update_step nc At_root H c = Wait \<or> call_ok H pend G D c d (search_op c T) (update_step nc At_root H c)"
proof (cases T)
  case Null
  have fz: "frozen H (settled_lab H pend G)" by (rule frozen_settled [OF w])
  have past: "t_past c = None" using past(1) Null world_points_Null [OF w] by (simp add: link_def)
  show ?thesis
  proof (cases "c_op c = OP_INSERT")
    case True
    let ?n = "\<lparr>n_ver = c_ver c, n_pry = c_pry c, n_key = c_key c, n_val = 1, n_aug = 0, n_lch = None, n_rch = None\<rparr>"
    have "returns H (settled_lab H pend G) (Some (fresh H ?n, Some (brk H))) (search_op c Null)"
      using True by (intro returns_fresh [OF fz]) (simp add: search_op_def)
    from call_ok_returns [OF w this, of c c d] True past Null show ?thesis
      by (simp add: update_step_def complete_def heap_simps same_task_def)
  next
    case False
    then have "search_op c Null = Null" by (simp add: search_op_def)
    moreover have "link H pend G D d None Null" by (auto simp: link_def near_def)
    ultimately show ?thesis using False past Null
      by (auto simp: update_step_def complete_def same_task_def ctx_done_def is_finished_def intro!: call_ok_same [OF w])
  qed
next
  case (Node v pr k x u l r)
  have pts: "points G (t_past c) (Node v pr k x u l r)" using past(1) Node by (simp add: link_def)
  from world_points_Node [OF w pts] obtain a q where
    a: "t_past c = Some a" "cells H a = Some q" "n_ver q = v" "n_pry q = pr" "n_key q = k" "n_val q = x" by metis
  note U = update_step_def [of nc At_root H c]
  have job: "job H1 pend1 G1 D1 c1 (brk H)"
    if "world H1 pend1 G1 D1" "evolves H pend G D H1 pend1 G1 D1" "brk H \<in> pend1" "G1 (brk H) = Some R" "D1 (brk H) = d"
      "c_fn c1 = FN_SEARCH \<and> search_job c1 T R \<or> c_fn c1 = FN_SETREF \<and> setref_job c1 T R"
      "t_past c1 = t_past c" "same_task c c1" for H1 pend1 G1 D1 c1 R
    using link_evolves [OF past(1) w that(2)] that(3-8) past(2) c(2) Node
    by (auto simp: job_def past_ok_def same_task_def)
  show ?thesis
  proof (cases "pr > c_pry c")
    case True
    show ?thesis
      by (rule disjI2) (use a True c in \<open>auto simp: U heap_simps same_task_def Node search_op_def search_insert_Node
        search_delete_Node intro!: call_ok_deeper [OF w] job\<close>)
  next
    case low: False
    show ?thesis
    proof (cases "k = c_key c")
      case eq: True
      show ?thesis
      proof (cases "c_op c = OP_INSERT \<or> x \<noteq> 1")
        case True
        show ?thesis
          by (rule disjI2) (use a low eq c True in \<open>auto simp: U heap_simps same_task_def Node search_op_def
            search_insert_Node search_delete_Node intro!: call_ok_deeper [OF w] job\<close>)
      next
        case False
        let ?c = "c\<lparr>t_l := n_lch q, t_r := n_rch q, c_fn := FN_CONCAT\<rparr>"
        show ?thesis
        proof (cases "nc < v")
          case True
          with False a low eq show ?thesis by (simp add: U deref_def)
        next
          case old: False
          have "settled H pend (Some a)"
          proof (rule settled_old [OF w pts [unfolded a(1)] _ nc])
            fix z assume "z \<in> vers (Node v pr k x u l r)"
            then show "z \<le> nc" using mono_ver_top [of T z] past(2) old Node by (simp add: older_def)
          qed
          note s = settled_children [OF w this pts [unfolded a(1)] a(2)]
          have "call_ok H pend G D ?c d (process_concat (c_ver ?c) l r) (concat_step At_root H ?c)"
            by (rule concat_step_ok [OF w _ _ _ _ _ _ _ _, of ?c d T])
              (use c s \<open>settled H pend (Some a)\<close> a past Node in \<open>simp_all add: past_ok_def\<close>)
          moreover have "update_step nc At_root H c = concat_step At_root H ?c"
            using False a low eq old by (simp add: U deref_def)
          moreover have "search_op c T = process_concat (c_ver ?c) l r"
            using False low eq Node by (simp add: search_op_def search_delete_Node)
          ultimately show ?thesis
            by (simp add: call_ok_def call_done_def call_deeper_def same_task_def)
        qed
      qed
    next
      case neq: False
      show ?thesis
      proof (cases "c_op c = OP_INSERT")
        case ins: True
        show ?thesis
        proof (cases "nc < v")
          case True
          with ins a low neq show ?thesis by (simp add: U deref_def)
        next
          case old: False
          have "settled H pend (Some a)"
          proof (rule settled_old [OF w pts [unfolded a(1)] _ nc])
            fix z assume "z \<in> vers (Node v pr k x u l r)"
            then show "z \<le> nc" using mono_ver_top [of T z] past(2) old Node by (simp add: older_def)
          qed
          then have "points (settled_lab H pend G) (t_past c) T" using pts a Node by (simp only: points_settled)
          from process_deploy_returns [OF frozen_settled [OF w] this, of "c_ver c" "c_pry c" "c_key c"]
          have "returns H (settled_lab H pend G) (process_deploy_at (c_ver c) H (t_past c) (c_pry c) (c_key c)) (search_op c T)"
            using ins low neq Node by (simp add: search_op_def search_insert_Node)
          from call_ok_returns [OF w this, of c c d] ins a low neq old show ?thesis
            by (auto simp: U deref_def complete_def same_task_def)
        qed
      next
        case False
        then have "search_op c T = T" using low neq Node by (simp add: search_op_def search_delete_Node)
        with False a low neq past(1) show ?thesis
          by (auto simp: U deref_def complete_def same_task_def ctx_done_def is_finished_def intro!: call_ok_same [OF w])
      qed
    qed
  qed
qed

section \<open>One step of a task\<close>

text \<open>Calls that write a link are calls that write the root, with the result moved to the link.\<close>

definition retarget :: "ctx \<Rightarrow> (heap \<Rightarrow> ptr \<Rightarrow> heap) \<Rightarrow> (heap \<times> ctx) outcome \<Rightarrow> (heap \<times> ctx) outcome" where
  "retarget c f res = bind_outcome res (\<lambda>(H1, c1). Done (f H1 (c_root c1), c1\<lparr>c_root := c_root c\<rparr>))"

lemma set_val_link_cell:
  "(c::node_t)\<lparr>n_lch := q, n_val := x\<rparr> = c\<lparr>n_val := x, n_lch := q\<rparr>"
  "(c::node_t)\<lparr>n_rch := q, n_val := x\<rparr> = c\<lparr>n_val := x, n_rch := q\<rparr>"
  by simp_all

lemma set_val_link [heap_simps]:
  "set_val_at (set_lch H b q) d x = set_lch (set_val_at H d x) b q"
  "set_val_at (set_rch H b q) d x = set_rch (set_val_at H d x) b q"
  by (cases "cells H d"; cases "b = d";
      simp add: set_val_at_def set_lch_def set_rch_def fun_upd_twist set_val_link_cell)+

lemma concat_step_target:
  "concat_step (At_lch b) H c = retarget c (\<lambda>H. set_lch H b) (concat_step At_root H c)"
  "concat_step (At_rch b) H c = retarget c (\<lambda>H. set_rch H b) (concat_step At_root H c)"
  by (simp_all add: concat_step_def retarget_def complete_def ctx_done_def Let_def split: prod.splits option.splits)

lemma update_step_target:
  "update_step nc (At_lch b) H c = retarget c (\<lambda>H. set_lch H b) (update_step nc At_root H c)"
  "update_step nc (At_rch b) H c = retarget c (\<lambda>H. set_rch H b) (update_step nc At_root H c)"
  by (simp_all add: update_step_def retarget_def complete_def ctx_done_def Let_def concat_step_target set_val_link
      split: prod.splits option.splits)

definition exec_ok :: "heap \<Rightarrow> nat set \<Rightarrow> (nat \<rightharpoonup> tree) \<Rightarrow> (nat \<Rightarrow> nat) \<Rightarrow> ctx \<Rightarrow> nat \<Rightarrow> (heap \<times> ctx) outcome \<Rightarrow> bool" where
  "exec_ok H pend G D c b res \<longleftrightarrow> (\<exists>H' c'. res = Done (H', c') \<and> same_task c c' \<and> c_root c' = c_root c \<and>
     (\<forall>a < brk H. a \<noteq> b \<longrightarrow> cells H' a = cells H a) \<and>
     ((is_finished c' \<and> (\<exists>G'. world H' (pend - {b}) G' D \<and> evolves H pend G D H' (pend - {b}) G' D)) \<or>
      (c_st c' = c_st c \<and> c_stage c' = c_stage c \<and> t_cur c' = Some (brk H) \<and> blank H' (brk H) \<and>
       (\<exists>R. nodes R < nodes (the (G b)) \<and>
          (let P' = insert (brk H) (pend - {b}); G' = G(brk H \<mapsto> R); D' = D(brk H := Suc (D b)) in
           world H' P' G' D' \<and> evolves H pend G D H' P' G' D' \<and> job H' P' G' D' c' (brk H))))))"

lemma exec_okI_finished:
  assumes "same_task c c'" "c_root c' = c_root c" "is_finished c'"
    and "\<And>a. a < brk H \<Longrightarrow> a \<noteq> b \<Longrightarrow> cells H' a = cells H a"
    and "world H' (pend - {b}) G' D" "evolves H pend G D H' (pend - {b}) G' D"
  shows "exec_ok H pend G D c b (Done (H', c'))"
  using assms unfolding exec_ok_def by blast

text \<open>
  Writing the second link of a pending node after a call below it, which worked on the heap in
  which only the first link had been written.
\<close>

lemma finish_after_call:
  assumes w: "world H pend G D" "b \<in> pend" "cells H b = Some e" "G b = Some (Node i p k x u l r)"
    and H1: "cells H1 = (cells H)(b \<mapsto> e\<lparr>n_lch := x1, n_rch := x2\<rparr>)" "brk H1 = brk H"
    and H2: "world H2 pend2 G2 D2" "evolves H1 pend G D H2 pend2 G2 D2" "b \<in> pend2"
      "\<And>a. a < brk H \<Longrightarrow> cells H2 a = cells H1 a"
    and links: "link H2 pend2 G2 D2 (Suc (D b)) ql l" "link H2 pend2 G2 D2 (Suc (D b)) qr r"
    and H': "cells H' = (cells H2)(b \<mapsto> e\<lparr>n_lch := ql, n_rch := qr\<rparr>)" "brk H' = brk H2"
  shows "world H' (pend2 - {b}) G2 D2" "evolves H pend G D H' (pend2 - {b}) G2 D2"
    "evolves H2 pend2 G2 D2 H' (pend2 - {b}) G2 D2"
    "\<And>a. a < brk H \<Longrightarrow> a \<noteq> b \<Longrightarrow> cells H' a = cells H a"
proof -
  have lt: "b < brk H" by (rule worldD [OF w(1,4)])
  have b2: "cells H2 b = Some (e\<lparr>n_lch := x1, n_rch := x2\<rparr>)" using H2(4) [OF lt] H1 by simp
  have G2: "G2 b = Some (Node i p k x u l r)" "D2 b = D b"
    using H2(2) w(4) by (auto simp: evolves_def map_le_def dom_def)
  have "world H' (pend2 - {b}) G2 D2 \<and> evolves H2 pend2 G2 D2 H' (pend2 - {b}) G2 D2"
    by (rule finish_pending [OF H2(1,3) b2 G2(1)]) (use links G2(2) H' in simp_all)
  moreover have "evolves H pend G D H1 pend G D" using write_pending [OF w(1-3) H1] by simp
  ultimately show "world H' (pend2 - {b}) G2 D2" "evolves H pend G D H' (pend2 - {b}) G2 D2"
    "evolves H2 pend2 G2 D2 H' (pend2 - {b}) G2 D2"
    using H2(2) by (auto intro: evolves_trans)
  show "\<And>a. a < brk H \<Longrightarrow> a \<noteq> b \<Longrightarrow> cells H' a = cells H a" using H2(4) H1 H' by simp
qed

lemma exec_after_done:
  assumes w: "world H pend G D" "b \<in> pend" "cells H b = Some e" "G b = Some (Node i p k x u l r)"
    and H1: "cells H1 = (cells H)(b \<mapsto> e\<lparr>n_lch := x1, n_rch := x2\<rparr>)" "brk H1 = brk H"
    and call: "call_done H1 pend G D (Suc (D b)) S H2 c2" "\<And>a. a < brk H \<Longrightarrow> cells H2 a = cells H1 a"
    and c3: "same_task c c3" "c_root c3 = c_root c" "is_finished c3"
    and side: "ql = c_root c2 \<and> qr = x2 \<and> S = l \<and> link H pend G D (Suc (D b)) x2 r \<or>
      ql = x1 \<and> qr = c_root c2 \<and> S = r \<and> link H pend G D (Suc (D b)) x1 l"
    and H3: "cells H3 = (cells H2)(b \<mapsto> e\<lparr>n_lch := ql, n_rch := qr\<rparr>)" "brk H3 = brk H2"
  shows "exec_ok H pend G D c b (Done (H3, c3))"
proof -
  have H01: "evolves H pend G D H1 pend G D" using write_pending [OF w(1-3) H1] by simp
  from call obtain G2 where H2: "world H2 pend G2 D" "evolves H1 pend G D H2 pend G2 D"
    "link H2 pend G2 D (Suc (D b)) (c_root c2) S" by (auto simp: call_done_def)
  have "link H2 pend G2 D (Suc (D b)) ql l" "link H2 pend G2 D (Suc (D b)) qr r"
    using side H2(3) link_evolves [OF _ w(1) evolves_trans [OF H01 H2(2)]] by auto
  from finish_after_call [OF w H1 H2(1,2) w(2) call(2) this H3] c3 show ?thesis by (blast intro: exec_okI_finished)
qed

lemma exec_after_call:
  assumes w: "world H pend G D" "b \<in> pend" "cells H b = Some e" "G b = Some (Node i p k x u l r)"
    and H1: "cells H1 = (cells H)(b \<mapsto> e\<lparr>n_lch := x1, n_rch := x2\<rparr>)" "brk H1 = brk H"
    and call: "call_ok H1 pend G D c1 (Suc (D b)) S res"
    and c1: "same_task c c1" "c_st c1 = c_st c" "c_stage c1 = c_stage c" "c_root c1 = c_root c"
    and side: "side = (\<lambda>q. (q, x2)) \<and> S = l \<and> link H pend G D (Suc (D b)) x2 r \<or>
      side = (\<lambda>q. (x1, q)) \<and> S = r \<and> link H pend G D (Suc (D b)) x1 l"
    and f: "\<And>H2 q. cells H2 b = Some (e\<lparr>n_lch := x1, n_rch := x2\<rparr>) \<Longrightarrow>
      cells (f H2 q) = (cells H2)(b \<mapsto> e\<lparr>n_lch := fst (side q), n_rch := snd (side q)\<rparr>) \<and> brk (f H2 q) = brk H2"
    and g: "\<And>H3 c3 q. cells H3 b = Some (e\<lparr>n_lch := fst (side q), n_rch := snd (side q)\<rparr>) \<Longrightarrow>
      g (H3, c3) = Done (H3, c3\<lparr>t_cur := q\<rparr>)"
  shows "exec_ok H pend G D c b (bind_outcome (retarget c1 f res) g)"
proof -
  from call obtain H2 c2 where res: "res = Done (H2, c2)" "same_task c1 c2"
    and fr: "\<And>a. a < brk H \<Longrightarrow> cells H2 a = cells H1 a"
    and dd: "call_done H1 pend G D (Suc (D b)) S H2 c2 \<or> call_deeper H1 pend G D c1 (Suc (D b)) S H2 c2"
    unfolding call_ok_def H1(2) by blast
  have lt: "b < brk H" by (rule worldD [OF w(1,4)])
  define q where "q = c_root c2"
  define H3 where "H3 = f H2 q"
  define c3 where "c3 = c2\<lparr>c_root := c_root c1, t_cur := q\<rparr>"
  have b2: "cells H2 b = Some (e\<lparr>n_lch := x1, n_rch := x2\<rparr>)" using fr [OF lt] H1 by simp
  have H3: "cells H3 = (cells H2)(b \<mapsto> e\<lparr>n_lch := fst (side q), n_rch := snd (side q)\<rparr>)" "brk H3 = brk H2"
    using f [OF b2] by (simp_all add: H3_def)
  have op: "bind_outcome (retarget c1 f res) g = Done (H3, c3)"
    using g [of H3 q "c2\<lparr>c_root := c_root c1\<rparr>"] H3 by (simp add: res retarget_def H3_def c3_def q_def)
  have same: "same_task c c3" "c_root c3 = c_root c" using c1 res(2) by (simp_all add: same_task_def c3_def)
  have H01: "evolves H pend G D H1 pend G D" using write_pending [OF w(1-3) H1] by simp
  have sub: "link H2 pend2 G2 D2 (Suc (D b)) (fst (side q)) l \<and> link H2 pend2 G2 D2 (Suc (D b)) (snd (side q)) r"
    if "evolves H1 pend G D H2 pend2 G2 D2" "link H2 pend2 G2 D2 (Suc (D b)) q S" for pend2 G2 D2
    using side that(2) link_evolves [OF _ w(1) evolves_trans [OF H01 that(1)]] by auto
  from dd show ?thesis
  proof
    assume "call_done H1 pend G D (Suc (D b)) S H2 c2"
    moreover from this have "is_finished c3" by (simp add: call_done_def is_finished_def c3_def)
    ultimately show ?thesis unfolding op
      by (rule_tac exec_after_done [OF w H1 _ fr same _ _ H3]) (use side in \<open>auto simp: q_def\<close>)
  next
    assume d: "call_deeper H1 pend G D c1 (Suc (D b)) S H2 c2"
    let ?P = "insert (brk H) pend" and ?G = "G(brk H \<mapsto> S)" and ?D = "D(brk H := Suc (D b))"
    have st: "c_st c2 = c_st c" "c_stage c2 = c_stage c" and q: "q = Some (brk H)" and bl: "blank H2 (brk H)"
      and H2: "world H2 ?P ?G ?D" "evolves H1 pend G D H2 ?P ?G ?D" "job H2 ?P ?G ?D c2 (brk H)"
      using d c1 by (simp_all add: call_deeper_def q_def H1(2))
    have lq: "link H2 ?P ?G ?D (Suc (D b)) q S" by (simp add: q link_def near_def)
    note F = finish_after_call [OF w H1 H2(1,2) _ fr _ _ H3]
    have P: "?P - {b} = insert (brk H) (pend - {b})" using lt by auto
    have F': "world H3 (insert (brk H) (pend - {b})) ?G ?D" "evolves H pend G D H3 (insert (brk H) (pend - {b})) ?G ?D"
      "evolves H2 ?P ?G ?D H3 (insert (brk H) (pend - {b})) ?G ?D" "\<And>a. a < brk H \<Longrightarrow> a \<noteq> b \<Longrightarrow> cells H3 a = cells H a"
      using F sub [OF H2(2) lq] w(2) by (simp_all add: P)
    have "job H3 (insert (brk H) (pend - {b})) ?G ?D c2 (brk H)" by (rule job_evolves [OF H2(3,1) F'(3)]) simp
    then have "job H3 (insert (brk H) (pend - {b})) ?G ?D c3 (brk H)" by (simp add: c3_def)
    moreover have "blank H3 (brk H)" using bl lt by (simp add: blank_def H3)
    moreover have "nodes S < nodes (the (G b))" using side w(4) by auto
    ultimately show ?thesis unfolding op exec_ok_def Let_def
      using same st q F' by (intro exI [of _ H3] exI [of _ c3]) (auto simp: c3_def)
  qed
qed

lemma links_cell: "(c::node_t)\<lparr>n_rch := q, n_lch := q'\<rparr> = c\<lparr>n_lch := q', n_rch := q\<rparr>"
  by simp

lemma set_links:
  "cells H b = Some e \<Longrightarrow> cells (set_lch H b q) = (cells H)(b \<mapsto> e\<lparr>n_lch := q\<rparr>) \<and> brk (set_lch H b q) = brk H"
  "cells H b = Some e \<Longrightarrow> cells (set_rch H b q) = (cells H)(b \<mapsto> e\<lparr>n_rch := q\<rparr>) \<and> brk (set_rch H b q) = brk H"
  by (simp_all add: set_field_put)

text \<open>The two instances: the call below the left link, and below the right link.\<close>

lemma exec_left:
  assumes w: "world H pend G D" "b \<in> pend" "cells H b = Some e" "G b = Some (Node i p k x u l r)"
    and call: "call_ok (set_rch H b qr) pend G D c1 (Suc (D b)) l res"
    and c1: "same_task c c1" "c_st c1 = c_st c" "c_stage c1 = c_stage c" "c_root c1 = c_root c"
    and r: "link H pend G D (Suc (D b)) qr r"
  shows "exec_ok H pend G D c b (bind_outcome (retarget c1 (\<lambda>H. set_lch H b) res) (follow_lch b))"
proof (rule exec_after_call [OF w _ _ call c1, where side = "\<lambda>q. (q, qr)" and ?x1.0 = "n_lch e" and ?x2.0 = qr])
  show "cells (set_rch H b qr) = (cells H)(b \<mapsto> e\<lparr>n_lch := n_lch e, n_rch := qr\<rparr>)" "brk (set_rch H b qr) = brk H"
    using set_links(2) [OF w(3)] by simp_all
  fix H2 :: heap and q assume "cells H2 b = Some (e\<lparr>n_lch := n_lch e, n_rch := qr\<rparr>)"
  then show "cells (set_lch H2 b q) = (cells H2)(b \<mapsto> e\<lparr>n_lch := fst (q, qr), n_rch := snd (q, qr)\<rparr>) \<and>
      brk (set_lch H2 b q) = brk H2"
    using set_links(1) [of H2 b "e\<lparr>n_lch := n_lch e, n_rch := qr\<rparr>" q] by (simp add: links_cell)
qed (use r in \<open>simp_all add: follow_lch_def\<close>)

lemma exec_right:
  assumes w: "world H pend G D" "b \<in> pend" "cells H b = Some e" "G b = Some (Node i p k x u l r)"
    and call: "call_ok (set_lch H b ql) pend G D c1 (Suc (D b)) r res"
    and c1: "same_task c c1" "c_st c1 = c_st c" "c_stage c1 = c_stage c" "c_root c1 = c_root c"
    and l: "link H pend G D (Suc (D b)) ql l"
  shows "exec_ok H pend G D c b (bind_outcome (retarget c1 (\<lambda>H. set_rch H b) res) (follow_rch b))"
proof (rule exec_after_call [OF w _ _ call c1, where side = "\<lambda>q. (ql, q)" and ?x1.0 = ql and ?x2.0 = "n_rch e"])
  show "cells (set_lch H b ql) = (cells H)(b \<mapsto> e\<lparr>n_lch := ql, n_rch := n_rch e\<rparr>)" "brk (set_lch H b ql) = brk H"
    using set_links(1) [OF w(3)] by simp_all
  fix H2 :: heap and q assume "cells H2 b = Some (e\<lparr>n_lch := ql, n_rch := n_rch e\<rparr>)"
  then show "cells (set_rch H2 b q) = (cells H2)(b \<mapsto> e\<lparr>n_lch := fst (ql, q), n_rch := snd (ql, q)\<rparr>) \<and>
      brk (set_rch H2 b q) = brk H2"
    using set_links(2) [of H2 b "e\<lparr>n_lch := ql, n_rch := n_rch e\<rparr>" q] by simp
qed (use l in \<open>simp_all add: follow_rch_def\<close>)

lemma exec_waits:
  "bind_outcome (retarget c f Wait) g = Wait"
  by (simp add: retarget_def)

text \<open>The first write of a step, seen from the call below it.\<close>

lemma first_write:
  assumes "world H pend G D" "b \<in> pend" "cells H b = Some e" "H1 = set_lch H b q \<or> H1 = set_rch H b q"
  shows "world H1 pend G D \<and> evolves H pend G D H1 pend G D"
proof -
  consider "H1 = set_lch H b q" | "H1 = set_rch H b q" using assms(4) by blast
  then show ?thesis
  proof cases
    case 1
    have "cells H1 = (cells H)(b \<mapsto> e\<lparr>n_lch := q, n_rch := n_rch e\<rparr>)" "brk H1 = brk H"
      using set_links(1) [OF assms(3), of q] 1 by simp_all
    then show ?thesis by (rule write_pending [OF assms(1-3)])
  next
    case 2
    have "cells H1 = (cells H)(b \<mapsto> e\<lparr>n_lch := n_lch e, n_rch := q\<rparr>)" "brk H1 = brk H"
      using set_links(2) [OF assms(3), of q] 2 by simp_all
    then show ?thesis by (rule write_pending [OF assms(1-3)])
  qed
qed

text \<open>Setting both links of the copy of the node with the key.\<close>

lemma exec_setref:
  assumes w: "world H pend G D" "b \<in> pend" "cells H b = Some e" "G b = Some (Node i p k x u l r)"
    and links: "link H pend G D (Suc (D b)) ql l" "link H pend G D (Suc (D b)) qr r"
  shows "exec_ok H pend G D c b (complete (set_rch (set_lch H b ql) b qr, c))"
proof -
  let ?H = "set_rch (set_lch H b ql) b qr"
  have H': "cells ?H = (cells H)(b \<mapsto> e\<lparr>n_lch := ql, n_rch := qr\<rparr>)" "brk ?H = brk H"
    using set_links(1) [OF w(3), of ql] set_links(2) [of "set_lch H b ql" b "e\<lparr>n_lch := ql\<rparr>" qr] by simp_all
  from finish_pending [OF w links H'] show ?thesis
    unfolding complete_def by (auto intro!: exec_okI_finished simp: same_task_def H')
qed

lemma job_E:
  assumes "job H pend G D c b" "world H pend G D"
  obtains R v p k x u l r a q where "b \<in> pend" "c_op c \<noteq> OP_NONE" "G b = Some R"
    "t_past c = Some a" "cells H a = Some q" "n_ver q = v"
    "link H pend G D (D b) (Some a) (Node v p k x u l r)" "older (c_ver c) (Node v p k x u l r)"
    "c_fn c = FN_SEARCH \<and> search_job c (Node v p k x u l r) R \<or>
     c_fn c = FN_SETREF \<and> setref_job c (Node v p k x u l r) R \<or>
     c_fn c = FN_CONCAT \<and> settled H pend (Some a) \<and>
       (\<exists>Tl Tr. points G (t_l c) Tl \<and> settled H pend (t_l c) \<and> points G (t_r c) Tr \<and>
          settled H pend (t_r c) \<and> concat_job c Tl Tr R)"
proof -
  obtain R T where R: "b \<in> pend" "c_op c \<noteq> OP_NONE" "G b = Some R" and T: "past_ok H pend G D c (D b) T"
    and k: "case c_fn c of FN_SEARCH \<Rightarrow> search_job c T R | FN_SETREF \<Rightarrow> setref_job c T R
      | FN_CONCAT \<Rightarrow> settled H pend (t_past c) \<and>
          (\<exists>Tl Tr. points G (t_l c) Tl \<and> settled H pend (t_l c) \<and> points G (t_r c) Tr \<and>
            settled H pend (t_r c) \<and> concat_job c Tl Tr R)"
    using assms(1) unfolding job_def by blast
  obtain v p k x u l r where TN: "T = Node v p k x u l r" using T by (cases T) (auto simp: past_ok_def)
  have "points G (t_past c) (Node v p k x u l r)" using T TN by (simp add: past_ok_def link_def)
  from world_points_Node [OF assms(2) this] obtain a q where a: "t_past c = Some a" "cells H a = Some q" "n_ver q = v"
    by metis
  show thesis
    by (rule that [of R a q v p k x u l r]) (use R T k a TN in \<open>auto simp: past_ok_def split: functor_kind.splits\<close>)
qed

lemma concat_job_E:
  assumes "concat_job c Tl Tr R" "world H pend G D" "points G pl Tl" "settled H pend pl" "points G pr Tr" "settled H pend pr"
  obtains (right) v p k x u l r a q where "c_dir c = DIR_RIGHT" "Tl = Node v p k x u l r" "pl = Some a" "cells H a = Some q"
      "R = Node (c_ver c) p k x 0 l (process_concat (c_ver c) r Tr)"
      "settled H pend (n_lch q)" "settled H pend (n_rch q)" "points G (n_lch q) l" "points G (n_rch q) r"
  | (left) v p k x u l r a q where "c_dir c = DIR_LEFT" "Tr = Node v p k x u l r" "pr = Some a" "cells H a = Some q"
      "R = Node (c_ver c) p k x 0 (process_concat (c_ver c) Tl l) r"
      "settled H pend (n_lch q)" "settled H pend (n_rch q)" "points G (n_lch q) l" "points G (n_rch q) r"
proof -
  obtain v p k x u l r v' p' k' x' u' l' r' where T: "Tl = Node v p k x u l r" "Tr = Node v' p' k' x' u' l' r'"
    using assms(1) by (cases Tl; cases Tr) auto
  from world_points_Node [OF assms(2,3) [unfolded T]] obtain a q where a: "pl = Some a" "cells H a = Some q" by metis
  from world_points_Node [OF assms(2) assms(5) [unfolded T]] obtain a' q' where a': "pr = Some a'" "cells H a' = Some q'" by metis
  note s = settled_children [OF assms(2) assms(4) [unfolded a] assms(3) [unfolded T a] a(2)]
  note s' = settled_children [OF assms(2) assms(6) [unfolded a'] assms(5) [unfolded T a'] a'(2)]
  show thesis
  proof (cases "c_dir c = DIR_RIGHT")
    case True
    show thesis by (rule right [OF True T(1) a]) (use s assms(1) True T in auto)
  next
    case False
    then have L: "c_dir c = DIR_LEFT" using assms(1) T by auto
    show thesis by (rule left [OF L T(2) a']) (use s' assms(1) L T in auto)
  qed
qed

lemma settled_link: "settled H pend p \<Longrightarrow> points G p T \<Longrightarrow> link H pend G D d p T"
  by (simp add: link_def near_def)

lemma execute_one_step_ok:
  assumes w: "world H pend G D" and j: "job H pend G D c b" and cur: "t_cur c = Some b"
    and past: "\<And>a. t_past c = Some a \<Longrightarrow> a \<notin> pend"
    and nc: "\<And>b U. b \<in> pend \<Longrightarrow> G b = Some U \<Longrightarrow> nc < top_ver U"
  shows "execute_one_step nc H c = Wait \<or> exec_ok H pend G D c b (execute_one_step nc H c)"
proof -
  from j w obtain R v p k x u l r a q where b: "b \<in> pend" and op: "c_op c \<noteq> OP_NONE" and R: "G b = Some R"
    and a: "t_past c = Some a" "cells H a = Some q"
    and pl: "link H pend G D (D b) (Some a) (Node v p k x u l r)" and old: "older (c_ver c) (Node v p k x u l r)"
    and kind: "c_fn c = FN_SEARCH \<and> search_job c (Node v p k x u l r) R \<or>
     c_fn c = FN_SETREF \<and> setref_job c (Node v p k x u l r) R \<or>
     c_fn c = FN_CONCAT \<and> settled H pend (Some a) \<and>
       (\<exists>Tl Tr. points G (t_l c) Tl \<and> settled H pend (t_l c) \<and> points G (t_r c) Tr \<and>
          settled H pend (t_r c) \<and> concat_job c Tl Tr R)"
    by (rule job_E)
  from worldD [OF w R] obtain e where e: "cells H b = Some e" by metis
  note ch = link_children [OF w pl past [OF a(1)] a(2)]
  note old' = older_Node [OF old]
  note E = execute_one_step_def cur a deref_def
  consider (search_left) "c_fn c = FN_SEARCH" "c_dir c = DIR_LEFT" "R = Node (c_ver c) p k x 0 (search_op c l) r"
    | (search_right) "c_fn c = FN_SEARCH" "c_dir c = DIR_RIGHT" "R = Node (c_ver c) p k x 0 l (search_op c r)"
    | (setref) x' where "c_fn c = FN_SETREF" "R = Node (c_ver c) p k x' 0 l r"
    | (concat) Tl Tr where "c_fn c = FN_CONCAT" "settled H pend (Some a)" "points G (t_l c) Tl" "settled H pend (t_l c)"
        "points G (t_r c) Tr" "settled H pend (t_r c)" "concat_job c Tl Tr R"
    using kind by auto
  then show ?thesis
  proof cases
    case search_left
    let ?H = "set_rch H b (n_rch q)" and ?c = "c\<lparr>t_past := n_lch q\<rparr>"
    have w1: "world ?H pend G D" and ev: "evolves H pend G D ?H pend G D"
      using first_write [OF w b e, of ?H "n_rch q"] by auto
    have "update_step nc At_root ?H ?c = Wait \<or>
        call_ok ?H pend G D ?c (Suc (D b)) (search_op ?c l) (update_step nc At_root ?H ?c)"
      by (rule update_step_ok [OF w1]) (use search_left op link_evolves [OF ch(1) w ev] old' nc in auto)
    with exec_left [OF w b e R [unfolded search_left(3)], of "n_rch q" ?c "update_step nc At_root ?H ?c" c] ch(2)
    show ?thesis
      using search_left(1,2) by (auto simp: E update_step_target exec_waits same_task_def)
  next
    case search_right
    let ?H = "set_lch H b (n_lch q)" and ?c = "c\<lparr>t_past := n_rch q\<rparr>"
    have w1: "world ?H pend G D" and ev: "evolves H pend G D ?H pend G D"
      using first_write [OF w b e, of ?H "n_lch q"] by auto
    have "update_step nc At_root ?H ?c = Wait \<or>
        call_ok ?H pend G D ?c (Suc (D b)) (search_op ?c r) (update_step nc At_root ?H ?c)"
      by (rule update_step_ok [OF w1]) (use search_right op link_evolves [OF ch(2) w ev] old' nc in auto)
    with exec_right [OF w b e R [unfolded search_right(3)], of "n_lch q" ?c "update_step nc At_root ?H ?c" c] ch(1)
    show ?thesis
      using search_right(1,2) by (auto simp: E update_step_target exec_waits same_task_def)
  next
    case setref
    from exec_setref [OF w b e R [unfolded setref(2)] ch, of c] show ?thesis using setref(1) by (simp add: E)
  next
    case concat
    from concat(7) w concat(3-6) show ?thesis
    proof (cases rule: concat_job_E)
      case (right v' p' k' x' u' l' r' a' q')
      let ?H = "set_lch H b (n_lch q')" and ?c = "c\<lparr>t_l := n_rch q'\<rparr>"
      have w1: "world ?H pend G D" and ev: "evolves H pend G D ?H pend G D"
        using first_write [OF w b e, of ?H "n_lch q'"] by auto
      have "call_ok ?H pend G D ?c (Suc (D b)) (process_concat (c_ver ?c) r' Tr) (concat_step At_root ?H ?c)"
        by (rule concat_step_ok [OF w1, where ?d0.0 = "D b" and Tp = "Node v p k x u l r"])
          (use concat right op old a link_evolves [OF pl w ev] settled_evolves [OF _ _ w ev] pl in
            \<open>auto simp: past_ok_def link_def\<close>)
      from exec_right [OF w b e R [unfolded right(5)] this [simplified], of c] settled_link [OF right(6,8)]
      show ?thesis using concat(1) right(1,3,4) by (simp add: E concat_step_target same_task_def)
    next
      case (left v' p' k' x' u' l' r' a' q')
      let ?H = "set_rch H b (n_rch q')" and ?c = "c\<lparr>t_r := n_lch q'\<rparr>"
      have w1: "world ?H pend G D" and ev: "evolves H pend G D ?H pend G D"
        using first_write [OF w b e, of ?H "n_rch q'"] by auto
      have "call_ok ?H pend G D ?c (Suc (D b)) (process_concat (c_ver ?c) Tl l') (concat_step At_root ?H ?c)"
        by (rule concat_step_ok [OF w1, where ?d0.0 = "D b" and Tp = "Node v p k x u l r"])
          (use concat left op old a link_evolves [OF pl w ev] settled_evolves [OF _ _ w ev] pl in
            \<open>auto simp: past_ok_def link_def\<close>)
      from exec_left [OF w b e R [unfolded left(5)] this [simplified], of c] settled_link [OF left(7,9)]
      show ?thesis using concat(1) left(1,3,4) by (simp add: E concat_step_target same_task_def)
    qed
  qed
qed


section \<open>The rest of a task at once\<close>

lemma exec_finish_left:
  assumes w: "world H pend G D" "b \<in> pend" "cells H b = Some e" "G b = Some (Node i p k x u l r)"
    and ret: "returns (set_rch H b qr) (settled_lab (set_rch H b qr) pend G) res l"
    and c1: "same_task c c1" "c_root c1 = c_root c" and r: "link H pend G D (Suc (D b)) qr r"
  shows "exec_ok H pend G D c b (finish_with (At_lch b) c1 res)"
proof -
  let ?H = "set_rch H b qr"
  have H1: "cells ?H = (cells H)(b \<mapsto> e\<lparr>n_lch := n_lch e, n_rch := qr\<rparr>)" "brk ?H = brk H"
    using set_links(2) [OF w(3)] by simp_all
  have w1: "world ?H pend G D" using first_write [OF w(1-3), of ?H qr] by auto
  from returns_call_done [OF w1 ret, where d = "Suc (D b)"] obtain H2 q where res: "res = Some (H2, q)"
    and fr: "\<And>a. a < brk H \<Longrightarrow> cells H2 a = cells ?H a"
    and dn: "\<And>c1. is_finished c1 \<Longrightarrow> c_root c1 = q \<Longrightarrow> call_done ?H pend G D (Suc (D b)) l H2 c1"
    unfolding H1(2) by metis
  have "b < brk H" by (rule worldD [OF w(1,4)])
  then have "cells H2 b = Some (e\<lparr>n_rch := qr\<rparr>)" using fr [of b] H1 by simp
  then have H3: "cells (set_lch H2 b q) = (cells H2)(b \<mapsto> e\<lparr>n_lch := q, n_rch := qr\<rparr>)" "brk (set_lch H2 b q) = brk H2"
    using set_links(1) [of H2 b _ q] by (simp_all add: links_cell)
  have "exec_ok H pend G D c b (Done (set_lch H2 b q, ctx_done c1))"
    by (rule exec_after_done [OF w H1 dn fr _ _ _ _ H3, of "ctx_done (c1\<lparr>c_root := q\<rparr>)"])
      (use c1 r in \<open>simp_all add: same_task_def\<close>)
  then show ?thesis by (simp add: finish_with_def complete_def res)
qed

lemma exec_finish_right:
  assumes w: "world H pend G D" "b \<in> pend" "cells H b = Some e" "G b = Some (Node i p k x u l r)"
    and ret: "returns (set_lch H b ql) (settled_lab (set_lch H b ql) pend G) res r"
    and c1: "same_task c c1" "c_root c1 = c_root c" and l: "link H pend G D (Suc (D b)) ql l"
  shows "exec_ok H pend G D c b (finish_with (At_rch b) c1 res)"
proof -
  let ?H = "set_lch H b ql"
  have H1: "cells ?H = (cells H)(b \<mapsto> e\<lparr>n_lch := ql, n_rch := n_rch e\<rparr>)" "brk ?H = brk H"
    using set_links(1) [OF w(3)] by simp_all
  have w1: "world ?H pend G D" using first_write [OF w(1-3), of ?H ql] by auto
  from returns_call_done [OF w1 ret, where d = "Suc (D b)"] obtain H2 q where res: "res = Some (H2, q)"
    and fr: "\<And>a. a < brk H \<Longrightarrow> cells H2 a = cells ?H a"
    and dn: "\<And>c1. is_finished c1 \<Longrightarrow> c_root c1 = q \<Longrightarrow> call_done ?H pend G D (Suc (D b)) r H2 c1"
    unfolding H1(2) by metis
  have "b < brk H" by (rule worldD [OF w(1,4)])
  then have "cells H2 b = Some (e\<lparr>n_lch := ql\<rparr>)" using fr [of b] H1 by simp
  then have H3: "cells (set_rch H2 b q) = (cells H2)(b \<mapsto> e\<lparr>n_lch := ql, n_rch := q\<rparr>)" "brk (set_rch H2 b q) = brk H2"
    using set_links(2) [of H2 b _ q] by simp_all
  have "exec_ok H pend G D c b (Done (set_rch H2 b q, ctx_done c1))"
    by (rule exec_after_done [OF w H1 dn fr _ _ _ _ H3, of "ctx_done (c1\<lparr>c_root := q\<rparr>)"])
      (use c1 l in \<open>simp_all add: same_task_def\<close>)
  then show ?thesis by (simp add: finish_with_def complete_def res)
qed

lemma search_at_returns:
  "frozen H S \<Longrightarrow> points S p T \<Longrightarrow> returns H S (search_at c H p) (search_op c T)"
  by (simp add: search_at_def search_op_def search_insert_at_correct search_delete_at_correct)

lemma execute_to_complete_ok:
  assumes w: "world H pend G D" and j: "job H pend G D c b" and cur: "t_cur c = Some b"
    and past: "settled H pend (t_past c)"
  shows "exec_ok H pend G D c b (execute_to_complete H c)"
proof -
  from j w obtain R v p k x u l r a q where b: "b \<in> pend" and op: "c_op c \<noteq> OP_NONE" and R: "G b = Some R"
    and a: "t_past c = Some a" "cells H a = Some q"
    and pl: "link H pend G D (D b) (Some a) (Node v p k x u l r)"
    and kind: "c_fn c = FN_SEARCH \<and> search_job c (Node v p k x u l r) R \<or>
     c_fn c = FN_SETREF \<and> setref_job c (Node v p k x u l r) R \<or>
     c_fn c = FN_CONCAT \<and> settled H pend (Some a) \<and>
       (\<exists>Tl Tr. points G (t_l c) Tl \<and> settled H pend (t_l c) \<and> points G (t_r c) Tr \<and>
          settled H pend (t_r c) \<and> concat_job c Tl Tr R)"
    by (rule job_E)
  from worldD [OF w R] obtain e where e: "cells H b = Some e" by metis
  have "points G (Some a) (Node v p k x u l r)" using pl by (simp add: link_def)
  note ch = settled_children [OF w past [unfolded a(1)] this a(2)]
  note E = execute_to_complete_def cur a deref_def
  have fw: "frozen H1 (settled_lab H1 pend G) \<and>
      (settled H pend p' \<longrightarrow> points G p' T' \<longrightarrow> points (settled_lab H1 pend G) p' T')"
    if "H1 = set_lch H b q' \<or> H1 = set_rch H b q'" for H1 q' p' T'
    using first_write [OF w b e that] settled_evolves [OF _ _ w] by (auto simp: points_settled intro: frozen_settled)
  consider (search_left) "c_fn c = FN_SEARCH" "c_dir c = DIR_LEFT" "R = Node (c_ver c) p k x 0 (search_op c l) r"
    | (search_right) "c_fn c = FN_SEARCH" "c_dir c = DIR_RIGHT" "R = Node (c_ver c) p k x 0 l (search_op c r)"
    | (setref) x' where "c_fn c = FN_SETREF" "R = Node (c_ver c) p k x' 0 l r"
    | (concat) Tl Tr where "c_fn c = FN_CONCAT" "points G (t_l c) Tl" "settled H pend (t_l c)"
        "points G (t_r c) Tr" "settled H pend (t_r c)" "concat_job c Tl Tr R"
    using kind by auto
  then show ?thesis
  proof cases
    case search_left
    let ?c = "c\<lparr>t_past := n_lch q\<rparr>" and ?H = "set_rch H b (n_rch q)"
    have "returns ?H (settled_lab ?H pend G) (search_at ?c ?H (n_lch q)) (search_op ?c l)"
      using fw [of ?H "n_rch q" "n_lch q" l] ch by (intro search_at_returns) auto
    from exec_finish_left [OF w b e R [unfolded search_left(3)], of "n_rch q" "search_at ?c ?H (n_lch q)" c ?c] this ch
    show ?thesis using search_left(1,2) by (simp add: E Let_def same_task_def settled_link)
  next
    case search_right
    let ?c = "c\<lparr>t_past := n_rch q\<rparr>" and ?H = "set_lch H b (n_lch q)"
    have "returns ?H (settled_lab ?H pend G) (search_at ?c ?H (n_rch q)) (search_op ?c r)"
      using fw [of ?H "n_lch q" "n_rch q" r] ch by (intro search_at_returns) auto
    from exec_finish_right [OF w b e R [unfolded search_right(3)], of "n_lch q" "search_at ?c ?H (n_rch q)" c ?c] this ch
    show ?thesis using search_right(1,2) by (simp add: E Let_def same_task_def settled_link)
  next
    case setref
    from exec_setref [OF w b e R [unfolded setref(2)], of "n_lch q" "n_rch q" c] ch show ?thesis
      using setref(1) by (simp add: E settled_link)
  next
    case concat
    from concat(6) w concat(2-5) show ?thesis
    proof (cases rule: concat_job_E)
      case (right v' p' k' x' u' l' r' a' q')
      let ?H = "set_lch H b (n_lch q')" and ?c = "c\<lparr>t_l := n_rch q'\<rparr>"
      have "returns ?H (settled_lab ?H pend G) (process_concat_at (c_ver c) ?H (n_rch q') (t_r c)) (process_concat (c_ver c) r' Tr)"
        using fw [of ?H "n_lch q'"] right concat by (intro process_concat_at_correct) auto
      from exec_finish_right [OF w b e R [unfolded right(5)], of "n_lch q'" _ c ?c, OF this] right(6,8)
      show ?thesis using concat(1) right(1,3,4) by (simp add: E Let_def same_task_def settled_link)
    next
      case (left v' p' k' x' u' l' r' a' q')
      let ?H = "set_rch H b (n_rch q')" and ?c = "c\<lparr>t_r := n_lch q'\<rparr>"
      have "returns ?H (settled_lab ?H pend G) (process_concat_at (c_ver c) ?H (t_l c) (n_lch q')) (process_concat (c_ver c) Tl l')"
        using fw [of ?H "n_rch q'"] left concat by (intro process_concat_at_correct) auto
      from exec_finish_left [OF w b e R [unfolded left(5)], of "n_rch q'" _ c ?c, OF this] left(7,9)
      show ?thesis using concat(1) left(1,3,4) by (simp add: E Let_def same_task_def settled_link)
    qed
  qed
qed

end
