(* ===== verification/Scheduler_Inv.thy ===== *)
theory Scheduler_Inv
  imports Scheduler_Task
begin

text \<open>
  The invariant of the scheduler. The data part ties the heap and the contexts to the trees of the
  sequential execution. The control part says how far each task has come: a task that has left pipe
  \<open>j\<close> is finished or at depth \<open>j\<close> at least, a task still before it is at most at depth \<open>j - 1\<close>, and a
  worker in stage \<open>s\<close> has brought its task to depth \<open>num_pipes + s - 1\<close>. Together they give the order that
  makes a step safe: a task never reads a link that an earlier task has yet to write.
\<close>

section \<open>Definitions\<close>

definition tree_at :: "config \<Rightarrow> tree \<Rightarrow> request list \<Rightarrow> nat \<Rightarrow> tree" where
  "tree_at C T0 reqs = version (tree_step (hash_of C)) T0 reqs"

definition running :: "state \<Rightarrow> nat \<Rightarrow> bool" where
  "running \<sigma> i \<longleftrightarrow> 1 \<le> i \<and> i \<le> num_issued \<sigma> \<and> c_st (ctxs \<sigma> i) = ST_RUNNING"

definition pending :: "state \<Rightarrow> nat set" where
  "pending \<sigma> = {b. \<exists>i. running \<sigma> i \<and> t_cur (ctxs \<sigma> i) = Some b}"

definition task_ok :: "config \<Rightarrow> tree \<Rightarrow> request list \<Rightarrow> state \<Rightarrow> (nat \<rightharpoonup> tree) \<Rightarrow> (nat \<Rightarrow> nat) \<Rightarrow> nat \<Rightarrow> bool" where
  "task_ok C T0 reqs \<sigma> G D i \<longleftrightarrow> c_ver (ctxs \<sigma> i) = i \<and> (\<exists>b R. t_cur (ctxs \<sigma> i) = Some b \<and> blank (heap_of \<sigma>) b \<and>
     job (heap_of \<sigma>) (pending \<sigma>) G D (ctxs \<sigma> i) b \<and> G b = Some R \<and> D b + nodes R \<le> nodes (tree_at C T0 reqs i))"

definition data_inv :: "config \<Rightarrow> tree \<Rightarrow> request list \<Rightarrow> state \<Rightarrow> (nat \<rightharpoonup> tree) \<Rightarrow> (nat \<Rightarrow> nat) \<Rightarrow> bool" where
  "data_inv C T0 reqs \<sigma> G D \<longleftrightarrow>
     world (heap_of \<sigma>) (pending \<sigma>) G D \<and>
     num_issued \<sigma> \<le> length reqs \<and> todo \<sigma> = drop (num_issued \<sigma>) reqs \<and>
     (\<forall>i \<le> num_issued \<sigma>. link (heap_of \<sigma>) (pending \<sigma>) G D 0 (c_root (ctxs \<sigma> i)) (tree_at C T0 reqs i)) \<and>
     (\<forall>i. running \<sigma> i \<longrightarrow> task_ok C T0 reqs \<sigma> G D i) \<and>
     (\<forall>i \<le> num_issued \<sigma>. \<not> running \<sigma> i \<longrightarrow> is_finished (ctxs \<sigma> i)) \<and>
     (\<forall>i > num_issued \<sigma>. ctxs \<sigma> i = init_ctx) \<and>
     num_committed \<sigma> \<le> num_issued \<sigma> \<and> (\<forall>i \<le> num_committed \<sigma>. \<not> running \<sigma> i)"

definition prog :: "(nat \<Rightarrow> nat) \<Rightarrow> state \<Rightarrow> nat \<Rightarrow> nat" where
  "prog D \<sigma> i = D (the (t_cur (ctxs \<sigma> i)))"

text \<open>Tokens: what stage \<open>j\<close> of the pipeline has handed on, and what stage \<open>j + 1\<close> has taken.\<close>

definition passed :: "state \<Rightarrow> nat \<Rightarrow> nat \<Rightarrow> bool" where
  "passed \<sigma> j i \<longleftrightarrow> i < p_pos (pipes \<sigma> j) \<or> i = p_pos (pipes \<sigma> j) \<and> p_pc (pipes \<sigma> j) = P_put"

definition produced :: "state \<Rightarrow> nat \<Rightarrow> nat" where
  "produced \<sigma> j = (if j = 0 then if master \<sigma> = M_push then num_issued \<sigma> - 1 else num_issued \<sigma>
     else p_pos (pipes \<sigma> j) - 1)"

definition consumed :: "state \<Rightarrow> nat \<Rightarrow> nat" where
  "consumed \<sigma> j = (if p_pc (pipes \<sigma> j) = P_take then p_pos (pipes \<sigma> j) - 1 else p_pos (pipes \<sigma> j))"

definition pipe_ok :: "config \<Rightarrow> state \<Rightarrow> nat \<Rightarrow> bool" where
  "pipe_ok C \<sigma> j \<longleftrightarrow> 1 \<le> p_pos (pipes \<sigma> j) \<and> produced \<sigma> j \<le> produced \<sigma> (j - 1) \<and>
     (p_pc (pipes \<sigma> j) \<in> {P_exec, P_put} \<longrightarrow> p_pos (pipes \<sigma> j) \<le> produced \<sigma> (j - 1)) \<and>
     tokens \<sigma> (j - 1) = of_nat (produced \<sigma> (j - 1)) - of_nat (consumed \<sigma> j)"

definition token_inv :: "config \<Rightarrow> state \<Rightarrow> bool" where
  "token_inv C \<sigma> \<longleftrightarrow> (\<forall>j \<in> {1..num_pipes C}. pipe_ok C \<sigma> j) \<and>
     (master \<sigma> = M_push \<longrightarrow> 1 \<le> num_issued \<sigma>) \<and>
     b_submitted (boarder \<sigma>) \<le> produced \<sigma> (num_pipes C) \<and>
     tokens \<sigma> (num_pipes C) = of_nat (produced \<sigma> (num_pipes C) - b_submitted (boarder \<sigma>)) \<and>
     num_submitted \<sigma> \<le> b_submitted (boarder \<sigma>)"

fun looping :: "worker_pc \<Rightarrow> bool" where
  "looping (W_loop s) = True"
| "looping (W_depend s) = True"
| "looping (W_spin s v) = True"
| "looping _ = False"

definition active :: "worker_pc \<Rightarrow> bool" where
  "active pc \<longleftrightarrow> pc = W_submit \<or> looping pc"

definition progress_ok :: "config \<Rightarrow> state \<Rightarrow> (nat \<Rightarrow> nat) \<Rightarrow> nat \<Rightarrow> bool" where
  "progress_ok C \<sigma> D i \<longleftrightarrow>
     (\<forall>j \<in> {1..num_pipes C}. if passed \<sigma> j i then j \<le> prog D \<sigma> i else prog D \<sigma> i < j) \<and>
     (c_stage (ctxs \<sigma> i) = 0 \<or> num_pipes C + c_stage (ctxs \<sigma> i) \<le> Suc (prog D \<sigma> i)) \<and>
     (prog D \<sigma> i \<le> num_pipes C \<or>
      (\<exists>w \<in> {1..num_workers C}. looping (w_pc (workers \<sigma> w)) \<and> w_task (workers \<sigma> w) = i))"

definition stage_ok :: "config \<Rightarrow> state \<Rightarrow> (nat \<Rightarrow> nat) \<Rightarrow> nat \<Rightarrow> nat \<Rightarrow> bool" where
  "stage_ok C \<sigma> D i s \<longleftrightarrow> running \<sigma> i \<and> Suc (prog D \<sigma> i) = num_pipes C + s"

definition worker_ok :: "config \<Rightarrow> state \<Rightarrow> (nat \<rightharpoonup> tree) \<Rightarrow> (nat \<Rightarrow> nat) \<Rightarrow> worker_local \<Rightarrow> bool" where
  "worker_ok C \<sigma> G D l \<longleftrightarrow> 1 \<le> w_start l \<and> w_end l \<le> num_tasks C \<and> w_cached l \<le> num_submitted \<sigma> \<and>
     (active (w_pc l) \<longrightarrow> 1 \<le> w_task l \<and> w_task l \<le> num_fetched \<sigma> \<and> w_task l \<le> num_tasks C) \<and>
     (looping (w_pc l) \<longrightarrow> w_task l \<le> num_submitted \<sigma>) \<and>
     (case w_pc l of
        W_loop s \<Rightarrow> running \<sigma> (w_task l) \<longrightarrow> stage_ok C \<sigma> D (w_task l) s
      | W_depend s \<Rightarrow> stage_ok C \<sigma> D (w_task l) s
      | W_spin s v \<Rightarrow> stage_ok C \<sigma> D (w_task l) s \<and>
          (\<exists>a U. t_past (ctxs \<sigma> (w_task l)) = Some a \<and> G a = Some U \<and> top_ver U = v)
      | W_estimate k \<Rightarrow> k \<le> num_tasks C
      | _ \<Rightarrow> True)"

definition control_inv :: "config \<Rightarrow> state \<Rightarrow> (nat \<rightharpoonup> tree) \<Rightarrow> (nat \<Rightarrow> nat) \<Rightarrow> bool" where
  "control_inv C \<sigma> G D \<longleftrightarrow> token_inv C \<sigma> \<and>
     (\<forall>i. running \<sigma> i \<longrightarrow> progress_ok C \<sigma> D i) \<and>
     (\<forall>w \<in> {1..num_workers C}. worker_ok C \<sigma> G D (workers \<sigma> w)) \<and>
     (\<forall>w \<in> {1..num_workers C}. \<forall>w' \<in> {1..num_workers C}. w \<noteq> w' \<longrightarrow> active (w_pc (workers \<sigma> w)) \<longrightarrow>
        active (w_pc (workers \<sigma> w')) \<longrightarrow> w_task (workers \<sigma> w) \<noteq> w_task (workers \<sigma> w')) \<and>
     num_committed \<sigma> = k_committed (collector \<sigma>) \<and> k_committed (collector \<sigma>) \<le> k_next (collector \<sigma>) \<and>
     k_next (collector \<sigma>) \<le> num_issued \<sigma> \<and> (\<forall>i \<le> k_next (collector \<sigma>). \<not> running \<sigma> i)"

definition sched_inv :: "config \<Rightarrow> tree \<Rightarrow> request list \<Rightarrow> state \<Rightarrow> bool" where
  "sched_inv C T0 reqs \<sigma> \<longleftrightarrow> (\<exists>G D. data_inv C T0 reqs \<sigma> G D \<and> control_inv C \<sigma> G D)"

text \<open>What the client and the constructor provide.\<close>

definition sched_pre :: "config \<Rightarrow> heap \<Rightarrow> ptr \<Rightarrow> tree \<Rightarrow> request list \<Rightarrow> bool" where
  "sched_pre C H0 t0 T0 reqs \<longleftrightarrow> represents H0 t0 T0 \<and> vers T0 \<subseteq> {0} \<and> length reqs \<le> num_tasks C \<and>
     nodes T0 + num_tasks C < STAGE_DONE"

section \<open>Sequential trees\<close>

lemma nodes_split_copy: "split_copy ver t key = (a, b) \<Longrightarrow> nodes a + nodes b = nodes t"
  by (induction t arbitrary: a b) (auto simp: split_copy_Node split: prod.splits if_splits)

lemma nodes_search_insert: "nodes (search_insert ver t pry key) \<le> Suc (nodes t)"
proof (induction t)
  case (Node v p k x a l r)
  obtain A B where "split_copy ver (Node v p k x a l r) key = (A, B)" by fastforce
  from process_deploy_Node [OF this, of pry] nodes_split_copy [OF this] Node show ?case
    by (auto simp: search_insert_Node)
qed simp

lemma nodes_process_concat: "nodes (process_concat ver s t) = nodes s + nodes t"
  by (induction ver s t rule: process_concat.induct) (auto simp: process_concat_Node)

lemma nodes_search_delete: "nodes (search_delete ver t pry key) \<le> nodes t"
  by (induction t) (auto simp: search_delete_Node nodes_process_concat)

lemma nodes_tree_step: "nodes (tree_step h i req t) \<le> Suc (nodes t)"
  using nodes_search_insert [of i t "h (snd req)" "snd req"] nodes_search_delete [of i t "h (snd req)" "snd req"]
  by (cases req rule: request_cases) auto

lemma tree_at_0 [simp]: "tree_at C T0 reqs 0 = T0"
  by (simp add: tree_at_def)

lemma tree_at_Suc: "tree_at C T0 reqs (Suc i) = tree_step (hash_of C) (Suc i) (reqs ! i) (tree_at C T0 reqs i)"
  by (simp add: tree_at_def)

lemma nodes_tree_at: "nodes (tree_at C T0 reqs i) \<le> nodes T0 + i"
proof (induction i)
  case (Suc i)
  then show ?case using nodes_tree_step [of "hash_of C" "Suc i" "reqs ! i" "tree_at C T0 reqs i"]
    by (simp add: tree_at_Suc)
qed simp

lemma mono_ver_zero: "vers T \<subseteq> {0} \<Longrightarrow> mono_ver T"
  by (induction T) auto

lemma older_tree_at: "vers T0 \<subseteq> {0} \<Longrightarrow> older (Suc i) (tree_at C T0 reqs i)"
proof (induction i)
  case 0
  then show ?case by (auto simp: older_def mono_ver_zero)
next
  case (Suc i)
  then show ?case using older_tree_step [of "Suc i" "tree_at C T0 reqs i" "hash_of C" "reqs ! i"]
    by (simp add: tree_at_Suc)
qed

section \<open>Data steps\<close>

lemma data_invD:
  assumes "data_inv C T0 reqs \<sigma> G D"
  shows "world (heap_of \<sigma>) (pending \<sigma>) G D"
    and "num_issued \<sigma> \<le> length reqs" and "todo \<sigma> = drop (num_issued \<sigma>) reqs"
    and "i \<le> num_issued \<sigma> \<Longrightarrow> link (heap_of \<sigma>) (pending \<sigma>) G D 0 (c_root (ctxs \<sigma> i)) (tree_at C T0 reqs i)"
    and "running \<sigma> i \<Longrightarrow> task_ok C T0 reqs \<sigma> G D i"
    and "i \<le> num_issued \<sigma> \<Longrightarrow> \<not> running \<sigma> i \<Longrightarrow> is_finished (ctxs \<sigma> i)"
    and "num_issued \<sigma> < i \<Longrightarrow> ctxs \<sigma> i = init_ctx"
    and "num_committed \<sigma> \<le> num_issued \<sigma>" and "i \<le> num_committed \<sigma> \<Longrightarrow> \<not> running \<sigma> i"
  using assms by (simp_all add: data_inv_def)

lemma task_okE:
  assumes "data_inv C T0 reqs \<sigma> G D" "running \<sigma> i"
  obtains b R where "t_cur (ctxs \<sigma> i) = Some b" "b \<in> pending \<sigma>" "blank (heap_of \<sigma>) b"
    "job (heap_of \<sigma>) (pending \<sigma>) G D (ctxs \<sigma> i) b" "G b = Some R" "top_ver R = i" "c_ver (ctxs \<sigma> i) = i"
    "D b + nodes R \<le> nodes (tree_at C T0 reqs i)" "prog D \<sigma> i = D b" "b < brk (heap_of \<sigma>)"
proof -
  from data_invD(5) [OF assms] obtain b R where b: "t_cur (ctxs \<sigma> i) = Some b" "blank (heap_of \<sigma>) b"
    "job (heap_of \<sigma>) (pending \<sigma>) G D (ctxs \<sigma> i) b" "G b = Some R" "D b + nodes R \<le> nodes (tree_at C T0 reqs i)"
    "c_ver (ctxs \<sigma> i) = i" by (auto simp: task_ok_def)
  have "b < brk (heap_of \<sigma>)" using data_invD(1) [OF assms(1)] b(4) by (rule worldD)
  moreover have "b \<in> pending \<sigma>" using assms(2) b(1) by (auto simp: pending_def)
  moreover have "top_ver R = i" using job_top [OF b(3)] b(4,6) by simp
  ultimately show thesis using b by (intro that) (simp_all add: prog_def)
qed

text \<open>Current nodes of different tasks differ, and a pending node is newer than every commit.\<close>

lemma cur_inj:
  assumes "data_inv C T0 reqs \<sigma> G D" "running \<sigma> i" "running \<sigma> k" "t_cur (ctxs \<sigma> i) = Some b" "t_cur (ctxs \<sigma> k) = Some b"
  shows "i = k"
proof -
  from task_okE [OF assms(1,2)] assms(4) obtain R where "G b = Some R" "top_ver R = i" by auto
  moreover from task_okE [OF assms(1,3)] assms(5) obtain R' where "G b = Some R'" "top_ver R' = k" by auto
  ultimately show ?thesis by simp
qed

lemma pending_E:
  assumes "data_inv C T0 reqs \<sigma> G D" "b \<in> pending \<sigma>"
  obtains i R where "running \<sigma> i" "t_cur (ctxs \<sigma> i) = Some b" "G b = Some R" "top_ver R = i" "prog D \<sigma> i = D b"
    "num_committed \<sigma> < i"
proof -
  from assms(2) obtain i where i: "running \<sigma> i" "t_cur (ctxs \<sigma> i) = Some b" by (auto simp: pending_def)
  moreover have "num_committed \<sigma> < i" using data_invD(9) [OF assms(1), of i] i(1) by (metis not_less)
  moreover from task_okE [OF assms(1) i(1)] i(2) obtain R where "G b = Some R" "top_ver R = i" "prog D \<sigma> i = D b" by auto
  ultimately show thesis by (intro that)
qed

lemma pending_new:
  "data_inv C T0 reqs \<sigma> G D \<Longrightarrow> b \<in> pending \<sigma> \<Longrightarrow> G b = Some U \<Longrightarrow> num_committed \<sigma> < top_ver U"
  by (erule (1) pending_E) simp

lemma data_inv_cong:
  assumes "heap_of \<sigma>' = heap_of \<sigma>" "ctxs \<sigma>' = ctxs \<sigma>" "num_issued \<sigma>' = num_issued \<sigma>" "todo \<sigma>' = todo \<sigma>"
    "num_committed \<sigma>' = num_committed \<sigma>"
  shows "data_inv C T0 reqs \<sigma>' G D = data_inv C T0 reqs \<sigma> G D"
proof -
  have r: "running \<sigma>' = running \<sigma>" by (simp add: running_def fun_eq_iff assms)
  then have "pending \<sigma>' = pending \<sigma>" by (simp add: pending_def assms)
  with r show ?thesis by (simp add: data_inv_def task_ok_def assms)
qed

lemma task_ok_evolves:
  assumes inv: "data_inv C T0 reqs \<sigma> G D" and k: "running \<sigma> k" "ctxs \<sigma>' k = ctxs \<sigma> k"
    and ev: "evolves (heap_of \<sigma>) (pending \<sigma>) G D (heap_of \<sigma>') (pending \<sigma>') G' D'"
    and cur: "\<And>a. t_cur (ctxs \<sigma> k) = Some a \<Longrightarrow> a < brk (heap_of \<sigma>) \<Longrightarrow> blank (heap_of \<sigma>) a \<Longrightarrow>
      a \<in> pending \<sigma>' \<and> blank (heap_of \<sigma>') a"
  shows "task_ok C T0 reqs \<sigma>' G' D' k \<and> prog D' \<sigma>' k = prog D \<sigma> k"
proof -
  from task_okE [OF inv k(1)] obtain a R where a: "t_cur (ctxs \<sigma> k) = Some a" "blank (heap_of \<sigma>) a"
    "job (heap_of \<sigma>) (pending \<sigma>) G D (ctxs \<sigma> k) a" "G a = Some R" "c_ver (ctxs \<sigma> k) = k"
    "D a + nodes R \<le> nodes (tree_at C T0 reqs k)" "a < brk (heap_of \<sigma>)" by metis
  have a': "a \<in> pending \<sigma>'" "blank (heap_of \<sigma>') a" using cur [OF a(1,7,2)] by auto
  have "G' a = Some R" "D' a = D a" using ev a(4) by (auto simp: evolves_def map_le_def dom_def)
  with a a' k(2) job_evolves [OF a(3) data_invD(1) [OF inv] ev a'(1)] show ?thesis
    by (auto simp: task_ok_def prog_def)
qed

definition same_flow :: "state \<Rightarrow> state \<Rightarrow> bool" where
  "same_flow \<sigma> \<sigma>' \<longleftrightarrow> num_issued \<sigma>' = num_issued \<sigma> \<and> todo \<sigma>' = todo \<sigma> \<and> num_committed \<sigma>' = num_committed \<sigma>"

lemma data_exec:
  assumes inv: "data_inv C T0 reqs \<sigma> G D" and run: "running \<sigma> i" and cur: "t_cur (ctxs \<sigma> i) = Some b"
    and ok: "exec_ok (heap_of \<sigma>) (pending \<sigma>) G D (ctxs \<sigma> i) b (Done (H', c'))"
    and \<sigma>': "heap_of \<sigma>' = H'" "ctxs \<sigma>' = (ctxs \<sigma>)(i := c')" "same_flow \<sigma> \<sigma>'"
  obtains G' D' where "data_inv C T0 reqs \<sigma>' G' D'" "G \<subseteq>\<^sub>m G'"
    "\<And>k. k \<noteq> i \<Longrightarrow> running \<sigma>' k = running \<sigma> k"
    "\<And>k. k \<noteq> i \<Longrightarrow> running \<sigma> k \<Longrightarrow> prog D' \<sigma>' k = prog D \<sigma> k"
    "running \<sigma>' i \<Longrightarrow> prog D' \<sigma>' i = Suc (prog D \<sigma> i) \<and> c_stage c' = c_stage (ctxs \<sigma> i)"
proof -
  let ?H = "heap_of \<sigma>" and ?P = "pending \<sigma>" and ?c = "ctxs \<sigma> i"
  from ok have same: "same_task ?c c'" "c_root c' = c_root ?c"
    and fr: "\<And>a. a < brk ?H \<Longrightarrow> a \<noteq> b \<Longrightarrow> cells H' a = cells ?H a" by (auto simp: exec_ok_def)
  have run': "running \<sigma>' k = running \<sigma> k" if "k \<noteq> i" for k
    using that \<sigma>' by (simp add: running_def same_flow_def)
  note w = data_invD(1) [OF inv]
  have bi: "k = i" if "running \<sigma> k" "t_cur (ctxs \<sigma> k) = Some b" for k by (rule cur_inj [OF inv that(1) run that(2) cur])
  have others: "pending \<sigma>' = (?P - {b}) \<union> (if running \<sigma>' i then {a. t_cur c' = Some a} else {})"
  proof (intro set_eqI iffI)
    fix a assume "a \<in> pending \<sigma>'"
    then obtain k where k: "running \<sigma>' k" "t_cur (ctxs \<sigma>' k) = Some a" by (auto simp: pending_def)
    show "a \<in> (?P - {b}) \<union> (if running \<sigma>' i then {a. t_cur c' = Some a} else {})"
    proof (cases "k = i")
      case False
      then have "running \<sigma> k" "t_cur (ctxs \<sigma> k) = Some a" using k run' \<sigma>' by simp_all
      then show ?thesis using bi [of k] False by (auto simp: pending_def)
    qed (use k \<sigma>' in simp)
  next
    fix a assume a: "a \<in> (?P - {b}) \<union> (if running \<sigma>' i then {a. t_cur c' = Some a} else {})"
    show "a \<in> pending \<sigma>'"
    proof (cases "a \<in> ?P - {b}")
      case True
      then obtain k where k: "running \<sigma> k" "t_cur (ctxs \<sigma> k) = Some a" "a \<noteq> b" by (auto simp: pending_def)
      then have "k \<noteq> i" using cur by auto
      then show ?thesis using k run' \<sigma>' by (auto simp: pending_def intro!: exI [of _ k])
    next
      case False
      then show ?thesis using a \<sigma>' by (auto simp: pending_def intro!: exI [of _ i] split: if_splits)
    qed
  qed
  have others_ok: "task_ok C T0 reqs \<sigma>' G' D' k \<and> prog D' \<sigma>' k = prog D \<sigma> k"
    if ev: "evolves ?H ?P G D H' (pending \<sigma>') G' D'" and k: "running \<sigma> k" "k \<noteq> i" for G' D' k
  proof (rule task_ok_evolves [OF inv k(1) _ ev [folded \<sigma>'(1)]])
    fix a assume a: "t_cur (ctxs \<sigma> k) = Some a" "a < brk ?H" "blank ?H a"
    then have "a \<noteq> b" using bi [OF k(1)] k(2) by auto
    moreover have "a \<in> ?P" using a(1) k(1) by (auto simp: pending_def)
    ultimately show "a \<in> pending \<sigma>' \<and> blank (heap_of \<sigma>') a"
      using others a fr by (auto simp: blank_def \<sigma>'(1))
  qed (use k \<sigma>' in simp)
  note tasks = conjunct1 [OF others_ok] and progs = conjunct2 [OF others_ok]
  have done_i: "\<not> running \<sigma>' i \<longleftrightarrow> is_finished c'"
    using ok run \<sigma>' by (auto simp: running_def exec_ok_def is_finished_def same_flow_def)
  have rest: "data_inv C T0 reqs \<sigma>' G' D'"
    if ev: "evolves ?H ?P G D H' (pending \<sigma>') G' D'" "world H' (pending \<sigma>') G' D'"
      and ti: "running \<sigma>' i \<Longrightarrow> task_ok C T0 reqs \<sigma>' G' D' i" for G' D'
    unfolding data_inv_def
  proof (intro conjI allI impI)
    show "world (heap_of \<sigma>') (pending \<sigma>') G' D'" using ev by (simp add: \<sigma>')
    show "num_issued \<sigma>' \<le> length reqs" "todo \<sigma>' = drop (num_issued \<sigma>') reqs" "num_committed \<sigma>' \<le> num_issued \<sigma>'"
      using data_invD(2,3,8) [OF inv] \<sigma>' by (simp_all add: same_flow_def)
    fix k
    show "k \<le> num_issued \<sigma>' \<Longrightarrow>
        link (heap_of \<sigma>') (pending \<sigma>') G' D' 0 (c_root (ctxs \<sigma>' k)) (tree_at C T0 reqs k)"
      using link_evolves [OF data_invD(4) [OF inv] w ev(1)] same \<sigma>' by (auto simp: same_flow_def)
    show "running \<sigma>' k \<Longrightarrow> task_ok C T0 reqs \<sigma>' G' D' k" using tasks [OF ev(1)] ti run' by (cases "k = i") auto
    show "k \<le> num_issued \<sigma>' \<Longrightarrow> \<not> running \<sigma>' k \<Longrightarrow> is_finished (ctxs \<sigma>' k)"
      using data_invD(6) [OF inv, of k] done_i run' \<sigma>' by (cases "k = i") (auto simp: same_flow_def)
    show "num_issued \<sigma>' < k \<Longrightarrow> ctxs \<sigma>' k = init_ctx"
      using data_invD(7) [OF inv, of k] run \<sigma>' by (auto simp: same_flow_def running_def)
    show "k \<le> num_committed \<sigma>' \<Longrightarrow> \<not> running \<sigma>' k"
      using data_invD(9) [OF inv, of k] run run' \<sigma>' by (cases "k = i") (auto simp: same_flow_def)
  qed
  show thesis
  proof (cases "running \<sigma>' i")
    case False
    then obtain G' where "world H' (?P - {b}) G' D" "evolves ?H ?P G D H' (?P - {b}) G' D"
      using ok run done_i by (auto simp: exec_ok_def running_def is_finished_def)
    then have W: "evolves ?H ?P G D H' (pending \<sigma>') G' D" "world H' (pending \<sigma>') G' D" using False others by simp_all
    show thesis
      by (rule that [OF rest [OF W] _ run' progs [OF W(1)]]) (use False W(1) in \<open>auto simp: evolves_def\<close>)
  next
    case True
    then obtain R where c': "c_stage c' = c_stage ?c" "t_cur c' = Some (brk ?H)" "blank H' (brk ?H)"
      and R: "nodes R < nodes (the (G b))"
      and W: "world H' (insert (brk ?H) (?P - {b})) (G(brk ?H \<mapsto> R)) (D(brk ?H := Suc (D b)))"
        "evolves ?H ?P G D H' (insert (brk ?H) (?P - {b})) (G(brk ?H \<mapsto> R)) (D(brk ?H := Suc (D b)))"
        "job H' (insert (brk ?H) (?P - {b})) (G(brk ?H \<mapsto> R)) (D(brk ?H := Suc (D b))) c' (brk ?H)"
      using ok done_i by (auto simp: exec_ok_def Let_def)
    have P': "insert (brk ?H) (?P - {b}) = pending \<sigma>'" using True others c'(2) by auto
    from task_okE [OF inv run] cur obtain R0 where R0: "G b = Some R0" "c_ver ?c = i" "D b + nodes R0 \<le> nodes (tree_at C T0 reqs i)"
      by (metis option.inject)
    have "task_ok C T0 reqs \<sigma>' (G(brk ?H \<mapsto> R)) (D(brk ?H := Suc (D b))) i"
      using W(3) c' R R0 same(1) by (auto simp: task_ok_def \<sigma>' P' same_task_def)
    from rest [OF W(2)[unfolded P'] W(1)[unfolded P'] this] have dinv: "data_inv C T0 reqs \<sigma>' (G(brk ?H \<mapsto> R)) (D(brk ?H := Suc (D b)))" .
    show thesis
      by (rule that [OF dinv _ run' progs [OF W(2)[unfolded P']]])
        (use W(2) c' cur in \<open>auto simp: evolves_def prog_def \<sigma>'\<close>)
  qed
qed


lemma data_pending_cong:
  assumes "num_issued \<sigma>' = num_issued \<sigma>" "\<And>k. c_st (ctxs \<sigma>' k) = c_st (ctxs \<sigma> k)" "\<And>k. t_cur (ctxs \<sigma>' k) = t_cur (ctxs \<sigma> k)"
  shows "running \<sigma>' = running \<sigma>" "pending \<sigma>' = pending \<sigma>" "prog D \<sigma>' = prog D \<sigma>"
  using assms by (simp_all add: running_def pending_def prog_def fun_eq_iff)

text \<open>A worker announces the stage it works on.\<close>

lemma data_stage:
  assumes inv: "data_inv C T0 reqs \<sigma> G D" and run: "running \<sigma> i"
    and \<sigma>': "heap_of \<sigma>' = heap_of \<sigma>" "ctxs \<sigma>' = (ctxs \<sigma>)(i := (ctxs \<sigma> i)\<lparr>c_stage := s\<rparr>)" "same_flow \<sigma> \<sigma>'"
  shows "data_inv C T0 reqs \<sigma>' G D" "running \<sigma>' = running \<sigma>" "prog D \<sigma>' = prog D \<sigma>"
proof -
  have fl: "num_issued \<sigma>' = num_issued \<sigma>" "todo \<sigma>' = todo \<sigma>" "num_committed \<sigma>' = num_committed \<sigma>"
    using \<sigma>'(3) by (simp_all add: same_flow_def)
  show r: "running \<sigma>' = running \<sigma>" and "prog D \<sigma>' = prog D \<sigma>"
    by (rule data_pending_cong; simp add: \<sigma>' fl)+
  have p: "pending \<sigma>' = pending \<sigma>" by (rule data_pending_cong; simp add: \<sigma>' fl)
  have tk: "task_ok C T0 reqs \<sigma>' G D k = task_ok C T0 reqs \<sigma> G D k" for k
    by (cases "k = i") (simp_all add: task_ok_def \<sigma>' p)
  show "data_inv C T0 reqs \<sigma>' G D" using inv run
    by (auto simp: data_inv_def r p tk \<sigma>'(1,2) fl running_def)
qed

text \<open>The collector commits finished tasks.\<close>

lemma data_commit:
  assumes "data_inv C T0 reqs \<sigma> G D" "n \<le> num_issued \<sigma>" "\<And>i. i \<le> n \<Longrightarrow> \<not> running \<sigma> i"
    and "heap_of \<sigma>' = heap_of \<sigma>" "ctxs \<sigma>' = ctxs \<sigma>" "num_issued \<sigma>' = num_issued \<sigma>" "todo \<sigma>' = todo \<sigma>" "num_committed \<sigma>' = n"
  shows "data_inv C T0 reqs \<sigma>' G D" "running \<sigma>' = running \<sigma>" "prog D \<sigma>' = prog D \<sigma>"
proof -
  show r: "running \<sigma>' = running \<sigma>" and "prog D \<sigma>' = prog D \<sigma>"
    by (rule data_pending_cong; simp add: assms)+
  have p: "pending \<sigma>' = pending \<sigma>" by (rule data_pending_cong; simp add: assms)
  show "data_inv C T0 reqs \<sigma>' G D" using assms by (auto simp: data_inv_def r p task_ok_def)
qed

text \<open>A worker fills in cached sums, possibly below unfinished tasks.\<close>

definition linked_blank :: "heap \<Rightarrow> (nat \<rightharpoonup> tree) \<Rightarrow> bool" where
  "linked_blank H G \<longleftrightarrow> (\<forall>b T. G b = Some T \<longrightarrow> (\<exists>c. cells H b = Some c \<and> holds c (\<lambda>p U. p = None \<or> points G p U) T))"

lemma linked_blank_modulo_aug:
  assumes "linked_blank H G" "modulo_aug H H'"
  shows "linked_blank H' G"
  unfolding linked_blank_def
proof (intro allI impI)
  fix b T assume "G b = Some T"
  with assms(1) obtain c where c: "cells H b = Some c" "holds c (\<lambda>p U. p = None \<or> points G p U) T"
    unfolding linked_blank_def by blast
  from modulo_aug_cell [OF assms(2) c(1)] obtain c' where c': "cells H' b = Some c'" "n_ver c' = n_ver c"
    "n_pry c' = n_pry c" "n_key c' = n_key c" "n_val c' = n_val c" "n_lch c' = n_lch c" "n_rch c' = n_rch c" .
  have "holds c' (\<lambda>p U. p = None \<or> points G p U) T" using c(2) c' by (cases T) simp_all
  with c' show "\<exists>c. cells H' b = Some c \<and> holds c (\<lambda>p U. p = None \<or> points G p U) T" by blast
qed

lemma augment_at_returns:
  "linked_blank H G \<Longrightarrow> p = None \<or> points G p T \<Longrightarrow> \<exists>H' s. augment_at H p = Some (H', s) \<and> modulo_aug H H'"
proof (induction T arbitrary: H p)
  case Null
  have "p = None"
  proof (cases p)
    case (Some b)
    then have "G b = Some Null" using Null by simp
    with Null(1) show ?thesis unfolding linked_blank_def by fastforce
  qed simp
  then show ?case by (simp add: augment_at.simps modulo_aug_refl)
next
  case (Node v pr k x a l r)
  show ?case
  proof (cases p)
    case None
    then show ?thesis by (simp add: augment_at.simps modulo_aug_refl)
  next
    case (Some b)
    then have "G b = Some (Node v pr k x a l r)" using Node.prems by simp
    with Node.prems(1) obtain c where c: "cells H b = Some c" "n_lch c = None \<or> points G (n_lch c) l"
      "n_rch c = None \<or> points G (n_rch c) r" unfolding linked_blank_def by fastforce
    from Node.IH(1) [OF Node.prems(1) c(2)] obtain H1 s1 where H1: "augment_at H (n_lch c) = Some (H1, s1)" "modulo_aug H H1" by blast
    from Node.IH(2) [OF linked_blank_modulo_aug [OF Node.prems(1) H1(2)] c(3)] obtain H2 s2 where
      H2: "augment_at H1 (n_rch c) = Some (H2, s2)" "modulo_aug H1 H2" by blast
    from modulo_aug_trans [OF H1(2) H2(2)] c(1) obtain c2 where c2: "cells H2 b = Some c2" by (rule modulo_aug_cell)
    have "modulo_aug H2 (set_aug_at H2 b s)" for s using c2 by (auto simp: set_field_put(4) modulo_aug_def)
    then have "modulo_aug H (set_aug_at H2 b s)" for s using H1(2) H2(2) by (blast intro: modulo_aug_trans)
    with c(1) H1(1) H2(1) Some show ?thesis
      by (subst augment_at.simps) (auto simp: deref_def modulo_aug_refl)
  qed
qed

lemma data_linked_blank:
  assumes "data_inv C T0 reqs \<sigma> G D"
  shows "linked_blank (heap_of \<sigma>) G"
  unfolding linked_blank_def
proof (intro allI impI)
  fix b T assume b: "G b = Some T"
  from worldD [OF data_invD(1) [OF assms] b] obtain c where c: "cells (heap_of \<sigma>) b = Some c"
    "holds c (\<lambda>p U. b \<in> pending \<sigma> \<or> link (heap_of \<sigma>) (pending \<sigma>) G D (Suc (D b)) p U) T" .
  show "\<exists>c. cells (heap_of \<sigma>) b = Some c \<and> holds c (\<lambda>p U. p = None \<or> points G p U) T"
  proof (cases "b \<in> pending \<sigma>")
    case True
    then obtain i where "running \<sigma> i" "t_cur (ctxs \<sigma> i) = Some b" by (auto simp: pending_def)
    with task_okE [OF assms \<open>running \<sigma> i\<close>] have "blank (heap_of \<sigma>) b" by (metis option.inject)
    with c show ?thesis by (cases T) (auto simp: blank_def)
  next
    case False
    with c show ?thesis by (cases T) (auto simp: link_def)
  qed
qed

lemma data_augment:
  assumes inv: "data_inv C T0 reqs \<sigma> G D" and m: "modulo_aug (heap_of \<sigma>) (heap_of \<sigma>')"
    and \<sigma>': "ctxs \<sigma>' = ctxs \<sigma>" "same_flow \<sigma> \<sigma>'"
  shows "data_inv C T0 reqs \<sigma>' G D" "running \<sigma>' = running \<sigma>" "prog D \<sigma>' = prog D \<sigma>"
proof -
  let ?H = "heap_of \<sigma>" and ?H' = "heap_of \<sigma>'" and ?P = "pending \<sigma>"
  have fl: "num_issued \<sigma>' = num_issued \<sigma>" "todo \<sigma>' = todo \<sigma>" "num_committed \<sigma>' = num_committed \<sigma>"
    using \<sigma>'(2) by (simp_all add: same_flow_def)
  show r: "running \<sigma>' = running \<sigma>" and "prog D \<sigma>' = prog D \<sigma>"
    by (rule data_pending_cong; simp add: \<sigma>' fl)+
  have p: "pending \<sigma>' = pending \<sigma>" by (rule data_pending_cong; simp add: \<sigma>' fl)
  note w = data_invD(1) [OF inv]
  have ev: "evolves ?H ?P G D ?H' (pending \<sigma>') G D" using m by (simp add: evolves_def modulo_aug_def p)
  have w': "world ?H' ?P G D" unfolding world_def
  proof (intro conjI allI impI)
    show "?P \<subseteq> dom G" using w by (simp add: world_def)
    fix b T assume b: "G b = Some T"
    from worldD [OF w b] obtain c where c: "b < brk ?H" "cells ?H b = Some c"
      "holds c (\<lambda>p U. b \<in> ?P \<or> link ?H ?P G D (Suc (D b)) p U) T" .
    then show "b < brk ?H'" using m by (simp add: modulo_aug_def)
    from modulo_aug_cell [OF m c(2)] obtain c' where c': "cells ?H' b = Some c'" "n_ver c' = n_ver c"
      "n_pry c' = n_pry c" "n_key c' = n_key c" "n_val c' = n_val c" "n_lch c' = n_lch c" "n_rch c' = n_rch c" .
    have "holds c (\<lambda>p U. b \<in> ?P \<or> link ?H' ?P G D (Suc (D b)) p U) T"
      using c(3) by (rule holds_mono) (use link_evolves [OF _ w ev [unfolded p]] in blast)
    then have "holds c' (\<lambda>p U. b \<in> ?P \<or> link ?H' ?P G D (Suc (D b)) p U) T" using c' by (cases T) simp_all
    with c' show "\<exists>c. cells ?H' b = Some c \<and> holds c (\<lambda>p U. b \<in> ?P \<or> link ?H' ?P G D (Suc (D b)) p U) T" by blast
  qed
  have bl: "blank ?H' a" if "blank ?H a" for a
    using that modulo_aug_cell [OF m, of a] unfolding blank_def by metis
  have tk: "task_ok C T0 reqs \<sigma>' G D k" if "running \<sigma> k" for k
  proof -
    have "a \<in> pending \<sigma>'" if "t_cur (ctxs \<sigma> k) = Some a" for a
      using that \<open>running \<sigma> k\<close> unfolding p by (auto simp: pending_def)
    then show ?thesis using task_ok_evolves [OF inv that _ ev] bl by (simp add: \<sigma>')
  qed
  show "data_inv C T0 reqs \<sigma>' G D"
    unfolding data_inv_def r p fl \<sigma>'(1)
    using w' tk inv link_evolves [OF data_invD(4) [OF inv] w ev [unfolded p]] by (simp add: data_inv_def)
qed


section \<open>Issuing a task\<close>

lemma data_issue_done:
  assumes inv: "data_inv C T0 reqs \<sigma> G D" and lt: "num_issued \<sigma> < length reqs"
    and \<sigma>': "num_issued \<sigma>' = Suc (num_issued \<sigma>)" "heap_of \<sigma>' = H'" "ctxs \<sigma>' = (ctxs \<sigma>)(Suc (num_issued \<sigma>) := c')"
      "todo \<sigma>' = tl (todo \<sigma>)" "num_committed \<sigma>' = num_committed \<sigma>"
    and fr: "\<And>a. a < brk (heap_of \<sigma>) \<Longrightarrow> cells H' a = cells (heap_of \<sigma>) a"
    and pend: "pending \<sigma>' = pending \<sigma> \<union> {b. c_st c' = ST_RUNNING \<and> t_cur c' = Some b} \<Longrightarrow>
      world H' (pending \<sigma>') G' D' \<and> evolves (heap_of \<sigma>) (pending \<sigma>) G D H' (pending \<sigma>') G' D' \<and>
      link H' (pending \<sigma>') G' D' 0 (c_root c') (tree_at C T0 reqs (Suc (num_issued \<sigma>))) \<and>
      (c_st c' = ST_RUNNING \<longrightarrow> task_ok C T0 reqs \<sigma>' G' D' (Suc (num_issued \<sigma>)))"
    and fin: "c_st c' \<noteq> ST_RUNNING \<Longrightarrow> is_finished c'"
  shows "data_inv C T0 reqs \<sigma>' G' D'" "\<And>k. k \<le> num_issued \<sigma> \<Longrightarrow> running \<sigma>' k = running \<sigma> k"
    "\<And>k. running \<sigma> k \<Longrightarrow> prog D' \<sigma>' k = prog D \<sigma> k"
proof -
  let ?i = "Suc (num_issued \<sigma>)" and ?H = "heap_of \<sigma>"
  have run_le: "k \<le> num_issued \<sigma>" if "running \<sigma> k" for k using that by (simp add: running_def)
  show run': "\<And>k. k \<le> num_issued \<sigma> \<Longrightarrow> running \<sigma>' k = running \<sigma> k" using \<sigma>' by (auto simp: running_def)
  have run_i: "running \<sigma>' ?i \<longleftrightarrow> c_st c' = ST_RUNNING" by (simp add: running_def \<sigma>')
  have cases_k: "k \<le> num_issued \<sigma> \<or> k = ?i" if "k \<le> num_issued \<sigma>'" for k using that \<sigma>' by auto
  have P: "pending \<sigma>' = pending \<sigma> \<union> {b. c_st c' = ST_RUNNING \<and> t_cur c' = Some b}"
  proof (intro set_eqI iffI)
    fix a assume "a \<in> pending \<sigma>'"
    then obtain k where k: "running \<sigma>' k" "t_cur (ctxs \<sigma>' k) = Some a" by (auto simp: pending_def)
    then have "k \<le> num_issued \<sigma>'" by (simp add: running_def)
    with cases_k [of k] k run' [of k] run_i show "a \<in> pending \<sigma> \<union> {b. c_st c' = ST_RUNNING \<and> t_cur c' = Some b}"
      by (auto simp: \<sigma>' pending_def)
  next
    fix a assume "a \<in> pending \<sigma> \<union> {b. c_st c' = ST_RUNNING \<and> t_cur c' = Some b}"
    then consider k where "running \<sigma> k" "t_cur (ctxs \<sigma> k) = Some a" | "running \<sigma>' ?i" "t_cur c' = Some a"
      using run_i by (auto simp: pending_def)
    then show "a \<in> pending \<sigma>'"
    proof cases
      case (1 k)
      with run' [of k] run_le [of k] show ?thesis by (auto simp: pending_def \<sigma>' intro!: exI [of _ k])
    next
      case 2
      then show ?thesis by (auto simp: pending_def \<sigma>' intro!: exI [of _ ?i])
    qed
  qed
  note pd = pend [OF P]
  have ok: "task_ok C T0 reqs \<sigma>' G' D' k \<and> prog D' \<sigma>' k = prog D \<sigma> k" if k: "running \<sigma> k" for k
  proof (rule task_ok_evolves [OF inv k])
    show "ctxs \<sigma>' k = ctxs \<sigma> k" using run_le [OF k] \<sigma>' by simp
    show "evolves ?H (pending \<sigma>) G D (heap_of \<sigma>') (pending \<sigma>') G' D'" using pd \<sigma>' by simp
    show "a \<in> pending \<sigma>' \<and> blank (heap_of \<sigma>') a" if "t_cur (ctxs \<sigma> k) = Some a" "a < brk ?H" "blank ?H a" for a
      using that k fr P \<sigma>' by (auto simp: pending_def blank_def)
  qed
  then show "\<And>k. running \<sigma> k \<Longrightarrow> prog D' \<sigma>' k = prog D \<sigma> k" by simp
  show "data_inv C T0 reqs \<sigma>' G' D'" unfolding data_inv_def
  proof (intro conjI allI impI)
    show "world (heap_of \<sigma>') (pending \<sigma>') G' D'" using pd \<sigma>' by simp
    show "num_issued \<sigma>' \<le> length reqs" "todo \<sigma>' = drop (num_issued \<sigma>') reqs" "num_committed \<sigma>' \<le> num_issued \<sigma>'"
      using data_invD(2,3,8) [OF inv] \<sigma>' lt by (simp_all add: drop_Suc tl_drop)
    fix k
    show "k \<le> num_issued \<sigma>' \<Longrightarrow>
        link (heap_of \<sigma>') (pending \<sigma>') G' D' 0 (c_root (ctxs \<sigma>' k)) (tree_at C T0 reqs k)"
      using cases_k [of k] pd link_evolves [OF data_invD(4) [OF inv] data_invD(1) [OF inv], of k] \<sigma>' by auto
    show "running \<sigma>' k \<Longrightarrow> task_ok C T0 reqs \<sigma>' G' D' k"
      using cases_k [of k] ok [of k] run' [of k] run_i pd by (auto simp: running_def \<sigma>')
    show "k \<le> num_issued \<sigma>' \<Longrightarrow> \<not> running \<sigma>' k \<Longrightarrow> is_finished (ctxs \<sigma>' k)"
      using cases_k [of k] data_invD(6) [OF inv, of k] fin run' [of k] run_i \<sigma>' by auto
    show "num_issued \<sigma>' < k \<Longrightarrow> ctxs \<sigma>' k = init_ctx" using data_invD(7) [OF inv, of k] \<sigma>' by simp
    show "k \<le> num_committed \<sigma>' \<Longrightarrow> \<not> running \<sigma>' k"
      using data_invD(8) [OF inv] data_invD(9) [OF inv, of k] run' [of k] \<sigma>' by simp
  qed
qed

lemma issue_ok:
  assumes pre: "vers T0 \<subseteq> {0}" "length reqs \<le> num_tasks C"
    and inv: "data_inv C T0 reqs \<sigma> G D" and todo: "todo \<sigma> = r # rs"
  shows "init_context C r \<sigma> = Wait \<or> (\<exists>H' c' G' D'.
    init_context C r \<sigma> = Done (\<sigma>\<lparr>num_issued := Suc (num_issued \<sigma>), heap_of := H',
      ctxs := (ctxs \<sigma>)(Suc (num_issued \<sigma>) := c')\<rparr>) \<and>
    (\<forall>\<sigma>'. num_issued \<sigma>' = Suc (num_issued \<sigma>) \<longrightarrow> heap_of \<sigma>' = H' \<longrightarrow>
       ctxs \<sigma>' = (ctxs \<sigma>)(Suc (num_issued \<sigma>) := c') \<longrightarrow> todo \<sigma>' = rs \<longrightarrow> num_committed \<sigma>' = num_committed \<sigma> \<longrightarrow>
       data_inv C T0 reqs \<sigma>' G' D' \<and> (\<forall>k \<le> num_issued \<sigma>. running \<sigma>' k = running \<sigma> k) \<and>
       (\<forall>k. running \<sigma> k \<longrightarrow> prog D' \<sigma>' k = prog D \<sigma> k) \<and>
       (running \<sigma>' (Suc (num_issued \<sigma>)) \<longrightarrow> prog D' \<sigma>' (Suc (num_issued \<sigma>)) = 0 \<and> c_stage c' = 0)) \<and> G \<subseteq>\<^sub>m G')"
proof -
  let ?n = "num_issued \<sigma>" and ?i = "Suc (num_issued \<sigma>)" and ?H = "heap_of \<sigma>" and ?P = "pending \<sigma>"
  obtain opn elem where r: "r = (opn, elem)" by fastforce
  have lt: "?n < length reqs" and ri: "reqs ! ?n = (opn, elem)"
    using data_invD(3) [OF inv] todo r by (metis drop_all list.discI not_less, metis list.inject Cons_nth_drop_Suc drop_all not_less list.discI)
  then have le: "?n \<le> num_tasks C" "?i \<le> num_tasks C" using pre(2) by simp_all
  note w = data_invD(1) [OF inv]
  have ci: "ctxs \<sigma> ?i = init_ctx" by (rule data_invD(7) [OF inv]) simp
  have prev: "link ?H ?P G D 0 (c_root (ctxs \<sigma> ?n)) (tree_at C T0 reqs ?n)" by (rule data_invD(4) [OF inv]) simp
  note I = init_context.simps at_ctx_def set_ctx_def Let_def
  note ddone = data_issue_done [OF inv lt]
  have tl: "rs = tl (todo \<sigma>)" using todo by simp
  show ?thesis
  proof (cases "opn = OP_NONE")
    case True
    let ?c = "ctx_done (init_ctx\<lparr>c_op := OP_NONE, c_ver := ?i, c_root := c_root (ctxs \<sigma> ?n)\<rparr>)"
    have "tree_at C T0 reqs ?i = tree_at C T0 reqs ?n" using True ri by (simp add: tree_at_Suc)
    then have "data_inv C T0 reqs \<sigma>' G D \<and> (\<forall>k \<le> num_issued \<sigma>. running \<sigma>' k = running \<sigma> k) \<and>
       (\<forall>k. running \<sigma> k \<longrightarrow> prog D \<sigma>' k = prog D \<sigma> k)"
      if "num_issued \<sigma>' = ?i" "heap_of \<sigma>' = ?H" "ctxs \<sigma>' = (ctxs \<sigma>)(?i := ?c)" "todo \<sigma>' = rs" "num_committed \<sigma>' = num_committed \<sigma>" for \<sigma>'
      using ddone [OF that(1-3) that(4)[unfolded tl] that(5), of G D] w prev by (simp add: evolves_refl)
    moreover have "\<not> running \<sigma>' ?i" if "ctxs \<sigma>' = (ctxs \<sigma>)(?i := ?c)" for \<sigma>' using that by (simp add: running_def)
    moreover have "init_context C r \<sigma> = Done (\<sigma>\<lparr>num_issued := ?i, heap_of := ?H, ctxs := (ctxs \<sigma>)(?i := ?c)\<rparr>)"
      using True le ci by (simp add: r I)
    ultimately show ?thesis by (intro disjI2 exI [of _ ?H] exI [of _ ?c] exI [of _ G] exI [of _ D]) auto
  next
    case False
    let ?c = "init_ctx\<lparr>c_op := opn, c_ver := ?i, c_pry := hash_of C elem, c_key := elem, t_past := c_root (ctxs \<sigma> ?n)\<rparr>"
    let ?u = "update_step (num_committed \<sigma>) At_root ?H ?c"
    have so: "search_op ?c (tree_at C T0 reqs ?n) = tree_at C T0 reqs ?i"
      using False ri by (cases opn) (simp_all add: search_op_def tree_at_Suc)
    have ic: "init_context C r \<sigma> = bind_outcome ?u (\<lambda>(H, c). Done (set_ctx (\<sigma>\<lparr>num_issued := ?i\<rparr>) ?i (H, c\<lparr>t_cur := c_root c\<rparr>)))"
      using False le ci by (simp add: r I)
    have "?u = Wait \<or> call_ok ?H ?P G D ?c 0 (search_op ?c (tree_at C T0 reqs ?n)) ?u"
      by (rule update_step_ok [OF w]) (use False prev older_tree_at [OF pre(1)] pending_new [OF inv] in \<open>auto simp: init_ctx_def\<close>)
    then show ?thesis
    proof
      assume "?u = Wait"
      then show ?thesis using ic by simp
    next
      assume "call_ok ?H ?P G D ?c 0 (search_op ?c (tree_at C T0 reqs ?n)) ?u"
      then obtain H1 c1 where u: "?u = Done (H1, c1)" and same: "same_task ?c c1"
        and fr: "\<And>a. a < brk ?H \<Longrightarrow> cells H1 a = cells ?H a"
        and dd: "call_done ?H ?P G D 0 (tree_at C T0 reqs ?i) H1 c1 \<or> call_deeper ?H ?P G D ?c 0 (tree_at C T0 reqs ?i) H1 c1"
        unfolding call_ok_def so by blast
      let ?c1 = "c1\<lparr>t_cur := c_root c1\<rparr>"
      have ic': "init_context C r \<sigma> = Done (\<sigma>\<lparr>num_issued := ?i, heap_of := H1, ctxs := (ctxs \<sigma>)(?i := ?c1)\<rparr>)"
        by (simp add: ic u set_ctx_def)
      from dd show ?thesis
      proof
        assume "call_done ?H ?P G D 0 (tree_at C T0 reqs ?i) H1 c1"
        then obtain G1 where d: "is_finished c1" "world H1 ?P G1 D" "evolves ?H ?P G D H1 ?P G1 D"
          "link H1 ?P G1 D 0 (c_root c1) (tree_at C T0 reqs ?i)" by (auto simp: call_done_def)
        have nr: "c_st c1 \<noteq> ST_RUNNING" "is_finished ?c1" using d(1) by (auto simp: is_finished_def)
        have "data_inv C T0 reqs \<sigma>' G1 D \<and> (\<forall>k \<le> num_issued \<sigma>. running \<sigma>' k = running \<sigma> k) \<and>
           (\<forall>k. running \<sigma> k \<longrightarrow> prog D \<sigma>' k = prog D \<sigma> k)"
          if "num_issued \<sigma>' = ?i" "heap_of \<sigma>' = H1" "ctxs \<sigma>' = (ctxs \<sigma>)(?i := ?c1)" "todo \<sigma>' = rs" "num_committed \<sigma>' = num_committed \<sigma>" for \<sigma>'
          using ddone [OF that(1-3) that(4)[unfolded tl] that(5), of G1 D] fr d nr by simp
        moreover have "\<not> running \<sigma>' ?i" if "ctxs \<sigma>' = (ctxs \<sigma>)(?i := ?c1)" for \<sigma>' using that nr by (simp add: running_def)
        moreover have "G \<subseteq>\<^sub>m G1" using d(3) by (simp add: evolves_def)
        ultimately show ?thesis using ic' by (intro disjI2 exI [of _ H1] exI [of _ ?c1] exI [of _ G1] exI [of _ D]) auto
      next
        let ?R = "tree_at C T0 reqs ?i"
        let ?G = "G(brk ?H \<mapsto> ?R)" and ?D = "D(brk ?H := 0)" and ?P1 = "insert (brk ?H) ?P"
        assume "call_deeper ?H ?P G D ?c 0 ?R H1 c1"
        then have d: "c_st c1 = ST_RUNNING" "c_stage c1 = 0" "c_root c1 = Some (brk ?H)" "blank H1 (brk ?H)"
          "world H1 ?P1 ?G ?D" "evolves ?H ?P G D H1 ?P1 ?G ?D" "job H1 ?P1 ?G ?D c1 (brk ?H)"
          by (simp_all add: call_deeper_def init_ctx_def)
        have lk: "link H1 ?P1 ?G ?D 0 (c_root c1) ?R" by (simp add: d(3) link_def near_def)
        have "data_inv C T0 reqs \<sigma>' ?G ?D \<and> (\<forall>k \<le> num_issued \<sigma>. running \<sigma>' k = running \<sigma> k) \<and>
           (\<forall>k. running \<sigma> k \<longrightarrow> prog ?D \<sigma>' k = prog D \<sigma> k) \<and> prog ?D \<sigma>' ?i = 0"
          if s: "num_issued \<sigma>' = ?i" "heap_of \<sigma>' = H1" "ctxs \<sigma>' = (ctxs \<sigma>)(?i := ?c1)" "todo \<sigma>' = rs" "num_committed \<sigma>' = num_committed \<sigma>" for \<sigma>'
        proof -
          have "world H1 (pending \<sigma>') ?G ?D \<and> evolves ?H ?P G D H1 (pending \<sigma>') ?G ?D \<and>
            link H1 (pending \<sigma>') ?G ?D 0 (c_root ?c1) ?R \<and> task_ok C T0 reqs \<sigma>' ?G ?D ?i"
            if "pending \<sigma>' = ?P \<union> {b. c_st ?c1 = ST_RUNNING \<and> t_cur ?c1 = Some b}"
          proof -
            have "pending \<sigma>' = ?P1" using that d by auto
            with d lk s same show ?thesis by (auto simp: task_ok_def same_task_def)
          qed
          with ddone [OF s(1-3) s(4)[unfolded tl] s(5), of ?G ?D] fr d(1) show ?thesis
            by (simp add: prog_def s(3) d(3))
        qed
        moreover have "G \<subseteq>\<^sub>m ?G" using d(6) by (simp add: evolves_def)
        ultimately show ?thesis using ic' d(2)
          by (intro disjI2 exI [of _ H1] exI [of _ ?c1] exI [of _ ?G] exI [of _ ?D]) auto
      qed
    qed
  qed
qed

end
