(* ===== verification/Scheduler_Safety.thy ===== *)
theory Scheduler_Safety
  imports Scheduler_Inv
begin

text \<open>
  Every step of every thread keeps the invariant of theory Scheduler_Inv and does not crash. The
  consequences are drawn at the end: memory safety, and that each finished version is the tree of
  the sequential execution.
\<close>

section \<open>Tokens\<close>

lemma pipe_okD:
  assumes "token_inv C \<sigma>" "1 \<le> j" "j \<le> num_pipes C"
  shows "1 \<le> p_pos (pipes \<sigma> j)" "produced \<sigma> j \<le> produced \<sigma> (j - 1)"
    "p_pc (pipes \<sigma> j) = P_exec \<or> p_pc (pipes \<sigma> j) = P_put \<Longrightarrow> p_pos (pipes \<sigma> j) \<le> produced \<sigma> (j - 1)"
    "tokens \<sigma> (j - 1) = of_nat (produced \<sigma> (j - 1)) - of_nat (consumed \<sigma> j)"
  using assms by (auto simp: token_inv_def pipe_ok_def)

lemma produced_mono:
  assumes "token_inv C \<sigma>" "j' \<le> num_pipes C" "j \<le> j'"
  shows "produced \<sigma> j' \<le> produced \<sigma> j"
  using assms(3,2)
proof (induction j' rule: dec_induct)
  case (step k)
  then have "produced \<sigma> (Suc k) \<le> produced \<sigma> k" using pipe_okD(2) [OF assms(1), of "Suc k"] by simp
  with step show ?case by simp
qed simp

lemma produced_le: "token_inv C \<sigma> \<Longrightarrow> j \<le> num_pipes C \<Longrightarrow> produced \<sigma> j \<le> num_issued \<sigma>"
  using produced_mono [of C \<sigma> j 0] by (simp add: produced_def split: if_splits)

lemma passed_produced:
  assumes "token_inv C \<sigma>" "1 \<le> j" "j \<le> num_pipes C" "1 \<le> i"
  shows "i \<le> produced \<sigma> j \<Longrightarrow> passed \<sigma> j i" "passed \<sigma> j i \<Longrightarrow> i \<le> produced \<sigma> (j - 1)"
  using assms pipe_okD(1,2,3) [OF assms(1-3)] by (auto simp: passed_def produced_def split: if_splits)

lemma submitted_passed:
  assumes "token_inv C \<sigma>" "i \<le> num_submitted \<sigma>" "1 \<le> i" "1 \<le> j" "j \<le> num_pipes C"
  shows "passed \<sigma> j i"
proof -
  have "i \<le> produced \<sigma> (num_pipes C)" using assms(1,2) by (auto simp: token_inv_def)
  also have "\<dots> \<le> produced \<sigma> j" by (rule produced_mono [OF assms(1) _ assms(5)]) simp
  finally show ?thesis using passed_produced(1) [OF assms(1,4,5,3)] by simp
qed

lemma submitted_issued: "token_inv C \<sigma> \<Longrightarrow> num_submitted \<sigma> \<le> num_issued \<sigma>"
  using produced_le [of C \<sigma> "num_pipes C"] by (auto simp: token_inv_def)

text \<open>The counters are below \<open>2 ^ 64 - 1\<close>, so a wrapped difference shows which count is larger.\<close>

lemma of_nat_u64_eq: "a < 2 ^ 64 \<Longrightarrow> b < 2 ^ 64 \<Longrightarrow> (of_nat a :: u64) = of_nat b \<longleftrightarrow> a = b"
  by (simp add: word_of_nat_eq_iff take_bit_nat_eq_self)

lemma token_zero:
  assumes "a \<le> b" "b < 2 ^ 64 - 1"
  shows "(of_nat b - of_nat a :: u64) = 0 \<longleftrightarrow> b = a"
  using of_nat_u64_eq [of b a] assms by simp

lemma token_minus_one:
  assumes "a \<le> Suc b" "b < 2 ^ 64 - 1"
  shows "(of_nat b - of_nat a :: u64) = - 1 \<longleftrightarrow> a = Suc b"
proof -
  have "(of_nat b - of_nat a :: u64) = - 1 \<longleftrightarrow> (of_nat (Suc b) :: u64) = of_nat a"
    by (auto simp: algebra_simps)
  also have "\<dots> \<longleftrightarrow> Suc b = a" using assms by (intro of_nat_u64_eq) simp_all
  finally show ?thesis by auto
qed

text \<open>The local changes of one pipe.\<close>

lemma token_inv_cong:
  assumes "token_inv C \<sigma>" "pipes \<sigma>' = pipes \<sigma>" "tokens \<sigma>' = tokens \<sigma>" "master \<sigma>' = master \<sigma>" "num_issued \<sigma>' = num_issued \<sigma>"
    "boarder \<sigma>' = boarder \<sigma>" "num_submitted \<sigma>' = num_submitted \<sigma>"
  shows "token_inv C \<sigma>'"
proof -
  have "produced \<sigma>' = produced \<sigma>" "consumed \<sigma>' = consumed \<sigma>" using assms by (simp_all add: produced_def consumed_def fun_eq_iff)
  with assms show ?thesis by (simp add: token_inv_def pipe_ok_def)
qed

lemma token_pipe_move:
  assumes inv: "token_inv C \<sigma>" and j: "1 \<le> j" "j \<le> num_pipes C"
    and \<sigma>': "pipes \<sigma>' = (pipes \<sigma>)(j := (pipes \<sigma> j)\<lparr>p_pc := pc\<rparr>)" "master \<sigma>' = master \<sigma>" "num_issued \<sigma>' = num_issued \<sigma>"
      "boarder \<sigma>' = boarder \<sigma>" "num_submitted \<sigma>' = num_submitted \<sigma>"
    and tok: "tokens \<sigma>' = (if p_pc (pipes \<sigma> j) = P_take then (tokens \<sigma>)(j - 1 := tokens \<sigma> (j - 1) - 1) else tokens \<sigma>)"
    and pc: "pc \<noteq> P_take" "pc \<noteq> P_wait \<Longrightarrow> p_pos (pipes \<sigma> j) \<le> produced \<sigma> (j - 1)"
  shows "token_inv C \<sigma>'"
proof -
  have pr: "produced \<sigma>' = produced \<sigma>" by (rule ext) (simp add: produced_def \<sigma>')
  have co: "consumed \<sigma>' k = (if k = j then p_pos (pipes \<sigma> j) else consumed \<sigma> k)" for k
    using pc(1) by (simp add: consumed_def \<sigma>')
  have "pipe_ok C \<sigma>' k" if k: "1 \<le> k" "k \<le> num_pipes C" for k
  proof (cases "k = j")
    case True
    have "tokens \<sigma>' (j - 1) = of_nat (produced \<sigma> (j - 1)) - of_nat (p_pos (pipes \<sigma> j))"
    proof (cases "p_pc (pipes \<sigma> j) = P_take")
      case True
      then show ?thesis using pipe_okD(1,4) [OF inv j] tok
        by (cases "p_pos (pipes \<sigma> j)") (auto simp: consumed_def algebra_simps)
    next
      case False
      then show ?thesis using pipe_okD(4) [OF inv j] tok by (simp add: consumed_def)
    qed
    with True pipe_okD [OF inv j] pc(2) show ?thesis by (auto simp: pipe_ok_def pr co \<sigma>')
  next
    case False
    then have "k - 1 \<noteq> j - 1" using k j by simp
    then have "tokens \<sigma>' (k - 1) = tokens \<sigma> (k - 1)" using tok by simp
    with False pipe_okD [OF inv k] show ?thesis by (auto simp: pipe_ok_def pr co \<sigma>')
  qed
  moreover have "tokens \<sigma>' (num_pipes C) = tokens \<sigma> (num_pipes C)" using tok j by auto
  ultimately show ?thesis using inv by (simp add: token_inv_def pr \<sigma>')
qed

lemma token_pipe_put:
  assumes inv: "token_inv C \<sigma>" and j: "1 \<le> j" "j \<le> num_pipes C" and pc: "p_pc (pipes \<sigma> j) = P_put"
    and \<sigma>': "pipes \<sigma>' = (pipes \<sigma>)(j := \<lparr>p_pos = Suc (p_pos (pipes \<sigma> j)), p_pc = P_take\<rparr>)" "master \<sigma>' = master \<sigma>"
      "num_issued \<sigma>' = num_issued \<sigma>" "boarder \<sigma>' = boarder \<sigma>" "num_submitted \<sigma>' = num_submitted \<sigma>"
      "tokens \<sigma>' = (tokens \<sigma>)(j := tokens \<sigma> j + 1)"
  shows "token_inv C \<sigma>'"
proof -
  note ok = pipe_okD [OF inv j]
  have pr: "produced \<sigma>' k = (if k = j then Suc (produced \<sigma> j) else produced \<sigma> k)" for k
    using ok(1) j by (auto simp: produced_def \<sigma>')
  have co: "consumed \<sigma>' = consumed \<sigma>" using pc by (auto simp: consumed_def \<sigma>' fun_eq_iff)
  have "pipe_ok C \<sigma>' k" if k: "1 \<le> k" "k \<le> num_pipes C" for k
  proof (cases "k = j")
    case True
    then have "produced \<sigma>' (k - 1) = produced \<sigma> (k - 1)" using j by (simp add: pr)
    moreover have "Suc (produced \<sigma> j) = p_pos (pipes \<sigma> j)" using ok(1) j by (simp add: produced_def)
    moreover have "tokens \<sigma>' (k - 1) = tokens \<sigma> (k - 1)" using True j \<sigma>' by simp
    ultimately show ?thesis using True ok pc j by (simp add: pipe_ok_def pr co \<sigma>'(1))
  next
    case False
    note okk = pipe_okD [OF inv k]
    have "tokens \<sigma>' (k - 1) = of_nat (produced \<sigma>' (k - 1)) - of_nat (consumed \<sigma>' k)"
      using okk(4) by (cases "k - 1 = j") (auto simp: pr co \<sigma>'(6))
    moreover have "produced \<sigma> (k - 1) \<le> produced \<sigma>' (k - 1)" by (simp add: pr)
    ultimately show ?thesis using okk False by (auto simp: pipe_ok_def pr [of k] co \<sigma>'(1) intro: order_trans)
  qed
  then show ?thesis using inv by (auto simp: token_inv_def pr \<sigma>' Suc_diff_le)
qed

lemma token_master_push:
  assumes inv: "token_inv C \<sigma>" and m: "master \<sigma> = M_push"
    and \<sigma>': "pipes \<sigma>' = pipes \<sigma>" "master \<sigma>' = M_issue" "num_issued \<sigma>' = num_issued \<sigma>" "boarder \<sigma>' = boarder \<sigma>"
      "num_submitted \<sigma>' = num_submitted \<sigma>" "tokens \<sigma>' = (tokens \<sigma>)(0 := tokens \<sigma> 0 + 1)"
  shows "token_inv C \<sigma>'"
proof -
  have i: "1 \<le> num_issued \<sigma>" using inv m by (simp add: token_inv_def)
  have pr: "produced \<sigma>' k = (if k = 0 then Suc (produced \<sigma> 0) else produced \<sigma> k)" for k
    using i m by (auto simp: produced_def \<sigma>')
  have co: "consumed \<sigma>' = consumed \<sigma>" by (simp add: consumed_def \<sigma>' fun_eq_iff)
  have "pipe_ok C \<sigma>' k" if k: "1 \<le> k" "k \<le> num_pipes C" for k
    using pipe_okD [OF inv k] k by (cases "k - 1 = 0") (auto simp: pipe_ok_def pr co \<sigma>')
  then show ?thesis using inv by (auto simp: token_inv_def pr \<sigma>' Suc_diff_le)
qed

lemma token_master_issue:
  assumes inv: "token_inv C \<sigma>" and m: "master \<sigma> = M_issue"
    and \<sigma>': "pipes \<sigma>' = pipes \<sigma>" "master \<sigma>' = M_push" "num_issued \<sigma>' = Suc (num_issued \<sigma>)" "boarder \<sigma>' = boarder \<sigma>"
      "num_submitted \<sigma>' = num_submitted \<sigma>" "tokens \<sigma>' = tokens \<sigma>"
  shows "token_inv C \<sigma>'"
proof -
  have pr: "produced \<sigma>' = produced \<sigma>" using m by (auto simp: produced_def \<sigma>' fun_eq_iff)
  have co: "consumed \<sigma>' = consumed \<sigma>" by (simp add: consumed_def \<sigma>' fun_eq_iff)
  show ?thesis using inv by (simp add: token_inv_def pipe_ok_def pr co \<sigma>')
qed

lemma token_boarder_take:
  assumes inv: "token_inv C \<sigma>" and lt: "produced \<sigma> (num_pipes C) < 2 ^ 64"
    and \<sigma>': "pipes \<sigma>' = pipes \<sigma>" "master \<sigma>' = master \<sigma>" "num_issued \<sigma>' = num_issued \<sigma>"
      "boarder \<sigma>' = \<lparr>b_submitted = b_submitted (boarder \<sigma>) + unat (tokens \<sigma> (num_pipes C)), b_pc = B_publish\<rparr>"
      "num_submitted \<sigma>' = num_submitted \<sigma>" "tokens \<sigma>' = (tokens \<sigma>)(num_pipes C := 0)"
  shows "token_inv C \<sigma>'"
proof -
  let ?p = "produced \<sigma> (num_pipes C)" and ?s = "b_submitted (boarder \<sigma>)"
  have le: "?s \<le> ?p" and tok: "tokens \<sigma> (num_pipes C) = of_nat (?p - ?s)" using inv by (simp_all add: token_inv_def)
  have u: "unat (tokens \<sigma> (num_pipes C)) = ?p - ?s"
    using lt tok by (simp add: unat_of_nat)
  have pr: "produced \<sigma>' = produced \<sigma>" "consumed \<sigma>' = consumed \<sigma>" by (auto simp: produced_def consumed_def \<sigma>' fun_eq_iff)
  have "tokens \<sigma>' (k - 1) = tokens \<sigma> (k - 1)" if "1 \<le> k" "k \<le> num_pipes C" for k using that \<sigma>' by auto
  moreover have "tokens \<sigma>' (num_pipes C) = 0" by (simp add: \<sigma>')
  ultimately show ?thesis using inv le u by (auto simp: token_inv_def pipe_ok_def pr \<sigma>'(1-5))
qed

lemma token_boarder_publish:
  assumes "token_inv C \<sigma>" "pipes \<sigma>' = pipes \<sigma>" "tokens \<sigma>' = tokens \<sigma>" "master \<sigma>' = master \<sigma>" "num_issued \<sigma>' = num_issued \<sigma>"
    "b_submitted (boarder \<sigma>') = b_submitted (boarder \<sigma>)" "num_submitted \<sigma>' = b_submitted (boarder \<sigma>)"
  shows "token_inv C \<sigma>'"
proof -
  have "produced \<sigma>' = produced \<sigma>" "consumed \<sigma>' = consumed \<sigma>" using assms by (simp_all add: produced_def consumed_def fun_eq_iff)
  with assms show ?thesis by (simp add: token_inv_def pipe_ok_def)
qed

section \<open>Control\<close>

lemma control_invD:
  assumes "control_inv C \<sigma> G D"
  shows "token_inv C \<sigma>" "running \<sigma> i \<Longrightarrow> progress_ok C \<sigma> D i"
    "1 \<le> w \<Longrightarrow> w \<le> num_workers C \<Longrightarrow> worker_ok C \<sigma> G D (workers \<sigma> w)"
    "1 \<le> w \<Longrightarrow> w \<le> num_workers C \<Longrightarrow> 1 \<le> w' \<Longrightarrow> w' \<le> num_workers C \<Longrightarrow> w \<noteq> w' \<Longrightarrow>
      active (w_pc (workers \<sigma> w)) \<Longrightarrow> active (w_pc (workers \<sigma> w')) \<Longrightarrow> w_task (workers \<sigma> w) \<noteq> w_task (workers \<sigma> w')"
    "num_committed \<sigma> = k_committed (collector \<sigma>)" "k_committed (collector \<sigma>) \<le> k_next (collector \<sigma>)"
    "k_next (collector \<sigma>) \<le> num_issued \<sigma>" "i \<le> k_next (collector \<sigma>) \<Longrightarrow> \<not> running \<sigma> i"
  using assms by (auto simp: control_inv_def)

lemma looping_active: "looping pc \<Longrightarrow> active pc"
  by (simp add: active_def)

text \<open>A worker is not affected by what happens to other tasks.\<close>

lemma worker_ok_mono:
  assumes "worker_ok C \<sigma> G D l" "num_submitted \<sigma> \<le> num_submitted \<sigma>'" "num_fetched \<sigma> \<le> num_fetched \<sigma>'" "G \<subseteq>\<^sub>m G'"
    and "looping (w_pc l) \<Longrightarrow> running \<sigma>' (w_task l) = running \<sigma> (w_task l)"
    and "looping (w_pc l) \<Longrightarrow> running \<sigma> (w_task l) \<Longrightarrow> prog D' \<sigma>' (w_task l) = prog D \<sigma> (w_task l) \<and>
      t_past (ctxs \<sigma>' (w_task l)) = t_past (ctxs \<sigma> (w_task l))"
  shows "worker_ok C \<sigma>' G' D' l"
proof -
  have G: "G a = Some U \<Longrightarrow> G' a = Some U" for a U using assms(4) by (metis domI map_le_def)
  show ?thesis using assms(1-3,5,6)
    by (cases "w_pc l") (auto simp: worker_ok_def stage_ok_def active_def intro: G)
qed

text \<open>The stage of a task is known to the worker that works on it.\<close>

lemma worker_stage:
  assumes "worker_ok C \<sigma> G D l" "looping (w_pc l)" "running \<sigma> (w_task l)"
  shows "\<exists>s. (w_pc l = W_loop s \<or> w_pc l = W_depend s \<or> (\<exists>v. w_pc l = W_spin s v)) \<and> stage_ok C \<sigma> D (w_task l) s"
  using assms by (cases "w_pc l") (auto simp: worker_ok_def)

lemma progress_okD:
  assumes "progress_ok C \<sigma> D i" "1 \<le> j" "j \<le> num_pipes C"
  shows "passed \<sigma> j i \<Longrightarrow> j \<le> prog D \<sigma> i" "\<not> passed \<sigma> j i \<Longrightarrow> prog D \<sigma> i < j"
  using assms unfolding progress_ok_def by (metis atLeastAtMost_iff)+

lemma progress_ok_cong:
  assumes "progress_ok C \<sigma> D i" "prog D' \<sigma>' i = prog D \<sigma> i" "c_stage (ctxs \<sigma>' i) = c_stage (ctxs \<sigma> i)"
    and "\<And>j. 1 \<le> j \<Longrightarrow> j \<le> num_pipes C \<Longrightarrow> passed \<sigma>' j i = passed \<sigma> j i"
    and "\<And>w. 1 \<le> w \<Longrightarrow> w \<le> num_workers C \<Longrightarrow> looping (w_pc (workers \<sigma> w)) \<Longrightarrow> w_task (workers \<sigma> w) = i \<Longrightarrow>
      looping (w_pc (workers \<sigma>' w)) \<and> w_task (workers \<sigma>' w) = i"
  shows "progress_ok C \<sigma>' D' i"
proof -
  have "prog D \<sigma> i \<le> num_pipes C \<or> (\<exists>w \<in> {1..num_workers C}. looping (w_pc (workers \<sigma>' w)) \<and> w_task (workers \<sigma>' w) = i)"
    using assms(1,5) unfolding progress_ok_def by (meson atLeastAtMost_iff)
  with assms(1-4) show ?thesis unfolding progress_ok_def by simp
qed

text \<open>Steps that leave the tasks alone.\<close>

definition same_tasks :: "state \<Rightarrow> state \<Rightarrow> (nat \<Rightarrow> nat) \<Rightarrow> bool" where
  "same_tasks \<sigma> \<sigma>' D \<longleftrightarrow> running \<sigma>' = running \<sigma> \<and> prog D \<sigma>' = prog D \<sigma> \<and>
     (\<forall>i. t_past (ctxs \<sigma>' i) = t_past (ctxs \<sigma> i)) \<and> num_issued \<sigma>' = num_issued \<sigma>"

definition same_collector :: "state \<Rightarrow> state \<Rightarrow> bool" where
  "same_collector \<sigma> \<sigma>' \<longleftrightarrow> num_committed \<sigma>' = num_committed \<sigma> \<and> collector \<sigma>' = collector \<sigma>"

lemma control_pipes:
  assumes inv: "control_inv C \<sigma> G D" and tok: "token_inv C \<sigma>'" and same: "same_tasks \<sigma> \<sigma>' D" "same_collector \<sigma> \<sigma>'"
    and st: "\<And>i. c_stage (ctxs \<sigma>' i) = c_stage (ctxs \<sigma> i)"
    and pa: "\<And>j i. 1 \<le> j \<Longrightarrow> j \<le> num_pipes C \<Longrightarrow> running \<sigma> i \<Longrightarrow> passed \<sigma>' j i = passed \<sigma> j i"
    and w: "workers \<sigma>' = workers \<sigma>" "num_fetched \<sigma>' = num_fetched \<sigma>" "num_submitted \<sigma> \<le> num_submitted \<sigma>'"
  shows "control_inv C \<sigma>' G D"
proof -
  have pr: "progress_ok C \<sigma>' D i" if "running \<sigma> i" for i
    by (rule progress_ok_cong [OF control_invD(2) [OF inv that]]) (use same st pa that w in \<open>auto simp: same_tasks_def\<close>)
  have "worker_ok C \<sigma>' G D (workers \<sigma> k)" if "1 \<le> k" "k \<le> num_workers C" for k
    by (rule worker_ok_mono [OF control_invD(3) [OF inv that]]) (use same w in \<open>auto simp: same_tasks_def\<close>)
  with inv tok pr same w show ?thesis by (auto simp: control_inv_def same_tasks_def same_collector_def)
qed

text \<open>A step of one worker: its new local state, and what it keeps of its task.\<close>

lemma control_worker:
  assumes inv: "control_inv C \<sigma> G D" and tok: "token_inv C \<sigma>'" and same: "same_tasks \<sigma> \<sigma>' D" "same_collector \<sigma> \<sigma>'"
    and st: "\<And>i. running \<sigma> i \<Longrightarrow> c_stage (ctxs \<sigma>' i) = c_stage (ctxs \<sigma> i) \<or>
      num_pipes C + c_stage (ctxs \<sigma>' i) \<le> Suc (prog D \<sigma> i)"
    and pi: "pipes \<sigma>' = pipes \<sigma>" and sub: "num_submitted \<sigma>' = num_submitted \<sigma>" and fe: "num_fetched \<sigma> \<le> num_fetched \<sigma>'"
    and w: "1 \<le> w" "w \<le> num_workers C" "workers \<sigma>' = (workers \<sigma>)(w := l)"
    and ok: "worker_ok C \<sigma>' G D l"
    and lp: "looping (w_pc (workers \<sigma> w)) \<Longrightarrow> running \<sigma> (w_task (workers \<sigma> w)) \<Longrightarrow>
      looping (w_pc l) \<and> w_task l = w_task (workers \<sigma> w)"
    and ac: "active (w_pc l) \<Longrightarrow> active (w_pc (workers \<sigma> w)) \<and> w_task l = w_task (workers \<sigma> w) \<or> num_fetched \<sigma> < w_task l"
  shows "control_inv C \<sigma>' G D"
proof -
  have pr: "progress_ok C \<sigma>' D i" if run: "running \<sigma> i" for i
  proof -
    note p = control_invD(2) [OF inv run]
    have same': "prog D \<sigma>' i = prog D \<sigma> i" "\<And>j. passed \<sigma>' j i = passed \<sigma> j i"
      using same pi by (simp_all add: same_tasks_def passed_def)
    have "looping (w_pc (workers \<sigma>' k)) \<and> w_task (workers \<sigma>' k) = i"
      if "looping (w_pc (workers \<sigma> k))" "w_task (workers \<sigma> k) = i" for k
      using that lp run w(3) by (cases "k = w") auto
    then have "prog D \<sigma> i \<le> num_pipes C \<or> (\<exists>w \<in> {1..num_workers C}. looping (w_pc (workers \<sigma>' w)) \<and> w_task (workers \<sigma>' w) = i)"
      using p unfolding progress_ok_def by meson
    with p st [OF run] same' show ?thesis unfolding progress_ok_def by auto
  qed
  have wk: "worker_ok C \<sigma>' G D (workers \<sigma>' k)" if k: "1 \<le> k" "k \<le> num_workers C" for k
  proof (cases "k = w")
    case False
    have "worker_ok C \<sigma>' G D (workers \<sigma> k)"
      by (rule worker_ok_mono [OF control_invD(3) [OF inv k]]) (use same sub fe in \<open>auto simp: same_tasks_def\<close>)
    with False w(3) show ?thesis by simp
  qed (use ok w in simp)
  have dist: "w_task (workers \<sigma>' a) \<noteq> w_task (workers \<sigma>' b)"
    if a: "1 \<le> a" "a \<le> num_workers C" and b: "1 \<le> b" "b \<le> num_workers C" and ab: "a \<noteq> b"
      "active (w_pc (workers \<sigma>' a))" "active (w_pc (workers \<sigma>' b))" for a b
  proof -
    have fe': "w_task (workers \<sigma> k) \<le> num_fetched \<sigma>" if "1 \<le> k" "k \<le> num_workers C" "active (w_pc (workers \<sigma> k))" for k
      using control_invD(3) [OF inv that(1,2)] that(3) by (simp add: worker_ok_def)
    note d = control_invD(4) [OF inv]
    consider "a = w" | "b = w" | "a \<noteq> w" "b \<noteq> w" by blast
    then show ?thesis
    proof cases
      case 1
      with ab w(3) ac d [OF a b ab(1)] fe' [OF b] show ?thesis by auto
    next
      case 2
      with ab w(3) ac d [OF a b ab(1)] fe' [OF a] show ?thesis by auto
    next
      case 3
      with ab w(3) d [OF a b ab(1)] show ?thesis by auto
    qed
  qed
  show ?thesis using inv tok pr wk dist same by (simp add: control_inv_def same_tasks_def same_collector_def)
qed

text \<open>A step that works on task \<open>i\<close>, seen from everything else.\<close>

definition others_same :: "state \<Rightarrow> state \<Rightarrow> (nat \<Rightarrow> nat) \<Rightarrow> (nat \<Rightarrow> nat) \<Rightarrow> nat \<Rightarrow> bool" where
  "others_same \<sigma> \<sigma>' D D' i \<longleftrightarrow> (\<forall>k. k \<noteq> i \<longrightarrow> running \<sigma>' k = running \<sigma> k) \<and>
     (\<forall>k. k \<noteq> i \<longrightarrow> running \<sigma> k \<longrightarrow> prog D' \<sigma>' k = prog D \<sigma> k) \<and>
     (\<forall>k. k \<noteq> i \<longrightarrow> ctxs \<sigma>' k = ctxs \<sigma> k) \<and> num_issued \<sigma>' = num_issued \<sigma>"

lemma control_task:
  assumes inv: "control_inv C \<sigma> G D" and tok: "token_inv C \<sigma>'" and run: "running \<sigma> i"
    and oth: "others_same \<sigma> \<sigma>' D D' i" "same_collector \<sigma> \<sigma>'" "G \<subseteq>\<^sub>m G'"
    and pi: "\<And>j k. 1 \<le> j \<Longrightarrow> j \<le> num_pipes C \<Longrightarrow> k \<noteq> i \<Longrightarrow> passed \<sigma>' j k = passed \<sigma> j k"
    and sub: "num_submitted \<sigma>' = num_submitted \<sigma>" "num_fetched \<sigma>' = num_fetched \<sigma>"
    and pri: "running \<sigma>' i \<Longrightarrow> progress_ok C \<sigma>' D' i"
    and w: "\<And>k. 1 \<le> k \<Longrightarrow> k \<le> num_workers C \<Longrightarrow> worker_ok C \<sigma>' G' D' (workers \<sigma>' k)"
      "\<And>k. w_task (workers \<sigma>' k) = w_task (workers \<sigma> k)"
      "\<And>k. active (w_pc (workers \<sigma>' k)) = active (w_pc (workers \<sigma> k))"
      "\<And>k. looping (w_pc (workers \<sigma>' k)) = looping (w_pc (workers \<sigma> k))"
  shows "control_inv C \<sigma>' G' D'"
proof -
  have pr: "progress_ok C \<sigma>' D' k" if k: "running \<sigma>' k" "k \<noteq> i" for k
  proof -
    have "running \<sigma> k" using k oth(1) by (simp add: others_same_def)
    from control_invD(2) [OF inv this] show ?thesis
      by (rule progress_ok_cong) (use k oth pi w \<open>running \<sigma> k\<close> in \<open>auto simp: others_same_def\<close>)
  qed
  have pr': "progress_ok C \<sigma>' D' k" if "running \<sigma>' k" for k using pr [OF that] pri that by (cases "k = i") auto
  have "\<not> running \<sigma>' k" if "k \<le> k_next (collector \<sigma>')" for k
  proof (cases "k = i")
    case True
    then show ?thesis using control_invD(8) [OF inv, of i] that run oth(2) by (auto simp: same_collector_def)
  next
    case False
    then show ?thesis using control_invD(8) [OF inv, of k] that oth by (auto simp: others_same_def same_collector_def)
  qed
  then show ?thesis using inv tok pr' oth w by (simp add: control_inv_def others_same_def same_collector_def)
qed

section \<open>Working on a task\<close>

lemma sched_preD:
  assumes "sched_pre C H0 t0 T0 reqs"
  shows "represents H0 t0 T0" "vers T0 \<subseteq> {0}" "length reqs \<le> num_tasks C" "nodes T0 + num_tasks C < STAGE_DONE"
    "num_tasks C < 2 ^ 64 - 1"
  using assms by (simp_all add: sched_pre_def STAGE_DONE_def)

text \<open>Two tasks at different depths do not meet.\<close>

lemma past_free:
  assumes inv: "data_inv C T0 reqs \<sigma> G D" and run: "running \<sigma> i" and a: "t_past (ctxs \<sigma> i) = Some a"
    and ne: "\<And>v U. running \<sigma> v \<Longrightarrow> v < i \<Longrightarrow> G a = Some U \<Longrightarrow> top_ver U = v \<Longrightarrow> prog D \<sigma> v \<noteq> prog D \<sigma> i"
  shows "a \<notin> pending \<sigma>"
proof
  assume pend: "a \<in> pending \<sigma>"
  obtain b where b: "job (heap_of \<sigma>) (pending \<sigma>) G D (ctxs \<sigma> i) b" "c_ver (ctxs \<sigma> i) = i" "prog D \<sigma> i = D b"
    using task_okE [OF inv run] by metis
  from job_past [OF b(1)] obtain T where
    T: "T \<noteq> Null" "link (heap_of \<sigma>) (pending \<sigma>) G D (D b) (Some a) T" "older (c_ver (ctxs \<sigma> i)) T"
    by (auto simp: past_ok_def a)
  from inv pend obtain v' R where v': "running \<sigma> v'" "G a = Some R" "top_ver R = v'" "prog D \<sigma> v' = D a" by (rule pending_E)
  have "R = T" using T(2) v'(2) by (simp add: link_def)
  then have "v' < i" using v'(3) T(1,3) b(2) by (cases T) (auto dest: older_Node)
  moreover have "\<not> settled (heap_of \<sigma>) (pending \<sigma>) (Some a)" using pend by (auto elim: settled_SomeE)
  then have "D a = D b" using T(2) by (simp add: link_def near_def)
  ultimately show False using ne [OF v'(1) _ v'(2,3)] v'(4) b(3) by simp
qed

lemma one_step_ok:
  assumes inv: "data_inv C T0 reqs \<sigma> G D" and run: "running \<sigma> i"
    and ne: "\<And>a v U. t_past (ctxs \<sigma> i) = Some a \<Longrightarrow> running \<sigma> v \<Longrightarrow> v < i \<Longrightarrow> G a = Some U \<Longrightarrow> top_ver U = v \<Longrightarrow>
      prog D \<sigma> v \<noteq> prog D \<sigma> i"
  shows "execute_one_step (num_committed \<sigma>) (heap_of \<sigma>) (ctxs \<sigma> i) = Wait \<or>
    (\<exists>H' c' b. execute_one_step (num_committed \<sigma>) (heap_of \<sigma>) (ctxs \<sigma> i) = Done (H', c') \<and> t_cur (ctxs \<sigma> i) = Some b \<and>
       exec_ok (heap_of \<sigma>) (pending \<sigma>) G D (ctxs \<sigma> i) b (Done (H', c')))"
proof -
  obtain b where b: "t_cur (ctxs \<sigma> i) = Some b" "job (heap_of \<sigma>) (pending \<sigma>) G D (ctxs \<sigma> i) b"
    using task_okE [OF inv run] by metis
  have "execute_one_step (num_committed \<sigma>) (heap_of \<sigma>) (ctxs \<sigma> i) = Wait \<or>
      exec_ok (heap_of \<sigma>) (pending \<sigma>) G D (ctxs \<sigma> i) b (execute_one_step (num_committed \<sigma>) (heap_of \<sigma>) (ctxs \<sigma> i))"
    by (rule execute_one_step_ok [OF data_invD(1) [OF inv] b(2,1)])
      (use past_free [OF inv run] ne pending_new [OF inv] in blast)+
  then show ?thesis using b(1) unfolding exec_ok_def by fastforce
qed

section \<open>The pipes\<close>

lemma pipe_depth:
  assumes inv: "control_inv C \<sigma> G D" and j: "1 \<le> j" "j \<le> num_pipes C" and pc: "p_pc (pipes \<sigma> j) = P_exec"
    and run: "running \<sigma> (p_pos (pipes \<sigma> j))"
  shows "prog D \<sigma> (p_pos (pipes \<sigma> j)) = j - 1" "\<not> passed \<sigma> j (p_pos (pipes \<sigma> j))"
    "\<And>j'. j < j' \<Longrightarrow> j' \<le> num_pipes C \<Longrightarrow> \<not> passed \<sigma> j' (p_pos (pipes \<sigma> j))"
proof -
  let ?i = "p_pos (pipes \<sigma> j)"
  note tok = control_invD(1) [OF inv] and pr = control_invD(2) [OF inv run]
  have i: "1 \<le> ?i" "?i \<le> produced \<sigma> (j - 1)" using pipe_okD(1,3) [OF tok j] pc by auto
  show np: "\<not> passed \<sigma> j ?i" using pc by (simp add: passed_def)
  then have "prog D \<sigma> ?i < j" using pr j by (auto simp: progress_ok_def)
  moreover have "j - 1 \<le> prog D \<sigma> ?i"
  proof (cases "j = 1")
    case False
    then have j1: "1 \<le> j - 1" "j - 1 \<le> num_pipes C" using j by auto
    then have "passed \<sigma> (j - 1) ?i" using passed_produced(1) [OF tok j1 i(1)] i(2) by simp
    then show ?thesis using pr j1 by (auto simp: progress_ok_def)
  qed simp
  ultimately show "prog D \<sigma> ?i = j - 1" by simp
  show "\<not> passed \<sigma> j' ?i" if "j < j'" "j' \<le> num_pipes C" for j'
  proof
    assume "passed \<sigma> j' ?i"
    then have "?i \<le> produced \<sigma> (j' - 1)" using passed_produced(2) [OF tok _ that(2) i(1)] that j by simp
    also have "\<dots> \<le> produced \<sigma> j" by (rule produced_mono [OF tok]) (use that in auto)
    finally show False using i(1) j by (simp add: produced_def)
  qed
qed

lemma pipe_exec_control:
  assumes inv: "control_inv C \<sigma> G D" and j: "1 \<le> j" "j \<le> num_pipes C" and pc: "p_pc (pipes \<sigma> j) = P_exec"
    and run: "running \<sigma> (p_pos (pipes \<sigma> j))"
    and \<sigma>': "\<sigma>' = set_pipe j ((pipes \<sigma> j)\<lparr>p_pc := P_put\<rparr>) (set_ctx \<sigma> (p_pos (pipes \<sigma> j)) (H', c'))"
    and oth: "others_same \<sigma> \<sigma>' D D' (p_pos (pipes \<sigma> j))" "G \<subseteq>\<^sub>m G'"
    and new: "running \<sigma>' (p_pos (pipes \<sigma> j)) \<Longrightarrow> prog D' \<sigma>' (p_pos (pipes \<sigma> j)) = Suc (prog D \<sigma> (p_pos (pipes \<sigma> j))) \<and>
      c_stage c' = c_stage (ctxs \<sigma> (p_pos (pipes \<sigma> j)))"
  shows "control_inv C \<sigma>' G' D'"
proof -
  let ?i = "p_pos (pipes \<sigma> j)"
  note tok = control_invD(1) [OF inv] and pr = control_invD(2) [OF inv run] and dep = pipe_depth [OF inv j pc run]
  have f: "pipes \<sigma>' = (pipes \<sigma>)(j := (pipes \<sigma> j)\<lparr>p_pc := P_put\<rparr>)" "ctxs \<sigma>' = (ctxs \<sigma>)(?i := c')" "workers \<sigma>' = workers \<sigma>"
    "tokens \<sigma>' = tokens \<sigma>" "master \<sigma>' = master \<sigma>" "num_issued \<sigma>' = num_issued \<sigma>" "boarder \<sigma>' = boarder \<sigma>"
    "num_submitted \<sigma>' = num_submitted \<sigma>" "num_fetched \<sigma>' = num_fetched \<sigma>" "num_committed \<sigma>' = num_committed \<sigma>"
    "collector \<sigma>' = collector \<sigma>"
    by (simp_all add: \<sigma>' set_pipe_def set_ctx_def)
  have pa: "passed \<sigma>' j' k = (passed \<sigma> j' k \<or> j' = j \<and> k = ?i)" for j' k
    using pc by (auto simp: passed_def f)
  have tok': "token_inv C \<sigma>'"
    by (rule token_pipe_move [OF tok j f(1)]) (use f pc pipe_okD(3) [OF tok j] in simp_all)
  have nosub: "w_task (workers \<sigma> k) \<noteq> ?i" if "1 \<le> k" "k \<le> num_workers C" "looping (w_pc (workers \<sigma> k))" for k
  proof
    assume "w_task (workers \<sigma> k) = ?i"
    then have "?i \<le> num_submitted \<sigma>" using control_invD(3) [OF inv that(1,2)] that(3) by (simp add: worker_ok_def)
    then show False using submitted_passed [OF tok _ pipe_okD(1) [OF tok j] j] dep(2) by simp
  qed
  have pri: "progress_ok C \<sigma>' D' ?i" if "running \<sigma>' ?i"
  proof -
    have "if passed \<sigma>' j' ?i then j' \<le> j else j < j'" if "1 \<le> j'" "j' \<le> num_pipes C" for j'
    proof (cases j' j rule: linorder_cases)
      case less
      then have "passed \<sigma> j' ?i" using progress_okD(2) [OF pr that] dep(1) by (metis One_nat_def Suc_pred less_Suc_eq_le not_less j(1) Suc_le_eq)
      with less pa show ?thesis by simp
    qed (use dep(2,3) that pa in auto)
    then show ?thesis using pr new [OF that] dep(1) j by (auto simp: progress_ok_def f)
  qed
  show ?thesis
  proof (rule control_task [OF inv tok' run oth(1) _ oth(2)])
    show "worker_ok C \<sigma>' G' D' (workers \<sigma>' k)" if k: "1 \<le> k" "k \<le> num_workers C" for k
      unfolding f(3)
      by (rule worker_ok_mono [OF control_invD(3) [OF inv k]]) (use oth f nosub [OF k] in \<open>auto simp: others_same_def\<close>)
  qed (use f pa pri in \<open>auto simp: same_collector_def\<close>)
qed

lemma pipe_step_ok:
  assumes pre: "sched_pre C H0 t0 T0 reqs" and dinv: "data_inv C T0 reqs \<sigma> G D" and cinv: "control_inv C \<sigma> G D"
    and j: "1 \<le> j" "j \<le> num_pipes C"
  shows "pipe_step C j \<sigma> = Wait \<or> (\<exists>\<sigma>'. pipe_step C j \<sigma> = Done \<sigma>' \<and> sched_inv C T0 reqs \<sigma>')"
proof -
  let ?l = "pipes \<sigma> j" and ?i = "p_pos (pipes \<sigma> j)"
  note tok = control_invD(1) [OF cinv]
  note ok = pipe_okD [OF tok j]
  have pn: "produced \<sigma> (j - 1) \<le> num_tasks C"
    using produced_le [OF tok, of "j - 1"] j data_invD(2) [OF dinv] sched_preD(3) [OF pre] by linarith
  have pn': "produced \<sigma> (j - 1) < 2 ^ 64 - 1" using pn sched_preD(5) [OF pre] by linarith
  have prj: "produced \<sigma> j = ?i - 1" using j by (simp add: produced_def)
  have move: "sched_inv C T0 reqs \<sigma>'"
    if f: "pipes \<sigma>' = (pipes \<sigma>)(j := ?l\<lparr>p_pc := pc\<rparr>)" "\<sigma>' = \<sigma>\<lparr>pipes := pipes \<sigma>', tokens := tokens \<sigma>'\<rparr>"
      and t: "token_inv C \<sigma>'" and pc: "(pc = P_put) = (p_pc ?l = P_put) \<or> \<not> running \<sigma> ?i" for \<sigma>' pc
  proof -
    have g: "heap_of \<sigma>' = heap_of \<sigma>" "ctxs \<sigma>' = ctxs \<sigma>" "num_issued \<sigma>' = num_issued \<sigma>" "todo \<sigma>' = todo \<sigma>"
      "num_committed \<sigma>' = num_committed \<sigma>" "collector \<sigma>' = collector \<sigma>" "workers \<sigma>' = workers \<sigma>"
      "num_fetched \<sigma>' = num_fetched \<sigma>" "num_submitted \<sigma>' = num_submitted \<sigma>" by (subst f(2), simp)+
    have r: "running \<sigma>' = running \<sigma>" "prog D \<sigma>' = prog D \<sigma>" by (rule data_pending_cong; simp add: g)+
    have "control_inv C \<sigma>' G D"
      by (rule control_pipes [OF cinv t]) (use g r pc f(1) in \<open>auto simp: same_tasks_def same_collector_def passed_def\<close>)
    moreover have "data_inv C T0 reqs \<sigma>' G D" using dinv data_inv_cong [of \<sigma>' \<sigma>] g by simp
    ultimately show ?thesis by (auto simp: sched_inv_def)
  qed
  show ?thesis
  proof (cases "p_pc ?l")
    case P_take
    show ?thesis
    proof (cases "?i \<le> num_tasks C")
      case True
      define pc where "pc = (if tokens \<sigma> (j - 1) = 0 then P_wait else P_exec)"
      define \<sigma>' where "\<sigma>' = set_pipe j (?l\<lparr>p_pc := pc\<rparr>) (\<sigma>\<lparr>tokens := (tokens \<sigma>)(j - 1 := tokens \<sigma> (j - 1) - 1)\<rparr>)"
      have "tokens \<sigma> (j - 1) = 0 \<longleftrightarrow> produced \<sigma> (j - 1) = ?i - 1"
        using token_zero [of "?i - 1" "produced \<sigma> (j - 1)"] ok(2,4) pn' prj P_take by (simp add: consumed_def)
      then have pos: "pc \<noteq> P_wait \<Longrightarrow> ?i \<le> produced \<sigma> (j - 1)" using ok(1,2) prj by (auto simp: pc_def)
      have "token_inv C \<sigma>'"
        by (rule token_pipe_move [OF tok j, where pc = pc]) (use P_take pos in \<open>auto simp: \<sigma>'_def set_pipe_def pc_def\<close>)
      then have "sched_inv C T0 reqs \<sigma>'"
        by (rule move [where pc = pc, rotated 2]) (use P_take in \<open>auto simp: \<sigma>'_def set_pipe_def pc_def\<close>)
      moreover have "pipe_step C j \<sigma> = Done \<sigma>'" using P_take True by (simp add: pipe_step_def Let_def \<sigma>'_def pc_def)
      ultimately show ?thesis by blast
    qed (use P_take in \<open>simp add: pipe_step_def Let_def\<close>)
  next
    case P_wait
    show ?thesis
    proof (cases "tokens \<sigma> (j - 1) = - 1")
      case False
      define \<sigma>' where "\<sigma>' = set_pipe j (?l\<lparr>p_pc := P_exec\<rparr>) \<sigma>"
      have "?i \<noteq> Suc (produced \<sigma> (j - 1))"
        using token_minus_one [of ?i "produced \<sigma> (j - 1)"] ok(2,4) pn' prj P_wait False by (auto simp: consumed_def)
      then have pos: "?i \<le> produced \<sigma> (j - 1)" using ok(1,2) prj by linarith
      have "token_inv C \<sigma>'"
        by (rule token_pipe_move [OF tok j, where pc = P_exec]) (use P_wait pos in \<open>auto simp: \<sigma>'_def set_pipe_def\<close>)
      then have "sched_inv C T0 reqs \<sigma>'"
        by (rule move [where pc = P_exec, rotated 2]) (use P_wait in \<open>auto simp: \<sigma>'_def set_pipe_def\<close>)
      moreover have "pipe_step C j \<sigma> = Done \<sigma>'" using P_wait False by (simp add: pipe_step_def Let_def \<sigma>'_def)
      ultimately show ?thesis by blast
    qed (use P_wait in \<open>simp add: pipe_step_def Let_def\<close>)
  next
    case P_exec
    have i: "?i \<le> produced \<sigma> (j - 1)" "1 \<le> ?i" using ok(1,3) P_exec by auto
    have le: "?i \<le> num_tasks C" "?i \<le> num_issued \<sigma>" using i pn produced_le [OF tok, of "j - 1"] j by linarith+
    show ?thesis
    proof (cases "c_st (ctxs \<sigma> ?i) = ST_DONE")
      case True
      define \<sigma>' where "\<sigma>' = set_pipe j (?l\<lparr>p_pc := P_put\<rparr>) \<sigma>"
      have "token_inv C \<sigma>'"
        by (rule token_pipe_move [OF tok j, where pc = P_put]) (use P_exec i in \<open>auto simp: \<sigma>'_def set_pipe_def\<close>)
      then have "sched_inv C T0 reqs \<sigma>'"
        by (rule move [where pc = P_put, rotated 2]) (use True in \<open>auto simp: \<sigma>'_def set_pipe_def running_def\<close>)
      moreover have "pipe_step C j \<sigma> = Done \<sigma>'" using P_exec True le by (simp add: pipe_step_def Let_def \<sigma>'_def at_ctx_def)
      ultimately show ?thesis by blast
    next
      case False
      then have run: "running \<sigma> ?i" using i le by (cases "c_st (ctxs \<sigma> ?i)") (auto simp: running_def)
      note dep = pipe_depth [OF cinv j P_exec run]
      have ne: "prog D \<sigma> v \<noteq> prog D \<sigma> ?i" if v: "running \<sigma> v" "v < ?i" for v
      proof -
        have "passed \<sigma> j v" using v(2) by (simp add: passed_def)
        then have "j \<le> prog D \<sigma> v" by (rule progress_okD(1) [OF control_invD(2) [OF cinv v(1)] j])
        then show ?thesis using dep(1) j by simp
      qed
      let ?e = "execute_one_step (num_committed \<sigma>) (heap_of \<sigma>) (ctxs \<sigma> ?i)"
      have op: "pipe_step C j \<sigma> = bind_outcome ?e (\<lambda>s. Done (set_pipe j (?l\<lparr>p_pc := P_put\<rparr>) (set_ctx \<sigma> ?i s)))"
        using P_exec False le by (simp add: pipe_step_def Let_def at_ctx_def)
      from one_step_ok [OF dinv run ne] consider "?e = Wait" | H' c' b where "?e = Done (H', c')" "t_cur (ctxs \<sigma> ?i) = Some b"
        "exec_ok (heap_of \<sigma>) (pending \<sigma>) G D (ctxs \<sigma> ?i) b (Done (H', c'))" by blast
      then show ?thesis
      proof cases
        case 1
        then show ?thesis using op by simp
      next
        case 2
        define \<sigma>' where "\<sigma>' = set_pipe j (?l\<lparr>p_pc := P_put\<rparr>) (set_ctx \<sigma> ?i (H', c'))"
        have f: "heap_of \<sigma>' = H'" "ctxs \<sigma>' = (ctxs \<sigma>)(?i := c')" "same_flow \<sigma> \<sigma>'" "num_issued \<sigma>' = num_issued \<sigma>"
          by (simp_all add: \<sigma>'_def set_pipe_def set_ctx_def same_flow_def)
        from data_exec [OF dinv run 2(2,3) f(1-3)] obtain G' D' where d: "data_inv C T0 reqs \<sigma>' G' D'" "G \<subseteq>\<^sub>m G'"
          "\<And>k. k \<noteq> ?i \<Longrightarrow> running \<sigma>' k = running \<sigma> k" "\<And>k. k \<noteq> ?i \<Longrightarrow> running \<sigma> k \<Longrightarrow> prog D' \<sigma>' k = prog D \<sigma> k"
          "running \<sigma>' ?i \<Longrightarrow> prog D' \<sigma>' ?i = Suc (prog D \<sigma> ?i) \<and> c_stage c' = c_stage (ctxs \<sigma> ?i)" by blast
        have "others_same \<sigma> \<sigma>' D D' ?i" using d(3,4) f by (simp add: others_same_def)
        from pipe_exec_control [OF cinv j P_exec run \<sigma>'_def this d(2,5)] d(1) have "sched_inv C T0 reqs \<sigma>'"
          by (auto simp: sched_inv_def)
        then show ?thesis using op 2(1) by (simp add: \<sigma>'_def)
      qed
    qed
  next
    case P_put
    define \<sigma>' where "\<sigma>' = set_pipe j \<lparr>p_pos = Suc ?i, p_pc = P_take\<rparr> (put_token j \<sigma>)"
    have g: "heap_of \<sigma>' = heap_of \<sigma>" "ctxs \<sigma>' = ctxs \<sigma>" "num_issued \<sigma>' = num_issued \<sigma>" "todo \<sigma>' = todo \<sigma>"
      "num_committed \<sigma>' = num_committed \<sigma>" "collector \<sigma>' = collector \<sigma>" "workers \<sigma>' = workers \<sigma>"
      "num_fetched \<sigma>' = num_fetched \<sigma>" "num_submitted \<sigma>' = num_submitted \<sigma>"
      by (simp_all add: \<sigma>'_def set_pipe_def put_token_def)
    have t: "token_inv C \<sigma>'"
      by (rule token_pipe_put [OF tok j P_put]) (simp_all add: \<sigma>'_def set_pipe_def put_token_def)
    have r: "running \<sigma>' = running \<sigma>" "prog D \<sigma>' = prog D \<sigma>" by (rule data_pending_cong; simp add: g)+
    have pa: "passed \<sigma>' j' i = passed \<sigma> j' i" for j' i
      using P_put by (auto simp: passed_def \<sigma>'_def set_pipe_def put_token_def)
    have "control_inv C \<sigma>' G D"
      by (rule control_pipes [OF cinv t]) (use g r pa in \<open>auto simp: same_tasks_def same_collector_def\<close>)
    moreover have "data_inv C T0 reqs \<sigma>' G D" using dinv data_inv_cong [of \<sigma>' \<sigma>] g by simp
    ultimately have "sched_inv C T0 reqs \<sigma>'" by (auto simp: sched_inv_def)
    moreover have "pipe_step C j \<sigma> = Done \<sigma>'" using P_put by (simp add: pipe_step_def Let_def \<sigma>'_def)
    ultimately show ?thesis by blast
  qed
qed

section \<open>Client, boarder and collector\<close>

lemma master_push_ok:
  assumes dinv: "data_inv C T0 reqs \<sigma> G D" and cinv: "control_inv C \<sigma> G D" and m: "master \<sigma> = M_push"
  shows "sched_inv C T0 reqs ((put_token 0 \<sigma>)\<lparr>master := M_issue\<rparr>)"
proof -
  let ?\<sigma> = "(put_token 0 \<sigma>)\<lparr>master := M_issue\<rparr>"
  have g: "heap_of ?\<sigma> = heap_of \<sigma>" "ctxs ?\<sigma> = ctxs \<sigma>" "num_issued ?\<sigma> = num_issued \<sigma>" "todo ?\<sigma> = todo \<sigma>"
    "num_committed ?\<sigma> = num_committed \<sigma>" by (simp_all add: put_token_def)
  have r: "running ?\<sigma> = running \<sigma>" "prog D ?\<sigma> = prog D \<sigma>" by (rule data_pending_cong; simp add: g)+
  have t: "token_inv C ?\<sigma>"
    by (rule token_master_push [OF control_invD(1) [OF cinv] m]) (simp_all add: put_token_def)
  have "control_inv C ?\<sigma> G D"
    by (rule control_pipes [OF cinv t]) (use r in \<open>simp_all add: same_tasks_def same_collector_def put_token_def passed_def\<close>)
  moreover have "data_inv C T0 reqs ?\<sigma> G D" using dinv data_inv_cong [of ?\<sigma> \<sigma>] g by simp
  ultimately show ?thesis by (auto simp: sched_inv_def)
qed

lemma issue_control:
  assumes cinv: "control_inv C \<sigma> G D" and m: "master \<sigma> = M_issue"
    and \<sigma>': "\<sigma>' = \<sigma>\<lparr>num_issued := Suc (num_issued \<sigma>), heap_of := H', ctxs := (ctxs \<sigma>)(Suc (num_issued \<sigma>) := c'),
      todo := rs, master := M_push\<rparr>"
    and same: "\<And>k. k \<le> num_issued \<sigma> \<Longrightarrow> running \<sigma>' k = running \<sigma> k" "\<And>k. running \<sigma> k \<Longrightarrow> prog D' \<sigma>' k = prog D \<sigma> k"
    and new: "running \<sigma>' (Suc (num_issued \<sigma>)) \<Longrightarrow> prog D' \<sigma>' (Suc (num_issued \<sigma>)) = 0 \<and> c_stage c' = 0"
    and G: "G \<subseteq>\<^sub>m G'"
  shows "control_inv C \<sigma>' G' D'"
proof -
  let ?i = "Suc (num_issued \<sigma>)"
  note tok = control_invD(1) [OF cinv]
  have f: "pipes \<sigma>' = pipes \<sigma>" "workers \<sigma>' = workers \<sigma>" "num_issued \<sigma>' = ?i" "num_submitted \<sigma>' = num_submitted \<sigma>"
    "num_fetched \<sigma>' = num_fetched \<sigma>" "collector \<sigma>' = collector \<sigma>" "num_committed \<sigma>' = num_committed \<sigma>"
    "ctxs \<sigma>' = (ctxs \<sigma>)(?i := c')" by (simp_all add: \<sigma>')
  have tok': "token_inv C \<sigma>'" by (rule token_master_issue [OF tok m]) (simp_all add: \<sigma>')
  have pa: "passed \<sigma>' = passed \<sigma>" by (simp add: passed_def f fun_eq_iff)
  have le: "k \<le> num_issued \<sigma>" if "running \<sigma> k" for k using that by (simp add: running_def)
  have "\<not> passed \<sigma> j ?i" if "1 \<le> j" "j \<le> num_pipes C" for j
  proof
    assume "passed \<sigma> j ?i"
    then have "?i \<le> produced \<sigma> (j - 1)" using passed_produced(2) [OF tok that, of ?i] by simp
    then show False using produced_le [OF tok, of "j - 1"] that by linarith
  qed
  then have pri: "progress_ok C \<sigma>' D' ?i" if "running \<sigma>' ?i"
    using new [OF that] by (auto simp: progress_ok_def pa f)
  have "progress_ok C \<sigma>' D' k" if "running \<sigma>' k" "k \<noteq> ?i" for k
  proof -
    have "running \<sigma> k" using that same(1) [of k] f(3) by (simp add: running_def)
    from control_invD(2) [OF cinv this] show ?thesis
      by (rule progress_ok_cong) (use same(2) [OF \<open>running \<sigma> k\<close>] that f pa in auto)
  qed
  then have pr: "progress_ok C \<sigma>' D' k" if "running \<sigma>' k" for k using pri that by (cases "k = ?i") auto
  have wk: "worker_ok C \<sigma>' G' D' (workers \<sigma> w)" if w: "1 \<le> w" "w \<le> num_workers C" for w
  proof (rule worker_ok_mono [OF control_invD(3) [OF cinv w] _ _ G])
    assume "looping (w_pc (workers \<sigma> w))"
    then have "w_task (workers \<sigma> w) \<le> num_issued \<sigma>"
      using control_invD(3) [OF cinv w] submitted_issued [OF tok] by (simp add: worker_ok_def)
    then show "running \<sigma>' (w_task (workers \<sigma> w)) = running \<sigma> (w_task (workers \<sigma> w))" using same(1) by simp
  qed (use same(2) le f in \<open>auto dest: le\<close>)
  have "\<not> running \<sigma>' k" if "k \<le> k_next (collector \<sigma>)" for k
    using control_invD(7) [OF cinv] control_invD(8) [OF cinv that] that same(1) [of k] by simp
  then show ?thesis using cinv tok' pr wk f by (simp add: control_inv_def le_SucI)
qed

lemma master_step_ok:
  assumes pre: "sched_pre C H0 t0 T0 reqs" and dinv: "data_inv C T0 reqs \<sigma> G D" and cinv: "control_inv C \<sigma> G D"
  shows "master_step C \<sigma> = Wait \<or> (\<exists>\<sigma>'. master_step C \<sigma> = Done \<sigma>' \<and> sched_inv C T0 reqs \<sigma>')"
proof (cases "master \<sigma>")
  case M_push
  then show ?thesis using master_push_ok [OF dinv cinv] by (simp add: master_step_def)
next
  case M_issue
  show ?thesis
  proof (cases "todo \<sigma>")
    case (Cons r rs)
    from issue_ok [OF sched_preD(2,3) [OF pre] dinv Cons] consider "init_context C r \<sigma> = Wait"
      | H' c' G' D' where "init_context C r \<sigma> = Done (\<sigma>\<lparr>num_issued := Suc (num_issued \<sigma>), heap_of := H',
          ctxs := (ctxs \<sigma>)(Suc (num_issued \<sigma>) := c')\<rparr>)"
        "\<forall>\<sigma>'. num_issued \<sigma>' = Suc (num_issued \<sigma>) \<longrightarrow> heap_of \<sigma>' = H' \<longrightarrow>
           ctxs \<sigma>' = (ctxs \<sigma>)(Suc (num_issued \<sigma>) := c') \<longrightarrow> todo \<sigma>' = rs \<longrightarrow> num_committed \<sigma>' = num_committed \<sigma> \<longrightarrow>
           data_inv C T0 reqs \<sigma>' G' D' \<and> (\<forall>k \<le> num_issued \<sigma>. running \<sigma>' k = running \<sigma> k) \<and>
           (\<forall>k. running \<sigma> k \<longrightarrow> prog D' \<sigma>' k = prog D \<sigma> k) \<and>
           (running \<sigma>' (Suc (num_issued \<sigma>)) \<longrightarrow> prog D' \<sigma>' (Suc (num_issued \<sigma>)) = 0 \<and> c_stage c' = 0)" "G \<subseteq>\<^sub>m G'"
      by blast
    then show ?thesis
    proof cases
      case 1
      then show ?thesis using M_issue Cons by (simp add: master_step_def)
    next
      case 2
      define \<sigma>' where "\<sigma>' = \<sigma>\<lparr>num_issued := Suc (num_issued \<sigma>), heap_of := H', ctxs := (ctxs \<sigma>)(Suc (num_issued \<sigma>) := c'),
        todo := rs, master := M_push\<rparr>"
      have d: "data_inv C T0 reqs \<sigma>' G' D'" "\<And>k. k \<le> num_issued \<sigma> \<Longrightarrow> running \<sigma>' k = running \<sigma> k"
        "\<And>k. running \<sigma> k \<Longrightarrow> prog D' \<sigma>' k = prog D \<sigma> k"
        "running \<sigma>' (Suc (num_issued \<sigma>)) \<Longrightarrow> prog D' \<sigma>' (Suc (num_issued \<sigma>)) = 0 \<and> c_stage c' = 0"
        using 2(2) [rule_format, of \<sigma>'] by (simp_all add: \<sigma>'_def)
      have "sched_inv C T0 reqs \<sigma>'"
        using issue_control [OF cinv M_issue \<sigma>'_def d(2-4) 2(3)] d(1) by (auto simp: sched_inv_def)
      moreover have "master_step C \<sigma> = Done \<sigma>'" using M_issue Cons 2(1) by (simp add: master_step_def \<sigma>'_def)
      ultimately show ?thesis by blast
    qed
  qed (use M_issue in \<open>simp add: master_step_def\<close>)
qed

lemma boarder_step_ok:
  assumes pre: "sched_pre C H0 t0 T0 reqs" and dinv: "data_inv C T0 reqs \<sigma> G D" and cinv: "control_inv C \<sigma> G D"
  shows "boarder_step C \<sigma> = Wait \<or> (\<exists>\<sigma>'. boarder_step C \<sigma> = Done \<sigma>' \<and> sched_inv C T0 reqs \<sigma>')"
proof -
  note tok = control_invD(1) [OF cinv]
  have keep: "sched_inv C T0 reqs \<sigma>'" if t: "token_inv C \<sigma>'" and s: "num_submitted \<sigma> \<le> num_submitted \<sigma>'"
    and f: "\<sigma>' = \<sigma>\<lparr>tokens := tk, boarder := bl, num_submitted := n\<rparr>" for \<sigma>' tk bl n
  proof -
    have g: "heap_of \<sigma>' = heap_of \<sigma>" "ctxs \<sigma>' = ctxs \<sigma>" "num_issued \<sigma>' = num_issued \<sigma>" "todo \<sigma>' = todo \<sigma>"
      "num_committed \<sigma>' = num_committed \<sigma>" "pipes \<sigma>' = pipes \<sigma>" "workers \<sigma>' = workers \<sigma>" "num_fetched \<sigma>' = num_fetched \<sigma>"
      "collector \<sigma>' = collector \<sigma>" by (simp_all add: f)
    have r: "running \<sigma>' = running \<sigma>" "prog D \<sigma>' = prog D \<sigma>" by (rule data_pending_cong; simp add: g)+
    have "control_inv C \<sigma>' G D"
      by (rule control_pipes [OF cinv t]) (use r s g in \<open>simp_all add: same_tasks_def same_collector_def passed_def\<close>)
    moreover have "data_inv C T0 reqs \<sigma>' G D" using dinv data_inv_cong [of \<sigma>' \<sigma>] g by simp
    ultimately show ?thesis by (auto simp: sched_inv_def)
  qed
  show ?thesis
  proof (cases "b_pc (boarder \<sigma>)")
    case B_take
    let ?n = "tokens \<sigma> (num_pipes C)"
    let ?\<sigma> = "\<sigma>\<lparr>tokens := (tokens \<sigma>)(num_pipes C := 0),
      boarder := \<lparr>b_submitted = b_submitted (boarder \<sigma>) + unat ?n, b_pc = B_publish\<rparr>, num_submitted := num_submitted \<sigma>\<rparr>"
    have "produced \<sigma> (num_pipes C) < 2 ^ 64"
      using produced_le [OF tok, of "num_pipes C"] data_invD(2) [OF dinv] sched_preD(3,5) [OF pre] by simp
    then have "token_inv C ?\<sigma>" by (rule token_boarder_take [OF tok]) simp_all
    then have "sched_inv C T0 reqs ?\<sigma>" by (rule keep) (simp, rule refl)
    then show ?thesis using B_take by (auto simp: boarder_step_def Let_def)
  next
    case B_publish
    let ?\<sigma> = "\<sigma>\<lparr>tokens := tokens \<sigma>, boarder := (boarder \<sigma>)\<lparr>b_pc := B_take\<rparr>, num_submitted := b_submitted (boarder \<sigma>)\<rparr>"
    have "token_inv C ?\<sigma>" by (rule token_boarder_publish [OF tok]) simp_all
    then have "sched_inv C T0 reqs ?\<sigma>" by (rule keep) (use tok in \<open>simp add: token_inv_def\<close>, rule refl)
    moreover have "boarder_step C \<sigma> = Done ?\<sigma>" using B_publish by (simp add: boarder_step_def Let_def)
    ultimately show ?thesis by blast
  qed
qed

lemma stage_small:
  assumes pre: "sched_pre C H0 t0 T0 reqs" and dinv: "data_inv C T0 reqs \<sigma> G D" and cinv: "control_inv C \<sigma> G D"
    and run: "running \<sigma> i"
  shows "c_stage (ctxs \<sigma> i) < STAGE_DONE" "prog D \<sigma> i < nodes T0 + num_tasks C"
proof -
  from task_okE [OF dinv run] obtain b R where b: "D b + nodes R \<le> nodes (tree_at C T0 reqs i)" "prog D \<sigma> i = D b"
    "G b = Some R" by metis
  have "R \<noteq> Null" by (rule world_not_Null [OF data_invD(1) [OF dinv] b(3)])
  then have "0 < nodes R" by (cases R) auto
  moreover have "nodes (tree_at C T0 reqs i) \<le> nodes T0 + num_tasks C"
    using nodes_tree_at [of C T0 reqs i] run data_invD(2) [OF dinv] sched_preD(3) [OF pre] by (auto simp: running_def)
  ultimately show p: "prog D \<sigma> i < nodes T0 + num_tasks C" using b by simp
  show "c_stage (ctxs \<sigma> i) < STAGE_DONE"
    using control_invD(2) [OF cinv run] p sched_preD(4) [OF pre] by (auto simp: progress_ok_def)
qed

lemma is_done_iff:
  assumes pre: "sched_pre C H0 t0 T0 reqs" and dinv: "data_inv C T0 reqs \<sigma> G D" and cinv: "control_inv C \<sigma> G D"
  shows "is_done (ctxs \<sigma> i) \<longleftrightarrow> i \<le> num_issued \<sigma> \<and> \<not> running \<sigma> i"
proof (cases "i \<le> num_issued \<sigma>")
  case True
  then show ?thesis using stage_small(1) [OF pre dinv cinv, of i] data_invD(6) [OF dinv True]
    by (cases "running \<sigma> i") (auto simp: is_done_def is_finished_def)
next
  case False
  then have "ctxs \<sigma> i = init_ctx" using data_invD(7) [OF dinv] by simp
  with False show ?thesis by (simp add: is_done_def init_ctx_def STAGE_DONE_def)
qed

lemma collector_step_ok:
  assumes pre: "sched_pre C H0 t0 T0 reqs" and dinv: "data_inv C T0 reqs \<sigma> G D" and cinv: "control_inv C \<sigma> G D"
  shows "collector_step C \<sigma> = Wait \<or> (\<exists>\<sigma>'. collector_step C \<sigma> = Done \<sigma>' \<and> sched_inv C T0 reqs \<sigma>')"
proof -
  let ?l = "collector \<sigma>"
  have keep: "sched_inv C T0 reqs \<sigma>'" if f: "\<sigma>' = \<sigma>\<lparr>num_committed := n, collector := l\<rparr>"
    and l: "n = k_committed l" "k_committed l \<le> k_next l" "k_next l \<le> num_issued \<sigma>" "\<And>i. i \<le> k_next l \<Longrightarrow> \<not> running \<sigma> i" for \<sigma>' n l
  proof -
    note d = data_commit [OF dinv, of n \<sigma>']
    have d': "data_inv C T0 reqs \<sigma>' G D" "running \<sigma>' = running \<sigma>" "prog D \<sigma>' = prog D \<sigma>"
      by (rule d; (use l in \<open>simp add: f\<close>)?)+
    have "token_inv C \<sigma>'" by (rule token_inv_cong [OF control_invD(1) [OF cinv]]) (simp_all add: f)
    moreover have "progress_ok C \<sigma>' D i" if "running \<sigma> i" for i
      by (rule progress_ok_cong [OF control_invD(2) [OF cinv that]]) (use d' in \<open>simp_all add: f passed_def\<close>)
    moreover have "worker_ok C \<sigma>' G D (workers \<sigma> w)" if "1 \<le> w" "w \<le> num_workers C" for w
      by (rule worker_ok_mono [OF control_invD(3) [OF cinv that]]) (use d' in \<open>simp_all add: f\<close>)
    ultimately have "control_inv C \<sigma>' G D" using control_invD(4) [OF cinv] l d' by (simp add: control_inv_def f)
    with d'(1) show ?thesis by (auto simp: sched_inv_def)
  qed
  show ?thesis
  proof (cases "k_next ?l < num_tasks C \<and> is_done (ctxs \<sigma> (k_next ?l + 1))")
    case True
    then have n: "Suc (k_next ?l) \<le> num_issued \<sigma>" "\<not> running \<sigma> (Suc (k_next ?l))"
      using is_done_iff [OF pre dinv cinv, of "Suc (k_next ?l)"] by simp_all
    have "sched_inv C T0 reqs (\<sigma>\<lparr>num_committed := num_committed \<sigma>, collector := ?l\<lparr>k_next := k_next ?l + 1\<rparr>\<rparr>)"
      by (rule keep [OF refl]) (use control_invD(5-8) [OF cinv] n in \<open>auto simp: le_Suc_eq\<close>)
    with True show ?thesis by (auto simp: collector_step_def Let_def)
  next
    case False
    have "sched_inv C T0 reqs (\<sigma>\<lparr>num_committed := k_next ?l, collector := ?l\<lparr>k_committed := k_next ?l\<rparr>\<rparr>)"
      by (rule keep [OF refl]) (use control_invD(5-8) [OF cinv] in auto)
    with False show ?thesis by (auto simp: collector_step_def Let_def)
  qed
qed

section \<open>The workers\<close>

lemma worker_exec_control:
  assumes inv: "control_inv C \<sigma> G D" and w: "1 \<le> w" "w \<le> num_workers C"
    and pc: "w_pc (workers \<sigma> w) = W_depend s \<or> w_pc (workers \<sigma> w) = W_spin s v"
    and \<sigma>': "\<sigma>' = set_worker w ((workers \<sigma> w)\<lparr>w_pc := W_loop (Suc s)\<rparr>) (set_ctx \<sigma> (w_task (workers \<sigma> w)) (H', c'))"
    and oth: "others_same \<sigma> \<sigma>' D D' (w_task (workers \<sigma> w))" "G \<subseteq>\<^sub>m G'"
    and new: "running \<sigma>' (w_task (workers \<sigma> w)) \<Longrightarrow> prog D' \<sigma>' (w_task (workers \<sigma> w)) = Suc (prog D \<sigma> (w_task (workers \<sigma> w))) \<and>
      c_stage c' = c_stage (ctxs \<sigma> (w_task (workers \<sigma> w)))"
  shows "control_inv C \<sigma>' G' D'"
proof -
  let ?l = "workers \<sigma> w" and ?i = "w_task (workers \<sigma> w)"
  note tok = control_invD(1) [OF inv] and ok = control_invD(3) [OF inv w]
  have so: "stage_ok C \<sigma> D ?i s" and lp: "looping (w_pc ?l)" using ok pc by (auto simp: worker_ok_def)
  then have run: "running \<sigma> ?i" and sub: "?i \<le> num_submitted \<sigma>" "1 \<le> ?i" using ok by (auto simp: stage_ok_def worker_ok_def active_def)
  note pr = control_invD(2) [OF inv run]
  have f: "pipes \<sigma>' = pipes \<sigma>" "ctxs \<sigma>' = (ctxs \<sigma>)(?i := c')" "workers \<sigma>' = (workers \<sigma>)(w := ?l\<lparr>w_pc := W_loop (Suc s)\<rparr>)"
    "tokens \<sigma>' = tokens \<sigma>" "master \<sigma>' = master \<sigma>" "num_issued \<sigma>' = num_issued \<sigma>" "boarder \<sigma>' = boarder \<sigma>"
    "num_submitted \<sigma>' = num_submitted \<sigma>" "num_fetched \<sigma>' = num_fetched \<sigma>" "num_committed \<sigma>' = num_committed \<sigma>"
    "collector \<sigma>' = collector \<sigma>"
    by (simp_all add: \<sigma>' set_worker_def set_ctx_def)
  have tok': "token_inv C \<sigma>'" by (rule token_inv_cong [OF tok]) (simp_all add: f)
  have pa: "passed \<sigma>' = passed \<sigma>" by (simp add: passed_def f fun_eq_iff)
  have pri: "progress_ok C \<sigma>' D' ?i" if "running \<sigma>' ?i"
  proof -
    have "j \<le> Suc (prog D \<sigma> ?i) \<and> passed \<sigma> j ?i" if "1 \<le> j" "j \<le> num_pipes C" for j
      using submitted_passed [OF tok sub that] progress_okD(1) [OF pr that] by simp
    then show ?thesis using pr new [OF that] w by (auto simp: progress_ok_def f pa intro!: bexI [of _ w])
  qed
  show ?thesis
  proof (rule control_task [OF inv tok' run oth(1) _ oth(2)])
    show "worker_ok C \<sigma>' G' D' (workers \<sigma>' k)" if k: "1 \<le> k" "k \<le> num_workers C" for k
    proof (cases "k = w")
      case True
      have "running \<sigma>' ?i \<Longrightarrow> stage_ok C \<sigma>' D' ?i (Suc s)" using new so by (simp add: stage_ok_def)
      then show ?thesis using True ok lp f by (auto simp: worker_ok_def active_def)
    next
      case False
      have "w_task (workers \<sigma> k) \<noteq> ?i" if "looping (w_pc (workers \<sigma> k))"
        using control_invD(4) [OF inv k w False] lp that looping_active by blast
      then have "worker_ok C \<sigma>' G' D' (workers \<sigma> k)"
        by (intro worker_ok_mono [OF control_invD(3) [OF inv k]]) (use oth f in \<open>auto simp: others_same_def\<close>)
      with False show ?thesis by (simp add: f)
    qed
  qed (use f pa pri pc in \<open>auto simp: same_collector_def active_def\<close>)
qed

lemma worker_exec_ok:
  assumes dinv: "data_inv C T0 reqs \<sigma> G D" and cinv: "control_inv C \<sigma> G D" and w: "1 \<le> w" "w \<le> num_workers C"
    and pc: "w_pc (workers \<sigma> w) = W_depend s \<or> w_pc (workers \<sigma> w) = W_spin s v"
    and run: "running \<sigma> (w_task (workers \<sigma> w))" and cur: "t_cur (ctxs \<sigma> (w_task (workers \<sigma> w))) = Some b"
    and ok: "exec_ok (heap_of \<sigma>) (pending \<sigma>) G D (ctxs \<sigma> (w_task (workers \<sigma> w))) b (Done (H', c'))"
  shows "sched_inv C T0 reqs
    (set_worker w ((workers \<sigma> w)\<lparr>w_pc := W_loop (Suc s)\<rparr>) (set_ctx \<sigma> (w_task (workers \<sigma> w)) (H', c')))"
proof -
  let ?i = "w_task (workers \<sigma> w)"
  define \<sigma>' where "\<sigma>' = set_worker w ((workers \<sigma> w)\<lparr>w_pc := W_loop (Suc s)\<rparr>) (set_ctx \<sigma> ?i (H', c'))"
  have f: "heap_of \<sigma>' = H'" "ctxs \<sigma>' = (ctxs \<sigma>)(?i := c')" "same_flow \<sigma> \<sigma>'" "num_issued \<sigma>' = num_issued \<sigma>"
    by (simp_all add: \<sigma>'_def set_worker_def set_ctx_def same_flow_def)
  from data_exec [OF dinv run cur ok f(1-3)] obtain G' D' where d: "data_inv C T0 reqs \<sigma>' G' D'" "G \<subseteq>\<^sub>m G'"
    "\<And>k. k \<noteq> ?i \<Longrightarrow> running \<sigma>' k = running \<sigma> k" "\<And>k. k \<noteq> ?i \<Longrightarrow> running \<sigma> k \<Longrightarrow> prog D' \<sigma>' k = prog D \<sigma> k"
    "running \<sigma>' ?i \<Longrightarrow> prog D' \<sigma>' ?i = Suc (prog D \<sigma> ?i) \<and> c_stage c' = c_stage (ctxs \<sigma> ?i)" by blast
  have "others_same \<sigma> \<sigma>' D D' ?i" using d(3,4) f by (simp add: others_same_def)
  from worker_exec_control [OF cinv w pc \<sigma>'_def this d(2,5)] d(1) show ?thesis
    unfolding \<sigma>'_def [symmetric] by (auto simp: sched_inv_def)
qed

text \<open>A change of the worker's local state, and of counters no other thread's invariant reads.\<close>

lemma worker_local_ok:
  assumes dinv: "data_inv C T0 reqs \<sigma> G D" and cinv: "control_inv C \<sigma> G D" and w: "1 \<le> w" "w \<le> num_workers C"
    and \<sigma>': "\<sigma>' = set_worker w l (\<sigma>\<lparr>num_fetched := n, num_estimated := es\<rparr>)" and n: "num_fetched \<sigma> \<le> n"
    and ok: "worker_ok C \<sigma>' G D l"
    and lp: "looping (w_pc (workers \<sigma> w)) \<Longrightarrow> running \<sigma> (w_task (workers \<sigma> w)) \<Longrightarrow>
      looping (w_pc l) \<and> w_task l = w_task (workers \<sigma> w)"
    and ac: "active (w_pc l) \<Longrightarrow> active (w_pc (workers \<sigma> w)) \<and> w_task l = w_task (workers \<sigma> w) \<or> num_fetched \<sigma> < w_task l"
  shows "sched_inv C T0 reqs \<sigma>'"
proof -
  have g: "heap_of \<sigma>' = heap_of \<sigma>" "ctxs \<sigma>' = ctxs \<sigma>" "num_issued \<sigma>' = num_issued \<sigma>" "todo \<sigma>' = todo \<sigma>"
    "num_committed \<sigma>' = num_committed \<sigma>" by (simp_all add: \<sigma>' set_worker_def)
  have r: "running \<sigma>' = running \<sigma>" "prog D \<sigma>' = prog D \<sigma>" by (rule data_pending_cong; simp add: g)+
  have t: "token_inv C \<sigma>'" by (rule token_inv_cong [OF control_invD(1) [OF cinv]]) (simp_all add: \<sigma>' set_worker_def)
  have "control_inv C \<sigma>' G D"
    by (rule control_worker [OF cinv t, where w = w and l = l])
      (use r n w ok lp ac g in \<open>auto simp: \<sigma>' set_worker_def same_tasks_def same_collector_def\<close>)
  moreover have "data_inv C T0 reqs \<sigma>' G D" using dinv data_inv_cong [of \<sigma>' \<sigma>] g by simp
  ultimately show ?thesis by (auto simp: sched_inv_def)
qed

lemma submitted_depth:
  assumes cinv: "control_inv C \<sigma> G D" and w: "1 \<le> w" "w \<le> num_workers C" and pc: "w_pc (workers \<sigma> w) = W_submit"
    and run: "running \<sigma> (w_task (workers \<sigma> w))" and sub: "w_task (workers \<sigma> w) \<le> num_submitted \<sigma>"
  shows "stage_ok C \<sigma> D (w_task (workers \<sigma> w)) 1"
proof -
  let ?i = "w_task (workers \<sigma> w)"
  note pr = control_invD(2) [OF cinv run]
  have i: "1 \<le> ?i" using control_invD(3) [OF cinv w] pc by (simp add: worker_ok_def active_def)
  have "num_pipes C \<le> prog D \<sigma> ?i"
  proof (cases "num_pipes C = 0")
    case False
    then have "1 \<le> num_pipes C" by simp
    then show ?thesis
      using submitted_passed [OF control_invD(1) [OF cinv] sub i] progress_okD(1) [OF pr] by blast
  qed simp
  moreover have "w_task (workers \<sigma> k) \<noteq> ?i" if k: "1 \<le> k" "k \<le> num_workers C" "looping (w_pc (workers \<sigma> k))" for k
  proof -
    have "k \<noteq> w" using k(3) pc by auto
    then show ?thesis using control_invD(4) [OF cinv k(1,2) w] pc k(3) by (simp add: active_def)
  qed
  then have "prog D \<sigma> ?i \<le> num_pipes C" using pr by (auto simp: progress_ok_def)
  ultimately show ?thesis using run by (simp add: stage_ok_def)
qed

lemma worker_task_E:
  assumes dinv: "data_inv C T0 reqs \<sigma> G D" and run: "running \<sigma> i"
  obtains b a q v p k x u l r where "t_cur (ctxs \<sigma> i) = Some b" "job (heap_of \<sigma>) (pending \<sigma>) G D (ctxs \<sigma> i) b"
    "t_past (ctxs \<sigma> i) = Some a" "cells (heap_of \<sigma>) a = Some q" "n_ver q = v" "G a = Some (Node v p k x u l r)"
    "v < i" "older i (Node v p k x u l r)"
proof -
  obtain b where b: "t_cur (ctxs \<sigma> i) = Some b" "job (heap_of \<sigma>) (pending \<sigma>) G D (ctxs \<sigma> i) b" "c_ver (ctxs \<sigma> i) = i"
    using task_okE [OF dinv run] by metis
  from b(2) data_invD(1) [OF dinv] obtain v p k x u l r a q where
    a: "t_past (ctxs \<sigma> i) = Some a" "cells (heap_of \<sigma>) a = Some q" "n_ver q = v"
    and lk: "link (heap_of \<sigma>) (pending \<sigma>) G D (D b) (Some a) (Node v p k x u l r)"
    and old: "older (c_ver (ctxs \<sigma> i)) (Node v p k x u l r)" by (rule job_E)
  have "G a = Some (Node v p k x u l r)" "v < i" "older i (Node v p k x u l r)"
    using lk old b(3) by (auto simp: link_def dest: older_Node)
  then show thesis by (rule that [OF b(1,2) a])
qed


lemma work_update_ok:
  assumes pre: "sched_pre C H0 t0 T0 reqs" and dinv: "data_inv C T0 reqs \<sigma> G D" and cinv: "control_inv C \<sigma> G D"
    and w: "1 \<le> w" "w \<le> num_workers C" and pc: "looping (w_pc (workers \<sigma> w))"
  shows "work_update_step C w \<sigma> = Wait \<or> (\<exists>\<sigma>'. work_update_step C w \<sigma> = Done \<sigma>' \<and> sched_inv C T0 reqs \<sigma>')"
proof -
  let ?l = "workers \<sigma> w" and ?i = "w_task (workers \<sigma> w)"
  note ok = control_invD(3) [OF cinv w]
  have i: "1 \<le> ?i" "?i \<le> num_tasks C" "?i \<le> num_submitted \<sigma>" using ok pc by (auto simp: worker_ok_def active_def)
  then have iss: "?i \<le> num_issued \<sigma>" using submitted_issued [OF control_invD(1) [OF cinv]] by simp
  note U = work_update_step_def Let_def at_ctx_def
  show ?thesis
  proof (cases "running \<sigma> ?i")
    case False
    then obtain s where s: "w_pc ?l = W_loop s" using ok pc by (cases "w_pc ?l") (auto simp: worker_ok_def stage_ok_def)
    have dn: "c_st (ctxs \<sigma> ?i) = ST_DONE" using data_invD(6) [OF dinv iss False] by (simp add: is_finished_def)
    let ?\<sigma> = "set_worker w (?l\<lparr>w_pc := W_check\<rparr>) (\<sigma>\<lparr>num_fetched := num_fetched \<sigma>, num_estimated := num_estimated \<sigma>\<rparr>)"
    have "sched_inv C T0 reqs ?\<sigma>"
      by (rule worker_local_ok [OF dinv cinv w refl]) (use ok False in \<open>auto simp: worker_ok_def active_def set_worker_def\<close>)
    then show ?thesis using s dn i by (simp add: U)
  next
    case run: True
    have st: "c_st (ctxs \<sigma> ?i) = ST_RUNNING" using run by (simp add: running_def)
    from dinv run obtain b a q v p k x u l r where t: "t_cur (ctxs \<sigma> ?i) = Some b"
      "job (heap_of \<sigma>) (pending \<sigma>) G D (ctxs \<sigma> ?i) b" "t_past (ctxs \<sigma> ?i) = Some a" "cells (heap_of \<sigma>) a = Some q"
      "n_ver q = v" "G a = Some (Node v p k x u l r)" "v < ?i" "older ?i (Node v p k x u l r)" by (rule worker_task_E)
    from worker_stage [OF ok pc run] obtain s where so: "stage_ok C \<sigma> D ?i s"
      and kind: "w_pc ?l = W_loop s \<or> w_pc ?l = W_depend s \<or> (\<exists>v. w_pc ?l = W_spin s v)" by blast
    from kind consider (lo) "w_pc ?l = W_loop s" | (dep) "w_pc ?l = W_depend s" | (spin) v' where "w_pc ?l = W_spin s v'" by blast
    then show ?thesis
    proof cases
      case lo
      define \<sigma>' where "\<sigma>' = set_worker w (?l\<lparr>w_pc := W_depend s\<rparr>) (\<sigma>\<lparr>ctxs := (ctxs \<sigma>)(?i := (ctxs \<sigma> ?i)\<lparr>c_stage := s\<rparr>)\<rparr>)"
      have d: "data_inv C T0 reqs \<sigma>' G D" "running \<sigma>' = running \<sigma>" "prog D \<sigma>' = prog D \<sigma>"
        by (rule data_stage [OF dinv run]; simp add: \<sigma>'_def set_worker_def same_flow_def)+
      have tk: "token_inv C \<sigma>'" by (rule token_inv_cong [OF control_invD(1) [OF cinv]]) (simp_all add: \<sigma>'_def set_worker_def)
      have "worker_ok C \<sigma>' G D (?l\<lparr>w_pc := W_depend s\<rparr>)"
        using ok lo so d(2,3) by (simp add: worker_ok_def active_def stage_ok_def \<sigma>'_def set_worker_def)
      then have "control_inv C \<sigma>' G D"
        by (intro control_worker [OF cinv tk, where w = w and l = "?l\<lparr>w_pc := W_depend s\<rparr>"])
          (use w lo so d(2,3) in \<open>auto simp: same_tasks_def same_collector_def \<sigma>'_def set_worker_def active_def stage_ok_def\<close>)
      with d(1) have "sched_inv C T0 reqs \<sigma>'" by (auto simp: sched_inv_def)
      then show ?thesis using lo st i by (simp add: U \<sigma>'_def)
    next
      case dep
      show ?thesis
      proof (cases "n_ver q \<le> num_committed \<sigma>")
        case True
        have "settled (heap_of \<sigma>) (pending \<sigma>) (t_past (ctxs \<sigma> ?i))"
        proof (rule settled_old [OF data_invD(1) [OF dinv], where T = "Node v p k x u l r" and nc = "num_committed \<sigma>"])
          fix z assume "z \<in> vers (Node v p k x u l r)"
          with t(8) True t(5) show "z \<le> num_committed \<sigma>" using mono_ver_top [of "Node v p k x u l r" z] by (simp add: older_def)
        qed (use t in simp, rule pending_new [OF dinv])
        from execute_to_complete_ok [OF data_invD(1) [OF dinv] t(2,1) this] obtain H' c' where
          e: "execute_to_complete (heap_of \<sigma>) (ctxs \<sigma> ?i) = Done (H', c')"
          "exec_ok (heap_of \<sigma>) (pending \<sigma>) G D (ctxs \<sigma> ?i) b (Done (H', c'))" unfolding exec_ok_def by fastforce
        from worker_exec_ok [OF dinv cinv w disjI1 run t(1) e(2), of s] dep e(1) True t(3,4) i show ?thesis
          by (simp add: U deref_def)
      next
        case False
        let ?\<sigma> = "set_worker w (?l\<lparr>w_pc := W_spin s (n_ver q)\<rparr>) (\<sigma>\<lparr>num_fetched := num_fetched \<sigma>, num_estimated := num_estimated \<sigma>\<rparr>)"
        have r: "running ?\<sigma> = running \<sigma>" "prog D ?\<sigma> = prog D \<sigma>" by (rule data_pending_cong; simp add: set_worker_def)+
        have "worker_ok C ?\<sigma> G D (?l\<lparr>w_pc := W_spin s (n_ver q)\<rparr>)"
          using ok dep so t(3,5,6) r unfolding worker_ok_def stage_ok_def by (simp add: active_def set_worker_def)
        then have "sched_inv C T0 reqs ?\<sigma>"
          by (intro worker_local_ok [OF dinv cinv w refl]) (use dep in \<open>auto simp: active_def\<close>)
        with dep False t(3,4) i show ?thesis by (simp add: U deref_def)
      qed
    next
      case spin
      have v': "v' = v" using ok spin t(3,6) by (auto simp: worker_ok_def)
      have le: "v \<le> num_tasks C" using t(7) i by simp
      let ?e = "execute_one_step (num_committed \<sigma>) (heap_of \<sigma>) (ctxs \<sigma> ?i)"
      show ?thesis
      proof (cases "c_stage (ctxs \<sigma> v) \<le> s")
        case True
        then show ?thesis using spin v' le by (simp add: U)
      next
        case False
        have ne: "prog D \<sigma> v'' \<noteq> prog D \<sigma> ?i"
          if "t_past (ctxs \<sigma> ?i) = Some a'" "running \<sigma> v''" "v'' < ?i" "G a' = Some T" "top_ver T = v''" for a' v'' T
        proof -
          have "v'' = v" using that t(3,6) by auto
          then show ?thesis using control_invD(2) [OF cinv that(2)] False so by (auto simp: progress_ok_def stage_ok_def)
        qed
        have "?e = Wait \<or> (\<exists>H' c' b. ?e = Done (H', c') \<and> t_cur (ctxs \<sigma> ?i) = Some b \<and>
            exec_ok (heap_of \<sigma>) (pending \<sigma>) G D (ctxs \<sigma> ?i) b (Done (H', c')))"
          by (rule one_step_ok [OF dinv run]) (rule ne)
        then consider "?e = Wait" | H' c' b' where "?e = Done (H', c')" "t_cur (ctxs \<sigma> ?i) = Some b'"
          "exec_ok (heap_of \<sigma>) (pending \<sigma>) G D (ctxs \<sigma> ?i) b' (Done (H', c'))" by blast
        then show ?thesis
        proof cases
          case 1
          then show ?thesis using spin v' le False i by (simp add: U)
        next
          case 2
          from worker_exec_ok [OF dinv cinv w disjI2 run 2(2,3), of s v'] spin 2(1) v' le False i show ?thesis by (simp add: U)
        qed
      qed
    qed
  qed
qed

lemma worker_step_ok:
  assumes pre: "sched_pre C H0 t0 T0 reqs" and dinv: "data_inv C T0 reqs \<sigma> G D" and cinv: "control_inv C \<sigma> G D"
    and w: "1 \<le> w" "w \<le> num_workers C"
  shows "worker_step C w \<sigma> = Wait \<or> (\<exists>\<sigma>'. worker_step C w \<sigma> = Done \<sigma>' \<and> sched_inv C T0 reqs \<sigma>')"
proof -
  let ?l = "workers \<sigma> w"
  note ok = control_invD(3) [OF cinv w]
  note loc = worker_local_ok [OF dinv cinv w refl]
  have upd: "\<sigma>\<lparr>num_fetched := num_fetched \<sigma>, num_estimated := num_estimated \<sigma>\<rparr> = \<sigma>" by simp
  show ?thesis
  proof (cases "w_pc ?l")
    case W_fetch
    let ?t = "1 + num_fetched \<sigma>"
    have "sched_inv C T0 reqs (set_worker w (?l\<lparr>w_task := ?t, w_pc := (if ?t > num_tasks C then W_check else W_submit)\<rparr>)
        (\<sigma>\<lparr>num_fetched := ?t, num_estimated := num_estimated \<sigma>\<rparr>))"
      by (rule loc) (use ok W_fetch in \<open>auto simp: worker_ok_def active_def set_worker_def\<close>)
    then show ?thesis using W_fetch by (simp add: worker_step_def work_update_step_def Let_def)
  next
    case W_submit
    have sub: "sched_inv C T0 reqs (set_worker w (?l\<lparr>w_cached := n, w_pc := W_loop 1\<rparr>) \<sigma>)"
      if "w_task ?l \<le> num_submitted \<sigma>" "n \<le> num_submitted \<sigma>" for n
    proof -
      let ?\<sigma> = "set_worker w (?l\<lparr>w_cached := n, w_pc := W_loop 1\<rparr>) (\<sigma>\<lparr>num_fetched := num_fetched \<sigma>, num_estimated := num_estimated \<sigma>\<rparr>)"
      have r: "running ?\<sigma> = running \<sigma>" "prog D ?\<sigma> = prog D \<sigma>" by (rule data_pending_cong; simp add: set_worker_def)+
      have "running \<sigma> (w_task ?l) \<Longrightarrow> stage_ok C \<sigma> D (w_task ?l) 1" using submitted_depth [OF cinv w W_submit _ that(1)] .
      then have "worker_ok C ?\<sigma> G D (?l\<lparr>w_cached := n, w_pc := W_loop 1\<rparr>)"
        using ok W_submit that r unfolding worker_ok_def stage_ok_def by (simp add: active_def set_worker_def)
      then have "sched_inv C T0 reqs ?\<sigma>" by (intro loc) (use W_submit in \<open>auto simp: active_def\<close>)
      then show ?thesis by simp
    qed
    have "?l\<lparr>w_pc := W_loop 1\<rparr> = ?l\<lparr>w_cached := w_cached ?l, w_pc := W_loop 1\<rparr>" by simp
    then show ?thesis using W_submit sub [of "w_cached ?l"] sub [of "num_submitted \<sigma>"] ok
      by (auto simp: worker_step_def work_update_step_def Let_def worker_ok_def)
  next
    case W_check
    let ?pc = "if w_task ?l \<ge> w_end ?l then if w_start ?l > w_end ?l then W_publish else W_estimate (w_end ?l) else W_fetch"
    have "sched_inv C T0 reqs (set_worker w (?l\<lparr>w_pc := ?pc\<rparr>) (\<sigma>\<lparr>num_fetched := num_fetched \<sigma>, num_estimated := num_estimated \<sigma>\<rparr>))"
      by (rule loc) (use ok W_check in \<open>auto simp: worker_ok_def active_def set_worker_def split: if_splits\<close>)
    then show ?thesis using W_check by (simp add: worker_step_def Let_def)
  next
    case (W_estimate k)
    then have k: "k \<le> num_tasks C" using ok by (simp add: worker_ok_def)
    have "c_root (ctxs \<sigma> k) = None \<or> points G (c_root (ctxs \<sigma> k)) (tree_at C T0 reqs k)"
      using data_invD(4,7) [OF dinv, of k] by (cases "k \<le> num_issued \<sigma>") (auto simp: link_def init_ctx_def)
    from augment_at_returns [OF data_linked_blank [OF dinv] this] obtain H' s where
      a: "augment_at (heap_of \<sigma>) (c_root (ctxs \<sigma> k)) = Some (H', s)" "modulo_aug (heap_of \<sigma>) H'" by blast
    define l' where "l' = ?l\<lparr>w_pc := (if w_start ?l < k then W_estimate (k - 1) else W_publish)\<rparr>"
    define \<sigma>' where "\<sigma>' = set_worker w l' (\<sigma>\<lparr>heap_of := H'\<rparr>)"
    have d: "data_inv C T0 reqs \<sigma>' G D" "running \<sigma>' = running \<sigma>" "prog D \<sigma>' = prog D \<sigma>"
      by (rule data_augment [OF dinv]; simp add: \<sigma>'_def set_worker_def same_flow_def a(2))+
    have tk: "token_inv C \<sigma>'" by (rule token_inv_cong [OF control_invD(1) [OF cinv]]) (simp_all add: \<sigma>'_def set_worker_def)
    have "worker_ok C \<sigma>' G D l'" using ok W_estimate k by (auto simp: worker_ok_def active_def \<sigma>'_def l'_def set_worker_def)
    then have "control_inv C \<sigma>' G D"
      by (intro control_worker [OF cinv tk, where w = w and l = l'])
        (use w W_estimate d(2,3) in \<open>auto simp: same_tasks_def same_collector_def \<sigma>'_def l'_def set_worker_def active_def split: if_splits\<close>)
    with d(1) have "sched_inv C T0 reqs \<sigma>'" by (auto simp: sched_inv_def)
    then show ?thesis using W_estimate a(1) k by (simp add: worker_step_def work_estimate_step_def at_ctx_def Let_def \<sigma>'_def l'_def)
  next
    case W_publish
    let ?s = "w_start ?l + num_workers C * block_size C" and ?c = "w_count ?l + 1"
    have "sched_inv C T0 reqs (set_worker w (?l\<lparr>w_count := ?c, w_start := ?s,
        w_end := min (?s + block_size C - 1) (num_tasks C), w_pc := W_fetch\<rparr>)
        (\<sigma>\<lparr>num_fetched := num_fetched \<sigma>, num_estimated := (num_estimated \<sigma>)(w - 1 := ?c)\<rparr>))"
      by (rule loc) (use ok W_publish in \<open>auto simp: worker_ok_def active_def set_worker_def\<close>)
    then show ?thesis using W_publish by (simp add: worker_step_def work_estimate_step_def Let_def)
  qed (use work_update_ok [OF pre dinv cinv w] in \<open>simp_all add: worker_step_def Let_def\<close>)
qed

section \<open>Reachable states\<close>

lemma world_frozen:
  assumes "frozen H S"
  shows "world H {} S D"
  unfolding world_def
proof (intro conjI allI impI)
  fix b T assume "S b = Some T"
  from frozenD [OF assms this] obtain c where c: "b < brk H" "cells H b = Some c" "holds c (points S) T" .
  from c(3) have "holds c (\<lambda>p U. b \<in> {} \<or> link H {} S D (Suc (D b)) p U) T"
    by (rule holds_mono) (auto simp: link_def near_def intro: settled_frozen [OF assms])
  with c show "b < brk H" "\<exists>c. cells H b = Some c \<and> holds c (\<lambda>p U. b \<in> {} \<or> link H {} S D (Suc (D b)) p U) T" by auto
qed simp

lemma sched_inv_init:
  assumes "sched_pre C H0 t0 T0 reqs"
  shows "sched_inv C T0 reqs (init_state C H0 t0 reqs)"
proof -
  let ?\<sigma> = "init_state C H0 t0 reqs"
  from sched_preD(1) [OF assms] obtain S where S: "frozen H0 S" "points S t0 T0" by (auto simp: represents_def)
  have r: "\<not> running ?\<sigma> i" for i by (simp add: running_def init_state_def)
  then have p: "pending ?\<sigma> = {}" by (simp add: pending_def)
  have lk: "link H0 {} S (\<lambda>_. 0) 0 t0 T0" using S settled_frozen [OF S(1,2), of "{}"] by (simp add: link_def near_def)
  have "data_inv C T0 reqs ?\<sigma> S (\<lambda>_. 0)"
    using r p lk world_frozen [OF S(1), of "\<lambda>_. 0"] by (simp add: data_inv_def) (simp add: init_state_def)
  moreover have "pipe_ok C ?\<sigma> j" if "1 \<le> j" for j
    using that by (auto simp: pipe_ok_def produced_def consumed_def init_state_def)
  then have "token_inv C ?\<sigma>" by (simp add: token_inv_def) (simp add: init_state_def produced_def)
  moreover have "worker_ok C ?\<sigma> S (\<lambda>_. 0) (init_worker C w)" for w
    by (simp add: worker_ok_def init_worker_def init_state_def active_def Let_def)
  moreover have "w_pc (workers ?\<sigma> w) = W_fetch" for w by (simp add: init_state_def init_worker_def Let_def)
  ultimately show ?thesis using r unfolding sched_inv_def control_inv_def
    by (intro exI [of _ S] exI [of _ "\<lambda>_. 0"]) (simp add: active_def, simp add: init_state_def)
qed

lemma step_ok:
  assumes "sched_pre C H0 t0 T0 reqs" "sched_inv C T0 reqs \<sigma>" "tid \<in> threads C"
  shows "step C tid \<sigma> = Wait \<or> (\<exists>\<sigma>'. step C tid \<sigma> = Done \<sigma>' \<and> sched_inv C T0 reqs \<sigma>')"
proof -
  from assms(2) obtain G D where i: "data_inv C T0 reqs \<sigma> G D" "control_inv C \<sigma> G D" by (auto simp: sched_inv_def)
  show ?thesis
  proof (cases tid)
    case (Pipe j)
    then have "1 \<le> j" "j \<le> num_pipes C" using assms(3) by (auto simp: threads_def)
    from pipe_step_ok [OF assms(1) i this] Pipe show ?thesis by simp
  next
    case (Worker w)
    then have "1 \<le> w" "w \<le> num_workers C" using assms(3) by (auto simp: threads_def)
    from worker_step_ok [OF assms(1) i this] Worker show ?thesis by simp
  qed (use master_step_ok [OF assms(1) i] boarder_step_ok [OF assms(1) i] collector_step_ok [OF assms(1) i] in simp_all)
qed

lemma reachable_inv:
  assumes "reachable C H0 t0 reqs \<sigma>" "sched_pre C H0 t0 T0 reqs"
  shows "sched_inv C T0 reqs \<sigma>"
  using assms(1)
proof induction
  case reachable_init
  show ?case by (rule sched_inv_init [OF assms(2)])
next
  case (reachable_step \<sigma> tid \<sigma>')
  from step_ok [OF assms(2) reachable_step.IH reachable_step.hyps(2)] reachable_step.hyps(3) show ?case by auto
qed

text \<open>The tree below the root of a version all of whose predecessors are finished.\<close>

lemma finished_represents:
  assumes "sched_pre C H0 t0 T0 reqs" "sched_inv C T0 reqs \<sigma>" "i \<le> num_issued \<sigma>"
    and "\<And>k. 1 \<le> k \<Longrightarrow> k \<le> i \<Longrightarrow> c_st (ctxs \<sigma> k) = ST_DONE"
  shows "represents (heap_of \<sigma>) (c_root (ctxs \<sigma> i)) (tree_at C T0 reqs i)"
proof -
  from assms(2) obtain G D where d: "data_inv C T0 reqs \<sigma> G D" by (auto simp: sched_inv_def)
  have pts: "points G (c_root (ctxs \<sigma> i)) (tree_at C T0 reqs i)" using data_invD(4) [OF d assms(3)] by (simp add: link_def)
  have "settled (heap_of \<sigma>) (pending \<sigma>) (c_root (ctxs \<sigma> i))"
  proof (rule settled_old [OF data_invD(1) [OF d] pts])
    show "u \<le> i" if "u \<in> vers (tree_at C T0 reqs i)" for u
      using that older_tree_at [OF sched_preD(2) [OF assms(1)], of i C reqs] by (auto simp: older_def less_Suc_eq_le)
    show "i < top_ver U" if "b \<in> pending \<sigma>" "G b = Some U" for b U
      using pending_E [OF d that(1)] assms(4) that(2) by (metis One_nat_def not_less option.inject running_def status.distinct(1))
  qed
  with frozen_settled [OF data_invD(1) [OF d]] pts show ?thesis
    unfolding represents_def by (blast intro: points_settled [THEN iffD2])
qed

lemma committed_done:
  assumes "sched_inv C T0 reqs \<sigma>" "k \<le> num_committed \<sigma>"
  shows "c_st (ctxs \<sigma> k) = ST_DONE" "num_committed \<sigma> \<le> num_issued \<sigma>"
proof -
  from assms(1) obtain G D where d: "data_inv C T0 reqs \<sigma> G D" by (auto simp: sched_inv_def)
  show le: "num_committed \<sigma> \<le> num_issued \<sigma>" by (rule data_invD(8) [OF d])
  show "c_st (ctxs \<sigma> k) = ST_DONE"
    using data_invD(6) [OF d, of k] data_invD(9) [OF d assms(2)] assms(2) le by (simp add: is_finished_def)
qed

end
