(* ===== verification/Scheduler_Live.thy ===== *)
theory Scheduler_Live
  imports Scheduler_Safety
begin

text \<open>
  Progress of the scheduler. Finished tasks stay finished and published roots never change. In every
  reachable state some thread can take a step or everything is done, because the oldest unfinished
  task never waits; and every step makes a measure smaller, so every schedule ends.
\<close>

section \<open>Contexts\<close>

definition advances :: "ctx \<Rightarrow> ctx \<Rightarrow> bool" where
  "advances c c' \<longleftrightarrow> (c_st c = ST_DONE \<longrightarrow> c_st c' = ST_DONE)"

lemma store_ctx:
  "advances c (snd (store tp p (H, c)))" "tp \<noteq> At_root \<Longrightarrow> snd (store tp p (H, c)) = c"
  by (cases tp; simp add: advances_def)+

lemma concat_step_ctx:
  assumes "concat_step tp H c = Done (H', c')"
  shows "advances c c'" "tp \<noteq> At_root \<Longrightarrow> c_root c' = c_root c"
  using assms by (cases tp; fastforce simp: concat_step_def complete_def advances_def ctx_done_def Let_def
      split: if_splits option.splits prod.splits)+

lemma update_step_ctx:
  assumes "update_step nc tp H c = Done (H', c')"
  shows "advances c c'" "tp \<noteq> At_root \<Longrightarrow> c_root c' = c_root c"
  using assms by (cases tp; fastforce simp: update_step_def complete_def advances_def ctx_done_def Let_def
      dest: concat_step_ctx split: if_splits option.splits prod.splits)+

lemma link_step_ctx:
  "concat_step tp H c = Done (H', c') \<Longrightarrow> tp \<noteq> At_root \<Longrightarrow> advances c c' \<and> c_root c' = c_root c"
  "update_step nc tp H c = Done (H', c') \<Longrightarrow> tp \<noteq> At_root \<Longrightarrow> advances c c' \<and> c_root c' = c_root c"
  by (auto dest: concat_step_ctx update_step_ctx)

lemma follow_ctx:
  "follow_lch b s = Done (H', c') \<Longrightarrow> c_st c' = c_st (snd s) \<and> c_root c' = c_root (snd s)"
  "follow_rch b s = Done (H', c') \<Longrightarrow> c_st c' = c_st (snd s) \<and> c_root c' = c_root (snd s)"
  by (auto simp: follow_lch_def follow_rch_def split: option.splits)

lemma complete_ctx: "complete s = Done (H', c') \<Longrightarrow> c_st c' = ST_DONE \<and> c_root c' = c_root (snd s)"
  by (auto simp: complete_def ctx_done_def)

lemma execute_one_step_ctx:
  assumes "execute_one_step nc H c = Done (H', c')"
  shows "advances c c' \<and> c_root c' = c_root c"
  using assms unfolding execute_one_step_def
  by (auto simp: advances_def split: option.splits functor_kind.splits if_splits
      dest!: follow_ctx link_step_ctx complete_ctx)

lemma finish_with_ctx:
  "finish_with tp c res = Done (H', c') \<Longrightarrow> tp \<noteq> At_root \<Longrightarrow> c_st c' = ST_DONE \<and> c_root c' = c_root c"
  by (auto simp: finish_with_def store_ctx dest!: complete_ctx split: option.splits)

lemma execute_to_complete_ctx:
  assumes "execute_to_complete H c = Done (H', c')"
  shows "c_st c' = ST_DONE \<and> c_root c' = c_root c"
  using assms unfolding execute_to_complete_def
  by (auto simp: Let_def split: option.splits functor_kind.splits if_splits dest!: finish_with_ctx complete_ctx)

lemma init_context_ctx:
  assumes "init_context C r \<sigma> = Done \<sigma>'"
  shows "\<exists>H c. \<sigma>' = \<sigma>\<lparr>num_issued := Suc (num_issued \<sigma>), heap_of := H, ctxs := (ctxs \<sigma>)(Suc (num_issued \<sigma>) := c)\<rparr> \<and>
    advances (ctxs \<sigma> (Suc (num_issued \<sigma>))) c"
proof (cases r)
  case (Pair opn elem)
  let ?i = "Suc (num_issued \<sigma>)"
  from assms Pair have "\<sigma>' = \<sigma>\<lparr>num_issued := ?i, heap_of := heap_of \<sigma>', ctxs := (ctxs \<sigma>)(?i := ctxs \<sigma>' ?i)\<rparr> \<and>
      advances (ctxs \<sigma> ?i) (ctxs \<sigma>' ?i)"
    by (cases "opn = OP_NONE")
      (auto simp: at_ctx_def Let_def set_ctx_def advances_def ctx_done_def split: if_splits dest!: update_step_ctx(1))
  then show ?thesis by blast
qed

text \<open>One step of any thread: finished tasks stay finished and published roots stay as they are.\<close>

definition ctxs_grow :: "state \<Rightarrow> state \<Rightarrow> bool" where
  "ctxs_grow \<sigma> \<sigma>' \<longleftrightarrow> num_issued \<sigma> \<le> num_issued \<sigma>' \<and> (\<forall>i. advances (ctxs \<sigma> i) (ctxs \<sigma>' i)) \<and>
     (\<forall>i \<le> num_issued \<sigma>. c_root (ctxs \<sigma>' i) = c_root (ctxs \<sigma> i))"

lemma ctxs_grow_refl: "ctxs \<sigma>' = ctxs \<sigma> \<Longrightarrow> num_issued \<sigma>' = num_issued \<sigma> \<Longrightarrow> ctxs_grow \<sigma> \<sigma>'"
  by (simp add: ctxs_grow_def advances_def)

lemma ctxs_grow_set:
  "num_issued \<sigma>' = num_issued \<sigma> \<Longrightarrow> ctxs \<sigma>' = (ctxs \<sigma>)(i := c) \<Longrightarrow> advances (ctxs \<sigma> i) c \<and> c_root c = c_root (ctxs \<sigma> i) \<Longrightarrow>
   ctxs_grow \<sigma> \<sigma>'"
  by (simp add: ctxs_grow_def advances_def)

lemma master_step_ctx:
  assumes "master_step C \<sigma> = Done \<sigma>'"
  shows "ctxs_grow \<sigma> \<sigma>'"
proof (cases "master \<sigma>")
  case M_issue
  with assms obtain r rs \<sigma>1 where r: "init_context C r \<sigma> = Done \<sigma>1" "\<sigma>' = \<sigma>1\<lparr>todo := rs, master := M_push\<rparr>"
    by (auto simp: master_step_def split: list.splits)
  from init_context_ctx [OF r(1)] r(2) show ?thesis by (auto simp: ctxs_grow_def advances_def)
next
  case M_push
  with assms show ?thesis by (auto simp: master_step_def put_token_def intro: ctxs_grow_refl)
qed

lemma pipe_step_ctx:
  assumes "pipe_step C j \<sigma> = Done \<sigma>'"
  shows "ctxs_grow \<sigma> \<sigma>'"
proof (cases "p_pc (pipes \<sigma> j) = P_exec \<and> c_st (ctxs \<sigma> (p_pos (pipes \<sigma> j))) \<noteq> ST_DONE")
  case True
  then obtain H c where "execute_one_step (num_committed \<sigma>) (heap_of \<sigma>) (ctxs \<sigma> (p_pos (pipes \<sigma> j))) = Done (H, c)"
    "ctxs \<sigma>' = (ctxs \<sigma>)(p_pos (pipes \<sigma> j) := c)" "num_issued \<sigma>' = num_issued \<sigma>"
    using assms by (fastforce simp: pipe_step_def at_ctx_def set_pipe_def set_ctx_def Let_def split: if_splits)
  from ctxs_grow_set [OF this(3,2) execute_one_step_ctx [OF this(1)]] show ?thesis .
next
  case False
  with assms show ?thesis
    by (intro ctxs_grow_refl) (auto simp: pipe_step_def at_ctx_def set_pipe_def put_token_def Let_def split: pipe_pc.splits if_splits)
qed

lemma worker_step_ctx:
  assumes "worker_step C w \<sigma> = Done \<sigma>'"
  shows "ctxs_grow \<sigma> \<sigma>'"
proof (cases "looping (w_pc (workers \<sigma> w))")
  case True
  then show ?thesis
  proof (cases "w_pc (workers \<sigma> w)")
    case (W_loop s)
    with assms show ?thesis
      by (auto simp: worker_step_def work_update_step_def at_ctx_def set_worker_def Let_def ctxs_grow_def advances_def split: if_splits)
  next
    case (W_depend s)
    with assms show ?thesis
      by (auto simp: worker_step_def work_update_step_def at_ctx_def set_worker_def set_ctx_def Let_def ctxs_grow_def advances_def
          dest!: execute_to_complete_ctx split: if_splits option.splits)
  next
    case (W_spin s v)
    with assms show ?thesis
      by (auto simp: worker_step_def work_update_step_def at_ctx_def set_worker_def set_ctx_def Let_def ctxs_grow_def advances_def
          dest!: execute_one_step_ctx split: if_splits)
  qed simp_all
next
  case False
  with assms show ?thesis
    by (intro ctxs_grow_refl; cases "w_pc (workers \<sigma> w)")
      (auto simp: worker_step_def work_update_step_def work_estimate_step_def at_ctx_def set_worker_def Let_def
        split: if_splits option.splits)
qed

lemma step_ctx:
  assumes "step C tid \<sigma> = Done \<sigma>'"
  shows "ctxs_grow \<sigma> \<sigma>'"
  using assms
  by (cases tid)
    (auto simp: boarder_step_def collector_step_def Let_def intro: master_step_ctx pipe_step_ctx worker_step_ctx ctxs_grow_refl
      split: if_splits boarder_pc.splits)

lemma run_ctx: "run C tids \<sigma> = Done \<sigma>' \<Longrightarrow> ctxs_grow \<sigma> \<sigma>'"
proof (induction tids arbitrary: \<sigma>)
  case (Cons tid tids)
  then obtain \<sigma>1 where "step C tid \<sigma> = Done \<sigma>1" "run C tids \<sigma>1 = Done \<sigma>'" by auto
  from step_ctx [OF this(1)] Cons.IH [OF this(2)] show ?case by (auto simp: ctxs_grow_def advances_def)
qed (simp add: ctxs_grow_refl)

section \<open>Ownership of tasks\<close>

definition owned :: "config \<Rightarrow> state \<Rightarrow> nat \<Rightarrow> bool" where
  "owned C \<sigma> i \<longleftrightarrow> c_st (ctxs \<sigma> i) = ST_DONE \<or>
     (\<exists>w \<in> {1..num_workers C}. active (w_pc (workers \<sigma> w)) \<and> w_task (workers \<sigma> w) = i)"

definition live_inv :: "config \<Rightarrow> state \<Rightarrow> bool" where
  "live_inv C \<sigma> \<longleftrightarrow>
     (b_pc (boarder \<sigma>) = B_take \<longrightarrow> num_submitted \<sigma> = b_submitted (boarder \<sigma>)) \<and>
     (\<forall>j \<in> {1..num_pipes C}. p_pc (pipes \<sigma> j) \<noteq> P_take \<longrightarrow> p_pos (pipes \<sigma> j) \<le> num_tasks C) \<and>
     (\<forall>w \<in> {1..num_workers C}. w_task (workers \<sigma> w) \<le> num_fetched \<sigma>) \<and>
     (\<forall>i. 1 \<le> i \<longrightarrow> i \<le> num_fetched \<sigma> \<longrightarrow> i \<le> num_tasks C \<longrightarrow> owned C \<sigma> i)"

lemma live_inv_init: "live_inv C (init_state C H0 t0 reqs)"
  by (simp add: live_inv_def init_state_def init_worker_def Let_def)

lemma live_inv_frame:
  assumes inv: "live_inv C \<sigma>" and g: "ctxs_grow \<sigma> \<sigma>'" and w: "workers \<sigma>' = workers \<sigma>" "num_fetched \<sigma>' = num_fetched \<sigma>"
    and b: "b_pc (boarder \<sigma>') = B_take \<Longrightarrow> num_submitted \<sigma>' = b_submitted (boarder \<sigma>')"
    and p: "\<And>j. 1 \<le> j \<Longrightarrow> j \<le> num_pipes C \<Longrightarrow> p_pc (pipes \<sigma>' j) \<noteq> P_take \<Longrightarrow> p_pos (pipes \<sigma>' j) \<le> num_tasks C"
  shows "live_inv C \<sigma>'"
  using assms by (auto simp: live_inv_def owned_def ctxs_grow_def advances_def)

lemma live_inv_worker:
  assumes inv: "live_inv C \<sigma>" and g: "ctxs_grow \<sigma> \<sigma>'" and same: "boarder \<sigma>' = boarder \<sigma>" "pipes \<sigma>' = pipes \<sigma>"
      "num_submitted \<sigma>' = num_submitted \<sigma>"
    and w: "1 \<le> w" "w \<le> num_workers C" "workers \<sigma>' = (workers \<sigma>)(w := l)"
    and l: "num_fetched \<sigma>' = num_fetched \<sigma> \<and> w_task l = w_task (workers \<sigma> w) \<and>
        (active (w_pc (workers \<sigma> w)) \<longrightarrow> active (w_pc l) \<or> c_st (ctxs \<sigma>' (w_task l)) = ST_DONE) \<or>
      num_fetched \<sigma>' = Suc (num_fetched \<sigma>) \<and> w_task l = Suc (num_fetched \<sigma>) \<and> \<not> active (w_pc (workers \<sigma> w)) \<and>
        (w_task l \<le> num_tasks C \<longrightarrow> active (w_pc l))"
  shows "live_inv C \<sigma>'"
proof -
  have own: "owned C \<sigma>' i" if "owned C \<sigma> i" for i
  proof (cases "c_st (ctxs \<sigma> i) = ST_DONE")
    case True
    then show ?thesis using g by (simp add: owned_def ctxs_grow_def advances_def)
  next
    case False
    with that obtain w' where w': "w' \<in> {1..num_workers C}" "active (w_pc (workers \<sigma> w'))" "w_task (workers \<sigma> w') = i"
      by (auto simp: owned_def)
    with l w show ?thesis by (cases "w' = w") (auto simp: owned_def intro!: bexI [of _ w'])
  qed
  have "owned C \<sigma>' i" if i: "1 \<le> i" "i \<le> num_fetched \<sigma>'" "i \<le> num_tasks C" for i
  proof (cases "i \<le> num_fetched \<sigma>")
    case True
    then show ?thesis using inv i by (auto simp: live_inv_def intro: own)
  next
    case False
    then have "i = w_task l" "active (w_pc l)" using l i by auto
    then show ?thesis using w by (auto simp: owned_def intro!: bexI [of _ w])
  qed
  then show ?thesis using inv same w l by (auto simp: live_inv_def le_Suc_eq)
qed

lemma master_step_live:
  assumes inv: "live_inv C \<sigma>" and st: "master_step C \<sigma> = Done \<sigma>'"
  shows "live_inv C \<sigma>'"
proof (rule live_inv_frame [OF inv master_step_ctx [OF st]])
  have same: "workers \<sigma>' = workers \<sigma> \<and> num_fetched \<sigma>' = num_fetched \<sigma> \<and> boarder \<sigma>' = boarder \<sigma> \<and>
      num_submitted \<sigma>' = num_submitted \<sigma> \<and> pipes \<sigma>' = pipes \<sigma>"
    using st by (auto simp: master_step_def put_token_def dest!: init_context_ctx split: master_pc.splits list.splits)
  then show "workers \<sigma>' = workers \<sigma>" "num_fetched \<sigma>' = num_fetched \<sigma>" by simp_all
  show "num_submitted \<sigma>' = b_submitted (boarder \<sigma>')" if "b_pc (boarder \<sigma>') = B_take"
    using same that inv by (simp add: live_inv_def)
  show "p_pos (pipes \<sigma>' j) \<le> num_tasks C" if "1 \<le> j" "j \<le> num_pipes C" "p_pc (pipes \<sigma>' j) \<noteq> P_take" for j
    using same that inv by (simp add: live_inv_def)
qed

lemma pipe_step_live:
  assumes inv: "live_inv C \<sigma>" and j: "1 \<le> j" "j \<le> num_pipes C" and st: "pipe_step C j \<sigma> = Done \<sigma>'"
  shows "live_inv C \<sigma>'"
proof (rule live_inv_frame [OF inv pipe_step_ctx [OF st]])
  have same: "workers \<sigma>' = workers \<sigma> \<and> num_fetched \<sigma>' = num_fetched \<sigma> \<and> boarder \<sigma>' = boarder \<sigma> \<and>
      num_submitted \<sigma>' = num_submitted \<sigma> \<and>
      (\<exists>l. pipes \<sigma>' = (pipes \<sigma>)(j := l) \<and> (p_pc l \<noteq> P_take \<longrightarrow> p_pos l \<le> num_tasks C))"
    using st inv j by (auto simp: pipe_step_def set_pipe_def set_ctx_def put_token_def at_ctx_def Let_def live_inv_def
        split: pipe_pc.splits if_splits)
  then show "workers \<sigma>' = workers \<sigma>" "num_fetched \<sigma>' = num_fetched \<sigma>" by simp_all
  show "num_submitted \<sigma>' = b_submitted (boarder \<sigma>')" if "b_pc (boarder \<sigma>') = B_take"
    using same that inv by (simp add: live_inv_def)
  show "p_pos (pipes \<sigma>' i) \<le> num_tasks C" if "1 \<le> i" "i \<le> num_pipes C" "p_pc (pipes \<sigma>' i) \<noteq> P_take" for i
    using same that inv by (auto simp: live_inv_def split: if_splits)
qed

lemma worker_step_live:
  assumes inv: "live_inv C \<sigma>" and w: "1 \<le> w" "w \<le> num_workers C" and st: "worker_step C w \<sigma> = Done \<sigma>'"
  shows "live_inv C \<sigma>'"
proof -
  note U = worker_step_def work_update_step_def work_estimate_step_def at_ctx_def set_worker_def set_ctx_def Let_def active_def
  have same: "boarder \<sigma>' = boarder \<sigma> \<and> pipes \<sigma>' = pipes \<sigma> \<and> num_submitted \<sigma>' = num_submitted \<sigma> \<and>
      workers \<sigma>' = (workers \<sigma>)(w := workers \<sigma>' w)"
    using st by (cases "w_pc (workers \<sigma> w)") (auto simp: U split: if_splits option.splits)
  have l: "num_fetched \<sigma>' = num_fetched \<sigma> \<and> w_task (workers \<sigma>' w) = w_task (workers \<sigma> w) \<and>
        (active (w_pc (workers \<sigma> w)) \<longrightarrow> active (w_pc (workers \<sigma>' w)) \<or> c_st (ctxs \<sigma>' (w_task (workers \<sigma>' w))) = ST_DONE) \<or>
      num_fetched \<sigma>' = Suc (num_fetched \<sigma>) \<and> w_task (workers \<sigma>' w) = Suc (num_fetched \<sigma>) \<and> \<not> active (w_pc (workers \<sigma> w)) \<and>
        (w_task (workers \<sigma>' w) \<le> num_tasks C \<longrightarrow> active (w_pc (workers \<sigma>' w)))"
    using st by (cases "w_pc (workers \<sigma> w)") (auto simp: U split: if_splits option.splits)
  from same show ?thesis by (intro live_inv_worker [OF inv worker_step_ctx [OF st] _ _ _ w _ l]) simp_all
qed

lemma step_live:
  assumes inv: "live_inv C \<sigma>" and tid: "tid \<in> threads C" and st: "step C tid \<sigma> = Done \<sigma>'"
  shows "live_inv C \<sigma>'"
proof (cases tid)
  case Boarder
  then show ?thesis using st
    by (intro live_inv_frame [OF inv step_ctx [OF st]])
      (use inv in \<open>auto simp: boarder_step_def Let_def live_inv_def split: boarder_pc.splits if_splits\<close>)
next
  case Collector
  then show ?thesis using st
    by (intro live_inv_frame [OF inv step_ctx [OF st]])
      (use inv in \<open>auto simp: collector_step_def Let_def live_inv_def split: if_splits\<close>)
qed (use assms in \<open>auto simp: threads_def intro: master_step_live pipe_step_live worker_step_live\<close>)

lemma reachable_live: "reachable C H0 t0 reqs \<sigma> \<Longrightarrow> live_inv C \<sigma>"
  by (induction rule: reachable.induct) (auto intro: live_inv_init step_live)

section \<open>The oldest unfinished task never waits\<close>

lemma bind_outcome_eq_Wait:
  "bind_outcome m f = Wait \<longleftrightarrow> m = Wait \<or> (\<exists>x. m = Done x \<and> f x = Wait)"
  by (cases m) auto

lemma complete_nowait: "complete s \<noteq> Wait"
  by (simp add: complete_def)

lemma follow_nowait: "follow_lch b s \<noteq> Wait" "follow_rch b s \<noteq> Wait"
  by (simp_all add: follow_lch_def follow_rch_def split: option.splits)

lemma concat_step_nowait: "concat_step tp H c \<noteq> Wait"
  by (auto simp: concat_step_def complete_nowait Let_def split: option.splits prod.splits)

lemma update_step_nowait:
  assumes "\<And>q. deref H (t_past c) = Some q \<Longrightarrow> n_ver q \<le> nc"
  shows "update_step nc tp H c \<noteq> Wait"
proof (cases "deref H (t_past c)")
  case None
  then show ?thesis by (auto simp: update_step_def complete_nowait Let_def split: prod.splits)
next
  case (Some q)
  then have "\<not> nc < n_ver q" using assms by (simp add: not_less)
  with Some show ?thesis
    by (auto simp: update_step_def complete_nowait concat_step_nowait Let_def split: option.splits prod.splits)
qed

lemma finish_with_nowait: "finish_with tp c res \<noteq> Wait"
  by (auto simp: finish_with_def complete_nowait split: option.splits)

lemma execute_to_complete_nowait: "execute_to_complete H c \<noteq> Wait"
  by (auto simp: execute_to_complete_def finish_with_nowait complete_nowait Let_def split: option.splits functor_kind.splits)

lemma execute_one_step_nowait:
  assumes "\<And>q p r. c_fn c = FN_SEARCH \<Longrightarrow> deref H (t_past c) = Some q \<Longrightarrow> p = n_lch q \<or> p = n_rch q \<Longrightarrow>
    deref H p = Some r \<Longrightarrow> n_ver r \<le> nc"
  shows "execute_one_step nc H c \<noteq> Wait"
proof -
  have dr: "deref (set_rch H b x) p = Some r \<Longrightarrow> \<exists>r'. deref H p = Some r' \<and> n_ver r' = n_ver r"
    "deref (set_lch H b x) p = Some r \<Longrightarrow> \<exists>r'. deref H p = Some r' \<and> n_ver r' = n_ver r" for b x p r
    by (auto simp: deref_def set_rch_def set_lch_def split: option.splits if_splits)
  have "update_step nc (At_lch b) (set_rch H b (n_rch q)) (c\<lparr>t_past := n_lch q\<rparr>) \<noteq> Wait"
    "update_step nc (At_rch b) (set_lch H b (n_lch q)) (c\<lparr>t_past := n_rch q\<rparr>) \<noteq> Wait"
    if "c_fn c = FN_SEARCH" "deref H (t_past c) = Some q" for b q
    using assms [OF that] dr by (intro update_step_nowait; fastforce)+
  then show ?thesis
    by (auto simp: execute_one_step_def bind_outcome_eq_Wait follow_nowait complete_nowait concat_step_nowait
        split: option.splits functor_kind.splits)
qed

lemma old_cell:
  assumes "world H pend G D" "points G p T" "older (Suc nc) T" "deref H p = Some q"
  shows "n_ver q \<le> nc"
proof (cases p)
  case (Some b)
  then have "G b = Some T" using assms(2) by simp
  from worldD [OF assms(1) this] obtain c where "cells H b = Some c" "holds c (\<lambda>p U. b \<in> pend \<or> link H pend G D (Suc (D b)) p U) T" .
  then show ?thesis using assms(3,4) Some by (auto simp: deref_def dest!: older_Node elim: holds_E)
qed (use assms(4) in \<open>simp add: deref_def\<close>)

lemma oldest_nowait:
  assumes inv: "data_inv C T0 reqs \<sigma> G D" and run: "running \<sigma> (Suc (num_committed \<sigma>))"
  shows "execute_one_step (num_committed \<sigma>) (heap_of \<sigma>) (ctxs \<sigma> (Suc (num_committed \<sigma>))) \<noteq> Wait"
proof (rule execute_one_step_nowait)
  fix q p r
  assume q: "deref (heap_of \<sigma>) (t_past (ctxs \<sigma> (Suc (num_committed \<sigma>)))) = Some q" "p = n_lch q \<or> p = n_rch q"
    and r: "deref (heap_of \<sigma>) p = Some r"
  note w = data_invD(1) [OF inv]
  from inv run obtain a q' v pr k x u l t where t: "t_past (ctxs \<sigma> (Suc (num_committed \<sigma>))) = Some a"
    "cells (heap_of \<sigma>) a = Some q'" "G a = Some (Node v pr k x u l t)" "v < Suc (num_committed \<sigma>)"
    "older (Suc (num_committed \<sigma>)) (Node v pr k x u l t)"
    by (rule worker_task_E)
  have np: "a \<notin> pending \<sigma>" using pending_new [OF inv _ t(3)] t(4) by auto
  from worldD [OF w t(3)] obtain c where "cells (heap_of \<sigma>) a = Some c"
    "holds c (\<lambda>p U. a \<in> pending \<sigma> \<or> link (heap_of \<sigma>) (pending \<sigma>) G D (Suc (D a)) p U) (Node v pr k x u l t)" .
  then have "points G (n_lch q) l" "points G (n_rch q) t" using np q(1) t(1) by (auto simp: deref_def link_def)
  then show "n_ver r \<le> num_committed \<sigma>" using q(2) older_Node [OF t(5)] old_cell [OF w _ _ r] by blast
qed

end
