(* ===== verification/Scheduler_Progress.thy ===== *)
theory Scheduler_Progress
  imports Scheduler_Live
begin

text \<open>
  Deadlock freedom and termination. When no thread can take a step, the client has issued
  everything and all tasks are committed; every step makes a measure smaller, so all schedules are
  bounded.
\<close>

section \<open>Where threads wait\<close>

lemma pipe_waits:
  assumes dinv: "data_inv C T0 reqs \<sigma> G D" and tok: "token_inv C \<sigma>" and lt: "num_tasks C < 2 ^ 64 - 1"
    and len: "length reqs \<le> num_tasks C"
    and j: "1 \<le> j" "j \<le> num_pipes C" and wait: "pipe_step C j \<sigma> = Wait"
    and m: "m \<le> produced \<sigma> (j - 1)" "m \<le> num_tasks C"
    and ex: "\<And>i. i \<le> m \<Longrightarrow> running \<sigma> i \<Longrightarrow> execute_one_step (num_committed \<sigma>) (heap_of \<sigma>) (ctxs \<sigma> i) \<noteq> Wait"
  shows "m < p_pos (pipes \<sigma> j)"
proof (rule ccontr)
  let ?l = "pipes \<sigma> j"
  assume "\<not> m < p_pos ?l"
  then have le: "p_pos ?l \<le> m" by simp
  have pr: "produced \<sigma> (j - 1) \<le> num_tasks C"
    using produced_le [OF tok, of "j - 1"] j data_invD(2) [OF dinv] len by linarith
  note U = pipe_step_def Let_def at_ctx_def
  show False
  proof (cases "p_pc ?l")
    case P_take
    with wait le m show False by (simp add: U)
  next
    case P_wait
    then have "tokens \<sigma> (j - 1) = - 1" using wait by (simp add: U split: if_splits)
    then have "of_nat (produced \<sigma> (j - 1)) - of_nat (p_pos ?l) = (- 1 :: u64)"
      using pipe_okD(4) [OF tok j] P_wait by (simp add: consumed_def)
    then show False using token_minus_one [of "p_pos ?l" "produced \<sigma> (j - 1)"] pr lt le m by simp
  next
    case P_exec
    then have e: "c_st (ctxs \<sigma> (p_pos ?l)) \<noteq> ST_DONE"
      "execute_one_step (num_committed \<sigma>) (heap_of \<sigma>) (ctxs \<sigma> (p_pos ?l)) = Wait"
      using wait le m by (auto simp: U bind_outcome_eq_Wait split: if_splits)
    have "p_pos ?l \<le> num_issued \<sigma>" using le m(1) produced_le [OF tok, of "j - 1"] j by linarith
    then have "running \<sigma> (p_pos ?l)" using e(1) pipe_okD(1) [OF tok j] by (cases "c_st (ctxs \<sigma> (p_pos ?l))") (auto simp: running_def)
    with ex [OF le] e(2) show False by simp
  next
    case P_put
    with wait show False by (simp add: U)
  qed
qed

lemma pipes_wait:
  assumes dinv: "data_inv C T0 reqs \<sigma> G D" and tok: "token_inv C \<sigma>" and lt: "num_tasks C < 2 ^ 64 - 1"
    and len: "length reqs \<le> num_tasks C"
    and wait: "\<And>j. 1 \<le> j \<Longrightarrow> j \<le> num_pipes C \<Longrightarrow> pipe_step C j \<sigma> = Wait"
    and m: "m \<le> produced \<sigma> 0" "m \<le> num_tasks C"
    and ex: "\<And>i. i \<le> m \<Longrightarrow> running \<sigma> i \<Longrightarrow> execute_one_step (num_committed \<sigma>) (heap_of \<sigma>) (ctxs \<sigma> i) \<noteq> Wait"
    and j: "j \<le> num_pipes C"
  shows "m \<le> produced \<sigma> j"
  using j
proof (induction j)
  case (Suc j)
  then have "m < p_pos (pipes \<sigma> (Suc j))"
    using pipe_waits [OF dinv tok lt len _ _ wait, of "Suc j" m] m(2) ex by simp
  then show ?case by (simp add: produced_def)
qed (use m in simp)

lemma boarder_waits:
  assumes tok: "token_inv C \<sigma>" and live: "live_inv C \<sigma>" and wait: "boarder_step C \<sigma> = Wait"
    and lt: "produced \<sigma> (num_pipes C) < 2 ^ 64" and m: "m \<le> produced \<sigma> (num_pipes C)" "m \<le> num_tasks C"
  shows "m \<le> num_submitted \<sigma> \<and> b_pc (boarder \<sigma>) = B_take"
proof -
  have pc: "b_pc (boarder \<sigma>) = B_take" using wait by (auto simp: boarder_step_def Let_def split: boarder_pc.splits)
  then have s: "num_submitted \<sigma> = b_submitted (boarder \<sigma>)" using live by (simp add: live_inv_def)
  have b: "b_submitted (boarder \<sigma>) \<le> produced \<sigma> (num_pipes C)"
    "tokens \<sigma> (num_pipes C) = of_nat (produced \<sigma> (num_pipes C) - b_submitted (boarder \<sigma>))" using tok by (simp_all add: token_inv_def)
  from wait pc have "num_tasks C \<le> b_submitted (boarder \<sigma>) \<or> tokens \<sigma> (num_pipes C) = 0"
    by (auto simp: boarder_step_def Let_def word_gt_0 split: if_splits)
  then have "m \<le> b_submitted (boarder \<sigma>)"
  proof
    assume "tokens \<sigma> (num_pipes C) = 0"
    then have "(of_nat (produced \<sigma> (num_pipes C) - b_submitted (boarder \<sigma>)) :: u64) = of_nat 0" using b(2) by simp
    then have "produced \<sigma> (num_pipes C) - b_submitted (boarder \<sigma>) = 0" using lt by (subst (asm) of_nat_u64_eq) simp_all
    then show ?thesis using b(1) m by simp
  qed (use m in simp)
  with s pc show ?thesis by simp
qed

text \<open>A worker that waits has stopped, or waits for a submission, or for an older task.\<close>

lemma worker_waits:
  assumes pre: "sched_pre C H0 t0 T0 reqs" and dinv: "data_inv C T0 reqs \<sigma> G D" and cinv: "control_inv C \<sigma> G D"
    and w: "1 \<le> w" "w \<le> num_workers C" and wait: "worker_step C w \<sigma> = Wait"
  shows "(w_pc (workers \<sigma> w) = W_fetch \<and> num_tasks C < w_task (workers \<sigma> w)) \<or>
    (w_pc (workers \<sigma> w) = W_submit \<and> num_submitted \<sigma> < w_task (workers \<sigma> w)) \<or>
    (looping (w_pc (workers \<sigma> w)) \<and> Suc (num_committed \<sigma>) < w_task (workers \<sigma> w))"
proof -
  let ?l = "workers \<sigma> w"
  note U = worker_step_def work_update_step_def work_estimate_step_def at_ctx_def Let_def
  note ok = control_invD(3) [OF cinv w]
  show ?thesis
  proof (cases "w_pc ?l")
    case (W_spin s v)
    then have run: "running \<sigma> (w_task ?l)" and st: "Suc (prog D \<sigma> (w_task ?l)) = num_pipes C + s"
      and a: "\<exists>a U. t_past (ctxs \<sigma> (w_task ?l)) = Some a \<and> G a = Some U \<and> top_ver U = v"
      using ok by (auto simp: worker_ok_def stage_ok_def)
    have s: "s < STAGE_DONE" using st stage_small(2) [OF pre dinv cinv run] sched_preD(4) [OF pre] by simp
    have v: "v < w_task ?l" using a by (auto intro: worker_task_E [OF dinv run])
    have e: "c_stage (ctxs \<sigma> v) \<le> s \<or> execute_one_step (num_committed \<sigma>) (heap_of \<sigma>) (ctxs \<sigma> (w_task ?l)) = Wait"
      using wait W_spin by (auto simp: U bind_outcome_eq_Wait split: if_splits)
    have "w_task ?l \<noteq> Suc (num_committed \<sigma>)"
    proof
      assume i: "w_task ?l = Suc (num_committed \<sigma>)"
      then have "v \<le> num_committed \<sigma>" using v by simp
      then have "\<not> running \<sigma> v" "v \<le> num_issued \<sigma>" using data_invD(8,9) [OF dinv] by (auto intro: le_trans)
      then have "c_stage (ctxs \<sigma> v) = STAGE_DONE" using data_invD(6) [OF dinv] by (simp add: is_finished_def)
      with e s oldest_nowait [OF dinv] run i show False by simp
    qed
    moreover have "num_committed \<sigma> < w_task ?l" using data_invD(9) [OF dinv] run by (metis not_le)
    ultimately show ?thesis using W_spin by simp
  qed (use wait in \<open>auto simp: U bind_outcome_eq_Wait execute_to_complete_nowait split: if_splits option.splits\<close>)
qed

section \<open>Deadlock freedom\<close>

lemma master_waits:
  assumes pre: "sched_pre C H0 t0 T0 reqs" and dinv: "data_inv C T0 reqs \<sigma> G D" and wait: "master_step C \<sigma> = Wait"
  shows "master \<sigma> = M_issue" "todo \<sigma> \<noteq> [] \<Longrightarrow> num_committed \<sigma> < num_issued \<sigma>"
proof -
  show m: "master \<sigma> = M_issue" using wait by (auto simp: master_step_def split: master_pc.splits)
  assume "todo \<sigma> \<noteq> []"
  then obtain r rs where "todo \<sigma> = r # rs" by (cases "todo \<sigma>") auto
  then have w: "init_context C r \<sigma> = Wait" using wait m by (auto simp: master_step_def bind_outcome_eq_Wait)
  show "num_committed \<sigma> < num_issued \<sigma>"
  proof (rule ccontr)
    assume "\<not> num_committed \<sigma> < num_issued \<sigma>"
    then have eq: "num_committed \<sigma> = num_issued \<sigma>" using data_invD(8) [OF dinv] by simp
    have "points G (c_root (ctxs \<sigma> (num_issued \<sigma>))) (tree_at C T0 reqs (num_issued \<sigma>))"
      using data_invD(4) [OF dinv, of "num_issued \<sigma>"] by (simp add: link_def)
    note old = old_cell [OF data_invD(1) [OF dinv] this older_tree_at [OF sched_preD(2) [OF pre]]]
    have "update_step (num_issued \<sigma>) tp (heap_of \<sigma>) (c\<lparr>t_past := c_root (ctxs \<sigma> (num_issued \<sigma>))\<rparr>) \<noteq> Wait" for tp c
      by (rule update_step_nowait) (use old in auto)
    with w eq show False by (cases r) (auto simp: at_ctx_def Let_def bind_outcome_eq_Wait split: if_splits)
  qed
qed

text \<open>In a state without steps everything handed to the pipeline up to \<open>m\<close> has been submitted.\<close>

lemma stuck_submitted:
  assumes pre: "sched_pre C H0 t0 T0 reqs" and dinv: "data_inv C T0 reqs \<sigma> G D" and cinv: "control_inv C \<sigma> G D"
    and live: "live_inv C \<sigma>" and stuck: "\<And>tid. tid \<in> threads C \<Longrightarrow> step C tid \<sigma> = Wait"
    and m: "m \<le> num_issued \<sigma>" "m \<le> Suc (num_committed \<sigma>)"
  shows "m \<le> num_submitted \<sigma>" "\<And>j. j \<le> num_pipes C \<Longrightarrow> m \<le> produced \<sigma> j"
proof -
  note tok = control_invD(1) [OF cinv]
  have le: "m \<le> num_tasks C" using m(1) data_invD(2) [OF dinv] sched_preD(3) [OF pre] by simp
  have p0: "m \<le> produced \<sigma> 0"
    using master_waits(1) [OF pre dinv] stuck [of Master] m by (simp add: threads_def produced_def)
  have ex: "execute_one_step (num_committed \<sigma>) (heap_of \<sigma>) (ctxs \<sigma> i) \<noteq> Wait" if "i \<le> m" "running \<sigma> i" for i
  proof -
    have "\<not> i \<le> num_committed \<sigma>" using that(2) data_invD(9) [OF dinv] by blast
    then have "i = Suc (num_committed \<sigma>)" using that(1) m(2) by simp
    then show ?thesis using oldest_nowait [OF dinv] that by simp
  qed
  have pw: "pipe_step C j \<sigma> = Wait" if "1 \<le> j" "j \<le> num_pipes C" for j
    using stuck [of "Pipe j"] that by (simp add: threads_def)
  show pr: "m \<le> produced \<sigma> j" if "j \<le> num_pipes C" for j
    by (rule pipes_wait [OF dinv tok sched_preD(5,3) [OF pre] pw p0 le ex that])
  have "produced \<sigma> (num_pipes C) < 2 ^ 64"
    using produced_le [OF tok, of "num_pipes C"] data_invD(2) [OF dinv] sched_preD(3,5) [OF pre] by simp
  from boarder_waits [OF tok live _ this pr [OF order_refl] le] stuck [of Boarder] show "m \<le> num_submitted \<sigma>"
    by (simp add: threads_def)
qed

lemma stuck_committed:
  assumes pre: "sched_pre C H0 t0 T0 reqs" and len: "length reqs = num_tasks C" and nw: "1 \<le> num_workers C"
    and dinv: "data_inv C T0 reqs \<sigma> G D" and cinv: "control_inv C \<sigma> G D"
    and live: "live_inv C \<sigma>" and stuck: "\<And>tid. tid \<in> threads C \<Longrightarrow> step C tid \<sigma> = Wait"
  shows "num_committed \<sigma> = num_tasks C"
proof (rule ccontr)
  assume ne: "num_committed \<sigma> \<noteq> num_tasks C"
  let ?i = "Suc (num_committed \<sigma>)"
  have lt: "num_committed \<sigma> < num_tasks C" using ne data_invD(2,8) [OF dinv] len by simp
  have iss: "?i \<le> num_issued \<sigma>"
  proof (rule ccontr)
    assume "\<not> ?i \<le> num_issued \<sigma>"
    then have eq: "num_issued \<sigma> = num_committed \<sigma>" using data_invD(8) [OF dinv] by simp
    then have "todo \<sigma> \<noteq> []" using data_invD(3) [OF dinv] len lt by simp
    with master_waits(2) [OF pre dinv] stuck [of Master] eq show False by (simp add: threads_def)
  qed
  have sub: "?i \<le> num_submitted \<sigma>" by (rule stuck_submitted(1) [OF pre dinv cinv live stuck iss order_refl])
  have ww: "worker_step C w \<sigma> = Wait" if "1 \<le> w" "w \<le> num_workers C" for w using stuck [of "Worker w"] that by (simp add: threads_def)
  note wait = worker_waits [OF pre dinv cinv _ _ ww]
  have "?i \<le> num_fetched \<sigma>"
  proof (rule ccontr)
    assume "\<not> ?i \<le> num_fetched \<sigma>"
    moreover have "w_task (workers \<sigma> 1) \<le> num_fetched \<sigma>" using live nw by (simp add: live_inv_def)
    ultimately show False using wait [of 1] nw lt sub by linarith
  qed
  then have "owned C \<sigma> ?i" using live lt by (simp add: live_inv_def)
  moreover have "c_st (ctxs \<sigma> ?i) \<noteq> ST_DONE"
  proof
    assume "c_st (ctxs \<sigma> ?i) = ST_DONE"
    then have "is_done (ctxs \<sigma> ?i)" using is_done_iff [OF pre dinv cinv, of ?i] iss by (simp add: running_def)
    moreover have "k_committed (collector \<sigma>) = num_committed \<sigma>" using control_invD(5) [OF cinv] by simp
    ultimately show False using stuck [of Collector] lt control_invD(6) [OF cinv]
      by (auto simp: threads_def collector_step_def Let_def split: if_splits)
  qed
  ultimately obtain w where "1 \<le> w" "w \<le> num_workers C" "active (w_pc (workers \<sigma> w))" "w_task (workers \<sigma> w) = ?i"
    by (auto simp: owned_def)
  with wait [of w] sub show False by (auto simp: active_def)
qed

lemma stuck_joinable:
  assumes pre: "sched_pre C H0 t0 T0 reqs" and len: "length reqs = num_tasks C"
    and dinv: "data_inv C T0 reqs \<sigma> G D" and cinv: "control_inv C \<sigma> G D"
    and live: "live_inv C \<sigma>" and stuck: "\<And>tid. tid \<in> threads C \<Longrightarrow> step C tid \<sigma> = Wait"
    and all: "num_committed \<sigma> = num_tasks C"
  shows "joinable C \<sigma>" "todo \<sigma> = []"
proof -
  note tok = control_invD(1) [OF cinv]
  have iss: "num_issued \<sigma> = num_tasks C" using data_invD(2,8) [OF dinv] len all by simp
  then show "todo \<sigma> = []" using data_invD(3) [OF dinv] len by simp
  have sub: "num_tasks C \<le> num_submitted \<sigma>" and pr: "\<And>j. j \<le> num_pipes C \<Longrightarrow> num_tasks C \<le> produced \<sigma> j"
    by (rule stuck_submitted [OF pre dinv cinv live stuck]; simp add: iss all)+
  have "p_pc (pipes \<sigma> j) = P_take \<and> num_tasks C < p_pos (pipes \<sigma> j)" if j: "1 \<le> j" "j \<le> num_pipes C" for j
  proof -
    have "num_tasks C < p_pos (pipes \<sigma> j)" using pr [OF j(2)] j pipe_okD(1) [OF tok j] by (simp add: produced_def)
    then show ?thesis using live j by (auto simp: live_inv_def)
  qed
  moreover have "num_tasks C \<le> b_submitted (boarder \<sigma>)" using sub tok by (simp add: token_inv_def)
  moreover have "b_pc (boarder \<sigma>) = B_take" using stuck [of Boarder]
    by (auto simp: threads_def boarder_step_def Let_def split: boarder_pc.splits)
  moreover have "w_pc (workers \<sigma> w) = W_fetch \<and> num_tasks C < w_task (workers \<sigma> w)" if w: "1 \<le> w" "w \<le> num_workers C" for w
    using worker_waits [OF pre dinv cinv w] stuck [of "Worker w"] w sub all control_invD(3) [OF cinv w]
    by (auto simp: threads_def worker_ok_def active_def)
  moreover have "num_tasks C \<le> k_committed (collector \<sigma>)" using control_invD(5) [OF cinv] all by simp
  ultimately show "joinable C \<sigma>" by (simp add: joinable_def)
qed

section \<open>Termination\<close>

text \<open>
  The rank of a state: how many steps are left at most. \<open>M\<close> bounds the stages of a task. A worker
  that has not yet fetched a number past the last task may still run one task.
\<close>

fun pipe_rank :: "nat \<Rightarrow> pipe_local \<Rightarrow> nat" where
  "pipe_rank N l = 4 * (Suc N - p_pos l) +
     (case p_pc l of P_take \<Rightarrow> 3 | P_wait \<Rightarrow> 2 | P_exec \<Rightarrow> 1 | P_put \<Rightarrow> 0)"

definition boarder_rank :: "nat \<Rightarrow> boarder_local \<Rightarrow> nat" where
  "boarder_rank N l = 2 * (N - b_submitted l) + (if b_pc l = B_publish then 1 else 0)"

fun pc_rank :: "nat \<Rightarrow> nat \<Rightarrow> worker_pc \<Rightarrow> nat" where
  "pc_rank N M W_fetch = 0"
| "pc_rank N M W_publish = 1"
| "pc_rank N M (W_estimate k) = 2 + k"
| "pc_rank N M W_check = N + 3"
| "pc_rank N M (W_loop s) = N + 4 + 3 * (M - s)"
| "pc_rank N M (W_depend s) = N + 3 + 3 * (M - s)"
| "pc_rank N M (W_spin s v) = N + 2 + 3 * (M - s)"
| "pc_rank N M W_submit = N + 5 + 3 * M"

definition worker_rank :: "nat \<Rightarrow> nat \<Rightarrow> worker_local \<Rightarrow> nat" where
  "worker_rank N M l = (if w_task l \<le> N then N + 6 + 3 * M else 0) + pc_rank N M (w_pc l)"

definition sched_rank :: "config \<Rightarrow> nat \<Rightarrow> state \<Rightarrow> nat" where
  "sched_rank C M \<sigma> = 2 * length (todo \<sigma>) + (if master \<sigma> = M_push then 1 else 0) +
     (\<Sum>j\<in>{1..num_pipes C}. pipe_rank (num_tasks C) (pipes \<sigma> j)) + boarder_rank (num_tasks C) (boarder \<sigma>) +
     (\<Sum>w\<in>{1..num_workers C}. worker_rank (num_tasks C) M (workers \<sigma> w)) +
     (num_tasks C + 6 + 3 * M) * (num_tasks C - num_fetched \<sigma>) +
     (num_tasks C - k_next (collector \<sigma>)) + (num_tasks C - k_committed (collector \<sigma>))"

lemma sum_upd_less:
  fixes f :: "'b \<Rightarrow> nat"
  assumes "finite A" "a \<in> A" "f y + d < f (g a) + e"
  shows "(\<Sum>x\<in>A. f ((g(a := y)) x)) + d < (\<Sum>x\<in>A. f (g x)) + e"
proof -
  have "(\<Sum>x\<in>A - {a}. f ((g(a := y)) x)) = (\<Sum>x\<in>A - {a}. f (g x))" by (rule sum.cong) auto
  then show ?thesis using assms by (simp add: sum.remove [OF assms(1,2)])
qed

lemma master_rank:
  assumes "master_step C \<sigma> = Done \<sigma>'"
  shows "sched_rank C M \<sigma>' < sched_rank C M \<sigma>"
proof (cases "master \<sigma>")
  case M_issue
  with assms obtain r rs \<sigma>1 where "todo \<sigma> = r # rs" "init_context C r \<sigma> = Done \<sigma>1" "\<sigma>' = \<sigma>1\<lparr>todo := rs, master := M_push\<rparr>"
    by (auto simp: master_step_def split: list.splits)
  with M_issue init_context_ctx [OF this(2)] show ?thesis by (auto simp: sched_rank_def)
next
  case M_push
  with assms show ?thesis by (auto simp: master_step_def put_token_def sched_rank_def)
qed

lemma pipe_rank_step:
  assumes live: "live_inv C \<sigma>" and j: "1 \<le> j" "j \<le> num_pipes C" and st: "pipe_step C j \<sigma> = Done \<sigma>'"
  shows "sched_rank C M \<sigma>' < sched_rank C M \<sigma>"
proof -
  have le: "p_pc (pipes \<sigma> j) \<noteq> P_take \<Longrightarrow> p_pos (pipes \<sigma> j) \<le> num_tasks C" using live j by (simp add: live_inv_def)
  have "todo \<sigma>' = todo \<sigma> \<and> master \<sigma>' = master \<sigma> \<and> boarder \<sigma>' = boarder \<sigma> \<and> workers \<sigma>' = workers \<sigma> \<and>
      num_fetched \<sigma>' = num_fetched \<sigma> \<and> collector \<sigma>' = collector \<sigma> \<and>
      (\<exists>l. pipes \<sigma>' = (pipes \<sigma>)(j := l) \<and> pipe_rank (num_tasks C) l + 0 < pipe_rank (num_tasks C) (pipes \<sigma> j) + 0)"
    using st le by (cases "p_pc (pipes \<sigma> j)")
      (auto simp: pipe_step_def set_pipe_def set_ctx_def put_token_def at_ctx_def Let_def split: if_splits)
  then show ?thesis using sum_upd_less [of "{1..num_pipes C}" j "pipe_rank (num_tasks C)" _ 0 "pipes \<sigma>" 0] j
    by (auto simp: sched_rank_def simp del: pipe_rank.simps)
qed

definition stage_bound :: "config \<Rightarrow> tree \<Rightarrow> nat" where
  "stage_bound C T0 = Suc (nodes T0 + num_tasks C)"

lemma worker_rank_local:
  assumes pre: "sched_pre C H0 t0 T0 reqs" and dinv: "data_inv C T0 reqs \<sigma> G D" and cinv: "control_inv C \<sigma> G D"
    and w: "1 \<le> w" "w \<le> num_workers C" and st: "worker_step C w \<sigma> = Done \<sigma>'"
  defines "N \<equiv> num_tasks C" and "M \<equiv> stage_bound C T0"
  shows "worker_rank N M (workers \<sigma>' w) + (N + 6 + 3 * M) * (N - num_fetched \<sigma>') <
    worker_rank N M (workers \<sigma> w) + (N + 6 + 3 * M) * (N - num_fetched \<sigma>)"
proof -
  let ?l = "workers \<sigma> w"
  note U = worker_step_def work_update_step_def work_estimate_step_def at_ctx_def set_worker_def set_ctx_def Let_def worker_rank_def
  note ok = control_invD(3) [OF cinv w]
  have stage: "s < M" if "stage_ok C \<sigma> D (w_task ?l) s" for s
    using that stage_small(2) [OF pre dinv cinv, of "w_task ?l"] by (auto simp: stage_ok_def M_def stage_bound_def)
  show ?thesis
  proof (cases "w_pc ?l")
    case W_fetch
    show ?thesis
    proof (cases "num_fetched \<sigma> < N")
      case True
      then have "N - num_fetched \<sigma> = Suc (N - Suc (num_fetched \<sigma>))" by simp
      then show ?thesis using W_fetch st True by (auto simp: U N_def split: if_splits)
    qed (use W_fetch st in \<open>auto simp: U N_def split: if_splits\<close>)
  next
    case (W_depend s)
    then have "s < M" using ok stage by (simp add: worker_ok_def)
    then show ?thesis using W_depend st by (auto simp: U N_def split: if_splits option.splits)
  next
    case (W_spin s v)
    then have "s < M" using ok stage by (simp add: worker_ok_def)
    then show ?thesis using W_spin st by (auto simp: U N_def split: if_splits option.splits)
  next
    case W_check
    then show ?thesis using st ok by (auto simp: U N_def worker_ok_def)
  qed (use st in \<open>auto simp: U N_def M_def stage_bound_def split: if_splits option.splits\<close>)
qed

lemma worker_rank_step:
  assumes pre: "sched_pre C H0 t0 T0 reqs" and dinv: "data_inv C T0 reqs \<sigma> G D" and cinv: "control_inv C \<sigma> G D"
    and w: "1 \<le> w" "w \<le> num_workers C" and st: "worker_step C w \<sigma> = Done \<sigma>'"
  shows "sched_rank C (stage_bound C T0) \<sigma>' < sched_rank C (stage_bound C T0) \<sigma>"
proof -
  note U = worker_step_def work_update_step_def work_estimate_step_def at_ctx_def set_worker_def set_ctx_def Let_def
  have "todo \<sigma>' = todo \<sigma> \<and> master \<sigma>' = master \<sigma> \<and> boarder \<sigma>' = boarder \<sigma> \<and> pipes \<sigma>' = pipes \<sigma> \<and>
      collector \<sigma>' = collector \<sigma> \<and> workers \<sigma>' = (workers \<sigma>)(w := workers \<sigma>' w)"
    using st by (cases "w_pc (workers \<sigma> w)") (auto simp: U split: if_splits option.splits)
  moreover from this have "(\<Sum>x\<in>{1..num_workers C}. worker_rank (num_tasks C) (stage_bound C T0) (workers \<sigma>' x)) +
      (num_tasks C + 6 + 3 * stage_bound C T0) * (num_tasks C - num_fetched \<sigma>') <
      (\<Sum>x\<in>{1..num_workers C}. worker_rank (num_tasks C) (stage_bound C T0) (workers \<sigma> x)) +
      (num_tasks C + 6 + 3 * stage_bound C T0) * (num_tasks C - num_fetched \<sigma>)"
    using sum_upd_less [of "{1..num_workers C}" w "worker_rank (num_tasks C) (stage_bound C T0)" "workers \<sigma>' w" _ "workers \<sigma>",
        OF _ _ worker_rank_local [OF pre dinv cinv w st]] w by simp
  ultimately show ?thesis by (simp add: sched_rank_def)
qed

lemma boarder_rank_step:
  assumes pre: "sched_pre C H0 t0 T0 reqs" and dinv: "data_inv C T0 reqs \<sigma> G D" and cinv: "control_inv C \<sigma> G D"
    and st: "boarder_step C \<sigma> = Done \<sigma>'"
  shows "sched_rank C M \<sigma>' < sched_rank C M \<sigma>"
proof -
  have "boarder_rank (num_tasks C) (boarder \<sigma>') < boarder_rank (num_tasks C) (boarder \<sigma>)"
  proof (cases "b_pc (boarder \<sigma>)")
    case B_take
    with st have "b_submitted (boarder \<sigma>) < num_tasks C" "tokens \<sigma> (num_pipes C) \<noteq> 0"
      "boarder \<sigma>' = \<lparr>b_submitted = b_submitted (boarder \<sigma>) + unat (tokens \<sigma> (num_pipes C)), b_pc = B_publish\<rparr>"
      by (auto simp: boarder_step_def Let_def split: if_splits)
    moreover from this have "0 < unat (tokens \<sigma> (num_pipes C))" by (simp add: unat_gt_0)
    ultimately show ?thesis using B_take by (simp add: boarder_rank_def)
  next
    case B_publish
    with st show ?thesis by (auto simp: boarder_step_def Let_def boarder_rank_def)
  qed
  then show ?thesis using st
    by (auto simp: boarder_step_def Let_def sched_rank_def split: boarder_pc.splits if_splits)
qed

lemma step_rank:
  assumes pre: "sched_pre C H0 t0 T0 reqs" and inv: "sched_inv C T0 reqs \<sigma>" and live: "live_inv C \<sigma>"
    and tid: "tid \<in> threads C" and st: "step C tid \<sigma> = Done \<sigma>'"
  shows "sched_rank C (stage_bound C T0) \<sigma>' < sched_rank C (stage_bound C T0) \<sigma>"
proof -
  from inv obtain G D where i: "data_inv C T0 reqs \<sigma> G D" "control_inv C \<sigma> G D" by (auto simp: sched_inv_def)
  show ?thesis
  proof (cases tid)
    case Collector
    have "k_committed (collector \<sigma>) \<le> k_next (collector \<sigma>)" using control_invD(6) [OF i(2)] .
    with Collector st show ?thesis by (auto simp: collector_step_def Let_def sched_rank_def split: if_splits)
  qed (use tid st in \<open>auto simp: threads_def intro: master_rank pipe_rank_step [OF live] boarder_rank_step [OF pre i]
        worker_rank_step [OF pre i]\<close>)
qed

lemma run_rank:
  assumes pre: "sched_pre C H0 t0 T0 reqs"
  shows "reachable C H0 t0 reqs \<sigma> \<Longrightarrow> set tids \<subseteq> threads C \<Longrightarrow> run C tids \<sigma> = Done \<sigma>' \<Longrightarrow>
    length tids + sched_rank C (stage_bound C T0) \<sigma>' \<le> sched_rank C (stage_bound C T0) \<sigma>"
proof (induction tids arbitrary: \<sigma>)
  case (Cons tid tids)
  then obtain \<sigma>1 where s: "step C tid \<sigma> = Done \<sigma>1" "run C tids \<sigma>1 = Done \<sigma>'" by auto
  have "reachable C H0 t0 reqs \<sigma>1" using Cons.prems s(1) by (auto intro: reachable_step)
  from Cons.IH [OF this _ s(2)] step_rank [OF pre reachable_inv [OF Cons.prems(1) pre] reachable_live [OF Cons.prems(1)] _ s(1)]
    Cons.prems(2) show ?case by simp
qed simp

text \<open>The rank of the initial state.\<close>

definition max_steps :: "config \<Rightarrow> tree \<Rightarrow> nat" where
  "max_steps C T0 = 6 * num_tasks C + num_pipes C * (4 * num_tasks C + 3) +
     (num_workers C + num_tasks C) * (num_tasks C + 6 + 3 * stage_bound C T0)"

lemma init_rank:
  assumes "length reqs \<le> num_tasks C"
  shows "sched_rank C (stage_bound C T0) (init_state C H0 t0 reqs) \<le> max_steps C T0"
proof -
  have "2 * length reqs \<le> 2 * num_tasks C" using assms by simp
  then show ?thesis
    by (simp add: sched_rank_def init_state_def init_worker_def Let_def boarder_rank_def worker_rank_def max_steps_def algebra_simps)
qed

lemma stuck_end:
  assumes pre: "sched_pre C H0 t0 T0 reqs" and len: "length reqs = num_tasks C" and nw: "1 \<le> num_workers C"
    and re: "reachable C H0 t0 reqs \<sigma>" and stuck: "\<And>tid. tid \<in> threads C \<Longrightarrow> step C tid \<sigma> = Wait"
  shows "num_committed \<sigma> = num_tasks C" "joinable C \<sigma>" "todo \<sigma> = []"
proof -
  from reachable_inv [OF re pre] obtain G D where i: "data_inv C T0 reqs \<sigma> G D" "control_inv C \<sigma> G D" by (auto simp: sched_inv_def)
  note live = reachable_live [OF re]
  show c: "num_committed \<sigma> = num_tasks C" by (rule stuck_committed [OF pre len nw i live stuck])
  show "joinable C \<sigma>" "todo \<sigma> = []" using stuck_joinable [OF pre len i live stuck c] by simp_all
qed

lemma run_completes:
  assumes pre: "sched_pre C H0 t0 T0 reqs" and len: "length reqs = num_tasks C" and nw: "1 \<le> num_workers C"
  shows "reachable C H0 t0 reqs \<sigma> \<Longrightarrow> \<exists>tids \<sigma>'. set tids \<subseteq> threads C \<and> run C tids \<sigma> = Done \<sigma>' \<and>
    num_committed \<sigma>' = num_tasks C \<and> joinable C \<sigma>' \<and> todo \<sigma>' = []"
proof (induction "sched_rank C (stage_bound C T0) \<sigma>" arbitrary: \<sigma> rule: less_induct)
  case less
  show ?case
  proof (cases "\<forall>tid \<in> threads C. step C tid \<sigma> = Wait")
    case True
    with stuck_end [OF pre len nw less.prems] show ?thesis by (intro exI [of _ "[]"] exI [of _ \<sigma>]) simp
  next
    case False
    then obtain tid \<sigma>1 where s: "tid \<in> threads C" "step C tid \<sigma> = Done \<sigma>1"
      using step_ok [OF pre reachable_inv [OF less.prems pre]] by blast
    then have "reachable C H0 t0 reqs \<sigma>1" using less.prems by (auto intro: reachable_step)
    from less.hyps [OF step_rank [OF pre reachable_inv [OF less.prems pre] reachable_live [OF less.prems] s] this]
    obtain tids \<sigma>' where "set tids \<subseteq> threads C" "run C tids \<sigma>1 = Done \<sigma>'" "num_committed \<sigma>' = num_tasks C" "joinable C \<sigma>'"
      "todo \<sigma>' = []" by blast
    with s show ?thesis by (intro exI [of _ "tid # tids"] exI [of _ \<sigma>']) simp
  qed
qed

section \<open>Thread counts\<close>

lemma square_le_power: "16 \<le> n \<Longrightarrow> n * n \<le> 2 ^ (n - 1)" for n :: nat
proof (induction n rule: nat_induct_at_least)
  case (Suc n)
  then have "3 * n \<le> n * n" by (intro mult_le_mono1) simp
  moreover have "Suc n * Suc n = n * n + 2 * n + 1" by simp
  ultimately have "Suc n * Suc n \<le> 2 * (n * n)" using Suc.hyps by linarith
  also have "\<dots> \<le> 2 * 2 ^ (n - 1)" using Suc.IH by simp
  also have "\<dots> = 2 ^ (Suc n - 1)" using Suc.hyps by (simp flip: power_Suc)
  finally show ?case .
qed simp

lemma decide_pipes_less: "0 < n \<Longrightarrow> decide_num_pipes n < n"
proof (cases "n < 16")
  case False
  then have "ceillog2 (n * n) \<le> n - 1" using square_le_power [of n] by (simp add: ceillog2_le_iff)
  with False show ?thesis by (simp add: decide_num_pipes_def)
qed (simp add: decide_num_pipes_def)

end
