(* ===== verification/YCSB_Utils.thy ===== *)
theory YCSB_Utils
  imports Prelude "HOL-Library.Char_ord"
begin

text \<open>
  Strings and numbers as the workload generator uses them: the functions of the C++ library it calls
  (decimal conversion, \<^verbatim>\<open>strtoull\<close>, \<^verbatim>\<open>stoi\<close>, \<^verbatim>\<open>isspace\<close>, \<^verbatim>\<open>tolower\<close>) and the helpers of
  \<^verbatim>\<open>ycsbc/core/utils.h\<close>. An operation that throws returns the exception.
\<close>

datatype exn = Utils_Exception string | Invalid_argument | Out_of_range | Abort | Bad_pointer

type_synonym 'a result = "exn + 'a"

fun bind_result :: "'a result \<Rightarrow> ('a \<Rightarrow> 'b result) \<Rightarrow> 'b result" where
  "bind_result (Inl e) f = Inl e"
| "bind_result (Inr x) f = f x"

lemma bind_result_eq_Inr [simp]: "bind_result m f = Inr y \<longleftrightarrow> (\<exists>x. m = Inr x \<and> f x = Inr y)"
  by (cases m) auto

section \<open>The C++ library\<close>

definition isspace :: "char \<Rightarrow> bool" where
  "isspace c \<longleftrightarrow> of_char c = (32::nat) \<or> (9 \<le> (of_char c :: nat) \<and> of_char c \<le> (13::nat))"

definition is_digit :: "char \<Rightarrow> bool" where
  "is_digit c \<longleftrightarrow> 48 \<le> (of_char c :: nat) \<and> of_char c \<le> (57::nat)"

definition digit_val :: "char \<Rightarrow> nat" where
  "digit_val c = of_char c - 48"

definition digit :: "nat \<Rightarrow> char" where
  "digit d = char_of (48 + d)"

definition tolower :: "char \<Rightarrow> char" where
  "tolower c = (if 65 \<le> (of_char c :: nat) \<and> of_char c \<le> (90::nat) then char_of (of_char c + 32 :: nat) else c)"

fun to_string :: "nat \<Rightarrow> string" where
  "to_string n = (if n < 10 then [digit n] else to_string (n div 10) @ [digit (n mod 10)])"

declare to_string.simps [simp del]

definition number :: "string \<Rightarrow> nat" where
  "number s = foldl (\<lambda>v c. v * 10 + digit_val c) 0 s"

fun signed_digits :: "string \<Rightarrow> bool \<times> string" where
  "signed_digits (CHR ''-'' # s) = (True, takeWhile is_digit s)"
| "signed_digits (CHR ''+'' # s) = (False, takeWhile is_digit s)"
| "signed_digits s = (False, takeWhile is_digit s)"

definition strtoull :: "string \<Rightarrow> u64" where
  "strtoull s =
     (let (neg, ds) = signed_digits (dropWhile isspace s); v = number ds
      in if v \<ge> 2 ^ 64 then - 1 else if neg then - of_nat v else of_nat v)"

definition stoi :: "string \<Rightarrow> int result" where
  "stoi s =
     (let (neg, ds) = signed_digits (dropWhile isspace s); v = (if neg then - int (number ds) else int (number ds))
      in if ds = [] then Inl Invalid_argument
         else if v < - (2 ^ 31) \<or> v \<ge> 2 ^ 31 then Inl Out_of_range else Inr v)"

section \<open>utils.h\<close>

definition kFNVOffsetBasis64 :: u64 where
  "kFNVOffsetBasis64 = 0xCBF29CE484222325"

definition kFNVPrime64 :: u64 where
  "kFNVPrime64 = 1099511628211"

fun fnv_loop :: "nat \<Rightarrow> u64 \<Rightarrow> u64 \<Rightarrow> u64" where
  "fnv_loop 0 val hash = hash"
| "fnv_loop (Suc i) val hash = fnv_loop i (drop_bit 8 val) ((hash XOR (val AND 0x00ff)) * kFNVPrime64)"

definition FNVHash64 :: "u64 \<Rightarrow> u64" where
  "FNVHash64 val = fnv_loop 8 val kFNVOffsetBasis64"

definition StrToBool :: "string \<Rightarrow> bool result" where
  "StrToBool str =
     (let s = map tolower str
      in if s = ''true'' \<or> s = ''1'' then Inr True
         else if s = ''false'' \<or> s = ''0'' then Inr False
         else Inl (Utils_Exception (''Invalid bool string: '' @ s)))"

definition Trim :: "string \<Rightarrow> string" where
  "Trim s = rev (dropWhile isspace (rev (dropWhile isspace s)))"

text \<open>\<open>r\<close> is the value of \<^verbatim>\<open>rand()\<close>.\<close>

definition RandomPrintChar :: "nat \<Rightarrow> char" where
  "RandomPrintChar r = char_of (r mod 94 + 33)"

section \<open>Decimal conversion and back\<close>

lemma digit_props [simp]:
  assumes "d < 10"
  shows "digit_val (digit d) = d" "is_digit (digit d)" "\<not> isspace (digit d)" "digit d \<noteq> CHR ''-''" "digit d \<noteq> CHR ''+''"
proof -
  have c: "of_char (digit d) = 48 + d" using assms by (simp add: digit_def)
  show "digit_val (digit d) = d" "is_digit (digit d)" "\<not> isspace (digit d)"
    using assms c by (auto simp: digit_val_def is_digit_def isspace_def)
  show "digit d \<noteq> CHR ''-''" "digit d \<noteq> CHR ''+''" using c by auto
qed

lemma to_string_digits: "list_all is_digit (to_string n)" "to_string n \<noteq> []"
proof -
  show "list_all is_digit (to_string n)"
    by (induction n rule: to_string.induct) (subst to_string.simps, auto)
  show "to_string n \<noteq> []" by (subst to_string.simps) auto
qed

lemma number_append: "number (s @ [c]) = number s * 10 + digit_val c"
  by (simp add: number_def)

lemma number_to_string: "number (to_string n) = n"
proof (induction n rule: to_string.induct)
  case (1 n)
  show ?case
  proof (cases "n < 10")
    case True
    then show ?thesis by (simp add: to_string.simps number_def)
  next
    case False
    then have "number (to_string n) = n div 10 * 10 + n mod 10" using 1 by (subst to_string.simps) (simp add: number_append)
    then show ?thesis by simp
  qed
qed

lemma number_zeros: "number (replicate z (CHR ''0'') @ s) = number s"
proof (induction z)
  case (Suc z)
  have "digit_val (CHR ''0'') = 0" by (simp add: digit_val_def)
  then have "foldl (\<lambda>v c. v * 10 + digit_val c) 0 (replicate z (CHR ''0'') @ s) = number (replicate (Suc z) (CHR ''0'') @ s)"
    by (simp add: number_def)
  then show ?case using Suc by (simp add: number_def)
qed simp

lemma digit_char:
  "is_digit c \<Longrightarrow> \<not> isspace c \<and> c \<noteq> CHR ''-'' \<and> c \<noteq> CHR ''+''"
  by (auto simp: is_digit_def isspace_def)

lemma signed_digits_all:
  assumes "list_all is_digit s" "s \<noteq> []"
  shows "signed_digits (dropWhile isspace s) = (False, s)"
proof -
  obtain c t where s: "s = c # t" using assms(2) by (cases s) auto
  then have "is_digit c" using assms(1) by simp
  from digit_char [OF this] have "signed_digits s = (False, takeWhile is_digit s)" unfolding s
    by (cases "c # t" rule: signed_digits.cases) auto
  moreover have "takeWhile is_digit s = s" using assms(1) by (simp add: list_all_iff takeWhile_eq_all_conv)
  moreover have "dropWhile isspace s = s" using digit_char [OF \<open>is_digit c\<close>] by (simp add: s)
  ultimately show ?thesis by simp
qed

lemma strtoull_padded: "n < 2 ^ 64 \<Longrightarrow> strtoull (replicate z (CHR ''0'') @ to_string n) = of_nat n"
proof -
  assume n: "n < 2 ^ 64"
  have d: "list_all is_digit (replicate z (CHR ''0'') @ to_string n)" using to_string_digits [of n]
    by (auto simp: list_all_iff is_digit_def)
  have "signed_digits (dropWhile isspace (replicate z (CHR ''0'') @ to_string n)) = (False, replicate z (CHR ''0'') @ to_string n)"
    by (rule signed_digits_all [OF d]) (simp add: to_string_digits)
  then show ?thesis using n by (simp add: strtoull_def number_zeros number_to_string)
qed

lemma stoi_to_string: "n < 2 ^ 31 \<Longrightarrow> stoi (to_string n) = Inr (int n)"
  using signed_digits_all [OF to_string_digits, of n] by (simp add: stoi_def number_to_string to_string_digits)

lemma Trim_idem: "Trim (Trim s) = Trim s"
proof -
  have hd: "dropWhile P (rev (dropWhile P (rev (dropWhile P xs)))) = rev (dropWhile P (rev (dropWhile P xs)))" for P and xs :: string
  proof (cases "dropWhile P xs")
    case (Cons c t)
    then have "\<not> P c" by (metis dropWhile_eq_Cons_conv)
    then have "rev (dropWhile P (rev t @ [c])) \<noteq> [] \<and> hd (rev (dropWhile P (rev t @ [c]))) = c"
      by (induction t) (auto simp: dropWhile_append)
    then show ?thesis using Cons \<open>\<not> P c\<close> by (cases "rev (dropWhile P (rev t @ [c]))") auto
  next
    case Nil
    show ?thesis unfolding Nil by simp
  qed
  have "dropWhile P (dropWhile P xs) = dropWhile P xs" for P and xs :: string by (induction xs) auto
  then show ?thesis unfolding Trim_def hd by simp
qed

end
