(* ===== verification/YCSB_Properties.thy ===== *)
theory YCSB_Properties
  imports YCSB_Utils
begin

text \<open>
  The property map of the workload generator (\<^verbatim>\<open>ycsbc/core/properties.h\<close>) and the command line that fills
  it (\<^verbatim>\<open>ParseCommandLine\<close> and \<^verbatim>\<open>StrStartWith\<close> of \<^verbatim>\<open>ycsbc/ycsbc.cc\<close>). A file is its contents, or nothing
  when it cannot be opened.
\<close>

type_synonym properties = "string \<rightharpoonup> string"

definition GetProperty :: "properties \<Rightarrow> string \<Rightarrow> string \<Rightarrow> string" where
  "GetProperty p key default_value = (case p key of None \<Rightarrow> default_value | Some v \<Rightarrow> v)"

definition at_property :: "properties \<Rightarrow> string \<Rightarrow> string result" where
  "at_property p key = (case p key of None \<Rightarrow> Inl Out_of_range | Some v \<Rightarrow> Inr v)"

definition SetProperty :: "string \<Rightarrow> string \<Rightarrow> properties \<Rightarrow> properties" where
  "SetProperty key v p = p(key \<mapsto> v)"

text \<open>\<^verbatim>\<open>getline\<close> until the end of the file: the text between newlines, the last piece included.\<close>

fun split_lines :: "string \<Rightarrow> string list" where
  "split_lines [] = [[]]"
| "split_lines (c # s) =
     (if c = CHR 0x0A then [] # split_lines s
      else case split_lines s of [] \<Rightarrow> [[c]] | l # ls \<Rightarrow> (c # l) # ls)"

definition load_line :: "string \<Rightarrow> properties \<Rightarrow> properties" where
  "load_line line p =
     (if line \<noteq> [] \<and> hd line = CHR ''#'' then p
      else if CHR ''='' \<notin> set line then p
      else let pos = length (takeWhile (\<lambda>c. c \<noteq> CHR ''='') line)
           in SetProperty (Trim (take pos line)) (Trim (drop (pos + 1) line)) p)"

definition Load :: "string option \<Rightarrow> properties \<Rightarrow> properties result" where
  "Load input p =
     (case input of None \<Rightarrow> Inl (Utils_Exception ''File not open!'')
      | Some text \<Rightarrow> Inr (fold load_line (split_lines text) p))"

text \<open>What a line assigns; the last assignment to a key counts.\<close>

definition assignment :: "string \<Rightarrow> (string \<times> string) option" where
  "assignment line =
     (if line \<noteq> [] \<and> hd line = CHR ''#'' \<or> CHR ''='' \<notin> set line then None
      else Some (Trim (takeWhile (\<lambda>c. c \<noteq> CHR ''='') line), Trim (tl (dropWhile (\<lambda>c. c \<noteq> CHR ''='') line))))"

lemma load_line_assignment:
  "load_line line p = (case assignment line of None \<Rightarrow> p | Some (k, v) \<Rightarrow> p(k \<mapsto> v))"
proof -
  have "take (length (takeWhile P line)) line = takeWhile P line" "drop (Suc (length (takeWhile P line))) line = tl (dropWhile P line)"
    for P by (simp_all add: takeWhile_eq_take [symmetric] dropWhile_eq_drop drop_Suc tl_drop)
  then show ?thesis by (simp add: load_line_def assignment_def SetProperty_def Let_def)
qed

lemma fold_load_line: "fold load_line ls p = p ++ map_of (rev (List.map_filter assignment ls))"
proof (induction ls arbitrary: p)
  case (Cons l ls)
  then show ?case
    by (cases "assignment l") (auto simp: load_line_assignment List.map_filter_simps map_add_def fun_eq_iff map_of_append split: option.splits)
qed (simp add: List.map_filter_simps)

section \<open>The command line\<close>

definition StrStartWith :: "string \<Rightarrow> string \<Rightarrow> bool" where
  "StrStartWith str pre \<longleftrightarrow> take (length pre) str = pre"

text \<open>
  Leaving the program is a value too. \<open>fs\<close> is the file system. The file name is what \<open>-P\<close> was given last; the
  handler around \<open>Load\<close> catches strings, so an exception of \<open>Load\<close> ends the program.
\<close>

datatype 'a parse = Parsed 'a | Usage | Unknown_option string | Uncaught exn

function parse_options ::
  "(string \<Rightarrow> string option) \<Rightarrow> string list \<Rightarrow> string \<Rightarrow> properties \<Rightarrow> (string \<times> string list \<times> properties) parse" where
  "parse_options fs args filename p =
     (case args of
        [] \<Rightarrow> Parsed (filename, [], p)
      | a # rest \<Rightarrow>
          if \<not> StrStartWith a ''-'' then Parsed (filename, args, p)
          else if a = ''-threads'' then
            (case rest of [] \<Rightarrow> Usage | v # rest \<Rightarrow> parse_options fs rest filename (SetProperty ''threadcount'' v p))
          else if a = ''-db'' then
            (case rest of [] \<Rightarrow> Usage | v # rest \<Rightarrow> parse_options fs rest filename (SetProperty ''dbname'' v p))
          else if a = ''-P'' then
            (case rest of [] \<Rightarrow> Usage | v # rest \<Rightarrow>
               (case Load (fs (''workloads/'' @ v @ ''.spec'')) p of
                  Inl e \<Rightarrow> Uncaught e
                | Inr p \<Rightarrow> parse_options fs rest v (SetProperty ''filename'' v p)))
          else Unknown_option a)"
  by pat_completeness auto
termination
  by (relation "measure (\<lambda>(fs, args, filename, p). length args)") auto

declare parse_options.simps [simp del]

definition ycsb_ParseCommandLine :: "(string \<Rightarrow> string option) \<Rightarrow> string list \<Rightarrow> properties \<Rightarrow> (string \<times> properties) parse" where
  "ycsb_ParseCommandLine fs args p =
     (case parse_options fs args [] p of
        Parsed (filename, rest, p) \<Rightarrow> if args = rest \<or> rest \<noteq> [] then Usage else Parsed (filename, p)
      | Usage \<Rightarrow> Usage
      | Unknown_option a \<Rightarrow> Unknown_option a
      | Uncaught e \<Rightarrow> Uncaught e)"

section \<open>Properties\<close>

text \<open>A specification file means its assignments: after \<open>Load\<close>, a key has the value of the last line that assigns
  it, with blanks around key and value cut off, or its earlier value when no line does; comment lines and lines without
  an equals sign assign nothing. A file that cannot be opened is an exception.\<close>

theorem Load_assignments:
  "Load (Some text) p = Inr (p ++ map_of (rev (List.map_filter assignment (split_lines text)))) \<and>
   Load None p = Inl (Utils_Exception ''File not open!'')"
  by (simp add: Load_def fold_load_line)

end
