(* ===== verification/YCSB_Generators.thy ===== *)
theory YCSB_Generators
  imports YCSB_Utils Complex_Main
begin

text \<open>
  The random generators of the workload (\<^verbatim>\<open>ycsbc/core/*_generator.h\<close>). Floating-point arithmetic and the
  random sources are parameters: the record \<open>fp\<close> holds the operations on \<^verbatim>\<open>double\<close> the code uses, \<open>rng\<close> the
  \<open>i\<close>-th draw of each source, where a uniform draw is told its bounds. A generator is a value;
  drawing returns the number and the generator after it. The assertions of the code are off in
  its release build (\<^verbatim>\<open>-DNDEBUG\<close>).
\<close>

record 'd fp =
  fp_add :: "'d \<Rightarrow> 'd \<Rightarrow> 'd"
  fp_sub :: "'d \<Rightarrow> 'd \<Rightarrow> 'd"
  fp_mul :: "'d \<Rightarrow> 'd \<Rightarrow> 'd"
  fp_div :: "'d \<Rightarrow> 'd \<Rightarrow> 'd"
  fp_pow :: "'d \<Rightarrow> 'd \<Rightarrow> 'd"
  fp_less :: "'d \<Rightarrow> 'd \<Rightarrow> bool"
  fp_of_nat :: "nat \<Rightarrow> 'd"
  fp_of_int :: "int \<Rightarrow> 'd"
  fp_half :: 'd
  fp_zipfian_const :: 'd
  fp_to_u64 :: "'d \<Rightarrow> u64"
  fp_to_int :: "'d \<Rightarrow> int"
  fp_stod :: "string \<Rightarrow> 'd result"

record 'd rng =
  pick :: "nat \<Rightarrow> u64 \<Rightarrow> u64 \<Rightarrow> u64"
  random_double :: "nat \<Rightarrow> 'd"
  rand :: "nat \<Rightarrow> nat"

text \<open>What the standard promises of \<^verbatim>\<open>uniform_int_distribution\<close>.\<close>

definition uniform_draws :: "'d rng \<Rightarrow> bool" where
  "uniform_draws R \<longleftrightarrow> (\<forall>i lo hi. lo \<le> hi \<longrightarrow> lo \<le> pick R i lo hi \<and> pick R i lo hi \<le> hi)"

section \<open>Counter\<close>

definition counter_Next :: "u64 \<Rightarrow> u64 \<times> u64" where
  "counter_Next counter = (counter, counter + 1)"

definition counter_Last :: "u64 \<Rightarrow> u64" where
  "counter_Last counter = counter - 1"

section \<open>Weighted choice\<close>

record ('v, 'd) discrete =
  d_values :: "('v \<times> 'd) list"
  d_sum :: 'd
  d_last :: 'v

text \<open>\<open>v0\<close> is the value of a fresh \<^verbatim>\<open>std::atomic\<close>, which is value-initialised since C++20.\<close>

definition make_discrete :: "'d fp \<Rightarrow> 'v \<Rightarrow> ('v, 'd) discrete" where
  "make_discrete F v0 = \<lparr>d_values = [], d_sum = fp_of_nat F 0, d_last = v0\<rparr>"

definition AddValue :: "'d fp \<Rightarrow> 'v \<Rightarrow> 'd \<Rightarrow> ('v, 'd) discrete \<Rightarrow> ('v, 'd) discrete" where
  "AddValue F v weight g =
     (let g = (if d_values g = [] then g\<lparr>d_last := v\<rparr> else g)
      in g\<lparr>d_values := d_values g @ [(v, weight)], d_sum := fp_add F (d_sum g) weight\<rparr>)"

fun choose_value :: "'d fp \<Rightarrow> 'd \<Rightarrow> 'd \<Rightarrow> ('v \<times> 'd) list \<Rightarrow> 'v option" where
  "choose_value F wsum chooser [] = None"
| "choose_value F wsum chooser ((v, w) # vs) =
     (if fp_less F chooser (fp_div F w wsum) then Some v
      else choose_value F wsum (fp_sub F chooser (fp_div F w wsum)) vs)"

definition discrete_Next :: "'d fp \<Rightarrow> 'd \<Rightarrow> ('v, 'd) discrete \<Rightarrow> 'v \<times> ('v, 'd) discrete" where
  "discrete_Next F chooser g =
     (case choose_value F (d_sum g) chooser (d_values g) of
        Some v \<Rightarrow> (v, g\<lparr>d_last := v\<rparr>)
      | None \<Rightarrow> (d_last g, g))"

section \<open>Zipfian\<close>

record 'd zipfian =
  z_items :: u64
  z_base :: u64
  z_theta :: 'd
  z_zeta_n :: 'd
  z_eta :: 'd
  z_alpha :: 'd
  z_zeta_2 :: 'd
  z_n_for_zeta :: u64
  z_last :: u64

text \<open>
  The number of items is at most the number of 64-bit integers less two: \<^verbatim>\<open>kMaxNumItems\<close>, which the assertions of the code
  ask for, is far below, and with one item more the counter of the loop would wrap.
\<close>

definition Zeta :: "'d fp \<Rightarrow> u64 \<Rightarrow> u64 \<Rightarrow> 'd \<Rightarrow> 'd \<Rightarrow> 'd" where
  "Zeta F last_num cur_num theta last_zeta =
     fold (\<lambda>i zeta. fp_add F zeta (fp_div F (fp_of_nat F 1) (fp_pow F (fp_of_nat F i) theta)))
       [unat last_num + 1..<unat cur_num + 1] last_zeta"

definition RaiseZeta :: "'d fp \<Rightarrow> u64 \<Rightarrow> 'd zipfian \<Rightarrow> 'd zipfian" where
  "RaiseZeta F num z = z\<lparr>z_zeta_n := Zeta F (z_n_for_zeta z) num (z_theta z) (z_zeta_n z), z_n_for_zeta := num\<rparr>"

definition Eta :: "'d fp \<Rightarrow> 'd zipfian \<Rightarrow> 'd" where
  "Eta F z =
     fp_div F
       (fp_sub F (fp_of_nat F 1)
          (fp_pow F (fp_div F (fp_of_nat F 2) (fp_of_nat F (unat (z_items z)))) (fp_sub F (fp_of_nat F 1) (z_theta z))))
       (fp_sub F (fp_of_nat F 1) (fp_div F (z_zeta_2 z) (z_zeta_n z)))"

definition zipfian_Next :: "'d fp \<Rightarrow> u64 \<Rightarrow> 'd \<Rightarrow> 'd zipfian \<Rightarrow> u64 \<times> 'd zipfian" where
  "zipfian_Next F num u z =
     (let z = (if num > z_n_for_zeta z then (let z = RaiseZeta F num z in z\<lparr>z_eta := Eta F z\<rparr>) else z);
          uz = fp_mul F u (z_zeta_n z);
          x = (if fp_less F uz (fp_of_nat F 1) then 0
               else if fp_less F uz (fp_add F (fp_of_nat F 1) (fp_pow F (fp_half F) (z_theta z))) then 1
               else fp_to_u64 F (fp_add F (fp_of_nat F (unat (z_base z)))
                 (fp_mul F (fp_of_nat F (unat num))
                   (fp_pow F (fp_add F (fp_sub F (fp_mul F (z_eta z) u) (z_eta z)) (fp_of_nat F 1)) (z_alpha z)))))
      in (x, z\<lparr>z_last := x\<rparr>))"

definition make_zipfian :: "'d fp \<Rightarrow> u64 \<Rightarrow> u64 \<Rightarrow> 'd \<Rightarrow> 'd \<Rightarrow> 'd zipfian" where
  "make_zipfian F lo hi theta u =
     (let z = \<lparr>z_items = hi - lo + 1, z_base = lo, z_theta = theta, z_zeta_n = fp_of_nat F 0,
               z_eta = fp_of_nat F 0, z_alpha = fp_div F (fp_of_nat F 1) (fp_sub F (fp_of_nat F 1) theta),
               z_zeta_2 = Zeta F 0 2 theta (fp_of_nat F 0), z_n_for_zeta = 0, z_last = 0\<rparr>;
          z = RaiseZeta F (z_items z) z;
          z = z\<lparr>z_eta := Eta F z\<rparr>
      in snd (zipfian_Next F (z_items z) u z))"

section \<open>All generators of numbers\<close>

datatype 'd generator =
    Const_Generator u64
  | Counter_Generator u64
  | Uniform_Generator u64 u64 u64
  | Zipfian_Generator "'d zipfian"
  | Scrambled_Generator u64 u64 "'d zipfian"
  | Latest_Generator "'d zipfian" u64

definition Scramble :: "u64 \<Rightarrow> u64 \<Rightarrow> u64 \<Rightarrow> u64" where
  "Scramble base num_items v = base + FNVHash64 v mod num_items"

text \<open>The step of each generator; a \<open>constant\<close> is converted to 64 bits by the constructor.\<close>

definition make_const :: "int \<Rightarrow> 'd generator" where
  [simp]: "make_const constant = Const_Generator (of_int constant)"

definition uniform_Next :: "'d rng \<Rightarrow> nat \<Rightarrow> u64 \<Rightarrow> u64 \<Rightarrow> u64 \<times> 'd generator" where
  [simp]: "uniform_Next R i lo hi = (let x = pick R i lo hi in (x, Uniform_Generator lo hi x))"

definition latest_Next :: "'d fp \<Rightarrow> 'd \<Rightarrow> u64 \<Rightarrow> 'd zipfian \<Rightarrow> u64 \<times> 'd generator" where
  [simp]: "latest_Next F u basis z =
     (let m = counter_Last basis; (x, z) = zipfian_Next F m u z in (m - x, Latest_Generator z (m - x)))"

text \<open>\<open>basis\<close> is the counter that the skewed generator looks at, \<open>i\<close> the number of draws made so far.\<close>

fun generator_Next :: "'d fp \<Rightarrow> 'd rng \<Rightarrow> nat \<Rightarrow> u64 \<Rightarrow> 'd generator \<Rightarrow> u64 \<times> 'd generator" where
  "generator_Next F R i basis (Const_Generator c) = (c, Const_Generator c)"
| "generator_Next F R i basis (Counter_Generator c) = (let (x, c) = counter_Next c in (x, Counter_Generator c))"
| "generator_Next F R i basis (Uniform_Generator lo hi v) = uniform_Next R i lo hi"
| "generator_Next F R i basis (Zipfian_Generator z) =
     (let (x, z) = zipfian_Next F (z_items z) (random_double R i) z in (x, Zipfian_Generator z))"
| "generator_Next F R i basis (Scrambled_Generator base n z) =
     (let (x, z) = zipfian_Next F (z_items z) (random_double R i) z in (Scramble base n x, Scrambled_Generator base n z))"
| "generator_Next F R i basis (Latest_Generator z v) = latest_Next F (random_double R i) basis z"

fun generator_Last :: "'d generator \<Rightarrow> u64" where
  "generator_Last (Const_Generator c) = c"
| "generator_Last (Counter_Generator c) = counter_Last c"
| "generator_Last (Uniform_Generator lo hi v) = v"
| "generator_Last (Zipfian_Generator z) = z_last z"
| "generator_Last (Scrambled_Generator base n z) = Scramble base n (z_last z)"
| "generator_Last (Latest_Generator z v) = v"

definition make_uniform :: "'d rng \<Rightarrow> nat \<Rightarrow> u64 \<Rightarrow> u64 \<Rightarrow> 'd generator" where
  "make_uniform R i lo hi = Uniform_Generator lo hi (pick R i lo hi)"

definition make_scrambled :: "'d fp \<Rightarrow> 'd rng \<Rightarrow> nat \<Rightarrow> u64 \<Rightarrow> 'd generator" where
  "make_scrambled F R i num_items =
     Scrambled_Generator 0 (num_items - 1 - 0 + 1) (make_zipfian F 0 (num_items - 1) (fp_zipfian_const F) (random_double R i))"

text \<open>The constructor of the skewed generator builds the inner generator, which draws, and draws once itself.\<close>

definition make_latest :: "'d fp \<Rightarrow> 'd rng \<Rightarrow> nat \<Rightarrow> u64 \<Rightarrow> 'd generator" where
  "make_latest F R i basis =
     snd (generator_Next F R (i + 1) basis
       (Latest_Generator (make_zipfian F 0 (counter_Last basis - 1) (fp_zipfian_const F) (random_double R i)) 0))"

section \<open>What the generators guarantee\<close>

text \<open>Drawing remembers the number drawn.\<close>

lemma zipfian_Next_last: "zipfian_Next F num u z = (x, z') \<Longrightarrow> z_last z' = x"
  by (auto simp: zipfian_Next_def Let_def)

lemma generator_Last_Next: "generator_Next F R i basis g = (x, g') \<Longrightarrow> generator_Last g' = x"
  by (cases g) (auto simp: counter_Next_def counter_Last_def Let_def split: prod.splits dest!: zipfian_Next_last)

lemma Scramble_bound:
  assumes "lo \<le> hi" "\<not> (lo = 0 \<and> hi = - 1)"
  shows "lo \<le> Scramble lo (hi - lo + 1) v \<and> Scramble lo (hi - lo + 1) v \<le> hi"
proof -
  let ?n = "hi - lo + 1"
  have le: "unat lo \<le> unat hi" using assms(1) by (simp add: word_le_nat_alt)
  have "?n \<noteq> 0"
  proof
    assume "?n = 0"
    then have "hi + 1 - lo = 0" by (simp add: algebra_simps)
    then have "lo = hi + 1" by simp
    then have hi: "hi = lo - 1" by simp
    then have "lo \<noteq> 0" using assms(2) by auto
    then have "unat hi < unat lo" using unat_minus_one [of lo] by (simp add: hi unat_gt_0)
    with le show False by simp
  qed
  then have "unat (hi - lo) = unat ?n - 1" "0 < unat ?n" using unat_minus_one [of ?n] by (simp_all add: unat_gt_0)
  then have n: "unat ?n = unat hi - unat lo + 1" using assms(1) by (simp add: unat_sub)
  let ?r = "FNVHash64 v mod ?n"
  have "unat ?r < unat ?n" using \<open>0 < unat ?n\<close> by (simp add: unat_mod_distrib)
  moreover have hi: "unat hi < 2 ^ LENGTH(64)" by (rule unsigned_less)
  ultimately have r: "unat lo + unat ?r \<le> unat hi" using n le by simp
  then have "unat (lo + ?r) = unat lo + unat ?r" using hi by (intro unat_add_lem [THEN iffD1]) simp
  with r show ?thesis by (simp add: Scramble_def word_le_nat_alt)
qed

text \<open>In exact arithmetic the choice never falls through, whatever the weights.\<close>

definition real_fp :: "(string \<Rightarrow> real result) \<Rightarrow> real fp" where
  "real_fp stod = \<lparr>fp_add = (+), fp_sub = (-), fp_mul = (*), fp_div = (/), fp_pow = (powr), fp_less = (<),
     fp_of_nat = of_nat, fp_of_int = of_int, fp_half = 1 / 2, fp_zipfian_const = 99 / 100,
     fp_to_u64 = (\<lambda>x. of_int \<lfloor>x\<rfloor>), fp_to_int = (\<lambda>x. \<lfloor>x\<rfloor>), fp_stod = stod\<rparr>"

lemma choose_value_real:
  "0 \<le> c \<Longrightarrow> c < (\<Sum>(v, w) \<leftarrow> vs. w / s) \<Longrightarrow> \<exists>v. choose_value (real_fp stod) s c vs = Some v"
  by (induction vs arbitrary: c) (auto simp: real_fp_def algebra_simps)

lemma choose_value_in: "choose_value F s c vs = Some v \<Longrightarrow> v \<in> fst ` set vs"
  by (induction vs arbitrary: c) (fastforce split: if_splits)+

definition weigh :: "'d fp \<Rightarrow> 'v \<Rightarrow> ('v \<times> 'd) list \<Rightarrow> ('v, 'd) discrete" where
  "weigh F v0 vs = fold (\<lambda>(v, w). AddValue F v w) vs (make_discrete F v0)"

lemma weigh_fields:
  "d_values (weigh F v0 vs) = vs" "d_last (weigh F v0 vs) = (case vs of [] \<Rightarrow> v0 | (v, w) # _ \<Rightarrow> v)"
proof (induction vs rule: rev_induct)
  case (snoc x vs)
  {
    case 1
    then show ?case using snoc by (cases x) (simp add: weigh_def AddValue_def make_discrete_def Let_def)
  next
    case 2
    then show ?case using snoc by (cases x; cases vs) (auto simp: weigh_def AddValue_def make_discrete_def Let_def)
  }
qed (simp_all add: weigh_def make_discrete_def)

text \<open>A chooser that only ever returns values it was given; drawing keeps it one.\<close>

definition chooses :: "'v set \<Rightarrow> ('v, 'd) discrete \<Rightarrow> bool" where
  "chooses V g \<longleftrightarrow> fst ` set (d_values g) \<subseteq> V \<and> d_last g \<in> V"

lemma chooses_Next: "chooses V g \<Longrightarrow> discrete_Next F u g = (v, g') \<Longrightarrow> v \<in> V \<and> chooses V g'"
  by (auto simp: discrete_Next_def chooses_def image_subset_iff dest!: choose_value_in split: option.splits)

lemma chooses_weigh: "vs \<noteq> [] \<Longrightarrow> chooses (fst ` set vs) (weigh F v0 vs)"
  by (cases vs) (auto simp: chooses_def weigh_fields)

section \<open>Properties\<close>

text \<open>The scrambled Zipfian generator stays in its range whatever the floating-point arithmetic and the
  random source are: each of its numbers lies between its bounds, both included, and so does \<open>Last\<close>.\<close>

theorem scrambled_in_range:
  assumes "lo \<le> hi" "\<not> (lo = 0 \<and> hi = - 1)"
    and "generator_Next F R i basis (Scrambled_Generator lo (hi - lo + 1) z) = (x, g)"
  shows "lo \<le> x \<and> x \<le> hi \<and> generator_Last g = x \<and> (\<exists>z'. g = Scrambled_Generator lo (hi - lo + 1) z')"
  using assms(3) Scramble_bound [OF assms(1,2)] generator_Last_Next [OF assms(3)] by (auto simp: Let_def split: prod.splits)

theorem scrambled_in_range_witness:
  "\<exists>x g. generator_Next (real_fp (\<lambda>_. Inr 0)) \<lparr>pick = (\<lambda>i lo hi. lo), random_double = (\<lambda>i. 0), rand = id\<rparr> 0 0
     (Scrambled_Generator 5 (9 - 5 + 1) (make_zipfian (real_fp (\<lambda>_. Inr 0)) 5 9 (99 / 100) 0)) = (x, g) \<and> 5 \<le> x \<and> x \<le> 9"
proof -
  obtain x g where n: "generator_Next (real_fp (\<lambda>_. Inr 0)) \<lparr>pick = (\<lambda>i lo hi. lo), random_double = (\<lambda>i. 0), rand = id\<rparr> 0 0
     (Scrambled_Generator 5 (9 - 5 + 1) (make_zipfian (real_fp (\<lambda>_. Inr 0)) 5 9 (99 / 100) 0)) = (x, g)" by fastforce
  from scrambled_in_range [OF _ _ n] n show ?thesis by simp
qed

end
