(* ===== verification/YCSB_Workload.thy ===== *)
theory YCSB_Workload
  imports YCSB_Properties YCSB_Generators
begin

text \<open>
  The workload of the generator (\<^verbatim>\<open>ycsbc/core/core_workload.h\<close>): its state, its initialisation from the properties, and
  the choice of operations, keys, fields and values. The state counts the random draws made so far.
\<close>

datatype ycsb_op = INSERT | READ | UPDATE | SCAN | READMODIFYWRITE

text \<open>The names of the properties and their default values.\<close>

definition TABLENAME_PROPERTY :: string where [simp]: "TABLENAME_PROPERTY = ''table''"
definition TABLENAME_DEFAULT :: string where [simp]: "TABLENAME_DEFAULT = ''usertable''"
definition FIELD_COUNT_PROPERTY :: string where [simp]: "FIELD_COUNT_PROPERTY = ''fieldcount''"
definition FIELD_COUNT_DEFAULT :: string where [simp]: "FIELD_COUNT_DEFAULT = ''10''"
definition FIELD_LENGTH_DISTRIBUTION_PROPERTY :: string where [simp]: "FIELD_LENGTH_DISTRIBUTION_PROPERTY = ''field_len_dist''"
definition FIELD_LENGTH_DISTRIBUTION_DEFAULT :: string where [simp]: "FIELD_LENGTH_DISTRIBUTION_DEFAULT = ''constant''"
definition FIELD_LENGTH_PROPERTY :: string where [simp]: "FIELD_LENGTH_PROPERTY = ''fieldlength''"
definition FIELD_LENGTH_DEFAULT :: string where [simp]: "FIELD_LENGTH_DEFAULT = ''100''"
definition READ_ALL_FIELDS_PROPERTY :: string where [simp]: "READ_ALL_FIELDS_PROPERTY = ''readallfields''"
definition READ_ALL_FIELDS_DEFAULT :: string where [simp]: "READ_ALL_FIELDS_DEFAULT = ''true''"
definition WRITE_ALL_FIELDS_PROPERTY :: string where [simp]: "WRITE_ALL_FIELDS_PROPERTY = ''writeallfields''"
definition WRITE_ALL_FIELDS_DEFAULT :: string where [simp]: "WRITE_ALL_FIELDS_DEFAULT = ''false''"
definition READ_PROPORTION_PROPERTY :: string where [simp]: "READ_PROPORTION_PROPERTY = ''readproportion''"
definition READ_PROPORTION_DEFAULT :: string where [simp]: "READ_PROPORTION_DEFAULT = ''0.95''"
definition UPDATE_PROPORTION_PROPERTY :: string where [simp]: "UPDATE_PROPORTION_PROPERTY = ''updateproportion''"
definition UPDATE_PROPORTION_DEFAULT :: string where [simp]: "UPDATE_PROPORTION_DEFAULT = ''0.05''"
definition INSERT_PROPORTION_PROPERTY :: string where [simp]: "INSERT_PROPORTION_PROPERTY = ''insertproportion''"
definition INSERT_PROPORTION_DEFAULT :: string where [simp]: "INSERT_PROPORTION_DEFAULT = ''0.0''"
definition SCAN_PROPORTION_PROPERTY :: string where [simp]: "SCAN_PROPORTION_PROPERTY = ''scanproportion''"
definition SCAN_PROPORTION_DEFAULT :: string where [simp]: "SCAN_PROPORTION_DEFAULT = ''0.0''"
definition READMODIFYWRITE_PROPORTION_PROPERTY :: string where [simp]: "READMODIFYWRITE_PROPORTION_PROPERTY = ''readmodifywriteproportion''"
definition READMODIFYWRITE_PROPORTION_DEFAULT :: string where [simp]: "READMODIFYWRITE_PROPORTION_DEFAULT = ''0.0''"
definition REQUEST_DISTRIBUTION_PROPERTY :: string where [simp]: "REQUEST_DISTRIBUTION_PROPERTY = ''requestdistribution''"
definition REQUEST_DISTRIBUTION_DEFAULT :: string where [simp]: "REQUEST_DISTRIBUTION_DEFAULT = ''uniform''"
definition ZERO_PADDING_PROPERTY :: string where [simp]: "ZERO_PADDING_PROPERTY = ''zeropadding''"
definition ZERO_PADDING_DEFAULT :: string where [simp]: "ZERO_PADDING_DEFAULT = ''1''"
definition MAX_SCAN_LENGTH_PROPERTY :: string where [simp]: "MAX_SCAN_LENGTH_PROPERTY = ''maxscanlength''"
definition MAX_SCAN_LENGTH_DEFAULT :: string where [simp]: "MAX_SCAN_LENGTH_DEFAULT = ''1000''"
definition SCAN_LENGTH_DISTRIBUTION_PROPERTY :: string where [simp]: "SCAN_LENGTH_DISTRIBUTION_PROPERTY = ''scanlengthdistribution''"
definition SCAN_LENGTH_DISTRIBUTION_DEFAULT :: string where [simp]: "SCAN_LENGTH_DISTRIBUTION_DEFAULT = ''uniform''"
definition INSERT_ORDER_PROPERTY :: string where [simp]: "INSERT_ORDER_PROPERTY = ''insertorder''"
definition INSERT_ORDER_DEFAULT :: string where [simp]: "INSERT_ORDER_DEFAULT = ''hashed''"
definition INSERT_START_PROPERTY :: string where [simp]: "INSERT_START_PROPERTY = ''insertstart''"
definition INSERT_START_DEFAULT :: string where [simp]: "INSERT_START_DEFAULT = ''0''"
definition RECORD_COUNT_PROPERTY :: string where [simp]: "RECORD_COUNT_PROPERTY = ''recordcount''"
definition OPERATION_COUNT_PROPERTY :: string where [simp]: "OPERATION_COUNT_PROPERTY = ''operationcount''"

record 'd workload =
  wl_table_name :: string
  wl_field_count :: int
  wl_read_all_fields :: bool
  wl_write_all_fields :: bool
  wl_field_len_generator :: "'d generator"
  wl_key_generator :: "'d generator"
  wl_op_chooser :: "(ycsb_op, 'd) discrete"
  wl_key_chooser :: "'d generator"
  wl_field_chooser :: "'d generator"
  wl_scan_len_chooser :: "'d generator"
  wl_insert_key_sequence :: u64
  wl_ordered_inserts :: bool
  wl_record_count :: u64
  wl_zero_padding :: int
  wl_draws :: nat

definition GetFieldLenGenerator :: "'d fp \<Rightarrow> 'd rng \<Rightarrow> nat \<Rightarrow> properties \<Rightarrow> 'd generator result" where
  "GetFieldLenGenerator F R i p =
     (let field_len_dist = GetProperty p FIELD_LENGTH_DISTRIBUTION_PROPERTY FIELD_LENGTH_DISTRIBUTION_DEFAULT
      in bind_result (stoi (GetProperty p FIELD_LENGTH_PROPERTY FIELD_LENGTH_DEFAULT)) (\<lambda>field_len.
         if field_len_dist = ''constant'' then Inr (make_const field_len)
         else if field_len_dist = ''uniform'' then Inr (make_uniform R i 1 (of_int field_len))
         else if field_len_dist = ''zipfian''
         then Inr (Zipfian_Generator (make_zipfian F 1 (of_int field_len) (fp_zipfian_const F) (random_double R i)))
         else Inl (Utils_Exception (''Unknown field length distribution: '' @ field_len_dist))))"

text \<open>The weighted operations, in the order in which they are added; a weight that is not positive is left out.\<close>

definition add_op :: "'d fp \<Rightarrow> ycsb_op \<Rightarrow> 'd \<Rightarrow> (ycsb_op, 'd) discrete \<Rightarrow> (ycsb_op, 'd) discrete" where
  "add_op F v w g = (if fp_less F (fp_of_nat F 0) w then AddValue F v w g else g)"

definition make_key_chooser :: "'d fp \<Rightarrow> 'd rng \<Rightarrow> nat \<Rightarrow> properties \<Rightarrow> 'd \<Rightarrow> u64 \<Rightarrow> ('d generator \<times> nat) result" where
  "make_key_chooser F R i p insert_proportion record_count =
     (let request_dist = GetProperty p REQUEST_DISTRIBUTION_PROPERTY REQUEST_DISTRIBUTION_DEFAULT
      in if request_dist = ''uniform'' then Inr (make_uniform R i 0 (record_count - 1), i + 1)
         else if request_dist = ''zipfian'' then
           bind_result (stoi (GetProperty p OPERATION_COUNT_PROPERTY [])) (\<lambda>op_count.
             let new_keys = fp_to_int F (fp_mul F (fp_mul F (fp_of_int F op_count) insert_proportion) (fp_of_nat F 2))
             in Inr (make_scrambled F R i (record_count + of_int new_keys), i + 1))
         else if request_dist = ''latest'' then Inr (make_latest F R i record_count, i + 2)
         else Inl (Utils_Exception (''Unknown request distribution: '' @ request_dist)))"

definition make_scan_len_chooser :: "'d fp \<Rightarrow> 'd rng \<Rightarrow> nat \<Rightarrow> properties \<Rightarrow> int \<Rightarrow> 'd generator result" where
  "make_scan_len_chooser F R i p max_scan_len =
     (let scan_len_dist = GetProperty p SCAN_LENGTH_DISTRIBUTION_PROPERTY SCAN_LENGTH_DISTRIBUTION_DEFAULT
      in if scan_len_dist = ''uniform'' then Inr (make_uniform R i 1 (of_int max_scan_len))
         else if scan_len_dist = ''zipfian''
         then Inr (Zipfian_Generator (make_zipfian F 1 (of_int max_scan_len) (fp_zipfian_const F) (random_double R i)))
         else Inl (Utils_Exception (''Distribution not allowed for scan length: '' @ scan_len_dist)))"

definition workload_Init :: "'d fp \<Rightarrow> 'd rng \<Rightarrow> properties \<Rightarrow> 'd workload result" where
  "workload_Init F R p =
     (let get = GetProperty p; table_name = get TABLENAME_PROPERTY TABLENAME_DEFAULT
      in bind_result (stoi (get FIELD_COUNT_PROPERTY FIELD_COUNT_DEFAULT)) (\<lambda>field_count.
         bind_result (GetFieldLenGenerator F R 0 p) (\<lambda>field_len_generator.
         bind_result (fp_stod F (get READ_PROPORTION_PROPERTY READ_PROPORTION_DEFAULT)) (\<lambda>read_proportion.
         bind_result (fp_stod F (get UPDATE_PROPORTION_PROPERTY UPDATE_PROPORTION_DEFAULT)) (\<lambda>update_proportion.
         bind_result (fp_stod F (get INSERT_PROPORTION_PROPERTY INSERT_PROPORTION_DEFAULT)) (\<lambda>insert_proportion.
         bind_result (fp_stod F (get SCAN_PROPORTION_PROPERTY SCAN_PROPORTION_DEFAULT)) (\<lambda>scan_proportion.
         bind_result (fp_stod F (get READMODIFYWRITE_PROPORTION_PROPERTY READMODIFYWRITE_PROPORTION_DEFAULT)) (\<lambda>readmodifywrite_proportion.
         bind_result (stoi (get RECORD_COUNT_PROPERTY [])) (\<lambda>record_count.
         bind_result (stoi (get ZERO_PADDING_PROPERTY ZERO_PADDING_DEFAULT)) (\<lambda>zero_padding.
         bind_result (stoi (get MAX_SCAN_LENGTH_PROPERTY MAX_SCAN_LENGTH_DEFAULT)) (\<lambda>max_scan_len.
         bind_result (stoi (get INSERT_START_PROPERTY INSERT_START_DEFAULT)) (\<lambda>insert_start.
         bind_result (StrToBool (get READ_ALL_FIELDS_PROPERTY READ_ALL_FIELDS_DEFAULT)) (\<lambda>read_all_fields.
         bind_result (StrToBool (get WRITE_ALL_FIELDS_PROPERTY WRITE_ALL_FIELDS_DEFAULT)) (\<lambda>write_all_fields.
           let ordered_inserts = (get INSERT_ORDER_PROPERTY INSERT_ORDER_DEFAULT \<noteq> ''hashed'');
               op_chooser = add_op F READMODIFYWRITE readmodifywrite_proportion (add_op F SCAN scan_proportion
                 (add_op F INSERT insert_proportion (add_op F UPDATE update_proportion
                   (add_op F READ read_proportion (make_discrete F INSERT)))))
           in bind_result (make_key_chooser F R 1 p insert_proportion (of_int record_count)) (\<lambda>(key_chooser, i).
              bind_result (make_scan_len_chooser F R (i + 1) p max_scan_len) (\<lambda>scan_len_chooser.
                Inr \<lparr>wl_table_name = table_name, wl_field_count = field_count, wl_read_all_fields = read_all_fields,
                  wl_write_all_fields = write_all_fields, wl_field_len_generator = field_len_generator,
                  wl_key_generator = Counter_Generator (of_int insert_start), wl_op_chooser = op_chooser,
                  wl_key_chooser = key_chooser, wl_field_chooser = make_uniform R i 0 (of_int (field_count - 1)),
                  wl_scan_len_chooser = scan_len_chooser, wl_insert_key_sequence = of_int record_count,
                  wl_ordered_inserts = ordered_inserts, wl_record_count = of_int record_count,
                  wl_zero_padding = zero_padding, wl_draws = i + 2\<rparr>))))))))))))))))"

section \<open>Keys, fields and values\<close>

definition key_number :: "'d workload \<Rightarrow> u64 \<Rightarrow> u64" where
  "key_number w key_num = (if wl_ordered_inserts w then key_num else FNVHash64 key_num)"

definition BuildKeyName :: "'d workload \<Rightarrow> u64 \<Rightarrow> string" where
  "BuildKeyName w key_num =
     (let key_num = (if \<not> wl_ordered_inserts w then FNVHash64 key_num else key_num);
          key_num_str = to_string (unat key_num);
          zeros = max 0 (sint (word_of_int (wl_zero_padding w - int (length key_num_str)) :: 32 word))
      in ''user'' @ replicate (nat zeros) (CHR ''0'') @ key_num_str)"

definition NextSequenceKey :: "'d fp \<Rightarrow> 'd rng \<Rightarrow> 'd workload \<Rightarrow> string \<times> 'd workload" where
  "NextSequenceKey F R w =
     (let (key_num, g) = generator_Next F R (wl_draws w) (wl_insert_key_sequence w) (wl_key_generator w);
          w = w\<lparr>wl_key_generator := g, wl_draws := wl_draws w + 1\<rparr>
      in (BuildKeyName w key_num, w))"

text \<open>The loop draws until it meets a key that exists; it may not end.\<close>

partial_function (option) next_key_num :: "'d fp \<Rightarrow> 'd rng \<Rightarrow> 'd workload \<Rightarrow> (u64 \<times> 'd workload) option" where
  "next_key_num F R w =
     (let (key_num, g) = generator_Next F R (wl_draws w) (wl_insert_key_sequence w) (wl_key_chooser w);
          w = w\<lparr>wl_key_chooser := g, wl_draws := wl_draws w + 1\<rparr>
      in if key_num > counter_Last (wl_insert_key_sequence w) then next_key_num F R w else Some (key_num, w))"

definition NextTransactionKey :: "'d fp \<Rightarrow> 'd rng \<Rightarrow> 'd workload \<Rightarrow> (string \<times> 'd workload) option" where
  "NextTransactionKey F R w = map_option (\<lambda>(key_num, w). (BuildKeyName w key_num, w)) (next_key_num F R w)"

definition NextOperation :: "'d fp \<Rightarrow> 'd rng \<Rightarrow> 'd workload \<Rightarrow> ycsb_op \<times> 'd workload" where
  "NextOperation F R w =
     (let (v, g) = discrete_Next F (random_double R (wl_draws w)) (wl_op_chooser w)
      in (v, w\<lparr>wl_op_chooser := g, wl_draws := wl_draws w + 1\<rparr>))"

definition NextFieldName :: "'d fp \<Rightarrow> 'd rng \<Rightarrow> 'd workload \<Rightarrow> string \<times> 'd workload" where
  "NextFieldName F R w =
     (let (x, g) = generator_Next F R (wl_draws w) (wl_insert_key_sequence w) (wl_field_chooser w)
      in (''field'' @ to_string (unat x), w\<lparr>wl_field_chooser := g, wl_draws := wl_draws w + 1\<rparr>))"

definition NextScanLength :: "'d fp \<Rightarrow> 'd rng \<Rightarrow> 'd workload \<Rightarrow> u64 \<times> 'd workload" where
  "NextScanLength F R w =
     (let (x, g) = generator_Next F R (wl_draws w) (wl_insert_key_sequence w) (wl_scan_len_chooser w)
      in (x, w\<lparr>wl_scan_len_chooser := g, wl_draws := wl_draws w + 1\<rparr>))"

definition field_value :: "'d fp \<Rightarrow> 'd rng \<Rightarrow> 'd workload \<Rightarrow> string \<times> 'd workload" where
  "field_value F R w =
     (let (n, g) = generator_Next F R (wl_draws w) (wl_insert_key_sequence w) (wl_field_len_generator w)
      in (replicate (unat n) (RandomPrintChar (rand R (wl_draws w))), w\<lparr>wl_field_len_generator := g, wl_draws := wl_draws w + 1\<rparr>))"

fun build_values :: "'d fp \<Rightarrow> 'd rng \<Rightarrow> nat \<Rightarrow> nat \<Rightarrow> 'd workload \<Rightarrow> (string \<times> string) list \<times> 'd workload" where
  "build_values F R i 0 w = ([], w)"
| "build_values F R i (Suc n) w =
     (let (v, w) = field_value F R w; (kvs, w) = build_values F R (i + 1) n w
      in ((''field'' @ to_string i, v) # kvs, w))"

definition BuildValues :: "'d fp \<Rightarrow> 'd rng \<Rightarrow> 'd workload \<Rightarrow> (string \<times> string) list \<times> 'd workload" where
  "BuildValues F R w = build_values F R 0 (nat (wl_field_count w)) w"

definition BuildUpdate :: "'d fp \<Rightarrow> 'd rng \<Rightarrow> 'd workload \<Rightarrow> (string \<times> string) list \<times> 'd workload" where
  "BuildUpdate F R w = (let (f, w) = NextFieldName F R w; (v, w) = field_value F R w in ([(f, v)], w))"

section \<open>What the workload guarantees\<close>

text \<open>A key name reads back as the key number it was built from.\<close>

lemma BuildKeyName_eq:
  "BuildKeyName w k = ''user'' @ replicate (nat (sint (word_of_int (wl_zero_padding w - int (length (to_string (unat (key_number w k))))) :: 32 word))) (CHR ''0'')
     @ to_string (unat (key_number w k))"
  by (cases "wl_ordered_inserts w") (simp_all add: BuildKeyName_def key_number_def Let_def max_def)

lemma strtoull_key: "strtoull (drop 4 (BuildKeyName w k)) = key_number w k"
proof -
  have "unat (key_number w k) < 2 ^ LENGTH(64)" by (rule unsigned_less)
  then show ?thesis unfolding BuildKeyName_eq using strtoull_padded [of "unat (key_number w k)"] by simp
qed

text \<open>The parts of the state that no draw changes.\<close>

definition same_setup :: "'d workload \<Rightarrow> 'd workload \<Rightarrow> bool" where
  "same_setup w w' \<longleftrightarrow> wl_ordered_inserts w' = wl_ordered_inserts w \<and> wl_zero_padding w' = wl_zero_padding w \<and>
     wl_insert_key_sequence w' = wl_insert_key_sequence w \<and> wl_record_count w' = wl_record_count w \<and>
     wl_read_all_fields w' = wl_read_all_fields w \<and> wl_write_all_fields w' = wl_write_all_fields w \<and>
     wl_field_count w' = wl_field_count w"

lemma same_setup_refl [simp]: "same_setup w w"
  by (simp add: same_setup_def)

lemma same_setup_trans [trans]: "same_setup w w1 \<Longrightarrow> same_setup w1 w2 \<Longrightarrow> same_setup w w2"
  by (simp add: same_setup_def)

lemma field_value_setup:
  "field_value F R w = (v, w') \<Longrightarrow> same_setup w w' \<and> wl_op_chooser w' = wl_op_chooser w \<and> wl_key_chooser w' = wl_key_chooser w \<and>
     wl_key_generator w' = wl_key_generator w"
  by (auto simp: field_value_def same_setup_def Let_def split: prod.splits)

definition same_choice :: "'d workload \<Rightarrow> 'd workload \<Rightarrow> bool" where
  "same_choice w w' \<longleftrightarrow> same_setup w w' \<and> wl_op_chooser w' = wl_op_chooser w \<and> wl_key_chooser w' = wl_key_chooser w"

lemma same_choice_refl [simp]: "same_choice w w"
  by (simp add: same_choice_def)

lemma same_choice_trans [trans]: "same_choice w w1 \<Longrightarrow> same_choice w1 w2 \<Longrightarrow> same_choice w w2"
  by (auto simp: same_choice_def intro: same_setup_trans)

lemma value_choice:
  "field_value F R w = (v, w') \<Longrightarrow> same_choice w w' \<and> wl_key_generator w' = wl_key_generator w"
  "NextFieldName F R w = (f, w') \<Longrightarrow> same_choice w w' \<and> wl_key_generator w' = wl_key_generator w"
  "NextScanLength F R w = (n, w') \<Longrightarrow> same_choice w w' \<and> wl_key_generator w' = wl_key_generator w"
  by (auto simp: field_value_def NextFieldName_def NextScanLength_def same_choice_def same_setup_def Let_def split: prod.splits)

lemma build_values_choice:
  "build_values F R i n w = (kvs, w') \<Longrightarrow> same_choice w w' \<and> wl_key_generator w' = wl_key_generator w \<and> length kvs = n"
proof (induction n arbitrary: i w kvs w')
  case (Suc n)
  obtain v w1 where v: "field_value F R w = (v, w1)" by fastforce
  obtain ks w2 where k: "build_values F R (i + 1) n w1 = (ks, w2)" by fastforce
  from value_choice(1) [OF v] Suc.IH [OF k] Suc.prems v k show ?case by (auto intro: same_choice_trans)
qed simp

lemma BuildValues_choice:
  "BuildValues F R w = (kvs, w') \<Longrightarrow> same_choice w w' \<and> wl_key_generator w' = wl_key_generator w"
  by (auto simp: BuildValues_def dest: build_values_choice)

lemma BuildUpdate_choice:
  "BuildUpdate F R w = (kvs, w') \<Longrightarrow> same_choice w w' \<and> wl_key_generator w' = wl_key_generator w"
  by (auto simp: BuildUpdate_def Let_def split: prod.splits dest!: value_choice intro: same_choice_trans)

text \<open>A key drawn for a transaction exists; with uniform draws the first one does.\<close>

definition key_drawn :: "'d workload \<Rightarrow> u64 \<times> 'd workload \<Rightarrow> bool" where
  "key_drawn w y \<longleftrightarrow> same_setup w (snd y) \<and> wl_op_chooser (snd y) = wl_op_chooser w \<and>
     wl_key_generator (snd y) = wl_key_generator w \<and> fst y \<le> counter_Last (wl_insert_key_sequence w)"

lemma next_key_num_drawn: "next_key_num F R w = Some y \<Longrightarrow> key_drawn w y"
  by (rule next_key_num.raw_induct [of "\<lambda>F R w y. key_drawn w y"])
    (fastforce simp: key_drawn_def same_setup_def Let_def split: prod.splits if_splits)+

lemma next_key_num_uniform:
  assumes "uniform_draws R" "wl_key_chooser w = Uniform_Generator 0 hi v" "hi \<le> counter_Last (wl_insert_key_sequence w)"
  shows "\<exists>k w'. next_key_num F R w = Some (k, w') \<and> k \<le> hi \<and> wl_key_chooser w' = Uniform_Generator 0 hi k"
proof -
  have "pick R (wl_draws w) 0 hi \<le> hi" using assms(1) by (simp add: uniform_draws_def)
  with assms(2,3) show ?thesis by (subst next_key_num.simps) (auto simp: Let_def)
qed

lemma NextTransactionKey_drawn:
  "NextTransactionKey F R w = Some (key, w') \<Longrightarrow> \<exists>k. key = BuildKeyName w k \<and> key_drawn w (k, w')"
  by (auto simp: NextTransactionKey_def BuildKeyName_eq key_number_def key_drawn_def same_setup_def dest!: next_key_num_drawn)

lemma NextSequenceKey_counter:
  assumes "wl_key_generator w = Counter_Generator c" "NextSequenceKey F R w = (key, w')"
  shows "key = BuildKeyName w c \<and> wl_key_generator w' = Counter_Generator (c + 1) \<and> same_choice w w'"
  using assms by (auto simp: NextSequenceKey_def counter_Next_def same_choice_def same_setup_def BuildKeyName_eq key_number_def Let_def)

end
