(* ===== verification/YCSB_Export.thy ===== *)
theory YCSB_Export
  imports YCSB_Properties
begin

text \<open>
  The only database of the workload generator (\<^verbatim>\<open>ycsbc/db/export.hpp\<close>, made by \<^verbatim>\<open>ycsbc/db/db_factory.hpp\<close>): it
  writes the operations to a file. The file starts with the numbers of records and transactions, then come the
  record keys of the loading phase and the transactions, as raw structures. The seven padding bytes of
  a transaction are not determined by the code: \<open>P i\<close> are those of a structure written at offset \<open>i\<close>.
\<close>

record export_db =
  x_file :: "u8 list"
  x_running :: bool
  x_inited :: bool
  x_records :: u64
  x_transactions :: u64
  x_update_delete :: bool

definition OP_QUERY_BYTE :: u8 where "OP_QUERY_BYTE = 0"
definition OP_INSERT_BYTE :: u8 where "OP_INSERT_BYTE = 1"
definition OP_DELETE_BYTE :: u8 where "OP_DELETE_BYTE = 2"

record tx_context =
  tx_type :: u8
  tx_arg0 :: u64
  tx_arg1 :: u64

definition tx_bytes :: "u8 list \<Rightarrow> tx_context \<Rightarrow> u8 list" where
  "tx_bytes pad tx = tx_type tx # pad @ le_bytes 8 (tx_arg0 tx) @ le_bytes 8 (tx_arg1 tx)"

text \<open>The key is read from the fifth character on; a shorter string is overrun.\<close>

definition str2key :: "string \<Rightarrow> u64 result" where
  "str2key str = (if length str < 4 then Inl Bad_pointer else Inr (strtoull (drop 4 str)))"

definition make_export :: "u64 \<Rightarrow> u64 \<Rightarrow> bool \<Rightarrow> export_db" where
  "make_export num_records num_transactions update_delete =
     \<lparr>x_file = [], x_running = False, x_inited = False, x_records = num_records,
      x_transactions = num_transactions, x_update_delete = update_delete\<rparr>"

definition write_bytes :: "u8 list \<Rightarrow> export_db \<Rightarrow> export_db" where
  "write_bytes bs x = x\<lparr>x_file := x_file x @ bs\<rparr>"

definition export_insert :: "(nat \<Rightarrow> u8 list) \<Rightarrow> u64 \<Rightarrow> export_db \<Rightarrow> int \<times> export_db" where
  "export_insert P key x =
     (0, write_bytes (tx_bytes (P (length (x_file x))) \<lparr>tx_type = OP_INSERT_BYTE, tx_arg0 = key, tx_arg1 = key\<rparr>) x)"

definition export_delete :: "(nat \<Rightarrow> u8 list) \<Rightarrow> u64 \<Rightarrow> export_db \<Rightarrow> int \<times> export_db" where
  "export_delete P key x =
     (0, write_bytes (tx_bytes (P (length (x_file x))) \<lparr>tx_type = OP_DELETE_BYTE, tx_arg0 = key, tx_arg1 = key\<rparr>) x)"

definition export_query :: "(nat \<Rightarrow> u8 list) \<Rightarrow> u64 \<Rightarrow> u64 \<Rightarrow> export_db \<Rightarrow> int \<times> export_db" where
  "export_query P l r x =
     (0, write_bytes (tx_bytes (P (length (x_file x))) \<lparr>tx_type = OP_QUERY_BYTE, tx_arg0 = l, tx_arg1 = r\<rparr>) x)"

definition export_Init :: "export_db \<Rightarrow> export_db result" where
  "export_Init x =
     (if x_running x then Inl Abort
      else let x = x\<lparr>x_running := True\<rparr>
           in Inr (if x_inited x then x
                   else write_bytes (le_bytes 8 (x_transactions x)) (write_bytes (le_bytes 8 (x_records x)) x)))"

definition export_Close :: "export_db \<Rightarrow> export_db" where
  "export_Close x = x\<lparr>x_inited := True, x_running := False\<rparr>"

definition export_Read :: "(nat \<Rightarrow> u8 list) \<Rightarrow> string \<Rightarrow> export_db \<Rightarrow> (int \<times> export_db) result" where
  "export_Read P key x =
     (if \<not> x_inited x then Inl Abort
      else bind_result (str2key key) (\<lambda>k. Inr (export_query P k k x)))"

definition export_Scan :: "(nat \<Rightarrow> u8 list) \<Rightarrow> string \<Rightarrow> int \<Rightarrow> export_db \<Rightarrow> (int \<times> export_db) result" where
  "export_Scan P key len x =
     (if \<not> x_inited x then Inl Abort
      else bind_result (str2key key) (\<lambda>l. Inr (export_query P l (l + (if len > 0 then of_int (len - 1) else 0)) x)))"

definition export_Update :: "(nat \<Rightarrow> u8 list) \<Rightarrow> string \<Rightarrow> export_db \<Rightarrow> (int \<times> export_db) result" where
  "export_Update P key x =
     (if \<not> x_inited x then Inl Abort
      else bind_result (str2key key)
        (\<lambda>k. Inr (if x_update_delete x then export_delete P k x else export_insert P k x)))"

definition export_Insert :: "(nat \<Rightarrow> u8 list) \<Rightarrow> string \<Rightarrow> export_db \<Rightarrow> (int \<times> export_db) result" where
  "export_Insert P key x =
     bind_result (str2key key)
       (\<lambda>k. Inr (if x_inited x then export_insert P k x else (0, write_bytes (le_bytes 8 k) x)))"

definition export_Delete :: "(nat \<Rightarrow> u8 list) \<Rightarrow> string \<Rightarrow> export_db \<Rightarrow> (int \<times> export_db) result" where
  "export_Delete P key x =
     (if \<not> x_inited x then Inl Abort
      else bind_result (str2key key) (\<lambda>k. Inr (export_delete P k x)))"

text \<open>
  The factory: the null pointer for another name. The handler catches strings, so an exception of
  the property map or of \<^verbatim>\<open>stoi\<close> ends the program.
\<close>

definition CreateDB :: "properties \<Rightarrow> export_db option result" where
  "CreateDB p =
     bind_result (at_property p ''dbname'') (\<lambda>name.
       if name = ''export'' then
         bind_result (at_property p ''filename'') (\<lambda>_.
         bind_result (stoi (GetProperty p ''recordcount'' ''0'')) (\<lambda>n.
         bind_result (stoi (GetProperty p ''operationcount'' ''0'')) (\<lambda>m.
           Inr (Some (make_export (of_int n) (of_int m) (GetProperty p ''updatedelete'' ''false'' = ''true''))))))
       else Inr None)"

section \<open>Reading the file back\<close>

text \<open>
  The reader (\<^verbatim>\<open>main.cpp\<close>) copies the bytes into memory; when the file is too short the rest of that memory is
  indeterminate, which is the result \<open>None\<close>.
\<close>

definition read_u64 :: "u8 list \<Rightarrow> (u64 \<times> u8 list) option" where
  "read_u64 bs = (if length bs < 8 then None else Some (of_le_bytes (take 8 bs), drop 8 bs))"

definition read_tx :: "u8 list \<Rightarrow> (tx_context \<times> u8 list) option" where
  "read_tx bs =
     (if length bs < 24 then None
      else Some (\<lparr>tx_type = bs ! 0, tx_arg0 = of_le_bytes (take 8 (drop 8 bs)), tx_arg1 = of_le_bytes (take 8 (drop 16 bs))\<rparr>,
                 drop 24 bs))"

fun read_many :: "(u8 list \<Rightarrow> ('a \<times> u8 list) option) \<Rightarrow> nat \<Rightarrow> u8 list \<Rightarrow> ('a list \<times> u8 list) option" where
  "read_many f 0 bs = Some ([], bs)"
| "read_many f (Suc n) bs =
     (case f bs of None \<Rightarrow> None
      | Some (x, bs) \<Rightarrow> (case read_many f n bs of None \<Rightarrow> None | Some (xs, bs) \<Rightarrow> Some (x # xs, bs)))"

definition read_workload :: "u8 list \<Rightarrow> (u64 list \<times> tx_context list) option" where
  "read_workload bs =
     (case read_u64 bs of None \<Rightarrow> None | Some (n, bs) \<Rightarrow>
      case read_u64 bs of None \<Rightarrow> None | Some (m, bs) \<Rightarrow>
      case read_many read_u64 (unat n) bs of None \<Rightarrow> None | Some (elems, bs) \<Rightarrow>
      map_option (\<lambda>(txs, _). (elems, txs)) (read_many read_tx (unat m) bs))"

lemma read_u64_le_bytes [simp]: "read_u64 (le_bytes 8 x @ bs) = Some (x, bs)"
  by (simp add: read_u64_def of_le_bytes_le_bytes)

lemma read_tx_bytes:
  assumes "length pad = 7"
  shows "read_tx (tx_bytes pad tx @ bs) = Some (tx, bs)"
proof -
  let ?b = "tx_bytes pad tx @ bs"
  have "take 8 (drop 8 ?b) = le_bytes 8 (tx_arg0 tx)" "take 8 (drop 16 ?b) = le_bytes 8 (tx_arg1 tx)" "drop 24 ?b = bs"
    using assms by (simp_all add: tx_bytes_def)
  moreover have "\<not> length ?b < 24" "?b ! 0 = tx_type tx" using assms by (simp_all add: tx_bytes_def)
  ultimately show ?thesis by (simp add: read_tx_def of_le_bytes_le_bytes)
qed

lemma read_many_concat:
  assumes "\<And>x bs. x \<in> set xs \<Longrightarrow> f (enc x @ bs) = Some (dec x, bs)"
  shows "read_many f (length xs) (concat (map enc xs) @ bs) = Some (map dec xs, bs)"
  using assms by (induction xs) simp_all

text \<open>The file with a given contents; the transactions carry their padding.\<close>

definition file_bytes :: "u64 \<Rightarrow> u64 \<Rightarrow> u64 list \<Rightarrow> (u8 list \<times> tx_context) list \<Rightarrow> u8 list" where
  "file_bytes n m elems txs =
     le_bytes 8 n @ le_bytes 8 m @ concat (map (le_bytes 8) elems) @ concat (map (\<lambda>(pad, tx). tx_bytes pad tx) txs)"

lemma read_workload_file:
  assumes "\<forall>t \<in> set txs. length (fst t) = 7" "unat n = length elems" "unat m \<le> length txs"
  shows "read_workload (file_bytes n m elems txs) = Some (elems, map snd (take (unat m) txs))"
proof -
  let ?e = "\<lambda>(pad, tx). tx_bytes pad tx"
  have e: "read_many read_u64 (unat n) (concat (map (le_bytes 8) elems) @ bs) = Some (elems, bs)" for bs
    using read_many_concat [of elems read_u64 "le_bytes 8" id bs] assms(2) by simp
  have split: "concat (map ?e txs) = concat (map ?e (take (unat m) txs)) @ concat (map ?e (drop (unat m) txs))"
    by (metis append_take_drop_id concat_append map_append)
  have len: "length (take (unat m) txs) = unat m" using assms(3) by simp
  have "read_many read_tx (length (take (unat m) txs)) (concat (map ?e (take (unat m) txs)) @ bs) = Some (map snd (take (unat m) txs), bs)" for bs
    by (rule read_many_concat) (use assms(1) in \<open>auto intro!: read_tx_bytes dest!: in_set_takeD\<close>)
  then have "read_many read_tx (unat m) (concat (map ?e txs)) = Some (map snd (take (unat m) txs), concat (map ?e (drop (unat m) txs)))"
    unfolding split len .
  then show ?thesis using e by (simp add: read_workload_def file_bytes_def)
qed

lemma read_many_tx_length: "read_many read_tx n bs = Some y \<Longrightarrow> 24 * n \<le> length bs"
  by (induction n arbitrary: bs y) (fastforce simp: read_tx_def split: option.splits prod.splits if_splits)+

lemma read_workload_short:
  assumes "\<forall>t \<in> set txs. length (fst t) = 7" "unat n = length elems" "length txs < unat m"
  shows "read_workload (file_bytes n m elems txs) = None"
proof -
  let ?e = "\<lambda>(pad, tx). tx_bytes pad tx"
  have e: "read_many read_u64 (unat n) (concat (map (le_bytes 8) elems) @ bs) = Some (elems, bs)" for bs
    using read_many_concat [of elems read_u64 "le_bytes 8" id bs] assms(2) by simp
  have "length (concat (map ?e txs)) = 24 * length txs" using assms(1)
    by (induction txs) (auto simp: tx_bytes_def)
  then have "read_many read_tx (unat m) (concat (map ?e txs)) = None"
    using read_many_tx_length [of "unat m" "concat (map ?e txs)"] assms(3)
    by (cases "read_many read_tx (unat m) (concat (map ?e txs))") auto
  then show ?thesis using e by (simp add: read_workload_def file_bytes_def)
qed

end
