(* ===== verification/YCSB_Client.thy ===== *)
theory YCSB_Client
  imports YCSB_Workload YCSB_Export
begin

text \<open>
  The client of the workload generator (\<^verbatim>\<open>ycsbc/core/client.h\<close>) and its main program (\<^verbatim>\<open>ycsbc/ycsbc.cc\<close>). The state is the
  workload and the export database. A computation has no result when it does not end, otherwise it
  throws or returns. The clients of one phase are started one after the other; they run one after
  the other here, which is the only schedule that does not abort: \<open>export_Init\<close> aborts when another client is running.
\<close>

type_synonym 'a run = "'a result option"
type_synonym 'd client = "'d workload \<times> export_db"

fun and_then :: "'a run \<Rightarrow> ('a \<Rightarrow> 'b run) \<Rightarrow> 'b run" where
  "and_then None f = None"
| "and_then (Some (Inl e)) f = Some (Inl e)"
| "and_then (Some (Inr x)) f = f x"

lemma and_then_eq [simp]: "and_then m f = Some (Inr y) \<longleftrightarrow> (\<exists>x. m = Some (Inr x) \<and> f x = Some (Inr y))"
  by (induction m f rule: and_then.induct) auto

definition attach :: "'d workload \<Rightarrow> (int \<times> export_db) result \<Rightarrow> (int \<times> 'd client) run" where
  "attach w r = Some (bind_result r (\<lambda>(status, x). Inr (status, (w, x))))"

definition kOK :: int where "kOK = 0"

definition read_fields :: "'d fp \<Rightarrow> 'd rng \<Rightarrow> 'd workload \<Rightarrow> string list option \<times> 'd workload" where
  "read_fields F R w =
     (if \<not> wl_read_all_fields w then (let (f, w) = NextFieldName F R w in (Some [''field'' @ f], w)) else (None, w))"

definition update_values_for :: "'d fp \<Rightarrow> 'd rng \<Rightarrow> 'd workload \<Rightarrow> (string \<times> string) list \<times> 'd workload" where
  "update_values_for F R w = (if wl_write_all_fields w then BuildValues F R w else BuildUpdate F R w)"

definition TransactionRead :: "'d fp \<Rightarrow> 'd rng \<Rightarrow> (nat \<Rightarrow> u8 list) \<Rightarrow> 'd client \<Rightarrow> (int \<times> 'd client) run" where
  "TransactionRead F R P = (\<lambda>(w, x).
     case NextTransactionKey F R w of None \<Rightarrow> None
     | Some (key, w) \<Rightarrow> let (fields, w) = read_fields F R w in attach w (export_Read P key x))"

definition TransactionUpdate :: "'d fp \<Rightarrow> 'd rng \<Rightarrow> (nat \<Rightarrow> u8 list) \<Rightarrow> 'd client \<Rightarrow> (int \<times> 'd client) run" where
  "TransactionUpdate F R P = (\<lambda>(w, x).
     case NextTransactionKey F R w of None \<Rightarrow> None
     | Some (key, w) \<Rightarrow> let (values, w) = update_values_for F R w in attach w (export_Update P key x))"

definition TransactionReadModifyWrite :: "'d fp \<Rightarrow> 'd rng \<Rightarrow> (nat \<Rightarrow> u8 list) \<Rightarrow> 'd client \<Rightarrow> (int \<times> 'd client) run" where
  "TransactionReadModifyWrite F R P = (\<lambda>(w, x).
     case NextTransactionKey F R w of None \<Rightarrow> None
     | Some (key, w) \<Rightarrow>
         let (fields, w) = read_fields F R w
         in and_then (attach w (export_Read P key x)) (\<lambda>(_, (w, x)).
            let (values, w) = update_values_for F R w in attach w (export_Update P key x)))"

definition TransactionScan :: "'d fp \<Rightarrow> 'd rng \<Rightarrow> (nat \<Rightarrow> u8 list) \<Rightarrow> 'd client \<Rightarrow> (int \<times> 'd client) run" where
  "TransactionScan F R P = (\<lambda>(w, x).
     case NextTransactionKey F R w of None \<Rightarrow> None
     | Some (key, w) \<Rightarrow>
         let (n, w) = NextScanLength F R w; len = sint (ucast n :: 32 word); (fields, w) = read_fields F R w
         in attach w (export_Scan P key len x))"

definition TransactionInsert :: "'d fp \<Rightarrow> 'd rng \<Rightarrow> (nat \<Rightarrow> u8 list) \<Rightarrow> 'd client \<Rightarrow> (int \<times> 'd client) run" where
  "TransactionInsert F R P = (\<lambda>(w, x).
     let (key, w) = NextSequenceKey F R w; (values, w) = BuildValues F R w in attach w (export_Insert P key x))"

definition DoInsert :: "'d fp \<Rightarrow> 'd rng \<Rightarrow> (nat \<Rightarrow> u8 list) \<Rightarrow> 'd client \<Rightarrow> (bool \<times> 'd client) run" where
  "DoInsert F R P s = and_then (TransactionInsert F R P s) (\<lambda>(status, s). Some (Inr (status = kOK, s)))"

definition DoTransaction :: "'d fp \<Rightarrow> 'd rng \<Rightarrow> (nat \<Rightarrow> u8 list) \<Rightarrow> 'd client \<Rightarrow> (bool \<times> 'd client) run" where
  "DoTransaction F R P = (\<lambda>(w, x).
     let (opn, w) = NextOperation F R w
     in and_then
          (case opn of
             READ \<Rightarrow> TransactionRead F R P (w, x)
           | UPDATE \<Rightarrow> TransactionUpdate F R P (w, x)
           | INSERT \<Rightarrow> TransactionInsert F R P (w, x)
           | SCAN \<Rightarrow> TransactionScan F R P (w, x)
           | READMODIFYWRITE \<Rightarrow> TransactionReadModifyWrite F R P (w, x))
          (\<lambda>(status, s). Some (Inr (status = kOK, s))))"

fun client_loop :: "('s \<Rightarrow> (bool \<times> 's) run) \<Rightarrow> nat \<Rightarrow> 's \<Rightarrow> (nat \<times> 's) run" where
  "client_loop f 0 s = Some (Inr (0, s))"
| "client_loop f (Suc n) s =
     and_then (f s) (\<lambda>(ok, s). and_then (client_loop f n s) (\<lambda>(oks, s). Some (Inr ((if ok then 1 else 0) + oks, s))))"

definition DelegateClient :: "'d fp \<Rightarrow> 'd rng \<Rightarrow> (nat \<Rightarrow> u8 list) \<Rightarrow> int \<Rightarrow> bool \<Rightarrow> 'd client \<Rightarrow> (nat \<times> 'd client) run" where
  "DelegateClient F R P num_ops is_loading = (\<lambda>(w, x).
     and_then (Some (export_Init x)) (\<lambda>x.
     and_then (client_loop (if is_loading then DoInsert F R P else DoTransaction F R P) (nat num_ops) (w, x)) (\<lambda>(oks, (w, x)).
       Some (Inr (oks, (w, export_Close x))))))"

text \<open>One phase: \<open>n\<close> clients with the same number of operations, their counts added up.\<close>

fun phase :: "('s \<Rightarrow> (nat \<times> 's) run) \<Rightarrow> nat \<Rightarrow> 's \<Rightarrow> (nat \<times> 's) run" where
  "phase f 0 s = Some (Inr (0, s))"
| "phase f (Suc n) s =
     and_then (f s) (\<lambda>(oks, s). and_then (phase f n s) (\<lambda>(sum, s). Some (Inr (oks + sum, s))))"

definition C_div :: "int \<Rightarrow> int \<Rightarrow> int" where
  "C_div a b = sgn a * sgn b * (\<bar>a\<bar> div \<bar>b\<bar>)"

definition ycsb_main :: "'d fp \<Rightarrow> 'd rng \<Rightarrow> (nat \<Rightarrow> u8 list) \<Rightarrow> properties \<Rightarrow> export_db option run" where
  "ycsb_main F R P props =
     and_then (Some (CreateDB props)) (\<lambda>db. case db of None \<Rightarrow> Some (Inr None) | Some x \<Rightarrow>
     and_then (Some (workload_Init F R props)) (\<lambda>w.
     and_then (Some (stoi (GetProperty props ''threadcount'' ''1''))) (\<lambda>num_threads.
     and_then (Some (bind_result (at_property props ''recordcount'') stoi)) (\<lambda>total_ops.
     and_then (phase (DelegateClient F R P (C_div total_ops num_threads) True) (nat num_threads) (w, x)) (\<lambda>(loaded, s).
     and_then (Some (bind_result (at_property props ''operationcount'') stoi)) (\<lambda>total_ops.
     and_then (phase (DelegateClient F R P (C_div total_ops num_threads) False) (nat num_threads) s) (\<lambda>(done, (w, x)).
       Some (Inr (Some x)))))))))"

text \<open>The whole program: \<open>fs\<close> is the file system with the specification files.\<close>

definition ycsbc ::
  "(string \<Rightarrow> string option) \<Rightarrow> 'd fp \<Rightarrow> 'd rng \<Rightarrow> (nat \<Rightarrow> u8 list) \<Rightarrow> string list \<Rightarrow> export_db option run parse" where
  "ycsbc fs F R P args =
     (case ycsb_ParseCommandLine fs args Map.empty of
        Parsed (filename, props) \<Rightarrow> Parsed (ycsb_main F R P props)
      | Usage \<Rightarrow> Usage
      | Unknown_option a \<Rightarrow> Unknown_option a
      | Uncaught e \<Rightarrow> Uncaught e)"

section \<open>What is written\<close>

text \<open>Appending known transactions, with their padding, and changing nothing else of the database.\<close>

definition known :: "tx_context \<Rightarrow> bool" where
  "known tx \<longleftrightarrow> tx_type tx \<in> {OP_QUERY_BYTE, OP_INSERT_BYTE, OP_DELETE_BYTE}"

definition appends :: "export_db \<Rightarrow> (u8 list \<times> tx_context) list \<Rightarrow> export_db \<Rightarrow> bool" where
  "appends x ts x' \<longleftrightarrow> list_all (\<lambda>(pad, tx). length pad = 7 \<and> known tx) ts \<and>
     x' = write_bytes (concat (map (\<lambda>(pad, tx). tx_bytes pad tx) ts)) x"

lemma appends_Nil: "appends x [] x"
  by (simp add: appends_def write_bytes_def)

lemma appends_trans: "appends x ts x1 \<Longrightarrow> appends x1 us x2 \<Longrightarrow> appends x (ts @ us) x2"
  by (auto simp: appends_def write_bytes_def)

lemma appends_inited: "appends x ts x' \<Longrightarrow> x_inited x' = x_inited x"
  by (auto simp: appends_def write_bytes_def)

lemma str2key_BuildKeyName: "str2key (BuildKeyName w k) = Inr (key_number w k)"
  using strtoull_key [of w k] by (simp add: str2key_def BuildKeyName_eq)

text \<open>One database call of the transaction phase writes one transaction.\<close>

definition one_call :: "export_db \<Rightarrow> (int \<times> export_db) result \<Rightarrow> bool" where
  "one_call x r \<longleftrightarrow> (\<exists>t x'. r = Inr (kOK, x') \<and> appends x [t] x')"

lemma one_callI: "length pad = 7 \<Longrightarrow> known tx \<Longrightarrow> one_call x (Inr (0, write_bytes (tx_bytes pad tx) x))"
  unfolding one_call_def by (intro exI [of _ "(pad, tx)"]) (simp add: appends_def kOK_def)

lemma export_one:
  assumes "\<And>i. length (P i) = 7" "x_inited x" "str2key key = Inr k"
  shows "one_call x (export_Read P key x)" "one_call x (export_Scan P key len x)"
    "one_call x (export_Update P key x)" "one_call x (export_Insert P key x)"
  using assms by (simp_all add: export_Read_def export_Scan_def export_Update_def export_Insert_def export_query_def
      export_insert_def export_delete_def one_callI known_def)

text \<open>
  The state of a client in the transaction phase: \<open>V\<close> are the operations it may choose, and \<open>U\<close> tells whether the
  keys are drawn uniformly among the keys that exist, in which case every transaction returns.
\<close>

definition uniform_keys :: "'d workload \<Rightarrow> bool" where
  "uniform_keys w \<longleftrightarrow> (\<exists>hi v. wl_key_chooser w = Uniform_Generator 0 hi v \<and> hi \<le> counter_Last (wl_insert_key_sequence w))"

definition tx_ready :: "ycsb_op set \<Rightarrow> bool \<Rightarrow> 'd client \<Rightarrow> bool" where
  "tx_ready V U s \<longleftrightarrow> chooses V (wl_op_chooser (fst s)) \<and> (\<exists>c. wl_key_generator (fst s) = Counter_Generator c) \<and>
     x_inited (snd s) \<and> (U \<longrightarrow> uniform_keys (fst s))"

definition writes :: "ycsb_op set \<Rightarrow> bool \<Rightarrow> nat set \<Rightarrow> 'd client \<Rightarrow> (int \<times> 'd client) run \<Rightarrow> bool" where
  "writes V U N s r \<longleftrightarrow> r = None \<and> \<not> U \<or> (\<exists>s' ts. r = Some (Inr (kOK, s')) \<and> tx_ready V U s' \<and> appends (snd s) ts (snd s') \<and> length ts \<in> N)"

lemma attach_writes:
  assumes "one_call x r" "tx_ready V U (w, x)"
  shows "writes V U {1} (w0, x) (attach w r)"
  using assms appends_inited unfolding one_call_def writes_def attach_def tx_ready_def by fastforce

lemma read_fields_choice: "read_fields F R w = (f, w') \<Longrightarrow> same_choice w w' \<and> wl_key_generator w' = wl_key_generator w"
  by (auto simp: read_fields_def Let_def split: if_splits prod.splits dest: value_choice)

lemma update_values_choice: "update_values_for F R w = (f, w') \<Longrightarrow> same_choice w w' \<and> wl_key_generator w' = wl_key_generator w"
  by (auto simp: update_values_for_def split: if_splits dest: BuildValues_choice BuildUpdate_choice)

lemma tx_ready_choice:
  "tx_ready V U (w, x) \<Longrightarrow> same_choice w w' \<and> wl_key_generator w' = wl_key_generator w \<Longrightarrow> tx_ready V U (w', x)"
  by (auto simp: tx_ready_def same_choice_def uniform_keys_def same_setup_def)

lemma uniform_key_num:
  assumes "uniform_draws R" "uniform_keys w"
  shows "\<exists>k w'. next_key_num F R w = Some (k, w') \<and> uniform_keys w'"
proof -
  from assms(2) obtain hi v where hi: "wl_key_chooser w = Uniform_Generator 0 hi v" "hi \<le> counter_Last (wl_insert_key_sequence w)"
    by (auto simp: uniform_keys_def)
  from next_key_num_uniform [OF assms(1) hi] obtain k w' where
    k: "next_key_num F R w = Some (k, w')" "wl_key_chooser w' = Uniform_Generator 0 hi k" by blast
  from next_key_num_drawn [OF k(1)] have "wl_insert_key_sequence w' = wl_insert_key_sequence w"
    by (simp add: key_drawn_def same_setup_def)
  with k hi(2) show ?thesis by (auto simp: uniform_keys_def)
qed

lemma tx_ready_key:
  assumes "tx_ready V U (w, x)" "U \<longrightarrow> uniform_draws R" "NextTransactionKey F R w = Some (key, w')"
  shows "tx_ready V U (w', x) \<and> (\<exists>k. str2key key = Inr k)"
proof -
  from assms(3) obtain k where k: "next_key_num F R w = Some (k, w')" by (auto simp: NextTransactionKey_def)
  have "uniform_keys w'" if "U"
    using uniform_key_num [of R w F] assms(1,2) that k by (auto simp: tx_ready_def)
  then show ?thesis
    using NextTransactionKey_drawn [OF assms(3)] assms(1) by (auto simp: tx_ready_def key_drawn_def str2key_BuildKeyName)
qed

lemma tx_ready_stuck:
  assumes "tx_ready V U (w, x)" "U \<longrightarrow> uniform_draws R" "NextTransactionKey F R w = None"
  shows "\<not> U"
  using uniform_key_num [of R w F] assms by (auto simp: tx_ready_def NextTransactionKey_def)

lemma transactions_write:
  assumes pad: "\<And>i. length (P i) = 7" and ready: "tx_ready V U (w, x)" and U: "U \<longrightarrow> uniform_draws R"
  shows "writes V U {1} (w, x) (TransactionRead F R P (w, x))" "writes V U {1} (w, x) (TransactionUpdate F R P (w, x))"
    "writes V U {1} (w, x) (TransactionScan F R P (w, x))" "writes V U {1} (w, x) (TransactionInsert F R P (w, x))"
    "writes V U {2} (w, x) (TransactionReadModifyWrite F R P (w, x))"
proof -
  note one = export_one [of P, OF pad]
  have x: "x_inited x" using ready by (simp add: tx_ready_def)
  show "writes V U {1} (w, x) (TransactionRead F R P (w, x))"
  proof (cases "NextTransactionKey F R w")
    case (Some y)
    obtain key w1 where y: "y = (key, w1)" by fastforce
    obtain fs w2 where r: "read_fields F R w1 = (fs, w2)" by fastforce
    note k = tx_ready_key [OF ready U Some [unfolded y]]
    then have "tx_ready V U (w2, x)" using tx_ready_choice read_fields_choice [OF r] by blast
    from attach_writes [OF one(1) [OF x] this, of key] k show ?thesis by (auto simp: TransactionRead_def Some y r)
  qed (use tx_ready_stuck [OF ready U] in \<open>simp add: TransactionRead_def writes_def\<close>)
  show "writes V U {1} (w, x) (TransactionUpdate F R P (w, x))"
  proof (cases "NextTransactionKey F R w")
    case (Some y)
    obtain key w1 where y: "y = (key, w1)" by fastforce
    obtain fs w2 where r: "update_values_for F R w1 = (fs, w2)" by fastforce
    note k = tx_ready_key [OF ready U Some [unfolded y]]
    then have "tx_ready V U (w2, x)" using tx_ready_choice update_values_choice [OF r] by blast
    from attach_writes [OF one(3) [OF x] this, of key] k show ?thesis by (auto simp: TransactionUpdate_def Some y r)
  qed (use tx_ready_stuck [OF ready U] in \<open>simp add: TransactionUpdate_def writes_def\<close>)
  show "writes V U {1} (w, x) (TransactionScan F R P (w, x))"
  proof (cases "NextTransactionKey F R w")
    case (Some y)
    obtain key w1 where y: "y = (key, w1)" by fastforce
    obtain n w2 where n: "NextScanLength F R w1 = (n, w2)" by fastforce
    obtain fs w3 where r: "read_fields F R w2 = (fs, w3)" by fastforce
    note k = tx_ready_key [OF ready U Some [unfolded y]]
    then have "tx_ready V U (w3, x)" using tx_ready_choice value_choice(3) [OF n] read_fields_choice [OF r] by blast
    from attach_writes [OF one(2) [OF x] this, of key] k show ?thesis by (auto simp: TransactionScan_def Some y n r)
  qed (use tx_ready_stuck [OF ready U] in \<open>simp add: TransactionScan_def writes_def\<close>)
  show "writes V U {1} (w, x) (TransactionInsert F R P (w, x))"
  proof -
    obtain key w1 where y: "NextSequenceKey F R w = (key, w1)" by fastforce
    obtain kvs w2 where r: "BuildValues F R w1 = (kvs, w2)" by fastforce
    obtain c where c: "wl_key_generator w = Counter_Generator c" using ready by (auto simp: tx_ready_def)
    note s = NextSequenceKey_counter [OF c y]
    then have "tx_ready V U (w1, x)" using ready by (auto simp: tx_ready_def same_choice_def uniform_keys_def same_setup_def)
    then have "tx_ready V U (w2, x)" using tx_ready_choice BuildValues_choice [OF r] by blast
    from attach_writes [OF one(4) [OF x] this, of key] s show ?thesis by (auto simp: TransactionInsert_def y r str2key_BuildKeyName)
  qed
  show "writes V U {2} (w, x) (TransactionReadModifyWrite F R P (w, x))"
  proof (cases "NextTransactionKey F R w")
    case (Some y)
    obtain key w1 where y: "y = (key, w1)" by fastforce
    obtain fs w2 where r: "read_fields F R w1 = (fs, w2)" by fastforce
    note k = tx_ready_key [OF ready U Some [unfolded y]]
    then obtain kn where kn: "str2key key = Inr kn" by blast
    have t2: "tx_ready V U (w2, x)" using k tx_ready_choice read_fields_choice [OF r] by blast
    from one(1) [OF x kn] obtain t x1 where x1: "export_Read P key x = Inr (kOK, x1)" "appends x [t] x1" by (auto simp: one_call_def)
    obtain vs w3 where v: "update_values_for F R w2 = (vs, w3)" by fastforce
    have "x_inited x1" using appends_inited [OF x1(2)] x by simp
    with t2 have "tx_ready V U (w2, x1)" by (simp add: tx_ready_def)
    then have "tx_ready V U (w3, x1)" using tx_ready_choice update_values_choice [OF v] by blast
    from attach_writes [OF one(3) [OF \<open>x_inited x1\<close> kn] this, of w2] obtain s' ts where
      s': "attach w3 (export_Update P key x1) = Some (Inr (kOK, s'))" "tx_ready V U s'" "appends x1 ts (snd s')" "length ts = 1"
      by (auto simp: writes_def attach_def)
    from appends_trans [OF x1(2) s'(3)] s' show ?thesis
      by (auto simp: TransactionReadModifyWrite_def Some y r x1(1) v writes_def attach_def intro!: exI [of _ s'] exI [of _ "[t] @ ts"])
  qed (use tx_ready_stuck [OF ready U] in \<open>simp add: TransactionReadModifyWrite_def writes_def\<close>)
qed

text \<open>The outcome of \<open>n\<close> transactions: all are counted, and each writes one transaction, but for a read-modify-write.\<close>

definition tx_outcome :: "ycsb_op set \<Rightarrow> bool \<Rightarrow> 'd client \<Rightarrow> nat \<Rightarrow> 'a \<Rightarrow> ('a \<times> 'd client) run \<Rightarrow> bool" where
  "tx_outcome V U s n c r \<longleftrightarrow> r = None \<and> \<not> U \<or>
     (\<exists>s' ts. r = Some (Inr (c, s')) \<and> tx_ready V U s' \<and> appends (snd s) ts (snd s') \<and> n \<le> length ts \<and>
       (READMODIFYWRITE \<notin> V \<longrightarrow> length ts = n))"

lemma tx_outcome_cases [consumes 1, case_names stuck returns]:
  assumes "tx_outcome V U s n c r"
  obtains "r = None" "\<not> U"
  | s' ts where "r = Some (Inr (c, s'))" "tx_ready V U s'" "appends (snd s) ts (snd s')" "n \<le> length ts"
      "READMODIFYWRITE \<notin> V \<longrightarrow> length ts = n"
  using assms unfolding tx_outcome_def by (elim disjE conjE exE) blast+

lemma tx_outcomeI:
  "tx_ready V U s' \<Longrightarrow> appends (snd s) ts (snd s') \<Longrightarrow> n \<le> length ts \<Longrightarrow> (READMODIFYWRITE \<notin> V \<Longrightarrow> length ts = n) \<Longrightarrow>
   tx_outcome V U s n c (Some (Inr (c, s')))"
  unfolding tx_outcome_def by blast

lemma writes_outcome:
  assumes "writes V U N (w1, x) r" "N \<subseteq> {1..}" "READMODIFYWRITE \<notin> V \<longrightarrow> N = {1}"
  shows "tx_outcome V U (w, x) 1 True (and_then r (\<lambda>(status, s). Some (Inr (status = kOK, s))))"
proof (cases r)
  case None
  with assms(1) show ?thesis by (simp add: writes_def tx_outcome_def)
next
  case (Some y)
  with assms(1) obtain s' ts where r: "r = Some (Inr (kOK, s'))" "tx_ready V U s'" "appends x ts (snd s')" "length ts \<in> N"
    by (auto simp: writes_def)
  have "tx_outcome V U (w, x) 1 True (Some (Inr (True, s')))"
    by (rule tx_outcomeI [where ts = ts]) (use r assms(2,3) in auto)
  with r(1) show ?thesis by simp
qed

lemma DoTransaction_writes:
  assumes pad: "\<And>i. length (P i) = 7" and ready: "tx_ready V U s" and U: "U \<longrightarrow> uniform_draws R"
  shows "tx_outcome V U s 1 True (DoTransaction F R P s)"
proof -
  obtain w x where s: "s = (w, x)" by fastforce
  obtain opn w1 where n: "NextOperation F R w = (opn, w1)" by fastforce
  have w1: "tx_ready V U (w1, x)" "opn \<in> V"
    using n ready chooses_Next [of V "wl_op_chooser w"]
    by (auto simp: s tx_ready_def NextOperation_def uniform_keys_def Let_def split: prod.splits)
  note t = transactions_write [where P = P and F = F, OF pad w1(1) U]
  show ?thesis
  proof (cases opn)
    case INSERT
    with writes_outcome [OF t(4)] show ?thesis by (simp add: DoTransaction_def s n)
  next
    case READ
    with writes_outcome [OF t(1)] show ?thesis by (simp add: DoTransaction_def s n)
  next
    case UPDATE
    with writes_outcome [OF t(2)] show ?thesis by (simp add: DoTransaction_def s n)
  next
    case SCAN
    with writes_outcome [OF t(3)] show ?thesis by (simp add: DoTransaction_def s n)
  next
    case READMODIFYWRITE
    with writes_outcome [OF t(5)] w1(2) show ?thesis by (simp add: DoTransaction_def s n)
  qed
qed

lemma transaction_loop:
  assumes pad: "\<And>i. length (P i) = 7" and U: "U \<longrightarrow> uniform_draws R"
  shows "tx_ready V U s \<Longrightarrow> tx_outcome V U s n n (client_loop (DoTransaction F R P) n s)"
proof (induction n arbitrary: s)
  case 0
  then show ?case by (auto intro: tx_outcomeI appends_Nil)
next
  case (Suc n)
  from DoTransaction_writes [where P = P and F = F, OF pad Suc.prems U] show ?case
  proof (cases rule: tx_outcome_cases)
    case stuck
    then show ?thesis by (simp add: tx_outcome_def)
  next
    case (returns s1 ts)
    from Suc.IH [OF returns(2)] show ?thesis
    proof (cases rule: tx_outcome_cases)
      case stuck
      then show ?thesis by (simp add: returns(1) tx_outcome_def)
    next
      case r2: (returns s2 us)
      have "tx_outcome V U s (Suc n) (Suc n) (Some (Inr (Suc n, s2)))"
        by (rule tx_outcomeI [where ts = "ts @ us"]) (use returns r2 in \<open>auto intro: appends_trans\<close>)
      then show ?thesis by (simp add: returns(1) r2(1))
    qed
  qed
qed

section \<open>The loading phase\<close>

lemma load_step:
  assumes "wl_key_generator w = Counter_Generator c" "\<not> x_inited x"
  shows "\<exists>w'. DoInsert F R P (w, x) = Some (Inr (True, (w', write_bytes (le_bytes 8 (key_number w c)) x))) \<and>
    wl_key_generator w' = Counter_Generator (c + 1) \<and> same_choice w w'"
proof -
  obtain key w1 where y: "NextSequenceKey F R w = (key, w1)" by fastforce
  obtain kvs w2 where r: "BuildValues F R w1 = (kvs, w2)" by fastforce
  note s = NextSequenceKey_counter [OF assms(1) y]
  have "DoInsert F R P (w, x) = Some (Inr (True, (w2, write_bytes (le_bytes 8 (key_number w c)) x)))"
    using s assms(2) by (simp add: DoInsert_def TransactionInsert_def y r attach_def export_Insert_def str2key_BuildKeyName kOK_def)
  with s BuildValues_choice [OF r] show ?thesis by (auto intro: same_choice_trans)
qed

definition loaded_keys :: "'d workload \<Rightarrow> u64 \<Rightarrow> nat \<Rightarrow> u64 list" where
  "loaded_keys w c n = map (\<lambda>i. key_number w (c + of_nat i)) [0..<n]"

lemma loaded_keys_Suc: "loaded_keys w c (Suc n) = key_number w c # loaded_keys w (c + 1) n"
  by (simp add: loaded_keys_def upt_conv_Cons map_Suc_upt [symmetric] add.assoc del: upt_Suc)

lemma loaded_keys_choice: "same_choice w w' \<Longrightarrow> loaded_keys w' c n = loaded_keys w c n"
  by (simp add: loaded_keys_def key_number_def same_choice_def same_setup_def)

lemma load_loop:
  assumes "wl_key_generator w = Counter_Generator c" "\<not> x_inited x"
  shows "\<exists>w'. client_loop (DoInsert F R P) n (w, x) =
      Some (Inr (n, (w', write_bytes (concat (map (le_bytes 8) (loaded_keys w c n))) x))) \<and>
    wl_key_generator w' = Counter_Generator (c + of_nat n) \<and> same_choice w w'"
  using assms
proof (induction n arbitrary: w c x)
  case 0
  then show ?case by (simp add: loaded_keys_def write_bytes_def)
next
  case (Suc n)
  from load_step [OF Suc.prems] obtain w1 where
    w1: "DoInsert F R P (w, x) = Some (Inr (True, (w1, write_bytes (le_bytes 8 (key_number w c)) x)))"
      "wl_key_generator w1 = Counter_Generator (c + 1)" "same_choice w w1" by blast
  have "\<not> x_inited (write_bytes (le_bytes 8 (key_number w c)) x)" using Suc.prems(2) by (simp add: write_bytes_def)
  from Suc.IH [OF w1(2) this] obtain w2 where
    w2: "client_loop (DoInsert F R P) n (w1, write_bytes (le_bytes 8 (key_number w c)) x) =
      Some (Inr (n, (w2, write_bytes (concat (map (le_bytes 8) (loaded_keys w1 (c + 1) n))) (write_bytes (le_bytes 8 (key_number w c)) x))))"
      "wl_key_generator w2 = Counter_Generator (c + 1 + of_nat n)" "same_choice w1 w2" by blast
  show ?case using w1 w2 same_choice_trans [OF w1(3) w2(3)] loaded_keys_choice [OF w1(3)]
    by (simp add: loaded_keys_Suc write_bytes_def add.assoc)
qed

section \<open>One client\<close>

text \<open>What the initialisation sets up.\<close>

lemma workload_Init_setup:
  assumes "workload_Init F R p = Inr w"
    and "stoi (GetProperty p ''insertstart'' ''0'') = Inr s" "stoi (GetProperty p ''recordcount'' []) = Inr n"
    and "fp_stod F (GetProperty p ''readmodifywriteproportion'' ''0.0'') = Inr rmw"
  shows "wl_key_generator w = Counter_Generator (of_int s)"
    and "chooses (if fp_less F (fp_of_nat F 0) rmw then UNIV else UNIV - {READMODIFYWRITE}) (wl_op_chooser w)"
    and "GetProperty p ''requestdistribution'' ''uniform'' = ''uniform'' \<Longrightarrow> uniform_keys w"
proof -
  have add: "chooses V (add_op F v q g)" if "chooses V g" "fp_less F (fp_of_nat F 0) q \<longrightarrow> v \<in> V" for V v q g
    using that by (auto simp: add_op_def AddValue_def chooses_def Let_def)
  have make: "chooses V (make_discrete F v)" if "v \<in> V" for V and v :: ycsb_op
    using that by (simp add: chooses_def make_discrete_def)
  show "wl_key_generator w = Counter_Generator (of_int s)"
    using assms by (auto simp: workload_Init_def Let_def split: prod.splits)
  show "chooses (if fp_less F (fp_of_nat F 0) rmw then UNIV else UNIV - {READMODIFYWRITE}) (wl_op_chooser w)"
    using assms by (auto simp: workload_Init_def Let_def split: prod.splits intro!: add make)
  show "uniform_keys w" if "GetProperty p ''requestdistribution'' ''uniform'' = ''uniform''"
    using assms(1,3) that by (auto simp: workload_Init_def make_key_chooser_def make_uniform_def uniform_keys_def counter_Last_def
        Let_def split: prod.splits)
qed

lemma load_client:
  assumes "wl_key_generator w = Counter_Generator c"
  shows "\<exists>w'. DelegateClient F R P (int n) True (w, make_export a b d) =
      Some (Inr (n, (w', (make_export a b d)\<lparr>x_inited := True, x_file := file_bytes a b (loaded_keys w c n) []\<rparr>))) \<and>
    wl_key_generator w' = Counter_Generator (c + of_nat n) \<and> same_choice w w'"
proof -
  let ?x = "(make_export a b d)\<lparr>x_running := True, x_file := le_bytes 8 a @ le_bytes 8 b\<rparr>"
  have i: "export_Init (make_export a b d) = Inr ?x" by (simp add: export_Init_def make_export_def write_bytes_def)
  have "\<not> x_inited ?x" by (simp add: make_export_def)
  from load_loop [OF assms this, of F R P n] obtain w' where
    "client_loop (DoInsert F R P) n (w, ?x) = Some (Inr (n, (w', write_bytes (concat (map (le_bytes 8) (loaded_keys w c n))) ?x)))"
    "wl_key_generator w' = Counter_Generator (c + of_nat n)" "same_choice w w'" by blast
  then show ?thesis using i by (simp add: DelegateClient_def export_Close_def write_bytes_def file_bytes_def make_export_def)
qed

lemma transaction_client:
  assumes pad: "\<And>i. length (P i) = 7" and U: "U \<longrightarrow> uniform_draws R"
    and ready: "tx_ready V U (w, x)" and run: "\<not> x_running x"
  shows "DelegateClient F R P (int n) False (w, x) = None \<and> \<not> U \<or>
    (\<exists>w' ts. DelegateClient F R P (int n) False (w, x) =
        Some (Inr (n, (w', x\<lparr>x_file := x_file x @ concat (map (\<lambda>(pad, tx). tx_bytes pad tx) ts)\<rparr>))) \<and>
      list_all (\<lambda>(pad, tx). length pad = 7 \<and> known tx) ts \<and> n \<le> length ts \<and> (READMODIFYWRITE \<notin> V \<longrightarrow> length ts = n))"
proof -
  let ?x = "x\<lparr>x_running := True\<rparr>"
  have x: "x_inited x" using ready by (simp add: tx_ready_def)
  then have i: "export_Init x = Inr ?x" using run by (simp add: export_Init_def)
  have "tx_ready V U (w, ?x)" using ready by (simp add: tx_ready_def)
  from transaction_loop [where P = P and F = F and n = n, OF pad U this] show ?thesis
  proof (cases rule: tx_outcome_cases)
    case stuck
    then show ?thesis using i by (simp add: DelegateClient_def)
  next
    case (returns s' ts)
    obtain w' x' where s': "s' = (w', x')" by fastforce
    have x': "x' = write_bytes (concat (map (\<lambda>(pad, tx). tx_bytes pad tx) ts)) ?x"
      and ts: "list_all (\<lambda>(pad, tx). length pad = 7 \<and> known tx) ts" using returns(3) by (simp_all add: s' appends_def)
    have "export_Close x' = x\<lparr>x_file := x_file x @ concat (map (\<lambda>(pad, tx). tx_bytes pad tx) ts)\<rparr>"
      using x run by (simp add: x' export_Close_def write_bytes_def)
    then show ?thesis using i ts returns by (auto simp: DelegateClient_def s')
  qed
qed

section \<open>The properties\<close>

text \<open>The generator run with one thread, uniform keys and a complete specification.\<close>

definition one_client :: "'d fp \<Rightarrow> properties \<Rightarrow> nat \<Rightarrow> nat \<Rightarrow> int \<Rightarrow> bool \<Rightarrow> bool" where
  "one_client F p n m s rmw \<longleftrightarrow>
     p ''dbname'' = Some ''export'' \<and> p ''filename'' \<noteq> None \<and> n < 2 ^ 31 \<and> m < 2 ^ 31 \<and>
     p ''recordcount'' = Some (to_string n) \<and> p ''operationcount'' = Some (to_string m) \<and>
     stoi (GetProperty p ''threadcount'' ''1'') = Inr 1 \<and> stoi (GetProperty p ''insertstart'' ''0'') = Inr s \<and>
     GetProperty p ''requestdistribution'' ''uniform'' = ''uniform'' \<and>
     (\<exists>q. fp_stod F (GetProperty p ''readmodifywriteproportion'' ''0.0'') = Inr q \<and> rmw = fp_less F (fp_of_nat F 0) q)"

lemma one_client_numbers:
  assumes "one_client F p n m s rmw"
  shows "stoi (GetProperty p ''recordcount'' d) = Inr (int n)" "stoi (GetProperty p ''operationcount'' d) = Inr (int m)"
    "bind_result (at_property p ''recordcount'') stoi = Inr (int n)" "bind_result (at_property p ''operationcount'') stoi = Inr (int m)"
  using assms stoi_to_string [of n] stoi_to_string [of m] by (simp_all add: one_client_def GetProperty_def at_property_def)

lemma one_client_CreateDB:
  assumes "one_client F p n m s rmw"
  shows "CreateDB p = Inr (Some (make_export (of_nat n) (of_nat m) (GetProperty p ''updatedelete'' ''false'' = ''true'')))"
  using assms one_client_numbers [OF assms] by (auto simp: one_client_def CreateDB_def at_property_def)

lemma C_div_1 [simp]: "C_div a 1 = a"
  by (simp add: C_div_def sgn_mult_abs)

lemma one_client_file:
  assumes pad: "\<And>i. length (P i) = 7" and draws: "uniform_draws R"
    and w: "workload_Init F R p = Inr w" and p: "one_client F p n m s rmw"
  shows "\<exists>x ts. ycsb_main F R P p = Some (Inr (Some x)) \<and>
    x_file x = file_bytes (of_nat n) (of_nat m) (loaded_keys w (of_int s) n) ts \<and>
    list_all (\<lambda>(pad, tx). length pad = 7 \<and> known tx) ts \<and> m \<le> length ts \<and> (\<not> rmw \<longrightarrow> length ts = m)"
proof -
  from p obtain q where q: "fp_stod F (GetProperty p ''readmodifywriteproportion'' ''0.0'') = Inr q" "rmw = fp_less F (fp_of_nat F 0) q"
    and ins: "stoi (GetProperty p ''insertstart'' ''0'') = Inr s" and dist: "GetProperty p ''requestdistribution'' ''uniform'' = ''uniform''"
    and thr: "stoi (GetProperty p ''threadcount'' ''1'') = Inr 1" by (auto simp: one_client_def)
  note init = workload_Init_setup [OF w ins one_client_numbers(1) [OF p] q(1)]
  let ?x = "make_export (of_nat n) (of_nat m) (GetProperty p ''updatedelete'' ''false'' = ''true'')"
  from load_client [OF init(1), of F R P n "of_nat n" "of_nat m"] obtain w1 where
    w1: "DelegateClient F R P (int n) True (w, ?x) =
        Some (Inr (n, (w1, ?x\<lparr>x_inited := True, x_file := file_bytes (of_nat n) (of_nat m) (loaded_keys w (of_int s) n) []\<rparr>)))"
      "wl_key_generator w1 = Counter_Generator (of_int s + of_nat n)" "same_choice w w1" by blast
  let ?x1 = "?x\<lparr>x_inited := True, x_file := file_bytes (of_nat n) (of_nat m) (loaded_keys w (of_int s) n) []\<rparr>"
  let ?V = "if fp_less F (fp_of_nat F 0) q then UNIV else UNIV - {READMODIFYWRITE}"
  have ready: "tx_ready ?V True (w1, ?x1)"
    using init(2) init(3) [OF dist] w1(2,3) by (simp add: tx_ready_def same_choice_def uniform_keys_def same_setup_def)
  have "\<not> x_running ?x1" by (simp add: make_export_def)
  from transaction_client [where P = P and F = F and n = m, OF pad _ ready this] draws obtain w2 ts where
    "DelegateClient F R P (int m) False (w1, ?x1) =
        Some (Inr (m, (w2, ?x1\<lparr>x_file := x_file ?x1 @ concat (map (\<lambda>(pad, tx). tx_bytes pad tx) ts)\<rparr>)))"
      and ts: "list_all (\<lambda>(pad, tx). length pad = 7 \<and> known tx) ts" "m \<le> length ts" "READMODIFYWRITE \<notin> ?V \<longrightarrow> length ts = m" by blast
  with w1(1) have "ycsb_main F R P p = Some (Inr (Some (?x1\<lparr>x_file := x_file ?x1 @ concat (map (\<lambda>(pad, tx). tx_bytes pad tx) ts)\<rparr>)))"
    unfolding ycsb_main_def by (simp add: one_client_CreateDB [OF p] w thr one_client_numbers [OF p])
  moreover have "x_file ?x1 @ concat (map (\<lambda>(pad, tx). tx_bytes pad tx) ts) = file_bytes (of_nat n) (of_nat m) (loaded_keys w (of_int s) n) ts"
    by (simp add: file_bytes_def)
  moreover have "\<not> rmw \<longrightarrow> length ts = m" using ts(3) q(2) by simp
  ultimately show ?thesis using ts by auto
qed

lemma one_client_read:
  assumes "\<forall>i. length (P i) = 7" "uniform_draws R" "workload_Init F R p = Inr w" "one_client F p n m s rmw"
  shows "\<exists>x ts. ycsb_main F R P p = Some (Inr (Some x)) \<and>
    read_workload (x_file x) = Some (loaded_keys w (of_int s) n, map snd (take m ts)) \<and>
    m \<le> length ts \<and> list_all (known \<circ> snd) ts \<and> (\<not> rmw \<longrightarrow> length ts = m) \<and>
    x_file x = file_bytes (of_nat n) (of_nat m) (loaded_keys w (of_int s) n) ts"
proof -
  from one_client_file [of P R F p w n m s rmw] assms obtain x ts where
    x: "ycsb_main F R P p = Some (Inr (Some x))" "x_file x = file_bytes (of_nat n) (of_nat m) (loaded_keys w (of_int s) n) ts"
    and ts: "list_all (\<lambda>(pad, tx). length pad = 7 \<and> known tx) ts" "m \<le> length ts" "\<not> rmw \<longrightarrow> length ts = m" by blast
  have nm: "unat (of_nat n :: u64) = n" "unat (of_nat m :: u64) = m"
    using assms(4) by (auto simp: one_client_def unat_of_nat)
  from ts(1) have pads: "\<forall>t \<in> set ts. length (fst t) = 7" "list_all (known \<circ> snd) ts" by (auto simp: list_all_iff)
  have "unat (of_nat n :: u64) = length (loaded_keys w (of_int s) n)" "unat (of_nat m :: u64) \<le> length ts"
    using nm ts(2) by (simp_all add: loaded_keys_def)
  from read_workload_file [OF pads(1) this] x ts(2,3) pads(2) nm(2) show ?thesis by auto
qed

text \<open>C10. The file the generator writes reads back as what it generated: with one thread and uniformly drawn keys the run
  always returns, the driver reads the keys of the records in the order of the counter, one for each record,
  and as many transactions as announced, each of a kind the driver knows. Without read-modify-write operations the
  file holds nothing else; with them it may hold more transactions than the driver reads.
\<close>
theorem workload_file_roundtrip:
  assumes "\<forall>i. length (P i) = 7" "uniform_draws R" "workload_Init F R p = Inr w" "one_client F p n m s rmw"
  shows "\<exists>x ts. ycsb_main F R P p = Some (Inr (Some x)) \<and>
    read_workload (x_file x) = Some (loaded_keys w (of_int s) n, map snd (take m ts)) \<and>
    m \<le> length ts \<and> list_all (known \<circ> snd) ts \<and> (\<not> rmw \<longrightarrow> length ts = m) \<and>
    x_file x = file_bytes (of_nat n) (of_nat m) (loaded_keys w (of_int s) n) ts"
  by (rule one_client_read [OF assms])

text \<open>A small specification: two records, three operations that are inserts, one client.\<close>

definition sample_fp :: "nat fp" where
  "sample_fp = \<lparr>fp_add = (+), fp_sub = (-), fp_mul = (*), fp_div = (div), fp_pow = (\<lambda>x y. 1), fp_less = (<),
     fp_of_nat = id, fp_of_int = nat, fp_half = 0, fp_zipfian_const = 0, fp_to_u64 = of_nat, fp_to_int = int,
     fp_stod = (\<lambda>s. if s = ''1.0'' then Inr 1 else Inr 0)\<rparr>"

definition sample_rng :: "nat rng" where
  "sample_rng = \<lparr>pick = (\<lambda>i lo hi. lo), random_double = (\<lambda>i. 0), rand = (\<lambda>i. i)\<rparr>"

definition sample_spec :: properties where
  "sample_spec = [''dbname'' \<mapsto> ''export'', ''filename'' \<mapsto> ''a'', ''recordcount'' \<mapsto> ''2'', ''operationcount'' \<mapsto> ''3'',
     ''insertproportion'' \<mapsto> ''1.0'', ''insertorder'' \<mapsto> ''ordered'', ''fieldcount'' \<mapsto> ''1'', ''fieldlength'' \<mapsto> ''1'']"

lemma sample_one_client: "one_client sample_fp sample_spec 2 3 0 False"
proof -
  have "to_string 2 = ''2''" "to_string 3 = ''3''" by code_simp+
  moreover have "stoi ''1'' = Inr 1" "stoi ''0'' = Inr 0" by code_simp+
  ultimately show ?thesis by (simp add: one_client_def sample_spec_def GetProperty_def sample_fp_def)
qed

lemma sample_Init: "\<exists>w. workload_Init sample_fp sample_rng sample_spec = Inr w \<and> wl_ordered_inserts w"
proof -
  have "stoi ''1'' = Inr 1" "stoi ''0'' = Inr 0" "stoi ''2'' = Inr 2" "stoi ''1000'' = Inr 1000" by code_simp+
  moreover have "StrToBool ''true'' = Inr True" "StrToBool ''false'' = Inr False" by code_simp+
  ultimately show ?thesis
    by (simp add: workload_Init_def sample_spec_def GetProperty_def GetFieldLenGenerator_def make_key_chooser_def
        make_scan_len_chooser_def sample_fp_def Let_def)
qed

theorem workload_file_roundtrip_witness:
  "\<exists>x (ts :: (u8 list \<times> tx_context) list). ycsb_main sample_fp sample_rng (\<lambda>_. replicate 7 0) sample_spec = Some (Inr (Some x)) \<and>
    read_workload (x_file x) = Some ([0, 1], map snd ts) \<and> length ts = 3"
proof -
  obtain w where w: "workload_Init sample_fp sample_rng sample_spec = Inr w" "wl_ordered_inserts w" using sample_Init by blast
  have l: "loaded_keys w (of_int 0) 2 = [0, 1]" using w(2) by (simp add: loaded_keys_def key_number_def numeral_2_eq_2)
  define P :: "nat \<Rightarrow> u8 list" where "P = (\<lambda>_. replicate 7 0)"
  have "\<forall>i. length (P i) = 7" "uniform_draws sample_rng" by (simp_all add: P_def uniform_draws_def sample_rng_def)
  from workload_file_roundtrip [OF this w(1) sample_one_client] show ?thesis unfolding l P_def by auto
qed

end
