(* ===== verification/Query_Processor.thy ===== *)
theory Query_Processor
  imports Versions "HOL-Library.Multiset"
begin

text \<open>
  The query processor the backends share (\<^verbatim>\<open>db/include/query_processor.hpp\<close>): one queue filled by the
  client, and query threads that take queries from it and append the answers to result lists of
  their own. A step of a query thread runs up to its next access to shared state; the processing of
  a query is one step. How a query is answered is the backend's business: the function is a parameter that may wait, may
  crash, and may keep thread-local data. The locale states what a backend has to promise about it, and what
  clients of the query processor then get.
\<close>

record query_context =
  q_ver :: nat
  q_idx :: nat
  q_l :: u64
  q_r :: u64

record result_context =
  r_ver :: nat
  r_ret :: u64

datatype client_pc = C_unstarted | C_outer | C_inner | C_busy query_context | C_stopped

record 'c processor =
  num_queries :: nat
  queries :: "query_context list"
  results :: "nat \<Rightarrow> result_context list"
  working :: bool
  clients :: "nat \<Rightarrow> client_pc"
  locals :: "nat \<Rightarrow> 'c"

definition make_processor :: "'c \<Rightarrow> 'c processor" where
  "make_processor c = \<lparr>num_queries = 0, queries = [], results = (\<lambda>_. []), working = False,
     clients = (\<lambda>_. C_unstarted), locals = (\<lambda>_. c)\<rparr>"

definition Start :: "nat \<Rightarrow> 'c processor \<Rightarrow> 'c processor" where
  "Start N s = s\<lparr>working := True, clients := (\<lambda>i. if i \<in> {1..N} then C_outer else clients s i)\<rparr>"

text \<open>\<open>Stop\<close> clears the flag, and returns once every thread has ended.\<close>

definition Stop :: "'c processor \<Rightarrow> 'c processor" where
  "Stop s = s\<lparr>working := False\<rparr>"

definition stopped :: "nat \<Rightarrow> 'c processor \<Rightarrow> bool" where
  "stopped N s \<longleftrightarrow> list_all (\<lambda>i. clients s i = C_stopped) [1..<Suc N]"

text \<open>\<open>ok\<close> is the answer of \<^verbatim>\<open>enqueue\<close>, which fails when no memory is left.\<close>

definition Push :: "bool \<Rightarrow> nat \<Rightarrow> u64 \<Rightarrow> u64 \<Rightarrow> 'c processor \<Rightarrow> 'c processor \<times> int" where
  "Push ok ver l r s =
     (let n = num_queries s + 1
      in if ok then (s\<lparr>num_queries := n, queries := queries s @ [\<lparr>q_ver = ver, q_idx = n, q_l = l, q_r = r\<rparr>]\<rparr>, 0)
         else (s\<lparr>num_queries := n\<rparr>, - 1))"

text \<open>
  \<open>found\<close> tells whether \<^verbatim>\<open>try_dequeue_from_producer\<close> gets the element at the front of the queue: it may
  also come back empty-handed when other threads are dequeuing.
\<close>

definition process_step ::
  "('c \<Rightarrow> nat \<Rightarrow> u64 \<Rightarrow> u64 \<Rightarrow> ('c \<times> u64) outcome) \<Rightarrow> nat \<Rightarrow> bool \<Rightarrow> 'c processor \<Rightarrow> 'c processor outcome" where
  "process_step do_process i found s =
     (case clients s i of
        C_outer \<Rightarrow> Done (s\<lparr>clients := (clients s)(i := if working s then C_inner else C_stopped)\<rparr>)
      | C_inner \<Rightarrow>
          (case queries s of
             q # qs \<Rightarrow> if found then Done (s\<lparr>queries := qs, clients := (clients s)(i := C_busy q)\<rparr>)
                       else Done (s\<lparr>clients := (clients s)(i := C_outer)\<rparr>)
           | [] \<Rightarrow> Done (s\<lparr>clients := (clients s)(i := C_outer)\<rparr>))
      | C_busy q \<Rightarrow>
          bind_outcome (do_process (locals s i) (q_ver q) (q_l q) (q_r q)) (\<lambda>(c, x).
            Done (s\<lparr>results := (results s)(i := results s i @ [\<lparr>r_ver = q_idx q, r_ret = x\<rparr>]),
              clients := (clients s)(i := C_inner), locals := (locals s)(i := c)\<rparr>))
      | _ \<Rightarrow> Wait)"

section \<open>The database interface\<close>

text \<open>
  The calls the client makes (\<^verbatim>\<open>db/include/interface.hpp\<close>), and the events of a running database: the start of a
  call, with the answer the queue will give in case it is a query, the start of \<open>Close\<close>, the next step of the client inside the call it is in,
  or a step of a query thread. A step of the client runs up to and including its next access to memory that the query threads may access. The order of the
  list is the order in which the steps take effect.
\<close>

datatype call = Query u64 u64 | Insert u64 | Delete u64

datatype db_event = Call bool call | Close | Proceed | Client nat bool

fun run_db :: "(db_event \<Rightarrow> 's \<Rightarrow> 's outcome) \<Rightarrow> db_event list \<Rightarrow> 's \<Rightarrow> 's outcome" where
  "run_db step [] s = Done s"
| "run_db step (e # es) s = bind_outcome (step e s) (run_db step es)"

fun request_of :: "call \<Rightarrow> request" where
  "request_of (Query l r) = (OP_NONE, 0)"
| "request_of (Insert k) = (OP_INSERT, k)"
| "request_of (Delete k) = (OP_DELETE, k)"

fun requests :: "db_event list \<Rightarrow> request list" where
  "requests [] = []"
| "requests (Call ok c # es) = request_of c # requests es"
| "requests (e # es) = requests es"

text \<open>The queries in the queue's order, when each call makes a version, from version \<open>v\<close> and query number \<open>k\<close> on.\<close>

fun asked :: "nat \<Rightarrow> nat \<Rightarrow> db_event list \<Rightarrow> query_context list" where
  "asked v k [] = []"
| "asked v k (Call ok (Query l r) # es) =
     (if ok then [\<lparr>q_ver = v + 1, q_idx = k + 1, q_l = l, q_r = r\<rparr>] else []) @ asked (v + 1) (k + 1) es"
| "asked v k (Call ok c # es) = asked (v + 1) k es"
| "asked v k (e # es) = asked v k es"

lemma run_db_append: "run_db step (es @ fs) s = bind_outcome (run_db step es s) (run_db step fs)"
proof (induction es arbitrary: s)
  case (Cons e es)
  then show ?case by (cases "step e s") simp_all
qed simp

lemma requests_append [simp]: "requests (es @ fs) = requests es @ requests fs"
  by (induction es rule: requests.induct) auto

fun query_count :: "db_event list \<Rightarrow> nat" where
  "query_count [] = 0"
| "query_count (Call ok (Query l r) # es) = Suc (query_count es)"
| "query_count (e # es) = query_count es"

lemma query_count_append [simp]: "query_count (es @ fs) = query_count es + query_count fs"
  by (induction es rule: query_count.induct) auto

lemma asked_append: "asked v k (es @ fs) = asked v k es @ asked (v + length (requests es)) (k + query_count es) fs"
  by (induction v k es rule: asked.induct) (auto simp: ac_simps)

section \<open>No query is lost, none is answered twice\<close>

fun busy :: "client_pc \<Rightarrow> query_context list" where
  "busy (C_busy q) = [q]"
| "busy _ = []"

definition in_hand :: "nat \<Rightarrow> 'c processor \<Rightarrow> query_context multiset" where
  "in_hand N s = mset (queries s) + (\<Sum>i \<in> {1..N}. mset (busy (clients s i)))"

definition answered :: "nat \<Rightarrow> 'c processor \<Rightarrow> nat multiset" where
  "answered N s = (\<Sum>i \<in> {1..N}. mset (map r_ver (results s i)))"

text \<open>
  The invariant, for the list of queries that went into the queue: their numbers are distinct, each
  is still in the queue, in the hands of one thread or answered, once; and all answers are right.
\<close>

definition processor_inv ::
  "nat \<Rightarrow> (query_context \<Rightarrow> u64 \<Rightarrow> bool) \<Rightarrow> query_context list \<Rightarrow> 'c processor \<Rightarrow> bool" where
  "processor_inv N right pushed s \<longleftrightarrow>
     distinct (map q_idx pushed) \<and> (\<forall>q \<in> set pushed. q_idx q \<le> num_queries s) \<and>
     set_mset (in_hand N s) \<subseteq> set pushed \<and>
     mset (map q_idx pushed) = image_mset q_idx (in_hand N s) + answered N s \<and>
     (\<forall>i \<in> {1..N}. \<forall>x \<in> set (results s i). \<exists>q \<in> set pushed. r_ver x = q_idx q \<and> right q (r_ret x))"

lemma sum_upd:
  fixes f :: "'a \<Rightarrow> 'b multiset"
  assumes "i \<in> {1..N::nat}"
  shows "(\<Sum>j \<in> {1..N}. f ((g(i := x)) j)) + f (g i) = (\<Sum>j \<in> {1..N}. f (g j)) + f x"
proof -
  have "(\<Sum>j \<in> {1..N} - {i}. f ((g(i := x)) j)) = (\<Sum>j \<in> {1..N} - {i}. f (g j))" by (rule sum.cong) auto
  with assms show ?thesis
    by (subst (1 2) sum.remove [of "{1..N}" i]) (simp_all add: ac_simps)
qed

lemma sum_upd_same:
  fixes f :: "'a \<Rightarrow> 'b multiset"
  assumes "i \<in> {1..N::nat}" "f x = f (g i)"
  shows "(\<Sum>j \<in> {1..N}. f ((g(i := x)) j)) = (\<Sum>j \<in> {1..N}. f (g j))"
  using sum_upd [OF assms(1), of f g x] assms(2) by simp

lemma busy_in_hand: "i \<in> {1..N} \<Longrightarrow> clients s i = C_busy q \<Longrightarrow> q \<in># in_hand N s"
  unfolding in_hand_def by (subst sum.remove [of _ i]) auto

lemma processor_inv_init: "processor_inv N right [] (Start N (make_processor c))"
proof -
  have "(\<Sum>i \<in> {1..N}. mset (busy (if 1 \<le> i \<and> i \<le> N then C_outer else C_unstarted))) = {#}"
    by (rule sum.neutral) auto
  then show ?thesis by (simp add: processor_inv_def Start_def make_processor_def in_hand_def answered_def)
qed

lemma processor_inv_push:
  assumes "processor_inv N right pushed s" "Push ok ver l r s = (s', ret)"
  shows "processor_inv N right (pushed @ (if ok then [\<lparr>q_ver = ver, q_idx = num_queries s + 1, q_l = l, q_r = r\<rparr>] else [])) s'"
proof -
  have s': "in_hand N s' = in_hand N s + mset (if ok then [\<lparr>q_ver = ver, q_idx = num_queries s + 1, q_l = l, q_r = r\<rparr>] else [])"
    "answered N s' = answered N s" "results s' = results s" "num_queries s' = num_queries s + 1"
    using assms(2) by (auto simp: Push_def Let_def in_hand_def answered_def split: if_splits)
  have new: "num_queries s + 1 \<notin> q_idx ` set pushed" using assms(1) by (fastforce simp: processor_inv_def)
  show ?thesis using assms(1) new unfolding processor_inv_def s' by (auto 0 3 simp: image_iff)
qed

lemma processor_inv_mono:
  assumes "processor_inv N right pushed s" "\<And>q x. q \<in> set pushed \<Longrightarrow> right q x \<Longrightarrow> right' q x"
  shows "processor_inv N right' pushed s"
  using assms unfolding processor_inv_def by blast

lemma processor_inv_Stop: "processor_inv N right pushed (Stop s) = processor_inv N right pushed s"
  by (simp add: processor_inv_def Stop_def in_hand_def answered_def)

lemma process_step_cases:
  assumes "process_step do_process i found s = Done s'"
  obtains (move) pc where "s' = s\<lparr>clients := (clients s)(i := pc)\<rparr>" "busy (clients s i) = []" "busy pc = []"
  | (take) q qs where "s' = s\<lparr>queries := qs, clients := (clients s)(i := C_busy q)\<rparr>" "queries s = q # qs"
      "busy (clients s i) = []"
  | (answer) q c x where "clients s i = C_busy q" "do_process (locals s i) (q_ver q) (q_l q) (q_r q) = Done (c, x)"
      "s' = s\<lparr>results := (results s)(i := results s i @ [\<lparr>r_ver = q_idx q, r_ret = x\<rparr>]),
         clients := (clients s)(i := C_inner), locals := (locals s)(i := c)\<rparr>"
  using assms unfolding process_step_def
  by (auto split: client_pc.splits list.splits if_splits prod.splits)

lemma processor_inv_step:
  assumes "processor_inv N right pushed s" "i \<in> {1..N}" "process_step do_process i found s = Done s'"
    and "\<And>q c x. q \<in> set pushed \<Longrightarrow> do_process (locals s i) (q_ver q) (q_l q) (q_r q) = Done (c, x) \<Longrightarrow> right q x"
  shows "processor_inv N right pushed s'"
  using assms(3)
proof (cases rule: process_step_cases)
  case (move pc)
  have "in_hand N s' = in_hand N s" "answered N s' = answered N s"
    using sum_upd_same [OF assms(2), of "\<lambda>p. mset (busy p)" pc "clients s"] move by (simp_all add: in_hand_def answered_def)
  with assms(1) move show ?thesis by (simp add: processor_inv_def)
next
  case (take q qs)
  have "in_hand N s' = in_hand N s" "answered N s' = answered N s"
    using sum_upd [OF assms(2), of "\<lambda>p. mset (busy p)" "clients s" "C_busy q"] take by (simp_all add: in_hand_def answered_def)
  with assms(1) take show ?thesis by (simp add: processor_inv_def)
next
  case (answer q c x)
  have h: "in_hand N s = add_mset q (in_hand N s')"
    using sum_upd [OF assms(2), of "\<lambda>p. mset (busy p)" "clients s" C_inner] answer by (simp add: in_hand_def)
  have a: "answered N s' = add_mset (q_idx q) (answered N s)"
    using sum_upd [OF assms(2), of "\<lambda>rs. mset (map r_ver rs)" "results s" "results s i @ [\<lparr>r_ver = q_idx q, r_ret = x\<rparr>]"] answer
    by (simp add: answered_def)
  have q: "q \<in> set pushed" using assms(1) h by (auto simp: processor_inv_def)
  with assms(4) answer(2) have "right q x" by blast
  with q assms(1) h a answer(3) show ?thesis by (auto simp: processor_inv_def)
qed

text \<open>Queries are numbered by the client, and a query thread crashes in the backend's answer only.\<close>

lemma num_queries_step: "process_step f i found p = Done p' \<Longrightarrow> num_queries p' = num_queries p"
  by (erule process_step_cases) simp_all

lemma process_step_crash:
  "process_step f i found p = Crash \<Longrightarrow> \<exists>q. clients p i = C_busy q \<and> f (locals p i) (q_ver q) (q_l q) (q_r q) = Crash"
  by (auto simp: process_step_def bind_outcome_eq_Crash split: client_pc.splits list.splits if_splits)

section \<open>The contract of a backend\<close>

text \<open>
  \<open>update\<close> is what the client and its helper threads may do to the state of the backend between two
  steps of a query thread; \<open>exact\<close> says which answer a query of a version deserves.
\<close>

locale query_backend =
  fixes do_process :: "'s \<Rightarrow> 'c \<Rightarrow> nat \<Rightarrow> u64 \<Rightarrow> u64 \<Rightarrow> ('c \<times> u64) outcome"
    and inv :: "'s \<Rightarrow> bool"
    and cursor_ok :: "'s \<Rightarrow> 'c \<Rightarrow> bool"
    and update :: "'s \<Rightarrow> 's \<Rightarrow> bool"
    and issued :: "'s \<Rightarrow> nat"
    and exact :: "'s \<Rightarrow> nat \<Rightarrow> u64 \<Rightarrow> u64 \<Rightarrow> u64 \<Rightarrow> bool"
  assumes process_exact: "inv s \<Longrightarrow> cursor_ok s c \<Longrightarrow> ver \<le> issued s \<Longrightarrow> do_process s c ver l r = Done (c', x) \<Longrightarrow>
      cursor_ok s c' \<and> exact s ver l r x"
    and update_inv: "inv s \<Longrightarrow> update s s' \<Longrightarrow> inv s' \<and> issued s \<le> issued s'"
    and update_cursor: "inv s \<Longrightarrow> update s s' \<Longrightarrow> cursor_ok s c \<Longrightarrow> cursor_ok s' c"
    and update_exact: "inv s \<Longrightarrow> update s s' \<Longrightarrow> ver \<le> issued s \<Longrightarrow> exact s ver l r x \<Longrightarrow> exact s' ver l r x"
begin

definition served :: "nat \<Rightarrow> query_context list \<Rightarrow> 's \<Rightarrow> 'c processor \<Rightarrow> bool" where
  "served N pushed s p \<longleftrightarrow> inv s \<and> (\<forall>q \<in> set pushed. q_ver q \<le> issued s) \<and>
     (\<forall>i \<in> {1..N}. cursor_ok s (locals p i)) \<and>
     processor_inv N (\<lambda>q. exact s (q_ver q) (q_l q) (q_r q)) pushed p"

lemma served_init: "inv s \<Longrightarrow> cursor_ok s c \<Longrightarrow> served N [] s (Start N (make_processor c))"
  using processor_inv_init [of N _ c] by (simp add: served_def) (simp add: Start_def make_processor_def)

lemma served_update:
  assumes "served N pushed s p" "update s s'"
  shows "served N pushed s' p"
proof -
  note sv = assms(1) [unfolded served_def]
  have "processor_inv N (\<lambda>q. exact s' (q_ver q) (q_l q) (q_r q)) pushed p"
    using sv update_exact [OF _ assms(2)] by (blast intro: processor_inv_mono)
  then show ?thesis
    using sv update_inv [OF _ assms(2)] update_cursor [OF _ assms(2)] unfolding served_def by (meson order_trans)
qed

lemma served_step:
  assumes "served N pushed s p" "i \<in> {1..N}" "process_step (do_process s) i found p = Done p'"
  shows "served N pushed s p'"
proof -
  note sv = assms(1) [unfolded served_def]
  have ok: "cursor_ok s c' \<and> exact s (q_ver q) (q_l q) (q_r q) x"
    if "q \<in> set pushed" "do_process s (locals p i) (q_ver q) (q_l q) (q_r q) = Done (c', x)" for q c' x
    using process_exact [OF _ _ _ that(2)] that(1) sv assms(2) by blast
  have "processor_inv N (\<lambda>q. exact s (q_ver q) (q_l q) (q_r q)) pushed p'"
    using sv processor_inv_step [OF _ assms(2,3)] ok by blast
  moreover have "cursor_ok s (locals p' j)" if "j \<in> {1..N}" for j
    using assms(3)
  proof (cases rule: process_step_cases)
    case (answer q c x)
    then have "q \<in> set pushed" using sv busy_in_hand [OF assms(2) answer(1)] by (auto simp: processor_inv_def)
    then show ?thesis using answer ok sv that by auto
  qed (use sv that in simp_all)
  ultimately show ?thesis using sv by (simp add: served_def)
qed

lemma served_push:
  assumes "served N pushed s p" "Push ok ver l r p = (p', ret)" "ver \<le> issued s"
  shows "served N (pushed @ (if ok then [\<lparr>q_ver = ver, q_idx = num_queries p + 1, q_l = l, q_r = r\<rparr>] else [])) s p'"
proof -
  have "locals p' = locals p" using assms(2) by (auto simp: Push_def Let_def split: if_splits)
  with assms processor_inv_push [OF _ assms(2)] show ?thesis by (auto simp: served_def)
qed

lemma served_Stop: "served N pushed s (Stop p) = served N pushed s p"
  by (simp add: served_def processor_inv_Stop) (simp add: Stop_def)

lemma served_results:
  assumes "served N pushed s p" "i \<in> {1..N}" "x \<in> set (results p i)"
  shows "\<exists>q \<in> set pushed. r_ver x = q_idx q \<and> exact s (q_ver q) (q_l q) (q_r q) (r_ret x)"
  using assms unfolding served_def processor_inv_def by blast

end

end
