(* ===== verification/Treap_Heap_Query.thy ===== *)
theory Treap_Heap_Query
  imports Treap_Heap
begin

text \<open>
  The queries of \<^verbatim>\<open>lib/treap/query.hpp\<close> on the node heap, and the condition under which they are
  exact: all cached sums below the pointer have been filled in. \<open>augment\<close> establishes it, provided
  that below a node whose sum is filled in all sums are; insertion and deletion keep that.
\<close>

section \<open>Reading through pointers\<close>

partial_function (option) find_at :: "heap \<Rightarrow> ptr \<Rightarrow> u64 \<Rightarrow> ptr option" where
  "find_at H t key =
     (if t = None then Some None
      else do {
        c \<leftarrow> deref H t;
        if key = n_key c then Some t
        else if key < n_key c then find_at H (n_lch c) key
        else find_at H (n_rch c) key })"

partial_function (option) range_cover_at :: "heap \<Rightarrow> ptr \<Rightarrow> u64 \<Rightarrow> u64 \<Rightarrow> range_cover \<Rightarrow> u64 option" where
  "range_cover_at H t l r d =
     (if t = None then Some 0
      else do {
        c \<leftarrow> deref H t;
        case d of
          OPEN_OPEN \<Rightarrow>
            if r < n_key c then range_cover_at H (n_lch c) l r d
            else if l > n_key c then range_cover_at H (n_rch c) l r d
            else do {
              ret_l \<leftarrow> range_cover_at H (n_lch c) l r OPEN_CLOSE;
              ret_r \<leftarrow> range_cover_at H (n_rch c) l r CLOSE_OPEN;
              Some (ret_l + n_val c + ret_r) }
        | OPEN_CLOSE \<Rightarrow>
            if l > n_key c then range_cover_at H (n_rch c) l r d
            else do {
              ret_l \<leftarrow> range_cover_at H (n_lch c) l r d;
              ret_r \<leftarrow> range_cover_at H (n_rch c) l r CLOSE_CLOSE;
              Some (ret_l + n_val c + ret_r) }
        | CLOSE_OPEN \<Rightarrow>
            if r < n_key c then range_cover_at H (n_lch c) l r d
            else do {
              ret_l \<leftarrow> range_cover_at H (n_lch c) l r CLOSE_CLOSE;
              ret_r \<leftarrow> range_cover_at H (n_rch c) l r d;
              Some (ret_l + n_val c + ret_r) }
        | CLOSE_CLOSE \<Rightarrow> Some (n_aug c) })"

definition range_estimate_at :: "heap \<Rightarrow> ptr \<Rightarrow> u64 \<Rightarrow> u64 \<Rightarrow> u64 option" where
  "range_estimate_at H t l r = range_cover_at H t l r OPEN_OPEN"

text \<open>What the query processors of both treap backends do with a root: a point query reads through the
  result of \<open>find\<close>, so it fails on an absent key.\<close>

definition query_at :: "heap \<Rightarrow> ptr \<Rightarrow> u64 \<Rightarrow> u64 \<Rightarrow> u64 option" where
  "query_at H t l r =
     (if l = r then do {
        p \<leftarrow> find_at H t l;
        c \<leftarrow> deref H p;
        Some (n_val c) }
      else range_estimate_at H t l r)"

section \<open>Filled-in sums\<close>

primrec filled :: "heap \<Rightarrow> ptr \<Rightarrow> tree \<Rightarrow> bool" where
  "filled H p Null = True"
| "filled H p (Node v pr k x a l r) =
     (case deref H p of None \<Rightarrow> False
      | Some c \<Rightarrow> n_aug c = tree_sum l + x + tree_sum r \<and> filled H (n_lch c) l \<and> filled H (n_rch c) r)"

definition sums_below :: "heap \<Rightarrow> (nat \<rightharpoonup> tree) \<Rightarrow> bool" where
  "sums_below H S \<longleftrightarrow> (\<forall>b T c. S b = Some T \<longrightarrow> cells H b = Some c \<longrightarrow> n_aug c = 0 \<or> filled H (Some b) T)"

text \<open>The only change: some sums that were absent are now right.\<close>

definition sums_grow :: "(nat \<rightharpoonup> tree) \<Rightarrow> heap \<Rightarrow> heap \<Rightarrow> bool" where
  "sums_grow S H H' \<longleftrightarrow> modulo_aug H H' \<and> (\<forall>b. S b = None \<longrightarrow> cells H' b = cells H b) \<and>
     (\<forall>b T c. S b = Some T \<longrightarrow> cells H b = Some c \<longrightarrow> cells H' b = Some c \<or> cells H' b = Some (c\<lparr>n_aug := tree_sum T\<rparr>))"

lemma sums_grow_refl: "sums_grow S H H"
  by (simp add: sums_grow_def modulo_aug_refl)

lemma sums_grow_trans:
  assumes "sums_grow S H H1" "sums_grow S H1 H2"
  shows "sums_grow S H H2"
proof -
  have "cells H2 b = Some c \<or> cells H2 b = Some (c\<lparr>n_aug := tree_sum T\<rparr>)" if "S b = Some T" "cells H b = Some c" for b T c
  proof -
    from assms(1) that obtain c1 where c1: "cells H1 b = Some c1" "c1 = c \<or> c1 = c\<lparr>n_aug := tree_sum T\<rparr>"
      unfolding sums_grow_def by blast
    from assms(2) that(1) c1(1) have "cells H2 b = Some c1 \<or> cells H2 b = Some (c1\<lparr>n_aug := tree_sum T\<rparr>)"
      unfolding sums_grow_def by blast
    with c1(2) show ?thesis by auto
  qed
  with assms show ?thesis unfolding sums_grow_def by (simp add: modulo_aug_trans [of H H1 H2])
qed

lemma filled_mono:
  assumes "frozen H S" "sums_grow S H H'"
  shows "points S p T \<Longrightarrow> filled H p T \<Longrightarrow> filled H' p T"
proof (induction T arbitrary: p)
  case (Node v pr k x a l r)
  let ?T = "Node v pr k x a l r"
  from frozen_points_Node [OF assms(1) Node.prems(1)] obtain b c where p: "p = Some b" "cells H b = Some c" "S b = Some ?T"
    and sub: "points S (n_lch c) l" "points S (n_rch c) r" by metis
  from assms(2) p obtain c' where c': "cells H' b = Some c'" "c' = c \<or> c' = c\<lparr>n_aug := tree_sum ?T\<rparr>"
    unfolding sums_grow_def by blast
  have "n_aug c = tree_sum ?T" "filled H (n_lch c) l" "filled H (n_rch c) r"
    using Node.prems(2) p by (simp_all add: deref_def)
  with Node.IH sub c' p show ?case by (auto simp: deref_def)
qed simp

lemma sums_below_augs_ok: "sums_below H S \<Longrightarrow> frozen H S \<Longrightarrow> augs_ok H S"
  unfolding augs_ok_def sums_below_def
proof (intro allI impI)
  fix b T c assume "S b = Some T" "cells H b = Some c" "frozen H S"
    and "\<forall>b T c. S b = Some T \<longrightarrow> cells H b = Some c \<longrightarrow> n_aug c = 0 \<or> filled H (Some b) T"
  then show "n_aug c = 0 \<or> n_aug c = tree_sum T" by (cases T) (fastforce simp: deref_def dest: frozen_Null)+
qed

lemma augment_at_fills:
  "frozen H S \<Longrightarrow> sums_below H S \<Longrightarrow> points S p T \<Longrightarrow>
   \<exists>H'. augment_at H p = Some (H', tree_sum T) \<and> sums_grow S H H' \<and> sums_below H' S \<and> filled H' p T"
proof (induction T arbitrary: H p)
  case Null
  then have "p = None" by (auto dest: frozen_points_Null)
  with Null show ?case by (simp add: augment_at.simps sums_grow_refl)
next
  case (Node v pr k x a l r)
  let ?T = "Node v pr k x a l r"
  obtain b c where p: "p = Some b" "cells H b = Some c" "n_val c = x" "S b = Some ?T"
    and lr: "points S (n_lch c) l" "points S (n_rch c) r"
    using frozen_points_Node [OF Node.prems(1,3)] by metis
  show ?case
  proof (cases "n_aug c = 0")
    case False
    then have "filled H (Some b) ?T" using p(2,4) Node.prems(2) unfolding sums_below_def by blast
    with False p Node.prems(2) show ?thesis
      by (auto simp: augment_at.simps deref_def sums_grow_refl)
  next
    case True
    from Node.IH(1) [OF Node.prems(1,2) lr(1)] obtain H1 where H1: "augment_at H (n_lch c) = Some (H1, tree_sum l)"
      "sums_grow S H H1" "sums_below H1 S" "filled H1 (n_lch c) l" by blast
    have f1: "frozen H1 S" using frozen_modulo_aug [OF Node.prems(1)] H1(2) by (simp add: sums_grow_def)
    from Node.IH(2) [OF f1 H1(3) lr(2)] obtain H2 where H2: "augment_at H1 (n_rch c) = Some (H2, tree_sum r)"
      "sums_grow S H1 H2" "sums_below H2 S" "filled H2 (n_rch c) r" by blast
    have f2: "frozen H2 S" using frozen_modulo_aug [OF f1] H2(2) by (simp add: sums_grow_def)
    let ?H = "set_aug_at H2 b (tree_sum ?T)"
    from sums_grow_trans [OF H1(2) H2(2)] p(2,4) obtain c2 where c2: "cells H2 b = Some c2" "n_lch c2 = n_lch c" "n_rch c2 = n_rch c"
      unfolding sums_grow_def by (metis node_t.select_convs node_t.surjective node_t.update_convs(5))
    have g: "sums_grow S H2 ?H"
      using c2 p(4) by (auto simp: sums_grow_def set_field_put(4) modulo_aug_def)
    have fl: "filled ?H (Some b) ?T"
      using filled_mono [OF f2 g lr(1) filled_mono [OF f1 H2(2) lr(1) H1(4)]] filled_mono [OF f2 g lr(2) H2(4)] c2
      by (simp add: deref_def set_field_put(4))
    have "sums_below ?H S"
      unfolding sums_below_def
    proof (intro allI impI)
      fix d U e assume d: "S d = Some U" "cells ?H d = Some e"
      show "n_aug e = 0 \<or> filled ?H (Some d) U"
      proof (cases "d = b")
        case False
        then have "cells H2 d = Some e" using d(2) c2 by (simp add: set_field_put(4))
        then show ?thesis using H2(3) d(1) filled_mono [OF f2 g, of "Some d" U] unfolding sums_below_def by auto
      qed (use d p(4) fl in simp)
    qed
    moreover have "augment_at H p = Some (?H, tree_sum ?T)"
      using True p H1(1) H2(1) by (subst augment_at.simps) (simp add: deref_def)
    moreover have "sums_grow S H ?H" using sums_grow_trans [OF sums_grow_trans [OF H1(2) H2(2)] g] .
    ultimately show ?thesis using p(1) fl by blast
  qed
qed

section \<open>Updates keep the sums\<close>

lemma filled_grows:
  assumes "frozen H S" "\<And>b. b < brk H \<Longrightarrow> cells H' b = cells H b"
  shows "points S p T \<Longrightarrow> filled H' p T = filled H p T"
proof (induction T arbitrary: p)
  case (Node v pr k x a l r)
  from frozen_points_Node [OF assms(1) Node.prems(1)] obtain b c where p: "p = Some b" "b < brk H" "cells H b = Some c"
    and sub: "points S (n_lch c) l" "points S (n_rch c) r" by metis
  then have "cells H' b = Some c" using assms(2) by simp
  with p sub Node.IH show ?case by (simp add: deref_def)
qed simp

text \<open>Every node an operation allocates starts without a sum, and no operation but \<open>augment\<close> writes one.\<close>

definition unsummed_from :: "nat \<Rightarrow> heap \<Rightarrow> bool" where
  "unsummed_from n H \<longleftrightarrow> (\<forall>b c. n \<le> b \<longrightarrow> cells H b = Some c \<longrightarrow> n_aug c = 0)"

lemma unsummed_from_writes [simp]:
  "unsummed_from n H \<Longrightarrow> unsummed_from n (set_lch H b q)" "unsummed_from n H \<Longrightarrow> unsummed_from n (set_rch H b q)"
  "unsummed_from n H \<Longrightarrow> unsummed_from n (set_val_at H b x)"
  by (auto simp: unsummed_from_def set_lch_def set_rch_def set_val_at_def)

lemma unsummed_from_alloc [simp]:
  "weak_copy H c ver = (H', b) \<Longrightarrow> unsummed_from n H \<Longrightarrow> unsummed_from n H'"
  "new_node H ver pry key = (H', b) \<Longrightarrow> unsummed_from n H \<Longrightarrow> unsummed_from n H'"
  by (auto simp: unsummed_from_def weak_copy_def new_node_def alloc_def split: if_splits)

lemma unsummed_split_copy_at:
  "split_copy_at ver H t key = Some y \<Longrightarrow> unsummed_from n H \<longrightarrow> unsummed_from n (fst y)"
  by (rule split_copy_at.raw_induct [of "\<lambda>ver H t key y. unsummed_from n H \<longrightarrow> unsummed_from n (fst y)"])
    (fastforce split: if_splits bind_splits prod.splits)

lemma unsummed_process_deploy_at:
  "process_deploy_at ver H t pry key = Some y \<Longrightarrow> unsummed_from n H \<longrightarrow> unsummed_from n (fst y)"
  by (auto simp: process_deploy_at_def split: bind_splits prod.splits dest!: unsummed_split_copy_at [of _ _ _ _ _ n])

lemma unsummed_search_insert_at:
  "search_insert_at ver H t pry key = Some y \<Longrightarrow> unsummed_from n H \<longrightarrow> unsummed_from n (fst y)"
  by (rule search_insert_at.raw_induct [of "\<lambda>ver H t pry key y. unsummed_from n H \<longrightarrow> unsummed_from n (fst y)"])
    (fastforce split: if_splits bind_splits prod.splits dest: unsummed_process_deploy_at [of _ _ _ _ _ _ n])

lemma unsummed_process_concat_at:
  "process_concat_at ver H t_l t_r = Some y \<Longrightarrow> unsummed_from n H \<longrightarrow> unsummed_from n (fst y)"
  by (rule process_concat_at.raw_induct [of "\<lambda>ver H t_l t_r y. unsummed_from n H \<longrightarrow> unsummed_from n (fst y)"])
    (fastforce split: if_splits bind_splits prod.splits)

lemma unsummed_search_delete_at:
  "search_delete_at ver H t pry key = Some y \<Longrightarrow> unsummed_from n H \<longrightarrow> unsummed_from n (fst y)"
  by (rule search_delete_at.raw_induct [of "\<lambda>ver H t pry key y. unsummed_from n H \<longrightarrow> unsummed_from n (fst y)"])
    (fastforce split: if_splits bind_splits prod.splits dest: unsummed_process_concat_at [of _ _ _ _ _ n])

lemma sums_below_grows:
  assumes "frozen H S" "sums_below H S" "grows H S H' S'" "\<And>b T c. brk H \<le> b \<Longrightarrow> S' b = Some T \<Longrightarrow> cells H' b = Some c \<Longrightarrow> n_aug c = 0 \<or> filled H' (Some b) T"
  shows "sums_below H' S'"
  unfolding sums_below_def
proof (intro allI impI)
  fix b T c assume b: "S' b = Some T" "cells H' b = Some c"
  show "n_aug c = 0 \<or> filled H' (Some b) T"
  proof (cases "b < brk H")
    case True
    then have "b \<in> dom S" using b(1) assms(3) by (auto simp: grows_def)
    then have S: "S b = Some T" using b(1) assms(3) by (auto simp: grows_def map_le_def)
    have "cells H b = Some c" using grows_keeps [OF assms(3) True] b(2) by simp
    then have "n_aug c = 0 \<or> filled H (Some b) T" using assms(2) S by (simp add: sums_below_def)
    then show ?thesis using filled_grows [OF assms(1) grows_keeps [OF assms(3)], of "Some b" T] S by simp
  next
    case False
    then show ?thesis using assms(4) b by simp
  qed
qed

lemma sums_below_unsummed:
  assumes "frozen H S" "sums_below H S" "grows H S H' S'" "unsummed_from (brk H) H'"
  shows "sums_below H' S'"
  using sums_below_grows [OF assms(1-3)] assms(4) unfolding unsummed_from_def by blast

section \<open>Queries are exact\<close>

primrec with_sums :: "tree \<Rightarrow> tree" where
  "with_sums Null = Null"
| "with_sums (Node v p k x a l r) = Node v p k x (tree_sum l + x + tree_sum r) (with_sums l) (with_sums r)"

lemma erase_with_sums: "erase_aug (with_sums T) = erase_aug T"
  by (induction T) auto

lemmas with_sums_contents = erase_aug_contents [OF erase_with_sums]

lemma summed_with_sums: "summed (with_sums T)"
  by (induction T) (auto simp: with_sums_contents)

lemma find_at_correct:
  assumes "frozen H S"
  shows "points S p T \<Longrightarrow> \<exists>q. find_at H p key = Some q \<and> points S q (find T key)"
proof (induction T arbitrary: p)
  case Null
  then have "p = None" by (auto dest: frozen_points_Null [OF assms])
  then show ?case by (simp add: find_at.simps)
next
  case (Node v pr k x a l r)
  from frozen_points_Node [OF assms Node.prems] obtain b c where p: "p = Some b" "cells H b = Some c" "n_key c = k"
    and sub: "points S (n_lch c) l" "points S (n_rch c) r" by metis
  then show ?case using Node.IH Node.prems by (subst find_at.simps) (simp add: deref_def)
qed

lemma range_cover_at_correct:
  assumes "frozen H S"
  shows "points S p T \<Longrightarrow> filled H p T \<Longrightarrow> range_cover_at H p lo hi d = Some (range_estimate_cover (with_sums T) lo hi d)"
proof (induction T arbitrary: p d)
  case Null
  then have "p = None" by (auto dest: frozen_points_Null [OF assms])
  then show ?case by (simp add: range_cover_at.simps)
next
  case (Node v pr k x a l r)
  from frozen_points_Node [OF assms Node.prems(1)] obtain b c where p: "p = Some b" "cells H b = Some c" "n_key c = k" "n_val c = x"
    and sub: "points S (n_lch c) l" "points S (n_rch c) r" by metis
  moreover from this Node.prems(2) have "n_aug c = tree_sum l + x + tree_sum r" "filled H (n_lch c) l" "filled H (n_rch c) r"
    by (simp_all add: deref_def)
  ultimately show ?case using Node.IH by (subst range_cover_at.simps) (simp add: deref_def split: range_cover.split)
qed

definition query_spec :: "(u64 \<rightharpoonup> u64) \<Rightarrow> u64 \<Rightarrow> u64 \<Rightarrow> u64 option" where
  "query_spec m l r = (if l = r then m l else Some (sum_counts m (\<lambda>k. l \<le> k \<and> k \<le> r)))"

lemma query_at_exact:
  assumes "frozen H S" "points S p T" "l = r \<or> filled H p T" "treap h T"
  shows "query_at H p l r = query_spec (counts T) l r"
proof (cases "l = r")
  case True
  from find_at_correct [OF assms(1,2), of l] obtain q where q: "find_at H p l = Some q" "points S q (find T l)" by blast
  have "(case deref H q of None \<Rightarrow> None | Some c \<Rightarrow> Some (n_val c)) = val_of (find T l)"
  proof (cases "find T l")
    case Null
    then have "q = None" using q(2) frozen_points_Null [OF assms(1)] by simp
    with Null show ?thesis by (simp add: deref_def)
  next
    case (Node v pr k x a l' r')
    from frozen_points_Node [OF assms(1) q(2) [unfolded Node]] obtain b c where "q = Some b" "cells H b = Some c" "n_val c = x" by metis
    with Node show ?thesis by (simp add: deref_def)
  qed
  then show ?thesis using True q(1) find_counts [OF assms(4), of l]
    by (simp add: query_at_def query_spec_def split: option.splits)
next
  case False
  then have "query_at H p l r = Some (range_estimate (with_sums T) l r)"
    using assms(3) range_cover_at_correct [OF assms(1,2), of l r OPEN_OPEN]
    by (simp add: query_at_def range_estimate_at_def range_estimate_def)
  moreover have "treap h (with_sums T)" "counts (with_sums T) = counts T" using with_sums_contents [of T h] assms(4) by simp_all
  ultimately show ?thesis using False range_estimate_correct [OF _ summed_with_sums, of h T l r] by (simp add: query_spec_def)
qed

section \<open>A tree placed in memory\<close>

text \<open>
  The bulk build allocates its nodes in parallel, so their addresses are not determined; this is one
  possible layout of the result, with the cached sums it computed.
\<close>

fun place :: "heap \<Rightarrow> tree \<Rightarrow> heap \<times> ptr" where
  "place H Null = (H, None)"
| "place H (Node v p k x a l r) =
     (let (H, q_l) = place H l; (H, q_r) = place H r;
          (H, b) = alloc H \<lparr>n_ver = v, n_pry = p, n_key = k, n_val = x, n_aug = a, n_lch = q_l, n_rch = q_r\<rparr>
      in (H, Some b))"

lemma place_correct:
  "frozen H S \<Longrightarrow> sums_below H S \<Longrightarrow> summed T \<Longrightarrow> place H T = (H', p) \<Longrightarrow>
   \<exists>S'. frozen H' S' \<and> grows H S H' S' \<and> points S' p T \<and> sums_below H' S' \<and> filled H' p T"
proof (induction T arbitrary: H S H' p)
  case Null
  then show ?case by (auto intro: grows_refl)
next
  case (Node v pr k x a l r)
  let ?T = "Node v pr k x a l r"
  obtain H1 q_l H2 q_r where pl: "place H l = (H1, q_l)" "place H1 r = (H2, q_r)" by fastforce
  let ?c = "\<lparr>n_ver = v, n_pry = pr, n_key = k, n_val = x, n_aug = a, n_lch = q_l, n_rch = q_r\<rparr>"
  have sub: "summed l" "summed r" "a = tree_sum l + x + tree_sum r" using Node.prems(3) by simp_all
  from Node.IH(1) [OF Node.prems(1,2) sub(1) pl(1)] obtain S1 where S1: "frozen H1 S1" "grows H S H1 S1" "points S1 q_l l"
    "sums_below H1 S1" "filled H1 q_l l" by blast
  from Node.IH(2) [OF S1(1,4) sub(2) pl(2)] obtain S2 where S2: "frozen H2 S2" "grows H1 S1 H2 S2" "points S2 q_r r"
    "sums_below H2 S2" "filled H2 q_r r" by blast
  have l2: "points S2 q_l l" "filled H2 q_l l"
    using grows_points [OF S2(2) S1(3)] filled_grows [OF S1(1) grows_keeps [OF S2(2)] S1(3)] S1(5) by simp_all
  have H': "H' = fresh H2 ?c" "p = Some (brk H2)" using Node.prems(4) pl by (simp_all add: alloc_fresh)
  let ?S = "S2(brk H2 \<mapsto> ?T)"
  have h: "holds ?c (points S2) ?T" using l2 S2(3) by simp
  note g = grows_fresh [OF S2(1) h]
  have keep: "\<And>b. b < brk H2 \<Longrightarrow> cells (fresh H2 ?c) b = cells H2 b" by simp
  have fl: "filled (fresh H2 ?c) (Some (brk H2)) ?T"
    using filled_grows [OF S2(1) keep] l2 S2(3,5) sub(3) by (simp add: deref_def)
  have "sums_below (fresh H2 ?c) ?S"
  proof (rule sums_below_grows [OF S2(1,4)])
    show "grows H2 S2 (fresh H2 ?c) ?S" using g by blast
    fix b U d assume "brk H2 \<le> b" "?S b = Some U"
    then show "n_aug d = 0 \<or> filled (fresh H2 ?c) (Some b) U" using fl frozen_dom [OF S2(1), of b] by (auto split: if_splits)
  qed
  moreover have "grows H S (fresh H2 ?c) ?S" using grows_trans [OF grows_trans [OF S1(2) S2(2)]] g by blast
  ultimately show ?case using g fl unfolding H' by blast
qed

section \<open>An update followed by its sum\<close>

text \<open>The heap between two updates, and how an update extends it: what was represented stays, with its sums.\<close>

definition sum_heap :: "heap \<Rightarrow> (nat \<rightharpoonup> tree) \<Rightarrow> bool" where
  "sum_heap H S \<longleftrightarrow> frozen H S \<and> sums_below H S \<and> unsummed_from (brk H) H"

definition extends :: "heap \<Rightarrow> (nat \<rightharpoonup> tree) \<Rightarrow> heap \<Rightarrow> (nat \<rightharpoonup> tree) \<Rightarrow> bool" where
  "extends H S H' S' \<longleftrightarrow> sum_heap H' S' \<and>
     (\<forall>p T. points S p T \<longrightarrow> points S' p T \<and> (filled H p T \<longrightarrow> filled H' p T))"

lemma unsummed_from_mono: "unsummed_from n H \<Longrightarrow> n \<le> n' \<Longrightarrow> unsummed_from n' H"
  unfolding unsummed_from_def by (meson order_trans)

text \<open>The update allocates and links its nodes, which have no sums yet; then \<open>augment\<close> fills in the sums below the new root.\<close>

lemma sum_heap_update:
  assumes "sum_heap H S" "returns H S res T" "\<And>y. res = Some y \<Longrightarrow> unsummed_from (brk H) H \<longrightarrow> unsummed_from (brk H) (fst y)"
  shows "\<exists>H' q S'. res = Some (H', q) \<and> extends H S H' S' \<and> points S' q T"
proof -
  note H = assms(1) [unfolded sum_heap_def]
  from assms(2) obtain H1 S' q where r: "res = Some (H1, q)" "frozen H1 S'" "grows H S H1 S'" "points S' q T"
    by (rule returns_E)
  have u: "unsummed_from (brk H) H1" using assms(3) [OF r(1)] H by simp
  have b: "sums_below H1 S'" using sums_below_unsummed [OF _ _ r(3) u] H by simp
  have "brk H \<le> brk H1" using r(3) by (simp add: grows_def)
  then have "unsummed_from (brk H1) H1" using unsummed_from_mono [OF u] by simp
  moreover have "points S' p U \<and> (filled H p U \<longrightarrow> filled H1 p U)" if "points S p U" for p U
    using grows_points [OF r(3) that] filled_grows [OF _ grows_keeps [OF r(3)] that] H by blast
  ultimately have "extends H S H1 S'" using r(2) b by (simp add: extends_def sum_heap_def)
  with r(1,4) show ?thesis by blast
qed

lemma sum_heap_augment:
  assumes "sum_heap H S" "points S p T"
  shows "\<exists>H'. augment_at H p = Some (H', tree_sum T) \<and> extends H S H' S \<and> filled H' p T"
proof -
  note H = assms(1) [unfolded sum_heap_def]
  from augment_at_fills [OF _ _ assms(2)] H obtain H' where H': "augment_at H p = Some (H', tree_sum T)"
    "sums_grow S H H'" "sums_below H' S" "filled H' p T" by blast
  have f: "frozen H' S" using frozen_modulo_aug [of H S H'] H H'(2) by (simp add: sums_grow_def)
  have "cells H' d = cells H d" if "brk H' \<le> d" for d
    using that frozen_dom [OF f, of d] H'(2) by (auto simp: sums_grow_def domIff)
  moreover have "brk H \<le> brk H'" using H'(2) by (simp add: sums_grow_def modulo_aug_def)
  ultimately have "unsummed_from (brk H') H'" using unsummed_from_mono [of "brk H" H "brk H'"] H by (simp add: unsummed_from_def)
  then have "extends H S H' S" using f H'(3) filled_mono [OF _ H'(2)] H by (simp add: extends_def sum_heap_def)
  with H'(1,4) show ?thesis by blast
qed

lemma sum_heap_insert:
  assumes "sum_heap H S" "points S p T"
  shows "\<exists>H' q S'. search_insert_at ver H p pry key = Some (H', q) \<and> extends H S H' S' \<and> points S' q (search_insert ver T pry key)"
  using assms by (intro sum_heap_update search_insert_at_correct unsummed_search_insert_at) (simp_all add: sum_heap_def)

lemma sum_heap_delete:
  assumes "sum_heap H S" "points S p T"
  shows "\<exists>H' q S'. search_delete_at ver H p pry key = Some (H', q) \<and> extends H S H' S' \<and> points S' q (search_delete ver T pry key)"
  using assms by (intro sum_heap_update search_delete_at_correct unsummed_search_delete_at) (simp_all add: sum_heap_def)

lemma place_unsummed: "place H T = (H', p) \<Longrightarrow> unsummed_from (brk H) H \<Longrightarrow> unsummed_from (brk H') H'"
proof (induction T arbitrary: H H' p)
  case (Node v pr k x a l r)
  obtain H1 q_l H2 q_r where pl: "place H l = (H1, q_l)" "place H1 r = (H2, q_r)" by fastforce
  with Node have "unsummed_from (brk H2) H2" by blast
  then have "unsummed_from (Suc (brk H2)) H2" by (rule unsummed_from_mono) simp
  with Node.prems(1) pl show ?case by (auto simp: alloc_fresh unsummed_from_def)
qed simp

lemma sum_heap_place:
  assumes "summed T" "place \<lparr>cells = Map.empty, brk = 0\<rparr> T = (H, p)"
  shows "\<exists>S. sum_heap H S \<and> points S p T \<and> filled H p T"
proof -
  let ?E = "\<lparr>cells = Map.empty, brk = 0\<rparr> :: heap"
  have "frozen ?E Map.empty" "sums_below ?E Map.empty" "unsummed_from (brk ?E) ?E"
    by (simp_all add: frozen_def sums_below_def unsummed_from_def)
  with place_correct [OF _ _ assms, of Map.empty] place_unsummed [OF assms(2)] show ?thesis
    unfolding sum_heap_def by blast
qed

end
