(* ===== verification/DB_Sequential.thy ===== *)
theory DB_Sequential
  imports Query_Processor Treap_Heap_Query
begin

text \<open>
  The sequential backend (\<^verbatim>\<open>db/sequential.hpp\<close>): every call makes a version at once, by the pointer-level
  treap operations, and sums it; the query threads read the roots array. The array has one more slot
  than the number of transactions announced; a slot that was not written yet holds no pointer.
  A call counts its version first, and then stores the root and sums it, or pushes the query: each of
  these is a step of its own, so that steps of query threads may come in between.
\<close>

datatype sequential_pc = S_ready | S_root nat bool call | S_augment nat call | S_push nat bool u64 u64

record sequential =
  sq_versions :: nat
  sq_roots :: "ptr option list"
  sq_heap :: heap
  sq_pc :: sequential_pc

type_synonym sequential_db = "sequential \<times> unit processor"

definition sequential_Init :: "(u64 \<Rightarrow> u64) \<Rightarrow> nat \<Rightarrow> nat \<Rightarrow> nat \<Rightarrow> u64 list \<Rightarrow> sequential_db" where
  "sequential_Init h N n m elems =
     (let (H, t) = place \<lparr>cells = Map.empty, brk = 0\<rparr> (build_parallel h n elems)
      in (\<lparr>sq_versions = 0, sq_roots = (replicate (m + 1) None)[0 := Some t], sq_heap = H, sq_pc = S_ready\<rparr>,
          Start N (make_processor ())))"

definition root_at :: "sequential \<Rightarrow> nat \<Rightarrow> ptr outcome" where
  "root_at s i = (if i < length (sq_roots s) then of_option (sq_roots s ! i) else Crash)"

definition store_root :: "nat \<Rightarrow> heap \<Rightarrow> ptr \<Rightarrow> sequential_pc \<Rightarrow> sequential \<Rightarrow> sequential outcome" where
  "store_root ver H t pc s =
     (if ver < length (sq_roots s)
      then Done (s\<lparr>sq_roots := (sq_roots s)[ver := Some t], sq_heap := H, sq_pc := pc\<rparr>) else Crash)"

definition sequential_process :: "sequential \<Rightarrow> unit \<Rightarrow> nat \<Rightarrow> u64 \<Rightarrow> u64 \<Rightarrow> (unit \<times> u64) outcome" where
  "sequential_process s c ver l r =
     (if sq_versions s < ver then Wait
      else bind_outcome (root_at s ver) (\<lambda>t.
        bind_outcome (of_option (query_at (sq_heap s) t l r)) (\<lambda>x. Done (c, x))))"

text \<open>
  The start of a call: it takes the next version number, by \<^verbatim>\<open>fetch_add\<close>, which the query threads may read
  at once. The client is one thread, which starts no call inside another.
\<close>

definition sequential_call :: "bool \<Rightarrow> call \<Rightarrow> sequential \<Rightarrow> sequential outcome" where
  "sequential_call ok c s =
     (if sq_pc s = S_ready
      then Done (s\<lparr>sq_versions := sq_versions s + 1, sq_pc := S_root (1 + sq_versions s) ok c\<rparr>) else Wait)"

text \<open>The root of the new version is stored: the old one, or that of the tree the update makes, whose nodes no other thread sees before.\<close>

fun sequential_root :: "(u64 \<Rightarrow> u64) \<Rightarrow> nat \<Rightarrow> bool \<Rightarrow> call \<Rightarrow> sequential \<Rightarrow> sequential outcome" where
  "sequential_root h ver ok (Query l r) s =
     bind_outcome (root_at s (ver - 1)) (\<lambda>t. store_root ver (sq_heap s) t (S_push ver ok l r) s)"
| "sequential_root h ver ok (Insert k) s =
     bind_outcome (root_at s (ver - 1)) (\<lambda>t.
       bind_outcome (of_option (search_insert_at ver (sq_heap s) t (h k) k)) (\<lambda>(H, t_new).
         store_root ver H t_new (S_augment ver (Insert k)) s))"
| "sequential_root h ver ok (Delete k) s =
     bind_outcome (root_at s (ver - 1)) (\<lambda>t.
       bind_outcome (of_option (search_delete_at ver (sq_heap s) t (h k) k)) (\<lambda>(H, t_new).
         store_root ver H t_new (S_augment ver (Delete k)) s))"

definition sequential_augment :: "nat \<Rightarrow> sequential \<Rightarrow> sequential outcome" where
  "sequential_augment ver s =
     bind_outcome (root_at s ver) (\<lambda>t.
       bind_outcome (of_option (augment_at (sq_heap s) t)) (\<lambda>(H, _). Done (s\<lparr>sq_heap := H, sq_pc := S_ready\<rparr>)))"

definition sequential_proceed :: "(u64 \<Rightarrow> u64) \<Rightarrow> sequential_db \<Rightarrow> sequential_db outcome" where
  "sequential_proceed h = (\<lambda>(s, p).
     case sq_pc s of
       S_ready \<Rightarrow> Wait
     | S_root ver ok c \<Rightarrow> bind_outcome (sequential_root h ver ok c s) (\<lambda>s. Done (s, p))
     | S_augment ver c \<Rightarrow> bind_outcome (sequential_augment ver s) (\<lambda>s. Done (s, p))
     | S_push ver ok l r \<Rightarrow> Done (s\<lparr>sq_pc := S_ready\<rparr>, fst (Push ok ver l r p)))"

fun sequential_step :: "(u64 \<Rightarrow> u64) \<Rightarrow> nat \<Rightarrow> db_event \<Rightarrow> sequential_db \<Rightarrow> sequential_db outcome" where
  "sequential_step h N (Call ok c) s = bind_outcome (sequential_call ok c (fst s)) (\<lambda>s'. Done (s', snd s))"
| "sequential_step h N Proceed s = sequential_proceed h s"
| "sequential_step h N (Client i found) s =
     (if i \<in> {1..N} then bind_outcome (process_step (sequential_process (fst s)) i found (snd s)) (\<lambda>p. Done (fst s, p))
      else Wait)"
| "sequential_step h N Close s = (if sq_pc (fst s) = S_ready then Done (fst s, Stop (snd s)) else Wait)"

section \<open>The invariant\<close>

text \<open>
  The invariant, for the requests whose roots are in place: version \<open>i\<close> is the initial contents after
  the first \<open>i\<close> of them. Inside a call, the number of versions may be ahead by one; between the store of a
  new root and its sum, the root is that of the next version, still without sums.
\<close>

definition good_root :: "(u64 \<Rightarrow> u64) \<Rightarrow> heap \<Rightarrow> (nat \<rightharpoonup> tree) \<Rightarrow> (u64 \<rightharpoonup> u64) \<Rightarrow> ptr \<Rightarrow> bool" where
  "good_root h H S m t \<longleftrightarrow> (\<exists>T. points S t T \<and> filled H t T \<and> treap h T \<and> counts T = m)"

text \<open>How many versions are counted, in each place of a call.\<close>

fun counted :: "sequential_pc \<Rightarrow> nat \<Rightarrow> nat \<Rightarrow> bool" where
  "counted S_ready n v \<longleftrightarrow> v = n"
| "counted (S_root ver ok c) n v \<longleftrightarrow> v = Suc n \<and> ver = Suc n"
| "counted (S_augment ver c) n v \<longleftrightarrow> v = Suc n \<and> ver = Suc n"
| "counted (S_push ver ok l r) n v \<longleftrightarrow> v = n \<and> ver = n"

definition linked :: "(u64 \<Rightarrow> u64) \<Rightarrow> (nat \<rightharpoonup> tree) \<Rightarrow> (u64 \<rightharpoonup> u64) \<Rightarrow> sequential \<Rightarrow> bool" where
  "linked h S m s \<longleftrightarrow> (\<forall>ver c. sq_pc s = S_augment ver c \<longrightarrow>
     (\<exists>t T. ver < length (sq_roots s) \<and> sq_roots s ! ver = Some t \<and> points S t T \<and> treap h T \<and>
       counts T = spec_step (request_of c) m))"

definition roots_good :: "(u64 \<Rightarrow> u64) \<Rightarrow> (nat \<rightharpoonup> tree) \<Rightarrow> (u64 \<rightharpoonup> u64) \<Rightarrow> request list \<Rightarrow> sequential \<Rightarrow> bool" where
  "roots_good h S m0 reqs s \<longleftrightarrow>
     (\<forall>i \<le> length reqs. \<exists>t. sq_roots s ! i = Some t \<and> good_root h (sq_heap s) S (spec_version m0 reqs i) t)"

definition sequential_inv :: "(u64 \<Rightarrow> u64) \<Rightarrow> (u64 \<rightharpoonup> u64) \<Rightarrow> request list \<Rightarrow> sequential \<Rightarrow> bool" where
  "sequential_inv h m0 reqs s \<longleftrightarrow> counted (sq_pc s) (length reqs) (sq_versions s) \<and> length reqs < length (sq_roots s) \<and>
     (\<exists>S. sum_heap (sq_heap s) S \<and> roots_good h S m0 reqs s \<and> linked h S (spec_version m0 reqs (length reqs)) s)"

lemma spec_version_append [simp]: "i \<le> length reqs \<Longrightarrow> spec_version m0 (reqs @ rs) i = spec_version m0 reqs i"
  by (simp add: spec_version_def)

lemma spec_version_snoc [simp]:
  "spec_version m0 (reqs @ [r]) (Suc (length reqs)) = spec_step r (spec_version m0 reqs (length reqs))"
  by (simp add: spec_version_def)

lemma good_root_extends: "good_root h H S m t \<Longrightarrow> extends H S H' S' \<Longrightarrow> good_root h H' S' m t"
  unfolding good_root_def extends_def by blast

lemma sequential_inv_root:
  assumes "sequential_inv h m0 reqs s" "i \<le> length reqs"
  obtains t S where "root_at s i = Done t" "sum_heap (sq_heap s) S" "good_root h (sq_heap s) S (spec_version m0 reqs i) t"
  using assms unfolding sequential_inv_def roots_good_def root_at_def by (metis of_option.simps(2) order.strict_trans1)

lemma counted_le: "counted pc n v \<Longrightarrow> n \<le> v"
  by (cases pc) simp_all

lemma sequential_process_exact:
  assumes "sequential_inv h m0 reqs s" "ver \<le> length reqs"
  shows "sequential_process s c ver l r =
    (case query_spec (spec_version m0 reqs ver) l r of None \<Rightarrow> Crash | Some x \<Rightarrow> Done (c, x))"
proof -
  from assms obtain t S where t: "root_at s ver = Done t" and S: "sum_heap (sq_heap s) S"
    "good_root h (sq_heap s) S (spec_version m0 reqs ver) t" by (rule sequential_inv_root)
  from S have "query_at (sq_heap s) t l r = query_spec (spec_version m0 reqs ver) l r"
    unfolding good_root_def sum_heap_def by (metis query_at_exact)
  moreover have "\<not> sq_versions s < ver" using assms counted_le [of "sq_pc s" "length reqs" "sq_versions s"] by (simp add: sequential_inv_def)
  ultimately show ?thesis using t by (simp add: sequential_process_def split: option.split)
qed

lemma sequential_inv_init:
  assumes "inj h" "n \<le> length elems"
  shows "sequential_inv h (occurrences (take n elems)) [] (fst (sequential_Init h N n m elems))"
proof -
  obtain H t where pl: "place \<lparr>cells = Map.empty, brk = 0\<rparr> (build_parallel h n elems) = (H, t)" by fastforce
  note b = build_correct [OF assms] build_parallel_augments [of h n elems]
  from sum_heap_place [OF _ pl] b obtain S where "sum_heap H S" "points S t (build_parallel h n elems)"
    "filled H t (build_parallel h n elems)" by blast
  moreover have "spec_version (occurrences (take n elems)) [] 0 = occurrences (take n elems)" by (simp add: spec_version_def)
  ultimately show ?thesis
    using b by (auto simp: sequential_inv_def roots_good_def linked_def sequential_Init_def pl good_root_def)
qed

section \<open>The steps of a call\<close>

text \<open>The start of a call changes the number of versions only.\<close>

lemma sequential_inv_call:
  assumes "sequential_inv h m0 reqs s" "sequential_call ok c s = Done s'"
  shows "sequential_inv h m0 reqs s' \<and> sq_pc s = S_ready \<and> sq_pc s' = S_root (Suc (length reqs)) ok c \<and> sq_roots s' = sq_roots s"
proof -
  have s: "sq_pc s = S_ready" "s' = s\<lparr>sq_versions := sq_versions s + 1, sq_pc := S_root (1 + sq_versions s) ok c\<rparr>"
    using assms(2) by (simp_all add: sequential_call_def split: if_splits)
  then show ?thesis using assms(1) by (auto simp: sequential_inv_def roots_good_def linked_def)
qed

text \<open>The heap grows, and the roots in place stay good.\<close>

lemma roots_good_extends:
  "roots_good h S m0 reqs s \<Longrightarrow> extends (sq_heap s) S H S' \<Longrightarrow> sq_heap s' = H \<Longrightarrow>
   (\<And>i. i \<le> length reqs \<Longrightarrow> sq_roots s' ! i = sq_roots s ! i) \<Longrightarrow> roots_good h S' m0 reqs s'"
  unfolding roots_good_def using good_root_extends by metis

lemma roots_good_snoc:
  "roots_good h S m0 reqs s \<Longrightarrow> sq_roots s ! Suc (length reqs) = Some t \<Longrightarrow>
   good_root h (sq_heap s) S (spec_step r (spec_version m0 reqs (length reqs))) t \<Longrightarrow> roots_good h S m0 (reqs @ [r]) s"
  unfolding roots_good_def
  by (metis length_append_singleton le_Suc_eq spec_version_append spec_version_snoc)

lemma extends_refl: "sum_heap H S \<Longrightarrow> extends H S H S"
  by (simp add: extends_def)

lemma extends_sum_heap: "extends H S H' S' \<Longrightarrow> sum_heap H' S'"
  by (simp add: extends_def)

text \<open>The store of an updated root: the next version is in place, its sums are not.\<close>

lemma sequential_inv_store:
  assumes inv: "sequential_inv h m0 reqs s" "sq_pc s = S_root ver ok c" and room: "Suc (length reqs) < length (sq_roots s)"
    and S: "sum_heap (sq_heap s) S" "roots_good h S m0 reqs s"
    and ext: "extends (sq_heap s) S H S'"
    and t: "points S' t T" "treap h T" "counts T = spec_step (request_of c) (spec_version m0 reqs (length reqs))"
  shows "\<exists>s'. store_root ver H t (S_augment ver c) s = Done s' \<and> sequential_inv h m0 reqs s' \<and> sq_pc s' = S_augment ver c"
proof -
  have ver: "ver = Suc (length reqs)" "sq_versions s = ver" using inv by (simp_all add: sequential_inv_def)
  let ?s = "s\<lparr>sq_roots := (sq_roots s)[ver := Some t], sq_heap := H, sq_pc := S_augment ver c\<rparr>"
  have "roots_good h S' m0 reqs ?s" by (rule roots_good_extends [OF S(2) ext]) (simp_all add: ver)
  then have "sequential_inv h m0 reqs ?s"
    using ver room t extends_sum_heap [OF ext] by (auto simp: sequential_inv_def linked_def)
  then show ?thesis using room ver by (simp add: store_root_def)
qed

text \<open>The store of a root: it goes through when there is room in the array; a query's version is then in place.\<close>

lemma sequential_inv_root_step:
  assumes "inj h" "sequential_inv h m0 reqs s" "sq_pc s = S_root ver ok c" "Suc (length reqs) < length (sq_roots s)"
  obtains s' where "sequential_root h ver ok c s = Done s'"
    "case c of Query l r \<Rightarrow> sq_pc s' = S_push ver ok l r \<and> sequential_inv h m0 (reqs @ [(OP_NONE, 0)]) s'
     | _ \<Rightarrow> sq_pc s' = S_augment ver c \<and> sequential_inv h m0 reqs s'"
proof -
  let ?m = "spec_version m0 reqs (length reqs)"
  have v: "ver = Suc (length reqs)" "sq_versions s = ver" using assms(2,3) by (simp_all add: sequential_inv_def)
  from assms(2) obtain S where S: "sum_heap (sq_heap s) S" "roots_good h S m0 reqs s" by (auto simp: sequential_inv_def)
  then obtain t T where t: "sq_roots s ! length reqs = Some t" "points S t T" "filled (sq_heap s) t T" "treap h T" "counts T = ?m"
    unfolding roots_good_def good_root_def by blast
  have root: "root_at s (ver - 1) = Done t" using t(1) assms(4) v by (simp add: root_at_def)
  note store = sequential_inv_store [OF assms(2-4) S]
  show thesis
  proof (cases c)
    case (Query l r)
    let ?s = "s\<lparr>sq_roots := (sq_roots s)[ver := Some t], sq_heap := sq_heap s, sq_pc := S_push ver ok l r\<rparr>"
    have "roots_good h S m0 reqs ?s" by (rule roots_good_extends [OF S(2) extends_refl [OF S(1)]]) (simp_all add: v)
    moreover have "good_root h (sq_heap s) S (spec_step (OP_NONE, 0) ?m) t" using t by (auto simp: good_root_def)
    ultimately have "roots_good h S m0 (reqs @ [(OP_NONE, 0)]) ?s" using assms(4) v by (intro roots_good_snoc) auto
    then have "sequential_inv h m0 (reqs @ [(OP_NONE, 0)]) ?s"
      using S(1) v assms(4) by (auto simp: sequential_inv_def linked_def)
    with that root assms(4) show thesis by (simp add: Query store_root_def v)
  next
    case (Insert k)
    from sum_heap_insert [OF S(1) t(2), of ver "h k" k] obtain H q S' where
      u: "search_insert_at ver (sq_heap s) t (h k) k = Some (H, q)" "extends (sq_heap s) S H S'"
        "points S' q (search_insert ver T (h k) k)" by blast
    have "treap h (search_insert ver T (h k) k)" "counts (search_insert ver T (h k) k) = spec_step (request_of c) ?m"
      using t(4,5) assms(1) treap_search_insert counts_search_insert Insert by fastforce+
    from store [OF u(2,3) this] that root u(1) show thesis by (auto simp: Insert)
  next
    case (Delete k)
    from sum_heap_delete [OF S(1) t(2), of ver "h k" k] obtain H q S' where
      u: "search_delete_at ver (sq_heap s) t (h k) k = Some (H, q)" "extends (sq_heap s) S H S'"
        "points S' q (search_delete ver T (h k) k)" by blast
    have "treap h (search_delete ver T (h k) k)" "counts (search_delete ver T (h k) k) = spec_step (request_of c) ?m"
      using t(4,5) assms(1) treap_search_delete counts_search_delete Delete by fastforce+
    from store [OF u(2,3) this] that root u(1) show thesis by (auto simp: Delete)
  qed
qed

text \<open>The sum: it always goes through, and the next version is in place.\<close>

lemma sequential_inv_augment:
  assumes "sequential_inv h m0 reqs s" "sq_pc s = S_augment ver c"
  obtains s' where "sequential_augment ver s = Done s'" "sq_pc s' = S_ready" "sequential_inv h m0 (reqs @ [request_of c]) s'"
proof -
  let ?m = "spec_version m0 reqs (length reqs)"
  have v: "ver = Suc (length reqs)" "sq_versions s = ver" using assms by (simp_all add: sequential_inv_def)
  from assms obtain S where S: "sum_heap (sq_heap s) S" "roots_good h S m0 reqs s" "linked h S ?m s"
    by (auto simp: sequential_inv_def)
  from S(3) assms(2) obtain t T where t: "ver < length (sq_roots s)" "sq_roots s ! ver = Some t" "points S t T" "treap h T"
    "counts T = spec_step (request_of c) ?m" unfolding linked_def by blast
  from sum_heap_augment [OF S(1) t(3)] obtain H where H: "augment_at (sq_heap s) t = Some (H, tree_sum T)"
    "extends (sq_heap s) S H S" "filled H t T" by blast
  let ?s = "s\<lparr>sq_heap := H, sq_pc := S_ready\<rparr>"
  have "roots_good h S m0 reqs ?s" by (rule roots_good_extends [OF S(2) H(2)]) simp_all
  moreover have "good_root h H S (spec_step (request_of c) ?m) t" using t H(3) by (auto simp: good_root_def)
  ultimately have "roots_good h S m0 (reqs @ [request_of c]) ?s" using t(2) v by (intro roots_good_snoc) auto
  then have "sequential_inv h m0 (reqs @ [request_of c]) ?s"
    using t(1) v extends_sum_heap [OF H(2)] by (auto simp: sequential_inv_def linked_def)
  moreover have "sequential_augment ver s = Done ?s" using t(1,2) H(1) by (simp add: sequential_augment_def root_at_def)
  ultimately show thesis using that by simp
qed

lemma sequential_inv_push:
  "sequential_inv h m0 reqs s \<Longrightarrow> sq_pc s = S_push ver ok l r \<Longrightarrow> ver = length reqs \<and> sequential_inv h m0 reqs (s\<lparr>sq_pc := S_ready\<rparr>)"
  by (auto simp: sequential_inv_def roots_good_def linked_def)

section \<open>Serving queries\<close>

text \<open>The backend keeps the contract of the query processor: the state carries the requests made so far.\<close>

definition sequential_exact :: "(u64 \<rightharpoonup> u64) \<Rightarrow> sequential \<times> request list \<Rightarrow> nat \<Rightarrow> u64 \<Rightarrow> u64 \<Rightarrow> u64 \<Rightarrow> bool" where
  "sequential_exact m0 s ver l r x \<longleftrightarrow> query_spec (spec_version m0 (snd s) ver) l r = Some x"

interpretation sequential: query_backend "\<lambda>s. sequential_process (fst s)"
  "\<lambda>s. sequential_inv h m0 (snd s) (fst s)" "\<lambda>s c. True"
  "\<lambda>s s'. sequential_inv h m0 (snd s') (fst s') \<and> (\<exists>rs. snd s' = snd s @ rs)" "\<lambda>s. length (snd s)" "sequential_exact m0"
  for h m0
proof (unfold_locales, goal_cases)
  case (1 s c ver l r c' x)
  then show ?case by (auto simp: sequential_process_exact sequential_exact_def split: option.splits)
next
  case (4 s s' ver l r x)
  then show ?case by (auto simp: sequential_exact_def)
qed auto

text \<open>What of the calls begun is not in place yet, and the query that is not in the queue yet.\<close>

fun unplaced :: "sequential_pc \<Rightarrow> request list" where
  "unplaced (S_root ver ok c) = [request_of c]"
| "unplaced (S_augment ver c) = [request_of c]"
| "unplaced _ = []"

fun unpushed :: "sequential_pc \<Rightarrow> nat \<Rightarrow> query_context list" where
  "unpushed (S_root ver ok (Query l r)) k = (if ok then [\<lparr>q_ver = ver, q_idx = k, q_l = l, q_r = r\<rparr>] else [])"
| "unpushed (S_push ver ok l r) k = (if ok then [\<lparr>q_ver = ver, q_idx = k, q_l = l, q_r = r\<rparr>] else [])"
| "unpushed _ k = []"

fun unnumbered :: "sequential_pc \<Rightarrow> nat" where
  "unnumbered (S_root ver ok (Query l r)) = 1"
| "unnumbered (S_push ver ok l r) = 1"
| "unnumbered _ = 0"

text \<open>A whole run: the events are the versions in place and the queries pushed, with what is missing of the current call.\<close>

definition sequential_done ::
  "(u64 \<Rightarrow> u64) \<Rightarrow> (u64 \<rightharpoonup> u64) \<Rightarrow> nat \<Rightarrow> db_event list \<Rightarrow> query_context list \<Rightarrow> request list \<Rightarrow> sequential_db \<Rightarrow> bool" where
  "sequential_done h m0 N es pushed reqs = (\<lambda>(s, p).
     sequential.served h m0 N pushed (s, reqs) p \<and> requests es = reqs @ unplaced (sq_pc s) \<and>
     asked 0 0 es = pushed @ unpushed (sq_pc s) (Suc (num_queries p)) \<and>
     query_count es = num_queries p + unnumbered (sq_pc s))"

lemma sequential_done_inv: "sequential_done h m0 N es pushed reqs (s, p) \<Longrightarrow> sequential_inv h m0 reqs s"
  by (simp add: sequential_done_def sequential.served_def)

lemma sequential_done_pc:
  assumes "sequential_done h m0 N es pushed reqs (s, p)" "sequential_inv h m0 (reqs @ rs) s'"
    and "unplaced (sq_pc s) = rs @ unplaced (sq_pc s')" "unnumbered (sq_pc s') = unnumbered (sq_pc s)"
    and "unpushed (sq_pc s') (Suc (num_queries p)) = unpushed (sq_pc s) (Suc (num_queries p))"
  shows "sequential_done h m0 N (es @ [Proceed]) pushed (reqs @ rs) (s', p)"
  using assms sequential.served_update [of h m0 N pushed "(s, reqs)" p "(s', reqs @ rs)"]
  by (simp add: sequential_done_def asked_append)

lemma sequential_done_call:
  assumes d: "sequential_done h m0 N es pushed reqs (s, p)" and "sequential_call ok c s = Done s'"
  shows "sequential_done h m0 N (es @ [Call ok c]) pushed reqs (s', p)"
proof -
  from sequential_inv_call [OF sequential_done_inv [OF d] assms(2)] have s':
    "sequential_inv h m0 reqs s'" "sq_pc s = S_ready" "sq_pc s' = S_root (Suc (length reqs)) ok c" by simp_all
  have "sequential.served h m0 N pushed (s', reqs) p"
    using d s'(1) sequential.served_update [of h m0 N pushed "(s, reqs)" p "(s', reqs)"] by (simp add: sequential_done_def)
  with d s'(2,3) show ?thesis by (cases c) (simp_all add: sequential_done_def asked_append)
qed

lemma sequential_done_proceed:
  assumes h: "inj h" and d: "sequential_done h m0 N es pushed reqs (s, p)"
    and step: "sequential_proceed h (s, p) = Done (s', p')"
  shows "\<exists>pushed reqs. sequential_done h m0 N (es @ [Proceed]) pushed reqs (s', p')"
proof (cases "sq_pc s")
  case S_ready
  with step show ?thesis by (simp add: sequential_proceed_def)
next
  case (S_root ver ok c)
  note inv = sequential_done_inv [OF d]
  from S_root step have p': "p' = p" "sequential_root h ver ok c s = Done s'" by (auto simp: sequential_proceed_def)
  have "Suc (length reqs) < length (sq_roots s)"
    using inv p'(2) S_root by (cases c) (auto simp: sequential_inv_def store_root_def split: if_splits)
  with sequential_inv_root_step [OF h inv S_root] p'(2) have r:
    "case c of Query l r \<Rightarrow> sq_pc s' = S_push ver ok l r \<and> sequential_inv h m0 (reqs @ [(OP_NONE, 0)]) s'
     | _ \<Rightarrow> sq_pc s' = S_augment ver c \<and> sequential_inv h m0 reqs s'" by fastforce
  show ?thesis
  proof (cases c)
    case (Query l u)
    with r sequential_done_pc [OF d, of "[(OP_NONE, 0)]" s'] S_root p'(1) show ?thesis by auto
  next
    case (Insert k)
    with r sequential_done_pc [OF d, of "[]" s'] S_root p'(1) show ?thesis by auto
  next
    case (Delete k)
    with r sequential_done_pc [OF d, of "[]" s'] S_root p'(1) show ?thesis by auto
  qed
next
  case (S_augment ver c)
  with step have p': "p' = p" "sequential_augment ver s = Done s'" by (auto simp: sequential_proceed_def)
  from sequential_inv_augment [OF sequential_done_inv [OF d] S_augment] p'(2)
  have "sq_pc s' = S_ready" "sequential_inv h m0 (reqs @ [request_of c]) s'" by force+
  with sequential_done_pc [OF d, of "[request_of c]" s'] S_augment p'(1) show ?thesis by auto
next
  case (S_push ver ok l r)
  note inv = sequential_inv_push [OF sequential_done_inv [OF d] S_push]
  from S_push step have s': "s' = s\<lparr>sq_pc := S_ready\<rparr>" "p' = fst (Push ok ver l r p)" by (auto simp: sequential_proceed_def)
  have "sequential.served h m0 N pushed (s', reqs) p"
    using d inv s'(1) sequential.served_update [of h m0 N pushed "(s, reqs)" p "(s', reqs)"] by (simp add: sequential_done_def)
  from sequential.served_push [OF this, of ok ver l r p' "snd (Push ok ver l r p)"] inv s'(2)
  have sv: "sequential.served h m0 N (pushed @ (if ok then [\<lparr>q_ver = ver, q_idx = num_queries p + 1, q_l = l, q_r = r\<rparr>] else []))
      (s', reqs) p'" by simp
  have n: "num_queries p' = Suc (num_queries p)" by (simp add: s'(2) Push_def Let_def)
  have "sequential_done h m0 N (es @ [Proceed])
      (pushed @ (if ok then [\<lparr>q_ver = ver, q_idx = num_queries p + 1, q_l = l, q_r = r\<rparr>] else [])) reqs (s', p')"
    using d sv n by (simp add: sequential_done_def asked_append s'(1) S_push)
  then show ?thesis by blast
qed

lemma sequential_done_step:
  assumes "inj h" "sequential_done h m0 N es pushed reqs (s, p)" "sequential_step h N e (s, p) = Done (s', p')"
  shows "\<exists>pushed reqs. sequential_done h m0 N (es @ [e]) pushed reqs (s', p')"
proof (cases e)
  case (Call ok c)
  with assms(2,3) sequential_done_call show ?thesis by (fastforce split: if_splits)
next
  case Proceed
  with assms sequential_done_proceed show ?thesis by simp
next
  case (Client i found)
  with assms(3) have c: "i \<in> {1..N}" "process_step (sequential_process s) i found p = Done p'" "s' = s" by (auto split: if_splits)
  have "sequential_done h m0 N (es @ [e]) pushed reqs (s', p')"
    using assms(2) sequential.served_step [of h m0 N pushed "(s, reqs)" p i found p'] c num_queries_step [OF c(2)]
    by (simp add: sequential_done_def asked_append Client)
  then show ?thesis by blast
next
  case Close
  with assms(3) have c: "p' = Stop p" "s' = s" by (auto split: if_splits)
  then have "num_queries p' = num_queries p" by (simp add: Stop_def)
  then have "sequential_done h m0 N (es @ [e]) pushed reqs (s', p')"
    using assms(2) by (simp add: sequential_done_def asked_append Close c sequential.served_Stop)
  then show ?thesis by blast
qed

lemma sequential_run:
  assumes "inj h" "n \<le> length elems"
  shows "run_db (sequential_step h N) es (sequential_Init h N n m elems) = Done (s, p) \<Longrightarrow>
    \<exists>pushed reqs. sequential_done h (occurrences (take n elems)) N es pushed reqs (s, p)"
proof (induction es arbitrary: s p rule: rev_induct)
  case Nil
  then have i: "sequential_Init h N n m elems = (s, p)" by simp
  then have p: "p = Start N (make_processor ())" "sq_pc s = S_ready" by (auto simp: sequential_Init_def Let_def split: prod.splits)
  have "sequential_inv h (occurrences (take n elems)) [] s" using sequential_inv_init [OF assms, of N m] i by simp
  with sequential.served_init [of h "occurrences (take n elems)" "(s, [])"] p
  have "sequential_done h (occurrences (take n elems)) N [] [] [] (s, p)"
    by (simp add: sequential_done_def Start_def make_processor_def)
  then show ?case by blast
next
  case (snoc e es)
  from snoc.prems obtain s1 p1 where 1: "run_db (sequential_step h N) es (sequential_Init h N n m elems) = Done (s1, p1)"
    "sequential_step h N e (s1, p1) = Done (s, p)" by (auto simp: run_db_append)
  from snoc.IH [OF 1(1)] sequential_done_step [OF assms(1) _ 1(2)] show ?case by blast
qed

text \<open>What the client knows of a query that is in the queue: it was asked, and its version's requests were made.\<close>

lemma sequential_done_asked:
  assumes "sequential_done h m0 N es pushed reqs (s, p)" "q \<in> set pushed"
  shows "q \<in> set (asked 0 0 es) \<and> q_ver q \<le> length reqs \<and>
    spec_version m0 reqs (q_ver q) = spec_version m0 (requests es) (q_ver q)"
  using assms by (simp add: sequential_done_def sequential.served_def)

lemma sequential_done_results:
  assumes "sequential_done h m0 N es pushed reqs (s, p)" "i \<in> {1..N}" "x \<in> set (results p i)"
  obtains q where "q \<in> set (asked 0 0 es)" "r_ver x = q_idx q" "q_ver q \<le> length (requests es)"
    "query_spec (spec_version m0 (requests es) (q_ver q)) (q_l q) (q_r q) = Some (r_ret x)"
proof -
  from assms sequential.served_results obtain q where q: "q \<in> set pushed" "r_ver x = q_idx q"
    "sequential_exact m0 (s, reqs) (q_ver q) (q_l q) (q_r q) (r_ret x)"
    unfolding sequential_done_def by fastforce
  have "length reqs \<le> length (requests es)" using assms(1) by (simp add: sequential_done_def)
  with that q sequential_done_asked [OF assms(1) q(1)] show thesis by (auto simp: sequential_exact_def)
qed

text \<open>The array keeps its size.\<close>

lemma store_root_room: "store_root ver H t pc s = Done s' \<Longrightarrow> length (sq_roots s') = length (sq_roots s)"
  by (auto simp: store_root_def split: if_splits)

lemma sequential_root_room: "sequential_root h ver ok c s = Done s' \<Longrightarrow> length (sq_roots s') = length (sq_roots s)"
  by (cases c) (auto dest: store_root_room)

lemma sequential_step_room:
  "sequential_step h N e s = Done s' \<Longrightarrow> length (sq_roots (fst s')) = length (sq_roots (fst s))"
proof (induction h N e s rule: sequential_step.induct)
  case (2 h N s)
  then show ?case
    by (cases s) (auto simp: sequential_proceed_def sequential_augment_def split: sequential_pc.splits dest: sequential_root_room)
qed (auto simp: sequential_call_def split: if_splits)

lemma sequential_run_room:
  "run_db (sequential_step h N) es s = Done s' \<Longrightarrow> length (sq_roots (fst s')) = length (sq_roots (fst s))"
  by (induction es arbitrary: s) (auto dest: sequential_step_room)

lemma sequential_Init_room: "length (sq_roots (fst (sequential_Init h N n m elems))) = m + 1"
  by (simp add: sequential_Init_def split_beta)

text \<open>While there is room, the client never fails: it is inside a call, and goes on, or it is not.\<close>

lemma sequential_proceed_safe:
  assumes "inj h" "sequential_inv h m0 reqs s" "length (reqs @ unplaced (sq_pc s)) < length (sq_roots s)"
  shows "(\<exists>s' p'. sequential_proceed h (s, p) = Done (s', p')) \<or> sq_pc s = S_ready"
proof (cases "sq_pc s")
  case (S_root ver ok c)
  then have "Suc (length reqs) < length (sq_roots s)" using assms(3) by simp
  from sequential_inv_root_step [OF assms(1,2) S_root this] S_root show ?thesis by (auto simp: sequential_proceed_def)
next
  case (S_augment ver c)
  from sequential_inv_augment [OF assms(2) S_augment] S_augment show ?thesis by (auto simp: sequential_proceed_def)
qed (simp_all add: sequential_proceed_def)

text \<open>The crashes that are left: a query thread is answering a query the specification has no answer for.\<close>

lemma sequential_crash:
  assumes "inj h" "sequential_done h m0 N es pushed reqs (s, p)" "length (requests es) < length (sq_roots s)"
    and "sequential_step h N e (s, p) = Crash"
  shows "\<exists>i \<in> {1..N}. \<exists>q found. e = Client i found \<and> clients p i = C_busy q \<and> q \<in> set (asked 0 0 es) \<and>
    query_spec (spec_version m0 (requests es) (q_ver q)) (q_l q) (q_r q) = None"
proof (cases e)
  case (Call ok c)
  with assms(4) show ?thesis by (simp add: sequential_call_def split: if_splits)
next
  case Proceed
  have "sequential_proceed h (s, p) \<noteq> Crash"
    using sequential_proceed_safe [OF assms(1) sequential_done_inv [OF assms(2)], of p] assms(2,3)
    by (auto simp: sequential_done_def sequential_proceed_def)
  with assms(4) show ?thesis by (simp add: Proceed)
next
  case (Client i found)
  with assms(4) have i: "i \<in> {1..N}" "process_step (sequential_process s) i found p = Crash"
    by (auto simp: bind_outcome_eq_Crash split: if_splits)
  from process_step_crash [OF i(2)] obtain q where q: "clients p i = C_busy q"
    "sequential_process s (locals p i) (q_ver q) (q_l q) (q_r q) = Crash" by blast
  have "q \<in> set pushed"
    using assms(2) busy_in_hand [OF i(1) q(1)] by (auto simp: sequential_done_def sequential.served_def processor_inv_def)
  note a = sequential_done_asked [OF assms(2) this]
  then have "query_spec (spec_version m0 (requests es) (q_ver q)) (q_l q) (q_r q) = None"
    using q(2) sequential_process_exact [OF sequential_done_inv [OF assms(2)]] by (auto split: option.splits)
  with a i(1) q(1) Client show ?thesis by blast
next
  case Close
  with assms(4) show ?thesis by (simp split: if_splits)
qed

text \<open>A query thread with a query in its hands never waits for its version.\<close>

lemma sequential_no_wait:
  assumes "sequential_done h m0 N es pushed reqs (s, p)" "i \<in> {1..N}" "clients p i = C_busy q"
  shows "sequential_step h N (Client i found) (s, p) \<noteq> Wait"
proof -
  have "q \<in> set pushed"
    using assms(1) busy_in_hand [OF assms(2,3)] by (auto simp: sequential_done_def sequential.served_def processor_inv_def)
  then have "q_ver q \<le> length reqs" using sequential_done_asked [OF assms(1)] by blast
  from sequential_process_exact [OF sequential_done_inv [OF assms(1)] this, of "locals p i" "q_l q" "q_r q"] show ?thesis
    using assms(2,3) by (simp add: process_step_def split: option.splits)
qed

section \<open>Properties\<close>

text \<open>C5. The sequential backend, under every interleaving of the steps of the client's calls with those of the
  query threads. Every answer a query thread stores is right: it belongs to a query the client issued, and is the
  counter, or the sum of the counters in the range, that the initial elements and the calls up to that query
  give. And every query can be answered as soon as it is in the queue: a query thread that has taken
  one never waits, and while no more calls are made than were announced, the only step that can fail is that of a query thread with a point query for a key that is absent.
  So a root is in place, with its sums, before its version can be asked for, although the version is counted first.\<close>

theorem sequential_answers_exact:
  assumes "n \<le> length elems"
    and "run_db (sequential_step (hash64 seed seed64) N) es (sequential_Init (hash64 seed seed64) N n m elems) = Done (s, p)"
  shows "(\<forall>i \<in> {1..N}. \<forall>x \<in> set (results p i). \<exists>q \<in> set (asked 0 0 es). r_ver x = q_idx q \<and>
      query_spec (spec_version (occurrences (take n elems)) (requests es) (q_ver q)) (q_l q) (q_r q) = Some (r_ret x)) \<and>
    (\<forall>i \<in> {1..N}. \<forall>q found. clients p i = C_busy q \<longrightarrow> sequential_step (hash64 seed seed64) N (Client i found) (s, p) \<noteq> Wait) \<and>
    (length (requests es) \<le> m \<longrightarrow> (\<forall>e. sequential_step (hash64 seed seed64) N e (s, p) = Crash \<longrightarrow>
      (\<exists>i \<in> {1..N}. \<exists>q found. e = Client i found \<and> clients p i = C_busy q \<and> q \<in> set (asked 0 0 es) \<and>
        query_spec (spec_version (occurrences (take n elems)) (requests es) (q_ver q)) (q_l q) (q_r q) = None)))"
proof (intro conjI ballI impI allI)
  from sequential_run [OF inj_hash64 assms] obtain pushed reqs where
    d: "sequential_done (hash64 seed seed64) (occurrences (take n elems)) N es pushed reqs (s, p)" by blast
  {
    fix i x assume "i \<in> {1..N}" "x \<in> set (results p i)"
    then show "\<exists>q \<in> set (asked 0 0 es). r_ver x = q_idx q \<and>
      query_spec (spec_version (occurrences (take n elems)) (requests es) (q_ver q)) (q_l q) (q_r q) = Some (r_ret x)"
      by (rule sequential_done_results [OF d]) blast
  next
    fix i q found assume "i \<in> {1..N}" "clients p i = C_busy q"
    then show "sequential_step (hash64 seed seed64) N (Client i found) (s, p) \<noteq> Wait" by (rule sequential_no_wait [OF d])
  next
    fix e assume "length (requests es) \<le> m" "sequential_step (hash64 seed seed64) N e (s, p) = Crash"
    with sequential_crash [OF inj_hash64 d, of e] sequential_run_room [OF assms(2)]
    show "\<exists>i \<in> {1..N}. \<exists>q found. e = Client i found \<and> clients p i = C_busy q \<and> q \<in> set (asked 0 0 es) \<and>
        query_spec (spec_version (occurrences (take n elems)) (requests es) (q_ver q)) (q_l q) (q_r q) = None"
      by (simp add: sequential_Init_room)
  }
qed

definition sample_events :: "db_event list" where
  "sample_events = [Call True (Insert 7), Client 1 True, Proceed, Proceed, Call True (Query 7 7), Proceed, Proceed,
     Client 1 True, Client 1 True]"

lemma sample_run:
  "\<exists>s p. run_db (sequential_step (hash64 (1, 2, 3, 4) (5, 6, 7, 8)) 1) sample_events
     (sequential_Init (hash64 (1, 2, 3, 4) (5, 6, 7, 8)) 1 0 2 []) = Done (s, p) \<and> results p 1 = [\<lparr>r_ver = 1, r_ret = 1\<rparr>]"
  by (simp add: sample_events_def sequential_Init_def sequential_call_def sequential_proceed_def sequential_augment_def
      sequential_process_def build_parallel_def root_at_def store_root_def Let_def Start_def make_processor_def
      process_step_def Push_def search_insert_at.simps augment_at.simps query_at_def find_at.simps heap_simps numeral_2_eq_2)

theorem sequential_answers_exact_witness:
  "\<exists>q \<in> set (asked 0 0 sample_events). query_spec (spec_version (occurrences []) (requests sample_events) (q_ver q)) (q_l q) (q_r q) = Some 1"
proof -
  from sample_run obtain s p where r: "run_db (sequential_step (hash64 (1, 2, 3, 4) (5, 6, 7, 8)) 1) sample_events
     (sequential_Init (hash64 (1, 2, 3, 4) (5, 6, 7, 8)) 1 0 2 []) = Done (s, p)" "results p 1 = [\<lparr>r_ver = 1, r_ret = 1\<rparr>]" by blast
  from sequential_answers_exact [OF _ r(1)] r(2) show ?thesis by auto
qed

text \<open>No query is lost and none is answered twice: at every moment each query in the queue's order is either
  waiting, in the hands of one query thread, or answered, exactly once, except for the one the client is about to push.\<close>

theorem sequential_queries_once:
  assumes "n \<le> length elems"
    and "run_db (sequential_step (hash64 seed seed64) N) es (sequential_Init (hash64 seed seed64) N n m elems) = Done (s, p)"
  shows "distinct (map q_idx (asked 0 0 es)) \<and>
    mset (map q_idx (asked 0 0 es)) =
      image_mset q_idx (in_hand N p) + answered N p + mset (map q_idx (unpushed (sq_pc s) (Suc (num_queries p))))"
proof -
  from sequential_run [OF inj_hash64 assms] obtain pushed reqs where
    d: "sequential_done (hash64 seed seed64) (occurrences (take n elems)) N es pushed reqs (s, p)" by blast
  have u: "set (map q_idx (unpushed pc k)) \<subseteq> {k}" "distinct (map q_idx (unpushed pc k))" for pc k
    by (induction pc k rule: unpushed.induct) auto
  have "distinct (map q_idx pushed)" "\<forall>q \<in> set pushed. q_idx q \<le> num_queries p"
    "mset (map q_idx pushed) = image_mset q_idx (in_hand N p) + answered N p"
    using d by (auto simp: sequential_done_def sequential.served_def processor_inv_def)
  moreover have "set (map q_idx (unpushed (sq_pc s) (Suc (num_queries p)))) \<inter> set (map q_idx pushed) = {}"
    using u(1) [of "sq_pc s" "Suc (num_queries p)"] calculation(2) by fastforce
  ultimately show ?thesis using d u(2) [of "sq_pc s" "Suc (num_queries p)"] by (auto simp: sequential_done_def)
qed

theorem sequential_queries_once_witness: "\<exists>p::unit processor. answered 1 p = {#1#} \<and> image_mset q_idx (in_hand 1 p) = {#}"
proof -
  from sample_run obtain s p where r: "run_db (sequential_step (hash64 (1, 2, 3, 4) (5, 6, 7, 8)) 1) sample_events
     (sequential_Init (hash64 (1, 2, 3, 4) (5, 6, 7, 8)) 1 0 2 []) = Done (s, p)" "results p 1 = [\<lparr>r_ver = 1, r_ret = 1\<rparr>]" by blast
  from sequential_queries_once [OF _ r(1)]
  have "{#1#} = image_mset q_idx (in_hand 1 p) + answered 1 p + mset (map q_idx (unpushed (sq_pc s) (Suc (num_queries p))))"
    by (simp add: sample_events_def)
  moreover have "answered 1 p = {#1#}" using r(2) by (simp add: answered_def)
  ultimately show ?thesis by auto
qed

text \<open>Memory safety of the sequential backend: while the client makes no more calls than it announced and
  asks point queries for present keys only, no call and no query thread reads a null or unwritten pointer
  or leaves the roots array.\<close>

theorem sequential_memory_safe:
  assumes "n \<le> length elems"
    and "run_db (sequential_step (hash64 seed seed64) N) es (sequential_Init (hash64 seed seed64) N n m elems) = Done (s, p)"
    and "length (requests es) \<le> m"
    and "\<And>q. q \<in> set (asked 0 0 es) \<Longrightarrow> q_l q = q_r q \<Longrightarrow>
      spec_version (occurrences (take n elems)) (requests es) (q_ver q) (q_l q) \<noteq> None"
  shows "sequential_step (hash64 seed seed64) N e (s, p) \<noteq> Crash"
proof
  assume crash: "sequential_step (hash64 seed seed64) N e (s, p) = Crash"
  from sequential_run [OF inj_hash64 assms(1,2)] obtain pushed reqs where
    "sequential_done (hash64 seed seed64) (occurrences (take n elems)) N es pushed reqs (s, p)" by blast
  from sequential_crash [OF inj_hash64 this _ crash] sequential_run_room [OF assms(2)] assms(3) obtain q where
    "q \<in> set (asked 0 0 es)"
    "query_spec (spec_version (occurrences (take n elems)) (requests es) (q_ver q)) (q_l q) (q_r q) = None"
    by (auto simp: sequential_Init_room)
  with assms(4) [of q] show False by (simp add: query_spec_def split: if_splits)
qed

theorem sequential_memory_safe_witness:
  "sequential_step (hash64 (1, 2, 3, 4) (5, 6, 7, 8)) 1 (Call True (Delete 4)) (sequential_Init (hash64 (1, 2, 3, 4) (5, 6, 7, 8)) 1 1 2 [9]) \<noteq> Crash"
proof -
  obtain s p where i: "sequential_Init (hash64 (1, 2, 3, 4) (5, 6, 7, 8)) 1 1 2 [9] = (s, p)" by fastforce
  show ?thesis unfolding i by (rule sequential_memory_safe [of 1 "[9]" "(1, 2, 3, 4)" "(5, 6, 7, 8)" 1 "[]" 2]) (simp_all add: i [simplified])
qed

text \<open>A defect: a point query for a key that is not in the store crashes the query thread. With no elements,
  one client and one query, the thread that answers it reads through the null pointer \<open>find\<close> returns.\<close>

theorem sequential_absent_key_crashes:
  "run_db (sequential_step h 1) [Call True (Query k k), Proceed, Proceed, Client 1 True, Client 1 True, Client 1 True]
     (sequential_Init h 1 0 1 []) = Crash"
  by (simp add: sequential_Init_def sequential_call_def sequential_proceed_def sequential_process_def
      build_parallel_def root_at_def store_root_def Let_def Start_def make_processor_def process_step_def Push_def
      query_at_def find_at.simps heap_simps)

text \<open>A defect: \<open>Close\<close> can leave queries unanswered. A query thread that looks at the flag after \<open>Stop\<close> cleared
  it ends although the queue is not empty.\<close>

theorem close_loses_queries:
  "\<exists>s p. run_db (sequential_step h 1) [Call True (Query k k), Proceed, Proceed, Close, Client 1 True]
       (sequential_Init h 1 0 1 []) = Done (s, p) \<and>
     stopped 1 p \<and> queries p = [\<lparr>q_ver = 1, q_idx = 1, q_l = k, q_r = k\<rparr>] \<and> results p 1 = []"
  by (simp add: sequential_Init_def sequential_call_def sequential_proceed_def stopped_def Stop_def
      build_parallel_def root_at_def store_root_def Let_def Start_def make_processor_def process_step_def Push_def)

end
