(* ===== verification/Scheduler_Estimate.thy ===== *)
theory Scheduler_Estimate
  imports Scheduler_Safety
begin

text \<open>
  The cached sums and \<open>get_snapshot\<close>. What \<open>get_snapshot\<close> returns is the root of the version asked
  for. Three schedules show that its wait does not do what it is for: a block can be summed before
  its tasks are finished, the block that is waited for is not always the block of the version, and
  after the workers have stopped a block may never have been summed.
\<close>

lemma get_snapshot_cases:
  assumes "get_snapshot C ver \<sigma> = Done p"
  shows "(num_issued \<sigma> < ver \<and> p = None) \<or> (ver \<le> num_issued \<sigma> \<and> p = c_root (ctxs \<sigma> ver))"
  using assms by (auto simp: get_snapshot_def at_ctx_def Let_def split: if_splits)

lemma get_snapshot_safe:
  assumes "sched_pre C H0 t0 T0 reqs" "sched_inv C T0 reqs \<sigma>" "0 < block_size C" "0 < num_workers C"
  shows "get_snapshot C ver \<sigma> \<noteq> Crash"
proof -
  from assms(2) obtain G D where "data_inv C T0 reqs \<sigma> G D" by (auto simp: sched_inv_def)
  from data_invD(2) [OF this] sched_preD(3) [OF assms(1)] have "num_issued \<sigma> \<le> num_tasks C" by simp
  with assms(3,4) show ?thesis by (auto simp: get_snapshot_def at_ctx_def Let_def)
qed

text \<open>The tree of a committed version.\<close>

lemma committed_represents:
  assumes "sched_pre C H0 t0 T0 reqs" "reachable C H0 t0 reqs \<sigma>" "i \<le> num_committed \<sigma>"
  shows "represents (heap_of \<sigma>) (c_root (ctxs \<sigma> i)) (version (tree_step (hash_of C)) T0 reqs i)"
    and "i \<le> num_issued \<sigma>" and "i \<le> length reqs"
proof -
  note inv = reachable_inv [OF assms(2,1)]
  show le: "i \<le> num_issued \<sigma>" using committed_done(2) [OF inv assms(3)] assms(3) by simp
  show "i \<le> length reqs" using inv le by (auto simp: sched_inv_def dest: data_invD(2))
  have "c_st (ctxs \<sigma> k) = ST_DONE" if "k \<le> i" for k using committed_done(1) [OF inv, of k] that assms(3) by simp
  with finished_represents [OF assms(1) inv le]
  show "represents (heap_of \<sigma>) (c_root (ctxs \<sigma> i)) (version (tree_step (hash_of C)) T0 reqs i)" by (simp add: tree_at_def)
qed

lemma run_reaches:
  assumes "case run C tids (init_state C H0 t0 reqs) of Done \<sigma> \<Rightarrow> P \<sigma> | _ \<Rightarrow> False" "set tids \<subseteq> threads C"
  shows "\<exists>\<sigma>. reachable C H0 t0 reqs \<sigma> \<and> P \<sigma>"
proof -
  obtain \<sigma> where "run C tids (init_state C H0 t0 reqs) = Done \<sigma>" "P \<sigma>" using assms(1) by (auto split: outcome.splits)
  with reachable_run [OF reachable_init assms(2)] show ?thesis by blast
qed

section \<open>A snapshot stays\<close>

text \<open>The published number of summed blocks is the worker's own count, and only grows.\<close>

definition estimates_ok :: "state \<Rightarrow> bool" where
  "estimates_ok \<sigma> \<longleftrightarrow> (\<forall>w \<ge> 1. num_estimated \<sigma> (w - 1) = w_count (workers \<sigma> w))"

lemma pipe_estimated: "pipe_step C j \<sigma> = Done \<sigma>' \<Longrightarrow> num_estimated \<sigma>' = num_estimated \<sigma> \<and> workers \<sigma>' = workers \<sigma>"
  by (auto simp: pipe_step_def at_ctx_def set_ctx_def set_pipe_def put_token_def Let_def split: pipe_pc.splits if_splits)

lemma init_context_estimated: "init_context C r \<sigma> = Done \<sigma>' \<Longrightarrow> num_estimated \<sigma>' = num_estimated \<sigma> \<and> workers \<sigma>' = workers \<sigma>"
  by (cases r) (auto simp: at_ctx_def set_ctx_def Let_def split: if_splits)

lemma other_estimated:
  "boarder_step C \<sigma> = Done \<sigma>' \<Longrightarrow> num_estimated \<sigma>' = num_estimated \<sigma> \<and> workers \<sigma>' = workers \<sigma>"
  "collector_step C \<sigma> = Done \<sigma>' \<Longrightarrow> num_estimated \<sigma>' = num_estimated \<sigma> \<and> workers \<sigma>' = workers \<sigma>"
  "master_step C \<sigma> = Done \<sigma>' \<Longrightarrow> num_estimated \<sigma>' = num_estimated \<sigma> \<and> workers \<sigma>' = workers \<sigma>"
  by (auto simp: boarder_step_def collector_step_def master_step_def put_token_def Let_def dest!: init_context_estimated
      split: boarder_pc.splits master_pc.splits list.splits if_splits)

lemma worker_estimated:
  assumes "worker_step C w \<sigma> = Done \<sigma>'"
  shows "\<exists>l. workers \<sigma>' = (workers \<sigma>)(w := l) \<and> (num_estimated \<sigma>' = num_estimated \<sigma> \<and> w_count l = w_count (workers \<sigma> w) \<or>
    num_estimated \<sigma>' = (num_estimated \<sigma>)(w - 1 := w_count l) \<and> w_count l = w_count (workers \<sigma> w) + 1)"
  using assms unfolding worker_step_def work_update_step_def work_estimate_step_def
  by (auto simp: at_ctx_def set_ctx_def set_worker_def Let_def split: worker_pc.splits if_splits option.splits prod.splits)

lemma step_estimated:
  assumes "step C tid \<sigma> = Done \<sigma>'" "tid \<in> threads C" "estimates_ok \<sigma>"
  shows "estimates_ok \<sigma>' \<and> (\<forall>i. num_estimated \<sigma> i \<le> num_estimated \<sigma>' i)"
proof (cases tid)
  case (Worker w)
  then have w: "1 \<le> w" using assms(2) by (auto simp: threads_def)
  from assms(1) Worker have "worker_step C w \<sigma> = Done \<sigma>'" by simp
  from worker_estimated [OF this] obtain l where l: "workers \<sigma>' = (workers \<sigma>)(w := l)"
    "num_estimated \<sigma>' = num_estimated \<sigma> \<and> w_count l = w_count (workers \<sigma> w) \<or>
     num_estimated \<sigma>' = (num_estimated \<sigma>)(w - 1 := w_count l) \<and> w_count l = w_count (workers \<sigma> w) + 1" by blast
  have e: "num_estimated \<sigma> (v - 1) = w_count (workers \<sigma> v)" if "1 \<le> v" for v using assms(3) that by (simp add: estimates_ok_def)
  from l(2) show ?thesis
  proof
    assume "num_estimated \<sigma>' = num_estimated \<sigma> \<and> w_count l = w_count (workers \<sigma> w)"
    then show ?thesis using l(1) e by (auto simp: estimates_ok_def)
  next
    assume n: "num_estimated \<sigma>' = (num_estimated \<sigma>)(w - 1 := w_count l) \<and> w_count l = w_count (workers \<sigma> w) + 1"
    have "v - 1 = w - 1 \<longleftrightarrow> v = w" if "1 \<le> v" for v using w that by auto
    then show ?thesis using l(1) e n w by (auto simp: estimates_ok_def)
  qed
qed (use assms in \<open>auto simp: estimates_ok_def dest!: pipe_estimated other_estimated\<close>)

lemma reachable_estimated: "reachable C H0 t0 reqs \<sigma> \<Longrightarrow> estimates_ok \<sigma>"
proof (induction rule: reachable.induct)
  case reachable_init
  show ?case by (simp add: estimates_ok_def init_state_def init_worker_def Let_def)
qed (use step_estimated in blast)

lemma run_estimated: "estimates_ok \<sigma> \<Longrightarrow> set tids \<subseteq> threads C \<Longrightarrow> run C tids \<sigma> = Done \<sigma>' \<Longrightarrow> num_estimated \<sigma> i \<le> num_estimated \<sigma>' i"
proof (induction tids arbitrary: \<sigma>)
  case (Cons tid tids)
  then obtain \<sigma>1 where s: "step C tid \<sigma> = Done \<sigma>1" "run C tids \<sigma>1 = Done \<sigma>'" by auto
  with step_estimated [OF s(1) _ Cons.prems(1)] Cons have "estimates_ok \<sigma>1" "num_estimated \<sigma> i \<le> num_estimated \<sigma>1 i" by auto
  with Cons.IH [of \<sigma>1] Cons.prems s show ?case by (auto intro: order_trans)
qed simp

section \<open>Small configurations\<close>

definition leaf_cell :: "u64 \<Rightarrow> ptr \<Rightarrow> node_t" where
  "leaf_cell k l = \<lparr>n_ver = 0, n_pry = k, n_key = k, n_val = 1, n_aug = 0, n_lch = l, n_rch = None\<rparr>"

definition small_config :: "nat \<Rightarrow> nat \<Rightarrow> config" where
  "small_config b n = \<lparr>num_pipes = 1, num_workers = 2, block_size = b, num_tasks = n, hash_of = (\<lambda>k. k)\<rparr>"

text \<open>A path of three nodes with the keys 9, 8 and 7, the root at address 2.\<close>

definition path_heap :: heap where
  "path_heap = \<lparr>cells = [0 \<mapsto> leaf_cell 7 None, 1 \<mapsto> leaf_cell 8 (Some 0), 2 \<mapsto> leaf_cell 9 (Some 1)], brk = 3\<rparr>"

definition path_tree :: tree where
  "path_tree = Node 0 9 9 1 0 (Node 0 8 8 1 0 (Node 0 7 7 1 0 Null Null) Null) Null"

lemma path_represents: "represents path_heap (Some 2) path_tree"
proof -
  let ?t7 = "Node 0 7 7 1 0 Null Null"
  let ?t8 = "Node 0 8 8 1 0 ?t7 Null"
  have "frozen path_heap [0 \<mapsto> ?t7, 1 \<mapsto> ?t8, 2 \<mapsto> path_tree]"
    by (auto simp: frozen_def path_heap_def path_tree_def leaf_cell_def split: if_splits)
  then show ?thesis unfolding represents_def by (auto intro!: exI)
qed

lemma small_pre:
  "n < 100 \<Longrightarrow> length reqs \<le> n \<Longrightarrow> sched_pre (small_config b n) path_heap (Some 2) path_tree reqs"
  using path_represents by (simp add: sched_pre_def small_config_def path_tree_def STAGE_DONE_def)

lemmas run_simps = step_defs task_defs small_config_def path_heap_def leaf_cell_def get_snapshot_def
  augment_at.simps process_deploy_at_def split_copy_at.simps search_insert_at.simps

section \<open>Sums taken too early\<close>

text \<open>
  Worker 2 holds the insertion of version 1. Worker 1 fetches version 2, which is finished already,
  reaches the end of its block and sums both versions while the path of version 1 is incomplete.
\<close>

definition early_schedule :: "thread list" where
  "early_schedule =
    [Master, Master, Master, Master, Pipe 1, Pipe 1, Pipe 1, Pipe 1, Pipe 1, Pipe 1, Boarder, Boarder,
    Worker 2, Worker 1, Worker 1, Worker 1, Worker 1, Worker 1, Worker 1, Worker 1, Worker 2, Worker 2,
    Worker 2, Worker 2, Collector, Collector, Collector]"

lemma early_run:
  "case run (small_config 2 2) early_schedule
     (init_state (small_config 2 2) path_heap (Some 2) [(OP_INSERT, 5), (OP_NONE, 0)]) of
     Done \<sigma> \<Rightarrow> num_committed \<sigma> = 2 \<and> get_snapshot (small_config 2 2) 1 \<sigma> = Done (Some 3) \<and>
       map_option n_aug (cells (heap_of \<sigma>) 3) = Some 2
   | _ \<Rightarrow> False"
  by (simp add: run_simps early_schedule_def)

lemma early_tree_sum: "tree_sum (tree_at (small_config 2 2) path_tree [(OP_INSERT, 5), (OP_NONE, 0)] 1) = 4"
  by (simp add: tree_at_def small_config_def path_tree_def search_insert_Node)

section \<open>Waiting for the wrong block\<close>

text \<open>
  Version 2 is the last of the first block, which belongs to worker 1, but \<open>get_snapshot\<close> waits for
  the second block, of worker 2. Worker 2 executes both tasks and publishes its block; worker 1 has
  not started.
\<close>

definition other_schedule :: "thread list" where
  "other_schedule =
    [Master, Master, Master, Master, Pipe 1, Pipe 1, Pipe 1, Pipe 1, Pipe 1, Pipe 1, Boarder, Boarder,
    Worker 2, Worker 2, Worker 2, Worker 2, Worker 2, Worker 2, Worker 2, Worker 2, Worker 2, Worker 2,
    Worker 2, Worker 2, Collector, Collector, Collector]"

lemma other_run:
  "case run (small_config 2 2) other_schedule
     (init_state (small_config 2 2) path_heap (Some 2) [(OP_INSERT, 9), (OP_NONE, 0)]) of
     Done \<sigma> \<Rightarrow> num_committed \<sigma> = 2 \<and> get_snapshot (small_config 2 2) 2 \<sigma> = Done (Some 3) \<and>
       map_option n_aug (cells (heap_of \<sigma>) 3) = Some aug_uninitialized
   | _ \<Rightarrow> False"
  by (simp add: run_simps other_schedule_def)

section \<open>A block that is never summed\<close>

text \<open>
  Worker 1 executes all four tasks. When worker 2 fetches for the first time no task is left, so it
  sums its first block and stops; its second block stays unsummed.
\<close>

definition hang_schedule :: "thread list" where
  "hang_schedule =
    [Master, Master, Master, Master, Master, Master, Master, Master, Pipe 1, Pipe 1, Pipe 1, Pipe 1,
    Pipe 1, Pipe 1, Pipe 1, Pipe 1, Pipe 1, Pipe 1, Pipe 1, Pipe 1, Boarder, Boarder, Worker 1, Worker
    1, Worker 1, Worker 1, Worker 1, Worker 1, Worker 1, Worker 1, Worker 1, Worker 1, Worker 1, Worker
    1, Worker 1, Worker 1, Worker 1, Worker 1, Worker 1, Worker 1, Worker 1, Worker 1, Worker 1, Worker
    1, Worker 1, Worker 1, Worker 2, Worker 2, Worker 2, Worker 2, Collector, Collector, Collector,
    Collector, Collector]"

lemma one_two: "{1..2::nat} = {1, 2}" "{1..1::nat} = {1}"
  by auto

lemma hang_run:
  "case run (small_config 1 4) hang_schedule
     (init_state (small_config 1 4) path_heap (Some 2) [(OP_NONE, 0), (OP_NONE, 0), (OP_NONE, 0), (OP_NONE, 0)]) of
     Done \<sigma> \<Rightarrow> num_committed \<sigma> = 4 \<and> todo \<sigma> = [] \<and> joinable (small_config 1 4) \<sigma> \<and>
       get_snapshot (small_config 1 4) 3 \<sigma> = Wait
   | _ \<Rightarrow> False"
  by (simp add: run_simps hang_schedule_def joinable_def one_two)

end
