(* ===== verification/DB_Contreap.thy ===== *)
theory DB_Contreap
  imports Query_Processor Treap_Heap_Query Scheduler_Estimate Scheduler_Live
begin

text \<open>
  The pipelined backend (\<^verbatim>\<open>db/contreap.hpp\<close>): every call becomes a task of the scheduler, a query also an
  entry of the query processor with the version \<open>nop\<close> returned; the query threads ask the scheduler for a
  snapshot and read it through the node heap. The client's calls are a list fixed in advance; the
  client's thread issues them one by one and returns from a call, after \<open>Push\<close> in case it is a query,
  before it issues the next. A query reads its snapshot in one step.
\<close>

datatype contreap_event = Sched thread | Return bool | Serve nat bool | Shut

record contreap =
  ct_sched :: state
  ct_processor :: "unit processor"
  ct_returned :: nat

definition contreap_config :: "(u64 \<Rightarrow> u64) \<Rightarrow> nat \<Rightarrow> nat \<Rightarrow> nat \<Rightarrow> config" where
  "contreap_config h num_threads m b =
     \<lparr>num_pipes = decide_num_pipes num_threads, num_workers = decide_num_workers num_threads,
      block_size = b, num_tasks = m, hash_of = h\<rparr>"

definition contreap_Init :: "config \<Rightarrow> nat \<Rightarrow> nat \<Rightarrow> u64 list \<Rightarrow> call list \<Rightarrow> contreap" where
  "contreap_Init C N n elems calls =
     (let (H, t) = place \<lparr>cells = Map.empty, brk = 0\<rparr> (build_parallel (hash_of C) n elems)
      in \<lparr>ct_sched = init_state C H t (map request_of calls), ct_processor = Start N (make_processor ()), ct_returned = 0\<rparr>)"

definition contreap_process :: "config \<Rightarrow> state \<Rightarrow> unit \<Rightarrow> nat \<Rightarrow> u64 \<Rightarrow> u64 \<Rightarrow> (unit \<times> u64) outcome" where
  "contreap_process C \<sigma> c ver l r =
     bind_outcome (get_snapshot C ver \<sigma>) (\<lambda>t.
       bind_outcome (of_option (query_at (heap_of \<sigma>) t l r)) (\<lambda>x. Done (c, x)))"

text \<open>The end of a call: \<open>Query\<close> pushes the version that \<open>nop\<close> returned.\<close>

definition contreap_return :: "call list \<Rightarrow> bool \<Rightarrow> contreap \<Rightarrow> contreap outcome" where
  "contreap_return calls ok s =
     (if ct_returned s < num_issued (ct_sched s) \<and> master (ct_sched s) = M_issue then
        Done (case calls ! ct_returned s of
            Query l r \<Rightarrow> s\<lparr>ct_returned := ct_returned s + 1,
              ct_processor := fst (Push ok (num_issued (ct_sched s)) l r (ct_processor s))\<rparr>
          | _ \<Rightarrow> s\<lparr>ct_returned := ct_returned s + 1\<rparr>)
      else Wait)"

definition contreap_Close :: "config \<Rightarrow> contreap \<Rightarrow> contreap outcome" where
  "contreap_Close C s = (if joinable C (ct_sched s) then Done (s\<lparr>ct_processor := Stop (ct_processor s)\<rparr>) else Wait)"

fun contreap_step :: "config \<Rightarrow> nat \<Rightarrow> call list \<Rightarrow> contreap_event \<Rightarrow> contreap \<Rightarrow> contreap outcome" where
  "contreap_step C N calls (Sched tid) s =
     (if tid \<notin> threads C \<or> tid = Master \<and> ct_returned s < num_issued (ct_sched s) \<and> master (ct_sched s) = M_issue then Wait
      else bind_outcome (step C tid (ct_sched s)) (\<lambda>\<sigma>. Done (s\<lparr>ct_sched := \<sigma>\<rparr>)))"
| "contreap_step C N calls (Return ok) s = contreap_return calls ok s"
| "contreap_step C N calls (Serve i found) s =
     (if i \<in> {1..N} then bind_outcome (process_step (contreap_process C (ct_sched s)) i found (ct_processor s))
        (\<lambda>p. Done (s\<lparr>ct_processor := p\<rparr>)) else Wait)"
| "contreap_step C N calls Shut s = contreap_Close C s"

fun run_contreap :: "config \<Rightarrow> nat \<Rightarrow> call list \<Rightarrow> contreap_event list \<Rightarrow> contreap \<Rightarrow> contreap outcome" where
  "run_contreap C N calls [] s = Done s"
| "run_contreap C N calls (e # es) s = bind_outcome (contreap_step C N calls e s) (run_contreap C N calls es)"

section \<open>The scheduler inside the backend\<close>

lemma pipe_issued: "pipe_step C j \<sigma> = Done \<sigma>' \<Longrightarrow> num_issued \<sigma>' = num_issued \<sigma> \<and> master \<sigma>' = master \<sigma>"
  by (auto simp: pipe_step_def at_ctx_def set_ctx_def set_pipe_def put_token_def Let_def split: pipe_pc.splits if_splits)

lemma worker_issued: "worker_step C w \<sigma> = Done \<sigma>' \<Longrightarrow> num_issued \<sigma>' = num_issued \<sigma> \<and> master \<sigma>' = master \<sigma>"
  unfolding worker_step_def work_update_step_def work_estimate_step_def
  by (auto simp: at_ctx_def set_ctx_def set_worker_def Let_def split: worker_pc.splits if_splits option.splits prod.splits)

lemma other_issued:
  "boarder_step C \<sigma> = Done \<sigma>' \<Longrightarrow> num_issued \<sigma>' = num_issued \<sigma> \<and> master \<sigma>' = master \<sigma>"
  "collector_step C \<sigma> = Done \<sigma>' \<Longrightarrow> num_issued \<sigma>' = num_issued \<sigma> \<and> master \<sigma>' = master \<sigma>"
  by (auto simp: boarder_step_def collector_step_def put_token_def Let_def split: boarder_pc.splits if_splits)

lemma master_issued:
  "master_step C \<sigma> = Done \<sigma>' \<Longrightarrow> num_issued \<sigma>' = (if master \<sigma> = M_issue then Suc (num_issued \<sigma>) else num_issued \<sigma>)"
  by (auto simp: master_step_def put_token_def dest!: init_context_ctx split: master_pc.splits list.splits)

lemma step_issued:
  assumes "step C tid \<sigma> = Done \<sigma>'"
  shows "num_issued \<sigma>' = num_issued \<sigma> \<or> tid = Master \<and> master \<sigma> = M_issue \<and> num_issued \<sigma>' = Suc (num_issued \<sigma>)"
  using assms by (cases tid) (auto dest: pipe_issued worker_issued other_issued master_issued split: if_splits)

text \<open>
  The invariant: the scheduler is in a reachable state, at most one call has been issued and has not
  returned, and every query pushed carries the version of its call.
\<close>

definition asked_call :: "call list \<Rightarrow> nat \<Rightarrow> query_context \<Rightarrow> bool" where
  "asked_call calls k q \<longleftrightarrow> 1 \<le> q_ver q \<and> q_ver q \<le> k \<and> calls ! (q_ver q - 1) = Query (q_l q) (q_r q)"

definition contreap_inv :: "config \<Rightarrow> nat \<Rightarrow> heap \<Rightarrow> ptr \<Rightarrow> call list \<Rightarrow> contreap \<Rightarrow> bool" where
  "contreap_inv C N H0 t0 calls s \<longleftrightarrow> reachable C H0 t0 (map request_of calls) (ct_sched s) \<and>
     ct_returned s \<le> num_issued (ct_sched s) \<and> num_issued (ct_sched s) \<le> Suc (ct_returned s) \<and>
     (master (ct_sched s) = M_push \<longrightarrow> num_issued (ct_sched s) = Suc (ct_returned s)) \<and>
     (\<exists>pushed. processor_inv N (\<lambda>_ _. True) pushed (ct_processor s) \<and> (\<forall>q \<in> set pushed. asked_call calls (ct_returned s) q))"

lemma master_push: "step C tid \<sigma> = Done \<sigma>' \<Longrightarrow> master \<sigma>' = M_push \<Longrightarrow> num_issued \<sigma>' = num_issued \<sigma> \<Longrightarrow> master \<sigma> = M_push"
  by (cases tid) (auto dest: pipe_issued worker_issued other_issued dest!: init_context_ctx
      simp: master_step_def put_token_def split: master_pc.splits list.splits)

lemma contreap_inv_step:
  assumes "contreap_inv C N H0 t0 calls s" "contreap_step C N calls e s = Done s'"
  shows "contreap_inv C N H0 t0 calls s'"
proof (cases e)
  case (Sched tid)
  with assms(2) obtain \<sigma> where t: "tid \<in> threads C" "step C tid (ct_sched s) = Done \<sigma>" "s' = s\<lparr>ct_sched := \<sigma>\<rparr>"
    and m: "\<not> (tid = Master \<and> ct_returned s < num_issued (ct_sched s) \<and> master (ct_sched s) = M_issue)" by (auto split: if_splits)
  note i = assms(1) [unfolded contreap_inv_def] and n = step_issued [OF t(2)]
  have "reachable C H0 t0 (map request_of calls) \<sigma>" using i t by (blast intro: reachable_step)
  moreover have "ct_returned s \<le> num_issued \<sigma>" "num_issued \<sigma> \<le> Suc (ct_returned s)" using i n m by auto
  moreover have "num_issued \<sigma> = Suc (ct_returned s)" if "master \<sigma> = M_push"
    using n master_push [OF t(2) that] i m by auto
  ultimately show ?thesis using i t(3) by (simp add: contreap_inv_def)
next
  case (Return ok)
  note i = assms(1) [unfolded contreap_inv_def]
  from i obtain pushed where p: "processor_inv N (\<lambda>_ _. True) pushed (ct_processor s)" "\<forall>q \<in> set pushed. asked_call calls (ct_returned s) q" by blast
  from assms(2) Return have c: "num_issued (ct_sched s) = Suc (ct_returned s)" "master (ct_sched s) = M_issue"
    and s': "s' = (case calls ! ct_returned s of
            Query l r \<Rightarrow> s\<lparr>ct_returned := ct_returned s + 1,
              ct_processor := fst (Push ok (num_issued (ct_sched s)) l r (ct_processor s))\<rparr>
          | _ \<Rightarrow> s\<lparr>ct_returned := ct_returned s + 1\<rparr>)"
    using i by (auto simp: contreap_return_def split: if_splits)
  have old: "\<forall>q \<in> set pushed. asked_call calls (Suc (ct_returned s)) q" using p(2) by (auto simp: asked_call_def)
  show ?thesis
  proof (cases "calls ! ct_returned s")
    case (Query l r)
    let ?new = "if ok then [\<lparr>q_ver = num_issued (ct_sched s), q_idx = num_queries (ct_processor s) + 1, q_l = l, q_r = r\<rparr>] else []"
    have "processor_inv N (\<lambda>_ _. True) (pushed @ ?new) (fst (Push ok (num_issued (ct_sched s)) l r (ct_processor s)))"
      using processor_inv_push [OF p(1)] by (metis prod.collapse)
    moreover have "\<forall>q \<in> set (pushed @ ?new). asked_call calls (Suc (ct_returned s)) q"
      using old c Query by (auto simp: asked_call_def)
    ultimately show ?thesis using i c Query unfolding contreap_inv_def s' by auto
  qed (use i c p(1) old in \<open>auto simp: contreap_inv_def s'\<close>)
next
  case (Serve k found)
  with assms(2) obtain p where k: "k \<in> {1..N}" "process_step (contreap_process C (ct_sched s)) k found (ct_processor s) = Done p"
    "s' = s\<lparr>ct_processor := p\<rparr>" by (auto split: if_splits)
  with assms(1) processor_inv_step [OF _ k(1,2)] show ?thesis by (auto simp: contreap_inv_def)
next
  case Shut
  with assms show ?thesis by (auto simp: contreap_Close_def contreap_inv_def processor_inv_Stop split: if_splits)
qed

lemma contreap_run_inv:
  "contreap_inv C N H0 t0 calls s \<Longrightarrow> run_contreap C N calls es s = Done s' \<Longrightarrow> contreap_inv C N H0 t0 calls s'"
  by (induction es arbitrary: s) (auto intro: contreap_inv_step)

lemma contreap_init:
  assumes "place \<lparr>cells = Map.empty, brk = 0\<rparr> (build_parallel (hash_of C) n elems) = (H, t)"
  shows "contreap_inv C N H t calls (contreap_Init C N n elems calls)"
proof -
  have "contreap_Init C N n elems calls = \<lparr>ct_sched = init_state C H t (map request_of calls),
      ct_processor = Start N (make_processor ()), ct_returned = 0\<rparr>" by (simp add: contreap_Init_def assms)
  moreover have "num_issued (init_state C H t (map request_of calls)) = 0" "master (init_state C H t (map request_of calls)) = M_issue"
    by (simp_all add: init_state_def)
  ultimately show ?thesis unfolding contreap_inv_def
    by (auto intro!: reachable_init exI [of _ "[]"] processor_inv_init)
qed

lemma treap_nodes: "treap h t \<Longrightarrow> nodes t = card (keys t)"
proof (induction t)
  case (Node v p k x a l r)
  have "k \<notin> keys l \<union> keys r" "keys l \<inter> keys r = {}" using Node.prems treap_disjoint [OF Node.prems] by auto
  then have "card (insert k (keys l \<union> keys r)) = Suc (card (keys l) + card (keys r))" by (simp add: card_Un_disjoint)
  with Node show ?case by simp
qed simp

lemma build_nodes:
  assumes "inj h" "n \<le> length elems"
  shows "nodes (build_parallel h n elems) \<le> n"
proof -
  note b = build_correct [OF assms] build_parallel_augments [of h n elems]
  have "keys (build_parallel h n elems) = dom (occurrences (take n elems))" using b by (metis dom_counts)
  also have "\<dots> \<subseteq> set (take n elems)" by (auto simp: occurrences_def split: if_splits)
  finally have "card (keys (build_parallel h n elems)) \<le> length (take n elems)"
    by (meson List.finite_set card_length card_mono order_trans)
  then show ?thesis using treap_nodes [of h "build_parallel h n elems"] b by simp
qed

lemma contreap_pre:
  assumes "inj (hash_of C)" "n \<le> length elems" "length calls \<le> num_tasks C" "n + num_tasks C < STAGE_DONE"
    and "place \<lparr>cells = Map.empty, brk = 0\<rparr> (build_parallel (hash_of C) n elems) = (H, t)"
  shows "sched_pre C H t (build_parallel (hash_of C) n elems) (map request_of calls)"
proof -
  note b = build_parallel_augments [of "hash_of C" n elems]
  from sum_heap_place [OF _ assms(5)] b have "represents H t (build_parallel (hash_of C) n elems)"
    by (auto simp: represents_def sum_heap_def)
  with b build_nodes [OF assms(1,2)] assms(3,4) show ?thesis by (auto simp: sched_pre_def)
qed

section \<open>Properties\<close>

text \<open>C7. Point queries of the pipelined backend are exact on committed versions: when a query thread holds a query whose
  version is committed and its snapshot is available, the query belongs to a \<open>Query\<close> call of the client, and the thread answers
  with the counter that the initial elements and the calls up to that one give; it crashes if the key is absent. This
  holds under every interleaving of client, scheduler and query threads.\<close>

theorem contreap_point_query:
  assumes "hash_of C = hash64 seed seed64" "n \<le> length elems" "length calls \<le> num_tasks C" "n + num_tasks C < STAGE_DONE"
    and "run_contreap C N calls es (contreap_Init C N n elems calls) = Done s"
    and "i \<in> {1..N}" "clients (ct_processor s) i = C_busy q" "q_l q = q_r q"
    and "q_ver q \<le> num_committed (ct_sched s)" "get_snapshot C (q_ver q) (ct_sched s) \<noteq> Wait" "0 < block_size C" "0 < num_workers C"
  shows "calls ! (q_ver q - 1) = Query (q_l q) (q_r q) \<and>
    contreap_process C (ct_sched s) () (q_ver q) (q_l q) (q_r q) =
      (case spec_version (occurrences (take n elems)) (map request_of calls) (q_ver q) (q_l q) of
         None \<Rightarrow> Crash | Some x \<Rightarrow> Done ((), x))"
proof -
  let ?h = "hash64 seed seed64" and ?\<sigma> = "ct_sched s" and ?reqs = "map request_of calls"
  let ?T = "build_parallel ?h n elems"
  obtain H t where pl: "place \<lparr>cells = Map.empty, brk = 0\<rparr> (build_parallel (hash_of C) n elems) = (H, t)" by fastforce
  have pre: "sched_pre C H t ?T ?reqs" using contreap_pre [OF _ assms(2-4) pl] assms(1) by (simp add: inj_hash64)
  note inv = contreap_run_inv [OF contreap_init [OF pl] assms(5)]
  have re: "reachable C H t ?reqs ?\<sigma>" using inv by (simp add: contreap_inv_def)
  have q: "calls ! (q_ver q - 1) = Query (q_l q) (q_r q)"
    using inv busy_in_hand [OF assms(6,7)] unfolding contreap_inv_def processor_inv_def asked_call_def by blast
  note c = committed_represents [OF pre re assms(9)]
  from get_snapshot_safe [OF pre reachable_inv [OF re pre] assms(11,12)] assms(10) obtain p where
    p: "get_snapshot C (q_ver q) ?\<sigma> = Done p" by (cases "get_snapshot C (q_ver q) ?\<sigma>") auto
  with get_snapshot_cases [OF p] c(2) have root: "p = c_root (ctxs ?\<sigma> (q_ver q))" by simp
  note b = build_correct [OF inj_hash64 assms(2), of seed seed64] build_parallel_augments [of ?h n elems]
  let ?V = "version (tree_step ?h) ?T ?reqs (q_ver q)"
  have V: "treap ?h ?V" "counts ?V = spec_version (occurrences (take n elems)) ?reqs (q_ver q)"
    using treap_store.version_inv [of seed seed64 ?T ?reqs "q_ver q"] treap_store.version_view [of seed seed64 ?T "q_ver q" ?reqs] b c(3)
    by simp_all
  from c(1) obtain S where "frozen (heap_of ?\<sigma>) S" "points S p ?V" by (auto simp: represents_def root assms(1))
  from query_at_exact [OF this, of "q_l q" "q_r q"] V assms(8)
  have "query_at (heap_of ?\<sigma>) p (q_l q) (q_r q) = spec_version (occurrences (take n elems)) ?reqs (q_ver q) (q_l q)"
    by (simp add: query_spec_def)
  with q p show ?thesis by (simp add: contreap_process_def split: option.split)
qed

definition contreap_sample :: "contreap_event list" where
  "contreap_sample = map Sched [Master, Master] @ [Return True] @
     map Sched [Boarder, Boarder, Worker 1, Worker 1, Worker 1, Worker 1, Worker 1, Worker 1, Collector, Collector] @
     [Serve 1 True, Serve 1 True]"

definition sample_config :: config where
  "sample_config = contreap_config (hash64 (1, 2, 3, 4) (5, 6, 7, 8)) 1 1 2"

lemma sample_config_fields:
  "num_pipes sample_config = 0" "num_workers sample_config = 1" "block_size sample_config = 2" "num_tasks sample_config = 1"
  "hash_of sample_config = hash64 (1, 2, 3, 4) (5, 6, 7, 8)"
  by (simp_all add: sample_config_def contreap_config_def decide_num_pipes_def decide_num_workers_def)

lemma contreap_sample_run:
  "case run_contreap sample_config 1 [Query 9 9] contreap_sample (contreap_Init sample_config 1 1 [9] [Query 9 9]) of
     Done s \<Rightarrow> num_committed (ct_sched s) = 1 \<and> clients (ct_processor s) 1 = C_busy \<lparr>q_ver = 1, q_idx = 1, q_l = 9, q_r = 9\<rparr> \<and>
       get_snapshot sample_config 1 (ct_sched s) \<noteq> Wait
   | _ \<Rightarrow> False"
  by (simp add: contreap_sample_def contreap_Init_def sample_config_fields build_parallel_def augment_parallel_eq threads_def
      contreap_return_def step_defs task_defs augment_at.simps alloc_def Start_def make_processor_def process_step_def Push_def
      get_snapshot_def)

theorem contreap_point_query_witness:
  "\<exists>s. run_contreap sample_config 1 [Query 9 9] contreap_sample (contreap_Init sample_config 1 1 [9] [Query 9 9]) = Done s \<and>
     contreap_process sample_config (ct_sched s) () 1 9 9 = Done ((), 1)"
proof -
  from contreap_sample_run obtain s where r: "run_contreap sample_config 1 [Query 9 9] contreap_sample (contreap_Init sample_config 1 1 [9] [Query 9 9]) = Done s"
    "num_committed (ct_sched s) = 1" "clients (ct_processor s) 1 = C_busy \<lparr>q_ver = 1, q_idx = 1, q_l = 9, q_r = 9\<rparr>"
    "get_snapshot sample_config 1 (ct_sched s) \<noteq> Wait" by (auto split: outcome.splits)
  from contreap_point_query [OF sample_config_fields(5) _ _ _ r(1) _ r(3)] r show ?thesis
    by (simp add: sample_config_fields STAGE_DONE_def spec_version_def occurrences_def)
qed

end
