(* ===== verification/PAM.thy ===== *)
theory PAM
  imports Treap_Build
begin

text \<open>
  The batch backend's tree (\<^verbatim>\<open>lib/pam\<close>): a treap whose nodes keep a list of values with the versions
  they start at, so that one tree serves all versions of a batch. A batch of insertions is built
  into a temporary versioned tree and merged into a copy of the old one (\<^verbatim>\<open>build_versioned.hpp\<close>,
  \<^verbatim>\<open>copy_merge.hpp\<close>), a batch of deletions is subtracted (\<^verbatim>\<open>copy_subtract.hpp\<close>). Temporary trees are
  consumed, persistent ones copied on the way; a node is temporary until it has been summed. Looked
  at for one version, the operations are the ones of the plain treap, which is how they are verified.
\<close>

section \<open>Nodes\<close>

record valver =
  v_val :: u64
  v_ver :: nat

datatype pnode = PNull | PNode nat u64 u64 "valver list" u64 pnode pnode

definition vstat_uninitialized :: nat where
  "vstat_uninitialized = 2 ^ 64 - 1"

definition pam_make_node :: "nat \<Rightarrow> u64 \<Rightarrow> u64 \<Rightarrow> u64 \<Rightarrow> pnode" where
  "pam_make_node ver pry key val =
     PNode vstat_uninitialized pry key [\<lparr>v_val = val, v_ver = ver\<rparr>] aug_uninitialized PNull PNull"

definition pam_make_node_hash :: "(u64 \<Rightarrow> u64) \<Rightarrow> nat \<Rightarrow> u64 \<Rightarrow> pnode" where
  "pam_make_node_hash h ver key = pam_make_node ver (h key) key 1"

fun pam_set_children :: "pnode \<Rightarrow> pnode \<Rightarrow> pnode \<Rightarrow> pnode" where
  "pam_set_children PNull l' r' = PNull"
| "pam_set_children (PNode s p k vs a l r) l' r' = PNode s p k vs a l' r'"

text \<open>Only the last value is copied.\<close>

fun pam_weak_copy :: "pnode \<Rightarrow> pnode" where
  "pam_weak_copy PNull = PNull"
| "pam_weak_copy (PNode s p k vs a l r) = pam_make_node (v_ver (last vs)) p k (v_val (last vs))"

fun subtree_vstat :: "pnode \<Rightarrow> nat" where
  "subtree_vstat PNull = 0"
| "subtree_vstat (PNode s p k vs a l r) = s"

section \<open>Queries\<close>

fun find_from :: "valver list \<Rightarrow> nat \<Rightarrow> u64" where
  "find_from [] v = 0"
| "find_from [x] v = v_val x"
| "find_from (x # y # vs) v = (if v < v_ver y then v_val x else find_from (y # vs) v)"

definition find_value :: "valver list \<Rightarrow> nat \<Rightarrow> u64" where
  "find_value vs v = (if v < v_ver (hd vs) then 0 else find_from vs v)"

fun pam_find :: "pnode \<Rightarrow> nat \<Rightarrow> u64 \<Rightarrow> u64" where
  "pam_find PNull v key = 0"
| "pam_find (PNode s p k vs a l r) v key =
     (if key = k then find_value vs v else if key < k then pam_find l v key else pam_find r v key)"

fun pam_range_cover :: "pnode \<Rightarrow> nat \<Rightarrow> u64 \<Rightarrow> u64 \<Rightarrow> range_cover \<Rightarrow> u64" where
  "pam_range_cover PNull v lo hi d = 0"
| "pam_range_cover (PNode s p k vs a l r) v lo hi d =
     (case d of
        OPEN_OPEN \<Rightarrow>
          if hi < k then pam_range_cover l v lo hi d
          else if lo > k then pam_range_cover r v lo hi d
          else pam_range_cover l v lo hi OPEN_CLOSE + find_value vs v + pam_range_cover r v lo hi CLOSE_OPEN
      | OPEN_CLOSE \<Rightarrow>
          if lo > k then pam_range_cover r v lo hi d
          else pam_range_cover l v lo hi d + find_value vs v + pam_range_cover r v lo hi CLOSE_CLOSE
      | CLOSE_OPEN \<Rightarrow>
          if hi < k then pam_range_cover l v lo hi d
          else pam_range_cover l v lo hi CLOSE_CLOSE + find_value vs v + pam_range_cover r v lo hi d
      | CLOSE_CLOSE \<Rightarrow>
          if s \<le> v then a
          else pam_range_cover l v lo hi d + find_value vs v + pam_range_cover r v lo hi d)"

definition pam_range_estimate :: "pnode \<Rightarrow> nat \<Rightarrow> u64 \<Rightarrow> u64 \<Rightarrow> u64" where
  "pam_range_estimate t v l r = pam_range_cover t v l r OPEN_OPEN"

fun pam_augment_parallel :: "pnode \<Rightarrow> pnode \<times> u64" where
  "pam_augment_parallel PNull = (PNull, 0)"
| "pam_augment_parallel (PNode s p k vs a l r) =
     (if s \<noteq> vstat_uninitialized then (PNode s p k vs a l r, a)
      else let ((l', aug_l), (r', aug_r)) = par_do (pam_augment_parallel l) (pam_augment_parallel r);
               a' = aug_l + v_val (last vs) + aug_r;
               s' = max (v_ver (last vs)) (max (subtree_vstat l') (subtree_vstat r'))
           in (PNode s' p k vs a' l' r', a'))"

section \<open>The skeleton of a tree\<close>

text \<open>Keys and priorities only: the treap invariant does not depend on values.\<close>

primrec skel :: "pnode \<Rightarrow> tree" where
  "skel PNull = Null"
| "skel (PNode s p k vs a l r) = Node 0 p k 0 0 (skel l) (skel r)"

abbreviation ptreap :: "(u64 \<Rightarrow> u64) \<Rightarrow> pnode \<Rightarrow> bool" where
  "ptreap h t \<equiv> treap h (skel t)"

abbreviation pkeys :: "pnode \<Rightarrow> u64 set" where
  "pkeys t \<equiv> keys (skel t)"

section \<open>Operations on temporary trees\<close>

fun pam_split :: "pnode \<Rightarrow> u64 \<Rightarrow> pnode \<times> pnode" where
  "pam_split PNull key = (PNull, PNull)"
| "pam_split (PNode s p k vs a l r) key =
     (if key < k then (let (t_l, sub) = pam_split l key in (t_l, PNode s p k vs a sub r))
      else (let (sub, t_r) = pam_split r key in (PNode s p k vs a l sub, t_r)))"

lemma skel_split:
  "skel (fst (pam_split t key)) = fst (split (skel t) key)"
  "skel (snd (pam_split t key)) = snd (split (skel t) key)"
  by (induction t) (auto simp: split_beta)

definition pnodes :: "pnode \<Rightarrow> nat" where
  "pnodes t = nodes (skel t)"

lemma pnodes_simps [simp]:
  "pnodes PNull = 0" "pnodes (PNode s p k vs a l r) = Suc (pnodes l + pnodes r)"
  by (simp_all add: pnodes_def)

lemma pnodes_split: "pnodes (fst (pam_split t key)) \<le> pnodes t" "pnodes (snd (pam_split t key)) \<le> pnodes t"
  by (simp_all add: pnodes_def skel_split nodes_split_fst nodes_split_snd)

text \<open>\<open>vals[0].val += ...\<close> of \<open>merge\<close>: in trees made by \<open>build\<close> every node has one value.\<close>

fun add_first :: "u64 \<Rightarrow> valver list \<Rightarrow> valver list" where
  "add_first x [] = []"
| "add_first x (y # vs) = y\<lparr>v_val := v_val y + x\<rparr> # vs"

definition merge_values :: "valver list \<Rightarrow> valver list \<Rightarrow> valver list" where
  "merge_values vs ws = vs @ map (\<lambda>w. \<lparr>v_val = v_val (last vs) + v_val w, v_ver = v_ver w\<rparr>) ws"

text \<open>
  \<open>merge\<close> and \<open>merge_versioned\<close> differ in what happens to the values of a common key, which is the
  argument \<open>join\<close>.
\<close>

function pam_merge_with :: "(valver list \<Rightarrow> valver list \<Rightarrow> valver list) \<Rightarrow> pnode \<Rightarrow> pnode \<Rightarrow> pnode" where
  "pam_merge_with join PNull t_1 = t_1"
| "pam_merge_with join (PNode s p k vs a l r) PNull = PNode s p k vs a l r"
| "pam_merge_with join (PNode s p k vs a l r) (PNode s' p' k' vs' a' l' r') =
     (if k = k' then
        (let (lch, rch) = par_do (pam_merge_with join l l') (pam_merge_with join r r')
         in PNode s p k (join vs vs') a lch rch)
      else if p > p' then
        (let t_l = fst (pam_split (PNode s' p' k' vs' a' l' r') k); t_r = snd (pam_split (PNode s' p' k' vs' a' l' r') k);
             (lch, rch) = par_do (pam_merge_with join l t_l) (pam_merge_with join r t_r)
         in PNode s p k vs a lch rch)
      else
        (let t_l = fst (pam_split (PNode s p k vs a l r) k'); t_r = snd (pam_split (PNode s p k vs a l r) k');
             (lch, rch) = par_do (pam_merge_with join t_l l') (pam_merge_with join t_r r')
         in PNode s' p' k' vs' a' lch rch))"
  by pat_completeness auto
termination
proof (relation "measure (\<lambda>(_, s, t). pnodes s + pnodes t)", goal_cases)
  case (4 join s p k vs a l r s' p' k' vs' a' l' r' t_l t_r)
  then show ?case using pnodes_split(1) [of "PNode s' p' k' vs' a' l' r'" k] by simp
next
  case (5 join s p k vs a l r s' p' k' vs' a' l' r' t_l t_r)
  then show ?case using pnodes_split(2) [of "PNode s' p' k' vs' a' l' r'" k] by simp
next
  case (6 join s p k vs a l r s' p' k' vs' a' l' r' t_l t_r)
  then show ?case using pnodes_split(1) [of "PNode s p k vs a l r" k'] by simp
next
  case (7 join s p k vs a l r s' p' k' vs' a' l' r' t_l t_r)
  then show ?case using pnodes_split(2) [of "PNode s p k vs a l r" k'] by simp
qed simp_all

definition pam_merge :: "pnode \<Rightarrow> pnode \<Rightarrow> pnode" where
  "pam_merge = pam_merge_with (\<lambda>vs ws. add_first (v_val (hd ws)) vs)"

definition merge_versioned :: "pnode \<Rightarrow> pnode \<Rightarrow> pnode" where
  "merge_versioned = pam_merge_with merge_values"

lemma pam_merge_Node:
  "pam_merge_with join (PNode s p k vs a l r) (PNode s' p' k' vs' a' l' r') =
     (if k = k' then PNode s p k (join vs vs') a (pam_merge_with join l l') (pam_merge_with join r r')
      else if p > p' then
        (let (t_l, t_r) = pam_split (PNode s' p' k' vs' a' l' r') k
         in PNode s p k vs a (pam_merge_with join l t_l) (pam_merge_with join r t_r))
      else (let (t_l, t_r) = pam_split (PNode s p k vs a l r) k'
            in PNode s' p' k' vs' a' (pam_merge_with join t_l l') (pam_merge_with join t_r r')))"
  by (simp add: par_do_def Let_def split_beta del: pam_split.simps)

declare pam_merge_with.simps(3) [simp del]

function pam_build :: "(u64 \<Rightarrow> u64) \<Rightarrow> nat \<Rightarrow> u64 list \<Rightarrow> pnode" where
  "pam_build h n elems =
     (if n = 0 then PNull
      else if n = 1 then pam_make_node_hash h 0 (elems ! 0)
      else (let (t_0, t_1) = par_do (pam_build h (n div 2) elems) (pam_build h (n - n div 2) (drop (n div 2) elems))
            in pam_merge t_0 t_1))"
  by pat_completeness auto
termination
  by (relation "measure (\<lambda>(h, n, elems). n)") auto

function build_versioned :: "(u64 \<Rightarrow> u64) \<Rightarrow> nat \<Rightarrow> nat \<Rightarrow> u64 list \<Rightarrow> pnode" where
  "build_versioned h ver n elems =
     (if n = 0 then PNull
      else if n = 1 then pam_make_node_hash h ver (elems ! 0)
      else (let (t_0, t_1) = par_do (build_versioned h ver (n div 2) elems)
                 (build_versioned h (ver + n div 2) (n - n div 2) (drop (n div 2) elems))
            in merge_versioned t_0 t_1))"
  by pat_completeness auto
termination
  by (relation "measure (\<lambda>(h, ver, n, elems). n)") auto

declare pam_build.simps [simp del] build_versioned.simps [simp del]

section \<open>Operations on persistent trees\<close>

definition update_values :: "valver list \<Rightarrow> u64 \<Rightarrow> valver list" where
  "update_values vs val_base = map (\<lambda>x. x\<lparr>v_val := v_val x + val_base\<rparr>) vs"

fun copy_split :: "pnode \<Rightarrow> u64 \<Rightarrow> pnode \<times> pnode" where
  "copy_split PNull key = (PNull, PNull)"
| "copy_split (PNode s p k vs a l r) key =
     (let t = PNode s p k vs a l r in
      if key < k then (let (t_l, sub) = copy_split l key in (t_l, pam_set_children (pam_weak_copy t) sub r))
      else (let (sub, t_r) = copy_split r key in (pam_set_children (pam_weak_copy t) l sub, t_r)))"

lemma pnodes_copy_split: "pnodes (fst (copy_split t key)) \<le> pnodes t" "pnodes (snd (copy_split t key)) \<le> pnodes t"
  by (induction t) (auto simp: Let_def split_beta pam_make_node_def)

function copy_merge :: "pnode \<Rightarrow> pnode \<Rightarrow> pnode" where
  "copy_merge PNull t_ins = t_ins"
| "copy_merge (PNode s p k vs a l r) PNull = PNode s p k vs a l r"
| "copy_merge (PNode s p k vs a l r) (PNode s' p' k' vs' a' l' r') =
     (if p > p' then
        (let t_new = pam_weak_copy (PNode s p k vs a l r);
             t_ins_l = fst (pam_split (PNode s' p' k' vs' a' l' r') k);
             t_ins_r = snd (pam_split (PNode s' p' k' vs' a' l' r') k);
             (lch, rch) = par_do (copy_merge l t_ins_l) (copy_merge r t_ins_r)
         in pam_set_children t_new lch rch)
      else if k = k' then
        (let t_new = PNode s' p' k' (update_values vs' (v_val (last vs))) a' PNull PNull;
             (lch, rch) = par_do (copy_merge l l') (copy_merge r r')
         in pam_set_children t_new lch rch)
      else
        (let t_new = PNode s' p' k' vs' a' PNull PNull;
             t_old_l = fst (copy_split (PNode s p k vs a l r) k'); t_old_r = snd (copy_split (PNode s p k vs a l r) k');
             (lch, rch) = par_do (copy_merge t_old_l l') (copy_merge t_old_r r')
         in pam_set_children t_new lch rch))"
  by pat_completeness auto
termination
proof (relation "measure (\<lambda>(s, t). pnodes s + pnodes t)", goal_cases)
  case (2 s p k vs a l r s' p' k' vs' a' l' r' t_new t_l t_r)
  then show ?case using pnodes_split(1) [of "PNode s' p' k' vs' a' l' r'" k] by simp
next
  case (3 s p k vs a l r s' p' k' vs' a' l' r' t_new t_l t_r)
  then show ?case using pnodes_split(2) [of "PNode s' p' k' vs' a' l' r'" k] by simp
next
  case (6 s p k vs a l r s' p' k' vs' a' l' r' t_new t_l t_r)
  then show ?case using pnodes_copy_split(1) [of "PNode s p k vs a l r" k'] by (simp del: copy_split.simps)
next
  case (7 s p k vs a l r s' p' k' vs' a' l' r' t_new t_l t_r)
  then show ?case using pnodes_copy_split(2) [of "PNode s p k vs a l r" k'] by (simp del: copy_split.simps)
qed simp_all

fun make_copy_if_need :: "pnode \<Rightarrow> pnode" where
  "make_copy_if_need PNull = PNull"
| "make_copy_if_need (PNode s p k vs a l r) =
     (if s = vstat_uninitialized then PNode s p k vs a l r else pam_weak_copy (PNode s p k vs a l r))"

fun copy_concat :: "pnode \<Rightarrow> pnode \<Rightarrow> pnode" where
  "copy_concat PNull t_r = t_r"
| "copy_concat t_l PNull = t_l"
| "copy_concat (PNode s p k vs a l r) (PNode s' p' k' vs' a' l' r') =
     (let t_l = PNode s p k vs a l r; t_r = PNode s' p' k' vs' a' l' r' in
      if p > p' then pam_set_children (make_copy_if_need t_l) l (copy_concat r t_r)
      else pam_set_children (make_copy_if_need t_r) (copy_concat t_l l') r')"

lemma pnodes_copy_concat: "pnodes (copy_concat s t) = pnodes s + pnodes t"
  by (induction s t rule: copy_concat.induct) (auto simp: Let_def pam_make_node_def)

function copy_subtract :: "pnode \<Rightarrow> pnode \<Rightarrow> pnode" where
  "copy_subtract PNull t_det = PNull"
| "copy_subtract (PNode s p k vs a l r) PNull = PNode s p k vs a l r"
| "copy_subtract (PNode s p k vs a l r) (PNode s' p' k' vs' a' l' r') =
     (if k = k' then
        (let (t_new_l, t_new_r) = par_do (copy_subtract l l') (copy_subtract r r') in copy_concat t_new_l t_new_r)
      else if p > p' then
        (let t_new = pam_weak_copy (PNode s p k vs a l r);
             t_det_l = fst (pam_split (PNode s' p' k' vs' a' l' r') k);
             t_det_r = snd (pam_split (PNode s' p' k' vs' a' l' r') k);
             (lch, rch) = par_do (copy_subtract l t_det_l) (copy_subtract r t_det_r)
         in pam_set_children t_new lch rch)
      else copy_subtract (PNode s p k vs a l r) (copy_concat l' r'))"
  by pat_completeness auto
termination
proof (relation "measure (\<lambda>(s, t). pnodes s + pnodes t)", goal_cases)
  case (4 s p k vs a l r s' p' k' vs' a' l' r' t_new t_l t_r)
  then show ?case using pnodes_split(1) [of "PNode s' p' k' vs' a' l' r'" k] by simp
next
  case (5 s p k vs a l r s' p' k' vs' a' l' r' t_new t_l t_r)
  then show ?case using pnodes_split(2) [of "PNode s' p' k' vs' a' l' r'" k] by simp
qed (simp_all add: pnodes_copy_concat)

section \<open>The interface\<close>

definition pam_interface_build :: "(u64 \<Rightarrow> u64) \<Rightarrow> nat \<Rightarrow> u64 list \<Rightarrow> pnode" where
  "pam_interface_build h n elems = fst (pam_augment_parallel (pam_build h n elems))"

definition inserted_one :: "(u64 \<Rightarrow> u64) \<Rightarrow> pnode \<Rightarrow> nat \<Rightarrow> u64 \<Rightarrow> pnode" where
  "inserted_one h t_old ver elem = fst (pam_augment_parallel (copy_merge t_old (pam_make_node_hash h ver elem)))"

definition inserted :: "(u64 \<Rightarrow> u64) \<Rightarrow> pnode \<Rightarrow> nat \<Rightarrow> nat \<Rightarrow> u64 list \<Rightarrow> pnode" where
  "inserted h t_old ver n elems = fst (pam_augment_parallel (copy_merge t_old (build_versioned h ver n elems)))"

definition deleted_one :: "(u64 \<Rightarrow> u64) \<Rightarrow> pnode \<Rightarrow> nat \<Rightarrow> u64 \<Rightarrow> pnode" where
  "deleted_one h t_old ver elem = fst (pam_augment_parallel (copy_subtract t_old (pam_make_node_hash h ver elem)))"

definition deleted :: "(u64 \<Rightarrow> u64) \<Rightarrow> pnode \<Rightarrow> nat \<Rightarrow> nat \<Rightarrow> u64 list \<Rightarrow> pnode" where
  "deleted h t_old ver n elems = fst (pam_augment_parallel (copy_subtract t_old (build_versioned h ver n elems)))"

end
