(* ===== verification/PAM_Trees.thy ===== *)
theory PAM_Trees
  imports PAM Versions
begin

text \<open>
  The batch backend's trees: value lists, what a tree stores under a key, and the operations on
  temporary trees. Merging adds the values of common keys; a tree built from a batch records under
  each key how often it occurs up to each version of the batch.
\<close>

section \<open>Version lists\<close>

definition wf_vals :: "valver list \<Rightarrow> bool" where
  "wf_vals vs \<longleftrightarrow> vs \<noteq> [] \<and> sorted_wrt (<) (map v_ver vs)"

lemma find_from_last: "vs \<noteq> [] \<Longrightarrow> \<forall>x \<in> set vs. v_ver x \<le> v \<Longrightarrow> find_from vs v = v_val (last vs)"
  by (induction vs v rule: find_from.induct) auto

lemma find_value_last: "vs \<noteq> [] \<Longrightarrow> \<forall>x \<in> set vs. v_ver x \<le> v \<Longrightarrow> find_value vs v = v_val (last vs)"
  by (cases vs) (auto simp: find_value_def find_from_last)

lemma find_value_early: "v < v_ver (hd vs) \<Longrightarrow> find_value vs v = 0"
  by (simp add: find_value_def)

lemma find_from_append:
  "vs \<noteq> [] \<Longrightarrow> ws \<noteq> [] \<Longrightarrow> find_from (vs @ ws) v = (if v < v_ver (hd ws) then find_from vs v else find_from ws v)"
  if "sorted_wrt (<) (map v_ver (vs @ ws))" for vs ws
  using that
proof (induction vs v rule: find_from.induct)
  case (2 x v)
  then show ?case by (cases ws) auto
next
  case (3 x y vs v)
  have lt: "v_ver y < v_ver (hd ws)" using "3.prems" by (cases ws) auto
  have IH: "find_from ((y # vs) @ ws) v = (if v < v_ver (hd ws) then find_from (y # vs) v else find_from ws v)"
    if "\<not> v < v_ver y" using "3.IH" [OF that] "3.prems" by simp
  show ?case using IH lt by (cases "v < v_ver y") auto
qed simp

lemma find_from_map:
  "vs \<noteq> [] \<Longrightarrow> find_from (map (\<lambda>w. \<lparr>v_val = x + v_val w, v_ver = v_ver w\<rparr>) vs) v = x + find_from vs v"
  by (induction vs v rule: find_from.induct) auto

lemma wf_valsD: "wf_vals vs \<Longrightarrow> vs \<noteq> []" "wf_vals vs \<Longrightarrow> x \<in> set vs \<Longrightarrow> v_ver (hd vs) \<le> v_ver x"
  "wf_vals vs \<Longrightarrow> x \<in> set vs \<Longrightarrow> v_ver x \<le> v_ver (last vs)"
proof -
  assume wf: "wf_vals vs"
  then show ne: "vs \<noteq> []" by (simp add: wf_vals_def)
  assume x: "x \<in> set vs"
  show "v_ver (hd vs) \<le> v_ver x" using wf x by (cases vs) (auto simp: wf_vals_def)
  have "sorted_wrt (<) (map v_ver (butlast vs @ [last vs]))" using wf ne by (simp add: wf_vals_def)
  moreover have "set vs = insert (last vs) (set (butlast vs))" using ne by (metis append_butlast_last_id list.set(1,2) set_append Un_insert_right Un_empty_right)
  ultimately show "v_ver x \<le> v_ver (last vs)" using x by (auto simp: sorted_wrt_append)
qed

lemma wf_merge_values:
  assumes "wf_vals vs" "wf_vals ws" "\<forall>x \<in> set vs. \<forall>y \<in> set ws. v_ver x < v_ver y"
  shows "wf_vals (merge_values vs ws)"
proof -
  have "map v_ver (map (\<lambda>w. \<lparr>v_val = v_val (last vs) + v_val w, v_ver = v_ver w\<rparr>) ws) = map v_ver ws" by simp
  then have "map v_ver (merge_values vs ws) = map v_ver vs @ map v_ver ws" unfolding merge_values_def map_append by simp
  moreover have "sorted_wrt (<) (map v_ver vs @ map v_ver ws)" using assms by (auto simp: wf_vals_def sorted_wrt_append)
  moreover have "merge_values vs ws \<noteq> []" using wf_valsD(1) [OF assms(1)] by (simp add: merge_values_def)
  ultimately show ?thesis by (simp add: wf_vals_def)
qed

lemma find_value_merge:
  assumes "wf_vals vs" "wf_vals ws" "\<forall>x \<in> set vs. \<forall>y \<in> set ws. v_ver x < v_ver y"
  shows "find_value (merge_values vs ws) v = find_value vs v + find_value ws v"
proof -
  let ?ws = "map (\<lambda>w. \<lparr>v_val = v_val (last vs) + v_val w, v_ver = v_ver w\<rparr>) ws"
  have ne: "vs \<noteq> []" "ws \<noteq> []" using assms by (simp_all add: wf_valsD)
  have hd: "v_ver (hd ?ws) = v_ver (hd ws)" "hd (vs @ ?ws) = hd vs" using ne by (simp_all add: hd_map)
  have less: "v_ver (hd vs) < v_ver (hd ws)" using assms(3) ne by simp
  have "sorted_wrt (<) (map v_ver (vs @ ?ws))" using wf_merge_values [OF assms] by (simp add: wf_vals_def merge_values_def)
  from find_from_append [OF this] ne have f: "find_from (vs @ ?ws) v =
      (if v < v_ver (hd ws) then find_from vs v else v_val (last vs) + find_from ws v)" by (simp add: hd find_from_map)
  have late: "find_from vs v = v_val (last vs)" if "\<not> v < v_ver (hd ws)"
  proof (rule find_from_last [OF ne(1)], rule ballI)
    fix x assume "x \<in> set vs"
    then have "v_ver x < v_ver (hd ws)" using assms(3) ne(2) by simp
    then show "v_ver x \<le> v" using that by simp
  qed
  show ?thesis using less f late by (auto simp: find_value_def merge_values_def hd)
qed

lemma update_values_simps [simp]:
  "update_values vs b = [] \<longleftrightarrow> vs = []" "map v_ver (update_values vs b) = map v_ver vs"
  "v_ver ` set (update_values vs b) = v_ver ` set vs"
  by (auto simp: update_values_def image_image)

lemma wf_update_values [simp]: "wf_vals (update_values vs b) = wf_vals vs"
  by (simp add: wf_vals_def)

lemma find_value_update:
  assumes "vs \<noteq> []"
  shows "find_value (update_values vs b) v = (if v < v_ver (hd vs) then 0 else find_value vs v + b)"
proof -
  have "find_from (update_values vs b) v = find_from vs v + b" if "vs \<noteq> []" for vs
    using that unfolding update_values_def by (induction vs v rule: find_from.induct) auto
  moreover have "v_ver (hd (update_values vs b)) = v_ver (hd vs)" using assms by (simp add: update_values_def hd_map)
  ultimately show ?thesis using assms by (simp add: find_value_def)
qed

section \<open>Contents\<close>

text \<open>What is stored under a key, through a projection \<open>f\<close> of its value list.\<close>

primrec lookup :: "(valver list \<Rightarrow> 'b) \<Rightarrow> pnode \<Rightarrow> u64 \<rightharpoonup> 'b" where
  "lookup f PNull = Map.empty"
| "lookup f (PNode s p k vs a l r) = (lookup f l ++ lookup f r)(k \<mapsto> f vs)"

abbreviation entries :: "pnode \<Rightarrow> u64 \<rightharpoonup> valver list" where
  "entries \<equiv> lookup (\<lambda>vs. vs)"

lemma lookup_map: "lookup f t k = map_option f (entries t k)"
  by (induction t) (auto simp: map_add_def split: option.split)

lemma dom_lookup [simp]: "dom (lookup f t) = pkeys t"
proof (induction t)
  case (PNode s p k vs a l r)
  have "dom (lookup f (PNode s p k vs a l r)) = insert k (dom (lookup f r) \<union> dom (lookup f l))"
    by (simp only: lookup.simps dom_fun_upd dom_map_add option.distinct if_False)
  with PNode show ?case by (simp only: skel.simps keys.simps Un_commute)
qed simp

lemma lookup_eq_None [simp]: "lookup f t k = None \<longleftrightarrow> k \<notin> pkeys t"
  by (metis dom_lookup domIff)

lemma lookup_Node:
  assumes "ptreap h (PNode s p k vs a l r)"
  shows "lookup f (PNode s p k vs a l r) y = (if y < k then lookup f l y else if k < y then lookup f r y else Some (f vs))"
  using assms by (auto simp: map_add_def split: option.split) (metis lookup_eq_None less_asym option.discI)+

declare lookup.simps(2) [simp del]

lemma pam_find_lookup:
  "ptreap h t \<Longrightarrow> pam_find t v key = (case lookup (\<lambda>vs. find_value vs v) t key of None \<Rightarrow> 0 | Some x \<Rightarrow> x)"
proof (induction t)
  case (PNode s p k vs a l r)
  then show ?case unfolding lookup_Node [OF PNode.prems] by (auto simp: not_less_iff_gr_or_eq)
qed simp

lemma split_lookup:
  assumes "ptreap h t" "pam_split t key = (a, b)"
  shows "ptreap h a" "ptreap h b" "pkeys a = {y \<in> pkeys t. y \<le> key}" "pkeys b = {y \<in> pkeys t. key < y}"
    "lookup f a y = (if y \<le> key then lookup f t y else None)" "lookup f b y = (if key < y then lookup f t y else None)"
proof -
  have s: "split (skel t) key = (skel a, skel b)" using skel_split [of t key] assms(2) by (simp add: prod_eq_iff)
  note sc = split_contents [OF assms(1) s]
  show "ptreap h a" "ptreap h b" "pkeys a = {y \<in> pkeys t. y \<le> key}" "pkeys b = {y \<in> pkeys t. key < y}" by (rule sc)+
  have "lookup f a y = (if y \<le> key then lookup f t y else None) \<and> lookup f b y = (if key < y then lookup f t y else None)"
    using assms
  proof (induction t arbitrary: a b)
    case (PNode s p k vs u l r)
    have sub: "ptreap h l" "ptreap h r" using PNode.prems(1) by simp_all
    obtain c d where o: "pam_split (PNode s p k vs u l r) key = (c, d)" "c = a" "d = b" using PNode.prems(2) by simp
    have sk: "split (skel (PNode s p k vs u l r)) key = (skel a, skel b)"
      using skel_split [of "PNode s p k vs u l r" key] PNode.prems(2) by (simp add: prod_eq_iff del: skel.simps)
    note tr = split_contents(1,2) [OF PNode.prems(1) sk]
    show ?case
    proof (cases "key < k")
      case True
      then obtain e where e: "pam_split l key = (a, e)" "b = PNode s p k vs u e r" using PNode.prems(2) by (auto split: prod.splits)
      from PNode.IH(1) [OF sub(1) e(1)] True show ?thesis
        unfolding e(2) lookup_Node [OF PNode.prems(1)] lookup_Node [OF tr(2) [unfolded e(2)]] by auto
    next
      case False
      then obtain e where e: "pam_split r key = (e, b)" "a = PNode s p k vs u l e" using PNode.prems(2) by (auto split: prod.splits)
      from PNode.IH(2) [OF sub(2) e(1)] False show ?thesis
        unfolding e(2) lookup_Node [OF PNode.prems(1)] lookup_Node [OF tr(1) [unfolded e(2)]] by auto
    qed
  qed simp
  then show "lookup f a y = (if y \<le> key then lookup f t y else None)" "lookup f b y = (if key < y then lookup f t y else None)"
    by simp_all
qed

section \<open>Merging temporary trees\<close>

definition join_maps :: "('v \<Rightarrow> 'v \<Rightarrow> 'v) \<Rightarrow> (u64 \<rightharpoonup> 'v) \<Rightarrow> (u64 \<rightharpoonup> 'v) \<Rightarrow> u64 \<rightharpoonup> 'v" where
  "join_maps j m n k = (case m k of None \<Rightarrow> n k | Some x \<Rightarrow> (case n k of None \<Rightarrow> Some x | Some y \<Rightarrow> Some (j x y)))"

lemma join_maps_None [simp]: "m k = None \<Longrightarrow> join_maps j m n k = n k" "n k = None \<Longrightarrow> join_maps j m n k = m k"
  by (auto simp: join_maps_def split: option.split)

lemma skel_merge:
  "ptreap h s \<Longrightarrow> ptreap h t \<Longrightarrow> skel (pam_merge_with join s t) = merge (skel s) (skel t)"
proof (induction join s t rule: pam_merge_with.induct)
  case (3 join s p k vs a l r s' p' k' vs' a' l' r')
  let ?s = "PNode s p k vs a l r" and ?t = "PNode s' p' k' vs' a' l' r'"
  have sub: "ptreap h l" "ptreap h r" "ptreap h l'" "ptreap h r'" using "3.prems" by simp_all
  consider "k = k'" | "k \<noteq> k'" "p > p'" | "k \<noteq> k'" "\<not> p > p'" by blast
  then show ?case
  proof cases
    case 1
    then have "p = p'" using "3.prems" by simp
    with "3.IH"(1,2) [OF 1] sub 1 show ?thesis by (simp add: pam_merge_Node merge_Node)
  next
    case 2
    obtain c d where s: "pam_split ?t k = (c, d)" by fastforce
    have sk: "split (skel ?t) k = (skel c, skel d)" using skel_split [of ?t k] s by (simp add: prod_eq_iff del: skel.simps)
    note tr = split_lookup(1,2) [OF "3.prems"(2) s]
    have "pam_merge_with join ?s ?t = PNode s p k vs a (pam_merge_with join l c) (pam_merge_with join r d)"
      using 2 by (simp only: pam_merge_Node s if_False if_True case_prod_conv Let_def)
    moreover have "merge (skel ?s) (skel ?t) = Node 0 p k 0 0 (merge (skel l) (skel c)) (merge (skel r) (skel d))"
      using 2 sk by (simp add: merge_Node del: split.simps)
    ultimately show ?thesis using "3.IH"(3,4) [OF 2 refl refl] sub tr by (simp add: s del: pam_split.simps)
  next
    case 3
    obtain c d where s: "pam_split ?s k' = (c, d)" by fastforce
    have sk: "split (skel ?s) k' = (skel c, skel d)" using skel_split [of ?s k'] s by (simp add: prod_eq_iff del: skel.simps)
    note tr = split_lookup(1,2) [OF "3.prems"(1) s]
    have "pam_merge_with join ?s ?t = PNode s' p' k' vs' a' (pam_merge_with join c l') (pam_merge_with join d r')"
      using 3 by (simp only: pam_merge_Node s if_False if_True case_prod_conv Let_def)
    moreover have "merge (skel ?s) (skel ?t) = Node 0 p' k' 0 0 (merge (skel c) (skel l')) (merge (skel d) (skel r'))"
      using 3 sk by (simp add: merge_Node del: split.simps)
    ultimately show ?thesis using "3.IH"(5,6) [OF 3 refl refl] sub tr by (simp add: s del: pam_split.simps)
  qed
qed simp_all

lemma treap_pam_merge:
  "ptreap h s \<Longrightarrow> ptreap h t \<Longrightarrow> inj h \<Longrightarrow> ptreap h (pam_merge_with join s t) \<and> pkeys (pam_merge_with join s t) = pkeys s \<union> pkeys t"
  by (simp add: skel_merge treap_merge_keys)

lemma lookup_merge:
  "ptreap h s \<Longrightarrow> ptreap h t \<Longrightarrow> inj h \<Longrightarrow>
   entries (pam_merge_with join s t) y = join_maps join (entries s) (entries t) y"
proof (induction join s t arbitrary: y rule: pam_merge_with.induct)
  case (3 join s p k vs a l r s' p' k' vs' a' l' r')
  let ?s = "PNode s p k vs a l r" and ?t = "PNode s' p' k' vs' a' l' r'"
  have sub: "ptreap h l" "ptreap h r" "ptreap h l'" "ptreap h r'" and p: "p = h k" "p' = h k'"
    using "3.prems" by simp_all
  have t: "ptreap h (pam_merge_with join ?s ?t)" using treap_pam_merge [OF "3.prems"] by blast
  note nodes = lookup_Node [OF "3.prems"(1)] lookup_Node [OF "3.prems"(2)]
  consider "k = k'" | "k \<noteq> k'" "p > p'" | "k \<noteq> k'" "\<not> p > p'" by blast
  then show ?case
  proof cases
    case 1
    then have m: "pam_merge_with join ?s ?t = PNode s p k (join vs vs') a (pam_merge_with join l l') (pam_merge_with join r r')"
      by (simp add: pam_merge_Node)
    show ?thesis
      using "3.IH"(1,2) [OF 1] sub "3.prems"(3) 1
      unfolding m lookup_Node [OF t [unfolded m]] join_maps_def nodes by simp
  next
    case 2
    obtain c d where s: "pam_split ?t k = (c, d)" by fastforce
    note sc = split_lookup [OF "3.prems"(2) s]
    have m: "pam_merge_with join ?s ?t = PNode s p k vs a (pam_merge_with join l c) (pam_merge_with join r d)"
      using 2 by (simp only: pam_merge_Node s if_False if_True case_prod_conv Let_def)
    have absent: "entries ?t k = None"
      using heap_absent(1) [OF "3.prems"(2) [unfolded skel.simps] "3.prems"(3), of k] 2 p by simp
    have "entries (pam_merge_with join l c) y = join_maps join (entries l) (entries c) y"
      "entries (pam_merge_with join r d) y = join_maps join (entries r) (entries d) y"
      using "3.IH"(3,4) [OF 2 refl refl] sub sc(1,2) "3.prems"(3) by (simp_all only: s fst_conv snd_conv)
    then show ?thesis
      using absent unfolding m lookup_Node [OF t [unfolded m]] join_maps_def lookup_Node [OF "3.prems"(1)] sc(5,6)
      by (cases y k rule: linorder_cases) (simp_all add: less_imp_le less_not_sym del: lookup_eq_None)
  next
    case 3
    obtain c d where s: "pam_split ?s k' = (c, d)" by fastforce
    note sc = split_lookup [OF "3.prems"(1) s]
    have m: "pam_merge_with join ?s ?t = PNode s' p' k' vs' a' (pam_merge_with join c l') (pam_merge_with join d r')"
      using 3 by (simp only: pam_merge_Node s if_False if_True case_prod_conv Let_def)
    have absent: "entries ?s k' = None"
      using heap_absent(1) [OF "3.prems"(1) [unfolded skel.simps] "3.prems"(3), of k'] 3 p by (simp add: not_less)
    have "entries (pam_merge_with join c l') y = join_maps join (entries c) (entries l') y"
      "entries (pam_merge_with join d r') y = join_maps join (entries d) (entries r') y"
      using "3.IH"(5,6) [OF 3 refl refl] sub sc(1,2) "3.prems"(3) by (simp_all only: s fst_conv snd_conv)
    then show ?thesis
      using absent unfolding m lookup_Node [OF t [unfolded m]] join_maps_def lookup_Node [OF "3.prems"(2)] sc(5,6)
      by (cases y k' rule: linorder_cases) (simp_all add: less_imp_le less_not_sym split: option.split del: lookup_eq_None)
  qed
qed (auto simp: join_maps_def split: option.split)

section \<open>Building\<close>

text \<open>
  The values of a key in a tree built from \<open>xs\<close>, whose first element has version \<open>ver\<close>: at version \<open>v\<close>
  the value counts the occurrences among the elements with versions up to \<open>v\<close>, and the list begins
  at the first of them.
\<close>

definition history :: "nat \<Rightarrow> u64 list \<Rightarrow> u64 \<Rightarrow> valver list \<Rightarrow> bool" where
  "history ver xs k vs \<longleftrightarrow> wf_vals vs \<and> v_ver ` set vs \<subseteq> {ver..<ver + length xs} \<and>
     (\<forall>v. find_value vs v = of_nat (count_list (take (Suc v - ver) xs) k)) \<and>
     (\<forall>v. v < v_ver (hd vs) \<longleftrightarrow> k \<notin> set (take (Suc v - ver) xs))"

definition built :: "nat \<Rightarrow> u64 list \<Rightarrow> (u64 \<rightharpoonup> valver list) \<Rightarrow> bool" where
  "built ver xs m \<longleftrightarrow> (\<forall>k. case m k of None \<Rightarrow> k \<notin> set xs | Some vs \<Rightarrow> k \<in> set xs \<and> history ver xs k vs)"

lemma history_left: "history ver xs k vs \<Longrightarrow> k \<notin> set ys \<Longrightarrow> history ver (xs @ ys) k vs"
proof -
  assume h: "history ver xs k vs" and k: "k \<notin> set ys"
  have "k \<notin> set (take n ys)" for n using k by (meson in_set_takeD)
  with h show ?thesis by (auto simp: history_def)
qed

lemma history_right: "history (ver + length xs) ys k ws \<Longrightarrow> k \<notin> set xs \<Longrightarrow> history ver (xs @ ys) k ws"
proof -
  assume h: "history (ver + length xs) ys k ws" and k: "k \<notin> set xs"
  have "k \<notin> set (take n xs)" for n using k by (meson in_set_takeD)
  moreover have "Suc v - ver - length xs = Suc v - (ver + length xs)" for v by simp
  ultimately show ?thesis using h by (auto simp: history_def)
qed

lemma history_append:
  assumes "history ver xs k vs" "history (ver + length xs) ys k ws"
  shows "history ver (xs @ ys) k (merge_values vs ws)"
proof -
  have lt: "\<forall>x \<in> set vs. \<forall>y \<in> set ws. v_ver x < v_ver y" using assms by (fastforce simp: history_def)
  have wf: "wf_vals vs" "wf_vals ws" using assms by (simp_all add: history_def)
  have s: "Suc v - ver - length xs = Suc v - (ver + length xs)" for v by simp
  have hd: "v_ver (hd (merge_values vs ws)) = v_ver (hd vs)" using wf_valsD(1) [OF wf(1)] by (simp add: merge_values_def)
  have hdlt: "v_ver (hd vs) < v_ver (hd ws)" using lt wf by (simp add: wf_valsD)
  have "v_ver ` set (merge_values vs ws) = v_ver ` set vs \<union> v_ver ` set ws"
    by (simp add: merge_values_def image_Un image_image)
  moreover have "\<not> v < v_ver (hd vs)" if "k \<in> set (take (Suc v - (ver + length xs)) ys)" for v
  proof -
    have "v_ver (hd ws) \<le> v" using assms(2) that by (simp add: history_def flip: not_less)
    then show ?thesis using hdlt by simp
  qed
  ultimately show ?thesis using assms find_value_merge [OF wf lt] wf_merge_values [OF wf lt]
    by (fastforce simp: history_def hd s)
qed

lemma built_merge:
  assumes "built ver xs m" "built (ver + length xs) ys n"
  shows "built ver (xs @ ys) (join_maps merge_values m n)"
proof -
  have "case join_maps merge_values m n k of None \<Rightarrow> k \<notin> set (xs @ ys) | Some vs \<Rightarrow> k \<in> set (xs @ ys) \<and> history ver (xs @ ys) k vs" for k
    using assms [unfolded built_def, THEN spec, of k]
    by (cases "m k"; cases "n k") (auto simp: join_maps_def intro: history_left history_right history_append)
  then show ?thesis by (simp add: built_def)
qed

lemma history_one: "history ver [k] k [\<lparr>v_val = 1, v_ver = ver\<rparr>]"
proof -
  have "take (Suc v - ver) [k] = (if v < ver then [] else [k])" for v by (cases "Suc v - ver") auto
  then show ?thesis by (auto simp: history_def wf_vals_def find_value_def)
qed

lemma build_versioned_small [simp]:
  "build_versioned h ver 0 elems = PNull"
  "build_versioned h ver (Suc 0) elems = pam_make_node_hash h ver (elems ! 0)"
  by (simp_all add: build_versioned.simps)

lemma entries_make_node [simp]:
  "entries (pam_make_node_hash h ver k) = [k \<mapsto> [\<lparr>v_val = 1, v_ver = ver\<rparr>]]" "ptreap h (pam_make_node_hash h ver k)"
  by (simp_all add: pam_make_node_hash_def pam_make_node_def lookup.simps)

lemma build_versioned_correct:
  "inj h \<Longrightarrow> n \<le> length elems \<Longrightarrow>
   ptreap h (build_versioned h ver n elems) \<and> built ver (take n elems) (entries (build_versioned h ver n elems))"
proof (induction h ver n elems rule: build_versioned.induct)
  case (1 h ver n elems)
  consider "n = 0" | "n = 1" | "n > 1" by linarith
  then show ?case
  proof cases
    case 1
    then show ?thesis by (simp add: built_def)
  next
    case 2
    then obtain e es where "elems = e # es" using "1.prems"(2) by (cases elems) auto
    then show ?thesis using 2 history_one [of ver e] by (simp add: built_def)
  next
    case 3
    let ?t0 = "build_versioned h ver (n div 2) elems"
      and ?t1 = "build_versioned h (ver + n div 2) (n - n div 2) (drop (n div 2) elems)"
    have b: "build_versioned h ver n elems = merge_versioned ?t0 ?t1"
      using 3 by (simp add: build_versioned.simps [of h ver n] par_do_def)
    have t: "ptreap h ?t0 \<and> built ver (take (n div 2) elems) (entries ?t0)"
      "ptreap h ?t1 \<and> built (ver + n div 2) (take (n - n div 2) (drop (n div 2) elems)) (entries ?t1)"
      using "1.IH"(1,2) 3 "1.prems" by simp_all
    have len: "length (take (n div 2) elems) = n div 2" using "1.prems"(2) by simp
    have "take n elems = take (n div 2) elems @ take (n - n div 2) (drop (n div 2) elems)"
      using take_add [of "n div 2" "n - n div 2" elems] by simp
    moreover have "entries (merge_versioned ?t0 ?t1) = join_maps merge_values (entries ?t0) (entries ?t1)"
      using lookup_merge [of h ?t0 ?t1] t "1.prems"(1) by (simp add: fun_eq_iff merge_versioned_def)
    moreover have "built ver (take (n div 2) elems @ take (n - n div 2) (drop (n div 2) elems))
        (join_maps merge_values (entries ?t0) (entries ?t1))"
      by (rule built_merge) (simp_all only: t len)
    ultimately show ?thesis using t treap_pam_merge [of h ?t0 ?t1] "1.prems"(1) by (simp add: b merge_versioned_def)
  qed
qed

text \<open>The plain build: one value per key, of version 0.\<close>

definition counted :: "u64 list \<Rightarrow> u64 \<rightharpoonup> valver list" where
  "counted xs k = (if k \<in> set xs then Some [\<lparr>v_val = of_nat (count_list xs k), v_ver = 0\<rparr>] else None)"

lemma counted_append:
  "counted (xs @ ys) k = join_maps (\<lambda>vs ws. add_first (v_val (hd ws)) vs) (counted xs) (counted ys) k"
  by (auto simp: counted_def join_maps_def count_list_0_iff)

lemma pam_build_correct:
  "inj h \<Longrightarrow> n \<le> length elems \<Longrightarrow> ptreap h (pam_build h n elems) \<and> entries (pam_build h n elems) = counted (take n elems)"
proof (induction h n elems rule: pam_build.induct)
  case (1 h n elems)
  consider "n = 0" | "n = 1" | "n > 1" by linarith
  then show ?case
  proof cases
    case 1
    then show ?thesis by (simp add: pam_build.simps counted_def)
  next
    case 2
    then obtain e es where "elems = e # es" using "1.prems"(2) by (cases elems) auto
    then show ?thesis using 2 by (simp add: pam_build.simps counted_def fun_eq_iff)
  next
    case 3
    let ?t0 = "pam_build h (n div 2) elems" and ?t1 = "pam_build h (n - n div 2) (drop (n div 2) elems)"
    have b: "pam_build h n elems = pam_merge ?t0 ?t1" using 3 by (simp add: pam_build.simps [of h n] par_do_def)
    have t: "ptreap h ?t0 \<and> entries ?t0 = counted (take (n div 2) elems)"
      "ptreap h ?t1 \<and> entries ?t1 = counted (take (n - n div 2) (drop (n div 2) elems))"
      using "1.IH"(1,2) 3 "1.prems" by simp_all
    have "take n elems = take (n div 2) elems @ take (n - n div 2) (drop (n div 2) elems)"
      using take_add [of "n div 2" "n - n div 2" elems] by simp
    then have "entries (pam_merge ?t0 ?t1) = counted (take n elems)"
      using lookup_merge [of h ?t0 ?t1] t "1.prems"(1) by (simp add: fun_eq_iff counted_append pam_merge_def)
    then show ?thesis unfolding b using treap_pam_merge [of h ?t0 ?t1] t "1.prems"(1) by (simp add: pam_merge_def)
  qed
qed

end
