(* ===== verification/PAM_Batch.thy ===== *)
theory PAM_Batch
  imports PAM_Trees
begin

text \<open>
  Batches applied to a persistent tree: copying merge and subtraction, the sums, and the answers of
  point and range queries. A batch of insertions is exact at every version for keys that are
  new or already touched by the batch, and at the end of the batch for all keys; a batch of
  deletions removes its keys. Range queries stop at a subtree only when its sum is valid.
\<close>

section \<open>Copies\<close>

lemma pam_weak_copy_Node: "pam_weak_copy (PNode s p k vs a l r) = PNode vstat_uninitialized p k [last vs] 0 PNull PNull"
  by (simp add: pam_make_node_def)

lemma copy_split_Node:
  "copy_split (PNode s p k vs a l r) key =
     (if key < k then (let (t_l, sub) = copy_split l key in (t_l, PNode vstat_uninitialized p k [last vs] 0 sub r))
      else (let (sub, t_r) = copy_split r key in (PNode vstat_uninitialized p k [last vs] 0 l sub, t_r)))"
  by (simp add: pam_weak_copy_Node Let_def del: pam_weak_copy.simps)

lemma copy_merge_Node:
  "copy_merge (PNode s p k vs a l r) (PNode s' p' k' vs' a' l' r') =
     (if p > p' then
        (let (t_l, t_r) = pam_split (PNode s' p' k' vs' a' l' r') k
         in PNode vstat_uninitialized p k [last vs] 0 (copy_merge l t_l) (copy_merge r t_r))
      else if k = k' then PNode s' p' k' (update_values vs' (v_val (last vs))) a' (copy_merge l l') (copy_merge r r')
      else (let (t_l, t_r) = copy_split (PNode s p k vs a l r) k' in PNode s' p' k' vs' a' (copy_merge t_l l') (copy_merge t_r r')))"
  by (simp add: par_do_def Let_def split_beta pam_weak_copy_Node del: pam_split.simps copy_split.simps pam_weak_copy.simps)

declare copy_split.simps(2) [simp del] copy_merge.simps(3) [simp del]

lemma skel_copy_split:
  "skel (fst (copy_split t key)) = fst (split (skel t) key)"
  "skel (snd (copy_split t key)) = snd (split (skel t) key)"
  by (induction t) (auto simp: copy_split_Node split_beta)

abbreviation lasts :: "pnode \<Rightarrow> u64 \<rightharpoonup> valver" where
  "lasts \<equiv> lookup last"

lemma copy_split_lookup:
  assumes "ptreap h t" "copy_split t key = (a, b)"
  shows "ptreap h a" "ptreap h b" "pkeys a = {y \<in> pkeys t. y \<le> key}" "pkeys b = {y \<in> pkeys t. key < y}"
    "lasts a y = (if y \<le> key then lasts t y else None)" "lasts b y = (if key < y then lasts t y else None)"
proof -
  have s: "split (skel t) key = (skel a, skel b)" using skel_copy_split [of t key] assms(2) by (simp add: prod_eq_iff)
  note sc = split_contents [OF assms(1) s]
  show "ptreap h a" "ptreap h b" "pkeys a = {y \<in> pkeys t. y \<le> key}" "pkeys b = {y \<in> pkeys t. key < y}" by (rule sc)+
  have "lasts a y = (if y \<le> key then lasts t y else None) \<and> lasts b y = (if key < y then lasts t y else None)"
    using assms
  proof (induction t arbitrary: a b)
    case (PNode s p k vs u l r)
    have sub: "ptreap h l" "ptreap h r" using PNode.prems(1) by simp_all
    have sk: "split (skel (PNode s p k vs u l r)) key = (skel a, skel b)"
      using skel_copy_split [of "PNode s p k vs u l r" key] PNode.prems(2) by (simp add: prod_eq_iff del: skel.simps)
    note tr = split_contents(1,2) [OF PNode.prems(1) sk]
    show ?case
    proof (cases "key < k")
      case True
      then obtain e where e: "copy_split l key = (a, e)" "b = PNode vstat_uninitialized p k [last vs] 0 e r"
        using PNode.prems(2) by (auto simp: copy_split_Node split: prod.splits)
      from PNode.IH(1) [OF sub(1) e(1)] True show ?thesis
        unfolding e(2) lookup_Node [OF PNode.prems(1)] lookup_Node [OF tr(2) [unfolded e(2)]] by auto
    next
      case False
      then obtain e where e: "copy_split r key = (e, b)" "a = PNode vstat_uninitialized p k [last vs] 0 l e"
        using PNode.prems(2) by (auto simp: copy_split_Node split: prod.splits)
      from PNode.IH(2) [OF sub(2) e(1)] False show ?thesis
        unfolding e(2) lookup_Node [OF PNode.prems(1)] lookup_Node [OF tr(1) [unfolded e(2)]] by auto
    qed
  qed simp
  then show "lasts a y = (if y \<le> key then lasts t y else None)" "lasts b y = (if key < y then lasts t y else None)" by simp_all
qed

text \<open>A property of all value lists of a tree that survives copying.\<close>

primrec all_vals :: "(valver list \<Rightarrow> bool) \<Rightarrow> pnode \<Rightarrow> bool" where
  "all_vals P PNull = True"
| "all_vals P (PNode s p k vs a l r) = (P vs \<and> all_vals P l \<and> all_vals P r)"

lemma all_vals_entries: "ptreap h t \<Longrightarrow> all_vals P t \<longleftrightarrow> (\<forall>k vs. entries t k = Some vs \<longrightarrow> P vs)"
proof (induction t)
  case (PNode s p k vs a l r)
  note e = lookup_Node [OF PNode.prems]
  have sub: "ptreap h l" "ptreap h r" using PNode.prems by simp_all
  have l: "y < k" if "entries l y = Some ws" for y ws using that PNode.prems lookup_eq_None [of "\<lambda>vs. vs" l y] by (auto simp del: lookup_eq_None)
  have r: "k < y" if "entries r y = Some ws" for y ws using that PNode.prems lookup_eq_None [of "\<lambda>vs. vs" r y] by (auto simp del: lookup_eq_None)
  show ?case unfolding all_vals.simps PNode.IH(1) [OF sub(1)] PNode.IH(2) [OF sub(2)] e
    by (metis l r less_irrefl less_not_sym option.inject)
qed simp

section \<open>Inserting a batch\<close>

lemma skel_copy_merge:
  "ptreap h s \<Longrightarrow> ptreap h t \<Longrightarrow> skel (copy_merge s t) = merge (skel s) (skel t)"
proof (induction s t rule: copy_merge.induct)
  case (3 s p k vs a l r s' p' k' vs' a' l' r')
  let ?s = "PNode s p k vs a l r" and ?t = "PNode s' p' k' vs' a' l' r'"
  have sub: "ptreap h l" "ptreap h r" "ptreap h l'" "ptreap h r'" and p: "p = h k" "p' = h k'" using "3.prems" by simp_all
  consider "p > p'" | "\<not> p > p'" "k = k'" | "\<not> p > p'" "k \<noteq> k'" by blast
  then show ?case
  proof cases
    case 1
    then have ne: "k \<noteq> k'" using p by auto
    obtain c d where s: "pam_split ?t k = (c, d)" by fastforce
    have sk: "split (skel ?t) k = (skel c, skel d)" using skel_split [of ?t k] s by (simp add: prod_eq_iff del: skel.simps)
    note tr = split_lookup(1,2) [OF "3.prems"(2) s]
    have "copy_merge ?s ?t = PNode vstat_uninitialized p k [last vs] 0 (copy_merge l c) (copy_merge r d)"
      using 1 by (simp only: copy_merge_Node s if_True case_prod_conv Let_def)
    moreover have "merge (skel ?s) (skel ?t) = Node 0 p k 0 0 (merge (skel l) (skel c)) (merge (skel r) (skel d))"
      using 1 ne sk by (simp add: merge_Node del: split.simps)
    ultimately show ?thesis using "3.IH"(1,2) [OF 1 refl refl refl] sub tr by (simp add: s del: pam_split.simps)
  next
    case 2
    then have "p = p'" using p by simp
    with "3.IH"(3,4) [OF 2 refl] sub 2 show ?thesis by (simp add: copy_merge_Node merge_Node)
  next
    case 3
    obtain c d where s: "copy_split ?s k' = (c, d)" by fastforce
    have sk: "split (skel ?s) k' = (skel c, skel d)" using skel_copy_split [of ?s k'] s by (simp add: prod_eq_iff del: skel.simps)
    note tr = copy_split_lookup(1,2) [OF "3.prems"(1) s]
    have "copy_merge ?s ?t = PNode s' p' k' vs' a' (copy_merge c l') (copy_merge d r')"
      using 3 by (simp only: copy_merge_Node s if_False case_prod_conv Let_def)
    moreover have "merge (skel ?s) (skel ?t) = Node 0 p' k' 0 0 (merge (skel c) (skel l')) (merge (skel d) (skel r'))"
      using 3 sk by (simp add: merge_Node del: split.simps)
    ultimately show ?thesis using "3.IH"(5,6) [OF 3 refl refl refl] sub tr by (simp add: s)
  qed
qed simp_all

lemma treap_copy_merge:
  "ptreap h s \<Longrightarrow> ptreap h t \<Longrightarrow> inj h \<Longrightarrow> ptreap h (copy_merge s t) \<and> pkeys (copy_merge s t) = pkeys s \<union> pkeys t"
  by (simp add: skel_copy_merge treap_merge_keys)

text \<open>A key of the batch has the batch's list, raised by its old last value; any other keeps its last value.\<close>

definition raised :: "valver option \<Rightarrow> valver list \<Rightarrow> valver list" where
  "raised x ws = (case x of None \<Rightarrow> ws | Some y \<Rightarrow> update_values ws (v_val y))"

lemma raised_simps [simp]: "raised None = (\<lambda>ws. ws)" "raised (Some y) ws = update_values ws (v_val y)"
  by (simp_all add: raised_def fun_eq_iff)

definition merged :: "pnode \<Rightarrow> pnode \<Rightarrow> pnode \<Rightarrow> u64 \<Rightarrow> bool" where
  "merged s t u y \<longleftrightarrow> (if y \<in> pkeys t then entries u y = map_option (raised (lasts s y)) (entries t y) else lasts u y = lasts s y)"

lemma merged_copy_merge:
  "ptreap h s \<Longrightarrow> ptreap h t \<Longrightarrow> inj h \<Longrightarrow> merged s t (copy_merge s t) y"
proof (induction s t arbitrary: y rule: copy_merge.induct)
  case (1 t_ins)
  then show ?case by (simp add: merged_def option.map_ident)
next
  case (2 s p k vs a l r)
  then show ?case by (simp add: merged_def)
next
  case (3 s p k vs a l r s' p' k' vs' a' l' r' y)
  let ?s = "PNode s p k vs a l r" and ?t = "PNode s' p' k' vs' a' l' r'"
  have sub: "ptreap h l" "ptreap h r" "ptreap h l'" "ptreap h r'" and p: "p = h k" "p' = h k'" using "3.prems" by simp_all
  have t: "ptreap h (copy_merge ?s ?t)" using treap_copy_merge [OF "3.prems"] by blast
  note nodes = lookup_Node [OF "3.prems"(1)] lookup_Node [OF "3.prems"(2)]
  consider "p > p'" | "\<not> p > p'" "k = k'" | "\<not> p > p'" "k \<noteq> k'" by blast
  then show ?case
  proof cases
    case 1
    then have ne: "k \<noteq> k'" using p by auto
    obtain c d where s: "pam_split ?t k = (c, d)" by fastforce
    note sc = split_lookup [OF "3.prems"(2) s]
    have m: "copy_merge ?s ?t = PNode vstat_uninitialized p k [last vs] 0 (copy_merge l c) (copy_merge r d)"
      using 1 by (simp only: copy_merge_Node s if_True case_prod_conv Let_def)
    have absent: "k \<notin> pkeys ?t"
      using heap_absent(1) [OF "3.prems"(2) [unfolded skel.simps] "3.prems"(3), of k] 1 ne p by simp
    have "merged l c (copy_merge l c) y" "merged r d (copy_merge r d) y"
      using "3.IH"(1,2) [OF 1 refl refl refl] sub sc(1,2) "3.prems"(3) by (simp_all only: s fst_conv snd_conv)
    then show ?thesis
      using absent unfolding merged_def m lookup_Node [OF t [unfolded m]] nodes(1) sc(3-6)
      by (cases y k rule: linorder_cases) (simp_all add: less_imp_le less_not_sym)
  next
    case 2
    then have m: "copy_merge ?s ?t = PNode s' p' k' (update_values vs' (v_val (last vs))) a' (copy_merge l l') (copy_merge r r')"
      by (simp add: copy_merge_Node)
    have IH: "merged l l' (copy_merge l l') y" "merged r r' (copy_merge r r') y"
      using "3.IH"(3,4) [OF 2 refl] sub "3.prems"(3) by simp_all
    have "y \<in> pkeys ?t \<longleftrightarrow> (if y < k' then y \<in> pkeys l' else if k' < y then y \<in> pkeys r' else True)"
      using "3.prems"(2) by auto
    then show ?thesis using IH 2(2) unfolding merged_def m lookup_Node [OF t [unfolded m]] nodes
      by (cases y k' rule: linorder_cases) (simp_all add: less_not_sym)
  next
    case 3
    obtain c d where s: "copy_split ?s k' = (c, d)" by fastforce
    note sc = copy_split_lookup [OF "3.prems"(1) s]
    have m: "copy_merge ?s ?t = PNode s' p' k' vs' a' (copy_merge c l') (copy_merge d r')"
      using 3 by (simp only: copy_merge_Node s if_False case_prod_conv Let_def)
    have absent: "lasts ?s k' = None"
      using heap_absent(1) [OF "3.prems"(1) [unfolded skel.simps] "3.prems"(3), of k'] 3 p by (simp add: not_less)
    have IH: "merged c l' (copy_merge c l') y" "merged d r' (copy_merge d r') y"
      using "3.IH"(5,6) [OF 3 refl refl refl] sub sc(1,2) "3.prems"(3) by (simp_all only: s fst_conv snd_conv)
    have "y \<in> pkeys ?t \<longleftrightarrow> (if y < k' then y \<in> pkeys l' else if k' < y then y \<in> pkeys r' else True)"
      using "3.prems"(2) by auto
    then show ?thesis using IH absent unfolding merged_def m lookup_Node [OF t [unfolded m]] nodes(2) sc(5,6)
      by (cases y k' rule: linorder_cases) (simp_all add: less_imp_le less_not_sym del: lookup_eq_None)
  qed
qed

section \<open>Deleting a batch\<close>

lemma make_copy_skel: "make_copy_if_need (PNode s p k vs a l r) = (if s = vstat_uninitialized then PNode s p k vs a l r
    else PNode vstat_uninitialized p k [last vs] 0 PNull PNull)"
  by (simp add: pam_weak_copy_Node del: pam_weak_copy.simps)

lemma copy_concat_Node:
  "copy_concat (PNode s p k vs a l r) (PNode s' p' k' vs' a' l' r') =
     (if p > p' then pam_set_children (make_copy_if_need (PNode s p k vs a l r)) l (copy_concat r (PNode s' p' k' vs' a' l' r'))
      else pam_set_children (make_copy_if_need (PNode s' p' k' vs' a' l' r')) (copy_concat (PNode s p k vs a l r) l') r')"
  by (simp add: Let_def del: make_copy_if_need.simps)

declare copy_concat.simps(3) [simp del] make_copy_if_need.simps(2) [simp del]

lemma skel_copy_concat: "skel (copy_concat s t) = process_concat 0 (skel s) (skel t)"
  by (induction s t rule: copy_concat.induct) (auto simp: copy_concat_Node make_copy_skel process_concat_Node)

lemma copy_concat_contents:
  assumes "ptreap h s" "ptreap h t" "below (skel s) (skel t)" "inj h"
  shows "ptreap h (copy_concat s t)" "pkeys (copy_concat s t) = pkeys s \<union> pkeys t"
  using treap_process_concat [OF assms] by (simp_all add: skel_copy_concat)

lemma lookup_pam_children:
  assumes "ptreap h (pam_set_children (make_copy_if_need (PNode s p k vs a l r)) l2 r2)"
  shows "lasts (pam_set_children (make_copy_if_need (PNode s p k vs a l r)) l2 r2) y =
    (if y < k then lasts l2 y else if k < y then lasts r2 y else Some (last vs))"
proof (cases "s = vstat_uninitialized")
  case True
  then have e: "pam_set_children (make_copy_if_need (PNode s p k vs a l r)) l2 r2 = PNode s p k vs a l2 r2" by (simp add: make_copy_skel)
  show ?thesis using lookup_Node [OF assms [unfolded e]] unfolding e .
next
  case False
  then have e: "pam_set_children (make_copy_if_need (PNode s p k vs a l r)) l2 r2 = PNode vstat_uninitialized p k [last vs] 0 l2 r2"
    by (simp add: make_copy_skel)
  show ?thesis unfolding e lookup_Node [OF assms [unfolded e], where f = last] by simp
qed

lemma lasts_copy_concat:
  assumes "ptreap h s" "ptreap h t" "below (skel s) (skel t)" "inj h"
  shows "lasts (copy_concat s t) y = (lasts s ++ lasts t) y"
  using assms
proof (induction s t rule: copy_concat.induct)
  case (3 s p k vs a l r s' p' k' vs' a' l' r')
  let ?s = "PNode s p k vs a l r" and ?t = "PNode s' p' k' vs' a' l' r'"
  note t = copy_concat_contents(1) [OF "3.prems", unfolded copy_concat_Node]
  have kk: "k < k'" using "3.prems"(3) by (simp add: below_def)
  have sub: "ptreap h l" "ptreap h r" "ptreap h l'" "ptreap h r'" using "3.prems" by simp_all
  note ab = lookup_Node [OF "3.prems"(1)] lookup_Node [OF "3.prems"(2)]
  show ?case
  proof (cases "p > p'")
    case True
    have b: "below (skel r) (skel ?t)" using "3.prems"(3) by (auto simp: below_def)
    have "lasts (copy_concat r ?t) y = (lasts r ++ lasts ?t) y" by (rule "3.IH"(1) [OF refl refl True sub(2) "3.prems"(2) b "3.prems"(4)])
    moreover have "lasts ?t y = None" if "\<not> k < y"
    proof -
      have "y \<notin> pkeys ?t" using that "3.prems"(3) by (auto simp: below_def)
      then show ?thesis by (simp only: lookup_eq_None not_False_eq_True)
    qed
    ultimately show ?thesis using True t unfolding copy_concat_Node
      by (cases y k rule: linorder_cases) (simp_all add: lookup_pam_children map_add_def ab(1) less_not_sym del: lookup_eq_None)
  next
    case False
    have b: "below (skel ?s) (skel l')" using "3.prems"(3) by (auto simp: below_def)
    have "lasts (copy_concat ?s l') y = (lasts ?s ++ lasts l') y" by (rule "3.IH"(2) [OF refl refl False "3.prems"(1) sub(3) b "3.prems"(4)])
    moreover have "lasts ?s y = None" if "\<not> y < k'"
    proof -
      have "y \<notin> pkeys ?s" using that "3.prems"(3) by (auto simp: below_def)
      then show ?thesis by (simp only: lookup_eq_None not_False_eq_True)
    qed
    ultimately show ?thesis using False t unfolding copy_concat_Node
      by (cases y k' rule: linorder_cases) (simp_all add: lookup_pam_children map_add_def ab(2) less_not_sym split: option.split del: lookup_eq_None)
  qed
qed (simp_all add: map_add_def)

lemma copy_subtract_Node:
  "copy_subtract (PNode s p k vs a l r) (PNode s' p' k' vs' a' l' r') =
     (if k = k' then copy_concat (copy_subtract l l') (copy_subtract r r')
      else if p > p' then
        (let (t_l, t_r) = pam_split (PNode s' p' k' vs' a' l' r') k
         in PNode vstat_uninitialized p k [last vs] 0 (copy_subtract l t_l) (copy_subtract r t_r))
      else copy_subtract (PNode s p k vs a l r) (copy_concat l' r'))"
  by (simp add: par_do_def Let_def split_beta pam_weak_copy_Node del: pam_split.simps pam_weak_copy.simps)

declare copy_subtract.simps(3) [simp del]

lemma copy_subtract_contents:
  "ptreap h s \<Longrightarrow> ptreap h t \<Longrightarrow> inj h \<Longrightarrow> ptreap h (copy_subtract s t) \<and> pkeys (copy_subtract s t) = pkeys s - pkeys t \<and>
   (\<forall>y. lasts (copy_subtract s t) y = (if y \<in> pkeys t then None else lasts s y))"
proof (induction s t rule: copy_subtract.induct)
  case (1 t)
  then show ?case by simp
next
  case (2 s p k vs a l r)
  then show ?case by (simp del: skel.simps(2))
next
  case (3 s p k vs a l r s' p' k' vs' a' l' r')
  let ?s = "PNode s p k vs a l r" and ?t = "PNode s' p' k' vs' a' l' r'"
  have sub: "ptreap h l" "ptreap h r" "ptreap h l'" "ptreap h r'" and p: "p = h k" "p' = h k'" using "3.prems" by simp_all
  note ab = lookup_Node [OF "3.prems"(1)]
  have keys: "\<forall>y \<in> pkeys l. y < k \<and> h y < p" "\<forall>y \<in> pkeys r. k < y \<and> h y < p"
    "\<forall>y \<in> pkeys l'. y < k' \<and> h y < p'" "\<forall>y \<in> pkeys r'. k' < y \<and> h y < p'" using "3.prems" by auto
  consider "k = k'" | "k \<noteq> k'" "p > p'" | "k \<noteq> k'" "\<not> p > p'" by blast
  then show ?case
  proof cases
    case 1
    let ?l = "copy_subtract l l'" and ?r = "copy_subtract r r'"
    have l: "ptreap h ?l" "pkeys ?l = pkeys l - pkeys l'" "\<And>y. lasts ?l y = (if y \<in> pkeys l' then None else lasts l y)"
      and r: "ptreap h ?r" "pkeys ?r = pkeys r - pkeys r'" "\<And>y. lasts ?r y = (if y \<in> pkeys r' then None else lasts r y)"
      using "3.IH"(1,2) [OF 1] sub "3.prems"(3) by simp_all
    have b: "below (skel ?l) (skel ?r)" using keys by (fastforce simp: below_def l r)
    note c = copy_concat_contents [OF l(1) r(1) b "3.prems"(3)] and la = lasts_copy_concat [OF l(1) r(1) b "3.prems"(3)]
    have m: "copy_subtract ?s ?t = copy_concat ?l ?r" using 1 by (simp add: copy_subtract_Node)
    have "lasts (copy_concat ?l ?r) y = (if y \<in> pkeys ?t then None else lasts ?s y)" for y
    proof (cases y k rule: linorder_cases)
      case less
      then have "y \<notin> pkeys r" "y \<notin> pkeys r'" using keys 1 by (auto dest: less_asym)
      moreover from this have "lasts r y = None" by simp
      ultimately show ?thesis using less 1 unfolding la ab by (auto simp: map_add_def l r simp del: lookup_eq_None)
    next
      case equal
      then have "y \<notin> pkeys l" "y \<notin> pkeys r" using keys by auto
      then have "lasts l y = None" "lasts r y = None" by simp_all
      with equal 1 show ?thesis unfolding la by (simp add: map_add_def l r del: lookup_eq_None)
    next
      case greater
      then have "y \<notin> pkeys l" "y \<notin> pkeys l'" using keys 1 by (auto dest: less_asym)
      moreover from this have "lasts l y = None" by simp
      ultimately show ?thesis using greater 1 unfolding la ab
        by (auto simp: map_add_def l r less_not_sym split: option.split simp del: lookup_eq_None)
    qed
    moreover have "pkeys l \<inter> pkeys r' = {}" "pkeys r \<inter> pkeys l' = {}" "k \<notin> pkeys l" "k \<notin> pkeys r"
      using keys 1 by (fastforce dest: less_asym)+
    then have "pkeys ?l \<union> pkeys ?r = pkeys ?s - pkeys ?t" using 1 unfolding l r by auto
    ultimately show ?thesis using c unfolding m by blast
  next
    case 2
    obtain c d where s: "pam_split ?t k = (c, d)" by fastforce
    note sc = split_lookup [OF "3.prems"(2) s]
    have m: "copy_subtract ?s ?t = PNode vstat_uninitialized p k [last vs] 0 (copy_subtract l c) (copy_subtract r d)"
      using 2 by (simp only: copy_subtract_Node s if_True if_False case_prod_conv Let_def)
    have absent: "k \<notin> pkeys ?t"
      using heap_absent(1) [OF "3.prems"(2) [unfolded skel.simps] "3.prems"(3), of k] 2 p by simp
    have l: "ptreap h (copy_subtract l c)" "pkeys (copy_subtract l c) = pkeys l - pkeys c"
        "\<And>y. lasts (copy_subtract l c) y = (if y \<in> pkeys c then None else lasts l y)"
      using "3.IH"(3) [OF 2 refl refl refl] sub sc(1,2) "3.prems"(3) by (simp_all only: s fst_conv snd_conv)
    have r: "ptreap h (copy_subtract r d)" "pkeys (copy_subtract r d) = pkeys r - pkeys d"
        "\<And>y. lasts (copy_subtract r d) y = (if y \<in> pkeys d then None else lasts r y)"
      using "3.IH"(4) [OF 2 refl refl refl] sub sc(1,2) "3.prems"(3) by (simp_all only: s fst_conv snd_conv)
    have t: "ptreap h (copy_subtract ?s ?t)" unfolding m using l r keys p by simp
    have "lasts (copy_subtract ?s ?t) y = (if y \<in> pkeys ?t then None else lasts ?s y)" for y
      using absent unfolding m lookup_Node [OF t [unfolded m], where f = last] ab l r sc(3,4)
      by (cases y k rule: linorder_cases) (simp_all add: less_imp_le less_not_sym del: skel.simps)
    moreover have "pkeys (copy_subtract ?s ?t) = pkeys ?s - pkeys ?t"
      using absent keys unfolding m skel.simps(2) [of vstat_uninitialized] keys.simps(2) [of 0 p k 0 0 "skel (copy_subtract l c)"] l r sc(3,4)
      by (auto simp: less_imp_le not_less)
    ultimately show ?thesis using t by blast
  next
    case 3
    have b: "below (skel l') (skel r')" using keys by (fastforce simp: below_def)
    note c = copy_concat_contents [OF sub(3,4) b "3.prems"(3)]
    have absent: "k' \<notin> pkeys ?s"
      using heap_absent(1) [OF "3.prems"(1) [unfolded skel.simps] "3.prems"(3), of k'] 3 p by (simp add: not_less)
    have m: "copy_subtract ?s ?t = copy_subtract ?s (copy_concat l' r')" using 3 by (simp add: copy_subtract_Node)
    have k: "pkeys ?t = insert k' (pkeys (copy_concat l' r'))" unfolding c by simp
    have "lasts ?s k' = None" using absent by (simp only: lookup_eq_None not_False_eq_True)
    with "3.IH"(5) [OF 3 "3.prems"(1) c(1) "3.prems"(3)] absent show ?thesis unfolding m k by auto
  qed
qed

section \<open>Value lists of copies\<close>

definition copyable :: "(valver list \<Rightarrow> bool) \<Rightarrow> bool" where
  "copyable P \<longleftrightarrow> (\<forall>vs. P vs \<longrightarrow> P [last vs]) \<and> (\<forall>vs x. P vs \<longrightarrow> P (update_values vs x))"

lemma all_vals_split: "all_vals P t \<Longrightarrow> all_vals P (fst (pam_split t key)) \<and> all_vals P (snd (pam_split t key))"
  by (induction t) (auto simp: split_beta)

lemma all_vals_copy_split:
  "copyable P \<Longrightarrow> all_vals P t \<Longrightarrow> all_vals P (fst (copy_split t key)) \<and> all_vals P (snd (copy_split t key))"
  by (induction t) (auto simp: copy_split_Node split_beta copyable_def)

lemma all_vals_copy_merge: "copyable P \<Longrightarrow> all_vals P s \<Longrightarrow> all_vals P t \<Longrightarrow> all_vals P (copy_merge s t)"
proof (induction s t rule: copy_merge.induct)
  case (3 s p k vs a l r s' p' k' vs' a' l' r')
  have P: "P [last vs]" "P (update_values vs' (v_val (last vs)))" "P vs'" using "3.prems" by (simp_all add: copyable_def)
  have sub: "all_vals P l" "all_vals P r" "all_vals P l'" "all_vals P r'" using "3.prems" by simp_all
  note sp = all_vals_split [OF "3.prems"(3), of k] and cs = all_vals_copy_split [OF "3.prems"(1,2), of k']
  consider "p > p'" | "\<not> p > p'" "k = k'" | "\<not> p > p'" "k \<noteq> k'" by blast
  then show ?case
  proof cases
    case 1
    then show ?thesis using "3.IH"(1,2) [OF 1 refl refl refl "3.prems"(1)] sub sp P
      by (simp add: copy_merge_Node split_beta Let_def del: pam_split.simps)
  next
    case 2
    then show ?thesis using "3.IH"(3,4) [OF 2 refl "3.prems"(1)] sub P by (simp add: copy_merge_Node)
  next
    case 3
    then show ?thesis using "3.IH"(5,6) [OF 3 refl refl refl "3.prems"(1)] sub cs P by (simp add: copy_merge_Node split_beta Let_def)
  qed
qed simp_all

lemma all_vals_copy_concat: "copyable P \<Longrightarrow> all_vals P s \<Longrightarrow> all_vals P t \<Longrightarrow> all_vals P (copy_concat s t)"
  by (induction s t rule: copy_concat.induct) (auto simp: copy_concat_Node make_copy_skel copyable_def)

lemma all_vals_copy_subtract: "copyable P \<Longrightarrow> all_vals P s \<Longrightarrow> all_vals P (copy_subtract s t)"
proof (induction s t rule: copy_subtract.induct)
  case (3 s p k vs a l r s' p' k' vs' a' l' r')
  have P: "P [last vs]" using "3.prems" by (simp add: copyable_def)
  have sub: "all_vals P l" "all_vals P r" using "3.prems" by simp_all
  consider "k = k'" | "k \<noteq> k'" "p > p'" | "k \<noteq> k'" "\<not> p > p'" by blast
  then show ?case
  proof cases
    case 1
    then show ?thesis using "3.IH"(1,2) [OF 1 "3.prems"(1)] sub all_vals_copy_concat [OF "3.prems"(1)] by (simp add: copy_subtract_Node)
  next
    case 2
    then show ?thesis using "3.IH"(3,4) [OF 2 refl refl refl "3.prems"(1)] sub P
      by (simp add: copy_subtract_Node split_beta Let_def del: pam_split.simps)
  next
    case 3
    then show ?thesis using "3.IH"(5) [OF 3 "3.prems"] by (simp add: copy_subtract_Node)
  qed
qed simp_all

section \<open>Sums\<close>

primrec psum :: "pnode \<Rightarrow> u64" where
  "psum PNull = 0"
| "psum (PNode s p k vs a l r) = psum l + v_val (last vs) + psum r"

primrec last_vers :: "pnode \<Rightarrow> nat set" where
  "last_vers PNull = {}"
| "last_vers (PNode s p k vs a l r) = insert (v_ver (last vs)) (last_vers l \<union> last_vers r)"

text \<open>
  A summed tree: each node has the sum of the last values below it and a version from which on
  they are valid. Between updates a summed node has only summed nodes below it.
\<close>

primrec psummed :: "pnode \<Rightarrow> bool" where
  "psummed PNull = True"
| "psummed (PNode s p k vs a l r) = (s < vstat_uninitialized \<and> a = psum l + v_val (last vs) + psum r \<and>
     (\<forall>u \<in> insert (v_ver (last vs)) (last_vers l \<union> last_vers r). u \<le> s) \<and> psummed l \<and> psummed r)"

primrec psums_ok :: "pnode \<Rightarrow> bool" where
  "psums_ok PNull = True"
| "psums_ok (PNode s p k vs a l r) = ((s = vstat_uninitialized \<and> psums_ok l \<and> psums_ok r) \<or> psummed (PNode s p k vs a l r))"

lemma psummed_ok [simp]: "psummed t \<Longrightarrow> psums_ok t"
  by (cases t) auto

lemma augment_same: "skel (fst (pam_augment_parallel t)) = skel t" "lookup f (fst (pam_augment_parallel t)) = lookup f t"
  "all_vals P (fst (pam_augment_parallel t)) = all_vals P t" "psum (fst (pam_augment_parallel t)) = psum t"
  "last_vers (fst (pam_augment_parallel t)) = last_vers t"
  by (induction t) (auto simp: par_do_def Let_def split_beta lookup.simps)

lemma psummed_vstat: "psummed t \<Longrightarrow> \<forall>u \<in> last_vers t. u \<le> subtree_vstat t"
  "psummed t \<Longrightarrow> subtree_vstat t < vstat_uninitialized"
  by (cases t; auto simp: vstat_uninitialized_def)+

lemma augment_psummed:
  "psums_ok t \<Longrightarrow> \<forall>u \<in> last_vers t. u < vstat_uninitialized \<Longrightarrow>
   psummed (fst (pam_augment_parallel t)) \<and> snd (pam_augment_parallel t) = psum t"
proof (induction t)
  case (PNode s p k vs a l r)
  show ?case
  proof (cases "s = vstat_uninitialized")
    case True
    let ?l = "fst (pam_augment_parallel l)" and ?r = "fst (pam_augment_parallel r)"
    have l: "psummed ?l" "snd (pam_augment_parallel l) = psum l" and r: "psummed ?r" "snd (pam_augment_parallel r) = psum r"
      using PNode True by auto
    note m = psummed_vstat [OF l(1)] psummed_vstat [OF r(1)]
    show ?thesis using True l r m PNode.prems(2)
      by (auto simp: par_do_def Let_def split_beta augment_same intro: le_max_iff_disj [THEN iffD2])
  qed (use PNode.prems in auto)
qed simp


text \<open>Temporary trees are not summed at all; copying never puts an unsummed node below a summed one.\<close>

primrec fresh :: "pnode \<Rightarrow> bool" where
  "fresh PNull = True"
| "fresh (PNode s p k vs a l r) = (s = vstat_uninitialized \<and> fresh l \<and> fresh r)"

lemma fresh_ok: "fresh t \<Longrightarrow> psums_ok t"
  by (induction t) auto

lemma fresh_split: "fresh t \<Longrightarrow> fresh (fst (pam_split t key)) \<and> fresh (snd (pam_split t key))"
  by (induction t) (auto simp: split_beta)

lemma fresh_merge: "fresh s \<Longrightarrow> fresh t \<Longrightarrow> fresh (pam_merge_with join s t)"
proof (induction join s t rule: pam_merge_with.induct)
  case (3 join s p k vs a l r s' p' k' vs' a' l' r')
  then show ?case
    using fresh_split [of "PNode s' p' k' vs' a' l' r'" k] fresh_split [of "PNode s p k vs a l r" k']
    by (simp add: pam_merge_Node Let_def split_beta del: pam_split.simps)
qed simp_all

lemma fresh_make_node [simp]: "fresh (pam_make_node_hash h ver k)"
  by (simp add: pam_make_node_hash_def pam_make_node_def)

lemma fresh_build_versioned: "fresh (build_versioned h ver n elems)"
proof (induction h ver n elems rule: build_versioned.induct)
  case (1 h ver n elems)
  then show ?case by (subst build_versioned.simps) (auto simp: par_do_def merge_versioned_def intro!: fresh_merge)
qed

lemma fresh_pam_build: "fresh (pam_build h n elems)"
proof (induction h n elems rule: pam_build.induct)
  case (1 h n elems)
  then show ?case by (subst pam_build.simps) (auto simp: par_do_def pam_merge_def intro!: fresh_merge)
qed

lemma psums_ok_children: "psums_ok (PNode s p k vs a l r) \<Longrightarrow> psums_ok l \<and> psums_ok r"
  by auto

lemma psums_ok_copy_split: "psums_ok t \<Longrightarrow> psums_ok (fst (copy_split t key)) \<and> psums_ok (snd (copy_split t key))"
proof (induction t)
  case (PNode s p k vs a l r)
  with psums_ok_children [OF PNode.prems] show ?case by (auto simp: copy_split_Node split_beta)
qed simp

lemma psums_ok_copy_merge: "psums_ok s \<Longrightarrow> fresh t \<Longrightarrow> psums_ok (copy_merge s t)"
proof (induction s t rule: copy_merge.induct)
  case (3 s p k vs a l r s' p' k' vs' a' l' r')
  note sub = psums_ok_children [OF "3.prems"(1)] and sp = fresh_split [OF "3.prems"(2), of k] and cs = psums_ok_copy_split [OF "3.prems"(1), of k']
  have f: "s' = vstat_uninitialized" "fresh l'" "fresh r'" using "3.prems"(2) by simp_all
  consider "p > p'" | "\<not> p > p'" "k = k'" | "\<not> p > p'" "k \<noteq> k'" by blast
  then show ?case
  proof cases
    case 1
    then show ?thesis using "3.IH"(1,2) [OF 1 refl refl refl] sub sp by (simp add: copy_merge_Node split_beta Let_def del: pam_split.simps)
  next
    case 2
    then show ?thesis using "3.IH"(3,4) [OF 2 refl] sub f by (simp add: copy_merge_Node)
  next
    case 3
    then show ?thesis using "3.IH"(5,6) [OF 3 refl refl refl] cs f by (simp add: copy_merge_Node split_beta Let_def)
  qed
qed (simp_all add: fresh_ok)

lemma psums_ok_copy_concat: "psums_ok s \<Longrightarrow> psums_ok t \<Longrightarrow> psums_ok (copy_concat s t)"
proof (induction s t rule: copy_concat.induct)
  case (3 s p k vs a l r s' p' k' vs' a' l' r')
  note sub = psums_ok_children [OF "3.prems"(1)] psums_ok_children [OF "3.prems"(2)]
  show ?case using 3 sub by (cases "p > p'") (simp_all add: copy_concat_Node make_copy_skel)
qed simp_all

lemma psums_ok_copy_subtract: "psums_ok s \<Longrightarrow> psums_ok (copy_subtract s t)"
proof (induction s t rule: copy_subtract.induct)
  case (3 s p k vs a l r s' p' k' vs' a' l' r')
  note sub = psums_ok_children [OF "3.prems"]
  consider "k = k'" | "k \<noteq> k'" "p > p'" | "k \<noteq> k'" "\<not> p > p'" by blast
  then show ?case
  proof cases
    case 1
    then show ?thesis using "3.IH"(1,2) [OF 1] sub psums_ok_copy_concat by (simp add: copy_subtract_Node)
  next
    case 2
    then show ?thesis using "3.IH"(3,4) [OF 2 refl refl refl] sub
      by (simp add: copy_subtract_Node split_beta Let_def del: pam_split.simps)
  next
    case 3
    then show ?thesis using "3.IH"(5) [OF 3 "3.prems"] by (simp add: copy_subtract_Node)
  qed
qed simp_all

section \<open>Queries\<close>

definition vals_upto :: "nat \<Rightarrow> valver list \<Rightarrow> bool" where
  "vals_upto V vs \<longleftrightarrow> wf_vals vs \<and> (\<forall>x \<in> set vs. v_ver x \<le> V)"

text \<open>What holds of a published tree whose newest version is \<open>V\<close>.\<close>

definition pam_inv :: "(u64 \<Rightarrow> u64) \<Rightarrow> nat \<Rightarrow> pnode \<Rightarrow> bool" where
  "pam_inv h V t \<longleftrightarrow> ptreap h t \<and> psummed t \<and> all_vals (vals_upto V) t"

definition pam_counts :: "nat \<Rightarrow> pnode \<Rightarrow> u64 \<rightharpoonup> u64" where
  "pam_counts v = lookup (\<lambda>vs. find_value vs v)"

lemma copyable_upto: "copyable (vals_upto V)"
proof -
  have "v_ver ` set (update_values vs x) = v_ver ` set vs" for vs x by simp
  then have "(\<forall>y \<in> set (update_values vs x). v_ver y \<le> V) = (\<forall>y \<in> set vs. v_ver y \<le> V)" for vs x
    by (metis (no_types, lifting) image_iff)
  then show ?thesis by (auto simp: copyable_def vals_upto_def wf_vals_def)
qed

text \<open>The tree at one version as a summed plain treap.\<close>

primrec pview :: "nat \<Rightarrow> pnode \<Rightarrow> tree" where
  "pview v PNull = Null"
| "pview v (PNode s p k vs a l r) =
     Node 0 p k (find_value vs v) (tree_sum (pview v l) + find_value vs v + tree_sum (pview v r)) (pview v l) (pview v r)"

lemma pview_keys: "keys (pview v t) = pkeys t" and pview_treap: "treap h (pview v t) = ptreap h t"
proof -
  show k: "keys (pview v t) = pkeys t" for t by (induction t) auto
  show "treap h (pview v t) = ptreap h t" by (induction t) (simp_all add: k)
qed

lemma pview_summed: "summed (pview v t)"
  by (induction t) auto

lemma pview_counts: "counts (pview v t) = pam_counts v t"
  by (induction t) (simp_all add: pam_counts_def lookup.simps)

lemma pview_late: "all_vals wf_vals t \<Longrightarrow> \<forall>u \<in> last_vers t. u \<le> v \<Longrightarrow> tree_sum (pview v t) = psum t"
proof (induction t)
  case (PNode s p k vs a l r)
  have "find_value vs v = v_val (last vs)"
    using PNode.prems wf_valsD [of vs] by (intro find_value_last) (auto intro: le_trans)
  with PNode show ?case by simp
qed simp

lemma pam_range_view:
  "psummed t \<Longrightarrow> all_vals wf_vals t \<Longrightarrow> pam_range_cover t v lo hi d = range_estimate_cover (pview v t) lo hi d"
proof (induction t arbitrary: d)
  case (PNode s p k vs a l r)
  have aug: "range_estimate_cover (pview v t) lo hi CLOSE_CLOSE = tree_sum (pview v t)" for t
    using summed_aug_of [OF pview_summed, of v t] by (cases "pview v t") auto
  have "a = tree_sum (pview v (PNode s p k vs a l r))" if "s \<le> v"
  proof -
    have "\<forall>u \<in> last_vers (PNode s p k vs a l r). u \<le> v" using PNode.prems(1) that by (auto intro: le_trans)
    from pview_late [OF PNode.prems(2) this] PNode.prems(1) show ?thesis by simp
  qed
  with PNode show ?case by (cases d) (simp_all add: aug)
qed simp

lemma all_vals_mono: "all_vals P t \<Longrightarrow> (\<And>vs. P vs \<Longrightarrow> Q vs) \<Longrightarrow> all_vals Q t"
  by (induction t) auto

lemma pam_inv_wf: "pam_inv h V t \<Longrightarrow> all_vals wf_vals t"
  by (auto simp: pam_inv_def vals_upto_def intro: all_vals_mono)

lemma pam_range_correct:
  assumes "pam_inv h V t"
  shows "pam_range_estimate t v l r = sum_counts (pam_counts v t) (\<lambda>k. l \<le> k \<and> k \<le> r)"
proof -
  have "treap h (pview v t)" "psummed t" using assms by (simp_all add: pam_inv_def pview_treap)
  from range_estimate_correct [OF this(1) pview_summed] pam_range_view [OF this(2) pam_inv_wf [OF assms]] show ?thesis
    by (simp add: pam_range_estimate_def range_estimate_def pview_counts)
qed

section \<open>Batches\<close>

declare lookup_eq_None [simp del]

lemma entries_dom: "k \<in> pkeys t \<longleftrightarrow> (\<exists>vs. entries t k = Some vs)"
  by (metis dom_lookup domIff not_None_eq)

lemma lookup_cases: "lookup f t k = (case entries t k of None \<Rightarrow> None | Some vs \<Rightarrow> Some (f vs))"
  by (subst lookup_map) (simp split: option.split)

lemma find_value_settled: "wf_vals vs \<Longrightarrow> v_ver (last vs) \<le> v \<Longrightarrow> find_value vs v = v_val (last vs)"
  by (rule find_value_last) (auto dest: wf_valsD(1) wf_valsD(3) intro: le_trans)

lemma counts_late:
  assumes "ptreap h t" "all_vals (vals_upto V) t" "V \<le> v"
  shows "pam_counts v t k = map_option v_val (lasts t k)"
proof (cases "entries t k")
  case (Some vs)
  then have "vals_upto V vs" using all_vals_entries [OF assms(1)] assms(2) by blast
  then have "find_value vs v = v_val (last vs)" using assms(3) by (intro find_value_settled) (auto simp: vals_upto_def wf_vals_def intro: le_trans)
  then show ?thesis using Some lookup_cases [of "\<lambda>vs. find_value vs v" t k] lookup_cases [of last t k] by (simp add: pam_counts_def)
next
  case None
  then show ?thesis using lookup_cases [of "\<lambda>vs. find_value vs v" t k] lookup_cases [of last t k] by (simp add: pam_counts_def)
qed

lemma pam_find_counts: "ptreap h t \<Longrightarrow> pam_find t v k = (case pam_counts v t k of None \<Rightarrow> 0 | Some x \<Rightarrow> x)"
  by (simp add: pam_find_lookup pam_counts_def)

lemma upto_last_vers: "all_vals (vals_upto V) t \<Longrightarrow> u \<in> last_vers t \<Longrightarrow> u \<le> V"
  by (induction t) (auto simp: vals_upto_def wf_vals_def)

lemma augment_inv:
  assumes "ptreap h t" "psums_ok t" "all_vals (vals_upto V) t" "V < vstat_uninitialized"
  shows "pam_inv h V (fst (pam_augment_parallel t))"
proof -
  have "\<forall>u \<in> last_vers t. u < vstat_uninitialized" using upto_last_vers [OF assms(3)] assms(4) by (auto intro: le_less_trans)
  from augment_psummed [OF assms(2) this] assms(1,3) show ?thesis by (simp add: pam_inv_def augment_same)
qed

lemma pam_build_inv:
  assumes "inj h" "n \<le> length elems"
  shows "pam_inv h 0 (pam_interface_build h n elems)"
    and "pam_counts v (pam_interface_build h n elems) = occurrences (take n elems)"
proof -
  note b = pam_build_correct [OF assms]
  have "all_vals (vals_upto 0) (pam_build h n elems)"
    using all_vals_entries [of h "pam_build h n elems"] b by (auto simp: counted_def vals_upto_def wf_vals_def split: if_splits)
  with b show "pam_inv h 0 (pam_interface_build h n elems)"
    unfolding pam_interface_build_def by (intro augment_inv) (auto simp: fresh_ok fresh_pam_build vstat_uninitialized_def)
  show "pam_counts v (pam_interface_build h n elems) = occurrences (take n elems)"
  proof
    fix k show "pam_counts v (pam_interface_build h n elems) k = occurrences (take n elems) k"
      using b lookup_cases [of "\<lambda>vs. find_value vs v" "pam_build h n elems" k]
      by (auto simp: pam_counts_def pam_interface_build_def augment_same counted_def occurrences_def find_value_def)
  qed
qed

text \<open>The answer to a point query at a version inside or after the batch.\<close>

lemma inserted_correct:
  assumes inv: "pam_inv h V t" and h: "inj h" and n: "n \<le> length elems" and lt: "V + n < vstat_uninitialized"
  shows "pam_inv h (V + n) (inserted h t (Suc V) n elems)"
    and "V \<le> v \<Longrightarrow> pam_find (inserted h t (Suc V) n elems) v k =
      (if k \<in> set (take n elems) \<and> k \<notin> set (take (v - V) (take n elems)) then 0
       else pam_find t V k + of_nat (count_list (take (v - V) (take n elems)) k))"
proof -
  let ?b = "build_versioned h (Suc V) n elems" and ?xs = "take n elems"
  let ?m = "copy_merge t ?b"
  have t: "ptreap h t" "psums_ok t" "all_vals (vals_upto V) t" using inv by (simp_all add: pam_inv_def)
  have b: "ptreap h ?b" "built (Suc V) ?xs (entries ?b)" using build_versioned_correct [OF h n] by simp_all
  have hist: "history (Suc V) ?xs k ws \<and> k \<in> set ?xs" if "entries ?b k = Some ws" for k ws
    using b(2) [unfolded built_def, THEN spec, of k] that by simp
  have bk: "k \<in> pkeys ?b \<longleftrightarrow> k \<in> set ?xs" for k
    using b(2) [unfolded built_def, THEN spec, of k] unfolding entries_dom by (auto split: option.splits)
  have "all_vals (vals_upto (V + n)) t" by (rule all_vals_mono [OF t(3)]) (auto simp: vals_upto_def intro: trans_le_add1)
  moreover have "all_vals (vals_upto (V + n)) ?b"
    unfolding all_vals_entries [OF b(1)] using hist n by (fastforce simp: vals_upto_def history_def)
  ultimately have m: "all_vals (vals_upto (V + n)) ?m" by (rule all_vals_copy_merge [OF copyable_upto])
  have tr: "ptreap h ?m" using treap_copy_merge [OF t(1) b(1) h] by blast
  show "pam_inv h (V + n) (inserted h t (Suc V) n elems)"
    unfolding inserted_def by (rule augment_inv [OF tr psums_ok_copy_merge [OF t(2) fresh_build_versioned] m lt])
  assume v: "V \<le> v"
  have old: "pam_find t V k = (case lasts t k of None \<Rightarrow> 0 | Some x \<Rightarrow> v_val x)"
    using counts_late [OF t(1,3) order_refl, of k] by (auto simp: pam_find_counts [OF t(1)] split: option.split)
  have new: "pam_find (inserted h t (Suc V) n elems) v k = (case entries ?m k of None \<Rightarrow> 0 | Some vs \<Rightarrow> find_value vs v)"
    using pam_find_lookup [of h "fst (pam_augment_parallel ?m)" v k] tr lookup_cases [of "\<lambda>vs. find_value vs v" ?m k]
    by (auto simp: inserted_def augment_same split: option.split)
  note mc = merged_copy_merge [OF t(1) b(1) h, of k, unfolded merged_def]
  show "pam_find (inserted h t (Suc V) n elems) v k =
      (if k \<in> set ?xs \<and> k \<notin> set (take (v - V) ?xs) then 0 else pam_find t V k + of_nat (count_list (take (v - V) ?xs) k))"
  proof (cases "k \<in> set ?xs")
    case True
    then obtain ws where ws: "entries ?b k = Some ws" using bk [of k] entries_dom by blast
    note hw = hist [OF ws, unfolded history_def]
    have e: "entries ?m k = Some (raised (lasts t k) ws)" using mc bk True ws by simp
    have "ws \<noteq> []" using hw by (simp add: wf_vals_def)
    then show ?thesis unfolding new e old using hw True
      by (cases "lasts t k") (auto simp: find_value_update add.commute)
  next
    case False
    then have "lasts ?m k = lasts t k" using mc bk by simp
    moreover have "k \<notin> set (take j ?xs)" for j using False by (meson in_set_takeD)
    moreover have "(case entries ?m k of None \<Rightarrow> 0 | Some vs \<Rightarrow> find_value vs v) = (case lasts ?m k of None \<Rightarrow> 0 | Some x \<Rightarrow> v_val x)"
    proof (cases "entries ?m k")
      case (Some vs)
      then have l: "lasts ?m k = Some (last vs)" "wf_vals vs"
        using lookup_cases [of last ?m k] m all_vals_entries [OF tr] by (auto simp: vals_upto_def)
      then have "lasts t k = Some (last vs)" using mc bk False by simp
      then obtain us where "entries t k = Some us" "last us = last vs" using lookup_cases [of last t k] by (auto split: option.splits)
      moreover from this have "vals_upto V us" using t(3) all_vals_entries [OF t(1)] by blast
      ultimately have "v_ver (last vs) \<le> V" by (metis last_in_set vals_upto_def wf_vals_def)
      then show ?thesis using l Some find_value_settled [OF l(2), of v] v by simp
    qed (use lookup_cases [of last ?m k] in simp)
    ultimately show ?thesis unfolding new old using False by simp
  qed
qed

lemma deleted_correct:
  assumes inv: "pam_inv h V t" and h: "inj h" and n: "n \<le> length elems" and lt: "V + n < vstat_uninitialized"
  shows "pam_inv h (V + n) (deleted h t (Suc V) n elems)"
    and "V \<le> v \<Longrightarrow> pam_find (deleted h t (Suc V) n elems) v k = (if k \<in> set (take n elems) then 0 else pam_find t V k)"
proof -
  let ?b = "build_versioned h (Suc V) n elems"
  let ?m = "copy_subtract t ?b"
  have t: "ptreap h t" "psums_ok t" "all_vals (vals_upto V) t" using inv by (simp_all add: pam_inv_def)
  have b: "ptreap h ?b" "built (Suc V) (take n elems) (entries ?b)" using build_versioned_correct [OF h n] by simp_all
  have bk: "k \<in> pkeys ?b \<longleftrightarrow> k \<in> set (take n elems)" for k
    using b(2) [unfolded built_def, THEN spec, of k] unfolding entries_dom by (auto split: option.splits)
  note c = copy_subtract_contents [OF t(1) b(1) h]
  have m: "all_vals (vals_upto V) ?m" by (rule all_vals_copy_subtract [OF copyable_upto t(3)])
  have "all_vals (vals_upto (V + n)) ?m" by (rule all_vals_mono [OF m]) (auto simp: vals_upto_def intro: trans_le_add1)
  then show "pam_inv h (V + n) (deleted h t (Suc V) n elems)"
    unfolding deleted_def using augment_inv [OF _ psums_ok_copy_subtract [OF t(2)] _ lt] c by blast
  assume v: "V \<le> v"
  have a: "ptreap h (fst (pam_augment_parallel ?m))" "all_vals (vals_upto V) (fst (pam_augment_parallel ?m))" using c m by (simp_all add: augment_same)
  show "pam_find (deleted h t (Suc V) n elems) v k = (if k \<in> set (take n elems) then 0 else pam_find t V k)"
    unfolding deleted_def pam_find_counts [OF a(1)] pam_find_counts [OF t(1)] counts_late [OF a v] counts_late [OF t(1,3) order_refl]
    using c bk [of k] by (simp add: augment_same)
qed

lemma single_batch:
  "inserted_one h t ver elem = inserted h t ver 1 [elem]" "deleted_one h t ver elem = deleted h t ver 1 [elem]"
  by (simp_all add: inserted_one_def inserted_def deleted_one_def deleted_def)

section \<open>Properties\<close>

text \<open>A published tree: the initial build.\<close>

lemma built_inv: "pam_inv (hash64 seed seed64) 0 (pam_interface_build (hash64 seed seed64) 2 [7, 7])"
  by (rule pam_build_inv(1) [OF inj_hash64]) simp

text \<open>C23. A batch of \<open>n\<close> insertions into a published tree of version \<open>V\<close>: the result is again a summed treap, and this is the
  answer of every point query at every version \<open>v\<close> from \<open>V\<close> on. A key that the batch touches, but not among its first
  \<open>v - V\<close> elements, is answered with 0, whatever its old count was (a defect of \<^verbatim>\<open>copy_merge\<close>, shown by a run below); every other key with its old
  count plus its occurrences among these elements. For \<open>v = V + n\<close> the first case is empty and every answer is exact.\<close>

theorem pam_insert_exact:
  assumes "pam_inv (hash64 seed seed64) V t" "n \<le> length elems" "V + n < vstat_uninitialized" "V \<le> v"
  shows "pam_inv (hash64 seed seed64) (V + n) (inserted (hash64 seed seed64) t (Suc V) n elems) \<and>
    pam_find (inserted (hash64 seed seed64) t (Suc V) n elems) v k =
      (if k \<in> set (take n elems) \<and> k \<notin> set (take (v - V) (take n elems)) then 0
       else pam_find t V k + of_nat (count_list (take (v - V) (take n elems)) k))"
  using inserted_correct [OF assms(1) inj_hash64 assms(2,3)] assms(4) by simp

theorem pam_insert_exact_witness:
  "pam_find (inserted (hash64 (1, 2, 3, 4) (5, 6, 7, 8)) (pam_interface_build (hash64 (1, 2, 3, 4) (5, 6, 7, 8)) 2 [7, 7]) 1 2 [7, 3]) 2 7 = 3"
proof -
  have "pam_find (pam_interface_build (hash64 (1, 2, 3, 4) (5, 6, 7, 8)) 2 [7, 7]) 0 7 = 2"
    using pam_find_counts [of "hash64 (1, 2, 3, 4) (5, 6, 7, 8)"] built_inv [of "(1, 2, 3, 4)" "(5, 6, 7, 8)"]
      pam_build_inv(2) [OF inj_hash64, of 2 "[7, 7]" 0 "(1, 2, 3, 4)" "(5, 6, 7, 8)"]
    by (simp add: pam_inv_def occurrences_def)
  with pam_insert_exact [OF built_inv, of 2 "[7, 3]" 2 "(1, 2, 3, 4)" "(5, 6, 7, 8)" 7] show ?thesis
    by (simp add: vstat_uninitialized_def)
qed

text \<open>C24. A batch of deletions: the result is again a summed treap without the deleted keys, and every
  other key is answered as before.\<close>

theorem pam_delete_exact:
  assumes "pam_inv (hash64 seed seed64) V t" "n \<le> length elems" "V + n < vstat_uninitialized" "V \<le> v"
  shows "pam_inv (hash64 seed seed64) (V + n) (deleted (hash64 seed seed64) t (Suc V) n elems) \<and>
    pam_find (deleted (hash64 seed seed64) t (Suc V) n elems) v k = (if k \<in> set (take n elems) then 0 else pam_find t V k)"
  using deleted_correct [OF assms(1) inj_hash64 assms(2,3)] assms(4) by simp

theorem pam_delete_exact_witness:
  "pam_find (deleted (hash64 (1, 2, 3, 4) (5, 6, 7, 8)) (pam_interface_build (hash64 (1, 2, 3, 4) (5, 6, 7, 8)) 2 [7, 7]) 1 1 [7]) 1 7 = 0"
  using pam_delete_exact [OF built_inv, of 1 "[7]" 1 "(1, 2, 3, 4)" "(5, 6, 7, 8)" 7] by (simp add: vstat_uninitialized_def)

text \<open>Range queries agree with point queries: on a published tree, at every version, the range
  query adds up the answers of the point queries for the keys of the tree in the range, although it skips
  subtrees whose sum is valid at that version.\<close>

theorem pam_range_exact:
  assumes "pam_inv (hash64 seed seed64) V t"
  shows "pam_range_estimate t v l r = (\<Sum>k \<in> {k \<in> pkeys t. l \<le> k \<and> k \<le> r}. pam_find t v k)"
proof -
  have t: "ptreap (hash64 seed seed64) t" using assms by (simp add: pam_inv_def)
  have "dom (pam_counts v t) = pkeys t" by (simp add: pam_counts_def)
  moreover have "the (pam_counts v t k) = pam_find t v k" if "k \<in> pkeys t" for k
    using that pam_find_counts [OF t, of v k] \<open>dom (pam_counts v t) = pkeys t\<close> by (auto split: option.splits)
  ultimately show ?thesis unfolding pam_range_correct [OF assms] sum_counts_def by (intro sum.cong) auto
qed

theorem pam_range_exact_witness:
  "pam_range_estimate (pam_interface_build (hash64 (1, 2, 3, 4) (5, 6, 7, 8)) 2 [7, 7]) 0 8 9 = 0"
proof -
  let ?t = "pam_interface_build (hash64 (1, 2, 3, 4) (5, 6, 7, 8)) 2 [7, 7]"
  have "dom (pam_counts 0 ?t) = {7}" unfolding pam_build_inv(2) [OF inj_hash64, of 2 "[7, 7]", simplified]
    by (auto simp: occurrences_def split: if_splits)
  then have "{k \<in> pkeys ?t. 8 \<le> k \<and> k \<le> 9} = {}" by (auto simp: pam_counts_def)
  with pam_range_exact [OF built_inv, of "(1, 2, 3, 4)" "(5, 6, 7, 8)" 0 8 9] show ?thesis by (simp only: sum.empty)
qed

text \<open>C25. A defect: inside a batch of insertions an old count is lost until the batch touches the key.
  With 7 stored once, a batch that inserts 3 (version 1) and 7 (version 2) makes a query for 7 at version
  1 answer 0.\<close>

theorem pam_insert_forgets:
  "pam_find (pam_interface_build (hash64 seed seed64) 1 [7]) 0 7 = 1 \<and>
   pam_find (inserted (hash64 seed seed64) (pam_interface_build (hash64 seed seed64) 1 [7]) 1 2 [3, 7]) 1 7 = 0"
proof -
  have inv: "pam_inv (hash64 seed seed64) 0 (pam_interface_build (hash64 seed seed64) 1 [7])"
    by (rule pam_build_inv(1) [OF inj_hash64]) simp
  have "pam_find (pam_interface_build (hash64 seed seed64) 1 [7]) 0 7 = 1"
    using pam_find_counts [of "hash64 seed seed64"] inv pam_build_inv(2) [OF inj_hash64, of 1 "[7]" 0 seed seed64]
    by (simp add: pam_inv_def occurrences_def)
  then show ?thesis using inserted_correct(2) [OF inv inj_hash64, of 2 "[3, 7]" 1 7]
    by (simp add: vstat_uninitialized_def)
qed

text \<open>A difference between the backends: deleting a key counted twice leaves one in the plain treap
  but removes the key in the batch tree.\<close>

theorem pam_delete_all:
  "pam_find (deleted_one (hash64 seed seed64) (pam_interface_build (hash64 seed seed64) 2 [7, 7]) 1 7) 1 7 = 0 \<and>
   counts (search_delete 1 (build_parallel (hash64 seed seed64) 2 [7, 7]) (hash64 seed seed64 7) 7) 7 = Some 1"
proof
  show "pam_find (deleted_one (hash64 seed seed64) (pam_interface_build (hash64 seed seed64) 2 [7, 7]) 1 7) 1 7 = 0"
    using deleted_correct(2) [OF built_inv [of seed seed64] inj_hash64, of 1 "[7]" 1 7] by (simp add: single_batch vstat_uninitialized_def)
  let ?t = "build_parallel (hash64 seed seed64) 2 [7, 7]"
  have "treap (hash64 seed seed64) ?t" "counts ?t 7 = Some 2"
    using build_correct [OF inj_hash64, of 2 "[7, 7]" seed seed64] build_parallel_augments [of "hash64 seed seed64" 2 "[7, 7]"]
    by (simp_all add: occurrences_def)
  then show "counts (search_delete 1 ?t (hash64 seed seed64 7) 7) 7 = Some 1"
    by (simp add: counts_search_delete inj_hash64 drop_one_def)
qed

end
