(* ===== verification/DB_Batch.thy ===== *)
theory DB_Batch
  imports Query_Processor PAM_Batch
begin

text \<open>
  The batch backend (\<^verbatim>\<open>db/batch.hpp\<close>): updates are collected in a buffer and applied to the PAM tree when
  the buffer is full, when the kind of update changes and at \<open>Close\<close>; each application appends a root to a linked
  list. A query thread keeps a cursor into that list and moves it to the root that covers the
  version it is asked for, waiting while that root does not exist yet. The linked list is a list of
  pairs of version and tree, a pointer to an element is its position, and \<open>prev\<close> and \<open>next\<close> are one less
  and one more. An application first links the new root and then counts it: these are two steps, so that
  steps of query threads may come in between.
\<close>

datatype buffer_op = B_INSERT | B_DELETE

text \<open>What is left of the call after an application: nothing, an update to put into the buffer, or the end of \<open>Close\<close>.\<close>

datatype after_update = Return | Fill buffer_op u64 | Finish

datatype batch_pc = B_ready | B_publish after_update | B_fill buffer_op u64 | B_stop | B_closed

type_synonym root_list = "(nat \<times> pnode) list"

record batch =
  batch_size :: nat
  buffer_type :: buffer_op
  buffer_count :: nat
  buffer :: "u64 list"
  version_submitted :: nat
  version_committed :: nat
  roots :: root_list
  num_versions :: nat
  b_pc :: batch_pc

record cursor =
  cur_vid :: nat
  last_vid :: nat
  cur_root :: nat

type_synonym batch_db = "batch \<times> cursor processor"

definition batch_Init :: "(u64 \<Rightarrow> u64) \<Rightarrow> nat \<Rightarrow> nat \<Rightarrow> nat \<Rightarrow> u64 list \<Rightarrow> batch_db" where
  "batch_Init h N b n elems =
     (\<lparr>batch_size = b, buffer_type = B_INSERT, buffer_count = 0, buffer = replicate b 0,
       version_submitted = 0, version_committed = 0, roots = [(0, pam_interface_build h n elems)], num_versions = 0, b_pc = B_ready\<rparr>,
      Start N (make_processor \<lparr>cur_vid = 0, last_vid = 0, cur_root = 0\<rparr>))"

definition do_update_link :: "(u64 \<Rightarrow> u64) \<Rightarrow> after_update \<Rightarrow> batch \<Rightarrow> batch" where
  "do_update_link h next s =
     (let t = snd (last (roots s));
          t_new = (case buffer_type s of
              B_INSERT \<Rightarrow> inserted h t (version_committed s + 1) (buffer_count s) (buffer s)
            | B_DELETE \<Rightarrow> deleted h t (version_committed s + 1) (buffer_count s) (buffer s));
          committed = version_committed s + buffer_count s
      in s\<lparr>version_committed := committed, buffer_count := 0, roots := roots s @ [(committed, t_new)], b_pc := B_publish next\<rparr>)"

definition do_update_publish :: "after_update \<Rightarrow> batch \<Rightarrow> batch" where
  "do_update_publish next s =
     s\<lparr>num_versions := num_versions s + 1,
       b_pc := (case next of Return \<Rightarrow> B_ready | Fill ty key \<Rightarrow> B_fill ty key | Finish \<Rightarrow> B_stop)\<rparr>"

definition enbuffer :: "(u64 \<Rightarrow> u64) \<Rightarrow> u64 \<Rightarrow> batch \<Rightarrow> batch outcome" where
  "enbuffer h key s =
     (if buffer_count s < length (buffer s)
      then let s = s\<lparr>buffer := (buffer s)[buffer_count s := key], buffer_count := buffer_count s + 1,
                     version_submitted := version_submitted s + 1\<rparr>
           in Done (if buffer_count s = batch_size s then do_update_link h Return s else s\<lparr>b_pc := B_ready\<rparr>)
      else Crash)"

definition update_enbuffer :: "(u64 \<Rightarrow> u64) \<Rightarrow> buffer_op \<Rightarrow> u64 \<Rightarrow> batch \<Rightarrow> batch outcome" where
  "update_enbuffer h ty key s =
     (if buffer_type s \<noteq> ty then Done (do_update_link h (Fill ty key) s) else enbuffer h key s)"

text \<open>The two loops of the cursor. Reading \<open>next\<close> of the last element yields a null pointer.\<close>

fun seek_back :: "root_list \<Rightarrow> nat \<Rightarrow> nat \<Rightarrow> nat \<Rightarrow> nat \<times> nat" where
  "seek_back rs ver vid cur =
     (if cur \<noteq> 0 \<and> ver \<le> fst (rs ! (cur - 1)) then seek_back rs ver (vid - 1) (cur - 1) else (vid, cur))"

declare seek_back.simps [simp del]

function seek_forward :: "root_list \<Rightarrow> nat \<Rightarrow> nat \<Rightarrow> nat \<Rightarrow> nat \<Rightarrow> (nat \<times> nat) outcome" where
  "seek_forward rs ver vid lim cur =
     (if cur < length rs then
        if ver > fst (rs ! cur) \<and> vid < lim then seek_forward rs ver (vid + 1) lim (cur + 1) else Done (vid, cur)
      else Crash)"
  by pat_completeness auto
termination
  by (relation "measure (\<lambda>(rs, ver, vid, lim, cur). length rs - cur)") auto

declare seek_forward.simps [simp del]

text \<open>
  The outer loop reloads the number of versions when the roots known so far do not reach the
  version. When the new number does not help either it spins; the search then starts again
  from the same cursor later, which leads to the same root.
\<close>

definition seek :: "batch \<Rightarrow> nat \<Rightarrow> cursor \<Rightarrow> cursor outcome" where
  "seek s ver c =
     (let (vid, cur) = seek_back (roots s) ver (cur_vid c) (cur_root c)
      in bind_outcome (seek_forward (roots s) ver vid (last_vid c) cur) (\<lambda>(vid, cur).
         if ver > fst (roots s ! cur) then
           bind_outcome (seek_forward (roots s) ver vid (num_versions s) cur) (\<lambda>(vid, cur).
             if ver > fst (roots s ! cur) then Wait
             else Done \<lparr>cur_vid = vid, last_vid = num_versions s, cur_root = cur\<rparr>)
         else Done \<lparr>cur_vid = vid, last_vid = last_vid c, cur_root = cur\<rparr>))"

definition process_range_query :: "batch \<Rightarrow> cursor \<Rightarrow> nat \<Rightarrow> u64 \<Rightarrow> u64 \<Rightarrow> (cursor \<times> u64) outcome" where
  "process_range_query s c ver l r =
     bind_outcome (seek s ver c) (\<lambda>c.
       let t = snd (roots s ! cur_root c)
       in Done (c, if l = r then pam_find t ver l else pam_range_estimate t ver l r))"

definition batch_call :: "(u64 \<Rightarrow> u64) \<Rightarrow> bool \<Rightarrow> call \<Rightarrow> batch_db \<Rightarrow> batch_db outcome" where
  "batch_call h ok c = (\<lambda>(s, p).
     if b_pc s \<noteq> B_ready then Wait
     else case c of
       Query l r \<Rightarrow> Done (s, fst (Push ok (version_submitted s) l r p))
     | Insert k \<Rightarrow> bind_outcome (update_enbuffer h B_INSERT k s) (\<lambda>s. Done (s, p))
     | Delete k \<Rightarrow> bind_outcome (update_enbuffer h B_DELETE k s) (\<lambda>s. Done (s, p)))"

definition batch_Close :: "(u64 \<Rightarrow> u64) \<Rightarrow> batch_db \<Rightarrow> batch_db outcome" where
  "batch_Close h = (\<lambda>(s, p).
     if b_pc s \<noteq> B_ready then Wait
     else if buffer_count s > 0 then Done (do_update_link h Finish s, p)
     else Done (s\<lparr>b_pc := B_closed\<rparr>, Stop p))"

definition batch_proceed :: "(u64 \<Rightarrow> u64) \<Rightarrow> batch_db \<Rightarrow> batch_db outcome" where
  "batch_proceed h = (\<lambda>(s, p).
     case b_pc s of
       B_publish next \<Rightarrow> Done (do_update_publish next s, p)
     | B_fill ty key \<Rightarrow> bind_outcome (enbuffer h key (s\<lparr>buffer_type := ty\<rparr>)) (\<lambda>s. Done (s, p))
     | B_stop \<Rightarrow> Done (s\<lparr>b_pc := B_closed\<rparr>, Stop p)
     | _ \<Rightarrow> Wait)"

fun batch_step :: "(u64 \<Rightarrow> u64) \<Rightarrow> nat \<Rightarrow> db_event \<Rightarrow> batch_db \<Rightarrow> batch_db outcome" where
  "batch_step h N (Call ok c) s = batch_call h ok c s"
| "batch_step h N Close s = batch_Close h s"
| "batch_step h N Proceed s = batch_proceed h s"
| "batch_step h N (Client i found) s =
     (if i \<in> {1..N} then bind_outcome (process_step (process_range_query (fst s)) i found (snd s)) (\<lambda>p. Done (fst s, p))
      else Wait)"

section \<open>The cursor\<close>

text \<open>A cursor never passes the roots that are counted, of which there may be one less than are linked.\<close>

definition cursor_ok :: "batch \<Rightarrow> cursor \<Rightarrow> bool" where
  "cursor_ok s c \<longleftrightarrow> cur_vid c = cur_root c \<and> cur_root c \<le> num_versions s \<and> last_vid c \<le> num_versions s"

text \<open>The root a version belongs to: the first one that reaches it.\<close>

definition covers :: "root_list \<Rightarrow> nat \<Rightarrow> nat \<Rightarrow> bool" where
  "covers rs ver i \<longleftrightarrow> ver \<le> fst (rs ! i) \<and> (i = 0 \<or> fst (rs ! (i - 1)) < ver)"

lemma seek_back_cases:
  "seek_back rs ver i i = (vid, cur) \<Longrightarrow> vid = cur \<and> cur \<le> i \<and> (cur = 0 \<or> fst (rs ! (cur - 1)) < ver)"
proof (induction i)
  case 0
  then show ?case by (simp add: seek_back.simps [of rs ver 0 0])
next
  case (Suc i)
  then show ?case by (cases "ver \<le> fst (rs ! i)") (auto simp: seek_back.simps [of rs ver "Suc i"])
qed

lemma seek_forward_cases:
  "i < length rs \<Longrightarrow> lim < length rs \<Longrightarrow> i = 0 \<or> fst (rs ! (i - 1)) < ver \<Longrightarrow>
   \<exists>j. seek_forward rs ver i lim i = Done (j, j) \<and> (j \<le> i \<or> j \<le> lim) \<and> (j = 0 \<or> fst (rs ! (j - 1)) < ver) \<and>
     (ver \<le> fst (rs ! j) \<or> lim \<le> j)"
proof (induction "length rs - i" arbitrary: i rule: less_induct)
  case less
  show ?case
  proof (cases "ver > fst (rs ! i) \<and> i < lim")
    case True
    have "length rs - Suc i < length rs - i" "Suc i < length rs" "Suc i = 0 \<or> fst (rs ! (Suc i - 1)) < ver"
      using True less.prems(1,2) by (auto intro: diff_less_mono2)
    from less.hyps [OF this(1,2) less.prems(2) this(3)] obtain j where "seek_forward rs ver (Suc i) lim (Suc i) = Done (j, j)"
      "j \<le> Suc i \<or> j \<le> lim" "j = 0 \<or> fst (rs ! (j - 1)) < ver" "ver \<le> fst (rs ! j) \<or> lim \<le> j" by blast
    with True less.prems(1) show ?thesis by (auto simp: seek_forward.simps [of rs ver i])
  next
    case False
    with less.prems show ?thesis by (auto simp: seek_forward.simps [of rs ver i])
  qed
qed

lemma seek_cases:
  assumes "cursor_ok s c" "num_versions s < length (roots s)"
  shows "(\<exists>c'. seek s ver c = Done c' \<and> cursor_ok s c' \<and> covers (roots s) ver (cur_root c')) \<or>
    seek s ver c = Wait \<and> fst (roots s ! num_versions s) < ver"
proof -
  obtain i where b: "seek_back (roots s) ver (cur_vid c) (cur_root c) = (i, i)" "i \<le> num_versions s" "i = 0 \<or> fst (roots s ! (i - 1)) < ver"
    using seek_back_cases [of "roots s" ver "cur_root c"] assms(1) by (cases "seek_back (roots s) ver (cur_root c) (cur_root c)") (auto simp: cursor_ok_def)
  have l: "last_vid c \<le> num_versions s" using assms by (simp add: cursor_ok_def)
  from seek_forward_cases [OF _ _ b(3), of "last_vid c"] b(2) l assms(2) obtain j where
    j: "seek_forward (roots s) ver i (last_vid c) i = Done (j, j)" "j \<le> num_versions s" "j = 0 \<or> fst (roots s ! (j - 1)) < ver" by fastforce
  from seek_forward_cases [OF _ assms(2) j(3)] j(2) assms(2) obtain k where
    k: "seek_forward (roots s) ver j (num_versions s) j = Done (k, k)" "k \<le> num_versions s" "k = 0 \<or> fst (roots s ! (k - 1)) < ver"
      "ver \<le> fst (roots s ! k) \<or> num_versions s \<le> k" by fastforce
  have "k = num_versions s" if "\<not> ver \<le> fst (roots s ! k)" using k(2,4) that by simp
  then show ?thesis using b(1) j k(1-3) by (auto simp: seek_def covers_def cursor_ok_def not_less l)
qed

section \<open>The contents of a version\<close>

text \<open>The counters after a sequence of updates, as this backend means them: a deletion removes all occurrences.\<close>

fun batch_spec_step :: "request \<Rightarrow> (u64 \<Rightarrow> u64) \<Rightarrow> u64 \<Rightarrow> u64" where
  "batch_spec_step (OP_NONE, key) c = c"
| "batch_spec_step (OP_INSERT, key) c = c(key := c key + 1)"
| "batch_spec_step (OP_DELETE, key) c = c(key := 0)"

definition batch_spec :: "(u64 \<Rightarrow> u64) \<Rightarrow> request list \<Rightarrow> nat \<Rightarrow> u64 \<Rightarrow> u64" where
  "batch_spec c us v = fold batch_spec_step (take v us) c"

text \<open>
  What the query threads see of it, for the list of batches. The versions at the end of a batch have these
  contents, and those inside a batch too, with one exception: a key that the batch touches after the
  version, and not before, is seen as absent.
\<close>

fun batch_view :: "(u64 \<Rightarrow> u64) \<Rightarrow> request list list \<Rightarrow> nat \<Rightarrow> u64 \<Rightarrow> u64" where
  "batch_view c [] v k = c k"
| "batch_view c (B # Bs) v k =
     (if v = 0 then c k
      else if v \<le> length B then
        (if k \<in> set (map snd (drop v B)) - set (map snd (take v B)) then 0 else batch_spec c B v k)
      else batch_view (batch_spec c B (length B)) Bs (v - length B) k)"

text \<open>
  The batches that a sequence of events makes: a batch is closed when an update of the other kind comes, when it
  has \<open>b\<close> updates, and by \<open>Close\<close> if there is one at all. The last two parts are the kind of
  the batch that is open and its updates.
\<close>

type_synonym batching = "request list list \<times> operation \<times> request list"

fun batch_cut :: "operation \<Rightarrow> batching \<Rightarrow> batching" where
  "batch_cut ty (Bs, ty', us) = (if ty' \<noteq> ty then (Bs @ [us], ty, []) else (Bs, ty', us))"

fun batch_put :: "nat \<Rightarrow> request \<Rightarrow> batching \<Rightarrow> batching" where
  "batch_put b u (Bs, ty, us) = (if Suc (length us) = b then (Bs @ [us @ [u]], ty, []) else (Bs, ty, us @ [u]))"

fun batch_flush :: "batching \<Rightarrow> batching" where
  "batch_flush (Bs, ty, us) = (if us = [] then (Bs, ty, us) else (Bs @ [us], ty, []))"

fun batch_event :: "nat \<Rightarrow> db_event \<Rightarrow> batching \<Rightarrow> batching" where
  "batch_event b (Call ok (Insert k)) G = batch_put b (OP_INSERT, k) (batch_cut OP_INSERT G)"
| "batch_event b (Call ok (Delete k)) G = batch_put b (OP_DELETE, k) (batch_cut OP_DELETE G)"
| "batch_event b Close G = batch_flush G"
| "batch_event b e G = G"

definition batch_events :: "nat \<Rightarrow> db_event list \<Rightarrow> batching" where
  "batch_events b es = fold (batch_event b) es ([], OP_INSERT, [])"

definition batches :: "nat \<Rightarrow> db_event list \<Rightarrow> request list list" where
  "batches b es = fst (batch_events b es)"

fun op_of :: "buffer_op \<Rightarrow> operation" where
  "op_of B_INSERT = OP_INSERT"
| "op_of B_DELETE = OP_DELETE"

lemma op_of_eq [simp]: "op_of a = op_of b \<longleftrightarrow> a = b"
  by (cases a; cases b) simp_all

lemma batch_spec_append: "v \<le> length us \<Longrightarrow> batch_spec c (us @ ws) v = batch_spec c us v"
  by (simp add: batch_spec_def)

lemma batch_spec_all: "length us \<le> v \<Longrightarrow> batch_spec c us v = fold batch_spec_step us c"
  by (simp add: batch_spec_def)

lemma batch_view_append: "v \<le> length (concat Bs) \<Longrightarrow> batch_view c (Bs @ Ts) v k = batch_view c Bs v k"
proof (induction Bs arbitrary: c v)
  case Nil
  then show ?case by (cases Ts) simp_all
qed (auto simp: not_le)

lemma batch_view_last:
  "length (concat Bs) < v \<Longrightarrow> v \<le> length (concat Bs) + length B \<Longrightarrow>
   batch_view c (Bs @ [B]) v k =
     (if k \<in> set (map snd (drop (v - length (concat Bs)) B)) - set (map snd (take (v - length (concat Bs)) B)) then 0
      else batch_spec (batch_spec c (concat Bs) (length (concat Bs))) B (v - length (concat Bs)) k)"
proof (induction Bs arbitrary: c v)
  case (Cons C Bs)
  have "batch_spec (batch_spec c C (length C)) (concat Bs) (length (concat Bs)) = batch_spec c (C @ concat Bs) (length C + length (concat Bs))"
    by (simp add: batch_spec_all)
  with Cons show ?case by (simp add: diff_diff_left)
qed (simp add: batch_spec_def)

lemma fold_inserts: "fold batch_spec_step (map (Pair OP_INSERT) xs) c k = c k + of_nat (count_list xs k)"
  by (induction xs arbitrary: c) auto

lemma fold_deletes: "fold batch_spec_step (map (Pair OP_DELETE) xs) c k = (if k \<in> set xs then 0 else c k)"
  by (induction xs arbitrary: c) auto

text \<open>One batch, applied to the contents before it.\<close>

definition apply_batch :: "(u64 \<Rightarrow> u64) \<Rightarrow> buffer_op \<Rightarrow> pnode \<Rightarrow> nat \<Rightarrow> nat \<Rightarrow> u64 list \<Rightarrow> pnode" where
  "apply_batch h ty t ver n elems =
     (case ty of B_INSERT \<Rightarrow> inserted h t ver n elems | B_DELETE \<Rightarrow> deleted h t ver n elems)"

lemma apply_batch_correct:
  assumes "pam_inv h V t" "inj h" "n \<le> length elems" "V + n < vstat_uninitialized"
    and B: "B = map (Pair (op_of ty)) (take n elems)"
  shows "pam_inv h (V + n) (apply_batch h ty t (Suc V) n elems)"
    and "V \<le> v \<Longrightarrow> v \<le> V + n \<Longrightarrow> pam_find (apply_batch h ty t (Suc V) n elems) v k =
      (if k \<in> set (map snd (drop (v - V) B)) - set (map snd (take (v - V) B)) then 0 else batch_spec (pam_find t V) B (v - V) k)"
proof -
  let ?xs = "take n elems" and ?t = "apply_batch h ty t (Suc V) n elems"
  note ins = inserted_correct [OF assms(1-4)] and del = deleted_correct [OF assms(1-4)]
  have "pam_inv h (V + n) (inserted h t (Suc V) n elems)" "pam_inv h (V + n) (deleted h t (Suc V) n elems)"
    using ins(1) del(1) by auto
  then show "pam_inv h (V + n) ?t" by (cases ty) (simp_all add: apply_batch_def)
  assume v: "V \<le> v" "v \<le> V + n"
  have sub: "set ?xs = set (take (v - V) ?xs) \<union> set (drop (v - V) ?xs)" by (metis append_take_drop_id set_append)
  have snd: "map snd (map (Pair a) xs) = xs" for a :: operation and xs :: "u64 list" by (induction xs) simp_all
  have spec: "batch_spec (pam_find t V) B (v - V) k =
      (case ty of B_INSERT \<Rightarrow> pam_find t V k + of_nat (count_list (take (v - V) ?xs) k)
        | B_DELETE \<Rightarrow> if k \<in> set (take (v - V) ?xs) then 0 else pam_find t V k)"
    by (cases ty) (simp_all only: batch_spec_def B take_map op_of.simps fold_inserts fold_deletes buffer_op.case)
  show "pam_find ?t v k =
      (if k \<in> set (map snd (drop (v - V) B)) - set (map snd (take (v - V) B)) then 0 else batch_spec (pam_find t V) B (v - V) k)"
    unfolding spec unfolding B take_map drop_map snd
    using ins(2) [OF v(1), of k] del(2) [OF v(1), of k] sub by (cases ty) (auto simp: apply_batch_def)
qed

section \<open>The invariant\<close>

definition root_ok :: "(u64 \<Rightarrow> u64) \<Rightarrow> (u64 \<Rightarrow> u64) \<Rightarrow> request list list \<Rightarrow> root_list \<Rightarrow> nat \<Rightarrow> bool" where
  "root_ok h c Bs rs i \<longleftrightarrow> fst (rs ! i) = length (concat (take i Bs)) \<and> pam_inv h (fst (rs ! i)) (snd (rs ! i)) \<and>
     (\<forall>k. pam_find (snd (rs ! i)) (fst (rs ! i)) k = batch_spec c (concat (take i Bs)) (fst (rs ! i)) k) \<and>
     (\<forall>v k. covers rs v i \<longrightarrow> pam_find (snd (rs ! i)) v k = batch_view c (take i Bs) v k)"

text \<open>The roots and the counters, for the batches that are linked; in the middle of a call the buffer may be full.\<close>

definition linked_inv :: "(u64 \<Rightarrow> u64) \<Rightarrow> (u64 \<Rightarrow> u64) \<Rightarrow> request list list \<Rightarrow> batch \<Rightarrow> bool" where
  "linked_inv h c Bs s \<longleftrightarrow> length (buffer s) = batch_size s \<and> buffer_count s \<le> batch_size s \<and>
     version_committed s = length (concat Bs) \<and> version_submitted s = version_committed s + buffer_count s \<and>
     length (roots s) = Suc (length Bs) \<and> (\<forall>i \<le> length Bs. root_ok h c Bs (roots s) i)"

text \<open>The update that an interrupted call has still to put into the buffer, and the kind of the batch it will go into.\<close>

fun unfilled :: "batch_pc \<Rightarrow> (buffer_op \<times> u64) option" where
  "unfilled (B_publish (Fill ty k)) = Some (ty, k)"
| "unfilled (B_fill ty k) = Some (ty, k)"
| "unfilled _ = None"

fun unpublished :: "batch_pc \<Rightarrow> nat" where
  "unpublished (B_publish next) = 1"
| "unpublished _ = 0"

definition open_type :: "batch \<Rightarrow> operation" where
  "open_type s = op_of (case unfilled (b_pc s) of Some (ty, k) \<Rightarrow> ty | None \<Rightarrow> buffer_type s)"

definition open_batch :: "batch \<Rightarrow> request list" where
  "open_batch s = map (Pair (op_of (buffer_type s))) (take (buffer_count s) (buffer s))"

definition batch_inv :: "(u64 \<Rightarrow> u64) \<Rightarrow> (u64 \<Rightarrow> u64) \<Rightarrow> batching \<Rightarrow> batch \<Rightarrow> bool" where
  "batch_inv h c G s \<longleftrightarrow> linked_inv h c (fst G) s \<and> buffer_count s < batch_size s \<and>
     length (fst G) = num_versions s + unpublished (b_pc s) \<and>
     (b_pc s \<noteq> B_ready \<longrightarrow> buffer_count s = 0) \<and> snd G = (open_type s, open_batch s)"

lemma do_update_link_fields [simp]:
  "roots (do_update_link h next s) = roots s @ [(version_committed s + buffer_count s,
     apply_batch h (buffer_type s) (snd (last (roots s))) (Suc (version_committed s)) (buffer_count s) (buffer s))]"
  "version_committed (do_update_link h next s) = version_committed s + buffer_count s"
  "buffer_count (do_update_link h next s) = 0" "num_versions (do_update_link h next s) = num_versions s"
  "buffer (do_update_link h next s) = buffer s" "batch_size (do_update_link h next s) = batch_size s"
  "version_submitted (do_update_link h next s) = version_submitted s" "buffer_type (do_update_link h next s) = buffer_type s"
  "b_pc (do_update_link h next s) = B_publish next"
  by (cases "buffer_type s"; simp add: do_update_link_def Let_def apply_batch_def)+

lemma root_ok_append:
  assumes "root_ok h c Bs rs i" "i < length rs" "i \<le> length Bs"
  shows "root_ok h c (Bs @ Ts) (rs @ ts) i"
proof -
  have "covers (rs @ ts) v i = covers rs v i" for v using assms(2) by (simp add: covers_def nth_append less_imp_diff_less)
  then show ?thesis using assms unfolding root_ok_def by (auto simp: nth_append)
qed

lemma linked_inv_link:
  assumes "linked_inv h c Bs s" "inj h" "version_submitted s < vstat_uninitialized"
  shows "linked_inv h c (Bs @ [open_batch s]) (do_update_link h next s)"
proof -
  let ?V = "version_committed s" and ?n = "buffer_count s" and ?i = "length Bs" and ?B = "open_batch s"
  let ?t = "apply_batch h (buffer_type s) (snd (last (roots s))) (Suc ?V) ?n (buffer s)"
  let ?rs = "roots s @ [(?V + ?n, ?t)]"
  note inv = assms(1) [unfolded linked_inv_def]
  have rs: "length (roots s) = Suc ?i" "last (roots s) = roots s ! ?i"
    using inv last_conv_nth [of "roots s"] by (auto, metis diff_Suc_1 list.size(3) nat.distinct(1))
  have ok: "root_ok h c Bs (roots s) ?i" using inv by simp
  then have V: "fst (roots s ! ?i) = ?V" "length (concat Bs) = ?V" and len: "length ?B = ?n"
    using inv by (auto simp: root_ok_def open_batch_def)
  have t: "pam_inv h ?V (snd (roots s ! ?i))" "pam_find (snd (roots s ! ?i)) ?V = batch_spec c (concat Bs) ?V"
    using ok V by (simp_all add: root_ok_def fun_eq_iff)
  have n: "?n \<le> length (buffer s)" "?V + ?n < vstat_uninitialized" using inv assms(3) by auto
  note new = apply_batch_correct [OF t(1) assms(2) n open_batch_def, folded rs(2)]
  have last: "pam_find ?t v k = batch_view c (Bs @ [?B]) v k" if "?V < v" "v \<le> ?V + ?n" for v k
    using new(2) [of v k] that batch_view_last [of Bs v ?B c k] V len t(2) by (simp add: rs(2))
  have "pam_find ?t (?V + ?n) k = batch_spec c (concat Bs @ ?B) (?V + ?n) k" for k
    using new(2) [of "?V + ?n" k] V len t(2) by (simp add: rs(2) batch_spec_all)
  then have "root_ok h c (Bs @ [?B]) ?rs (Suc ?i)"
    unfolding root_ok_def using new(1) last rs V len by (auto simp: nth_append covers_def)
  moreover have "root_ok h c (Bs @ [?B]) ?rs i" if "i \<le> ?i" for i
    using root_ok_append [of h c Bs "roots s" i] inv that by simp
  ultimately have "root_ok h c (Bs @ [?B]) ?rs i" if "i \<le> Suc ?i" for i
    using that by (auto simp: le_Suc_eq)
  then show ?thesis using inv len by (simp add: linked_inv_def)
qed

definition initial_counts :: "nat \<Rightarrow> u64 list \<Rightarrow> u64 \<Rightarrow> u64" where
  "initial_counts n elems k = of_nat (count_list (take n elems) k)"

lemma batch_inv_init:
  assumes "inj h" "n \<le> length elems" "0 < b"
  shows "batch_inv h (initial_counts n elems) ([], OP_INSERT, []) (fst (batch_Init h N b n elems))"
proof -
  let ?t = "pam_interface_build h n elems"
  note t = pam_build_inv [OF assms(1,2)]
  have "pam_find ?t v k = initial_counts n elems k" for v k
    using pam_find_counts [of h ?t v k] t by (simp add: pam_inv_def occurrences_def initial_counts_def count_list_0_iff)
  then show ?thesis using t(1) assms(3)
    by (simp add: batch_inv_def linked_inv_def batch_Init_def root_ok_def batch_spec_def open_type_def open_batch_def)
qed

section \<open>The steps of a call\<close>

text \<open>What every step of a call keeps: batches, versions and counted roots are only added.\<close>

definition batch_grows :: "batch \<times> batching \<Rightarrow> batch \<times> batching \<Rightarrow> bool" where
  "batch_grows = (\<lambda>(s, G) (s', G'). (\<exists>Ts. fst G' = fst G @ Ts) \<and> num_versions s \<le> num_versions s' \<and>
     version_submitted s \<le> version_submitted s' \<and> batch_size s' = batch_size s)"

text \<open>The batches once the call has put its update into the buffer.\<close>

definition filled_up :: "nat \<Rightarrow> batch_pc \<Rightarrow> batching \<Rightarrow> batching" where
  "filled_up b pc G = (case unfilled pc of None \<Rightarrow> G | Some (ty, k) \<Rightarrow> batch_put b (op_of ty, k) G)"

lemma batch_inv_link:
  assumes "linked_inv h c Bs s" "inj h" "version_submitted s < vstat_uninitialized" "num_versions s = length Bs" "0 < batch_size s"
  shows "batch_inv h c (Bs @ [open_batch s], op_of (case next of Fill ty k \<Rightarrow> ty | _ \<Rightarrow> buffer_type s), []) (do_update_link h next s)"
  using linked_inv_link [OF assms(1-3), of "next"] assms(4,5)
  by (cases "next") (simp_all add: batch_inv_def open_type_def open_batch_def)

lemma enbuffer_inv:
  assumes "linked_inv h c Bs s" "inj h" "Suc (version_submitted s) < vstat_uninitialized" "num_versions s = length Bs"
    and "buffer_count s < batch_size s"
  obtains s' G' where "enbuffer h k s = Done s'" "batch_inv h c G' s'" "batch_grows (s, (Bs, x)) (s', G')"
    "batch_put (batch_size s) (op_of (buffer_type s), k) (Bs, op_of (buffer_type s), open_batch s) = G'"
    "b_pc s' = B_ready \<or> b_pc s' = B_publish Return"
proof -
  let ?n = "buffer_count s" and ?ty = "op_of (buffer_type s)"
  define s1 where "s1 = s\<lparr>buffer := (buffer s)[?n := k], buffer_count := ?n + 1, version_submitted := version_submitted s + 1\<rparr>"
  note inv = assms(1) [unfolded linked_inv_def]
  have l: "linked_inv h c Bs s1" "batch_size s1 = batch_size s" "num_versions s1 = num_versions s" "version_submitted s1 = Suc (version_submitted s)"
    using assms(1,5) by (simp_all add: linked_inv_def s1_def)
  have o: "open_batch s1 = open_batch s @ [(?ty, k)]" "open_type (s1\<lparr>b_pc := B_ready\<rparr>) = ?ty" "length (open_batch s) = ?n"
    using inv assms(5) by (simp_all add: open_batch_def open_type_def s1_def take_Suc_conv_app_nth)
  have e: "enbuffer h k s = Done (if Suc ?n = batch_size s then do_update_link h Return s1 else s1\<lparr>b_pc := B_ready\<rparr>)"
    using inv assms(5) by (simp add: enbuffer_def Let_def s1_def)
  show thesis
  proof (cases "Suc ?n = batch_size s")
    case True
    have "batch_inv h c (Bs @ [open_batch s1], ?ty, []) (do_update_link h Return s1)"
      using batch_inv_link [OF l(1) assms(2), of Return] assms(3-5) l by (simp add: s1_def)
    moreover have "enbuffer h k s = Done (do_update_link h Return s1)" using e True by simp
    moreover have "batch_put (batch_size s) (?ty, k) (Bs, ?ty, open_batch s) = (Bs @ [open_batch s1], ?ty, [])"
      using True o(1,3) by simp
    moreover have "batch_grows (s, (Bs, x)) (do_update_link h Return s1, (Bs @ [open_batch s1], ?ty, []))"
      using l by (simp add: batch_grows_def)
    ultimately show thesis by (intro that [of "do_update_link h Return s1" "(Bs @ [open_batch s1], ?ty, [])"]) simp_all
  next
    case False
    have "open_batch (s1\<lparr>b_pc := B_ready\<rparr>) = open_batch s1" by (simp add: open_batch_def)
    moreover have "linked_inv h c Bs (s1\<lparr>b_pc := B_ready\<rparr>)" using l(1) by (simp add: linked_inv_def)
    moreover have "buffer_count s1 < batch_size s1" using assms(5) False by (simp add: s1_def)
    ultimately have "batch_inv h c (Bs, ?ty, open_batch s1) (s1\<lparr>b_pc := B_ready\<rparr>)"
      unfolding batch_inv_def using o(2) l(3) assms(4) by simp
    moreover have "enbuffer h k s = Done (s1\<lparr>b_pc := B_ready\<rparr>)" using e False by simp
    moreover have "batch_put (batch_size s) (?ty, k) (Bs, ?ty, open_batch s) = (Bs, ?ty, open_batch s1)"
      using False o(1,3) by simp
    moreover have "batch_grows (s, (Bs, x)) (s1\<lparr>b_pc := B_ready\<rparr>, (Bs, ?ty, open_batch s1))"
      using l by (simp add: batch_grows_def)
    ultimately show thesis by (intro that [of "s1\<lparr>b_pc := B_ready\<rparr>" "(Bs, ?ty, open_batch s1)"]) simp_all
  qed
qed

lemma batch_inv_ready:
  assumes "batch_inv h c G s" "b_pc s = B_ready"
  shows "linked_inv h c (fst G) s" "num_versions s = length (fst G)" "buffer_count s < batch_size s"
    "G = (fst G, op_of (buffer_type s), open_batch s)"
  using assms by (simp_all add: batch_inv_def open_type_def prod_eq_iff)

lemma update_enbuffer_inv:
  assumes "batch_inv h c G s" "b_pc s = B_ready" "inj h" "Suc (version_submitted s) < vstat_uninitialized"
  obtains s' G' where "update_enbuffer h ty k s = Done s'" "batch_inv h c G' s'" "batch_grows (s, G) (s', G')"
    "batch_put (batch_size s) (op_of ty, k) (batch_cut (op_of ty) G) = filled_up (batch_size s) (b_pc s') G'" "b_pc s' \<noteq> B_closed"
proof (cases "buffer_type s = ty")
  case True
  note r = batch_inv_ready [OF assms(1,2)]
  from enbuffer_inv [OF r(1) assms(3,4) r(2,3), of k "snd G"] obtain s' G' where
    e: "enbuffer h k s = Done s'" "batch_inv h c G' s'" "batch_grows (s, fst G, snd G) (s', G')"
      "batch_put (batch_size s) (op_of (buffer_type s), k) (fst G, op_of (buffer_type s), open_batch s) = G'"
      "b_pc s' = B_ready \<or> b_pc s' = B_publish Return" by metis
  have "batch_cut (op_of ty) G = G" using True by (subst (1 2) r(4)) simp
  moreover have "batch_put (batch_size s) (op_of ty, k) G = G'" using e(4) True by (subst r(4)) simp
  ultimately show thesis using that [of s' G'] e True by (auto simp: update_enbuffer_def filled_up_def)
next
  case False
  note r = batch_inv_ready [OF assms(1,2)]
  let ?G = "(fst G @ [open_batch s], op_of ty, [])"
  have "batch_inv h c ?G (do_update_link h (Fill ty k) s)"
    using batch_inv_link [OF r(1) assms(3) _ r(2), of "Fill ty k"] r(3) assms(4) by simp
  moreover have "batch_cut (op_of ty) G = ?G" using False by (subst r(4)) simp
  ultimately show thesis
    using that [of "do_update_link h (Fill ty k) s" ?G] False by (simp add: update_enbuffer_def batch_grows_def filled_up_def)
qed

lemma batch_proceed_inv:
  assumes "batch_inv h c G s" "inj h" "version_submitted s + (if unfilled (b_pc s) = None then 0 else 1) < vstat_uninitialized"
    "b_pc s \<noteq> B_ready" "b_pc s \<noteq> B_closed"
  obtains s' G' where "batch_proceed h (s, p) = Done (s', if b_pc s = B_stop then Stop p else p)"
    "batch_inv h c G' s'" "batch_grows (s, G) (s', G')"
    "filled_up (batch_size s) (b_pc s) G = filled_up (batch_size s) (b_pc s') G'" "b_pc s' = B_closed \<longleftrightarrow> b_pc s = B_stop"
proof (cases "b_pc s")
  case (B_publish "next")
  have "batch_inv h c G (do_update_publish next s)" "b_pc (do_update_publish next s) \<noteq> B_closed"
    "filled_up (batch_size s) (b_pc s) G = filled_up (batch_size s) (b_pc (do_update_publish next s)) G"
    using assms(1) by (cases "next"; simp add: batch_inv_def linked_inv_def do_update_publish_def B_publish open_type_def open_batch_def filled_up_def)+
  with that show thesis by (simp add: batch_proceed_def B_publish batch_grows_def do_update_publish_def)
next
  case (B_fill ty k)
  let ?s = "s\<lparr>buffer_type := ty\<rparr>"
  have s: "linked_inv h c (fst G) ?s" "num_versions ?s = length (fst G)" "buffer_count ?s < batch_size ?s"
    "Suc (version_submitted ?s) < vstat_uninitialized" "snd G = (op_of ty, open_batch ?s)"
    using assms(1,3) by (simp_all add: batch_inv_def linked_inv_def B_fill open_type_def open_batch_def)
  from enbuffer_inv [OF s(1) assms(2) s(4,2,3), of k "snd G"] obtain s' G' where
    e: "enbuffer h k ?s = Done s'" "batch_inv h c G' s'" "batch_grows (?s, fst G, snd G) (s', G')"
      "batch_put (batch_size ?s) (op_of (buffer_type ?s), k) (fst G, op_of (buffer_type ?s), open_batch ?s) = G'"
      "b_pc s' = B_ready \<or> b_pc s' = B_publish Return" by metis
  have "batch_put (batch_size s) (op_of ty, k) G = G'" using e(4) s(5) by (cases G) simp
  then show thesis using that [of s' G'] e B_fill by (auto simp: batch_proceed_def filled_up_def batch_grows_def)
next
  case B_stop
  have "batch_inv h c G (s\<lparr>b_pc := B_closed\<rparr>)"
    using assms(1) by (simp add: batch_inv_def linked_inv_def B_stop open_type_def open_batch_def)
  with that show thesis by (simp add: batch_proceed_def B_stop batch_grows_def filled_up_def)
qed (use assms in simp_all)

lemma batch_Close_inv:
  assumes "batch_inv h c G s" "inj h" "version_submitted s < vstat_uninitialized" "b_pc s = B_ready"
  obtains s' p' G' where "batch_Close h (s, p) = Done (s', p')" "batch_inv h c G' s'" "batch_grows (s, G) (s', G')"
    "batch_flush G = filled_up (batch_size s) (b_pc s') G'" "p' = (if b_pc s' = B_closed then Stop p else p)"
proof (cases "buffer_count s = 0")
  case True
  note r = batch_inv_ready [OF assms(1,4)]
  have "batch_inv h c G (s\<lparr>b_pc := B_closed\<rparr>)"
    using assms(1,4) True by (simp add: batch_inv_def linked_inv_def open_type_def open_batch_def)
  moreover have "batch_flush G = G" using True by (subst (1 2) r(4)) (simp add: open_batch_def)
  ultimately show thesis
    using that [of "s\<lparr>b_pc := B_closed\<rparr>" "Stop p" G] True assms(4) by (simp add: batch_Close_def batch_grows_def filled_up_def)
next
  case False
  note r = batch_inv_ready [OF assms(1,4)]
  let ?G = "(fst G @ [open_batch s], op_of (buffer_type s), [])"
  have "batch_inv h c ?G (do_update_link h Finish s)"
    using batch_inv_link [OF r(1) assms(2) assms(3) r(2), of Finish] r(3) by simp
  moreover have "batch_flush G = ?G" using False r(1,3) by (subst r(4)) (auto simp: open_batch_def linked_inv_def)
  ultimately show thesis
    using that [of "do_update_link h Finish s" p ?G] False assms(4) by (simp add: batch_Close_def batch_grows_def filled_up_def)
qed

section \<open>Serving queries\<close>

lemma pam_range_points:
  assumes "pam_inv h V t"
  shows "pam_range_estimate t v l r = (\<Sum>k \<in> {l..r}. pam_find t v k)"
proof -
  have t: "ptreap h t" using assms by (simp add: pam_inv_def)
  have "sum_counts (pam_counts v t) (\<lambda>k. l \<le> k \<and> k \<le> r) = (\<Sum>k \<in> {k \<in> dom (pam_counts v t). l \<le> k \<and> k \<le> r}. pam_find t v k)"
    unfolding sum_counts_def by (intro sum.cong) (auto simp: pam_find_counts [OF t])
  also have "\<dots> = (\<Sum>k \<in> {l..r}. pam_find t v k)"
    by (rule sum.mono_neutral_left) (auto simp: pam_find_counts [OF t] split: option.split)
  finally show ?thesis by (simp add: pam_range_correct [OF assms])
qed

text \<open>An answer is given for versions of linked batches only, and is what \<open>batch_view\<close> says.\<close>

definition batch_exact :: "(u64 \<Rightarrow> u64) \<Rightarrow> request list list \<Rightarrow> nat \<Rightarrow> u64 \<Rightarrow> u64 \<Rightarrow> u64 \<Rightarrow> bool" where
  "batch_exact c Bs ver l r x \<longleftrightarrow> ver \<le> length (concat Bs) \<and> x = (\<Sum>k \<in> {l..r}. batch_view c Bs ver k)"

lemma batch_exact_append: "batch_exact c Bs ver l r x \<Longrightarrow> batch_exact c (Bs @ Ts) ver l r x"
  by (simp add: batch_exact_def batch_view_append)

lemma take_concat_le: "length (concat (take i Bs)) \<le> length (concat Bs)"
  by (metis append_take_drop_id concat_append length_append le_add1)

lemma process_range_query_cases:
  assumes "batch_inv h c0 G s" "cursor_ok s c"
  shows "(\<exists>c' x. process_range_query s c ver l r = Done (c', x) \<and> cursor_ok s c' \<and> batch_exact c0 (fst G) ver l r x) \<or>
    process_range_query s c ver l r = Wait \<and> fst (roots s ! num_versions s) < ver"
proof -
  note inv = assms(1) [unfolded batch_inv_def linked_inv_def]
  have len: "num_versions s < length (roots s)" using inv by simp
  from seek_cases [OF assms(2) len, of ver] show ?thesis
  proof
    assume "seek s ver c = Wait \<and> fst (roots s ! num_versions s) < ver"
    then show ?thesis by (simp add: process_range_query_def)
  next
    assume "\<exists>c'. seek s ver c = Done c' \<and> cursor_ok s c' \<and> covers (roots s) ver (cur_root c')"
    then obtain c' where c': "seek s ver c = Done c'" "cursor_ok s c'" "covers (roots s) ver (cur_root c')" by blast
    let ?t = "snd (roots s ! cur_root c')" and ?i = "cur_root c'"
    have ok: "root_ok h c0 (fst G) (roots s) ?i" using inv c'(2) by (simp add: cursor_ok_def)
    have v: "ver \<le> length (concat (take ?i (fst G)))" using ok c'(3) by (simp add: root_ok_def covers_def)
    have "pam_find ?t ver k = batch_view c0 (fst G) ver k" for k
      using ok c'(3) batch_view_append [OF v, of c0 "drop ?i (fst G)" k] by (simp add: root_ok_def)
    then have "batch_exact c0 (fst G) ver l r (\<Sum>k \<in> {l..r}. pam_find ?t ver k)"
      using v take_concat_le [of ?i "fst G"] by (simp add: batch_exact_def)
    moreover have "(if l = r then pam_find ?t ver l else pam_range_estimate ?t ver l r) = (\<Sum>k \<in> {l..r}. pam_find ?t ver k)"
      using pam_range_points [of h "fst (roots s ! ?i)" ?t] ok by (auto simp: root_ok_def)
    ultimately show ?thesis using c'(1,2) by (simp add: process_range_query_def Let_def)
  qed
qed

interpretation batch: query_backend "\<lambda>s. process_range_query (fst s)"
  "\<lambda>s. batch_inv h c0 (snd s) (fst s)" "\<lambda>s. cursor_ok (fst s)"
  "\<lambda>s s'. batch_inv h c0 (snd s') (fst s') \<and> batch_grows s s'"
  "\<lambda>s. version_submitted (fst s)" "\<lambda>s. batch_exact c0 (fst (snd s))"
  for h c0
proof (unfold_locales, goal_cases)
  case (1 s c ver l r c' x)
  then show ?case using process_range_query_cases [of h c0 "snd s" "fst s" c ver l r] by auto
next
  case (4 s s' ver l r x)
  then show ?case by (auto simp: batch_grows_def batch_exact_append)
qed (auto simp: batch_grows_def cursor_ok_def)

text \<open>The updates of a run, and its queries with the number of updates before them.\<close>

fun updates :: "db_event list \<Rightarrow> request list" where
  "updates [] = []"
| "updates (Call ok (Insert k) # es) = (OP_INSERT, k) # updates es"
| "updates (Call ok (Delete k) # es) = (OP_DELETE, k) # updates es"
| "updates (e # es) = updates es"

fun asked_after :: "nat \<Rightarrow> nat \<Rightarrow> db_event list \<Rightarrow> query_context list" where
  "asked_after v k [] = []"
| "asked_after v k (Call ok (Query l r) # es) =
     (if ok then [\<lparr>q_ver = v, q_idx = k + 1, q_l = l, q_r = r\<rparr>] else []) @ asked_after v (k + 1) es"
| "asked_after v k (Call ok c # es) = asked_after (v + 1) k es"
| "asked_after v k (e # es) = asked_after v k es"

lemma updates_append [simp]: "updates (es @ fs) = updates es @ updates fs"
  by (induction es rule: updates.induct) auto

lemma asked_after_append:
  "asked_after v k (es @ fs) = asked_after v k es @ asked_after (v + length (updates es)) (k + query_count es) fs"
  by (induction v k es rule: asked_after.induct) (auto simp: ac_simps)

text \<open>The batches contain every update once, in order.\<close>

definition all_updates :: "batching \<Rightarrow> request list" where
  "all_updates G = concat (fst G) @ snd (snd G)"

lemma all_updates_simps [simp]:
  "all_updates (batch_cut ty G) = all_updates G" "all_updates (batch_put b u G) = all_updates G @ [u]"
  "all_updates (batch_flush G) = all_updates G"
  by (cases G; simp add: all_updates_def)+

lemma batch_events_snoc [simp]: "batch_events b (es @ [e]) = batch_event b e (batch_events b es)"
  by (simp add: batch_events_def)

lemma all_updates_events: "all_updates (batch_events b es) = updates es"
proof (induction es rule: rev_induct)
  case (snoc e es)
  then show ?case by (cases "(b, e, batch_events b es)" rule: batch_event.cases) simp_all
qed (simp add: batch_events_def all_updates_def)

text \<open>A whole run: the events are the batches linked and open, with the update the current call has still to put into the buffer.\<close>

definition batch_done ::
  "(u64 \<Rightarrow> u64) \<Rightarrow> (u64 \<Rightarrow> u64) \<Rightarrow> nat \<Rightarrow> nat \<Rightarrow> db_event list \<Rightarrow> batching \<Rightarrow> batch_db \<Rightarrow> bool" where
  "batch_done h c N b es G = (\<lambda>(s, p).
     batch.served h c N (asked_after 0 0 es) (s, G) p \<and> batch_events b es = filled_up b (b_pc s) G \<and>
     query_count es = num_queries p \<and> batch_size s = b \<and> (working p \<longleftrightarrow> b_pc s \<noteq> B_closed) \<and>
     (\<forall>i \<in> {1..N}. clients p i \<noteq> C_unstarted))"

lemma batch_done_inv: "batch_done h c N b es G (s, p) \<Longrightarrow> batch_inv h c G s"
  by (simp add: batch_done_def batch.served_def)

lemma batch_done_versions:
  assumes "batch_done h c N b es G (s, p)"
  shows "version_submitted s + (if unfilled (b_pc s) = None then 0 else 1) = length (updates es)"
proof -
  have "version_submitted s = length (all_updates G)"
    using batch_done_inv [OF assms] by (auto simp: batch_inv_def linked_inv_def all_updates_def open_batch_def)
  moreover have "updates es = all_updates (filled_up b (b_pc s) G)"
    using assms all_updates_events [of b es] by (simp add: batch_done_def)
  ultimately show ?thesis by (auto simp: filled_up_def split: option.split)
qed

lemma process_step_kept:
  "process_step f i found p = Done p' \<Longrightarrow> working p' = working p \<and> (\<forall>j. clients p j \<noteq> C_unstarted \<longrightarrow> clients p' j \<noteq> C_unstarted)"
  by (auto simp: process_step_def split: client_pc.splits list.splits if_splits prod.splits)

lemma batch_done_update:
  assumes "batch_done h c N b es G (s, p)" "batch_inv h c G' s'" "batch_grows (s, G) (s', G')"
    and "batch_event b e (filled_up b (b_pc s) G) = filled_up b (b_pc s') G'"
    and "asked_after (length (updates es)) (query_count es) [e] = []" "query_count [e] = 0"
    and "p' = (if b_pc s' = B_closed then Stop p else p)" "b_pc s \<noteq> B_closed"
  shows "batch_done h c N b (es @ [e]) G' (s', p')"
proof -
  have "batch.served h c N (asked_after 0 0 (es @ [e])) (s', G') p"
    using assms(1-3,5) batch.served_update [of h c N "asked_after 0 0 es" "(s, G)" p "(s', G')"]
    by (simp add: batch_done_def asked_after_append)
  then have "batch.served h c N (asked_after 0 0 (es @ [e])) (s', G') p'" using assms(7) by (simp add: batch.served_Stop)
  moreover have "batch_size s' = b" using assms(1,3) by (simp add: batch_done_def batch_grows_def)
  moreover have "num_queries p' = num_queries p" "clients p' = clients p" "working p' = (b_pc s' \<noteq> B_closed)"
    using assms(1,7,8) by (auto simp: batch_done_def Stop_def)
  ultimately show ?thesis using assms(1,4,6) by (simp add: batch_done_def)
qed

lemma batch_done_step:
  assumes h: "inj h" and d: "batch_done h c0 N b es G (s, p)" and lt: "length (updates (es @ [e])) < vstat_uninitialized"
    and step: "batch_step h N e (s, p) = Done (s', p')"
  shows "\<exists>G. batch_done h c0 N b (es @ [e]) G (s', p')"
proof (cases e)
  case (Call ok c)
  note inv = batch_done_inv [OF d] and ver = batch_done_versions [OF d]
  have pc: "b_pc s = B_ready" using step by (simp add: Call batch_call_def split: if_splits)
  have b: "batch_size s = b" "filled_up b (b_pc s) G = G" using d pc by (simp_all add: batch_done_def filled_up_def)
  have upd: ?thesis if u: "update_enbuffer h ty k s = Done s'" "p' = p" "batch_event b e G = batch_put b (op_of ty, k) (batch_cut (op_of ty) G)"
    "asked_after (length (updates es)) (query_count es) [e] = []" "query_count [e] = 0" "length (updates [e]) = 1" for ty k
  proof -
    have "Suc (version_submitted s) < vstat_uninitialized" using lt u(6) ver pc by simp
    then obtain s1 G' where u1: "update_enbuffer h ty k s = Done s1" and
      G': "batch_inv h c0 G' s1" "batch_grows (s, G) (s1, G')"
      "batch_put (batch_size s) (op_of ty, k) (batch_cut (op_of ty) G) = filled_up (batch_size s) (b_pc s1) G'" "b_pc s1 \<noteq> B_closed"
      by (rule update_enbuffer_inv [OF inv pc h, of ty k])
    have "s1 = s'" using u(1) u1 by simp
    note G' = G' [unfolded this]
    have "batch_done h c0 N b (es @ [e]) G' (s', p')"
      by (rule batch_done_update [OF d G'(1,2) _ u(4,5)]) (use u(2,3) G' b pc in simp_all)
    then show ?thesis by blast
  qed
  show ?thesis
  proof (cases c)
    case (Query l r)
    have s': "s' = s" "p' = fst (Push ok (version_submitted s) l r p)" using step pc by (auto simp: Call Query batch_call_def)
    have p': "num_queries p' = Suc (num_queries p)" "working p' = working p" "clients p' = clients p" by (simp_all add: s'(2) Push_def Let_def)
    have "batch.served h c0 N (asked_after 0 0 (es @ [e])) (s', G) p'"
      using batch.served_push [of h c0 N "asked_after 0 0 es" "(s, G)" p ok "version_submitted s" l r p' "snd (Push ok (version_submitted s) l r p)"]
        d ver pc s' by (cases ok) (simp_all add: batch_done_def asked_after_append Call Query)
    then have "batch_done h c0 N b (es @ [e]) G (s', p')" using d s' p' b by (simp add: batch_done_def Call Query)
    then show ?thesis by blast
  next
    case (Insert k)
    with step pc have "update_enbuffer h B_INSERT k s = Done s'" "p' = p" by (auto simp: Call batch_call_def)
    then show ?thesis by (rule upd) (simp_all add: Call Insert)
  next
    case (Delete k)
    with step pc have "update_enbuffer h B_DELETE k s = Done s'" "p' = p" by (auto simp: Call batch_call_def)
    then show ?thesis by (rule upd) (simp_all add: Call Delete)
  qed
next
  case Close
  note inv = batch_done_inv [OF d] and ver = batch_done_versions [OF d]
  have pc: "b_pc s = B_ready" using step by (simp add: Close batch_Close_def split: if_splits)
  have b: "batch_size s = b" "filled_up b (b_pc s) G = G" using d pc by (simp_all add: batch_done_def filled_up_def)
  have "version_submitted s < vstat_uninitialized" using lt ver pc by (simp add: Close)
  then obtain s1 p1 G' where c: "batch_Close h (s, p) = Done (s1, p1)" and
    G': "batch_inv h c0 G' s1" "batch_grows (s, G) (s1, G')"
    "batch_flush G = filled_up (batch_size s) (b_pc s1) G'" "p1 = (if b_pc s1 = B_closed then Stop p else p)"
    by (rule batch_Close_inv [OF inv h _ pc, of p])
  have "s1 = s'" "p1 = p'" using c step by (simp_all add: Close)
  note G' = G' [unfolded this]
  have "batch_done h c0 N b (es @ [e]) G' (s', p')"
    by (rule batch_done_update [OF d G'(1,2) _ _ _ G'(4)]) (use G'(3) b pc Close in simp_all)
  then show ?thesis by blast
next
  case Proceed
  note inv = batch_done_inv [OF d] and ver = batch_done_versions [OF d]
  have pc: "b_pc s \<noteq> B_ready" "b_pc s \<noteq> B_closed" using step by (auto simp: Proceed batch_proceed_def)
  have b: "batch_size s = b" using d by (simp add: batch_done_def)
  have "version_submitted s + (if unfilled (b_pc s) = None then 0 else 1) < vstat_uninitialized" using lt ver by (simp add: Proceed)
  then obtain s1 G' where c: "batch_proceed h (s, p) = Done (s1, if b_pc s = B_stop then Stop p else p)" and
    G': "batch_inv h c0 G' s1" "batch_grows (s, G) (s1, G')"
    "filled_up (batch_size s) (b_pc s) G = filled_up (batch_size s) (b_pc s1) G'" "b_pc s1 = B_closed \<longleftrightarrow> b_pc s = B_stop"
    by (rule batch_proceed_inv [OF inv h _ pc, of p])
  have "s1 = s'" and p': "p' = (if b_pc s = B_stop then Stop p else p)" using c step by (simp_all add: Proceed)
  note G' = G' [unfolded this(1)]
  have "batch_done h c0 N b (es @ [e]) G' (s', p')"
    by (rule batch_done_update [OF d G'(1,2)]) (use p' G'(3,4) b pc Proceed in simp_all)
  then show ?thesis by blast
next
  case (Client i found)
  with step have c: "i \<in> {1..N}" "process_step (process_range_query s) i found p = Done p'" "s' = s" by (auto split: if_splits)
  have "batch_done h c0 N b (es @ [e]) G (s', p')"
    using d batch.served_step [of h c0 N "asked_after 0 0 es" "(s, G)" p i found p'] c num_queries_step [OF c(2)] process_step_kept [OF c(2)]
    by (simp add: batch_done_def asked_after_append Client)
  then show ?thesis by blast
qed

lemma batch_run:
  assumes "inj h" "n \<le> length elems" "0 < b"
  shows "length (updates es) < vstat_uninitialized \<Longrightarrow> run_db (batch_step h N) es (batch_Init h N b n elems) = Done (s, p) \<Longrightarrow>
    \<exists>G. batch_done h (initial_counts n elems) N b es G (s, p)"
proof (induction es arbitrary: s p rule: rev_induct)
  case Nil
  then have i: "batch_Init h N b n elems = (s, p)" by simp
  then have p: "p = Start N (make_processor \<lparr>cur_vid = 0, last_vid = 0, cur_root = 0\<rparr>)" "b_pc s = B_ready" "batch_size s = b" "num_versions s = 0"
    by (auto simp: batch_Init_def)
  have "batch_inv h (initial_counts n elems) ([], OP_INSERT, []) s" using batch_inv_init [OF assms, of N] i by simp
  then have "batch.served h (initial_counts n elems) N [] (s, ([], OP_INSERT, [])) p"
    unfolding p(1) by (intro batch.served_init) (simp_all add: cursor_ok_def p)
  then have "batch_done h (initial_counts n elems) N b [] ([], OP_INSERT, []) (s, p)"
    using p by (simp add: batch_done_def batch_events_def filled_up_def) (simp add: Start_def make_processor_def)
  then show ?case by blast
next
  case (snoc e es)
  from snoc.prems obtain s1 p1 where 1: "run_db (batch_step h N) es (batch_Init h N b n elems) = Done (s1, p1)"
    "batch_step h N e (s1, p1) = Done (s, p)" by (auto simp: run_db_append)
  from snoc.IH [OF _ 1(1)] snoc.prems(1) batch_done_step [OF assms(1) _ snoc.prems(1) 1(2)] show ?case by auto
qed

text \<open>The batches linked so far are a part of those the events make.\<close>

lemma batch_done_batches:
  assumes "batch_done h c N b es G (s, p)"
  shows "\<exists>Ts. batches b es = fst G @ Ts"
proof -
  have "\<exists>Ts. fst (filled_up b (b_pc s) G) = fst G @ Ts" by (cases G) (auto simp: filled_up_def split: option.split)
  then show ?thesis using assms by (simp add: batch_done_def batches_def)
qed

lemma batch_done_results:
  assumes "batch_done h c N b es G (s, p)" "i \<in> {1..N}" "x \<in> set (results p i)"
  shows "\<exists>q \<in> set (asked_after 0 0 es). r_ver x = q_idx q \<and> batch_exact c (batches b es) (q_ver q) (q_l q) (q_r q) (r_ret x)"
  using batch.served_results [of h c N "asked_after 0 0 es" "(s, G)" p i x] assms batch_done_batches [OF assms(1)]
  by (auto simp: batch_done_def batch_exact_append)

section \<open>The client gets through its calls\<close>

text \<open>No step of a run crashes.\<close>

lemma batch_step_no_crash:
  assumes "inj h" "batch_done h c N b es G (s, p)" "Suc (length (updates es)) < vstat_uninitialized"
  shows "batch_step h N e (s, p) \<noteq> Crash"
proof (cases e)
  case (Call ok c)
  have "update_enbuffer h ty k s \<noteq> Crash" if "b_pc s = B_ready" for ty k
  proof -
    have "Suc (version_submitted s) < vstat_uninitialized" using batch_done_versions [OF assms(2)] assms(3) that by simp
    then show ?thesis by (rule update_enbuffer_inv [OF batch_done_inv [OF assms(2)] that assms(1), of ty k]) simp
  qed
  then show ?thesis by (auto simp: Call batch_call_def bind_outcome_eq_Crash split: call.split)
next
  case Proceed
  have "batch_proceed h (s, p) \<noteq> Crash" if "b_pc s \<noteq> B_ready" "b_pc s \<noteq> B_closed"
  proof -
    have "version_submitted s + (if unfilled (b_pc s) = None then 0 else 1) < vstat_uninitialized"
      using batch_done_versions [OF assms(2)] assms(3) by simp
    then show ?thesis by (rule batch_proceed_inv [OF batch_done_inv [OF assms(2)] assms(1) _ that, of p]) simp
  qed
  then show ?thesis by (cases "b_pc s") (auto simp: Proceed batch_proceed_def)
next
  case (Client i found)
  have "process_range_query s (locals p i) ver l r \<noteq> Crash" if "i \<in> {1..N}" for ver l r
    using process_range_query_cases [OF batch_done_inv [OF assms(2)], of "locals p i" ver l r] assms(2) that
    by (auto simp: batch_done_def batch.served_def)
  then have "process_step (process_range_query s) i found p \<noteq> Crash" if "i \<in> {1..N}"
    using process_step_crash [of "process_range_query s" i found p] that by blast
  then show ?thesis by (auto simp: Client bind_outcome_eq_Crash)
qed (simp add: batch_Close_def)

text \<open>How many steps a call has left at most; a call other than \<open>Close\<close> has no more than three.\<close>

fun steps_left :: "batch_pc \<Rightarrow> nat" where
  "steps_left B_ready = 0"
| "steps_left (B_publish Return) = 1"
| "steps_left (B_fill ty k) = 2"
| "steps_left (B_publish (Fill ty k)) = 3"
| "steps_left _ = 4"

lemma steps_left_proceed:
  assumes "batch_proceed h (s, p) = Done (s', p')" "steps_left (b_pc s) \<le> 3"
  shows "steps_left (b_pc s') < steps_left (b_pc s)"
proof (cases "b_pc s")
  case (B_publish "next")
  with assms show ?thesis by (cases "next") (auto simp: batch_proceed_def do_update_publish_def)
next
  case (B_fill ty k)
  with assms show ?thesis by (auto simp: batch_proceed_def enbuffer_def Let_def split: if_splits)
qed (use assms in \<open>simp_all add: batch_proceed_def\<close>)

lemma batch_settles:
  assumes h: "inj h"
  shows "batch_done h c N b es G (s, p) \<Longrightarrow> length (updates es) < vstat_uninitialized \<Longrightarrow> steps_left (b_pc s) \<le> 3 \<Longrightarrow>
    \<exists>n s' p' G'. run_db (batch_step h N) (replicate n Proceed) (s, p) = Done (s', p') \<and> b_pc s' = B_ready \<and>
      batch_done h c N b (es @ replicate n Proceed) G' (s', p')"
proof (induction "steps_left (b_pc s)" arbitrary: es G s p rule: less_induct)
  case less
  show ?case
  proof (cases "b_pc s = B_ready")
    case True
    then show ?thesis using less.prems(1) by (intro exI [of _ 0] exI [of _ s] exI [of _ p] exI [of _ G]) simp
  next
    case False
    have "b_pc s \<noteq> B_closed" using less.prems(3) by auto
    have "version_submitted s + (if unfilled (b_pc s) = None then 0 else 1) < vstat_uninitialized"
      using batch_done_versions [OF less.prems(1)] less.prems(2) by simp
    then obtain s1 p1 where 1: "batch_proceed h (s, p) = Done (s1, p1)"
      by (rule batch_proceed_inv [OF batch_done_inv [OF less.prems(1)] h _ False \<open>b_pc s \<noteq> B_closed\<close>, of p])
    have 2: "batch_step h N Proceed (s, p) = Done (s1, p1)" "length (updates (es @ [Proceed])) < vstat_uninitialized"
      using 1 less.prems(2) by simp_all
    from batch_done_step [OF h less.prems(1) 2(2,1)] obtain G1 where d: "batch_done h c N b (es @ [Proceed]) G1 (s1, p1)" by blast
    note l = steps_left_proceed [OF 1 less.prems(3)]
    have "steps_left (b_pc s1) \<le> 3" using l less.prems(3) by simp
    from less.hyps [OF l d 2(2) this] obtain n s' p' G' where
      n: "run_db (batch_step h N) (replicate n Proceed) (s1, p1) = Done (s', p')" "b_pc s' = B_ready"
        "batch_done h c N b ((es @ [Proceed]) @ replicate n Proceed) G' (s', p')" by blast
    have "run_db (batch_step h N) (replicate (Suc n) Proceed) (s, p) = Done (s', p')"
      "batch_done h c N b (es @ replicate (Suc n) Proceed) G' (s', p')"
      using 1 n by simp_all
    with n(2) show ?thesis by blast
  qed
qed

lemma batch_call_completes:
  assumes h: "inj h" and d: "batch_done h c0 N b es G (s, p)" "b_pc s = B_ready"
    and lt: "Suc (length (updates es)) < vstat_uninitialized"
  shows "\<exists>n s' p' G'. run_db (batch_step h N) (Call True c # replicate n Proceed) (s, p) = Done (s', p') \<and> b_pc s' = B_ready \<and>
    batch_done h c0 N b (es @ Call True c # replicate n Proceed) G' (s', p')"
proof -
  have "batch_step h N (Call True c) (s, p) \<noteq> Crash" by (rule batch_step_no_crash [OF h d(1) lt])
  then have u: "update_enbuffer h ty k s \<noteq> Crash" if "c = (case ty of B_INSERT \<Rightarrow> Insert k | B_DELETE \<Rightarrow> Delete k)" for ty k
    using that d(2) by (cases ty) (auto simp: batch_call_def bind_outcome_eq_Crash)
  have up: "\<exists>s1. update_enbuffer h ty k s = Done s1 \<and> steps_left (b_pc s1) \<le> 3"
    if "c = (case ty of B_INSERT \<Rightarrow> Insert k | B_DELETE \<Rightarrow> Delete k)" for ty k
    using u [OF that] by (auto simp: update_enbuffer_def enbuffer_def Let_def split: if_splits)
  have "\<exists>s1 p1. batch_step h N (Call True c) (s, p) = Done (s1, p1) \<and> steps_left (b_pc s1) \<le> 3"
  proof (cases c)
    case (Query l r)
    then show ?thesis using d(2) by (simp add: batch_call_def)
  next
    case (Insert k)
    then show ?thesis using d(2) up [of k B_INSERT] by (auto simp: batch_call_def)
  next
    case (Delete k)
    then show ?thesis using d(2) up [of k B_DELETE] by (auto simp: batch_call_def)
  qed
  then obtain s1 p1 where 1: "batch_step h N (Call True c) (s, p) = Done (s1, p1)" "steps_left (b_pc s1) \<le> 3" by blast
  have l: "length (updates (es @ [Call True c])) < vstat_uninitialized" using lt by (cases c) simp_all
  from batch_done_step [OF h d(1) l 1(1)] obtain G1 where "batch_done h c0 N b (es @ [Call True c]) G1 (s1, p1)" by blast
  from batch_settles [OF h this l 1(2)] obtain n s' p' G' where
    n: "run_db (batch_step h N) (replicate n Proceed) (s1, p1) = Done (s', p')" "b_pc s' = B_ready"
      "batch_done h c0 N b ((es @ [Call True c]) @ replicate n Proceed) G' (s', p')" by blast
  have "run_db (batch_step h N) (Call True c # replicate n Proceed) (s, p) = Done (s', p')"
    "batch_done h c0 N b (es @ Call True c # replicate n Proceed) G' (s', p')"
    using 1 n by simp_all
  with n(2) show ?thesis by blast
qed

section \<open>Properties\<close>

text \<open>C6. Every answer a query thread of the batch backend stores belongs to a query the client issued, is given only
  when the batch of its version is applied, and is the sum, over the keys of the range, of the counters at that
  query, where a deletion removes all occurrences of its key, with one exception: a key that updates of the
  same batch touch after the query and none of that batch before it is counted as 0. The batches are those the
  sequence of calls determines. This holds for every interleaving of the steps of the client's calls, between the link of
  a new root and its count too, with those of the query threads.\<close>

theorem batch_answers:
  assumes "n \<le> length elems" "0 < b" "length (updates es) < vstat_uninitialized" "i \<in> {1..N}" "x \<in> set (results p i)"
    and "run_db (batch_step (hash64 seed seed64) N) es (batch_Init (hash64 seed seed64) N b n elems) = Done (s, p)"
  shows "\<exists>q \<in> set (asked_after 0 0 es). r_ver x = q_idx q \<and> q_ver q \<le> length (concat (batches b es)) \<and>
    r_ret x = (\<Sum>k \<in> {q_l q..q_r q}. batch_view (initial_counts n elems) (batches b es) (q_ver q) k)"
  using batch_run [OF inj_hash64 assms(1-3,6)] batch_done_results [OF _ assms(4,5)] by (auto simp: batch_exact_def)

definition batch_sample :: "db_event list" where
  "batch_sample = [Call True (Query 7 7), Client 1 True, Client 1 True, Client 1 True]"

lemma batch_sample_run:
  "\<exists>s p. run_db (batch_step (hash64 (1, 2, 3, 4) (5, 6, 7, 8)) 1) batch_sample
     (batch_Init (hash64 (1, 2, 3, 4) (5, 6, 7, 8)) 1 1 0 []) = Done (s, p) \<and> results p 1 = [\<lparr>r_ver = 1, r_ret = 0\<rparr>]"
  by (simp add: batch_sample_def batch_Init_def batch_call_def process_range_query_def seek_def seek_back.simps seek_forward.simps
      Let_def Start_def make_processor_def process_step_def Push_def pam_interface_build_def pam_build.simps)

theorem batch_answers_witness:
  "\<exists>q \<in> set (asked_after 0 0 batch_sample). 0 = (\<Sum>k \<in> {q_l q..q_r q}. batch_view (initial_counts 0 []) (batches 1 batch_sample) (q_ver q) k)"
proof -
  from batch_sample_run obtain s p where r: "run_db (batch_step (hash64 (1, 2, 3, 4) (5, 6, 7, 8)) 1) batch_sample
     (batch_Init (hash64 (1, 2, 3, 4) (5, 6, 7, 8)) 1 1 0 []) = Done (s, p)" "results p 1 = [\<lparr>r_ver = 1, r_ret = 0\<rparr>]" by blast
  from batch_answers [OF _ _ _ _ _ r(1), of 1 "\<lparr>r_ver = 1, r_ret = 0\<rparr>"] r(2) show ?thesis
    by (auto simp: batch_sample_def vstat_uninitialized_def)
qed

text \<open>With batches of one update the batch backend is exact: every stored answer is the sum, over the range, of the
  counters at the query.\<close>

lemma batch_view_one:
  "list_all (\<lambda>B. length B \<le> 1) Bs \<Longrightarrow> v \<le> length (concat Bs) \<Longrightarrow> batch_view c Bs v k = batch_spec c (concat Bs) v k"
proof (induction Bs arbitrary: c v)
  case (Cons B Bs)
  then have "batch_view (batch_spec c B (length B)) Bs (v - length B) k = batch_spec c (B @ concat Bs) v k" if "length B < v"
    using that by (simp add: batch_spec_def)
  moreover have "batch_view c (B # Bs) v k = batch_spec c (B @ concat Bs) v k" if "v \<le> length B"
    using that Cons.prems(1) by (cases B; cases v) (simp_all add: batch_spec_def)
  ultimately show ?case by (cases "v \<le> length B") simp_all
qed (simp add: batch_spec_def)

lemma batches_one: "list_all (\<lambda>B. length B \<le> 1) (batches 1 es)"
proof -
  have "list_all (\<lambda>B. length B \<le> 1) (fst (batch_events 1 es)) \<and> snd (snd (batch_events 1 es)) = []"
  proof (induction es rule: rev_induct)
    case (snoc e es)
    obtain Bs ty us where G: "batch_events 1 es = (Bs, ty, us)" by (cases "batch_events 1 es")
    with snoc show ?case by (cases "(1::nat, e, batch_events 1 es)" rule: batch_event.cases) simp_all
  qed (simp add: batch_events_def)
  then show ?thesis by (simp add: batches_def)
qed

theorem batch_of_one_exact:
  assumes "n \<le> length elems" "length (updates es) < vstat_uninitialized" "i \<in> {1..N}" "x \<in> set (results p i)"
    and "run_db (batch_step (hash64 seed seed64) N) es (batch_Init (hash64 seed seed64) N 1 n elems) = Done (s, p)"
  shows "\<exists>q \<in> set (asked_after 0 0 es). r_ver x = q_idx q \<and>
    r_ret x = (\<Sum>k \<in> {q_l q..q_r q}. batch_spec (initial_counts n elems) (updates es) (q_ver q) k)"
proof -
  from batch_run [OF inj_hash64 assms(1) zero_less_one assms(2,5)] batch_done_results [OF _ assms(3,4)] obtain q where
    q: "q \<in> set (asked_after 0 0 es)" "r_ver x = q_idx q" "q_ver q \<le> length (concat (batches 1 es))"
      "r_ret x = (\<Sum>k \<in> {q_l q..q_r q}. batch_view (initial_counts n elems) (batches 1 es) (q_ver q) k)"
    unfolding batch_exact_def by blast
  have "updates es = concat (batches 1 es) @ snd (snd (batch_events 1 es))"
    using all_updates_events [of 1 es] by (simp add: all_updates_def batches_def)
  with q(3) have "batch_spec c (updates es) (q_ver q) = batch_spec c (concat (batches 1 es)) (q_ver q)" for c
    using batch_spec_append by metis
  with q batch_view_one [OF batches_one q(3)] show ?thesis by auto
qed

theorem batch_of_one_exact_witness:
  "\<exists>q \<in> set (asked_after 0 0 batch_sample). 0 = (\<Sum>k \<in> {q_l q..q_r q}. batch_spec (initial_counts 0 []) (updates batch_sample) (q_ver q) k)"
proof -
  from batch_sample_run obtain s p where r: "run_db (batch_step (hash64 (1, 2, 3, 4) (5, 6, 7, 8)) 1) batch_sample
     (batch_Init (hash64 (1, 2, 3, 4) (5, 6, 7, 8)) 1 1 0 []) = Done (s, p)" "results p 1 = [\<lparr>r_ver = 1, r_ret = 0\<rparr>]" by blast
  from batch_of_one_exact [OF _ _ _ _ r(1), of 1 "\<lparr>r_ver = 1, r_ret = 0\<rparr>"] r(2) show ?thesis
    by (auto simp: batch_sample_def vstat_uninitialized_def)
qed

text \<open>The batch backend is memory safe: no call overruns the buffer, and no query thread follows a null link of
  the list of roots.\<close>

theorem batch_memory_safe:
  assumes "n \<le> length elems" "0 < b" "Suc (length (updates es)) < vstat_uninitialized"
    and "run_db (batch_step (hash64 seed seed64) N) es (batch_Init (hash64 seed seed64) N b n elems) = Done (s, p)"
  shows "batch_step (hash64 seed seed64) N e (s, p) \<noteq> Crash"
proof -
  have "length (updates es) < vstat_uninitialized" using assms(3) by simp
  from batch_run [OF inj_hash64 assms(1,2) this assms(4)] obtain G where
    "batch_done (hash64 seed seed64) (initial_counts n elems) N b es G (s, p)" by blast
  then show ?thesis by (rule batch_step_no_crash [OF inj_hash64 _ assms(3)])
qed

theorem batch_memory_safe_witness:
  "batch_step (hash64 (1, 2, 3, 4) (5, 6, 7, 8)) 1 (Call True (Insert 4)) (batch_Init (hash64 (1, 2, 3, 4) (5, 6, 7, 8)) 1 2 0 []) \<noteq> Crash"
proof -
  obtain s p where i: "batch_Init (hash64 (1, 2, 3, 4) (5, 6, 7, 8)) 1 2 0 [] = (s, p)" by fastforce
  show ?thesis unfolding i
    by (rule batch_memory_safe [of 0 "[]" 2 "[]" "(1, 2, 3, 4)" "(5, 6, 7, 8)" 1]) (simp_all add: i [simplified] vstat_uninitialized_def)
qed

section \<open>The end\<close>

text \<open>After \<open>Stop\<close>, how many steps the query threads have left.\<close>

fun rank :: "client_pc \<Rightarrow> nat" where
  "rank (C_busy q) = 3"
| "rank C_inner = 2"
| "rank C_outer = 1"
| "rank _ = 0"

definition left :: "nat \<Rightarrow> 'c processor \<Rightarrow> nat" where
  "left N p = 3 * length (queries p) + (\<Sum>i \<in> {1..N}. rank (clients p i))"

lemma left_bound: "left N p \<le> 3 * (length (queries p) + N)"
proof -
  have "rank pc \<le> 3" for pc by (cases pc) simp_all
  then have "(\<Sum>i \<in> {1..N}. rank (clients p i)) \<le> of_nat (card {1..N}) * 3" by (intro sum_bounded_above) simp
  then show ?thesis by (simp add: left_def)
qed

lemma rank_upd:
  assumes "i \<in> {1..N::nat}"
  shows "(\<Sum>j \<in> {1..N}. rank ((g(i := pc)) j)) + rank (g i) = (\<Sum>j \<in> {1..N}. rank (g j)) + rank pc"
proof -
  have "(\<Sum>j \<in> {1..N} - {i}. rank ((g(i := pc)) j)) = (\<Sum>j \<in> {1..N} - {i}. rank (g j))" by (rule sum.cong) auto
  with assms show ?thesis by (subst (1 2) sum.remove [of "{1..N}" i]) simp_all
qed

lemma process_step_left:
  assumes "process_step f i found p = Done p'" "\<not> working p" "i \<in> {1..N}"
  shows "left N p' < left N p"
proof -
  note upd = rank_upd [OF assms(3), of "clients p"]
  show ?thesis
  proof (cases "clients p i")
    case C_outer
    then have "p' = p\<lparr>clients := (clients p)(i := C_stopped)\<rparr>" using assms(1,2) by (simp add: process_step_def)
    then show ?thesis using upd [of C_stopped] C_outer by (simp add: left_def)
  next
    case C_inner
    show ?thesis
    proof (cases "queries p \<noteq> [] \<and> found")
      case True
      then obtain q qs where q: "queries p = q # qs" by (cases "queries p") auto
      with True C_inner assms(1) have "p' = p\<lparr>queries := qs, clients := (clients p)(i := C_busy q)\<rparr>" by (simp add: process_step_def)
      then show ?thesis using upd [of "C_busy q"] C_inner q by (simp add: left_def)
    next
      case False
      with C_inner assms(1) have "p' = p\<lparr>clients := (clients p)(i := C_outer)\<rparr>"
        by (auto simp: process_step_def split: list.splits if_splits)
      then show ?thesis using upd [of C_outer] C_inner by (simp add: left_def)
    qed
  next
    case (C_busy q)
    with assms(1) have "queries p' = queries p" "clients p' = (clients p)(i := C_inner)"
      by (auto simp: process_step_def)
    then show ?thesis using upd [of C_inner] C_busy by (simp add: left_def)
  qed (use assms(1) in \<open>simp_all add: process_step_def\<close>)
qed

text \<open>A run after \<open>Close\<close>: only query threads step, and each step brings them nearer to their ends.\<close>

lemma batch_closed_step:
  assumes "batch_done h c N b es G (s, p)" "b_pc s = B_closed" "batch_step h N e (s, p) = Done (s', p')"
  shows "s' = s \<and> left N p' < left N p \<and> updates [e] = [] \<and> asked_after v k [e] = []"
proof (cases e)
  case (Client i found)
  with assms process_step_left [of "process_range_query s" i found p p' N] show ?thesis
    by (auto simp: batch_done_def split: if_splits)
qed (use assms in \<open>simp_all add: batch_call_def batch_Close_def batch_proceed_def\<close>)

lemma batch_closed_run:
  assumes "inj h" "batch_done h c N b es G (s, p)" "b_pc s = B_closed" "length (updates es) < vstat_uninitialized"
  shows "run_db (batch_step h N) fs (s, p) = Done (s', p') \<Longrightarrow>
    s' = s \<and> length fs + left N p' \<le> left N p \<and> updates fs = [] \<and>
    asked_after 0 0 (es @ fs) = asked_after 0 0 es \<and> (\<exists>G. batch_done h c N b (es @ fs) G (s', p'))"
proof (induction fs arbitrary: s' p' rule: rev_induct)
  case Nil
  then have "s' = s" "p' = p" by simp_all
  with assms(2) show ?case by (auto simp del: split_paired_Ex)
next
  case (snoc e fs)
  from snoc.prems obtain s1 p1 where 1: "run_db (batch_step h N) fs (s, p) = Done (s1, p1)"
    "batch_step h N e (s1, p1) = Done (s', p')" by (auto simp: run_db_append)
  from snoc.IH [OF 1(1)] obtain G' where
    2: "s1 = s" "length fs + left N p1 \<le> left N p" "updates fs = []" "asked_after 0 0 (es @ fs) = asked_after 0 0 es"
      "batch_done h c N b (es @ fs) G' (s1, p1)" by blast
  have c: "b_pc s1 = B_closed" using 2(1) assms(3) by simp
  note e = batch_closed_step [OF 2(5) c 1(2)]
  have "length (updates ((es @ fs) @ [e])) < vstat_uninitialized" using e 2(3) assms(4) by simp
  from batch_done_step [OF assms(1) 2(5) this 1(2)] obtain G'' where "batch_done h c N b (es @ fs @ [e]) G'' (s', p')" by auto
  moreover have "asked_after 0 0 (es @ fs @ [e]) = asked_after 0 0 es"
    using 2(4) e asked_after_append [of 0 0 "es @ fs" "[e]"] by simp
  moreover have "left N p' < left N p1" "s' = s1" "updates [e] = []" using e by blast+
  ultimately show ?case using 2(1-3) by (auto simp del: split_paired_Ex)
qed

text \<open>A query thread that has not ended can go on: a query in its hands finds its root.\<close>

lemma batch_closed_progress:
  assumes "batch_done h c N b es G (s, p)" "b_pc s = B_closed" "i \<in> {1..N}" "clients p i \<noteq> C_stopped"
  shows "\<exists>p'. batch_step h N (Client i found) (s, p) = Done (s, p')"
proof (cases "clients p i")
  case (C_busy q)
  note inv = batch_done_inv [OF assms(1)]
  have sv: "batch.served h c N (asked_after 0 0 es) (s, G) p" using assms(1) by (simp add: batch_done_def)
  then have "q \<in> set (asked_after 0 0 es)" using busy_in_hand [OF assms(3) C_busy] by (auto simp: batch.served_def processor_inv_def)
  then have "q_ver q \<le> version_submitted s" using sv by (simp add: batch.served_def)
  moreover have "fst (roots s ! num_versions s) = version_submitted s"
    using inv assms(2) by (simp add: batch_inv_def linked_inv_def root_ok_def)
  moreover have "cursor_ok s (locals p i)" using sv assms(3) by (simp add: batch.served_def)
  ultimately obtain c' x where "process_range_query s (locals p i) (q_ver q) (q_l q) (q_r q) = Done (c', x)"
    using process_range_query_cases [OF inv, of "locals p i" "q_ver q" "q_l q" "q_r q"] by auto
  then show ?thesis using assms(3) C_busy by (simp add: process_step_def)
qed (use assms in \<open>auto simp: process_step_def batch_done_def split: list.split\<close>)

text \<open>C22. \<open>Close\<close> returns. Once it has flushed the buffer and cleared the flag, every step a query thread can take is
  within a bound of three steps for each query in the queue and three for each thread; until all threads have ended,
  each that has not can take a step, in particular it never waits for a root to answer the query
  in its hands; so all end, and the join of \<open>Stop\<close> returns. The queries left in the queue by then stay
  unanswered; every other query the client issued was answered, once.\<close>

theorem batch_close_returns:
  assumes "n \<le> length elems" "0 < b" "length (updates es) < vstat_uninitialized"
    and "run_db (batch_step (hash64 seed seed64) N) es (batch_Init (hash64 seed seed64) N b n elems) = Done (s, p)"
    and "b_pc s = B_closed" "run_db (batch_step (hash64 seed seed64) N) fs (s, p) = Done (s', p')"
  shows "length fs \<le> 3 * (length (queries p) + N) \<and>
    (\<forall>i \<in> {1..N}. clients p' i \<noteq> C_stopped \<longrightarrow>
      (\<forall>found. \<exists>p''. batch_step (hash64 seed seed64) N (Client i found) (s', p') = Done (s', p''))) \<and>
    (stopped N p' \<longrightarrow> mset (map q_idx (asked_after 0 0 es)) = mset (map q_idx (queries p')) + answered N p')"
proof -
  from batch_run [OF inj_hash64 assms(1-4)] obtain G where
    d: "batch_done (hash64 seed seed64) (initial_counts n elems) N b es G (s, p)" by blast
  from batch_closed_run [OF inj_hash64 d assms(5,3,6)] obtain G' where
    c: "s' = s" "length fs + left N p' \<le> left N p" "asked_after 0 0 (es @ fs) = asked_after 0 0 es"
      "batch_done (hash64 seed seed64) (initial_counts n elems) N b (es @ fs) G' (s', p')" by blast
  have "(\<Sum>i \<in> {1..N}. mset (busy (clients p' i))) = {#}" if "stopped N p'"
    using that by (intro sum.neutral) (auto simp: stopped_def list_all_iff)
  then have "mset (map q_idx (asked_after 0 0 es)) = mset (map q_idx (queries p')) + answered N p'" if "stopped N p'"
    using c(3,4) that by (simp add: batch_done_def batch.served_def processor_inv_def in_hand_def)
  moreover have "b_pc s' = B_closed" using c(1) assms(5) by simp
  moreover have "length fs \<le> 3 * (length (queries p) + N)" using c(2) left_bound [of N p] by simp
  ultimately show ?thesis using batch_closed_progress [OF c(4)] by blast
qed

theorem batch_close_returns_witness:
  "\<exists>s p. run_db (batch_step (hash64 (1, 2, 3, 4) (5, 6, 7, 8)) 1) [Client 1 True, Call True (Query 1 2), Close, Client 1 True, Client 1 True]
     (batch_Init (hash64 (1, 2, 3, 4) (5, 6, 7, 8)) 1 9 0 []) = Done (s, p) \<and>
   (\<exists>p'. batch_step (hash64 (1, 2, 3, 4) (5, 6, 7, 8)) 1 (Client 1 True) (s, p) = Done (s, p'))"
proof -
  let ?h = "hash64 (1, 2, 3, 4) (5, 6, 7, 8)" and ?es = "[Client 1 True, Call True (Query 1 2), Close]"
  obtain s p s' p' where r: "run_db (batch_step ?h 1) ?es (batch_Init ?h 1 9 0 []) = Done (s, p)" "b_pc s = B_closed"
    "run_db (batch_step ?h 1) [Client 1 True, Client 1 True] (s, p) = Done (s', p')" "clients p' 1 = C_inner"
    by (simp add: batch_Init_def batch_call_def batch_Close_def process_range_query_def seek_def seek_back.simps seek_forward.simps
      Let_def Start_def Stop_def make_processor_def process_step_def Push_def pam_interface_build_def pam_build.simps)
  have "(0::nat) \<le> length ([]::u64 list)" "(0::nat) < 9" "length (updates ?es) < vstat_uninitialized" by (simp_all add: vstat_uninitialized_def)
  note conjunct1 [OF conjunct2 [OF batch_close_returns [OF this r(1-3)]]]
  then have "clients p' 1 \<noteq> C_stopped \<longrightarrow> (\<forall>found. \<exists>p''. batch_step ?h 1 (Client 1 found) (s', p') = Done (s', p''))"
    by (rule bspec) simp
  then have "\<exists>p''. batch_step ?h 1 (Client 1 True) (s', p') = Done (s', p'')" unfolding r(4) by blast
  moreover have "run_db (batch_step ?h 1) (?es @ [Client 1 True, Client 1 True]) (batch_Init ?h 1 9 0 []) = Done (s', p')"
    unfolding run_db_append r(1) using r(3) by (simp del: run_db.simps)
  ultimately show ?thesis by auto
qed

end
