(* ===== verification/Driver.thy ===== *)
theory Driver
  imports YCSB_Client DB_Sequential DB_Contreap DB_Batch
begin

text \<open>
  The benchmark driver (\<^verbatim>\<open>main.cpp\<close>): the command line, the choice of the backend, the reading of the
  workload file and the loop that dispatches its transactions. Timing and output are left out.
  The file system is a parameter, and so are the memory and the threads the system grants, and the schedule: the order
  of the steps of the client's calls and of the steps of the other threads.
\<close>

record options =
  o_dbname :: string
  o_filename :: string
  o_threads :: u64
  o_clients :: u64
  o_batch_size :: u64

text \<open>A number is read by \<^verbatim>\<open>stoi\<close> and converted to \<^verbatim>\<open>size_t\<close>, so a negative one becomes huge.\<close>

definition driver_number :: "string \<Rightarrow> u64 result" where
  "driver_number s = bind_result (stoi s) (\<lambda>v. Inr (of_int v))"

fun driver_options :: "string list \<Rightarrow> options \<Rightarrow> options parse" where
  "driver_options [] opts = Parsed opts"
| "driver_options [a] opts =
     (if \<not> StrStartWith a ''-'' then Usage
      else if a = ''-threads'' \<or> a = ''-clients'' \<or> a = ''-batchsize'' then Usage
      else Unknown_option a)"
| "driver_options (a # v # rest) opts =
     (if \<not> StrStartWith a ''-'' then Usage
      else if a = ''-threads'' then
        (case driver_number v of Inl e \<Rightarrow> Uncaught e | Inr x \<Rightarrow> driver_options rest (opts\<lparr>o_threads := x\<rparr>))
      else if a = ''-clients'' then
        (case driver_number v of Inl e \<Rightarrow> Uncaught e | Inr x \<Rightarrow> driver_options rest (opts\<lparr>o_clients := x\<rparr>))
      else if a = ''-batchsize'' then
        (case driver_number v of Inl e \<Rightarrow> Uncaught e
         | Inr x \<Rightarrow> driver_options rest (opts\<lparr>o_batch_size := (if x = 0 then 1 else x)\<rparr>))
      else Unknown_option a)"

definition ParseCommandLine :: "u64 \<Rightarrow> string list \<Rightarrow> options parse" where
  "ParseCommandLine hardware_concurrency args =
     (case args of
        dbname # filename # rest \<Rightarrow>
          driver_options rest \<lparr>o_dbname = dbname, o_filename = filename, o_threads = hardware_concurrency,
            o_clients = 1, o_batch_size = 1000\<rparr>
      | _ \<Rightarrow> Usage)"

section \<open>The dispatch loop\<close>

text \<open>An unknown kind of transaction is logged and skipped.\<close>

definition call_of :: "tx_context \<Rightarrow> call option" where
  "call_of tx =
     (if tx_type tx = 0 then Some (Query (tx_arg0 tx) (tx_arg1 tx))
      else if tx_type tx = 1 then Some (Insert (tx_arg0 tx))
      else if tx_type tx = 2 then Some (Delete (tx_arg0 tx))
      else None)"

definition dispatch :: "tx_context list \<Rightarrow> call list" where
  "dispatch txs = List.map_filter call_of txs"

text \<open>The events of a database that the driver uses: its calls in order, and \<open>Close\<close> once, after all of them.\<close>

fun no_call :: "db_event \<Rightarrow> bool" where
  "no_call (Client i found) = True"
| "no_call Proceed = True"
| "no_call _ = False"

fun driven :: "call list \<Rightarrow> db_event list \<Rightarrow> bool" where
  "driven cs [] = True"
| "driven cs (Client i found # es) = driven cs es"
| "driven cs (Proceed # es) = driven cs es"
| "driven (c # cs) (Call ok d # es) = (c = d \<and> driven cs es)"
| "driven [] (Call ok d # es) = False"
| "driven (c # cs) (Close # es) = False"
| "driven [] (Close # es) = list_all no_call es"

datatype database = Sequential_db sequential_db | Contreap_db contreap | Batch_db batch_db

record schedule =
  s_events :: "db_event list"
  s_contreap :: "contreap_event list"

definition run_sequential :: "(u64 \<Rightarrow> u64) \<Rightarrow> options \<Rightarrow> u64 list \<Rightarrow> tx_context list \<Rightarrow> schedule \<Rightarrow> database outcome" where
  "run_sequential h opts elems txs sched =
     (if driven (dispatch txs) (s_events sched) then
        bind_outcome (run_db (sequential_step h (unat (o_clients opts))) (s_events sched)
          (sequential_Init h (unat (o_clients opts)) (length elems) (length txs) elems)) (Done \<circ> Sequential_db)
      else Wait)"

definition run_pipelined :: "(u64 \<Rightarrow> u64) \<Rightarrow> options \<Rightarrow> u64 list \<Rightarrow> tx_context list \<Rightarrow> schedule \<Rightarrow> database outcome" where
  "run_pipelined h opts elems txs sched =
     (let C = contreap_config h (unat (o_threads opts)) (length txs) (unat (o_batch_size opts)); N = unat (o_clients opts)
      in bind_outcome (run_contreap C N (dispatch txs) (s_contreap sched)
           (contreap_Init C N (length elems) elems (dispatch txs))) (Done \<circ> Contreap_db))"

text \<open>
  The fork-join scheduler of the batch backend takes its number of threads as an \<^verbatim>\<open>unsigned int\<close>. With none, it has no
  deques, and the client's first fork indexes the empty vector.
\<close>

definition scheduler_threads :: "options \<Rightarrow> nat" where
  "scheduler_threads opts = unat (o_threads opts) mod 2 ^ 32"

definition run_batched :: "(u64 \<Rightarrow> u64) \<Rightarrow> options \<Rightarrow> u64 list \<Rightarrow> tx_context list \<Rightarrow> schedule \<Rightarrow> database outcome" where
  "run_batched h opts elems txs sched =
     (if scheduler_threads opts = 0 then Crash
      else if driven (dispatch txs) (s_events sched) then
        bind_outcome (run_db (batch_step h (unat (o_clients opts))) (s_events sched)
          (batch_Init h (unat (o_clients opts)) (unat (o_batch_size opts)) (length elems) elems)) (Done \<circ> Batch_db)
      else Wait)"

text \<open>
  What the program asks the system for. \<open>granted\<close> tells whether the memory and the threads are there: for the
  constructor of the backend, and for the rest of the set-up, given the numbers of records and transactions. An array of
  \<open>2 ^ 63\<close> bytes or more is refused by \<^verbatim>\<open>new\<close>, and a vector with a negative number of deques by its constructor; in all these
  cases an exception ends the program.
\<close>

definition constructor_arrays :: "options \<Rightarrow> nat list" where
  "constructor_arrays opts =
     [8 * unat (o_clients opts), 24 * unat (o_clients opts) + 8] @
     (if o_dbname opts = ''pam'' then [8 * unat (o_batch_size opts)] else [])"

definition constructs :: "(options \<Rightarrow> (nat \<times> nat) option \<Rightarrow> bool) \<Rightarrow> options \<Rightarrow> bool" where
  "constructs granted opts \<longleftrightarrow> list_all (\<lambda>bytes. bytes < 2 ^ 63) (constructor_arrays opts) \<and> granted opts None"

definition initialises :: "(options \<Rightarrow> (nat \<times> nat) option \<Rightarrow> bool) \<Rightarrow> options \<Rightarrow> nat \<Rightarrow> nat \<Rightarrow> bool" where
  "initialises granted opts n m \<longleftrightarrow> granted opts (Some (n, m)) \<and>
     (if o_dbname opts = ''pam'' then scheduler_threads opts < 2 ^ 31
      else if o_dbname opts = ''contreap''
      then 8 * decide_num_pipes (unat (o_threads opts)) < 2 ^ 63 \<and> 8 * decide_num_workers (unat (o_threads opts)) < 2 ^ 63
      else True)"

text \<open>
  The end of the program, or the state of the database after the given schedule. A file that is missing or too
  short leaves the numbers, or the arrays, uninitialised, and the program goes on with them.
\<close>

datatype driver_result = Exit | Throws exn | Refused | Runs "database outcome"

definition driver_main ::
  "(u64 \<Rightarrow> u64) \<Rightarrow> u64 \<Rightarrow> (options \<Rightarrow> (nat \<times> nat) option \<Rightarrow> bool) \<Rightarrow> (string \<Rightarrow> u8 list option) \<Rightarrow> string list \<Rightarrow>
   schedule \<Rightarrow> driver_result" where
  "driver_main h hardware_concurrency granted fs args sched =
     (case ParseCommandLine hardware_concurrency args of
        Usage \<Rightarrow> Exit
      | Unknown_option a \<Rightarrow> Exit
      | Uncaught e \<Rightarrow> Throws e
      | Parsed opts \<Rightarrow>
          if o_dbname opts \<notin> {''sequential'', ''contreap'', ''pam''} then Exit
          else if \<not> constructs granted opts then Refused
          else case Option.bind (fs (o_filename opts)) read_workload of
              None \<Rightarrow> Runs Crash
            | Some (elems, txs) \<Rightarrow>
                if \<not> initialises granted opts (length elems) (length txs) then Refused
                else Runs (if o_dbname opts = ''sequential'' then run_sequential h opts elems txs sched
                      else if o_dbname opts = ''contreap'' then run_pipelined h opts elems txs sched
                      else run_batched h opts elems txs sched))"

section \<open>Lemmas\<close>


lemma known_call: "known tx \<Longrightarrow> \<exists>c. call_of tx = Some c"
  by (auto simp: known_def call_of_def OP_QUERY_BYTE_def OP_INSERT_BYTE_def OP_DELETE_BYTE_def)

lemma dispatch_known: "list_all known txs \<Longrightarrow> map Some (dispatch txs) = map call_of txs"
  by (induction txs) (auto simp: dispatch_def List.map_filter_simps dest!: known_call)

fun calls :: "db_event list \<Rightarrow> call list" where
  "calls [] = []"
| "calls (Call ok c # es) = c # calls es"
| "calls (e # es) = calls es"

lemma calls_no_call: "list_all no_call es \<Longrightarrow> calls es = [] \<and> Close \<notin> set es"
proof (induction es)
  case (Cons e es)
  then show ?case by (cases e) simp_all
qed simp

lemma driven_calls: "driven cs es \<Longrightarrow> calls es = take (length (calls es)) cs"
  by (induction cs es rule: driven.induct) (auto simp: calls_no_call)

lemma driven_Close: "driven cs es \<Longrightarrow> Close \<in> set es \<Longrightarrow> calls es = cs"
  by (induction cs es rule: driven.induct) (auto simp: calls_no_call)

lemma requests_calls: "requests es = map request_of (calls es)"
  by (induction es rule: requests.induct) auto


text \<open>The calls of the whole file, each followed by its own steps, and \<open>Close\<close>: the client gets through them.\<close>

definition whole_run :: "call list \<Rightarrow> db_event list" where
  "whole_run cs = concat (map (\<lambda>c. [Call True c, Proceed, Proceed]) cs) @ [Close]"

lemma driven_whole: "driven cs (whole_run cs)"
  by (induction cs) (simp_all add: whole_run_def)

lemma sequential_call_completes:
  assumes h: "inj h" and d: "sequential_done h m0 N es pushed reqs (s, p)" "sq_pc s = S_ready"
    and room: "Suc (length (requests es)) < length (sq_roots s)"
  shows "\<exists>s' p' pushed reqs. run_db (sequential_step h N) [Call True c, Proceed, Proceed] (s, p) = Done (s', p') \<and>
    sequential_done h m0 N (es @ [Call True c, Proceed, Proceed]) pushed reqs (s', p') \<and> sq_pc s' = S_ready"
proof -
  have "\<exists>s1. sequential_call True c s = Done s1" using d(2) by (simp add: sequential_call_def)
  then obtain s1 where 1: "sequential_call True c s = Done s1" by blast
  note d1 = sequential_done_call [OF d(1) 1]
  from sequential_inv_call [OF sequential_done_inv [OF d(1)] 1] obtain ver where
    s1: "sq_pc s1 = S_root ver True c" "sq_roots s1 = sq_roots s" by blast
  have r: "requests es = reqs" using d by (simp add: sequential_done_def)
  then have "Suc (length reqs) < length (sq_roots s1)" using room s1(2) by simp
  from sequential_inv_root_step [OF h sequential_done_inv [OF d1] s1(1) this] obtain s2 where
    2: "sequential_root h ver True c s1 = Done s2"
      "case c of Query l r \<Rightarrow> sq_pc s2 = S_push ver True l r \<and> sequential_inv h m0 (reqs @ [(OP_NONE, 0)]) s2
       | _ \<Rightarrow> sq_pc s2 = S_augment ver c \<and> sequential_inv h m0 reqs s2" by blast
  have p2: "sequential_proceed h (s1, p) = Done (s2, p)" using 2(1) s1(1) by (simp add: sequential_proceed_def)
  from sequential_done_proceed [OF h d1 p2] obtain pushed2 reqs2 where
    d2: "sequential_done h m0 N ((es @ [Call True c]) @ [Proceed]) pushed2 reqs2 (s2, p)" by blast
  have "\<exists>s3 p3. sequential_proceed h (s2, p) = Done (s3, p3) \<and> sq_pc s3 = S_ready"
  proof (cases c)
    case (Query l r)
    with 2(2) show ?thesis by (simp add: sequential_proceed_def)
  qed (use 2(2) sequential_inv_augment [of h m0 reqs s2 ver c] in \<open>force simp: sequential_proceed_def\<close>)+
  then obtain s3 p3 where p3: "sequential_proceed h (s2, p) = Done (s3, p3)" "sq_pc s3 = S_ready" by blast
  from sequential_done_proceed [OF h d2 p3(1)] obtain pushed3 reqs3 where
    "sequential_done h m0 N (es @ [Call True c, Proceed, Proceed]) pushed3 reqs3 (s3, p3)" by auto
  with 1 p2 p3 show ?thesis by auto
qed

lemma sequential_whole_run:
  assumes "inj h"
  shows "sequential_done h m0 N es pushed reqs (s, p) \<Longrightarrow> sq_pc s = S_ready \<Longrightarrow>
    length (requests es) + length cs < length (sq_roots s) \<Longrightarrow>
    \<exists>y. run_db (sequential_step h N) (whole_run cs) (s, p) = Done y"
proof (induction cs arbitrary: es pushed reqs s p)
  case (Cons c cs)
  from Cons.prems(3) have "Suc (length (requests es)) < length (sq_roots s)" by simp
  from sequential_call_completes [OF assms Cons.prems(1,2) this, of c] obtain s' p' pushed' reqs' where
    c: "run_db (sequential_step h N) [Call True c, Proceed, Proceed] (s, p) = Done (s', p')"
      "sequential_done h m0 N (es @ [Call True c, Proceed, Proceed]) pushed' reqs' (s', p')" "sq_pc s' = S_ready" by blast
  have "length (sq_roots s') = length (sq_roots s)" using sequential_run_room [OF c(1)] by simp
  with Cons.IH [OF c(2,3)] Cons.prems(3) obtain y where "run_db (sequential_step h N) (whole_run cs) (s', p') = Done y" by auto
  moreover have "whole_run (c # cs) = [Call True c, Proceed, Proceed] @ whole_run cs" by (simp add: whole_run_def)
  ultimately have "run_db (sequential_step h N) (whole_run (c # cs)) (s, p) = Done y"
    by (simp only: run_db_append c(1) bind_outcome.simps)
  then show ?case by blast
qed (simp add: whole_run_def)

section \<open>Properties\<close>

text \<open>C11. The generator and the driver together, with the sequential backend: on a file that the generator wrote with one
  thread and uniformly drawn keys, the driver makes one call for each transaction announced, in the order of
  the file, skipping none: the calls made up to any moment are the first ones, all of them are made before
  \<open>Close\<close>, and there is an interleaving that gets the driver through to \<open>Close\<close>. Every answer a query thread stores, at any
  moment and under any interleaving, is what the loaded keys and the calls up to that query give.
\<close>
theorem benchmark_sequential_exact:
  assumes "\<forall>i. length (P i) = 7" "uniform_draws R" "workload_Init F R p = Inr w" "one_client F p n m s rmw"
    and "ycsb_main F R P p = Some (Inr (Some x))"
    and "ParseCommandLine cores args = Parsed opts" "o_dbname opts = ''sequential''" "fs (o_filename opts) = Some (x_file x)"
    and "driver_main (hash64 seed seed64) cores granted fs args sched = Runs (Done (Sequential_db (sq, db)))"
  shows "\<exists>txs cs. read_workload (x_file x) = Some (loaded_keys w (of_int s) n, txs) \<and> length txs = m \<and>
    map call_of txs = map Some cs \<and> calls (s_events sched) = take (length (calls (s_events sched))) cs \<and>
    (Close \<in> set (s_events sched) \<longrightarrow> calls (s_events sched) = cs) \<and>
    (\<exists>sched' y. Close \<in> set (s_events sched') \<and> driver_main (hash64 seed seed64) cores granted fs args sched' = Runs (Done y)) \<and>
    (\<forall>i \<in> {1..unat (o_clients opts)}. \<forall>y \<in> set (results db i). \<exists>q \<in> set (asked 0 0 (s_events sched)). r_ver y = q_idx q \<and>
      query_spec (spec_version (occurrences (loaded_keys w (of_int s) n)) (map request_of cs) (q_ver q)) (q_l q) (q_r q) = Some (r_ret y))"
proof -
  let ?h = "hash64 seed seed64" and ?N = "unat (o_clients opts)" and ?es = "s_events sched" and ?ks = "loaded_keys w (of_int s) n"
  from one_client_read [OF assms(1-4)] assms(5) obtain ts :: "(u8 list \<times> tx_context) list" where
    r: "read_workload (x_file x) = Some (?ks, map snd (take m ts))" and ts: "m \<le> length ts" "list_all (known \<circ> snd) ts" by auto
  let ?txs = "map snd (take m ts)" and ?m0 = "occurrences ?ks"
  let ?cs = "dispatch ?txs"
  have k: "list_all known ?txs" using ts(2) by (auto simp: list_all_iff dest: in_set_takeD)
  have len: "length ?txs = m" and cs: "length ?cs = m" using ts(1) dispatch_known [OF k] by (simp, metis length_map length_take min.absorb2)
  have main: "driver_main ?h cores granted fs args sched' =
      (if constructs granted opts \<and> initialises granted opts (length ?ks) (length ?txs) then Runs (run_sequential ?h opts ?ks ?txs sched') else Refused)" for sched'
    using assms(6-8) r by (simp add: driver_main_def)
  then have res: "constructs granted opts" "initialises granted opts (length ?ks) (length ?txs)"
    "run_sequential ?h opts ?ks ?txs sched = Done (Sequential_db (sq, db))" using assms(9) by (auto split: if_splits)
  then have run: "driven ?cs ?es"
    "run_db (sequential_step ?h ?N) ?es (sequential_Init ?h ?N (length ?ks) (length ?txs) ?ks) = Done (sq, db)"
    by (auto simp: run_sequential_def split: if_splits)
  have c: "calls ?es = take (length (calls ?es)) ?cs" by (rule driven_calls [OF run(1)])
  from sequential_run [OF inj_hash64 order_refl run(2)] obtain pushed reqs where
    d: "sequential_done ?h ?m0 ?N ?es pushed reqs (sq, db)" by auto
  have ans: "\<exists>q \<in> set (asked 0 0 ?es). r_ver y = q_idx q \<and>
      query_spec (spec_version ?m0 (map request_of ?cs) (q_ver q)) (q_l q) (q_r q) = Some (r_ret y)"
    if y: "i \<in> {1..?N}" "y \<in> set (results db i)" for i y
  proof -
    from d y obtain q where q: "q \<in> set (asked 0 0 ?es)" "r_ver y = q_idx q" "q_ver q \<le> length (requests ?es)"
      "query_spec (spec_version ?m0 (requests ?es) (q_ver q)) (q_l q) (q_r q) = Some (r_ret y)"
      by (rule sequential_done_results)
    have "map request_of ?cs = requests ?es @ map request_of (drop (length (calls ?es)) ?cs)"
      unfolding requests_calls by (subst c) (metis append_take_drop_id map_append)
    with q show ?thesis by auto
  qed
  obtain s0 p0 where i: "sequential_Init ?h ?N (length ?ks) (length ?txs) ?ks = (s0, p0)" by fastforce
  have "run_db (sequential_step ?h ?N) [] (sequential_Init ?h ?N (length ?ks) (length ?txs) ?ks) = Done (s0, p0)" unfolding i by simp
  from sequential_run [OF inj_hash64 order_refl this] obtain pushed reqs where
    d0: "sequential_done ?h ?m0 ?N [] pushed reqs (s0, p0)" by auto
  have "sq_pc s0 = S_ready" "length (sq_roots s0) = Suc m"
    using i len sequential_Init_room [of ?h ?N "length ?ks" "length ?txs" ?ks] by (auto simp: sequential_Init_def split: prod.splits)
  with sequential_whole_run [OF inj_hash64 d0, of ?cs] cs obtain y where
    "run_db (sequential_step ?h ?N) (whole_run ?cs) (s0, p0) = Done y" by auto
  then have "\<exists>sched' y. Close \<in> set (s_events sched') \<and> driver_main ?h cores granted fs args sched' = Runs (Done y)"
    using res(1,2) i driven_whole [of ?cs]
    by (intro exI [of _ "\<lparr>s_events = whole_run ?cs, s_contreap = []\<rparr>"] exI [of _ "Sequential_db y"])
      (simp add: main run_sequential_def, simp add: whole_run_def)
  then show ?thesis using r len dispatch_known [OF k] c ans driven_Close [OF run(1)]
    by (intro exI [of _ ?txs] exI [of _ ?cs]) simp
qed



theorem benchmark_sequential_exact_witness:
  "\<exists>x txs. ycsb_main sample_fp sample_rng (\<lambda>_. replicate 7 0) sample_spec = Some (Inr (Some x)) \<and>
     read_workload (x_file x) = Some ([0, 1], txs) \<and> length txs = 3 \<and> None \<notin> set (map call_of txs)"
proof -
  let ?h = "hash64 (1, 2, 3, 4) (5, 6, 7, 8)" and ?args = "[''sequential'', ''f'', ''-clients'', ''1'']" and ?g = "\<lambda>_ _. True"
  obtain w where w: "workload_Init sample_fp sample_rng sample_spec = Inr w" "wl_ordered_inserts w" using sample_Init by blast
  have l: "loaded_keys w (of_int 0) 2 = [0, 1]" using w(2) by (simp add: loaded_keys_def key_number_def numeral_2_eq_2)
  define P :: "nat \<Rightarrow> u8 list" where "P = (\<lambda>_. replicate 7 0)"
  have P: "\<forall>i. length (P i) = 7" "uniform_draws sample_rng" by (simp_all add: P_def uniform_draws_def sample_rng_def)
  from one_client_read [OF P w(1) sample_one_client] obtain x txs where
    x: "ycsb_main sample_fp sample_rng P sample_spec = Some (Inr (Some x))" "read_workload (x_file x) = Some ([0, 1], txs)"
    unfolding l by blast
  have "stoi ''1'' = Inr 1" by code_simp
  then have a: "ParseCommandLine 4 ?args = Parsed \<lparr>o_dbname = ''sequential'', o_filename = ''f'', o_threads = 4, o_clients = 1, o_batch_size = 1000\<rparr>"
    by (simp add: ParseCommandLine_def driver_number_def StrStartWith_def)
  obtain sq db where "run_sequential ?h \<lparr>o_dbname = ''sequential'', o_filename = ''f'', o_threads = 4, o_clients = 1, o_batch_size = 1000\<rparr>
      [0, 1] txs \<lparr>s_events = [Client 1 True, Client 1 True], s_contreap = []\<rparr> = Done (Sequential_db (sq, db))"
    by (simp add: run_sequential_def sequential_Init_def process_step_def Start_def make_processor_def split_beta)
  then have "driver_main ?h 4 ?g (\<lambda>_. Some (x_file x)) ?args \<lparr>s_events = [Client 1 True, Client 1 True], s_contreap = []\<rparr> =
      Runs (Done (Sequential_db (sq, db)))" using a x(2)
    by (simp add: driver_main_def constructs_def constructor_arrays_def initialises_def)
  from benchmark_sequential_exact [OF P w(1) sample_one_client x(1) a _ _ this] obtain cs where
    c: "length txs = 3" "map call_of txs = map Some cs" using x(2) by auto
  have "None \<notin> set (map call_of txs)" unfolding c(2) by auto
  with c(1) x show ?thesis unfolding P_def by blast
qed









end
