(* ===== verification/Spec2Isabelle.thy ===== *)
theory Spec2Isabelle
  imports MC_Queue_Runs Parlay_Elastic Parlay_Parallel Parlay_Quicksort Parlay_Radix Treap_Build_Heap Scheduler_Progress Driver
begin

text \<open>
  Contreap: a concurrent, persistent treap of key counters, the backends built on it, the benchmark driver and workload
  generator around them, and the parts of the parallel library they run on. Paths are relative to the root of the repository.

  \<^bold>\<open>The program.\<close> Every key has a counter; an insertion adds one, a deletion takes one away (and removes the key at zero), and each
  update makes a new version of the whole store. A point query asks for one counter of one version, a range query for a sum of
  counters. The driver (\<^verbatim>\<open>main.cpp\<close>) reads a workload file written by the generator (\<^verbatim>\<open>ycsbc/\<close>) and sends its transactions to
  one of three backends (\<^verbatim>\<open>db/\<close>): a sequential one, a pipelined one, in which pipes, a boarder, workers and a collector work on
  many insertions and deletions at once over shared nodes (\<^verbatim>\<open>lib/treap/scheduler.hpp\<close>), and one that applies updates in batches to
  another kind of tree (\<^verbatim>\<open>lib/pam\<close>). All of them answer queries in separate threads (\<^verbatim>\<open>db/include/query_processor.hpp\<close>). Bulk
  builds, sums and batches are fork-join computations on a vendored library (\<^verbatim>\<open>lib/parlay\<close>).

  \<^bold>\<open>The theories\<close>, in the order in which they build on each other:
  \<^item> \<open>Prelude\<close>: machine words, little-endian bytes, the outcome of a step (done, wait, crash), collections of rewrite rules.
  \<^item> \<open>AES_Hash\<close> (\<^verbatim>\<open>lib/aes_hash.hpp\<close>): the priority hash at four widths, from the AES round on; it is injective.
  \<^item> \<open>Treap\<close> (\<^verbatim>\<open>lib/treap/node.hpp, search_insert.hpp, search_delete.hpp\<close>), \<open>Treap_Query\<close> (\<^verbatim>\<open>augment.hpp, query.hpp\<close>),
    \<open>Treap_Build\<close> (\<^verbatim>\<open>build.hpp\<close>): the operations on trees as values. The invariant \<open>treap\<close> says that keys are ordered and that priorities are
    the hashes of the keys and in heap order; every operation keeps it and changes the counters as
    it should; a treap is determined in shape by its counters.
  \<^item> \<open>Versions\<close>: the contract of a store of counters and its history, as a locale with the treap as its instance.
  \<^item> \<open>Treap_Heap\<close>, \<open>Treap_Heap_Query\<close>: the same operations on nodes at addresses, with the allocations and writes in the order
    of the source; they return, represent the results of the functional operations, and write no old node.
  \<^item> \<open>Treap_Build_Heap\<close>: the bulk build on nodes at addresses, which owns the nodes it makes and gives each one it drops back once.
  \<^item> \<open>Scheduler\<close>: the pipelined scheduler, each thread a step function between accesses to shared variables. \<open>Scheduler_World\<close>,
    \<open>Scheduler_Task\<close>, \<open>Scheduler_Inv\<close>, \<open>Scheduler_Safety\<close>: the heap while tasks are in flight, one step of a task, the invariant, and
    that all steps keep it. \<open>Scheduler_Live\<close>, \<open>Scheduler_Progress\<close>: no deadlock, every schedule ends. \<open>Scheduler_Estimate\<close>: the sums
    cached by the workers and \<open>get_snapshot\<close>, whose failures are exhibited by runs.
  \<^item> \<open>PAM\<close>, \<open>PAM_Trees\<close>, \<open>PAM_Batch\<close> (\<^verbatim>\<open>lib/pam\<close>): trees whose nodes hold lists of versioned values, and batches of insertions and
    deletions; which versions of a batch are exact and which are not.
  \<^item> \<open>MC_Queue\<close> (\<^verbatim>\<open>lib/moodycamel/concurrentqueue.h\<close>): the lock-free queue of one producer and many consumers, one shared access per
    step. \<open>MC_Queue_Inv\<close>, \<open>MC_Queue_Take\<close>, \<open>MC_Queue_Put\<close>: its invariant and that dequeues and enqueues keep it. \<open>MC_Queue_Runs\<close>:
    it is a list. The words and counters of a run of less than \<open>2 ^ 55\<close> steps do not wrap.
  \<^item> \<open>Query_Processor\<close>: the queue of queries and the query threads; the locale \<open>query_backend\<close> states what a backend promises.
    \<open>DB_Sequential\<close>, \<open>DB_Contreap\<close>, \<open>DB_Batch\<close> (\<^verbatim>\<open>db/*.hpp\<close>): the backends, with the steps of a call interleaved with the query
    threads; the sequential and the batch backend are instances of the locale.
  \<^item> \<open>YCSB_Utils\<close>, \<open>YCSB_Properties\<close>, \<open>YCSB_Generators\<close>, \<open>YCSB_Workload\<close>, \<open>YCSB_Export\<close>, \<open>YCSB_Client\<close> (\<^verbatim>\<open>ycsbc/\<close>): the generator, from
    the command line to the bytes of the file. \<open>Driver\<close> (\<^verbatim>\<open>main.cpp\<close>): the program that reads the file and runs it.
  \<^item> \<open>Parlay_Deque\<close> (\<^verbatim>\<open>internal/work_stealing_deque.h\<close>): the work-stealing deque, one atomic access per step. \<open>Parlay_Fork_Join\<close>
    (\<^verbatim>\<open>scheduler.h, internal/work_stealing_job.h\<close>): spawning, joining and stealing by any number of workers, over deques of 1024 slots whose
    operations take effect at once. \<open>Parlay_Elastic\<close> (\<^verbatim>\<open>scheduler.h\<close>): how the workers sleep, are woken and end; the scheduler can always be
    shut down. \<open>Parlay_Parallel\<close> (\<^verbatim>\<open>parallel.h\<close>): the parallel loops as computations of the fork-join scheduler.
  \<^item> \<open>Parlay_Sequence\<close> (\<^verbatim>\<open>internal/sequence_ops.h, monoid.h, slice.h\<close>), \<open>Parlay_Utilities\<close> (\<^verbatim>\<open>utilities.h, random.h\<close>), \<open>Parlay_Merge\<close>
    (\<^verbatim>\<open>internal/binary_search.h, merge.h, merge_sort.h\<close>), \<open>Parlay_Quicksort\<close>, \<open>Parlay_Counting\<close>, \<open>Parlay_Radix\<close>
    (\<^verbatim>\<open>internal/quicksort.h, counting_sort.h, integer_sort.h\<close>): the algorithms. Monoids and strict weak orders are locales.

  \<^bold>\<open>What is shown.\<close> This theory holds the properties of the tree operations and of the scheduler: under every interleaving each
  committed version is the tree of the sequential execution, no thread reads a bad pointer, no state is stuck before the end,
  every schedule ends. The backends' theories show what the stored answers are, \<open>Driver\<close> and \<open>YCSB_Client\<close> compose them with the
  generator. The parallel library is shown to run every branch and every loop index exactly once, and its algorithms to equal
  their sequential specifications. Where the code fails, a theorem exhibits the failing run (\<open>estimate_too_early\<close>,
  \<open>snapshot_wrong_block\<close>, \<open>snapshot_hangs\<close>, \<open>pam_insert_forgets\<close>, \<open>deque_tag_wraps\<close>, \<open>integer_sort_inplace_loses\<close> and others).

  \<^bold>\<open>Models and bounds.\<close> A data structure that is shared and written in place is a map from addresses to records (\<open>Treap_Heap\<close>, \<open>Scheduler\<close>);
  one that is never written after it was published is a value (\<open>PAM\<close>, the lists of the parallel library). An array that is
  filled by parallel writes is a list of writes to slots that start empty: reading an unwritten slot, or one whose element was
  moved away, has no result, so a theorem that an algorithm returns also says that it writes every slot. Two branches of a
  fork-join computation are two independent results where they share no state; that they are run exactly once is shown in
  \<open>Parlay_Fork_Join\<close>.

  Memory is sequentially consistent, and a step of a thread reaches up to one access to a variable that other threads write, with these
  exceptions. In \<open>Scheduler\<close>, the wait for the stage of an earlier task (\<open>W_spin\<close>, \<open>W_depend\<close>) joins the load that ends it with
  the store of the own stage; stages only grow, so the load would give the same answer at the time of the store. In the backends, a query thread
  processes a query in one step: it reads the counter of versions, the root and the nodes, which other threads only extend
  while they are in use, and the step fails if it reads one that is not there yet. A call of the sequential or the batch backend
  takes a step for each variable the query threads may read (counting a version, storing or linking a root, pushing a query); the sums
  that \<open>augment\<close> writes below a root whose version is not yet in the queue are one step. In \<open>MC_Queue\<close>, the producer copies its
  block index in one step before it publishes the copy.

  A write through a pointer to a child (\<open>set_lch\<close>, \<open>set_rch\<close>) changes nothing at an address without a node; the operations
  write only at addresses that they have allocated or of which they have read a field before. Loops
  are total functions with a measure, or have a proof that they end; one loop takes fuel: \<open>copy_entries\<close> in \<open>MC_Queue\<close> is given the size of
  the old index, and visits each of its slots at most once (\<open>copy_entries_eq\<close>). Numbers are words where the code's
  wrapping matters (hashes, keys, sums, the tag of the deque) and naturals where a theorem assumes a bound: nodes and tasks below
  \<open>2 ^ 64 - 1\<close> together (\<open>sched_pre\<close>), pops of a deque below \<open>2 ^ 32\<close>,
  jobs spawned inside each other up to the 1024 a deque holds (\<open>fork_join_progress\<close>; one more aborts, \<open>deep_nesting_aborts\<close>), arrays to be sorted below \<open>2 ^ 64\<close>, steps of the queue below \<open>2 ^ 55\<close> and of
  the sleeping workers below \<open>2 ^ 62\<close>, versions of the batch backend below \<open>vstat_uninitialized\<close>, keys of an integer sort of at
  most 64 bits. The counts of the scheduler and the indices of loops are unbounded: the code's wrap only after \<open>2 ^ 64\<close>
  requests, and in a parallel loop of some \<open>2 ^ 60\<close> iterations or with \<open>2 ^ 25\<close> threads.

  \<^bold>\<open>Parameters.\<close> Random sources, floating-point functions, clocks, the file system, the random words of the hash, the
  success of an allocation, an enqueue or a dequeue, the memory and threads the driver is granted, and the schedule are arguments of the definitions.

  \<^bold>\<open>Not modelled.\<close> The failure of allocations outside the queue and the driver's set-up, the release of nodes in \<^verbatim>\<open>lib/pam\<close> (it only gives memory back), output and
  timing, and weaker memory orders. The query processor is
  modelled over a list of pending queries; that the queue of \<^verbatim>\<open>lib/moodycamel\<close> is such a list, from which the oldest query is taken or,
  while others dequeue, none, is \<open>queue_refines_list\<close> and \<open>lone_dequeue\<close>. Its bulk operations, implicit producers, consumer tokens,
  block pool and destruction are left out, as are the blocking queue and its semaphore: the program uses the destruction and the pool only. Of
  \<^verbatim>\<open>lib/parlay\<close>, the containers, allocators and adapters (a sequence is a list), delayed
  sequences, and the algorithms nothing here depends on (hash tables, bucket and sample sort, grouping) are left out.
\<close>

section \<open>The pipelined scheduler\<close>

text \<open>A configuration with the AES hash, and an empty heap.\<close>

definition aes_config :: config where
  "aes_config = \<lparr>num_pipes = 1, num_workers = 2, block_size = 1, num_tasks = 1,
     hash_of = hash64 (1, 2, 3, 4) (5, 6, 7, 8)\<rparr>"

definition empty_heap :: heap where
  "empty_heap = \<lparr>cells = Map.empty, brk = 0\<rparr>"

lemma aes_pre: "sched_pre aes_config empty_heap None Null [(OP_INSERT, 9)]"
proof -
  have "represents empty_heap None Null" unfolding represents_def by (auto simp: frozen_def intro: exI [of _ Map.empty])
  then show ?thesis by (simp add: sched_pre_def aes_config_def STAGE_DONE_def)
qed

lemma aes_run:
  "\<exists>\<sigma>. reachable aes_config empty_heap None [(OP_INSERT, 9)] \<sigma> \<and> num_committed \<sigma> = 1"
proof (rule run_reaches)
  show "case run aes_config [Master, Collector, Collector] (init_state aes_config empty_heap None [(OP_INSERT, 9)]) of
      Done \<sigma> \<Rightarrow> num_committed \<sigma> = 1 | _ \<Rightarrow> False"
    by (simp add: step_defs task_defs aes_config_def empty_heap_def)
qed (simp add: threads_def)

lemma early_reached:
  "\<exists>\<sigma>. reachable (small_config 2 2) path_heap (Some 2) [(OP_INSERT, 5), (OP_NONE, 0)] \<sigma> \<and> num_committed \<sigma> = 2 \<and>
     get_snapshot (small_config 2 2) 1 \<sigma> = Done (Some 3) \<and> map_option n_aug (cells (heap_of \<sigma>) 3) = Some 2"
  using run_reaches [OF early_run] by (auto simp: early_schedule_def threads_def small_config_def)

lemma other_reached:
  "\<exists>\<sigma>. reachable (small_config 2 2) path_heap (Some 2) [(OP_INSERT, 9), (OP_NONE, 0)] \<sigma> \<and> num_committed \<sigma> = 2 \<and>
     get_snapshot (small_config 2 2) 2 \<sigma> = Done (Some 3) \<and>
     map_option n_aug (cells (heap_of \<sigma>) 3) = Some aug_uninitialized"
  using run_reaches [OF other_run] by (auto simp: other_schedule_def threads_def small_config_def)

lemma hang_reached:
  "\<exists>\<sigma>. reachable (small_config 1 4) path_heap (Some 2) [(OP_NONE, 0), (OP_NONE, 0), (OP_NONE, 0), (OP_NONE, 0)] \<sigma> \<and>
     num_committed \<sigma> = 4 \<and> todo \<sigma> = [] \<and> joinable (small_config 1 4) \<sigma> \<and> get_snapshot (small_config 1 4) 3 \<sigma> = Wait"
  using run_reaches [OF hang_run] by (auto simp: hang_schedule_def threads_def small_config_def)

text \<open>A schedule of the configuration with one insertion after which no thread has anything to do.\<close>

definition quiet_schedule :: "thread list" where
  "quiet_schedule =
    [Master, Master, Pipe 1, Pipe 1, Pipe 1, Boarder, Boarder, Worker 1, Worker 1, Worker 1, Worker 1,
    Worker 1, Worker 1, Worker 1, Worker 1, Worker 1, Worker 2, Worker 2, Worker 2, Collector, Collector]"

text \<open>C1. The pipelined execution is equivalent to executing the requests one after the other: in
  every reachable state, under every interleaving of client, pipes, boarder, workers and collector, the root of
  each committed version represents exactly the tree that the sequential \<open>search_insert\<close> and
  \<open>search_delete\<close> compute for that version, node for node.\<close>

theorem scheduler_serializable:
  assumes "sched_pre C H0 t0 T0 reqs" "reachable C H0 t0 reqs \<sigma>" "i \<le> num_committed \<sigma>"
  shows "represents (heap_of \<sigma>) (c_root (ctxs \<sigma> i)) (version (tree_step (hash_of C)) T0 reqs i)"
  using committed_represents(1) [OF assms] .

theorem scheduler_serializable_witness:
  "\<exists>\<sigma>. reachable (small_config 2 2) path_heap (Some 2) [(OP_INSERT, 5), (OP_NONE, 0)] \<sigma> \<and>
     represents (heap_of \<sigma>) (c_root (ctxs \<sigma> 1))
       (version (tree_step (\<lambda>k. k)) path_tree [(OP_INSERT, 5), (OP_NONE, 0)] 1)"
proof -
  from early_reached obtain \<sigma> where r: "reachable (small_config 2 2) path_heap (Some 2) [(OP_INSERT, 5), (OP_NONE, 0)] \<sigma>"
    "num_committed \<sigma> = 2" by blast
  have "sched_pre (small_config 2 2) path_heap (Some 2) path_tree [(OP_INSERT, 5), (OP_NONE, 0)]" by (rule small_pre) simp_all
  from scheduler_serializable [OF this r(1), of 1] r show ?thesis by (auto simp: small_config_def)
qed

text \<open>C2. Every committed version is a treap that holds the initial counters after the first
  \<open>i\<close> requests, in the order the client issued them.\<close>

theorem scheduler_counts:
  assumes "sched_pre C H0 t0 T0 reqs" "reachable C H0 t0 reqs \<sigma>" "i \<le> num_committed \<sigma>"
    and "hash_of C = hash64 seed seed64" "treap (hash64 seed seed64) T0" "sums_ok T0"
  shows "\<exists>T. represents (heap_of \<sigma>) (c_root (ctxs \<sigma> i)) T \<and> treap (hash64 seed seed64) T \<and>
    counts T = spec_version (counts T0) reqs i"
proof -
  show ?thesis
    using committed_represents(1) [OF assms(1-3), unfolded assms(4)] committed_represents(3) [OF assms(1-3)] treap_store.version_inv [of seed seed64 T0 reqs i] treap_store.version_view [of seed seed64 T0 i reqs] assms(5,6) by blast
qed

theorem scheduler_counts_witness:
  "\<exists>\<sigma> T. reachable aes_config empty_heap None [(OP_INSERT, 9)] \<sigma> \<and>
     represents (heap_of \<sigma>) (c_root (ctxs \<sigma> 1)) T \<and> counts T 9 = Some 1"
proof -
  from aes_run obtain \<sigma> where r: "reachable aes_config empty_heap None [(OP_INSERT, 9)] \<sigma>" "num_committed \<sigma> = 1" by blast
  from scheduler_counts [OF aes_pre r(1), of 1 "(1, 2, 3, 4)" "(5, 6, 7, 8)"] r(2) obtain T where
    "represents (heap_of \<sigma>) (c_root (ctxs \<sigma> 1)) T" "counts T = spec_version (counts Null) [(OP_INSERT, 9)] 1"
    by (auto simp: aes_config_def)
  moreover from this have "counts T 9 = Some 1" by (simp add: spec_version_def bump_def)
  ultimately show ?thesis using r(1) by blast
qed

text \<open>C3. Memory safety: in every reachable state no thread dereferences a null or dangling node
  pointer or accesses a context outside the array, whichever thread takes the next step.\<close>

theorem scheduler_memory_safe:
  assumes "sched_pre C H0 t0 T0 reqs" "reachable C H0 t0 reqs \<sigma>" "tid \<in> threads C"
  shows "step C tid \<sigma> \<noteq> Crash"
  using step_ok [OF assms(1) reachable_inv [OF assms(2,1)] assms(3)] by auto

theorem scheduler_memory_safe_witness:
  "step (small_config 2 2) Master (init_state (small_config 2 2) path_heap (Some 2) [(OP_INSERT, 5), (OP_NONE, 0)]) \<noteq> Crash"
proof -
  have "sched_pre (small_config 2 2) path_heap (Some 2) path_tree [(OP_INSERT, 5), (OP_NONE, 0)]" by (rule small_pre) simp_all
  from scheduler_memory_safe [OF this reachable_init, of Master] show ?thesis by (simp add: threads_def)
qed

text \<open>What is committed stays: the root of a version, and the tree it points to.\<close>

lemma committed_stays:
  assumes "sched_pre C H0 t0 T0 reqs" "reachable C H0 t0 reqs \<sigma>" "i \<le> num_committed \<sigma>"
    and "set tids \<subseteq> threads C" "run C tids \<sigma> = Done \<sigma>'"
  shows "i \<le> num_issued \<sigma>'" "c_root (ctxs \<sigma>' i) = c_root (ctxs \<sigma> i)"
    "represents (heap_of \<sigma>') (c_root (ctxs \<sigma> i)) (version (tree_step (hash_of C)) T0 reqs i)"
proof -
  note inv = reachable_inv [OF assms(2,1)] and inv' = reachable_inv [OF reachable_run [OF assms(2,4,5)] assms(1)]
  have le: "i \<le> num_issued \<sigma>" using committed_done(2) [OF inv assms(3)] assms(3) by simp
  note g = run_ctx [OF assms(5), unfolded ctxs_grow_def advances_def]
  show root: "c_root (ctxs \<sigma>' i) = c_root (ctxs \<sigma> i)" and le': "i \<le> num_issued \<sigma>'" using g le by auto
  have "c_st (ctxs \<sigma>' k) = ST_DONE" if "k \<le> i" for k
    using committed_done(1) [OF inv, of k] that assms(3) g by auto
  with finished_represents [OF assms(1) inv' le'] root
  show "represents (heap_of \<sigma>') (c_root (ctxs \<sigma> i)) (version (tree_step (hash_of C)) T0 reqs i)" by (simp add: tree_at_def)
qed

text \<open>C4. A snapshot is what it is called: \<open>get_snapshot\<close> of a committed version never crashes; it waits exactly as long as the
  worker of block \<open>ver / block_size\<close> has published no more blocks than the position of that block; otherwise it returns a
  pointer that represents the version's tree, and it keeps returning that pointer, to the same tree, whatever the threads do later. Block
  size and number of workers have to be positive.\<close>

theorem snapshot_is_version:
  assumes "sched_pre C H0 t0 T0 reqs" "reachable C H0 t0 reqs \<sigma>" "ver \<le> num_committed \<sigma>" "0 < block_size C" "0 < num_workers C"
    and "set tids \<subseteq> threads C" "run C tids \<sigma> = Done \<sigma>'"
  shows "if num_estimated \<sigma> (ver div block_size C mod num_workers C) \<le> ver div block_size C div num_workers C
    then get_snapshot C ver \<sigma> = Wait
    else \<exists>p. get_snapshot C ver \<sigma> = Done p \<and> get_snapshot C ver \<sigma>' = Done p \<and>
      represents (heap_of \<sigma>) p (version (tree_step (hash_of C)) T0 reqs ver) \<and>
      represents (heap_of \<sigma>') p (version (tree_step (hash_of C)) T0 reqs ver)"
proof -
  let ?w = "ver div block_size C mod num_workers C" and ?k = "ver div block_size C div num_workers C"
  note c = committed_represents [OF assms(1-3)]
  have le: "ver \<le> num_tasks C" using c(3) sched_preD(3) [OF assms(1)] by simp
  note s = committed_stays [OF assms(1-3,6,7)]
  have e: "num_estimated \<sigma> ?w \<le> num_estimated \<sigma>' ?w" by (rule run_estimated [OF reachable_estimated [OF assms(2)] assms(6,7)])
  then show ?thesis using c(1,2) le s e assms(4,5) by (auto simp: get_snapshot_def at_ctx_def Let_def)
qed

theorem snapshot_is_version_witness:
  "\<exists>\<sigma>. reachable (small_config 2 2) path_heap (Some 2) [(OP_INSERT, 5), (OP_NONE, 0)] \<sigma> \<and>
     represents (heap_of \<sigma>) (Some 3) (version (tree_step (\<lambda>k. k)) path_tree [(OP_INSERT, 5), (OP_NONE, 0)] 1)"
proof -
  from early_reached obtain \<sigma> where r: "reachable (small_config 2 2) path_heap (Some 2) [(OP_INSERT, 5), (OP_NONE, 0)] \<sigma>"
    "num_committed \<sigma> = 2" "get_snapshot (small_config 2 2) 1 \<sigma> = Done (Some 3)" by blast
  have "sched_pre (small_config 2 2) path_heap (Some 2) path_tree [(OP_INSERT, 5), (OP_NONE, 0)]" by (rule small_pre) simp_all
  from snapshot_is_version [OF this r(1), of 1 "[]" \<sigma>] r show ?thesis by (auto simp: small_config_def split: if_splits)
qed

text \<open>C8. The scheduler is free of deadlock: when the client has as many requests as the scheduler was
  made for and there is a worker, a reachable state in which no thread can take a step is the end:
  everything is issued and committed and \<open>process\<close> can join all threads.\<close>

theorem scheduler_no_deadlock:
  assumes "sched_pre C H0 t0 T0 reqs" "length reqs = num_tasks C" "1 \<le> num_workers C"
    and "reachable C H0 t0 reqs \<sigma>" "\<And>tid. tid \<in> threads C \<Longrightarrow> step C tid \<sigma> = Wait"
  shows "todo \<sigma> = [] \<and> num_committed \<sigma> = num_tasks C \<and> joinable C \<sigma>"
  using stuck_end [OF assms] by simp

lemma quiet_run:
  "case run aes_config quiet_schedule (init_state aes_config empty_heap None [(OP_INSERT, 9)]) of
     Done \<sigma> \<Rightarrow> \<forall>tid \<in> threads aes_config. step aes_config tid \<sigma> = Wait | _ \<Rightarrow> False"
  by (simp add: step_defs task_defs aes_config_def empty_heap_def quiet_schedule_def threads_def one_two augment_at.simps)

theorem scheduler_no_deadlock_witness:
  "\<exists>\<sigma>. reachable aes_config empty_heap None [(OP_INSERT, 9)] \<sigma> \<and> joinable aes_config \<sigma>"
proof -
  from run_reaches [OF quiet_run] obtain \<sigma> where r: "reachable aes_config empty_heap None [(OP_INSERT, 9)] \<sigma>"
    "\<forall>tid \<in> threads aes_config. step aes_config tid \<sigma> = Wait"
    by (auto simp: quiet_schedule_def threads_def aes_config_def)
  from scheduler_no_deadlock [OF aes_pre _ _ r(1)] r show ?thesis by (auto simp: aes_config_def)
qed

text \<open>C9. Every schedule ends: no sequence of steps of the threads is longer than \<open>max_steps\<close>, a
  bound in the number of tasks, threads and nodes; and from every reachable state the threads can
  finish all tasks.\<close>

theorem scheduler_terminates:
  assumes "sched_pre C H0 t0 T0 reqs" "length reqs = num_tasks C" "1 \<le> num_workers C"
    and "set tids \<subseteq> threads C" "run C tids (init_state C H0 t0 reqs) = Done \<sigma>"
  shows "length tids \<le> max_steps C T0 \<and>
    (\<exists>tids' \<sigma>'. set tids' \<subseteq> threads C \<and> run C tids' \<sigma> = Done \<sigma>' \<and> num_committed \<sigma>' = num_tasks C \<and> joinable C \<sigma>')"
proof
  have le: "length reqs \<le> num_tasks C" using assms(2) by simp
  show "length tids \<le> max_steps C T0"
    using run_rank [OF assms(1) reachable_init assms(4,5)] init_rank [OF le, of T0 H0 t0] by linarith
  show "\<exists>tids' \<sigma>'. set tids' \<subseteq> threads C \<and> run C tids' \<sigma> = Done \<sigma>' \<and> num_committed \<sigma>' = num_tasks C \<and> joinable C \<sigma>'"
    using run_completes [OF assms(1-3) reachable_run [OF reachable_init assms(4,5)]] by blast
qed

theorem scheduler_terminates_witness:
  "\<exists>tids' \<sigma>'. set tids' \<subseteq> threads aes_config \<and>
     run aes_config tids' (init_state aes_config empty_heap None [(OP_INSERT, 9)]) = Done \<sigma>' \<and> num_committed \<sigma>' = 1"
  using scheduler_terminates [OF aes_pre, of "[]"] by (auto simp: aes_config_def)

text \<open>C13. Versions are immutable: whatever the threads do later, a committed version keeps its root
  pointer, and the pointer keeps representing the same tree.\<close>

theorem version_persists:
  assumes "sched_pre C H0 t0 T0 reqs" "reachable C H0 t0 reqs \<sigma>" "i \<le> num_committed \<sigma>"
    and "set tids \<subseteq> threads C" "run C tids \<sigma> = Done \<sigma>'"
  shows "c_root (ctxs \<sigma>' i) = c_root (ctxs \<sigma> i) \<and>
    represents (heap_of \<sigma>') (c_root (ctxs \<sigma> i)) (version (tree_step (hash_of C)) T0 reqs i)"
  using committed_stays [OF assms] by simp

theorem version_persists_witness:
  "\<exists>\<sigma>'. run (small_config 2 2) [Master, Master]
     (init_state (small_config 2 2) path_heap (Some 2) [(OP_INSERT, 5), (OP_NONE, 0)]) = Done \<sigma>' \<and>
   represents (heap_of \<sigma>') (Some 2) path_tree"
proof -
  let ?s = "init_state (small_config 2 2) path_heap (Some 2) [(OP_INSERT, 5), (OP_NONE, 0)]"
  have "case run (small_config 2 2) [Master, Master] ?s of Done \<sigma>' \<Rightarrow> True | _ \<Rightarrow> False" by (simp add: run_simps)
  then obtain \<sigma>' where r: "run (small_config 2 2) [Master, Master] ?s = Done \<sigma>'" by (auto split: outcome.splits)
  have "sched_pre (small_config 2 2) path_heap (Some 2) path_tree [(OP_INSERT, 5), (OP_NONE, 0)]" by (rule small_pre) simp_all
  from version_persists [OF this reachable_init, of 0 "[Master, Master]" \<sigma>'] r show ?thesis
    by (auto simp: threads_def init_state_def ctx_done_def init_ctx_def)
qed

text \<open>Counting occurrences is bumping one counter for each element.\<close>

lemma occurrences_bump: "occurrences xs = fold bump xs Map.empty"
proof (induction xs rule: rev_induct)
  case (snoc x xs)
  have "occurrences (xs @ [x]) = bump x (occurrences xs)"
    by (auto simp: occurrences_def bump_def fun_eq_iff count_list_0_iff)
  with snoc show ?case by simp
qed (simp add: occurrences_def fun_eq_iff)

text \<open>Building in bulk is inserting one by one: \<open>build_parallel\<close> and the insertions of the elements
  in order make trees of the same shape with the same counters.\<close>

theorem bulk_build_is_insertion:
  "shape (build_parallel (hash64 seed seed64) (length elems) elems) =
   shape (fold (\<lambda>key t. search_insert 0 t (hash64 seed seed64 key) key) elems Null)"
proof -
  let ?h = "hash64 seed seed64"
  have ins: "treap ?h (fold (\<lambda>key t. search_insert 0 t (?h key) key) elems t) \<and>
      counts (fold (\<lambda>key t. search_insert 0 t (?h key) key) elems t) = fold bump elems (counts t)" if "treap ?h t" for t
    using that by (induction elems arbitrary: t) (simp_all add: treap_search_insert counts_search_insert inj_hash64)
  have "treap ?h (build_parallel ?h (length elems) elems)" "counts (build_parallel ?h (length elems) elems) = occurrences elems"
    using build_correct [of ?h "length elems" elems] inj_hash64 build_parallel_augments [of ?h "length elems" elems] by simp_all
  with ins [of Null] show ?thesis by (intro treap_unique [where h = ?h] inj_hash64) (simp_all add: occurrences_bump)
qed

text \<open>C14. A defect: the sums of a block can be taken before the block's tasks are finished. There is a
  reachable state in which all tasks are committed and \<open>get_snapshot\<close> returns version 1, whose cached
  sum is set but is not the sum of its counters; cached sums are never recomputed.\<close>

theorem estimate_too_early:
  "\<exists>C H0 t0 T0 reqs \<sigma> p c. sched_pre C H0 t0 T0 reqs \<and> reachable C H0 t0 reqs \<sigma> \<and> num_committed \<sigma> = num_tasks C \<and>
     get_snapshot C 1 \<sigma> = Done p \<and> deref (heap_of \<sigma>) p = Some c \<and> n_aug c \<noteq> aug_uninitialized \<and>
     n_aug c \<noteq> tree_sum (version (tree_step (hash_of C)) T0 reqs 1)"
proof -
  have pre: "sched_pre (small_config 2 2) path_heap (Some 2) path_tree [(OP_INSERT, 5), (OP_NONE, 0)]" by (rule small_pre) simp_all
  from early_reached obtain \<sigma> c where "reachable (small_config 2 2) path_heap (Some 2) [(OP_INSERT, 5), (OP_NONE, 0)] \<sigma>"
    "num_committed \<sigma> = 2" "get_snapshot (small_config 2 2) 1 \<sigma> = Done (Some 3)" "cells (heap_of \<sigma>) 3 = Some c" "n_aug c = 2" by auto
  moreover have "num_tasks (small_config 2 2) = 2" by (simp add: small_config_def)
  ultimately show ?thesis using pre early_tree_sum unfolding tree_at_def
    by (intro exI [of _ "small_config 2 2"] exI [of _ path_heap] exI [of _ "Some 2"] exI [of _ path_tree]
        exI [of _ "[(OP_INSERT, 5), (OP_NONE, 0)]"] exI [of _ \<sigma>] exI [of _ "Some 3"] exI [of _ c]) (simp add: deref_def)
qed

text \<open>C15. A defect: \<open>get_snapshot\<close> waits for block \<open>ver / block_size\<close>, but version \<open>ver\<close> belongs to block
  \<open>(ver - 1) / block_size\<close>. There is a reachable state with all tasks committed in which it returns a version
  whose sums have not been computed at all.\<close>

theorem snapshot_wrong_block:
  "\<exists>C H0 t0 T0 reqs \<sigma> p c. sched_pre C H0 t0 T0 reqs \<and> reachable C H0 t0 reqs \<sigma> \<and> num_committed \<sigma> = num_tasks C \<and>
     get_snapshot C (num_tasks C) \<sigma> = Done p \<and> deref (heap_of \<sigma>) p = Some c \<and> n_aug c = aug_uninitialized"
proof -
  have pre: "sched_pre (small_config 2 2) path_heap (Some 2) path_tree [(OP_INSERT, 9), (OP_NONE, 0)]" by (rule small_pre) simp_all
  from other_reached obtain \<sigma> c where "reachable (small_config 2 2) path_heap (Some 2) [(OP_INSERT, 9), (OP_NONE, 0)] \<sigma>"
    "num_committed \<sigma> = 2" "get_snapshot (small_config 2 2) 2 \<sigma> = Done (Some 3)" "cells (heap_of \<sigma>) 3 = Some c"
    "n_aug c = aug_uninitialized" by auto
  moreover have "num_tasks (small_config 2 2) = 2" by (simp add: small_config_def)
  ultimately show ?thesis using pre
    by (intro exI [of _ "small_config 2 2"] exI [of _ path_heap] exI [of _ "Some 2"] exI [of _ path_tree]
        exI [of _ "[(OP_INSERT, 9), (OP_NONE, 0)]"] exI [of _ \<sigma>] exI [of _ "Some 3"] exI [of _ c]) (simp add: deref_def)
qed

text \<open>C16. A defect: workers stop with blocks left over. There is a reachable state in which the client
  has issued everything, all tasks are committed and all threads have ended, and \<open>get_snapshot\<close> of an
  issued version still waits; nothing can end that wait.\<close>

theorem snapshot_hangs:
  "\<exists>C H0 t0 T0 reqs \<sigma>. sched_pre C H0 t0 T0 reqs \<and> reachable C H0 t0 reqs \<sigma> \<and> todo \<sigma> = [] \<and>
     num_committed \<sigma> = num_tasks C \<and> joinable C \<sigma> \<and> (\<exists>ver \<le> num_committed \<sigma>. get_snapshot C ver \<sigma> = Wait)"
proof -
  let ?r = "[(OP_NONE, 0), (OP_NONE, 0), (OP_NONE, 0), (OP_NONE, 0)]"
  have pre: "sched_pre (small_config 1 4) path_heap (Some 2) path_tree ?r" by (rule small_pre) simp_all
  from hang_reached obtain \<sigma> where "reachable (small_config 1 4) path_heap (Some 2) ?r \<sigma>" "num_committed \<sigma> = 4" "todo \<sigma> = []"
    "joinable (small_config 1 4) \<sigma>" "get_snapshot (small_config 1 4) 3 \<sigma> = Wait" by blast
  moreover have "num_tasks (small_config 1 4) = 4" by (simp add: small_config_def)
  ultimately show ?thesis using pre
    by (intro exI [of _ "small_config 1 4"] exI [of _ path_heap] exI [of _ "Some 2"] exI [of _ path_tree]
        exI [of _ ?r] exI [of _ \<sigma>]) (auto intro: exI [of _ 3])
qed

section \<open>Pointer operations\<close>

text \<open>C17. The pointer-level insertion with its allocations and field writes refines the functional
  one and is persistent: on a heap whose nodes are labelled by the trees below them it returns, the
  result represents the functional result, every old pointer still represents what it did, and no
  old node is written.\<close>

theorem search_insert_refines:
  assumes "frozen H S" "points S p T"
  shows "\<exists>H' S' q. search_insert_at ver H p pry key = Some (H', q) \<and>
    frozen H' S' \<and> points S' q (search_insert ver T pry key) \<and>
    (\<forall>p' T'. points S p' T' \<longrightarrow> points S' p' T') \<and> (\<forall>b < brk H. cells H' b = cells H b)"
proof -
  from search_insert_at_correct [OF assms, of ver pry key] obtain H' S' q where
    "search_insert_at ver H p pry key = Some (H', q)" "frozen H' S'" "grows H S H' S'" "points S' q (search_insert ver T pry key)"
    by (rule returns_E)
  then show ?thesis by (blast intro: grows_points grows_keeps)
qed

lemma empty_frozen: "frozen empty_heap Map.empty" "points Map.empty None Null"
  by (simp_all add: frozen_def)

theorem search_insert_refines_witness:
  "\<exists>H' S' q. search_insert_at 1 empty_heap None 5 9 = Some (H', q) \<and> points S' q (Node 1 5 9 1 0 Null Null)"
  using search_insert_refines [OF empty_frozen, of 1 5 9] by auto

text \<open>C18. The same for deletion.\<close>

theorem search_delete_refines:
  assumes "frozen H S" "points S p T"
  shows "\<exists>H' S' q. search_delete_at ver H p pry key = Some (H', q) \<and>
    frozen H' S' \<and> points S' q (search_delete ver T pry key) \<and>
    (\<forall>p' T'. points S p' T' \<longrightarrow> points S' p' T') \<and> (\<forall>b < brk H. cells H' b = cells H b)"
proof -
  from search_delete_at_correct [OF assms, of ver pry key] obtain H' S' q where
    "search_delete_at ver H p pry key = Some (H', q)" "frozen H' S'" "grows H S H' S'" "points S' q (search_delete ver T pry key)"
    by (rule returns_E)
  then show ?thesis by (blast intro: grows_points grows_keeps)
qed

theorem search_delete_refines_witness:
  "\<exists>H' S' q. search_delete_at 1 path_heap (Some 2) 9 9 = Some (H', q) \<and>
     points S' q (Node 0 8 8 1 0 (Node 0 7 7 1 0 Null Null) Null)"
proof -
  from path_represents obtain S where S: "frozen path_heap S" "points S (Some 2) path_tree" by (auto simp: represents_def)
  from search_delete_refines [OF S, of 1 9 9] show ?thesis by (auto simp: path_tree_def search_delete_Node)
qed

text \<open>Summing writes nothing but cached sums: if each cached sum is absent or right, \<open>augment\<close>
  returns the sum of all counters below the pointer, keeps that condition, caches the sum at the
  pointer and changes no other field of any node.\<close>

theorem augment_sums:
  assumes "frozen H S" "augs_ok H S" "points S p T"
  shows "\<exists>H'. augment_at H p = Some (H', tree_sum T) \<and> modulo_aug H H' \<and> frozen H' S \<and> augs_ok H' S \<and>
    (\<forall>b c. p = Some b \<longrightarrow> cells H' b = Some c \<longrightarrow> n_aug c = tree_sum T)"
  using augment_at_correct [OF assms] frozen_modulo_aug [OF assms(1)] by blast

theorem augment_sums_witness: "\<exists>H'. augment_at path_heap (Some 2) = Some (H', 3)"
proof -
  from path_represents obtain S where S: "frozen path_heap S" "points S (Some 2) path_tree" by (auto simp: represents_def)
  have "augs_ok path_heap S" by (auto simp: augs_ok_def path_heap_def leaf_cell_def split: if_splits)
  from augment_sums [OF S(1) this S(2)] show ?thesis by (auto simp: path_tree_def)
qed

section \<open>The persistent treap\<close>

text \<open>C19. Inserting a key into a treap yields a treap in which the counter of the key is one higher
  (one for a new key, wrapping at 64 bits) and every other counter is unchanged.\<close>

theorem search_insert_correct:
  assumes "treap (hash64 seed seed64) t"
  shows "treap (hash64 seed seed64) (search_insert ver t (hash64 seed seed64 key) key) \<and>
    counts (search_insert ver t (hash64 seed seed64 key) key) = bump key (counts t)"
  using assms by (simp add: treap_search_insert counts_search_insert inj_hash64)

theorem search_insert_correct_witness:
  "counts (search_insert 1 (Node 0 (hash64 (1, 2, 3, 4) (5, 6, 7, 8) 9) 9 2 0 Null Null)
     (hash64 (1, 2, 3, 4) (5, 6, 7, 8) 9) 9) 9 = Some 3"
  using search_insert_correct [of "(1, 2, 3, 4)" "(5, 6, 7, 8)"
      "Node 0 (hash64 (1, 2, 3, 4) (5, 6, 7, 8) 9) 9 2 0 Null Null" 1 9]
  by (simp add: bump_def)

text \<open>C20. Deleting a key from a treap yields a treap in which the counter of the key is one lower,
  the key is gone when its counter was one, nothing happens when it was absent, and every other
  counter is unchanged.\<close>

theorem search_delete_correct:
  assumes "treap (hash64 seed seed64) t"
  shows "treap (hash64 seed seed64) (search_delete ver t (hash64 seed seed64 key) key) \<and>
    counts (search_delete ver t (hash64 seed seed64 key) key) = drop_one key (counts t)"
  using assms by (simp add: treap_search_delete counts_search_delete inj_hash64)

theorem search_delete_correct_witness:
  "counts (search_delete 1 (Node 0 (hash64 (1, 2, 3, 4) (5, 6, 7, 8) 9) 9 1 0 Null Null)
     (hash64 (1, 2, 3, 4) (5, 6, 7, 8) 9) 9) 9 = None"
  using search_delete_correct [of "(1, 2, 3, 4)" "(5, 6, 7, 8)"
      "Node 0 (hash64 (1, 2, 3, 4) (5, 6, 7, 8) 9) 9 1 0 Null Null" 1 9]
  by (simp add: drop_one_def)

text \<open>A point query and a range query are exact on a treap whose sums were filled in: \<open>find\<close>
  returns the counter of the key, or nothing for an absent key, and \<open>range_estimate\<close> the sum of the counters of the
  keys between the bounds, both included.\<close>

theorem queries_exact:
  assumes "treap (hash64 seed seed64) t" "sums_ok t"
  shows "val_of (find (fst (augment t)) key) = counts t key \<and>
    range_estimate (fst (augment t)) l r = sum_counts (counts t) (\<lambda>k. l \<le> k \<and> k \<le> r)"
proof -
  have c: "treap (hash64 seed seed64) (fst (augment t))" "counts (fst (augment t)) = counts t"
    using erase_aug_contents [OF augment_erase, of t] assms(1) by auto
  show ?thesis
    using find_counts [OF c(1), of key] range_estimate_correct [OF c(1), of l r] augment_sum [OF assms(2)] c(2) by simp
qed

theorem queries_exact_witness:
  "val_of (find (fst (augment (Node 0 (hash64 (1, 2, 3, 4) (5, 6, 7, 8) 9) 9 2 0 Null Null))) 9) = Some 2"
  using queries_exact [of "(1, 2, 3, 4)" "(5, 6, 7, 8)" "Node 0 (hash64 (1, 2, 3, 4) (5, 6, 7, 8) 9) 9 2 0 Null Null" 9 0 0]
  by simp

text \<open>The shape of a treap does not depend on its history: two treaps with the same counters
  have the same nodes in the same places, whatever insertions, deletions or merges made them.\<close>

theorem treap_history_independent:
  assumes "treap (hash64 seed seed64) s" "treap (hash64 seed seed64) t" "counts s = counts t"
  shows "shape s = shape t"
  using treap_unique [OF assms(1,2) inj_hash64 assms(3)] .

theorem treap_history_independent_witness:
  "shape (Node 0 (hash64 (1, 2, 3, 4) (5, 6, 7, 8) 9) 9 2 0 Null Null) =
   shape (Node 4 (hash64 (1, 2, 3, 4) (5, 6, 7, 8) 9) 9 2 2 Null Null)"
  by (rule treap_history_independent [of "(1, 2, 3, 4)" "(5, 6, 7, 8)"]) simp_all

text \<open>The parallel bulk build of the first \<open>n\<close> elements of an array yields a treap that counts the
  occurrences of each element, with all sums filled in.\<close>

theorem build_parallel_correct:
  assumes "n \<le> length elems"
  shows "treap (hash64 seed seed64) (build_parallel (hash64 seed seed64) n elems) \<and>
    counts (build_parallel (hash64 seed seed64) n elems) = occurrences (take n elems) \<and>
    summed (build_parallel (hash64 seed seed64) n elems) \<and> vers (build_parallel (hash64 seed seed64) n elems) \<subseteq> {0}"
  using build_correct [OF inj_hash64 assms] build_parallel_augments [of "hash64 seed seed64" n elems] by simp

theorem build_parallel_correct_witness:
  "counts (build_parallel (hash64 (1, 2, 3, 4) (5, 6, 7, 8)) 2 [7, 7, 3]) 7 = Some 2"
  using build_parallel_correct [of 2 "[7, 7, 3]" "(1, 2, 3, 4)" "(5, 6, 7, 8)"]
  by (simp add: occurrences_def)

text \<open>C21. The bulk build on the node heap, in whatever order the two branches of each fork-join call run: it returns and
  never touches an address that holds no node; the result is a treap in which every element of the array is counted and all
  sums are filled in; it occupies new addresses only, no older node changes, and every other node the build allocated has been released.\<close>

theorem build_parallel_in_place:
  assumes "\<forall>b \<ge> brk H. cells H b = None" and "n \<le> length elems"
  shows "\<exists>H' p A T. build_parallel_at order (hash64 seed seed64) H n elems = Some (H', p) \<and>
    owns H' p T A \<and> represents H' p T \<and> treap (hash64 seed seed64) T \<and> counts T = occurrences (take n elems) \<and> summed T \<and>
    A \<subseteq> {brk H..<brk H'} \<and> (\<forall>b < brk H. cells H' b = cells H b) \<and> (\<forall>b \<ge> brk H. b \<notin> A \<longrightarrow> cells H' b = None)"
proof -
  let ?T = "build_parallel (hash64 seed seed64) n elems"
  from build_parallel_at_ok [OF assms(1), of order "hash64 seed seed64" n elems] obtain H' p where
    h: "build_parallel_at order (hash64 seed seed64) H n elems = Some (H', p)" "allocates H H' p ?T" by blast
  have "treap (hash64 seed seed64) ?T \<and> counts ?T = occurrences (take n elems) \<and> summed ?T"
    using build_correct [OF inj_hash64 assms(2)] build_parallel_augments [of "hash64 seed seed64" n elems] by simp
  with h allocates_represents [OF h(2)] show ?thesis unfolding allocates_def by blast
qed

theorem build_parallel_in_place_witness:
  "\<exists>H' p T. build_parallel_at (\<lambda>H. even (brk H)) (hash64 (1, 2, 3, 4) (5, 6, 7, 8)) empty_heap 3 [7, 7, 3] = Some (H', p) \<and>
    represents H' p T \<and> counts T 7 = Some 2"
proof -
  have fresh: "\<forall>b \<ge> brk empty_heap. cells empty_heap b = None" by (simp add: empty_heap_def)
  have n: "3 \<le> length [7, 7, 3 :: u64]" by simp
  from build_parallel_in_place [OF fresh n, of "\<lambda>H. even (brk H)" "(1, 2, 3, 4)" "(5, 6, 7, 8)"] obtain H' p T where
    r: "build_parallel_at (\<lambda>H. even (brk H)) (hash64 (1, 2, 3, 4) (5, 6, 7, 8)) empty_heap 3 [7, 7, 3] = Some (H', p)"
      "represents H' p T" and c: "counts T = occurrences (take 3 [7, 7, 3])"
    by (elim exE conjE)
  have "counts T 7 = Some 2" unfolding c by (simp add: occurrences_def)
  with r show ?thesis by blast
qed

text \<open>The AES hash is perfect: at each of the four integer widths, for every choice of the
  random keys, different inputs have different hashes. In particular no two keys of a treap share
  a priority.\<close>

theorem aes_hash_perfect:
  "inj (hash64 seed seed64) \<and> inj (hash32 seed) \<and> inj (hash16 seed) \<and> inj (hash8 seed)"
  by (simp add: inj_def hash64_inject hash32_inject hash16_inject hash8_inject)

end
